(* ===== verification/Prelude.thy ===== *)
theory Prelude
  imports Main "HOL-Library.Word"
begin

text \<open>
  Shared vocabulary of the development: the outcomes of a C function call, the sequencing of
  calls, the judgement \<open>returns m P\<close> (the call returns normally, with a value satisfying \<open>P\<close>)
  with its rules, C \<open>int\<close> arithmetic, and \<open>memcpy\<close>/\<open>memset\<close> on byte arrays.
\<close>

section \<open>Outcomes of a C call\<close>

text \<open>
  A modelled C function either returns a value (\<open>Inr\<close>) or does not return normally (\<open>Inl\<close>):
  \<^item> \<open>Aborted\<close>: the code called \<open>abort()\<close>;
  \<^item> \<open>Undefined\<close>: the C standard gives the execution no meaning (a NULL or stale pointer is
    dereferenced, an array is accessed outside its bounds, a signed addition overflows);
  \<^item> \<open>Blocked\<close>: the call waits for a mutex or a condition that nobody releases or signals;
  \<^item> \<open>OutOfFuel\<close>: a bound the model puts on a loop was reached; every loop with such a bound
    comes with a lemma that names enough of it.
\<close>

datatype fault = Aborted | Undefined | Blocked | OutOfFuel

type_synonym 'a res = "fault + 'a"

definition bnd :: "'a res \<Rightarrow> ('a \<Rightarrow> 'b res) \<Rightarrow> 'b res" where
  "bnd m f = (case m of Inl e \<Rightarrow> Inl e | Inr x \<Rightarrow> f x)"

lemma bnd_Inl [simp]: "bnd (Inl e) f = Inl e"
  by (simp add: bnd_def)

lemma bnd_Inr [simp]: "bnd (Inr x) f = f x"
  by (simp add: bnd_def)

lemma bnd_assoc: "bnd (bnd m f) g = bnd m (\<lambda>x. bnd (f x) g)"
  by (simp add: bnd_def split: sum.splits)

lemma bnd_eq_Inr: "bnd m f = Inr y \<longleftrightarrow> (\<exists>x. m = Inr x \<and> f x = Inr y)"
  by (simp add: bnd_def split: sum.splits)

lemma bnd_cong [fundef_cong]: "m = m' \<Longrightarrow> (\<And>x. m' = Inr x \<Longrightarrow> f x = g x) \<Longrightarrow> bnd m f = bnd m' g"
  by (simp add: bnd_def split: sum.splits)

text \<open>Dereferencing a pointer: the object it points at, if there is one.\<close>

definition deref :: "'a option \<Rightarrow> 'a res" where
  "deref p = (case p of None \<Rightarrow> Inl Undefined | Some x \<Rightarrow> Inr x)"

lemma deref_simps [simp]: "deref None = Inl Undefined" "deref (Some x) = Inr x"
  by (simp_all add: deref_def)

lemma deref_eq_Inr [simp]: "deref p = Inr x \<longleftrightarrow> p = Some x"
  by (simp add: deref_def split: option.splits)

definition when_ok :: "bool \<Rightarrow> fault \<Rightarrow> 'a \<Rightarrow> 'a res" where
  "when_ok b e x = (if b then Inr x else Inl e)"

lemma when_ok_simps [simp]: "when_ok True e x = Inr x" "when_ok False e x = Inl e"
  by (simp_all add: when_ok_def)

section \<open>Total correctness of a call\<close>

text \<open>
  \<open>returns m P\<close> says that the call comes back and that \<open>P\<close> holds of what it returns. The rules
  collected in \<open>wp\<close> compute it from the outside in.
\<close>

named_theorems wp \<open>rules that reduce a returns judgement\<close>

definition returns :: "'a res \<Rightarrow> ('a \<Rightarrow> bool) \<Rightarrow> bool" where
  "returns m P = (case m of Inl e \<Rightarrow> False | Inr x \<Rightarrow> P x)"

lemma returns_Inr [simp, wp]: "returns (Inr x) P = P x"
  by (simp add: returns_def)

lemma returns_Inl [simp, wp]: "returns (Inl e) P = False"
  by (simp add: returns_def)

lemma returns_bnd [simp, wp]: "returns (bnd m f) P = returns m (\<lambda>x. returns (f x) P)"
  by (simp add: returns_def bnd_def split: sum.splits)

lemma returns_deref [wp]: "returns (deref p) P = (\<exists>x. p = Some x \<and> P x)"
  by (cases p) simp_all

lemma returns_when_ok [simp, wp]: "returns (when_ok b e x) P = (b \<and> P x)"
  by (cases b) simp_all

lemma returns_prod [simp, wp]:
  "returns (case p of (a, b) \<Rightarrow> f a b) P = (case p of (a, b) \<Rightarrow> returns (f a b) P)"
  by (cases p) simp

lemma returns_if [wp]:
  "returns (if c then m else n) P = (if c then returns m P else returns n P)"
  by simp

lemma returns_let [wp]: "returns (Let x f) P = (let y = x in returns (f y) P)"
  by simp

lemma returns_iff: "returns m P \<longleftrightarrow> (\<exists>x. m = Inr x \<and> P x)"
  by (simp add: returns_def split: sum.splits)

lemma returnsI: "m = Inr x \<Longrightarrow> P x \<Longrightarrow> returns m P"
  by simp

lemma returnsE: "returns m P \<Longrightarrow> (\<And>x. m = Inr x \<Longrightarrow> P x \<Longrightarrow> R) \<Longrightarrow> R"
  by (auto simp: returns_iff)

lemma returns_mono: "returns m P \<Longrightarrow> (\<And>x. P x \<Longrightarrow> Q x) \<Longrightarrow> returns m Q"
  by (auto simp: returns_iff)

lemma returns_conj: "returns m P \<Longrightarrow> returns m Q \<Longrightarrow> returns m (\<lambda>x. P x \<and> Q x)"
  by (auto simp: returns_iff)

lemma returns_bndI:
  "returns m P \<Longrightarrow> (\<And>x. P x \<Longrightarrow> returns (f x) Q) \<Longrightarrow> returns (bnd m f) Q"
  by (auto simp: returns_iff bnd_eq_Inr)

text \<open>
  \<open>refines m a R\<close>: the call \<open>m\<close> ends like the specification \<open>a\<close>, with the same fault or with a
  value that \<open>R\<close> relates to the specified one.
\<close>

definition refines :: "'c res \<Rightarrow> 'a res \<Rightarrow> ('a \<Rightarrow> 'c \<Rightarrow> bool) \<Rightarrow> bool" where
  "refines m a R = (case a of Inl e \<Rightarrow> m = Inl e | Inr x \<Rightarrow> returns m (R x))"

lemma refines_simps [simp]:
  "refines m (Inr x) R = returns m (R x)" "refines m (Inl e) R = (m = Inl e)"
  by (simp_all add: refines_def)

lemma refines_bnd:
  "refines m a R \<Longrightarrow> (\<And>x y. a = Inr x \<Longrightarrow> R x y \<Longrightarrow> refines (f y) (g x) S) \<Longrightarrow>
   refines (bnd m f) (bnd a g) S"
  by (cases a) (auto elim!: returnsE)

lemma refines_bnd_left:
  "returns m P \<Longrightarrow> (\<And>y. P y \<Longrightarrow> refines (f y) a S) \<Longrightarrow> refines (bnd m f) a S"
  by (auto elim!: returnsE)

lemma refines_mono: "refines m a R \<Longrightarrow> (\<And>x y. R x y \<Longrightarrow> S x y) \<Longrightarrow> refines m a S"
  by (cases a) (auto elim: returns_mono)

section \<open>C int arithmetic\<close>

text \<open>
  \<open>int\<close> is 32 bits wide on the platforms the library is built for. A signed operation whose
  mathematical result does not fit is undefined.
\<close>

definition INT_MAX :: int where "INT_MAX = 2147483647"

definition INT_MIN :: int where "INT_MIN = - 2147483648"

definition c_int :: "int \<Rightarrow> int res" where
  "c_int z = when_ok (INT_MIN \<le> z \<and> z \<le> INT_MAX) Undefined z"

definition is_int :: "int \<Rightarrow> bool" where
  "is_int z \<longleftrightarrow> INT_MIN \<le> z \<and> z \<le> INT_MAX"

lemma c_int_ok [simp]: "is_int z \<Longrightarrow> c_int z = Inr z"
  by (simp add: c_int_def is_int_def)

lemma returns_c_int [wp]: "returns (c_int z) P = (is_int z \<and> P z)"
  by (simp add: c_int_def is_int_def)

lemma is_int_bounds: "0 \<le> z \<Longrightarrow> z \<le> INT_MAX \<Longrightarrow> is_int z"
  by (simp add: is_int_def INT_MIN_def)

lemma c_int_eq_Inr: "c_int z = Inr y \<longleftrightarrow> is_int z \<and> y = z"
  by (auto simp: c_int_def is_int_def when_ok_def)

lemma c_int_overflow: "\<not> is_int z \<Longrightarrow> c_int z = Inl Undefined"
  by (auto simp: c_int_def is_int_def when_ok_def)

section \<open>Bytes\<close>

type_synonym byte = "8 word"

text \<open>
  \<open>mread bs i n\<close> is the source side of a \<open>memcpy\<close> of \<open>n\<close> bytes from \<open>&bs[i]\<close>, \<open>mwrite bs i src\<close>
  the destination side. A negative length becomes a huge \<open>size_t\<close>, which no object of the
  program can hold.
\<close>

definition mread :: "byte list \<Rightarrow> int \<Rightarrow> int \<Rightarrow> byte list res" where
  "mread bs i n = when_ok (0 \<le> i \<and> 0 \<le> n \<and> i + n \<le> int (length bs)) Undefined
     (take (nat n) (drop (nat i) bs))"

definition mwrite :: "byte list \<Rightarrow> int \<Rightarrow> byte list \<Rightarrow> byte list res" where
  "mwrite bs i src = when_ok (0 \<le> i \<and> i + int (length src) \<le> int (length bs)) Undefined
     (take (nat i) bs @ src @ drop (nat i + length src) bs)"

definition mset_zero :: "byte list \<Rightarrow> int \<Rightarrow> byte list res" where
  "mset_zero bs n = (if n < 0 then Inl Undefined else mwrite bs 0 (replicate (nat n) 0))"

lemma length_mread: "mread bs i n = Inr xs \<Longrightarrow> length xs = nat n"
  by (auto simp: mread_def when_ok_def split: if_splits)

lemma length_mwrite: "mwrite bs i src = Inr bs' \<Longrightarrow> length bs' = length bs"
  by (auto simp: mwrite_def when_ok_def split: if_splits)

lemma nth_mwrite:
  assumes "mwrite bs i src = Inr bs'" and "k < length bs"
  shows "bs' ! k =
    (if nat i \<le> k \<and> k < nat i + length src then src ! (k - nat i) else bs ! k)"
  using assms by (auto simp: mwrite_def when_ok_def nth_append split: if_splits)

lemma mread_mwrite:
  assumes "mwrite bs i src = Inr bs'" and "n = int (length src)"
  shows "mread bs' i n = Inr src"
  using assms by (auto simp: mwrite_def mread_def when_ok_def split: if_splits)

lemma mwrite_ok:
  "0 \<le> i \<Longrightarrow> i + int (length src) \<le> int (length bs) \<Longrightarrow> \<exists>bs'. mwrite bs i src = Inr bs'"
  by (simp add: mwrite_def)

section \<open>Allocation\<close>

text \<open>
  Whether the \<open>n\<close>-th allocation of an arena succeeds is up to the system: every operation that
  allocates takes the answers as a function \<open>ok\<close>. The number of the allocation is also the
  reference of the object it creates, so references are never reused.
\<close>

definition alloc :: "(nat \<Rightarrow> bool) \<Rightarrow> nat \<Rightarrow> nat option \<times> nat" where
  "alloc ok t = (if ok t then Some t else None, Suc t)"

lemma alloc_ok [simp]: "ok t \<Longrightarrow> alloc ok t = (Some t, Suc t)"
  by (simp add: alloc_def)

lemma alloc_fail [simp]: "\<not> ok t \<Longrightarrow> alloc ok t = (None, Suc t)"
  by (simp add: alloc_def)

section \<open>Lists\<close>

definition hd_opt :: "'a list \<Rightarrow> 'a option" where
  "hd_opt xs = (case xs of [] \<Rightarrow> None | x # _ \<Rightarrow> Some x)"

lemma hd_opt_simps [simp]: "hd_opt [] = None" "hd_opt (x # xs) = Some x"
  by (simp_all add: hd_opt_def)

definition last_opt :: "'a list \<Rightarrow> 'a option" where
  "last_opt xs = (if xs = [] then None else Some (last xs))"

lemma last_opt_simps [simp]:
  "last_opt [] = None" "last_opt [x] = Some x" "last_opt (xs @ [x]) = Some x"
  by (simp_all add: last_opt_def)

lemma hd_opt_eq_None [simp]: "hd_opt xs = None \<longleftrightarrow> xs = []"
  by (cases xs) simp_all

lemma hd_opt_eq_Some: "hd_opt xs = Some x \<longleftrightarrow> (\<exists>ys. xs = x # ys)"
  by (cases xs) auto

lemma last_opt_eq_None [simp]: "last_opt xs = None \<longleftrightarrow> xs = []"
  by (simp add: last_opt_def)

lemma last_opt_eq_Some: "last_opt xs = Some x \<longleftrightarrow> (\<exists>ys. xs = ys @ [x])"
  by (cases xs rule: rev_cases) (auto simp: last_opt_def)

lemma distinct_length_le_bound:
  "distinct xs \<Longrightarrow> set xs \<subseteq> {..<(n::nat)} \<Longrightarrow> length xs \<le> n"
  by (metis card_lessThan card_mono distinct_card finite_lessThan)

lemma remove_nth_distinct:
  assumes "distinct xs" and "i < length xs"
  shows "distinct (take i xs @ drop (Suc i) xs) \<and> set (take i xs @ drop (Suc i) xs) = set xs - {xs ! i}"
proof -
  have "xs = take i xs @ xs ! i # drop (Suc i) xs" using assms(2) by (rule id_take_nth_drop)
  moreover have "distinct (as @ bs) \<and> set (as @ bs) = set xs - {x}" if "xs = as @ x # bs" for as bs x
    using that assms(1) by auto
  ultimately show ?thesis by blast
qed

section \<open>Formatting numbers\<close>

text \<open>Decimal digits, and the conversion \<open>%03d\<close> of an \<open>int\<close>.\<close>

fun digits :: "nat \<Rightarrow> string" where
  "digits n = (if n < 10 then [char_of (48 + n)] else digits (n div 10) @ [char_of (48 + n mod 10)])"

declare digits.simps [simp del]

definition zero_padded :: "nat \<Rightarrow> string \<Rightarrow> string" where
  "zero_padded k s = replicate (k - length s) (CHR ''0'') @ s"

definition format_03d :: "int \<Rightarrow> string" where
  "format_03d i = (if i < 0 then ''-'' @ zero_padded 2 (digits (nat (- i))) else zero_padded 3 (digits (nat i)))"

text \<open>Operations that follow one another, each on the outcome of the one before.\<close>

fun in_turn :: "('a \<Rightarrow> 'a res) list \<Rightarrow> 'a \<Rightarrow> 'a res" where
  "in_turn [] x = Inr x"
| "in_turn (g # gs) x = bnd (g x) (in_turn gs)"

lemma in_turn_append: "in_turn (gs @ gs') w = bnd (in_turn gs w) (in_turn gs')"
  by (induction gs arbitrary: w) (simp_all add: bnd_assoc cong: bnd_cong)

end
