(* ===== verification/Locks.thy ===== *)
theory Locks
  imports Prelude
begin

text \<open>
  The lock and the condition variable of \<open>src/lock.c\<close> and \<open>src/condition.c\<close> (the POSIX branch):
  the \<open>state\<close> and \<open>owner\<close> bookkeeping the library keeps around a pthread mutex and a pthread
  condition, and the interleavings of threads that use them. The return codes of the pthread
  functions are parameters; a mutex is either held or free.
\<close>

section \<open>Threads as the locks see them\<close>

datatype thread_state =
    THREAD_STATE_NONE | THREAD_STATE_RUNNING | THREAD_STATE_BLOCKED
  | THREAD_STATE_IDLE | THREAD_STATE_EXITED | THREAD_STATE_JOINED

type_synonym tid = nat

type_synonym tstates = "tid \<Rightarrow> thread_state"

text \<open>
  \<open>ThreadSelf()\<close> is NULL unless the library is built with \<open>AIO4C_DEBUG_THREADS\<close>; the current
  thread is therefore an optional parameter \<open>cur\<close> of every operation.
\<close>

definition set_current_state :: "tid option \<Rightarrow> thread_state \<Rightarrow> tstates \<Rightarrow> tstates" where
  "set_current_state cur s ts = (case cur of None \<Rightarrow> ts | Some t \<Rightarrow> ts(t := s))"

lemma set_current_state_simps [simp]:
  "set_current_state None s ts = ts" "set_current_state (Some t) s ts = ts(t := s)"
  by (simp_all add: set_current_state_def)

section \<open>Locks\<close>

datatype lock_state = LOCK_STATE_DESTROYED | LOCK_STATE_FREE | LOCK_STATE_LOCKED

record lock =
  lk_state :: lock_state
  lk_owner :: "tid option"
  lk_held :: bool

definition NewLock :: "bool \<Rightarrow> int \<Rightarrow> lock option" where
  "NewLock mem_ok e =
     (if \<not> mem_ok then None
      else
        let l = \<lparr>lk_state = LOCK_STATE_DESTROYED, lk_owner = None, lk_held = False\<rparr> in
        if e \<noteq> 0 then None
        else Some (l\<lparr>lk_state := LOCK_STATE_FREE\<rparr>))"

definition TakeLock :: "tid option \<Rightarrow> int \<Rightarrow> lock \<times> tstates \<Rightarrow> (bool \<times> lock \<times> tstates) res" where
  "TakeLock cur e = (\<lambda>(l, ts).
     let ts1 = set_current_state cur THREAD_STATE_BLOCKED ts in
     if e \<noteq> 0 then Inr (False, l, set_current_state cur THREAD_STATE_RUNNING ts1)
     else if lk_held l then Inl Blocked
     else Inr (True, l\<lparr>lk_owner := cur, lk_state := LOCK_STATE_LOCKED, lk_held := True\<rparr>,
               set_current_state cur THREAD_STATE_RUNNING ts1))"

definition ReleaseLock :: "int \<Rightarrow> lock \<Rightarrow> (bool \<times> lock) res" where
  "ReleaseLock e l =
     (let l1 = l\<lparr>lk_state := LOCK_STATE_FREE, lk_owner := None\<rparr> in
      if e \<noteq> 0 then Inr (False, l1)
      else if lk_held l then Inr (True, l1\<lparr>lk_held := False\<rparr>)
      else Inl Undefined)"

definition LockSetOwner :: "lock \<Rightarrow> tid option \<Rightarrow> lock" where
  "LockSetOwner l t = l\<lparr>lk_owner := t\<rparr>"

definition LockSetState :: "lock \<Rightarrow> lock_state \<Rightarrow> lock" where
  "LockSetState l s = l\<lparr>lk_state := s\<rparr>"

definition FreeLock :: "int \<Rightarrow> lock option \<Rightarrow> lock option res" where
  "FreeLock e p =
     (case p of
        None \<Rightarrow> Inr None
      | Some l \<Rightarrow> if e = 0 \<and> lk_held l then Inl Undefined else Inr None)"

text \<open>
  How the other components use a lock: in a build without thread debugging, with the pthread
  calls succeeding, through a pointer that may be NULL. The callers ignore what the functions
  return.
\<close>

definition acquire :: "lock option \<Rightarrow> lock option res" where
  "acquire p = bnd (deref p) (\<lambda>l. bnd (TakeLock None 0 (l, \<lambda>_. THREAD_STATE_NONE)) (\<lambda>(_, l', _). Inr (Some l')))"

definition release :: "lock option \<Rightarrow> lock option res" where
  "release p = bnd (deref p) (\<lambda>l. bnd (ReleaseLock 0 l) (\<lambda>(_, l'). Inr (Some l')))"

definition free_lock :: lock where
  "free_lock = \<lparr>lk_state = LOCK_STATE_FREE, lk_owner = None, lk_held = False\<rparr>"

definition taken_lock :: lock where
  "taken_lock = \<lparr>lk_state = LOCK_STATE_LOCKED, lk_owner = None, lk_held = True\<rparr>"

lemma NewLock_ok [simp]: "NewLock True 0 = Some free_lock"
  by (simp add: NewLock_def free_lock_def)

lemma acquire_free [simp]: "acquire (Some free_lock) = Inr (Some taken_lock)"
  by (simp add: acquire_def TakeLock_def free_lock_def taken_lock_def)

lemma release_taken [simp]: "release (Some taken_lock) = Inr (Some free_lock)"
  by (simp add: release_def ReleaseLock_def free_lock_def taken_lock_def)

lemma acquire_taken [simp]: "acquire (Some taken_lock) = Inl Blocked"
  by (simp add: acquire_def TakeLock_def taken_lock_def)

lemma acquire_NULL [simp]: "acquire None = Inl Undefined"
  by (simp add: acquire_def)

lemma FreeLock_free [simp]: "FreeLock e (Some free_lock) = Inr None"
  by (simp add: FreeLock_def free_lock_def)

section \<open>Conditions\<close>

datatype cond_state = COND_STATE_DESTROYED | COND_STATE_FREE | COND_STATE_WAITED

record condition =
  cd_state :: cond_state
  cd_owner :: "tid option"

definition NewCondition :: "bool \<Rightarrow> int \<Rightarrow> condition option" where
  "NewCondition mem_ok e =
     (if \<not> mem_ok then None
      else
        let c = \<lparr>cd_state = COND_STATE_DESTROYED, cd_owner = None\<rparr> in
        if e \<noteq> 0 then None
        else Some (c\<lparr>cd_state := COND_STATE_FREE\<rparr>))"

text \<open>
  \<open>_WaitCondition\<close> in three parts: what it does before \<open>pthread_cond_wait\<close>, which lets go of the
  mutex; what it does when that call fails (the mutex is then still held); and what it does when
  the call comes back with the mutex taken again.
\<close>

definition wait_begin ::
  "tid option \<Rightarrow> condition \<times> lock \<times> tstates \<Rightarrow> condition \<times> lock \<times> tstates" where
  "wait_begin cur = (\<lambda>(c, l, ts).
     (c\<lparr>cd_owner := cur, cd_state := COND_STATE_WAITED\<rparr>,
      LockSetState (LockSetOwner l None) LOCK_STATE_FREE,
      set_current_state cur THREAD_STATE_IDLE ts))"

definition wait_failed ::
  "tid option \<Rightarrow> condition \<times> lock \<times> tstates \<Rightarrow> condition \<times> lock \<times> tstates" where
  "wait_failed cur = (\<lambda>(c, l, ts).
     (c\<lparr>cd_owner := None, cd_state := COND_STATE_FREE\<rparr>, l,
      set_current_state cur THREAD_STATE_RUNNING ts))"

definition wait_end ::
  "tid option \<Rightarrow> condition \<times> lock \<times> tstates \<Rightarrow> condition \<times> lock \<times> tstates" where
  "wait_end cur = (\<lambda>(c, l, ts).
     (c\<lparr>cd_owner := None, cd_state := COND_STATE_FREE\<rparr>,
      LockSetState (LockSetOwner l cur) LOCK_STATE_LOCKED,
      set_current_state cur THREAD_STATE_RUNNING ts))"

text \<open>The mutex side of \<open>pthread_cond_wait\<close>.\<close>

definition mutex_drop :: "lock \<Rightarrow> lock res" where
  "mutex_drop l = when_ok (lk_held l) Undefined (l\<lparr>lk_held := False\<rparr>)"

definition mutex_regain :: "lock \<Rightarrow> lock res" where
  "mutex_regain l = when_ok (\<not> lk_held l) Blocked (l\<lparr>lk_held := True\<rparr>)"

definition WaitCondition ::
  "tid option \<Rightarrow> int \<Rightarrow> (lock \<Rightarrow> lock res) \<Rightarrow> condition \<times> lock \<times> tstates \<Rightarrow>
   (bool \<times> condition \<times> lock \<times> tstates) res" where
  "WaitCondition cur e others s =
     (case wait_begin cur s of (c, l, ts) \<Rightarrow>
        if e \<noteq> 0 then Inr (False, wait_failed cur (c, l, ts))
        else
          bnd (mutex_drop l) (\<lambda>l1.
          bnd (others l1) (\<lambda>l2.
          bnd (mutex_regain l2) (\<lambda>l3.
          Inr (True, wait_end cur (c, l3, ts))))))"

text \<open>Signalling a condition wakes a waiter, if there is one; it changes no field.\<close>

definition NotifyCondition :: "condition option \<Rightarrow> condition option res" where
  "NotifyCondition p = bnd (deref p) (\<lambda>c. Inr (Some c))"

definition FreeCondition :: "condition option \<Rightarrow> condition option" where
  "FreeCondition p = None"

definition free_cond :: condition where
  "free_cond = \<lparr>cd_state = COND_STATE_FREE, cd_owner = None\<rparr>"

lemma NewCondition_ok [simp]: "NewCondition True 0 = Some free_cond"
  by (simp add: NewCondition_def free_cond_def)

lemma NotifyCondition_Some [simp]: "NotifyCondition (Some c) = Inr (Some c)"
  by (simp add: NotifyCondition_def)

text \<open>
  A wait that succeeds leaves the lock taken and owned by the waiter; one that fails leaves the
  mutex held and the lock marked as free.
\<close>

lemma WaitCondition_undisturbed:
  "lk_held l \<Longrightarrow>
   WaitCondition cur 0 Inr (c, l, ts) =
     Inr (True, c\<lparr>cd_state := COND_STATE_FREE, cd_owner := None\<rparr>,
          l\<lparr>lk_state := LOCK_STATE_LOCKED, lk_owner := cur\<rparr>,
          set_current_state cur THREAD_STATE_RUNNING ts)"
  by (cases cur)
    (simp_all add: WaitCondition_def wait_begin_def wait_end_def mutex_drop_def mutex_regain_def
      LockSetState_def LockSetOwner_def)

lemma WaitCondition_fails:
  "e \<noteq> 0 \<Longrightarrow>
   WaitCondition cur e others (c, l, ts) =
     Inr (False, c\<lparr>cd_state := COND_STATE_FREE, cd_owner := None\<rparr>,
          l\<lparr>lk_state := LOCK_STATE_FREE, lk_owner := None\<rparr>,
          set_current_state cur THREAD_STATE_RUNNING ts)"
  by (cases cur)
    (simp_all add: WaitCondition_def wait_begin_def wait_failed_def LockSetState_def
      LockSetOwner_def)

section \<open>Threads sharing one lock and one condition\<close>

text \<open>
  Any number of threads, each of which takes the lock, releases it, or waits on the condition
  while it holds the lock. \<open>sys_in\<close> are the threads between a successful take and the release,
  \<open>sys_wait\<close> those inside \<open>pthread_cond_wait\<close>. Which thread moves next is not determined.
\<close>

record lsys =
  sys_lock :: lock
  sys_cond :: condition
  sys_ts :: tstates
  sys_in :: "tid set"
  sys_wait :: "tid set"

definition lsys_init :: lsys where
  "lsys_init = \<lparr>sys_lock = free_lock, sys_cond = free_cond, sys_ts = (\<lambda>_. THREAD_STATE_RUNNING),
                sys_in = {}, sys_wait = {}\<rparr>"

inductive lock_step :: "lsys \<Rightarrow> lsys \<Rightarrow> bool" where
  take_step:
    "t \<notin> sys_in s \<Longrightarrow> t \<notin> sys_wait s \<Longrightarrow>
     TakeLock (Some t) 0 (sys_lock s, sys_ts s) = Inr (True, l', ts') \<Longrightarrow>
     lock_step s (s\<lparr>sys_lock := l', sys_ts := ts', sys_in := insert t (sys_in s)\<rparr>)"
| release_step:
    "t \<in> sys_in s \<Longrightarrow> ReleaseLock 0 (sys_lock s) = Inr (True, l') \<Longrightarrow>
     lock_step s (s\<lparr>sys_lock := l', sys_in := sys_in s - {t}\<rparr>)"
| wait_step:
    "t \<in> sys_in s \<Longrightarrow> wait_begin (Some t) (sys_cond s, sys_lock s, sys_ts s) = (c', l', ts') \<Longrightarrow>
     mutex_drop l' = Inr l'' \<Longrightarrow>
     lock_step s (s\<lparr>sys_cond := c', sys_lock := l'', sys_ts := ts',
                    sys_in := sys_in s - {t}, sys_wait := insert t (sys_wait s)\<rparr>)"
| wake_step:
    "t \<in> sys_wait s \<Longrightarrow> mutex_regain (sys_lock s) = Inr l' \<Longrightarrow>
     wait_end (Some t) (sys_cond s, l', sys_ts s) = (c', l'', ts') \<Longrightarrow>
     lock_step s (s\<lparr>sys_cond := c', sys_lock := l'', sys_ts := ts',
                    sys_in := insert t (sys_in s), sys_wait := sys_wait s - {t}\<rparr>)"

inductive lock_reachable :: "lsys \<Rightarrow> bool" where
  lock_init: "lock_reachable lsys_init"
| lock_next: "lock_reachable s \<Longrightarrow> lock_step s s' \<Longrightarrow> lock_reachable s'"

definition held_by :: "tid \<Rightarrow> lock" where
  "held_by t = \<lparr>lk_state = LOCK_STATE_LOCKED, lk_owner = Some t, lk_held = True\<rparr>"

definition lock_inv :: "lsys \<Rightarrow> bool" where
  "lock_inv s \<longleftrightarrow>
     sys_in s = {} \<and> sys_lock s = free_lock \<or> (\<exists>t. sys_in s = {t} \<and> sys_lock s = held_by t)"

lemma take_free [simp]:
  "TakeLock (Some t) 0 (free_lock, ts) = Inr (True, held_by t, ts(t := THREAD_STATE_RUNNING))"
  by (simp add: TakeLock_def free_lock_def held_by_def)

lemma take_held [simp]: "TakeLock cur 0 (held_by u, ts) = Inl Blocked"
  by (simp add: TakeLock_def held_by_def)

lemma release_held [simp]: "ReleaseLock 0 (held_by u) = Inr (True, free_lock)"
  by (simp add: ReleaseLock_def free_lock_def held_by_def)

lemma wait_drops:
  "wait_begin (Some t) (c, held_by u, ts) = (c', l', ts') \<Longrightarrow> mutex_drop l' = Inr free_lock"
  by (auto simp: wait_begin_def mutex_drop_def LockSetState_def LockSetOwner_def free_lock_def
      held_by_def)

lemma wake_retakes:
  "mutex_regain free_lock = Inr l' \<Longrightarrow> wait_end (Some t) (c, l', ts) = (c', l'', ts') \<Longrightarrow> l'' = held_by t"
  by (auto simp: wait_end_def mutex_regain_def LockSetState_def LockSetOwner_def free_lock_def
      held_by_def)

lemma regain_held [simp]: "mutex_regain (held_by u) = Inl Blocked"
  by (simp add: mutex_regain_def held_by_def)

lemma held_by_fields [simp]:
  "lk_state (held_by t) = LOCK_STATE_LOCKED" "lk_owner (held_by t) = Some t" "lk_held (held_by t)"
  "held_by t \<noteq> free_lock"
  by (simp_all add: held_by_def free_lock_def)

lemma free_lock_fields [simp]:
  "lk_state free_lock = LOCK_STATE_FREE" "lk_owner free_lock = None" "\<not> lk_held free_lock"
  by (simp_all add: free_lock_def)

lemma lock_invE:
  assumes "lock_inv s"
    and "sys_in s = {} \<Longrightarrow> sys_lock s = free_lock \<Longrightarrow> P"
    and "\<And>t. sys_in s = {t} \<Longrightarrow> sys_lock s = held_by t \<Longrightarrow> P"
  shows P
  using assms by (auto simp: lock_inv_def)

lemma lock_inv_step:
  assumes "lock_step s s'" and inv: "lock_inv s"
  shows "lock_inv s'"
  using assms(1)
proof cases
  case (take_step t l' ts')
  from inv take_step(4) have f: "sys_in s = {}" "sys_lock s = free_lock"
    by (auto elim!: lock_invE)
  with take_step(4) have "l' = held_by t" by simp
  then show ?thesis unfolding take_step(1) lock_inv_def by (simp add: f)
next
  case (release_step t l')
  from inv release_step(2) have f: "sys_in s = {t}" "sys_lock s = held_by t"
    by (auto elim!: lock_invE)
  with release_step(3) have "l' = free_lock" by simp
  then show ?thesis unfolding release_step(1) lock_inv_def by (simp add: f)
next
  case (wait_step t c' l' ts' l'')
  from inv wait_step(2) have f: "sys_in s = {t}" "sys_lock s = held_by t"
    by (auto elim!: lock_invE)
  with wait_step(3) have "mutex_drop l' = Inr free_lock" by (simp add: wait_drops)
  with wait_step(4) have "l'' = free_lock" by simp
  then show ?thesis unfolding wait_step(1) lock_inv_def by (simp add: f)
next
  case (wake_step t l' c' l'' ts')
  from inv wake_step(3) have f: "sys_in s = {}" "sys_lock s = free_lock"
    by (auto elim!: lock_invE)
  with wake_step(3) have "mutex_regain free_lock = Inr l'" by simp
  then have "l'' = held_by t" using wake_step(4) by (rule wake_retakes)
  then show ?thesis unfolding wake_step(1) lock_inv_def by (simp add: f)
qed

lemma lock_inv_init: "lock_inv lsys_init"
  by (simp add: lsys_init_def lock_inv_def)

lemma lock_reachable_inv: "lock_reachable s \<Longrightarrow> lock_inv s"
proof (induction rule: lock_reachable.induct)
  case lock_init
  show ?case by (rule lock_inv_init)
next
  case (lock_next s s')
  then show ?case by (blast intro: lock_inv_step)
qed

text \<open>
  C21. However the threads interleave their takes, releases and waits, at most one of them is
  inside the critical section; while one is, the lock says \<open>LOCKED\<close> and names it as the owner,
  and while none is, the lock says \<open>FREE\<close>, has no owner and can be taken.
\<close>

theorem lock_bookkeeping_exact:
  assumes "lock_reachable s"
  shows "(\<forall>t u. t \<in> sys_in s \<and> u \<in> sys_in s \<longrightarrow> t = u)
    \<and> (\<forall>t. t \<in> sys_in s \<longleftrightarrow> lk_state (sys_lock s) = LOCK_STATE_LOCKED \<and> lk_owner (sys_lock s) = Some t)
    \<and> (sys_in s = {} \<longleftrightarrow> sys_lock s = free_lock)"
  using lock_reachable_inv [OF assms] unfolding lock_inv_def
  by (elim disjE exE) auto

theorem lock_bookkeeping_exact_witness:
  "\<exists>s::lsys. sys_in s = {7} \<and> lk_owner (sys_lock s) = Some 7"
proof -
  let ?s = "lsys_init\<lparr>sys_lock := held_by 7, sys_ts := (sys_ts lsys_init)(7 := THREAD_STATE_RUNNING),
                      sys_in := {7}\<rparr>"
  have "lock_step lsys_init ?s"
    using take_step [of 7 lsys_init "held_by 7" "(sys_ts lsys_init)(7 := THREAD_STATE_RUNNING)"]
    by (simp add: lsys_init_def)
  then have "lock_reachable ?s" by (rule lock_next [OF lock_init])
  note lock_bookkeeping_exact [OF this, THEN conjunct2, THEN conjunct1, THEN spec, of 7]
  moreover have i: "sys_in ?s = {7}" by simp
  ultimately have "lk_owner (sys_lock ?s) = Some 7" by (simp only: insert_iff simp_thms)
  with i show ?thesis by (intro exI [of _ ?s] conjI)
qed

text \<open>
  When \<open>pthread_cond_wait\<close> reports an error, \<open>_WaitCondition\<close> returns false with the mutex
  still held by the caller but with the lock recorded as free and without owner: the record no
  longer agrees with the mutex until the next release.
\<close>

theorem wait_error_leaves_lock_marked_free:
  assumes "e \<noteq> 0" and "l = held_by t"
  shows "\<exists>c' l' ts'. WaitCondition (Some t) e others (c, l, ts) = Inr (False, c', l', ts')
    \<and> lk_held l' \<and> lk_state l' = LOCK_STATE_FREE \<and> lk_owner l' = None
    \<and> ts' t = THREAD_STATE_RUNNING \<and> cd_state c' = COND_STATE_FREE"
  using assms by (simp add: WaitCondition_fails)

theorem wait_error_leaves_lock_marked_free_witness:
  "\<exists>c' l' ts'. WaitCondition (Some 3) 22 Inr (free_cond, held_by 3, \<lambda>_. THREAD_STATE_NONE) =
      Inr (False, c', l', ts') \<and> lk_held l' \<and> lk_state l' = LOCK_STATE_FREE"
  using wait_error_leaves_lock_marked_free [of 22 "held_by 3" 3 Inr free_cond "\<lambda>_. THREAD_STATE_NONE"]
  by auto

end
