(* ===== verification/Lists.thy ===== *)
theory Lists
  imports Prelude
begin

text \<open>
  The intrusive doubly linked list of \<open>src/list.c\<close>: a heap of nodes with their \<open>data\<close>, \<open>next\<close>
  and \<open>prev\<close> pointers, the list header with its \<open>first\<close> and \<open>last\<close> pointers, one definition per
  function of the file, and the refinement: on a heap that holds a list, every operation
  implements the corresponding operation on sequences and does not abort.
\<close>

section \<open>Nodes, headers and the heap\<close>

type_synonym nref = nat

record 'd node =
  ndata :: "'d option"
  nnext :: "nref option"
  nprev :: "nref option"

type_synonym 'd nheap = "nref \<rightharpoonup> 'd node"

record lst =
  lfirst :: "nref option"
  llast :: "nref option"

definition LIST_INITIALIZER :: lst where
  "LIST_INITIALIZER = \<lparr>lfirst = None, llast = None\<rparr>"

text \<open>Field accesses through a node pointer.\<close>

definition get_next :: "'d nheap \<Rightarrow> nref \<Rightarrow> nref option res" where
  "get_next h n = bnd (deref (h n)) (\<lambda>c. Inr (nnext c))"

definition get_prev :: "'d nheap \<Rightarrow> nref \<Rightarrow> nref option res" where
  "get_prev h n = bnd (deref (h n)) (\<lambda>c. Inr (nprev c))"

definition get_data :: "'d nheap \<Rightarrow> nref \<Rightarrow> 'd option res" where
  "get_data h n = bnd (deref (h n)) (\<lambda>c. Inr (ndata c))"

definition set_next :: "'d nheap \<Rightarrow> nref \<Rightarrow> nref option \<Rightarrow> 'd nheap res" where
  "set_next h n v = bnd (deref (h n)) (\<lambda>c. Inr (h(n \<mapsto> c\<lparr>nnext := v\<rparr>)))"

definition set_prev :: "'d nheap \<Rightarrow> nref \<Rightarrow> nref option \<Rightarrow> 'd nheap res" where
  "set_prev h n v = bnd (deref (h n)) (\<lambda>c. Inr (h(n \<mapsto> c\<lparr>nprev := v\<rparr>)))"

definition set_data :: "'d nheap \<Rightarrow> nref \<Rightarrow> 'd option \<Rightarrow> 'd nheap res" where
  "set_data h n v = bnd (deref (h n)) (\<lambda>c. Inr (h(n \<mapsto> c\<lparr>ndata := v\<rparr>)))"

lemmas node_access = get_next_def get_prev_def get_data_def set_next_def set_prev_def set_data_def

section \<open>The operations\<close>

definition NewNode ::
  "(nat \<Rightarrow> bool) \<Rightarrow> nat \<Rightarrow> 'd nheap \<Rightarrow> 'd option \<Rightarrow> nref option \<times> nat \<times> 'd nheap" where
  "NewNode ok t h d =
     (case alloc ok t of
        (None, t') \<Rightarrow> (None, t', h)
      | (Some n, t') \<Rightarrow> (Some n, t', h(n \<mapsto> \<lparr>ndata = d, nnext = None, nprev = None\<rparr>)))"

definition FreeNode :: "'d nheap \<Rightarrow> nref option \<Rightarrow> (nref option \<times> 'd nheap) res" where
  "FreeNode h p =
     (case p of
        None \<Rightarrow> Inr (None, h)
      | Some n \<Rightarrow> bnd (deref (h n)) (\<lambda>_. Inr (None, h(n := None))))"

definition ListAddAfter :: "'d nheap \<Rightarrow> lst \<Rightarrow> nref \<Rightarrow> nref \<Rightarrow> ('d nheap \<times> lst) res" where
  "ListAddAfter h l node new =
     bnd (set_prev h new (Some node)) (\<lambda>h1.
     bnd (get_next h1 node) (\<lambda>nx.
     bnd (set_next h1 new nx) (\<lambda>h2.
     bnd (get_next h2 node) (\<lambda>nx'.
     bnd (case nx' of
            None \<Rightarrow> Inr (h2, l\<lparr>llast := Some new\<rparr>)
          | Some k \<Rightarrow> bnd (set_prev h2 k (Some new)) (\<lambda>h3. Inr (h3, l))) (\<lambda>(h3, l').
     bnd (set_next h3 node (Some new)) (\<lambda>h4. Inr (h4, l')))))))"

definition ListAddBefore :: "'d nheap \<Rightarrow> lst \<Rightarrow> nref \<Rightarrow> nref \<Rightarrow> ('d nheap \<times> lst) res" where
  "ListAddBefore h l node new =
     bnd (get_prev h node) (\<lambda>pv.
     bnd (set_prev h new pv) (\<lambda>h1.
     bnd (set_next h1 new (Some node)) (\<lambda>h2.
     bnd (get_prev h2 node) (\<lambda>pv'.
     bnd (case pv' of
            None \<Rightarrow> Inr (h2, l\<lparr>lfirst := Some new\<rparr>)
          | Some k \<Rightarrow> bnd (set_next h2 k (Some new)) (\<lambda>h3. Inr (h3, l))) (\<lambda>(h3, l').
     bnd (set_prev h3 node (Some new)) (\<lambda>h4. Inr (h4, l')))))))"

definition ListEmpty :: "lst \<Rightarrow> bool" where
  "ListEmpty l \<longleftrightarrow> lfirst l = None"

text \<open>The two adding functions abort on a NULL node and on a node that carries no data.\<close>

definition check_node :: "'d nheap \<Rightarrow> nref option \<Rightarrow> nref res" where
  "check_node h p =
     (case p of
        None \<Rightarrow> Inl Aborted
      | Some n \<Rightarrow> bnd (get_data h n) (\<lambda>d. when_ok (d \<noteq> None) Aborted n))"

definition ListAddFirst :: "'d nheap \<Rightarrow> lst \<Rightarrow> nref option \<Rightarrow> ('d nheap \<times> lst) res" where
  "ListAddFirst h l p =
     bnd (check_node h p) (\<lambda>new.
     bnd (case lfirst l of
            None \<Rightarrow>
              bnd (set_prev h new None) (\<lambda>h1.
              bnd (set_next h1 new None) (\<lambda>h2.
              Inr (h2, \<lparr>lfirst = Some new, llast = Some new\<rparr>)))
          | Some f \<Rightarrow> ListAddBefore h l f new) (\<lambda>(h', l').
     bnd (get_prev h' new) (\<lambda>pv.
     when_ok (lfirst l' = Some new \<and> pv = None) Aborted (h', l'))))"

definition ListAddLast :: "'d nheap \<Rightarrow> lst \<Rightarrow> nref option \<Rightarrow> ('d nheap \<times> lst) res" where
  "ListAddLast h l p =
     bnd (check_node h p) (\<lambda>new.
     bnd (case llast l of
            None \<Rightarrow> ListAddFirst h l (Some new)
          | Some z \<Rightarrow> ListAddAfter h l z new) (\<lambda>(h', l').
     bnd (get_next h' new) (\<lambda>nx.
     when_ok (llast l' = Some new \<and> nx = None) Aborted (h', l'))))"

definition ListRemove :: "'d nheap \<Rightarrow> lst \<Rightarrow> nref \<Rightarrow> ('d nheap \<times> lst) res" where
  "ListRemove h l node =
     bnd (deref (h node)) (\<lambda>c.
     bnd (case nprev c of
            None \<Rightarrow> when_ok (lfirst l = Some node) Aborted (h, l\<lparr>lfirst := nnext c\<rparr>)
          | Some k \<Rightarrow> bnd (set_next h k (nnext c)) (\<lambda>h1. Inr (h1, l))) (\<lambda>(h1, l1).
     bnd (deref (h1 node)) (\<lambda>c1.
     bnd (case nnext c1 of
            None \<Rightarrow> when_ok (llast l1 = Some node) Aborted (h1, l1\<lparr>llast := nprev c1\<rparr>)
          | Some k \<Rightarrow> bnd (set_prev h1 k (nprev c1)) (\<lambda>h2. Inr (h2, l1))) (\<lambda>(h2, l2).
     bnd (set_prev h2 node None) (\<lambda>h3.
     bnd (set_next h3 node None) (\<lambda>h4. Inr (h4, l2)))))))"

definition ListPop :: "'d nheap \<Rightarrow> lst \<Rightarrow> (nref option \<times> 'd nheap \<times> lst) res" where
  "ListPop h l =
     (case lfirst l of
        None \<Rightarrow> Inr (None, h, l)
      | Some node \<Rightarrow>
          bnd (get_prev h node) (\<lambda>pv.
          bnd (when_ok (pv = None) Aborted ()) (\<lambda>_.
          bnd (ListRemove h l node) (\<lambda>(h', l').
          bnd (deref (h' node)) (\<lambda>c.
          when_ok (lfirst l' \<noteq> Some node \<and> nprev c = None \<and> nnext c = None \<and> llast l' \<noteq> Some node)
            Aborted (Some node, h', l'))))))"

section \<open>Segments of linked nodes\<close>

text \<open>
  \<open>dseg h p xs q\<close>: the nodes \<open>xs\<close> are linked both ways in this order, the first one's \<open>prev\<close>
  is \<open>p\<close> and the last one's \<open>next\<close> is \<open>q\<close>.
\<close>

definition or_ptr :: "nref option \<Rightarrow> nref option \<Rightarrow> nref option" where
  "or_ptr a b = (case a of None \<Rightarrow> b | Some x \<Rightarrow> Some x)"

lemma or_ptr_simps [simp]: "or_ptr None b = b" "or_ptr (Some x) b = Some x"
  by (simp_all add: or_ptr_def)

definition links :: "'d nheap \<Rightarrow> nref \<Rightarrow> (nref option \<times> nref option) option" where
  "links h x = map_option (\<lambda>c. (nprev c, nnext c)) (h x)"

lemma links_upd [simp]:
  "links (h(x := v)) y = (if y = x then map_option (\<lambda>c. (nprev c, nnext c)) v else links h y)"
  by (simp add: links_def)

lemma links_Some: "links h x = Some (p, q) \<longleftrightarrow> (\<exists>c. h x = Some c \<and> nprev c = p \<and> nnext c = q)"
  by (auto simp: links_def)

fun dseg :: "'d nheap \<Rightarrow> nref option \<Rightarrow> nref list \<Rightarrow> nref option \<Rightarrow> bool" where
  "dseg h p [] q = True"
| "dseg h p (x # xs) q \<longleftrightarrow>
     links h x = Some (p, or_ptr (hd_opt xs) q) \<and> dseg h (Some x) xs q"

definition dlist :: "'d nheap \<Rightarrow> lst \<Rightarrow> nref list \<Rightarrow> bool" where
  "dlist h l xs \<longleftrightarrow>
     distinct xs \<and> dseg h None xs None \<and> lfirst l = hd_opt xs \<and> llast l = last_opt xs"

lemma hd_opt_append: "hd_opt (xs @ ys) = or_ptr (hd_opt xs) (hd_opt ys)"
  by (cases xs) simp_all

lemma or_ptr_assoc: "or_ptr (or_ptr a b) c = or_ptr a (or_ptr b c)"
  by (cases a) simp_all

lemma or_ptr_None [simp]: "or_ptr a None = a"
  by (cases a) simp_all

lemma last_opt_Cons: "last_opt (x # xs) = or_ptr (last_opt xs) (Some x)"
  by (simp add: last_opt_def)

lemma dseg_append:
  "dseg h p (xs @ ys) q \<longleftrightarrow>
     dseg h p xs (or_ptr (hd_opt ys) q) \<and> dseg h (or_ptr (last_opt xs) p) ys q"
proof (induction xs arbitrary: p)
  case Nil
  then show ?case by simp
next
  case (Cons x xs)
  have "or_ptr (last_opt (x # xs)) p = or_ptr (last_opt xs) (Some x)"
    by (simp add: last_opt_Cons or_ptr_assoc)
  then show ?case
    using Cons by (auto simp: hd_opt_append or_ptr_assoc)
qed

lemma dseg_upd [simp]: "x \<notin> set xs \<Longrightarrow> dseg (h(x := v)) p xs q = dseg h p xs q"
  by (induction xs arbitrary: p) auto

lemma dseg_in_heap: "dseg h p xs q \<Longrightarrow> x \<in> set xs \<Longrightarrow> \<exists>c. h x = Some c"
  by (induction xs arbitrary: p) (auto simp: links_Some)

lemma dseg_cong: "(\<And>x. x \<in> set xs \<Longrightarrow> links h' x = links h x) \<Longrightarrow> dseg h' p xs q = dseg h p xs q"
  by (induction xs arbitrary: p) auto

lemma dlist_empty [simp]: "dlist h LIST_INITIALIZER []"
  by (simp add: dlist_def LIST_INITIALIZER_def)

lemma dlist_ListEmpty: "dlist h l xs \<Longrightarrow> ListEmpty l \<longleftrightarrow> xs = []"
  by (simp add: dlist_def ListEmpty_def)

lemma dlist_in_heap: "dlist h l xs \<Longrightarrow> x \<in> set xs \<Longrightarrow> \<exists>c. h x = Some c"
  by (auto simp: dlist_def dest: dseg_in_heap)

lemma dlist_cong: "dlist h l xs \<Longrightarrow> (\<And>x. x \<in> set xs \<Longrightarrow> links h' x = links h x) \<Longrightarrow> dlist h' l xs"
  using dseg_cong [of xs h' h None None] by (simp add: dlist_def)

lemma dlist_upd: "dlist h l xs \<Longrightarrow> x \<notin> set xs \<Longrightarrow> dlist (h(x := v)) l xs"
  by (simp add: dlist_def)

section \<open>The operations implement sequence operations\<close>

text \<open>
  \<open>untouched h h' xs\<close>: the step from \<open>h\<close> to \<open>h'\<close> leaves every node outside \<open>xs\<close> as it is and
  the data of every node.
\<close>

definition untouched :: "'d nheap \<Rightarrow> 'd nheap \<Rightarrow> nref set \<Rightarrow> bool" where
  "untouched h h' X \<longleftrightarrow>
     (\<forall>y. y \<notin> X \<longrightarrow> h' y = h y) \<and> (\<forall>y. map_option ndata (h' y) = map_option ndata (h y))"

lemma untouched_refl [simp]: "untouched h h X"
  by (simp add: untouched_def)

lemma untouched_trans:
  "untouched h h1 X \<Longrightarrow> untouched h1 h2 X \<Longrightarrow> untouched h h2 X"
  by (simp add: untouched_def)

lemma untouched_mono: "untouched h h' X \<Longrightarrow> X \<subseteq> Y \<Longrightarrow> untouched h h' Y"
  by (auto simp: untouched_def)

lemma untouched_upd:
  "x \<in> X \<Longrightarrow> h x = Some c \<Longrightarrow> ndata c' = ndata c \<Longrightarrow> untouched h (h(x \<mapsto> c')) X"
  by (auto simp: untouched_def)

lemma untouched_links: "untouched h h' X \<Longrightarrow> y \<notin> X \<Longrightarrow> links h' y = links h y"
  by (simp add: untouched_def links_def)

lemma dlist_untouched:
  "dlist h l xs \<Longrightarrow> untouched h h' X \<Longrightarrow> set xs \<inter> X = {} \<Longrightarrow> dlist h' l xs"
  by (erule dlist_cong) (auto intro: untouched_links)

lemma ListRemove_seq:
  assumes "dlist h l (as @ x # bs)"
  shows "returns (ListRemove h l x) (\<lambda>(h', l').
     dlist h' l' (as @ bs) \<and> links h' x = Some (None, None) \<and>
     untouched h h' (set (as @ x # bs)))"
  using assms
  by (cases as rule: rev_cases; cases bs)
    (auto simp: dlist_def dseg_append links_Some ListRemove_def node_access untouched_def
      last_opt_def hd_opt_append)

text \<open>Inserting a node that is in the heap and not in the list.\<close>

lemma ListAddAfter_seq:
  assumes "dlist h l (as @ n # bs)" and "h m = Some c" and "m \<notin> set (as @ n # bs)"
  shows "returns (ListAddAfter h l n m) (\<lambda>(h', l').
     dlist h' l' (as @ n # m # bs) \<and> untouched h h' (insert m (set (as @ n # bs))))"
  using assms
  by (cases bs)
    (auto simp: dlist_def dseg_append links_Some ListAddAfter_def node_access untouched_def
      last_opt_def hd_opt_append)

lemma ListAddBefore_seq:
  assumes "dlist h l (as @ n # bs)" and "h m = Some c" and "m \<notin> set (as @ n # bs)"
  shows "returns (ListAddBefore h l n m) (\<lambda>(h', l').
     dlist h' l' (as @ m # n # bs) \<and> untouched h h' (insert m (set (as @ n # bs))))"
  using assms
  by (cases as rule: rev_cases)
    (auto simp: dlist_def dseg_append links_Some ListAddBefore_def node_access untouched_def
      last_opt_def hd_opt_append)

lemma dlist_first_links:
  "dlist h l (x # xs) \<Longrightarrow> \<exists>c. h x = Some c \<and> nprev c = None"
  by (auto simp: dlist_def links_Some)

lemma dlist_last_links:
  "dlist h l (xs @ [x]) \<Longrightarrow> \<exists>c. h x = Some c \<and> nnext c = None"
  by (auto simp: dlist_def dseg_append links_Some)

lemma ListAddFirst_seq:
  assumes l: "dlist h l xs" and m: "h m = Some c" "ndata c \<noteq> None" "m \<notin> set xs"
  shows "returns (ListAddFirst h l (Some m)) (\<lambda>(h', l').
     dlist h' l' (m # xs) \<and> untouched h h' (insert m (set xs)))"
proof (cases xs)
  case Nil
  with assms show ?thesis
    by (auto simp: ListAddFirst_def check_node_def node_access dlist_def untouched_def last_opt_def)
next
  case (Cons f ys)
  with assms have "returns (ListAddBefore h l f m) (\<lambda>(h', l').
      dlist h' l' (m # f # ys) \<and> untouched h h' (insert m (set (f # ys))))"
    using ListAddBefore_seq [of h l "[]" f ys m c] by simp
  moreover have "lfirst l = Some f" using l Cons by (simp add: dlist_def)
  ultimately show ?thesis
    using m Cons
    by (auto simp: ListAddFirst_def check_node_def node_access dlist_def links_Some wp
        elim!: returns_mono)
qed

lemma ListAddLast_seq:
  assumes l: "dlist h l xs" and m: "h m = Some c" "ndata c \<noteq> None" "m \<notin> set xs"
  shows "returns (ListAddLast h l (Some m)) (\<lambda>(h', l').
     dlist h' l' (xs @ [m]) \<and> untouched h h' (insert m (set xs)))"
proof (cases xs rule: rev_cases)
  case Nil
  then have "llast l = None" using l by (simp add: dlist_def)
  moreover have "returns (ListAddFirst h l (Some m)) (\<lambda>(h', l').
      dlist h' l' [m] \<and> untouched h h' {m})"
    using ListAddFirst_seq [OF assms] Nil by simp
  ultimately show ?thesis
    using m Nil
    by (auto simp: ListAddLast_def check_node_def node_access dlist_def links_Some wp
        elim!: returns_mono)
next
  case (snoc ys z)
  with assms have "returns (ListAddAfter h l z m) (\<lambda>(h', l').
      dlist h' l' (ys @ [z, m]) \<and> untouched h h' (insert m (set (ys @ [z]))))"
    using ListAddAfter_seq [of h l ys z "[]" m c] by simp
  moreover have "llast l = Some z" using l snoc by (simp add: dlist_def)
  ultimately show ?thesis
    using m snoc
    by (auto simp: ListAddLast_def check_node_def node_access dlist_def links_Some dseg_append
        last_opt_def wp elim!: returns_mono)
qed

lemma ListPop_seq:
  assumes l: "dlist h l xs"
  shows "returns (ListPop h l) (\<lambda>(r, h', l').
     r = hd_opt xs \<and> dlist h' l' (tl xs) \<and> untouched h h' (set xs))"
proof (cases xs)
  case Nil
  with l show ?thesis by (simp add: ListPop_def dlist_def)
next
  case (Cons x ys)
  with l have "returns (ListRemove h l x) (\<lambda>(h', l').
      dlist h' l' ys \<and> links h' x = Some (None, None) \<and> untouched h h' (set (x # ys)))"
    using ListRemove_seq [of h l "[]" x ys] by simp
  moreover have "lfirst l = Some x" and "x \<notin> set ys" using l Cons by (simp_all add: dlist_def)
  ultimately show ?thesis
    using l Cons
    by (auto simp: ListPop_def node_access dlist_def links_Some wp hd_opt_eq_Some last_opt_eq_Some
        elim!: returns_mono)
qed

text \<open>Nothing to add: the code stops the program.\<close>

lemma ListAddLast_NULL: "ListAddLast h l None = Inl Aborted"
  by (simp add: ListAddLast_def check_node_def)

lemma ListAddFirst_NULL: "ListAddFirst h l None = Inl Aborted"
  by (simp add: ListAddFirst_def check_node_def)

lemma ListAddLast_no_data: "h n = Some c \<Longrightarrow> ndata c = None \<Longrightarrow> ListAddLast h l (Some n) = Inl Aborted"
  by (simp add: ListAddLast_def check_node_def node_access)

section \<open>Reading a list back\<close>

text \<open>The loop \<open>for (i = list->first; i != NULL; i = i->next)\<close>, with a bound on its length.\<close>

fun walk :: "nat \<Rightarrow> 'd nheap \<Rightarrow> nref option \<Rightarrow> nref list" where
  "walk 0 h p = []"
| "walk (Suc f) h None = []"
| "walk (Suc f) h (Some n) = (case h n of None \<Rightarrow> [] | Some c \<Rightarrow> n # walk f h (nnext c))"

lemma walk_None [simp]: "walk f h None = []"
  by (cases f) simp_all

lemma walk_dseg: "dseg h p xs None \<Longrightarrow> length xs \<le> f \<Longrightarrow> walk f h (hd_opt xs) = xs"
proof (induction xs arbitrary: p f)
  case Nil
  then show ?case by simp
next
  case (Cons x xs)
  then obtain f' where "f = Suc f'" by (cases f) auto
  with Cons show ?case by (auto simp: links_Some)
qed

lemma walk_dlist: "dlist h l xs \<Longrightarrow> length xs \<le> f \<Longrightarrow> walk f h (lfirst l) = xs"
  using walk_dseg [of h None xs f] by (simp add: dlist_def)

section \<open>Whole programs of list operations\<close>

text \<open>
  A client of the list: it allocates a node for each datum it adds and frees the nodes it takes
  out. \<open>list_run\<close> executes the pointer code, \<open>seq_run\<close> the same program on a plain sequence.
\<close>

datatype 'd lop = PushFirst 'd | PushLast 'd | PopFirst | RemoveAt nat

fun list_step ::
  "(nat \<Rightarrow> bool) \<Rightarrow> 'd lop \<Rightarrow> 'd nheap \<times> lst \<times> nat \<Rightarrow> ('d nheap \<times> lst \<times> nat) res" where
  "list_step ok (PushFirst d) (h, l, t) =
     (case NewNode ok t h (Some d) of (n, t', h') \<Rightarrow>
        bnd (ListAddFirst h' l n) (\<lambda>(h'', l'). Inr (h'', l', t')))"
| "list_step ok (PushLast d) (h, l, t) =
     (case NewNode ok t h (Some d) of (n, t', h') \<Rightarrow>
        bnd (ListAddLast h' l n) (\<lambda>(h'', l'). Inr (h'', l', t')))"
| "list_step ok PopFirst (h, l, t) =
     bnd (ListPop h l) (\<lambda>(n, h', l').
     bnd (FreeNode h' n) (\<lambda>(_, h''). Inr (h'', l', t)))"
| "list_step ok (RemoveAt i) (h, l, t) =
     (let ns = walk t h (lfirst l) in
      if i < length ns
      then bnd (ListRemove h l (ns ! i)) (\<lambda>(h', l').
           bnd (FreeNode h' (Some (ns ! i))) (\<lambda>(_, h''). Inr (h'', l', t)))
      else Inr (h, l, t))"

fun list_run ::
  "(nat \<Rightarrow> bool) \<Rightarrow> 'd lop list \<Rightarrow> 'd nheap \<times> lst \<times> nat \<Rightarrow> ('d nheap \<times> lst \<times> nat) res" where
  "list_run ok [] s = Inr s"
| "list_run ok (op # ops) s = bnd (list_step ok op s) (list_run ok ops)"

fun seq_step :: "'d lop \<Rightarrow> 'd list \<Rightarrow> 'd list" where
  "seq_step (PushFirst d) ds = d # ds"
| "seq_step (PushLast d) ds = ds @ [d]"
| "seq_step PopFirst ds = tl ds"
| "seq_step (RemoveAt i) ds = take i ds @ drop (Suc i) ds"

definition seq_run :: "'d lop list \<Rightarrow> 'd list \<Rightarrow> 'd list" where
  "seq_run ops ds = fold seq_step ops ds"

definition contents :: "'d nheap \<Rightarrow> nref list \<Rightarrow> 'd option list" where
  "contents h xs = map (\<lambda>n. case h n of None \<Rightarrow> None | Some c \<Rightarrow> ndata c) xs"

text \<open>The heap holds exactly the nodes of the list, and these carry the data \<open>ds\<close>.\<close>

definition list_holds :: "'d nheap \<times> lst \<times> nat \<Rightarrow> nref list \<Rightarrow> 'd list \<Rightarrow> bool" where
  "list_holds s xs ds \<longleftrightarrow> (case s of (h, l, t) \<Rightarrow>
     dlist h l xs \<and> dom h = set xs \<and> set xs \<subseteq> {..<t} \<and> contents h xs = map Some ds)"

lemma list_holds_distinct: "list_holds (h, l, t) xs ds \<Longrightarrow> distinct xs \<and> length xs = length ds"
  by (auto simp: list_holds_def dlist_def contents_def dest: map_eq_imp_length_eq)

lemma contents_untouched:
  "untouched h h' X \<Longrightarrow> contents h' xs = contents h xs"
proof -
  assume u: "untouched h h' X"
  have "(case h' n of None \<Rightarrow> None | Some c \<Rightarrow> ndata c) = (case h n of None \<Rightarrow> None | Some c \<Rightarrow> ndata c)" for n
    using u by (auto simp: untouched_def split: option.splits dest: spec [of _ n])
  then show ?thesis by (simp add: contents_def)
qed

lemma untouched_None: "untouched h h' X \<Longrightarrow> h' y = None \<longleftrightarrow> h y = None"
  unfolding untouched_def by (cases "h' y"; cases "h y") (auto dest: spec [of _ y])

lemma untouched_dom: "untouched h h' X \<Longrightarrow> dom h' = dom h"
  by (simp add: dom_def untouched_None)

lemma contents_upd: "n \<notin> set xs \<Longrightarrow> contents (h(n := v)) xs = contents h xs"
  by (auto simp: contents_def)

lemma contents_append [simp]: "contents h (xs @ ys) = contents h xs @ contents h ys"
  by (simp add: contents_def)

lemma contents_Cons [simp]:
  "contents h (x # xs) = (case h x of None \<Rightarrow> None | Some c \<Rightarrow> ndata c) # contents h xs"
  by (simp add: contents_def)

lemma contents_Nil [simp]: "contents h [] = []"
  by (simp add: contents_def)

text \<open>Taking the node at a position out and freeing it.\<close>

lemma free_after_remove:
  assumes h: "list_holds (h, l, t) (as @ x # bs) (ds @ d # es)" and len: "length as = length ds"
    and r: "dlist h' l' (as @ bs)" and u: "untouched h h' (set (as @ x # bs))"
  shows "returns (FreeNode h' (Some x)) (\<lambda>(p, h''). list_holds (h'', l', t) (as @ bs) (ds @ es))"
proof -
  from h have x: "x \<in> dom h" "x \<notin> set as" "x \<notin> set bs" "dom h = set (as @ x # bs)"
    "set (as @ x # bs) \<subseteq> {..<t}"
    by (auto simp: list_holds_def dlist_def)
  have dom: "dom h' = dom h" using u by (rule untouched_dom)
  from h len have c: "contents h as = map Some ds" "contents h bs = map Some es"
    by (auto simp: list_holds_def contents_def)
  have "dlist (h'(x := None)) l' (as @ bs)"
    using r x by (simp add: dlist_upd)
  moreover have "contents (h'(x := None)) (as @ bs) = map Some (ds @ es)"
    using x c by (simp add: contents_upd contents_untouched [OF u])
  moreover have "dom (h'(x := None)) = set (as @ bs)"
    using dom x by auto
  ultimately show ?thesis
    using x dom by (auto simp: FreeNode_def list_holds_def wp)
qed

lemma list_holds_walk: "list_holds (h, l, t) xs ds \<Longrightarrow> walk t h (lfirst l) = xs"
  using list_holds_distinct [of h l t xs ds] distinct_length_le_bound [of xs t]
  by (auto simp: list_holds_def walk_dlist)

lemma list_holds_added:
  assumes "list_holds (h, l, t) xs ds" and "dlist h' l' ys"
    and u: "untouched (h(t \<mapsto> c)) h' X"
    and "set ys = insert t (set xs)" and c: "contents (h(t \<mapsto> c)) ys = map Some ds'"
  shows "list_holds (h', l', Suc t) ys ds'"
proof -
  have "dom h' = insert t (dom h)" using untouched_dom [OF u] by simp
  then show ?thesis
    using assms contents_untouched [OF u, of ys] by (auto simp: list_holds_def)
qed

lemma PushFirst_holds:
  assumes "list_holds (h, l, t) xs ds" and "ok t"
  shows "returns (list_step ok (PushFirst d) (h, l, t)) (\<lambda>s. list_holds s (t # xs) (d # ds))"
proof -
  let ?h = "h(t \<mapsto> \<lparr>ndata = Some d, nnext = None, nprev = None\<rparr>)"
  from assms have t: "t \<notin> set xs" and "dlist ?h l xs"
    by (auto simp: list_holds_def dlist_upd)
  then have "returns (ListAddFirst ?h l (Some t)) (\<lambda>(h', l').
      dlist h' l' (t # xs) \<and> untouched ?h h' (insert t (set xs)))"
    by (intro ListAddFirst_seq) auto
  moreover have "contents ?h (t # xs) = map Some (d # ds)"
    using assms t by (simp add: list_holds_def contents_upd)
  ultimately show ?thesis
    using assms by (auto simp: NewNode_def wp elim!: returns_mono intro: list_holds_added)
qed

lemma PushLast_holds:
  assumes "list_holds (h, l, t) xs ds" and "ok t"
  shows "returns (list_step ok (PushLast d) (h, l, t)) (\<lambda>s. list_holds s (xs @ [t]) (ds @ [d]))"
proof -
  let ?h = "h(t \<mapsto> \<lparr>ndata = Some d, nnext = None, nprev = None\<rparr>)"
  from assms have t: "t \<notin> set xs" and "dlist ?h l xs"
    by (auto simp: list_holds_def dlist_upd)
  then have "returns (ListAddLast ?h l (Some t)) (\<lambda>(h', l').
      dlist h' l' (xs @ [t]) \<and> untouched ?h h' (insert t (set xs)))"
    by (intro ListAddLast_seq) auto
  moreover have "contents ?h (xs @ [t]) = map Some (ds @ [d])"
    using assms t by (simp add: list_holds_def contents_upd)
  ultimately show ?thesis
    using assms by (auto simp: NewNode_def wp elim!: returns_mono intro: list_holds_added)
qed

lemma PopFirst_holds:
  assumes "list_holds (h, l, t) xs ds"
  shows "returns (list_step ok PopFirst (h, l, t)) (\<lambda>s. list_holds s (tl xs) (tl ds))"
proof (cases xs)
  case Nil
  then show ?thesis
    using assms by (auto simp: list_holds_def ListPop_def dlist_def FreeNode_def)
next
  case (Cons x ys)
  with assms obtain d es where ds: "ds = d # es"
    using list_holds_distinct [OF assms] by (cases ds) auto
  from assms have "returns (ListPop h l) (\<lambda>(r, h', l').
      r = hd_opt xs \<and> dlist h' l' (tl xs) \<and> untouched h h' (set xs))"
    by (intro ListPop_seq) (simp add: list_holds_def)
  then show ?thesis
    using free_after_remove [of h l t "[]" x ys "[]" d es] assms Cons ds
    by (auto simp: wp elim!: returns_mono)
qed

lemma RemoveAt_holds:
  assumes h: "list_holds (h, l, t) xs ds"
  shows "returns (list_step ok (RemoveAt i) (h, l, t))
    (\<lambda>s. list_holds s (take i xs @ drop (Suc i) xs) (take i ds @ drop (Suc i) ds))"
proof (cases "i < length xs")
  case True
  note len = list_holds_distinct [OF h, THEN conjunct2] and w = list_holds_walk [OF h]
  define x where "x = xs ! i"
  from True have xs: "xs = take i xs @ x # drop (Suc i) xs"
    unfolding x_def by (rule id_take_nth_drop)
  from True len have ds: "ds = take i ds @ ds ! i # drop (Suc i) ds"
    by (simp add: id_take_nth_drop)
  have "dlist h l (take i xs @ x # drop (Suc i) xs)"
    using h unfolding xs [symmetric] by (simp add: list_holds_def)
  then have "returns (ListRemove h l x) (\<lambda>(h', l').
      dlist h' l' (take i xs @ drop (Suc i) xs) \<and> links h' x = Some (None, None) \<and>
      untouched h h' (set (take i xs @ x # drop (Suc i) xs)))"
    by (rule ListRemove_seq)
  then show ?thesis
    using free_after_remove [of h l t "take i xs" x "drop (Suc i) xs" "take i ds" "ds ! i"
        "drop (Suc i) ds"] h len w True
    unfolding xs [symmetric] ds [symmetric]
    by (auto simp: Let_def wp x_def elim!: returns_mono)
next
  case False
  with list_holds_distinct [OF h] list_holds_walk [OF h] h show ?thesis by simp
qed

lemma list_step_holds:
  assumes "list_holds s xs ds" and "\<And>n. ok n"
  shows "returns (list_step ok op s) (\<lambda>s'. \<exists>xs'. list_holds s' xs' (seq_step op ds))"
proof -
  obtain h l t where s: "s = (h, l, t)" by (cases s)
  note h = assms(1) [unfolded s]
  show ?thesis
  proof (cases op)
    case (PushFirst d)
    show ?thesis unfolding s PushFirst
      by (rule returns_mono [OF PushFirst_holds [OF h assms(2)]]) auto
  next
    case (PushLast d)
    show ?thesis unfolding s PushLast
      by (rule returns_mono [OF PushLast_holds [OF h assms(2)]]) auto
  next
    case PopFirst
    show ?thesis unfolding s PopFirst
      by (rule returns_mono [OF PopFirst_holds [OF h]]) auto
  next
    case (RemoveAt i)
    show ?thesis unfolding s RemoveAt
      by (rule returns_mono [OF RemoveAt_holds [OF h]]) auto
  qed
qed

lemma list_run_holds:
  "list_holds s xs ds \<Longrightarrow> (\<And>n. ok n) \<Longrightarrow>
   returns (list_run ok ops s) (\<lambda>s'. \<exists>xs'. list_holds s' xs' (seq_run ops ds))"
proof (induction ops arbitrary: s xs ds)
  case Nil
  then show ?case by (auto simp: seq_run_def)
next
  case (Cons op ops)
  have step: "returns (list_step ok op s) (\<lambda>s'. \<exists>xs'. list_holds s' xs' (seq_step op ds))"
    using Cons.prems by (rule list_step_holds)
  have "returns (list_run ok ops s') (\<lambda>s'. \<exists>xs'. list_holds s' xs' (seq_run (op # ops) ds))"
    if "\<exists>xs'. list_holds s' xs' (seq_step op ds)" for s'
  proof -
    from that obtain xs' where "list_holds s' xs' (seq_step op ds)" ..
    from Cons.IH [OF this Cons.prems(2)] show ?thesis by (simp add: seq_run_def)
  qed
  with step show ?case unfolding list_run.simps by (rule returns_bndI)
qed

lemma list_holds_empty: "list_holds (Map.empty, LIST_INITIALIZER, 0) [] []"
  by (simp add: list_holds_def)

text \<open>
  C18. Take any program of additions at the front and at the back, pops and removals of the node
  at a position, and run the pointer code from an initialised list with memory available. The
  program never aborts and never touches a stale pointer, and following the \<open>next\<close> pointers at the
  end yields exactly the data the same program leaves in a plain sequence.
\<close>

theorem list_programs_refine:
  "returns (list_run (\<lambda>_. True) ops (Map.empty, LIST_INITIALIZER, 0))
     (\<lambda>(h, l, t). contents h (walk t h (lfirst l)) = map Some (seq_run ops []))"
proof -
  have "returns (list_run (\<lambda>_. True) ops (Map.empty, LIST_INITIALIZER, 0))
      (\<lambda>s'. \<exists>xs'. list_holds s' xs' (seq_run ops []))"
    using list_holds_empty by (rule list_run_holds) simp
  then show ?thesis
    by (rule returns_mono)
      (clarsimp simp: list_holds_walk, simp add: list_holds_def)
qed

section \<open>Two lists that share a heap\<close>

text \<open>
  Queues and selectors keep a \<open>busy\<close> and a \<open>free\<close> list and move nodes from one to the other.
  \<open>parts h bl bs fl fs X\<close>: the heap consists of the nodes \<open>bs\<close> of the first list, the nodes \<open>fs\<close>
  of the second and the nodes \<open>X\<close> that are in neither, and every node carries data.
\<close>

definition data_at :: "'d nheap \<Rightarrow> nref \<Rightarrow> 'd option" where
  "data_at h n = (case h n of None \<Rightarrow> None | Some c \<Rightarrow> ndata c)"

definition parts ::
  "'d nheap \<Rightarrow> lst \<Rightarrow> nref list \<Rightarrow> lst \<Rightarrow> nref list \<Rightarrow> nref set \<Rightarrow> bool" where
  "parts h bl bs fl fs X \<longleftrightarrow>
     dlist h bl bs \<and> dlist h fl fs \<and> set bs \<inter> set fs = {} \<and> X \<inter> (set bs \<union> set fs) = {} \<and>
     dom h = set bs \<union> set fs \<union> X \<and> (\<forall>n \<in> dom h. data_at h n \<noteq> None)"

lemma data_at_upd: "data_at (h(x := v)) n = (if n = x then (case v of None \<Rightarrow> None | Some c \<Rightarrow> ndata c) else data_at h n)"
  by (simp add: data_at_def)

lemma data_at_untouched: "untouched h h' X \<Longrightarrow> data_at h' = data_at h"
proof (rule ext)
  fix n
  assume "untouched h h' X"
  then have "map_option ndata (h' n) = map_option ndata (h n)" by (simp add: untouched_def)
  then show "data_at h' n = data_at h n"
    by (auto simp: data_at_def split: option.splits)
qed

lemma parts_swap: "parts h bl bs fl fs X = parts h fl fs bl bs X"
  by (auto simp: parts_def)

lemma parts_init [simp]: "parts Map.empty LIST_INITIALIZER [] LIST_INITIALIZER [] {}"
  by (simp add: parts_def)

lemma parts_dom: "parts h bl bs fl fs X \<Longrightarrow> dom h = set bs \<union> set fs \<union> X"
  by (simp add: parts_def)

lemma parts_data: "parts h bl bs fl fs X \<Longrightarrow> n \<in> set bs \<union> set fs \<union> X \<Longrightarrow> \<exists>d. data_at h n = Some d"
  by (auto simp: parts_def)

lemma parts_node:
  "parts h bl bs fl fs X \<Longrightarrow> n \<in> set bs \<union> set fs \<union> X \<Longrightarrow> \<exists>c. h n = Some c \<and> ndata c = data_at h n \<and> ndata c \<noteq> None"
  by (drule (1) parts_data) (auto simp: data_at_def split: option.splits)

lemma parts_get_data:
  "parts h bl bs fl fs X \<Longrightarrow> n \<in> set bs \<union> set fs \<union> X \<Longrightarrow> get_data h n = Inr (data_at h n)"
  by (drule (1) parts_node) (auto simp: get_data_def)

lemma parts_distinct: "parts h bl bs fl fs X \<Longrightarrow> distinct bs \<and> distinct fs"
  by (simp add: parts_def dlist_def)

lemma parts_ListEmpty:
  "parts h bl bs fl fs X \<Longrightarrow> ListEmpty bl = (bs = [])"
  "parts h bl bs fl fs X \<Longrightarrow> ListEmpty fl = (fs = [])"
  by (auto simp: parts_def dlist_ListEmpty)

lemma parts_first: "parts h bl bs fl fs X \<Longrightarrow> lfirst bl = hd_opt bs"
  by (simp add: parts_def dlist_def)

lemma parts_walk: "parts h bl bs fl fs X \<Longrightarrow> length bs \<le> f \<Longrightarrow> walk f h (lfirst bl) = bs"
  by (simp add: parts_def walk_dlist)

lemma parts_bound:
  assumes "parts h bl bs fl fs X" and "dom h \<subseteq> {..<t}"
  shows "length bs \<le> t" "length fs \<le> t"
  using assms by (auto simp: parts_def dlist_def intro!: distinct_length_le_bound)

lemma parts_pop:
  assumes "parts h bl (n # bs) fl fs {}"
  shows "returns (ListPop h bl) (\<lambda>(r, h', bl').
    r = Some n \<and> parts h' bl' bs fl fs {n} \<and> data_at h' = data_at h)"
proof -
  from assms have "returns (ListPop h bl) (\<lambda>(r, h', bl').
      r = hd_opt (n # bs) \<and> dlist h' bl' (tl (n # bs)) \<and> untouched h h' (set (n # bs)))"
    by (intro ListPop_seq) (simp add: parts_def)
  then show ?thesis
  proof (rule returns_mono, clarify)
    fix r h' bl'
    assume d: "dlist h' bl' (tl (n # bs))" and u: "untouched h h' (set (n # bs))"
    have "dlist h' fl fs"
      using assms u by (intro dlist_untouched [of h fl fs h' "set (n # bs)"]) (auto simp: parts_def)
    then show "hd_opt (n # bs) = Some n \<and> parts h' bl' bs fl fs {n} \<and> data_at h' = data_at h"
      using assms d untouched_dom [OF u] data_at_untouched [OF u]
      by (auto simp: parts_def dlist_def)
  qed
qed

lemma parts_remove:
  assumes "parts h bl (as @ n # cs) fl fs {}"
  shows "returns (ListRemove h bl n) (\<lambda>(h', bl').
    parts h' bl' (as @ cs) fl fs {n} \<and> data_at h' = data_at h)"
proof -
  from assms have "returns (ListRemove h bl n) (\<lambda>(h', bl').
      dlist h' bl' (as @ cs) \<and> links h' n = Some (None, None) \<and> untouched h h' (set (as @ n # cs)))"
    by (intro ListRemove_seq) (simp add: parts_def)
  then show ?thesis
  proof (rule returns_mono, clarify)
    fix h' bl'
    assume d: "dlist h' bl' (as @ cs)" and u: "untouched h h' (set (as @ n # cs))"
    have "dlist h' fl fs"
      using assms u
      by (intro dlist_untouched [of h fl fs h' "set (as @ n # cs)"]) (auto simp: parts_def)
    moreover have "distinct (as @ n # cs)" using assms by (simp add: parts_def dlist_def)
    ultimately show "parts h' bl' (as @ cs) fl fs {n} \<and> data_at h' = data_at h"
      using assms d untouched_dom [OF u] data_at_untouched [OF u]
      by (auto simp: parts_def)
  qed
qed

lemma parts_add:
  assumes p: "parts h bl bs fl fs {n}"
  shows "returns (ListAddLast h bl (Some n)) (\<lambda>(h', bl').
    parts h' bl' (bs @ [n]) fl fs {} \<and> data_at h' = data_at h)"
proof -
  from parts_node [OF p, of n] obtain c where c: "h n = Some c" "ndata c \<noteq> None" by auto
  from p c have "returns (ListAddLast h bl (Some n)) (\<lambda>(h', bl').
      dlist h' bl' (bs @ [n]) \<and> untouched h h' (insert n (set bs)))"
    by (intro ListAddLast_seq) (auto simp: parts_def)
  then show ?thesis
  proof (rule returns_mono, clarify)
    fix h' bl'
    assume d: "dlist h' bl' (bs @ [n])" and u: "untouched h h' (insert n (set bs))"
    have "dlist h' fl fs"
      using p u by (intro dlist_untouched [of h fl fs h' "insert n (set bs)"]) (auto simp: parts_def)
    then show "parts h' bl' (bs @ [n]) fl fs {} \<and> data_at h' = data_at h"
      using p d untouched_dom [OF u] data_at_untouched [OF u]
      by (auto simp: parts_def)
  qed
qed

lemma parts_upd:
  assumes "parts h bl bs fl fs X" and "n \<notin> set bs \<union> set fs" and "ndata c \<noteq> None"
  shows "parts (h(n \<mapsto> c)) bl bs fl fs (insert n X)"
  using assms by (auto simp: parts_def dlist_upd data_at_upd)

lemma parts_drop:
  assumes "parts h bl bs fl fs {n}"
  shows "parts (h(n := None)) bl bs fl fs {}"
  using assms by (auto simp: parts_def dlist_upd data_at_upd)

lemma parts_FreeNode:
  assumes "parts h bl bs fl fs {n}"
  shows "returns (FreeNode h (Some n)) (\<lambda>(p, h'). p = None \<and> h' = h(n := None) \<and> parts h' bl bs fl fs {})"
  using parts_node [OF assms, of n] parts_drop [OF assms] by (auto simp: FreeNode_def)

lemma parts_set_data:
  assumes p: "parts h bl bs fl fs {n}"
  shows "returns (set_data h n (Some d)) (\<lambda>h'.
    parts h' bl bs fl fs {n} \<and> data_at h' = (data_at h)(n := Some d))"
proof -
  from parts_node [OF p, of n] obtain c where c: "h n = Some c" by auto
  from p have "n \<notin> set bs \<union> set fs" by (auto simp: parts_def)
  with p have "parts (h(n \<mapsto> c\<lparr>ndata := Some d\<rparr>)) bl bs fl fs (insert n {n})"
    by (intro parts_upd) auto
  moreover have "data_at (h(n \<mapsto> c\<lparr>ndata := Some d\<rparr>)) = (data_at h)(n := Some d)"
    by (rule ext) (simp add: data_at_upd)
  ultimately show ?thesis using c by (simp add: set_data_def)
qed

lemma parts_NewNode:
  assumes "parts h bl bs fl fs {}" and "ok t" and "t \<notin> dom h"
    and "NewNode ok t h (Some d) = (p, t', h')"
  shows "p = Some t \<and> t' = Suc t \<and> parts h' bl bs fl fs {t} \<and> data_at h' = (data_at h)(t := Some d)"
proof -
  let ?c = "\<lparr>ndata = Some d, nnext = None, nprev = None\<rparr>"
  from assms(1,3) have "t \<notin> set bs \<union> set fs" by (auto simp: parts_def)
  with assms(1) have "parts (h(t \<mapsto> ?c)) bl bs fl fs (insert t {})"
    by (intro parts_upd) auto
  moreover have "data_at (h(t \<mapsto> ?c)) = (data_at h)(t := Some d)"
    by (rule ext) (simp add: data_at_upd)
  ultimately show ?thesis using assms(2,4) by (auto simp: NewNode_def)
qed

lemma dlist_get_next: "dlist h l (as @ n # bs) \<Longrightarrow> get_next h n = Inr (hd_opt bs)"
  by (auto simp: dlist_def dseg_append links_Some get_next_def)

lemma parts_get_next: "parts h bl (as @ n # bs) fl fs X \<Longrightarrow> get_next h n = Inr (hd_opt bs)"
  by (auto simp: parts_def intro: dlist_get_next)

lemma parts_move:
  assumes "parts h bl (as @ n # cs) fl fs {}"
  shows "returns (bnd (ListRemove h bl n) (\<lambda>(h1, bl'). bnd (ListAddLast h1 fl (Some n)) (\<lambda>(h2, fl'). Inr (h2, bl', fl'))))
    (\<lambda>(h', bl', fl'). parts h' bl' (as @ cs) fl' (fs @ [n]) {} \<and> data_at h' = data_at h)"
proof (rule returns_bndI [OF parts_remove [OF assms]], clarify)
  fix h1 bl'
  assume p: "parts h1 bl' (as @ cs) fl fs {n}" and d: "data_at h1 = data_at h"
  have "returns (ListAddLast h1 fl (Some n)) (\<lambda>(h', fl').
      parts h' fl' (fs @ [n]) bl' (as @ cs) {} \<and> data_at h' = data_at h1)"
    using p by (intro parts_add) (simp add: parts_swap)
  with d show "returns (bnd (ListAddLast h1 fl (Some n)) (\<lambda>(h2, fl'). Inr (h2, bl', fl')))
      (\<lambda>(h', bl', fl'). parts h' bl' (as @ cs) fl' (fs @ [n]) {} \<and> data_at h' = data_at h)"
    by (auto simp: parts_swap elim!: returns_mono)
qed

text \<open>Changing the data of any node leaves the lists as they are.\<close>

lemma parts_set_in:
  assumes p: "parts h bl bs fl fs X" and n: "n \<in> set bs \<union> set fs \<union> X"
  shows "returns (set_data h n (Some d)) (\<lambda>h'.
    parts h' bl bs fl fs X \<and> data_at h' = (data_at h)(n := Some d))"
proof -
  from parts_node [OF p n] obtain c where c: "h n = Some c" by auto
  let ?h = "h(n \<mapsto> c\<lparr>ndata := Some d\<rparr>)"
  have l: "links ?h x = links h x" for x using c by (simp add: links_def)
  have "dlist ?h bl bs" "dlist ?h fl fs"
    using p l by (auto simp: parts_def intro: dlist_cong)
  moreover have d: "data_at ?h = (data_at h)(n := Some d)" by (rule ext) (simp add: data_at_upd)
  moreover have "dom ?h = dom h" using c by auto
  ultimately have "parts ?h bl bs fl fs X" using p n by (simp only: parts_def) auto
  with c d show ?thesis by (simp add: set_data_def)
qed

end
