(* ===== verification/Selectors.thy ===== *)
theory Selectors
  imports Locks Lists
begin

text \<open>
  The selector of \<open>src/selector.c\<close> in the configuration with \<open>poll\<close> and \<open>pipe\<close>: the busy and free
  lists of selection keys, the array of poll entries that mirrors the busy list, the current key of
  the iteration and the wake-up pipe. What the system calls return is a parameter. Registration
  counts are far below \<open>INT_MAX\<close> and are plain integers.
\<close>

section \<open>Keys, poll entries and the selector\<close>

type_synonym op = "16 word"

definition OP_READ :: op where "OP_READ = 1"

definition OP_WRITE :: op where "OP_WRITE = 4"

record key =
  k_operation :: op
  k_node :: "nref option"
  k_fd :: int
  k_attachment :: nat
  k_poll :: int
  k_count :: int
  k_curCount :: int
  k_result :: op

record pollfd =
  pl_fd :: int
  pl_events :: op
  pl_revents :: op

text \<open>A key lives in the \<open>data\<close> of its node, so a node reference names both.\<close>

record selector =
  s_pipe :: "int \<times> int"
  s_busy :: lst
  s_free :: lst
  s_cur :: "nref option"
  s_polls :: "pollfd list"
  s_numPolls :: int
  s_maxPolls :: int
  s_lock :: "lock option"
  s_heap :: "key nheap"
  s_tick :: nat
  s_wakeups :: nat

definition zero_key :: key where
  "zero_key = \<lparr>k_operation = 0, k_node = None, k_fd = 0, k_attachment = 0, k_poll = 0, k_count = 0,
     k_curCount = 0, k_result = 0\<rparr>"

definition zero_poll :: pollfd where
  "zero_poll = \<lparr>pl_fd = 0, pl_events = 0, pl_revents = 0\<rparr>"

definition SelectionKeyGetSocket :: "key \<Rightarrow> int" where
  "SelectionKeyGetSocket k = k_fd k"

definition SelectionKeyGetAttachment :: "key \<Rightarrow> nat" where
  "SelectionKeyGetAttachment k = k_attachment k"

definition SelectionKeyGetResult :: "key \<Rightarrow> op" where
  "SelectionKeyGetResult k = k_result k"

definition SelectionKeyIsOperationSuccessful :: "key \<Rightarrow> bool" where
  "SelectionKeyIsOperationSuccessful k \<longleftrightarrow> and (k_result k) (k_operation k) = k_operation k"

definition SelectionKeyGetCurrentCount :: "key \<Rightarrow> int" where
  "SelectionKeyGetCurrentCount k = k_curCount k"

definition SelectionKeyGetRegistrationCount :: "key \<Rightarrow> int" where
  "SelectionKeyGetRegistrationCount k = k_count k"

text \<open>
  \<open>NewSelector\<close>: the two allocations, \<open>pipe\<close> and the two \<open>fcntl\<close> calls may fail. The second
  component is the list of descriptors that are open afterwards.
\<close>

record new_selector_env =
  ns_mem :: bool
  ns_polls_mem :: bool
  ns_pipe :: "(int \<times> int) option"
  ns_fcntl_read :: bool
  ns_fcntl_write :: bool

definition NewSelector :: "new_selector_env \<Rightarrow> lock option \<Rightarrow> selector option \<times> int list" where
  "NewSelector env lk =
     (if \<not> ns_mem env then (None, [])
      else if \<not> ns_polls_mem env then (None, [])
      else case ns_pipe env of
        None \<Rightarrow> (None, [])
      | Some (r, w) \<Rightarrow>
          if \<not> ns_fcntl_read env then (None, [])
          else if \<not> ns_fcntl_write env then (None, [])
          else
            (Some \<lparr>s_pipe = (r, w), s_busy = LIST_INITIALIZER, s_free = LIST_INITIALIZER, s_cur = None,
               s_polls = [zero_poll\<lparr>pl_fd := r, pl_events := OP_READ\<rparr>], s_numPolls = 1, s_maxPolls = 1,
               s_lock = lk, s_heap = Map.empty, s_tick = 0, s_wakeups = 0\<rparr>, [r, w]))"

definition SelectorGetPollsNumber :: "selector \<Rightarrow> int" where
  "SelectorGetPollsNumber s = s_numPolls s"

definition SelectorGetPollsMax :: "selector \<Rightarrow> int" where
  "SelectorGetPollsMax s = s_maxPolls s"

definition SelectorGetCurrentKey :: "selector \<Rightarrow> nref option" where
  "SelectorGetCurrentKey s = s_cur s"

definition SelectionKeyGetCurrentRegistrationCount :: "key \<Rightarrow> int" where
  "SelectionKeyGetCurrentRegistrationCount k = k_curCount k"

definition SelectionKeyGetOperation :: "key \<Rightarrow> op" where
  "SelectionKeyGetOperation k = k_operation k"

definition NewSelectionKey :: "(nat \<Rightarrow> bool) \<Rightarrow> nat \<Rightarrow> key option \<times> nat" where
  "NewSelectionKey ok t =
     (case alloc ok t of (p, t') \<Rightarrow> (map_option (\<lambda>_. zero_key\<lparr>k_poll := - 1\<rparr>) p, t'))"

section \<open>Accesses\<close>

definition get_poll :: "pollfd list \<Rightarrow> int \<Rightarrow> pollfd res" where
  "get_poll ps i = when_ok (0 \<le> i \<and> i < int (length ps)) Undefined (ps ! nat i)"

definition set_poll :: "pollfd list \<Rightarrow> int \<Rightarrow> pollfd \<Rightarrow> pollfd list res" where
  "set_poll ps i p = when_ok (0 \<le> i \<and> i < int (length ps)) Undefined (ps[nat i := p])"

definition get_key :: "key nheap \<Rightarrow> nref \<Rightarrow> key res" where
  "get_key h n = bnd (get_data h n) deref"

definition set_key :: "key nheap \<Rightarrow> nref \<Rightarrow> key \<Rightarrow> key nheap res" where
  "set_key h n k = bnd (get_key h n) (\<lambda>_. set_data h n (Some k))"

section \<open>Registration\<close>

fun find_fd :: "nat \<Rightarrow> key nheap \<Rightarrow> nref option \<Rightarrow> int \<Rightarrow> nref option res" where
  "find_fd 0 h i fd = Inl OutOfFuel"
| "find_fd (Suc f) h i fd =
     (case i of
        None \<Rightarrow> Inr None
      | Some n \<Rightarrow>
          bnd (get_key h n) (\<lambda>k.
          if k_fd k = fd then Inr (Some n)
          else bnd (get_next h n) (\<lambda>nx. find_fd f h nx fd)))"

definition new_key_node ::
  "(nat \<Rightarrow> bool) \<Rightarrow> selector \<Rightarrow> (nref option \<times> selector) res" where
  "new_key_node ok s =
     (if ListEmpty (s_free s) then
        (case NewSelectionKey ok (s_tick s) of (k, t1) \<Rightarrow>
         case NewNode ok t1 (s_heap s) k of (n, t2, h) \<Rightarrow>
         Inr (n, s\<lparr>s_heap := h, s_tick := t2\<rparr>))
      else
        bnd (ListPop (s_heap s) (s_free s)) (\<lambda>(n, h, l).
        Inr (n, s\<lparr>s_heap := h, s_free := l\<rparr>)))"

definition Register ::
  "(nat \<Rightarrow> bool) \<Rightarrow> bool \<Rightarrow> selector \<Rightarrow> op \<Rightarrow> int \<Rightarrow> nat \<Rightarrow> (nref option \<times> selector) res" where
  "Register ok realloc_ok s operation fd attachment =
     bnd (acquire (s_lock s)) (\<lambda>lk.
     bnd (find_fd (Suc (s_tick s)) (s_heap s) (lfirst (s_busy s)) fd) (\<lambda>present.
     bnd (case present of
            Some n \<Rightarrow> Inr (Some n, s\<lparr>s_lock := lk\<rparr>)
          | None \<Rightarrow>
              bnd (new_key_node ok (s\<lparr>s_lock := lk\<rparr>)) (\<lambda>(p, s1).
              bnd (ListAddLast (s_heap s1) (s_busy s1) p) (\<lambda>(h2, bl).
              let s2 = s1\<lparr>s_heap := h2, s_busy := bl\<rparr> in
              if s_numPolls s2 = s_maxPolls s2 \<and> \<not> realloc_ok then Inr (None, s2)
              else
                let s3 = (if s_numPolls s2 = s_maxPolls s2
                          then s2\<lparr>s_polls := s_polls s2 @ [zero_poll], s_maxPolls := s_maxPolls s2 + 1\<rparr>
                          else s2) in
                bnd (deref p) (\<lambda>n.
                bnd (get_key (s_heap s3) n) (\<lambda>k.
                bnd (set_key (s_heap s3) n
                  (k\<lparr>k_poll := s_numPolls s3, k_node := Some n, k_operation := operation, k_fd := fd,
                     k_attachment := attachment, k_count := 0, k_curCount := 0\<rparr>)) (\<lambda>h4.
                bnd (set_poll (s_polls s3) (s_numPolls s3)
                  (zero_poll\<lparr>pl_events := operation, pl_fd := fd\<rparr>)) (\<lambda>ps.
                Inr (Some n, s3\<lparr>s_heap := h4, s_polls := ps, s_numPolls := s_numPolls s3 + 1\<rparr>))))))))
       (\<lambda>(present', s5).
     case present' of
       None \<Rightarrow> bnd (release (s_lock s5)) (\<lambda>lk'. Inr (None, s5\<lparr>s_lock := lk'\<rparr>))
     | Some n \<Rightarrow>
         bnd (get_key (s_heap s5) n) (\<lambda>k.
         bnd (set_key (s_heap s5) n (k\<lparr>k_count := k_count k + 1\<rparr>)) (\<lambda>h6.
         bnd (release (s_lock s5)) (\<lambda>lk'.
         Inr (Some n, s5\<lparr>s_heap := h6, s_lock := lk'\<rparr>)))))))"

text \<open>The inner loop of \<open>Unregister\<close>: the key whose entry moves from \<open>i + 1\<close> to \<open>i\<close> follows it.\<close>

fun shift_keys :: "nat \<Rightarrow> key nheap \<Rightarrow> nref option \<Rightarrow> int \<Rightarrow> key nheap res" where
  "shift_keys 0 h j i = Inl OutOfFuel"
| "shift_keys (Suc f) h j i =
     (case j of
        None \<Rightarrow> Inr h
      | Some n \<Rightarrow>
          bnd (get_key h n) (\<lambda>k.
          bnd (if k_poll k = i + 1 then set_key h n (k\<lparr>k_poll := k_poll k - 1\<rparr>) else Inr h) (\<lambda>h1.
          bnd (get_next h1 n) (\<lambda>nx. shift_keys f h1 nx i))))"

text \<open>\<open>shift_polls k i\<close>: \<open>k\<close> rounds of the outer loop, starting at \<open>i\<close>.\<close>

fun shift_polls :: "nat \<Rightarrow> int \<Rightarrow> selector \<Rightarrow> selector res" where
  "shift_polls 0 i s = Inr s"
| "shift_polls (Suc k) i s =
     bnd (shift_keys (Suc (s_tick s)) (s_heap s) (lfirst (s_busy s)) i) (\<lambda>h.
     bnd (get_poll (s_polls s) (i + 1)) (\<lambda>p.
     bnd (set_poll (s_polls s) i p) (\<lambda>ps.
     shift_polls k (i + 1) (s\<lparr>s_heap := h, s_polls := ps\<rparr>))))"

definition Unregister :: "selector \<Rightarrow> nref \<Rightarrow> bool \<Rightarrow> (bool \<times> selector) res" where
  "Unregister s n unregisterAll =
     bnd (get_key (s_heap s) n) (\<lambda>k.
     bnd (acquire (s_lock s)) (\<lambda>lk.
     case k_node k of
       None \<Rightarrow> bnd (release lk) (\<lambda>lk'. Inr (True, s\<lparr>s_lock := lk'\<rparr>))
     | Some node \<Rightarrow>
         bnd (if unregisterAll then Inr (s_heap s)
              else set_key (s_heap s) n (k\<lparr>k_count := k_count k - 1\<rparr>)) (\<lambda>h1.
         if \<not> unregisterAll \<and> k_count k - 1 > 0 then
           bnd (release lk) (\<lambda>lk'. Inr (False, s\<lparr>s_heap := h1, s_lock := lk'\<rparr>))
         else
           bnd (ListRemove h1 (s_busy s) node) (\<lambda>(h2, bl).
           bnd (set_key h2 n zero_key) (\<lambda>h3.
           bnd (ListAddLast h3 (s_free s) (Some node)) (\<lambda>(h4, fl).
           let rounds = nat (s_numPolls s - 1 - k_poll k) in
           bnd (shift_polls rounds (k_poll k) (s\<lparr>s_heap := h4, s_busy := bl, s_free := fl, s_lock := lk\<rparr>)) (\<lambda>s5.
           bnd (set_poll (s_polls s5) (k_poll k + int rounds) zero_poll) (\<lambda>ps.
           bnd (release lk) (\<lambda>lk'.
           Inr (True, s5\<lparr>s_polls := ps, s_numPolls := s_numPolls s5 - 1, s_lock := lk'\<rparr>))))))))))"

section \<open>Selection\<close>

text \<open>
  What \<open>poll\<close> may do: be interrupted, fail, or fill the \<open>revents\<close> of the entries it was given. The
  call blocks when the list of its outcomes is used up.
\<close>

datatype poll_result = PollInterrupted | PollFailed | PollReady "op list"

definition fill_revents :: "pollfd list \<Rightarrow> int \<Rightarrow> op list \<Rightarrow> pollfd list" where
  "fill_revents ps n rs =
     map (\<lambda>i. (ps ! i)\<lparr>pl_revents := (if int i < n then (if i < length rs then rs ! i else 0) else pl_revents (ps ! i))\<rparr>)
       [0..<length ps]"

definition count_ready :: "pollfd list \<Rightarrow> int \<Rightarrow> int" where
  "count_ready ps n = int (length [p\<leftarrow>take (nat n) ps. pl_revents p \<noteq> 0])"

fun poll_loop :: "poll_result list \<Rightarrow> selector \<Rightarrow> (int option \<times> selector) res" where
  "poll_loop [] s = Inl Blocked"
| "poll_loop (PollInterrupted # ps) s = poll_loop ps s"
| "poll_loop (PollFailed # ps) s = Inr (None, s)"
| "poll_loop (PollReady rs # ps) s =
     (let ps' = fill_revents (s_polls s) (s_numPolls s) rs in
      Inr (Some (count_ready ps' (s_numPolls s)), s\<lparr>s_polls := ps'\<rparr>))"

definition Select :: "poll_result list \<Rightarrow> selector \<Rightarrow> (int \<times> selector) res" where
  "Select outs s =
     bnd (acquire (s_lock s)) (\<lambda>lk.
     bnd (poll_loop outs (s\<lparr>s_lock := lk\<rparr>)) (\<lambda>(r, s1).
     case r of
       None \<Rightarrow> bnd (release (s_lock s1)) (\<lambda>lk'. Inr (0, s1\<lparr>s_lock := lk'\<rparr>))
     | Some nb \<Rightarrow>
         bnd (get_poll (s_polls s1) 0) (\<lambda>p.
         bnd (if and (pl_revents p) OP_READ \<noteq> 0
              then bnd (set_poll (s_polls s1) 0 (p\<lparr>pl_revents := 0\<rparr>)) (\<lambda>ps.
                   Inr (nb - 1, s1\<lparr>s_polls := ps, s_wakeups := s_wakeups s1 - 1\<rparr>))
              else Inr (nb, s1)) (\<lambda>(nb', s2).
         bnd (release (s_lock s2)) (\<lambda>lk'. Inr (nb', s2\<lparr>s_lock := lk'\<rparr>))))))"

text \<open>
  Waking up does not take the lock, which the selecting thread holds: it polls the write end of the
  pipe (\<open>None\<close> when that fails) and writes one byte if it can.
\<close>

definition SelectorWakeUp :: "op option \<Rightarrow> bool \<Rightarrow> selector \<Rightarrow> selector" where
  "SelectorWakeUp revents write_ok s =
     (case revents of
        None \<Rightarrow> s
      | Some r \<Rightarrow>
          if and r OP_WRITE \<noteq> 0 \<and> write_ok then s\<lparr>s_wakeups := s_wakeups s + 1\<rparr> else s)"

text \<open>\<open>revents\<close> is a \<open>short\<close>, compared with zero as a signed number.\<close>

definition is_ready :: "op \<Rightarrow> bool" where
  "is_ready r \<longleftrightarrow> 0 < sint r"

fun ready_loop :: "nat \<Rightarrow> selector \<Rightarrow> nref option \<Rightarrow> (nref option \<times> selector) res" where
  "ready_loop 0 s i = Inl OutOfFuel"
| "ready_loop (Suc f) s i =
     (case i of
        None \<Rightarrow> Inr (None, s)
      | Some n \<Rightarrow>
          bnd (get_key (s_heap s) n) (\<lambda>k.
          bnd (get_poll (s_polls s) (k_poll k)) (\<lambda>p.
          if is_ready (pl_revents p) then
            bnd (set_key (s_heap s) n (k\<lparr>k_result := pl_revents p, k_curCount := k_curCount k + 1\<rparr>)) (\<lambda>h.
            bnd (set_poll (s_polls s) (k_poll k) (p\<lparr>pl_revents := 0\<rparr>)) (\<lambda>ps.
            Inr (Some n, s\<lparr>s_heap := h, s_polls := ps, s_cur := Some n\<rparr>)))
          else
            bnd (get_next (s_heap s) n) (\<lambda>nx. ready_loop f s nx))))"

text \<open>Moving the current key to its successor.\<close>

definition next_key :: "selector \<Rightarrow> key \<Rightarrow> selector res" where
  "next_key s k =
     bnd (deref (k_node k)) (\<lambda>node.
     bnd (get_next (s_heap s) node) (\<lambda>nx. Inr (s\<lparr>s_cur := nx\<rparr>)))"

text \<open>
  The first part of \<open>SelectionKeyReady\<close>: a key registered several times is polled again (the
  parameter is what that poll reports, \<open>None\<close> for an error) and handed out once more, until it has
  been handed out as often as it is registered. \<open>Inl\<close> of the result: return this key.
\<close>

definition ready_again :: "op option \<Rightarrow> selector \<Rightarrow> ((nref + unit) \<times> selector) res" where
  "ready_again repoll s =
     (case s_cur s of
        None \<Rightarrow> Inr (Inr (), s)
      | Some c \<Rightarrow>
          bnd (get_key (s_heap s) c) (\<lambda>k.
          if k_curCount k \<ge> 1 then
            if k_count k > k_curCount k then
              (case repoll of
                 None \<Rightarrow> Inr (Inr (), s)
               | Some r \<Rightarrow>
                   if and r (k_operation k) \<noteq> 0 then
                     bnd (set_key (s_heap s) c (k\<lparr>k_result := r, k_curCount := k_curCount k + 1\<rparr>)) (\<lambda>h.
                     Inr (Inl c, s\<lparr>s_heap := h\<rparr>))
                   else bnd (next_key s k) (\<lambda>s1. Inr (Inr (), s1)))
            else
              bnd (set_key (s_heap s) c (k\<lparr>k_curCount := 0\<rparr>)) (\<lambda>h.
              bnd (next_key (s\<lparr>s_heap := h\<rparr>) k) (\<lambda>s1. Inr (Inr (), s1)))
          else Inr (Inr (), s)))"

text \<open>The early return for a selector without busy keys does not release the lock.\<close>

definition SelectionKeyReady :: "op option \<Rightarrow> selector \<Rightarrow> (bool \<times> nref option \<times> selector) res" where
  "SelectionKeyReady repoll s =
     bnd (acquire (s_lock s)) (\<lambda>lk.
     bnd (ready_again repoll (s\<lparr>s_lock := lk\<rparr>)) (\<lambda>(r, s1).
     case r of
       Inl n \<Rightarrow> bnd (release (s_lock s1)) (\<lambda>lk'. Inr (True, Some n, s1\<lparr>s_lock := lk'\<rparr>))
     | Inr _ \<Rightarrow>
         if s_cur s1 = None \<and> ListEmpty (s_busy s1) then Inr (False, None, s1)
         else
           let s2 = (if s_cur s1 = None then s1\<lparr>s_cur := lfirst (s_busy s1)\<rparr> else s1) in
           bnd (deref (s_cur s2)) (\<lambda>c.
           bnd (get_key (s_heap s2) c) (\<lambda>k.
           bnd (ready_loop (Suc (s_tick s2)) s2 (k_node k)) (\<lambda>(found, s3).
           case found of
             Some n \<Rightarrow> bnd (release (s_lock s3)) (\<lambda>lk'. Inr (True, Some n, s3\<lparr>s_lock := lk'\<rparr>))
           | None \<Rightarrow>
               bnd (release (s_lock s3)) (\<lambda>lk'.
               Inr (False, None, s3\<lparr>s_cur := None, s_lock := lk'\<rparr>)))))))"

fun free_keys :: "nat \<Rightarrow> key nheap \<Rightarrow> lst \<Rightarrow> (key nheap \<times> lst) res" where
  "free_keys 0 h l = Inl OutOfFuel"
| "free_keys (Suc f) h l =
     (if ListEmpty l then Inr (h, l)
      else
        bnd (ListPop h l) (\<lambda>(i, h1, l1).
        bnd (deref i) (\<lambda>n.
        bnd (get_data h1 n) (\<lambda>d.
        bnd (deref d) (\<lambda>_.
        bnd (FreeNode h1 (Some n)) (\<lambda>(_, h2). free_keys f h2 l1))))))"

text \<open>The second component is what is left of the keys, the third the descriptors closed.\<close>

definition FreeSelector :: "selector option \<Rightarrow> (selector option \<times> key nheap \<times> int list) res" where
  "FreeSelector ps =
     (case ps of
        None \<Rightarrow> Inr (None, Map.empty, [])
      | Some s \<Rightarrow>
          bnd (free_keys (Suc (s_tick s)) (s_heap s) (s_busy s)) (\<lambda>(h1, _).
          bnd (free_keys (Suc (s_tick s)) h1 (s_free s)) (\<lambda>(h2, _).
          bnd (FreeLock 0 (s_lock s)) (\<lambda>_.
          Inr (None, h2, [snd (s_pipe s), fst (s_pipe s)])))))"

section \<open>Well-formed selectors\<close>

definition key_at :: "key nheap \<Rightarrow> nref \<Rightarrow> key" where
  "key_at h n = the (data_at h n)"

text \<open>The key at position \<open>i\<close> of the busy list owns the poll entry \<open>i + 1\<close>.\<close>

definition key_ok :: "pollfd list \<Rightarrow> key \<Rightarrow> nref \<Rightarrow> nat \<Rightarrow> bool" where
  "key_ok ps k n i \<longleftrightarrow> k_poll k = int (Suc i) \<and> k_node k = Some n \<and> 1 \<le> k_count k \<and>
     pl_fd (ps ! Suc i) = k_fd k \<and> pl_events (ps ! Suc i) = k_operation k"

definition sel_nodes :: "selector \<Rightarrow> nref list \<Rightarrow> nref list \<Rightarrow> bool" where
  "sel_nodes s bs fs \<longleftrightarrow>
     parts (s_heap s) (s_busy s) bs (s_free s) fs {} \<and> dom (s_heap s) \<subseteq> {..<s_tick s}"

definition sel_keys :: "selector \<Rightarrow> nref list \<Rightarrow> nref list \<Rightarrow> bool" where
  "sel_keys s bs fs \<longleftrightarrow>
     s_numPolls s = int (Suc (length bs)) \<and> s_maxPolls s = int (length (s_polls s)) \<and>
     Suc (length bs) \<le> length (s_polls s) \<and>
     pl_fd (s_polls s ! 0) = fst (s_pipe s) \<and> pl_events (s_polls s ! 0) = OP_READ \<and>
     (\<forall>i < length bs. key_ok (s_polls s) (key_at (s_heap s) (bs ! i)) (bs ! i) i) \<and>
     distinct (map (\<lambda>n. k_fd (key_at (s_heap s) n)) bs) \<and>
     (\<forall>n \<in> set fs. key_at (s_heap s) n = zero_key) \<and>
     (\<forall>c. s_cur s = Some c \<longrightarrow> c \<in> set bs \<union> set fs)"

definition sel_inv :: "selector \<Rightarrow> bool" where
  "sel_inv s \<longleftrightarrow> s_lock s = Some free_lock \<and> (\<exists>bs fs. sel_nodes s bs fs \<and> sel_keys s bs fs)"

text \<open>What the selector has registered: reference, descriptor, operation, attachment, count.\<close>

definition registry :: "selector \<Rightarrow> (nref \<times> int \<times> op \<times> nat \<times> int) list" where
  "registry s = map (\<lambda>n. let k = key_at (s_heap s) n in (n, k_fd k, k_operation k, k_attachment k, k_count k))
     (walk (s_tick s) (s_heap s) (lfirst (s_busy s)))"

definition entry :: "key nheap \<Rightarrow> nref \<Rightarrow> nref \<times> int \<times> op \<times> nat \<times> int" where
  "entry h n = (let k = key_at h n in (n, k_fd k, k_operation k, k_attachment k, k_count k))"

lemma sel_nodes_registry: "sel_nodes s bs fs \<Longrightarrow> registry s = map (entry (s_heap s)) bs"
  using parts_bound [of "s_heap s" "s_busy s" bs "s_free s" fs "{}" "s_tick s"]
  by (auto simp: registry_def entry_def sel_nodes_def parts_walk)

lemma sel_nodes_dom: "sel_nodes s bs fs \<Longrightarrow> dom (s_heap s) = set bs \<union> set fs"
  using parts_dom unfolding sel_nodes_def by fastforce

lemma sel_nodes_get:
  "sel_nodes s bs fs \<Longrightarrow> n \<in> set bs \<union> set fs \<Longrightarrow> get_key (s_heap s) n = Inr (key_at (s_heap s) n)"
  unfolding sel_nodes_def
  by (frule conjunct1, drule parts_get_data [of _ _ _ _ _ _ n])
    (auto simp: get_key_def key_at_def dest: parts_data [of _ _ _ _ _ _ n])

lemma parts_get_key:
  "parts h bl bs fl fs X \<Longrightarrow> n \<in> set bs \<union> set fs \<union> X \<Longrightarrow> get_key h n = Inr (key_at h n)"
  by (frule (1) parts_get_data) (auto simp: get_key_def key_at_def dest: parts_data)

lemma parts_set_key:
  assumes "parts h bl bs fl fs X" and "n \<in> set bs \<union> set fs \<union> X"
  shows "\<exists>h'. set_key h n k = Inr h' \<and> parts h' bl bs fl fs X \<and> key_at h' = (key_at h)(n := k) \<and> dom h' = dom h"
proof -
  obtain h' where h': "set_data h n (Some k) = Inr h'" "parts h' bl bs fl fs X" "data_at h' = (data_at h)(n := Some k)"
    using parts_set_in [OF assms, of k] by (auto elim!: returnsE)
  have "key_at h' = (key_at h)(n := k)" by (rule ext) (simp add: key_at_def h'(3))
  moreover have "dom h' = dom h" using parts_dom [OF h'(2)] parts_dom [OF assms(1)] by simp
  ultimately show ?thesis using h' parts_get_key [OF assms] by (auto simp: set_key_def)
qed

lemma find_fd_seq:
  "parts h bl (as @ bs) fl fs X \<Longrightarrow> length bs < f \<Longrightarrow>
   find_fd f h (hd_opt bs) fd = Inr (find (\<lambda>n. k_fd (key_at h n) = fd) bs)"
proof (induction bs arbitrary: as f)
  case Nil
  then obtain f' where "f = Suc f'" by (cases f) auto
  then show ?case by simp
next
  case (Cons n bs)
  then obtain f' where f: "f = Suc f'" "length bs < f'" by (cases f) auto
  have "parts h bl ((as @ [n]) @ bs) fl fs X" using Cons.prems(1) by simp
  from Cons.IH [OF this f(2)] parts_get_key [OF Cons.prems(1), of n] parts_get_next [OF Cons.prems(1)]
  show ?case by (simp add: f(1))
qed

lemma shift_keys_seq:
  "parts h bl (as @ bs) fl fs X \<Longrightarrow> length bs < f \<Longrightarrow>
   \<exists>h'. shift_keys f h (hd_opt bs) i = Inr h' \<and> parts h' bl (as @ bs) fl fs X \<and> dom h' = dom h \<and>
     (\<forall>n. key_at h' n = (if n \<in> set bs \<and> k_poll (key_at h n) = i + 1
        then (key_at h n)\<lparr>k_poll := i\<rparr> else key_at h n))"
proof (induction bs arbitrary: as f h)
  case Nil
  then obtain f' where "f = Suc f'" by (cases f) auto
  with Nil show ?case by auto
next
  case (Cons n bs)
  then obtain f' where f: "f = Suc f'" "length bs < f'" by (cases f) auto
  have d: "n \<notin> set bs" using parts_distinct [OF Cons.prems(1)] by simp
  let ?k = "key_at h n"
  obtain h1 where h1: "(if k_poll ?k = i + 1 then set_key h n (?k\<lparr>k_poll := k_poll ?k - 1\<rparr>) else Inr h) = Inr h1"
    "parts h1 bl (as @ n # bs) fl fs X" "dom h1 = dom h"
    "key_at h1 = (key_at h)(n := (if k_poll ?k = i + 1 then ?k\<lparr>k_poll := i\<rparr> else ?k))"
    using parts_set_key [OF Cons.prems(1), of n "?k\<lparr>k_poll := i\<rparr>"] Cons.prems(1)
    by (cases "k_poll ?k = i + 1") auto
  have "parts h1 bl ((as @ [n]) @ bs) fl fs X" using h1(2) by simp
  from Cons.IH [OF this f(2)] obtain h' where h': "shift_keys f' h1 (hd_opt bs) i = Inr h'"
    "parts h' bl ((as @ [n]) @ bs) fl fs X" "dom h' = dom h1"
    "\<forall>m. key_at h' m = (if m \<in> set bs \<and> k_poll (key_at h1 m) = i + 1
        then (key_at h1 m)\<lparr>k_poll := i\<rparr> else key_at h1 m)" by auto
  have "shift_keys f h (hd_opt (n # bs)) i = Inr h'"
    using parts_get_key [OF Cons.prems(1), of n] parts_get_next [OF h1(2)] h1(1) h'(1) by (simp add: f(1))
  moreover have "key_at h' m = (if m \<in> set (n # bs) \<and> k_poll (key_at h m) = i + 1
        then (key_at h m)\<lparr>k_poll := i\<rparr> else key_at h m)" for m
    using h'(4) h1(4) d by auto
  ultimately show ?case using h'(2,3) h1(3) by auto
qed

text \<open>The poll entries \<open>i + 1\<close> to \<open>i + k\<close> and the keys that own them move down by one.\<close>

definition moved :: "nat \<Rightarrow> nat \<Rightarrow> pollfd list \<Rightarrow> pollfd list" where
  "moved i k ps = take i ps @ take k (drop (Suc i) ps) @ drop (i + k) ps"

lemma moved_0 [simp]: "moved i 0 ps = ps"
  by (simp add: moved_def)

lemma moved_length [simp]: "i + k < length ps \<Longrightarrow> length (moved i k ps) = length ps"
  by (simp add: moved_def)

lemma moved_nth:
  "i + k < length ps \<Longrightarrow> j < length ps \<Longrightarrow> moved i k ps ! j = (if i \<le> j \<and> j < i + k then ps ! Suc j else ps ! j)"
proof -
  assume a: "i + k < length ps" "j < length ps"
  consider "j < i" | "i \<le> j" "j < i + k" | "i + k \<le> j" by linarith
  then show ?thesis
  proof cases
    case 3
    have "length (take i ps @ take k (drop (Suc i) ps)) = i + k" using a by simp
    with 3 a show ?thesis unfolding moved_def append_assoc [symmetric] by (subst nth_append) simp
  qed (use a in \<open>simp_all add: moved_def nth_append min_def\<close>)
qed

lemma moved_Suc:
  assumes "i + Suc k < length ps"
  shows "moved (Suc i) k (ps[i := ps ! Suc i]) = moved i (Suc k) ps"
  using assms by (intro nth_equalityI) (auto simp: moved_nth nth_list_update)

lemma shift_polls_seq:
  "parts (s_heap s) (s_busy s) bs fl fs {} \<Longrightarrow> length bs \<le> s_tick s \<Longrightarrow> i + k < length (s_polls s) \<Longrightarrow>
   \<exists>h'. shift_polls k (int i) s = Inr (s\<lparr>s_heap := h', s_polls := moved i k (s_polls s)\<rparr>) \<and>
     parts h' (s_busy s) bs fl fs {} \<and> dom h' = dom (s_heap s) \<and>
     (\<forall>n. key_at h' n = (if n \<in> set bs \<and> int i < k_poll (key_at (s_heap s) n) \<and> k_poll (key_at (s_heap s) n) \<le> int (i + k)
        then (key_at (s_heap s) n)\<lparr>k_poll := k_poll (key_at (s_heap s) n) - 1\<rparr> else key_at (s_heap s) n))"
proof (induction k arbitrary: i s)
  case 0
  then show ?case by (intro exI [of _ "s_heap s"]) auto
next
  case (Suc k)
  have "length bs < Suc (s_tick s)" using Suc.prems(2) by simp
  have q: "parts (s_heap s) (s_busy s) ([] @ bs) fl fs {}" using Suc.prems(1) by simp
  from shift_keys_seq [OF q \<open>length bs < Suc (s_tick s)\<close>, of "int i", unfolded append_Nil]
  obtain h where h: "shift_keys (Suc (s_tick s)) (s_heap s) (hd_opt bs) (int i) = Inr h"
    "parts h (s_busy s) bs fl fs {}" "dom h = dom (s_heap s)"
    "\<forall>n. key_at h n = (if n \<in> set bs \<and> k_poll (key_at (s_heap s) n) = int i + 1
        then (key_at (s_heap s) n)\<lparr>k_poll := int i\<rparr> else key_at (s_heap s) n)" by blast
  let ?ps = "(s_polls s)[i := s_polls s ! Suc i]"
  let ?s = "s\<lparr>s_heap := h, s_polls := ?ps\<rparr>"
  have p: "get_poll (s_polls s) (int i + 1) = Inr (s_polls s ! Suc i)" "set_poll (s_polls s) (int i) (s_polls s ! Suc i) = Inr ?ps"
    using Suc.prems(3) by (simp_all add: get_poll_def set_poll_def nat_add_distrib)
  have "parts (s_heap ?s) (s_busy ?s) bs fl fs {}" "length bs \<le> s_tick ?s" "Suc i + k < length (s_polls ?s)"
    using h(2) Suc.prems by simp_all
  from Suc.IH [OF this] obtain h' where h': "shift_polls k (int (Suc i)) ?s = Inr (?s\<lparr>s_heap := h', s_polls := moved (Suc i) k ?ps\<rparr>)"
    "parts h' (s_busy s) bs fl fs {}" "dom h' = dom h"
    "\<forall>n. key_at h' n = (if n \<in> set bs \<and> int (Suc i) < k_poll (key_at h n) \<and> k_poll (key_at h n) \<le> int (Suc i + k)
        then (key_at h n)\<lparr>k_poll := k_poll (key_at h n) - 1\<rparr> else key_at h n)" by auto
  have "shift_polls (Suc k) (int i) s = Inr (s\<lparr>s_heap := h', s_polls := moved i (Suc k) (s_polls s)\<rparr>)"
    using h(1) p h'(1) parts_first [OF Suc.prems(1)] moved_Suc [OF Suc.prems(3)] by (simp add: add.commute)
  moreover have "key_at h' n = (if n \<in> set bs \<and> int i < k_poll (key_at (s_heap s) n) \<and> k_poll (key_at (s_heap s) n) \<le> int (i + Suc k)
        then (key_at (s_heap s) n)\<lparr>k_poll := k_poll (key_at (s_heap s) n) - 1\<rparr> else key_at (s_heap s) n)" for n
    using h'(4) h(4) by auto
  ultimately show ?case using h'(2,3) h(3) by auto
qed

lemma sel_invE:
  assumes "sel_inv s"
  obtains bs fs where "s_lock s = Some free_lock" "sel_nodes s bs fs" "sel_keys s bs fs"
    "parts (s_heap s) (s_busy s) bs (s_free s) fs {}" "dom (s_heap s) \<subseteq> {..<s_tick s}"
    "length bs \<le> s_tick s" "length fs \<le> s_tick s"
proof -
  from assms obtain bs fs where i: "s_lock s = Some free_lock" "sel_nodes s bs fs" "sel_keys s bs fs"
    by (auto simp: sel_inv_def)
  moreover from i(2) have p: "parts (s_heap s) (s_busy s) bs (s_free s) fs {}" "dom (s_heap s) \<subseteq> {..<s_tick s}"
    by (simp_all add: sel_nodes_def)
  ultimately show thesis using that parts_bound [OF p] by blast
qed

lemma sel_invI: "sel_keys s bs fs \<Longrightarrow> sel_nodes s bs fs \<Longrightarrow> s_lock s = Some free_lock \<Longrightarrow> sel_inv s"
  unfolding sel_inv_def by blast

lemma sel_keysD:
  assumes "sel_keys s bs fs"
  shows "s_numPolls s = int (Suc (length bs))" "s_maxPolls s = int (length (s_polls s))"
    "Suc (length bs) \<le> length (s_polls s)" "\<And>i. i < length bs \<Longrightarrow> key_ok (s_polls s) (key_at (s_heap s) (bs ! i)) (bs ! i) i"
    "distinct (map (\<lambda>n. k_fd (key_at (s_heap s) n)) bs)" "\<And>n. n \<in> set fs \<Longrightarrow> key_at (s_heap s) n = zero_key"
  using assms by (auto simp: sel_keys_def)

lemma sel_cur: "sel_keys s bs fs \<Longrightarrow> s_cur s = Some c \<Longrightarrow> c \<in> set bs \<union> set fs"
  by (simp add: sel_keys_def)

definition drop_entry :: "bool \<Rightarrow> nref \<Rightarrow> (nref \<times> int \<times> op \<times> nat \<times> int) list \<Rightarrow> (nref \<times> int \<times> op \<times> nat \<times> int) list" where
  "drop_entry all n r =
     concat (map (\<lambda>(m, fd, op, att, c). if m \<noteq> n then [(m, fd, op, att, c)]
       else if \<not> all \<and> c > 1 then [(m, fd, op, att, c - 1)] else []) r)"

lemma drop_entry_other: "n \<notin> fst ` set r \<Longrightarrow> drop_entry all n r = r"
  by (induction r) (auto simp: drop_entry_def)

lemma drop_entry_append: "drop_entry all n (r @ r') = drop_entry all n r @ drop_entry all n r'"
  by (simp add: drop_entry_def)

lemma entry_fst [simp]: "fst (entry h n) = n"
  by (simp add: entry_def Let_def)

lemma drop_entry_map: "n \<notin> set ns \<Longrightarrow> drop_entry all n (map (entry h) ns) = map (entry h) ns"
  by (rule drop_entry_other) (simp add: image_image)

lemma entry_eq: "(n, d, x, a, c) = entry h m \<Longrightarrow> m = n"
  by (simp add: entry_def Let_def)

text \<open>Updates that leave the busy list alone and change only counts and results.\<close>

definition same_slot :: "key \<Rightarrow> key \<Rightarrow> bool" where
  "same_slot k k' \<longleftrightarrow> k_poll k' = k_poll k \<and> k_node k' = k_node k \<and> k_fd k' = k_fd k \<and>
     k_operation k' = k_operation k \<and> k_attachment k' = k_attachment k \<and> (1 \<le> k_count k \<longrightarrow> 1 \<le> k_count k')"

lemma same_slot_refl [simp]: "same_slot k k"
  by (simp add: same_slot_def)

definition same_entries :: "pollfd list \<Rightarrow> pollfd list \<Rightarrow> bool" where
  "same_entries ps ps' \<longleftrightarrow> length ps' = length ps \<and>
     (\<forall>i < length ps. pl_fd (ps' ! i) = pl_fd (ps ! i) \<and> pl_events (ps' ! i) = pl_events (ps ! i))"

lemma same_entries_refl [simp]: "same_entries ps ps"
  by (simp add: same_entries_def)

lemma same_entries_upd: "same_entries ps (ps[i := (ps ! i)\<lparr>pl_revents := r\<rparr>])"
  by (cases "i < length ps") (auto simp: same_entries_def nth_list_update)

lemma sel_update:
  assumes sn: "sel_nodes s bs fs" "sel_keys s bs fs"
    and h: "parts (s_heap s') (s_busy s) bs (s_free s) fs {}" "dom (s_heap s') = dom (s_heap s)"
    and ks: "\<And>m. m \<in> set bs \<Longrightarrow> same_slot (key_at (s_heap s) m) (key_at (s_heap s') m)"
      "\<And>m. m \<in> set fs \<Longrightarrow> key_at (s_heap s') m = key_at (s_heap s) m"
    and same: "s_busy s' = s_busy s" "s_free s' = s_free s" "s_tick s' = s_tick s" "s_pipe s' = s_pipe s"
      "s_numPolls s' = s_numPolls s" "s_maxPolls s' = s_maxPolls s" "same_entries (s_polls s) (s_polls s')"
    and c: "\<And>c. s_cur s' = Some c \<Longrightarrow> c \<in> set bs \<union> set fs"
  shows "sel_nodes s' bs fs" "sel_keys s' bs fs" "registry s' = map (entry (s_heap s')) bs"
proof -
  show nodes: "sel_nodes s' bs fs" using sn(1) h same by (simp add: sel_nodes_def)
  note k = sel_keysD [OF sn(2)]
  have "map (\<lambda>m. k_fd (key_at (s_heap s') m)) bs = map (\<lambda>m. k_fd (key_at (s_heap s) m)) bs"
    using ks(1) by (simp add: same_slot_def)
  with k(5) have fds: "distinct (map (\<lambda>m. k_fd (key_at (s_heap s') m)) bs)" by (simp only:)
  have oks: "\<forall>i < length bs. key_ok (s_polls s') (key_at (s_heap s') (bs ! i)) (bs ! i) i"
    using k(3,4) ks(1) same(7) by (auto simp: key_ok_def same_slot_def same_entries_def)
  have len: "0 < length (s_polls s)" using k(3) by linarith
  then have p0: "pl_fd (s_polls s' ! 0) = fst (s_pipe s)" "pl_events (s_polls s' ! 0) = OP_READ"
    using sn(2) same(7) by (simp_all add: sel_keys_def same_entries_def)
  have frees: "\<forall>m \<in> set fs. key_at (s_heap s') m = zero_key" using k(6) ks(2) by simp
  show "sel_keys s' bs fs"
    using k(1-3) fds oks p0 frees c same unfolding sel_keys_def
    by (simp del: distinct_map add: same_entries_def)
  show "registry s' = map (entry (s_heap s')) bs" by (rule sel_nodes_registry [OF nodes])
qed

text \<open>A key that stays registered loses one registration.\<close>

lemma Unregister_keeps:
  assumes inv: "sel_inv s" and sn: "sel_nodes s bs fs" "sel_keys s bs fs" and n: "bs = as @ n # cs"
    and c: "\<not> all" "k_count (key_at (s_heap s) n) > 1"
  shows "returns (Unregister s n all) (\<lambda>(last, s'). \<not> last \<and> sel_inv s' \<and>
    registry s' = drop_entry all n (registry s) \<and> dom (s_heap s') = dom (s_heap s))"
proof -
  let ?k = "key_at (s_heap s) n"
  have l: "s_lock s = Some free_lock" using inv by (simp add: sel_inv_def)
  have p: "parts (s_heap s) (s_busy s) bs (s_free s) fs {}" "dom (s_heap s) \<subseteq> {..<s_tick s}"
    using sn(1) by (simp_all add: sel_nodes_def)
  have ok: "key_ok (s_polls s) ?k n (length as)" using sel_keysD(4) [OF sn(2), of "length as"] n by simp
  obtain h where h: "set_key (s_heap s) n (?k\<lparr>k_count := k_count ?k - 1\<rparr>) = Inr h"
    "parts h (s_busy s) bs (s_free s) fs {}" "key_at h = (key_at (s_heap s))(n := ?k\<lparr>k_count := k_count ?k - 1\<rparr>)"
    "dom h = dom (s_heap s)"
    using parts_set_key [OF p(1), of n "?k\<lparr>k_count := k_count ?k - 1\<rparr>"] n by auto
  let ?s = "s\<lparr>s_heap := h, s_lock := Some free_lock\<rparr>"
  have r: "Unregister s n all = Inr (False, ?s)"
    using l c h(1) ok sel_nodes_get [OF sn(1), of n] n by (simp add: Unregister_def key_ok_def)
  have d: "distinct bs" using parts_distinct [OF p(1)] by simp
  have fsn: "n \<notin> set fs" using p(1) n by (auto simp: parts_def)
  have "\<And>m. same_slot (key_at (s_heap s) m) (key_at h m)" "\<And>m. m \<in> set fs \<Longrightarrow> key_at h m = key_at (s_heap s) m"
    using h(3) c fsn by (auto simp: same_slot_def)
  note u = sel_update [OF sn, where s' = ?s, simplified, OF h(2,4) this sel_cur [OF sn(2), simplified]]
  then have "sel_nodes ?s bs fs" "sel_keys ?s bs fs" and reg: "registry ?s = map (entry h) bs" by auto
  then have i': "sel_inv ?s" by (auto simp: sel_inv_def)
  have "n \<notin> set as" "n \<notin> set cs" using d n by auto
  then have e: "map (entry h) as = map (entry (s_heap s)) as" "map (entry h) cs = map (entry (s_heap s)) cs"
    using h(3) by (auto simp: entry_def)
  have "registry ?s = map (entry (s_heap s)) as @ entry h n # map (entry (s_heap s)) cs"
    using reg n e by simp
  moreover have "drop_entry all n (registry s) = map (entry (s_heap s)) as @ [entry h n] @ map (entry (s_heap s)) cs"
  proof -
    note drop_entry_map [OF \<open>n \<notin> set as\<close>] drop_entry_map [OF \<open>n \<notin> set cs\<close>]
    moreover have "drop_entry all n [entry (s_heap s) n] = [entry h n]"
      using c h(3) by (simp add: drop_entry_def entry_def Let_def)
    moreover have "registry s = map (entry (s_heap s)) as @ [entry (s_heap s) n] @ map (entry (s_heap s)) cs"
      using sel_nodes_registry [OF sn(1)] n by simp
    ultimately show ?thesis by (simp only: drop_entry_append)
  qed
  ultimately show ?thesis using r i' h(4) by simp
qed

lemma sel_keys_after_removal:
  assumes sn: "sel_keys s (as @ n # cs) fs" and d: "distinct (as @ n # cs)"
    and s': "s' = s\<lparr>s_heap := h, s_busy := bl, s_free := fl,
      s_polls := (moved (Suc (length as)) (length cs) (s_polls s))[Suc (length as + length cs) := zero_poll],
      s_numPolls := s_numPolls s - 1, s_lock := lk\<rparr>"
    and keys: "\<And>m. key_at h m = (if m \<in> set (as @ cs) \<and> int (Suc (length as)) < k_poll (key_at (s_heap s) m) \<and>
        k_poll (key_at (s_heap s) m) \<le> int (Suc (length as) + length cs)
      then (key_at (s_heap s) m)\<lparr>k_poll := k_poll (key_at (s_heap s) m) - 1\<rparr>
      else if m = n then zero_key else key_at (s_heap s) m)"
    and fs: "set fs \<inter> set (as @ n # cs) = {}"
  shows "sel_keys s' (as @ cs) (fs @ [n])"
proof -
  note k = sel_keysD [OF sn]
  have len: "Suc (length as) + length cs < length (s_polls s)" using k(3) by simp
  let ?ps = "(moved (Suc (length as)) (length cs) (s_polls s))[Suc (length as + length cs) := zero_poll]"
  have oks: "key_ok ?ps (key_at h ((as @ cs) ! i)) ((as @ cs) ! i) i" if i: "i < length (as @ cs)" for i
  proof (cases "i < length as")
    case True
    then have "(as @ n # cs) ! i = as ! i" "i < length (as @ n # cs)" by (simp_all add: nth_append)
    with k(4) [of i] have o: "key_ok (s_polls s) (key_at (s_heap s) (as ! i)) (as ! i) i" by simp
    have "as ! i \<noteq> n" using d True nth_mem [of i as] by auto
    then have "key_at h (as ! i) = key_at (s_heap s) (as ! i)" using keys [of "as ! i"] o True by (simp add: key_ok_def)
    then show ?thesis using o True len by (simp add: key_ok_def nth_append moved_nth)
  next
    case False
    then have e: "(as @ n # cs) ! Suc i = cs ! (i - length as)" "Suc i < length (as @ n # cs)"
      "(as @ cs) ! i = cs ! (i - length as)" "i - length as < length cs" using i by (simp_all add: nth_append Suc_diff_le)
    with k(4) [of "Suc i"] have o: "key_ok (s_polls s) (key_at (s_heap s) (cs ! (i - length as))) (cs ! (i - length as)) (Suc i)"
      by simp
    have "cs ! (i - length as) \<in> set (as @ cs)" using e(4) by simp
    then have "key_at h (cs ! (i - length as)) = (key_at (s_heap s) (cs ! (i - length as)))\<lparr>k_poll := int (Suc i)\<rparr>"
      using keys [of "cs ! (i - length as)"] o False i by (simp add: key_ok_def)
    then show ?thesis using o False len i by (simp add: key_ok_def e(3) moved_nth)
  qed
  have "k_fd (key_at h m) = k_fd (key_at (s_heap s) m)" if "m \<in> set (as @ cs)" for m
    using keys [of m] that d by auto
  then have "map (\<lambda>m. k_fd (key_at h m)) (as @ cs) = map (\<lambda>m. k_fd (key_at (s_heap s) m)) (as @ cs)"
    by (simp only: map_eq_conv) simp
  moreover have "distinct (map (\<lambda>m. k_fd (key_at (s_heap s) m)) (as @ cs))" using k(5) by auto
  ultimately have fds: "distinct (map (\<lambda>m. k_fd (key_at h m)) (as @ cs))" by (simp only:)
  have frees: "\<forall>m \<in> set (fs @ [n]). key_at h m = zero_key"
    using keys k(6) fs d by (auto 0 3)
  have cur: "\<forall>c. s_cur s = Some c \<longrightarrow> c \<in> set (as @ cs) \<union> set (fs @ [n])" using sn by (auto simp: sel_keys_def)
  have ps: "?ps ! 0 = s_polls s ! 0" "length ?ps = length (s_polls s)" using len moved_nth [of "Suc (length as)" "length cs" "s_polls s" 0] by (cases "s_polls s"; simp)+
  have p0: "pl_fd (s_polls s ! 0) = fst (s_pipe s)" "pl_events (s_polls s ! 0) = OP_READ" using sn by (simp_all add: sel_keys_def)
  have "\<forall>i < length (as @ cs). key_ok ?ps (key_at h ((as @ cs) ! i)) ((as @ cs) ! i) i" using oks by blast
  then show ?thesis using k(1-3) fds frees cur ps p0 unfolding sel_keys_def s'
    by (simp del: distinct_map distinct_append map_append nth_append set_append)
qed

lemma key_at_eq: "data_at h = data_at g \<Longrightarrow> key_at h = key_at g"
  by (rule ext) (simp add: key_at_def)

lemma Unregister_removes:
  assumes inv: "sel_inv s" and sn: "sel_nodes s (as @ n # cs) fs" "sel_keys s (as @ n # cs) fs"
    and c: "all \<or> k_count (key_at (s_heap s) n) \<le> 1"
  shows "returns (Unregister s n all) (\<lambda>(last, s'). last \<and> sel_inv s' \<and>
    registry s' = map (entry (s_heap s)) (as @ cs) \<and> dom (s_heap s') = dom (s_heap s))"
proof -
  let ?k = "key_at (s_heap s) n"
  have l: "s_lock s = Some free_lock" using inv by (simp add: sel_inv_def)
  have p: "parts (s_heap s) (s_busy s) (as @ n # cs) (s_free s) fs {}" "dom (s_heap s) \<subseteq> {..<s_tick s}"
    using sn(1) by (simp_all add: sel_nodes_def)
  have d: "distinct (as @ n # cs)" and fsd: "set fs \<inter> set (as @ n # cs) = {}"
    using parts_distinct [OF p(1)] p(1) by (auto simp: parts_def)
  have ok: "key_ok (s_polls s) ?k n (length as)" using sel_keysD(4) [OF sn(2), of "length as"] by simp
  note k = sel_keysD [OF sn(2)]
  obtain h1 where h1: "(if all then Inr (s_heap s) else set_key (s_heap s) n (?k\<lparr>k_count := k_count ?k - 1\<rparr>)) = Inr h1"
    "parts h1 (s_busy s) (as @ n # cs) (s_free s) fs {}" "\<And>m. m \<noteq> n \<Longrightarrow> key_at h1 m = key_at (s_heap s) m"
    "dom h1 = dom (s_heap s)"
    using parts_set_key [OF p(1), of n "?k\<lparr>k_count := k_count ?k - 1\<rparr>"] p(1) by (cases "all") auto
  obtain h2 bl where h2: "ListRemove h1 (s_busy s) n = Inr (h2, bl)" "parts h2 bl (as @ cs) (s_free s) fs {n}" "data_at h2 = data_at h1"
    using parts_remove [OF h1(2)] by (auto elim!: returnsE)
  obtain h3 where h3: "set_key h2 n zero_key = Inr h3" "parts h3 bl (as @ cs) (s_free s) fs {n}"
    "key_at h3 = (key_at h2)(n := zero_key)"
    using parts_set_key [OF h2(2), of n zero_key] by auto
  obtain h4 fl where h4: "ListAddLast h3 (s_free s) (Some n) = Inr (h4, fl)" "parts h4 bl (as @ cs) fl (fs @ [n]) {}" "data_at h4 = data_at h3"
    using parts_add [OF h3(2) [unfolded parts_swap [of h3 bl]]] by (auto elim!: returnsE simp: parts_swap [of _ bl])
  have k4: "key_at h4 m = (if m = n then zero_key else key_at (s_heap s) m)" for m
    using h1(3) [of m] h3(3) key_at_eq [OF h2(3)] key_at_eq [OF h4(3)] by simp
  let ?s4 = "s\<lparr>s_heap := h4, s_busy := bl, s_free := fl, s_lock := Some taken_lock\<rparr>"
  have dm: "dom h4 = dom (s_heap s)" using parts_dom [OF h4(2)] parts_dom [OF p(1)] by auto
  have pp: "parts (s_heap ?s4) (s_busy ?s4) (as @ cs) fl (fs @ [n]) {}" "length (as @ cs) \<le> s_tick ?s4"
    "Suc (length as) + length cs < length (s_polls ?s4)"
    using h4(2) parts_bound(1) [OF p] k(3) by simp_all
  from shift_polls_seq [OF this] obtain h5 where h5:
    "shift_polls (length cs) (int (Suc (length as))) ?s4 =
      Inr (?s4\<lparr>s_heap := h5, s_polls := moved (Suc (length as)) (length cs) (s_polls ?s4)\<rparr>)"
    "parts h5 (s_busy ?s4) (as @ cs) fl (fs @ [n]) {}" "dom h5 = dom (s_heap ?s4)"
    "\<forall>m. key_at h5 m = (if m \<in> set (as @ cs) \<and> int (Suc (length as)) < k_poll (key_at (s_heap ?s4) m) \<and>
        k_poll (key_at (s_heap ?s4) m) \<le> int (Suc (length as) + length cs)
      then (key_at (s_heap ?s4) m)\<lparr>k_poll := k_poll (key_at (s_heap ?s4) m) - 1\<rparr> else key_at (s_heap ?s4) m)" by blast
  let ?ps = "(moved (Suc (length as)) (length cs) (s_polls s))[Suc (length as + length cs) := zero_poll]"
  let ?s' = "s\<lparr>s_heap := h5, s_busy := bl, s_free := fl, s_polls := ?ps, s_numPolls := s_numPolls s - 1, s_lock := Some free_lock\<rparr>"
  have rounds: "nat (s_numPolls s - 1 - k_poll ?k) = length cs" using k(1) ok by (simp add: key_ok_def)
  have sp: "set_poll (moved (Suc (length as)) (length cs) (s_polls s)) (k_poll ?k + int (length cs)) zero_poll = Inr ?ps"
    using k(3) ok by (simp add: set_poll_def key_ok_def nat_add_distrib)
  have poll: "k_poll ?k = int (Suc (length as))" "k_node ?k = Some n" using ok by (simp_all add: key_ok_def)
  have r: "Unregister s n all = Inr (True, ?s')"
  proof -
    have c': "\<not> (\<not> all \<and> k_count ?k - 1 > 0)" using c by auto
    show ?thesis
      using l h1(1) h2(1) h3(1) h4(1) h5(1) sp rounds sel_nodes_get [OF sn(1), of n] poll c'
      by (simp add: Unregister_def Let_def)
  qed
  have keys: "key_at h5 m = (if m \<in> set (as @ cs) \<and> int (Suc (length as)) < k_poll (key_at (s_heap s) m) \<and>
        k_poll (key_at (s_heap s) m) \<le> int (Suc (length as) + length cs)
      then (key_at (s_heap s) m)\<lparr>k_poll := k_poll (key_at (s_heap s) m) - 1\<rparr>
      else if m = n then zero_key else key_at (s_heap s) m)" for m
    using h5(4) [rule_format, of m] k4 [of m] d by auto
  have nodes: "sel_nodes ?s' (as @ cs) (fs @ [n])"
    using h5(2,3) dm p(2) by (simp add: sel_nodes_def)
  moreover have "sel_keys ?s' (as @ cs) (fs @ [n])"
    by (rule sel_keys_after_removal [OF sn(2) d refl keys fsd])
  ultimately have i': "sel_inv ?s'" unfolding sel_inv_def by auto
  have "entry h5 m = entry (s_heap s) m" if "m \<in> set (as @ cs)" for m
    using keys [of m] that d by (auto simp: entry_def Let_def)
  then have "registry ?s' = map (entry (s_heap s)) (as @ cs)"
    using sel_nodes_registry [OF nodes] by simp
  then show ?thesis using r i' h5(3) dm by simp
qed

lemma entry_in: "(n, d, x, a, c) \<in> set (map (entry h) ns) \<Longrightarrow> n \<in> set ns"
  by (auto simp: entry_def Let_def)

lemma Unregister_correct:
  assumes "sel_inv s" and "n \<in> dom (s_heap s)"
  shows "returns (Unregister s n all) (\<lambda>(last, s'). sel_inv s' \<and> registry s' = drop_entry all n (registry s) \<and>
    last = (n \<notin> fst ` set (registry s')) \<and> dom (s_heap s') = dom (s_heap s))"
proof -
  from assms(1) obtain bs fs where i: "s_lock s = Some free_lock" "sel_nodes s bs fs" "sel_keys s bs fs"
    "parts (s_heap s) (s_busy s) bs (s_free s) fs {}" by (rule sel_invE)
  have n: "n \<in> set bs \<union> set fs" using assms(2) parts_dom [OF i(4)] by simp
  have reg: "registry s = map (entry (s_heap s)) bs" by (rule sel_nodes_registry [OF i(2)])
  show ?thesis
  proof (cases "n \<in> set bs")
    case False
    then have "key_at (s_heap s) n = zero_key" using n sel_keysD(6) [OF i(3)] by simp
    then have "Unregister s n all = Inr (True, s)"
      using i(1) sel_nodes_get [OF i(2) n] by (simp add: Unregister_def zero_key_def)
    then show ?thesis using assms(1) False by (simp add: reg drop_entry_map image_image)
  next
    case True
    then obtain as cs where bs: "bs = as @ n # cs" by (auto simp: in_set_conv_decomp)
    have d: "n \<notin> set as" "n \<notin> set cs" using parts_distinct [OF i(4)] bs by auto
    show ?thesis
    proof (cases "\<not> all \<and> k_count (key_at (s_heap s) n) > 1")
      case True
      have "n \<in> fst ` set (drop_entry all n (registry s))"
        using True unfolding reg bs drop_entry_append map_append list.map
        by (force simp: drop_entry_def entry_def Let_def)
      with Unregister_keeps [OF assms(1) i(2,3) bs conjunct1 [OF True] conjunct2 [OF True]] show ?thesis
        by (auto elim!: returns_mono)
    next
      case False
      have "drop_entry all n [entry (s_heap s) n] = []"
        using False by (auto simp: drop_entry_def entry_def Let_def)
      then have e: "drop_entry all n (registry s) = map (entry (s_heap s)) (as @ cs)"
        using d drop_entry_append [of all n "[entry (s_heap s) n]"] by (simp add: reg bs drop_entry_append drop_entry_map)
      have "all \<or> k_count (key_at (s_heap s) n) \<le> 1" using False by auto
      from Unregister_removes [OF assms(1) i(2,3) [unfolded bs] this] show ?thesis
        unfolding e using d by (auto elim!: returns_mono dest: entry_eq simp: image_image)
    qed
  qed
qed

text \<open>What registering a descriptor does to the registry.\<close>

definition bump :: "nref \<Rightarrow> (nref \<times> int \<times> op \<times> nat \<times> int) list \<Rightarrow> (nref \<times> int \<times> op \<times> nat \<times> int) list" where
  "bump n r = map (\<lambda>(m, fd, op, att, c). (m, fd, op, att, if m = n then c + 1 else c)) r"

definition registers ::
  "op \<Rightarrow> int \<Rightarrow> nat \<Rightarrow> nref \<Rightarrow> (nref \<times> int \<times> op \<times> nat \<times> int) list \<Rightarrow> (nref \<times> int \<times> op \<times> nat \<times> int) list \<Rightarrow> bool" where
  "registers operation fd att n r r' \<longleftrightarrow>
     (if \<exists>e \<in> set r. fst (snd e) = fd
      then (\<exists>e \<in> set r. fst e = n \<and> fst (snd e) = fd) \<and> r' = bump n r
      else n \<notin> fst ` set r \<and> r' = r @ [(n, fd, operation, att, 1)])"

lemma find_SomeD: "find P xs = Some n \<Longrightarrow> n \<in> set xs \<and> P n"
  by (auto simp: find_Some_iff)

lemma find_only:
  assumes "n \<in> set bs" and "P n" and "\<And>m. m \<in> set bs \<Longrightarrow> P m \<Longrightarrow> m = n"
  shows "find P bs = Some n"
proof (cases "find P bs")
  case None
  then show ?thesis using assms(1,2) by (simp add: find_None_iff)
next
  case (Some m)
  then have "m \<in> set bs" "P m" by (auto simp: find_Some_iff)
  then show ?thesis using assms(3) Some by simp
qed

lemma Register_present:
  assumes inv: "sel_inv s" and sn: "sel_nodes s bs fs" "sel_keys s bs fs"
    and n: "n \<in> set bs" "k_fd (key_at (s_heap s) n) = fd"
  shows "returns (Register ok rok s operation fd att) (\<lambda>(r, s'). r = Some n \<and> sel_inv s' \<and>
    registers operation fd att n (registry s) (registry s') \<and> dom (s_heap s') = dom (s_heap s))"
proof -
  let ?k = "key_at (s_heap s) n"
  have l: "s_lock s = Some free_lock" using inv by (simp add: sel_inv_def)
  have p: "parts (s_heap s) (s_busy s) ([] @ bs) (s_free s) fs {}" "dom (s_heap s) \<subseteq> {..<s_tick s}"
    using sn(1) by (simp_all add: sel_nodes_def)
  have len: "length bs < Suc (s_tick s)" using parts_bound(1) [OF p] by simp
  have inj: "m = n" if "m \<in> set bs" "k_fd (key_at (s_heap s) m) = fd" for m
    using sel_keysD(5) [OF sn(2)] that n by (simp add: distinct_map inj_on_def)
  have "find (\<lambda>m. k_fd (key_at (s_heap s) m) = fd) bs = Some n"
    by (rule find_only [of n bs "\<lambda>m. k_fd (key_at (s_heap s) m) = fd", OF n inj])
  with find_fd_seq [OF p(1) len] parts_first [OF p(1)]
  have f: "find_fd (Suc (s_tick s)) (s_heap s) (lfirst (s_busy s)) fd = Inr (Some n)" by simp
  obtain h where h: "set_key (s_heap s) n (?k\<lparr>k_count := k_count ?k + 1\<rparr>) = Inr h"
    "parts h (s_busy s) bs (s_free s) fs {}" "key_at h = (key_at (s_heap s))(n := ?k\<lparr>k_count := k_count ?k + 1\<rparr>)"
    "dom h = dom (s_heap s)"
    using parts_set_key [OF p(1), of n "?k\<lparr>k_count := k_count ?k + 1\<rparr>"] n by auto
  let ?s = "s\<lparr>s_heap := h, s_lock := Some free_lock\<rparr>"
  have r: "Register ok rok s operation fd att = Inr (Some n, ?s)"
    using l f h(1) sel_nodes_get [OF sn(1), of n] n by (simp add: Register_def)
  have "n \<notin> set fs" using p(1) n by (auto simp: parts_def)
  then have "\<And>m. same_slot (key_at (s_heap s) m) (key_at h m)" "\<And>m. m \<in> set fs \<Longrightarrow> key_at h m = key_at (s_heap s) m"
    using h(3) by (auto simp: same_slot_def)
  note u = sel_update [OF sn, where s' = ?s, simplified, OF h(2,4) this sel_cur [OF sn(2), simplified]]
  then have nodes: "sel_nodes ?s bs fs" "sel_keys ?s bs fs" and reg: "registry ?s = map (entry h) bs" by auto
  then have i': "sel_inv ?s" by (auto simp: sel_inv_def)
  have e: "\<exists>e \<in> set (registry s). fst e = n \<and> fst (snd e) = fd"
    using n by (auto simp: sel_nodes_registry [OF sn(1)] entry_def Let_def)
  moreover have "registry ?s = bump n (registry s)"
    using h(3) by (auto simp: reg sel_nodes_registry [OF sn(1)] bump_def entry_def Let_def)
  ultimately have "registers operation fd att n (registry s) (registry ?s)" by (auto simp: registers_def)
  with r i' h(4) show ?thesis by simp
qed

text \<open>A node for a new registration, taken from the free list or allocated.\<close>

definition fresh_node :: "selector \<Rightarrow> nref list \<Rightarrow> nref list \<Rightarrow> nref \<Rightarrow> selector \<Rightarrow> bool" where
  "fresh_node s bs fs n s1 \<longleftrightarrow>
     (\<exists>fs'. parts (s_heap s1) (s_busy s) bs (s_free s1) fs' {n} \<and> set fs \<subseteq> insert n (set fs') \<and> set fs' \<subseteq> set fs) \<and>
     (\<forall>m. m \<noteq> n \<longrightarrow> key_at (s_heap s1) m = key_at (s_heap s) m) \<and> dom (s_heap s1) \<subseteq> {..<s_tick s1} \<and>
     s1 = s\<lparr>s_heap := s_heap s1, s_free := s_free s1, s_tick := s_tick s1\<rparr>"

lemma fresh_nodeI:
  "parts (s_heap s1) (s_busy s) bs (s_free s1) fs' {n} \<Longrightarrow> set fs \<subseteq> insert n (set fs') \<Longrightarrow> set fs' \<subseteq> set fs \<Longrightarrow>
   (\<And>m. m \<noteq> n \<Longrightarrow> key_at (s_heap s1) m = key_at (s_heap s) m) \<Longrightarrow> dom (s_heap s1) \<subseteq> {..<s_tick s1} \<Longrightarrow>
   s1 = s\<lparr>s_heap := s_heap s1, s_free := s_free s1, s_tick := s_tick s1\<rparr> \<Longrightarrow> fresh_node s bs fs n s1"
  unfolding fresh_node_def by blast

lemma new_key_node_ok:
  assumes sn: "sel_nodes s bs fs" and ok: "\<forall>t. ok t"
  shows "returns (new_key_node ok s) (\<lambda>(p, s1). \<exists>n. p = Some n \<and> fresh_node s bs fs n s1)"
proof -
  have p: "parts (s_heap s) (s_busy s) bs (s_free s) fs {}" "dom (s_heap s) \<subseteq> {..<s_tick s}"
    using sn by (simp_all add: sel_nodes_def)
  show ?thesis
  proof (cases fs)
    case Nil
    let ?t = "Suc (s_tick s)"
    obtain r t' h where n: "NewNode ok ?t (s_heap s) (Some (zero_key\<lparr>k_poll := - 1\<rparr>)) = (r, t', h)"
      by (cases "NewNode ok ?t (s_heap s) (Some (zero_key\<lparr>k_poll := - 1\<rparr>))")
    have "?t \<notin> dom (s_heap s)" using p(2) by auto
    note q' = parts_NewNode [OF p(1) ok [rule_format] this n]
    have q: "r = Some ?t" "t' = Suc ?t" "parts h (s_busy s) bs (s_free s) fs {?t}" using q' by simp_all
    have k: "key_at h m = key_at (s_heap s) m" if "m \<noteq> ?t" for m using q' that by (simp add: key_at_def)
    have dm: "set bs \<union> set fs \<subseteq> {..<s_tick s}" using parts_dom [OF p(1)] p(2) by simp
    have "fresh_node s bs fs ?t (s\<lparr>s_heap := h, s_tick := t'\<rparr>)"
    proof (rule fresh_nodeI [where fs' = "[]"])
      show "dom (s_heap (s\<lparr>s_heap := h, s_tick := t'\<rparr>)) \<subseteq> {..<s_tick (s\<lparr>s_heap := h, s_tick := t'\<rparr>)}"
        unfolding q(2) using parts_dom [OF q(3)] dm by auto
    qed (use q(3) Nil k in simp_all)
    then show ?thesis
      using n q ok Nil parts_ListEmpty(2) [OF p(1)] by (simp add: new_key_node_def NewSelectionKey_def alloc_def)
  next
    case (Cons n fs')
    have "parts (s_heap s) (s_free s) (n # fs') (s_busy s) bs {}" using p(1) Cons by (simp add: parts_swap)
    from parts_pop [OF this] obtain h l where q: "ListPop (s_heap s) (s_free s) = Inr (Some n, h, l)"
      "parts h l fs' (s_busy s) bs {n}" "data_at h = data_at (s_heap s)" by (auto elim!: returnsE)
    have "fresh_node s bs fs n (s\<lparr>s_heap := h, s_free := l\<rparr>)"
    proof (rule fresh_nodeI [where fs' = fs'])
      show "parts (s_heap (s\<lparr>s_heap := h, s_free := l\<rparr>)) (s_busy s) bs (s_free (s\<lparr>s_heap := h, s_free := l\<rparr>)) fs' {n}"
        using q(2) by (simp add: parts_swap)
      show "dom (s_heap (s\<lparr>s_heap := h, s_free := l\<rparr>)) \<subseteq> {..<s_tick (s\<lparr>s_heap := h, s_free := l\<rparr>)}"
        using parts_dom [OF q(2)] parts_dom [OF p(1)] p(2) Cons by auto
    qed (use q Cons in \<open>auto simp: key_at_def\<close>)
    then show ?thesis using q(1) Cons parts_ListEmpty(2) [OF p(1)] by (simp add: new_key_node_def)
  qed
qed

lemma sel_keys_after_register:
  assumes sn: "sel_keys s bs fs" and f: "n \<notin> set bs" "set fs' \<subseteq> set fs" "set fs \<subseteq> insert n (set fs')" "n \<notin> set fs'"
    "set bs \<inter> set fs' = {}"
    and fd: "\<And>m. m \<in> set bs \<Longrightarrow> k_fd (key_at (s_heap s) m) \<noteq> fd"
    and keys: "\<And>m. m \<noteq> n \<Longrightarrow> key_at (s_heap s') m = key_at (s_heap s) m"
      "key_at (s_heap s') n = K" "k_poll K = s_numPolls s" "k_node K = Some n" "k_fd K = fd" "k_operation K = operation" "k_count K = 1"
    and polls: "take (Suc (length bs)) (s_polls s') = take (Suc (length bs)) (s_polls s)"
      "Suc (length bs) < length (s_polls s')" "pl_fd (s_polls s' ! Suc (length bs)) = fd"
      "pl_events (s_polls s' ! Suc (length bs)) = operation"
    and same: "s_pipe s' = s_pipe s" "s_cur s' = s_cur s" "s_numPolls s' = s_numPolls s + 1"
      "s_maxPolls s' = int (length (s_polls s'))"
  shows "sel_keys s' (bs @ [n]) fs'"
proof -
  note k = sel_keysD [OF sn]
  have nth: "s_polls s' ! i = s_polls s ! i" if "i \<le> length bs" for i
    using arg_cong [OF polls(1), of "\<lambda>xs. xs ! i"] that k(3) by simp
  have oks: "\<forall>i < length (bs @ [n]). key_ok (s_polls s') (key_at (s_heap s') ((bs @ [n]) ! i)) ((bs @ [n]) ! i) i"
  proof (intro allI impI)
    fix i assume i: "i < length (bs @ [n])"
    show "key_ok (s_polls s') (key_at (s_heap s') ((bs @ [n]) ! i)) ((bs @ [n]) ! i) i"
    proof (cases "i < length bs")
      case True
      then have "bs ! i \<noteq> n" using f(1) nth_mem [of i bs] by auto
      then show ?thesis using True k(4) [OF True] keys(1) nth [of "Suc i"] by (simp add: nth_append key_ok_def)
    next
      case False
      then have "i = length bs" using i by simp
      then show ?thesis using keys polls k(1) by (simp add: key_ok_def)
    qed
  qed
  have "map (\<lambda>m. k_fd (key_at (s_heap s') m)) bs = map (\<lambda>m. k_fd (key_at (s_heap s) m)) bs"
    unfolding map_eq_conv
  proof
    fix m assume "m \<in> set bs"
    with f(1) have "m \<noteq> n" by auto
    with keys(1) show "k_fd (key_at (s_heap s') m) = k_fd (key_at (s_heap s) m)" by simp
  qed
  with k(5) have "distinct (map (\<lambda>m. k_fd (key_at (s_heap s') m)) bs)" by (simp only:)
  moreover have "fd \<notin> set (map (\<lambda>m. k_fd (key_at (s_heap s') m)) bs)" using fd keys(1) f(1) by fastforce
  ultimately have fds: "distinct (map (\<lambda>m. k_fd (key_at (s_heap s') m)) (bs @ [n]))" using keys(2,5) by simp
  have frees: "\<forall>m \<in> set fs'. key_at (s_heap s') m = zero_key"
  proof
    fix m assume "m \<in> set fs'"
    with f(2,4) have "m \<noteq> n" "m \<in> set fs" by auto
    with keys(1) k(6) show "key_at (s_heap s') m = zero_key" by simp
  qed
  have p0: "pl_fd (s_polls s' ! 0) = fst (s_pipe s)" "pl_events (s_polls s' ! 0) = OP_READ"
    using sn nth [of 0] by (simp_all add: sel_keys_def)
  have c: "\<forall>c. s_cur s' = Some c \<longrightarrow> c \<in> set (bs @ [n]) \<union> set fs'" using sel_cur [OF sn] same f(3) by auto
  show ?thesis using k(1) oks fds frees p0 c same polls(2) unfolding sel_keys_def
    by (simp del: distinct_map distinct_append map_append nth_append set_append)
qed

lemma Register_absent:
  assumes inv: "sel_inv s" and sn: "sel_nodes s bs fs" "sel_keys s bs fs"
    and fd: "\<And>m. m \<in> set bs \<Longrightarrow> k_fd (key_at (s_heap s) m) \<noteq> fd" and ok: "\<forall>t. ok t"
  shows "returns (Register ok True s operation fd att) (\<lambda>(r, s'). \<exists>n. r = Some n \<and> sel_inv s' \<and>
    registers operation fd att n (registry s) (registry s') \<and> n \<in> dom (s_heap s') \<and> dom (s_heap s) \<subseteq> dom (s_heap s'))"
proof -
  have l: "s_lock s = Some free_lock" using inv by (simp add: sel_inv_def)
  have p: "parts (s_heap s) (s_busy s) ([] @ bs) (s_free s) fs {}" "dom (s_heap s) \<subseteq> {..<s_tick s}"
    using sn(1) by (simp_all add: sel_nodes_def)
  have len: "length bs < Suc (s_tick s)" using parts_bound(1) [OF p] by simp
  have "find (\<lambda>m. k_fd (key_at (s_heap s) m) = fd) bs = None" using fd by (simp add: find_None_iff)
  with find_fd_seq [OF p(1) len] parts_first [OF p(1)]
  have f: "find_fd (Suc (s_tick s)) (s_heap s) (lfirst (s_busy s)) fd = Inr None" by simp
  note k = sel_keysD [OF sn(2)]
  let ?s0 = "s\<lparr>s_lock := Some taken_lock\<rparr>"
  have "sel_nodes ?s0 bs fs" using sn(1) by (simp add: sel_nodes_def)
  from new_key_node_ok [OF this ok] obtain n s1 where s1: "new_key_node ok ?s0 = Inr (Some n, s1)" "fresh_node ?s0 bs fs n s1"
    by (auto elim!: returnsE)
  then obtain fs' where q: "parts (s_heap s1) (s_busy s) bs (s_free s1) fs' {n}" "set fs \<subseteq> insert n (set fs')" "set fs' \<subseteq> set fs"
    "\<And>m. m \<noteq> n \<Longrightarrow> key_at (s_heap s1) m = key_at (s_heap s) m" "dom (s_heap s1) \<subseteq> {..<s_tick s1}"
    and s1_eq: "s1 = s\<lparr>s_lock := Some taken_lock, s_heap := s_heap s1, s_free := s_free s1, s_tick := s_tick s1\<rparr>"
    by (auto simp: fresh_node_def)
  have s1_fields: "s_busy s1 = s_busy s" "s_polls s1 = s_polls s" "s_numPolls s1 = s_numPolls s" "s_maxPolls s1 = s_maxPolls s"
    "s_pipe s1 = s_pipe s" "s_cur s1 = s_cur s" "s_lock s1 = Some taken_lock" by (subst s1_eq, simp)+
  obtain h2 bl where h2: "ListAddLast (s_heap s1) (s_busy s) (Some n) = Inr (h2, bl)" "parts h2 bl (bs @ [n]) (s_free s1) fs' {}"
    "data_at h2 = data_at (s_heap s1)"
    using parts_add [OF q(1)] by (auto elim!: returnsE)
  let ?K = "(key_at h2 n)\<lparr>k_poll := s_numPolls s, k_node := Some n, k_operation := operation, k_fd := fd,
     k_attachment := att, k_count := 0, k_curCount := 0\<rparr>"
  obtain h4 where h4: "set_key h2 n ?K = Inr h4" "parts h4 bl (bs @ [n]) (s_free s1) fs' {}" "key_at h4 = (key_at h2)(n := ?K)" "dom h4 = dom h2"
    using parts_set_key [OF h2(2), of n ?K] by auto
  obtain h6 where h6: "set_key h4 n (?K\<lparr>k_count := 1\<rparr>) = Inr h6" "parts h6 bl (bs @ [n]) (s_free s1) fs' {}"
    "key_at h6 = (key_at h4)(n := ?K\<lparr>k_count := 1\<rparr>)" "dom h6 = dom h4"
    using parts_set_key [OF h4(2), of n "?K\<lparr>k_count := 1\<rparr>"] by auto
  let ?full = "s_numPolls s = s_maxPolls s"
  let ?ps = "if ?full then s_polls s @ [zero_poll] else s_polls s"
  let ?e = "zero_poll\<lparr>pl_events := operation, pl_fd := fd\<rparr>"
  let ?s' = "s1\<lparr>s_busy := bl, s_heap := h6, s_polls := ?ps[Suc (length bs) := ?e],
    s_maxPolls := (if ?full then s_maxPolls s + 1 else s_maxPolls s), s_numPolls := s_numPolls s + 1, s_lock := Some free_lock\<rparr>"
  have full: "?full = (length (s_polls s) = Suc (length bs))" using k(1,2) by auto
  then have room: "Suc (length bs) < length ?ps" using k(3) by auto
  have sp: "set_poll ?ps (s_numPolls s) ?e = Inr (?ps[Suc (length bs) := ?e])"
  proof -
    have "nat (s_numPolls s) = Suc (length bs)" "0 \<le> s_numPolls s" using k(1) by simp_all
    with room show ?thesis by (simp only: set_poll_def when_ok_simps) (simp add: when_ok_def)
  qed
  have gk: "get_key h2 n = Inr (key_at h2 n)" "get_key h4 n = Inr ?K"
    using parts_get_key [OF h2(2), of n] parts_get_key [OF h4(2), of n] h4(3) by simp_all
  have r: "Register ok True s operation fd att = Inr (Some n, ?s')"
    using l f s1(1) s1_fields h2(1) gk h4(1) h6(1) sp
    by (cases ?full) (simp_all add: Register_def Let_def)
  have key6: "key_at h6 m = (if m = n then ?K\<lparr>k_count := 1\<rparr> else key_at (s_heap s) m)" for m
    using h6(3) h4(3) key_at_eq [OF h2(3)] q(4) [of m] by simp
  have nn: "n \<notin> set bs" "n \<notin> set fs'" "set bs \<inter> set fs' = {}" using q(1) by (auto simp: parts_def)
  have "sel_keys ?s' (bs @ [n]) fs'"
    by (rule sel_keys_after_register [OF sn(2) nn(1) q(3,2) nn(2,3) fd])
      (use key6 room k(1,2,3) s1_fields in \<open>auto simp: nth_append\<close>)
  moreover have nodes: "sel_nodes ?s' (bs @ [n]) fs'"
    using h6(2,4) h4(4) key_at_eq [OF h2(3)] q(5) parts_dom [OF h2(2)] parts_dom [OF q(1)] by (simp add: sel_nodes_def)
  ultimately have inv': "sel_inv ?s'" by (intro sel_invI) simp_all
  have reg: "registry ?s' = registry s @ [(n, fd, operation, att, 1)]"
  proof -
    have "entry h6 m = entry (s_heap s) m" if "m \<in> set bs" for m
      using that nn(1) key6 [of m] by (auto simp: entry_def Let_def)
    then show ?thesis using sel_nodes_registry [OF nodes] sel_nodes_registry [OF sn(1)] key6 [of n]
      by (simp add: entry_def [of h6 n] Let_def)
  qed
  have "registers operation fd att n (registry s) (registry ?s')"
    unfolding registers_def reg sel_nodes_registry [OF sn(1)] using fd nn(1) by (auto simp: entry_def Let_def)
  moreover have "n \<in> dom h6" "dom (s_heap s) \<subseteq> dom h6"
    using parts_dom [OF h6(2)] parts_dom [OF p(1)] q(2) by auto
  ultimately show ?thesis using r inv' by auto
qed

lemma Register_correct:
  assumes "sel_inv s" and "\<forall>t. ok t"
  shows "returns (Register ok True s operation fd att) (\<lambda>(r, s'). \<exists>n. r = Some n \<and> sel_inv s' \<and>
    registers operation fd att n (registry s) (registry s') \<and> n \<in> dom (s_heap s') \<and> dom (s_heap s) \<subseteq> dom (s_heap s'))"
proof -
  from assms(1) obtain bs fs where i: "sel_nodes s bs fs" "sel_keys s bs fs"
    "parts (s_heap s) (s_busy s) bs (s_free s) fs {}" by (rule sel_invE)
  show ?thesis
  proof (cases "\<exists>n \<in> set bs. k_fd (key_at (s_heap s) n) = fd")
    case True
    then obtain n where n: "n \<in> set bs" "k_fd (key_at (s_heap s) n) = fd" by auto
    have "n \<in> dom (s_heap s)" using parts_dom [OF i(3)] n(1) by simp
    then show ?thesis
      by (intro returns_mono [OF Register_present [OF assms(1) i(1,2) n, of ok True operation att]]) auto
  next
    case False
    then show ?thesis using Register_absent [OF assms(1) i(1,2) _ assms(2)] by blast
  qed
qed

section \<open>Iterating over the ready keys\<close>

definition ready :: "selector \<Rightarrow> nref \<Rightarrow> bool" where
  "ready s m \<longleftrightarrow> is_ready (pl_revents (s_polls s ! nat (k_poll (key_at (s_heap s) m))))"

text \<open>The key \<open>n\<close> is handed out: its entry is reset and it becomes the current key.\<close>

definition handed :: "selector \<Rightarrow> nref list \<Rightarrow> nref list \<Rightarrow> nref \<Rightarrow> selector \<Rightarrow> bool" where
  "handed s bs fs n s' \<longleftrightarrow>
     (let k = key_at (s_heap s) n; i = nat (k_poll k); p = s_polls s ! i in
      parts (s_heap s') (s_busy s) bs (s_free s) fs {} \<and> dom (s_heap s') = dom (s_heap s) \<and>
      key_at (s_heap s') = (key_at (s_heap s))(n := k\<lparr>k_result := pl_revents p, k_curCount := k_curCount k + 1\<rparr>) \<and>
      s' = s\<lparr>s_heap := s_heap s', s_polls := (s_polls s)[i := p\<lparr>pl_revents := 0\<rparr>], s_cur := Some n\<rparr>)"

lemma get_poll_ok: "0 \<le> i \<Longrightarrow> i < int (length ps) \<Longrightarrow> get_poll ps i = Inr (ps ! nat i)"
  by (simp add: get_poll_def)

lemma set_poll_ok: "0 \<le> i \<Longrightarrow> i < int (length ps) \<Longrightarrow> set_poll ps i p = Inr (ps[nat i := p])"
  by (simp add: set_poll_def)

lemma ready_loop_seq:
  "parts (s_heap s) (s_busy s) (as @ cs) (s_free s) fs {} \<Longrightarrow> length cs < f \<Longrightarrow>
   (\<And>m. m \<in> set cs \<Longrightarrow> 0 \<le> k_poll (key_at (s_heap s) m) \<and> k_poll (key_at (s_heap s) m) < int (length (s_polls s))) \<Longrightarrow>
   returns (ready_loop f s (hd_opt cs)) (\<lambda>(r, s'). r = find (ready s) cs \<and>
     (case r of None \<Rightarrow> s' = s | Some n \<Rightarrow> handed s (as @ cs) fs n s'))"
proof (induction cs arbitrary: as f)
  case Nil
  then obtain f' where "f = Suc f'" by (cases f) auto
  then show ?case by simp
next
  case (Cons n cs)
  then obtain f' where f: "f = Suc f'" "length cs < f'" by (cases f) auto
  let ?k = "key_at (s_heap s) n"
  let ?p = "s_polls s ! nat (k_poll ?k)"
  have k: "get_key (s_heap s) n = Inr ?k" using parts_get_key [OF Cons.prems(1), of n] by simp
  have i: "0 \<le> k_poll ?k" "k_poll ?k < int (length (s_polls s))" using Cons.prems(3) [of n] by simp_all
  show ?case
  proof (cases "ready s n")
    case True
    obtain h where h: "set_key (s_heap s) n (?k\<lparr>k_result := pl_revents ?p, k_curCount := k_curCount ?k + 1\<rparr>) = Inr h"
      "parts h (s_busy s) (as @ n # cs) (s_free s) fs {}" "dom h = dom (s_heap s)"
      "key_at h = (key_at (s_heap s))(n := ?k\<lparr>k_result := pl_revents ?p, k_curCount := k_curCount ?k + 1\<rparr>)"
      using parts_set_key [OF Cons.prems(1), of n] by fastforce
    then show ?thesis using True k get_poll_ok [OF i] set_poll_ok [OF i]
      by (simp add: f(1) ready_def handed_def Let_def)
  next
    case False
    have "parts (s_heap s) (s_busy s) ((as @ [n]) @ cs) (s_free s) fs {}" using Cons.prems(1) by simp
    from Cons.IH [OF this f(2), unfolded append_assoc append_Cons append_Nil] Cons.prems(3)
    have "returns (ready_loop f' s (hd_opt cs)) (\<lambda>(r, s'). r = find (ready s) cs \<and>
      (case r of None \<Rightarrow> s' = s | Some n' \<Rightarrow> handed s (as @ n # cs) fs n' s'))" by simp
    moreover have "ready_loop f s (hd_opt (n # cs)) = ready_loop f' s (hd_opt cs)"
      using False k get_poll_ok [OF i] parts_get_next [OF Cons.prems(1)] by (simp add: f(1) ready_def)
    ultimately show ?thesis using False by simp
  qed
qed

lemma fill_revents_length [simp]: "length (fill_revents ps n rs) = length ps"
  by (simp add: fill_revents_def)

lemma fill_revents_nth:
  "i < length ps \<Longrightarrow> int i < n \<Longrightarrow> i < length rs \<Longrightarrow> fill_revents ps n rs ! i = (ps ! i)\<lparr>pl_revents := rs ! i\<rparr>"
  by (simp add: fill_revents_def)

lemma fill_revents_same [simp]: "same_entries ps (fill_revents ps n rs)"
  by (simp add: same_entries_def fill_revents_def)

lemma poll_loop_answer:
  "find (\<lambda>x. x \<noteq> PollInterrupted) outs = Some (PollReady rs) \<Longrightarrow>
   poll_loop outs s = Inr (Some (count_ready (fill_revents (s_polls s) (s_numPolls s) rs) (s_numPolls s)),
     s\<lparr>s_polls := fill_revents (s_polls s) (s_numPolls s) rs\<rparr>)"
  by (induction outs s rule: poll_loop.induct) (auto simp: Let_def split: if_splits)

section \<open>Every call on a selector with keys returns\<close>

lemma handed_keeps:
  assumes sn: "sel_nodes s bs fs" "sel_keys s bs fs" and n: "n \<in> set bs" and h: "handed s bs fs n s'"
  shows "sel_nodes s' bs fs" "sel_keys s' bs fs" "registry s' = registry s" "s_lock s' = s_lock s" "s_tick s' = s_tick s"
proof -
  let ?k = "key_at (s_heap s) n"
  let ?i = "nat (k_poll ?k)"
  let ?p = "s_polls s ! ?i"
  have p: "parts (s_heap s') (s_busy s) bs (s_free s) fs {}" and d: "dom (s_heap s') = dom (s_heap s)"
    and k: "key_at (s_heap s') = (key_at (s_heap s))(n := ?k\<lparr>k_result := pl_revents ?p, k_curCount := k_curCount ?k + 1\<rparr>)"
    and e: "s' = s\<lparr>s_heap := s_heap s', s_polls := (s_polls s)[?i := ?p\<lparr>pl_revents := 0\<rparr>], s_cur := Some n\<rparr>"
    using h by (simp_all add: handed_def Let_def)
  have same: "s_busy s' = s_busy s" "s_free s' = s_free s" "s_tick s' = s_tick s" "s_pipe s' = s_pipe s"
    "s_numPolls s' = s_numPolls s" "s_maxPolls s' = s_maxPolls s" "s_polls s' = (s_polls s)[?i := ?p\<lparr>pl_revents := 0\<rparr>]"
    "s_cur s' = Some n" "s_lock s' = s_lock s"
    by (subst e, simp)+
  have "n \<notin> set fs" using p n by (auto simp: parts_def)
  then have ks: "\<And>m. same_slot (key_at (s_heap s) m) (key_at (s_heap s') m)" "\<And>m. m \<in> set fs \<Longrightarrow> key_at (s_heap s') m = key_at (s_heap s) m"
    by (auto simp: k same_slot_def)
  have se: "same_entries (s_polls s) (s_polls s')" by (simp add: same(7) same_entries_upd)
  have c: "\<And>c. s_cur s' = Some c \<Longrightarrow> c \<in> set bs \<union> set fs" using n same(8) by simp
  note u = sel_update [OF sn p d ks same(1-6) se c]
  show "sel_nodes s' bs fs" "sel_keys s' bs fs" using u(1,2) by simp_all
  have "map (entry (s_heap s')) bs = map (entry (s_heap s)) bs" by (simp add: k entry_def Let_def)
  then show "registry s' = registry s" using u(3) sel_nodes_registry [OF sn(1)] by simp
  show "s_lock s' = s_lock s" "s_tick s' = s_tick s" by (fact same)+
qed

text \<open>Two selectors with the same keys, in the same places.\<close>

definition alike :: "selector \<Rightarrow> nref list \<Rightarrow> nref list \<Rightarrow> selector \<Rightarrow> bool" where
  "alike s bs fs s' \<longleftrightarrow> sel_nodes s' bs fs \<and> sel_keys s' bs fs \<and> registry s' = registry s \<and>
     s_lock s' = s_lock s \<and> s_tick s' = s_tick s \<and> s_polls s' = s_polls s \<and> s_busy s' = s_busy s \<and>
     (\<forall>m. k_poll (key_at (s_heap s') m) = k_poll (key_at (s_heap s) m))"

lemma alike_refl: "sel_nodes s bs fs \<Longrightarrow> sel_keys s bs fs \<Longrightarrow> alike s bs fs s"
  by (simp add: alike_def)

lemma touch:
  assumes sn: "sel_nodes s bs fs" "sel_keys s bs fs" and n: "n \<in> set bs"
    and K: "K = key_at (s_heap s) n"
    and c: "\<And>h c'. c h = Some c' \<Longrightarrow> c' \<in> set bs \<union> set fs"
  shows "\<exists>h. set_key (s_heap s) n (K\<lparr>k_result := r, k_curCount := v\<rparr>) = Inr h \<and>
    parts h (s_busy s) bs (s_free s) fs {} \<and> key_at h = (key_at (s_heap s))(n := K\<lparr>k_result := r, k_curCount := v\<rparr>) \<and>
    alike s bs fs (s\<lparr>s_heap := h, s_cur := c h\<rparr>)"
proof -
  have p: "parts (s_heap s) (s_busy s) bs (s_free s) fs {}" using sn(1) by (simp add: sel_nodes_def)
  obtain h where h: "set_key (s_heap s) n (K\<lparr>k_result := r, k_curCount := v\<rparr>) = Inr h"
    "parts h (s_busy s) bs (s_free s) fs {}" "dom h = dom (s_heap s)"
    "key_at h = (key_at (s_heap s))(n := K\<lparr>k_result := r, k_curCount := v\<rparr>)"
    using parts_set_key [OF p, of n "K\<lparr>k_result := r, k_curCount := v\<rparr>"] n by auto
  have "n \<notin> set fs" using p n by (auto simp: parts_def)
  then have ks: "\<And>m. same_slot (key_at (s_heap s) m) (key_at h m)" "\<And>m. m \<in> set fs \<Longrightarrow> key_at h m = key_at (s_heap s) m"
    using h(4) K by (auto simp: same_slot_def)
  note u = sel_update [OF sn, where s' = "s\<lparr>s_heap := h, s_cur := c h\<rparr>", simplified, OF h(2,3) ks c [simplified]]
  have "map (entry h) bs = map (entry (s_heap s)) bs" by (simp add: h(4) entry_def K Let_def)
  with u h(4) K have "alike s bs fs (s\<lparr>s_heap := h, s_cur := c h\<rparr>)"
    by (simp add: alike_def sel_nodes_registry [OF sn(1)] cong: map_cong)
  with h show ?thesis by blast
qed

lemma touch_cur:
  assumes sn: "sel_nodes s bs fs" "sel_keys s bs fs" and c: "\<And>c'. c = Some c' \<Longrightarrow> c' \<in> set bs \<union> set fs"
  shows "alike s bs fs (s\<lparr>s_cur := c\<rparr>)"
proof -
  have p: "parts (s_heap s) (s_busy s) bs (s_free s) fs {}" using sn(1) by (simp add: sel_nodes_def)
  note u = sel_update [OF sn, where s' = "s\<lparr>s_cur := c\<rparr>", simplified, OF p c [simplified]]
  then show ?thesis by (simp add: alike_def sel_nodes_registry [OF sn(1)])
qed

lemma ready_again_ok:
  assumes sn: "sel_nodes s bs fs" "sel_keys s bs fs"
  shows "returns (ready_again rp s) (\<lambda>(r, s'). alike s bs fs s' \<and> (case r of Inl n \<Rightarrow> n \<in> set bs | Inr _ \<Rightarrow> True))"
proof (cases "s_cur s")
  case None
  then show ?thesis using alike_refl [OF sn] by (simp add: ready_again_def)
next
  case (Some c)
  have p: "parts (s_heap s) (s_busy s) bs (s_free s) fs {}" using sn(1) by (simp add: sel_nodes_def)
  let ?k = "key_at (s_heap s) c"
  have k: "get_key (s_heap s) c = Inr ?k" using sel_nodes_get [OF sn(1) sel_cur [OF sn(2) Some]] .
  show ?thesis
  proof (cases "k_curCount ?k \<ge> 1")
    case False
    then show ?thesis using Some k alike_refl [OF sn] by (simp add: ready_again_def)
  next
    case True
    then have "c \<notin> set fs" using sel_keysD(6) [OF sn(2), of c] by (auto simp: zero_key_def)
    then have c: "c \<in> set bs" using sel_cur [OF sn(2) Some] by simp
    then obtain as cs where bs: "bs = as @ c # cs" by (auto simp: in_set_conv_decomp)
    have node: "k_node ?k = Some c" using sel_keysD(4) [OF sn(2), of "length as"] bs by (simp add: key_ok_def)
    have next_ok: "parts h (s_busy s) bs (s_free s) fs {} \<Longrightarrow> get_next h c = Inr (hd_opt cs)" for h :: "key nheap"
      using parts_get_next [of h "s_busy s" as c cs "s_free s" fs "{}"] bs by simp
    have cc: "\<And>c'. hd_opt cs = Some c' \<Longrightarrow> c' \<in> set bs \<union> set fs" using bs by (cases cs) auto
    have K: "?k\<lparr>k_result := k_result ?k, k_curCount := v\<rparr> = ?k\<lparr>k_curCount := v\<rparr>" for v by simp
    from touch [OF sn c refl, where c = "\<lambda>_. hd_opt cs" and r = "k_result ?k" and v = 0, OF cc] obtain h0 where
      h0: "set_key (s_heap s) c (?k\<lparr>k_curCount := 0\<rparr>) = Inr h0" "parts h0 (s_busy s) bs (s_free s) fs {}"
        "alike s bs fs (s\<lparr>s_heap := h0, s_cur := hd_opt cs\<rparr>)" unfolding K by blast
    show ?thesis
    proof (cases "k_count ?k > k_curCount ?k")
      case False
      then show ?thesis using True Some k h0 node next_ok [OF h0(2)] by (simp add: ready_again_def next_key_def)
    next
      case more: True
      show ?thesis
      proof (cases rp)
        case None
        then show ?thesis using more True Some k alike_refl [OF sn] by (simp add: ready_again_def)
      next
        case r: (Some r)
        from touch [OF sn c refl, where c = "\<lambda>_. s_cur s" and r = r and v = "k_curCount ?k + 1", OF sel_cur [OF sn(2)]] obtain h1 where
          h1: "set_key (s_heap s) c (?k\<lparr>k_result := r, k_curCount := k_curCount ?k + 1\<rparr>) = Inr h1"
            "alike s bs fs (s\<lparr>s_heap := h1, s_cur := s_cur s\<rparr>)" by blast
        have "s\<lparr>s_heap := h1, s_cur := s_cur s\<rparr> = s\<lparr>s_heap := h1\<rparr>" by (cases s) simp
        with h1(2) have "alike s bs fs (s\<lparr>s_heap := h1\<rparr>)" by (simp only:)
        with h1(1) touch_cur [OF sn cc] more True Some k r c node next_ok [OF p] show ?thesis
          by (simp add: ready_again_def next_key_def)
      qed
    qed
  qed
qed

lemma unlock:
  assumes "sel_nodes s bs fs" "sel_keys s bs fs"
  shows "sel_inv (s\<lparr>s_lock := Some free_lock\<rparr>)" "registry (s\<lparr>s_lock := Some free_lock\<rparr>) = registry s"
proof -
  have "sel_nodes (s\<lparr>s_lock := Some free_lock\<rparr>) bs fs" "sel_keys (s\<lparr>s_lock := Some free_lock\<rparr>) bs fs"
    using assms by (simp_all add: sel_nodes_def sel_keys_def)
  then show "sel_inv (s\<lparr>s_lock := Some free_lock\<rparr>)" by (intro sel_invI) simp_all
  show "registry (s\<lparr>s_lock := Some free_lock\<rparr>) = registry s" by (simp add: registry_def)
qed

lemma unlock_none:
  assumes "sel_nodes s bs fs" "sel_keys s bs fs"
  shows "sel_inv (s\<lparr>s_cur := None, s_lock := Some free_lock\<rparr>)"
    "registry (s\<lparr>s_cur := None, s_lock := Some free_lock\<rparr>) = registry s"
proof -
  have a: "alike s bs fs (s\<lparr>s_cur := None\<rparr>)" by (rule touch_cur [OF assms]) simp
  then have "sel_nodes (s\<lparr>s_cur := None\<rparr>) bs fs" "sel_keys (s\<lparr>s_cur := None\<rparr>) bs fs" by (simp_all add: alike_def)
  from unlock(1) [OF this] show "sel_inv (s\<lparr>s_cur := None, s_lock := Some free_lock\<rparr>)" by simp
  show "registry (s\<lparr>s_cur := None, s_lock := Some free_lock\<rparr>) = registry s" by (simp add: registry_def)
qed

lemma busy_poll:
  assumes "sel_keys s bs fs" and "m \<in> set bs"
  shows "0 \<le> k_poll (key_at (s_heap s) m) \<and> k_poll (key_at (s_heap s) m) < int (length (s_polls s))"
proof -
  from assms(2) obtain i where "i < length bs" "bs ! i = m" by (auto simp: in_set_conv_nth)
  then show ?thesis using sel_keysD(3) [OF assms(1)] sel_keysD(4) [OF assms(1), of i] by (simp add: key_ok_def)
qed

lemma scan_ok:
  assumes s: "sel_nodes s bs fs" "sel_keys s bs fs" "registry s = reg" "s_lock s = l" "s_tick s = t"
    and c: "c \<in> set bs \<union> set fs"
  shows "returns (ready_loop (Suc t) s (k_node (key_at (s_heap s) c))) (\<lambda>(r, s').
    sel_nodes s' bs fs \<and> sel_keys s' bs fs \<and> registry s' = reg \<and> s_lock s' = l \<and> (\<forall>n. r = Some n \<longrightarrow> n \<in> set bs))"
proof (cases "c \<in> set bs")
  case False
  then have "k_node (key_at (s_heap s) c) = None" using c sel_keysD(6) [OF s(2)] by (simp add: zero_key_def)
  then show ?thesis using s by simp
next
  case True
  then obtain as cs where bs: "bs = as @ c # cs" by (auto simp: in_set_conv_decomp)
  have p: "parts (s_heap s) (s_busy s) bs (s_free s) fs {}" "dom (s_heap s) \<subseteq> {..<s_tick s}"
    using s(1) by (simp_all add: sel_nodes_def)
  have node: "k_node (key_at (s_heap s) c) = hd_opt (c # cs)"
    using sel_keysD(4) [OF s(2), of "length as"] bs by (simp add: key_ok_def)
  have "length (c # cs) < Suc t" using parts_bound(1) [OF p] bs s(5) by simp
  note q = ready_loop_seq [OF p(1) [unfolded bs] this busy_poll [OF s(2)]]
  have "returns (ready_loop (Suc t) s (hd_opt (c # cs))) (\<lambda>(r, s'). r = find (ready s) (c # cs) \<and>
     (case r of None \<Rightarrow> s' = s | Some n \<Rightarrow> handed s bs fs n s'))" unfolding bs by (rule q) (auto simp: bs)
  then show ?thesis unfolding node
  proof (rule returns_mono, clarify)
    fix r s' assume a: "case find (ready s) (c # cs) of None \<Rightarrow> s' = s | Some n \<Rightarrow> handed s bs fs n s'"
    show "sel_nodes s' bs fs \<and> sel_keys s' bs fs \<and> registry s' = reg \<and> s_lock s' = l \<and>
      (\<forall>n. find (ready s) (c # cs) = Some n \<longrightarrow> n \<in> set bs)"
    proof (cases "find (ready s) (c # cs)")
      case None
      then show ?thesis using a s by simp
    next
      case (Some n)
      have "n \<in> set bs" using find_SomeD [OF Some] bs by auto
      with handed_keeps [OF s(1,2) this] a Some s show ?thesis by simp
    qed
  qed
qed

lemma SelectionKeyReady_scan:
  assumes "s_lock s = Some free_lock" and "ready_again rp (s\<lparr>s_lock := Some taken_lock\<rparr>) = Inr (Inr u, s1)"
    and "\<not> ListEmpty (s_busy s1)" and s2: "s2 = (if s_cur s1 = None then s1\<lparr>s_cur := lfirst (s_busy s1)\<rparr> else s1)"
    and "s_cur s2 = Some c" and "get_key (s_heap s2) c = Inr k" and "s_tick s2 = s_tick s"
  shows "SelectionKeyReady rp s = bnd (ready_loop (Suc (s_tick s)) s2 (k_node k)) (\<lambda>(found, s3).
           case found of
             Some n \<Rightarrow> bnd (release (s_lock s3)) (\<lambda>lk'. Inr (True, Some n, s3\<lparr>s_lock := lk'\<rparr>))
           | None \<Rightarrow>
               bnd (release (s_lock s3)) (\<lambda>lk'.
               Inr (False, None, s3\<lparr>s_cur := None, s_lock := lk'\<rparr>)))"
  using assms by (simp add: SelectionKeyReady_def Let_def s2 [symmetric] del: ready_loop.simps)

lemma SelectionKeyReady_keeps:
  assumes inv: "sel_inv s" and some: "registry s \<noteq> []"
  shows "returns (SelectionKeyReady rp s) (\<lambda>(b, r, s'). sel_inv s' \<and> registry s' = registry s \<and>
    (b \<longleftrightarrow> r \<noteq> None) \<and> (\<forall>n. r = Some n \<longrightarrow> n \<in> fst ` set (registry s)) \<and> dom (s_heap s') = dom (s_heap s))"
proof -
  from inv obtain bs fs where i: "s_lock s = Some free_lock" "sel_nodes s bs fs" "sel_keys s bs fs"
    by (rule sel_invE)
  have reg: "registry s = map (entry (s_heap s)) bs" by (rule sel_nodes_registry [OF i(2)])
  have bs: "bs \<noteq> []" using some reg by simp
  let ?s0 = "s\<lparr>s_lock := Some taken_lock\<rparr>"
  have z: "sel_nodes ?s0 bs fs" "sel_keys ?s0 bs fs" using i(2,3) by (simp_all add: sel_nodes_def sel_keys_def)
  have r0: "registry ?s0 = registry s" by (simp add: registry_def)
  obtain r s1 where ra: "ready_again rp ?s0 = Inr (r, s1)" and a: "alike ?s0 bs fs s1"
    and rn: "\<And>n. r = Inl n \<Longrightarrow> n \<in> set bs"
    using ready_again_ok [OF z, of rp] by (auto elim!: returnsE split: sum.splits)
  have s1: "sel_nodes s1 bs fs" "sel_keys s1 bs fs" "registry s1 = registry s" "s_lock s1 = Some taken_lock" "s_tick s1 = s_tick s"
    using a r0 by (simp_all add: alike_def)
  show ?thesis
  proof (cases r)
    case (Inl n)
    have "n \<in> fst ` set (registry s)" using rn [OF Inl] reg by (auto simp: image_image)
    then show ?thesis using i(1) ra Inl s1 unlock [OF s1(1,2)] sel_nodes_dom [OF s1(1)] sel_nodes_dom [OF i(2)]
      by (simp add: SelectionKeyReady_def)
  next
    case (Inr u)
    obtain s2 where s2_eq: "s2 = (if s_cur s1 = None then s1\<lparr>s_cur := lfirst (s_busy s1)\<rparr> else s1)" by blast
    have p1: "parts (s_heap s1) (s_busy s1) bs (s_free s1) fs {}" using s1(1) by (simp add: sel_nodes_def)
    have f: "lfirst (s_busy s1) = Some (hd bs)" using parts_first [OF p1] bs by (cases bs) simp_all
    have "alike s1 bs fs (s1\<lparr>s_cur := lfirst (s_busy s1)\<rparr>)" by (rule touch_cur [OF s1(1,2)]) (use f bs in auto)
    then have s2: "sel_nodes s2 bs fs" "sel_keys s2 bs fs" "registry s2 = registry s" "s_lock s2 = Some taken_lock" "s_tick s2 = s_tick s"
      using s1 alike_refl [OF s1(1,2)] by (auto simp: alike_def s2_eq)
    obtain c where c: "s_cur s2 = Some c" "c \<in> set bs \<union> set fs"
      using sel_cur [OF s2(2)] f by (cases "s_cur s1") (auto simp: s2_eq)
    have scan: "returns (ready_loop (Suc (s_tick s)) s2 (k_node (key_at (s_heap s2) c))) (\<lambda>(r, s').
        sel_nodes s' bs fs \<and> sel_keys s' bs fs \<and> registry s' = registry s \<and> s_lock s' = Some taken_lock \<and>
        (\<forall>n. r = Some n \<longrightarrow> n \<in> set bs))"
      by (rule scan_ok [OF s2 c(2)])
    have "\<not> ListEmpty (s_busy s1)" using parts_ListEmpty(1) [OF p1] bs by simp
    note e = SelectionKeyReady_scan [OF i(1) ra [unfolded Inr] this s2_eq c(1) sel_nodes_get [OF s2(1) c(2)] s2(5)]
    show ?thesis unfolding e
    proof (rule returns_bndI [OF scan], clarify)
      fix found s3
      assume n3: "sel_nodes s3 bs fs" and "sel_keys s3 bs fs" "registry s3 = registry s" "s_lock s3 = Some taken_lock"
        "\<forall>n. found = Some n \<longrightarrow> n \<in> set bs"
      with reg unlock [of s3] unlock_none [of s3] sel_nodes_dom [OF n3] sel_nodes_dom [OF i(2)] show "returns (case found of
             Some n \<Rightarrow> bnd (release (s_lock s3)) (\<lambda>lk'. Inr (True, Some n, s3\<lparr>s_lock := lk'\<rparr>))
           | None \<Rightarrow>
               bnd (release (s_lock s3)) (\<lambda>lk'.
               Inr (False, None, s3\<lparr>s_cur := None, s_lock := lk'\<rparr>)))
        (\<lambda>(b, r, s'). sel_inv s' \<and> registry s' = registry s \<and>
          (b \<longleftrightarrow> r \<noteq> None) \<and> (\<forall>n. r = Some n \<longrightarrow> n \<in> fst ` set (registry s)) \<and> dom (s_heap s') = dom (s_heap s))"
        by (cases found) (auto simp: image_image)
    qed
  qed
qed

text \<open>Without registrations the iteration may still stand on a key that has been unregistered meanwhile; then it ends.\<close>

lemma SelectionKeyReady_stale:
  assumes inv: "sel_inv s" and none: "registry s = []" and c: "s_cur s = Some c"
  shows "returns (SelectionKeyReady rp s) (\<lambda>(b, r, s'). sel_inv s' \<and> registry s' = registry s \<and> \<not> b \<and> r = None \<and> dom (s_heap s') = dom (s_heap s))"
proof -
  from inv obtain bs fs where i: "s_lock s = Some free_lock" "sel_nodes s bs fs" "sel_keys s bs fs" by (rule sel_invE)
  have "bs = []" using sel_nodes_registry [OF i(2)] none by simp
  then have k: "key_at (s_heap s) c = zero_key" using sel_cur [OF i(3) c] sel_keysD(6) [OF i(3)] by simp
  have g: "get_key (s_heap s) c = Inr zero_key" using sel_nodes_get [OF i(2) sel_cur [OF i(3) c]] k by simp
  have "SelectionKeyReady rp s = Inr (False, None, s\<lparr>s_cur := None, s_lock := Some free_lock\<rparr>)"
    using i(1) c g by (simp add: SelectionKeyReady_def ready_again_def zero_key_def Let_def)
  then show ?thesis using unlock_none [OF i(2,3)] by simp
qed

section \<open>A round of the iteration\<close>

text \<open>
  The iteration has handed out what was ready among \<open>as\<close> and has \<open>cs\<close> ahead of it. Every descriptor is
  registered once.
\<close>

definition at_pos :: "selector \<Rightarrow> nref list \<Rightarrow> nref list \<Rightarrow> nref list \<Rightarrow> nref list \<Rightarrow> bool" where
  "at_pos s bs fs as cs \<longleftrightarrow> sel_nodes s bs fs \<and> sel_keys s bs fs \<and> bs = as @ cs \<and> bs \<noteq> [] \<and>
     (\<forall>m \<in> set bs. k_count (key_at (s_heap s) m) = 1 \<and>
       k_curCount (key_at (s_heap s) m) = (if as \<noteq> [] \<and> m = last as then 1 else 0)) \<and>
     (\<forall>m \<in> set as. \<not> ready s m) \<and> s_cur s = (if as = [] then None else Some (last as))"

definition all_reset :: "selector \<Rightarrow> nref list \<Rightarrow> bool" where
  "all_reset s bs \<longleftrightarrow> (\<forall>m \<in> set bs. k_count (key_at (s_heap s) m) = 1 \<and> k_curCount (key_at (s_heap s) m) = 0)"

lemma ready_again_pos:
  assumes a: "at_pos s bs fs as cs"
  shows "returns (ready_again rp s) (\<lambda>(r, s1). r = Inr () \<and> alike s bs fs s1 \<and> all_reset s1 bs \<and>
    s_cur s1 = (if as = [] then None else hd_opt cs))"
proof (cases "as = []")
  case True
  then have "s_cur s = None" using a by (simp add: at_pos_def)
  moreover have "alike s bs fs s" using a unfolding at_pos_def by (blast intro: alike_refl)
  ultimately show ?thesis using a True by (simp add: ready_again_def at_pos_def all_reset_def)
next
  case False
  let ?c = "last as"
  let ?k = "key_at (s_heap s) ?c"
  have sn: "sel_nodes s bs fs" "sel_keys s bs fs" using a unfolding at_pos_def by blast+
  have cur: "s_cur s = Some ?c" using a False by (simp add: at_pos_def)
  have bs: "bs = butlast as @ ?c # cs" using a False by (simp add: at_pos_def)
  then have c: "?c \<in> set bs" by simp
  have n1: "k_count ?k = 1" "k_curCount ?k = 1" using a False c by (auto simp: at_pos_def)
  have k: "get_key (s_heap s) ?c = Inr ?k" using sel_nodes_get [OF sn(1)] c by simp
  have node: "k_node ?k = Some ?c"
    using sel_keysD(4) [OF sn(2), of "length (butlast as)"] bs by (simp add: key_ok_def nth_append)
  have cc: "\<And>c'. hd_opt cs = Some c' \<Longrightarrow> c' \<in> set bs \<union> set fs" using bs by (cases cs) auto
  have K: "?k\<lparr>k_result := k_result ?k, k_curCount := v\<rparr> = ?k\<lparr>k_curCount := v\<rparr>" for v by simp
  from touch [OF sn c refl, where c = "\<lambda>_. hd_opt cs" and r = "k_result ?k" and v = 0, OF cc] obtain h where
    h: "set_key (s_heap s) ?c (?k\<lparr>k_curCount := 0\<rparr>) = Inr h" "parts h (s_busy s) bs (s_free s) fs {}"
      "key_at h = (key_at (s_heap s))(?c := ?k\<lparr>k_curCount := 0\<rparr>)"
      "alike s bs fs (s\<lparr>s_heap := h, s_cur := hd_opt cs\<rparr>)" unfolding K by blast
  have "get_next h ?c = Inr (hd_opt cs)" using h(2) bs parts_get_next by metis
  moreover have "all_reset (s\<lparr>s_heap := h, s_cur := hd_opt cs\<rparr>) bs" using a False h(3) by (auto simp: all_reset_def at_pos_def)
  ultimately show ?thesis using cur k n1 node h(1,4) False by (simp add: ready_again_def next_key_def)
qed

lemma alike_ready: "alike s bs fs s' \<Longrightarrow> ready s' = ready s"
  by (rule ext) (simp add: ready_def alike_def)

lemma find_append_skip: "(\<And>x. x \<in> set xs \<Longrightarrow> \<not> P x) \<Longrightarrow> find P (xs @ ys) = find P ys"
  by (induction xs) auto

text \<open>Where the scan starts.\<close>

lemma scan_start:
  assumes a: "at_pos s bs fs as cs" and s1: "alike s bs fs s1" "s_cur s1 = (if as = [] then None else hd_opt cs)"
  obtains us c vs where "(if s_cur s1 = None then lfirst (s_busy s1) else s_cur s1) = Some c" "bs = us @ c # vs"
    "find (ready s) (c # vs) = find (ready s) cs"
proof -
  have sn: "sel_nodes s1 bs fs" using s1 by (simp add: alike_def)
  then have f: "lfirst (s_busy s1) = hd_opt bs" using parts_first unfolding sel_nodes_def by blast
  have nr: "\<And>m. m \<in> set as \<Longrightarrow> \<not> ready s m" and bs: "bs = as @ cs" "bs \<noteq> []"
    using a unfolding at_pos_def by blast+
  show thesis
  proof (cases "as \<noteq> [] \<and> cs \<noteq> []")
    case True
    then have "cs = hd cs # tl cs" by simp
    with True s1(2) bs(1) that [of "hd cs" as "tl cs"] show ?thesis by (cases cs) auto
  next
    case False
    then have c: "s_cur s1 = None" using s1(2) by auto
    have "find (ready s) bs = find (ready s) cs" using find_append_skip [OF nr] bs(1) by simp
    with c f bs(2) that [of "hd bs" "[]" "tl bs"] show ?thesis by (cases bs) auto
  qed
qed

lemma ready_handed:
  assumes sn: "sel_nodes s bs fs" "sel_keys s bs fs" and n: "n \<in> set bs" and h: "handed s bs fs n s'" and m: "m \<in> set bs"
  shows "ready s' m = (m \<noteq> n \<and> ready s m)"
proof -
  let ?k = "key_at (s_heap s)"
  have k: "k_poll (key_at (s_heap s') m) = k_poll (?k m)" using h by (auto simp: handed_def Let_def)
  have ps: "s_polls s' = (s_polls s)[nat (k_poll (?k n)) := (s_polls s ! nat (k_poll (?k n)))\<lparr>pl_revents := 0\<rparr>]"
  proof -
    have "s' = s\<lparr>s_heap := s_heap s', s_polls := (s_polls s)[nat (k_poll (?k n)) := (s_polls s ! nat (k_poll (?k n)))\<lparr>pl_revents := 0\<rparr>], s_cur := Some n\<rparr>"
      using h by (simp add: handed_def Let_def)
    then show ?thesis by (rule ssubst [where P = "\<lambda>x. s_polls x = _"]) simp
  qed
  have inj: "k_poll (?k m) = k_poll (?k n) \<Longrightarrow> m = n"
  proof -
    obtain i j where "i < length bs" "bs ! i = m" "j < length bs" "bs ! j = n" using n m by (auto simp: in_set_conv_nth)
    moreover assume "k_poll (?k m) = k_poll (?k n)"
    ultimately show "m = n" using sel_keysD(4) [OF sn(2), of i] sel_keysD(4) [OF sn(2), of j] by (simp add: key_ok_def)
  qed
  have b: "0 \<le> k_poll (?k n) \<and> k_poll (?k n) < int (length (s_polls s))" "0 \<le> k_poll (?k m) \<and> k_poll (?k m) < int (length (s_polls s))"
    using busy_poll [OF sn(2)] n m by blast+
  show ?thesis
  proof (cases "m = n")
    case True
    moreover have "nat (k_poll (?k n)) < length (s_polls s)" using b by linarith
    ultimately show ?thesis using k by (simp add: ready_def ps is_ready_def)
  next
    case False
    then have "nat (k_poll (?k m)) \<noteq> nat (k_poll (?k n))" using inj b eq_nat_nat_iff by blast
    then show ?thesis using False by (simp add: ready_def k ps)
  qed
qed

lemma find_split: "find P xs = Some n \<Longrightarrow> \<exists>us vs. xs = us @ n # vs \<and> (\<forall>u \<in> set us. \<not> P u) \<and> P n"
proof (induction xs)
  case (Cons x xs)
  show ?case
  proof (cases "P x")
    case True
    then show ?thesis using Cons.prems by (intro exI [of _ "[]"] exI [of _ xs]) auto
  next
    case False
    then obtain us vs where "xs = us @ n # vs" "\<forall>u \<in> set us. \<not> P u" "P n" using Cons by auto
    then show ?thesis using False by (intro exI [of _ "x # us"] exI [of _ vs]) auto
  qed
qed simp

text \<open>The state after a round: nothing is ready any more, or the position has moved.\<close>

definition round_done :: "selector \<Rightarrow> nref list \<Rightarrow> nref list \<Rightarrow> selector \<Rightarrow> bool" where
  "round_done s bs fs s' \<longleftrightarrow> at_pos s' bs fs [] bs \<and> (\<forall>m \<in> set bs. \<not> ready s' m)"

definition round_moved :: "selector \<Rightarrow> nref list \<Rightarrow> nref list \<Rightarrow> nref list \<Rightarrow> nref list \<Rightarrow> nref \<Rightarrow> selector \<Rightarrow> bool" where
  "round_moved s bs fs as cs n s' \<longleftrightarrow>
     (\<exists>us vs. cs = us @ n # vs \<and> (\<forall>u \<in> set us. \<not> ready s u) \<and> ready s n \<and>
       at_pos s' bs fs (as @ us @ [n]) vs \<and> (\<forall>m \<in> set vs. ready s' m = ready s m))"

lemma at_pos_lock: "at_pos (s\<lparr>s_lock := l\<rparr>) bs fs as cs = at_pos s bs fs as cs"
  by (simp add: at_pos_def sel_nodes_def sel_keys_def ready_def)

lemma round_moved_lock: "round_moved s bs fs as cs n (s'\<lparr>s_lock := l\<rparr>) = round_moved s bs fs as cs n s'"
  by (simp add: round_moved_def at_pos_lock) (simp add: ready_def)

lemma handed_moves:
  assumes a: "at_pos s bs fs as cs" and s2: "sel_nodes s2 bs fs" "sel_keys s2 bs fs" "all_reset s2 bs" "ready s2 = ready s"
    and n: "find (ready s) cs = Some n" and h: "handed s2 bs fs n s3"
  shows "round_moved s bs fs as cs n s3"
proof -
  from find_split [OF n] obtain us vs where cs: "cs = us @ n # vs" "\<forall>u \<in> set us. \<not> ready s u" "ready s n" by blast
  have bs: "bs = as @ cs" "bs \<noteq> []" and nr: "\<forall>m \<in> set as. \<not> ready s m" using a unfolding at_pos_def by blast+
  have p: "parts (s_heap s2) (s_busy s2) bs (s_free s2) fs {}" using s2(1) by (simp add: sel_nodes_def)
  have d: "distinct bs" using parts_distinct [OF p] by simp
  have nb: "n \<in> set bs" using bs cs by simp
  note k = handed_keeps [OF s2(1,2) nb h] and r = ready_handed [OF s2(1,2) nb h]
  have "at_pos s3 bs fs (as @ us @ [n]) vs"
    unfolding at_pos_def
  proof (intro conjI)
    show "\<forall>m \<in> set bs. k_count (key_at (s_heap s3) m) = 1 \<and>
       k_curCount (key_at (s_heap s3) m) = (if as @ us @ [n] \<noteq> [] \<and> m = last (as @ us @ [n]) then 1 else 0)"
      using h s2(3) by (auto simp: handed_def Let_def all_reset_def)
    show "\<forall>m \<in> set (as @ us @ [n]). \<not> ready s3 m" using r s2(4) nr cs(2) bs cs(1) by auto
    have "s_cur s3 = Some n"
    proof -
      have "\<exists>h ps. s3 = s2\<lparr>s_heap := h, s_polls := ps, s_cur := Some n\<rparr>" using h unfolding handed_def Let_def by blast
      then show ?thesis by auto
    qed
    then show "s_cur s3 = (if as @ us @ [n] = [] then None else Some (last (as @ us @ [n])))" by simp
  qed (use k bs cs in simp_all)
  moreover have "\<forall>m \<in> set vs. ready s3 m = ready s m" using r s2(4) d bs cs by auto
  ultimately show ?thesis unfolding round_moved_def using cs by blast
qed

lemma SelectionKeyReady_round:
  assumes a: "at_pos s bs fs as cs" and l: "s_lock s = Some free_lock"
  shows "returns (SelectionKeyReady rp s) (\<lambda>(b, r, s'). s_lock s' = Some free_lock \<and>
    (case find (ready s) cs of None \<Rightarrow> \<not> b \<and> round_done s bs fs s' | Some n \<Rightarrow> b \<and> r = Some n \<and> round_moved s bs fs as cs n s'))"
proof -
  let ?s0 = "s\<lparr>s_lock := Some taken_lock\<rparr>"
  have a0: "at_pos ?s0 bs fs as cs" using a by (simp add: at_pos_lock)
  obtain u s1 where ra: "ready_again rp ?s0 = Inr (Inr u, s1)" and al: "alike ?s0 bs fs s1" and ar: "all_reset s1 bs"
    and cur: "s_cur s1 = (if as = [] then None else hd_opt cs)"
    using ready_again_pos [OF a0, of rp] by (auto elim!: returnsE)
  from scan_start [OF a0 al cur] obtain us c vs where c: "(if s_cur s1 = None then lfirst (s_busy s1) else s_cur s1) = Some c"
    "bs = us @ c # vs" "find (ready ?s0) (c # vs) = find (ready ?s0) cs" by blast
  have r0: "ready ?s0 = ready s" by (rule ext) (simp add: ready_def)
  obtain s2 where s2_eq: "s2 = (if s_cur s1 = None then s1\<lparr>s_cur := lfirst (s_busy s1)\<rparr> else s1)" by blast
  have s1: "sel_nodes s1 bs fs" "sel_keys s1 bs fs" using al by (simp_all add: alike_def)
  have al2: "alike s1 bs fs s2"
    using c(1,2) alike_refl [OF s1] touch_cur [OF s1, of "lfirst (s_busy s1)"] by (auto simp: s2_eq split: if_splits)
  have s2: "sel_nodes s2 bs fs" "sel_keys s2 bs fs" "s_cur s2 = Some c" "s_tick s2 = s_tick s" "s_lock s2 = Some taken_lock"
    using al al2 c(1) by (auto simp: alike_def s2_eq split: if_splits)
  have ar2: "all_reset s2 bs" using ar by (auto simp: all_reset_def s2_eq)
  have r2: "ready s2 = ready s" using alike_ready [OF al] alike_ready [OF al2] r0 by simp
  have p1: "parts (s_heap s1) (s_busy s1) bs (s_free s1) fs {}" using s1(1) by (simp add: sel_nodes_def)
  have p2: "parts (s_heap s2) (s_busy s2) bs (s_free s2) fs {}" "dom (s_heap s2) \<subseteq> {..<s_tick s2}"
    using s2(1) by (simp_all add: sel_nodes_def)
  have ne: "\<not> ListEmpty (s_busy s1)" using parts_ListEmpty(1) [OF p1] c(2) by simp
  have gk: "get_key (s_heap s2) c = Inr (key_at (s_heap s2) c)" using sel_nodes_get [OF s2(1)] c(2) by simp
  note e = SelectionKeyReady_scan [OF l ra ne s2_eq s2(3) gk s2(4)]
  have node: "k_node (key_at (s_heap s2) c) = hd_opt (c # vs)"
    using sel_keysD(4) [OF s2(2), of "length us"] c(2) by (simp add: key_ok_def)
  have len: "length (c # vs) < Suc (s_tick s)" using parts_bound(1) [OF p2] c(2) s2(4) by simp
  have scan: "returns (ready_loop (Suc (s_tick s)) s2 (hd_opt (c # vs))) (\<lambda>(r, s'). r = find (ready s) cs \<and>
     (case r of None \<Rightarrow> s' = s2 | Some n \<Rightarrow> handed s2 bs fs n s'))"
  proof -
    have f2: "find (ready s2) (c # vs) = find (ready s) cs" using c(3) r0 r2 by (simp only:)
    have b: "\<And>m. m \<in> set (c # vs) \<Longrightarrow> 0 \<le> k_poll (key_at (s_heap s2) m) \<and> k_poll (key_at (s_heap s2) m) < int (length (s_polls s2))"
      by (rule busy_poll [OF s2(2)]) (auto simp: c(2))
    show ?thesis using ready_loop_seq [OF p2(1) [unfolded c(2)] len b] unfolding f2 c(2) .
  qed
  show ?thesis unfolding e node
  proof (rule returns_bndI [OF scan], clarify)
    fix s3 assume h: "case find (ready s) cs of None \<Rightarrow> s3 = s2 | Some n \<Rightarrow> handed s2 bs fs n s3"
    show "returns (case find (ready s) cs of
             Some n \<Rightarrow> bnd (release (s_lock s3)) (\<lambda>lk'. Inr (True, Some n, s3\<lparr>s_lock := lk'\<rparr>))
           | None \<Rightarrow>
               bnd (release (s_lock s3)) (\<lambda>lk'.
               Inr (False, None, s3\<lparr>s_cur := None, s_lock := lk'\<rparr>)))
      (\<lambda>(b, r, s'). s_lock s' = Some free_lock \<and>
        (case find (ready s) cs of None \<Rightarrow> \<not> b \<and> round_done s bs fs s' | Some n \<Rightarrow> b \<and> r = Some n \<and> round_moved s bs fs as cs n s'))"
    proof (cases "find (ready s) cs")
      case None
      have nr: "\<forall>m \<in> set bs. \<not> ready s m" using None a by (auto simp: find_None_iff at_pos_def)
      have t: "alike s2 bs fs (s2\<lparr>s_cur := None\<rparr>)" by (rule touch_cur [OF s2(1,2)]) simp
      have "at_pos (s2\<lparr>s_cur := None\<rparr>) bs fs [] bs"
        using t ar2 c(2) by (simp add: at_pos_def alike_def all_reset_def)
      then have "round_done s bs fs (s2\<lparr>s_cur := None\<rparr>)" using nr r2 alike_ready [OF t] by (simp add: round_done_def)
      then have "round_done s bs fs (s2\<lparr>s_cur := None, s_lock := Some free_lock\<rparr>)"
        using at_pos_lock [where s = "s2\<lparr>s_cur := None\<rparr>" and l = "Some free_lock"] by (simp add: round_done_def ready_def)
      then show ?thesis using None h s2(5) by simp
    next
      case (Some n)
      with h have h': "handed s2 bs fs n s3" by simp
      have "n \<in> set bs" using find_SomeD [OF Some] a by (auto simp: at_pos_def)
      from handed_keeps(4) [OF s2(1,2) this h'] have "s_lock s3 = Some taken_lock" using s2(5) by simp
      moreover have "round_moved s bs fs as cs n s3" by (rule handed_moves [OF a s2(1,2) ar2 r2 Some h'])
      ultimately show ?thesis using Some by (simp add: round_moved_lock)
    qed
  qed
qed

section \<open>The client's loop\<close>

text \<open>
  \<open>while (SelectionKeyReady(selector, &key))\<close>, which the reader, writer, client and acceptor threads
  run after each \<open>Select\<close>; the result lists the keys. \<open>rp\<close> is what re-polling would report.
\<close>

fun collect :: "nat \<Rightarrow> (nat \<Rightarrow> op option) \<Rightarrow> selector \<Rightarrow> (nref list \<times> selector) res" where
  "collect 0 rp s = Inl OutOfFuel"
| "collect (Suc f) rp s =
     bnd (SelectionKeyReady (rp f) s) (\<lambda>(b, r, s').
     if b then bnd (deref r) (\<lambda>n. bnd (collect f rp s') (\<lambda>(ns, s''). Inr (n # ns, s'')))
     else Inr ([], s'))"

lemma filter_skip: "(\<And>x. x \<in> set us \<Longrightarrow> \<not> P x) \<Longrightarrow> filter P (us @ xs) = filter P xs"
  by (induction us) auto

lemma collect_pos:
  "at_pos s bs fs as cs \<Longrightarrow> s_lock s = Some free_lock \<Longrightarrow> length cs < f \<Longrightarrow>
   returns (collect f rp s) (\<lambda>(ns, s'). ns = filter (ready s) cs \<and> round_done s bs fs s' \<and> s_lock s' = Some free_lock)"
proof (induction f arbitrary: s as cs)
  case 0
  then show ?case by simp
next
  case (Suc f)
  show ?case unfolding collect.simps
  proof (rule returns_bndI [OF SelectionKeyReady_round [OF Suc.prems(1,2)]], clarify)
    fix b :: bool and r s'
    assume l: "s_lock s' = Some free_lock"
      and c: "case find (ready s) cs of None \<Rightarrow> \<not> b \<and> round_done s bs fs s' | Some n \<Rightarrow> b \<and> r = Some n \<and> round_moved s bs fs as cs n s'"
    show "returns (if b then bnd (deref r) (\<lambda>n. bnd (collect f rp s') (\<lambda>(ns, s''). Inr (n # ns, s''))) else Inr ([], s'))
      (\<lambda>(ns, s'). ns = filter (ready s) cs \<and> round_done s bs fs s' \<and> s_lock s' = Some free_lock)"
    proof (cases "find (ready s) cs")
      case None
      then have "filter (ready s) cs = []" by (simp add: find_None_iff filter_empty_conv)
      then show ?thesis using None c l by simp
    next
      case (Some n)
      with c obtain us vs where m: "cs = us @ n # vs" "\<forall>u \<in> set us. \<not> ready s u" "ready s n"
        "at_pos s' bs fs (as @ us @ [n]) vs" "\<forall>m \<in> set vs. ready s' m = ready s m" and b: "b" "r = Some n"
        by (auto simp: round_moved_def)
      have "filter (ready s) cs = n # filter (ready s') vs"
        using m filter_skip [of us "ready s" "n # vs"] by (simp cong: filter_cong)
      moreover have "length vs < f" using Suc.prems(3) m(1) by simp
      ultimately show ?thesis using Suc.IH [OF m(4) l] b
        by (auto simp: round_done_def elim!: returns_mono)
    qed
  qed
qed

lemma collect_keeps:
  "sel_inv s \<Longrightarrow> registry s \<noteq> [] \<Longrightarrow> collect f rp s = Inr (ns, s') \<Longrightarrow> sel_inv s' \<and> registry s' = registry s"
proof (induction f arbitrary: s ns)
  case (Suc f)
  obtain b r s1 where c: "SelectionKeyReady (rp f) s = Inr (b, r, s1)" "sel_inv s1" "registry s1 = registry s"
    using SelectionKeyReady_keeps [OF Suc.prems(1,2), of "rp f"] by (auto elim!: returnsE)
  show ?case
  proof (cases b)
    case True
    then obtain ns' where "collect f rp s1 = Inr (ns', s')" using Suc.prems(3) c(1) by (auto simp: bnd_eq_Inr)
    then show ?thesis using Suc.IH [OF c(2)] Suc.prems(2) c(3) by simp
  next
    case False
    then show ?thesis using Suc.prems(3) c by simp
  qed
qed simp

definition idle :: "selector \<Rightarrow> bool" where
  "idle s \<longleftrightarrow> s_cur s = None \<and>
     (\<forall>n \<in> fst ` set (registry s). k_count (key_at (s_heap s) n) = 1 \<and> k_curCount (key_at (s_heap s) n) = 0)"

lemma idle_pos:
  assumes "sel_nodes s bs fs" "sel_keys s bs fs" "bs \<noteq> []"
  shows "at_pos s bs fs [] bs \<longleftrightarrow> idle s"
  using assms by (auto simp: at_pos_def idle_def sel_nodes_registry [OF assms(1)] image_image)

lemma Select_answer:
  assumes l: "s_lock s = Some free_lock" and o: "find (\<lambda>x. x \<noteq> PollInterrupted) outs = Some (PollReady rs)"
    and n: "0 < length (s_polls s)"
  obtains ps nb w where "Select outs s = Inr (nb, s\<lparr>s_polls := ps, s_wakeups := w\<rparr>)"
    "ps = (let qs = fill_revents (s_polls s) (s_numPolls s) rs in
       if and (pl_revents (qs ! 0)) OP_READ \<noteq> 0 then qs[0 := (qs ! 0)\<lparr>pl_revents := 0\<rparr>] else qs)"
    "nb = count_ready (fill_revents (s_polls s) (s_numPolls s) rs) (s_numPolls s) -
       (if and (pl_revents (fill_revents (s_polls s) (s_numPolls s) rs ! 0)) OP_READ \<noteq> 0 then 1 else 0)"
proof -
  let ?qs = "fill_revents (s_polls s) (s_numPolls s) rs"
  have g: "get_poll ?qs 0 = Inr (?qs ! 0)" "set_poll ?qs 0 x = Inr (?qs[0 := x])" for x
    using n by (simp_all add: get_poll_def set_poll_def)
  show thesis
  proof (cases "and (pl_revents (?qs ! 0)) OP_READ \<noteq> 0")
    case True
    have "Select outs s = Inr (count_ready ?qs (s_numPolls s) - 1,
        s\<lparr>s_polls := ?qs[0 := (?qs ! 0)\<lparr>pl_revents := 0\<rparr>], s_wakeups := s_wakeups s - 1\<rparr>)"
      using l poll_loop_answer [OF o] g True by (cases s) (simp add: Select_def)
    then show thesis by (rule that) (use True in \<open>simp_all add: Let_def\<close>)
  next
    case False
    have "Select outs s = Inr (count_ready ?qs (s_numPolls s), s\<lparr>s_polls := ?qs, s_wakeups := s_wakeups s\<rparr>)"
      using l poll_loop_answer [OF o] g False by (cases s) (simp add: Select_def)
    then show thesis by (rule that) (use False in \<open>simp_all add: Let_def\<close>)
  qed
qed

lemma filter_zip:
  "length xs = length ns \<Longrightarrow> (\<And>i. i < length ns \<Longrightarrow> P (ns ! i) = Q (xs ! i)) \<Longrightarrow>
   filter P ns = map fst (filter (\<lambda>(n, x). Q x) (zip ns xs))"
proof (induction xs ns rule: list_induct2)
  case (Cons x xs n ns)
  have "filter P ns = map fst (filter (\<lambda>(n, x). Q x) (zip ns xs))"
    using Cons.prems [of "Suc _"] by (intro Cons.IH) simp
  then show ?case using Cons.prems [of 0] by simp
qed simp

lemma Select_pos:
  assumes a: "at_pos s bs fs [] bs" and l: "s_lock s = Some free_lock"
    and o: "find (\<lambda>x. x \<noteq> PollInterrupted) outs = Some (PollReady rs)" and rs: "length rs = Suc (length bs)"
  shows "returns (Select outs s) (\<lambda>(nb, s1). at_pos s1 bs fs [] bs \<and> s_lock s1 = Some free_lock \<and>
    registry s1 = registry s \<and> (\<forall>i < length bs. ready s1 (bs ! i) = is_ready (tl rs ! i)) \<and>
    nb = int (length (filter (\<lambda>r. r \<noteq> 0) rs)) - (if and (rs ! 0) OP_READ \<noteq> 0 then 1 else 0))"
proof -
  have sn: "sel_nodes s bs fs" "sel_keys s bs fs" using a unfolding at_pos_def by blast+
  note k = sel_keysD [OF sn(2)]
  have p: "parts (s_heap s) (s_busy s) bs (s_free s) fs {}" using sn(1) by (simp add: sel_nodes_def)
  let ?qs = "fill_revents (s_polls s) (s_numPolls s) rs"
  have qs: "?qs ! i = (s_polls s ! i)\<lparr>pl_revents := rs ! i\<rparr>" if "i \<le> length bs" for i
    using that k(1,3) rs by (intro fill_revents_nth) simp_all
  have n0: "0 < length (s_polls s)" using k(3) by linarith
  obtain ps nb w where sel: "Select outs s = Inr (nb, s\<lparr>s_polls := ps, s_wakeups := w\<rparr>)"
    and ps: "ps = (let qs = ?qs in if and (pl_revents (qs ! 0)) OP_READ \<noteq> 0 then qs[0 := (qs ! 0)\<lparr>pl_revents := 0\<rparr>] else qs)"
    and nb: "nb = count_ready ?qs (s_numPolls s) - (if and (pl_revents (?qs ! 0)) OP_READ \<noteq> 0 then 1 else 0)"
    using Select_answer [OF l o n0] by blast
  let ?s1 = "s\<lparr>s_polls := ps, s_wakeups := w\<rparr>"
  have se: "same_entries (s_polls s) ps" using same_entries_upd [of ?qs 0 0] fill_revents_same [of "s_polls s" "s_numPolls s" rs]
    by (simp add: ps Let_def same_entries_def)
  note u = sel_update [OF sn, where s' = ?s1, simplified, OF p se sel_cur [OF sn(2), simplified]]
  have reg: "registry ?s1 = registry s" using u(3) sel_nodes_registry [OF sn(1)] by simp
  have i1: "idle ?s1" using a idle_pos [OF sn] reg by (simp add: idle_def at_pos_def)
  have "bs \<noteq> []" using a unfolding at_pos_def by blast
  then have at: "at_pos ?s1 bs fs [] bs" using idle_pos [OF u(1,2)] i1 by simp
  have psi: "ps ! Suc i = (s_polls s ! Suc i)\<lparr>pl_revents := rs ! Suc i\<rparr>" if "i < length bs" for i
    using qs [of "Suc i"] that by (simp add: ps Let_def)
  have "\<forall>i < length bs. ready ?s1 (bs ! i) = is_ready (tl rs ! i)"
  proof (intro allI impI)
    fix i assume i: "i < length bs"
    then have "nat (k_poll (key_at (s_heap s) (bs ! i))) = Suc i" using k(4) [OF i] by (simp add: key_ok_def)
    then show "ready ?s1 (bs ! i) = is_ready (tl rs ! i)" using psi [OF i] rs i by (simp add: ready_def nth_tl)
  qed
  moreover have "count_ready ?qs (s_numPolls s) = int (length (filter (\<lambda>r. r \<noteq> 0) rs))"
  proof -
    have "map pl_revents (take (nat (s_numPolls s)) ?qs) = rs"
    proof -
      have nn: "nat (s_numPolls s) = Suc (length bs)" using k(1) by simp
      show ?thesis unfolding nn using qs k(3) rs by (intro nth_equalityI) (auto simp: min_def split: if_splits)
    qed
    then show ?thesis
      using length_filter_map [of "\<lambda>r. r \<noteq> 0" pl_revents "take (nat (s_numPolls s)) ?qs"]
      by (simp add: count_ready_def comp_def)
  qed
  ultimately show ?thesis using at reg l nb qs [of 0] by (simp add: sel)
qed


definition new_selector :: "int \<Rightarrow> int \<Rightarrow> selector" where
  "new_selector r w = \<lparr>s_pipe = (r, w), s_busy = LIST_INITIALIZER, s_free = LIST_INITIALIZER, s_cur = None,
     s_polls = [zero_poll\<lparr>pl_fd := r, pl_events := OP_READ\<rparr>], s_numPolls = 1, s_maxPolls = 1,
     s_lock = Some free_lock, s_heap = Map.empty, s_tick = 0, s_wakeups = 0\<rparr>"

lemma new_selector_inv: "sel_inv (new_selector r w)" "registry (new_selector r w) = []" "idle (new_selector r w)"
proof -
  have n: "sel_nodes (new_selector r w) [] []" by (simp add: sel_nodes_def new_selector_def)
  have k: "sel_keys (new_selector r w) [] []" by (simp add: sel_keys_def new_selector_def)
  show "sel_inv (new_selector r w)" by (rule sel_invI [OF k n]) (simp add: new_selector_def)
  show "registry (new_selector r w) = []" using sel_nodes_registry [OF n] by simp
  then show "idle (new_selector r w)" by (simp add: idle_def) (simp add: new_selector_def)
qed

section \<open>Registrations\<close>

text \<open>
  Registering a descriptor adds it at the end with one registration or, when it is already
  there, counts one registration more and changes neither its operation nor its attachment; every
  other registration is as before, and the returned key is the descriptor's.
\<close>

theorem register_exact:
  assumes "sel_inv s" and "\<forall>t. ok t"
  shows "returns (Register ok True s operation fd att) (\<lambda>(r, s'). \<exists>n. r = Some n \<and> sel_inv s' \<and>
    registers operation fd att n (registry s) (registry s'))"
  by (rule returns_mono [OF Register_correct [OF assms]]) auto

theorem register_exact_witness:
  "returns (Register (\<lambda>_. True) True (new_selector 3 4) OP_READ 7 1) (\<lambda>(r, s'). \<exists>n. r = Some n \<and> sel_inv s' \<and>
    registers OP_READ 7 1 n (registry (new_selector 3 4)) (registry s'))"
  by (rule register_exact [OF new_selector_inv(1)]) simp

text \<open>
  Unregistering a key takes one registration away, or all of them, and removes the descriptor
  when none is left, which is what \<open>isLastRegistration\<close> reports; a key that is not registered any
  more is left alone. No other registration changes.
\<close>

theorem unregister_exact:
  assumes "sel_inv s" and "n \<in> dom (s_heap s)"
  shows "returns (Unregister s n all) (\<lambda>(last, s'). sel_inv s' \<and> registry s' = drop_entry all n (registry s) \<and>
    last = (n \<notin> fst ` set (registry s')))"
  by (rule returns_mono [OF Unregister_correct [OF assms]]) auto

text \<open>The selector with one key that the witnesses use.\<close>

lemma one_key:
  obtains s where "Register (\<lambda>_. True) True (new_selector 3 4) OP_READ 7 1 = Inr (Some 1, s)"
    "sel_inv s" "1 \<in> dom (s_heap s)" "registry s = [(1, 7, OP_READ, 1, 1)]" "idle s"
proof -
  obtain n s where r: "Register (\<lambda>_. True) True (new_selector 3 4) OP_READ 7 1 = Inr (Some n, s)" "sel_inv s" "n \<in> dom (s_heap s)"
    "registers OP_READ 7 1 n (registry (new_selector 3 4)) (registry s)"
    using Register_correct [OF new_selector_inv(1), of "\<lambda>_. True" 3 4 OP_READ 7 1] by (auto elim!: returnsE)
  note defs = new_selector_def new_key_node_def NewSelectionKey_def NewNode_def alloc_def Register_def
      LIST_INITIALIZER_def ListEmpty_def ListAddLast_def ListAddFirst_def ListAddAfter_def check_node_def
      get_data_def get_next_def get_prev_def set_next_def set_prev_def get_key_def set_key_def set_data_def set_poll_def
  have reg: "registry s = [(n, 7, OP_READ, 1, 1)]" using r(4) by (simp add: registers_def new_selector_inv)
  have "n = 1" "s_cur s = None" "k_count (key_at (s_heap s) 1) = 1" "k_curCount (key_at (s_heap s) 1) = 0"
    using r(1) by (auto simp: defs zero_key_def key_at_def data_at_def)
  then have "idle s" using reg by (simp add: idle_def)
  with r reg \<open>n = 1\<close> show thesis by (intro that) simp_all
qed

theorem unregister_exact_witness:
  "\<exists>s. registry s = [(1, 7, OP_READ, 1, 1)] \<and>
    returns (Unregister s 1 False) (\<lambda>(last, s'). last \<and> registry s' = [])"
proof (rule one_key)
  fix s assume s: "sel_inv s" "1 \<in> dom (s_heap s)" "registry s = [(1, 7, OP_READ, 1, 1)]"
  have "returns (Unregister s 1 False) (\<lambda>(last, s'). last \<and> registry s' = [])"
    by (rule returns_mono [OF unregister_exact [OF s(1,2)]]) (auto simp: s(3) drop_entry_def)
  with s show ?thesis by blast
qed


text \<open>Programs over one selector; keys are named by the order in which \<open>Register\<close> returned them.\<close>

datatype sop =
    SRegister op int nat
  | SUnregister nat bool
  | SSelect nat "op list"
  | SReady "op option"

fun sel_call :: "sop \<Rightarrow> selector \<times> nref list \<Rightarrow> (selector \<times> nref list) res" where
  "sel_call (SRegister operation fd att) (s, ks) =
     bnd (Register (\<lambda>_. True) True s operation fd att) (\<lambda>(r, s'). bnd (deref r) (\<lambda>n. Inr (s', ks @ [n])))"
| "sel_call (SUnregister i all) (s, ks) =
     (if i < length ks then bnd (Unregister s (ks ! i) all) (\<lambda>(_, s'). Inr (s', ks)) else Inr (s, ks))"
| "sel_call (SSelect k rs) (s, ks) =
     bnd (Select (replicate k PollInterrupted @ [PollReady rs]) s) (\<lambda>(_, s'). Inr (s', ks))"
| "sel_call (SReady rp) (s, ks) = bnd (SelectionKeyReady rp s) (\<lambda>(_, _, s'). Inr (s', ks))"

fun sel_calls :: "sop list \<Rightarrow> selector \<times> nref list \<Rightarrow> (selector \<times> nref list) res" where
  "sel_calls [] st = Inr st"
| "sel_calls (x # xs) st = bnd (sel_call x st) (sel_calls xs)"

text \<open>A program that iterates only while something is registered: otherwise it does not call \<open>SelectionKeyReady\<close>.\<close>

definition sel_step :: "sop \<Rightarrow> selector \<times> nref list \<Rightarrow> (selector \<times> nref list) res" where
  "sel_step x st = (case x of SReady rp \<Rightarrow> if registry (fst st) = [] then Inr st else sel_call x st | _ \<Rightarrow> sel_call x st)"

fun sel_run :: "sop list \<Rightarrow> selector \<times> nref list \<Rightarrow> (selector \<times> nref list) res" where
  "sel_run [] st = Inr st"
| "sel_run (x # xs) st = bnd (sel_step x st) (sel_run xs)"

definition run_ok :: "selector \<times> nref list \<Rightarrow> bool" where
  "run_ok = (\<lambda>(s, ks). sel_inv s \<and> set ks \<subseteq> dom (s_heap s))"

lemma Select_keeps:
  assumes inv: "sel_inv s" and o: "find (\<lambda>x. x \<noteq> PollInterrupted) outs = Some (PollReady rs)"
  shows "returns (Select outs s) (\<lambda>(nb, s'). sel_inv s' \<and> registry s' = registry s \<and> s_heap s' = s_heap s)"
proof -
  from inv obtain bs fs where i: "s_lock s = Some free_lock" "sel_nodes s bs fs" "sel_keys s bs fs" by (rule sel_invE)
  have n0: "0 < length (s_polls s)" using sel_keysD(3) [OF i(3)] by linarith
  let ?qs = "fill_revents (s_polls s) (s_numPolls s) rs"
  obtain ps nb w where sel: "Select outs s = Inr (nb, s\<lparr>s_polls := ps, s_wakeups := w\<rparr>)"
    and ps: "ps = (let qs = ?qs in if and (pl_revents (qs ! 0)) OP_READ \<noteq> 0 then qs[0 := (qs ! 0)\<lparr>pl_revents := 0\<rparr>] else qs)"
    using Select_answer [OF i(1) o n0] by blast
  have se: "same_entries (s_polls s) ps" using same_entries_upd [of ?qs 0 0] fill_revents_same [of "s_polls s" "s_numPolls s" rs]
    by (simp add: ps Let_def same_entries_def)
  have p: "parts (s_heap s) (s_busy s) bs (s_free s) fs {}" using i(2) by (simp add: sel_nodes_def)
  note u = sel_update [OF i(2,3), where s' = "s\<lparr>s_polls := ps, s_wakeups := w\<rparr>", simplified, OF p se sel_cur [OF i(3), simplified]]
  have "sel_inv (s\<lparr>s_polls := ps, s_wakeups := w\<rparr>)" using sel_invI [OF u(2,1)] i(1) by simp
  then show ?thesis using sel u(3) sel_nodes_registry [OF i(2)] by simp
qed

text \<open>What the poll array holds: the pipe, then the registrations in order.\<close>

definition mirrors :: "selector \<Rightarrow> bool" where
  "mirrors s \<longleftrightarrow>
     map (\<lambda>p. (pl_fd p, pl_events p)) (take (nat (s_numPolls s)) (s_polls s)) =
       (fst (s_pipe s), OP_READ) # map (\<lambda>(n, fd, operation, att, c). (fd, operation)) (registry s) \<and>
     distinct (map (\<lambda>(n, fd, operation, att, c). fd) (registry s)) \<and>
     (\<forall>(n, fd, operation, att, c) \<in> set (registry s). 1 \<le> c)"

lemma sel_inv_mirrors:
  assumes "sel_inv s" shows "mirrors s"
proof -
  from assms obtain bs fs where i: "sel_nodes s bs fs" "sel_keys s bs fs" by (rule sel_invE)
  note k = sel_keysD [OF i(2)]
  have reg: "registry s = map (entry (s_heap s)) bs" by (rule sel_nodes_registry [OF i(1)])
  have nn: "nat (s_numPolls s) = Suc (length bs)" using k(1) by simp
  have p0: "pl_fd (s_polls s ! 0) = fst (s_pipe s)" "pl_events (s_polls s ! 0) = OP_READ" using i(2) by (simp_all add: sel_keys_def)
  have key: "pl_fd (s_polls s ! Suc j) = k_fd (key_at (s_heap s) (bs ! j))" "pl_events (s_polls s ! Suc j) = k_operation (key_at (s_heap s) (bs ! j))"
    "1 \<le> k_count (key_at (s_heap s) (bs ! j))" if "j < length bs" for j using k(4) [OF that] by (simp_all add: key_ok_def)
  have "map (\<lambda>p. (pl_fd p, pl_events p)) (take (Suc (length bs)) (s_polls s)) =
      (fst (s_pipe s), OP_READ) # map (\<lambda>m. (k_fd (key_at (s_heap s) m), k_operation (key_at (s_heap s) m))) bs"
    using k(3) p0 key(1,2) by (intro nth_equalityI) (auto simp: nth_Cons min_def split: nat.splits if_splits)
  moreover have "\<forall>m \<in> set bs. 1 \<le> k_count (key_at (s_heap s) m)" using key(3) by (auto simp: in_set_conv_nth)
  ultimately show ?thesis using k(5) by (simp add: mirrors_def nn reg entry_def Let_def comp_def)
qed

lemma find_interrupted: "find (\<lambda>x. x \<noteq> PollInterrupted) (replicate k PollInterrupted @ [PollReady rs]) = Some (PollReady rs)"
  by (induction k) simp_all

text \<open>The one call that does not leave the selector as the others do.\<close>

definition leaves_lock :: "sop \<Rightarrow> selector \<Rightarrow> bool" where
  "leaves_lock x s \<longleftrightarrow> (case x of SReady rp \<Rightarrow> registry s = [] \<and> s_cur s = None | _ \<Rightarrow> False)"

lemma sel_call_ok: "run_ok st \<Longrightarrow> \<not> leaves_lock x (fst st) \<Longrightarrow> returns (sel_call x st) run_ok"
proof (induction x st rule: sel_call.induct)
  case (1 operation fd att s ks)
  then have inv: "sel_inv s" "set ks \<subseteq> dom (s_heap s)" by (simp_all add: run_ok_def)
  show ?case unfolding sel_call.simps
    by (rule returns_bndI [OF Register_correct [OF inv(1)]]) (auto simp: run_ok_def returns_deref dest!: subset_trans [OF inv(2)])
next
  case (2 i all s ks)
  then have inv: "sel_inv s" "set ks \<subseteq> dom (s_heap s)" by (simp_all add: run_ok_def)
  show ?case
  proof (cases "i < length ks")
    case True
    then have "ks ! i \<in> dom (s_heap s)" using inv(2) nth_mem by blast
    from Unregister_correct [OF inv(1) this, of all] True inv(2) show ?thesis
      by (auto simp: run_ok_def elim!: returns_mono)
  next
    case False
    then show ?thesis using 2 by simp
  qed
next
  case (3 k rs s ks)
  then show ?case using Select_keeps [OF _ find_interrupted, of s k rs]
    by (auto simp: run_ok_def elim!: returns_mono)
next
  case (4 rp s ks)
  then have inv: "sel_inv s" "set ks \<subseteq> dom (s_heap s)" by (simp_all add: run_ok_def)
  show ?case
  proof (cases "registry s = []")
    case False
    with SelectionKeyReady_keeps [OF inv(1), of rp] inv(2) show ?thesis
      by (auto simp: run_ok_def elim!: returns_mono)
  next
    case True
    with 4(2) obtain c where "s_cur s = Some c" by (auto simp: leaves_lock_def)
    with SelectionKeyReady_stale [OF inv(1) True this, of rp] inv(2) show ?thesis
      by (auto simp: run_ok_def elim!: returns_mono)
  qed
qed

lemma sel_step_ok: "run_ok st \<Longrightarrow> returns (sel_step x st) run_ok"
  by (cases x) (auto simp: sel_step_def leaves_lock_def intro!: sel_call_ok)

lemma sel_run_ok: "run_ok st \<Longrightarrow> returns (sel_run prog st) run_ok"
proof (induction prog arbitrary: st)
  case (Cons x prog)
  show ?case unfolding sel_run.simps by (rule returns_bndI [OF sel_step_ok [OF Cons.prems] Cons.IH])
qed simp

text \<open>A selector on which every call blocks, its lock being taken for good.\<close>

definition stuck :: "selector \<Rightarrow> bool" where
  "stuck s \<longleftrightarrow> (\<forall>ok rok operation fd att. Register ok rok s operation fd att = Inl Blocked) \<and>
     (\<forall>n k all. get_key (s_heap s) n = Inr k \<longrightarrow> Unregister s n all = Inl Blocked) \<and> (\<forall>outs. Select outs s = Inl Blocked) \<and>
     (\<forall>rp. SelectionKeyReady rp s = Inl Blocked)"

lemma ready_on_nothing:
  assumes "sel_inv s" and "registry s = []" and "s_cur s = None"
  shows "\<exists>s'. SelectionKeyReady rp s = Inr (False, None, s') \<and> stuck s' \<and> registry s' = registry s \<and> mirrors s'"
proof -
  from assms(1) obtain bs fs where i: "s_lock s = Some free_lock" "sel_nodes s bs fs"
    "parts (s_heap s) (s_busy s) bs (s_free s) fs {}" by (rule sel_invE)
  have "ListEmpty (s_busy s)" using parts_ListEmpty(1) [OF i(3)] sel_nodes_registry [OF i(2)] assms(2) by simp
  then have "SelectionKeyReady rp s = Inr (False, None, s\<lparr>s_lock := Some taken_lock\<rparr>)"
    using i(1) assms(3) by (simp add: SelectionKeyReady_def ready_again_def)
  moreover have "stuck (s\<lparr>s_lock := Some taken_lock\<rparr>)"
    by (simp add: stuck_def Register_def Unregister_def Select_def SelectionKeyReady_def)
  moreover have r: "registry (s\<lparr>s_lock := Some taken_lock\<rparr>) = registry s" by (simp add: registry_def)
  then have "mirrors (s\<lparr>s_lock := Some taken_lock\<rparr>)" using sel_inv_mirrors [OF assms(1)] by (simp add: mirrors_def)
  ultimately show ?thesis using r by blast
qed

lemma sel_calls_append: "sel_calls (xs @ ys) st = bnd (sel_calls xs st) (sel_calls ys)"
proof (induction xs arbitrary: st)
  case (Cons x xs)
  then show ?case by (cases "sel_call x st") simp_all
qed simp

lemma sel_calls_ok:
  "run_ok st \<Longrightarrow> returns (sel_calls prog st) run_ok \<or>
   (\<exists>before rp rest st'. prog = before @ SReady rp # rest \<and> sel_calls before st = Inr st' \<and> run_ok st' \<and> leaves_lock (SReady rp) (fst st'))"
proof (induction prog arbitrary: st)
  case (Cons x prog)
  show ?case
  proof (cases "leaves_lock x (fst st)")
    case True
    then obtain rp where "x = SReady rp" by (cases x) (auto simp: leaves_lock_def)
    then show ?thesis using True Cons.prems by (intro disjI2 exI [of _ "[]"] exI [of _ rp] exI [of _ prog] exI [of _ st]) simp
  next
    case False
    obtain st1 where st1: "sel_call x st = Inr st1" "run_ok st1"
      using sel_call_ok [OF Cons.prems False] by (rule returnsE)
    from Cons.IH [OF st1(2)] show ?thesis
    proof (elim disjE exE conjE)
      fix before rp rest st' assume p: "prog = before @ SReady rp # rest" "sel_calls before st1 = Inr st'" "run_ok st'" "leaves_lock (SReady rp) (fst st')"
      have "x # prog = (x # before) @ SReady rp # rest" "sel_calls (x # before) st = Inr st'" using p(1,2) st1(1) by simp_all
      with p(3,4) show ?thesis by blast
    qed (use st1(1) in simp)
  qed
qed simp

text \<open>
  C15. Whatever a program registers, unregisters (once or altogether, current or stale keys), selects
  and iterates over, with memory available: either every call returns, and afterwards the lock is
  free, every descriptor is registered at most once with a positive count, and the array given to
  \<open>poll\<close> holds the wake-up pipe and then exactly the registered descriptors with their operations, in
  order; or the program at some point starts an iteration while nothing is registered. Up to that
  point all is as before; that call of \<open>SelectionKeyReady\<close> returns false but keeps the lock, and from
  then on every call on the selector blocks.
\<close>

theorem selector_programs_safe:
  "returns (sel_calls prog (new_selector r w, [])) (\<lambda>(s, ks). s_lock s = Some free_lock \<and> mirrors s) \<or>
   (\<exists>before rp rest s ks s'. prog = before @ SReady rp # rest \<and> sel_calls before (new_selector r w, []) = Inr (s, ks) \<and>
      s_lock s = Some free_lock \<and> mirrors s \<and> registry s = [] \<and> s_cur s = None \<and>
      SelectionKeyReady rp s = Inr (False, None, s') \<and> mirrors s' \<and> stuck s')"
proof -
  have good: "s_lock s = Some free_lock \<and> mirrors s" if "run_ok (s, ks)" for s ks
    using that sel_inv_mirrors [of s] by (auto simp: run_ok_def sel_inv_def)
  have "run_ok (new_selector r w, [])" by (simp add: run_ok_def new_selector_inv)
  from sel_calls_ok [OF this, of prog] show ?thesis
  proof (elim disjE exE conjE)
    assume "returns (sel_calls prog (new_selector r w, [])) run_ok"
    then show ?thesis by (intro disjI1, elim returns_mono) (use good in auto)
  next
    fix before rp rest st assume p: "prog = before @ SReady rp # rest" "sel_calls before (new_selector r w, []) = Inr st" "run_ok st"
      "leaves_lock (SReady rp) (fst st)"
    obtain s ks where st: "st = (s, ks)" by (cases st)
    have l: "registry s = []" "s_cur s = None" "sel_inv s" using p(3,4) by (simp_all add: st leaves_lock_def run_ok_def)
    obtain s' where "SelectionKeyReady rp s = Inr (False, None, s')" "stuck s'" "mirrors s'"
      using ready_on_nothing [OF l(3,1,2), of rp] by blast
    with p good [of s ks] l show ?thesis unfolding st by blast
  qed
qed

section \<open>Error paths\<close>

text \<open>
  \<open>SelectionKeyReady\<close> on a selector without registrations, at the start of an iteration, returns
  false without releasing the lock: every later operation on the selector blocks for ever.
\<close>

theorem ready_without_keys_keeps_lock:
  assumes "sel_inv s" and "registry s = []" and "s_cur s = None"
  shows "returns (SelectionKeyReady rp s) (\<lambda>(b, r, s'). \<not> b \<and> r = None \<and>
    Register ok rok s' operation fd att = Inl Blocked \<and> Select outs s' = Inl Blocked \<and>
    SelectionKeyReady rp' s' = Inl Blocked)"
  using ready_on_nothing [OF assms, of rp] by (auto simp: stuck_def)

theorem ready_without_keys_keeps_lock_witness:
  "Select [PollReady [0]] (case SelectionKeyReady None (new_selector 3 4) of Inr (_, _, s') \<Rightarrow> s') = Inl Blocked"
proof -
  have "s_cur (new_selector 3 4) = None" by (simp add: new_selector_def)
  from ready_without_keys_keeps_lock [OF new_selector_inv(1,2) this, of None "\<lambda>_. True" True 0 0 0 "[PollReady [0]]" None] show ?thesis
    by (auto elim!: returnsE)
qed

text \<open>
  When the poll array cannot grow, \<open>Register\<close> returns NULL but has already put the new key at the
  end of the busy list, without a poll entry. When no key before it is ready, the next iteration
  reads the array at index -1.
\<close>

theorem failed_registration_breaks_iteration:
  assumes "\<forall>t. ok t" and "fd \<noteq> fd'"
  shows "returns (bnd (Register ok True (new_selector r w) operation fd att) (\<lambda>(_, s).
      Register ok False s operation' fd' att')) (\<lambda>(k, s').
    k = None \<and> s_lock s' = Some free_lock \<and> SelectionKeyReady rp s' = Inl Undefined)"
proof -
  note defs = new_selector_def new_key_node_def NewSelectionKey_def NewNode_def alloc_def
      LIST_INITIALIZER_def ListEmpty_def ListAddLast_def ListAddFirst_def ListAddAfter_def check_node_def
      get_data_def get_next_def get_prev_def set_next_def set_prev_def get_key_def set_key_def set_data_def set_poll_def
  let ?k = "\<lparr>k_operation = operation, k_node = Some 1, k_fd = fd, k_attachment = att, k_poll = 1, k_count = 1,
    k_curCount = 0, k_result = 0\<rparr>"
  let ?s = "(new_selector r w)\<lparr>s_busy := \<lparr>lfirst = Some 1, llast = Some 1\<rparr>,
    s_polls := s_polls (new_selector r w) @ [zero_poll\<lparr>pl_events := operation, pl_fd := fd\<rparr>],
    s_numPolls := 2, s_maxPolls := 2, s_heap := [1 \<mapsto> \<lparr>ndata = Some ?k, nnext = None, nprev = None\<rparr>], s_tick := 2\<rparr>"
  have 1: "Register ok True (new_selector r w) operation fd att = Inr (Some 1, ?s)"
    using assms(1) by (simp add: Register_def defs zero_key_def numeral_2_eq_2)
  show ?thesis using assms
    by (simp add: 1, simp add: Register_def defs zero_key_def numeral_2_eq_2)
      (simp add: SelectionKeyReady_def ready_again_def get_poll_def is_ready_def zero_poll_def ListEmpty_def
        get_key_def get_data_def get_next_def)
qed

theorem failed_registration_breaks_iteration_witness:
  "returns (bnd (Register (\<lambda>_. True) True (new_selector 3 4) OP_READ 7 1) (\<lambda>(_, s).
      Register (\<lambda>_. True) False s OP_READ 8 2)) (\<lambda>(k, s').
    k = None \<and> s_lock s' = Some free_lock \<and> SelectionKeyReady None s' = Inl Undefined)"
  by (rule failed_registration_breaks_iteration) simp_all

section \<open>Creation and destruction\<close>

lemma free_keys_all:
  "parts h bl bs fl fs {} \<Longrightarrow> length bs < f \<Longrightarrow>
   returns (free_keys f h bl) (\<lambda>(h', bl'). parts h' bl' [] fl fs {})"
proof (induction bs arbitrary: h bl f)
  case Nil
  then obtain f' where "f = Suc f'" by (cases f) auto
  then show ?case using Nil parts_ListEmpty(1) [OF Nil(1)] by simp
next
  case (Cons n bs)
  then obtain f' where f: "f = Suc f'" "length bs < f'" by (cases f) auto
  obtain h1 bl1 where p: "ListPop h bl = Inr (Some n, h1, bl1)" "parts h1 bl1 bs fl fs {n}"
    using parts_pop [OF Cons.prems(1)] by (auto elim!: returnsE)
  obtain h2 where fr: "FreeNode h1 (Some n) = Inr (None, h2)" "parts h2 bl1 bs fl fs {}"
    using parts_FreeNode [OF p(2)] by (auto elim!: returnsE)
  obtain d where "get_data h1 n = Inr (Some d)"
    using parts_get_data [OF p(2), of n] parts_data [OF p(2), of n] by auto
  then show ?case using Cons.IH [OF fr(2) f(2)] p(1) fr(1) parts_ListEmpty(1) [OF Cons.prems(1)] by (simp add: f(1))
qed

lemma FreeSelector_frees:
  assumes "sel_inv s"
  shows "returns (FreeSelector (Some s)) (\<lambda>(p, h, closed). p = None \<and> h = Map.empty \<and> closed = [snd (s_pipe s), fst (s_pipe s)])"
proof -
  from assms obtain bs fs where i: "s_lock s = Some free_lock" "parts (s_heap s) (s_busy s) bs (s_free s) fs {}"
    "length bs \<le> s_tick s" "length fs \<le> s_tick s" by (rule sel_invE)
  have "length bs < Suc (s_tick s)" using i(3) by simp
  from free_keys_all [OF i(2) this] obtain h1 bl1 where 1: "free_keys (Suc (s_tick s)) (s_heap s) (s_busy s) = Inr (h1, bl1)"
    "parts h1 bl1 [] (s_free s) fs {}" by (auto elim!: returnsE)
  have "parts h1 (s_free s) fs bl1 [] {}" "length fs < Suc (s_tick s)" using 1(2) i(4) by (simp_all add: parts_swap)
  from free_keys_all [OF this] obtain h2 fl2 where 2: "free_keys (Suc (s_tick s)) h1 (s_free s) = Inr (h2, fl2)"
    "parts h2 fl2 [] bl1 [] {}" by (auto elim!: returnsE)
  have "h2 = Map.empty" using parts_dom [OF 2(2)] by simp
  then show ?thesis using 1(1) 2(1) i(1) by (simp add: FreeSelector_def del: free_keys.simps)
qed

text \<open>No operation exchanges the pipe.\<close>

definition same_pipe :: "selector \<Rightarrow> 'a res \<Rightarrow> ('a \<Rightarrow> selector) \<Rightarrow> bool" where
  "same_pipe s m g \<longleftrightarrow> (\<forall>x. m = Inr x \<longrightarrow> s_pipe (g x) = s_pipe s)"

lemma same_pipe_simps [simp]:
  "same_pipe s (Inl e) g" "same_pipe s (Inr x) g \<longleftrightarrow> s_pipe (g x) = s_pipe s"
  by (auto simp: same_pipe_def)

lemma same_pipeD: "same_pipe s m g \<Longrightarrow> m = Inr x \<Longrightarrow> s_pipe (g x) = s_pipe s"
  by (simp add: same_pipe_def)

lemma same_pipe_bnd: "(\<And>x. m = Inr x \<Longrightarrow> same_pipe s (f x) g) \<Longrightarrow> same_pipe s (bnd m f) g"
  by (auto simp: same_pipe_def bnd_eq_Inr)

lemma same_pipe_via: "same_pipe s m g' \<Longrightarrow> (\<And>x. s_pipe (g' x) = s_pipe s \<Longrightarrow> same_pipe s (f x) g) \<Longrightarrow> same_pipe s (bnd m f) g"
  by (auto simp: same_pipe_def bnd_eq_Inr)

lemma new_key_node_pipe: "new_key_node ok s = Inr (p, s') \<Longrightarrow> s_pipe s' = s_pipe s"
  by (auto simp: new_key_node_def bnd_eq_Inr split: if_splits prod.splits)

lemma Register_pipe: "same_pipe s (Register ok rok s operation fd att) snd"
  unfolding Register_def
proof (rule same_pipe_bnd, rule same_pipe_bnd, rule same_pipe_via [where g' = snd])
  fix lk present
  show "same_pipe s (case present of
            Some n \<Rightarrow> Inr (Some n, s\<lparr>s_lock := lk\<rparr>)
          | None \<Rightarrow>
              bnd (new_key_node ok (s\<lparr>s_lock := lk\<rparr>)) (\<lambda>(p, s1).
              bnd (ListAddLast (s_heap s1) (s_busy s1) p) (\<lambda>(h2, bl).
              let s2 = s1\<lparr>s_heap := h2, s_busy := bl\<rparr> in
              if s_numPolls s2 = s_maxPolls s2 \<and> \<not> rok then Inr (None, s2)
              else
                let s3 = (if s_numPolls s2 = s_maxPolls s2
                          then s2\<lparr>s_polls := s_polls s2 @ [zero_poll], s_maxPolls := s_maxPolls s2 + 1\<rparr>
                          else s2) in
                bnd (deref p) (\<lambda>n.
                bnd (get_key (s_heap s3) n) (\<lambda>k.
                bnd (set_key (s_heap s3) n
                  (k\<lparr>k_poll := s_numPolls s3, k_node := Some n, k_operation := operation, k_fd := fd,
                     k_attachment := att, k_count := 0, k_curCount := 0\<rparr>)) (\<lambda>h4.
                bnd (set_poll (s_polls s3) (s_numPolls s3)
                  (zero_poll\<lparr>pl_events := operation, pl_fd := fd\<rparr>)) (\<lambda>ps.
                Inr (Some n, s3\<lparr>s_heap := h4, s_polls := ps, s_numPolls := s_numPolls s3 + 1\<rparr>)))))))) snd"
    by (cases present) (auto intro!: same_pipe_bnd dest!: new_key_node_pipe simp: Let_def split: prod.splits)
qed (auto intro!: same_pipe_bnd split: option.splits prod.splits)

lemma shift_polls_pipe: "shift_polls k i s = Inr s' \<Longrightarrow> s_pipe s' = s_pipe s"
  by (induction k i s rule: shift_polls.induct) (auto simp: bnd_eq_Inr)

lemma Unregister_pipe: "same_pipe s (Unregister s n all) snd"
  unfolding Unregister_def
  by (auto intro!: same_pipe_bnd dest!: shift_polls_pipe simp: Let_def split: option.splits prod.splits)

lemma poll_loop_pipe: "poll_loop outs s = Inr (r, s') \<Longrightarrow> s_pipe s' = s_pipe s"
  by (induction outs s rule: poll_loop.induct) (auto simp: Let_def)

lemma Select_pipe: "same_pipe s (Select outs s) snd"
  unfolding Select_def
  by (auto intro!: same_pipe_bnd dest!: poll_loop_pipe simp: bnd_eq_Inr split: option.splits prod.splits if_splits)

lemma ready_loop_pipe: "ready_loop f s i = Inr (r, s') \<Longrightarrow> s_pipe s' = s_pipe s"
  by (induction f s i rule: ready_loop.induct) (auto simp: bnd_eq_Inr split: option.splits if_splits)

lemma ready_again_pipe: "ready_again rp s = Inr (r, s') \<Longrightarrow> s_pipe s' = s_pipe s"
  by (auto simp: ready_again_def next_key_def bnd_eq_Inr split: option.splits if_splits)

lemma SelectionKeyReady_pipe: "same_pipe s (SelectionKeyReady rp s) (\<lambda>x. snd (snd x))"
  unfolding SelectionKeyReady_def
  by (auto intro!: same_pipe_bnd dest!: ready_again_pipe ready_loop_pipe simp: Let_def
      split: option.splits prod.splits sum.splits if_splits simp del: ready_loop.simps)

lemma sel_call_pipe: "same_pipe (fst st) (sel_call x st) fst"
  by (induction x st rule: sel_call.induct)
    (auto intro!: same_pipe_bnd dest!: same_pipeD [OF Register_pipe] same_pipeD [OF Unregister_pipe]
      same_pipeD [OF Select_pipe] same_pipeD [OF SelectionKeyReady_pipe])

lemma sel_step_pipe: "same_pipe (fst st) (sel_step x st) fst"
  using sel_call_pipe [of st x] by (cases x) (simp_all add: sel_step_def)

lemma sel_run_pipe: "sel_run prog st = Inr st' \<Longrightarrow> s_pipe (fst st') = s_pipe (fst st)"
  using sel_step_pipe by (induction prog arbitrary: st) (fastforce simp: bnd_eq_Inr same_pipe_def)+

text \<open>
  C27. A selector is created empty with both ends of its pipe open, or not at all and then without
  leaving a descriptor open; and freeing it after any program that iterates only while something is
  registered frees every key and every node and closes exactly the two ends of the pipe.
\<close>

theorem selector_life:
  "(case NewSelector env (Some free_lock) of
      (None, open_fds) \<Rightarrow> open_fds = []
    | (Some s, open_fds) \<Rightarrow> sel_inv s \<and> registry s = [] \<and> idle s \<and> length open_fds = 2 \<and>
        returns (bnd (sel_run prog (s, [])) (\<lambda>(s', ks). FreeSelector (Some s')))
          (\<lambda>(p, h, closed). p = None \<and> h = Map.empty \<and> closed = rev open_fds))"
proof (cases "NewSelector env (Some free_lock)")
  case (Pair p open_fds)
  show ?thesis
  proof (cases p)
    case None
    then show ?thesis using Pair by (auto simp: NewSelector_def split: if_splits option.splits)
  next
    case (Some s)
    then obtain r w where s: "s = new_selector r w" "open_fds = [r, w]"
      using Pair by (auto simp: NewSelector_def new_selector_def split: if_splits option.splits)
    have "run_ok (new_selector r w, [])" by (simp add: run_ok_def new_selector_inv)
    from sel_run_ok [OF this, of prog] obtain s' ks where r: "sel_run prog (new_selector r w, []) = Inr (s', ks)" "sel_inv s'"
      by (auto simp: run_ok_def elim!: returnsE)
    have "s_pipe s' = (r, w)" using sel_run_pipe [OF r(1)] by (simp add: new_selector_def)
    then show ?thesis using Pair Some s r FreeSelector_frees [OF r(2)] new_selector_inv [of r w]
      by (auto elim!: returns_mono)
  qed
qed

end
