(* ===== verification/Alloc.thy ===== *)
theory Alloc
  imports Prelude
begin

text \<open>
  The allocator of \<open>src/alloc.c\<close>: blocks with a hidden \<open>int\<close> header that records the requested
  size, zeroed memory, the detection of double frees through the header, and the counters the
  probes of \<open>src/stats.c\<close> keep. Whether \<open>malloc\<close> and \<open>realloc\<close> succeed is a parameter.
\<close>

section \<open>Requests\<close>

text \<open>
  \<open>malloc(size + sizeof(int))\<close> is computed in \<open>size_t\<close>. A request below minus four wraps to a size no
  system can serve; one between minus four and minus one is served with a block too small for the
  header that is written next.
\<close>

definition malloc_zeroed :: "bool \<Rightarrow> int \<Rightarrow> byte list option res" where
  "malloc_zeroed sys_ok sz =
     (if sz < - 4 \<or> \<not> sys_ok then Inr None
      else if sz < 0 then Inl Undefined
      else Inr (Some (replicate (nat sz) 0)))"

lemma malloc_zeroed_ok [simp]:
  "0 \<le> n \<Longrightarrow> malloc_zeroed True n = Inr (Some (replicate (nat n) 0))"
  by (simp add: malloc_zeroed_def)

lemma malloc_zeroed_fail [simp]: "malloc_zeroed False n = Inr None"
  by (simp add: malloc_zeroed_def)

section \<open>Blocks and the arena\<close>

record block =
  bk_size :: int
  bk_data :: "byte list"

record arena =
  ar_live :: "nat \<rightharpoonup> block"
  ar_tick :: nat
  ar_allocated :: int
  ar_allocs :: int
  ar_frees :: int

definition arena_init :: arena where
  "arena_init = \<lparr>ar_live = Map.empty, ar_tick = 0, ar_allocated = 0, ar_allocs = 0, ar_frees = 0\<rparr>"

definition aio4c_malloc :: "bool \<Rightarrow> int \<Rightarrow> arena \<Rightarrow> (nat option \<times> arena) res" where
  "aio4c_malloc sys_ok sz a =
     bnd (malloc_zeroed sys_ok sz) (\<lambda>m.
     case m of
       None \<Rightarrow> Inr (None, a)
     | Some bytes \<Rightarrow>
         Inr (Some (ar_tick a),
           a\<lparr>ar_live := (ar_live a)(ar_tick a \<mapsto> \<lparr>bk_size = sz, bk_data = bytes\<rparr>),
             ar_tick := Suc (ar_tick a),
             ar_allocated := ar_allocated a + sz, ar_allocs := ar_allocs a + 1\<rparr>))"

text \<open>
  Reading the header of a block: that of a freed block is whatever the memory holds by then, the
  parameter \<open>stale\<close>. The functions abort when it still is the minus one that \<open>aio4c_free\<close> wrote.
\<close>

definition header :: "(nat \<Rightarrow> int) \<Rightarrow> arena \<Rightarrow> nat \<Rightarrow> block res" where
  "header stale a r =
     (case ar_live a r of
        Some b \<Rightarrow> when_ok (bk_size b \<noteq> - 1) Aborted b
      | None \<Rightarrow> Inl (if r < ar_tick a \<and> stale r = - 1 then Aborted else Undefined))"

definition aio4c_realloc ::
  "(nat \<Rightarrow> int) \<Rightarrow> bool \<Rightarrow> nat option \<Rightarrow> int \<Rightarrow> arena \<Rightarrow> (nat option \<times> arena) res" where
  "aio4c_realloc stale sys_ok p sz a =
     (case p of
        None \<Rightarrow> aio4c_malloc sys_ok sz a
      | Some r \<Rightarrow>
          bnd (header stale a r) (\<lambda>b.
          if sz < - 4 \<or> \<not> sys_ok then Inr (None, a)
          else if sz < 0 then Inl Undefined
          else
            Inr (Some (ar_tick a),
              a\<lparr>ar_live := (ar_live a)(r := None, ar_tick a \<mapsto>
                  \<lparr>bk_size = sz,
                   bk_data = take (nat sz) (bk_data b) @ replicate (nat sz - length (bk_data b)) 0\<rparr>),
                ar_tick := Suc (ar_tick a),
                ar_allocated := ar_allocated a + (sz - bk_size b), ar_allocs := ar_allocs a + 1\<rparr>)))"

definition aio4c_free :: "(nat \<Rightarrow> int) \<Rightarrow> nat option \<Rightarrow> arena \<Rightarrow> arena res" where
  "aio4c_free stale p a =
     bnd (deref p) (\<lambda>r.
     bnd (header stale a r) (\<lambda>b.
     Inr (a\<lparr>ar_live := (ar_live a)(r := None),
            ar_allocated := ar_allocated a - bk_size b, ar_frees := ar_frees a + 1\<rparr>)))"

section \<open>Accounting\<close>

definition live_total :: "(nat \<rightharpoonup> block) \<Rightarrow> int" where
  "live_total m = (\<Sum>r \<in> dom m. bk_size (the (m r)))"

definition blocks_ok :: "(nat \<rightharpoonup> block) \<Rightarrow> nat \<Rightarrow> bool" where
  "blocks_ok m t \<longleftrightarrow>
     finite (dom m) \<and> (\<forall>r b. m r = Some b \<longrightarrow> r < t \<and> bk_size b = int (length (bk_data b)))"

definition arena_inv :: "arena \<Rightarrow> bool" where
  "arena_inv a \<longleftrightarrow> blocks_ok (ar_live a) (ar_tick a) \<and> ar_allocated a = live_total (ar_live a)"

lemma live_total_cong: "(\<Sum>r \<in> dom m - {x}. bk_size (the ((m(x := v)) r))) = (\<Sum>r \<in> dom m - {x}. bk_size (the (m r)))"
  by (intro sum.cong) auto

lemma blocks_insert:
  assumes "blocks_ok m t" and "bk_size b = int (length (bk_data b))"
  shows "blocks_ok (m(t \<mapsto> b)) (Suc t)" and "live_total (m(t \<mapsto> b)) = live_total m + bk_size b"
proof -
  from assms have t: "t \<notin> dom m" and f: "finite (dom m)" by (auto simp: blocks_ok_def)
  from assms show "blocks_ok (m(t \<mapsto> b)) (Suc t)" by (auto simp: blocks_ok_def less_Suc_eq)
  from t have d: "dom m - {t} = dom m" by auto
  with f t live_total_cong [of m t "Some b"] show "live_total (m(t \<mapsto> b)) = live_total m + bk_size b"
    by (simp add: live_total_def)
qed

lemma blocks_remove:
  assumes "blocks_ok m t" and "m x = Some b"
  shows "blocks_ok (m(x := None)) t" and "live_total (m(x := None)) = live_total m - bk_size b"
proof -
  from assms have f: "finite (dom m)" and x: "x \<in> dom m" by (auto simp: blocks_ok_def)
  from assms show "blocks_ok (m(x := None)) t" by (auto simp: blocks_ok_def)
  from sum.remove [OF f x, of "\<lambda>r. bk_size (the (m r))"] assms(2) live_total_cong [of m x None]
  show "live_total (m(x := None)) = live_total m - bk_size b"
    by (simp add: live_total_def)
qed

lemma arena_inv_init: "arena_inv arena_init"
  by (simp add: arena_inv_def arena_init_def blocks_ok_def live_total_def)

lemma arena_inv_header: "arena_inv a \<Longrightarrow> header stale a r = Inr b \<longleftrightarrow> ar_live a r = Some b"
  by (auto simp: arena_inv_def blocks_ok_def header_def when_ok_def split: option.splits)

lemma malloc_inv:
  "arena_inv a \<Longrightarrow> aio4c_malloc ok n a = Inr (p, a') \<Longrightarrow> arena_inv a'"
  by (auto simp: aio4c_malloc_def malloc_zeroed_def arena_inv_def blocks_insert split: if_splits)

lemma free_inv:
  assumes "arena_inv a" and "aio4c_free stale p a = Inr a'"
  shows "arena_inv a'"
  using assms
  by (auto simp: aio4c_free_def bnd_eq_Inr arena_inv_header)
    (auto simp: arena_inv_def blocks_remove)

lemma realloc_inv:
  assumes inv: "arena_inv a" and r: "aio4c_realloc stale ok p n a = Inr (p', a')"
  shows "arena_inv a'"
proof (cases p)
  case None
  with r malloc_inv [OF inv] show ?thesis by (simp add: aio4c_realloc_def)
next
  case (Some x)
  show ?thesis
  proof (cases "n < - 4 \<or> \<not> ok")
    case True
    with r inv Some show ?thesis by (auto simp: aio4c_realloc_def bnd_eq_Inr)
  next
    case False
    let ?d = "\<lambda>b. take (nat n) (bk_data b) @ replicate (nat n - length (bk_data b)) 0"
    from False r Some inv obtain b where x: "ar_live a x = Some b" and n: "0 \<le> n"
      and a': "a' = a\<lparr>ar_live := (ar_live a)(x := None, ar_tick a \<mapsto> \<lparr>bk_size = n, bk_data = ?d b\<rparr>),
        ar_tick := Suc (ar_tick a), ar_allocated := ar_allocated a + (n - bk_size b),
        ar_allocs := ar_allocs a + 1\<rparr>"
      by (auto simp: aio4c_realloc_def bnd_eq_Inr arena_inv_header split: if_splits)
    let ?b = "\<lparr>bk_size = n, bk_data = ?d b\<rparr>"
    from inv have ok: "blocks_ok (ar_live a) (ar_tick a)" and t: "ar_allocated a = live_total (ar_live a)"
      by (simp_all add: arena_inv_def)
    have l: "bk_size ?b = int (length (bk_data ?b))" using n by simp
    show ?thesis
      unfolding arena_inv_def a'
      using blocks_insert [OF blocks_remove(1) [OF ok x] l] blocks_remove(2) [OF ok x] t by simp
  qed
qed

section \<open>Programs that allocate and free\<close>

text \<open>
  A program names the blocks by the order of their allocation: \<open>AFree k\<close> frees the \<open>k\<close>-th block,
  whether or not it is still live.
\<close>

datatype aop = AMalloc bool int | ARealloc bool "nat option" int | AFree nat

fun arena_step :: "(nat \<Rightarrow> int) \<Rightarrow> aop \<Rightarrow> arena \<Rightarrow> arena res" where
  "arena_step stale (AMalloc ok n) a = bnd (aio4c_malloc ok n a) (\<lambda>(_, a'). Inr a')"
| "arena_step stale (ARealloc ok p n) a = bnd (aio4c_realloc stale ok p n a) (\<lambda>(_, a'). Inr a')"
| "arena_step stale (AFree r) a = aio4c_free stale (Some r) a"

fun arena_run :: "(nat \<Rightarrow> int) \<Rightarrow> aop list \<Rightarrow> arena \<Rightarrow> arena res" where
  "arena_run stale [] a = Inr a"
| "arena_run stale (op # ops) a = bnd (arena_step stale op a) (arena_run stale ops)"

lemma arena_step_inv: "arena_inv a \<Longrightarrow> arena_step stale op a = Inr a' \<Longrightarrow> arena_inv a'"
  by (cases op) (auto simp: bnd_eq_Inr intro: malloc_inv realloc_inv free_inv)

lemma arena_run_inv: "arena_inv a \<Longrightarrow> arena_run stale ops a = Inr a' \<Longrightarrow> arena_inv a'"
  by (induction ops arbitrary: a) (auto simp: bnd_eq_Inr dest: arena_step_inv)

text \<open>
  C23. Whatever a program allocates, reallocates and frees, the allocated-size probe equals the sum
  of the sizes of the live blocks, every live block has the size its header says, and the first free
  of a live block returns. A second free aborts as long as the header of the freed block still reads
  the -1 that the first one left (\<open>stale\<close> is what freed memory reads); once it has been overwritten the
  check does not see it and the memory is freed twice, which is undefined. Every double free is one of
  the two.
\<close>

theorem allocation_accounting:
  assumes "arena_run stale ops arena_init = Inr a"
  shows "ar_allocated a = live_total (ar_live a)
    \<and> (\<forall>r b. ar_live a r = Some b \<longrightarrow> bk_size b = int (length (bk_data b))
        \<and> (\<exists>a'. aio4c_free stale (Some r) a = Inr a' \<and>
             aio4c_free stale (Some r) a' = Inl (if stale r = - 1 then Aborted else Undefined)))"
proof -
  have inv: "arena_inv a" using arena_inv_init assms by (rule arena_run_inv)
  have "\<exists>a'. aio4c_free stale (Some r) a = Inr a' \<and>
      aio4c_free stale (Some r) a' = Inl (if stale r = - 1 then Aborted else Undefined)"
    if r: "ar_live a r = Some b" for r b
  proof -
    let ?a = "a\<lparr>ar_live := (ar_live a)(r := None), ar_allocated := ar_allocated a - bk_size b,
                ar_frees := ar_frees a + 1\<rparr>"
    have "aio4c_free stale (Some r) a = Inr ?a"
      using r inv by (simp add: aio4c_free_def arena_inv_header [THEN iffD2])
    moreover have "r < ar_tick a" using r inv by (auto simp: arena_inv_def blocks_ok_def)
    then have "aio4c_free stale (Some r) ?a = Inl (if stale r = - 1 then Aborted else Undefined)"
      by (simp add: aio4c_free_def header_def)
    ultimately show ?thesis by blast
  qed
  with inv show ?thesis by (auto simp: arena_inv_def blocks_ok_def)
qed

theorem allocation_accounting_witness:
  "\<exists>a. arena_run (\<lambda>_. - 1) [AMalloc True 3, AMalloc True 2, AFree 0, ARealloc True (Some 1) 5] arena_init = Inr a
     \<and> ar_allocated a = live_total (ar_live a)"
proof -
  let ?ops = "[AMalloc True 3, AMalloc True 2, AFree 0, ARealloc True (Some 1) 5]"
  obtain a where a: "arena_run (\<lambda>_. - 1) ?ops arena_init = Inr a"
    by (simp add: aio4c_malloc_def aio4c_free_def aio4c_realloc_def header_def arena_init_def)
  with allocation_accounting [OF this] show ?thesis by blast
qed

text \<open>
  Growing a block keeps its bytes and zeroes the new ones, shrinking it keeps a prefix; a
  reallocation that the system refuses returns NULL and leaves the old block usable.
\<close>

theorem realloc_keeps_contents:
  assumes "arena_inv a" and "ar_live a r = Some b" and "0 \<le> n"
  shows "(\<exists>r' a' b'. aio4c_realloc stale True (Some r) n a = Inr (Some r', a')
      \<and> ar_live a' r' = Some b' \<and> ar_live a' r = None \<and> length (bk_data b') = nat n
      \<and> (\<forall>i < nat n. bk_data b' ! i = (if i < length (bk_data b) then bk_data b ! i else 0)))
    \<and> aio4c_realloc stale False (Some r) n a = Inr (None, a)"
proof -
  let ?d = "take (nat n) (bk_data b) @ replicate (nat n - length (bk_data b)) 0"
  have h: "header stale a r = Inr b" using assms by (simp add: arena_inv_header)
  have t: "r \<noteq> ar_tick a" using assms by (auto simp: arena_inv_def blocks_ok_def)
  have "?d ! i = (if i < length (bk_data b) then bk_data b ! i else 0)" if "i < nat n" for i
    using that by (auto simp: nth_append)
  with h t assms(3) show ?thesis by (auto simp: aio4c_realloc_def)
qed

theorem realloc_keeps_contents_witness:
  "\<exists>r' a' b'. aio4c_realloc (\<lambda>_. 0) True (Some 0) 3
      (arena_init\<lparr>ar_live := [0 \<mapsto> \<lparr>bk_size = 1, bk_data = [7]\<rparr>], ar_tick := 1, ar_allocated := 1\<rparr>) = Inr (Some r', a')
    \<and> ar_live a' r' = Some b' \<and> bk_data b' ! 0 = 7 \<and> bk_data b' ! 2 = 0"
proof -
  let ?a = "arena_init\<lparr>ar_live := [0 \<mapsto> \<lparr>bk_size = 1, bk_data = [7]\<rparr>], ar_tick := 1, ar_allocated := 1\<rparr>"
  have "arena_inv ?a" by (simp add: arena_inv_def blocks_ok_def live_total_def arena_init_def)
  from realloc_keeps_contents [OF this, of 0 _ 3 "\<lambda>_. 0"] show ?thesis by fastforce
qed

end
