(* ===== verification/Buffers.thy ===== *)
theory Buffers
  imports Alloc
begin

text \<open>
  The byte buffers of \<open>src/buffer.c\<close>: a capacity, a position, a limit and a data array with two
  bytes of reserve behind the capacity. Positions and limits are C \<open>int\<close>s; every \<open>memcpy\<close> is
  checked against the array. The errors the code raises are values.
\<close>

section \<open>Buffers\<close>

datatype buffer_error = BUFFER_OVERFLOW_ERROR | BUFFER_UNDERFLOW_ERROR

record buffer =
  b_pool :: "nat option"
  b_size :: int
  b_data :: "byte list"
  b_position :: int
  b_limit :: int

definition NewBuffer :: "bool \<Rightarrow> bool \<Rightarrow> int \<Rightarrow> buffer option res" where
  "NewBuffer ok1 ok2 sz =
     (if \<not> ok1 then Inr None
      else
        bnd (c_int (sz + 2)) (\<lambda>n.
        bnd (malloc_zeroed ok2 n) (\<lambda>m.
        case m of
          None \<Rightarrow> Inr None
        | Some d \<Rightarrow> Inr (Some \<lparr>b_pool = None, b_size = sz, b_data = d, b_position = 0, b_limit = sz\<rparr>))))"

definition FreeBuffer :: "buffer option \<Rightarrow> buffer option" where
  "FreeBuffer p = None"

definition BufferFlip :: "buffer \<Rightarrow> buffer" where
  "BufferFlip b = b\<lparr>b_limit := b_position b, b_position := 0\<rparr>"

text \<open>The functions that return the buffer or NULL return whether they accepted the argument.\<close>

definition BufferPosition :: "buffer \<Rightarrow> int \<Rightarrow> bool \<times> buffer" where
  "BufferPosition b p = (if p > b_limit b then (False, b) else (True, b\<lparr>b_position := p\<rparr>))"

definition BufferLimit :: "buffer \<Rightarrow> int \<Rightarrow> bool \<times> buffer" where
  "BufferLimit b l = (if l > b_size b then (False, b) else (True, b\<lparr>b_limit := l\<rparr>))"

definition BufferReset :: "buffer \<Rightarrow> buffer res" where
  "BufferReset b =
     bnd (mset_zero (b_data b) (b_size b)) (\<lambda>d.
     Inr (b\<lparr>b_data := d, b_position := 0, b_limit := b_size b\<rparr>))"

definition BufferCopy :: "buffer \<Rightarrow> buffer \<Rightarrow> buffer res" where
  "BufferCopy dst src =
     bnd (BufferReset dst) (\<lambda>dst1.
     bnd (c_int (b_limit src - b_position src)) (\<lambda>n.
     bnd (mread (b_data src) (b_position src) n) (\<lambda>bytes.
     bnd (mwrite (b_data dst1) 0 bytes) (\<lambda>d.
     Inr (snd (BufferLimit (dst1\<lparr>b_data := d\<rparr>) n))))))"

definition BufferHasRemaining :: "buffer \<Rightarrow> bool" where
  "BufferHasRemaining b \<longleftrightarrow> b_position b < b_limit b"

definition BufferGet :: "buffer \<Rightarrow> int \<Rightarrow> ((buffer_error + byte list) \<times> buffer) res" where
  "BufferGet b n =
     bnd (c_int (b_position b + n)) (\<lambda>e.
     if e > b_limit b then Inr (Inl BUFFER_UNDERFLOW_ERROR, b)
     else
       bnd (mread (b_data b) (b_position b) n) (\<lambda>out.
       Inr (Inr out, b\<lparr>b_position := e\<rparr>)))"

definition BufferPut :: "buffer \<Rightarrow> byte list \<Rightarrow> int \<Rightarrow> (buffer_error option \<times> buffer) res" where
  "BufferPut b src n =
     bnd (c_int (b_position b + n)) (\<lambda>e.
     if e > b_limit b then Inr (Some BUFFER_OVERFLOW_ERROR, b)
     else
       bnd (mread src 0 n) (\<lambda>bytes.
       bnd (mwrite (b_data b) (b_position b) bytes) (\<lambda>d.
       Inr (None, b\<lparr>b_data := d, b_position := e\<rparr>))))"

section \<open>Strings\<close>

text \<open>
  A C string is the bytes of an object up to the first zero. \<open>strlen\<close> and \<open>memchr\<close> run past the
  end of an object that holds none; a negative count of \<open>memchr\<close> is a huge \<open>size_t\<close>.
\<close>

definition to_zero :: "byte list \<Rightarrow> byte list" where
  "to_zero xs = takeWhile (\<lambda>c. c \<noteq> 0) xs"

definition c_strlen :: "byte list \<Rightarrow> int res" where
  "c_strlen xs = (let k = length (to_zero xs) in when_ok (k < length xs) Undefined (int k))"

definition memchr_zero :: "byte list \<Rightarrow> int \<Rightarrow> bool res" where
  "memchr_zero xs n =
     (let k = length (to_zero xs) in
      if 0 \<le> n \<and> n \<le> int k then Inr False else when_ok (k < length xs) Undefined True)"

text \<open>The result of \<open>BufferGetString\<close> is the pointer \<open>&data[position]\<close>, here its index.\<close>

definition BufferGetString :: "buffer \<Rightarrow> (int \<times> buffer) res" where
  "BufferGetString b =
     bnd (when_ok (0 \<le> b_position b) Undefined (drop (nat (b_position b)) (b_data b))) (\<lambda>s.
     bnd (c_strlen s) (\<lambda>k.
     bnd (c_int (k + 1)) (\<lambda>len.
     bnd (c_int (b_limit b - b_position b)) (\<lambda>rem.
     bnd (if len > rem
          then bnd (mwrite (b_data b) (b_limit b) [0]) (\<lambda>d1.
               bnd (mwrite d1 (b_limit b + 1) [0]) (\<lambda>d2. Inr (rem, d2)))
          else Inr (len, b_data b)) (\<lambda>(len', d).
     bnd (c_int (b_position b + len')) (\<lambda>p.
     Inr (b_position b, b\<lparr>b_data := d, b_position := p\<rparr>)))))))"

definition c_string :: "byte list \<Rightarrow> int \<Rightarrow> byte list" where
  "c_string d i = to_zero (drop (nat i) d)"

definition BufferPutString :: "buffer \<Rightarrow> byte list \<Rightarrow> (buffer_error option \<times> buffer) res" where
  "BufferPutString b src =
     bnd (c_int (b_limit b - b_position b)) (\<lambda>rem.
     bnd (memchr_zero src rem) (\<lambda>found.
     if \<not> found then Inr (Some BUFFER_OVERFLOW_ERROR, b)
     else
       bnd (c_strlen src) (\<lambda>k.
       bnd (mread src 0 (k + 1)) (\<lambda>bytes.
       bnd (mwrite (b_data b) (b_position b) bytes) (\<lambda>d.
       bnd (c_int (b_position b + (k + 1))) (\<lambda>p.
       Inr (None, b\<lparr>b_data := d, b_position := p\<rparr>)))))))"

definition BufferGetPosition :: "buffer \<Rightarrow> int" where
  "BufferGetPosition b = b_position b"

definition BufferGetLimit :: "buffer \<Rightarrow> int" where
  "BufferGetLimit b = b_limit b"

definition BufferGetCapacity :: "buffer \<Rightarrow> int" where
  "BufferGetCapacity b = b_size b"

definition BufferRemaining :: "buffer \<Rightarrow> int res" where
  "BufferRemaining b = c_int (b_limit b - b_position b)"

definition BufferGetBytes :: "buffer \<Rightarrow> byte list" where
  "BufferGetBytes b = b_data b"

section \<open>Well-formed buffers\<close>

text \<open>
  What \<open>buffer.h\<close> promises: the position is at most the limit, the limit at most the capacity, and
  the reserve behind the capacity holds zeros.
\<close>

definition buf_inv :: "buffer \<Rightarrow> bool" where
  "buf_inv b \<longleftrightarrow>
     0 \<le> b_position b \<and> b_position b \<le> b_limit b \<and> b_limit b \<le> b_size b \<and>
     int (length (b_data b)) = b_size b + 2 \<and> b_size b \<le> INT_MAX - 2 \<and>
     drop (nat (b_size b)) (b_data b) = [0, 0]"

lemma buf_invD:
  assumes "buf_inv b"
  shows "0 \<le> b_position b" "b_position b \<le> b_limit b" "b_limit b \<le> b_size b"
    "int (length (b_data b)) = b_size b + 2" "b_size b \<le> INT_MAX - 2"
    "drop (nat (b_size b)) (b_data b) = [0, 0]"
  using assms by (simp_all add: buf_inv_def)

lemma mwrite_reserve:
  assumes "mwrite d i src = Inr d'" and "drop s d = [0, 0]" and "i + int (length src) \<le> int s"
  shows "drop s d' = [0, 0]"
proof -
  from assms(1) have i: "0 \<le> i" "i + int (length src) \<le> int (length d)"
    and d': "d' = take (nat i) d @ src @ drop (nat i + length src) d"
    by (auto simp: mwrite_def when_ok_def split: if_splits)
  have n: "nat i + length src \<le> s" using assms(3) i by linarith
  have "drop s d' = drop (s - (nat i + length src)) (drop (nat i + length src) d)"
    using i n by (simp add: d')
  also have "\<dots> = drop s d" using n by simp
  finally show ?thesis using assms(2) by simp
qed

lemma mwrite_eq:
  "0 \<le> i \<Longrightarrow> i + int (length src) \<le> int (length bs) \<Longrightarrow>
   mwrite bs i src = Inr (take (nat i) bs @ src @ drop (nat i + length src) bs)"
  by (simp add: mwrite_def)

lemma zeros_split: "0 \<le> n \<Longrightarrow> replicate (nat (n + 2)) (0 :: byte) = replicate (nat n) 0 @ [0, 0]"
proof -
  assume "0 \<le> n"
  then have "nat (n + 2) = nat n + 2" by simp
  then have "replicate (nat (n + 2)) (0 :: byte) = replicate (nat n) 0 @ replicate 2 0"
    by (simp only: replicate_add)
  then show ?thesis by (simp add: numeral_eq_Suc)
qed

lemma drop_zeros: "0 \<le> n \<Longrightarrow> drop (nat n) (replicate (nat (n + 2)) (0 :: byte)) = [0, 0]"
  by (simp only: zeros_split) simp

lemma NewBuffer_seq:
  assumes "0 \<le> n" "n \<le> INT_MAX - 2"
  shows "returns (NewBuffer ok1 ok2 n) (\<lambda>r. if ok1 \<and> ok2 then
     \<exists>b. r = Some b \<and> buf_inv b \<and> b_size b = n \<and> b_position b = 0 \<and> b_limit b = n \<and> b_pool b = None
       \<and> b_data b = replicate (nat (n + 2)) 0
     else r = None)"
proof -
  have i: "is_int (n + 2)" using assms by (intro is_int_bounds) auto
  from i assms drop_zeros [OF assms(1)] show ?thesis
    by (cases ok1; cases ok2) (auto simp: NewBuffer_def buf_inv_def)
qed

lemma BufferFlip_inv: "buf_inv b \<Longrightarrow> buf_inv (BufferFlip b)"
  by (simp add: buf_inv_def BufferFlip_def)

lemma BufferPosition_inv: "buf_inv b \<Longrightarrow> 0 \<le> p \<Longrightarrow> buf_inv (snd (BufferPosition b p))"
  by (simp add: buf_inv_def BufferPosition_def)

lemma BufferLimit_inv: "buf_inv b \<Longrightarrow> b_position b \<le> l \<Longrightarrow> buf_inv (snd (BufferLimit b l))"
  by (simp add: buf_inv_def BufferLimit_def)

lemma BufferReset_seq:
  assumes "buf_inv b"
  shows "returns (BufferReset b) (\<lambda>b'. buf_inv b' \<and> b_position b' = 0 \<and> b_limit b' = b_size b \<and>
    b_size b' = b_size b \<and> b_pool b' = b_pool b \<and> b_data b' = replicate (nat (b_size b + 2)) 0)"
proof -
  note b = buf_invD [OF assms]
  let ?z = "replicate (nat (b_size b)) 0 :: byte list"
  have "mwrite (b_data b) 0 ?z = Inr (replicate (nat (b_size b + 2)) 0)"
    using b zeros_split [of "b_size b"] by (subst mwrite_eq) auto
  then show ?thesis
    using b drop_zeros [of "b_size b"] by (auto simp: BufferReset_def mset_zero_def buf_inv_def)
qed

section \<open>Transfers\<close>

lemma BufferGet_seq:
  assumes inv: "buf_inv b" and n: "0 \<le> n" "b_position b + n \<le> INT_MAX"
  shows "returns (BufferGet b n) (\<lambda>r. if b_position b + n \<le> b_limit b
     then r = (Inr (take (nat n) (drop (nat (b_position b)) (b_data b))), b\<lparr>b_position := b_position b + n\<rparr>)
     else r = (Inl BUFFER_UNDERFLOW_ERROR, b))"
proof -
  note b = buf_invD [OF inv]
  have "is_int (b_position b + n)" using b n by (intro is_int_bounds) auto
  then show ?thesis using b n by (auto simp: BufferGet_def mread_def)
qed

lemma BufferPut_seq:
  assumes inv: "buf_inv b" and n: "int (length src) = n" "b_position b + n \<le> INT_MAX"
  shows "returns (BufferPut b src n) (\<lambda>(e, b'). if b_position b + n \<le> b_limit b
     then e = None \<and> buf_inv b' \<and> b_position b' = b_position b + n \<and> b_limit b' = b_limit b \<and>
       b_size b' = b_size b \<and> b_pool b' = b_pool b \<and>
       b_data b' = take (nat (b_position b)) (b_data b) @ src @ drop (nat (b_position b) + length src) (b_data b)
     else e = Some BUFFER_OVERFLOW_ERROR \<and> b' = b)"
proof (cases "b_position b + n \<le> b_limit b")
  case True
  note b = buf_invD [OF inv]
  have i: "is_int (b_position b + n)" using b n by (intro is_int_bounds) auto
  let ?d = "take (nat (b_position b)) (b_data b) @ src @ drop (nat (b_position b) + length src) (b_data b)"
  have w: "mwrite (b_data b) (b_position b) src = Inr ?d"
    using b n True by (intro mwrite_eq) auto
  have r: "mread src 0 n = Inr src" using n by (simp add: mread_def)
  have "drop (nat (b_size b)) ?d = [0, 0]"
    using mwrite_reserve [OF w b(6)] b True n by auto
  moreover have "length ?d = length (b_data b)" by (rule length_mwrite [OF w])
  ultimately have "buf_inv (b\<lparr>b_data := ?d, b_position := b_position b + n\<rparr>)"
    using b n True by (simp only: buf_inv_def buffer.simps) auto
  with i True w r show ?thesis by (simp add: BufferPut_def)
next
  case False
  note b = buf_invD [OF inv]
  have "is_int (b_position b + n)" using b n by (intro is_int_bounds) auto
  with False show ?thesis by (simp add: BufferPut_def)
qed

section \<open>Putting and getting byte strings\<close>

fun put_all :: "byte list list \<Rightarrow> buffer \<Rightarrow> (bool \<times> buffer) res" where
  "put_all [] b = Inr (True, b)"
| "put_all (x # xs) b =
     bnd (BufferPut b x (int (length x))) (\<lambda>(e, b').
     if e = None then put_all xs b' else Inr (False, b'))"

definition same_frame :: "buffer \<Rightarrow> buffer \<Rightarrow> bool" where
  "same_frame b b' \<longleftrightarrow> b_size b' = b_size b \<and> b_limit b' = b_limit b \<and> b_pool b' = b_pool b"

lemma put_all_seq:
  assumes "buf_inv b" and "b_position b + int (length (concat xs)) \<le> b_limit b"
  shows "returns (put_all xs b) (\<lambda>(r, b'). r \<and> buf_inv b' \<and> same_frame b b' \<and>
    b_position b' = b_position b + int (length (concat xs)) \<and>
    take (nat (b_position b')) (b_data b') = take (nat (b_position b)) (b_data b) @ concat xs)"
  using assms
proof (induction xs arbitrary: b)
  case Nil
  then show ?case by (simp add: same_frame_def)
next
  case (Cons x xs)
  note b = buf_invD [OF Cons.prems(1)]
  have fit: "b_position b + int (length x) \<le> b_limit b" using Cons.prems(2) by simp
  then have "b_position b + int (length x) \<le> INT_MAX" using b by linarith
  from BufferPut_seq [OF Cons.prems(1) refl this] show ?case
    unfolding put_all.simps
  proof (rule returns_bndI, clarify)
    fix e b'
    assume p: "if b_position b + int (length x) \<le> b_limit b
     then e = None \<and> buf_inv b' \<and> b_position b' = b_position b + int (length x) \<and> b_limit b' = b_limit b \<and>
       b_size b' = b_size b \<and> b_pool b' = b_pool b \<and>
       b_data b' = take (nat (b_position b)) (b_data b) @ x @ drop (nat (b_position b) + length x) (b_data b)
     else e = Some BUFFER_OVERFLOW_ERROR \<and> b' = b"
    have "take (nat (b_position b')) (b_data b') = take (nat (b_position b)) (b_data b) @ x"
      using p fit b by (simp add: nat_add_distrib)
    with p fit Cons.IH [of b'] Cons.prems(2)
    show "returns (if e = None then put_all xs b' else Inr (False, b')) (\<lambda>(r, b').
        r \<and> buf_inv b' \<and> same_frame b b' \<and>
        b_position b' = b_position b + int (length (concat (x # xs))) \<and>
        take (nat (b_position b')) (b_data b') = take (nat (b_position b)) (b_data b) @ concat (x # xs))"
      by (auto simp: same_frame_def elim!: returns_mono)
  qed
qed

text \<open>
  C24. What is put into a buffer comes back: after any puts that fit, flipping the buffer and
  getting the same number of bytes returns their concatenation and leaves nothing to read, and one
  byte more is an underflow that changes nothing.
\<close>

theorem put_flip_get_roundtrip:
  assumes inv: "buf_inv b" and pos: "b_position b = 0" and fit: "int (length (concat xs)) \<le> b_limit b"
  shows "returns (bnd (put_all xs b) (\<lambda>(r, b1).
      bnd (BufferGet (BufferFlip b1) (int (length (concat xs)))) (\<lambda>(out, b2).
      bnd (BufferGet b2 1) (\<lambda>(more, b3). Inr (r, out, b2, more, b3)))))
    (\<lambda>(r, out, b2, more, b3). r \<and> out = Inr (concat xs) \<and> \<not> BufferHasRemaining b2
      \<and> more = Inl BUFFER_UNDERFLOW_ERROR \<and> b3 = b2)"
proof -
  let ?n = "int (length (concat xs))"
  note b = buf_invD [OF inv]
  have "b_position b + ?n \<le> b_limit b" using pos fit by simp
  from put_all_seq [OF inv this] show ?thesis
  proof (rule returns_bndI, clarify)
    fix r b1
    assume r: "r" and b1: "buf_inv b1" and f: "same_frame b b1" and p: "b_position b1 = b_position b + ?n"
      and d: "take (nat (b_position b1)) (b_data b1) = take (nat (b_position b)) (b_data b) @ concat xs"
    let ?b1 = "BufferFlip b1"
    have flip: "buf_inv ?b1" "b_position ?b1 = 0" "b_limit ?b1 = ?n" "b_data ?b1 = b_data b1"
      using BufferFlip_inv [OF b1] p pos by (simp_all add: BufferFlip_def)
    have "b_position ?b1 + ?n \<le> INT_MAX" using b1 p pos flip buf_invD [OF b1] by linarith
    from BufferGet_seq [OF flip(1) _ this] flip d p pos
    have g: "BufferGet ?b1 ?n = Inr (Inr (concat xs), ?b1\<lparr>b_position := ?n\<rparr>)"
      by (auto elim!: returnsE)
    let ?b2 = "?b1\<lparr>b_position := ?n\<rparr>"
    have b2: "buf_inv ?b2" using flip(1,3) by (simp add: buf_inv_def)
    have "b_position ?b2 + 1 \<le> INT_MAX" using buf_invD [OF b1] p pos by simp
    from BufferGet_seq [OF b2 _ this] flip
    have "BufferGet ?b2 1 = Inr (Inl BUFFER_UNDERFLOW_ERROR, ?b2)"
      by (auto elim!: returnsE)
    with g r flip show "returns (bnd (BufferGet ?b1 ?n) (\<lambda>(out, b2).
        bnd (BufferGet b2 1) (\<lambda>(more, b3). Inr (r, out, b2, more, b3))))
      (\<lambda>(r, out, b2, more, b3). r \<and> out = Inr (concat xs) \<and> \<not> BufferHasRemaining b2
        \<and> more = Inl BUFFER_UNDERFLOW_ERROR \<and> b3 = b2)"
      by (simp add: BufferHasRemaining_def)
  qed
qed

definition small_buffer :: buffer where
  "small_buffer = \<lparr>b_pool = None, b_size = 8, b_data = replicate 10 0, b_position = 0, b_limit = 8\<rparr>"

lemma small_buffer_inv: "buf_inv small_buffer"
  by (simp add: buf_inv_def small_buffer_def INT_MAX_def numeral_eq_Suc)

theorem put_flip_get_roundtrip_witness:
  "returns (bnd (put_all [[1, 2], [], [3]] small_buffer) (\<lambda>(r, b1). BufferGet (BufferFlip b1) 3))
    (\<lambda>(out, b2). out = Inr [1, 2, 3])"
proof -
  have "b_position small_buffer = 0" "int (length (concat [[1, 2], [], [3 :: byte]])) \<le> b_limit small_buffer"
    by (simp_all add: small_buffer_def)
  note t = put_flip_get_roundtrip [OF small_buffer_inv this]
  have "int (length (concat [[1, 2], [], [3 :: byte]])) = 3" by simp
  note t [unfolded this]
  then show ?thesis
    by (auto simp del: put_all.simps elim!: returns_mono elim: returnsE)
qed

section \<open>Strings in buffers\<close>

lemma to_zero_append: "0 \<notin> set s \<Longrightarrow> to_zero (s @ 0 # t) = s"
  by (induction s) (auto simp: to_zero_def)

lemma to_zero_less: "0 \<in> set xs \<Longrightarrow> length (to_zero xs) < length xs"
  by (induction xs) (auto simp: to_zero_def)

lemma c_strlen_ok: "0 \<in> set xs \<Longrightarrow> c_strlen xs = Inr (int (length (to_zero xs)))"
  by (simp add: c_strlen_def Let_def to_zero_less)

lemma memchr_zero_ok:
  "0 \<in> set xs \<Longrightarrow> 0 \<le> n \<Longrightarrow> memchr_zero xs n = Inr (int (length (to_zero xs)) < n)"
  by (auto simp: memchr_zero_def Let_def to_zero_less)

lemma to_zero_split: "0 \<in> set xs \<Longrightarrow> take (Suc (length (to_zero xs))) xs = to_zero xs @ [0]"
  by (induction xs) (auto simp: to_zero_def)

lemma BufferPutString_seq:
  assumes inv: "buf_inv b" and z: "0 \<in> set src" and len: "int (length src) \<le> INT_MAX"
  shows "returns (BufferPutString b src) (\<lambda>(e, b'). if b_position b + int (length (to_zero src)) < b_limit b
     then e = None \<and> buf_inv b' \<and> same_frame b b' \<and>
       b_position b' = b_position b + int (length (to_zero src)) + 1 \<and>
       take (nat (b_position b')) (b_data b') = take (nat (b_position b)) (b_data b) @ to_zero src @ [0]
     else e = Some BUFFER_OVERFLOW_ERROR \<and> b' = b)"
proof -
  note b = buf_invD [OF inv]
  let ?k = "int (length (to_zero src))"
  have rem: "is_int (b_limit b - b_position b)" using b by (intro is_int_bounds) auto
  have m: "memchr_zero src (b_limit b - b_position b) = Inr (?k < b_limit b - b_position b)"
    using z b by (intro memchr_zero_ok) auto
  show ?thesis
  proof (cases "b_position b + ?k < b_limit b")
    case False
    with rem m show ?thesis by (simp add: BufferPutString_def)
  next
    case True
    let ?s = "to_zero src @ [0]"
    let ?d = "take (nat (b_position b)) (b_data b) @ ?s @ drop (nat (b_position b) + length ?s) (b_data b)"
    have r: "mread src 0 (?k + 1) = Inr ?s"
      using to_zero_split [OF z] to_zero_less [OF z] by (simp add: mread_def nat_add_distrib)
    have w: "mwrite (b_data b) (b_position b) ?s = Inr ?d"
      using b True by (intro mwrite_eq) auto
    have p: "is_int (b_position b + (?k + 1))" using b True by (intro is_int_bounds) auto
    have "drop (nat (b_size b)) ?d = [0, 0]"
      using mwrite_reserve [OF w b(6)] b True by auto
    moreover have "length ?d = length (b_data b)" by (rule length_mwrite [OF w])
    ultimately have "buf_inv (b\<lparr>b_data := ?d, b_position := b_position b + (?k + 1)\<rparr>)"
      using b True by (simp only: buf_inv_def buffer.simps) auto
    moreover have "take (nat (b_position b + (?k + 1))) ?d = take (nat (b_position b)) (b_data b) @ ?s"
      using b True by (simp add: nat_add_distrib)
    ultimately show ?thesis
      using rem m r w p True c_strlen_ok [OF z]
      by (simp add: BufferPutString_def same_frame_def)
  qed
qed

lemma mwrite_zero:
  assumes "0 \<le> i" "i < int (length d)"
  shows "mwrite d i [0] = Inr (d[nat i := 0])"
proof -
  have "nat i < length d" using assms by linarith
  with assms show ?thesis by (simp add: mwrite_def upd_conv_take_nth_drop)
qed

lemma reserve_update: "drop s d = [0, 0] \<Longrightarrow> drop s (d[i := 0]) = [0, 0 :: byte]"
proof (cases "i < s")
  case False
  assume d: "drop s d = [0, 0]"
  have "drop s (d[i := 0]) = (drop s d)[i - s := 0]" using False by (simp add: drop_update_swap)
  with d show ?thesis by (cases "i - s"; cases "i - s - 1") (auto simp: Suc_diff_Suc)
qed simp

lemma take_to_zero: "k \<le> length (to_zero xs) \<Longrightarrow> take k (to_zero xs) = take k xs"
  by (metis take_append append_take_drop_id diff_is_0_eq' append_Nil2 take0 takeWhile_eq_take to_zero_def
      take_take min.absorb1)

lemma to_zero_take: "k \<le> length (to_zero xs) \<Longrightarrow> to_zero (take k xs @ 0 # ys) = take k xs"
proof -
  assume k: "k \<le> length (to_zero xs)"
  have "\<forall>c \<in> set (to_zero xs). c \<noteq> 0" by (auto simp: to_zero_def dest: set_takeWhileD)
  then have "0 \<notin> set (take k (to_zero xs))" by (auto dest: in_set_takeD)
  with take_to_zero [OF k] show ?thesis by (simp add: to_zero_append)
qed

lemma drop_terminated:
  fixes d :: "byte list"
  assumes "p \<le> l" and "Suc l < length d"
  shows "\<exists>r. drop p (d[l := 0, Suc l := 0]) = take (l - p) (drop p d) @ 0 # r"
proof -
  let ?e = "d[l := 0, Suc l := 0]"
  have "?e = take l ?e @ ?e ! l # drop (Suc l) ?e" using assms by (intro id_take_nth_drop) simp
  moreover have "take l ?e = take l d" "?e ! l = 0" using assms by (simp_all add: take_update_cancel)
  ultimately have e: "?e = take l d @ 0 # drop (Suc l) ?e" by simp
  have "drop p ?e = drop p (take l d) @ 0 # drop (Suc l) ?e" using assms by (subst e) simp
  then show ?thesis by (auto simp: drop_take)
qed

text \<open>
  The string that \<open>BufferGetString\<close> hands out ends at its terminator or, when there is none
  before the limit, at the limit: the code then writes the terminator there.
\<close>

lemma BufferGetString_seq:
  assumes inv: "buf_inv b"
  shows "returns (BufferGetString b) (\<lambda>(i, b'). buf_inv b' \<and> same_frame b b' \<and> i = b_position b \<and>
    (let k = int (length (to_zero (drop (nat i) (b_data b)))); rem = b_limit b - b_position b in
     b_position b' = b_position b + min (k + 1) rem \<and>
     c_string (b_data b') i = take (nat rem) (to_zero (drop (nat i) (b_data b))) \<and>
     take (nat (b_limit b)) (b_data b') = take (nat (b_limit b)) (b_data b)))"
proof -
  note b = buf_invD [OF inv]
  let ?s = "drop (nat (b_position b)) (b_data b)"
  let ?k = "int (length (to_zero ?s))"
  let ?rem = "b_limit b - b_position b"
  have "0 \<in> set (drop (nat (b_size b)) (b_data b))" using b by simp
  moreover have "set (drop (nat (b_size b)) (b_data b)) \<subseteq> set ?s"
    using b by (intro set_drop_subset_set_drop) auto
  ultimately have z: "0 \<in> set ?s" by blast
  have len: "int (length ?s) = b_size b + 2 - b_position b" using b by auto
  have k: "?k < b_size b + 2 - b_position b" using to_zero_less [OF z] len by linarith
  have i: "is_int (?k + 1)" "is_int ?rem" using b k by (auto intro!: is_int_bounds)
  show ?thesis
  proof (cases "?k + 1 > ?rem")
    case False
    have "is_int (b_position b + (?k + 1))" using b False by (intro is_int_bounds) auto
    moreover have "to_zero ?s = take (nat ?rem) (to_zero ?s)" using False by simp
    ultimately show ?thesis
      using False i b c_strlen_ok [OF z]
      by (auto simp: BufferGetString_def buf_inv_def same_frame_def Let_def c_string_def)
  next
    case True
    let ?d = "(b_data b)[nat (b_limit b) := 0, nat (b_limit b + 1) := 0]"
    have w: "mwrite (b_data b) (b_limit b) [0] = Inr ((b_data b)[nat (b_limit b) := 0])"
      "mwrite ((b_data b)[nat (b_limit b) := 0]) (b_limit b + 1) [0] = Inr ?d"
      using b by (auto intro!: mwrite_zero)
    have p: "is_int (b_limit b)" using b by (intro is_int_bounds) auto
    have inv': "buf_inv (b\<lparr>b_data := ?d, b_position := b_limit b\<rparr>)"
      using b reserve_update by (simp add: buf_inv_def)
    have n: "nat ?rem = nat (b_limit b) - nat (b_position b)" "nat (b_limit b + 1) = Suc (nat (b_limit b))"
      using b by (simp_all add: nat_diff_distrib)
    have "\<exists>r. drop (nat (b_position b)) ?d = take (nat ?rem) ?s @ 0 # r"
      unfolding n using b by (intro drop_terminated) auto
    then have "c_string ?d (b_position b) = take (nat ?rem) ?s"
      using True to_zero_take [of "nat ?rem" ?s] by (auto simp: c_string_def)
    moreover have "take (nat ?rem) ?s = take (nat ?rem) (to_zero ?s)"
      using True take_to_zero [of "nat ?rem" ?s] by (simp add: nat_le_iff)
    moreover have "take (nat (b_limit b)) ?d = take (nat (b_limit b)) (b_data b)"
      using b by (simp add: take_update_cancel)
    ultimately show ?thesis
      using True i w p inv' b c_strlen_ok [OF z]
      by (auto simp: BufferGetString_def same_frame_def Let_def min_def)
  qed
qed

fun put_strings :: "byte list list \<Rightarrow> buffer \<Rightarrow> (bool \<times> buffer) res" where
  "put_strings [] b = Inr (True, b)"
| "put_strings (x # xs) b =
     bnd (BufferPutString b (x @ [0])) (\<lambda>(e, b').
     if e = None then put_strings xs b' else Inr (False, b'))"

fun get_strings :: "nat \<Rightarrow> buffer \<Rightarrow> (byte list list \<times> buffer) res" where
  "get_strings 0 b = Inr ([], b)"
| "get_strings (Suc n) b =
     bnd (BufferGetString b) (\<lambda>(i, b1).
     bnd (get_strings n b1) (\<lambda>(xs, b2). Inr (c_string (b_data b1) i # xs, b2)))"

definition strings_bytes :: "byte list list \<Rightarrow> byte list" where
  "strings_bytes ss = concat (map (\<lambda>s. s @ [0]) ss)"

lemma strings_bytes_simps [simp]:
  "strings_bytes [] = []" "strings_bytes (s # ss) = s @ 0 # strings_bytes ss"
  by (simp_all add: strings_bytes_def)

lemma put_strings_seq:
  assumes "buf_inv b" and "\<forall>s \<in> set ss. 0 \<notin> set s"
    and "b_position b + int (length (strings_bytes ss)) \<le> b_limit b"
  shows "returns (put_strings ss b) (\<lambda>(r, b'). r \<and> buf_inv b' \<and> same_frame b b' \<and>
    b_position b' = b_position b + int (length (strings_bytes ss)) \<and>
    take (nat (b_position b')) (b_data b') = take (nat (b_position b)) (b_data b) @ strings_bytes ss)"
  using assms
proof (induction ss arbitrary: b)
  case Nil
  then show ?case by (simp add: same_frame_def)
next
  case (Cons s ss)
  note b = buf_invD [OF Cons.prems(1)]
  have z: "to_zero (s @ [0]) = s" using Cons.prems(2) by (simp add: to_zero_append)
  have fit: "b_position b + int (length s) < b_limit b" using Cons.prems(3) by simp
  then have "int (length (s @ [0])) \<le> INT_MAX" using b by simp
  from BufferPutString_seq [OF Cons.prems(1) _ this] z fit
  have "returns (BufferPutString b (s @ [0])) (\<lambda>(e, b'). e = None \<and> buf_inv b' \<and> same_frame b b' \<and>
      b_position b' = b_position b + int (length s) + 1 \<and>
      take (nat (b_position b')) (b_data b') = take (nat (b_position b)) (b_data b) @ s @ [0])"
    by simp
  then show ?case
    unfolding put_strings.simps
  proof (rule returns_bndI, clarify)
    fix e b'
    assume b': "buf_inv b'" "same_frame b b'" "b_position b' = b_position b + int (length s) + 1"
      "take (nat (b_position b')) (b_data b') = take (nat (b_position b)) (b_data b) @ s @ [0]"
    from b' Cons.IH [of b'] Cons.prems(2,3)
    show "returns (if None = None then put_strings ss b' else Inr (False, b')) (\<lambda>(r, b').
        r \<and> buf_inv b' \<and> same_frame b b' \<and>
        b_position b' = b_position b + int (length (strings_bytes (s # ss))) \<and>
        take (nat (b_position b')) (b_data b') = take (nat (b_position b)) (b_data b) @ strings_bytes (s # ss))"
      by (auto simp: same_frame_def elim!: returns_mono)
  qed
qed

lemma get_strings_seq:
  assumes "buf_inv b" and "\<forall>s \<in> set ss. 0 \<notin> set s"
    and "take (nat (b_limit b)) (b_data b) = pre @ strings_bytes ss" and "b_position b = int (length pre)"
  shows "returns (get_strings (length ss) b) (\<lambda>(out, b'). out = ss \<and> buf_inv b' \<and> b_position b' = b_limit b')"
  using assms
proof (induction ss arbitrary: b pre)
  case Nil
  note b = buf_invD [OF Nil(1)]
  from arg_cong [OF Nil(3), of length] b Nil(4) have "b_limit b = b_position b" by simp
  with Nil show ?case by simp
next
  case (Cons s ss)
  note b = buf_invD [OF Cons.prems(1)]
  let ?p = "nat (b_position b)" and ?l = "nat (b_limit b)"
  have p: "?p = length pre" using Cons.prems(4) by simp
  have len: "?l = length pre + (length s + (1 + length (strings_bytes ss)))"
    using arg_cong [OF Cons.prems(3), of length] b by simp
  have "drop ?p (b_data b) = drop ?p (take ?l (b_data b) @ drop ?l (b_data b))" by simp
  also have "\<dots> = s @ 0 # (strings_bytes ss @ drop ?l (b_data b))"
    unfolding Cons.prems(3) p by simp
  finally have tz: "to_zero (drop ?p (b_data b)) = s"
    using Cons.prems(2) by (simp add: to_zero_append)
  have rem: "b_limit b - b_position b = int (length s + (1 + length (strings_bytes ss)))"
    using len b p Cons.prems(4) by linarith
  have "returns (BufferGetString b) (\<lambda>(i, b'). buf_inv b' \<and> same_frame b b' \<and>
      b_position b' = int (length (pre @ s @ [0])) \<and> c_string (b_data b') i = s \<and>
      take ?l (b_data b') = (pre @ s @ [0]) @ strings_bytes ss)"
    using BufferGetString_seq [OF Cons.prems(1)] Cons.prems(3,4)
    by (auto simp: tz [unfolded Cons.prems(4) nat_int] rem [unfolded Cons.prems(4)] Let_def
        elim!: returns_mono)
  then show ?case
    unfolding get_strings.simps length_Cons
  proof (rule returns_bndI)
    fix r
    assume r: "case r of (i, b') \<Rightarrow> buf_inv b' \<and> same_frame b b' \<and>
      b_position b' = int (length (pre @ s @ [0])) \<and> c_string (b_data b') i = s \<and>
      take ?l (b_data b') = (pre @ s @ [0]) @ strings_bytes ss"
    obtain i b' where r': "r = (i, b')" by (cases r)
    with r have b': "buf_inv b'" "same_frame b b'" "b_position b' = int (length (pre @ s @ [0]))"
      "c_string (b_data b') i = s" "take ?l (b_data b') = (pre @ s @ [0]) @ strings_bytes ss"
      by simp_all
    have "take (nat (b_limit b')) (b_data b') = (pre @ s @ [0]) @ strings_bytes ss"
      using b' by (simp add: same_frame_def)
    from Cons.IH [OF b'(1) _ this b'(3)] Cons.prems(2) b'(4)
    show "returns (case r of (i, b1) \<Rightarrow>
          bnd (get_strings (length ss) b1) (\<lambda>(xs, b2). Inr (c_string (b_data b1) i # xs, b2)))
        (\<lambda>(out, b2). out = s # ss \<and> buf_inv b2 \<and> b_position b2 = b_limit b2)"
      unfolding r' by (auto elim!: returns_mono)
  qed
qed

text \<open>
  Strings put into a buffer come back one by one: when the strings with their terminators fit,
  every put succeeds, and after a flip the same number of gets returns the same strings in the same
  order and uses the buffer up.
\<close>

theorem strings_roundtrip:
  assumes inv: "buf_inv b" and pos: "b_position b = 0" and z: "\<forall>s \<in> set ss. 0 \<notin> set s"
    and fit: "int (length (strings_bytes ss)) \<le> b_limit b"
  shows "returns (bnd (put_strings ss b) (\<lambda>(r, b1).
      bnd (get_strings (length ss) (BufferFlip b1)) (\<lambda>(out, b2). Inr (r, out, b2))))
    (\<lambda>(r, out, b2). r \<and> out = ss \<and> \<not> BufferHasRemaining b2)"
proof -
  have "b_position b + int (length (strings_bytes ss)) \<le> b_limit b" using pos fit by simp
  from put_strings_seq [OF inv z this] show ?thesis
  proof (rule returns_bndI, clarify)
    fix r b1
    assume b1: "r" "buf_inv b1" "b_position b1 = b_position b + int (length (strings_bytes ss))"
      "take (nat (b_position b1)) (b_data b1) = take (nat (b_position b)) (b_data b) @ strings_bytes ss"
    have "take (nat (b_limit (BufferFlip b1))) (b_data (BufferFlip b1)) = [] @ strings_bytes ss"
      "b_position (BufferFlip b1) = int (length [])"
      using b1 pos by (simp_all add: BufferFlip_def)
    from get_strings_seq [OF BufferFlip_inv [OF b1(2)] z this] b1(1)
    show "returns (bnd (get_strings (length ss) (BufferFlip b1)) (\<lambda>(out, b2). Inr (r, out, b2)))
        (\<lambda>(r, out, b2). r \<and> out = ss \<and> \<not> BufferHasRemaining b2)"
      by (auto simp: BufferHasRemaining_def elim!: returns_mono)
  qed
qed

theorem strings_roundtrip_witness:
  "returns (bnd (put_strings [[104, 105], [], [111]] small_buffer) (\<lambda>(r, b1).
      bnd (get_strings 3 (BufferFlip b1)) (\<lambda>(out, b2). Inr (r, out, b2))))
    (\<lambda>(r, out, b2). r \<and> out = [[104, 105], [], [111]])"
proof -
  have l: "length [[104, 105], [], [111 :: byte]] = 3" by simp
  have "b_position small_buffer = 0" "\<forall>s \<in> set [[104, 105], [], [111 :: byte]]. 0 \<notin> set s"
    "int (length (strings_bytes [[104, 105], [], [111 :: byte]])) \<le> b_limit small_buffer"
    by (simp_all add: small_buffer_def)
  note strings_roundtrip [OF small_buffer_inv this, unfolded l]
  then show ?thesis by (rule returns_mono) auto
qed

section \<open>Programs on a buffer\<close>

text \<open>
  A client that passes the arguments the functions are meant for: positions that are not negative,
  limits not before the position, counts that are not negative, terminated strings. \<open>buf_step\<close>
  skips an operation whose argument is outside this range.
\<close>

datatype bop =
    BPut "byte list" | BGet int | BPutString "byte list" | BGetString
  | BFlip | BReset | BPosition int | BLimit int | BCopyFrom buffer

definition bop_ok :: "buffer \<Rightarrow> bop \<Rightarrow> bool" where
  "bop_ok b op = (case op of
     BPut src \<Rightarrow> b_position b + int (length src) \<le> INT_MAX
   | BGet n \<Rightarrow> 0 \<le> n \<and> b_position b + n \<le> INT_MAX
   | BPutString src \<Rightarrow> 0 \<in> set src \<and> int (length src) \<le> INT_MAX
   | BPosition p \<Rightarrow> 0 \<le> p
   | BLimit l \<Rightarrow> b_position b \<le> l
   | BCopyFrom src \<Rightarrow> buf_inv src \<and> b_limit src - b_position src \<le> b_size b
   | _ \<Rightarrow> True)"

definition buf_step :: "bop \<Rightarrow> buffer \<Rightarrow> buffer res" where
  "buf_step op b =
     (if \<not> bop_ok b op then Inr b
      else case op of
        BPut src \<Rightarrow> bnd (BufferPut b src (int (length src))) (\<lambda>(_, b'). Inr b')
      | BGet n \<Rightarrow> bnd (BufferGet b n) (\<lambda>(_, b'). Inr b')
      | BPutString src \<Rightarrow> bnd (BufferPutString b src) (\<lambda>(_, b'). Inr b')
      | BGetString \<Rightarrow> bnd (BufferGetString b) (\<lambda>(_, b'). Inr b')
      | BFlip \<Rightarrow> Inr (BufferFlip b)
      | BReset \<Rightarrow> BufferReset b
      | BPosition p \<Rightarrow> Inr (snd (BufferPosition b p))
      | BLimit l \<Rightarrow> Inr (snd (BufferLimit b l))
      | BCopyFrom src \<Rightarrow> BufferCopy b src)"

fun buf_run :: "bop list \<Rightarrow> buffer \<Rightarrow> buffer res" where
  "buf_run [] b = Inr b"
| "buf_run (op # ops) b = bnd (buf_step op b) (buf_run ops)"

lemma BufferCopy_seq:
  assumes inv: "buf_inv b" and src: "buf_inv s" and fit: "b_limit s - b_position s \<le> b_size b"
  shows "returns (BufferCopy b s) (\<lambda>b'. buf_inv b' \<and> b_size b' = b_size b \<and> b_position b' = 0 \<and>
    b_limit b' = b_limit s - b_position s \<and>
    take (nat (b_limit b')) (b_data b') = take (nat (b_limit b')) (drop (nat (b_position s)) (b_data s)))"
proof -
  note b = buf_invD [OF inv] and s = buf_invD [OF src]
  let ?n = "b_limit s - b_position s"
  let ?bytes = "take (nat ?n) (drop (nat (b_position s)) (b_data s))"
  have n: "is_int ?n" using s by (intro is_int_bounds) auto
  have r: "mread (b_data s) (b_position s) ?n = Inr ?bytes" using s by (simp add: mread_def)
  have len: "int (length ?bytes) = ?n" using length_mread [OF r] s by simp
  show ?thesis
    unfolding BufferCopy_def
  proof (rule returns_bndI [OF BufferReset_seq [OF inv]], elim conjE)
    fix d1
    assume d1: "buf_inv d1" "b_position d1 = 0" "b_limit d1 = b_size b" "b_size d1 = b_size b"
    note i = buf_invD [OF d1(1)]
    let ?d = "take (nat 0) (b_data d1) @ ?bytes @ drop (nat 0 + length ?bytes) (b_data d1)"
    have w: "mwrite (b_data d1) 0 ?bytes = Inr ?d"
      using i d1 len fit by (intro mwrite_eq) auto
    have "drop (nat (b_size d1)) ?d = [0, 0]"
      using mwrite_reserve [OF w i(6)] i d1 len fit by simp
    moreover have "length ?d = length (b_data d1)" by (rule length_mwrite [OF w])
    ultimately have "buf_inv (d1\<lparr>b_data := ?d, b_limit := ?n\<rparr>)"
      using i d1 fit s by (simp only: buf_inv_def buffer.simps) auto
    moreover have "take (nat ?n) ?d = ?bytes" using len by simp
    ultimately show "returns (bnd (c_int ?n) (\<lambda>n.
        bnd (mread (b_data s) (b_position s) n) (\<lambda>bytes.
        bnd (mwrite (b_data d1) 0 bytes) (\<lambda>d.
        Inr (snd (BufferLimit (d1\<lparr>b_data := d\<rparr>) n))))))
      (\<lambda>b'. buf_inv b' \<and> b_size b' = b_size b \<and> b_position b' = 0 \<and> b_limit b' = ?n \<and>
        take (nat (b_limit b')) (b_data b') = take (nat (b_limit b')) (drop (nat (b_position s)) (b_data s)))"
      using n r w d1 fit by (simp add: BufferLimit_def)
  qed
qed

lemma buf_step_inv:
  assumes inv: "buf_inv b"
  shows "returns (buf_step op b) (\<lambda>b'. buf_inv b' \<and> b_size b' = b_size b)"
proof (cases "bop_ok b op")
  case False
  with inv show ?thesis by (simp add: buf_step_def)
next
  case True
  show ?thesis
  proof (cases op)
    case (BPut src)
    with True BufferPut_seq [OF inv refl, of src] inv show ?thesis
      by (auto simp: buf_step_def bop_ok_def elim!: returns_mono split: if_splits)
  next
    case (BGet n)
    with True BufferGet_seq [OF inv, of n] inv show ?thesis
      by (auto simp: buf_step_def bop_ok_def buf_inv_def elim!: returns_mono split: if_splits)
  next
    case (BPutString src)
    with True BufferPutString_seq [OF inv, of src] inv show ?thesis
      by (auto simp: buf_step_def bop_ok_def same_frame_def elim!: returns_mono split: if_splits)
  next
    case BGetString
    with BufferGetString_seq [OF inv] show ?thesis
      by (auto simp: buf_step_def bop_ok_def same_frame_def elim!: returns_mono)
  next
    case BFlip
    with inv show ?thesis by (simp add: buf_step_def bop_ok_def BufferFlip_inv) (simp add: BufferFlip_def)
  next
    case BReset
    with BufferReset_seq [OF inv] show ?thesis
      by (auto simp: buf_step_def bop_ok_def elim!: returns_mono)
  next
    case (BPosition p)
    with True inv BufferPosition_inv [OF inv, of p] show ?thesis
      by (auto simp: buf_step_def bop_ok_def) (auto simp: BufferPosition_def)
  next
    case (BLimit l)
    with True inv BufferLimit_inv [OF inv, of l] show ?thesis
      by (auto simp: buf_step_def bop_ok_def) (auto simp: BufferLimit_def)
  next
    case (BCopyFrom src)
    with True BufferCopy_seq [OF inv, of src] show ?thesis
      by (auto simp: buf_step_def bop_ok_def elim!: returns_mono)
  qed
qed

lemma buf_run_inv: "buf_inv b \<Longrightarrow> returns (buf_run ops b) (\<lambda>b'. buf_inv b' \<and> b_size b' = b_size b)"
proof (induction ops arbitrary: b)
  case Nil
  then show ?case by simp
next
  case (Cons op ops)
  from buf_step_inv [OF Cons.prems, of op] Cons.IH show ?case
    by (auto elim!: returns_mono intro: returns_mono) (fastforce elim: returns_mono)
qed

text \<open>
  C25. A buffer of any representable capacity, used by any program of puts, gets, string
  operations, flips, resets, copies and position or limit changes within their ranges, never
  accesses memory outside its array and never overflows an \<open>int\<close>, and ends with
  0 \<le> position \<le> limit \<le> capacity.
\<close>

theorem buffer_programs_memory_safe:
  assumes "0 \<le> n" and "n \<le> INT_MAX - 2"
  shows "returns (bnd (NewBuffer True True n) (\<lambda>p. bnd (deref p) (buf_run ops)))
    (\<lambda>b. 0 \<le> BufferGetPosition b \<and> BufferGetPosition b \<le> BufferGetLimit b
      \<and> BufferGetLimit b \<le> BufferGetCapacity b \<and> BufferGetCapacity b = n
      \<and> int (length (BufferGetBytes b)) = n + 2)"
proof (rule returns_bndI [OF NewBuffer_seq [OF assms]])
  fix p
  assume "if True \<and> True then \<exists>b. p = Some b \<and> buf_inv b \<and> b_size b = n \<and> b_position b = 0 \<and> b_limit b = n
      \<and> b_pool b = None \<and> b_data b = replicate (nat (n + 2)) 0 else p = None"
  then obtain b where b: "p = Some b" "buf_inv b" "b_size b = n" by auto
  from buf_run_inv [OF b(2), of ops] b show "returns (bnd (deref p) (buf_run ops))
    (\<lambda>b. 0 \<le> BufferGetPosition b \<and> BufferGetPosition b \<le> BufferGetLimit b
      \<and> BufferGetLimit b \<le> BufferGetCapacity b \<and> BufferGetCapacity b = n
      \<and> int (length (BufferGetBytes b)) = n + 2)"
    by (auto simp: BufferGetPosition_def BufferGetLimit_def BufferGetCapacity_def BufferGetBytes_def
        buf_inv_def elim!: returns_mono)
qed

theorem buffer_programs_memory_safe_witness:
  "returns (bnd (NewBuffer True True 4) (\<lambda>p. bnd (deref p)
      (buf_run [BPutString [97, 98, 99, 100, 101, 0], BPut [1, 2, 3, 4], BFlip, BGetString, BLimit 9])))
    (\<lambda>b. BufferGetPosition b \<le> BufferGetLimit b \<and> BufferGetCapacity b = 4)"
  by (rule returns_mono [OF buffer_programs_memory_safe]) (simp_all add: INT_MAX_def)

text \<open>
  The range checks of \<open>BufferPosition\<close> and \<open>BufferLimit\<close> are one-sided. A negative position is
  accepted, and the next put or get then accesses memory before the array; a limit below the
  position is accepted, and \<open>BufferPutString\<close>, whose count of free bytes has become a huge
  \<open>size_t\<close>, then writes the string beyond the limit and, where the capacity ends, beyond the array.
\<close>

theorem one_sided_checks_break_safety:
  assumes inv: "buf_inv b" and p: "- INT_MAX \<le> p" "p < 0"
    and full: "0 < b_size b" "b_position b = b_size b"
    and src: "0 \<in> set src" "2 \<le> length (to_zero src)"
  shows "fst (BufferPosition b p) \<and> BufferPut (snd (BufferPosition b p)) [x] 1 = Inl Undefined
    \<and> fst (BufferLimit b 0) \<and> BufferPutString (snd (BufferLimit b 0)) src = Inl Undefined"
proof -
  note b = buf_invD [OF inv]
  have i: "is_int (p + 1)" "is_int (- b_size b)"
    using p b full by (auto simp: is_int_def INT_MIN_def INT_MAX_def)
  have put: "BufferPut (snd (BufferPosition b p)) [x] 1 = Inl Undefined"
    using p b full i by (simp add: BufferPosition_def BufferPut_def mread_def mwrite_def when_ok_def)
  have m: "memchr_zero src (- b_size b) = Inr True"
    using to_zero_less [OF src(1)] full by (simp add: memchr_zero_def Let_def)
  have r: "mread src 0 (int (length (to_zero src)) + 1) = Inr (to_zero src @ [0])"
    using to_zero_split [OF src(1)] to_zero_less [OF src(1)] by (simp add: mread_def nat_add_distrib)
  have w: "mwrite (b_data b) (b_size b) (to_zero src @ [0]) = Inl Undefined"
    using b src(2) full by (simp add: mwrite_def when_ok_def)
  have "BufferPutString (snd (BufferLimit b 0)) src = Inl Undefined"
    using full i m r w c_strlen_ok [OF src(1)] by (simp add: BufferLimit_def BufferPutString_def)
  with put p b full show ?thesis by (simp add: BufferPosition_def BufferLimit_def)
qed

definition full_buffer :: buffer where
  "full_buffer = small_buffer\<lparr>b_position := 8\<rparr>"

theorem one_sided_checks_break_safety_witness:
  "BufferPut (snd (BufferPosition full_buffer (- 3))) [9] 1 = Inl Undefined
    \<and> BufferPutString (snd (BufferLimit full_buffer 0)) [104, 105, 33, 0] = Inl Undefined"
proof -
  have "buf_inv full_buffer"
    using small_buffer_inv by (simp add: buf_inv_def full_buffer_def small_buffer_def)
  from one_sided_checks_break_safety [OF this, of "- 3" "[104, 105, 33, 0]" 9] show ?thesis
    by (simp add: INT_MAX_def full_buffer_def small_buffer_def to_zero_def)
qed

text \<open>
  \<open>BufferCopy\<close> leaves the receiver with exactly the unread bytes of the source when they fit
  its capacity. It does not check that they do: with more than the receiver's capacity and its two
  bytes of reserve the copy runs past the receiver's array.
\<close>

theorem buffer_copy_needs_room:
  assumes "buf_inv dst" and "buf_inv src"
  shows "(b_limit src - b_position src \<le> b_size dst \<longrightarrow>
       returns (BufferCopy dst src) (\<lambda>b. BufferGetLimit b = b_limit src - b_position src \<and>
       BufferGetPosition b = 0 \<and> BufferGetCapacity b = BufferGetCapacity dst \<and>
       take (nat (BufferGetLimit b)) (BufferGetBytes b) =
         take (nat (BufferGetLimit b)) (drop (nat (b_position src)) (BufferGetBytes src))))
    \<and> (b_size dst + 2 < b_limit src - b_position src \<longrightarrow> BufferCopy dst src = Inl Undefined)"
proof (cases "b_limit src - b_position src \<le> b_size dst")
  case True
  from BufferCopy_seq [OF assms True] True show ?thesis
    by (auto simp: BufferGetPosition_def BufferGetLimit_def BufferGetCapacity_def BufferGetBytes_def
        elim!: returns_mono)
next
  case False
  note d = buf_invD [OF assms(1)] and s = buf_invD [OF assms(2)]
  let ?n = "b_limit src - b_position src"
  have "BufferCopy dst src = Inl Undefined" if big: "b_size dst + 2 < ?n"
  proof -
    obtain d1 where d1: "BufferReset dst = Inr d1" "buf_inv d1" "b_size d1 = b_size dst"
      using BufferReset_seq [OF assms(1)] by (auto elim!: returnsE)
    have n: "is_int ?n" using s by (intro is_int_bounds) auto
    let ?bytes = "take (nat ?n) (drop (nat (b_position src)) (b_data src))"
    have r: "mread (b_data src) (b_position src) ?n = Inr ?bytes" using s by (simp add: mread_def)
    have "int (length ?bytes) = ?n" using length_mread [OF r] s by simp
    then have "mwrite (b_data d1) 0 ?bytes = Inl Undefined"
      using big buf_invD(4) [OF d1(2)] d1(3) by (simp add: mwrite_def when_ok_def)
    with d1(1) n r show ?thesis by (simp add: BufferCopy_def)
  qed
  with False show ?thesis by auto
qed

theorem buffer_copy_needs_room_witness:
  "returns (BufferCopy small_buffer (small_buffer\<lparr>b_data := 5 # replicate 9 0\<rparr>))
     (\<lambda>b. BufferGetLimit b = 8)"
proof -
  let ?s = "small_buffer\<lparr>b_data := 5 # replicate 9 0\<rparr>"
  have "buf_inv ?s"
    using small_buffer_inv by (simp add: buf_inv_def small_buffer_def numeral_eq_Suc)
  from buffer_copy_needs_room [OF small_buffer_inv this] show ?thesis
    by (auto simp: small_buffer_def elim!: returns_mono)
qed

end
