(* ===== verification/Events.thy ===== *)
theory Events
  imports Lists
begin

text \<open>
  The events of a connection and the event queue of \<open>src/event.c\<close>: one list of handlers per event.
  The callbacks are code outside the module, so they are a parameter: a function that acts on the
  world \<open>'w\<close> in which the queue lives. A callback may add and remove handlers and even free the
  queue; the loop reads the \<open>next\<close> pointer after the callback has returned.
\<close>

section \<open>Events and handlers\<close>

datatype event =
    INIT_EVENT | CONNECTING_EVENT | CONNECTED_EVENT | READ_EVENT | INBOUND_DATA_EVENT
  | WRITE_EVENT | OUTBOUND_DATA_EVENT | PENDING_CLOSE_EVENT | CLOSE_EVENT | FREE_EVENT

definition all_events :: "event list" where
  "all_events =
     [INIT_EVENT, CONNECTING_EVENT, CONNECTED_EVENT, READ_EVENT, INBOUND_DATA_EVENT,
      WRITE_EVENT, OUTBOUND_DATA_EVENT, PENDING_CLOSE_EVENT, CLOSE_EVENT, FREE_EVENT]"

lemma all_events [simp]: "e \<in> set all_events"
  by (cases e) (simp_all add: all_events_def)

lemma distinct_all_events [simp]: "distinct all_events"
  by (simp add: all_events_def)

record ('c, 'd) handler =
  h_event :: event
  h_once :: bool
  h_callback :: 'c
  h_data :: "'d option"

record ('c, 'd) equeue =
  eq_heap :: "('c, 'd) handler nheap"
  eq_tick :: nat
  eq_lists :: "event \<Rightarrow> lst"

definition NewEventQueue :: "bool \<Rightarrow> ('c, 'd) equeue option" where
  "NewEventQueue mem_ok =
     (if mem_ok then Some \<lparr>eq_heap = Map.empty, eq_tick = 0, eq_lists = (\<lambda>_. LIST_INITIALIZER)\<rparr> else None)"

definition NewEventHandler :: "bool \<Rightarrow> event \<Rightarrow> 'c \<Rightarrow> 'd option \<Rightarrow> bool \<Rightarrow> ('c, 'd) handler option" where
  "NewEventHandler mem_ok ev cb data once =
     (if mem_ok then Some \<lparr>h_event = ev, h_once = once, h_callback = cb, h_data = data\<rparr> else None)"

definition EventHandlerAdd ::
  "(nat \<Rightarrow> bool) \<Rightarrow> ('c, 'd) equeue \<Rightarrow> ('c, 'd) handler option \<Rightarrow> ('c, 'd) equeue res" where
  "EventHandlerAdd ok q hp =
     bnd (deref hp) (\<lambda>hn.
     case NewNode ok (eq_tick q) (eq_heap q) (Some hn) of (n, t', h1) \<Rightarrow>
     bnd (ListAddLast h1 (eq_lists q (h_event hn)) n) (\<lambda>(h2, l).
     Inr (q\<lparr>eq_heap := h2, eq_tick := t', eq_lists := (eq_lists q)(h_event hn := l)\<rparr>)))"

text \<open>Unlinking a node and freeing it with its handler.\<close>

definition unlink :: "('c, 'd) equeue \<Rightarrow> event \<Rightarrow> nref \<Rightarrow> ('c, 'd) equeue res" where
  "unlink q ev n =
     bnd (ListRemove (eq_heap q) (eq_lists q ev) n) (\<lambda>(h1, l).
     bnd (FreeNode h1 (Some n)) (\<lambda>(_, h2).
     Inr (q\<lparr>eq_heap := h2, eq_lists := (eq_lists q)(ev := l)\<rparr>)))"

text \<open>
  \<open>get\<close> and \<open>put\<close> access the queue in the world; \<open>get w = None\<close> once it has been freed. The field
  \<open>once\<close> is read through the handler after the callback has returned.
\<close>

fun handle_loop ::
  "('w \<Rightarrow> ('c, 'd) equeue option) \<Rightarrow> (('c, 'd) equeue \<Rightarrow> 'w \<Rightarrow> 'w) \<Rightarrow>
   ('c \<Rightarrow> event \<Rightarrow> 'd option \<Rightarrow> 'w \<Rightarrow> 'w res) \<Rightarrow> nat \<Rightarrow> event \<Rightarrow> nref option \<Rightarrow> 'w \<Rightarrow> 'w res" where
  "handle_loop get put cb 0 ev i w = Inl OutOfFuel"
| "handle_loop get put cb (Suc f) ev i w =
     (case i of
        None \<Rightarrow> Inr w
      | Some n \<Rightarrow>
          bnd (deref (get w)) (\<lambda>q.
          bnd (get_data (eq_heap q) n) (\<lambda>d.
          bnd (deref d) (\<lambda>hn.
          bnd (cb (h_callback hn) ev (h_data hn) w) (\<lambda>w1.
          bnd (deref (get w1)) (\<lambda>q1.
          bnd (get_data (eq_heap q1) n) (\<lambda>d1.
          bnd (deref d1) (\<lambda>hd1.
          bnd (get_next (eq_heap q1) n) (\<lambda>nx.
          if h_once hd1
          then bnd (unlink q1 ev n) (\<lambda>q2. handle_loop get put cb f ev nx (put q2 w1))
          else handle_loop get put cb f ev nx w1)))))))))"

definition EventHandle ::
  "('w \<Rightarrow> ('c, 'd) equeue option) \<Rightarrow> (('c, 'd) equeue \<Rightarrow> 'w \<Rightarrow> 'w) \<Rightarrow>
   ('c \<Rightarrow> event \<Rightarrow> 'd option \<Rightarrow> 'w \<Rightarrow> 'w res) \<Rightarrow> nat \<Rightarrow> event \<Rightarrow> 'w \<Rightarrow> 'w res" where
  "EventHandle get put cb f ev w =
     bnd (deref (get w)) (\<lambda>q. handle_loop get put cb f ev (lfirst (eq_lists q ev)) w)"

fun remove_handlers ::
  "'c \<Rightarrow> nat \<Rightarrow> event \<Rightarrow> nref option \<Rightarrow> ('c, 'd) equeue \<Rightarrow> ('c, 'd) equeue res" where
  "remove_handlers cb 0 ev i q = Inl OutOfFuel"
| "remove_handlers cb (Suc f) ev i q =
     (case i of
        None \<Rightarrow> Inr q
      | Some n \<Rightarrow>
          bnd (get_data (eq_heap q) n) (\<lambda>d.
          bnd (deref d) (\<lambda>hn.
          bnd (get_next (eq_heap q) n) (\<lambda>nx.
          if h_callback hn = cb
          then bnd (unlink q ev n) (\<lambda>q1. remove_handlers cb f ev nx q1)
          else remove_handlers cb f ev nx q))))"

definition EventHandlerRemove :: "('c, 'd) equeue \<Rightarrow> event \<Rightarrow> 'c \<Rightarrow> ('c, 'd) equeue res" where
  "EventHandlerRemove q ev cb = remove_handlers cb (Suc (eq_tick q)) ev (lfirst (eq_lists q ev)) q"

text \<open>
  Copying appends to the destination the handlers of the source, event by event; \<open>data\<close> replaces
  the handlers' data unless it is NULL. The two queues own different nodes.
\<close>

fun copy_list ::
  "(nat \<Rightarrow> bool) \<Rightarrow> 'd option \<Rightarrow> nat \<Rightarrow> event \<Rightarrow> ('c, 'd) equeue \<Rightarrow> nref option \<Rightarrow> ('c, 'd) equeue \<Rightarrow>
   ('c, 'd) equeue res" where
  "copy_list ok data 0 ev src j dst = Inl OutOfFuel"
| "copy_list ok data (Suc f) ev src j dst =
     (case j of
        None \<Rightarrow> Inr dst
      | Some n \<Rightarrow>
          bnd (get_data (eq_heap src) n) (\<lambda>d.
          bnd (deref d) (\<lambda>hn.
          let new = NewEventHandler (ok (eq_tick dst)) (h_event hn) (h_callback hn)
                      (if data \<noteq> None then data else h_data hn) (h_once hn) in
          case NewNode ok (Suc (eq_tick dst)) (eq_heap dst) new of (p, t', h1) \<Rightarrow>
          bnd (ListAddLast h1 (eq_lists dst ev) p) (\<lambda>(h2, l).
          bnd (get_next (eq_heap src) n) (\<lambda>nx.
          copy_list ok data f ev src nx
            (dst\<lparr>eq_heap := h2, eq_tick := t', eq_lists := (eq_lists dst)(ev := l)\<rparr>))))))"

fun copy_events ::
  "(nat \<Rightarrow> bool) \<Rightarrow> 'd option \<Rightarrow> event list \<Rightarrow> ('c, 'd) equeue \<Rightarrow> ('c, 'd) equeue \<Rightarrow> ('c, 'd) equeue res" where
  "copy_events ok data [] src dst = Inr dst"
| "copy_events ok data (ev # evs) src dst =
     bnd (copy_list ok data (Suc (eq_tick src)) ev src (lfirst (eq_lists src ev)) dst)
       (\<lambda>dst'. copy_events ok data evs src dst')"

definition CopyEventQueue ::
  "(nat \<Rightarrow> bool) \<Rightarrow> ('c, 'd) equeue \<Rightarrow> ('c, 'd) equeue \<Rightarrow> 'd option \<Rightarrow> ('c, 'd) equeue res" where
  "CopyEventQueue ok dst src data = copy_events ok data all_events src dst"

text \<open>\<open>while ((j = ListPop(l)) != NULL)\<close>: free the handler and the node.\<close>

fun free_handlers :: "nat \<Rightarrow> event \<Rightarrow> ('c, 'd) equeue \<Rightarrow> ('c, 'd) equeue res" where
  "free_handlers 0 ev q = Inl OutOfFuel"
| "free_handlers (Suc f) ev q =
     bnd (ListPop (eq_heap q) (eq_lists q ev)) (\<lambda>(p, h1, l).
     case p of
       None \<Rightarrow> Inr (q\<lparr>eq_heap := h1, eq_lists := (eq_lists q)(ev := l)\<rparr>)
     | Some n \<Rightarrow>
         bnd (get_data h1 n) (\<lambda>_.
         bnd (FreeNode h1 (Some n)) (\<lambda>(_, h2).
         free_handlers f ev (q\<lparr>eq_heap := h2, eq_lists := (eq_lists q)(ev := l)\<rparr>))))"

fun free_events :: "event list \<Rightarrow> ('c, 'd) equeue \<Rightarrow> ('c, 'd) equeue res" where
  "free_events [] q = Inr q"
| "free_events (ev # evs) q = bnd (free_handlers (Suc (eq_tick q)) ev q) (free_events evs)"

text \<open>The second component is what is left of the nodes.\<close>

definition FreeEventQueue ::
  "('c, 'd) equeue option \<Rightarrow> (('c, 'd) equeue option \<times> ('c, 'd) handler nheap) res" where
  "FreeEventQueue pq =
     (case pq of
        None \<Rightarrow> Inr (None, Map.empty)
      | Some q \<Rightarrow> bnd (free_events all_events q) (\<lambda>q'. Inr (None, eq_heap q')))"

section \<open>Well-formed event queues\<close>

definition eparts ::
  "'h nheap \<Rightarrow> (event \<Rightarrow> lst) \<Rightarrow> (event \<Rightarrow> nref list) \<Rightarrow> nref set \<Rightarrow> bool" where
  "eparts h ls ns X \<longleftrightarrow>
     (\<forall>e. dlist h (ls e) (ns e)) \<and> (\<forall>e e'. e \<noteq> e' \<longrightarrow> set (ns e) \<inter> set (ns e') = {}) \<and>
     (\<forall>e. X \<inter> set (ns e) = {}) \<and> dom h = (\<Union>e. set (ns e)) \<union> X \<and> (\<forall>n \<in> dom h. data_at h n \<noteq> None)"

lemma eparts_dlist: "eparts h ls ns X \<Longrightarrow> dlist h (ls e) (ns e)"
  by (simp add: eparts_def)

lemma eparts_node:
  "eparts h ls ns X \<Longrightarrow> n \<in> set (ns e) \<union> X \<Longrightarrow> \<exists>c d. h n = Some c \<and> ndata c = Some d \<and> data_at h n = Some d"
proof -
  assume p: "eparts h ls ns X" and n: "n \<in> set (ns e) \<union> X"
  then have "n \<in> dom h" by (auto simp: eparts_def)
  moreover from p this have "data_at h n \<noteq> None" by (simp add: eparts_def)
  ultimately show ?thesis by (auto simp: data_at_def)
qed

lemma eparts_dom: "eparts h ls ns X \<Longrightarrow> dom h = {n. data_at h n \<noteq> None}"
  by (auto simp: eparts_def) (auto simp: data_at_def split: option.splits)

lemma eparts_out: "eparts h ls ns X \<Longrightarrow> n \<in> X \<Longrightarrow> n \<notin> set (ns e)"
  by (auto simp: eparts_def)

lemma eparts_others:
  assumes "eparts h ls ns X" and "untouched h h' (set (ns e) \<union> X)" and "e' \<noteq> e"
  shows "dlist h' (ls e') (ns e')"
  using assms(1,2)
  by (intro dlist_untouched [OF eparts_dlist [OF assms(1)] assms(2)]) (use assms in \<open>auto simp: eparts_def\<close>)

lemma eparts_change:
  assumes p: "eparts h ls ns X" and u: "untouched h h' (set (ns e) \<union> X)"
    and d: "dlist h' l ms" and s: "set ms \<union> Y = set (ns e) \<union> X" "Y \<inter> set ms = {}"
  shows "eparts h' (ls(e := l)) (ns(e := ms)) Y \<and> data_at h' = data_at h"
proof -
  have dis: "set (ns e') \<inter> set ms = {}" "Y \<inter> set (ns e') = {}" if "e' \<noteq> e" for e'
  proof -
    have "set (ns e') \<inter> (set ms \<union> Y) = {}"
      using p that unfolding s(1) by (auto simp: eparts_def)
    then show "set (ns e') \<inter> set ms = {}" "Y \<inter> set (ns e') = {}" by auto
  qed
  have 1: "\<forall>a b. a \<noteq> b \<longrightarrow> set ((ns(e := ms)) a) \<inter> set ((ns(e := ms)) b) = {}"
    using p dis(1) by (simp add: eparts_def Int_commute)
  have 2: "\<forall>a. Y \<inter> set ((ns(e := ms)) a) = {}"
    using dis(2) s(2) by simp
  have "(\<Union>e'. set ((ns(e := ms)) e')) = (\<Union>e' \<in> - {e}. set (ns e')) \<union> set ms"
    by (auto split: if_splits)
  moreover have "(\<Union>e'. set (ns e')) = (\<Union>e' \<in> - {e}. set (ns e')) \<union> set (ns e)" by auto
  ultimately have 3: "(\<Union>e'. set ((ns(e := ms)) e')) \<union> Y = (\<Union>e'. set (ns e')) \<union> X"
    using s(1) by (simp add: Un_assoc)
  have 4: "\<forall>e'. dlist h' ((ls(e := l)) e') ((ns(e := ms)) e')"
    using d eparts_others [OF p u] by auto
  show ?thesis
    using p untouched_dom [OF u] data_at_untouched [OF u] 1 2 3 4 by (simp only: eparts_def) simp
qed

lemma eparts_remove:
  assumes p: "eparts h ls ns {}" and n: "ns e = as @ n # bs"
  shows "returns (ListRemove h (ls e) n) (\<lambda>(h', l').
    eparts h' (ls(e := l')) (ns(e := as @ bs)) {n} \<and> data_at h' = data_at h)"
proof -
  from eparts_dlist [OF p, of e] n have d: "dlist h (ls e) (as @ n # bs)" by simp
  then have "n \<notin> set (as @ bs)" by (auto simp: dlist_def)
  then have x: "eparts h' (ls(e := l')) (ns(e := as @ bs)) {n} \<and> data_at h' = data_at h"
    if "untouched h h' (set (as @ n # bs))" "dlist h' l' (as @ bs)" for h' l'
    using that n by (intro eparts_change [OF p]) auto
  show ?thesis
    by (rule returns_mono [OF ListRemove_seq [OF d]]) (use x in auto)
qed

lemma eparts_add:
  assumes p: "eparts h ls ns {n}"
  shows "returns (ListAddLast h (ls e) (Some n)) (\<lambda>(h', l').
    eparts h' (ls(e := l')) (ns(e := ns e @ [n])) {} \<and> data_at h' = data_at h)"
proof -
  obtain c d where c: "h n = Some c" "ndata c = Some d" using eparts_node [OF p, of n e] by auto
  have "n \<notin> set (ns e)" using p by (auto simp: eparts_def)
  with ListAddLast_seq [OF eparts_dlist [OF p], of n c e] c have r: "returns (ListAddLast h (ls e) (Some n)) (\<lambda>(h', l').
      dlist h' l' (ns e @ [n]) \<and> untouched h h' (insert n (set (ns e))))" by simp
  have x: "eparts h' (ls(e := l')) (ns(e := ns e @ [n])) {} \<and> data_at h' = data_at h"
    if "untouched h h' (insert n (set (ns e)))" "dlist h' l' (ns e @ [n])" for h' l'
    using that by (intro eparts_change [OF p]) auto
  show ?thesis
    by (rule returns_mono [OF r]) (use x in auto)
qed

lemma eparts_drop:
  assumes "eparts h ls ns {n}"
  shows "eparts (h(n := None)) ls ns {}"
  using assms by (auto simp: eparts_def dlist_upd data_at_upd)

lemma eparts_new:
  assumes "eparts h ls ns {}" and "n \<notin> dom h" and "ndata c \<noteq> None"
  shows "eparts (h(n \<mapsto> c)) ls ns {n}"
proof -
  have "n \<notin> set (ns e)" for e using assms(1,2) by (auto simp: eparts_def)
  with assms show ?thesis by (auto simp: eparts_def dlist_upd data_at_upd)
qed

definition eq_nodes :: "('c, 'd) equeue \<Rightarrow> (event \<Rightarrow> nref list) \<Rightarrow> bool" where
  "eq_nodes q ns \<longleftrightarrow> eparts (eq_heap q) (eq_lists q) ns {} \<and> dom (eq_heap q) \<subseteq> {..<eq_tick q} \<and>
     (\<forall>e. \<forall>n \<in> set (ns e). \<forall>hn. data_at (eq_heap q) n = Some hn \<longrightarrow> h_event hn = e)"

definition eq_inv :: "('c, 'd) equeue \<Rightarrow> bool" where
  "eq_inv q \<longleftrightarrow> (\<exists>ns. eq_nodes q ns)"

definition handler_at :: "('c, 'd) equeue \<Rightarrow> nref \<Rightarrow> ('c, 'd) handler" where
  "handler_at q n = the (data_at (eq_heap q) n)"

definition handlers :: "('c, 'd) equeue \<Rightarrow> event \<Rightarrow> ('c, 'd) handler list" where
  "handlers q e = map (handler_at q) (walk (eq_tick q) (eq_heap q) (lfirst (eq_lists q e)))"

lemma eq_nodes_in:
  assumes "eq_nodes q ns" and "n \<in> set (ns e)"
  shows "n < eq_tick q" "\<exists>c. eq_heap q n = Some c \<and> ndata c = Some (handler_at q n)"
    "h_event (handler_at q n) = e"
proof -
  have p: "eparts (eq_heap q) (eq_lists q) ns {}" using assms(1) by (simp add: eq_nodes_def)
  from eparts_node [OF p, of n e] assms(2) obtain c d where
    c: "eq_heap q n = Some c" "ndata c = Some d" "data_at (eq_heap q) n = Some d" by auto
  with assms show "n < eq_tick q" "\<exists>c. eq_heap q n = Some c \<and> ndata c = Some (handler_at q n)"
    "h_event (handler_at q n) = e"
    by (auto simp: eq_nodes_def handler_at_def)
qed

lemma eq_nodes_length: "eq_nodes q ns \<Longrightarrow> length (ns e) \<le> eq_tick q"
proof -
  assume n: "eq_nodes q ns"
  have "distinct (ns e)" using n by (simp add: eq_nodes_def eparts_def dlist_def)
  then show ?thesis
    using eq_nodes_in(1) [OF n] by (intro distinct_length_le_bound) auto
qed

lemma eq_nodes_handlers: "eq_nodes q ns \<Longrightarrow> handlers q e = map (handler_at q) (ns e)"
proof -
  assume n: "eq_nodes q ns"
  then have "dlist (eq_heap q) (eq_lists q e) (ns e)" by (simp add: eq_nodes_def eparts_def)
  from walk_dlist [OF this eq_nodes_length [OF n]] show ?thesis by (simp add: handlers_def)
qed

lemma eq_nodes_read:
  assumes "eq_nodes q ns" and "ns e = as @ n # bs"
  shows "get_data (eq_heap q) n = Inr (Some (handler_at q n))" "get_next (eq_heap q) n = Inr (hd_opt bs)"
    "h_event (handler_at q n) = e"
proof -
  have n: "n \<in> set (ns e)" using assms(2) by simp
  from eq_nodes_in [OF assms(1) n] show "get_data (eq_heap q) n = Inr (Some (handler_at q n))"
    "h_event (handler_at q n) = e"
    by (auto simp: get_data_def)
  have "dlist (eq_heap q) (eq_lists q e) (as @ n # bs)"
    using assms by (metis eq_nodes_def eparts_def)
  then show "get_next (eq_heap q) n = Inr (hd_opt bs)" by (rule dlist_get_next)
qed

lemma unlink_seq:
  assumes n: "eq_nodes q ns" and e: "ns e = as @ n # bs"
  shows "returns (unlink q e n) (\<lambda>q'. eq_nodes q' (ns(e := as @ bs)) \<and> eq_tick q' = eq_tick q \<and>
    (\<forall>m. m \<noteq> n \<longrightarrow> handler_at q' m = handler_at q m))"
proof -
  have p: "eparts (eq_heap q) (eq_lists q) ns {}" using n by (simp add: eq_nodes_def)
  show ?thesis
    unfolding unlink_def
  proof (rule returns_bndI [OF eparts_remove [OF p e]], clarify)
    fix h1 l
    assume p1: "eparts h1 ((eq_lists q)(e := l)) (ns(e := as @ bs)) {n}" and d: "data_at h1 = data_at (eq_heap q)"
    let ?q = "q\<lparr>eq_heap := h1(n := None), eq_lists := (eq_lists q)(e := l)\<rparr>"
    from eparts_node [OF p1, of n] have free: "FreeNode h1 (Some n) = Inr (None, h1(n := None))"
      by (auto simp: FreeNode_def)
    have "dom h1 = dom (eq_heap q)" using eparts_dom [OF p] eparts_dom [OF p1] d by simp
    moreover have "n \<notin> set as \<union> set bs" using eparts_out [OF p1, of n e] by simp
    moreover have "set ((ns(e := as @ bs)) e') \<subseteq> set (ns e')" for e' using e by auto
    then have "\<forall>e'. \<forall>m \<in> set ((ns(e := as @ bs)) e'). \<forall>hn. data_at (eq_heap q) m = Some hn \<longrightarrow> h_event hn = e'"
      using n unfolding eq_nodes_def by blast
    ultimately have "eq_nodes ?q (ns(e := as @ bs))"
      using eparts_drop [OF p1] n d unfolding eq_nodes_def by (simp add: data_at_upd) blast
    moreover have "\<forall>m. m \<noteq> n \<longrightarrow> handler_at ?q m = handler_at q m"
      by (simp add: handler_at_def data_at_upd d)
    ultimately show "returns (bnd (FreeNode h1 (Some n)) (\<lambda>(_, h2).
          Inr (q\<lparr>eq_heap := h2, eq_lists := (eq_lists q)(e := l)\<rparr>)))
        (\<lambda>q'. eq_nodes q' (ns(e := as @ bs)) \<and> eq_tick q' = eq_tick q \<and>
          (\<forall>m. m \<noteq> n \<longrightarrow> handler_at q' m = handler_at q m))"
      by (simp add: free)
  qed
qed

section \<open>Handling an event\<close>

fun call_all ::
  "('c \<Rightarrow> event \<Rightarrow> 'd option \<Rightarrow> 'w \<Rightarrow> 'w res) \<Rightarrow> event \<Rightarrow> ('c, 'd) handler list \<Rightarrow> 'w \<Rightarrow> 'w res" where
  "call_all cb ev [] w = Inr w"
| "call_all cb ev (h # hs) w = bnd (cb (h_callback h) ev (h_data h) w) (call_all cb ev hs)"

text \<open>
  What the loop needs of the world: the queue can be read and replaced, and callbacks neither change
  the queue nor depend on its nodes.
\<close>

locale quiet_world =
  fixes get :: "'w \<Rightarrow> ('c, 'd) equeue option"
    and put :: "('c, 'd) equeue \<Rightarrow> 'w \<Rightarrow> 'w"
    and cb :: "'c \<Rightarrow> event \<Rightarrow> 'd option \<Rightarrow> 'w \<Rightarrow> 'w res"
  assumes get_put: "get w \<noteq> None \<Longrightarrow> get (put q w) = Some q"
    and put_get: "get w = Some q \<Longrightarrow> put q w = w"
    and put_put: "get w \<noteq> None \<Longrightarrow> put q (put q' w) = put q w"
    and cb_get: "cb c e d w = Inr w' \<Longrightarrow> get w' = get w"
    and cb_put: "get w \<noteq> None \<Longrightarrow> cb c e d (put q w) = bnd (cb c e d w) (\<lambda>w'. Inr (put q w'))"
begin

lemma call_all_get: "call_all cb ev hs w = Inr w' \<Longrightarrow> get w' = get w"
  by (induction hs arbitrary: w) (auto simp: bnd_eq_Inr dest: cb_get)

lemma call_all_put:
  "get w \<noteq> None \<Longrightarrow> call_all cb ev hs (put q w) = bnd (call_all cb ev hs w) (\<lambda>w'. Inr (put q w'))"
proof (induction hs arbitrary: w)
  case Nil
  then show ?case by simp
next
  case (Cons h hs)
  show ?case
  proof (cases "cb (h_callback h) ev (h_data h) w")
    case (Inl e)
    with Cons.prems show ?thesis by (simp add: cb_put)
  next
    case (Inr w1)
    from cb_get [OF Inr] Cons.prems have "get w1 \<noteq> None" by simp
    from Cons.IH [OF this] Inr Cons.prems show ?thesis by (simp add: cb_put)
  qed
qed

definition handled :: "event \<Rightarrow> ('c, 'd) equeue \<Rightarrow> ('c, 'd) handler list \<Rightarrow> 'w \<Rightarrow> 'w \<Rightarrow> bool" where
  "handled ev q rest w1 w2 \<longleftrightarrow> (\<exists>q' ns'. w2 = put q' w1 \<and> eq_nodes q' ns' \<and>
     (\<forall>e. map (handler_at q') (ns' e) = (if e = ev then rest else handlers q e)))"

lemma handled_put:
  assumes "handled ev q1 rest (put q1 w1) w2" and "get w1 \<noteq> None"
    and "\<And>e. e \<noteq> ev \<Longrightarrow> handlers q1 e = handlers q e"
  shows "handled ev q rest w1 w2"
proof -
  from assms(1) obtain q' ns' where "w2 = put q' (put q1 w1)" "eq_nodes q' ns'"
    "\<forall>e. map (handler_at q') (ns' e) = (if e = ev then rest else handlers q1 e)"
    by (auto simp: handled_def)
  with assms(2,3) put_put [OF assms(2)] show ?thesis
    unfolding handled_def by (intro exI [of _ q'] exI [of _ ns']) auto
qed

lemma handle_loop_all:
  "eq_nodes q ns \<Longrightarrow> ns ev = as @ bs \<Longrightarrow> get w = Some q \<Longrightarrow> length bs < f \<Longrightarrow>
   refines (handle_loop get put cb f ev (hd_opt bs) w) (call_all cb ev (map (handler_at q) bs) w)
     (handled ev q (map (handler_at q) as @ [h\<leftarrow>map (handler_at q) bs. \<not> h_once h]))"
proof (induction bs arbitrary: q ns as w f)
  case Nil
  then obtain f' where "f = Suc f'" by (cases f) auto
  with Nil show ?case
    by (auto simp: handled_def put_get eq_nodes_handlers intro!: exI [of _ q] exI [of _ ns])
next
  case (Cons n bs)
  then obtain f' where f: "f = Suc f'" "length bs < f'" by (cases f) auto
  let ?h = "handler_at q n"
  note rd = eq_nodes_read [OF Cons.prems(1,2)]
  show ?case
  proof (cases "cb (h_callback ?h) ev (h_data ?h) w")
    case (Inl e)
    with Cons.prems(3) rd show ?thesis by (simp add: f(1))
  next
    case (Inr w1)
    have g: "get w1 = Some q" using cb_get [OF Inr] Cons.prems(3) by simp
    show ?thesis
    proof (cases "h_once ?h")
      case False
      have "ns ev = (as @ [n]) @ bs" using Cons.prems(2) by simp
      from Cons.IH [OF Cons.prems(1) this g f(2)]
      show ?thesis using Inr g rd Cons.prems(3) False by (simp add: f(1))
    next
      case True
      obtain q1 where q1: "unlink q ev n = Inr q1" "eq_nodes q1 (ns(ev := as @ bs))"
        "\<forall>m. m \<noteq> n \<longrightarrow> handler_at q1 m = handler_at q m"
        using unlink_seq [OF Cons.prems(1,2)] by (auto elim!: returnsE)
      have g1: "get (put q1 w1) = Some q1" using g by (intro get_put) simp
      have "distinct (as @ n # bs)"
        using Cons.prems(1,2) by (metis eq_nodes_def eparts_def dlist_def)
      then have m: "map (handler_at q1) as = map (handler_at q) as" "map (handler_at q1) bs = map (handler_at q) bs"
        using q1(3) by auto
      have others: "handlers q1 e = handlers q e" if "e \<noteq> ev" for e
      proof -
        have "n \<notin> set (ns e)" using eq_nodes_in(3) [OF Cons.prems(1), of n e] rd(3) that by auto
        then have "map (handler_at q1) (ns e) = map (handler_at q) (ns e)" using q1(3) by auto
        with that eq_nodes_handlers [OF q1(2), of e] eq_nodes_handlers [OF Cons.prems(1), of e]
        show ?thesis by simp
      qed
      have "(ns(ev := as @ bs)) ev = as @ bs" by simp
      from Cons.IH [OF q1(2) this g1 f(2)]
      have IH: "refines (handle_loop get put cb f' ev (hd_opt bs) (put q1 w1))
          (bnd (call_all cb ev (map (handler_at q) bs) w1) (\<lambda>w'. Inr (put q1 w')))
          (handled ev q1 (map (handler_at q) as @ [h\<leftarrow>map (handler_at q) bs. \<not> h_once h]))"
        using g by (simp add: call_all_put m)
      have r: "handle_loop get put cb f ev (hd_opt (n # bs)) w = handle_loop get put cb f' ev (hd_opt bs) (put q1 w1)"
        using Inr g rd Cons.prems(3) True q1(1) by (simp add: f(1))
      show ?thesis
      proof (cases "call_all cb ev (map (handler_at q) bs) w1")
        case (Inl e)
        with IH r Inr show ?thesis by simp
      next
        case (Inr w2)
        have "get w2 \<noteq> None" using call_all_get [OF Inr] g by simp
        from handled_put [OF _ this others] IH r Inr \<open>cb _ _ _ w = Inr w1\<close> True show ?thesis
          by (auto elim!: returns_mono)
      qed
    qed
  qed
qed

lemma EventHandle_all:
  assumes "eq_inv q" and g: "get w = Some q" and f: "length (handlers q ev) < f"
  shows "refines (EventHandle get put cb f ev w) (call_all cb ev (handlers q ev) w)
    (\<lambda>w1 w2. \<exists>q'. w2 = put q' w1 \<and> eq_inv q' \<and>
       (\<forall>e. handlers q' e = (if e = ev then [h\<leftarrow>handlers q ev. \<not> h_once h] else handlers q e)))"
proof -
  from assms(1) obtain ns where n: "eq_nodes q ns" by (auto simp: eq_inv_def)
  note hs = eq_nodes_handlers [OF n, of ev]
  have "dlist (eq_heap q) (eq_lists q ev) (ns ev)" using n by (simp add: eq_nodes_def eparts_def)
  then have first: "lfirst (eq_lists q ev) = hd_opt (ns ev)" by (simp add: dlist_def)
  have "ns ev = [] @ ns ev" "length (ns ev) < f" using f hs by simp_all
  from handle_loop_all [OF n this(1) g this(2)]
  have "refines (EventHandle get put cb f ev w) (call_all cb ev (handlers q ev) w)
      (handled ev q [h\<leftarrow>handlers q ev. \<not> h_once h])"
    using g first hs by (simp add: EventHandle_def)
  then show ?thesis
  proof (rule refines_mono)
    fix w1 w2
    assume "handled ev q [h\<leftarrow>handlers q ev. \<not> h_once h] w1 w2"
    then obtain q' ns' where q': "w2 = put q' w1" "eq_nodes q' ns'"
      "\<forall>e. map (handler_at q') (ns' e) = (if e = ev then [h\<leftarrow>handlers q ev. \<not> h_once h] else handlers q e)"
      by (auto simp: handled_def)
    then show "\<exists>q'. w2 = put q' w1 \<and> eq_inv q' \<and>
        (\<forall>e. handlers q' e = (if e = ev then [h\<leftarrow>handlers q ev. \<not> h_once h] else handlers q e))"
      by (intro exI [of _ q']) (auto simp: eq_inv_def eq_nodes_handlers)
  qed
qed

end

text \<open>
  Callbacks that act on a state \<open>'u\<close> of their own, next to the queue.
\<close>

definition put_pair :: "('c, 'd) equeue \<Rightarrow> ('c, 'd) equeue option \<times> 'u \<Rightarrow> ('c, 'd) equeue option \<times> 'u" where
  "put_pair q w = (Some q, snd w)"

definition lift_cb ::
  "('c \<Rightarrow> event \<Rightarrow> 'd option \<Rightarrow> 'u \<Rightarrow> 'u res) \<Rightarrow>
   'c \<Rightarrow> event \<Rightarrow> 'd option \<Rightarrow> ('c, 'd) equeue option \<times> 'u \<Rightarrow> (('c, 'd) equeue option \<times> 'u) res" where
  "lift_cb cb c ev d w = bnd (cb c ev d (snd w)) (\<lambda>u. Inr (fst w, u))"

interpretation pw: quiet_world fst put_pair "lift_cb cb" for cb
  by unfold_locales (auto simp: put_pair_def lift_cb_def bnd_assoc bnd_eq_Inr)

lemma call_all_lift: "call_all (lift_cb cb) ev hs (q, u) = bnd (call_all cb ev hs u) (\<lambda>u'. Inr (q, u'))"
proof (induction hs arbitrary: u)
  case Nil
  then show ?case by simp
next
  case (Cons h hs)
  then show ?case by (cases "cb (h_callback h) ev (h_data h) u") (simp_all add: lift_cb_def)
qed

text \<open>
  C26. Handling an event calls the handlers registered for it, each exactly once, in the order of
  their registration and with their data, ends with the fault of the first callback that has one,
  and afterwards the handlers to be called once are gone from this event's list and no other
  handler is, whatever the callbacks do to their own state.
\<close>

theorem handlers_called_in_order:
  assumes "eq_inv q" and "length (handlers q ev) < f"
  shows "refines (EventHandle fst put_pair (lift_cb cb) f ev (Some q, u)) (call_all cb ev (handlers q ev) u)
    (\<lambda>u1 (pq, u2). u2 = u1 \<and> (\<exists>q'. pq = Some q' \<and> eq_inv q' \<and>
       (\<forall>e. handlers q' e = (if e = ev then [h\<leftarrow>handlers q ev. \<not> h_once h] else handlers q e))))"
proof -
  have "refines (EventHandle fst put_pair (lift_cb cb) f ev (Some q, u))
      (bnd (call_all cb ev (handlers q ev) u) (\<lambda>u'. Inr (Some q, u')))
      (\<lambda>w1 w2. \<exists>q'. w2 = put_pair q' w1 \<and> eq_inv q' \<and>
       (\<forall>e. handlers q' e = (if e = ev then [h\<leftarrow>handlers q ev. \<not> h_once h] else handlers q e)))"
    using pw.EventHandle_all [OF assms(1) _ assms(2), of "(Some q, u)" cb] by (simp add: call_all_lift)
  then show ?thesis
    by (cases "call_all cb ev (handlers q ev) u") (auto simp: put_pair_def elim!: returns_mono)
qed

section \<open>Registering, removing, copying, freeing\<close>

lemma eq_nodes_dom: "eq_nodes q ns \<Longrightarrow> eq_tick q \<le> t \<Longrightarrow> t \<notin> dom (eq_heap q)"
  by (auto simp: eq_nodes_def)

text \<open>A new node with a handler at the end of its event's list.\<close>

lemma append_node:
  assumes n: "eq_nodes q ns" and t: "eq_tick q \<le> t" "ok t" and e: "h_event hn = ev"
    and new: "NewNode ok t (eq_heap q) (Some hn) = (p, t', h1)"
  shows "p = Some t \<and> t' = Suc t \<and> returns (ListAddLast h1 (eq_lists q ev) (Some t)) (\<lambda>(h2, l).
    \<exists>ns'. eq_nodes (q\<lparr>eq_heap := h2, eq_tick := Suc t, eq_lists := (eq_lists q)(ev := l)\<rparr>) ns' \<and>
    (\<forall>e. map (handler_at (q\<lparr>eq_heap := h2, eq_tick := Suc t, eq_lists := (eq_lists q)(ev := l)\<rparr>)) (ns' e) =
       (if e = ev then handlers q ev @ [hn] else handlers q e)))"
proof -
  let ?c = "\<lparr>ndata = Some hn, nnext = None, nprev = None\<rparr>"
  have p0: "eparts (eq_heap q) (eq_lists q) ns {}" and b: "dom (eq_heap q) \<subseteq> {..<eq_tick q}"
    using n by (simp_all add: eq_nodes_def)
  have fresh: "t \<notin> dom (eq_heap q)" by (rule eq_nodes_dom [OF n t(1)])
  have p1: "eparts ((eq_heap q)(t \<mapsto> ?c)) (eq_lists q) ns {t}"
    using p0 fresh by (rule eparts_new) simp
  have new': "p = Some t" "t' = Suc t" "h1 = (eq_heap q)(t \<mapsto> ?c)"
    using new t(2) by (auto simp: NewNode_def)
  have out: "t \<notin> set (ns e)" for e using eparts_out [OF p1] by simp
  have "returns (ListAddLast h1 (eq_lists q ev) (Some t)) (\<lambda>(h2, l).
      eparts h2 ((eq_lists q)(ev := l)) (ns(ev := ns ev @ [t])) {} \<and> data_at h2 = data_at h1)"
    using eparts_add [OF p1] new'(3) by simp
  then have "returns (ListAddLast h1 (eq_lists q ev) (Some t)) (\<lambda>(h2, l).
    \<exists>ns'. eq_nodes (q\<lparr>eq_heap := h2, eq_tick := Suc t, eq_lists := (eq_lists q)(ev := l)\<rparr>) ns' \<and>
    (\<forall>e. map (handler_at (q\<lparr>eq_heap := h2, eq_tick := Suc t, eq_lists := (eq_lists q)(ev := l)\<rparr>)) (ns' e) =
       (if e = ev then handlers q ev @ [hn] else handlers q e)))"
  proof (rule returns_mono, clarify)
    fix h2 l
    assume p2: "eparts h2 ((eq_lists q)(ev := l)) (ns(ev := ns ev @ [t])) {}" and d: "data_at h2 = data_at h1"
    let ?q = "q\<lparr>eq_heap := h2, eq_tick := Suc t, eq_lists := (eq_lists q)(ev := l)\<rparr>"
    have d2: "data_at h2 = (data_at (eq_heap q))(t := Some hn)"
      unfolding d new'(3) by (rule ext) (simp add: data_at_upd)
    have "dom h2 = insert t (dom (eq_heap q))"
      unfolding eparts_dom [OF p2] eparts_dom [OF p0] d2 by auto
    then have "dom h2 \<subseteq> {..<Suc t}" using b t(1) by auto
    then have "eq_nodes ?q (ns(ev := ns ev @ [t]))"
      using p2 n e out unfolding eq_nodes_def by (auto simp: d2)
    moreover have "handler_at ?q m = (if m = t then hn else handler_at q m)" for m
      by (simp add: handler_at_def d2)
    then have "\<forall>e. map (handler_at ?q) ((ns(ev := ns ev @ [t])) e) =
        (if e = ev then handlers q ev @ [hn] else handlers q e)"
      using out by (auto simp: eq_nodes_handlers [OF n])
    ultimately show "\<exists>ns'. eq_nodes ?q ns' \<and>
        (\<forall>e. map (handler_at ?q) (ns' e) = (if e = ev then handlers q ev @ [hn] else handlers q e))"
      by blast
  qed
  with new' show ?thesis by simp
qed

lemma eq_result:
  "eq_nodes q' ns' \<Longrightarrow> \<forall>e. map (handler_at q') (ns' e) = H e \<Longrightarrow> eq_inv q' \<and> handlers q' = H"
  by (auto simp: eq_inv_def eq_nodes_handlers)

lemma EventHandlerAdd_seq:
  assumes "eq_inv q" and ok: "ok (eq_tick q)"
  shows "returns (EventHandlerAdd ok q (Some hn)) (\<lambda>q'. eq_inv q' \<and>
    handlers q' = (handlers q)(h_event hn := handlers q (h_event hn) @ [hn]))"
proof -
  from assms(1) obtain ns where n: "eq_nodes q ns" by (auto simp: eq_inv_def)
  obtain p t' h1 where new: "NewNode ok (eq_tick q) (eq_heap q) (Some hn) = (p, t', h1)"
    by (cases "NewNode ok (eq_tick q) (eq_heap q) (Some hn)")
  from append_node [OF n order_refl ok refl new]
  have p: "p = Some (eq_tick q)" "t' = Suc (eq_tick q)"
    and r: "returns (ListAddLast h1 (eq_lists q (h_event hn)) (Some (eq_tick q))) (\<lambda>(h2, l).
      \<exists>ns'. eq_nodes (q\<lparr>eq_heap := h2, eq_tick := Suc (eq_tick q), eq_lists := (eq_lists q)(h_event hn := l)\<rparr>) ns' \<and>
      (\<forall>e. map (handler_at (q\<lparr>eq_heap := h2, eq_tick := Suc (eq_tick q), eq_lists := (eq_lists q)(h_event hn := l)\<rparr>)) (ns' e) =
       (if e = h_event hn then handlers q (h_event hn) @ [hn] else handlers q e)))"
    by simp_all
  have u: "EventHandlerAdd ok q (Some hn) = bnd (ListAddLast h1 (eq_lists q (h_event hn)) (Some (eq_tick q))) (\<lambda>(h2, l).
      Inr (q\<lparr>eq_heap := h2, eq_tick := Suc (eq_tick q), eq_lists := (eq_lists q)(h_event hn := l)\<rparr>))"
    by (simp add: EventHandlerAdd_def new p)
  show ?thesis
    unfolding u
    by (rule returns_bndI [OF r]) (auto dest!: eq_result simp: fun_eq_iff)
qed

lemma remove_handlers_seq:
  "eq_nodes q ns \<Longrightarrow> ns ev = as @ bs \<Longrightarrow> length bs < f \<Longrightarrow>
   returns (remove_handlers cb f ev (hd_opt bs) q) (\<lambda>q'. eq_inv q' \<and>
     handlers q' = (handlers q)(ev := map (handler_at q) as @ [h\<leftarrow>map (handler_at q) bs. h_callback h \<noteq> cb]))"
proof (induction bs arbitrary: q ns as f)
  case Nil
  then obtain f' where "f = Suc f'" by (cases f) auto
  with Nil eq_nodes_handlers [OF Nil(1), of ev, symmetric] show ?case by (auto simp: eq_inv_def)
next
  case (Cons n bs)
  then obtain f' where f: "f = Suc f'" "length bs < f'" by (cases f) auto
  note rd = eq_nodes_read [OF Cons.prems(1,2)]
  show ?case
  proof (cases "h_callback (handler_at q n) = cb")
    case False
    have "ns ev = (as @ [n]) @ bs" using Cons.prems(2) by simp
    from Cons.IH [OF Cons.prems(1) this f(2)] rd False show ?thesis by (simp add: f(1))
  next
    case True
    obtain q1 where q1: "unlink q ev n = Inr q1" "eq_nodes q1 (ns(ev := as @ bs))"
      "\<forall>m. m \<noteq> n \<longrightarrow> handler_at q1 m = handler_at q m"
      using unlink_seq [OF Cons.prems(1,2)] by (auto elim!: returnsE)
    have "distinct (as @ n # bs)" using Cons.prems(1,2) by (metis eq_nodes_def eparts_def dlist_def)
    then have m: "map (handler_at q1) as = map (handler_at q) as" "map (handler_at q1) bs = map (handler_at q) bs"
      using q1(3) by auto
    have others: "handlers q1 e = handlers q e" if "e \<noteq> ev" for e
    proof -
      have "n \<notin> set (ns e)" using eq_nodes_in(3) [OF Cons.prems(1), of n e] rd(3) that by auto
      then have "map (handler_at q1) (ns e) = map (handler_at q) (ns e)" using q1(3) by auto
      with that eq_nodes_handlers [OF q1(2), of e] eq_nodes_handlers [OF Cons.prems(1), of e]
      show ?thesis by simp
    qed
    have upd: "(handlers q1)(ev := x) = (handlers q)(ev := x)" for x
      using others by (auto simp: fun_eq_iff)
    have "(ns(ev := as @ bs)) ev = as @ bs" by simp
    from Cons.IH [OF q1(2) this f(2)] rd True q1(1) m upd show ?thesis
      by (auto simp: f(1) elim!: returns_mono)
  qed
qed

lemma eq_nodes_first: "eq_nodes q ns \<Longrightarrow> lfirst (eq_lists q e) = hd_opt (ns e)"
  by (simp add: eq_nodes_def eparts_def dlist_def)

lemma EventHandlerRemove_seq:
  assumes "eq_inv q"
  shows "returns (EventHandlerRemove q ev cb) (\<lambda>q'. eq_inv q' \<and>
    handlers q' = (handlers q)(ev := [h\<leftarrow>handlers q ev. h_callback h \<noteq> cb]))"
proof -
  from assms obtain ns where n: "eq_nodes q ns" by (auto simp: eq_inv_def)
  have "ns ev = [] @ ns ev" "length (ns ev) < Suc (eq_tick q)" using eq_nodes_length [OF n] by (simp_all add: less_Suc_eq_le)
  from remove_handlers_seq [OF n this, of cb] show ?thesis
    unfolding EventHandlerRemove_def eq_nodes_first [OF n]
    by (rule returns_mono) (simp add: eq_nodes_handlers [OF n])
qed

definition rebind :: "'d option \<Rightarrow> ('c, 'd) handler \<Rightarrow> ('c, 'd) handler" where
  "rebind data h = h\<lparr>h_data := (if data \<noteq> None then data else h_data h)\<rparr>"

lemma copy_list_seq:
  "eq_nodes src ns \<Longrightarrow> ns ev = as @ bs \<Longrightarrow> eq_inv dst \<Longrightarrow> length bs < f \<Longrightarrow>
   returns (copy_list (\<lambda>_. True) data f ev src (hd_opt bs) dst) (\<lambda>dst'. eq_inv dst' \<and>
     handlers dst' = (handlers dst)(ev := handlers dst ev @ map (rebind data) (map (handler_at src) bs)))"
proof (induction bs arbitrary: as dst f)
  case Nil
  then obtain f' where "f = Suc f'" by (cases f) auto
  with Nil show ?case by simp
next
  case (Cons n bs)
  then obtain f' where f: "f = Suc f'" "length bs < f'" by (cases f) auto
  let ?h = "handler_at src n" and ?t = "Suc (eq_tick dst)"
  note rd = eq_nodes_read [OF Cons.prems(1,2)]
  obtain dn where dn: "eq_nodes dst dn" using Cons.prems(3) by (auto simp: eq_inv_def)
  have nh: "NewEventHandler True (h_event ?h) (h_callback ?h) (if data \<noteq> None then data else h_data ?h) (h_once ?h)
      = Some (rebind data ?h)"
    by (simp add: NewEventHandler_def rebind_def)
  obtain p t' h1 where new: "NewNode (\<lambda>_. True) ?t (eq_heap dst) (Some (rebind data ?h)) = (p, t', h1)"
    by (cases "NewNode (\<lambda>_. True) ?t (eq_heap dst) (Some (rebind data ?h))")
  have "h_event (rebind data ?h) = ev" using rd(3) by (simp add: rebind_def)
  note ap = append_node [OF dn le_SucI [OF order_refl] TrueI this new]
  have p: "p = Some ?t" "t' = Suc ?t" using ap by simp_all
  have r: "returns (ListAddLast h1 (eq_lists dst ev) (Some ?t)) (\<lambda>(h2, l).
      eq_inv (dst\<lparr>eq_heap := h2, eq_tick := Suc ?t, eq_lists := (eq_lists dst)(ev := l)\<rparr>) \<and>
      handlers (dst\<lparr>eq_heap := h2, eq_tick := Suc ?t, eq_lists := (eq_lists dst)(ev := l)\<rparr>) =
        (handlers dst)(ev := handlers dst ev @ [rebind data ?h]))"
    by (rule returns_mono [OF ap [THEN conjunct2, THEN conjunct2]]) (auto dest!: eq_result simp: fun_eq_iff)
  have u: "copy_list (\<lambda>_. True) data f ev src (hd_opt (n # bs)) dst =
      bnd (ListAddLast h1 (eq_lists dst ev) (Some ?t)) (\<lambda>(h2, l).
        copy_list (\<lambda>_. True) data f' ev src (hd_opt bs)
          (dst\<lparr>eq_heap := h2, eq_tick := Suc ?t, eq_lists := (eq_lists dst)(ev := l)\<rparr>))"
    using rd nh new p by (simp add: f(1) Let_def)
  have e: "ns ev = (as @ [n]) @ bs" using Cons.prems(2) by simp
  show ?case
    unfolding u
  proof (rule returns_bndI [OF r], clarify)
    fix h2 l
    let ?d = "dst\<lparr>eq_heap := h2, eq_tick := Suc ?t, eq_lists := (eq_lists dst)(ev := l)\<rparr>"
    assume d: "eq_inv ?d" "handlers ?d = (handlers dst)(ev := handlers dst ev @ [rebind data ?h])"
    from Cons.IH [OF Cons.prems(1) e d(1) f(2)]
    show "returns (copy_list (\<lambda>_. True) data f' ev src (hd_opt bs) ?d) (\<lambda>dst'. eq_inv dst' \<and>
        handlers dst' = (handlers dst)(ev := handlers dst ev @ map (rebind data) (map (handler_at src) (n # bs))))"
      by (rule returns_mono) (auto simp: d(2) fun_eq_iff)
  qed
qed

lemma copy_events_seq:
  "eq_nodes src ns \<Longrightarrow> eq_inv dst \<Longrightarrow> distinct evs \<Longrightarrow>
   returns (copy_events (\<lambda>_. True) data evs src dst) (\<lambda>dst'. eq_inv dst' \<and>
     handlers dst' = (\<lambda>e. if e \<in> set evs then handlers dst e @ map (rebind data) (handlers src e) else handlers dst e))"
proof (induction evs arbitrary: dst)
  case Nil
  then show ?case by simp
next
  case (Cons ev evs)
  have l: "ns ev = [] @ ns ev" "length (ns ev) < Suc (eq_tick src)"
    using eq_nodes_length [OF Cons.prems(1)] by (simp_all add: less_Suc_eq_le)
  from copy_list_seq [OF Cons.prems(1) l(1) Cons.prems(2) l(2), of data]
  have r: "returns (copy_list (\<lambda>_. True) data (Suc (eq_tick src)) ev src (lfirst (eq_lists src ev)) dst)
      (\<lambda>d. eq_inv d \<and> handlers d = (handlers dst)(ev := handlers dst ev @ map (rebind data) (handlers src ev)))"
    by (simp only: eq_nodes_first [OF Cons.prems(1)] eq_nodes_handlers [OF Cons.prems(1)])
  show ?case
    unfolding copy_events.simps
  proof (rule returns_bndI [OF r], elim conjE)
    fix d
    assume d: "eq_inv d" "handlers d = (handlers dst)(ev := handlers dst ev @ map (rebind data) (handlers src ev))"
    from Cons.IH [OF Cons.prems(1) d(1)] Cons.prems(3)
    show "returns (copy_events (\<lambda>_. True) data evs src d) (\<lambda>dst'. eq_inv dst' \<and>
        handlers dst' = (\<lambda>e. if e \<in> set (ev # evs) then handlers dst e @ map (rebind data) (handlers src e) else handlers dst e))"
      by (auto simp: d(2) fun_eq_iff elim!: returns_mono)
  qed
qed

lemma CopyEventQueue_seq:
  assumes "eq_inv src" and "eq_inv dst"
  shows "returns (CopyEventQueue (\<lambda>_. True) dst src data) (\<lambda>dst'. eq_inv dst' \<and>
    handlers dst' = (\<lambda>e. handlers dst e @ map (rebind data) (handlers src e)))"
proof -
  from assms(1) obtain ns where "eq_nodes src ns" by (auto simp: eq_inv_def)
  from copy_events_seq [OF this assms(2) distinct_all_events, of data] show ?thesis
    by (simp add: CopyEventQueue_def)
qed

lemma eparts_pop:
  assumes p: "eparts h ls ns {}" and n: "ns e = n # bs"
  shows "returns (ListPop h (ls e)) (\<lambda>(r, h', l').
    r = Some n \<and> eparts h' (ls(e := l')) (ns(e := bs)) {n} \<and> data_at h' = data_at h)"
proof -
  from eparts_dlist [OF p, of e] n have d: "dlist h (ls e) (n # bs)" by simp
  then have "n \<notin> set bs" by (auto simp: dlist_def)
  then have x: "eparts h' (ls(e := l')) (ns(e := bs)) {n} \<and> data_at h' = data_at h"
    if "untouched h h' (set (n # bs))" "dlist h' l' bs" for h' l'
    using that n by (intro eparts_change [OF p]) auto
  show ?thesis
    by (rule returns_mono [OF ListPop_seq [OF d]]) (use x in auto)
qed

lemma free_handlers_seq:
  "eparts (eq_heap q) (eq_lists q) ns {} \<Longrightarrow> length (ns ev) < f \<Longrightarrow>
   returns (free_handlers f ev q) (\<lambda>q'. eparts (eq_heap q') (eq_lists q') (ns(ev := [])) {} \<and> eq_tick q' = eq_tick q)"
proof (induction "ns ev" arbitrary: q ns f)
  case Nil
  then obtain f' where f: "f = Suc f'" by (cases f) auto
  have "dlist (eq_heap q) (eq_lists q ev) []" using eparts_dlist [OF Nil(2), of ev] Nil(1) by simp
  then have "ListPop (eq_heap q) (eq_lists q ev) = Inr (None, eq_heap q, eq_lists q ev)"
    by (simp add: ListPop_def dlist_def)
  moreover have "ns(ev := []) = ns" using Nil(1) by (simp add: fun_eq_iff)
  ultimately show ?case using Nil(2) by (simp add: f)
next
  case (Cons n bs)
  then obtain f' where f: "f = Suc f'" "length bs < f'" by (cases f) (auto simp flip: Cons(2))
  show ?case
    unfolding f(1) free_handlers.simps
  proof (rule returns_bndI [OF eparts_pop [OF Cons(3) Cons(2)[symmetric]]], clarify)
    fix h1 l
    assume p1: "eparts h1 ((eq_lists q)(ev := l)) (ns(ev := bs)) {n}" and d: "data_at h1 = data_at (eq_heap q)"
    let ?q = "q\<lparr>eq_heap := h1(n := None), eq_lists := (eq_lists q)(ev := l)\<rparr>"
    from eparts_node [OF p1, of n] have r: "get_data h1 n = Inr (data_at h1 n)" "FreeNode h1 (Some n) = Inr (None, h1(n := None))"
      by (auto simp: FreeNode_def get_data_def)
    have p2: "eparts (eq_heap ?q) (eq_lists ?q) (ns(ev := bs)) {}" using eparts_drop [OF p1] by simp
    have "bs = (ns(ev := bs)) ev" "length ((ns(ev := bs)) ev) < f'" using f(2) by simp_all
    from Cons(1) [OF this(1) p2 this(2)]
    have IH: "returns (free_handlers f' ev ?q) (\<lambda>q'. eparts (eq_heap q') (eq_lists q') (ns(ev := [])) {} \<and>
        eq_tick q' = eq_tick q)"
      by (simp only: fun_upd_upd) simp
    then show "returns (case Some n of None \<Rightarrow> Inr (q\<lparr>eq_heap := h1, eq_lists := (eq_lists q)(ev := l)\<rparr>)
      | Some n \<Rightarrow> bnd (get_data h1 n) (\<lambda>_. bnd (FreeNode h1 (Some n)) (\<lambda>(_, h2).
          free_handlers f' ev (q\<lparr>eq_heap := h2, eq_lists := (eq_lists q)(ev := l)\<rparr>))))
      (\<lambda>q'. eparts (eq_heap q') (eq_lists q') (ns(ev := [])) {} \<and> eq_tick q' = eq_tick q)"
      by (simp add: r)
  qed
qed

lemma free_events_seq:
  "eparts (eq_heap (q :: ('a, 'b) equeue)) (eq_lists q) ns {} \<Longrightarrow> dom (eq_heap q) \<subseteq> {..<eq_tick q} \<Longrightarrow>
   (\<And>e. length (ns e) \<le> eq_tick q) \<Longrightarrow>
   returns (free_events evs q) (\<lambda>q'. eparts (eq_heap q') (eq_lists q') (\<lambda>e. if e \<in> set evs then [] else ns e) {})"
proof (induction evs arbitrary: q ns)
  case Nil
  then show ?case by simp
next
  case (Cons ev evs)
  have "length (ns ev) < Suc (eq_tick q)" using Cons.prems(3) by (simp add: less_Suc_eq_le)
  from free_handlers_seq [OF Cons.prems(1) this] show ?case
    unfolding free_events.simps
  proof (rule returns_bndI, elim conjE)
    fix q' :: "('a, 'b) equeue"
    assume p: "eparts (eq_heap q') (eq_lists q') (ns(ev := [])) {}" and t: "eq_tick q' = eq_tick q"
    have "dom (eq_heap q') = (\<Union>e. set ((ns(ev := [])) e))" "dom (eq_heap q) = (\<Union>e. set (ns e))"
      using p Cons.prems(1) by (simp_all only: eparts_def Un_empty_right)
    moreover have "set ((ns(ev := [])) e) \<subseteq> set (ns e)" for e by simp
    ultimately have b: "dom (eq_heap q') \<subseteq> {..<eq_tick q'}" using Cons.prems(2) unfolding t by blast
    have l: "length ((ns(ev := [])) e) \<le> eq_tick q'" for e using Cons.prems(3) [of e] t by simp
    have eq: "(\<lambda>e. if e \<in> set evs then [] else (ns(ev := [])) e) = (\<lambda>e. if e \<in> set (ev # evs) then [] else ns e)"
      by (rule ext) simp
    from Cons.IH [OF p b l]
    show "returns (free_events evs q') (\<lambda>q'. eparts (eq_heap q') (eq_lists q')
        (\<lambda>e. if e \<in> set (ev # evs) then [] else ns e) {})"
      unfolding eq .
  qed
qed

lemma FreeEventQueue_seq:
  assumes "eq_inv q"
  shows "FreeEventQueue (Some q) = Inr (None, Map.empty)"
proof -
  from assms obtain ns where n: "eq_nodes q ns" by (auto simp: eq_inv_def)
  then have "eparts (eq_heap q) (eq_lists q) ns {}" "dom (eq_heap q) \<subseteq> {..<eq_tick q}"
    by (simp_all add: eq_nodes_def)
  from free_events_seq [OF this eq_nodes_length [OF n], of all_events] obtain q' where
    q': "free_events all_events q = Inr q'" "eparts (eq_heap q') (eq_lists q') (\<lambda>e. []) {}"
    by (auto elim!: returnsE)
  then have "dom (eq_heap q') = {}" by (simp add: eparts_def)
  with q' show ?thesis by (simp add: FreeEventQueue_def)
qed

section \<open>Programs on an event queue\<close>

datatype ('c, 'd) eop = EAdd "('c, 'd) handler" | ERemove event 'c

fun eq_step :: "('c, 'd) eop \<Rightarrow> ('c, 'd) equeue \<Rightarrow> ('c, 'd) equeue res" where
  "eq_step (EAdd hn) q = EventHandlerAdd (\<lambda>_. True) q (Some hn)"
| "eq_step (ERemove ev cb) q = EventHandlerRemove q ev cb"

fun eq_run :: "('c, 'd) eop list \<Rightarrow> ('c, 'd) equeue \<Rightarrow> ('c, 'd) equeue res" where
  "eq_run [] q = Inr q"
| "eq_run (op # ops) q = bnd (eq_step op q) (eq_run ops)"

fun reg_step :: "('c, 'd) eop \<Rightarrow> (event \<Rightarrow> ('c, 'd) handler list) \<Rightarrow> event \<Rightarrow> ('c, 'd) handler list" where
  "reg_step (EAdd hn) H = H(h_event hn := H (h_event hn) @ [hn])"
| "reg_step (ERemove ev cb) H = H(ev := [h\<leftarrow>H ev. h_callback h \<noteq> cb])"

lemma eq_step_seq: "eq_inv q \<Longrightarrow> returns (eq_step op q) (\<lambda>q'. eq_inv q' \<and> handlers q' = reg_step op (handlers q))"
  by (cases op) (simp_all add: EventHandlerAdd_seq EventHandlerRemove_seq)

lemma eq_run_seq: "eq_inv q \<Longrightarrow> returns (eq_run ops q) (\<lambda>q'. eq_inv q' \<and> handlers q' = fold reg_step ops (handlers q))"
proof (induction ops arbitrary: q)
  case Nil
  then show ?case by simp
next
  case (Cons op ops)
  show ?case
    unfolding eq_run.simps
  proof (rule returns_bndI [OF eq_step_seq [OF Cons.prems]], elim conjE)
    fix q'
    assume "eq_inv q'" "handlers q' = reg_step op (handlers q)"
    with Cons.IH [of q'] show "returns (eq_run ops q') (\<lambda>q'. eq_inv q' \<and> handlers q' = fold reg_step (op # ops) (handlers q))"
      by simp
  qed
qed

definition new_equeue :: "('c, 'd) equeue" where
  "new_equeue = \<lparr>eq_heap = Map.empty, eq_tick = 0, eq_lists = (\<lambda>_. LIST_INITIALIZER)\<rparr>"

lemma new_equeue_inv: "eq_inv new_equeue" "handlers new_equeue = (\<lambda>_. [])"
proof -
  have "eq_nodes new_equeue (\<lambda>_. [])" by (simp add: eq_nodes_def eparts_def new_equeue_def)
  then show "eq_inv new_equeue" by (auto simp: eq_inv_def)
  show "handlers new_equeue = (\<lambda>_. [])" by (rule ext) (simp add: handlers_def new_equeue_def)
qed

lemma NewEventQueue_ok: "NewEventQueue True = Some new_equeue"
  by (simp add: NewEventQueue_def new_equeue_def)

text \<open>
  C20. After any program of registrations and removals each event has exactly the handlers that
  were registered for it and whose callback was not removed afterwards, in order; copying the queue
  into a new one yields the same handlers, rebound to the given data unless it is NULL; freeing
  either queue leaves none of its nodes behind.
\<close>

theorem handler_registry:
  "returns
    (bnd (deref (NewEventQueue True)) (\<lambda>q0. bnd (eq_run ops q0) (\<lambda>q.
     bnd (deref (NewEventQueue True)) (\<lambda>d0. bnd (CopyEventQueue (\<lambda>_. True) d0 q data) (\<lambda>d.
     bnd (FreeEventQueue (Some q)) (\<lambda>fq. bnd (FreeEventQueue (Some d)) (\<lambda>fd. Inr (q, d, fq, fd))))))))
    (\<lambda>(q, d, fq, fd). handlers q = fold reg_step ops (\<lambda>_. [])
       \<and> (\<forall>e. handlers d e = map (rebind data) (handlers q e))
       \<and> fq = (None, Map.empty) \<and> fd = (None, Map.empty))"
proof -
  have run: "returns (eq_run ops new_equeue) (\<lambda>q. eq_inv q \<and> handlers q = fold reg_step ops (\<lambda>_. []))"
    using eq_run_seq [OF new_equeue_inv(1), of ops] by (simp add: new_equeue_inv(2))
  have copy: "returns (CopyEventQueue (\<lambda>_. True) new_equeue q data) (\<lambda>d. eq_inv d \<and>
      handlers d = (\<lambda>e. map (rebind data) (handlers q e)))" if "eq_inv q" for q
    using CopyEventQueue_seq [OF that new_equeue_inv(1), of data] by (simp add: new_equeue_inv(2))
  show ?thesis
    unfolding NewEventQueue_ok deref_simps bnd_Inr
    apply (rule returns_bndI [OF run])
    apply (elim conjE)
    apply (rule returns_bndI [OF copy], assumption)
    apply (elim conjE)
    apply (simp add: FreeEventQueue_seq)
    done
qed

lemma set_link_dom:
  "set_next h n v = Inr h' \<Longrightarrow> h' m = None \<longleftrightarrow> h m = None"
  "set_prev h n v = Inr h' \<Longrightarrow> h' m = None \<longleftrightarrow> h m = None"
  by (auto simp: node_access bnd_eq_Inr split: if_splits)

lemma ListRemove_dom: "ListRemove h l n = Inr (h', l') \<Longrightarrow> h' m = None \<longleftrightarrow> h m = None"
  unfolding ListRemove_def
  by (auto simp: bnd_eq_Inr when_ok_def set_link_dom [where m = m] split: option.split_asm if_split_asm)

lemma unlink_dom: "unlink q ev n = Inr q' \<Longrightarrow> eq_heap q' m = None \<longleftrightarrow> m = n \<or> eq_heap q m = None"
  by (auto simp: unlink_def FreeNode_def bnd_eq_Inr ListRemove_dom split: if_splits)

lemma remove_handlers_dom: "remove_handlers cb f ev i q = Inr q' \<Longrightarrow> eq_heap q m = None \<Longrightarrow> eq_heap q' m = None"
proof (induction f arbitrary: i q)
  case 0
  then show ?case by simp
next
  case (Suc f)
  show ?case
  proof (cases i)
    case None
    with Suc.prems show ?thesis by simp
  next
    case (Some n)
    with Suc.prems show ?thesis
      by (auto simp: bnd_eq_Inr unlink_dom intro: Suc.IH split: if_splits)
  qed
qed

text \<open>
  A callback that removes its own handler makes \<open>EventHandle\<close> read the handler after it has
  been freed.
\<close>

theorem self_removal_is_undefined:
  assumes "eq_inv q" and "handlers q ev = hn # hs"
    and "cb (h_callback hn) ev (h_data hn) (Some q) = bnd (EventHandlerRemove q ev (h_callback hn)) (\<lambda>q'. Inr (Some q'))"
  shows "EventHandle id (\<lambda>q _. Some q) cb (Suc f) ev (Some q) = Inl Undefined"
proof -
  from assms(1) obtain ns where n: "eq_nodes q ns" by (auto simp: eq_inv_def)
  with assms(2) obtain x xs where ns: "ns ev = x # xs" "handler_at q x = hn"
    by (cases "ns ev") (auto simp: eq_nodes_handlers)
  then have e: "ns ev = [] @ x # xs" by simp
  note rd = eq_nodes_read [OF n e]
  obtain q' where q': "EventHandlerRemove q ev (h_callback hn) = Inr q'"
    using EventHandlerRemove_seq [OF assms(1)] by (auto elim!: returnsE)
  have first: "lfirst (eq_lists q ev) = Some x" using eq_nodes_first [OF n, of ev] ns by simp
  have "eq_heap q' x = None"
    using q' rd ns(2) unfolding EventHandlerRemove_def first
    by (auto simp: bnd_eq_Inr unlink_dom dest: remove_handlers_dom)
  then have "get_data (eq_heap q') x = Inl Undefined" by (simp add: get_data_def)
  with rd ns(2) q' first assms(3) show ?thesis by (simp add: EventHandle_def)
qed

theorem self_removal_is_undefined_witness:
  "\<exists>q :: (nat, nat) equeue. EventHandle id (\<lambda>q _. Some q)
     (\<lambda>c ev d w. bnd (deref w) (\<lambda>q. bnd (EventHandlerRemove q ev c) (\<lambda>q'. Inr (Some q')))) 1 CLOSE_EVENT (Some q)
     = Inl Undefined"
proof -
  let ?h = "\<lparr>h_event = CLOSE_EVENT, h_once = False, h_callback = 0, h_data = None\<rparr> :: (nat, nat) handler"
  obtain q where q: "eq_inv q" "handlers q CLOSE_EVENT = [?h]"
    using EventHandlerAdd_seq [OF new_equeue_inv(1), of "\<lambda>_. True" ?h]
    by (auto simp: new_equeue_inv(2) elim!: returnsE)
  show ?thesis
    using self_removal_is_undefined [OF q, of "\<lambda>c ev d w. bnd (deref w) (\<lambda>q. bnd (EventHandlerRemove q ev c) (\<lambda>q'. Inr (Some q')))" 0]
    by (intro exI [of _ q]) simp
qed

theorem handlers_called_in_order_witness:
  "\<exists>q :: (nat, nat) equeue. refines
     (EventHandle fst put_pair (lift_cb (\<lambda>c _ _ log. Inr (log @ [c]))) 3 READ_EVENT (Some q, []))
     (Inr [7, 5]) (\<lambda>u1 (pq, u2). u2 = u1)"
proof -
  let ?h = "\<lambda>c. \<lparr>h_event = READ_EVENT, h_once = True, h_callback = c, h_data = None\<rparr> :: (nat, nat) handler"
  obtain q where q: "eq_inv q" "handlers q READ_EVENT = [?h 7, ?h 5]"
    using eq_run_seq [OF new_equeue_inv(1), of "[EAdd (?h 7), EAdd (?h 5)]"]
    by (auto simp: new_equeue_inv(2) elim!: returnsE)
  have "length (handlers q READ_EVENT) < 3" using q(2) by simp
  from handlers_called_in_order [OF q(1) this, of "\<lambda>c _ _ log. Inr (log @ [c])" "[]"] q(2) show ?thesis
    by (intro exI [of _ q]) (auto elim!: returns_mono)
qed

end
