(* ===== verification/Queues.thy ===== *)
theory Queues
  imports Events Locks
begin

text \<open>
  The blocking FIFO of \<open>src/queue.c\<close>: two intrusive lists, \<open>busy\<close> with the queued items and \<open>free\<close>
  with nodes to recycle, a lock, a condition and the two flags \<open>exit\<close> and \<open>emptied\<close>. The pointer
  code is refined to an abstract queue (a sequence and the two flags), operation by operation.
\<close>

section \<open>Items\<close>

datatype 'p qitem =
    ITEM_UNDEFINED
  | ITEM_EVENT event 'p
  | ITEM_DATA 'p
  | ITEM_TASK event 'p 'p
  | ITEM_EXIT

datatype qitem_type =
    QUEUE_ITEM_UNDEFINED | QUEUE_ITEM_EVENT | QUEUE_ITEM_DATA | QUEUE_ITEM_TASK | QUEUE_ITEM_EXIT

fun QueueItemGetType :: "'p qitem \<Rightarrow> qitem_type" where
  "QueueItemGetType ITEM_UNDEFINED = QUEUE_ITEM_UNDEFINED"
| "QueueItemGetType (ITEM_EVENT e s) = QUEUE_ITEM_EVENT"
| "QueueItemGetType (ITEM_DATA d) = QUEUE_ITEM_DATA"
| "QueueItemGetType (ITEM_TASK e c b) = QUEUE_ITEM_TASK"
| "QueueItemGetType ITEM_EXIT = QUEUE_ITEM_EXIT"

text \<open>
  The accessors read one member of a union. Reading a member the item was not built with gives
  the bytes of another one, to which the model gives no value.
\<close>

fun QueueDataItemGet :: "'p qitem \<Rightarrow> 'p res" where
  "QueueDataItemGet (ITEM_DATA d) = Inr d"
| "QueueDataItemGet _ = Inl Undefined"

fun QueueEventItemGetEvent :: "'p qitem \<Rightarrow> event res" where
  "QueueEventItemGetEvent (ITEM_EVENT e s) = Inr e"
| "QueueEventItemGetEvent _ = Inl Undefined"

fun QueueEventItemGetSource :: "'p qitem \<Rightarrow> 'p res" where
  "QueueEventItemGetSource (ITEM_EVENT e s) = Inr s"
| "QueueEventItemGetSource _ = Inl Undefined"

fun QueueTaskItemGetEvent :: "'p qitem \<Rightarrow> event res" where
  "QueueTaskItemGetEvent (ITEM_TASK e c b) = Inr e"
| "QueueTaskItemGetEvent _ = Inl Undefined"

fun QueueTaskItemGetConnection :: "'p qitem \<Rightarrow> 'p res" where
  "QueueTaskItemGetConnection (ITEM_TASK e c b) = Inr c"
| "QueueTaskItemGetConnection _ = Inl Undefined"

fun QueueTaskItemGetBuffer :: "'p qitem \<Rightarrow> 'p res" where
  "QueueTaskItemGetBuffer (ITEM_TASK e c b) = Inr b"
| "QueueTaskItemGetBuffer _ = Inl Undefined"

section \<open>The queue\<close>

text \<open>
  Each queue owns the nodes of its two lists, and each node owns the item its \<open>data\<close> points at;
  the model keeps the item in the node. \<open>q_tick\<close> numbers the allocations of the queue.
\<close>

record 'p queue =
  q_heap :: "'p qitem nheap"
  q_tick :: nat
  q_busy :: lst
  q_free :: lst
  q_cond :: "condition option"
  q_lock :: "lock option"
  q_exit :: bool
  q_emptied :: bool

definition NewQueue :: "bool \<Rightarrow> bool \<times> int \<Rightarrow> bool \<times> int \<Rightarrow> 'p queue option" where
  "NewQueue mem_ok lk cd =
     (if \<not> mem_ok then None
      else Some \<lparr>q_heap = Map.empty, q_tick = 0,
        q_busy = LIST_INITIALIZER, q_free = LIST_INITIALIZER,
        q_cond = NewCondition (fst cd) (snd cd), q_lock = NewLock (fst lk) (snd lk),
        q_exit = False, q_emptied = False\<rparr>)"

definition NewQueueItem :: "bool \<Rightarrow> 'p qitem option" where
  "NewQueueItem mem_ok = (if mem_ok then Some ITEM_UNDEFINED else None)"

text \<open>\<open>ListAddLast(&queue->free, NewNode(_NewItem()))\<close>: the item is allocated before the node.\<close>

definition NewItem :: "(nat \<Rightarrow> bool) \<Rightarrow> nat \<Rightarrow> 'p qitem option \<times> nat" where
  "NewItem ok t = (case alloc ok t of (p, t') \<Rightarrow> (map_option (\<lambda>_. ITEM_UNDEFINED) p, t'))"

definition grow_free :: "(nat \<Rightarrow> bool) \<Rightarrow> 'p queue \<Rightarrow> 'p queue res" where
  "grow_free ok q =
     (case NewItem ok (q_tick q) of (item, t1) \<Rightarrow>
      case NewNode ok t1 (q_heap q) item of (node, t2, h) \<Rightarrow>
      bnd (ListAddLast h (q_free q) node) (\<lambda>(h', fl).
      Inr (q\<lparr>q_heap := h', q_free := fl, q_tick := t2\<rparr>)))"

definition Enqueue :: "(nat \<Rightarrow> bool) \<Rightarrow> 'p queue \<Rightarrow> 'p qitem \<Rightarrow> (bool \<times> 'p queue) res" where
  "Enqueue ok q item =
     (if q_lock q = None then Inr (False, q)
      else
        bnd (acquire (q_lock q)) (\<lambda>lk.
        if q_exit q then
          bnd (release lk) (\<lambda>lk'. Inr (False, q\<lparr>q_lock := lk'\<rparr>))
        else
          bnd (if ListEmpty (q_free q) then grow_free ok (q\<lparr>q_lock := lk\<rparr>)
               else Inr (q\<lparr>q_lock := lk\<rparr>)) (\<lambda>q1.
          bnd (ListPop (q_heap q1) (q_free q1)) (\<lambda>(p, h1, fl).
          bnd (deref p) (\<lambda>node.
          bnd (set_data h1 node (Some item)) (\<lambda>h2.
          bnd (ListAddLast h2 (q_busy q1) (Some node)) (\<lambda>(h3, bl).
          bnd (NotifyCondition (q_cond q1)) (\<lambda>cd.
          bnd (release (q_lock q1)) (\<lambda>lk'.
          Inr (True, q1\<lparr>q_heap := h3, q_free := fl, q_busy := bl,
                       q_exit := (QueueItemGetType item = QUEUE_ITEM_EXIT \<or> q_exit q1),
                       q_cond := cd, q_lock := lk'\<rparr>))))))))))"

text \<open>The callers' view: the queue pointer may be NULL.\<close>

definition Enqueue_ptr ::
  "(nat \<Rightarrow> bool) \<Rightarrow> 'p queue option \<Rightarrow> 'p qitem \<Rightarrow> (bool \<times> 'p queue option) res" where
  "Enqueue_ptr ok pq item =
     (case pq of
        None \<Rightarrow> Inr (False, None)
      | Some q \<Rightarrow> bnd (Enqueue ok q item) (\<lambda>(r, q'). Inr (r, Some q')))"

definition EnqueueDataItem :: "(nat \<Rightarrow> bool) \<Rightarrow> 'p queue \<Rightarrow> 'p \<Rightarrow> (bool \<times> 'p queue) res" where
  "EnqueueDataItem ok q data = Enqueue ok q (ITEM_DATA data)"

definition EnqueueExitItem :: "(nat \<Rightarrow> bool) \<Rightarrow> 'p queue \<Rightarrow> (bool \<times> 'p queue) res" where
  "EnqueueExitItem ok q = Enqueue ok q ITEM_EXIT"

definition EnqueueEventItem ::
  "(nat \<Rightarrow> bool) \<Rightarrow> 'p queue \<Rightarrow> event \<Rightarrow> 'p \<Rightarrow> (bool \<times> 'p queue) res" where
  "EnqueueEventItem ok q type source = Enqueue ok q (ITEM_EVENT type source)"

definition EnqueueTaskItem ::
  "(nat \<Rightarrow> bool) \<Rightarrow> 'p queue \<Rightarrow> event \<Rightarrow> 'p \<Rightarrow> 'p \<Rightarrow> (bool \<times> 'p queue) res" where
  "EnqueueTaskItem ok q event connection buffer = Enqueue ok q (ITEM_TASK event connection buffer)"

section \<open>Dequeue\<close>

text \<open>
  While a consumer waits on the condition the lock is free and producers enqueue. A wait is
  described by the return code of \<open>pthread_cond_wait\<close> and the items enqueued while it lasted; a
  spurious wake-up is one with no items. A consumer that still has to wait when the list of
  waits is used up is blocked.
\<close>

type_synonym 'p wake = "int \<times> 'p qitem list"

fun enqueue_all :: "(nat \<Rightarrow> bool) \<Rightarrow> 'p qitem list \<Rightarrow> 'p queue \<Rightarrow> 'p queue res" where
  "enqueue_all ok [] q = Inr q"
| "enqueue_all ok (i # is) q = bnd (Enqueue ok q i) (\<lambda>(_, q'). enqueue_all ok is q')"

definition queue_wait :: "(nat \<Rightarrow> bool) \<Rightarrow> 'p wake \<Rightarrow> 'p queue \<Rightarrow> (bool \<times> 'p queue) res" where
  "queue_wait ok w q =
     bnd (deref (q_cond q)) (\<lambda>c.
     bnd (deref (q_lock q)) (\<lambda>l.
     case wait_begin None (c, l, \<lambda>_. THREAD_STATE_NONE) of (c1, l1, ts) \<Rightarrow>
     if fst w \<noteq> 0 then
       (case wait_failed None (c1, l1, ts) of (c2, l2, _) \<Rightarrow>
          Inr (False, q\<lparr>q_cond := Some c2, q_lock := Some l2\<rparr>))
     else
       bnd (mutex_drop l1) (\<lambda>l2.
       bnd (enqueue_all ok (snd w) (q\<lparr>q_cond := Some c1, q_lock := Some l2\<rparr>)) (\<lambda>q2.
       bnd (deref (q_lock q2)) (\<lambda>l3.
       bnd (mutex_regain l3) (\<lambda>l4.
       bnd (deref (q_cond q2)) (\<lambda>c2.
       case wait_end None (c2, l4, ts) of (c3, l5, _) \<Rightarrow>
       Inr (True, q2\<lparr>q_cond := Some c3, q_lock := Some l5\<rparr>))))))))"

fun wait_loop :: "(nat \<Rightarrow> bool) \<Rightarrow> bool \<Rightarrow> 'p wake list \<Rightarrow> 'p queue \<Rightarrow> 'p queue res" where
  "wait_loop ok wait ws q =
     (if \<not> q_exit q \<and> wait \<and> ListEmpty (q_busy q) then
        (case ws of
           [] \<Rightarrow> Inl Blocked
         | w # ws' \<Rightarrow> bnd (queue_wait ok w q) (\<lambda>(b, q'). if b then wait_loop ok wait ws' q' else Inr q'))
      else Inr q)"

declare wait_loop.simps [simp del]

definition Dequeue ::
  "(nat \<Rightarrow> bool) \<Rightarrow> 'p wake list \<Rightarrow> 'p queue \<Rightarrow> 'p qitem \<Rightarrow> bool \<Rightarrow>
   (bool \<times> 'p qitem \<times> 'p queue) res" where
  "Dequeue ok ws q item wait =
     bnd (acquire (q_lock q)) (\<lambda>lk.
     if q_emptied q then
       bnd (release lk) (\<lambda>lk'. Inr (False, item, q\<lparr>q_emptied := False, q_lock := lk'\<rparr>))
     else
       bnd (wait_loop ok wait ws (q\<lparr>q_lock := lk\<rparr>)) (\<lambda>q1.
       bnd (if \<not> ListEmpty (q_busy q1) then
              bnd (ListPop (q_heap q1) (q_busy q1)) (\<lambda>(p, h1, bl).
              bnd (deref p) (\<lambda>node.
              bnd (get_data h1 node) (\<lambda>d.
              bnd (deref d) (\<lambda>it.
              bnd (ListAddLast h1 (q_free q1) (Some node)) (\<lambda>(h2, fl).
              Inr (True, it, q1\<lparr>q_heap := h2, q_busy := bl, q_free := fl, q_emptied := ListEmpty bl\<rparr>))))))
            else Inr (False, ITEM_UNDEFINED, q1)) (\<lambda>(dequeued, it, q2).
       bnd (release (q_lock q2)) (\<lambda>lk'. Inr (dequeued, it, q2\<lparr>q_lock := lk'\<rparr>)))))"

section \<open>Removing and freeing\<close>

text \<open>
  The callback of \<open>RemoveAll\<close> may have effects of its own (the worker's releases a buffer), so it
  transforms a state \<open>'s\<close>. The loop follows the \<open>next\<close> pointers; its bound is one more than the
  number of nodes ever allocated.
\<close>

fun remove_loop ::
  "('p qitem \<Rightarrow> 's \<Rightarrow> (bool \<times> 's) res) \<Rightarrow> nat \<Rightarrow> nref option \<Rightarrow> bool \<Rightarrow>
   'p queue \<Rightarrow> 's \<Rightarrow> (bool \<times> 'p queue \<times> 's) res" where
  "remove_loop cb 0 i removed q s = Inl OutOfFuel"
| "remove_loop cb (Suc f) i removed q s =
     (case i of
        None \<Rightarrow> Inr (removed, q, s)
      | Some n \<Rightarrow>
          bnd (get_data (q_heap q) n) (\<lambda>d.
          bnd (deref d) (\<lambda>it.
          bnd (cb it s) (\<lambda>(b, s').
          bnd (get_next (q_heap q) n) (\<lambda>nx.
          if b then
            bnd (ListRemove (q_heap q) (q_busy q) n) (\<lambda>(h1, bl).
            bnd (ListAddLast h1 (q_free q) (Some n)) (\<lambda>(h2, fl).
            remove_loop cb f nx True (q\<lparr>q_heap := h2, q_busy := bl, q_free := fl\<rparr>) s'))
          else remove_loop cb f nx removed q s')))))"

definition RemoveAll ::
  "'p queue \<Rightarrow> ('p qitem \<Rightarrow> 's \<Rightarrow> (bool \<times> 's) res) \<Rightarrow> 's \<Rightarrow> (bool \<times> 'p queue \<times> 's) res" where
  "RemoveAll q cb s =
     bnd (acquire (q_lock q)) (\<lambda>lk.
     bnd (NotifyCondition (q_cond q)) (\<lambda>cd.
     bnd (remove_loop cb (Suc (q_tick q)) (lfirst (q_busy q)) False (q\<lparr>q_lock := lk, q_cond := cd\<rparr>) s)
       (\<lambda>(removed, q1, s').
     bnd (release (q_lock q1)) (\<lambda>lk'. Inr (removed, q1\<lparr>q_lock := lk'\<rparr>, s')))))"

text \<open>\<open>while (!ListEmpty(l)) { i = ListPop(l); free the item; free the node; }\<close>\<close>

fun free_nodes :: "nat \<Rightarrow> 'd nheap \<Rightarrow> lst \<Rightarrow> ('d nheap \<times> lst) res" where
  "free_nodes 0 h l = Inl OutOfFuel"
| "free_nodes (Suc f) h l =
     (if ListEmpty l then Inr (h, l)
      else
        bnd (ListPop h l) (\<lambda>(i, h1, l1).
        bnd (deref i) (\<lambda>n.
        bnd (get_data h1 n) (\<lambda>_.
        bnd (FreeNode h1 (Some n)) (\<lambda>(_, h2). free_nodes f h2 l1)))))"

text \<open>
  \<open>FreeQueue\<close> sets the caller's pointer to NULL. The second component is what is left of the
  queue's nodes, so that a leak would be visible.
\<close>

definition FreeQueue :: "'p queue option \<Rightarrow> ('p queue option \<times> 'p qitem nheap) res" where
  "FreeQueue pq =
     (case pq of
        None \<Rightarrow> Inr (None, Map.empty)
      | Some q \<Rightarrow>
          bnd (acquire (q_lock q)) (\<lambda>lk.
          bnd (NotifyCondition (q_cond q)) (\<lambda>_.
          bnd (free_nodes (Suc (q_tick q)) (q_heap q) (q_free q)) (\<lambda>(h1, _).
          bnd (free_nodes (Suc (q_tick q)) h1 (q_busy q)) (\<lambda>(h2, _).
          bnd (release lk) (\<lambda>lk'.
          bnd (FreeLock 0 lk') (\<lambda>_. Inr (None, h2))))))))"

section \<open>Well-formed queues and their abstraction\<close>

definition q_nodes :: "'p queue \<Rightarrow> nref list \<Rightarrow> nref list \<Rightarrow> bool" where
  "q_nodes q bs fs \<longleftrightarrow>
     parts (q_heap q) (q_busy q) bs (q_free q) fs {} \<and> dom (q_heap q) \<subseteq> {..<q_tick q}"

definition q_wf :: "'p queue \<Rightarrow> bool" where
  "q_wf q \<longleftrightarrow> (\<exists>bs fs. q_nodes q bs fs)"

text \<open>\<open>q_at l c q\<close>: the lock and the condition are as given and the two lists are well formed.\<close>

definition q_at :: "lock \<Rightarrow> condition \<Rightarrow> 'p queue \<Rightarrow> bool" where
  "q_at l c q \<longleftrightarrow> q_lock q = Some l \<and> q_cond q = Some c \<and> q_wf q"

definition q_inv :: "'p queue \<Rightarrow> bool" where
  "q_inv q \<longleftrightarrow> q_at free_lock free_cond q"

definition item_of :: "'p qitem nheap \<Rightarrow> nref \<Rightarrow> 'p qitem" where
  "item_of h n = (case data_at h n of None \<Rightarrow> ITEM_UNDEFINED | Some i \<Rightarrow> i)"

definition q_items :: "'p queue \<Rightarrow> 'p qitem list" where
  "q_items q = map (item_of (q_heap q)) (walk (q_tick q) (q_heap q) (lfirst (q_busy q)))"

lemma q_nodes_items: "q_nodes q bs fs \<Longrightarrow> q_items q = map (item_of (q_heap q)) bs"
  using parts_bound [of "q_heap q" "q_busy q" bs "q_free q" fs "{}" "q_tick q"]
  by (auto simp: q_items_def q_nodes_def parts_walk)

lemma q_nodes_upd [simp]:
  "q_nodes (q\<lparr>q_lock := lk\<rparr>) bs fs = q_nodes q bs fs"
  "q_nodes (q\<lparr>q_cond := cd\<rparr>) bs fs = q_nodes q bs fs"
  "q_nodes (q\<lparr>q_exit := e\<rparr>) bs fs = q_nodes q bs fs"
  "q_nodes (q\<lparr>q_emptied := m\<rparr>) bs fs = q_nodes q bs fs"
  by (simp_all add: q_nodes_def)

lemma q_wfI: "q_nodes q bs fs \<Longrightarrow> q_wf q"
  by (auto simp: q_wf_def)

lemma q_wf_upd [simp]:
  "q_wf (q\<lparr>q_lock := lk\<rparr>) = q_wf q" "q_wf (q\<lparr>q_cond := cd\<rparr>) = q_wf q"
  "q_wf (q\<lparr>q_exit := e\<rparr>) = q_wf q" "q_wf (q\<lparr>q_emptied := m\<rparr>) = q_wf q"
  by (simp_all add: q_wf_def)

lemma q_wf_empty: "q_wf q \<Longrightarrow> ListEmpty (q_busy q) \<longleftrightarrow> q_items q = []"
  unfolding q_wf_def
proof (elim exE)
  fix bs fs
  assume n: "q_nodes q bs fs"
  then have "ListEmpty (q_busy q) \<longleftrightarrow> bs = []" unfolding q_nodes_def by (elim conjE parts_ListEmpty(1))
  with q_nodes_items [OF n] show ?thesis by simp
qed

lemma q_items_upd [simp]:
  "q_items (q\<lparr>q_lock := lk\<rparr>) = q_items q"
  "q_items (q\<lparr>q_cond := cd\<rparr>) = q_items q"
  "q_items (q\<lparr>q_exit := e\<rparr>) = q_items q"
  "q_items (q\<lparr>q_emptied := m\<rparr>) = q_items q"
  by (simp_all add: q_items_def)

lemma item_of_cong: "data_at h' = data_at h \<Longrightarrow> item_of h' = item_of h"
  by (rule ext) (simp add: item_of_def)

lemma item_of_fun_upd: "data_at h' = (data_at h)(n := Some i) \<Longrightarrow> item_of h' = (item_of h)(n := i)"
  by (rule ext) (simp add: item_of_def)

text \<open>The abstract queue: what a user of \<open>queue.h\<close> can observe.\<close>

record 'p aqueue =
  a_items :: "'p qitem list"
  a_exit :: bool
  a_emptied :: bool

definition abs_queue :: "'p queue \<Rightarrow> 'p aqueue" where
  "abs_queue q = \<lparr>a_items = q_items q, a_exit = q_exit q, a_emptied = q_emptied q\<rparr>"

definition a_enqueue :: "'p qitem \<Rightarrow> 'p aqueue \<Rightarrow> bool \<times> 'p aqueue" where
  "a_enqueue it a =
     (if a_exit a then (False, a)
      else (True, a\<lparr>a_items := a_items a @ [it], a_exit := (QueueItemGetType it = QUEUE_ITEM_EXIT)\<rparr>))"

definition a_dequeue :: "'p qitem \<Rightarrow> 'p aqueue \<Rightarrow> bool \<times> 'p qitem \<times> 'p aqueue" where
  "a_dequeue item a =
     (if a_emptied a then (False, item, a\<lparr>a_emptied := False\<rparr>)
      else case a_items a of
        [] \<Rightarrow> (False, ITEM_UNDEFINED, a)
      | i # is \<Rightarrow> (True, i, a\<lparr>a_items := is, a_emptied := (is = [])\<rparr>))"

fun a_wait :: "bool \<Rightarrow> 'p wake list \<Rightarrow> 'p aqueue \<Rightarrow> 'p aqueue res" where
  "a_wait wait [] a = (if \<not> a_exit a \<and> wait \<and> a_items a = [] then Inl Blocked else Inr a)"
| "a_wait wait (w # ws) a =
     (if \<not> a_exit a \<and> wait \<and> a_items a = [] then
        (if fst w \<noteq> 0 then Inr a
         else a_wait wait ws (fold (\<lambda>i a. snd (a_enqueue i a)) (snd w) a))
      else Inr a)"

definition a_dequeue_wait ::
  "bool \<Rightarrow> 'p wake list \<Rightarrow> 'p qitem \<Rightarrow> 'p aqueue \<Rightarrow> (bool \<times> 'p qitem \<times> 'p aqueue) res" where
  "a_dequeue_wait wait ws item a =
     (if a_emptied a then Inr (a_dequeue item a)
      else bnd (a_wait wait ws a) (\<lambda>a'. Inr (a_dequeue item a')))"

fun a_sweep ::
  "('p qitem \<Rightarrow> 's \<Rightarrow> (bool \<times> 's) res) \<Rightarrow> 'p qitem list \<Rightarrow> 's \<Rightarrow> ('p qitem list \<times> 's) res" where
  "a_sweep cb [] s = Inr ([], s)"
| "a_sweep cb (i # is) s =
     bnd (cb i s) (\<lambda>(b, s'). bnd (a_sweep cb is s') (\<lambda>(ks, s''). Inr (if b then ks else i # ks, s'')))"

section \<open>The pointer code implements the abstract queue\<close>

lemma abs_queue_simps [simp]:
  "a_items (abs_queue q) = q_items q" "a_exit (abs_queue q) = q_exit q"
  "a_emptied (abs_queue q) = q_emptied q"
  "abs_queue (q\<lparr>q_lock := lk\<rparr>) = abs_queue q" "abs_queue (q\<lparr>q_cond := cd\<rparr>) = abs_queue q"
  by (simp_all add: abs_queue_def)

lemma q_at_upd [simp]:
  "q_at l c (q\<lparr>q_lock := Some l'\<rparr>) \<longleftrightarrow> l' = l \<and> q_cond q = Some c \<and> q_wf q"
  "q_at l c (q\<lparr>q_emptied := m\<rparr>) = q_at l c q"
  by (auto simp: q_at_def)

lemma NewQueue_inv: "NewQueue True (True, 0) (True, 0) = Some q \<Longrightarrow> q_inv q \<and> abs_queue q = \<lparr>a_items = [], a_exit = False, a_emptied = False\<rparr>"
  by (auto simp: NewQueue_def q_inv_def q_at_def q_wf_def q_nodes_def abs_queue_def q_items_def
      LIST_INITIALIZER_def parts_init [unfolded LIST_INITIALIZER_def]
      intro!: exI [of _ "[]"])

text \<open>Memory for one more node: a node to recycle, or two allocations that succeed.\<close>

definition q_mem :: "(nat \<Rightarrow> bool) \<Rightarrow> 'p queue \<Rightarrow> bool" where
  "q_mem ok q \<longleftrightarrow> lfirst (q_free q) \<noteq> None \<or> ok (q_tick q) \<and> ok (Suc (q_tick q))"

definition q_ctl :: "'p queue \<Rightarrow> lock option \<times> condition option \<times> bool \<times> bool" where
  "q_ctl q = (q_lock q, q_cond q, q_exit q, q_emptied q)"

lemma grow_free_seq:
  assumes n: "q_nodes q bs []" and ok: "ok (q_tick q)" "ok (Suc (q_tick q))"
  shows "returns (grow_free ok q) (\<lambda>q'. q_ctl q' = q_ctl q \<and> q_nodes q' bs [Suc (q_tick q)]
    \<and> q_items q' = q_items q)"
proof -
  let ?t = "Suc (q_tick q)" and ?i = ITEM_UNDEFINED
  obtain p t2 h where new: "NewNode ok ?t (q_heap q) (Some ?i) = (p, t2, h)"
    by (cases "NewNode ok ?t (q_heap q) (Some ?i)")
  have p0: "parts (q_heap q) (q_busy q) bs (q_free q) [] {}" and dom: "dom (q_heap q) \<subseteq> {..<q_tick q}"
    using n by (simp_all add: q_nodes_def)
  then have fresh: "?t \<notin> dom (q_heap q)" by auto
  from parts_NewNode [OF p0 ok(2) fresh new]
  have p: "p = Some ?t" "t2 = Suc ?t" "parts h (q_busy q) bs (q_free q) [] {?t}"
    "data_at h = (data_at (q_heap q))(?t := Some ?i)" by auto
  have "returns (ListAddLast h (q_free q) (Some ?t)) (\<lambda>(h', fl').
      parts h' fl' ([] @ [?t]) (q_busy q) bs {} \<and> data_at h' = data_at h)"
    using p(3) by (intro parts_add) (simp add: parts_swap)
  moreover have "?t \<notin> set bs" and domh: "set bs \<subseteq> {..<q_tick q}"
    using fresh dom parts_dom [OF p0] by auto
  moreover have "q_nodes (q\<lparr>q_heap := h', q_free := fl', q_tick := Suc ?t\<rparr>) bs [?t]"
    if "parts h' fl' [?t] (q_busy q) bs {}" for h' fl'
    using that parts_dom [OF that] domh less_trans [of _ "q_tick q" "Suc ?t"]
    by (auto simp: q_nodes_def parts_swap)
  ultimately show ?thesis
    using ok new p q_nodes_items [OF n]
    by (auto simp: grow_free_def NewItem_def q_ctl_def q_nodes_items [of _ bs "[?t]"] item_of_def
        elim!: returns_mono)
qed

text \<open>A node of the free list takes the item and goes to the end of the busy list.\<close>

definition q_append :: "'p qitem \<Rightarrow> 'p queue \<Rightarrow> ('p qitem nheap \<times> lst \<times> lst) res" where
  "q_append item q =
     bnd (ListPop (q_heap q) (q_free q)) (\<lambda>(p, h1, fl).
     bnd (deref p) (\<lambda>node.
     bnd (set_data h1 node (Some item)) (\<lambda>h2.
     bnd (ListAddLast h2 (q_busy q) (Some node)) (\<lambda>(h3, bl). Inr (h3, fl, bl)))))"

lemma q_append_seq:
  assumes n: "q_nodes q bs (n # fs)"
  shows "returns (q_append it q) (\<lambda>(h, fl, bl). \<forall>q'. q_heap q' = h \<longrightarrow> q_free q' = fl \<longrightarrow> q_busy q' = bl
    \<longrightarrow> q_tick q' = q_tick q \<longrightarrow> q_nodes q' (bs @ [n]) fs \<and> q_items q' = q_items q @ [it])"
proof -
  have p0: "parts (q_heap q) (q_free q) (n # fs) (q_busy q) bs {}" and dom: "dom (q_heap q) \<subseteq> {..<q_tick q}"
    using n by (simp_all add: q_nodes_def parts_swap)
  then have nb: "n \<notin> set bs" "set (n # bs) \<union> set fs \<subseteq> {..<q_tick q}"
    using parts_dom [OF p0] by (auto simp: parts_def)
  have fin: "q_nodes q' (bs @ [n]) fs \<and> q_items q' = q_items q @ [it]"
    if "parts (q_heap q') (q_busy q') (bs @ [n]) (q_free q') fs {}" "q_tick q' = q_tick q"
      "data_at (q_heap q') = (data_at (q_heap q))(n := Some it)" for q' :: "'a queue"
  proof -
    have "q_nodes q' (bs @ [n]) fs" using that nb parts_dom [OF that(1)] by (auto simp: q_nodes_def)
    then show ?thesis
      using that nb q_nodes_items [OF n] q_nodes_items [of q' "bs @ [n]" fs]
      by (auto simp: item_of_def)
  qed
  have add: "returns (ListAddLast h (q_busy q) (Some n)) (\<lambda>(h', bl).
      parts h' bl (bs @ [n]) fl fs {} \<and> data_at h' = data_at h)"
    if "parts h fl fs (q_busy q) bs {n}" for h fl
    using that by (intro parts_add) (simp add: parts_swap)
  show ?thesis unfolding q_append_def
    apply (rule returns_bndI [OF parts_pop [OF p0]], clarsimp)
    apply (rule returns_mono [OF parts_set_data], assumption, clarsimp)
    apply (rule returns_mono [OF add], assumption, clarsimp)
    using fin by auto
qed

lemma Enqueue_via_append:
  "q_lock q = Some free_lock \<Longrightarrow>
   Enqueue ok q item =
     (if q_exit q then Inr (False, q)
      else bnd (if ListEmpty (q_free q) then grow_free ok (q\<lparr>q_lock := Some taken_lock\<rparr>)
                else Inr (q\<lparr>q_lock := Some taken_lock\<rparr>)) (\<lambda>q1.
           bnd (q_append item q1) (\<lambda>(h3, fl, bl).
           bnd (NotifyCondition (q_cond q1)) (\<lambda>cd.
           bnd (release (q_lock q1)) (\<lambda>lk'.
           Inr (True, q1\<lparr>q_heap := h3, q_free := fl, q_busy := bl,
                       q_exit := (QueueItemGetType item = QUEUE_ITEM_EXIT \<or> q_exit q1),
                       q_cond := cd, q_lock := lk'\<rparr>))))))"
  by (simp add: Enqueue_def q_append_def bnd_assoc split_def)

lemma Enqueue_seq:
  assumes q: "q_at free_lock c q" and mem: "q_mem ok q"
  shows "returns (Enqueue ok q it) (\<lambda>(r, q').
    (r, abs_queue q') = a_enqueue it (abs_queue q) \<and> q_at free_lock c q')"
proof (cases "q_exit q")
  case True
  with q show ?thesis by (simp add: Enqueue_via_append q_at_def a_enqueue_def)
next
  case False
  from q obtain bs fs where n: "q_nodes q bs fs" and lc: "q_lock q = Some free_lock" "q_cond q = Some c"
    by (auto simp: q_at_def q_wf_def)
  let ?q = "q\<lparr>q_lock := Some taken_lock\<rparr>"
  have grow: "returns (if ListEmpty (q_free q) then grow_free ok ?q else Inr ?q) (\<lambda>q1.
      q_ctl q1 = q_ctl ?q \<and> (\<exists>m ms. q_nodes q1 bs (m # ms)) \<and> q_items q1 = q_items q)"
  proof (cases fs)
    case Nil
    with n have e: "ListEmpty (q_free q)" by (auto simp: q_nodes_def parts_ListEmpty)
    with mem have "ok (q_tick ?q)" "ok (Suc (q_tick ?q))" by (simp_all add: q_mem_def ListEmpty_def)
    moreover have "q_nodes ?q bs []" using n Nil by simp
    ultimately have "returns (grow_free ok ?q) (\<lambda>q'. q_ctl q' = q_ctl ?q
        \<and> q_nodes q' bs [Suc (q_tick ?q)] \<and> q_items q' = q_items ?q)"
      by (intro grow_free_seq)
    with e show ?thesis by (auto elim!: returns_mono)
  next
    case (Cons m ms)
    with n have "\<not> ListEmpty (q_free q)" by (auto simp: q_nodes_def parts_ListEmpty)
    with n Cons show ?thesis by auto
  qed
  show ?thesis
    unfolding Enqueue_via_append [OF lc(1)] if_not_P [OF False]
  proof (rule returns_bndI [OF grow], elim conjE exE)
    fix q1 m ms
    assume ctl: "q_ctl q1 = q_ctl ?q" and n1: "q_nodes q1 bs (m # ms)" and i: "q_items q1 = q_items q"
    have ctl: "q_lock q1 = Some taken_lock" "q_cond q1 = Some c" "\<not> q_exit q1" "q_emptied q1 = q_emptied q"
      using ctl lc False by (simp_all add: q_ctl_def)
    show "returns (bnd (q_append it q1) (\<lambda>(h3, fl, bl).
           bnd (NotifyCondition (q_cond q1)) (\<lambda>cd.
           bnd (release (q_lock q1)) (\<lambda>lk'.
           Inr (True, q1\<lparr>q_heap := h3, q_free := fl, q_busy := bl,
                       q_exit := (QueueItemGetType it = QUEUE_ITEM_EXIT \<or> q_exit q1),
                       q_cond := cd, q_lock := lk'\<rparr>)))))
      (\<lambda>(r, q'). (r, abs_queue q') = a_enqueue it (abs_queue q) \<and> q_at free_lock c q')"
      by (rule returns_bndI [OF q_append_seq [OF n1]])
        (auto simp: ctl i False a_enqueue_def abs_queue_def q_at_def
          intro!: q_wfI [of _ "bs @ [m]" ms])
  qed
qed

lemma Enqueue_no_memory:
  assumes q: "q_inv q" and "\<not> q_exit q" and mem: "\<not> q_mem ok q"
  shows "Enqueue ok q it = Inl Aborted"
  using assms
  by (auto simp: q_inv_def q_at_def q_mem_def Enqueue_def ListEmpty_def grow_free_def NewItem_def alloc_def
      NewNode_def ListAddLast_def check_node_def node_access split: prod.splits)

section \<open>Waiting and dequeuing\<close>

lemma enqueue_all_seq:
  "q_at free_lock c q \<Longrightarrow>
   returns (enqueue_all (\<lambda>_. True) is q) (\<lambda>q'.
     abs_queue q' = fold (\<lambda>i a. snd (a_enqueue i a)) is (abs_queue q) \<and> q_at free_lock c q')"
proof (induction "is" arbitrary: q)
  case Nil
  then show ?case by simp
next
  case (Cons i "is")
  have "q_mem (\<lambda>_. True) q" by (simp add: q_mem_def)
  from Enqueue_seq [OF Cons.prems this, of i] show ?case
    unfolding enqueue_all.simps
  proof (rule returns_bndI, clarsimp simp del: returns_bnd)
    fix r q'
    assume e: "(r, abs_queue q') = a_enqueue i (abs_queue q)" and q': "q_at free_lock c q'"
    have "snd (a_enqueue i (abs_queue q)) = abs_queue q'" by (simp flip: e)
    with Cons.IH [OF q'] show "returns (enqueue_all (\<lambda>_. True) is q') (\<lambda>q'.
        abs_queue q' = fold (\<lambda>i a. snd (a_enqueue i a)) is (snd (a_enqueue i (abs_queue q)))
        \<and> q_at free_lock c q')"
      by simp
  qed
qed

definition waited_cond :: condition where
  "waited_cond = \<lparr>cd_state = COND_STATE_WAITED, cd_owner = None\<rparr>"

text \<open>A failed wait marks the lock free while the mutex is held.\<close>

definition odd_lock :: lock where
  "odd_lock = \<lparr>lk_state = LOCK_STATE_FREE, lk_owner = None, lk_held = True\<rparr>"

lemma release_odd [simp]: "release (Some odd_lock) = Inr (Some free_lock)"
  by (simp add: release_def ReleaseLock_def free_lock_def odd_lock_def)

lemma wait_begin_taken [simp]:
  "wait_begin None (free_cond, taken_lock, ts) = (waited_cond, odd_lock, ts)"
  by (simp add: wait_begin_def free_cond_def taken_lock_def waited_cond_def odd_lock_def
      LockSetState_def LockSetOwner_def)

lemma wait_failed_taken [simp]:
  "wait_failed None (waited_cond, odd_lock, ts) = (free_cond, odd_lock, ts)"
  by (simp add: wait_failed_def free_cond_def waited_cond_def)

lemma mutex_drop_odd [simp]: "mutex_drop odd_lock = Inr free_lock"
  by (simp add: mutex_drop_def odd_lock_def free_lock_def)

lemma mutex_regain_free [simp]: "mutex_regain free_lock = Inr odd_lock"
  by (simp add: mutex_regain_def odd_lock_def free_lock_def)

lemma wait_end_odd [simp]: "wait_end None (waited_cond, odd_lock, ts) = (free_cond, taken_lock, ts)"
  by (simp add: wait_end_def free_cond_def taken_lock_def waited_cond_def odd_lock_def
      LockSetState_def LockSetOwner_def)

lemma queue_wait_seq:
  assumes q: "q_at taken_lock free_cond q"
  shows "returns (queue_wait (\<lambda>_. True) w q) (\<lambda>(b, q').
    b = (fst w = 0) \<and> q_at (if b then taken_lock else odd_lock) free_cond q' \<and>
    abs_queue q' = (if b then fold (\<lambda>i a. snd (a_enqueue i a)) (snd w) (abs_queue q) else abs_queue q))"
proof (cases "fst w = 0")
  case True
  have "q_at free_lock waited_cond (q\<lparr>q_cond := Some waited_cond, q_lock := Some free_lock\<rparr>)"
    using q by (auto simp: q_at_def)
  from enqueue_all_seq [OF this, of "snd w"] show ?thesis
    using q True by (auto simp: queue_wait_def q_at_def wp elim!: returns_mono)
next
  case False
  with q show ?thesis by (auto simp: queue_wait_def q_at_def)
qed

definition q_waited :: "'p aqueue \<Rightarrow> 'p queue \<Rightarrow> bool" where
  "q_waited a q \<longleftrightarrow> abs_queue q = a \<and> (\<exists>l \<in> {taken_lock, odd_lock}. q_at l free_cond q)"

lemma q_waitedI:
  "q_at taken_lock free_cond q \<Longrightarrow> q_waited (abs_queue q) q"
  "q_at odd_lock free_cond q \<Longrightarrow> q_waited (abs_queue q) q"
  by (simp_all add: q_waited_def)

lemma wait_loop_seq:
  "q_at taken_lock free_cond q \<Longrightarrow>
   refines (wait_loop (\<lambda>_. True) wait ws q) (a_wait wait ws (abs_queue q)) q_waited"
proof (induction ws arbitrary: q)
  case Nil
  then have "q_wf q" by (simp add: q_at_def)
  with Nil show ?case
    by (subst wait_loop.simps) (auto simp: q_wf_empty q_waitedI)
next
  case (Cons w ws)
  from Cons.prems have "q_wf q" by (simp add: q_at_def)
  then have e: "ListEmpty (q_busy q) \<longleftrightarrow> q_items q = []" by (rule q_wf_empty)
  show ?case
  proof (cases "\<not> q_exit q \<and> wait \<and> q_items q = []")
    case False
    then show ?thesis using Cons.prems e by (subst wait_loop.simps) (auto simp: q_waitedI)
  next
    case True
    then have u: "wait_loop (\<lambda>_. True) wait (w # ws) q =
        bnd (queue_wait (\<lambda>_. True) w q) (\<lambda>(b, q'). if b then wait_loop (\<lambda>_. True) wait ws q' else Inr q')"
      using e by (subst wait_loop.simps) auto
    show ?thesis
      unfolding u
    proof (rule refines_bnd_left [OF queue_wait_seq [OF Cons.prems, of w]], clarify)
      fix q'
      assume "q_at (if fst w = 0 then taken_lock else odd_lock) free_cond q'"
        and "abs_queue q' = (if fst w = 0 then fold (\<lambda>i a. snd (a_enqueue i a)) (snd w) (abs_queue q)
          else abs_queue q)"
      then show "refines (if fst w = 0 then wait_loop (\<lambda>_. True) wait ws q' else Inr q')
          (a_wait wait (w # ws) (abs_queue q)) q_waited"
        using True Cons.IH [of q'] q_waitedI(2) [of q'] by (cases "fst w = 0") simp_all
    qed
  qed
qed

text \<open>The first node of the busy list is read and goes back to the free list.\<close>

definition q_take :: "'p queue \<Rightarrow> (bool \<times> 'p qitem \<times> 'p queue) res" where
  "q_take q1 =
     (if \<not> ListEmpty (q_busy q1) then
        bnd (ListPop (q_heap q1) (q_busy q1)) (\<lambda>(p, h1, bl).
        bnd (deref p) (\<lambda>node.
        bnd (get_data h1 node) (\<lambda>d.
        bnd (deref d) (\<lambda>it.
        bnd (ListAddLast h1 (q_free q1) (Some node)) (\<lambda>(h2, fl).
        Inr (True, it, q1\<lparr>q_heap := h2, q_busy := bl, q_free := fl, q_emptied := ListEmpty bl\<rparr>))))))
      else Inr (False, ITEM_UNDEFINED, q1))"

lemma q_take_seq:
  assumes q: "q_wf q" and e: "\<not> q_emptied q"
  shows "returns (q_take q) (\<lambda>(r, it, q').
    (r, it, abs_queue q') = a_dequeue item (abs_queue q) \<and> q_wf q' \<and>
    q_lock q' = q_lock q \<and> q_cond q' = q_cond q)"
proof (cases "q_items q")
  case Nil
  with q e show ?thesis by (simp add: q_take_def q_wf_empty a_dequeue_def)
next
  case (Cons i "is")
  from q obtain bs fs where n: "q_nodes q bs fs" by (auto simp: q_wf_def)
  with Cons obtain b bs' where bs: "bs = b # bs'" by (cases bs) (auto simp: q_nodes_items)
  from n bs have p0: "parts (q_heap q) (q_busy q) (b # bs') (q_free q) fs {}"
    and dom: "dom (q_heap q) \<subseteq> {..<q_tick q}" by (simp_all add: q_nodes_def)
  have items: "i = item_of (q_heap q) b" "is = map (item_of (q_heap q)) bs'"
    using q_nodes_items [OF n] Cons bs by auto
  have add: "returns (ListAddLast h (q_free q) (Some b)) (\<lambda>(h', fl).
      parts h' bl bs' fl (fs @ [b]) {} \<and> data_at h' = data_at h)"
    if "parts h bl bs' (q_free q) fs {b}" for h bl
    using parts_add [of h "q_free q" fs bl bs' b] that by (simp add: parts_swap)
  have fin: "q_nodes (q\<lparr>q_heap := h', q_busy := bl, q_free := fl\<rparr>) bs' (fs @ [b])"
    if "parts h' bl bs' fl (fs @ [b]) {}" for h' bl fl
    using that dom parts_dom [OF that] parts_dom [OF p0] by (auto simp: q_nodes_def)
  have "\<not> ListEmpty (q_busy q)" using Cons q by (simp add: q_wf_empty)
  then show ?thesis
    unfolding q_take_def if_P [OF \<open>\<not> ListEmpty (q_busy q)\<close>]
    apply (intro returns_bndI [OF parts_pop [OF p0]], clarsimp)
    subgoal for h bl
      apply (frule parts_get_data [of _ _ _ _ _ _ b], simp)
      apply (frule parts_data [of _ _ _ _ _ _ b], simp)
      apply clarsimp
      apply (rule returns_mono [OF add], assumption, clarsimp)
      subgoal for d h' fl
        using fin [of h' bl fl] e Cons items q_nodes_items [OF fin, of h' bl fl]
        by (auto simp: a_dequeue_def abs_queue_def parts_ListEmpty(1) item_of_def
            intro: q_wfI)
      done
    done
qed

lemma Dequeue_via_take:
  "Dequeue ok ws q item wait =
     bnd (acquire (q_lock q)) (\<lambda>lk.
     if q_emptied q then
       bnd (release lk) (\<lambda>lk'. Inr (False, item, q\<lparr>q_emptied := False, q_lock := lk'\<rparr>))
     else
       bnd (wait_loop ok wait ws (q\<lparr>q_lock := lk\<rparr>)) (\<lambda>q1.
       bnd (q_take q1) (\<lambda>(dequeued, it, q2).
       bnd (release (q_lock q2)) (\<lambda>lk'. Inr (dequeued, it, q2\<lparr>q_lock := lk'\<rparr>)))))"
  unfolding Dequeue_def q_take_def ..

definition q_res_rel ::
  "bool \<times> 'p qitem \<times> 'p aqueue \<Rightarrow> bool \<times> 'p qitem \<times> 'p queue \<Rightarrow> bool" where
  "q_res_rel = (\<lambda>(r, it, a) (r', it', q'). r' = r \<and> it' = it \<and> abs_queue q' = a \<and> q_inv q')"

lemma a_wait_emptied: "a_wait wait ws a = Inr a' \<Longrightarrow> a_emptied a' = a_emptied a"
proof (induction wait ws a rule: a_wait.induct)
  case (2 wait w ws a)
  have "a_emptied (fold (\<lambda>i a. snd (a_enqueue i a)) is b) = a_emptied b" for "is" and b :: "'a aqueue"
    by (induction "is" arbitrary: b) (simp_all add: a_enqueue_def)
  with 2 show ?case by (auto split: if_splits)
qed (auto split: if_splits)

lemma Dequeue_seq:
  assumes q: "q_inv q"
  shows "refines (Dequeue (\<lambda>_. True) ws q item wait) (a_dequeue_wait wait ws item (abs_queue q)) q_res_rel"
proof (cases "q_emptied q")
  case True
  with q show ?thesis
    by (simp add: Dequeue_def a_dequeue_wait_def a_dequeue_def q_inv_def q_at_def q_res_rel_def abs_queue_def)
next
  case False
  let ?q = "q\<lparr>q_lock := Some taken_lock\<rparr>"
  have "q_at taken_lock free_cond ?q" using q by (simp add: q_inv_def q_at_def)
  note w = wait_loop_seq [OF this, of wait ws]
  have "refines (bnd (wait_loop (\<lambda>_. True) wait ws ?q) (\<lambda>q1.
       bnd (q_take q1) (\<lambda>(dequeued, it, q2).
       bnd (release (q_lock q2)) (\<lambda>lk'. Inr (dequeued, it, q2\<lparr>q_lock := lk'\<rparr>)))))
     (bnd (a_wait wait ws (abs_queue ?q)) (\<lambda>a'. Inr (a_dequeue item a'))) q_res_rel"
  proof (rule refines_bnd [OF w])
    fix a q1
    assume a: "a_wait wait ws (abs_queue ?q) = Inr a" and q1: "q_waited a q1"
    from a_wait_emptied [OF a] False q1 have e: "\<not> q_emptied q1"
      by (auto simp: q_waited_def)
    from q1 have wf: "q_wf q1" by (auto simp: q_waited_def q_at_def)
    from q_take_seq [OF wf e, of item] q1
    show "refines (bnd (q_take q1) (\<lambda>(dequeued, it, q2).
        bnd (release (q_lock q2)) (\<lambda>lk'. Inr (dequeued, it, q2\<lparr>q_lock := lk'\<rparr>))))
        (Inr (a_dequeue item a)) q_res_rel"
      by (auto simp: q_waited_def q_res_rel_def q_inv_def q_at_def elim!: returns_mono split: prod.splits)
  qed
  with q False show ?thesis
    by (simp add: Dequeue_via_take a_dequeue_wait_def q_inv_def q_at_def)
qed

section \<open>Removing by a predicate\<close>

lemma q_nodes_next: "q_nodes q (as @ n # bs) fs \<Longrightarrow> get_next (q_heap q) n = Inr (hd_opt bs)"
  by (auto simp: q_nodes_def intro: parts_get_next)

lemma q_nodes_data:
  "q_nodes q bs fs \<Longrightarrow> n \<in> set bs \<Longrightarrow> get_data (q_heap q) n = Inr (Some (item_of (q_heap q) n))"
  unfolding q_nodes_def
  by (frule conjunct1, drule parts_get_data [of _ _ _ _ _ _ n])
    (auto simp: item_of_def dest: parts_data [of _ _ _ _ _ _ n])

lemma remove_loop_Some:
  "get_data (q_heap q) n = Inr (Some it) \<Longrightarrow> get_next (q_heap q) n = Inr nx \<Longrightarrow>
   remove_loop cb (Suc f) (Some n) removed q s =
     bnd (cb it s) (\<lambda>(b, s').
       if b then
         bnd (bnd (ListRemove (q_heap q) (q_busy q) n) (\<lambda>(h1, bl).
              bnd (ListAddLast h1 (q_free q) (Some n)) (\<lambda>(h2, fl). Inr (h2, bl, fl))))
           (\<lambda>(h2, bl, fl). remove_loop cb f nx True (q\<lparr>q_heap := h2, q_busy := bl, q_free := fl\<rparr>) s')
       else remove_loop cb f nx removed q s')"
  by (simp add: bnd_assoc split_def cong: if_cong)

definition sweep_rel ::
  "bool \<Rightarrow> 'p qitem list \<Rightarrow> 'p qitem list \<Rightarrow> 'p queue \<Rightarrow> 'p qitem list \<times> 's \<Rightarrow> bool \<times> 'p queue \<times> 's \<Rightarrow> bool" where
  "sweep_rel rm pre is q = (\<lambda>(ks, s) (r, q', s').
     s' = s \<and> r = (rm \<or> ks \<noteq> is) \<and> q_wf q' \<and> q_items q' = pre @ ks \<and> q_ctl q' = q_ctl q)"

lemma a_sweep_shorter: "a_sweep cb is s = Inr (ks, s') \<Longrightarrow> length ks \<le> length is"
  by (induction "is" arbitrary: s ks s') (fastforce simp: bnd_eq_Inr split: if_splits)+

lemma remove_loop_seq:
  "q_nodes q (as @ bs) fs \<Longrightarrow> length bs < f \<Longrightarrow>
   refines (remove_loop cb f (hd_opt bs) rm q s) (a_sweep cb (map (item_of (q_heap q)) bs) s)
     (sweep_rel rm (map (item_of (q_heap q)) as) (map (item_of (q_heap q)) bs) q)"
proof (induction bs arbitrary: q as fs f rm s)
  case Nil
  then obtain f' where "f = Suc f'" by (cases f) auto
  with Nil q_nodes_items [OF Nil(1)] show ?case by (auto simp: sweep_rel_def intro: q_wfI)
next
  case (Cons n bs)
  from Cons.prems(2) obtain f' where f: "f = Suc f'" "length bs < f'" by (cases f) auto
  let ?i = "item_of (q_heap q)"
  let ?R = "sweep_rel rm (map ?i as) (map ?i (n # bs)) q"
  note dat = q_nodes_data [OF Cons.prems(1), of n, simplified] q_nodes_next [OF Cons.prems(1)]
  have keep: "refines (remove_loop cb f' (hd_opt bs) rm q s')
      (bnd (a_sweep cb (map ?i bs) s') (\<lambda>(ks, s''). Inr (?i n # ks, s''))) ?R" for s'
  proof -
    have "q_nodes q ((as @ [n]) @ bs) fs" using Cons.prems(1) by simp
    from Cons.IH [OF this f(2), of rm s'] show ?thesis
      by (cases "a_sweep cb (map ?i bs) s'") (auto simp: sweep_rel_def elim!: returns_mono)
  qed
  have drop: "refines (bnd (bnd (ListRemove (q_heap q) (q_busy q) n) (\<lambda>(h1, bl).
              bnd (ListAddLast h1 (q_free q) (Some n)) (\<lambda>(h2, fl). Inr (h2, bl, fl))))
           (\<lambda>(h2, bl, fl). remove_loop cb f' (hd_opt bs) True (q\<lparr>q_heap := h2, q_busy := bl, q_free := fl\<rparr>) s'))
      (bnd (a_sweep cb (map ?i bs) s') (\<lambda>(ks, s''). Inr (ks, s''))) ?R" for s'
  proof (rule refines_bnd_left [OF parts_move])
    show "parts (q_heap q) (q_busy q) (as @ n # bs) (q_free q) fs {}"
      using Cons.prems(1) by (simp add: q_nodes_def)
  next
    fix y
    assume y: "case y of (h', bl', fl') \<Rightarrow>
      parts h' bl' (as @ bs) fl' (fs @ [n]) {} \<and> data_at h' = data_at (q_heap q)"
    obtain h' bl' fl' where y': "y = (h', bl', fl')" by (cases y)
    let ?q = "q\<lparr>q_heap := h', q_busy := bl', q_free := fl'\<rparr>"
    from y y' have p: "parts h' bl' (as @ bs) fl' (fs @ [n]) {}" and d: "item_of h' = ?i"
      by (auto intro: item_of_cong)
    have "q_nodes ?q (as @ bs) (fs @ [n])"
      using p Cons.prems(1) parts_dom [OF p]
        parts_dom [of "q_heap q" "q_busy q" "as @ n # bs" "q_free q" fs "{}"]
      by (auto simp: q_nodes_def)
    from Cons.IH [OF this f(2), of True s'] show "refines (case y of (h2, bl, fl) \<Rightarrow>
        remove_loop cb f' (hd_opt bs) True (q\<lparr>q_heap := h2, q_busy := bl, q_free := fl\<rparr>) s')
      (bnd (a_sweep cb (map ?i bs) s') (\<lambda>(ks, s''). Inr (ks, s''))) ?R"
      using d y' a_sweep_shorter [of cb "map ?i bs" s']
      by (cases "a_sweep cb (map ?i bs) s'")
        (fastforce simp: sweep_rel_def q_ctl_def elim!: returns_mono)+
  qed
  show ?case
    unfolding f(1) hd_opt_simps(2) remove_loop_Some [OF dat] list.map(2) a_sweep.simps(2)
  proof (rule refines_bnd [where R = "\<lambda>x y. y = x"], goal_cases)
    case 1
    then show ?case by (cases "cb (?i n) s") simp_all
  next
    case (2 x y)
    then show ?case using keep [of "snd x"] drop [of "snd x"] by (cases x) auto
  qed
qed

lemma RemoveAll_seq:
  assumes q: "q_inv q"
  shows "refines (RemoveAll q cb s) (a_sweep cb (q_items q) s) (\<lambda>(ks, s1) (r, q', s2).
    s2 = s1 \<and> r = (ks \<noteq> q_items q) \<and> q_inv q' \<and> abs_queue q' = (abs_queue q)\<lparr>a_items := ks\<rparr>)"
proof -
  from q obtain bs fs where n: "q_nodes q bs fs"
    and lc: "q_lock q = Some free_lock" "q_cond q = Some free_cond"
    by (auto simp: q_inv_def q_at_def q_wf_def)
  let ?q = "q\<lparr>q_lock := Some taken_lock, q_cond := Some free_cond\<rparr>"
  have n1: "q_nodes ?q ([] @ bs) fs" and f: "length bs < Suc (q_tick q)"
    using n parts_bound(1) [of "q_heap q" "q_busy q" bs "q_free q" fs "{}" "q_tick q"]
    by (simp_all add: q_nodes_def)
  have first: "lfirst (q_busy q) = hd_opt bs" using n by (auto simp: q_nodes_def parts_first)
  from remove_loop_seq [OF n1 f, of cb False s]
  have "refines (remove_loop cb (Suc (q_tick q)) (lfirst (q_busy q)) False ?q s)
      (a_sweep cb (q_items q) s) (sweep_rel False [] (q_items q) ?q)"
    using q_nodes_items [OF n] first by simp
  then show ?thesis
    using lc
    by (cases "a_sweep cb (q_items q) s")
      (auto simp: RemoveAll_def sweep_rel_def q_ctl_def q_inv_def q_at_def abs_queue_def
        simp del: remove_loop.simps elim!: returns_mono)
qed

section \<open>Freeing\<close>

lemma free_nodes_seq:
  "parts (h :: 'a nheap) l ns fl fs {} \<Longrightarrow> length ns < f \<Longrightarrow>
   returns (free_nodes f h l) (\<lambda>(h', l'). \<exists>l0. parts h' l0 [] fl fs {})"
proof (induction ns arbitrary: f h l)
  case Nil
  then obtain f' where "f = Suc f'" by (cases f) auto
  with Nil show ?case by (auto simp: parts_ListEmpty(1))
next
  case (Cons n ns)
  then obtain f' where f: "f = Suc f'" "length ns < f'" by (cases f) auto
  have ne: "\<not> ListEmpty l" using Cons.prems(1) parts_ListEmpty(1) by blast
  show ?case
    unfolding f(1) free_nodes.simps if_not_P [OF ne]
  proof (rule returns_bndI [OF parts_pop [OF Cons.prems(1)]], clarify, simp only: deref_simps bnd_Inr)
    fix h1 :: "'a nheap" and l1
    assume p: "parts h1 l1 ns fl fs {n}"
    then have "get_data h1 n = Inr (data_at h1 n)" by (auto intro: parts_get_data)
    then show "returns (bnd (get_data h1 n) (\<lambda>_. bnd (FreeNode h1 (Some n)) (\<lambda>(_, h2). free_nodes f' h2 l1)))
        (\<lambda>(h', l'). \<exists>l0. parts h' l0 [] fl fs {})"
      by (auto intro!: returns_mono [OF parts_FreeNode [OF p]] Cons.IH [OF _ f(2)])
  qed
qed

lemma FreeQueue_seq:
  assumes q: "q_inv q"
  shows "FreeQueue (Some q) = Inr (None, Map.empty)"
proof -
  from q obtain bs fs where n: "q_nodes q bs fs"
    and lc: "q_lock q = Some free_lock" "q_cond q = Some free_cond"
    by (auto simp: q_inv_def q_at_def q_wf_def)
  note p = n [unfolded q_nodes_def, THEN conjunct1] and dom = n [unfolded q_nodes_def, THEN conjunct2]
  have f: "length fs < Suc (q_tick q)" "length bs < Suc (q_tick q)"
    using parts_bound [OF p dom] by simp_all
  have "returns (free_nodes (Suc (q_tick q)) (q_heap q) (q_free q))
      (\<lambda>(h', l'). \<exists>l0. parts h' l0 [] (q_busy q) bs {})"
    using p f by (intro free_nodes_seq) (simp_all add: parts_swap)
  moreover have "returns (free_nodes (Suc (q_tick q)) h (q_busy q)) (\<lambda>(h', l'). h' = Map.empty)"
    if "parts h l0 [] (q_busy q) bs {}" for h l0
    using that f
    by (intro returns_mono [OF free_nodes_seq [of h "q_busy q" bs l0 "[]"]])
      (auto simp: parts_swap parts_def)
  ultimately show ?thesis
    using lc
    by (fastforce simp: FreeQueue_def returns_iff FreeLock_free elim!: returnsE)
qed

section \<open>The interface its users rely on\<close>

text \<open>
  The threads of the library drain their queue with \<open>while (Dequeue(queue, &item, false))\<close> and
  feed each other with \<open>Enqueue...Item\<close>. What these loops need of the queue is the locale \<open>fifo\<close>;
  the loops are proved inside it and instantiated on the model below.
\<close>

fun feed :: "('i \<Rightarrow> 's \<Rightarrow> (bool \<times> 's) res) \<Rightarrow> 'i list \<Rightarrow> 's \<Rightarrow> (bool list \<times> 's) res" where
  "feed enq [] s = Inr ([], s)"
| "feed enq (i # is) s = bnd (enq i s) (\<lambda>(b, s'). bnd (feed enq is s') (\<lambda>(bs, s''). Inr (b # bs, s'')))"

fun drain :: "('s \<Rightarrow> (bool \<times> 'i \<times> 's) res) \<Rightarrow> nat \<Rightarrow> 's \<Rightarrow> ('i list \<times> 's) res" where
  "drain deq 0 s = Inl OutOfFuel"
| "drain deq (Suc f) s =
     bnd (deq s) (\<lambda>(b, i, s').
     if b then bnd (drain deq f s') (\<lambda>(is, s''). Inr (i # is, s'')) else Inr ([], s'))"

locale fifo =
  fixes inv :: "'s \<Rightarrow> bool"
    and items :: "'s \<Rightarrow> 'i list"
    and closed :: "'s \<Rightarrow> bool"
    and emptied :: "'s \<Rightarrow> bool"
    and closes :: "'i \<Rightarrow> bool"
    and enq :: "'i \<Rightarrow> 's \<Rightarrow> (bool \<times> 's) res"
    and deq :: "'s \<Rightarrow> (bool \<times> 'i \<times> 's) res"
  assumes enq_open: "inv s \<Longrightarrow> \<not> closed s \<Longrightarrow> returns (enq i s) (\<lambda>(b, s').
      b \<and> inv s' \<and> items s' = items s @ [i] \<and> closed s' = closes i \<and> emptied s' = emptied s)"
    and enq_closed: "inv s \<Longrightarrow> closed s \<Longrightarrow> returns (enq i s) (\<lambda>(b, s').
      \<not> b \<and> inv s' \<and> items s' = items s \<and> closed s' \<and> emptied s' = emptied s)"
    and deq_false: "inv s \<Longrightarrow> emptied s \<or> items s = [] \<Longrightarrow> returns (deq s) (\<lambda>(b, i, s').
      \<not> b \<and> inv s' \<and> items s' = items s \<and> closed s' = closed s \<and> \<not> emptied s')"
    and deq_true: "inv s \<Longrightarrow> \<not> emptied s \<Longrightarrow> items s = x # xs \<Longrightarrow> returns (deq s) (\<lambda>(b, i, s').
      b \<and> i = x \<and> inv s' \<and> items s' = xs \<and> closed s' = closed s \<and> emptied s' = (xs = []))"
begin

text \<open>A refused item changes nothing; the item that closes the queue is the last one accepted.\<close>

lemma feed_closed:
  "inv s \<Longrightarrow> closed s \<Longrightarrow> returns (feed enq is s) (\<lambda>(bs, s').
     bs = replicate (length is) False \<and> inv s' \<and> items s' = items s \<and> closed s' \<and> emptied s' = emptied s)"
proof (induction "is" arbitrary: s)
  case Nil
  then show ?case by simp
next
  case (Cons i "is")
  from enq_closed [OF Cons.prems, of i] show ?case
    using Cons.IH by (fastforce intro: returns_mono elim!: returns_mono)
qed

lemma feed_open:
  "inv s \<Longrightarrow> \<not> closed s \<Longrightarrow> \<forall>i \<in> set is. \<not> closes i \<Longrightarrow> returns (feed enq is s) (\<lambda>(bs, s').
     bs = replicate (length is) True \<and> inv s' \<and> items s' = items s @ is \<and> \<not> closed s' \<and>
     emptied s' = emptied s)"
proof (induction "is" arbitrary: s)
  case Nil
  then show ?case by simp
next
  case (Cons i "is")
  from enq_open [OF Cons.prems(1,2), of i] show ?case
    using Cons.IH Cons.prems(3) by (fastforce intro: returns_mono elim!: returns_mono)
qed

text \<open>
  The draining loop ends, hands out what is queued in order, and leaves the queue empty, with the
  flag that let it end cleared.
\<close>

lemma drain_all:
  "inv s \<Longrightarrow> \<not> emptied s \<Longrightarrow> Suc (length (items s)) < f \<Longrightarrow> returns (drain deq f s) (\<lambda>(is, s').
     is = items s \<and> inv s' \<and> items s' = [] \<and> closed s' = closed s \<and> \<not> emptied s')"
proof (induction "items s" arbitrary: s f)
  case Nil
  then obtain f' where f: "f = Suc f'" by (cases f) auto
  have "emptied s \<or> items s = []" using Nil by simp
  from deq_false [OF Nil(2) this] show ?case
    using Nil(1) unfolding f by (auto elim!: returns_mono)
next
  case (Cons x xs)
  then obtain f' where f: "f = Suc f'" "Suc (length xs) < f'" by (cases f) (auto simp flip: Cons(2))
  have last: "returns (drain deq f' s') (\<lambda>(is, s''). is = [] \<and> inv s'' \<and> items s'' = []
      \<and> closed s'' = closed s \<and> \<not> emptied s'')"
    if "inv s'" "items s' = []" "closed s' = closed s" for s'
  proof -
    from f obtain f'' where f': "f' = Suc f''" by (cases f') auto
    have "emptied s' \<or> items s' = []" using that by simp
    from deq_false [OF that(1) this] show ?thesis
      using that unfolding f' by (auto elim!: returns_mono)
  qed
  from deq_true [OF Cons(3,4) Cons(2)[symmetric]] show ?case
    unfolding f(1) drain.simps
  proof (rule returns_bndI, clarify)
    fix b i s'
    assume s': "b" "inv s'" "xs = items s'" "closed s' = closed s" "emptied s' = (items s' = [])"
    have "returns (drain deq f' s') (\<lambda>(is, s'').
        is = items s' \<and> inv s'' \<and> items s'' = [] \<and> closed s'' = closed s' \<and> \<not> emptied s'')"
    proof (cases "items s' = []")
      case True
      then show ?thesis using last [OF s'(2) True s'(4)] s' by (auto elim!: returns_mono)
    next
      case False
      with s' f(2) show ?thesis by (intro Cons.hyps(1)) auto
    qed
    with s' Cons(2)
    show "returns (if b then bnd (drain deq f' s') (\<lambda>(is, s''). Inr (x # is, s'')) else Inr ([], s'))
        (\<lambda>(is, s''). is = items s \<and> inv s'' \<and> items s'' = [] \<and> closed s'' = closed s \<and> \<not> emptied s'')"
      by (auto elim!: returns_mono)
  qed
qed

text \<open>After the last item one more dequeue fails even if an item has arrived in between.\<close>

lemma late_item_waits:
  assumes "inv s" and "\<not> emptied s" and "\<not> closed s" and "items s = [x]"
  shows "returns (bnd (deq s) (\<lambda>(_, _, s1). bnd (enq y s1) (\<lambda>(_, s2). deq s2)))
    (\<lambda>(b, i, s'). \<not> b \<and> items s' = [y] \<and> \<not> emptied s' \<and> inv s')"
proof (rule returns_bndI [OF deq_true [OF assms(1,2,4)]], clarify)
  fix i s1 b
  assume s1: "b" "inv s1" "items s1 = []" "closed s1 = closed s" "emptied s1 = ([] = ([]::'i list))"
  show "returns (bnd (enq y s1) (\<lambda>(_, s2). deq s2))
      (\<lambda>(b, i, s'). \<not> b \<and> items s' = [y] \<and> \<not> emptied s' \<and> inv s')"
  proof (rule returns_bndI [OF enq_open [OF s1(2)]])
    show "\<not> closed s1" using s1 assms by simp
  next
    fix r
    assume r: "case r of (b, s') \<Rightarrow>
      b \<and> inv s' \<and> items s' = items s1 @ [y] \<and> closed s' = closes y \<and> emptied s' = emptied s1"
    obtain b2 s2 where r': "r = (b2, s2)" by (cases r)
    with r s1 have "inv s2" "emptied s2 \<or> items s2 = []" "items s2 = [y]" by auto
    with deq_false [of s2] r' show "returns (case r of (_, s2) \<Rightarrow> deq s2)
        (\<lambda>(b, i, s'). \<not> b \<and> items s' = [y] \<and> \<not> emptied s' \<and> inv s')"
      by (auto elim!: returns_mono)
  qed
qed

end

text \<open>The queue of \<open>src/queue.c\<close> provides the interface, with memory available.\<close>

definition q_enq :: "'p qitem \<Rightarrow> 'p queue \<Rightarrow> (bool \<times> 'p queue) res" where
  "q_enq item q = Enqueue (\<lambda>_. True) q item"

definition q_deq :: "'p queue \<Rightarrow> (bool \<times> 'p qitem \<times> 'p queue) res" where
  "q_deq q = Dequeue (\<lambda>_. True) [] q ITEM_UNDEFINED False"

definition is_exit :: "'p qitem \<Rightarrow> bool" where
  "is_exit i \<longleftrightarrow> QueueItemGetType i = QUEUE_ITEM_EXIT"

lemma q_enq_seq: "q_inv q \<Longrightarrow> returns (q_enq i q) (\<lambda>(r, q'). (r, abs_queue q') = a_enqueue i (abs_queue q) \<and> q_inv q')"
  unfolding q_enq_def q_inv_def by (rule Enqueue_seq) (simp_all add: q_mem_def)

lemma q_deq_seq: "q_inv q \<Longrightarrow> returns (q_deq q) (\<lambda>(r, i, q'). (r, i, abs_queue q') = a_dequeue ITEM_UNDEFINED (abs_queue q) \<and> q_inv q')"
  unfolding q_deq_def
  using Dequeue_seq [of q "[]" ITEM_UNDEFINED False]
  by (auto simp: a_dequeue_wait_def q_res_rel_def elim!: returns_mono split: if_splits)

interpretation lq: fifo q_inv q_items q_exit q_emptied is_exit q_enq q_deq
proof
  show "returns (q_enq i s) (\<lambda>(b, s'). b \<and> q_inv s' \<and> q_items s' = q_items s @ [i] \<and>
      q_exit s' = is_exit i \<and> q_emptied s' = q_emptied s)" if "q_inv s" "\<not> q_exit s" for s i
    using q_enq_seq [OF that(1), of i] that(2)
    by (auto simp: a_enqueue_def abs_queue_def is_exit_def elim!: returns_mono)
  show "returns (q_enq i s) (\<lambda>(b, s'). \<not> b \<and> q_inv s' \<and> q_items s' = q_items s \<and> q_exit s' \<and>
      q_emptied s' = q_emptied s)" if "q_inv s" "q_exit s" for s i
    using q_enq_seq [OF that(1), of i] that(2)
    by (auto simp: a_enqueue_def abs_queue_def elim!: returns_mono)
  show "returns (q_deq s) (\<lambda>(b, i, s'). \<not> b \<and> q_inv s' \<and> q_items s' = q_items s \<and>
      q_exit s' = q_exit s \<and> \<not> q_emptied s')" if "q_inv s" "q_emptied s \<or> q_items s = []" for s
    using q_deq_seq [OF that(1)] that(2)
    by (auto simp: a_dequeue_def abs_queue_def elim!: returns_mono split: if_splits)
  show "returns (q_deq s) (\<lambda>(b, i, s'). b \<and> i = x \<and> q_inv s' \<and> q_items s' = xs \<and>
      q_exit s' = q_exit s \<and> q_emptied s' = (xs = []))"
    if "q_inv s" "\<not> q_emptied s" "q_items s = x # xs" for s x xs
    using q_deq_seq [OF that(1)] that(2,3)
    by (auto simp: a_dequeue_def abs_queue_def elim!: returns_mono)
qed

section \<open>Programs of queue operations\<close>

datatype 'p qop = QEnqueue "'p qitem" | QDequeue bool "'p wake list" | QRemove "'p qitem \<Rightarrow> bool"

datatype 'p qout = OEnqueue bool | ODequeue bool "'p qitem" | ORemove bool

fun q_step :: "'p qop \<Rightarrow> 'p queue \<Rightarrow> ('p qout \<times> 'p queue) res" where
  "q_step (QEnqueue i) q = bnd (Enqueue (\<lambda>_. True) q i) (\<lambda>(b, q'). Inr (OEnqueue b, q'))"
| "q_step (QDequeue wait ws) q =
     bnd (Dequeue (\<lambda>_. True) ws q ITEM_UNDEFINED wait) (\<lambda>(b, i, q'). Inr (ODequeue b i, q'))"
| "q_step (QRemove P) q =
     bnd (RemoveAll q (\<lambda>i _. Inr (P i, ())) ()) (\<lambda>(b, q', _). Inr (ORemove b, q'))"

fun a_step :: "'p qop \<Rightarrow> 'p aqueue \<Rightarrow> ('p qout \<times> 'p aqueue) res" where
  "a_step (QEnqueue i) a = (case a_enqueue i a of (b, a') \<Rightarrow> Inr (OEnqueue b, a'))"
| "a_step (QDequeue wait ws) a =
     bnd (a_dequeue_wait wait ws ITEM_UNDEFINED a) (\<lambda>(b, i, a'). Inr (ODequeue b i, a'))"
| "a_step (QRemove P) a =
     (let ks = [i\<leftarrow>a_items a. \<not> P i] in Inr (ORemove (ks \<noteq> a_items a), a\<lparr>a_items := ks\<rparr>))"

fun run_ops :: "('o \<Rightarrow> 's \<Rightarrow> ('r \<times> 's) res) \<Rightarrow> 'o list \<Rightarrow> 's \<Rightarrow> ('r list \<times> 's) res" where
  "run_ops step [] s = Inr ([], s)"
| "run_ops step (op # ops) s =
     bnd (step op s) (\<lambda>(r, s'). bnd (run_ops step ops s') (\<lambda>(rs, s''). Inr (r # rs, s'')))"

definition q_rel :: "'r \<times> 'p aqueue \<Rightarrow> 'r \<times> 'p queue \<Rightarrow> bool" where
  "q_rel = (\<lambda>(r, a) (r', q). r' = r \<and> abs_queue q = a \<and> q_inv q)"

lemma a_sweep_pure: "a_sweep (\<lambda>i _. Inr (P i, ())) is () = Inr ([i\<leftarrow>is. \<not> P i], ())"
  by (induction "is") simp_all

lemma q_step_refines: "q_inv q \<Longrightarrow> refines (q_step op q) (a_step op (abs_queue q)) q_rel"
proof (cases op)
  case (QEnqueue i)
  assume q: "q_inv q"
  from q_enq_seq [OF q, of i] show ?thesis
    unfolding QEnqueue q_enq_def by (auto simp: q_rel_def elim!: returns_mono split: prod.splits)
next
  case (QDequeue wait ws)
  assume q: "q_inv q"
  show ?thesis
    unfolding QDequeue q_step.simps a_step.simps
    by (rule refines_bnd [OF Dequeue_seq [OF q]]) (auto simp: q_res_rel_def q_rel_def)
next
  case (QRemove P)
  assume q: "q_inv q"
  from RemoveAll_seq [OF q, of "\<lambda>i _. Inr (P i, ())" "()"] show ?thesis
    unfolding QRemove by (auto simp: a_sweep_pure q_rel_def Let_def elim!: returns_mono)
qed

lemma q_run_refines:
  "q_inv (q :: 'a queue) \<Longrightarrow> refines (run_ops q_step ops q) (run_ops a_step ops (abs_queue q)) q_rel"
proof (induction ops arbitrary: q)
  case Nil
  then show ?case by (simp add: q_rel_def)
next
  case (Cons op ops)
  show ?case
    unfolding run_ops.simps
  proof (rule refines_bnd [OF q_step_refines [OF Cons.prems]])
    fix x :: "'a qout \<times> 'a aqueue" and y :: "'a qout \<times> 'a queue"
    assume "q_rel x y"
    then obtain r a q' where xy: "x = (r, a)" "y = (r, q')" "abs_queue q' = a" "q_inv q'"
      by (cases x, cases y) (auto simp: q_rel_def)
    from Cons.IH [OF xy(4)] show "refines
        (case y of (r, s') \<Rightarrow> bnd (run_ops q_step ops s') (\<lambda>(rs, s''). Inr (r # rs, s'')))
        (case x of (r, s') \<Rightarrow> bnd (run_ops a_step ops s') (\<lambda>(rs, s''). Inr (r # rs, s''))) q_rel"
      unfolding xy prod.case xy(3)
      by (rule refines_bnd) (auto simp: q_rel_def)
  qed
qed

definition new_queue :: "'p queue" where
  "new_queue = \<lparr>q_heap = Map.empty, q_tick = 0, q_busy = LIST_INITIALIZER, q_free = LIST_INITIALIZER,
     q_cond = Some free_cond, q_lock = Some free_lock, q_exit = False, q_emptied = False\<rparr>"

definition a_empty :: "'p aqueue" where
  "a_empty = \<lparr>a_items = [], a_exit = False, a_emptied = False\<rparr>"

lemma NewQueue_ok: "NewQueue True (True, 0) (True, 0) = Some new_queue"
  by (simp add: NewQueue_def new_queue_def)

lemma new_queue_inv [simp]: "q_inv (new_queue :: 'p queue)" "abs_queue (new_queue :: 'p queue) = a_empty"
  using NewQueue_inv [OF NewQueue_ok, where 'a = 'p] by (simp_all add: a_empty_def)

text \<open>
  C13. Any program of enqueues, dequeues (waiting or not, with any wake-ups and any items enqueued
  while it waits) and removals, run by the pointer code on a new queue, returns what the abstract
  queue returns and ends in the abstract queue's state, or blocks exactly when the abstract queue
  has nothing to hand out; freeing the queue afterwards leaves none of its nodes behind.
\<close>

theorem queue_programs_refine:
  "refines
     (bnd (deref (NewQueue True (True, 0) (True, 0))) (\<lambda>q.
      bnd (run_ops q_step ops q) (\<lambda>(outs, q').
      bnd (FreeQueue (Some q')) (\<lambda>(p, left). Inr (outs, q', p, left)))))
     (run_ops a_step ops a_empty)
     (\<lambda>(outs, a) (outs', q', p, left). outs' = outs \<and> abs_queue q' = a \<and> p = None \<and> left = Map.empty)"
proof -
  have "refines (run_ops q_step ops new_queue) (run_ops a_step ops a_empty) q_rel"
    using q_run_refines [of new_queue ops] by simp
  then show ?thesis
    unfolding NewQueue_ok deref_simps bnd_Inr
    by (cases "run_ops a_step ops a_empty")
      (auto simp: q_rel_def FreeQueue_seq elim!: returns_mono)
qed

text \<open>
  C22. A consumer that drains a queue (dequeue without waiting until it returns false) after a
  producer has fed it items receives exactly these items in this order, and leaves the queue open,
  empty and ready for the next round.
\<close>

theorem feed_then_drain:
  assumes "\<forall>i \<in> set is. \<not> is_exit i"
  shows "returns (bnd (feed q_enq is new_queue) (\<lambda>(_, q). drain q_deq (length is + 2) q))
    (\<lambda>(out, q). out = is \<and> q_items q = [] \<and> \<not> q_exit q \<and> \<not> q_emptied q)"
proof -
  have i: "q_items (new_queue :: 'a queue) = []"
    using abs_queue_simps(1) [of new_queue, symmetric] by (simp add: a_empty_def)
  have n: "\<not> q_exit new_queue" "\<not> q_emptied new_queue" by (simp_all add: new_queue_def)
  from lq.feed_open [OF new_queue_inv(1) n(1) assms] show ?thesis
  proof (rule returns_bndI, clarify)
    fix q
    assume q: "q_inv q" "q_items q = q_items new_queue @ is" "\<not> q_exit q" "q_emptied q = q_emptied new_queue"
    have "returns (drain q_deq (length is + 2) q) (\<lambda>(os, s'). os = q_items q \<and> q_inv s' \<and>
        q_items s' = [] \<and> q_exit s' = q_exit q \<and> \<not> q_emptied s')"
      using q i n by (intro lq.drain_all) simp_all
    then show "returns (drain q_deq (length is + 2) q)
        (\<lambda>(out, q). out = is \<and> q_items q = [] \<and> \<not> q_exit q \<and> \<not> q_emptied q)"
      using q i by (auto elim!: returns_mono)
  qed
qed

theorem feed_then_drain_witness:
  "returns (bnd (feed q_enq [ITEM_DATA (1::nat), ITEM_DATA 2, ITEM_DATA 1] new_queue) (\<lambda>(_, q). drain q_deq 5 q))
    (\<lambda>(out, q). out = [ITEM_DATA 1, ITEM_DATA 2, ITEM_DATA 1])"
  using feed_then_drain [of "[ITEM_DATA (1::nat), ITEM_DATA 2, ITEM_DATA 1]"]
  by (auto simp: is_exit_def numeral_eq_Suc elim!: returns_mono simp del: feed.simps drain.simps)

text \<open>
  Once an exit item has been accepted the queue takes nothing more: every later enqueue returns
  false and leaves the items as they are, those queued before it and the exit item included, and a
  waiting dequeue no longer blocks.
\<close>

theorem exit_item_closes_queue:
  assumes q: "q_inv q" and open_q: "\<not> q_exit q"
  shows "returns (bnd (EnqueueExitItem (\<lambda>_. True) q) (\<lambda>(b, q1). bnd (feed q_enq is q1) (\<lambda>(bs, q2).
      bnd (Dequeue (\<lambda>_. True) [] q2 ITEM_UNDEFINED True) (\<lambda>(d, i, q3). Inr (b, bs, q2, d, i)))))
    (\<lambda>(b, bs, q2, d, i). b \<and> bs = replicate (length is) False \<and> q_items q2 = q_items q @ [ITEM_EXIT]
      \<and> (\<not> q_emptied q \<longrightarrow> d \<and> i = hd (q_items q @ [ITEM_EXIT])))"
proof -
  have e: "EnqueueExitItem (\<lambda>_. True) q = q_enq ITEM_EXIT q"
    by (simp add: EnqueueExitItem_def q_enq_def)
  have "returns (q_enq ITEM_EXIT q) (\<lambda>(b, q1). b \<and> q_inv q1 \<and> q_items q1 = q_items q @ [ITEM_EXIT]
      \<and> q_exit q1 \<and> q_emptied q1 = q_emptied q)"
    using lq.enq_open [OF q open_q, of ITEM_EXIT] by (simp add: is_exit_def)
  then show ?thesis
    unfolding e
  proof (rule returns_bndI, clarify)
    fix b q1
    assume q1: "b" "q_inv q1" "q_items q1 = q_items q @ [ITEM_EXIT]" "q_exit q1"
      "q_emptied q1 = q_emptied q"
    from lq.feed_closed [OF q1(2,4), of "is"]
    show "returns (bnd (feed q_enq is q1) (\<lambda>(bs, q2).
        bnd (Dequeue (\<lambda>_. True) [] q2 ITEM_UNDEFINED True) (\<lambda>(d, i, q3). Inr (b, bs, q2, d, i))))
      (\<lambda>(b, bs, q2, d, i). b \<and> bs = replicate (length is) False \<and> q_items q2 = q_items q @ [ITEM_EXIT]
        \<and> (\<not> q_emptied q \<longrightarrow> d \<and> i = hd (q_items q @ [ITEM_EXIT])))"
    proof (rule returns_bndI, clarify)
      fix q2
      assume q2: "q_inv q2" "q_items q2 = q_items q1" "q_exit q2" "q_emptied q2 = q_emptied q1"
      from Dequeue_seq [OF q2(1), of "[]" ITEM_UNDEFINED True] q1 q2
      show "returns (bnd (Dequeue (\<lambda>_. True) [] q2 ITEM_UNDEFINED True)
          (\<lambda>(d, i, q3). Inr (b, replicate (length is) False, q2, d, i)))
        (\<lambda>(b, bs, q2, d, i). b \<and> bs = replicate (length is) False \<and> q_items q2 = q_items q @ [ITEM_EXIT]
          \<and> (\<not> q_emptied q \<longrightarrow> d \<and> i = hd (q_items q @ [ITEM_EXIT])))"
        by (cases "q_items q")
          (auto simp: a_dequeue_wait_def a_dequeue_def q_res_rel_def elim!: returns_mono split: if_splits)
    qed
  qed
qed

lemma new_queue_fields [simp]:
  "\<not> q_exit new_queue" "\<not> q_emptied new_queue" "q_items new_queue = []"
  by (simp_all add: new_queue_def q_items_def LIST_INITIALIZER_def)

theorem exit_item_closes_queue_witness:
  "returns (bnd (EnqueueExitItem (\<lambda>_. True) new_queue) (\<lambda>(b, q1).
      bnd (feed q_enq [ITEM_DATA (4::nat), ITEM_EXIT] q1) (\<lambda>(bs, q2).
      bnd (Dequeue (\<lambda>_. True) [] q2 ITEM_UNDEFINED True) (\<lambda>(d, i, q3). Inr (b, bs, q2, d, i)))))
    (\<lambda>(b, bs, q2, d, i). b \<and> bs = [False, False] \<and> d \<and> i = ITEM_EXIT)"
  by (rule returns_mono [OF exit_item_closes_queue [of new_queue "[ITEM_DATA (4::nat), ITEM_EXIT]"]])
    (auto simp: numeral_eq_Suc)

text \<open>
  The dequeue that takes the last item makes the next one fail: it returns false at once, even
  when it was asked to wait and even when items have been enqueued meanwhile. Only the dequeue
  after that hands them out.
\<close>

theorem dequeue_after_last_fails:
  assumes q: "q_inv q" and one: "q_items q = [x]" and e: "\<not> q_emptied q" and o: "\<not> q_exit q"
  shows "returns
    (bnd (Dequeue (\<lambda>_. True) [] q ITEM_UNDEFINED True) (\<lambda>(b1, i1, q1).
     bnd (Enqueue (\<lambda>_. True) q1 y) (\<lambda>(b2, q2).
     bnd (Dequeue (\<lambda>_. True) ws q2 z True) (\<lambda>(b3, i3, q3).
     bnd (Dequeue (\<lambda>_. True) [] q3 ITEM_UNDEFINED True) (\<lambda>(b4, i4, q4).
     Inr ((b1, i1), b2, (b3, i3, q_items q3), (b4, i4)))))))
    (\<lambda>r. r = ((True, x), True, (False, z, [y]), (True, y)))"
proof -
  let ?ops = "a_dequeue_wait True [] ITEM_UNDEFINED (abs_queue q)"
  have deq: "refines (Dequeue (\<lambda>_. True) ws' q' i True) (a_dequeue_wait True ws' i (abs_queue q')) q_res_rel"
    if "q_inv q'" for q' ws' i using that by (rule Dequeue_seq)
  have enq: "returns (Enqueue (\<lambda>_. True) q' y) (\<lambda>(r, q''). (r, abs_queue q'') = a_enqueue y (abs_queue q') \<and> q_inv q'')"
    if "q_inv q'" for q' using q_enq_seq [OF that, of y] by (simp add: q_enq_def)
  have d1: "returns (Dequeue (\<lambda>_. True) [] q ITEM_UNDEFINED True) (\<lambda>(b, i, q1). b \<and> i = x \<and> q_inv q1 \<and>
      abs_queue q1 = \<lparr>a_items = [], a_exit = False, a_emptied = True\<rparr>)"
    using deq [OF q, of "[]" ITEM_UNDEFINED] one e o
    by (auto simp: a_dequeue_wait_def a_dequeue_def q_res_rel_def abs_queue_def elim!: returns_mono)
  have d2: "returns (Enqueue (\<lambda>_. True) q1 y) (\<lambda>(b, q2). b \<and> q_inv q2 \<and> a_items (abs_queue q2) = [y] \<and> a_emptied (abs_queue q2))"
    if "q_inv q1" "abs_queue q1 = \<lparr>a_items = [], a_exit = False, a_emptied = True\<rparr>" for q1
    using enq [OF that(1)] that(2)
    by (auto simp: a_enqueue_def abs_queue_simps [symmetric] simp del: abs_queue_simps elim!: returns_mono)
  have d3: "returns (Dequeue (\<lambda>_. True) ws q2 z True) (\<lambda>(b, i, q3). \<not> b \<and> i = z \<and> q_inv q3 \<and> q_items q3 = [y] \<and> \<not> q_emptied q3)"
    if "q_inv q2" "a_items (abs_queue q2) = [y]" "a_emptied (abs_queue q2)" for q2
    using deq [OF that(1), of ws z] that(2,3)
    by (auto simp: a_dequeue_wait_def a_dequeue_def q_res_rel_def abs_queue_def elim!: returns_mono)
  have d4: "returns (Dequeue (\<lambda>_. True) [] q3 ITEM_UNDEFINED True) (\<lambda>(b, i, q4). b \<and> i = y)"
    if "q_inv q3" "q_items q3 = [y]" "\<not> q_emptied q3" for q3
    using deq [OF that(1), of "[]" ITEM_UNDEFINED] that(2,3)
    by (auto simp: a_dequeue_wait_def a_dequeue_def q_res_rel_def elim!: returns_mono)
  show ?thesis
    apply (rule returns_bndI [OF d1], clarify)
    apply (rule returns_bndI [OF d2], assumption, assumption, clarify)
    apply (rule returns_bndI [OF d3], assumption, assumption, assumption, clarify)
    apply (rule returns_bndI [OF d4], assumption, assumption, assumption, clarify)
    by simp
qed

lemma one_item_queue:
  "\<exists>q. q_inv q \<and> q_items q = [ITEM_DATA (1::nat)] \<and> \<not> q_emptied q \<and> \<not> q_exit q"
  using lq.enq_open [of new_queue "ITEM_DATA (1::nat)"] by (auto simp: is_exit_def elim!: returnsE)

theorem dequeue_after_last_fails_witness:
  "\<exists>q. returns
    (bnd (Dequeue (\<lambda>_. True) [] q ITEM_UNDEFINED True) (\<lambda>(b1, i1, q1).
     bnd (Enqueue (\<lambda>_. True) q1 (ITEM_DATA 2)) (\<lambda>(b2, q2).
     bnd (Dequeue (\<lambda>_. True) [] q2 (ITEM_DATA 9) True) (\<lambda>(b3, i3, q3).
     bnd (Dequeue (\<lambda>_. True) [] q3 ITEM_UNDEFINED True) (\<lambda>(b4, i4, q4).
     Inr ((b1, i1), b2, (b3, i3, q_items q3), (b4, i4)))))))
    (\<lambda>r. r = ((True, ITEM_DATA (1::nat)), True, (False, ITEM_DATA 9, [ITEM_DATA 2]), (True, ITEM_DATA 2)))"
proof -
  obtain q where q: "q_inv q" "q_items q = [ITEM_DATA (1::nat)]" "\<not> q_emptied q" "\<not> q_exit q"
    using one_item_queue by blast
  show ?thesis
    by (rule exI [of _ q], rule dequeue_after_last_fails [OF q])
qed

text \<open>
  Enqueuing needs a node to recycle or memory for a new one; with neither, \<open>_Enqueue\<close> does not
  return false but runs into the \<open>abort()\<close> of the list code with the queue's lock taken.
\<close>

theorem enqueue_without_memory_aborts:
  assumes "q_inv q" and "\<not> q_exit q"
  shows "((\<exists>q'. Enqueue ok q i = Inr (True, q')) \<longleftrightarrow> q_mem ok q)
    \<and> (Enqueue ok q i = Inl Aborted \<longleftrightarrow> \<not> q_mem ok q)"
proof (cases "q_mem ok q")
  case True
  from Enqueue_seq [OF assms(1)[unfolded q_inv_def] this, of i] True assms(2) show ?thesis
    by (auto simp: a_enqueue_def elim!: returnsE)
next
  case False
  with Enqueue_no_memory [OF assms False] show ?thesis by simp
qed

theorem enqueue_without_memory_aborts_witness:
  "Enqueue (\<lambda>_. False) new_queue (ITEM_DATA (1::nat)) = Inl Aborted"
proof -
  have "\<not> q_mem (\<lambda>_. False) (new_queue :: nat queue)"
    by (simp add: q_mem_def new_queue_def LIST_INITIALIZER_def)
  with enqueue_without_memory_aborts [of new_queue "\<lambda>_. False" "ITEM_DATA (1::nat)"] show ?thesis
    by simp
qed

end
