(* ===== verification/Pools.thy ===== *)
theory Pools
  imports Buffers Queues
begin

text \<open>
  The buffer pools of \<open>src/buffer.c\<close>: a pool keeps its free buffers in a queue and allocates them in
  batches. The model has a heap of buffers and a heap of pools, since a buffer knows its pool.
\<close>

section \<open>Pools and buffers in memory\<close>

record pool =
  p_buffers :: "nat queue option"
  p_batch :: int
  p_bufferSize :: int

text \<open>\<open>bm_items\<close> counts the queue items that are allocated and not freed.\<close>

record bmem =
  bm_bufs :: "nat \<rightharpoonup> buffer"
  bm_pools :: "nat \<rightharpoonup> pool"
  bm_tick :: nat
  bm_items :: int

definition AIO4C_BUFFER_POOL_BATCH_SIZE :: int where
  "AIO4C_BUFFER_POOL_BATCH_SIZE = 16"

text \<open>
  \<open>okb\<close> tells whether the two allocations of a buffer succeed, \<open>okq\<close> those of the queue's nodes.
\<close>

definition mem_NewBuffer :: "(nat \<Rightarrow> bool \<times> bool) \<Rightarrow> int \<Rightarrow> bmem \<Rightarrow> (nat option \<times> bmem) res" where
  "mem_NewBuffer okb n m =
     (let t = bm_tick m in
      bnd (NewBuffer (fst (okb t)) (snd (okb t)) n) (\<lambda>b.
      case b of
        None \<Rightarrow> Inr (None, m\<lparr>bm_tick := Suc t\<rparr>)
      | Some b' \<Rightarrow> Inr (Some t, m\<lparr>bm_bufs := (bm_bufs m)(t \<mapsto> b'), bm_tick := Suc t\<rparr>)))"

definition mem_FreeBuffer :: "nat option \<Rightarrow> bmem \<Rightarrow> (nat option \<times> bmem) res" where
  "mem_FreeBuffer p m =
     (case p of
        None \<Rightarrow> Inr (None, m)
      | Some r \<Rightarrow> bnd (deref (bm_bufs m r)) (\<lambda>_. Inr (None, m\<lparr>bm_bufs := (bm_bufs m)(r := None)\<rparr>)))"

definition set_pool_queue :: "nat \<Rightarrow> nat queue option \<Rightarrow> bmem \<Rightarrow> bmem res" where
  "set_pool_queue pr q m =
     bnd (deref (bm_pools m pr)) (\<lambda>p. Inr (m\<lparr>bm_pools := (bm_pools m)(pr \<mapsto> p\<lparr>p_buffers := q\<rparr>)\<rparr>))"

text \<open>
  The loop that \<open>NewBufferPool\<close> and \<open>AllocateBuffer\<close> share: allocate up to \<open>k\<close> buffers, stop at the
  first that fails, and enqueue each; the result of the enqueue is ignored.
\<close>

fun fill_pool ::
  "(nat \<Rightarrow> bool \<times> bool) \<Rightarrow> (nat \<Rightarrow> bool) \<Rightarrow> nat \<Rightarrow> nat \<Rightarrow> int \<Rightarrow> bmem \<Rightarrow> bmem res" where
  "fill_pool okb okq 0 pr n m = Inr m"
| "fill_pool okb okq (Suc k) pr n m =
     bnd (mem_NewBuffer okb n m) (\<lambda>(r, m1).
     case r of
       None \<Rightarrow> Inr m1
     | Some b \<Rightarrow>
         bnd (deref (bm_bufs m1 b)) (\<lambda>bf.
         bnd (deref (bm_pools m1 pr)) (\<lambda>p.
         bnd (Enqueue_ptr okq (p_buffers p) (ITEM_DATA b)) (\<lambda>(_, q').
         bnd (set_pool_queue pr q' (m1\<lparr>bm_bufs := (bm_bufs m1)(b \<mapsto> bf\<lparr>b_pool := Some pr\<rparr>)\<rparr>)) (\<lambda>m2.
         fill_pool okb okq k pr n m2)))))"

definition NewBufferPool ::
  "(nat \<Rightarrow> bool \<times> bool) \<Rightarrow> (nat \<Rightarrow> bool) \<Rightarrow> bool \<Rightarrow> nat queue option \<Rightarrow> int \<Rightarrow> bmem \<Rightarrow>
   (nat option \<times> bmem) res" where
  "NewBufferPool okb okq mem_ok new_q bufferSize m =
     (if \<not> mem_ok then Inr (None, m)
      else
        let pr = bm_tick m;
            m1 = m\<lparr>bm_pools := (bm_pools m)(pr \<mapsto> \<lparr>p_buffers = new_q, p_batch = 0, p_bufferSize = 0\<rparr>),
                   bm_tick := Suc pr\<rparr> in
        bnd (fill_pool okb okq (nat AIO4C_BUFFER_POOL_BATCH_SIZE) pr bufferSize m1) (\<lambda>m2.
        bnd (deref (bm_pools m2 pr)) (\<lambda>p.
        Inr (Some pr, m2\<lparr>bm_pools := (bm_pools m2)(pr \<mapsto>
          p\<lparr>p_batch := AIO4C_BUFFER_POOL_BATCH_SIZE, p_bufferSize := bufferSize\<rparr>)\<rparr>))))"

definition GetBufferPoolBufferSize :: "nat \<Rightarrow> bmem \<Rightarrow> int res" where
  "GetBufferPoolBufferSize pr m = bnd (deref (bm_pools m pr)) (\<lambda>p. Inr (p_bufferSize p))"

text \<open>A dequeue without waiting from the queue of a pool.\<close>

definition pool_Dequeue ::
  "(nat \<Rightarrow> bool) \<Rightarrow> nat \<Rightarrow> nat qitem \<Rightarrow> bmem \<Rightarrow> (bool \<times> nat qitem \<times> bmem) res" where
  "pool_Dequeue okq pr item m =
     bnd (deref (bm_pools m pr)) (\<lambda>p.
     bnd (deref (p_buffers p)) (\<lambda>q.
     bnd (Dequeue okq [] q item False) (\<lambda>(b, it, q').
     bnd (set_pool_queue pr (Some q') m) (\<lambda>m1. Inr (b, it, m1)))))"

text \<open>
  The item storage is needed by every dequeue, so running out of memory for it is undefined
  behaviour. The path that returns NULL does not free it.
\<close>

definition AllocateBuffer ::
  "(nat \<Rightarrow> bool \<times> bool) \<Rightarrow> (nat \<Rightarrow> bool) \<Rightarrow> bool \<Rightarrow> nat \<Rightarrow> bmem \<Rightarrow> (nat option \<times> bmem) res" where
  "AllocateBuffer okb okq item_ok pr m =
     bnd (deref (NewQueueItem item_ok)) (\<lambda>item.
     bnd (pool_Dequeue okq pr item (m\<lparr>bm_items := bm_items m + 1\<rparr>)) (\<lambda>(d, it, m1).
     bnd (if d then Inr (True, it, m1)
          else
            bnd (deref (bm_pools m1 pr)) (\<lambda>p.
            bnd (fill_pool okb okq (nat (p_batch p)) pr (p_bufferSize p) m1) (\<lambda>m2.
            pool_Dequeue okq pr it m2))) (\<lambda>(d2, it2, m3).
     if \<not> d2 then Inr (None, m3)
     else
       bnd (QueueDataItemGet it2) (\<lambda>b.
       bnd (deref (bm_bufs m3 b)) (\<lambda>_.
       Inr (Some b, m3\<lparr>bm_items := bm_items m3 - 1\<rparr>))))))"

definition ReleaseBuffer :: "(nat \<Rightarrow> bool) \<Rightarrow> nat option \<Rightarrow> bmem \<Rightarrow> (nat option \<times> bmem) res" where
  "ReleaseBuffer okq pb m =
     (case pb of
        None \<Rightarrow> Inr (None, m)
      | Some r \<Rightarrow>
          bnd (deref (bm_bufs m r)) (\<lambda>b.
          case b_pool b of
            None \<Rightarrow> mem_FreeBuffer pb m
          | Some pr \<Rightarrow>
              bnd (BufferReset b) (\<lambda>b'.
              bnd (deref (bm_pools m pr)) (\<lambda>p.
              bnd (Enqueue_ptr okq (p_buffers p) (ITEM_DATA r)) (\<lambda>(_, q').
              bnd (set_pool_queue pr q' (m\<lparr>bm_bufs := (bm_bufs m)(r \<mapsto> b')\<rparr>)) (\<lambda>m1.
              Inr (None, m1)))))))"

fun drain_pool :: "nat \<Rightarrow> (nat \<Rightarrow> bool) \<Rightarrow> nat \<Rightarrow> nat qitem \<Rightarrow> bmem \<Rightarrow> bmem res" where
  "drain_pool 0 okq pr item m = Inl OutOfFuel"
| "drain_pool (Suc f) okq pr item m =
     bnd (pool_Dequeue okq pr item m) (\<lambda>(d, it, m1).
     if \<not> d then Inr m1
     else
       bnd (QueueDataItemGet it) (\<lambda>b.
       bnd (mem_FreeBuffer (Some b) m1) (\<lambda>(_, m2). drain_pool f okq pr it m2)))"

definition FreeBufferPool ::
  "nat \<Rightarrow> (nat \<Rightarrow> bool) \<Rightarrow> bool \<Rightarrow> nat option \<Rightarrow> bmem \<Rightarrow> (nat option \<times> bmem) res" where
  "FreeBufferPool f okq item_ok ppool m =
     (case ppool of
        None \<Rightarrow> Inr (None, m)
      | Some pr \<Rightarrow>
          bnd (deref (NewQueueItem item_ok)) (\<lambda>item.
          bnd (drain_pool f okq pr item m) (\<lambda>m1.
          bnd (deref (bm_pools m1 pr)) (\<lambda>p.
          bnd (FreeQueue (p_buffers p)) (\<lambda>_.
          Inr (None, m1\<lparr>bm_pools := (bm_pools m1)(pr := None)\<rparr>))))))"

section \<open>A pool and the buffers it has handed out\<close>

definition clean :: "int \<Rightarrow> nat \<Rightarrow> buffer \<Rightarrow> bool" where
  "clean n pr b \<longleftrightarrow> buf_inv b \<and> b_pool b = Some pr \<and> b_size b = n \<and> b_position b = 0 \<and> b_limit b = n
     \<and> b_data b = replicate (nat (n + 2)) 0"

definition owned :: "int \<Rightarrow> nat \<Rightarrow> buffer \<Rightarrow> bool" where
  "owned n pr b \<longleftrightarrow> buf_inv b \<and> b_pool b = Some pr \<and> b_size b = n"

text \<open>
  \<open>pool_inv c n pr m fs os e\<close>: the queue of the pool \<open>pr\<close>, which has the batch and buffer size
  \<open>c\<close>, holds the free buffers \<open>fs\<close>, each clean, with the flag \<open>emptied\<close> equal to \<open>e\<close>; \<open>os\<close> are the
  buffers that clients hold. All these are different buffers of capacity \<open>n\<close>.
\<close>

definition pool_queue :: "int \<times> int \<Rightarrow> nat \<Rightarrow> bmem \<Rightarrow> nat queue \<Rightarrow> bool" where
  "pool_queue c pr m q \<longleftrightarrow> bm_pools m pr = Some \<lparr>p_buffers = Some q, p_batch = fst c, p_bufferSize = snd c\<rparr>"

definition pool_inv ::
  "int \<times> int \<Rightarrow> int \<Rightarrow> nat \<Rightarrow> bmem \<Rightarrow> nat list \<Rightarrow> nat list \<Rightarrow> bool \<Rightarrow> bool" where
  "pool_inv c n pr m fs os e \<longleftrightarrow>
     (\<exists>q. pool_queue c pr m q \<and> q_inv q \<and> abs_queue q = \<lparr>a_items = map ITEM_DATA fs, a_exit = False, a_emptied = e\<rparr>) \<and>
     distinct (fs @ os) \<and> set (fs @ os) \<subseteq> {..<bm_tick m} \<and>
     (\<forall>r \<in> set fs. \<exists>b. bm_bufs m r = Some b \<and> clean n pr b) \<and>
     (\<forall>r \<in> set os. \<exists>b. bm_bufs m r = Some b \<and> owned n pr b)"

abbreviation "all_ok \<equiv> (\<lambda>_::nat. True)"

abbreviation "both_ok \<equiv> (\<lambda>_::nat. (True, True))"

lemma clean_owned: "clean n pr b \<Longrightarrow> owned n pr b"
  by (simp add: clean_def owned_def)

lemma Enqueue_open:
  assumes "q_inv q" and "abs_queue q = \<lparr>a_items = is, a_exit = False, a_emptied = e\<rparr>" and "\<not> is_exit i"
  shows "\<exists>q'. Enqueue all_ok q i = Inr (True, q') \<and> q_inv q' \<and>
    abs_queue q' = \<lparr>a_items = is @ [i], a_exit = False, a_emptied = e\<rparr>"
  using q_enq_seq [OF assms(1), of i] assms(2,3)
  by (auto simp: q_enq_def a_enqueue_def is_exit_def elim!: returnsE)

lemma Dequeue_poll:
  assumes "q_inv (q :: 'a queue)"
  shows "\<exists>q'. Dequeue ok [] q item False = Inr (fst (a_dequeue item (abs_queue q)), fst (snd (a_dequeue item (abs_queue q))), q')
    \<and> q_inv q' \<and> abs_queue q' = snd (snd (a_dequeue item (abs_queue q)))"
proof -
  have "wait_loop ok' False [] = (\<lambda>q :: 'a queue. Inr q)" for ok'
    by (rule ext) (simp add: wait_loop.simps)
  then have "Dequeue ok [] q item False = Dequeue all_ok [] q item False"
    unfolding Dequeue_def by (simp only:)
  with Dequeue_seq [OF assms, of "[]" item False] show ?thesis
    by (auto simp: a_dequeue_wait_def q_res_rel_def elim!: returnsE split: if_splits)
qed

lemma pool_enqueue:
  assumes inv: "pool_inv c n pr m fs os e" and q: "pool_queue c pr m q"
    and b: "clean n pr b" and r: "r \<notin> set (fs @ os')" "set os' \<subseteq> set os" "distinct os'"
    and m': "bm_bufs m' = (bm_bufs m)(r \<mapsto> b)" "bm_pools m' = bm_pools m" "bm_tick m \<le> bm_tick m'" "r < bm_tick m'"
  shows "\<exists>q' m2. Enqueue all_ok q (ITEM_DATA r) = Inr (True, q') \<and> set_pool_queue pr (Some q') m' = Inr m2 \<and>
    pool_inv c n pr m2 (fs @ [r]) os' e \<and> bm_items m2 = bm_items m' \<and> bm_tick m2 = bm_tick m'
    \<and> (\<exists>q'. pool_queue c pr m2 q')"
proof -
  from inv q have a: "q_inv q" "abs_queue q = \<lparr>a_items = map ITEM_DATA fs, a_exit = False, a_emptied = e\<rparr>"
    by (auto simp: pool_inv_def pool_queue_def)
  from Enqueue_open [OF this, of "ITEM_DATA r"] obtain q' where
    q': "Enqueue all_ok q (ITEM_DATA r) = Inr (True, q')" "q_inv q'"
      "abs_queue q' = \<lparr>a_items = map ITEM_DATA fs @ [ITEM_DATA r], a_exit = False, a_emptied = e\<rparr>"
    by (auto simp: is_exit_def)
  let ?m2 = "m'\<lparr>bm_pools := (bm_pools m)(pr \<mapsto> \<lparr>p_buffers = Some q', p_batch = fst c, p_bufferSize = snd c\<rparr>)\<rparr>"
  have "set_pool_queue pr (Some q') m' = Inr ?m2"
    using q m' by (simp add: set_pool_queue_def pool_queue_def)
  moreover have "pool_inv c n pr ?m2 (fs @ [r]) os' e"
    using inv q' b r m' by (auto simp: pool_inv_def pool_queue_def)
  ultimately show ?thesis using q'(1) by (auto simp: pool_queue_def)
qed

lemma fill_pool_seq:
  "pool_inv c n pr m fs os e \<Longrightarrow> 0 \<le> n \<Longrightarrow> n \<le> INT_MAX - 2 \<Longrightarrow>
   returns (fill_pool both_ok all_ok k pr n m) (\<lambda>m'.
     pool_inv c n pr m' (fs @ [bm_tick m..<bm_tick m + k]) os e \<and> bm_items m' = bm_items m \<and>
     bm_tick m' = bm_tick m + k)"
proof (induction k arbitrary: m fs)
  case 0
  then show ?case by simp
next
  case (Suc k)
  let ?t = "bm_tick m"
  obtain q where q: "pool_queue c pr m q" using Suc.prems(1) by (auto simp: pool_inv_def)
  obtain b where b: "NewBuffer True True n = Inr (Some b)" "b_pool b = None" "clean n pr (b\<lparr>b_pool := Some pr\<rparr>)"
    using NewBuffer_seq [OF Suc.prems(2,3), of True True]
    by (auto simp: clean_def buf_inv_def elim!: returnsE)
  let ?m1 = "m\<lparr>bm_tick := Suc ?t, bm_bufs := (bm_bufs m)(?t \<mapsto> b\<lparr>b_pool := Some pr\<rparr>)\<rparr>"
  have "?t \<notin> set (fs @ os)" and "distinct os" using Suc.prems(1) by (auto simp: pool_inv_def)
  from pool_enqueue [OF Suc.prems(1) q b(3) this(1) subset_refl this(2), of ?m1]
  obtain q' m2 where e: "Enqueue all_ok q (ITEM_DATA ?t) = Inr (True, q')" "set_pool_queue pr (Some q') ?m1 = Inr m2"
    "pool_inv c n pr m2 (fs @ [?t]) os e" "bm_items m2 = bm_items m" "bm_tick m2 = Suc ?t"
    by auto
  have "fill_pool both_ok all_ok (Suc k) pr n m = fill_pool both_ok all_ok k pr n m2"
    using q b e by (simp add: mem_NewBuffer_def Let_def pool_queue_def Enqueue_ptr_def)
  moreover have "[?t..<?t + Suc k] = ?t # [Suc ?t..<Suc ?t + k]" by (simp add: upt_conv_Cons)
  ultimately show ?case using Suc.IH [OF e(3) Suc.prems(2,3)] e(4,5)
    by (auto elim!: returns_mono)
qed

lemma pool_Dequeue_seq:
  assumes inv: "pool_inv c n pr m fs os e"
  shows "returns (pool_Dequeue ok pr item m) (\<lambda>(d, it, m'). bm_items m' = bm_items m \<and> bm_tick m' = bm_tick m
    \<and> bm_bufs m' = bm_bufs m \<and> (if e \<or> fs = [] then \<not> d \<and> pool_inv c n pr m' fs os False
      else d \<and> it = ITEM_DATA (hd fs) \<and> pool_inv c n pr m' (tl fs) (hd fs # os) (tl fs = [])))"
proof -
  from inv obtain q where q: "pool_queue c pr m q" "q_inv q"
    "abs_queue q = \<lparr>a_items = map ITEM_DATA fs, a_exit = False, a_emptied = e\<rparr>"
    by (auto simp: pool_inv_def)
  from Dequeue_poll [OF q(2), of ok item] obtain d it a' q' where
    d: "a_dequeue item (abs_queue q) = (d, it, a')" "Dequeue ok [] q item False = Inr (d, it, q')"
      "q_inv q'" "abs_queue q' = a'"
    by (cases "a_dequeue item (abs_queue q)") auto
  let ?m = "m\<lparr>bm_pools := (bm_pools m)(pr \<mapsto> \<lparr>p_buffers = Some q', p_batch = fst c, p_bufferSize = snd c\<rparr>)\<rparr>"
  have r: "pool_Dequeue ok pr item m = Inr (d, it, ?m)"
    using q(1) d(2) by (simp add: pool_Dequeue_def pool_queue_def set_pool_queue_def)
  show ?thesis
  proof (cases fs)
    case Nil
    with r q d inv show ?thesis by (auto simp: a_dequeue_def pool_inv_def pool_queue_def split: if_splits)
  next
    case (Cons f fs')
    with r q d inv show ?thesis
      by (auto simp: a_dequeue_def pool_inv_def pool_queue_def clean_owned split: if_splits)
  qed
qed

section \<open>Allocating and releasing\<close>

lemma pool_inv_items [simp]: "pool_inv c n pr (m\<lparr>bm_items := i\<rparr>) fs os e = pool_inv c n pr m fs os e"
  by (simp add: pool_inv_def pool_queue_def)

lemma pool_inv_cfg:
  "pool_inv c n pr m fs os e \<Longrightarrow> \<exists>p. bm_pools m pr = Some p \<and> p_batch p = fst c \<and> p_bufferSize p = snd c"
  by (auto simp: pool_inv_def pool_queue_def)

lemma pool_inv_head_fresh: "pool_inv c n pr m fs (b # os) e \<Longrightarrow> b \<notin> set os"
  by (auto simp: pool_inv_def)

lemma pool_inv_out: "pool_inv c n pr m fs os e \<Longrightarrow> r \<in> set os \<Longrightarrow> \<exists>b. bm_bufs m r = Some b \<and> owned n pr b"
  by (auto simp: pool_inv_def)

lemma pool_inv_free: "pool_inv c n pr m fs os e \<Longrightarrow> r \<in> set fs \<Longrightarrow> \<exists>b. bm_bufs m r = Some b \<and> clean n pr b"
  by (auto simp: pool_inv_def)

definition handed_out :: "int \<Rightarrow> nat \<Rightarrow> nat list \<Rightarrow> nat option \<times> bmem \<Rightarrow> bool" where
  "handed_out n pr os = (\<lambda>(r, m). \<exists>b bf. r = Some b \<and> b \<notin> set os \<and> bm_bufs m b = Some bf \<and> clean n pr bf)"

lemma AllocateBuffer_free:
  assumes inv: "pool_inv (16, n) n pr m fs os False" and ne: "fs \<noteq> []"
  shows "returns (AllocateBuffer okb ok True pr m) (\<lambda>(r, m'). handed_out n pr os (r, m') \<and> r = Some (hd fs) \<and>
    bm_tick m' = bm_tick m \<and> bm_items m' = bm_items m \<and>
    pool_inv (16, n) n pr m' (tl fs) (hd fs # os) (tl fs = []))"
proof -
  have i: "pool_inv (16, n) n pr (m\<lparr>bm_items := bm_items m + 1\<rparr>) fs os False" using inv by simp
  obtain b where b: "bm_bufs m (hd fs) = Some b" "clean n pr b"
    using pool_inv_free [OF inv, of "hd fs"] ne by auto
  have "hd fs \<notin> set os" using inv ne by (cases fs) (auto simp: pool_inv_def)
  with pool_Dequeue_seq [OF i, of ok ITEM_UNDEFINED] ne b show ?thesis
    by (auto simp: AllocateBuffer_def NewQueueItem_def handed_out_def elim!: returnsE)
qed

lemma AllocateBuffer_batch:
  assumes inv: "pool_inv (16, n) n pr m fs os e" and e: "e \<or> fs = []" and n: "0 \<le> n" "n \<le> INT_MAX - 2"
  defines "nf \<equiv> fs @ [bm_tick m..<bm_tick m + 16]"
  shows "returns (AllocateBuffer both_ok all_ok True pr m) (\<lambda>(r, m'). handed_out n pr os (r, m') \<and> r = Some (hd nf) \<and>
    bm_tick m' = bm_tick m + 16 \<and> bm_items m' = bm_items m \<and>
    pool_inv (16, n) n pr m' (tl nf) (hd nf # os) (tl nf = []))"
proof -
  let ?m = "m\<lparr>bm_items := bm_items m + 1\<rparr>"
  have i: "pool_inv (16, n) n pr ?m fs os e" using inv by simp
  obtain it m1 where d1: "pool_Dequeue all_ok pr ITEM_UNDEFINED ?m = Inr (False, it, m1)"
    "pool_inv (16, n) n pr m1 fs os False" "bm_items m1 = bm_items m + 1" "bm_tick m1 = bm_tick m"
    using pool_Dequeue_seq [OF i, of all_ok ITEM_UNDEFINED] e by (auto elim!: returnsE)
  obtain p where p: "bm_pools m1 pr = Some p" "p_batch p = 16" "p_bufferSize p = n"
    using pool_inv_cfg [OF d1(2)] by auto
  obtain m2 where f: "fill_pool both_ok all_ok 16 pr n m1 = Inr m2" "pool_inv (16, n) n pr m2 nf os False"
    "bm_items m2 = bm_items m + 1" "bm_tick m2 = bm_tick m + 16"
    using fill_pool_seq [OF d1(2) n, of 16] d1(3,4) by (auto simp: nf_def elim!: returnsE)
  have ne: "nf \<noteq> []" by (simp add: nf_def)
  obtain m3 where d2: "pool_Dequeue all_ok pr it m2 = Inr (True, ITEM_DATA (hd nf), m3)"
    "pool_inv (16, n) n pr m3 (tl nf) (hd nf # os) (tl nf = [])" "bm_items m3 = bm_items m + 1"
    "bm_tick m3 = bm_tick m + 16" "bm_bufs m3 = bm_bufs m2"
    using pool_Dequeue_seq [OF f(2), of all_ok it] ne f(3,4) by (auto elim!: returnsE)
  obtain b where b: "bm_bufs m3 (hd nf) = Some b" "clean n pr b"
    using pool_inv_free [OF f(2), of "hd nf"] ne d2(5) by auto
  have "AllocateBuffer both_ok all_ok True pr m = Inr (Some (hd nf), m3\<lparr>bm_items := bm_items m3 - 1\<rparr>)"
    using d1(1) p f(1) d2(1) b(1) by (simp add: AllocateBuffer_def NewQueueItem_def)
  with d2 b pool_inv_head_fresh [OF d2(2)] show ?thesis by (auto simp: handed_out_def)
qed

lemma AllocateBuffer_seq:
  assumes "pool_inv (16, n) n pr m fs os e" and "0 \<le> n" "n \<le> INT_MAX - 2"
  shows "returns (AllocateBuffer both_ok all_ok True pr m) (\<lambda>(r, m'). handed_out n pr os (r, m') \<and>
    (\<exists>b fs' e'. r = Some b \<and> pool_inv (16, n) n pr m' fs' (b # os) e'))"
proof (cases "e \<or> fs = []")
  case True
  from AllocateBuffer_batch [OF assms(1) True assms(2,3)] show ?thesis
    by (rule returns_mono) auto
next
  case False
  with assms(1) have "pool_inv (16, n) n pr m fs os False" "fs \<noteq> []" by auto
  from AllocateBuffer_free [OF this] show ?thesis
    by (rule returns_mono) auto
qed

lemma ReleaseBuffer_seq:
  assumes inv: "pool_inv c n pr m fs os e" and r: "r \<in> set os"
    and os': "distinct os'" "set os' \<subseteq> set os - {r}"
  shows "returns (ReleaseBuffer all_ok (Some r) m) (\<lambda>(p, m'). p = None \<and> pool_inv c n pr m' (fs @ [r]) os' e
    \<and> bm_tick m' = bm_tick m)"
proof -
  obtain b where b: "bm_bufs m r = Some b" "owned n pr b" using pool_inv_out [OF inv r] by blast
  then have bi: "buf_inv b" "b_pool b = Some pr" "b_size b = n" by (simp_all add: owned_def)
  obtain b' where b': "BufferReset b = Inr b'" "clean n pr b'"
    using BufferReset_seq [OF bi(1)] bi by (auto simp: clean_def elim!: returnsE)
  obtain q where q: "pool_queue c pr m q" using inv by (auto simp: pool_inv_def)
  let ?m = "m\<lparr>bm_bufs := (bm_bufs m)(r \<mapsto> b')\<rparr>"
  have rn: "r \<notin> set (fs @ os')" "set os' \<subseteq> set os" "r < bm_tick m"
    using inv r os' by (auto simp: pool_inv_def)
  from pool_enqueue [OF inv q b'(2) rn(1,2) os'(1), of ?m] rn(3)
  obtain q' m2 where e: "Enqueue all_ok q (ITEM_DATA r) = Inr (True, q')" "set_pool_queue pr (Some q') ?m = Inr m2"
    "pool_inv c n pr m2 (fs @ [r]) os' e" "bm_tick m2 = bm_tick m"
    by auto
  with b b' bi q show ?thesis by (simp add: ReleaseBuffer_def pool_queue_def Enqueue_ptr_def)
qed

abbreviation pool_made :: "bmem \<Rightarrow> bmem" where
  "pool_made m \<equiv> m\<lparr>bm_pools := (bm_pools m)(bm_tick m \<mapsto> \<lparr>p_buffers = Some new_queue, p_batch = 0, p_bufferSize = 0\<rparr>),
     bm_tick := Suc (bm_tick m)\<rparr>"

lemma NewBufferPool_filled:
  assumes n: "0 \<le> n" "n \<le> INT_MAX - 2"
  obtains m2 m3 where "fill_pool both_ok all_ok 16 (bm_tick m) n (pool_made m) = Inr m2"
    "NewBufferPool both_ok all_ok True (NewQueue True (True, 0) (True, 0)) n m = Inr (Some (bm_tick m), m3)"
    "\<exists>p. m3 = m2\<lparr>bm_pools := (bm_pools m2)(bm_tick m \<mapsto> p)\<rparr>"
    "pool_inv (16, n) n (bm_tick m) m3 [Suc (bm_tick m)..<Suc (bm_tick m) + 16] [] False"
proof -
  let ?pr = "bm_tick m"
  have "pool_inv (0, 0) n ?pr (pool_made m) [] [] False"
    by (simp add: pool_inv_def pool_queue_def a_empty_def)
  from fill_pool_seq [OF this n, of 16] obtain m2 where
    m2: "fill_pool both_ok all_ok 16 ?pr n (pool_made m) = Inr m2"
      "pool_inv (0, 0) n ?pr m2 [Suc ?pr..<Suc ?pr + 16] [] False"
    by (auto elim!: returnsE)
  from m2(2) obtain q where q: "bm_pools m2 ?pr = Some \<lparr>p_buffers = Some q, p_batch = 0, p_bufferSize = 0\<rparr>"
    by (auto simp: pool_inv_def pool_queue_def)
  let ?m3 = "m2\<lparr>bm_pools := (bm_pools m2)(?pr \<mapsto> \<lparr>p_buffers = Some q, p_batch = 16, p_bufferSize = n\<rparr>)\<rparr>"
  have "pool_inv (16, n) n ?pr ?m3 [Suc ?pr..<Suc ?pr + 16] [] False"
    using m2(2) q by (auto simp: pool_inv_def pool_queue_def)
  moreover have "NewBufferPool both_ok all_ok True (NewQueue True (True, 0) (True, 0)) n m = Inr (Some ?pr, ?m3)"
    using m2(1) q by (simp add: NewBufferPool_def NewQueue_ok AIO4C_BUFFER_POOL_BATCH_SIZE_def Let_def del: fill_pool.simps)
  ultimately show ?thesis using that m2(1) by blast
qed

lemma NewBufferPool_seq:
  assumes n: "0 \<le> n" "n \<le> INT_MAX - 2"
  shows "returns (NewBufferPool both_ok all_ok True (NewQueue True (True, 0) (True, 0)) n m)
    (\<lambda>(p, m'). \<exists>pr fs. p = Some pr \<and> length fs = 16 \<and> pool_inv (16, n) n pr m' fs [] False)"
proof -
  obtain m2 m3 where "NewBufferPool both_ok all_ok True (NewQueue True (True, 0) (True, 0)) n m = Inr (Some (bm_tick m), m3)"
    "pool_inv (16, n) n (bm_tick m) m3 [Suc (bm_tick m)..<Suc (bm_tick m) + 16] [] False"
    by (rule NewBufferPool_filled [OF n, of m])
  moreover have "length [Suc (bm_tick m)..<Suc (bm_tick m) + 16] = 16" by simp
  ultimately show ?thesis by (intro returnsI) (assumption, blast)
qed

section \<open>Clients of a pool\<close>

text \<open>
  Clients allocate, release any buffer they hold, and use the buffers they hold in between.
\<close>

datatype pop = PAllocate | PRelease nat | PUse nat bop

fun pool_step :: "nat \<Rightarrow> pop \<Rightarrow> bmem \<times> nat list \<Rightarrow> (bmem \<times> nat list) res" where
  "pool_step pr PAllocate (m, os) =
     bnd (AllocateBuffer both_ok all_ok True pr m) (\<lambda>(r, m').
     case r of None \<Rightarrow> Inr (m', os) | Some b \<Rightarrow> Inr (m', b # os))"
| "pool_step pr (PRelease i) (m, os) =
     (if i < length os
      then bnd (ReleaseBuffer all_ok (Some (os ! i)) m) (\<lambda>(_, m'). Inr (m', take i os @ drop (Suc i) os))
      else Inr (m, os))"
| "pool_step pr (PUse i op) (m, os) =
     (if i < length os
      then bnd (deref (bm_bufs m (os ! i))) (\<lambda>b.
           bnd (buf_step op b) (\<lambda>b'. Inr (m\<lparr>bm_bufs := (bm_bufs m)(os ! i \<mapsto> b')\<rparr>, os)))
      else Inr (m, os))"

fun pool_run :: "nat \<Rightarrow> pop list \<Rightarrow> bmem \<times> nat list \<Rightarrow> (bmem \<times> nat list) res" where
  "pool_run pr [] s = Inr s"
| "pool_run pr (op # ops) s = bnd (pool_step pr op s) (pool_run pr ops)"

definition pool_ok :: "int \<Rightarrow> nat \<Rightarrow> bmem \<times> nat list \<Rightarrow> bool" where
  "pool_ok n pr = (\<lambda>(m, os). \<exists>fs e. pool_inv (16, n) n pr m fs os e)"

lemma pool_okI: "pool_inv (16, n) n pr m fs os e \<Longrightarrow> pool_ok n pr (m, os)"
  by (auto simp: pool_ok_def)

lemma pool_inv_use:
  assumes inv: "pool_inv c n pr m fs os e" and r: "r \<in> set os" and b: "owned n pr b"
  shows "pool_inv c n pr (m\<lparr>bm_bufs := (bm_bufs m)(r \<mapsto> b)\<rparr>) fs os e"
proof -
  have "r \<notin> set fs" using inv r by (auto simp: pool_inv_def)
  then have "\<forall>x \<in> set fs. ((bm_bufs m)(r \<mapsto> b)) x = bm_bufs m x" by auto
  with inv b show ?thesis by (simp add: pool_inv_def pool_queue_def)
qed

lemma buf_step_pool: "buf_step op b = Inr b' \<Longrightarrow> b_pool b' = b_pool b"
  by (cases op)
    (auto simp: buf_step_def bnd_eq_Inr BufferPut_def BufferGet_def BufferPutString_def BufferGetString_def
      BufferFlip_def BufferReset_def BufferPosition_def BufferLimit_def BufferCopy_def Let_def
      split: if_splits)

lemma pool_step_ok:
  assumes s: "pool_ok n pr s" and n: "0 \<le> n" "n \<le> INT_MAX - 2"
  shows "returns (pool_step pr op s) (pool_ok n pr)"
proof -
  obtain m os where ms: "s = (m, os)" by (cases s)
  with s obtain fs e where inv: "pool_inv (16, n) n pr m fs os e" by (auto simp: pool_ok_def)
  show ?thesis
  proof (cases op)
    case PAllocate
    from AllocateBuffer_seq [OF inv n] show ?thesis
      unfolding ms PAllocate by (auto intro: pool_okI elim!: returns_mono)
  next
    case (PRelease i)
    show ?thesis
    proof (cases "i < length os")
      case True
      have "distinct os" using inv by (auto simp: pool_inv_def)
      from remove_nth_distinct [OF this True]
      have d: "distinct (take i os @ drop (Suc i) os)" "set (take i os @ drop (Suc i) os) \<subseteq> set os - {os ! i}"
        by auto
      show ?thesis
        unfolding ms PRelease using True ReleaseBuffer_seq [OF inv _ d] by (auto intro: pool_okI elim!: returns_mono)
    next
      case False
      then show ?thesis using s by (simp add: ms PRelease)
    qed
  next
    case (PUse i bop)
    show ?thesis
    proof (cases "i < length os")
      case True
      then have r: "os ! i \<in> set os" by simp
      obtain b where b: "bm_bufs m (os ! i) = Some b" "owned n pr b" using pool_inv_out [OF inv r] by blast
      then have bi: "buf_inv b" by (simp add: owned_def)
      obtain b' where b': "buf_step bop b = Inr b'" "buf_inv b' \<and> b_size b' = b_size b"
        using buf_step_inv [OF bi] by (rule returnsE)
      with b buf_step_pool [OF b'(1)] have o: "owned n pr b'" by (simp add: owned_def)
      note u = pool_inv_use [OF inv r o]
      with True b(1) b'(1) show ?thesis by (simp add: ms PUse pool_okI)
    next
      case False
      then show ?thesis using s by (simp add: ms PUse)
    qed
  qed
qed

lemma pool_run_ok:
  "pool_ok n pr s \<Longrightarrow> 0 \<le> n \<Longrightarrow> n \<le> INT_MAX - 2 \<Longrightarrow> returns (pool_run pr ops s) (pool_ok n pr)"
proof (induction ops arbitrary: s)
  case Nil
  then show ?case by simp
next
  case (Cons op ops)
  show ?case
    unfolding pool_run.simps
    by (rule returns_bndI [OF pool_step_ok [OF Cons.prems]]) (rule Cons.IH [OF _ Cons.prems(2,3)])
qed

text \<open>
  C19. Whatever clients of a pool allocate, release and do to the buffers they hold, no buffer is
  ever in the hands of two of them, every buffer held is well formed and of the pool's capacity,
  and the next allocation yields a buffer that nobody holds, reset and zeroed.
\<close>

theorem pool_hands_out_once:
  assumes "0 \<le> n" and "n \<le> INT_MAX - 2"
  shows "returns
    (bnd (NewBufferPool both_ok all_ok True (NewQueue True (True, 0) (True, 0)) n
            \<lparr>bm_bufs = Map.empty, bm_pools = Map.empty, bm_tick = 0, bm_items = 0\<rparr>) (\<lambda>(p, m).
     bnd (deref p) (\<lambda>pr.
     bnd (pool_run pr ops (m, [])) (\<lambda>(m1, os).
     bnd (AllocateBuffer both_ok all_ok True pr m1) (\<lambda>(r, m2). Inr (m1, os, r, m2))))))
    (\<lambda>(m1, os, r, m2). distinct os
      \<and> (\<forall>x \<in> set os. \<exists>b. bm_bufs m1 x = Some b \<and> buf_inv b \<and> b_size b = n)
      \<and> (\<exists>x b. r = Some x \<and> x \<notin> set os \<and> bm_bufs m2 x = Some b \<and> b_position b = 0 \<and> b_limit b = n
          \<and> b_data b = replicate (nat (n + 2)) 0))"
proof -
  let ?m0 = "\<lparr>bm_bufs = Map.empty, bm_pools = Map.empty, bm_tick = 0, bm_items = 0\<rparr>"
  let ?P = "\<lambda>(m1, os, r, m2). distinct os
      \<and> (\<forall>x \<in> set os. \<exists>b. bm_bufs m1 x = Some b \<and> buf_inv b \<and> b_size b = n)
      \<and> (\<exists>x b. r = Some x \<and> x \<notin> set os \<and> bm_bufs m2 x = Some b \<and> b_position b = 0 \<and> b_limit b = n
          \<and> b_data b = replicate (nat (n + 2)) 0)"
  have new: "returns (NewBufferPool both_ok all_ok True (NewQueue True (True, 0) (True, 0)) n ?m0)
      (\<lambda>(p, m). \<exists>pr. p = Some pr \<and> pool_ok n pr (m, []))"
    by (rule returns_mono [OF NewBufferPool_seq [OF assms]]) (auto intro: pool_okI)
  have last: "returns (bnd (AllocateBuffer both_ok all_ok True pr m1) (\<lambda>(r, m2). Inr (m1, os, r, m2))) ?P"
    if ok: "pool_ok n pr (m1, os)" for pr m1 os
  proof -
    from ok obtain gs e where inv: "pool_inv (16, n) n pr m1 gs os e" by (auto simp: pool_ok_def)
    then have "distinct os" "\<forall>x \<in> set os. \<exists>b. bm_bufs m1 x = Some b \<and> buf_inv b \<and> b_size b = n"
      by (auto simp: pool_inv_def owned_def)
    with AllocateBuffer_seq [OF inv assms] show ?thesis
      by (auto simp: handed_out_def clean_def elim!: returns_mono)
  qed
  have run: "returns (bnd (pool_run pr ops (m, [])) (\<lambda>(m1, os).
      bnd (AllocateBuffer both_ok all_ok True pr m1) (\<lambda>(r, m2). Inr (m1, os, r, m2)))) ?P"
    if "pool_ok n pr (m, [])" for pr m
    using pool_run_ok [OF that assms, of ops] by (rule returns_bndI) (use last in auto)
  show ?thesis
    by (rule returns_bndI [OF new]) (use run in auto)
qed

theorem pool_hands_out_once_witness:
  "returns
    (bnd (NewBufferPool both_ok all_ok True (NewQueue True (True, 0) (True, 0)) 8
            \<lparr>bm_bufs = Map.empty, bm_pools = Map.empty, bm_tick = 0, bm_items = 0\<rparr>) (\<lambda>(p, m).
     bnd (deref p) (\<lambda>pr.
     bnd (pool_run pr [PAllocate, PUse 0 (BPut [1, 2]), PAllocate, PRelease 1, PAllocate] (m, [])) (\<lambda>(m1, os).
     bnd (AllocateBuffer both_ok all_ok True pr m1) (\<lambda>(r, m2). Inr (m1, os, r, m2))))))
    (\<lambda>(m1, os, r, m2). distinct os \<and> r \<noteq> None)"
  by (rule returns_mono [OF pool_hands_out_once]) (auto simp: INT_MAX_def)

text \<open>
  An allocation takes the oldest free buffer and allocates no memory, unless the queue's flag
  \<open>emptied\<close> is set: then it adds a whole batch of 16 buffers first although free ones are there.
\<close>

theorem allocation_cost:
  assumes "pool_inv (16, n) n pr m fs os e" and "fs \<noteq> []" and "0 \<le> n" and "n \<le> INT_MAX - 2"
  shows "returns (AllocateBuffer both_ok all_ok True pr m)
    (\<lambda>(r, m'). r = Some (hd fs) \<and> bm_tick m' = bm_tick m + (if e then 16 else 0))"
proof (cases e)
  case True
  from AllocateBuffer_batch [OF assms(1) _ assms(3,4)] True assms(2) show ?thesis
    by (auto elim!: returns_mono)
next
  case False
  from AllocateBuffer_free [of n pr m fs os both_ok all_ok] assms(1,2) False show ?thesis
    by (auto elim!: returns_mono)
qed

text \<open>A pool that has just lost its last free buffer and got it back.\<close>

definition tight_pool :: bmem where
  "tight_pool =
     \<lparr>bm_bufs = [0 \<mapsto> small_buffer\<lparr>b_pool := Some 0\<rparr>],
      bm_pools = [0 \<mapsto> \<lparr>p_buffers = Some new_queue, p_batch = 16, p_bufferSize = 8\<rparr>], bm_tick = 1, bm_items = 0\<rparr>"

lemma tight_pool_inv: "pool_inv (16, 8) 8 0 tight_pool [] [0] False"
  using small_buffer_inv
  by (simp add: pool_inv_def pool_queue_def tight_pool_def a_empty_def owned_def buf_inv_def small_buffer_def)

lemma emptied_pool: "\<exists>m. pool_inv (16, 8) 8 0 m [0] [] True"
proof -
  have "distinct []" "set [] \<subseteq> set [0] - {0 :: nat}" by simp_all
  from ReleaseBuffer_seq [OF tight_pool_inv _ this]
  obtain m1 where 1: "pool_inv (16, 8) 8 0 m1 [0] [] False" by (auto elim!: returnsE)
  from AllocateBuffer_free [OF this, of both_ok all_ok]
  obtain m2 where 2: "pool_inv (16, 8) 8 0 m2 [] [0] True" by (auto elim!: returnsE)
  from ReleaseBuffer_seq [OF 2 _ \<open>distinct []\<close> \<open>set [] \<subseteq> set [0] - {0}\<close>] show ?thesis
    by (auto elim!: returnsE)
qed

theorem allocation_cost_witness:
  "\<exists>m. returns (AllocateBuffer both_ok all_ok True 0 m) (\<lambda>(r, m'). r = Some 0 \<and> bm_tick m' = bm_tick m + 16)"
proof -
  obtain m where "pool_inv (16, 8) 8 0 m [0] [] True" using emptied_pool by blast
  from allocation_cost [OF this] show ?thesis by (intro exI [of _ m]) (simp add: INT_MAX_def)
qed

section \<open>Freeing a pool\<close>

lemma pool_inv_free_buf:
  assumes "pool_inv c n pr m fs (r # os) e"
  shows "pool_inv c n pr (m\<lparr>bm_bufs := (bm_bufs m)(r := None)\<rparr>) fs os e"
proof -
  have "r \<notin> set fs" "r \<notin> set os" using assms by (auto simp: pool_inv_def)
  then have "\<forall>x \<in> set (fs @ os). ((bm_bufs m)(r := None)) x = bm_bufs m x" by auto
  with assms show ?thesis by (simp add: pool_inv_def pool_queue_def)
qed

lemma drain_pool_seq:
  "pool_inv c n pr m fs os e \<Longrightarrow> Suc (length fs) < f \<Longrightarrow>
   returns (drain_pool f ok pr it m) (\<lambda>m'.
     pool_inv c n pr m' (if e then fs else []) os False \<and>
     (if e then bm_bufs m' = bm_bufs m else bm_bufs m' = bm_bufs m |` (- set fs)))"
proof (induction fs arbitrary: m e f it)
  case Nil
  then obtain f' where f: "f = Suc f'" by (cases f) auto
  from pool_Dequeue_seq [OF Nil(1), of ok it] show ?case
    unfolding f by (auto elim!: returns_mono)
next
  case (Cons b fs)
  then obtain f' where f: "f = Suc f'" "Suc (length fs) < f'" by (cases f) auto
  show ?case
  proof (cases e)
    case True
    from pool_Dequeue_seq [OF Cons.prems(1), of ok it] True show ?thesis
      unfolding f(1) by (auto elim!: returns_mono)
  next
    case False
    obtain m1 where d: "pool_Dequeue ok pr it m = Inr (True, ITEM_DATA b, m1)"
      "pool_inv c n pr m1 fs (b # os) (fs = [])" "bm_bufs m1 = bm_bufs m"
      using pool_Dequeue_seq [OF Cons.prems(1), of ok it] False by (auto elim!: returnsE)
    let ?m2 = "m1\<lparr>bm_bufs := (bm_bufs m1)(b := None)\<rparr>"
    have i: "pool_inv c n pr ?m2 fs os (fs = [])" by (rule pool_inv_free_buf [OF d(2)])
    have "\<exists>bf. bm_bufs m1 b = Some bf" using pool_inv_out [OF d(2), of b] by auto
    then have s: "drain_pool f ok pr it m = drain_pool f' ok pr (ITEM_DATA b) ?m2"
      using d(1) by (auto simp: f(1) mem_FreeBuffer_def)
    show ?thesis
      unfolding s
    proof (rule returns_mono [OF Cons.IH [OF i f(2)]], elim conjE)
      fix m'
      assume "pool_inv c n pr m' (if fs = [] then fs else []) os False"
        and b: "if fs = [] then bm_bufs m' = bm_bufs ?m2 else bm_bufs m' = bm_bufs ?m2 |` (- set fs)"
      moreover have "bm_bufs m' = bm_bufs m |` (- set (b # fs))"
        using b d(3) by (auto simp: restrict_map_def fun_eq_iff split: if_splits)
      ultimately show "pool_inv c n pr m' (if e then b # fs else []) os False \<and>
          (if e then bm_bufs m' = bm_bufs m else bm_bufs m' = bm_bufs m |` (- set (b # fs)))"
        using False by (auto split: if_splits)
    qed
  qed
qed

lemma drain_pool_pools: "drain_pool f okq pr it m = Inr m' \<Longrightarrow> p \<noteq> pr \<Longrightarrow> bm_pools m' p = bm_pools m p"
proof (induction f arbitrary: m it)
  case (Suc f)
  obtain d it' m1 where d: "pool_Dequeue okq pr it m = Inr (d, it', m1)" using Suc.prems(1) by (auto simp: bnd_eq_Inr)
  then have m1: "bm_pools m1 p = bm_pools m p" using Suc.prems(2)
    by (auto simp: pool_Dequeue_def bnd_eq_Inr set_pool_queue_def)
  show ?case
  proof (cases d)
    case True
    then obtain b x m2 where m2: "mem_FreeBuffer (Some b) m1 = Inr (x, m2)" "drain_pool f okq pr it' m2 = Inr m'"
      using Suc.prems(1) d by (auto simp: bnd_eq_Inr)
    then have "bm_pools m2 p = bm_pools m1 p" by (auto simp: mem_FreeBuffer_def bnd_eq_Inr)
    then show ?thesis using Suc.IH [OF m2(2) Suc.prems(2)] m1 by simp
  qed (use Suc.prems(1) d m1 in simp)
qed simp

lemma FreeBufferPool_seq:
  assumes "pool_inv (16, n) n pr m fs os e" and "Suc (length fs) < f"
  shows "returns (FreeBufferPool f all_ok True (Some pr) m)
    (\<lambda>(p, m'). p = None \<and> bm_pools m' = (bm_pools m)(pr := None) \<and>
       bm_bufs m' = (if e then bm_bufs m else bm_bufs m |` (- set fs)))"
proof -
  from drain_pool_seq [OF assms, of all_ok ITEM_UNDEFINED] obtain m1 where
    d: "drain_pool f all_ok pr ITEM_UNDEFINED m = Inr m1"
      "pool_inv (16, n) n pr m1 (if e then fs else []) os False"
      "bm_bufs m1 = (if e then bm_bufs m else bm_bufs m |` (- set fs))"
    by (cases e) (auto elim!: returnsE)
  from d(2) obtain q where q: "bm_pools m1 pr = Some \<lparr>p_buffers = Some q, p_batch = 16, p_bufferSize = n\<rparr>" "q_inv q"
    by (auto simp: pool_inv_def pool_queue_def)
  moreover have "(bm_pools m1)(pr := None) = (bm_pools m)(pr := None)"
    using drain_pool_pools [OF d(1)] by (auto simp: fun_eq_iff)
  ultimately show ?thesis using d FreeQueue_seq [OF q(2)] by (simp add: FreeBufferPool_def NewQueueItem_def)
qed

text \<open>
  \<open>FreeBufferPool\<close> frees the pool and all its free buffers, and nothing that clients still
  hold, provided the flag \<open>emptied\<close> of its queue is not set; when it is set, the draining loop ends
  at once and every free buffer is leaked.
\<close>

theorem free_pool_frees_its_buffers:
  assumes "pool_inv (16, n) n pr m fs os e" and "Suc (length fs) < f"
  shows "returns (FreeBufferPool f all_ok True (Some pr) m)
    (\<lambda>(p, m'). p = None \<and> bm_pools m' pr = None \<and>
       bm_bufs m' = (if e then bm_bufs m else bm_bufs m |` (- set fs)))"
  by (rule returns_mono [OF FreeBufferPool_seq [OF assms]]) auto

theorem free_pool_frees_its_buffers_witness:
  "\<exists>m. bm_bufs m 0 \<noteq> None \<and> returns (FreeBufferPool 3 all_ok True (Some 0) m)
    (\<lambda>(p, m'). p = None \<and> bm_pools m' 0 = None \<and> bm_bufs m' = bm_bufs m)"
proof -
  obtain m where m: "pool_inv (16, 8) 8 0 m [0] [] True" using emptied_pool by blast
  then have "bm_bufs m 0 \<noteq> None" by (auto simp: pool_inv_def)
  with free_pool_frees_its_buffers [OF m, of 3] show ?thesis by (intro exI [of _ m]) simp
qed

text \<open>
  When a pool has no free buffer and no memory for one, \<open>AllocateBuffer\<close> returns NULL, the
  pool is as before, and the queue item it allocated for the dequeue is never freed.
\<close>

theorem allocation_failure_leaks_item:
  assumes inv: "pool_inv (16, n) n pr m [] os e" and n: "0 \<le> n" "n \<le> INT_MAX - 2"
    and oom: "\<forall>t. \<not> fst (okb t)"
  shows "returns (AllocateBuffer okb all_ok True pr m)
    (\<lambda>(r, m'). r = None \<and> bm_bufs m' = bm_bufs m \<and> bm_items m' = bm_items m + 1)"
proof -
  let ?m = "m\<lparr>bm_items := bm_items m + 1\<rparr>"
  have i: "pool_inv (16, n) n pr ?m [] os e" using inv by simp
  from pool_Dequeue_seq [OF i, of all_ok ITEM_UNDEFINED] obtain it m1 where
    d: "pool_Dequeue all_ok pr ITEM_UNDEFINED ?m = Inr (False, it, m1)" "pool_inv (16, n) n pr m1 [] os False"
      "bm_items m1 = bm_items m + 1" "bm_bufs m1 = bm_bufs m"
    by (auto elim!: returnsE)
  let ?m2 = "m1\<lparr>bm_tick := Suc (bm_tick m1)\<rparr>"
  have "fill_pool okb all_ok 16 pr n m1 = Inr ?m2"
    using oom by (simp add: numeral_eq_Suc mem_NewBuffer_def Let_def NewBuffer_def)
  moreover have "pool_inv (16, n) n pr ?m2 [] os False"
    using d(2) by (auto simp: pool_inv_def pool_queue_def)
  from pool_Dequeue_seq [OF this, of all_ok it] obtain it2 m3 where
    "pool_Dequeue all_ok pr it ?m2 = Inr (False, it2, m3)" "bm_items m3 = bm_items m + 1" "bm_bufs m3 = bm_bufs m"
    using d(3,4) by (auto elim!: returnsE)
  moreover obtain p where "bm_pools m1 pr = Some p" "p_batch p = 16" "p_bufferSize p = n"
    using pool_inv_cfg [OF d(2)] by auto
  ultimately show ?thesis
    using d(1) by (simp add: AllocateBuffer_def NewQueueItem_def)
qed

theorem allocation_failure_leaks_item_witness:
  "returns (AllocateBuffer (\<lambda>_. (False, False)) all_ok True 0 tight_pool) (\<lambda>(r, m'). r = None \<and> bm_items m' = 1)"
  using allocation_failure_leaks_item [OF tight_pool_inv, of "\<lambda>_. (False, False)"]
  by (auto simp: INT_MAX_def tight_pool_def elim!: returns_mono)

end
