(* ===== verification/Connections.thy ===== *)
theory Connections
  imports Pools Events
begin

text \<open>
  Connections (\<open>src/connection.c\<close>, POSIX with \<open>poll\<close>): the life of one connection with its buffers
  in the pool's memory, its two handler queues and its locks. The results of the system calls are
  parameters of the operations. Callbacks are a parameter too and may act on the whole world.
\<close>

section \<open>State\<close>

datatype conn_state =
    STATE_NONE | STATE_INITIALIZED | STATE_CONNECTING | STATE_CONNECTED | STATE_PENDING_CLOSE | STATE_CLOSED | STATE_MAX

datatype owner = OWNER_READER | OWNER_WORKER | OWNER_WRITER | OWNER_ACCEPTOR | OWNER_CLIENT

definition all_owners :: "owner list" where
  "all_owners = [OWNER_READER, OWNER_WORKER, OWNER_WRITER, OWNER_ACCEPTOR, OWNER_CLIENT]"

datatype conn_error =
    SOCKET_ERROR | FCNTL_ERROR | GETSOCKOPT_ERROR | CONNECT_ERROR | FINISH_CONNECT_ERROR | CONNECTION_DISCONNECTED
  | POLL_ERROR | READ_ERROR | WRITE_ERROR | OVERFLOW_ERROR | UNDERFLOW_ERROR | CONNECTION_STATE_ERROR | EVENT_HANDLER_ERROR

text \<open>
  \<open>struct s_Connection\<close> without its two event queues, which stand beside it in the world below.
  Buffers, pools and addresses are references; selection keys belong to the reader and the writer.
\<close>

record conn =
  cn_readBuffer :: "nat option"
  cn_writeBuffer :: "nat option"
  cn_dataBuffer :: "nat option"
  cn_socket :: int
  cn_address :: "nat option"
  cn_state :: conn_state
  cn_stateLock :: "lock option"
  cn_closedForError :: bool
  cn_string :: "string option"
  cn_stringAllocated :: bool
  cn_closedBy :: "owner \<Rightarrow> bool"
  cn_closedByLock :: "lock option"
  cn_managedBy :: "owner \<Rightarrow> bool"
  cn_managedByLock :: "lock option"
  cn_pool :: "nat option"
  cn_freeAddress :: bool
  cn_canRead :: bool
  cn_canWrite :: bool
  cn_isFactory :: bool

text \<open>What the connection does to its socket.\<close>

datatype net_act = NetSend "byte list" | NetShutdownWrite | NetShutdownBoth | NetClose

text \<open>
  \<open>k_addrs\<close> holds the strings of the live addresses, \<open>k_raised\<close> the errors raised, oldest first,
  \<open>k_user\<close> whatever else the callbacks work on.
\<close>

record 'u core =
  k_conn :: conn
  k_mem :: bmem
  k_addrs :: "nat \<rightharpoonup> string"
  k_raised :: "conn_error list"
  k_net :: "net_act list"
  k_user :: 'u

record ('c, 'd, 'u) world =
  w_sys :: "('c, 'd) equeue option"
  w_usr :: "('c, 'd) equeue option"
  w_core :: "'u core"

type_synonym ('c, 'd, 'u) callbacks =
  "'c \<Rightarrow> event \<Rightarrow> 'd option \<Rightarrow> ('c, 'd, 'u) world \<Rightarrow> ('c, 'd, 'u) world res"

definition put_sys :: "('c, 'd) equeue \<Rightarrow> ('c, 'd, 'u) world \<Rightarrow> ('c, 'd, 'u) world" where
  "put_sys q w = w\<lparr>w_sys := Some q\<rparr>"

definition put_usr :: "('c, 'd) equeue \<Rightarrow> ('c, 'd, 'u) world \<Rightarrow> ('c, 'd, 'u) world" where
  "put_usr q w = w\<lparr>w_usr := Some q\<rparr>"

definition upd_conn :: "(conn \<Rightarrow> conn) \<Rightarrow> 'u core \<Rightarrow> 'u core" where
  "upd_conn g k = k\<lparr>k_conn := g (k_conn k)\<rparr>"

definition upd_core :: "('u core \<Rightarrow> 'u core) \<Rightarrow> ('c, 'd, 'u) world \<Rightarrow> ('c, 'd, 'u) world" where
  "upd_core g w = w\<lparr>w_core := g (w_core w)\<rparr>"

abbreviation w_conn :: "('c, 'd, 'u) world \<Rightarrow> conn" where
  "w_conn w \<equiv> k_conn (w_core w)"

definition get_buf :: "'u core \<Rightarrow> nat option \<Rightarrow> (nat \<times> buffer) res" where
  "get_buf k p = bnd (deref p) (\<lambda>r. bnd (deref (bm_bufs (k_mem k) r)) (\<lambda>b. Inr (r, b)))"

definition put_buf :: "nat \<Rightarrow> buffer \<Rightarrow> 'u core \<Rightarrow> 'u core" where
  "put_buf r b k = k\<lparr>k_mem := (k_mem k)\<lparr>bm_bufs := (bm_bufs (k_mem k))(r \<mapsto> b)\<rparr>\<rparr>"

section \<open>Creation\<close>

text \<open>The allocations of \<open>NewConnection\<close>: the structure, the buffers, the two queues and the three locks.\<close>

record conn_env =
  ce_mem :: bool
  ce_okb :: "nat \<Rightarrow> bool \<times> bool"
  ce_okq :: "nat \<Rightarrow> bool"
  ce_item :: bool
  ce_sys :: bool
  ce_usr :: bool
  ce_lock :: "nat \<Rightarrow> bool"

definition NewConnection ::
  "conn_env \<Rightarrow> nat \<Rightarrow> nat option \<Rightarrow> bool \<Rightarrow> (nat \<rightharpoonup> string) \<Rightarrow> 'u \<Rightarrow> bmem \<Rightarrow> (('c, 'd, 'u) world option \<times> bmem) res" where
  "NewConnection env pool address freeAddress addrs u m =
     (if \<not> ce_mem env then Inr (None, m)
      else
        bnd (AllocateBuffer (ce_okb env) (ce_okq env) (ce_item env) pool m) (\<lambda>(rb, m1).
        bnd (AllocateBuffer (ce_okb env) (ce_okq env) (ce_item env) pool m1) (\<lambda>(wb, m2).
        bnd (deref wb) (\<lambda>r.
        bnd (deref (bm_bufs m2 r)) (\<lambda>b.
        bnd (deref address) (\<lambda>a.
        bnd (deref (addrs a)) (\<lambda>str.
        let m3 = m2\<lparr>bm_bufs := (bm_bufs m2)(r \<mapsto> snd (BufferLimit b 0))\<rparr> in
        Inr (Some \<lparr>w_sys = NewEventQueue (ce_sys env), w_usr = NewEventQueue (ce_usr env), w_core =
          \<lparr>k_conn = \<lparr>cn_readBuffer = rb, cn_writeBuffer = wb, cn_dataBuffer = None, cn_socket = - 1, cn_address = address,
             cn_state = STATE_NONE, cn_stateLock = NewLock (ce_lock env 0) 0, cn_closedForError = False,
             cn_string = Some str, cn_stringAllocated = False,
             cn_closedBy = (\<lambda>_. False)(OWNER_ACCEPTOR := True), cn_closedByLock = NewLock (ce_lock env 1) 0,
             cn_managedBy = (\<lambda>_. False)(OWNER_ACCEPTOR := True, OWNER_CLIENT := True),
             cn_managedByLock = NewLock (ce_lock env 2) 0, cn_pool = None, cn_freeAddress = freeAddress,
             cn_canRead = False, cn_canWrite = False, cn_isFactory = False\<rparr>,
           k_mem = m3, k_addrs = addrs, k_raised = [], k_net = [], k_user = u\<rparr>\<rparr>, m3))))))))"

definition NewConnectionFactory ::
  "bool \<Rightarrow> bool \<Rightarrow> bool \<Rightarrow> nat option \<Rightarrow> (nat \<rightharpoonup> string) \<Rightarrow> 'u \<Rightarrow> bmem \<Rightarrow> ('c, 'd, 'u) world option" where
  "NewConnectionFactory mem_ok sys_ok usr_ok pool addrs u m =
     (if \<not> mem_ok then None
      else Some \<lparr>w_sys = NewEventQueue sys_ok, w_usr = NewEventQueue usr_ok, w_core =
          \<lparr>k_conn = \<lparr>cn_readBuffer = None, cn_writeBuffer = None, cn_dataBuffer = None, cn_socket = - 1, cn_address = None,
             cn_state = STATE_NONE, cn_stateLock = None, cn_closedForError = False,
             cn_string = Some ''factory'', cn_stringAllocated = False,
             cn_closedBy = (\<lambda>_. False), cn_closedByLock = None, cn_managedBy = (\<lambda>_. False),
             cn_managedByLock = None, cn_pool = pool, cn_freeAddress = False,
             cn_canRead = False, cn_canWrite = False, cn_isFactory = True\<rparr>,
           k_mem = m, k_addrs = addrs, k_raised = [], k_net = [], k_user = u\<rparr>\<rparr>)"

text \<open>
  \<open>data\<close> is what the factory's callback returns for the new connection. The factory's queues live in
  another object; only their contents are read. The second component is the memory afterwards, the
  third what has been done to the socket.
\<close>

definition ConnectionFactoryCreate ::
  "conn_env \<Rightarrow> (nat \<Rightarrow> bool) \<Rightarrow> bool \<Rightarrow> ('c, 'd, 'u) world \<Rightarrow> nat option \<Rightarrow> int \<Rightarrow> 'd option \<Rightarrow> 'u \<Rightarrow> bmem \<Rightarrow>
   (('c, 'd, 'u) world option \<times> bmem \<times> net_act list) res" where
  "ConnectionFactoryCreate env okc fcntl_ok factory address sock data u m =
     bnd (deref (cn_pool (w_conn factory))) (\<lambda>pool.
     bnd (NewConnection env pool address True (k_addrs (w_core factory)) u m) (\<lambda>(p, m1).
     bnd (deref p) (\<lambda>w.
     let w1 = upd_core (upd_conn (\<lambda>c. c\<lparr>cn_socket := sock\<rparr>)) w in
     if \<not> fcntl_ok then Inr (None, m1, [NetShutdownBoth, NetClose])
     else
       bnd (deref (w_usr w1)) (\<lambda>du.
       bnd (deref (w_usr factory)) (\<lambda>su.
       bnd (CopyEventQueue okc du su data) (\<lambda>du'.
       bnd (deref (w_sys w1)) (\<lambda>ds.
       bnd (deref (w_sys factory)) (\<lambda>ss.
       bnd (CopyEventQueue okc ds ss None) (\<lambda>ds'.
       Inr (Some (upd_core (upd_conn (\<lambda>c. c\<lparr>cn_closedBy := (cn_closedBy c)(OWNER_ACCEPTOR := False, OWNER_CLIENT := True)\<rparr>))
              (w1\<lparr>w_usr := Some du', w_sys := Some ds'\<rparr>)), m1, []))))))))))"

section \<open>Events and states\<close>

text \<open>
  \<open>_ConnectionEventHandle\<close>: the system handlers, then the user handlers. \<open>f\<close> bounds the number of
  handlers called in either queue.
\<close>

definition ConnectionEventHandle ::
  "('c, 'd, 'u) callbacks \<Rightarrow> nat \<Rightarrow> event \<Rightarrow> ('c, 'd, 'u) world \<Rightarrow> ('c, 'd, 'u) world res" where
  "ConnectionEventHandle cb f ev w =
     bnd (EventHandle w_sys put_sys cb f ev w) (\<lambda>w1. EventHandle w_usr put_usr cb f ev w1)"

text \<open>
  Becoming connected names the connection: \<open>ne_addr\<close> and \<open>ne_mem\<close> are the allocations of the
  address and of the name, \<open>ne_sock\<close> is \<open>getsockname\<close>, \<open>ne_info\<close> what \<open>getnameinfo\<close> finds.
\<close>

record name_env =
  ne_addr :: bool
  ne_sock :: bool
  ne_info :: "(string \<times> string) option"
  ne_mem :: bool

definition c_snprintf :: "nat \<Rightarrow> string \<Rightarrow> string" where
  "c_snprintf n str = take (n - 1) str"

definition connection_name :: "string \<Rightarrow> string \<Rightarrow> string \<Rightarrow> string" where
  "connection_name h sv a =
     c_snprintf (length a + length h + length sv + 8) (''['' @ h @ '']:'' @ sv @ '' -> '' @ a)"

definition name_connection :: "name_env \<Rightarrow> 'u core \<Rightarrow> 'u core res" where
  "name_connection env k =
     (case cn_string (k_conn k) of
        None \<Rightarrow> Inr k
      | Some _ \<Rightarrow>
          bnd (deref (cn_address (k_conn k))) (\<lambda>r.
          bnd (deref (k_addrs k r)) (\<lambda>a.
          let k1 = (if ne_addr env \<and> ne_sock env \<and> ne_mem env then
                      (case ne_info env of
                         None \<Rightarrow> k
                       | Some (h, sv) \<Rightarrow>
                           upd_conn (\<lambda>c. c\<lparr>cn_string := Some (connection_name h sv a), cn_stringAllocated := True\<rparr>) k)
                    else k) in
          bnd (deref (if ne_addr env then Some () else None)) (\<lambda>_. Inr k1))))"

text \<open>What entering a state does before the lock is released again.\<close>

definition enter_state ::
  "('c, 'd, 'u) callbacks \<Rightarrow> nat \<Rightarrow> name_env \<Rightarrow> conn_state \<Rightarrow> ('c, 'd, 'u) world \<Rightarrow> ('c, 'd, 'u) world res" where
  "enter_state cb f env st w =
     (case st of
        STATE_NONE \<Rightarrow> Inr w
      | STATE_INITIALIZED \<Rightarrow> ConnectionEventHandle cb f INIT_EVENT w
      | STATE_CONNECTING \<Rightarrow>
          ConnectionEventHandle cb f CONNECTING_EVENT
            (upd_core (upd_conn (\<lambda>c. c\<lparr>cn_canRead := False, cn_canWrite := False\<rparr>)) w)
      | STATE_CONNECTED \<Rightarrow>
          bnd (name_connection env (w_core w)) (\<lambda>k.
          ConnectionEventHandle cb f CONNECTED_EVENT
            (upd_core (upd_conn (\<lambda>c. c\<lparr>cn_canRead := True, cn_canWrite := True\<rparr>)) (w\<lparr>w_core := k\<rparr>)))
      | STATE_PENDING_CLOSE \<Rightarrow>
          ConnectionEventHandle cb f PENDING_CLOSE_EVENT
            (upd_core (upd_conn (\<lambda>c. c\<lparr>cn_canRead := False, cn_canWrite := True\<rparr>)) w)
      | STATE_CLOSED \<Rightarrow>
          ConnectionEventHandle cb f CLOSE_EVENT
            (upd_core (upd_conn (\<lambda>c. c\<lparr>cn_canRead := False, cn_canWrite := False\<rparr>)) w)
      | STATE_MAX \<Rightarrow> Inr w)"

definition ConnectionState ::
  "('c, 'd, 'u) callbacks \<Rightarrow> nat \<Rightarrow> name_env \<Rightarrow> conn_state \<Rightarrow> ('c, 'd, 'u) world \<Rightarrow> ('c, 'd, 'u) world res" where
  "ConnectionState cb f env st w =
     (if cn_state (w_conn w) = st then Inr w
      else
        bnd (acquire (cn_stateLock (w_conn w))) (\<lambda>lk.
        bnd (enter_state cb f env st (upd_core (upd_conn (\<lambda>c. c\<lparr>cn_stateLock := lk, cn_state := st\<rparr>)) w)) (\<lambda>w1.
        bnd (release (cn_stateLock (w_conn w1))) (\<lambda>lk'.
        Inr (upd_core (upd_conn (\<lambda>c. c\<lparr>cn_stateLock := lk'\<rparr>)) w1)))))"

definition ConnectionClose ::
  "('c, 'd, 'u) callbacks \<Rightarrow> nat \<Rightarrow> name_env \<Rightarrow> bool \<Rightarrow> ('c, 'd, 'u) world \<Rightarrow> ('c, 'd, 'u) world res" where
  "ConnectionClose cb f env force w =
     ConnectionState cb f env (if force then STATE_CLOSED else STATE_PENDING_CLOSE) w"

definition ConnectionHandleError ::
  "('c, 'd, 'u) callbacks \<Rightarrow> nat \<Rightarrow> name_env \<Rightarrow> conn_error \<Rightarrow> ('c, 'd, 'u) world \<Rightarrow> ('c, 'd, 'u) world res" where
  "ConnectionHandleError cb f env e w =
     ConnectionClose cb f env True
       (upd_core (\<lambda>k. upd_conn (\<lambda>c. c\<lparr>cn_closedForError := (e \<noteq> CONNECTION_DISCONNECTED)\<rparr>)
          (k\<lparr>k_raised := k_raised k @ [e]\<rparr>)) w)"

section \<open>Establishing a connection\<close>

text \<open>\<open>sock\<close> is the descriptor that \<open>socket\<close> returns.\<close>

definition ConnectionInit ::
  "('c, 'd, 'u) callbacks \<Rightarrow> nat \<Rightarrow> name_env \<Rightarrow> int \<Rightarrow> bool \<Rightarrow> ('c, 'd, 'u) world \<Rightarrow> ('c, 'd, 'u) world res" where
  "ConnectionInit cb f env sock fcntl_ok w =
     (let w1 = upd_core (upd_conn (\<lambda>c. c\<lparr>cn_socket := sock\<rparr>)) w in
      if sock = - 1 then ConnectionHandleError cb f env SOCKET_ERROR w1
      else if \<not> fcntl_ok then ConnectionHandleError cb f env FCNTL_ERROR w1
      else ConnectionState cb f env STATE_INITIALIZED w1)"

datatype connect_result = ConnectDone | ConnectInProgress | ConnectFailed

definition ConnectionConnect ::
  "('c, 'd, 'u) callbacks \<Rightarrow> nat \<Rightarrow> name_env \<Rightarrow> connect_result \<Rightarrow> ('c, 'd, 'u) world \<Rightarrow> ('c, 'd, 'u) world res" where
  "ConnectionConnect cb f env r w =
     (if cn_state (w_conn w) \<noteq> STATE_INITIALIZED then ConnectionHandleError cb f env CONNECTION_STATE_ERROR w
      else
        bnd (deref (cn_address (w_conn w))) (\<lambda>a.
        bnd (deref (k_addrs (w_core w) a)) (\<lambda>_.
        case r of
          ConnectFailed \<Rightarrow> ConnectionHandleError cb f env CONNECT_ERROR w
        | ConnectInProgress \<Rightarrow> ConnectionState cb f env STATE_CONNECTING w
        | ConnectDone \<Rightarrow> ConnectionState cb f env STATE_CONNECTED w)))"

text \<open>\<open>pl\<close>: the signed \<open>revents\<close>, if \<open>poll\<close> succeeds; \<open>so\<close>: the pending error, if \<open>getsockopt\<close> does.\<close>

definition ConnectionFinishConnect ::
  "('c, 'd, 'u) callbacks \<Rightarrow> nat \<Rightarrow> name_env \<Rightarrow> int option \<Rightarrow> int option \<Rightarrow> ('c, 'd, 'u) world \<Rightarrow> ('c, 'd, 'u) world res" where
  "ConnectionFinishConnect cb f env pl so w =
     (case pl of
        None \<Rightarrow> ConnectionHandleError cb f env POLL_ERROR w
      | Some revents \<Rightarrow>
          if revents > 0 then
            (case so of
               None \<Rightarrow> ConnectionHandleError cb f env GETSOCKOPT_ERROR w
             | Some e \<Rightarrow> if e \<noteq> 0 then ConnectionHandleError cb f env FINISH_CONNECT_ERROR w else Inr w)
          else Inr w)"

section \<open>Reading and writing\<close>

text \<open>
  \<open>rv\<close> is what \<open>recv\<close> delivers when there is room for the given number of bytes, \<open>None\<close> for an error
  and \<open>[]\<close> at the end of the stream; it stores the bytes at the buffer's position before it returns.
\<close>

definition ConnectionRead ::
  "('c, 'd, 'u) callbacks \<Rightarrow> nat \<Rightarrow> name_env \<Rightarrow> (int \<Rightarrow> byte list option) \<Rightarrow> ('c, 'd, 'u) world \<Rightarrow> ('c, 'd, 'u) world res" where
  "ConnectionRead cb f env rv w =
     bnd (get_buf (w_core w) (cn_readBuffer (w_conn w))) (\<lambda>(r, b).
     if \<not> BufferHasRemaining b then ConnectionHandleError cb f env OVERFLOW_ERROR w
     else
       bnd (BufferRemaining b) (\<lambda>n.
       case rv n of
         None \<Rightarrow> ConnectionHandleError cb f env READ_ERROR w
       | Some bs \<Rightarrow>
           bnd (mwrite (BufferGetBytes b) (BufferGetPosition b) bs) (\<lambda>d.
           let b1 = b\<lparr>b_data := d\<rparr>; w1 = upd_core (put_buf r b1) w in
           if bs = [] then
             (if cn_state (w_conn w1) = STATE_PENDING_CLOSE then ConnectionState cb f env STATE_CLOSED w1
              else ConnectionHandleError cb f env CONNECTION_DISCONNECTED w1)
           else if \<not> cn_canRead (w_conn w1) then
             bnd (BufferReset b1) (\<lambda>b2. Inr (upd_core (put_buf r b2) w1))
           else
             bnd (c_int (BufferGetPosition b1 + int (length bs))) (\<lambda>p.
             ConnectionEventHandle cb f INBOUND_DATA_EVENT
               (upd_core (put_buf r (snd (BufferPosition b1 p))) w1)))))"

definition ConnectionProcessData ::
  "('c, 'd, 'u) callbacks \<Rightarrow> nat \<Rightarrow> ('c, 'd, 'u) world \<Rightarrow> ('c, 'd, 'u) world res" where
  "ConnectionProcessData cb f w = ConnectionEventHandle cb f READ_EVENT w"

definition ConnectionShutdown :: "('c, 'd, 'u) world \<Rightarrow> ('c, 'd, 'u) world" where
  "ConnectionShutdown w = upd_core (\<lambda>k. k\<lparr>k_net := k_net k @ [NetShutdownWrite]\<rparr>) w"

text \<open>When nothing is left to send, the handlers of \<open>WRITE_EVENT\<close> fill the buffer.\<close>

definition refill ::
  "('c, 'd, 'u) callbacks \<Rightarrow> nat \<Rightarrow> nat option \<Rightarrow> ('c, 'd, 'u) world \<Rightarrow> ('c, 'd, 'u) world res" where
  "refill cb f buffer w =
     bnd (get_buf (w_core w) buffer) (\<lambda>(r, b).
     if \<not> BufferHasRemaining b then
       bnd (BufferReset b) (\<lambda>b1.
       bnd (ConnectionEventHandle cb f WRITE_EVENT (upd_core (put_buf r b1) w)) (\<lambda>w1.
       bnd (get_buf (w_core w1) buffer) (\<lambda>(_, b2).
       Inr (upd_core (put_buf r (BufferFlip b2)) w1))))
     else Inr w)"

text \<open>
  \<open>sn\<close>: how many of the bytes it is given \<open>send\<close> takes, \<open>None\<close> for an error. The boolean asks to be
  called again.
\<close>

definition send_pending ::
  "('c, 'd, 'u) callbacks \<Rightarrow> nat \<Rightarrow> name_env \<Rightarrow> (nat \<Rightarrow> nat option) \<Rightarrow> bool \<Rightarrow> nat option \<Rightarrow> ('c, 'd, 'u) world \<Rightarrow>
   (bool \<times> ('c, 'd, 'u) world) res" where
  "send_pending cb f env sn pendingCloseMemorized buffer w =
     bnd (get_buf (w_core w) buffer) (\<lambda>(r, b).
     bnd (c_int (BufferGetLimit b - BufferGetPosition b)) (\<lambda>n.
     if n < 0 then bnd (ConnectionHandleError cb f env UNDERFLOW_ERROR w) (\<lambda>w1. Inr (False, w1))
     else
       bnd (mread (BufferGetBytes b) (BufferGetPosition b) n) (\<lambda>bytes.
       case sn (length bytes) of
         None \<Rightarrow> bnd (ConnectionHandleError cb f env WRITE_ERROR w) (\<lambda>w1. Inr (False, w1))
       | Some k \<Rightarrow>
           bnd (c_int (BufferGetPosition b + int k)) (\<lambda>p.
           let b1 = snd (BufferPosition b p);
               w1 = upd_core (\<lambda>c. (put_buf r b1 c)\<lparr>k_net := k_net c @ [NetSend (take k bytes)]\<rparr>) w in
           bnd (get_buf (w_core w1) (cn_writeBuffer (w_conn w1))) (\<lambda>(_, b2).
           if BufferHasRemaining b2 then Inr (True, w1)
           else Inr (False, if pendingCloseMemorized then ConnectionShutdown w1 else w1))))))"

definition ConnectionWrite ::
  "('c, 'd, 'u) callbacks \<Rightarrow> nat \<Rightarrow> name_env \<Rightarrow> (nat \<Rightarrow> nat option) \<Rightarrow> ('c, 'd, 'u) world \<Rightarrow> (bool \<times> ('c, 'd, 'u) world) res" where
  "ConnectionWrite cb f env sn w =
     (if \<not> cn_canWrite (w_conn w) then
        bnd (ConnectionHandleError cb f env CONNECTION_STATE_ERROR w) (\<lambda>w1. Inr (False, w1))
      else
        let buffer = cn_writeBuffer (w_conn w);
            pendingCloseMemorized = (cn_state (w_conn w) = STATE_PENDING_CLOSE) in
        bnd (refill cb f buffer w) (\<lambda>w1. send_pending cb f env sn pendingCloseMemorized buffer w1))"

definition EnableWriteInterest ::
  "('c, 'd, 'u) callbacks \<Rightarrow> nat \<Rightarrow> ('c, 'd, 'u) world \<Rightarrow> ('c, 'd, 'u) world res" where
  "EnableWriteInterest cb f w =
     (if cn_canWrite (w_conn w) then ConnectionEventHandle cb f OUTBOUND_DATA_EVENT w else Inr w)"

section \<open>Owners\<close>

definition ConnectionNoMoreUsed :: "owner \<Rightarrow> ('c, 'd, 'u) world \<Rightarrow> (bool \<times> ('c, 'd, 'u) world) res" where
  "ConnectionNoMoreUsed own w =
     bnd (acquire (cn_closedByLock (w_conn w))) (\<lambda>lk.
     let by = (cn_closedBy (w_conn w))(own := True);
         result = (\<forall>i \<in> set all_owners. by i);
         by' = (if result then (\<lambda>_. False) else by) in
     bnd (release lk) (\<lambda>lk'.
     Inr (result, upd_core (upd_conn (\<lambda>c. c\<lparr>cn_closedBy := by', cn_closedByLock := lk'\<rparr>)) w)))"

definition ConnectionManagedBy ::
  "('c, 'd, 'u) callbacks \<Rightarrow> nat \<Rightarrow> name_env \<Rightarrow> owner \<Rightarrow> ('c, 'd, 'u) world \<Rightarrow> ('c, 'd, 'u) world res" where
  "ConnectionManagedBy cb f env own w =
     bnd (acquire (cn_managedByLock (w_conn w))) (\<lambda>lk.
     let by = (cn_managedBy (w_conn w))(own := True);
         managedByAll = (\<forall>i \<in> set all_owners. by i) in
     bnd (release lk) (\<lambda>lk'.
     let w1 = upd_core (upd_conn (\<lambda>c. c\<lparr>cn_managedBy := by, cn_managedByLock := lk'\<rparr>)) w in
     if managedByAll then ConnectionState cb f env STATE_CONNECTED w1 else Inr w1))"

section \<open>Handlers\<close>

definition ConnectionAddHandler ::
  "('c, 'd, 'u) callbacks \<Rightarrow> nat \<Rightarrow> name_env \<Rightarrow> bool \<Rightarrow> (nat \<Rightarrow> bool) \<Rightarrow> event \<Rightarrow> 'c \<Rightarrow> 'd option \<Rightarrow> bool \<Rightarrow>
   ('c, 'd, 'u) world \<Rightarrow> ('c, 'd, 'u) world res" where
  "ConnectionAddHandler cb f env mem_ok ok ev handler arg once w =
     (case NewEventHandler mem_ok ev handler arg once of
        None \<Rightarrow> ConnectionHandleError cb f env EVENT_HANDLER_ERROR w
      | Some h \<Rightarrow> bnd (deref (w_usr w)) (\<lambda>q. bnd (EventHandlerAdd ok q (Some h)) (\<lambda>q'. Inr (put_usr q' w))))"

definition ConnectionAddSystemHandler ::
  "('c, 'd, 'u) callbacks \<Rightarrow> nat \<Rightarrow> name_env \<Rightarrow> bool \<Rightarrow> (nat \<Rightarrow> bool) \<Rightarrow> event \<Rightarrow> 'c \<Rightarrow> 'd option \<Rightarrow> bool \<Rightarrow>
   ('c, 'd, 'u) world \<Rightarrow> ('c, 'd, 'u) world res" where
  "ConnectionAddSystemHandler cb f env mem_ok ok ev handler arg once w =
     (case NewEventHandler mem_ok ev handler arg once of
        None \<Rightarrow> ConnectionHandleError cb f env EVENT_HANDLER_ERROR w
      | Some h \<Rightarrow> bnd (deref (w_sys w)) (\<lambda>q. bnd (EventHandlerAdd ok q (Some h)) (\<lambda>q'. Inr (put_sys q' w))))"

definition ConnectionGetReadBuffer :: "('c, 'd, 'u) world \<Rightarrow> nat option" where
  "ConnectionGetReadBuffer w = cn_dataBuffer (w_conn w)"

definition ConnectionGetWriteBuffer :: "('c, 'd, 'u) world \<Rightarrow> nat option" where
  "ConnectionGetWriteBuffer w = cn_writeBuffer (w_conn w)"

definition ConnectionGetString :: "('c, 'd, 'u) world \<Rightarrow> string option" where
  "ConnectionGetString w = cn_string (w_conn w)"

section \<open>Destruction\<close>

definition free_lock_if :: "lock option \<Rightarrow> lock option res" where
  "free_lock_if p = (if p = None then Inr None else FreeLock 0 p)"

text \<open>
  The result: the core after everything has been given back, and what is left of the nodes of the
  user and of the system queue.
\<close>

definition FreeConnection ::
  "('c, 'd, 'u) callbacks \<Rightarrow> nat \<Rightarrow> (nat \<Rightarrow> bool) \<Rightarrow> ('c, 'd, 'u) world \<Rightarrow>
   ('u core \<times> ('c, 'd) handler nheap \<times> ('c, 'd) handler nheap) res" where
  "FreeConnection cb f okq w =
     (let w1 = (if cn_socket (w_conn w) \<noteq> - 1 then upd_core (\<lambda>k. k\<lparr>k_net := k_net k @ [NetClose]\<rparr>) w else w) in
      bnd (if \<not> cn_isFactory (w_conn w1) then ConnectionEventHandle cb f FREE_EVENT w1 else Inr w1) (\<lambda>w2.
      let k2 = w_core w2 in
      bnd (ReleaseBuffer okq (cn_readBuffer (k_conn k2)) (k_mem k2)) (\<lambda>(_, m3).
      bnd (ReleaseBuffer okq (cn_writeBuffer (k_conn k2)) m3) (\<lambda>(_, m4).
      let k4 = k2\<lparr>k_mem := m4, k_addrs := (case cn_address (k_conn k2) of
                    Some a \<Rightarrow> if cn_freeAddress (k_conn k2) then (k_addrs k2)(a := None) else k_addrs k2
                  | None \<Rightarrow> k_addrs k2)\<rparr> in
      bnd (FreeEventQueue (w_usr w2)) (\<lambda>(_, hu).
      bnd (FreeEventQueue (w_sys w2)) (\<lambda>(_, hs).
      bnd (free_lock_if (cn_managedByLock (k_conn k2))) (\<lambda>_.
      bnd (free_lock_if (cn_stateLock (k_conn k2))) (\<lambda>_.
      bnd (free_lock_if (cn_closedByLock (k_conn k2))) (\<lambda>_.
      Inr (k4, hu, hs))))))))))"

section \<open>Callbacks that leave the queues alone\<close>

text \<open>
  Callbacks that work on everything but the two handler queues; the interface of the event queues is
  interpreted on the system and on the user queue of the connection.
\<close>

definition core_cb ::
  "('c \<Rightarrow> event \<Rightarrow> 'd option \<Rightarrow> 'u core \<Rightarrow> 'u core res) \<Rightarrow> ('c, 'd, 'u) callbacks" where
  "core_cb ucb c e d w = bnd (ucb c e d (w_core w)) (\<lambda>k. Inr (w\<lparr>w_core := k\<rparr>))"

lemma world_comm:
  "w\<lparr>w_sys := a, w_core := k\<rparr> = w\<lparr>w_core := k, w_sys := a\<rparr>"
  "w\<lparr>w_usr := a, w_core := k\<rparr> = w\<lparr>w_core := k, w_usr := a\<rparr>"
  by simp_all

interpretation sysq: quiet_world w_sys put_sys "core_cb ucb" for ucb
  by unfold_locales (auto simp: put_sys_def core_cb_def bnd_assoc bnd_eq_Inr world_comm)

interpretation usrq: quiet_world w_usr put_usr "core_cb ucb" for ucb
  by unfold_locales (auto simp: put_usr_def core_cb_def bnd_assoc bnd_eq_Inr world_comm)

lemma call_all_core:
  "call_all (core_cb ucb) ev hs w = bnd (call_all ucb ev hs (w_core w)) (\<lambda>k. Inr (w\<lparr>w_core := k\<rparr>))"
proof (induction hs arbitrary: w)
  case Nil
  then show ?case by simp
next
  case (Cons h hs)
  then show ?case by (cases "ucb (h_callback h) ev (h_data h) (w_core w)") (simp_all add: core_cb_def)
qed

lemma call_all_append: "call_all cb ev (hs @ hs') w = bnd (call_all cb ev hs w) (call_all cb ev hs')"
proof (induction hs arbitrary: w)
  case (Cons h hs)
  then show ?case by (cases "cb (h_callback h) ev (h_data h) w") simp_all
qed simp

definition queues_ok :: "('c, 'd, 'u) world \<Rightarrow> bool" where
  "queues_ok w \<longleftrightarrow> (\<exists>qs qu. w_sys w = Some qs \<and> eq_inv qs \<and> w_usr w = Some qu \<and> eq_inv qu)"

text \<open>The handlers of an event, in the order in which they are called.\<close>

definition conn_handlers :: "('c, 'd, 'u) world \<Rightarrow> event \<Rightarrow> ('c, 'd) handler list" where
  "conn_handlers w ev = handlers (the (w_sys w)) ev @ handlers (the (w_usr w)) ev"

definition fired :: "event \<Rightarrow> (event \<Rightarrow> ('c, 'd) handler list) \<Rightarrow> event \<Rightarrow> ('c, 'd) handler list" where
  "fired ev H = H(ev := [h\<leftarrow>H ev. \<not> h_once h])"

lemma queues_okE:
  assumes "queues_ok w"
  obtains qs qu where "w_sys w = Some qs" "eq_inv qs" "w_usr w = Some qu" "eq_inv qu"
    "conn_handlers w = (\<lambda>ev. handlers qs ev @ handlers qu ev)"
  using assms by (auto simp: queues_ok_def conn_handlers_def fun_eq_iff)

lemma queues_ok_core [simp]:
  "queues_ok (w\<lparr>w_core := k\<rparr>) = queues_ok w" "conn_handlers (w\<lparr>w_core := k\<rparr>) = conn_handlers w"
  by (auto simp: queues_ok_def conn_handlers_def fun_eq_iff)

lemma upd_core_simps [simp]:
  "queues_ok (upd_core g w) = queues_ok w" "conn_handlers (upd_core g w) = conn_handlers w"
  "w_core (upd_core g w) = g (w_core w)" "w_sys (upd_core g w) = w_sys w" "w_usr (upd_core g w) = w_usr w"
  by (simp_all add: upd_core_def)

lemma upd_conn_simps [simp]:
  "k_conn (upd_conn g k) = g (k_conn k)" "k_mem (upd_conn g k) = k_mem k" "k_addrs (upd_conn g k) = k_addrs k"
  "k_raised (upd_conn g k) = k_raised k" "k_net (upd_conn g k) = k_net k" "k_user (upd_conn g k) = k_user k"
  by (simp_all add: upd_conn_def)

text \<open>The contents of the two handler queues, and the rest.\<close>

definition held ::
  "'u core \<Rightarrow> (event \<Rightarrow> ('c, 'd) handler list) \<Rightarrow> (event \<Rightarrow> ('c, 'd) handler list) \<Rightarrow> ('c, 'd, 'u) world \<Rightarrow> bool" where
  "held k S U w \<longleftrightarrow> w_core w = k \<and> queues_ok w \<and> handlers (the (w_sys w)) = S \<and> handlers (the (w_usr w)) = U"

lemma held_handlers: "held k S U w \<Longrightarrow> conn_handlers w = (\<lambda>ev. S ev @ U ev)"
  by (auto simp: held_def conn_handlers_def fun_eq_iff)

lemma queues_ok_held: "queues_ok w \<Longrightarrow> \<exists>S U. held (w_core w) S U w"
  by (simp add: held_def)

lemma fired_iff: "H = fired ev K \<longleftrightarrow> (\<forall>e. H e = (if e = ev then [h\<leftarrow>K ev. \<not> h_once h] else K e))"
  by (auto simp: fired_def fun_eq_iff)

lemma ConnectionEventHandle_held:
  assumes h: "held k S U w" and f: "length (S ev) < f" "length (U ev) < f"
  shows "refines (ConnectionEventHandle (core_cb ucb) f ev w) (call_all ucb ev (S ev @ U ev) k)
    (\<lambda>k' w'. held k' (fired ev S) (fired ev U) w')"
proof -
  from h obtain qs qu where w: "w_sys w = Some qs" "eq_inv qs" "w_usr w = Some qu" "eq_inv qu" "S = handlers qs" "U = handlers qu" "w_core w = k"
    by (auto simp: held_def queues_ok_def)
  let ?R = "\<lambda>k' w1. \<exists>qs'. w1 = put_sys qs' (w\<lparr>w_core := k'\<rparr>) \<and> eq_inv qs' \<and> handlers qs' = fired ev S"
  have 1: "refines (EventHandle w_sys put_sys (core_cb ucb) f ev w) (call_all ucb ev (S ev) k) ?R"
    using sysq.EventHandle_all [OF w(2,1), of ev f ucb] w f(1)
    by (cases "call_all ucb ev (S ev) k") (auto simp: call_all_core fired_iff)
  show ?thesis unfolding ConnectionEventHandle_def call_all_append
  proof (rule refines_bnd [OF 1])
    fix k1 w1 assume "?R k1 w1"
    then obtain qs' where w1: "w1 = put_sys qs' (w\<lparr>w_core := k1\<rparr>)" "eq_inv qs'" "handlers qs' = fired ev S" by blast
    have g: "w_usr w1 = Some qu" "w_core w1 = k1" by (simp_all add: w1(1) put_sys_def w(3))
    have 2: "refines (EventHandle w_usr put_usr (core_cb ucb) f ev w1) (call_all ucb ev (U ev) k1)
      (\<lambda>k' w2. \<exists>qu'. w2 = put_usr qu' (w1\<lparr>w_core := k'\<rparr>) \<and> eq_inv qu' \<and> handlers qu' = fired ev U)"
      using usrq.EventHandle_all [OF w(4) g(1), of ev f ucb] g(2) w(6) f(2)
      by (cases "call_all ucb ev (U ev) k1") (auto simp: call_all_core fired_iff)
    show "refines (EventHandle w_usr put_usr (core_cb ucb) f ev w1) (call_all ucb ev (U ev) k1)
      (\<lambda>k' w'. held k' (fired ev S) (fired ev U) w')"
      by (rule refines_mono [OF 2]) (use w1 in \<open>auto simp: put_usr_def put_sys_def queues_ok_def held_def\<close>)
  qed
qed

lemma fired_append: "(\<lambda>e. fired ev S e @ fired ev U e) = fired ev (\<lambda>e. S e @ U e)"
  by (simp add: fired_def fun_eq_iff)

lemma ConnectionEventHandle_all:
  assumes q: "queues_ok w" and f: "length (conn_handlers w ev) < f"
  shows "refines (ConnectionEventHandle (core_cb ucb) f ev w) (call_all ucb ev (conn_handlers w ev) (w_core w))
    (\<lambda>k w'. w_core w' = k \<and> queues_ok w' \<and> conn_handlers w' = fired ev (conn_handlers w))"
proof -
  obtain S U where h: "held (w_core w) S U w" using queues_ok_held [OF q] by blast
  have "length (S ev) < f" "length (U ev) < f" using f held_handlers [OF h] by simp_all
  from ConnectionEventHandle_held [OF h this, of ucb] show ?thesis unfolding held_handlers [OF h]
    by (rule refines_mono) (auto simp: held_handlers fired_append, auto simp: held_def)
qed

section \<open>State changes\<close>

definition event_of :: "conn_state \<Rightarrow> event option" where
  "event_of st =
     (case st of
        STATE_INITIALIZED \<Rightarrow> Some INIT_EVENT | STATE_CONNECTING \<Rightarrow> Some CONNECTING_EVENT
      | STATE_CONNECTED \<Rightarrow> Some CONNECTED_EVENT | STATE_PENDING_CLOSE \<Rightarrow> Some PENDING_CLOSE_EVENT
      | STATE_CLOSED \<Rightarrow> Some CLOSE_EVENT | _ \<Rightarrow> None)"

text \<open>The permissions that go with a state; the first three states leave them as they are.\<close>

definition permissions :: "conn_state \<Rightarrow> (bool \<times> bool) option" where
  "permissions st =
     (case st of
        STATE_CONNECTING \<Rightarrow> Some (False, False) | STATE_CONNECTED \<Rightarrow> Some (True, True)
      | STATE_PENDING_CLOSE \<Rightarrow> Some (False, True) | STATE_CLOSED \<Rightarrow> Some (False, False) | _ \<Rightarrow> None)"

definition permitted :: "conn \<Rightarrow> bool" where
  "permitted c \<longleftrightarrow> (\<forall>p. permissions (cn_state c) = Some p \<longrightarrow> p = (cn_canRead c, cn_canWrite c))"

definition allow :: "conn_state \<Rightarrow> conn \<Rightarrow> conn" where
  "allow st c = (case permissions st of None \<Rightarrow> c | Some (r, w) \<Rightarrow> c\<lparr>cn_canRead := r, cn_canWrite := w\<rparr>)"

text \<open>Callbacks may set the buffer that the user reads from, and nothing else of the connection.\<close>

definition calm :: "'u core \<Rightarrow> 'u core \<Rightarrow> bool" where
  "calm k k' \<longleftrightarrow> (\<exists>d. k_conn k' = (k_conn k)\<lparr>cn_dataBuffer := d\<rparr>) \<and> k_addrs k' = k_addrs k"

lemma calm_refl [simp]: "calm k k"
proof -
  have "k_conn k = (k_conn k)\<lparr>cn_dataBuffer := cn_dataBuffer (k_conn k)\<rparr>" by simp
  then show ?thesis unfolding calm_def by blast
qed

lemma calm_same: "k_conn k' = k_conn k \<Longrightarrow> k_addrs k' = k_addrs k \<Longrightarrow> calm k k'"
  using calm_refl [of k] unfolding calm_def by (elim conjE exE) (rule conjI exI | assumption | erule trans)+

lemma calm_trans: "calm k k' \<Longrightarrow> calm k' k'' \<Longrightarrow> calm k k''"
proof -
  assume "calm k k'" "calm k' k''"
  then obtain d d' where "k_conn k' = (k_conn k)\<lparr>cn_dataBuffer := d\<rparr>" "k_conn k'' = (k_conn k')\<lparr>cn_dataBuffer := d'\<rparr>"
    "k_addrs k'' = k_addrs k" by (auto simp: calm_def)
  then have "k_conn k'' = (k_conn k)\<lparr>cn_dataBuffer := d'\<rparr>" by simp
  then show "calm k k''" using \<open>k_addrs k'' = k_addrs k\<close> unfolding calm_def by blast
qed

lemma calmD:
  assumes "calm k k'"
  shows "cn_state (k_conn k') = cn_state (k_conn k)" "cn_canRead (k_conn k') = cn_canRead (k_conn k)"
    "cn_canWrite (k_conn k') = cn_canWrite (k_conn k)" "cn_stateLock (k_conn k') = cn_stateLock (k_conn k)"
    "cn_closedByLock (k_conn k') = cn_closedByLock (k_conn k)" "cn_managedByLock (k_conn k') = cn_managedByLock (k_conn k)"
    "cn_readBuffer (k_conn k') = cn_readBuffer (k_conn k)" "cn_writeBuffer (k_conn k') = cn_writeBuffer (k_conn k)"
    "cn_address (k_conn k') = cn_address (k_conn k)" "k_addrs k' = k_addrs k" "cn_closedBy (k_conn k') = cn_closedBy (k_conn k)"
    "cn_managedBy (k_conn k') = cn_managedBy (k_conn k)" "cn_closedForError (k_conn k') = cn_closedForError (k_conn k)"
    "cn_string (k_conn k') = cn_string (k_conn k)"
  using assms by (auto simp: calm_def)

text \<open>What a connection's buffers satisfy between operations.\<close>

definition buf_ok :: "'u core \<Rightarrow> nat option \<Rightarrow> bool" where
  "buf_ok k p \<longleftrightarrow> (\<exists>r b. p = Some r \<and> bm_bufs (k_mem k) r = Some b \<and> buf_inv b)"

definition bufs_ok :: "'u core \<Rightarrow> bool" where
  "bufs_ok k \<longleftrightarrow> buf_ok k (cn_readBuffer (k_conn k)) \<and> buf_ok k (cn_writeBuffer (k_conn k))"

text \<open>Callbacks that return, keep the buffers well formed and leave the rest of the connection alone.\<close>

definition well_behaved :: "('c \<Rightarrow> event \<Rightarrow> 'd option \<Rightarrow> 'u core \<Rightarrow> 'u core res) \<Rightarrow> bool" where
  "well_behaved ucb \<longleftrightarrow> (\<forall>c e d k. bufs_ok k \<longrightarrow> returns (ucb c e d k) (\<lambda>k'. bufs_ok k' \<and> calm k k'))"

lemma call_all_well_behaved:
  "well_behaved ucb \<Longrightarrow> bufs_ok k \<Longrightarrow> returns (call_all ucb ev hs k) (\<lambda>k'. bufs_ok k' \<and> calm k k')"
proof (induction hs arbitrary: k)
  case (Cons h hs)
  show ?case unfolding call_all.simps
  proof (rule returns_bndI)
    show "returns (ucb (h_callback h) ev (h_data h) k) (\<lambda>k'. bufs_ok k' \<and> calm k k')"
      using Cons.prems by (simp add: well_behaved_def)
  next
    fix k' assume k': "bufs_ok k' \<and> calm k k'"
    show "returns (call_all ucb ev hs k') (\<lambda>k''. bufs_ok k'' \<and> calm k k'')"
      by (rule returns_mono [OF Cons.IH [OF Cons.prems(1)]]) (use k' in \<open>auto intro: calm_trans\<close>)
  qed
qed simp

text \<open>The world between operations, \<open>f\<close> bounding the number of handlers of an event.\<close>

definition world_ok :: "nat \<Rightarrow> ('c, 'd, 'u) world \<Rightarrow> bool" where
  "world_ok f w \<longleftrightarrow> queues_ok w \<and> (\<forall>ev. length (conn_handlers w ev) < f) \<and> bufs_ok (w_core w) \<and>
     (\<exists>a str. cn_address (w_conn w) = Some a \<and> k_addrs (w_core w) a = Some str)"

lemma fired_shorter: "(\<forall>e. length (H e) < f) \<Longrightarrow> length (fired ev H e) < f"
  by (auto simp: fired_def intro: le_less_trans [OF length_filter_le])

lemma ConnectionEventHandle_ok:
  assumes ucb: "well_behaved ucb" and w: "world_ok f w"
  shows "returns (ConnectionEventHandle (core_cb ucb) f ev w) (\<lambda>w'. world_ok f w' \<and> calm (w_core w) (w_core w') \<and>
    conn_handlers w' = fired ev (conn_handlers w))"
proof -
  have q: "queues_ok w" "length (conn_handlers w ev) < f" "bufs_ok (w_core w)" and l: "\<forall>e. length (conn_handlers w e) < f"
    using w by (simp_all add: world_ok_def)
  obtain k where k: "call_all ucb ev (conn_handlers w ev) (w_core w) = Inr k" "bufs_ok k" "calm (w_core w) k"
    using call_all_well_behaved [OF ucb q(3)] by (auto elim!: returnsE)
  have "returns (ConnectionEventHandle (core_cb ucb) f ev w)
    (\<lambda>w'. w_core w' = k \<and> queues_ok w' \<and> conn_handlers w' = fired ev (conn_handlers w))"
    using ConnectionEventHandle_all [OF q(1,2), of ucb] k(1) by simp
  then show ?thesis
    by (rule returns_mono) (use k w fired_shorter [OF l] calmD [OF k(3)] in \<open>auto simp: world_ok_def\<close>)
qed

text \<open>The connection when its callbacks are called for the state \<open>st\<close>.\<close>

definition renamed :: "name_env \<Rightarrow> 'u core \<Rightarrow> 'u core" where
  "renamed env k = (case name_connection env k of Inr k' \<Rightarrow> k' | Inl _ \<Rightarrow> k)"

definition entering :: "name_env \<Rightarrow> conn_state \<Rightarrow> 'u core \<Rightarrow> 'u core" where
  "entering env st k =
     (let k1 = upd_conn (\<lambda>c. c\<lparr>cn_stateLock := Some taken_lock, cn_state := st\<rparr>) k in
      upd_conn (allow st) (if st = STATE_CONNECTED then renamed env k1 else k1))"

definition unlocked :: "'u core \<Rightarrow> 'u core" where
  "unlocked k = upd_conn (\<lambda>c. c\<lparr>cn_stateLock := Some free_lock\<rparr>) k"

text \<open>The connection but for its name.\<close>

definition anon :: "conn \<Rightarrow> conn" where
  "anon c = c\<lparr>cn_string := None, cn_stringAllocated := False\<rparr>"

lemma anonD:
  assumes "anon c = anon c'"
  shows "cn_state c = cn_state c'" "cn_canRead c = cn_canRead c'" "cn_canWrite c = cn_canWrite c'"
    "cn_stateLock c = cn_stateLock c'" "cn_readBuffer c = cn_readBuffer c'" "cn_writeBuffer c = cn_writeBuffer c'"
    "cn_address c = cn_address c'" "cn_closedBy c = cn_closedBy c'" "cn_managedBy c = cn_managedBy c'"
    "cn_closedByLock c = cn_closedByLock c'" "cn_managedByLock c = cn_managedByLock c'" "cn_socket c = cn_socket c'"
    "cn_closedForError c = cn_closedForError c'" "cn_dataBuffer c = cn_dataBuffer c'"
  using assms by (cases c; cases c'; simp add: anon_def)+

lemma renamed_eq:
  assumes "cn_address (k_conn k) = Some a" "k_addrs k a = Some str" "ne_addr env"
  shows "name_connection env k = Inr (renamed env k)"
proof -
  have "\<exists>k'. name_connection env k = Inr k'"
    using assms by (auto simp: name_connection_def Let_def split: option.splits if_splits)
  then show ?thesis by (auto simp: renamed_def)
qed

lemma renamed_fields:
  "k_mem (renamed env k) = k_mem k" "k_addrs (renamed env k) = k_addrs k" "k_raised (renamed env k) = k_raised k"
  "k_net (renamed env k) = k_net k" "k_user (renamed env k) = k_user k" "anon (k_conn (renamed env k)) = anon (k_conn k)"
  by (auto simp: renamed_def name_connection_def Let_def upd_conn_def anon_def bnd_eq_Inr split: sum.splits option.splits if_splits)

lemma allow_states:
  "allow STATE_INITIALIZED = (\<lambda>c. c)" "allow STATE_CONNECTING = (\<lambda>c. c\<lparr>cn_canRead := False, cn_canWrite := False\<rparr>)"
  "allow STATE_CONNECTED = (\<lambda>c. c\<lparr>cn_canRead := True, cn_canWrite := True\<rparr>)"
  "allow STATE_PENDING_CLOSE = (\<lambda>c. c\<lparr>cn_canRead := False, cn_canWrite := True\<rparr>)"
  "allow STATE_CLOSED = (\<lambda>c. c\<lparr>cn_canRead := False, cn_canWrite := False\<rparr>)"
  by (simp_all add: allow_def permissions_def fun_eq_iff)

lemma allow_simps [simp]:
  "cn_state (allow st c) = cn_state c" "cn_stateLock (allow st c) = cn_stateLock c" "cn_address (allow st c) = cn_address c"
  "cn_readBuffer (allow st c) = cn_readBuffer c" "cn_writeBuffer (allow st c) = cn_writeBuffer c"
  "cn_closedBy (allow st c) = cn_closedBy c" "cn_managedBy (allow st c) = cn_managedBy c"
  "cn_closedByLock (allow st c) = cn_closedByLock c" "cn_managedByLock (allow st c) = cn_managedByLock c"
  "cn_closedForError (allow st c) = cn_closedForError c"
  by (auto simp: allow_def split: option.splits)

lemma anon_allow [simp]: "anon (allow st c) = allow st (anon c)"
  by (auto simp: anon_def allow_def split: option.splits)

lemma entering_fields:
  "k_mem (entering env st k) = k_mem k" "k_addrs (entering env st k) = k_addrs k"
  "k_raised (entering env st k) = k_raised k" "k_net (entering env st k) = k_net k" "k_user (entering env st k) = k_user k"
  "anon (k_conn (entering env st k)) = allow st (anon ((k_conn k)\<lparr>cn_stateLock := Some taken_lock, cn_state := st\<rparr>))"
  by (cases "st = STATE_CONNECTED"; simp add: entering_def Let_def renamed_fields)+

text \<open>The fields that only the operations of the connection set.\<close>

lemma entering_conn [simp]:
  "cn_state (k_conn (entering env st k)) = st" "cn_stateLock (k_conn (entering env st k)) = Some taken_lock"
  "cn_readBuffer (k_conn (entering env st k)) = cn_readBuffer (k_conn k)"
  "cn_writeBuffer (k_conn (entering env st k)) = cn_writeBuffer (k_conn k)"
  "cn_address (k_conn (entering env st k)) = cn_address (k_conn k)"
  "cn_closedBy (k_conn (entering env st k)) = cn_closedBy (k_conn k)"
  "cn_managedBy (k_conn (entering env st k)) = cn_managedBy (k_conn k)"
  "cn_closedByLock (k_conn (entering env st k)) = cn_closedByLock (k_conn k)"
  "cn_managedByLock (k_conn (entering env st k)) = cn_managedByLock (k_conn k)"
  "cn_closedForError (k_conn (entering env st k)) = cn_closedForError (k_conn k)"
  by (cases "st = STATE_CONNECTED"; simp add: entering_def Let_def anonD(1-13) [OF renamed_fields(6)])+

lemma enter_state_event:
  assumes "event_of st = Some ev" and "cn_address (w_conn w) = Some a" "k_addrs (w_core w) a = Some str" "ne_addr env"
  shows "enter_state cb f env st (upd_core (upd_conn (\<lambda>c. c\<lparr>cn_stateLock := Some taken_lock, cn_state := st\<rparr>)) w) =
    ConnectionEventHandle cb f ev (w\<lparr>w_core := entering env st (w_core w)\<rparr>)"
proof (cases "st = STATE_CONNECTED")
  case True
  let ?k1 = "upd_conn (\<lambda>c. c\<lparr>cn_stateLock := Some taken_lock, cn_state := st\<rparr>) (w_core w)"
  have "name_connection env ?k1 = Inr (renamed env ?k1)" using assms by (intro renamed_eq) simp_all
  then show ?thesis using True assms(1)
    by (auto simp: enter_state_def upd_core_def entering_def Let_def event_of_def allow_states)
next
  case False
  then show ?thesis using assms(1)
    by (cases st) (simp_all add: enter_state_def upd_core_def upd_conn_def entering_def Let_def event_of_def allow_states)
qed

text \<open>A state change whose handlers return.\<close>

lemma ConnectionState_held:
  assumes st: "event_of st = Some ev" "cn_state (w_conn w) \<noteq> st"
    and l: "cn_stateLock (w_conn w) = Some free_lock" and e: "ne_addr env"
    and ad: "cn_address (w_conn w) = Some a" "k_addrs (w_core w) a = Some str"
    and h: "held (w_core w) S U w" "length (S ev) < f" "length (U ev) < f"
    and k: "call_all ucb ev (S ev @ U ev) (entering env st (w_core w)) = Inr k" "cn_stateLock (k_conn k) = Some taken_lock"
  shows "returns (ConnectionState (core_cb ucb) f env st w) (held (unlocked k) (fired ev S) (fired ev U))"
proof -
  let ?w = "w\<lparr>w_core := entering env st (w_core w)\<rparr>"
  have r: "ConnectionState (core_cb ucb) f env st w = bnd (ConnectionEventHandle (core_cb ucb) f ev ?w) (\<lambda>w1.
        bnd (release (cn_stateLock (w_conn w1))) (\<lambda>lk'. Inr (upd_core (upd_conn (\<lambda>c. c\<lparr>cn_stateLock := lk'\<rparr>)) w1)))"
    using st(2) l by (simp add: ConnectionState_def enter_state_event [OF st(1) ad e])
  have "held (entering env st (w_core w)) S U ?w" using h(1) by (simp add: held_def)
  from ConnectionEventHandle_held [OF this h(2,3), of ucb] k(1) have
    ev: "returns (ConnectionEventHandle (core_cb ucb) f ev ?w) (held k (fired ev S) (fired ev U))" by simp
  show ?thesis unfolding r using ev k(2) by (auto simp: unlocked_def held_def elim!: returnsE)
qed

lemma ConnectionState_calls:
  assumes st: "event_of st = Some ev" "cn_state (w_conn w) \<noteq> st"
    and l: "cn_stateLock (w_conn w) = Some free_lock" and e: "ne_addr env"
    and ad: "cn_address (w_conn w) = Some a" "k_addrs (w_core w) a = Some str"
    and q: "queues_ok w" "length (conn_handlers w ev) < f"
    and k: "call_all ucb ev (conn_handlers w ev) (entering env st (w_core w)) = Inr k" "cn_stateLock (k_conn k) = Some taken_lock"
  shows "returns (ConnectionState (core_cb ucb) f env st w)
    (\<lambda>w'. w_core w' = unlocked k \<and> queues_ok w' \<and> conn_handlers w' = fired ev (conn_handlers w))"
proof -
  obtain S U where h: "held (w_core w) S U w" using queues_ok_held [OF q(1)] by blast
  note hs = held_handlers [OF h]
  have "length (S ev) < f" "length (U ev) < f" using q(2) hs by simp_all
  from ConnectionState_held [OF st l e ad h this k(1) [unfolded hs] k(2)] show ?thesis
    by (rule returns_mono) (auto simp: hs held_handlers fired_append, auto simp: held_def)
qed

lemma ConnectionState_event:
  assumes ucb: "well_behaved ucb" and w: "world_ok f w" and st: "event_of st = Some ev" "cn_state (w_conn w) \<noteq> st"
    and l: "cn_stateLock (w_conn w) = Some free_lock" and e: "ne_addr env"
  shows "refines (ConnectionState (core_cb ucb) f env st w) (call_all ucb ev (conn_handlers w ev) (entering env st (w_core w)))
    (\<lambda>k w'. w_core w' = unlocked k \<and> queues_ok w' \<and> conn_handlers w' = fired ev (conn_handlers w))"
proof -
  from w obtain a str where ad: "cn_address (w_conn w) = Some a" "k_addrs (w_core w) a = Some str"
    and q: "queues_ok w" "length (conn_handlers w ev) < f" "bufs_ok (w_core w)" by (auto simp: world_ok_def)
  let ?k = "entering env st (w_core w)"
  have b: "bufs_ok ?k" using q(3) by (simp add: bufs_ok_def buf_ok_def entering_fields(1))
  obtain k' where k': "call_all ucb ev (conn_handlers w ev) ?k = Inr k'" "calm ?k k'"
    using call_all_well_behaved [OF ucb b] by (auto elim!: returnsE)
  then show ?thesis using ConnectionState_calls [OF st l e ad q(1,2) k'(1)] calmD(4) [OF k'(2)] by simp
qed

lemma ConnectionState_none:
  assumes "event_of st = None" "cn_state (w_conn w) \<noteq> st" "cn_stateLock (w_conn w) = Some free_lock"
  shows "ConnectionState cb f env st w = Inr (upd_core (upd_conn (\<lambda>c. c\<lparr>cn_stateLock := Some free_lock, cn_state := st\<rparr>)) w)"
  using assms by (cases st) (simp_all add: ConnectionState_def enter_state_def event_of_def upd_core_def upd_conn_def)

end
