(* ===== verification/ConnectionLife.thy ===== *)
theory ConnectionLife
  imports Connections
begin

text \<open>
  What the operations of a connection (\<open>src/connection.c\<close>) guarantee: state changes and the handlers
  they call, reading, writing, the owners that report to it, and its creation and destruction.
\<close>

section \<open>The invariant of a connection\<close>

definition conn_inv :: "nat \<Rightarrow> ('c, 'd, 'u) world \<Rightarrow> bool" where
  "conn_inv f w \<longleftrightarrow> world_ok f w \<and> permitted (w_conn w) \<and> cn_stateLock (w_conn w) = Some free_lock \<and>
     cn_closedByLock (w_conn w) = Some free_lock \<and> cn_managedByLock (w_conn w) = Some free_lock"

lemma conn_invD:
  assumes "conn_inv f w"
  shows "world_ok f w" "permitted (w_conn w)" "cn_stateLock (w_conn w) = Some free_lock"
    "cn_closedByLock (w_conn w) = Some free_lock" "cn_managedByLock (w_conn w) = Some free_lock"
    "queues_ok w" "length (conn_handlers w ev) < f" "bufs_ok (w_core w)"
  using assms by (simp_all add: conn_inv_def world_ok_def)

text \<open>What a state change leaves as it is.\<close>

definition kept :: "('c, 'd, 'u) world \<Rightarrow> ('c, 'd, 'u) world \<Rightarrow> bool" where
  "kept w w' \<longleftrightarrow> cn_readBuffer (w_conn w') = cn_readBuffer (w_conn w) \<and> cn_writeBuffer (w_conn w') = cn_writeBuffer (w_conn w) \<and>
     cn_closedBy (w_conn w') = cn_closedBy (w_conn w) \<and> cn_managedBy (w_conn w') = cn_managedBy (w_conn w) \<and>
     cn_closedForError (w_conn w') = cn_closedForError (w_conn w)"

lemma allow_permissions:
  "permissions st = Some (r, v) \<Longrightarrow> cn_canRead (allow st c) = r \<and> cn_canWrite (allow st c) = v"
  by (simp add: allow_def)

lemma entering_permitted:
  assumes "event_of st = Some ev" "permitted (k_conn k)" "st \<noteq> STATE_INITIALIZED"
  shows "permissions st = Some (cn_canRead (k_conn (entering env st k)), cn_canWrite (k_conn (entering env st k)))"
proof -
  obtain r v where p: "permissions st = Some (r, v)"
    using assms(1,3) by (cases st) (auto simp: permissions_def event_of_def)
  have a: "anon (k_conn (entering env st k)) = anon (allow st ((k_conn k)\<lparr>cn_stateLock := Some taken_lock, cn_state := st\<rparr>))"
    by (simp add: entering_fields(6))
  show ?thesis using anonD(2,3) [OF a] allow_permissions [OF p] p by simp
qed

lemma permitted_free: "permissions (cn_state c) = None \<Longrightarrow> permitted c"
  by (simp add: permitted_def)

lemma calm_permitted: "calm k k' \<Longrightarrow> permitted (k_conn k') = permitted (k_conn k)"
  using calmD(1-3) [of k k'] by (simp add: permitted_def)

lemma unlocked_fields [simp]:
  "cn_state (k_conn (unlocked k)) = cn_state (k_conn k)" "cn_stateLock (k_conn (unlocked k)) = Some free_lock"
  "permitted (k_conn (unlocked k)) = permitted (k_conn k)" "bufs_ok (unlocked k) = bufs_ok k"
  "k_mem (unlocked k) = k_mem k" "k_addrs (unlocked k) = k_addrs k"
  "cn_canRead (k_conn (unlocked k)) = cn_canRead (k_conn k)" "cn_canWrite (k_conn (unlocked k)) = cn_canWrite (k_conn k)"
  "cn_readBuffer (k_conn (unlocked k)) = cn_readBuffer (k_conn k)" "cn_writeBuffer (k_conn (unlocked k)) = cn_writeBuffer (k_conn k)"
  "cn_address (k_conn (unlocked k)) = cn_address (k_conn k)"
  "cn_closedBy (k_conn (unlocked k)) = cn_closedBy (k_conn k)" "cn_managedBy (k_conn (unlocked k)) = cn_managedBy (k_conn k)"
  "cn_closedByLock (k_conn (unlocked k)) = cn_closedByLock (k_conn k)"
  "cn_managedByLock (k_conn (unlocked k)) = cn_managedByLock (k_conn k)"
  "cn_closedForError (k_conn (unlocked k)) = cn_closedForError (k_conn k)"
  by (simp_all add: unlocked_def permitted_def bufs_ok_def buf_ok_def)

text \<open>The handlers that remain after a state change.\<close>

definition after_state :: "conn_state \<Rightarrow> (event \<Rightarrow> ('c, 'd) handler list) \<Rightarrow> event \<Rightarrow> ('c, 'd) handler list" where
  "after_state st H = (case event_of st of None \<Rightarrow> H | Some ev \<Rightarrow> fired ev H)"

text \<open>What the handlers of a state change get to work on, and what they leave.\<close>

definition state_calls ::
  "('c \<Rightarrow> event \<Rightarrow> 'd option \<Rightarrow> 'u core \<Rightarrow> 'u core res) \<Rightarrow> name_env \<Rightarrow> conn_state \<Rightarrow> ('c, 'd, 'u) world \<Rightarrow> 'u core res" where
  "state_calls ucb env st w =
     (case event_of st of
        None \<Rightarrow> Inr (entering env st (w_core w))
      | Some ev \<Rightarrow> call_all ucb ev (conn_handlers w ev) (entering env st (w_core w)))"

lemma entering_bufs [simp]: "bufs_ok (entering env st k) = bufs_ok k"
  by (simp add: bufs_ok_def buf_ok_def entering_fields(1))

lemma state_calls_ok:
  assumes "well_behaved ucb" "bufs_ok (w_core w)"
  shows "returns (state_calls ucb env st w) (\<lambda>k. bufs_ok k \<and> calm (entering env st (w_core w)) k)"
proof (cases "event_of st")
  case (Some ev)
  have "bufs_ok (entering env st (w_core w))" using assms(2) by simp
  then show ?thesis unfolding state_calls_def Some option.case by (rule call_all_well_behaved [OF assms(1)])
qed (simp add: state_calls_def assms(2))

lemma ConnectionState_exact:
  assumes "well_behaved ucb" "conn_inv f w" "cn_state (w_conn w) \<noteq> st" "ne_addr env"
  shows "refines (ConnectionState (core_cb ucb) f env st w) (state_calls ucb env st w)
    (\<lambda>k w'. w_core w' = unlocked k \<and> queues_ok w' \<and> conn_handlers w' = after_state st (conn_handlers w))"
proof (cases "event_of st")
  case None
  then have "entering env st (w_core w) = upd_conn (\<lambda>c. c\<lparr>cn_stateLock := Some taken_lock, cn_state := st\<rparr>) (w_core w)"
    by (cases st) (simp_all add: entering_def Let_def event_of_def allow_def permissions_def upd_conn_def)
  then show ?thesis
    using ConnectionState_none [OF None assms(3) conn_invD(3) [OF assms(2)], of "core_cb ucb" f env] conn_invD(6) [OF assms(2)]
    by (simp add: state_calls_def None after_state_def unlocked_def upd_conn_def)
next
  case (Some ev)
  show ?thesis unfolding state_calls_def after_state_def Some option.case
    by (rule ConnectionState_event [OF assms(1) conn_invD(1) [OF assms(2)] Some assms(3) conn_invD(3) [OF assms(2)] assms(4)])
qed

lemma world_okI:
  "queues_ok w' \<Longrightarrow> \<forall>ev. length (conn_handlers w' ev) < f \<Longrightarrow> bufs_ok (w_core w') \<Longrightarrow>
   cn_address (w_conn w') = Some a \<Longrightarrow> k_addrs (w_core w') a = Some str \<Longrightarrow> world_ok f w'"
  by (auto simp: world_ok_def)

lemma world_okE:
  assumes "world_ok f w"
  obtains a str where "cn_address (w_conn w) = Some a" "k_addrs (w_core w) a = Some str"
    "\<forall>ev. length (conn_handlers w ev) < f" "queues_ok w" "bufs_ok (w_core w)"
  using assms by (auto simp: world_ok_def)

lemma after_state_shorter: "\<forall>e. length (H e) < f \<Longrightarrow> \<forall>e. length (after_state st H e) < f"
  by (auto simp: after_state_def intro: fired_shorter split: option.splits)

lemma event_permissions: "event_of st = None \<Longrightarrow> permissions st = None" "permissions STATE_INITIALIZED = None"
  by (cases st; simp add: event_of_def permissions_def)+

lemma permitted_entering: "permitted c \<Longrightarrow> permitted (k_conn (entering env st k))" if "k_conn k = c" for c
proof -
  assume c: "permitted c"
  show ?thesis
  proof (cases "event_of st = None \<or> st = STATE_INITIALIZED")
    case True
    then show ?thesis by (intro permitted_free) (auto simp: event_permissions)
  next
    case False
    then obtain ev where "event_of st = Some ev" "st \<noteq> STATE_INITIALIZED" by auto
    from entering_permitted [OF this(1) _ this(2), of k env] c that show ?thesis by (simp add: permitted_def)
  qed
qed

lemma ConnectionState_ok:
  assumes "well_behaved ucb" "conn_inv f w" "ne_addr env"
  shows "returns (ConnectionState (core_cb ucb) f env st w) (\<lambda>w'. conn_inv f w' \<and> cn_state (w_conn w') = st \<and> kept w w')"
proof (cases "cn_state (w_conn w) = st")
  case True
  then show ?thesis using assms(2) by (simp add: ConnectionState_def kept_def)
next
  case False
  note i = conn_invD [OF assms(2)]
  obtain a str where w: "cn_address (w_conn w) = Some a" "k_addrs (w_core w) a = Some str"
    "\<forall>ev. length (conn_handlers w ev) < f" "queues_ok w" "bufs_ok (w_core w)" using i(1) by (rule world_okE)
  obtain k where k: "state_calls ucb env st w = Inr k" "bufs_ok k" "calm (entering env st (w_core w)) k"
    using state_calls_ok [OF assms(1) w(5)] by (auto elim!: returnsE)
  note c = calmD [OF k(3)]
  have p: "permitted (k_conn k)" using calm_permitted [OF k(3)] permitted_entering [OF refl i(2), of env st] by simp
  have "returns (ConnectionState (core_cb ucb) f env st w)
    (\<lambda>w'. w_core w' = unlocked k \<and> queues_ok w' \<and> conn_handlers w' = after_state st (conn_handlers w))"
    using ConnectionState_exact [OF assms(1,2) False assms(3)] k(1) by simp
  then show ?thesis
  proof (rule returns_mono)
    fix w' assume w': "w_core w' = unlocked k \<and> queues_ok w' \<and> conn_handlers w' = after_state st (conn_handlers w)"
    have "world_ok f w'"
      by (rule world_okI [of _ _ a str]) (use w' k(2) c w after_state_shorter [OF w(3)] in \<open>simp_all add: entering_fields\<close>)
    then show "conn_inv f w' \<and> cn_state (w_conn w') = st \<and> kept w w'"
      using w' p c i(4,5) by (simp add: conn_inv_def kept_def)
  qed
qed

section \<open>A sample connection\<close>

text \<open>Used in the examples: callbacks that log their identifiers, in a connection of a client.\<close>

definition log_cb :: "nat \<Rightarrow> event \<Rightarrow> unit option \<Rightarrow> nat list core \<Rightarrow> nat list core res" where
  "log_cb c ev d k = Inr (k\<lparr>k_user := k_user k @ [c]\<rparr>)"

definition sample_env :: name_env where
  "sample_env = \<lparr>ne_addr = True, ne_sock = True, ne_info = Some (''::1'', ''80''), ne_mem = True\<rparr>"

definition sample_world :: "conn_state \<Rightarrow> buffer \<Rightarrow> buffer \<Rightarrow> (nat, unit) equeue \<Rightarrow> (nat, unit, nat list) world" where
  "sample_world st rb wb qs = \<lparr>w_sys = Some qs, w_usr = Some new_equeue, w_core =
     \<lparr>k_conn = \<lparr>cn_readBuffer = Some 0, cn_writeBuffer = Some 1, cn_dataBuffer = None, cn_socket = 5, cn_address = Some 0,
        cn_state = st, cn_stateLock = Some free_lock, cn_closedForError = False, cn_string = Some ''[::1]:80'',
        cn_stringAllocated = False, cn_closedBy = (\<lambda>_. False)(OWNER_ACCEPTOR := True), cn_closedByLock = Some free_lock,
        cn_managedBy = (\<lambda>_. False)(OWNER_ACCEPTOR := True, OWNER_CLIENT := True), cn_managedByLock = Some free_lock,
        cn_pool = None, cn_freeAddress = False,
        cn_canRead = (case permissions st of None \<Rightarrow> False | Some p \<Rightarrow> fst p),
        cn_canWrite = (case permissions st of None \<Rightarrow> False | Some p \<Rightarrow> snd p), cn_isFactory = False\<rparr>,
      k_mem = \<lparr>bm_bufs = [0 \<mapsto> rb, 1 \<mapsto> wb], bm_pools = (\<lambda>_. None), bm_tick = 2, bm_items = 0\<rparr>,
      k_addrs = [0 \<mapsto> ''[::1]:80''], k_raised = [], k_net = [], k_user = []\<rparr>\<rparr>"

lemma log_cb_well_behaved: "well_behaved log_cb"
proof -
  have "calm k (k\<lparr>k_user := u\<rparr>) = calm k k" for k :: "nat list core" and u
    by (simp add: calm_def del: calm_refl)
  then show ?thesis by (simp add: well_behaved_def log_cb_def bufs_ok_def buf_ok_def)
qed

lemma sample_conn_inv:
  "buf_inv rb \<Longrightarrow> buf_inv wb \<Longrightarrow> eq_inv qs \<Longrightarrow> \<forall>ev. length (handlers qs ev) < f \<Longrightarrow> conn_inv f (sample_world st rb wb qs)"
  by (simp add: conn_inv_def world_ok_def sample_world_def queues_ok_def conn_handlers_def new_equeue_inv bufs_ok_def
      buf_ok_def permitted_def)

lemma sample_env_addr [simp]: "ne_addr sample_env" by (simp add: sample_env_def)

section \<open>State changes\<close>

text \<open>
  C9. A change of state calls the handlers of the event that belongs to the new state, the system
  handlers first and each list in order of registration, on the connection with its new state and
  permissions and with the state's lock taken; afterwards the lock is free, the connection is in
  that state with the permissions that belong to it, and only the handlers that were registered
  once are gone. A change to the state the connection is in does nothing.
\<close>

theorem state_change_exact:
  assumes "well_behaved ucb" "conn_inv f w" "ne_addr env"
  shows "ConnectionState (core_cb ucb) f env (cn_state (w_conn w)) w = Inr w \<and>
    (cn_state (w_conn w) \<noteq> st \<longrightarrow> event_of st = Some ev \<longrightarrow>
      (\<exists>k w'. call_all ucb ev (conn_handlers w ev) (entering env st (w_core w)) = Inr k \<and>
         ConnectionState (core_cb ucb) f env st w = Inr w' \<and> w_core w' = unlocked k \<and>
         conn_handlers w' = (conn_handlers w)(ev := [h\<leftarrow>conn_handlers w ev. \<not> h_once h]) \<and>
         conn_inv f w' \<and> cn_state (w_conn w') = st))"
proof (intro conjI impI)
  show "ConnectionState (core_cb ucb) f env (cn_state (w_conn w)) w = Inr w" by (simp add: ConnectionState_def)
next
  assume st: "cn_state (w_conn w) \<noteq> st" and ev: "event_of st = Some ev"
  obtain k where k: "state_calls ucb env st w = Inr k"
    using state_calls_ok [OF assms(1) conn_invD(8) [OF assms(2)], of env st] by (auto elim!: returnsE)
  then have k': "call_all ucb ev (conn_handlers w ev) (entering env st (w_core w)) = Inr k"
    by (simp add: state_calls_def ev)
  have "returns (ConnectionState (core_cb ucb) f env st w)
    (\<lambda>w'. w_core w' = unlocked k \<and> queues_ok w' \<and> conn_handlers w' = after_state st (conn_handlers w))"
    using ConnectionState_exact [OF assms(1,2) st assms(3)] k by simp
  from returns_conj [OF this ConnectionState_ok [OF assms, of st]] k'
  show "\<exists>k w'. call_all ucb ev (conn_handlers w ev) (entering env st (w_core w)) = Inr k \<and>
         ConnectionState (core_cb ucb) f env st w = Inr w' \<and> w_core w' = unlocked k \<and>
         conn_handlers w' = (conn_handlers w)(ev := [h\<leftarrow>conn_handlers w ev. \<not> h_once h]) \<and>
         conn_inv f w' \<and> cn_state (w_conn w') = st"
    by (auto simp: after_state_def ev fired_def elim!: returnsE)
qed

theorem state_change_exact_witness:
  "\<exists>qs w'. ConnectionState (core_cb log_cb) 3 sample_env STATE_CLOSED (sample_world STATE_CONNECTED small_buffer small_buffer qs) = Inr w'
     \<and> k_user (w_core w') = [7, 5] \<and> conn_inv 3 w' \<and> cn_state (w_conn w') = STATE_CLOSED"
proof -
  let ?h = "\<lambda>c. \<lparr>h_event = CLOSE_EVENT, h_once = True, h_callback = c, h_data = None\<rparr> :: (nat, unit) handler"
  obtain q where q: "eq_inv q" "handlers q = (\<lambda>_. [])(CLOSE_EVENT := [?h 7, ?h 5])"
    using eq_run_seq [OF new_equeue_inv(1), of "[EAdd (?h 7), EAdd (?h 5)]"]
    by (auto simp: new_equeue_inv(2) elim!: returnsE)
  let ?w = "sample_world STATE_CONNECTED small_buffer small_buffer q"
  have i: "conn_inv 3 ?w" by (rule sample_conn_inv) (simp_all add: small_buffer_inv q)
  have w: "cn_state (w_conn ?w) = STATE_CONNECTED" "conn_handlers ?w CLOSE_EVENT = [?h 7, ?h 5]" "k_user (w_core ?w) = []"
    by (simp_all add: sample_world_def conn_handlers_def q(2) new_equeue_inv)
  show ?thesis
    using state_change_exact [OF log_cb_well_behaved i sample_env_addr, of STATE_CLOSED CLOSE_EVENT] w
    by (intro exI [of _ q]) (auto simp: event_of_def log_cb_def unlocked_def entering_fields)
qed

section \<open>Reading\<close>

lemma put_buf_simps [simp]:
  "k_conn (put_buf r b k) = k_conn k" "k_addrs (put_buf r b k) = k_addrs k" "k_net (put_buf r b k) = k_net k"
  "k_raised (put_buf r b k) = k_raised k" "k_user (put_buf r b k) = k_user k"
  "bm_bufs (k_mem (put_buf r b k)) = (bm_bufs (k_mem k))(r \<mapsto> b)"
  by (simp_all add: put_buf_def)

lemma conn_inv_put_buf: "conn_inv f w \<Longrightarrow> buf_inv b \<Longrightarrow> conn_inv f (upd_core (put_buf r b) w)"
  by (auto simp: conn_inv_def world_ok_def bufs_ok_def buf_ok_def)

lemma calm_conn_inv: "conn_inv f w \<Longrightarrow> calm (w_core w) (w_core w') \<Longrightarrow> world_ok f w' \<Longrightarrow> conn_inv f w'"
  by (simp add: conn_inv_def calm_permitted calmD)

lemma ConnectionEventHandle_inv:
  assumes "well_behaved ucb" "conn_inv f w"
  shows "returns (ConnectionEventHandle (core_cb ucb) f ev w) (\<lambda>w'. conn_inv f w' \<and> calm (w_core w) (w_core w') \<and>
    call_all ucb ev (conn_handlers w ev) (w_core w) = Inr (w_core w') \<and> conn_handlers w' = fired ev (conn_handlers w))"
proof -
  note i = conn_invD [OF assms(2)]
  obtain k where k: "call_all ucb ev (conn_handlers w ev) (w_core w) = Inr k"
    using call_all_well_behaved [OF assms(1) i(8)] by (auto elim!: returnsE)
  have "returns (ConnectionEventHandle (core_cb ucb) f ev w)
      (\<lambda>w'. w_core w' = k \<and> queues_ok w' \<and> conn_handlers w' = fired ev (conn_handlers w))"
    using ConnectionEventHandle_all [OF i(6,7), of ucb ev] k by simp
  from returns_conj [OF this ConnectionEventHandle_ok [OF assms(1) i(1), of ev]]
  show ?thesis
    by (rule returns_mono) (use k calm_conn_inv [OF assms(2)] in auto)
qed

lemma ConnectionHandleError_ok:
  assumes "well_behaved ucb" "conn_inv f w" "ne_addr env"
  shows "returns (ConnectionHandleError (core_cb ucb) f env e w) (\<lambda>w'. conn_inv f w' \<and>
    cn_state (w_conn w') = STATE_CLOSED \<and> cn_closedForError (w_conn w') = (e \<noteq> CONNECTION_DISCONNECTED))"
proof -
  let ?w = "upd_core (\<lambda>k. upd_conn (\<lambda>c. c\<lparr>cn_closedForError := (e \<noteq> CONNECTION_DISCONNECTED)\<rparr>)
          (k\<lparr>k_raised := k_raised k @ [e]\<rparr>)) w"
  have "conn_inv f ?w"
    using assms(2) by (simp add: conn_inv_def world_ok_def permitted_def bufs_ok_def buf_ok_def)
  from ConnectionState_ok [OF assms(1) this assms(3), of STATE_CLOSED] show ?thesis
    unfolding ConnectionHandleError_def ConnectionClose_def
    by (auto simp: kept_def elim!: returns_mono)
qed

text \<open>What a successful \<open>recv\<close> makes of the read buffer.\<close>

definition received :: "byte list \<Rightarrow> buffer \<Rightarrow> buffer" where
  "received bs b = b\<lparr>b_data := take (nat (b_position b)) (b_data b) @ bs @ drop (nat (b_position b) + length bs) (b_data b),
     b_position := b_position b + int (length bs)\<rparr>"

lemma received_inv:
  assumes "buf_inv b" "int (length bs) \<le> b_limit b - b_position b"
  shows "buf_inv (received bs b)"
    "mwrite (b_data b) (b_position b) bs = Inr (b_data (received bs b))"
proof -
  note b = buf_invD [OF assms(1)]
  show m: "mwrite (b_data b) (b_position b) bs = Inr (b_data (received bs b))"
    using b assms(2) by (simp add: mwrite_eq received_def)
  show "buf_inv (received bs b)"
    using b assms(2) mwrite_reserve [OF m b(6)] length_mwrite [OF m] by (simp add: buf_inv_def received_def)
qed

text \<open>The operation on a buffer that has room, when \<open>recv\<close> keeps to it.\<close>

lemma ConnectionRead_eq:
  assumes "cn_readBuffer (w_conn w) = Some r" "bm_bufs (k_mem (w_core w)) r = Some b" "buf_inv b"
    and "b_position b < b_limit b" "rv (b_limit b - b_position b) = Some bs" "int (length bs) \<le> b_limit b - b_position b"
  shows "ConnectionRead cb f env rv w =
    (let w1 = upd_core (put_buf r (b\<lparr>b_data := b_data (received bs b)\<rparr>)) w in
     if bs = [] then
       (if cn_state (w_conn w) = STATE_PENDING_CLOSE then ConnectionState cb f env STATE_CLOSED w1
        else ConnectionHandleError cb f env CONNECTION_DISCONNECTED w1)
     else if \<not> cn_canRead (w_conn w) then
       Inr (upd_core (put_buf r (b\<lparr>b_data := replicate (length (b_data b)) 0, b_position := 0, b_limit := b_size b\<rparr>)) w1)
     else ConnectionEventHandle cb f INBOUND_DATA_EVENT (upd_core (put_buf r (received bs b)) w))"
proof -
  note bi = buf_invD [OF assms(3)]
  note m = received_inv [OF assms(3,6)]
  let ?b1 = "b\<lparr>b_data := b_data (received bs b)\<rparr>"
  have g: "get_buf (w_core w) (cn_readBuffer (w_conn w)) = Inr (r, b)" using assms(1,2) by (simp add: get_buf_def)
  have n: "is_int (b_limit b - b_position b)" "is_int (b_position b + int (length bs))"
    using bi assms(6) by (intro is_int_bounds; simp)+
  have "buf_inv ?b1" using m(1) bi assms(6) by (simp add: buf_inv_def received_def)
  then obtain b2 where b2: "BufferReset ?b1 = Inr b2" "buf_inv b2" "b_position b2 = 0" "b_limit b2 = b_size b"
    "b_size b2 = b_size b" "b_pool b2 = b_pool b" "b_data b2 = replicate (nat (b_size b + 2)) 0"
    using BufferReset_seq [of ?b1] by (auto elim!: returnsE)
  have e: "b2 = b\<lparr>b_data := replicate (length (b_data b)) 0, b_position := 0, b_limit := b_size b\<rparr>"
    using b2 bi(4) by (intro buffer.equality) auto
  have p: "snd (BufferPosition ?b1 (b_position b + int (length bs))) = received bs b"
    using assms(6) by (simp add: BufferPosition_def received_def)
  have u: "upd_core (put_buf r (received bs b)) (upd_core (put_buf r ?b1) w) = upd_core (put_buf r (received bs b)) w"
    by (simp add: upd_core_def put_buf_def)
  show ?thesis
    using assms(4,5) m(2) n b2(1) p u
    by (simp add: ConnectionRead_def g BufferHasRemaining_def BufferRemaining_def BufferGetBytes_def BufferGetPosition_def
        Let_def e)
qed

lemma ConnectionRead_inv:
  assumes "well_behaved ucb" "conn_inv f w" "ne_addr env"
    and "cn_readBuffer (w_conn w) = Some r" "bm_bufs (k_mem (w_core w)) r = Some b"
    and "\<forall>bs. rv (b_limit b - b_position b) = Some bs \<longrightarrow> int (length bs) \<le> b_limit b - b_position b"
  shows "returns (ConnectionRead (core_cb ucb) f env rv w) (\<lambda>w'. conn_inv f w' \<and>
    (case (if b_position b = b_limit b then None else rv (b_limit b - b_position b)) of
       None \<Rightarrow> cn_state (w_conn w') = STATE_CLOSED \<and> cn_closedForError (w_conn w')
     | Some bs \<Rightarrow>
         if bs = [] then cn_state (w_conn w') = STATE_CLOSED \<and>
           (cn_state (w_conn w) \<noteq> STATE_PENDING_CLOSE \<longrightarrow> \<not> cn_closedForError (w_conn w')) \<and>
           (cn_state (w_conn w) = STATE_PENDING_CLOSE \<longrightarrow> cn_closedForError (w_conn w') = cn_closedForError (w_conn w))
         else if cn_canRead (w_conn w) then
           call_all ucb INBOUND_DATA_EVENT (conn_handlers w INBOUND_DATA_EVENT) (put_buf r (received bs b) (w_core w))
             = Inr (w_core w')
         else bm_bufs (k_mem (w_core w')) r =
             Some (b\<lparr>b_data := replicate (length (b_data b)) 0, b_position := 0, b_limit := b_size b\<rparr>)))"
proof -
  have b: "buf_inv b" using conn_invD(8) [OF assms(2)] assms(4,5) by (simp add: bufs_ok_def buf_ok_def)
  note bi = buf_invD [OF b]
  note err = ConnectionHandleError_ok [OF assms(1) _ assms(3)]
  have g: "get_buf (w_core w) (cn_readBuffer (w_conn w)) = Inr (r, b)" using assms(4,5) by (simp add: get_buf_def)
  let ?n = "b_limit b - b_position b" and ?e = "if b_position b = b_limit b then OVERFLOW_ERROR else READ_ERROR"
  have n: "is_int ?n" using bi by (intro is_int_bounds) auto
  show ?thesis
  proof (cases "b_position b = b_limit b \<or> rv ?n = None")
    case True
    then have "ConnectionRead (core_cb ucb) f env rv w = ConnectionHandleError (core_cb ucb) f env ?e w"
      using bi n by (auto simp: ConnectionRead_def g BufferHasRemaining_def BufferRemaining_def)
    then show ?thesis using True err [OF assms(2), of ?e] by (auto elim!: returns_mono)
  next
    case False
    then obtain bs where bs: "rv ?n = Some bs" "b_position b < b_limit b" "int (length bs) \<le> ?n" using bi assms(6) by force
    note m = received_inv [OF b bs(3)] and eq = ConnectionRead_eq [where rv = rv, OF assms(4,5) b bs(2,1,3)]
    let ?w1 = "upd_core (put_buf r (b\<lparr>b_data := b_data (received bs b)\<rparr>)) w"
    have w1: "conn_inv f ?w1"
      by (rule conn_inv_put_buf [OF assms(2)]) (use m(1) bi bs(3) in \<open>simp add: buf_inv_def received_def\<close>)
    have b0: "buf_inv (b\<lparr>b_data := replicate (length (b_data b)) 0, b_position := 0, b_limit := b_size b\<rparr>)"
    proof -
      have "length (b_data b) - nat (b_size b) = Suc (Suc 0)" using bi by linarith
      then show ?thesis using bi by (simp add: buf_inv_def)
    qed
    consider "bs = []" "cn_state (w_conn w) = STATE_PENDING_CLOSE" | "bs = []" "cn_state (w_conn w) \<noteq> STATE_PENDING_CLOSE"
      | "bs \<noteq> []" "cn_canRead (w_conn w)" | "bs \<noteq> []" "\<not> cn_canRead (w_conn w)" by blast
    then show ?thesis
    proof cases
      case 1
      then show ?thesis using ConnectionState_ok [OF assms(1) w1 assms(3), of STATE_CLOSED] bs
        by (auto simp: eq kept_def elim!: returns_mono)
    next
      case 2
      then show ?thesis using err [OF w1, of CONNECTION_DISCONNECTED] bs by (auto simp: eq elim!: returns_mono)
    next
      case 3
      then show ?thesis
        using ConnectionEventHandle_inv [OF assms(1) conn_inv_put_buf [OF assms(2) m(1)], of INBOUND_DATA_EVENT r] bs
        by (auto simp: eq elim!: returns_mono)
    next
      case 4
      then show ?thesis using conn_inv_put_buf [OF w1 b0, of r] bs by (simp add: eq Let_def)
    qed
  qed
qed

text \<open>
  C11. \<open>ConnectionRead\<close>: the bytes of a successful \<open>recv\<close> stand in the read buffer, right behind what
  it held and exactly as received, when the handlers of \<open>INBOUND_DATA_EVENT\<close> are called. Bytes that
  arrive when reading is not allowed are wiped. A full buffer, an error of \<open>recv\<close> and the end of
  the stream close the connection, the latter not as an error, and without even raising one when
  the connection was waiting for it.
\<close>

theorem read_appends:
  assumes "well_behaved ucb" "conn_inv f w" "ne_addr env"
    and "cn_readBuffer (w_conn w) = Some r" "bm_bufs (k_mem (w_core w)) r = Some b"
    and "\<forall>bs. rv (b_limit b - b_position b) = Some bs \<longrightarrow> int (length bs) \<le> b_limit b - b_position b"
  shows "returns (ConnectionRead (core_cb ucb) f env rv w) (\<lambda>w'. conn_inv f w' \<and>
    (case (if b_position b = b_limit b then None else rv (b_limit b - b_position b)) of
       None \<Rightarrow> cn_state (w_conn w') = STATE_CLOSED \<and> cn_closedForError (w_conn w')
     | Some bs \<Rightarrow>
         if bs = [] then cn_state (w_conn w') = STATE_CLOSED \<and>
           (cn_state (w_conn w) \<noteq> STATE_PENDING_CLOSE \<longrightarrow> \<not> cn_closedForError (w_conn w')) \<and>
           (cn_state (w_conn w) = STATE_PENDING_CLOSE \<longrightarrow> cn_closedForError (w_conn w') = cn_closedForError (w_conn w))
         else if cn_canRead (w_conn w) then
           call_all ucb INBOUND_DATA_EVENT (conn_handlers w INBOUND_DATA_EVENT) (put_buf r (received bs b) (w_core w))
             = Inr (w_core w')
         else bm_bufs (k_mem (w_core w')) r =
             Some (b\<lparr>b_data := replicate (length (b_data b)) 0, b_position := 0, b_limit := b_size b\<rparr>)))"
  by (rule ConnectionRead_inv [where rv = rv, OF assms])

theorem read_appends_witness:
  "\<exists>w'. ConnectionRead (core_cb log_cb) 3 sample_env (\<lambda>n. Some [104, 105])
       (sample_world STATE_CONNECTED (small_buffer\<lparr>b_position := 1\<rparr>) small_buffer new_equeue) = Inr w' \<and>
     bm_bufs (k_mem (w_core w')) 0 =
       Some (small_buffer\<lparr>b_data := [0, 104, 105, 0, 0, 0, 0, 0, 0, 0], b_position := 3\<rparr>) \<and> conn_inv 3 w'"
proof -
  let ?b = "small_buffer\<lparr>b_position := 1\<rparr>"
  let ?w = "sample_world STATE_CONNECTED ?b small_buffer new_equeue"
  have i: "conn_inv 3 ?w"
    by (rule sample_conn_inv) (simp_all add: small_buffer_inv new_equeue_inv buf_inv_def small_buffer_def INT_MAX_def numeral_eq_Suc)
  have w: "cn_readBuffer (w_conn ?w) = Some 0" "bm_bufs (k_mem (w_core ?w)) 0 = Some ?b" "cn_canRead (w_conn ?w)"
    "conn_handlers ?w INBOUND_DATA_EVENT = []"
    by (simp_all add: sample_world_def permissions_def conn_handlers_def new_equeue_inv)
  have r: "received [104, 105] ?b = small_buffer\<lparr>b_data := [0, 104, 105, 0, 0, 0, 0, 0, 0, 0], b_position := 3\<rparr>"
    by (simp add: received_def small_buffer_def numeral_eq_Suc)
  have "returns (ConnectionRead (core_cb log_cb) 3 sample_env (\<lambda>n. Some [104, 105]) ?w)
      (\<lambda>w'. conn_inv 3 w' \<and> w_core w' = put_buf 0 (received [104, 105] ?b) (w_core ?w))"
    by (rule returns_mono [OF read_appends [OF log_cb_well_behaved i sample_env_addr w(1,2)]])
      (use w(3,4) in \<open>auto simp: small_buffer_def\<close>)
  then show ?thesis by (auto simp: r elim!: returnsE)
qed

section \<open>Writing\<close>

text \<open>The bytes that wait in the write buffer.\<close>

definition unread :: "buffer \<Rightarrow> byte list" where
  "unread b = take (nat (b_limit b - b_position b)) (drop (nat (b_position b)) (b_data b))"

definition pending :: "'u core \<Rightarrow> byte list" where
  "pending k =
     (case cn_writeBuffer (k_conn k) of
        None \<Rightarrow> []
      | Some r \<Rightarrow> (case bm_bufs (k_mem k) r of None \<Rightarrow> [] | Some b \<Rightarrow> unread b))"

text \<open>The writer calls \<open>ConnectionWrite\<close> again as long as it asks for it; \<open>ks\<close>: what \<open>send\<close> takes at most, call by call.\<close>

fun write_out ::
  "('c, 'd, 'u) callbacks \<Rightarrow> nat \<Rightarrow> name_env \<Rightarrow> nat list \<Rightarrow> ('c, 'd, 'u) world \<Rightarrow> (bool \<times> ('c, 'd, 'u) world) res" where
  "write_out cb f env [] w = Inr (True, w)"
| "write_out cb f env (k # ks) w =
     bnd (ConnectionWrite cb f env (\<lambda>n. Some (min n k)) w) (\<lambda>(again, w').
     if again then write_out cb f env ks w' else Inr (False, w'))"

text \<open>A connection whose write buffer may be sent.\<close>

definition writable :: "nat \<Rightarrow> buffer \<Rightarrow> ('c, 'd, 'u) world \<Rightarrow> bool" where
  "writable r b w \<longleftrightarrow> cn_writeBuffer (w_conn w) = Some r \<and> bm_bufs (k_mem (w_core w)) r = Some b \<and> buf_inv b \<and>
     cn_canWrite (w_conn w)"

lemma length_unread: "buf_inv b \<Longrightarrow> int (length (unread b)) = b_limit b - b_position b"
  using buf_invD [of b] by (simp add: unread_def)

lemma unread_advance:
  assumes "buf_inv b" "n \<le> length (unread b)"
  shows "unread (b\<lparr>b_position := b_position b + int n\<rparr>) = drop n (unread b)" "buf_inv (b\<lparr>b_position := b_position b + int n\<rparr>)"
proof -
  note b = buf_invD [OF assms(1)]
  have l: "int n \<le> b_limit b - b_position b" using length_unread [OF assms(1)] assms(2) by linarith
  have e: "nat (b_limit b - (b_position b + int n)) = nat (b_limit b - b_position b) - n"
    "nat (b_position b + int n) = n + nat (b_position b)" using b l by linarith+
  show "unread (b\<lparr>b_position := b_position b + int n\<rparr>) = drop n (unread b)"
    by (simp add: unread_def e drop_take)
  show "buf_inv (b\<lparr>b_position := b_position b + int n\<rparr>)" using b l by (simp add: buf_inv_def)
qed

text \<open>One call: the bytes that \<open>send\<close> takes leave the buffer; the last of them may end the stream.\<close>

definition sent_some :: "bool \<Rightarrow> nat \<Rightarrow> buffer \<Rightarrow> nat \<Rightarrow> ('c, 'd, 'u) world \<Rightarrow> ('c, 'd, 'u) world" where
  "sent_some pc r b n w =
     upd_core (\<lambda>c. (put_buf r (b\<lparr>b_position := b_position b + int n\<rparr>) c)
       \<lparr>k_net := k_net c @ [NetSend (take n (unread b))] @ (if n = length (unread b) \<and> pc then [NetShutdownWrite] else [])\<rparr>) w"

lemma send_pending_buf:
  assumes w: "cn_writeBuffer (w_conn w) = Some r" "bm_bufs (k_mem (w_core w)) r = Some b" "buf_inv b"
    and sn: "\<forall>k. sn (length (unread b)) = Some k \<longrightarrow> k \<le> length (unread b)"
  shows "send_pending cb f env sn pc (Some r) w =
    (case sn (length (unread b)) of
       None \<Rightarrow> bnd (ConnectionHandleError cb f env WRITE_ERROR w) (\<lambda>w1. Inr (False, w1))
     | Some k \<Rightarrow> Inr (k < length (unread b), sent_some pc r b k w))"
proof (cases "sn (length (unread b))")
  case None
  then show ?thesis using w buf_invD [of b] is_int_bounds [of "b_limit b - b_position b"]
    by (simp add: send_pending_def get_buf_def BufferGetLimit_def BufferGetPosition_def BufferGetBytes_def
        mread_def unread_def)
next
  case (Some k)
  note b = buf_invD [OF w(3)]
  obtain u where u: "unread b = u" by blast
  have k: "k \<le> length u" using sn Some u by simp
  have l: "int (length u) = b_limit b - b_position b" using length_unread [OF w(3)] u by simp
  have n: "is_int (b_limit b - b_position b)" "is_int (b_position b + int k)"
    using b l k by (intro is_int_bounds; simp)+
  have rd: "mread (b_data b) (b_position b) (b_limit b - b_position b) = Inr u"
    using b u by (simp add: mread_def unread_def)
  have p: "snd (BufferPosition b (b_position b + int k)) = b\<lparr>b_position := b_position b + int k\<rparr>"
    using l k by (simp add: BufferPosition_def)
  have h: "b_position b + int k < b_limit b \<longleftrightarrow> k < length u" "k = length u \<longleftrightarrow> \<not> k < length u" using l k by auto
  show ?thesis unfolding sent_some_def u h(2)
    using w n rd p h(1) Some u b(2) k by (auto simp add: send_pending_def Let_def get_buf_def BufferHasRemaining_def BufferGetLimit_def
      BufferGetPosition_def BufferGetBytes_def ConnectionShutdown_def upd_core_def)
qed

lemma send_pending_eq:
  assumes "writable r b w" "\<forall>k. sn (length (unread b)) = Some k \<longrightarrow> k \<le> length (unread b)"
  shows "send_pending cb f env sn pc (Some r) w =
    (case sn (length (unread b)) of
       None \<Rightarrow> bnd (ConnectionHandleError cb f env WRITE_ERROR w) (\<lambda>w1. Inr (False, w1))
     | Some k \<Rightarrow> Inr (k < length (unread b), sent_some pc r b k w))"
  using assms(1) by (intro send_pending_buf [where sn = sn, OF _ _ _ assms(2)]) (simp_all add: writable_def)

lemma refill_nothing:
  "writable r b w \<Longrightarrow> unread b \<noteq> [] \<Longrightarrow> refill cb f (Some r) w = Inr w"
  using length_unread [of b] by (cases "unread b") (auto simp: refill_def writable_def get_buf_def BufferHasRemaining_def)

lemma ConnectionWrite_some:
  assumes "writable r b w" "unread b \<noteq> []"
  shows "ConnectionWrite cb f env (\<lambda>n. Some (min n k)) w =
    Inr (k < length (unread b), sent_some (cn_state (w_conn w) = STATE_PENDING_CLOSE) r b (min k (length (unread b))) w)"
  using assms refill_nothing [OF assms, of cb f] send_pending_eq [OF assms(1), of "\<lambda>n. Some (min n k)" cb f env]
  by (auto simp: ConnectionWrite_def writable_def min.commute)

lemma pending_writable: "writable r b w \<Longrightarrow> pending (w_core w) = unread b"
  by (simp add: writable_def pending_def)

lemma sent_some_fields:
  assumes "writable r b w" "n \<le> length (unread b)"
  shows "writable r (b\<lparr>b_position := b_position b + int n\<rparr>) (sent_some pc r b n w)" "w_conn (sent_some pc r b n w) = w_conn w"
    "k_net (w_core (sent_some pc r b n w)) = k_net (w_core w) @ [NetSend (take n (unread b))] @
       (if n = length (unread b) \<and> pc then [NetShutdownWrite] else [])"
  using assms unread_advance(2) [of b n] by (simp_all add: writable_def sent_some_def)

text \<open>
  C10. However \<open>send\<close> splits them, the bytes that wait in the write buffer go out in order, none
  lost or repeated: after calls that take \<open>ks\<close> bytes at most, the first \<open>sum_list ks\<close> have been sent
  and the others wait. \<open>ConnectionWrite\<close> asks to be called again exactly until all are sent, and
  then shuts the stream down exactly when the connection was waiting to close.
\<close>

theorem write_sends_in_order:
  assumes "writable r b w" "pending (w_core w) \<noteq> []"
  shows "\<exists>w' chunks.
    write_out cb f env ks w = Inr (sum_list ks < length (pending (w_core w)), w') \<and>
    concat chunks = take (sum_list ks) (pending (w_core w)) \<and>
    pending (w_core w') = drop (sum_list ks) (pending (w_core w)) \<and> w_conn w' = w_conn w \<and>
    k_net (w_core w') = k_net (w_core w) @ map NetSend chunks @
      (if length (pending (w_core w)) \<le> sum_list ks \<and> cn_state (w_conn w) = STATE_PENDING_CLOSE then [NetShutdownWrite] else [])"
  using assms
proof (induction ks arbitrary: b w)
  case Nil
  then show ?case by (intro exI [of _ w] exI [of _ "[]"]) simp
next
  case (Cons k ks)
  let ?u = "unread b" and ?n = "min k (length (unread b))"
  let ?w = "sent_some (cn_state (w_conn w) = STATE_PENDING_CLOSE) r b ?n w" and ?b = "b\<lparr>b_position := b_position b + int ?n\<rparr>"
  have u: "pending (w_core w) = ?u" "?u \<noteq> []" using Cons.prems pending_writable [OF Cons.prems(1)] by simp_all
  note w1 = sent_some_fields [OF Cons.prems(1) min.cobounded2 [of k "length (unread b)"],
    where pc = "cn_state (w_conn w) = STATE_PENDING_CLOSE"]
  have u1: "pending (w_core ?w) = drop ?n ?u"
    using pending_writable [OF w1(1)] unread_advance(1) [of b ?n] Cons.prems(1) by (simp add: writable_def)
  note c = ConnectionWrite_some [OF Cons.prems(1) u(2), of cb f env k]
  show ?case
  proof (cases "k < length ?u")
    case True
    then have "pending (w_core ?w) \<noteq> []" using u1 by simp
    from Cons.IH [OF w1(1) this] obtain w' chunks where
      "write_out cb f env ks ?w = Inr (sum_list ks < length (pending (w_core ?w)), w')"
      "concat chunks = take (sum_list ks) (pending (w_core ?w))"
      "pending (w_core w') = drop (sum_list ks) (pending (w_core ?w))" "w_conn w' = w_conn ?w"
      "k_net (w_core w') = k_net (w_core ?w) @ map NetSend chunks @
      (if length (pending (w_core ?w)) \<le> sum_list ks \<and> cn_state (w_conn ?w) = STATE_PENDING_CLOSE then [NetShutdownWrite] else [])"
      by blast
    then show ?thesis using True c u1 w1(2,3) u
      by (intro exI [of _ w'] exI [of _ "take k ?u # chunks"]) (auto simp: min_def take_add add.commute)
  next
    case False
    then show ?thesis using c u1 w1(2,3) u
      by (intro exI [of _ ?w] exI [of _ "[?u]"]) (auto simp: min_def)
  qed
qed

theorem write_sends_in_order_witness:
  "\<exists>w'. write_out (core_cb log_cb) 3 sample_env [2, 0, 4]
      (sample_world STATE_PENDING_CLOSE small_buffer (small_buffer\<lparr>b_position := 3, b_limit := 7\<rparr>) new_equeue) = Inr (False, w') \<and>
     (\<exists>chunks. concat chunks = [0, 0, 0, 0] \<and> k_net (w_core w') = map NetSend chunks @ [NetShutdownWrite])"
proof -
  let ?b = "small_buffer\<lparr>b_position := 3, b_limit := 7\<rparr>"
  let ?w = "sample_world STATE_PENDING_CLOSE small_buffer ?b new_equeue"
  have w: "writable 1 ?b ?w" "k_net (w_core ?w) = []" "cn_state (w_conn ?w) = STATE_PENDING_CLOSE"
    by (simp_all add: writable_def sample_world_def permissions_def buf_inv_def small_buffer_def INT_MAX_def numeral_eq_Suc)
  have u: "pending (w_core ?w) = [0, 0, 0, 0]"
    using pending_writable [OF w(1)] by (simp add: unread_def small_buffer_def numeral_eq_Suc)
  then have "pending (w_core ?w) \<noteq> []" by simp
  from write_sends_in_order [OF w(1) this, of "core_cb log_cb" 3 sample_env "[2, 0, 4]"] show ?thesis
    using w u by auto
qed

section \<open>Owners\<close>

text \<open>The threads report that they are done with a connection, in some order.\<close>

fun reports :: "owner list \<Rightarrow> ('c, 'd, 'u) world \<Rightarrow> (bool list \<times> ('c, 'd, 'u) world) res" where
  "reports [] w = Inr ([], w)"
| "reports (own # os) w =
     bnd (ConnectionNoMoreUsed own w) (\<lambda>(r, w1). bnd (reports os w1) (\<lambda>(rs, w2). Inr (r # rs, w2)))"

definition closed_by :: "owner set \<Rightarrow> ('c, 'd, 'u) world \<Rightarrow> ('c, 'd, 'u) world" where
  "closed_by A w = upd_core (upd_conn (\<lambda>c. c\<lparr>cn_closedBy := (\<lambda>i. i \<in> A), cn_closedByLock := Some free_lock\<rparr>)) w"

lemma all_owners_UNIV [simp]: "set all_owners = UNIV"
proof -
  have "i \<in> set all_owners" for i by (cases i) (simp_all add: all_owners_def)
  then show ?thesis by auto
qed

lemma closed_by_twice [simp]: "closed_by A (closed_by B w) = closed_by A w"
  by (simp add: closed_by_def upd_core_def upd_conn_def)

lemma ConnectionNoMoreUsed_closed_by:
  "ConnectionNoMoreUsed own (closed_by A w) =
     Inr (insert own A = UNIV, closed_by (if insert own A = UNIV then {} else insert own A) w)"
proof -
  have "(\<lambda>i. i \<in> A)(own := True) = (\<lambda>i. i \<in> insert own A)" by (auto simp: fun_eq_iff)
  moreover have "(\<forall>i. i = own \<or> i \<in> A) \<longleftrightarrow> insert own A = UNIV" by auto
  ultimately show ?thesis
    by (simp add: ConnectionNoMoreUsed_def closed_by_def Let_def upd_core_def upd_conn_def cong: if_cong)
qed

lemma reports_closed_by:
  "insert l (set ps \<union> A) = UNIV \<Longrightarrow> l \<notin> set ps \<union> A \<Longrightarrow>
   reports (ps @ [l]) (closed_by A w) = Inr (replicate (length ps) False @ [True], closed_by {} w)"
proof (induction ps arbitrary: A)
  case Nil
  then show ?case by (simp add: ConnectionNoMoreUsed_closed_by)
next
  case (Cons p ps)
  have "insert p A \<noteq> UNIV" using Cons.prems(2) by auto
  moreover have "insert l (set ps \<union> insert p A) = UNIV" "l \<notin> set ps \<union> insert p A" using Cons.prems by auto
  ultimately show ?case using Cons.IH [of "insert p A"] by (simp add: ConnectionNoMoreUsed_closed_by)
qed

text \<open>
  C12. \<open>ConnectionNoMoreUsed\<close>: in whatever order the owners report that they are done, and however
  often each does, exactly the report that completes the set of owners is told to free the
  connection. It also clears the set, so that the connection can be used again.
\<close>

theorem last_owner_frees:
  assumes "cn_closedByLock (w_conn w) = Some free_lock"
    and "\<forall>i. cn_closedBy (w_conn w) i \<or> i \<in> set ps \<or> i = l" "\<not> cn_closedBy (w_conn w) l" "l \<notin> set ps"
  shows "reports (ps @ [l]) w = Inr (replicate (length ps) False @ [True],
    upd_core (upd_conn (\<lambda>c. c\<lparr>cn_closedBy := (\<lambda>_. False)\<rparr>)) w)"
proof -
  let ?A = "{i. cn_closedBy (w_conn w) i}"
  have "closed_by ?A w = w" using assms(1) by (simp add: closed_by_def upd_core_def upd_conn_def)
  moreover have "closed_by {} w = upd_core (upd_conn (\<lambda>c. c\<lparr>cn_closedBy := (\<lambda>_. False)\<rparr>)) w"
    using assms(1) by (simp add: closed_by_def upd_core_def upd_conn_def)
  moreover have "insert l (set ps \<union> ?A) = UNIV" "l \<notin> set ps \<union> ?A" using assms(2-4) by auto
  ultimately show ?thesis using reports_closed_by [of l ps ?A w] by simp
qed

theorem last_owner_frees_witness:
  "\<exists>w'. reports [OWNER_WORKER, OWNER_READER, OWNER_WORKER, OWNER_WRITER, OWNER_CLIENT]
      (sample_world STATE_CLOSED small_buffer small_buffer new_equeue) = Inr ([False, False, False, False, True], w')"
proof -
  let ?w = "sample_world STATE_CLOSED small_buffer small_buffer new_equeue"
  let ?ps = "[OWNER_WORKER, OWNER_READER, OWNER_WORKER, OWNER_WRITER]"
  have w: "cn_closedByLock (w_conn ?w) = Some free_lock" "\<not> cn_closedBy (w_conn ?w) OWNER_CLIENT" "OWNER_CLIENT \<notin> set ?ps"
    by (simp_all add: sample_world_def)
  have "\<forall>i. cn_closedBy (w_conn ?w) i \<or> i \<in> set ?ps \<or> i = OWNER_CLIENT"
    by (rule allI, case_tac i) (simp_all add: sample_world_def)
  from last_owner_frees [OF w(1) this w(2,3)] show ?thesis by (simp add: numeral_eq_Suc)
qed

section \<open>Programs\<close>

datatype conn_op =
    CInit int bool | CConnect connect_result | CFinish "int option" "int option" | CRead "int \<Rightarrow> byte list option" | CProcess
  | CWrite "nat \<Rightarrow> nat option" | CShutdown | CInterest | CClose bool | CNoMore owner | CManaged owner

text \<open>\<open>recv\<close> and \<open>send\<close> transfer at most as many bytes as they are asked for.\<close>

fun cop_ok :: "conn_op \<Rightarrow> bool" where
  "cop_ok (CRead rv) = (\<forall>n bs. 0 \<le> n \<longrightarrow> rv n = Some bs \<longrightarrow> int (length bs) \<le> n)"
| "cop_ok (CWrite sn) = (\<forall>n k. sn n = Some k \<longrightarrow> k \<le> n)"
| "cop_ok _ = True"

fun conn_step :: "('c, 'd, 'u) callbacks \<Rightarrow> nat \<Rightarrow> name_env \<Rightarrow> conn_op \<Rightarrow> ('c, 'd, 'u) world \<Rightarrow> ('c, 'd, 'u) world res" where
  "conn_step cb f env (CInit sock ok) w = ConnectionInit cb f env sock ok w"
| "conn_step cb f env (CConnect r) w = ConnectionConnect cb f env r w"
| "conn_step cb f env (CFinish pl so) w = ConnectionFinishConnect cb f env pl so w"
| "conn_step cb f env (CRead rv) w = ConnectionRead cb f env rv w"
| "conn_step cb f env CProcess w = ConnectionProcessData cb f w"
| "conn_step cb f env (CWrite sn) w = bnd (ConnectionWrite cb f env sn w) (\<lambda>(_, w'). Inr w')"
| "conn_step cb f env CShutdown w = Inr (ConnectionShutdown w)"
| "conn_step cb f env CInterest w = EnableWriteInterest cb f w"
| "conn_step cb f env (CClose force) w = ConnectionClose cb f env force w"
| "conn_step cb f env (CNoMore own) w = bnd (ConnectionNoMoreUsed own w) (\<lambda>(_, w'). Inr w')"
| "conn_step cb f env (CManaged own) w = ConnectionManagedBy cb f env own w"

fun conn_run :: "('c, 'd, 'u) callbacks \<Rightarrow> nat \<Rightarrow> name_env \<Rightarrow> conn_op list \<Rightarrow> ('c, 'd, 'u) world \<Rightarrow> ('c, 'd, 'u) world res" where
  "conn_run cb f env [] w = Inr w"
| "conn_run cb f env (op # ops) w = bnd (conn_step cb f env op w) (conn_run cb f env ops)"

text \<open>Updates of the connection that the invariant does not depend on.\<close>

lemma conn_inv_upd:
  assumes "conn_inv f w" "queues_ok w'" "conn_handlers w' = conn_handlers w" "k_mem (w_core w') = k_mem (w_core w)"
    "k_addrs (w_core w') = k_addrs (w_core w)" "cn_state (w_conn w') = cn_state (w_conn w)"
    "cn_canRead (w_conn w') = cn_canRead (w_conn w)" "cn_canWrite (w_conn w') = cn_canWrite (w_conn w)"
    "cn_readBuffer (w_conn w') = cn_readBuffer (w_conn w)" "cn_writeBuffer (w_conn w') = cn_writeBuffer (w_conn w)"
    "cn_address (w_conn w') = cn_address (w_conn w)" "cn_stateLock (w_conn w') = cn_stateLock (w_conn w)"
    "cn_closedByLock (w_conn w') = Some free_lock" "cn_managedByLock (w_conn w') = Some free_lock"
  shows "conn_inv f w'"
  using assms by (simp add: conn_inv_def world_ok_def permitted_def bufs_ok_def buf_ok_def)

section \<open>Where the state machine breaks\<close>

text \<open>
  The handlers of a state change run with the state's lock taken, and the lock is not
  recursive: a handler that changes the state itself, for instance one that closes the connection
  as soon as it is connected, blocks for ever, and with it the thread and every later change.
\<close>

theorem state_change_in_handler_blocks:
  assumes "conn_inv f w" "ne_addr env" "event_of st = Some ev" "cn_state (w_conn w) \<noteq> st"
    and "conn_handlers w ev = h # hs" "st' \<noteq> st"
    and "\<forall>k. ucb (h_callback h) ev (h_data h) k = bnd (ConnectionState cb' f' env' st' (v\<lparr>w_core := k\<rparr>)) (\<lambda>w1. Inr (w_core w1))"
  shows "ConnectionState (core_cb ucb) f env st w = Inl Blocked"
proof -
  note i = conn_invD [OF assms(1)]
  obtain a str where ad: "cn_address (w_conn w) = Some a" "k_addrs (w_core w) a = Some str" using i(1) by (rule world_okE)
  let ?w = "w\<lparr>w_core := entering env st (w_core w)\<rparr>"
  have "ConnectionState cb' f' env' st' (v\<lparr>w_core := entering env st (w_core w)\<rparr>) = Inl Blocked"
    using assms(6) by (simp add: ConnectionState_def)
  then have "call_all ucb ev (conn_handlers ?w ev) (w_core ?w) = Inl Blocked" using assms(5,7) by simp
  then have "ConnectionEventHandle (core_cb ucb) f ev ?w = Inl Blocked"
    using ConnectionEventHandle_all [of ?w ev f ucb] i(6,7) by simp
  then show ?thesis
    using assms(4) i(3) by (simp add: ConnectionState_def enter_state_event [OF assms(3) ad assms(2)])
qed

definition closing_cb :: "nat \<Rightarrow> event \<Rightarrow> unit option \<Rightarrow> nat list core \<Rightarrow> nat list core res" where
  "closing_cb c e d k =
     bnd (ConnectionState (core_cb log_cb) 3 sample_env STATE_CLOSED \<lparr>w_sys = None, w_usr = None, w_core = k\<rparr>) (\<lambda>w. Inr (w_core w))"

theorem state_change_in_handler_blocks_witness:
  "\<exists>qs. ConnectionState (core_cb closing_cb) 3 sample_env STATE_CONNECTED (sample_world STATE_CONNECTING small_buffer small_buffer qs)
     = Inl Blocked"
proof -
  let ?h = "\<lparr>h_event = CONNECTED_EVENT, h_once = False, h_callback = 4, h_data = None\<rparr> :: (nat, unit) handler"
  obtain q where q: "eq_inv q" "handlers q = (\<lambda>_. [])(CONNECTED_EVENT := [?h])"
    using eq_run_seq [OF new_equeue_inv(1), of "[EAdd ?h]"] by (auto simp: new_equeue_inv(2) elim!: returnsE)
  let ?w = "sample_world STATE_CONNECTING small_buffer small_buffer q"
  have i: "conn_inv 3 ?w" by (rule sample_conn_inv) (simp_all add: small_buffer_inv q)
  have w: "event_of STATE_CONNECTED = Some CONNECTED_EVENT" "cn_state (w_conn ?w) \<noteq> STATE_CONNECTED"
    "conn_handlers ?w CONNECTED_EVENT = ?h # []" "STATE_CLOSED \<noteq> STATE_CONNECTED"
    by (simp_all add: sample_world_def conn_handlers_def q(2) new_equeue_inv event_of_def)
  have "\<forall>k. closing_cb (h_callback ?h) CONNECTED_EVENT (h_data ?h) k = bnd (ConnectionState (core_cb log_cb) 3 sample_env STATE_CLOSED
      (\<lparr>w_sys = None, w_usr = None, w_core = w_core ?w\<rparr>\<lparr>w_core := k\<rparr>)) (\<lambda>w. Inr (w_core w))"
    by (simp add: closing_cb_def)
  from state_change_in_handler_blocks [where ucb = closing_cb and cb' = "core_cb log_cb" and f' = 3 and env' = sample_env
      and v = "\<lparr>w_sys = None, w_usr = None, w_core = w_core ?w\<rparr>", OF i sample_env_addr w this] show ?thesis by blast
qed

text \<open>
  \<open>ConnectionManagedBy\<close> does not look at the state: when the last owner takes charge of a
  connection that was closed in the meantime, the connection becomes connected again, with reading
  and writing allowed, although \<open>CLOSE_EVENT\<close> has been handled and the socket may be gone.
\<close>

theorem closed_connection_revived:
  assumes "well_behaved ucb" "conn_inv f w" "ne_addr env" "cn_state (w_conn w) = STATE_CLOSED"
    and "\<forall>i. i \<noteq> own \<longrightarrow> cn_managedBy (w_conn w) i"
  shows "returns (ConnectionManagedBy (core_cb ucb) f env own w)
    (\<lambda>w'. cn_state (w_conn w') = STATE_CONNECTED \<and> cn_canRead (w_conn w') \<and> cn_canWrite (w_conn w'))"
proof -
  let ?by = "(cn_managedBy (w_conn w))(own := True)"
  let ?w = "upd_core (upd_conn (\<lambda>c. c\<lparr>cn_managedBy := ?by, cn_managedByLock := Some free_lock\<rparr>)) w"
  note i = conn_invD [OF assms(2)]
  have "\<forall>i. ?by i" using assms(5) by simp
  then have r: "ConnectionManagedBy (core_cb ucb) f env own w = ConnectionState (core_cb ucb) f env STATE_CONNECTED ?w"
    using i(5) by (simp add: ConnectionManagedBy_def Let_def)
  have "conn_inv f ?w" by (rule conn_inv_upd [OF assms(2)]) (simp_all add: i)
  from ConnectionState_ok [OF assms(1) this assms(3), of STATE_CONNECTED] show ?thesis unfolding r
    by (rule returns_mono) (auto dest!: conn_invD(2) simp: permitted_def permissions_def)
qed

theorem closed_connection_revived_witness:
  "\<exists>w'. ConnectionManagedBy (core_cb log_cb) 3 sample_env OWNER_WRITER
      (upd_core (upd_conn (\<lambda>c. c\<lparr>cn_managedBy := \<lambda>i. i \<noteq> OWNER_WRITER\<rparr>))
        (sample_world STATE_CLOSED small_buffer small_buffer new_equeue)) = Inr w' \<and> cn_state (w_conn w') = STATE_CONNECTED"
proof -
  let ?w = "sample_world STATE_CLOSED small_buffer small_buffer new_equeue"
  let ?w1 = "upd_core (upd_conn (\<lambda>c. c\<lparr>cn_managedBy := \<lambda>i. i \<noteq> OWNER_WRITER\<rparr>)) ?w"
  have "conn_inv 3 ?w"
    by (rule sample_conn_inv [OF small_buffer_inv small_buffer_inv new_equeue_inv(1)]) (simp add: new_equeue_inv)
  then have "conn_inv 3 ?w1" by (rule conn_inv_upd) (simp_all add: conn_invD(4-6) [OF \<open>conn_inv 3 ?w\<close>])
  moreover have "cn_state (w_conn ?w1) = STATE_CLOSED" "\<forall>i. i \<noteq> OWNER_WRITER \<longrightarrow> cn_managedBy (w_conn ?w1) i"
    by (simp_all add: sample_world_def)
  ultimately show ?thesis
    using closed_connection_revived [OF log_cb_well_behaved _ sample_env_addr, of 3 ?w1 OWNER_WRITER] by (auto elim!: returnsE)
qed

text \<open>
  Becoming connected copies the address into fresh memory in order to name the connection; when
  that allocation fails the code still frees it, and \<open>aio4c_free\<close> reads the header of a null pointer.
  When it succeeds, the name \<open>snprintf\<close> prints always fits the memory allocated for it.
\<close>

theorem naming_without_memory_is_undefined:
  assumes "conn_inv f w" "cn_state (w_conn w) \<noteq> STATE_CONNECTED" "cn_string (w_conn w) \<noteq> None"
  shows "(\<not> ne_addr env \<longrightarrow> ConnectionState cb f env STATE_CONNECTED w = Inl Undefined) \<and>
    connection_name h sv a = ''['' @ h @ '']:'' @ sv @ '' -> '' @ a"
proof -
  note i = conn_invD [OF assms(1)]
  obtain r str where "cn_address (w_conn w) = Some r" "k_addrs (w_core w) r = Some str" using i(1) by (rule world_okE)
  then have "\<not> ne_addr env \<Longrightarrow> ConnectionState cb f env STATE_CONNECTED w = Inl Undefined"
    using assms(2,3) i(3) by (auto simp: ConnectionState_def enter_state_def name_connection_def)
  moreover have "connection_name h sv a = ''['' @ h @ '']:'' @ sv @ '' -> '' @ a"
    by (simp add: connection_name_def c_snprintf_def)
  ultimately show ?thesis by simp
qed

theorem naming_without_memory_is_undefined_witness:
  "ConnectionState (core_cb log_cb) 3 (sample_env\<lparr>ne_addr := False\<rparr>) STATE_CONNECTED
     (sample_world STATE_CONNECTING small_buffer small_buffer new_equeue) = Inl Undefined"
proof -
  let ?w = "sample_world STATE_CONNECTING small_buffer small_buffer new_equeue"
  have i: "conn_inv 3 ?w"
    by (rule sample_conn_inv [OF small_buffer_inv small_buffer_inv new_equeue_inv(1)]) (simp add: new_equeue_inv)
  have "cn_state (w_conn ?w) \<noteq> STATE_CONNECTED" "cn_string (w_conn ?w) \<noteq> None" by (simp_all add: sample_world_def)
  from naming_without_memory_is_undefined [OF i this, of "sample_env\<lparr>ne_addr := False\<rparr>" "core_cb log_cb" "[]" "[]" "[]"]
  show ?thesis by simp
qed

section \<open>Creation and destruction\<close>

definition env_ok :: "conn_env \<Rightarrow> bool" where
  "env_ok env \<longleftrightarrow> ce_mem env \<and> ce_okb env = both_ok \<and> ce_okq env = all_ok \<and> ce_item env \<and> ce_sys env \<and> ce_usr env \<and>
     ce_lock env = (\<lambda>_. True)"

lemma pool_inv_limit:
  assumes "pool_inv c n pr m fs (r # os) e" "bm_bufs m r = Some b" "b_position b = 0" "0 \<le> n"
  shows "pool_inv c n pr (m\<lparr>bm_bufs := (bm_bufs m)(r \<mapsto> snd (BufferLimit b 0))\<rparr>) fs (r # os) e"
    "buf_inv (snd (BufferLimit b 0))" "unread (snd (BufferLimit b 0)) = []"
proof -
  have b: "owned n pr b" using pool_inv_out [OF assms(1), of r] assms(2) by simp
  then have l: "owned n pr (snd (BufferLimit b 0))"
    using assms(3,4) by (auto simp: owned_def buf_inv_def BufferLimit_def)
  then show "buf_inv (snd (BufferLimit b 0))" by (simp add: owned_def)
  show "unread (snd (BufferLimit b 0)) = []" using assms(3,4) b by (simp add: unread_def BufferLimit_def owned_def)
  show "pool_inv c n pr (m\<lparr>bm_bufs := (bm_bufs m)(r \<mapsto> snd (BufferLimit b 0))\<rparr>) fs (r # os) e"
    using assms(1) l by (auto simp: pool_inv_def pool_queue_def)
qed

lemma pool_inv_held:
  assumes "pool_inv c n pr m fs (w # r # os) e"
  shows "\<exists>b. bm_bufs m r = Some b \<and> owned n pr b" "w \<noteq> r"
  using pool_inv_out [OF assms, of r] assms by (auto simp: pool_inv_def)

text \<open>A new connection holds two more buffers of the pool; nothing waits in its write buffer.\<close>

definition created :: "nat \<Rightarrow> nat \<Rightarrow> int \<Rightarrow> nat list \<Rightarrow> ('c, 'd, 'u) world \<Rightarrow> bool" where
  "created f pr n os w \<longleftrightarrow> conn_inv f w \<and> cn_state (w_conn w) = STATE_NONE \<and>
     cn_closedBy (w_conn w) = (\<lambda>_. False)(OWNER_ACCEPTOR := True) \<and>
     cn_managedBy (w_conn w) = (\<lambda>_. False)(OWNER_ACCEPTOR := True, OWNER_CLIENT := True) \<and> pending (w_core w) = [] \<and>
     conn_handlers w = (\<lambda>_. []) \<and> w_sys w = Some new_equeue \<and> w_usr w = Some new_equeue \<and>
     (\<exists>rb wb fs e. cn_readBuffer (w_conn w) = Some rb \<and> cn_writeBuffer (w_conn w) = Some wb \<and>
        pool_inv (16, n) n pr (k_mem (w_core w)) fs (wb # rb # os) e)"

lemma NewConnection_seq:
  assumes "pool_inv (16, n) n pr m fs os e" "0 \<le> n" "n \<le> INT_MAX - 2" "env_ok env" "addrs a = Some str" "0 < f"
  shows "returns (NewConnection env pr (Some a) fa addrs u m :: (('c, 'd, 'u) world option \<times> bmem) res)
    (\<lambda>(p, m'). \<exists>w. p = Some w \<and> created f pr n os w \<and> m' = k_mem (w_core w) \<and> cn_address (w_conn w) = Some a \<and>
       cn_freeAddress (w_conn w) = fa \<and> cn_socket (w_conn w) = - 1 \<and> cn_isFactory (w_conn w) = False \<and>
       k_addrs (w_core w) = addrs \<and> k_net (w_core w) = [])"
proof -
  obtain r m1 fs1 e1 where a1: "AllocateBuffer both_ok all_ok True pr m = Inr (Some r, m1)"
    "pool_inv (16, n) n pr m1 fs1 (r # os) e1"
    using AllocateBuffer_seq [OF assms(1-3)] by (auto elim!: returnsE)
  obtain v m2 fs2 e2 b where a2: "AllocateBuffer both_ok all_ok True pr m1 = Inr (Some v, m2)"
    "pool_inv (16, n) n pr m2 fs2 (v # r # os) e2" "bm_bufs m2 v = Some b" "clean n pr b"
    using AllocateBuffer_seq [OF a1(2) assms(2,3)] by (auto simp: handed_out_def elim!: returnsE)
  have b0: "b_position b = 0" using a2(4) by (simp add: clean_def)
  note l = pool_inv_limit [OF a2(2,3) b0 assms(2)]
  from pool_inv_held [OF a2(2)] obtain br where br: "bm_bufs m2 r = Some br" "buf_inv br" "v \<noteq> r" by (auto simp: owned_def)
  show ?thesis
    using assms(4-6) a1(1) a2(1,3) l br
    by (auto simp: NewConnection_def Let_def env_ok_def NewEventQueue_ok created_def conn_inv_def world_ok_def permitted_def permissions_def
        bufs_ok_def buf_ok_def queues_ok_def conn_handlers_def new_equeue_inv pending_def)
qed

text \<open>The callbacks of \<open>FREE_EVENT\<close> do not touch the buffers.\<close>

definition spares_buffers :: "('c \<Rightarrow> event \<Rightarrow> 'd option \<Rightarrow> 'u core \<Rightarrow> 'u core res) \<Rightarrow> bool" where
  "spares_buffers ucb \<longleftrightarrow> (\<forall>c d k k'. ucb c FREE_EVENT d k = Inr k' \<longrightarrow> k_mem k' = k_mem k)"

lemma call_all_spares:
  "spares_buffers ucb \<Longrightarrow> call_all ucb FREE_EVENT hs k = Inr k' \<Longrightarrow> k_mem k' = k_mem k"
proof (induction hs arbitrary: k)
  case (Cons h hs)
  then show ?case by (auto simp: bnd_eq_Inr) (metis spares_buffers_def)
qed simp

lemma free_lock_if_free [simp]: "free_lock_if (Some free_lock) = Inr None"
  by (simp add: free_lock_if_def)

lemma release_two:
  assumes "pool_inv c n pr m fs (wb # rb # os) e"
  shows "returns (ReleaseBuffer all_ok (Some rb) m) (\<lambda>(_, m1).
    returns (ReleaseBuffer all_ok (Some wb) m1) (\<lambda>(_, m2). pool_inv c n pr m2 (fs @ [rb, wb]) os e))"
proof -
  have d: "distinct (wb # os)" "set (wb # os) \<subseteq> set (wb # rb # os) - {rb}" "distinct os" "set os \<subseteq> set (wb # os) - {wb}"
    using assms by (auto simp: pool_inv_def)
  have "returns (ReleaseBuffer all_ok (Some wb) m1) (\<lambda>(_, m2). pool_inv c n pr m2 (fs @ [rb, wb]) os e)"
    if "pool_inv c n pr m1 (fs @ [rb]) (wb # os) e" for m1
    using ReleaseBuffer_seq [OF that _ d(3,4)] by (auto elim!: returns_mono)
  then show ?thesis
    using ReleaseBuffer_seq [OF assms _ d(1,2)] by (auto elim!: returns_mono)
qed

lemma FreeConnection_calls:
  fixes w :: "('c, 'd, 'u) world"
  assumes "conn_inv f w" "\<not> cn_isFactory (w_conn w)"
    and "cn_readBuffer (w_conn w) = Some rb" "cn_writeBuffer (w_conn w) = Some wb"
    and "pool_inv c n pr (k_mem (w_core w)) fs (wb # rb # os) e"
    and "call_all ucb FREE_EVENT (conn_handlers w FREE_EVENT)
      (if cn_socket (w_conn w) \<noteq> - 1 then (w_core w)\<lparr>k_net := k_net (w_core w) @ [NetClose]\<rparr> else w_core w) = Inr k"
    and "calm (w_core w) k" "k_mem k = k_mem (w_core w)"
  shows "returns (FreeConnection (core_cb ucb) f all_ok w) (\<lambda>(k', hu, hs). hu = Map.empty \<and> hs = Map.empty \<and>
    pool_inv c n pr (k_mem k') (fs @ [rb, wb]) os e \<and> k_user k' = k_user k \<and> k_raised k' = k_raised k \<and>
    k_addrs k' = (if cn_freeAddress (k_conn k) then (k_addrs k)(the (cn_address (k_conn k)) := None) else k_addrs k) \<and>
    (\<exists>p p' m. ReleaseBuffer all_ok (Some rb) (k_mem (w_core w)) = Inr (p, m) \<and> ReleaseBuffer all_ok (Some wb) m = Inr (p', k_mem k')))"
proof -
  let ?w = "if cn_socket (w_conn w) \<noteq> - 1 then upd_core (\<lambda>k. k\<lparr>k_net := k_net k @ [NetClose]\<rparr>) w else w"
  note i = conn_invD [OF assms(1)]
  have f: "w_conn ?w = w_conn w" "conn_handlers ?w = conn_handlers w"
    "w_core ?w = (if cn_socket (w_conn w) \<noteq> - 1 then (w_core w)\<lparr>k_net := k_net (w_core w) @ [NetClose]\<rparr> else w_core w)" by simp_all
  have q: "queues_ok ?w" "length (conn_handlers ?w FREE_EVENT) < f" using i(6,7) f(2) by simp_all
  obtain w2 where w2: "ConnectionEventHandle (core_cb ucb) f FREE_EVENT ?w = Inr w2" "w_core w2 = k" "queues_ok w2"
    using ConnectionEventHandle_all [OF q, of ucb] assms(6) f(2,3) by (auto elim!: returnsE)
  note cl = calmD [OF assms(7)]
  obtain p3 m3 p4 m4 where r: "ReleaseBuffer all_ok (Some rb) (k_mem (w_core w)) = Inr (p3, m3)"
    "ReleaseBuffer all_ok (Some wb) m3 = Inr (p4, m4)" "pool_inv c n pr m4 (fs @ [rb, wb]) os e"
    using release_two [OF assms(5)] by (auto simp: returns_iff)
  obtain qs qu where qq: "w_sys w2 = Some qs" "eq_inv qs" "w_usr w2 = Some qu" "eq_inv qu"
    using w2(3) by (auto simp: queues_ok_def)
  obtain a str where "cn_address (w_conn w) = Some a" using i(1) by (rule world_okE)
  then show ?thesis
    using i(3-5) w2(1,2) assms(2-4,8) f(1) cl(4-9) r qq
    by (simp add: FreeConnection_def Let_def FreeEventQueue_seq)
qed

lemma FreeConnection_seq:
  fixes w :: "('c, 'd, 'u) world"
  assumes "well_behaved ucb" "spares_buffers ucb" "conn_inv f w" "\<not> cn_isFactory (w_conn w)"
    and "cn_readBuffer (w_conn w) = Some rb" "cn_writeBuffer (w_conn w) = Some wb"
    and "pool_inv c n pr (k_mem (w_core w)) fs (wb # rb # os) e"
  shows "returns (FreeConnection (core_cb ucb) f all_ok w) (\<lambda>(k, hu, hs). hu = Map.empty \<and> hs = Map.empty \<and>
    pool_inv c n pr (k_mem k) (fs @ [rb, wb]) os e)"
proof -
  let ?k = "if cn_socket (w_conn w) \<noteq> - 1 then (w_core w)\<lparr>k_net := k_net (w_core w) @ [NetClose]\<rparr> else w_core w"
  have b: "bufs_ok ?k" using conn_invD(8) [OF assms(3)] by (simp add: bufs_ok_def buf_ok_def)
  obtain k where k: "call_all ucb FREE_EVENT (conn_handlers w FREE_EVENT) ?k = Inr k" "calm ?k k"
    using call_all_well_behaved [OF assms(1) b] by (auto elim!: returnsE)
  have "calm (w_core w) k" using k(2) by (auto simp: calm_def split: if_splits)
  moreover have "k_mem k = k_mem (w_core w)" using call_all_spares [OF assms(2) k(1)] by simp
  ultimately show ?thesis using FreeConnection_calls [OF assms(3-7) k(1)] by (auto elim!: returns_mono)
qed

text \<open>
  A connection that \<open>NewConnection\<close> has made from a pool holds two of its buffers, nobody
  else's, has no handlers, free locks and nothing to send; the acceptor counts as done with it, and the
  acceptor and the client as in charge.
  \<open>FreeConnection\<close>, whatever has been done with the connection, gives exactly these two buffers
  back and leaves no node of either handler queue behind.
\<close>

theorem connection_gives_buffers_back:
  assumes "well_behaved ucb" "spares_buffers ucb" "0 < f" "0 \<le> n" "n \<le> INT_MAX - 2"
    and "pool_inv (16, n) n pr m fs os e" "env_ok env" "addrs a = Some str"
  shows "returns (NewConnection env pr (Some a) fa addrs u m :: (('c, 'd, 'u) world option \<times> bmem) res)
      (\<lambda>(p, m'). \<exists>w. p = Some w \<and> m' = k_mem (w_core w) \<and> created f pr n os w) \<and>
    (conn_inv f w \<longrightarrow> \<not> cn_isFactory (w_conn w) \<longrightarrow> cn_readBuffer (w_conn w) = Some rb \<longrightarrow> cn_writeBuffer (w_conn w) = Some wb \<longrightarrow>
     pool_inv (16, n) n pr (k_mem (w_core w)) fs' (wb # rb # os) e' \<longrightarrow>
     returns (FreeConnection (core_cb ucb) f all_ok w) (\<lambda>(k, hu, hs). hu = Map.empty \<and> hs = Map.empty \<and>
       pool_inv (16, n) n pr (k_mem k) (fs' @ [rb, wb]) os e'))"
  using NewConnection_seq [where f = f and fa = fa and u = u and addrs = addrs, OF assms(6,4,5,7,8,3)] FreeConnection_seq [OF assms(1,2)]
  by (auto elim!: returns_mono)

definition good_env :: conn_env where
  "good_env = \<lparr>ce_mem = True, ce_okb = both_ok, ce_okq = all_ok, ce_item = True, ce_sys = True, ce_usr = True, ce_lock = all_ok\<rparr>"

lemma good_env_ok: "env_ok good_env"
  by (simp add: env_ok_def good_env_def)

theorem connection_gives_buffers_back_witness:
  "returns (bnd (NewConnection good_env 0 (Some 0) True [0 \<mapsto> ''[::1]:80''] [] tight_pool) (\<lambda>(p, _).
      bnd (deref p) (FreeConnection (core_cb log_cb) 1 all_ok)))
     (\<lambda>(k, hu, hs). hu = Map.empty \<and> hs = Map.empty \<and> (\<exists>fs e. pool_inv (16, 8) 8 0 (k_mem k) fs [0] e))"
proof -
  have s: "spares_buffers log_cb" by (simp add: spares_buffers_def log_cb_def)
  have n: "(8 :: int) \<le> INT_MAX - 2" by (simp add: INT_MAX_def)
  obtain w :: "(nat, unit, nat list) world" where
    w: "NewConnection good_env 0 (Some 0) True [0 \<mapsto> ''[::1]:80''] [] tight_pool = Inr (Some w, k_mem (w_core w))"
      "created 1 0 8 [0] w" "\<not> cn_isFactory (w_conn w)"
    using NewConnection_seq [where f = 1 and fa = True and u = "[]", OF tight_pool_inv _ n good_env_ok, of "[0 \<mapsto> ''[::1]:80'']" 0 "''[::1]:80''"]
    by (auto elim!: returnsE)
  then obtain rb wb fs e where c: "conn_inv 1 w" "cn_readBuffer (w_conn w) = Some rb" "cn_writeBuffer (w_conn w) = Some wb"
    "pool_inv (16, 8) 8 0 (k_mem (w_core w)) fs (wb # rb # [0]) e"
    by (auto simp: created_def)
  have "returns (FreeConnection (core_cb log_cb) 1 all_ok w)
    (\<lambda>(k, hu, hs). hu = Map.empty \<and> hs = Map.empty \<and> pool_inv (16, 8) 8 0 (k_mem k) (fs @ [rb, wb]) [0] e)"
    by (rule connection_gives_buffers_back [THEN conjunct2, rule_format, OF log_cb_well_behaved s _ _ n tight_pool_inv good_env_ok])
      (use c w(3) in simp_all)
  then show ?thesis using w(1) by (auto elim!: returns_mono)
qed

text \<open>
  \<open>ConnectionFactoryCreate\<close>: the new connection has the handlers of the factory, in their order,
  the user's bound to the data made for this connection and the system's to the connection itself,
  and of its owners only the client is done with it. When \<open>fcntl\<close> fails, however, only the structure
  is freed: the two buffers taken from the pool are never given back.
\<close>

theorem factory_create_exact:
  fixes factory :: "('c, 'd, 'u) world"
  assumes "pool_inv (16, n) n pr m fs os e" "0 \<le> n" "n \<le> INT_MAX - 2" "env_ok env" "cn_pool (w_conn factory) = Some pr"
    and "k_addrs (w_core factory) a = Some str" "w_sys factory = Some qs" "eq_inv qs" "w_usr factory = Some qu" "eq_inv qu"
  shows "returns (ConnectionFactoryCreate env all_ok True factory (Some a) sock data u m) (\<lambda>(p, m', acts). acts = [] \<and>
      (\<exists>w. p = Some w \<and> cn_socket (w_conn w) = sock \<and> cn_state (w_conn w) = STATE_NONE \<and> m' = k_mem (w_core w) \<and>
        conn_handlers w = (\<lambda>ev. map (rebind None) (handlers qs ev) @ map (rebind data) (handlers qu ev)) \<and>
        (\<forall>i. cn_closedBy (w_conn w) i \<longleftrightarrow> i = OWNER_CLIENT))) \<and>
    returns (ConnectionFactoryCreate env all_ok False factory (Some a) sock data u m) (\<lambda>(p, m', acts).
      p = None \<and> acts = [NetShutdownBoth, NetClose] \<and>
      (\<exists>rb wb fs' e'. pool_inv (16, n) n pr m' fs' (wb # rb # os) e'))"
proof -
  obtain w :: "('c, 'd, 'u) world" where
    w: "NewConnection env pr (Some a) True (k_addrs (w_core factory)) u m = Inr (Some w, k_mem (w_core w))" "created 1 pr n os w"
    using NewConnection_seq [where f = 1 and fa = True and u = u and addrs = "k_addrs (w_core factory)",
        OF assms(1-4,6)] by (auto elim!: returnsE)
  then have q: "w_sys w = Some new_equeue" "w_usr w = Some new_equeue" "cn_state (w_conn w) = STATE_NONE"
    by (simp_all add: created_def)
  obtain du where du: "CopyEventQueue all_ok new_equeue qu data = Inr du"
    "handlers du = (\<lambda>e. map (rebind data) (handlers qu e))"
    using CopyEventQueue_seq [OF assms(10) new_equeue_inv(1), of data] by (auto simp: new_equeue_inv(2) elim!: returnsE)
  obtain ds where ds: "CopyEventQueue all_ok new_equeue qs None = Inr ds"
    "handlers ds = (\<lambda>e. map (rebind None) (handlers qs e))"
    using CopyEventQueue_seq [OF assms(8) new_equeue_inv(1), of None] by (auto simp: new_equeue_inv(2) elim!: returnsE)
  show ?thesis
    using w q du ds assms(5,7,9) by (auto simp: ConnectionFactoryCreate_def created_def conn_handlers_def)
qed

theorem factory_create_exact_witness:
  "\<exists>factory :: (nat, unit, nat list) world. NewConnectionFactory True True True (Some 0) [0 \<mapsto> ''[::1]:80''] [] tight_pool = Some factory \<and>
     returns (ConnectionFactoryCreate good_env all_ok True factory (Some 0) 7 None [] tight_pool) (\<lambda>(p, m', acts).
       \<exists>w. p = Some w \<and> cn_socket (w_conn w) = 7 \<and> conn_handlers w = (\<lambda>_. []))"
proof -
  have n: "(8 :: int) \<le> INT_MAX - 2" by (simp add: INT_MAX_def)
  obtain factory :: "(nat, unit, nat list) world" where
    f: "NewConnectionFactory True True True (Some 0) [0 \<mapsto> ''[::1]:80''] [] tight_pool = Some factory"
    by (simp add: NewConnectionFactory_def)
  then have g: "cn_pool (w_conn factory) = Some 0" "k_addrs (w_core factory) 0 = Some ''[::1]:80''"
    "w_sys factory = Some new_equeue" "w_usr factory = Some new_equeue"
    by (auto simp: NewConnectionFactory_def NewEventQueue_ok)
  show ?thesis
    using f factory_create_exact [OF tight_pool_inv _ n good_env_ok g(1,2,3) new_equeue_inv(1) g(4) new_equeue_inv(1), of 7 None "[]"]
    by (auto simp: new_equeue_inv(2) elim!: returns_mono)
qed

end
