(* ===== verification/HandlerCalls.thy ===== *)
theory HandlerCalls
  imports ConnectionLife
begin

text \<open>
  Handlers that call back into their connection, as the handlers of the repository's own programs do
  (\<open>test/client.c\<close>, \<open>test/server.c\<close>, \<open>test/benchmark.c\<close>): they work on what they are given and call
  \<open>EnableWriteInterest\<close> and \<open>ConnectionClose\<close>, whose events call further handlers while the first
  ones are still running.
\<close>

section \<open>Lists of handlers that a nested event leaves alone\<close>

text \<open>The nodes of an event's list, and what they hold, are the same in both queues.\<close>

definition list_kept :: "event \<Rightarrow> ('c, 'd) equeue \<Rightarrow> ('c, 'd) equeue \<Rightarrow> bool" where
  "list_kept e q q' \<longleftrightarrow> (\<forall>ns. eq_nodes q ns \<longrightarrow> (\<exists>ns'. eq_nodes q' ns' \<and> ns' e = ns e \<and>
     (\<forall>n \<in> set (ns e). handler_at q' n = handler_at q n)))"

lemma list_kept_refl [simp]: "list_kept e q q"
  by (auto simp: list_kept_def)

lemma list_kept_trans:
  assumes "list_kept e q q'" "list_kept e q' q''"
  shows "list_kept e q q''"
  unfolding list_kept_def
proof (intro allI impI)
  fix ns assume "eq_nodes q ns"
  with assms(1) obtain ns' where 1: "eq_nodes q' ns'" "ns' e = ns e" "\<forall>n \<in> set (ns e). handler_at q' n = handler_at q n"
    unfolding list_kept_def by blast
  with assms(2) obtain ns'' where "eq_nodes q'' ns''" "ns'' e = ns' e" "\<forall>n \<in> set (ns' e). handler_at q'' n = handler_at q' n"
    unfolding list_kept_def by blast
  with 1 show "\<exists>ns''. eq_nodes q'' ns'' \<and> ns'' e = ns e \<and> (\<forall>n \<in> set (ns e). handler_at q'' n = handler_at q n)"
    by (intro exI [of _ ns'']) simp
qed

text \<open>A queue from which a handler of the event was unlinked.\<close>

definition thinned :: "event \<Rightarrow> ('c, 'd) equeue \<Rightarrow> ('c, 'd) equeue \<Rightarrow> bool" where
  "thinned ev q q' \<longleftrightarrow> eq_inv q' \<and> (\<forall>e. e \<noteq> ev \<longrightarrow> list_kept e q q') \<and> (\<forall>e. length (handlers q' e) \<le> length (handlers q e))"

lemma unlink_thinned:
  assumes n: "eq_nodes q ns" "ns ev = as @ n # bs"
  shows "returns (unlink q ev n) (\<lambda>q'. thinned ev q q' \<and> eq_nodes q' (ns(ev := as @ bs)))"
proof (rule returns_mono [OF unlink_seq [OF n]], elim conjE)
  fix q' assume q': "eq_nodes q' (ns(ev := as @ bs))" and h: "\<forall>m. m \<noteq> n \<longrightarrow> handler_at q' m = handler_at q m"
  have "list_kept e q q'" if e: "e \<noteq> ev" for e
    unfolding list_kept_def
  proof (intro allI impI)
    fix ms assume ms: "eq_nodes q ms"
    have "dlist (eq_heap q) (eq_lists q e') (ms e')" "dlist (eq_heap q) (eq_lists q e') (ns e')" for e'
      using ms n(1) by (simp_all add: eq_nodes_def eparts_def)
    from walk_dlist [OF this(1) eq_nodes_length [OF ms]] walk_dlist [OF this(2) eq_nodes_length [OF n(1)]]
    have same: "ms = ns" by (simp add: fun_eq_iff)
    have "n \<notin> set (ns e)" using eq_nodes_in(3) [OF n(1), of n e] eq_nodes_in(3) [OF n(1), of n ev] n(2) e by auto
    then show "\<exists>ns'. eq_nodes q' ns' \<and> ns' e = ms e \<and> (\<forall>m \<in> set (ms e). handler_at q' m = handler_at q m)"
      using q' h e unfolding same by (intro exI [of _ "ns(ev := as @ bs)"]) auto
  qed
  moreover have "length (handlers q' e) \<le> length (handlers q e)" for e
    by (simp add: eq_nodes_handlers [OF q'] eq_nodes_handlers [OF n(1)] n(2))
  ultimately show "thinned ev q q' \<and> eq_nodes q' (ns(ev := as @ bs))"
    using q' by (auto simp: thinned_def eq_inv_def)
qed

text \<open>
  The loop over the handlers of an event when the handlers may change the queue, but not this
  event's list. \<open>I\<close> is what holds between the calls and \<open>R\<close> how the world may move on.
\<close>

locale busy_world =
  fixes get :: "'w \<Rightarrow> ('c, 'd) equeue option"
    and put :: "('c, 'd) equeue \<Rightarrow> 'w \<Rightarrow> 'w"
  assumes get_put: "get w \<noteq> None \<Longrightarrow> get (put q w) = Some q"
begin

lemma handle_loop_keeps:
  assumes cb: "\<And>c d w q. I w \<Longrightarrow> get w = Some q \<Longrightarrow>
      returns (cb c ev d w) (\<lambda>w'. I w' \<and> R w w' \<and> (\<exists>q'. get w' = Some q' \<and> list_kept ev q q'))"
    and pt: "\<And>w q q'. I w \<Longrightarrow> get w = Some q \<Longrightarrow> thinned ev q q' \<Longrightarrow> I (put q' w) \<and> R w (put q' w)"
    and R: "reflp R" "transp R"
  shows "I w \<Longrightarrow> get w = Some q \<Longrightarrow> eq_nodes q ns \<Longrightarrow> ns ev = as @ bs \<Longrightarrow> length bs < f \<Longrightarrow>
    returns (handle_loop get put cb f ev (hd_opt bs) w) (\<lambda>w'. I w' \<and> R w w')"
proof (induction bs arbitrary: w q ns as f)
  case Nil
  then obtain f' where "f = Suc f'" by (cases f) auto
  with Nil(1) R(1) show ?case by (simp add: reflpD)
next
  case (Cons n bs)
  then obtain f' where f: "f = Suc f'" "length bs < f'" by (cases f) auto
  note rd = eq_nodes_read [OF Cons.prems(3,4)]
  obtain w1 q1 where w1: "cb (h_callback (handler_at q n)) ev (h_data (handler_at q n)) w = Inr w1" "I w1" "R w w1"
      "get w1 = Some q1" "list_kept ev q q1"
    using cb [OF Cons.prems(1,2), of "h_callback (handler_at q n)" "h_data (handler_at q n)"] by (auto elim!: returnsE)
  then obtain ns1 where n1: "eq_nodes q1 ns1" "ns1 ev = as @ n # bs"
    using Cons.prems(3,4) unfolding list_kept_def by metis
  note rd1 = eq_nodes_read [OF n1]
  show ?case
  proof (cases "h_once (handler_at q1 n)")
    case False
    have "ns1 ev = (as @ [n]) @ bs" using n1(2) by simp
    from Cons.IH [OF w1(2,4) n1(1) this f(2)] have "returns (handle_loop get put cb f' ev (hd_opt bs) w1) (\<lambda>w'. I w' \<and> R w w')"
      by (rule returns_mono) (use transpD [OF R(2) w1(3)] in blast)
    then show ?thesis using Cons.prems(2) rd rd1 w1(1,4) False by (simp add: f(1))
  next
    case True
    obtain q2 where q2: "unlink q1 ev n = Inr q2" "thinned ev q1 q2" "eq_nodes q2 (ns1(ev := as @ bs))"
      using unlink_thinned [OF n1] by (auto elim!: returnsE)
    have g: "get (put q2 w1) = Some q2" by (rule get_put) (simp add: w1(4))
    have i: "I (put q2 w1)" "R w1 (put q2 w1)" using pt [OF w1(2,4) q2(2)] by simp_all
    have "(ns1(ev := as @ bs)) ev = as @ bs" by simp
    from Cons.IH [OF i(1) g q2(3) this f(2)]
    have "returns (handle_loop get put cb f' ev (hd_opt bs) (put q2 w1)) (\<lambda>w'. I w' \<and> R w w')"
      by (rule returns_mono) (use transpD [OF R(2) transpD [OF R(2) w1(3) i(2)]] in blast)
    then show ?thesis using Cons.prems(2) rd rd1 w1(1,4) True q2(1) by (simp add: f(1))
  qed
qed

lemma EventHandle_keeps:
  assumes cb: "\<And>c d w q. I w \<Longrightarrow> get w = Some q \<Longrightarrow>
      returns (cb c ev d w) (\<lambda>w'. I w' \<and> R w w' \<and> (\<exists>q'. get w' = Some q' \<and> list_kept ev q q'))"
    and pt: "\<And>w q q'. I w \<Longrightarrow> get w = Some q \<Longrightarrow> thinned ev q q' \<Longrightarrow> I (put q' w) \<and> R w (put q' w)"
    and R: "reflp R" "transp R"
    and w: "I w" "get w = Some q" "eq_inv q" "length (handlers q ev) < f"
  shows "returns (EventHandle get put cb f ev w) (\<lambda>w'. I w' \<and> R w w')"
proof -
  from w(3) obtain ns where n: "eq_nodes q ns" by (auto simp: eq_inv_def)
  have "dlist (eq_heap q) (eq_lists q ev) (ns ev)" using n by (simp add: eq_nodes_def eparts_def)
  then have first: "lfirst (eq_lists q ev) = hd_opt (ns ev)" by (simp add: dlist_def)
  have "ns ev = [] @ ns ev" "length (ns ev) < f" using w(4) eq_nodes_handlers [OF n, of ev] by simp_all
  from handle_loop_keeps [where cb = cb and I = I and R = R, OF cb pt R w(1,2) n this]
  show ?thesis using w(2) by (simp add: EventHandle_def first)
qed

end

interpretation bsys: busy_world w_sys put_sys
  by unfold_locales (simp add: put_sys_def)

interpretation busr: busy_world w_usr put_usr
  by unfold_locales (simp add: put_usr_def)


section \<open>What calls keep\<close>

definition lists_kept :: "event set \<Rightarrow> ('c, 'd, 'u) world \<Rightarrow> ('c, 'd, 'u) world \<Rightarrow> bool" where
  "lists_kept E w w' \<longleftrightarrow> (\<forall>e \<in> E. list_kept e (the (w_sys w)) (the (w_sys w')) \<and> list_kept e (the (w_usr w)) (the (w_usr w')))"

lemma lists_kept_refl [simp]: "lists_kept E w w" "lists_kept E w (w\<lparr>w_core := k\<rparr>)"
  by (simp_all add: lists_kept_def)

lemma lists_kept_trans: "lists_kept E w w' \<Longrightarrow> lists_kept E w' w'' \<Longrightarrow> lists_kept E w w''"
  unfolding lists_kept_def by (blast intro: list_kept_trans)

lemma lists_kept_core [simp]:
  "lists_kept E (upd_core g w) w' = lists_kept E w w'" "lists_kept E w (upd_core g w') = lists_kept E w w'"
  "lists_kept E (w\<lparr>w_core := k\<rparr>) w' = lists_kept E w w'"
  by (simp_all add: lists_kept_def)

text \<open>
  \<open>safe f K R E m\<close>: in a well-formed world whose connection satisfies \<open>K\<close> the call \<open>m\<close> returns, keeps
  both, moves the connection on by \<open>R\<close> and leaves the lists of the events \<open>E\<close> alone.
\<close>

definition moves ::
  "nat \<Rightarrow> ('u core \<Rightarrow> bool) \<Rightarrow> ('u core \<Rightarrow> 'u core \<Rightarrow> bool) \<Rightarrow> event set \<Rightarrow> ('c, 'd, 'u) world \<Rightarrow> ('c, 'd, 'u) world \<Rightarrow> bool" where
  "moves f K R E w w' \<longleftrightarrow> world_ok f w' \<and> K (w_core w') \<and> R (w_core w) (w_core w') \<and> lists_kept E w w'"

definition safe ::
  "nat \<Rightarrow> ('u core \<Rightarrow> bool) \<Rightarrow> ('u core \<Rightarrow> 'u core \<Rightarrow> bool) \<Rightarrow> event set \<Rightarrow>
   (('c, 'd, 'u) world \<Rightarrow> ('c, 'd, 'u) world res) \<Rightarrow> bool" where
  "safe f K R E m \<longleftrightarrow> (\<forall>w. world_ok f w \<longrightarrow> K (w_core w) \<longrightarrow> returns (m w) (moves f K R E w))"

lemma safeD: "safe f K R E m \<Longrightarrow> world_ok f w \<Longrightarrow> K (w_core w) \<Longrightarrow> returns (m w) (moves f K R E w)"
  by (simp add: safe_def)

lemma moves_trans: "transp R \<Longrightarrow> moves f K R E w w' \<Longrightarrow> moves f K R E w' w'' \<Longrightarrow> moves f K R E w w''"
  unfolding moves_def by (blast intro: lists_kept_trans dest: transpD)

lemma moves_mono:
  "moves f K R E w w' \<Longrightarrow> (\<And>k k'. R k k' \<Longrightarrow> R' k k') \<Longrightarrow> E' \<subseteq> E \<Longrightarrow> moves f K R' E' w w'"
  unfolding moves_def lists_kept_def by blast

lemma safe_skip: "reflp R \<Longrightarrow> safe f K R E Inr"
  by (simp add: safe_def moves_def reflpD)

lemma safe_bnd:
  fixes m m' :: "('c, 'd, 'u) world \<Rightarrow> ('c, 'd, 'u) world res"
  assumes "transp R" "safe f K R E m" "safe f K R E m'"
  shows "safe f K R E (\<lambda>w. bnd (m w) m')"
  unfolding safe_def
proof (intro allI impI, rule returns_bndI [OF safeD [OF assms(2)]])
  fix w w' :: "('c, 'd, 'u) world" assume m: "moves f K R E w w'"
  then have "world_ok f w'" "K (w_core w')" by (simp_all add: moves_def)
  from safeD [OF assms(3) this] show "returns (m' w') (moves f K R E w)"
    by (rule returns_mono) (rule moves_trans [OF assms(1) m])
qed

lemma world_ok_queues:
  assumes "world_ok f w"
  obtains qs qu where "w_sys w = Some qs" "eq_inv qs" "w_usr w = Some qu" "eq_inv qu"
    "\<forall>e. length (handlers qs e) < f" "\<forall>e. length (handlers qu e) < f"
proof -
  from assms obtain qs qu where q: "w_sys w = Some qs" "eq_inv qs" "w_usr w = Some qu" "eq_inv qu"
    "conn_handlers w = (\<lambda>ev. handlers qs ev @ handlers qu ev)" by (auto simp: world_ok_def elim: queues_okE)
  from assms have l: "length (handlers qs e) + length (handlers qu e) < f" for e using q(5) by (simp add: world_ok_def)
  have "length (handlers qs e) < f" "length (handlers qu e) < f" for e using l [of e] by linarith+
  with q that show thesis by blast
qed

lemma world_ok_thinned:
  assumes "world_ok f w" "thinned ev q q'" "ev \<notin> E"
  shows "w_sys w = Some q \<Longrightarrow> world_ok f (put_sys q' w) \<and> lists_kept E w (put_sys q' w)"
    "w_usr w = Some q \<Longrightarrow> world_ok f (put_usr q' w) \<and> lists_kept E w (put_usr q' w)"
proof -
  from assms(2) have t: "eq_inv q'" "\<And>e. length (handlers q' e) \<le> length (handlers q e)" "\<And>e. e \<in> E \<Longrightarrow> list_kept e q q'"
    using assms(3) by (auto simp: thinned_def)
  from assms(1) obtain qs qu where q: "w_sys w = Some qs" "eq_inv qs" "w_usr w = Some qu" "eq_inv qu"
    by (rule world_ok_queues)
  from assms(1) have l: "length (handlers qs e) + length (handlers qu e) < f" for e
    using q by (simp add: world_ok_def conn_handlers_def)
  have "length (handlers q' e) + length (handlers qu e) < f" if "q = qs" for e using l [of e] t(2) [of e] by (simp add: that)
  then show "w_sys w = Some q \<Longrightarrow> world_ok f (put_sys q' w) \<and> lists_kept E w (put_sys q' w)"
    using assms(1) t(1,3) q by (auto simp: world_ok_def queues_ok_def conn_handlers_def put_sys_def lists_kept_def)
  have "length (handlers qs e) + length (handlers q' e) < f" if "q = qu" for e using l [of e] t(2) [of e] by (simp add: that)
  then show "w_usr w = Some q \<Longrightarrow> world_ok f (put_usr q' w) \<and> lists_kept E w (put_usr q' w)"
    using assms(1) t(1,3) q by (auto simp: world_ok_def queues_ok_def conn_handlers_def put_usr_def lists_kept_def)
qed

lemma ConnectionEventHandle_keeps:
  fixes cb :: "('c, 'd, 'u) callbacks"
  assumes cb: "\<And>c d. safe f K R (insert ev E) (cb c ev d)" and R: "reflp R" "transp R" and ev: "ev \<notin> E"
  shows "safe f K R E (ConnectionEventHandle cb f ev)"
proof -
  let ?I = "\<lambda>w. world_ok f w \<and> K (w_core w)" and ?R = "\<lambda>w w'. R (w_core w) (w_core w') \<and> lists_kept E w w'"
  have R': "reflp ?R" "transp ?R"
    using R lists_kept_trans by (auto intro!: reflpI transpI dest: reflpD transpD) (blast dest: transpD)+
  have cb': "returns (cb c ev d w) (\<lambda>w'. ?I w' \<and> ?R w w' \<and> lists_kept {ev} w w')" if "?I w" for c d w
    by (rule returns_mono [OF safeD [OF cb]]) (use that in \<open>auto simp: moves_def lists_kept_def\<close>)
  have s: "returns (EventHandle w_sys put_sys cb f ev w) (\<lambda>w'. ?I w' \<and> ?R w w')" if w: "?I w" for w
  proof -
    have "world_ok f w" using w by simp
    then obtain qs qu where qs: "w_sys w = Some qs" "eq_inv qs" "w_usr w = Some qu" "eq_inv qu"
      "\<forall>e. length (handlers qs e) < f" "\<forall>e. length (handlers qu e) < f" by (rule world_ok_queues)
    note q = qs(1,2) qs(5) [rule_format, of ev]
    show ?thesis
    proof (rule bsys.EventHandle_keeps [where I = ?I and R = ?R, OF _ _ R' w q])
      fix c d and w :: "('c, 'd, 'u) world" and q
      assume w: "?I w" and q: "w_sys w = Some q"
      show "returns (cb c ev d w) (\<lambda>w'. ?I w' \<and> ?R w w' \<and> (\<exists>q'. w_sys w' = Some q' \<and> list_kept ev q q'))"
        by (rule returns_mono [OF cb' [OF w]]) (use q in \<open>auto simp: lists_kept_def elim!: world_ok_queues\<close>)
    next
      fix w :: "('c, 'd, 'u) world" and q q'
      assume "?I w" "w_sys w = Some q" "thinned ev q q'"
      then show "?I (put_sys q' w) \<and> ?R w (put_sys q' w)"
        using world_ok_thinned(1) [OF _ _ ev] reflpD [OF R(1)] by (auto simp: put_sys_def)
    qed
  qed
  have u: "returns (EventHandle w_usr put_usr cb f ev w) (\<lambda>w'. ?I w' \<and> ?R w w')" if w: "?I w" for w
  proof -
    have "world_ok f w" using w by simp
    then obtain qs qu where qs: "w_sys w = Some qs" "eq_inv qs" "w_usr w = Some qu" "eq_inv qu"
      "\<forall>e. length (handlers qs e) < f" "\<forall>e. length (handlers qu e) < f" by (rule world_ok_queues)
    note q = qs(3,4) qs(6) [rule_format, of ev]
    show ?thesis
    proof (rule busr.EventHandle_keeps [where I = ?I and R = ?R, OF _ _ R' w q])
      fix c d and w :: "('c, 'd, 'u) world" and q
      assume w: "?I w" and q: "w_usr w = Some q"
      show "returns (cb c ev d w) (\<lambda>w'. ?I w' \<and> ?R w w' \<and> (\<exists>q'. w_usr w' = Some q' \<and> list_kept ev q q'))"
        by (rule returns_mono [OF cb' [OF w]]) (use q in \<open>auto simp: lists_kept_def elim!: world_ok_queues\<close>)
    next
      fix w :: "('c, 'd, 'u) world" and q q'
      assume "?I w" "w_usr w = Some q" "thinned ev q q'"
      then show "?I (put_usr q' w) \<and> ?R w (put_usr q' w)"
        using world_ok_thinned(2) [OF _ _ ev] reflpD [OF R(1)] by (auto simp: put_usr_def)
    qed
  qed
  have "safe f K R E (\<lambda>w. EventHandle w_sys put_sys cb f ev w)" "safe f K R E (\<lambda>w. EventHandle w_usr put_usr cb f ev w)"
    using s u unfolding safe_def moves_def by simp_all
  from safe_bnd [OF R(2) this] show ?thesis
    by (simp add: ConnectionEventHandle_def [abs_def])
qed

section \<open>Handlers as programs\<close>

text \<open>
  What a handler does: work on its connection's buffers and on its own data, look at them and go on
  accordingly, and call \<open>EnableWriteInterest\<close> and \<open>ConnectionClose\<close> on its connection.
\<close>

datatype 'u action =
    Finish
  | Work "'u core \<Rightarrow> 'u core res" "'u action"
  | Choose "'u core \<Rightarrow> 'u action"
  | Interest "'u action"
  | Close bool "'u action"

primrec perform ::
  "(bool \<Rightarrow> ('c, 'd, 'u) world \<Rightarrow> ('c, 'd, 'u) world res) \<Rightarrow> (('c, 'd, 'u) world \<Rightarrow> ('c, 'd, 'u) world res) \<Rightarrow>
   'u action \<Rightarrow> ('c, 'd, 'u) world \<Rightarrow> ('c, 'd, 'u) world res" where
  "perform close interest Finish = Inr"
| "perform close interest (Work g p) = (\<lambda>w. bnd (g (w_core w)) (\<lambda>k. perform close interest p (w\<lparr>w_core := k\<rparr>)))"
| "perform close interest (Choose h) = (\<lambda>w. perform close interest (h (w_core w)) w)"
| "perform close interest (Interest p) = (\<lambda>w. bnd (interest w) (perform close interest p))"
| "perform close interest (Close force p) = (\<lambda>w. bnd (close force w) (perform close interest p))"

text \<open>
  The handlers \<open>pr\<close> as callbacks of the connection: what they call calls the handlers again. The first
  argument bounds how deep handlers are called from within handlers.
\<close>

fun handler_cb :: "nat \<Rightarrow> ('c \<Rightarrow> event \<Rightarrow> 'd option \<Rightarrow> 'u action) \<Rightarrow> nat \<Rightarrow> name_env \<Rightarrow> ('c, 'd, 'u) callbacks" where
  "handler_cb 0 pr f env c ev d w = Inl OutOfFuel"
| "handler_cb (Suc n) pr f env c ev d w =
     perform (ConnectionClose (handler_cb n pr f env) f env) (EnableWriteInterest (handler_cb n pr f env) f) (pr c ev d) w"

text \<open>
  The handlers of data may do all of this. Those of a change of state must not close, the lock of
  the state being taken, and those of \<open>OUTBOUND_DATA_EVENT\<close>, which \<open>EnableWriteInterest\<close> calls, must not
  call back at all. Their own work returns, keeps the buffers well formed and leaves the
  connection's fields alone.
\<close>

definition data_events :: "event set" where
  "data_events = {INBOUND_DATA_EVENT, READ_EVENT, WRITE_EVENT}"

definition state_events :: "event set" where
  "state_events = {INIT_EVENT, CONNECTING_EVENT, CONNECTED_EVENT, PENDING_CLOSE_EVENT, CLOSE_EVENT}"

primrec tidy :: "event \<Rightarrow> 'u action \<Rightarrow> bool" where
  "tidy ev Finish = True"
| "tidy ev (Work g p) = ((\<forall>k. bufs_ok k \<longrightarrow> returns (g k) (\<lambda>k'. bufs_ok k' \<and> calm k k')) \<and> tidy ev p)"
| "tidy ev (Choose h) = (\<forall>k. tidy ev (h k))"
| "tidy ev (Interest p) = (ev \<noteq> OUTBOUND_DATA_EVENT \<and> tidy ev p)"
| "tidy ev (Close force p) = (ev \<in> data_events \<and> tidy ev p)"

lemma world_ok_calm: "world_ok f w \<Longrightarrow> bufs_ok k \<Longrightarrow> calm (w_core w) k \<Longrightarrow> world_ok f (w\<lparr>w_core := k\<rparr>)"
  by (auto simp: world_ok_def calmD)

lemma perform_safe:
  fixes interest :: "('c, 'd, 'u) world \<Rightarrow> ('c, 'd, 'u) world res"
  assumes R: "reflp R" "transp R" and wk: "\<And>k k'. K k \<Longrightarrow> calm k k' \<Longrightarrow> K k' \<and> R k k'"
    and i: "ev \<noteq> OUTBOUND_DATA_EVENT \<Longrightarrow> safe f K R E interest"
    and c: "\<And>force. ev \<in> data_events \<Longrightarrow> safe f K R E (close force)"
  shows "tidy ev p \<Longrightarrow> safe f K R E (perform close interest p)"
proof (induction p)
  case Finish
  then show ?case by (simp add: safe_skip [OF R(1)])
next
  case (Work g p)
  have "safe f K R E (\<lambda>w :: ('c, 'd, 'u) world. bnd (g (w_core w)) (\<lambda>k. Inr (w\<lparr>w_core := k\<rparr>)))"
    unfolding safe_def
  proof (intro allI impI)
    fix w :: "('c, 'd, 'u) world" assume w: "world_ok f w" "K (w_core w)"
    then have "returns (g (w_core w)) (\<lambda>k'. bufs_ok k' \<and> calm (w_core w) k')" using Work.prems by (simp add: world_ok_def)
    then show "returns (bnd (g (w_core w)) (\<lambda>k. Inr (w\<lparr>w_core := k\<rparr>))) (moves f K R E w)"
      unfolding returns_bnd by (rule returns_mono) (use w wk in \<open>auto simp: moves_def intro: world_ok_calm\<close>)
  qed
  from safe_bnd [OF R(2) this Work.IH] Work.prems show ?case by (simp add: bnd_assoc)
next
  case (Choose h)
  show ?case unfolding safe_def perform.simps
    using Choose.prems Choose.IH [OF rangeI] by (auto intro: safeD)
next
  case (Interest p)
  then show ?case using safe_bnd [OF R(2) i] by simp
next
  case (Close force p)
  then show ?case using safe_bnd [OF R(2) c] by simp
qed

section \<open>Operations with such handlers\<close>

lemma calm_order: "reflp calm" "transp calm"
  by (auto intro: reflpI transpI calm_trans)

text \<open>A connection on which no operation is running, and what operations leave of it.\<close>

definition idle :: "'u core \<Rightarrow> bool" where
  "idle k \<longleftrightarrow> permitted (k_conn k) \<and> cn_stateLock (k_conn k) = Some free_lock \<and>
     cn_closedByLock (k_conn k) = Some free_lock \<and> cn_managedByLock (k_conn k) = Some free_lock"

definition same_bufs :: "'u core \<Rightarrow> 'u core \<Rightarrow> bool" where
  "same_bufs k k' \<longleftrightarrow> cn_readBuffer (k_conn k') = cn_readBuffer (k_conn k) \<and> cn_writeBuffer (k_conn k') = cn_writeBuffer (k_conn k)"

lemma same_bufs_order: "reflp same_bufs" "transp same_bufs"
  by (auto intro: reflpI transpI simp: same_bufs_def)

lemma conn_inv_idle: "conn_inv f w \<longleftrightarrow> world_ok f w \<and> idle (w_core w)"
  by (auto simp: conn_inv_def idle_def)

lemma calm_idle: "calm k k' \<Longrightarrow> idle k' = idle k" "calm k k' \<Longrightarrow> same_bufs k k'"
  by (simp_all add: idle_def same_bufs_def calm_permitted calmD)

lemma safe_calm_idle:
  fixes m :: "('c, 'd, 'u) world \<Rightarrow> ('c, 'd, 'u) world res"
  assumes "safe f (\<lambda>_. True) calm E' m" "E \<subseteq> E'"
  shows "safe f idle same_bufs E m"
  unfolding safe_def
proof (intro allI impI)
  fix w :: "('c, 'd, 'u) world" assume w: "world_ok f w" "idle (w_core w)"
  show "returns (m w) (moves f idle same_bufs E w)"
    by (rule returns_mono [OF safeD [OF assms(1) w(1)]])
      (use assms(2) w(2) in \<open>auto simp: moves_def lists_kept_def calm_idle\<close>)
qed

lemma safe_fewer: "safe f K R E' m \<Longrightarrow> E \<subseteq> E' \<Longrightarrow> safe f K R E m"
  unfolding safe_def by (blast intro: returns_mono moves_mono)

text \<open>What the operations need of the handlers' events.\<close>

definition well_handled :: "nat \<Rightarrow> ('c, 'd, 'u) callbacks \<Rightarrow> bool" where
  "well_handled f cb \<longleftrightarrow> (\<forall>ev \<in> state_events. safe f (\<lambda>_. True) calm data_events (ConnectionEventHandle cb f ev)) \<and>
     (\<forall>ev \<in> insert OUTBOUND_DATA_EVENT data_events. safe f idle same_bufs {} (ConnectionEventHandle cb f ev))"

lemma event_of_states: "event_of st = Some ev \<Longrightarrow> ev \<in> state_events"
  by (cases st) (auto simp: event_of_def state_events_def)

lemma ConnectionState_safe:
  fixes cb :: "('c, 'd, 'u) callbacks"
  assumes cb: "\<forall>ev \<in> state_events. safe f (\<lambda>_. True) calm data_events (ConnectionEventHandle cb f ev)" and env: "ne_addr env"
  shows "safe f idle same_bufs data_events (ConnectionState cb f env st)"
  unfolding safe_def
proof (intro allI impI)
  fix w :: "('c, 'd, 'u) world" assume w: "world_ok f w" "idle (w_core w)"
  note d = w(2) [unfolded idle_def]
  show "returns (ConnectionState cb f env st w) (moves f idle same_bufs data_events w)"
  proof (cases "cn_state (w_conn w) = st")
    case True
    then show ?thesis using w by (simp add: ConnectionState_def moves_def same_bufs_def)
  next
    case st: False
    show ?thesis
    proof (cases "event_of st")
      case None
      have "permitted (c\<lparr>cn_stateLock := Some free_lock, cn_state := st\<rparr>)" for c
        by (rule permitted_free) (simp add: event_permissions(1) [OF None])
      then have "moves f idle same_bufs data_events w
          (upd_core (upd_conn (\<lambda>c. c\<lparr>cn_stateLock := Some free_lock, cn_state := st\<rparr>)) w)"
        using w(1) d by (simp add: moves_def same_bufs_def idle_def world_ok_def bufs_ok_def buf_ok_def)
      moreover have "cn_stateLock (w_conn w) = Some free_lock" using d by simp
      ultimately show ?thesis by (simp only: ConnectionState_none [OF None st] returns_Inr)
    next
      case ev: (Some ev)
      obtain a str where ad: "cn_address (w_conn w) = Some a" "k_addrs (w_core w) a = Some str" using w(1) by (rule world_okE)
      let ?w = "w\<lparr>w_core := entering env st (w_core w)\<rparr>"
      have r: "ConnectionState cb f env st w = bnd (ConnectionEventHandle cb f ev ?w) (\<lambda>w1.
          bnd (release (cn_stateLock (w_conn w1))) (\<lambda>lk'. Inr (upd_core (upd_conn (\<lambda>c. c\<lparr>cn_stateLock := lk'\<rparr>)) w1)))"
        using st d by (simp add: ConnectionState_def enter_state_event [OF ev ad env])
      have wo: "world_ok f ?w" using w(1) ad by (auto simp: world_ok_def entering_fields)
      have p: "permitted (k_conn (entering env st (w_core w)))" using permitted_entering [OF refl] d by blast
      have "returns (ConnectionEventHandle cb f ev ?w) (moves f (\<lambda>_. True) calm data_events ?w)"
        using safeD [OF cb [rule_format, OF event_of_states [OF ev]] wo] by simp
      then show ?thesis unfolding r returns_bnd
      proof (rule returns_mono)
        fix w1 assume m: "moves f (\<lambda>_. True) calm data_events ?w w1"
        then have c: "calm (entering env st (w_core w)) (w_core w1)" by (simp add: moves_def)
        note cd = calmD [OF c]
        have u: "idle (unlocked (w_core w1))" using calm_permitted [OF c] p cd d by (simp add: idle_def)
        have "world_ok f (upd_core unlocked w1)" using m by (simp add: moves_def world_ok_def)
        with u show "returns (release (cn_stateLock (w_conn w1)))
            (\<lambda>x. returns (Inr (upd_core (upd_conn (\<lambda>c. c\<lparr>cn_stateLock := x\<rparr>)) w1)) (moves f idle same_bufs data_events w))"
          using m cd by (simp add: moves_def same_bufs_def lists_kept_def unlocked_def [abs_def])
      qed
    qed
  qed
qed

lemma EnableWriteInterest_safe:
  "reflp R \<Longrightarrow> safe f K R E (ConnectionEventHandle cb f OUTBOUND_DATA_EVENT) \<Longrightarrow> safe f K R E (EnableWriteInterest cb f)"
  by (auto simp: safe_def EnableWriteInterest_def moves_def dest: reflpD)

text \<open>Handlers within handlers within handlers: the deepest a tidy program gets.\<close>

lemma handler_cb_handled:
  fixes pr :: "'c \<Rightarrow> event \<Rightarrow> 'd option \<Rightarrow> 'u action"
  assumes pr: "\<forall>c ev d. tidy ev (pr c ev d)" and env: "ne_addr env" and n: "3 \<le> n"
  shows "well_handled f (handler_cb n pr f env)"
proof -
  let ?c = "\<lambda>n. handler_cb n pr f env :: ('c, 'd, 'u) callbacks"
  have out: "safe f (\<lambda>_. True) calm (- {OUTBOUND_DATA_EVENT}) (ConnectionEventHandle (?c (Suc m)) f OUTBOUND_DATA_EVENT)" for m
  proof (rule ConnectionEventHandle_keeps [OF _ calm_order])
    fix c d
    show "safe f (\<lambda>_. True) calm (insert OUTBOUND_DATA_EVENT (- {OUTBOUND_DATA_EVENT})) (?c (Suc m) c OUTBOUND_DATA_EVENT d)"
      unfolding handler_cb.simps
      by (rule perform_safe [where ev = OUTBOUND_DATA_EVENT, OF calm_order]) (use pr in \<open>simp_all add: data_events_def\<close>)
  qed simp
  note int = EnableWriteInterest_safe [OF calm_order(1) out]
  have st: "\<forall>ev \<in> state_events. safe f (\<lambda>_. True) calm data_events (ConnectionEventHandle (?c (Suc (Suc m))) f ev)" for m
  proof (intro ballI ConnectionEventHandle_keeps [OF _ calm_order])
    fix c d ev assume ev: "ev \<in> state_events"
    have o: "insert ev data_events \<subseteq> - {OUTBOUND_DATA_EVENT}" and d: "ev \<notin> data_events"
      using ev by (auto simp: state_events_def data_events_def)
    show "safe f (\<lambda>_. True) calm (insert ev data_events) (?c (Suc (Suc m)) c ev d)"
      unfolding handler_cb.simps(2) [of "Suc m"] 
      by (rule perform_safe [where ev = ev, OF calm_order]) (use pr d safe_fewer [OF int o] in simp_all)
  qed (auto simp: state_events_def data_events_def)
  have dt: "safe f idle same_bufs {} (ConnectionEventHandle (?c (Suc (Suc (Suc m)))) f ev)" if ev: "ev \<in> data_events" for m ev
  proof (intro ConnectionEventHandle_keeps [OF _ same_bufs_order])
    fix c d
    have o: "{ev} \<subseteq> - {OUTBOUND_DATA_EVENT}" and s: "{ev} \<subseteq> data_events" using ev by (auto simp: data_events_def)
    have "safe f idle same_bufs {ev} (ConnectionClose (?c (Suc (Suc m))) f env force)" for force
      using safe_fewer [OF ConnectionState_safe [OF st env] s] by (simp add: ConnectionClose_def [abs_def])
    then show "safe f idle same_bufs (insert ev {}) (?c (Suc (Suc (Suc m))) c ev d)"
      unfolding handler_cb.simps(2) [of "Suc (Suc m)"]
      by (intro perform_safe [where ev = ev, OF same_bufs_order]) (use pr safe_calm_idle [OF int o] in \<open>simp_all add: calm_idle\<close>)
  qed simp
  have "well_handled f (?c (Suc (Suc (Suc m))))" for m using st dt safe_calm_idle [OF out, of "{}"] by (simp add: well_handled_def)
  from this [of "n - 3"] show ?thesis using n by (simp add: numeral_eq_Suc Suc_diff_Suc)
qed

section \<open>Programs of operations\<close>

lemma handled_event:
  assumes "well_handled f cb" "conn_inv f w" "ev \<in> insert OUTBOUND_DATA_EVENT data_events"
  shows "returns (ConnectionEventHandle cb f ev w) (\<lambda>w'. conn_inv f w' \<and> same_bufs (w_core w) (w_core w'))"
proof -
  have "safe f idle same_bufs {} (ConnectionEventHandle cb f ev)" using assms(1,3) by (auto simp: well_handled_def)
  from safeD [OF this] assms(2) have "returns (ConnectionEventHandle cb f ev w) (moves f idle same_bufs {} w)"
    by (simp add: conn_inv_idle)
  then show ?thesis by (rule returns_mono) (simp add: conn_inv_idle moves_def)
qed

lemma handled_state:
  assumes "well_handled f cb" "ne_addr env" "conn_inv f w"
  shows "returns (ConnectionState cb f env st w) (conn_inv f)"
proof -
  have "safe f idle same_bufs data_events (ConnectionState cb f env st)"
    using assms(1,2) by (intro ConnectionState_safe) (simp_all add: well_handled_def)
  from safeD [OF this] assms(3) have "returns (ConnectionState cb f env st w) (moves f idle same_bufs data_events w)"
    by (simp add: conn_inv_idle)
  then show ?thesis by (rule returns_mono) (simp add: conn_inv_idle moves_def)
qed

lemma handled_error:
  assumes "well_handled f cb" "ne_addr env" "conn_inv f w"
  shows "returns (ConnectionHandleError cb f env e w) (conn_inv f)"
  unfolding ConnectionHandleError_def ConnectionClose_def if_True
  by (rule handled_state [OF assms(1,2)])
    (use assms(3) in \<open>simp add: conn_inv_def world_ok_def permitted_def bufs_ok_def buf_ok_def\<close>)

lemma handled_refill:
  assumes "well_handled f cb" "conn_inv f w" "cn_writeBuffer (w_conn w) = Some r"
  shows "returns (refill cb f (Some r) w) (\<lambda>w'. conn_inv f w' \<and> cn_writeBuffer (w_conn w') = Some r)"
proof -
  obtain b where b: "bm_bufs (k_mem (w_core w)) r = Some b" "buf_inv b"
    using conn_invD(8) [OF assms(2)] assms(3) by (auto simp: bufs_ok_def buf_ok_def)
  show ?thesis
  proof (cases "BufferHasRemaining b")
    case True
    then show ?thesis using assms(2,3) b by (simp add: refill_def get_buf_def)
  next
    case False
    obtain b1 where b1: "BufferReset b = Inr b1" "buf_inv b1" using BufferReset_seq [OF b(2)] by (auto elim!: returnsE)
    let ?w = "upd_core (put_buf r b1) w"
    obtain w1 where w1: "ConnectionEventHandle cb f WRITE_EVENT ?w = Inr w1" "conn_inv f w1" "same_bufs (w_core ?w) (w_core w1)"
      using handled_event [OF assms(1) conn_inv_put_buf [OF assms(2) b1(2)], of WRITE_EVENT r] by (auto simp: data_events_def elim!: returnsE)
    have wb: "cn_writeBuffer (w_conn w1) = Some r" using w1(3) assms(3) by (simp add: same_bufs_def)
    then obtain b2 where b2: "bm_bufs (k_mem (w_core w1)) r = Some b2" "buf_inv b2"
      using conn_invD(8) [OF w1(2)] by (auto simp: bufs_ok_def buf_ok_def)
    have "refill cb f (Some r) w = Inr (upd_core (put_buf r (BufferFlip b2)) w1)"
      using False b b1(1) w1(1) b2(1) by (simp add: refill_def get_buf_def)
    then show ?thesis using conn_inv_put_buf [OF w1(2) BufferFlip_inv [OF b2(2)], of r] wb by simp
  qed
qed

lemma handled_send:
  assumes h: "well_handled f cb" "ne_addr env" and w: "conn_inv f w" "cn_writeBuffer (w_conn w) = Some r"
    and sn: "\<forall>n k. sn n = Some k \<longrightarrow> k \<le> n"
  shows "returns (send_pending cb f env sn pc (Some r) w) (\<lambda>(_, w'). conn_inv f w')"
proof -
  obtain b where b: "bm_bufs (k_mem (w_core w)) r = Some b" "buf_inv b"
    using conn_invD(8) [OF w(1)] w(2) by (auto simp: bufs_ok_def buf_ok_def)
  have le: "\<forall>k. sn (length (unread b)) = Some k \<longrightarrow> k \<le> length (unread b)" using sn by simp
  note eq = send_pending_buf [where sn = sn, OF w(2) b le, of cb f env pc]
  show ?thesis
  proof (cases "sn (length (unread b))")
    case None
    then show ?thesis using handled_error [OF h w(1), of WRITE_ERROR] by (auto simp: eq elim!: returns_mono)
  next
    case (Some k)
    have "buf_inv (b\<lparr>b_position := b_position b + int k\<rparr>)" using unread_advance(2) [OF b(2)] le Some by simp
    from conn_inv_put_buf [OF w(1) this, of r] have "conn_inv f (sent_some pc r b k w)"
      by (simp add: conn_inv_def world_ok_def permitted_def bufs_ok_def buf_ok_def sent_some_def)
    then show ?thesis by (simp add: eq Some)
  qed
qed

lemma handled_write:
  assumes h: "well_handled f cb" "ne_addr env" and w: "conn_inv f w" and sn: "\<forall>n k. sn n = Some k \<longrightarrow> k \<le> n"
  shows "returns (ConnectionWrite cb f env sn w) (\<lambda>(_, w'). conn_inv f w')"
proof (cases "cn_canWrite (w_conn w)")
  case False
  then show ?thesis using handled_error [OF h w, of CONNECTION_STATE_ERROR] by (auto simp: ConnectionWrite_def elim!: returns_mono)
next
  case True
  obtain r where r: "cn_writeBuffer (w_conn w) = Some r" using conn_invD(8) [OF w] by (auto simp: bufs_ok_def buf_ok_def)
  have "returns (bnd (refill cb f (Some r) w) (send_pending cb f env sn pc (Some r))) (\<lambda>(_, w'). conn_inv f w')" for pc
    by (rule returns_bndI [OF handled_refill [OF h(1) w r]]) (use handled_send [OF h _ _ sn] in blast)
  then show ?thesis using True r by (simp add: ConnectionWrite_def Let_def)
qed

lemma handled_read:
  assumes h: "well_handled f cb" "ne_addr env" and w: "conn_inv f w"
    and rv: "\<forall>n bs. 0 \<le> n \<longrightarrow> rv n = Some bs \<longrightarrow> int (length bs) \<le> n"
  shows "returns (ConnectionRead cb f env rv w) (conn_inv f)"
proof -
  obtain r b where r: "cn_readBuffer (w_conn w) = Some r" "bm_bufs (k_mem (w_core w)) r = Some b" and b: "buf_inv b"
    using conn_invD(8) [OF w] by (auto simp: bufs_ok_def buf_ok_def)
  note bi = buf_invD [OF b]
  let ?n = "b_limit b - b_position b"
  have g: "get_buf (w_core w) (cn_readBuffer (w_conn w)) = Inr (r, b)" and n: "is_int ?n"
    using r bi by (auto simp: get_buf_def intro: is_int_bounds)
  show ?thesis
  proof (cases "b_position b = b_limit b \<or> rv ?n = None")
    case True
    then show ?thesis using bi n handled_error [OF h w]
      by (auto simp: ConnectionRead_def g BufferHasRemaining_def BufferRemaining_def)
  next
    case False
    then obtain bs where bs: "rv ?n = Some bs" "b_position b < b_limit b" "int (length bs) \<le> ?n" using bi rv by force
    note m = received_inv [OF b bs(3)]
    let ?w1 = "upd_core (put_buf r (b\<lparr>b_data := b_data (received bs b)\<rparr>)) w"
    have w1: "conn_inv f ?w1"
      by (rule conn_inv_put_buf [OF w]) (use m(1) bi bs(3) in \<open>simp add: buf_inv_def received_def\<close>)
    have "length (b_data b) - nat (b_size b) = Suc (Suc 0)" using bi by linarith
    then have "buf_inv (b\<lparr>b_data := replicate (length (b_data b)) 0, b_position := 0, b_limit := b_size b\<rparr>)"
      using bi by (simp add: buf_inv_def)
    note w2 = conn_inv_put_buf [OF w1 this, of r]
    have ev: "returns (ConnectionEventHandle cb f INBOUND_DATA_EVENT (upd_core (put_buf r (received bs b)) w)) (conn_inv f)"
      by (rule returns_mono [OF handled_event [OF h(1) conn_inv_put_buf [OF w m(1)]]]) (simp_all add: data_events_def)
    show ?thesis unfolding ConnectionRead_eq [where rv = rv, OF r b bs(2,1,3)] Let_def
      using w2 ev handled_state [OF h w1] handled_error [OF h w1] by (simp only: returns_if returns_Inr if_split) simp
  qed
qed

lemma conn_step_ok:
  assumes h: "well_handled f cb" "ne_addr env" and w: "conn_inv f w" and op: "cop_ok op"
  shows "returns (conn_step cb f env op w) (conn_inv f)"
proof -
  note st = handled_state [OF h] and er = handled_error [OF h] and i = conn_invD [OF w]
  show ?thesis
  proof (cases op)
    case (CInit sock ok)
    have "conn_inv f (upd_core (upd_conn (\<lambda>c. c\<lparr>cn_socket := sock\<rparr>)) w)"
      by (rule conn_inv_upd [OF w]) (simp_all add: i)
    then show ?thesis unfolding CInit by (auto simp: ConnectionInit_def Let_def intro!: st er)
  next
    case (CConnect r)
    obtain a str where "cn_address (w_conn w) = Some a" "k_addrs (w_core w) a = Some str" using i(1) by (rule world_okE)
    then show ?thesis unfolding CConnect
      using w by (cases r) (auto simp: ConnectionConnect_def intro!: st er)
  next
    case (CFinish pl so)
    then show ?thesis using w by (auto simp: ConnectionFinishConnect_def intro!: er split: option.splits)
  next
    case (CRead rv)
    then show ?thesis using handled_read [OF h w] op by simp
  next
    case CProcess
    then show ?thesis using handled_event [OF h(1) w, of READ_EVENT]
      by (auto simp: ConnectionProcessData_def data_events_def elim!: returns_mono)
  next
    case (CWrite sn)
    then show ?thesis using handled_write [OF h w, of sn] op by (auto elim!: returns_mono)
  next
    case CShutdown
    have "conn_inv f (ConnectionShutdown w)"
      by (rule conn_inv_upd [OF w]) (simp_all add: i ConnectionShutdown_def)
    then show ?thesis by (simp add: CShutdown)
  next
    case CInterest
    then show ?thesis using handled_event [OF h(1) w, of OUTBOUND_DATA_EVENT] w
      by (auto simp: EnableWriteInterest_def elim!: returns_mono)
  next
    case (CClose force)
    then show ?thesis using st [OF w] by (simp add: ConnectionClose_def)
  next
    case (CNoMore own)
    then show ?thesis using w i
      by (auto simp: ConnectionNoMoreUsed_def Let_def intro!: conn_inv_upd [OF w])
  next
    case (CManaged own)
    have "conn_inv f (upd_core (upd_conn (\<lambda>c. c\<lparr>cn_managedBy := by, cn_managedByLock := Some free_lock\<rparr>)) w)" for "by"
      by (rule conn_inv_upd [OF w]) (simp_all add: i)
    then show ?thesis unfolding CManaged using i by (auto simp: ConnectionManagedBy_def Let_def intro!: st)
  qed
qed

text \<open>
  C8. Whatever a program does with a connection and whatever the system calls return, every
  operation returns, without a fault and without blocking on one of the connection's locks, and
  afterwards the locks are free, the buffers and the queues well formed, and the permissions to
  read and write those of the connection's state. The handlers may be any programs of their own work
  and of calls back into the connection: those of data (inbound, to be processed, to be
  written) may enable write interest and close the connection, gently or by force, those of a change
  of state may enable write interest, and at most three handlers are ever active within each other.
  Not covered: handlers of a change of state that change the state again, which block for ever
  (\<open>state_change_in_handler_blocks\<close>), handlers of \<open>OUTBOUND_DATA_EVENT\<close> that call back, handlers that
  register or remove handlers, and a failed allocation of the connection's name, which is a fault
  (\<open>naming_without_memory_is_undefined\<close>).
\<close>

theorem connection_programs_safe:
  assumes "\<forall>c ev d. tidy ev (pr c ev d)" "3 \<le> n" "conn_inv f w" "ne_addr env" "list_all cop_ok ops"
  shows "returns (conn_run (handler_cb n pr f env) f env ops w) (conn_inv f)"
  using assms(3,5)
proof (induction ops arbitrary: w)
  case (Cons op ops)
  show ?case unfolding conn_run.simps
    by (rule returns_bndI [OF conn_step_ok [OF handler_cb_handled [OF assms(1,4,2)] assms(4) Cons.prems(1)]]) (use Cons in simp_all)
qed simp

text \<open>
  The handlers of \<open>test/client.c\<close>, the answers counted instead of read from the buffer: they ask to
  write once connected and after every answer, and close gently when they have had enough of them.
\<close>

definition note_call :: "nat \<Rightarrow> nat list core \<Rightarrow> nat list core res" where
  "note_call c k = Inr (k\<lparr>k_user := k_user k @ [c]\<rparr>)"

definition client_handlers :: "nat \<Rightarrow> event \<Rightarrow> unit option \<Rightarrow> nat list action" where
  "client_handlers c ev d =
     Work (note_call c)
      (case ev of
         CONNECTED_EVENT \<Rightarrow> Interest Finish
       | READ_EVENT \<Rightarrow> Choose (\<lambda>k. if 4 < length (k_user k) then Close False (Interest Finish) else Interest Finish)
       | _ \<Rightarrow> Finish)"

lemma client_handlers_tidy: "tidy ev (client_handlers c ev d)"
proof -
  have "\<forall>k. bufs_ok k \<longrightarrow> returns (note_call c k) (\<lambda>k'. bufs_ok k' \<and> calm k k')"
    using log_cb_well_behaved by (simp add: well_behaved_def log_cb_def note_call_def)
  then show ?thesis by (cases ev) (simp_all add: client_handlers_def data_events_def)
qed

definition client_queue :: "(nat, unit) eop list" where
  "client_queue = map EAdd
     [\<lparr>h_event = READ_EVENT, h_once = False, h_callback = 1, h_data = None\<rparr>,
      \<lparr>h_event = CONNECTED_EVENT, h_once = False, h_callback = 2, h_data = None\<rparr>,
      \<lparr>h_event = OUTBOUND_DATA_EVENT, h_once = False, h_callback = 3, h_data = None\<rparr>,
      \<lparr>h_event = PENDING_CLOSE_EVENT, h_once = True, h_callback = 4, h_data = None\<rparr>]"

definition client_program :: "conn_op list" where
  "client_program =
     [CInit 5 True, CConnect ConnectInProgress, CFinish (Some 4) (Some 0), CManaged OWNER_READER, CManaged OWNER_WORKER,
      CManaged OWNER_WRITER, CRead (\<lambda>n. Some (take (nat n) [1, 2])), CProcess, CWrite (\<lambda>n. Some (min n 5)), CProcess,
      CRead (\<lambda>n. Some []), CNoMore OWNER_WRITER, CWrite (\<lambda>n. None)]"

text \<open>
  Connecting, two answers, closing from within the second and the end of the stream: the numbers of
  the handlers in the order in which they are called, that of the closing (4) and that of the write
  interest (3) within the second call of the reader's.
\<close>

lemma client_session:
  "case eq_run client_queue new_equeue of
     Inl e \<Rightarrow> False
   | Inr q \<Rightarrow>
       (case conn_run (handler_cb 3 client_handlers 5 sample_env) 5 sample_env client_program
           (sample_world STATE_NONE small_buffer small_buffer q) of
          Inl e \<Rightarrow> False
        | Inr w \<Rightarrow> cn_state (w_conn w) = STATE_CLOSED \<and> k_user (w_core w) = [2, 3, 1, 3, 1, 4, 3])"
  by code_simp

theorem connection_programs_safe_witness:
  "\<exists>qs w'. conn_run (handler_cb 3 client_handlers 5 sample_env) 5 sample_env client_program
      (sample_world STATE_NONE small_buffer small_buffer qs) = Inr w' \<and> conn_inv 5 w' \<and>
    cn_state (w_conn w') = STATE_CLOSED \<and> k_user (w_core w') = [2, 3, 1, 3, 1, 4, 3]"
proof -
  obtain q where q: "eq_run client_queue new_equeue = Inr q" "eq_inv q" "handlers q = fold reg_step client_queue (\<lambda>_. [])"
    using eq_run_seq [OF new_equeue_inv(1), of client_queue] by (auto simp: new_equeue_inv(2) elim!: returnsE)
  let ?w = "sample_world STATE_NONE small_buffer small_buffer q"
  have i: "conn_inv 5 ?w"
    by (rule sample_conn_inv) (simp_all add: small_buffer_inv q(2,3) client_queue_def)
  have t: "\<forall>c ev d. tidy ev (client_handlers c ev d)" by (simp add: client_handlers_tidy)
  have o: "list_all cop_ok client_program" by (auto simp: client_program_def min_def)
  obtain w' where "conn_run (handler_cb 3 client_handlers 5 sample_env) 5 sample_env client_program ?w = Inr w'" "conn_inv 5 w'"
    using connection_programs_safe [OF t order_refl i sample_env_addr o] by (auto elim!: returnsE)
  with client_session q(1) show ?thesis by auto
qed

end
