(* ===== verification/Threads.thy ===== *)
theory Threads
  imports Locks
begin

text \<open>
  The threads of \<open>src/thread.c\<close> (the POSIX branch): the registry of threads, the life of one thread
  with its three callbacks, and the handshake between a thread and the one that starts it. Callbacks
  are parameters that act on the whole world; so is what the other threads do during a wait.
\<close>

section \<open>State\<close>

record ('f, 'd) thread =
  t_name :: "string option"
  t_id :: nat
  t_state :: thread_state
  t_running :: bool
  t_lock :: "lock option"
  t_initialized :: bool
  t_condInit :: "condition option"
  t_init :: "'f option"
  t_run :: "'f option"
  t_exit :: "'f option"
  t_arg :: "'d option"

definition AIO4C_MAX_THREADS :: nat where
  "AIO4C_MAX_THREADS = 4096"

text \<open>
  The static variables of \<open>thread.c\<close>, and the threads in memory: \<open>tw_tick\<close> is the next fresh
  reference, \<open>tw_mutex\<close> whether \<open>_threadsLock\<close> is held, \<open>tw_user\<close> what the callbacks work on. The
  static \<open>_MainThread\<close> is the object 0.
\<close>

record ('f, 'd, 'u) tworld =
  tw_heap :: "nat \<rightharpoonup> ('f, 'd) thread"
  tw_tick :: nat
  tw_threads :: "nat option list"
  tw_initialized :: bool
  tw_num :: int
  tw_running :: int
  tw_mutex :: bool
  tw_user :: 'u

text \<open>The callbacks: initialisation and routine return a truth value, the finalisation nothing.\<close>

record ('f, 'd, 'u) tcallbacks =
  tc_call :: "'f \<Rightarrow> 'd option \<Rightarrow> ('f, 'd, 'u) tworld \<Rightarrow> (bool \<times> ('f, 'd, 'u) tworld) res"
  tc_exit :: "'f \<Rightarrow> 'd option \<Rightarrow> ('f, 'd, 'u) tworld \<Rightarrow> ('f, 'd, 'u) tworld res"

definition get_thread :: "('f, 'd, 'u) tworld \<Rightarrow> nat \<Rightarrow> ('f, 'd) thread res" where
  "get_thread w t = deref (tw_heap w t)"

definition put_thread :: "nat \<Rightarrow> ('f, 'd) thread \<Rightarrow> ('f, 'd, 'u) tworld \<Rightarrow> ('f, 'd, 'u) tworld" where
  "put_thread t th w = w\<lparr>tw_heap := (tw_heap w)(t \<mapsto> th)\<rparr>"

definition with_thread ::
  "nat \<Rightarrow> (('f, 'd) thread \<Rightarrow> ('f, 'd) thread) \<Rightarrow> ('f, 'd, 'u) tworld \<Rightarrow> ('f, 'd, 'u) tworld res" where
  "with_thread t g w = bnd (get_thread w t) (\<lambda>th. Inr (put_thread t (g th) w))"

definition take_thread_lock :: "nat \<Rightarrow> ('f, 'd, 'u) tworld \<Rightarrow> ('f, 'd, 'u) tworld res" where
  "take_thread_lock t w =
     bnd (get_thread w t) (\<lambda>th. bnd (acquire (t_lock th)) (\<lambda>l. Inr (put_thread t (th\<lparr>t_lock := l\<rparr>) w)))"

definition release_thread_lock :: "nat \<Rightarrow> ('f, 'd, 'u) tworld \<Rightarrow> ('f, 'd, 'u) tworld res" where
  "release_thread_lock t w =
     bnd (get_thread w t) (\<lambda>th. bnd (release (t_lock th)) (\<lambda>l. Inr (put_thread t (th\<lparr>t_lock := l\<rparr>) w)))"

definition threads_lock :: "('f, 'd, 'u) tworld \<Rightarrow> ('f, 'd, 'u) tworld res" where
  "threads_lock w = when_ok (\<not> tw_mutex w) Blocked (w\<lparr>tw_mutex := True\<rparr>)"

definition threads_unlock :: "('f, 'd, 'u) tworld \<Rightarrow> ('f, 'd, 'u) tworld res" where
  "threads_unlock w = when_ok (tw_mutex w) Undefined (w\<lparr>tw_mutex := False\<rparr>)"

section \<open>The registry\<close>

definition GetNumThreads :: "('f, 'd, 'u) tworld \<Rightarrow> int" where
  "GetNumThreads w = tw_running w"

definition ThreadMain :: "nat \<Rightarrow> ('f, 'd, 'u) tworld \<Rightarrow> ('f, 'd, 'u) tworld res" where
  "ThreadMain self w =
     (let main = (case tw_heap w 0 of Some th \<Rightarrow> th
                  | None \<Rightarrow> \<lparr>t_name = None, t_id = 0, t_state = THREAD_STATE_NONE, t_running = False, t_lock = None,
                             t_initialized = False, t_condInit = None, t_init = None, t_run = None, t_exit = None, t_arg = None\<rparr>);
          main' = main\<lparr>t_state := THREAD_STATE_RUNNING, t_name := Some ''aio4c'', t_id := self, t_lock := None, t_run := None,
                        t_exit := None, t_init := None, t_arg := None, t_running := True\<rparr> in
      bnd (c_int (tw_num w + 1)) (\<lambda>n.
      Inr (w\<lparr>tw_initialized := True, tw_threads := (replicate AIO4C_MAX_THREADS None)[0 := Some 0],
              tw_heap := (tw_heap w)(0 \<mapsto> main'), tw_num := n\<rparr>)))"

definition addThread :: "nat \<Rightarrow> ('f, 'd, 'u) tworld \<Rightarrow> ('f, 'd, 'u) tworld res" where
  "addThread t w =
     bnd (threads_lock w) (\<lambda>w1.
     bnd (when_ok (0 \<le> tw_num w1 \<and> tw_num w1 < int (length (tw_threads w1))) Undefined ()) (\<lambda>_.
     bnd (c_int (tw_num w1 + 1)) (\<lambda>n.
     threads_unlock (w1\<lparr>tw_threads := (tw_threads w1)[nat (tw_num w1) := Some t], tw_num := n\<rparr>))))"

text \<open>The loop of \<open>_ThreadCleanup\<close>, at index \<open>i\<close> with \<open>k\<close> iterations to go.\<close>

fun clear_slots :: "nat \<Rightarrow> nat \<Rightarrow> nat \<Rightarrow> nat option list \<Rightarrow> nat option list res" where
  "clear_slots 0 i t ss = Inr ss"
| "clear_slots (Suc k) i t ss =
     bnd (when_ok (i < length ss) Undefined ()) (\<lambda>_.
     clear_slots k (Suc i) t (if ss ! i = Some t then ss[i := None] else ss))"

text \<open>The loop of \<open>_ThreadSelf\<close>, which compares the identifiers of the registered threads with its own.\<close>

fun find_self :: "nat \<Rightarrow> nat \<Rightarrow> nat \<Rightarrow> ('f, 'd, 'u) tworld \<Rightarrow> nat option res" where
  "find_self 0 i self w = Inr None"
| "find_self (Suc k) i self w =
     (if i \<ge> AIO4C_MAX_THREADS then Inr None
      else
        bnd (when_ok (i < length (tw_threads w)) Undefined ()) (\<lambda>_.
        case tw_threads w ! i of
          None \<Rightarrow> find_self k (Suc i) self w
        | Some t \<Rightarrow>
            bnd (get_thread w t) (\<lambda>th.
            if t_id th = self then Inr (Some t) else find_self k (Suc i) self w)))"

definition ThreadSelf :: "nat \<Rightarrow> ('f, 'd, 'u) tworld \<Rightarrow> (nat option \<times> ('f, 'd, 'u) tworld) res" where
  "ThreadSelf self w =
     (if \<not> tw_initialized w then Inr (None, w)
      else
        bnd (threads_lock w) (\<lambda>w1.
        bnd (find_self (nat (tw_num w1)) 0 self w1) (\<lambda>r.
        bnd (threads_unlock w1) (\<lambda>w2. Inr (r, w2)))))"

section \<open>The life of a thread\<close>

text \<open>\<open>mem\<close>, \<open>lk\<close> and \<open>cd\<close>: whether the structure, the lock and the condition can be made.\<close>

definition NewThread ::
  "bool \<Rightarrow> bool \<Rightarrow> bool \<Rightarrow> string option \<Rightarrow> 'f option \<Rightarrow> 'f option \<Rightarrow> 'f option \<Rightarrow> 'd option \<Rightarrow> ('f, 'd, 'u) tworld \<Rightarrow>
   nat option \<times> ('f, 'd, 'u) tworld" where
  "NewThread mem lk cd name init routine final arg w =
     (if tw_num w \<ge> int AIO4C_MAX_THREADS then (None, w)
      else if \<not> mem then (None, w)
      else
        let t = tw_tick w;
            th = \<lparr>t_name = name, t_id = 0, t_state = THREAD_STATE_NONE, t_running = False, t_lock = NewLock lk 0,
                  t_initialized = False, t_condInit = NewCondition cd 0, t_init = None, t_run = None, t_exit = None, t_arg = None\<rparr> in
        if t_lock th = None \<or> t_condInit th = None then (None, w\<lparr>tw_tick := Suc t\<rparr>)
        else (Some t, w\<lparr>tw_tick := Suc t, tw_heap := (tw_heap w)(t \<mapsto> th\<lparr>t_init := init, t_run := routine, t_exit := final,
                t_arg := arg\<rparr>)\<rparr>))"

text \<open>\<open>_ThreadCleanup\<close> after it has let go of the thread's lock.\<close>

definition cleanup_rest :: "('f, 'd, 'u) tcallbacks \<Rightarrow> nat \<Rightarrow> ('f, 'd, 'u) tworld \<Rightarrow> ('f, 'd, 'u) tworld res" where
  "cleanup_rest cb t w =
     bnd (get_thread w t) (\<lambda>th.
     bnd (case t_exit th of None \<Rightarrow> Inr w | Some e \<Rightarrow> tc_exit cb e (t_arg th) w) (\<lambda>w1.
     bnd (with_thread t (\<lambda>th. th\<lparr>t_state := THREAD_STATE_EXITED\<rparr>) w1) (\<lambda>w2.
     bnd (c_int (tw_running w2 - 1)) (\<lambda>n.
     bnd (threads_lock (w2\<lparr>tw_running := n\<rparr>)) (\<lambda>w3.
     bnd (clear_slots (nat (tw_num w3)) 0 t (tw_threads w3)) (\<lambda>ss.
     threads_unlock (w3\<lparr>tw_threads := ss\<rparr>)))))))"

definition ThreadCleanup :: "('f, 'd, 'u) tcallbacks \<Rightarrow> nat \<Rightarrow> ('f, 'd, 'u) tworld \<Rightarrow> ('f, 'd, 'u) tworld res" where
  "ThreadCleanup cb t w = bnd (release_thread_lock t w) (cleanup_rest cb t)"

text \<open>The loop of \<open>_runThread\<close>: \<open>f\<close> bounds the calls of the routine.\<close>

fun run_loop :: "('f, 'd, 'u) tcallbacks \<Rightarrow> nat \<Rightarrow> nat \<Rightarrow> ('f, 'd, 'u) tworld \<Rightarrow> ('f, 'd, 'u) tworld res" where
  "run_loop cb 0 t w = Inl OutOfFuel"
| "run_loop cb (Suc f) t w =
     bnd (get_thread w t) (\<lambda>th.
     if \<not> t_running th then Inr w
     else
       bnd (release_thread_lock t w) (\<lambda>w1.
       bnd (get_thread w1 t) (\<lambda>th1.
       bnd (deref (t_run th1)) (\<lambda>routine.
       bnd (tc_call cb routine (t_arg th1) w1) (\<lambda>(run, w2).
       bnd (take_thread_lock t w2) (\<lambda>w3.
       bnd (with_thread t (\<lambda>th. if t_running th then th\<lparr>t_running := run\<rparr> else th) w3) (\<lambda>w4.
       run_loop cb f t w4)))))))"

definition run_init :: "('f, 'd, 'u) tcallbacks \<Rightarrow> nat \<Rightarrow> ('f, 'd, 'u) tworld \<Rightarrow> ('f, 'd, 'u) tworld res" where
  "run_init cb t w =
     bnd (c_int (tw_running w + 1)) (\<lambda>n.
     bnd (with_thread t (\<lambda>th. th\<lparr>t_running := True\<rparr>) (w\<lparr>tw_running := n\<rparr>)) (\<lambda>w1.
     bnd (get_thread w1 t) (\<lambda>th.
     bnd (case t_init th of None \<Rightarrow> Inr (True, w1) | Some i \<Rightarrow> tc_call cb i (t_arg th) w1) (\<lambda>(run, w2).
     bnd (with_thread t (\<lambda>th. th\<lparr>t_initialized := True, t_running := run,
            t_state := (if run then THREAD_STATE_RUNNING else t_state th)\<rparr>) w2) (\<lambda>w3.
     bnd (get_thread w3 t) (\<lambda>th3.
     bnd (NotifyCondition (t_condInit th3)) (\<lambda>c. Inr (put_thread t (th3\<lparr>t_condInit := c\<rparr>) w3))))))))"

definition runThread :: "('f, 'd, 'u) tcallbacks \<Rightarrow> nat \<Rightarrow> nat \<Rightarrow> ('f, 'd, 'u) tworld \<Rightarrow> ('f, 'd, 'u) tworld res" where
  "runThread cb f t w =
     bnd (take_thread_lock t w) (\<lambda>w1.
     bnd (run_init cb t w1) (\<lambda>w2.
     bnd (run_loop cb f t w2) (\<lambda>w3. ThreadCleanup cb t w3)))"

text \<open>
  A wait on the thread's condition, in two halves: \<open>others\<close> is what the other threads do while the
  lock is free.
\<close>

definition wait_enter :: "nat \<Rightarrow> ('f, 'd, 'u) tworld \<Rightarrow> ('f, 'd, 'u) tworld res" where
  "wait_enter t w =
     bnd (get_thread w t) (\<lambda>th.
     bnd (deref (t_condInit th)) (\<lambda>c.
     bnd (deref (t_lock th)) (\<lambda>l.
     case wait_begin None (c, l, \<lambda>_. THREAD_STATE_NONE) of (c1, l1, _) \<Rightarrow>
       bnd (mutex_drop l1) (\<lambda>l2. Inr (put_thread t (th\<lparr>t_condInit := Some c1, t_lock := Some l2\<rparr>) w)))))"

definition wait_leave :: "nat \<Rightarrow> ('f, 'd, 'u) tworld \<Rightarrow> ('f, 'd, 'u) tworld res" where
  "wait_leave t w =
     bnd (get_thread w t) (\<lambda>th.
     bnd (deref (t_condInit th)) (\<lambda>c.
     bnd (deref (t_lock th)) (\<lambda>l.
     bnd (mutex_regain l) (\<lambda>l1.
     case wait_end None (c, l1, \<lambda>_. THREAD_STATE_NONE) of (c2, l2, _) \<Rightarrow>
       Inr (put_thread t (th\<lparr>t_condInit := Some c2, t_lock := Some l2\<rparr>) w)))))"

definition thread_wait ::
  "(('f, 'd, 'u) tworld \<Rightarrow> ('f, 'd, 'u) tworld res) \<Rightarrow> nat \<Rightarrow> ('f, 'd, 'u) tworld \<Rightarrow> ('f, 'd, 'u) tworld res" where
  "thread_wait others t w = bnd (wait_enter t w) (\<lambda>w1. bnd (others w1) (wait_leave t))"

fun wait_init ::
  "(('f, 'd, 'u) tworld \<Rightarrow> ('f, 'd, 'u) tworld res) list \<Rightarrow> nat \<Rightarrow> ('f, 'd, 'u) tworld \<Rightarrow> ('f, 'd, 'u) tworld res" where
  "wait_init os t w =
     bnd (get_thread w t) (\<lambda>th.
     if t_initialized th then Inr w
     else (case os of
         [] \<Rightarrow> Inl Blocked
       | others # os' \<Rightarrow> bnd (thread_wait others t w) (\<lambda>w1. wait_init os' t w1)))"

text \<open>\<open>e\<close> is what \<open>pthread_create\<close> returns, \<open>new\<close> the identifier it stores.\<close>

definition ThreadStart ::
  "int \<Rightarrow> nat \<Rightarrow> (('f, 'd, 'u) tworld \<Rightarrow> ('f, 'd, 'u) tworld res) list \<Rightarrow> nat \<Rightarrow> ('f, 'd, 'u) tworld \<Rightarrow>
   (bool \<times> ('f, 'd, 'u) tworld) res" where
  "ThreadStart e new os t w =
     bnd (take_thread_lock t w) (\<lambda>w1.
     if e \<noteq> 0 then bnd (release_thread_lock t w1) (\<lambda>w2. Inr (False, w2))
     else
       bnd (with_thread t (\<lambda>th. th\<lparr>t_id := new\<rparr>) w1) (\<lambda>w2.
       bnd (addThread t w2) (\<lambda>w3.
       bnd (wait_init os t w3) (\<lambda>w4.
       bnd (release_thread_lock t w4) (\<lambda>w5. Inr (True, w5))))))"

definition ThreadGetName :: "('f, 'd) thread \<Rightarrow> string option" where
  "ThreadGetName th = t_name th"

definition ThreadGetId :: "('f, 'd) thread \<Rightarrow> nat" where
  "ThreadGetId th = t_id th"

definition ThreadGetState :: "('f, 'd) thread \<Rightarrow> thread_state" where
  "ThreadGetState th = t_state th"

definition ThreadSetState :: "thread_state \<Rightarrow> ('f, 'd) thread \<Rightarrow> ('f, 'd) thread" where
  "ThreadSetState st th = th\<lparr>t_state := st\<rparr>"

definition ThreadStop :: "('f, 'd) thread \<Rightarrow> ('f, 'd) thread" where
  "ThreadStop th = th\<lparr>t_running := False\<rparr>"

definition ThreadRunning :: "('f, 'd) thread option \<Rightarrow> bool" where
  "ThreadRunning p =
     (case p of
        None \<Rightarrow> False
      | Some th \<Rightarrow> t_state th = THREAD_STATE_RUNNING \<or> t_state th = THREAD_STATE_IDLE \<or>
          t_state th = THREAD_STATE_BLOCKED \<or> t_state th = THREAD_STATE_EXITED \<or> t_running th)"

definition FreeThread :: "nat option \<Rightarrow> ('f, 'd, 'u) tworld \<Rightarrow> (nat option \<times> ('f, 'd, 'u) tworld) res" where
  "FreeThread p w =
     (case p of
        None \<Rightarrow> Inr (None, w)
      | Some t \<Rightarrow>
          bnd (get_thread w t) (\<lambda>th.
          let c = FreeCondition (t_condInit th) in
          bnd (FreeLock 0 (t_lock th)) (\<lambda>l.
          Inr (None, w\<lparr>tw_heap := (tw_heap w)(t := None)\<rparr>))))"

text \<open>\<open>others\<close> is what happens until \<open>pthread_join\<close> returns; an error of it is only reported.\<close>

definition ThreadJoin ::
  "(('f, 'd, 'u) tworld \<Rightarrow> ('f, 'd, 'u) tworld res) \<Rightarrow> nat option \<Rightarrow> ('f, 'd, 'u) tworld \<Rightarrow> ('f, 'd, 'u) tworld res" where
  "ThreadJoin others p w =
     (case p of
        None \<Rightarrow> Inr w
      | Some t \<Rightarrow>
          bnd (get_thread w t) (\<lambda>th.
          bnd (if ThreadRunning (Some th) then
                 bnd (c_int (tw_running w - 1)) (\<lambda>n.
                 bnd (others (w\<lparr>tw_running := n\<rparr>)) (\<lambda>w1.
                 bnd (c_int (tw_running w1 + 1)) (\<lambda>n1.
                 with_thread t (\<lambda>th1. th1\<lparr>t_state := THREAD_STATE_JOINED\<rparr>) (w1\<lparr>tw_running := n1\<rparr>))))
               else Inr w) (\<lambda>w2.
          bnd (FreeThread (Some t) w2) (\<lambda>(_, w3). Inr w3))))"

section \<open>One thread\<close>

lemma put_thread_simps [simp]:
  "tw_heap (put_thread t th w) = (tw_heap w)(t \<mapsto> th)" "tw_threads (put_thread t th w) = tw_threads w"
  "tw_initialized (put_thread t th w) = tw_initialized w" "tw_num (put_thread t th w) = tw_num w"
  "tw_running (put_thread t th w) = tw_running w" "tw_mutex (put_thread t th w) = tw_mutex w"
  "tw_user (put_thread t th w) = tw_user w" "tw_tick (put_thread t th w) = tw_tick w"
  "put_thread t th (put_thread t th' w) = put_thread t th w"
  by (simp_all add: put_thread_def)

lemma get_thread_Some [simp]: "tw_heap w t = Some th \<Longrightarrow> get_thread w t = Inr th"
  by (simp add: get_thread_def)

lemma with_thread_Some [simp]: "tw_heap w t = Some th \<Longrightarrow> with_thread t g w = Inr (put_thread t (g th) w)"
  by (simp add: with_thread_def)

lemma take_thread_lock_free [simp]:
  "tw_heap w t = Some th \<Longrightarrow> t_lock th = Some free_lock \<Longrightarrow>
   take_thread_lock t w = Inr (put_thread t (th\<lparr>t_lock := Some taken_lock\<rparr>) w)"
  by (simp add: take_thread_lock_def)

lemma release_thread_lock_taken [simp]:
  "tw_heap w t = Some th \<Longrightarrow> t_lock th = Some taken_lock \<Longrightarrow>
   release_thread_lock t w = Inr (put_thread t (th\<lparr>t_lock := Some free_lock\<rparr>) w)"
  by (simp add: release_thread_lock_def)

section \<open>The registry as a list\<close>

definition cleared :: "nat \<Rightarrow> nat option list \<Rightarrow> nat option list" where
  "cleared t ss = map (\<lambda>x. if x = Some t then None else x) ss"

lemma clear_slots_seq:
  "i + k \<le> length ss \<Longrightarrow> clear_slots k i t ss = Inr (take i ss @ cleared t (take k (drop i ss)) @ drop (i + k) ss)"
proof (induction k arbitrary: i ss)
  case 0
  then show ?case by (simp add: cleared_def)
next
  case (Suc k)
  let ?ss = "if ss ! i = Some t then ss[i := None] else ss"
  have i: "i < length ss" using Suc.prems by simp
  have "take (Suc i) ?ss = take i ss @ [if ss ! i = Some t then None else ss ! i]"
    using i by (simp add: take_Suc_conv_app_nth)
  moreover have "drop (Suc i) ?ss = drop (Suc i) ss" "drop (Suc i + k) ?ss = drop (i + Suc k) ss" by simp_all
  moreover have "drop i ss = ss ! i # drop (Suc i) ss" using i by (simp add: Cons_nth_drop_Suc)
  ultimately show ?case using Suc.IH [of "Suc i" ?ss] Suc.prems i by (simp add: cleared_def)
qed

text \<open>The threads that the first slots hold, in order.\<close>

definition listed :: "nat option list \<Rightarrow> nat list" where
  "listed ss = map the (filter (\<lambda>x. x \<noteq> None) ss)"

lemma listed_simps [simp]:
  "listed [] = []" "listed (None # ss) = listed ss" "listed (Some t # ss) = t # listed ss"
  "listed (ss @ ss') = listed ss @ listed ss'" "listed (cleared t ss) = removeAll t (listed ss)"
proof -
  show "listed (cleared t ss) = removeAll t (listed ss)"
  proof (induction ss)
    case (Cons a ss)
    then show ?case by (cases a) (auto simp: listed_def cleared_def)
  qed (simp add: listed_def cleared_def)
qed (simp_all add: listed_def)

definition reg_inv :: "('f, 'd, 'u) tworld \<Rightarrow> nat list \<Rightarrow> bool" where
  "reg_inv w ts \<longleftrightarrow> tw_initialized w \<and> \<not> tw_mutex w \<and> length (tw_threads w) = AIO4C_MAX_THREADS \<and>
     0 \<le> tw_num w \<and> tw_num w \<le> int AIO4C_MAX_THREADS \<and> listed (take (nat (tw_num w)) (tw_threads w)) = ts \<and>
     (\<forall>t \<in> set ts. tw_heap w t \<noteq> None)"

lemma find_self_listed:
  "i + k \<le> length (tw_threads w) \<Longrightarrow> length (tw_threads w) = AIO4C_MAX_THREADS \<Longrightarrow>
   \<forall>t \<in> set (listed (take k (drop i (tw_threads w)))). tw_heap w t \<noteq> None \<Longrightarrow>
   find_self k i self w = Inr (find (\<lambda>t. t_id (the (tw_heap w t)) = self) (listed (take k (drop i (tw_threads w)))))"
proof (induction k arbitrary: i)
  case (Suc k)
  have i: "i < length (tw_threads w)" using Suc.prems by simp
  then have d: "take (Suc k) (drop i (tw_threads w)) = tw_threads w ! i # take k (drop (Suc i) (tw_threads w))"
    by (simp flip: Cons_nth_drop_Suc)
  have IH: "find_self k (Suc i) self w =
      Inr (find (\<lambda>t. t_id (the (tw_heap w t)) = self) (listed (take k (drop (Suc i) (tw_threads w)))))"
    if "\<forall>t \<in> set (listed (take k (drop (Suc i) (tw_threads w)))). tw_heap w t \<noteq> None"
    using that Suc.prems by (intro Suc.IH) simp_all
  show ?case
  proof (cases "tw_threads w ! i")
    case None
    then show ?thesis using IH i Suc.prems by (simp add: d)
  next
    case (Some t)
    then obtain th where "tw_heap w t = Some th" using Suc.prems(3) by (auto simp: d)
    then show ?thesis using IH i Some Suc.prems by (simp add: d)
  qed
qed simp

lemma ThreadSelf_seq:
  assumes "reg_inv w ts"
  shows "ThreadSelf self w = Inr (find (\<lambda>t. t_id (the (tw_heap w t)) = self) ts, w)"
proof -
  let ?w = "w\<lparr>tw_mutex := True\<rparr>" and ?n = "nat (tw_num w)"
  have r: "tw_initialized w" "\<not> tw_mutex w" "length (tw_threads w) = AIO4C_MAX_THREADS" "?n \<le> AIO4C_MAX_THREADS"
    "listed (take ?n (tw_threads w)) = ts" "\<forall>t \<in> set ts. tw_heap w t \<noteq> None"
    using assms by (auto simp: reg_inv_def)
  have "find_self ?n 0 self ?w = Inr (find (\<lambda>t. t_id (the (tw_heap ?w t)) = self) (listed (take ?n (drop 0 (tw_threads ?w)))))"
    by (rule find_self_listed) (use r in simp_all)
  then show ?thesis using r by (simp add: ThreadSelf_def threads_lock_def threads_unlock_def)
qed

lemma addThread_seq:
  assumes "reg_inv w ts" "tw_num w < int AIO4C_MAX_THREADS" "tw_heap w t \<noteq> None"
  shows "\<exists>ss. addThread t w = Inr (w\<lparr>tw_threads := ss, tw_num := tw_num w + 1\<rparr>) \<and>
    reg_inv (w\<lparr>tw_threads := ss, tw_num := tw_num w + 1\<rparr>) (ts @ [t])"
proof -
  let ?n = "nat (tw_num w)"
  have r: "tw_initialized w" "\<not> tw_mutex w" "length (tw_threads w) = AIO4C_MAX_THREADS" "0 \<le> tw_num w"
    "listed (take ?n (tw_threads w)) = ts" "\<forall>t \<in> set ts. tw_heap w t \<noteq> None" "?n < length (tw_threads w)"
    using assms by (auto simp: reg_inv_def)
  have i: "is_int (tw_num w + 1)"
    using assms(2) r(4) by (intro is_int_bounds) (simp_all add: AIO4C_MAX_THREADS_def INT_MAX_def)
  have n: "nat (tw_num w + 1) = Suc ?n" using r(4) by simp
  have "listed (take (nat (tw_num w + 1)) ((tw_threads w)[?n := Some t])) = ts @ [t]"
    using r(5,7) by (simp add: n take_Suc_conv_app_nth)
  then have "reg_inv (w\<lparr>tw_threads := (tw_threads w)[?n := Some t], tw_num := tw_num w + 1\<rparr>) (ts @ [t])"
    using r assms(2,3) by (auto simp: reg_inv_def)
  moreover have "addThread t w = Inr (w\<lparr>tw_threads := (tw_threads w)[?n := Some t], tw_num := tw_num w + 1\<rparr>)"
    using r assms(2) i by (simp add: addThread_def threads_lock_def threads_unlock_def)
  ultimately show ?thesis by blast
qed

lemma addThread_full:
  "reg_inv w ts \<Longrightarrow> tw_num w = int AIO4C_MAX_THREADS \<Longrightarrow> addThread t w = Inl Undefined"
  by (simp add: reg_inv_def addThread_def threads_lock_def)

section \<open>Callbacks\<close>

text \<open>
  Callbacks that work on the user's part of the world; the second truth value says whether somebody
  has called \<open>ThreadStop\<close> on the thread in the meantime.
\<close>

definition user_cb ::
  "('f \<Rightarrow> 'd option \<Rightarrow> 'u \<Rightarrow> (bool \<times> bool \<times> 'u) res) \<Rightarrow> ('f \<Rightarrow> 'd option \<Rightarrow> 'u \<Rightarrow> 'u res) \<Rightarrow> nat \<Rightarrow> ('f, 'd, 'u) tcallbacks" where
  "user_cb rt ex t =
     \<lparr>tc_call = (\<lambda>g d w. bnd (rt g d (tw_user w)) (\<lambda>(b, stop, u).
        bnd (if stop then with_thread t ThreadStop w else Inr w) (\<lambda>w1. Inr (b, w1\<lparr>tw_user := u\<rparr>)))),
      tc_exit = (\<lambda>g d w. bnd (ex g d (tw_user w)) (\<lambda>u. Inr (w\<lparr>tw_user := u\<rparr>)))\<rparr>"

definition call_opt :: "('f \<Rightarrow> 'd option \<Rightarrow> 'u \<Rightarrow> 'u res) \<Rightarrow> 'f option \<Rightarrow> 'd option \<Rightarrow> 'u \<Rightarrow> 'u res" where
  "call_opt ex g d u = (case g of None \<Rightarrow> Inr u | Some e \<Rightarrow> ex e d u)"

definition exited :: "nat \<Rightarrow> ('f, 'd, 'u) tworld \<Rightarrow> 'u \<Rightarrow> ('f, 'd, 'u) tworld" where
  "exited t w u = w\<lparr>tw_user := u, tw_heap := (tw_heap w)(t := map_option (\<lambda>th. th\<lparr>t_state := THREAD_STATE_EXITED\<rparr>) (tw_heap w t)),
     tw_running := tw_running w - 1,
     tw_threads := cleared t (take (nat (tw_num w)) (tw_threads w)) @ drop (nat (tw_num w)) (tw_threads w), tw_mutex := False\<rparr>"

lemma cleanup_rest_seq:
  assumes "reg_inv w ts" "tw_heap w t = Some th" "is_int (tw_running w - 1)"
  shows "refines (cleanup_rest (user_cb rt ex t) t w) (call_opt ex (t_exit th) (t_arg th) (tw_user w))
    (\<lambda>u w'. w' = exited t w u \<and> reg_inv w' (removeAll t ts))"
proof -
  let ?n = "nat (tw_num w)"
  have r: "tw_initialized w" "\<not> tw_mutex w" "length (tw_threads w) = AIO4C_MAX_THREADS" "0 \<le> tw_num w" "?n \<le> AIO4C_MAX_THREADS"
    "listed (take ?n (tw_threads w)) = ts" "\<forall>t \<in> set ts. tw_heap w t \<noteq> None"
    using assms(1) by (auto simp: reg_inv_def)
  have l: "length (cleared t xs) = length xs" for xs by (simp add: cleared_def)
  have c: "clear_slots ?n 0 t (tw_threads w) = Inr (cleared t (take ?n (tw_threads w)) @ drop ?n (tw_threads w))"
    using clear_slots_seq [of 0 ?n "tw_threads w" t] r by simp
  have "cleanup_rest (user_cb rt ex t) t w = bnd (call_opt ex (t_exit th) (t_arg th) (tw_user w)) (\<lambda>u. Inr (exited t w u))"
    using assms(2,3) r c
    by (cases "t_exit th") (simp_all add: cleanup_rest_def call_opt_def user_cb_def bnd_assoc threads_lock_def threads_unlock_def
        exited_def put_thread_def)
  moreover have "reg_inv (exited t w u) (removeAll t ts)" for u
    using r assms(1,2) l by (auto simp: exited_def reg_inv_def min_def)
  ultimately show ?thesis
    by (cases "call_opt ex (t_exit th) (t_arg th) (tw_user w)") simp_all
qed

section \<open>What a thread does\<close>

text \<open>
  The specification: the initialisation once, then the routine as long as it returns true and nobody
  stops the thread, then the finalisation once. Whether the thread is stopped during its
  initialisation makes no difference.
\<close>

definition init_spec ::
  "('f \<Rightarrow> 'd option \<Rightarrow> 'u \<Rightarrow> (bool \<times> bool \<times> 'u) res) \<Rightarrow> ('f, 'd) thread \<Rightarrow> 'u \<Rightarrow> (bool \<times> 'u) res" where
  "init_spec rt th u =
     (case t_init th of None \<Rightarrow> Inr (True, u) | Some i \<Rightarrow> bnd (rt i (t_arg th) u) (\<lambda>(b, stop, u1). Inr (b, u1)))"

fun loop_spec ::
  "('f \<Rightarrow> 'd option \<Rightarrow> 'u \<Rightarrow> (bool \<times> bool \<times> 'u) res) \<Rightarrow> 'f option \<Rightarrow> 'd option \<Rightarrow> nat \<Rightarrow> bool \<Rightarrow> 'u \<Rightarrow> 'u res" where
  "loop_spec rt g d 0 go u = Inl OutOfFuel"
| "loop_spec rt g d (Suc f) go u =
     (if \<not> go then Inr u
      else bnd (deref g) (\<lambda>r. bnd (rt r d u) (\<lambda>(b, stop, u1). loop_spec rt g d f (b \<and> \<not> stop) u1)))"

definition thread_spec ::
  "('f \<Rightarrow> 'd option \<Rightarrow> 'u \<Rightarrow> (bool \<times> bool \<times> 'u) res) \<Rightarrow> ('f \<Rightarrow> 'd option \<Rightarrow> 'u \<Rightarrow> 'u res) \<Rightarrow> ('f, 'd) thread \<Rightarrow> nat \<Rightarrow> 'u \<Rightarrow> 'u res" where
  "thread_spec rt ex th f u =
     bnd (init_spec rt th u) (\<lambda>(b, u1).
     bnd (loop_spec rt (t_run th) (t_arg th) f b u1) (\<lambda>u2. call_opt ex (t_exit th) (t_arg th) u2))"

lemma put_thread_user: "(put_thread t th w)\<lparr>tw_user := u\<rparr> = put_thread t th (w\<lparr>tw_user := u\<rparr>)"
  by (simp add: put_thread_def)

lemma put_thread_id: "tw_heap w t = Some th \<Longrightarrow> put_thread t th w = w"
  by (simp add: put_thread_def map_upd_triv)

lemma run_loop_seq:
  "tw_heap w t = Some th \<Longrightarrow> t_lock th = Some taken_lock \<Longrightarrow>
   refines (run_loop (user_cb rt ex t) f t w) (loop_spec rt (t_run th) (t_arg th) f (t_running th) (tw_user w))
     (\<lambda>u w'. w' = put_thread t (th\<lparr>t_running := False\<rparr>) (w\<lparr>tw_user := u\<rparr>))"
proof (induction f arbitrary: w th)
  case (Suc f)
  show ?case
  proof (cases "t_running th")
    case False
    then have "th\<lparr>t_running := False\<rparr> = th" by simp
    then show ?thesis using False Suc.prems by (simp add: put_thread_id)
  next
    case True
    show ?thesis
    proof (cases "t_run th")
      case None
      then show ?thesis using True Suc.prems by simp
    next
      case (Some g)
      show ?thesis
      proof (cases "rt g (t_arg th) (tw_user w)")
        case (Inl e)
        then show ?thesis using True Some Suc.prems by (simp add: user_cb_def)
      next
        case (Inr r)
        then obtain b stop u where r: "rt g (t_arg th) (tw_user w) = Inr (b, stop, u)" by (cases r) auto
        let ?th = "th\<lparr>t_running := b \<and> \<not> stop\<rparr>"
        let ?w = "put_thread t ?th (w\<lparr>tw_user := u\<rparr>)"
        have e: "th\<lparr>t_running := x, t_lock := Some taken_lock\<rparr> = th\<lparr>t_running := x\<rparr>"
          "th\<lparr>t_lock := Some taken_lock, t_running := x\<rparr> = th\<lparr>t_running := x\<rparr>" for x
          using Suc.prems(2) by (cases th; simp)+
        have "run_loop (user_cb rt ex t) (Suc f) t w = run_loop (user_cb rt ex t) f t ?w"
          using True Some r Suc.prems
          by (cases stop) (simp_all add: user_cb_def ThreadStop_def put_thread_user put_thread_def e)
        moreover have "loop_spec rt (t_run th) (t_arg th) (Suc f) (t_running th) (tw_user w) =
            loop_spec rt (t_run ?th) (t_arg ?th) f (t_running ?th) (tw_user ?w)"
          using True Some r by simp
        ultimately show ?thesis using Suc.IH [of ?w ?th] Suc.prems(2) by (simp add: put_thread_user)
      qed
    qed
  qed
qed simp

lemma run_init_seq:
  assumes "tw_heap w t = Some th" "t_condInit th = Some c" "is_int (tw_running w + 1)"
  shows "refines (run_init (user_cb rt ex t) t w) (init_spec rt th (tw_user w))
    (\<lambda>(b, u) w'. w' = put_thread t (th\<lparr>t_initialized := True, t_running := b,
       t_state := (if b then THREAD_STATE_RUNNING else t_state th)\<rparr>) (w\<lparr>tw_running := tw_running w + 1, tw_user := u\<rparr>))"
proof -
  have e: "th\<lparr>t_initialized := x, t_running := b, t_state := s, t_condInit := Some c\<rparr> =
      th\<lparr>t_initialized := x, t_running := b, t_state := s\<rparr>" for x b s
    using assms(2) by (cases th) simp
  show ?thesis
  proof (cases "t_init th")
    case None
    then show ?thesis using assms by (simp add: run_init_def init_spec_def put_thread_def e)
  next
    case (Some i)
    then show ?thesis using assms
      by (cases "rt i (t_arg th) (tw_user w)")
        (auto simp add: run_init_def init_spec_def user_cb_def put_thread_def ThreadStop_def e)
  qed
qed

lemma ThreadCleanup_seq:
  assumes "reg_inv w ts" "tw_heap w t = Some th" "t_lock th = Some taken_lock" "is_int (tw_running w - 1)"
  shows "refines (ThreadCleanup (user_cb rt ex t) t w) (call_opt ex (t_exit th) (t_arg th) (tw_user w)) (\<lambda>u w'.
    tw_user w' = u \<and> tw_running w' = tw_running w - 1 \<and> reg_inv w' (removeAll t ts) \<and>
    tw_heap w' = (tw_heap w)(t \<mapsto> th\<lparr>t_lock := Some free_lock, t_state := THREAD_STATE_EXITED\<rparr>))"
proof -
  let ?th = "th\<lparr>t_lock := Some free_lock\<rparr>"
  let ?w = "put_thread t ?th w"
  have r: "reg_inv ?w ts" using assms(1) by (auto simp: reg_inv_def)
  have "refines (cleanup_rest (user_cb rt ex t) t ?w) (call_opt ex (t_exit ?th) (t_arg ?th) (tw_user ?w))
      (\<lambda>u w'. w' = exited t ?w u \<and> reg_inv w' (removeAll t ts))"
    by (rule cleanup_rest_seq [OF r]) (use assms(4) in simp_all)
  then have "refines (ThreadCleanup (user_cb rt ex t) t w) (call_opt ex (t_exit th) (t_arg th) (tw_user w))
      (\<lambda>u w'. w' = exited t ?w u \<and> reg_inv w' (removeAll t ts))"
    using assms(2,3) by (simp add: ThreadCleanup_def)
  then show ?thesis by (rule refines_mono) (auto simp: exited_def)
qed

text \<open>
  C17. A thread calls its initialisation exactly once, then its routine again and again as long as it
  returns true and the thread is not stopped, not at all if the initialisation failed, and then its
  finalisation once. It ends with its lock free, in state EXITED and removed from the registry, and
  the number of running threads is what it was. A stop requested while the initialisation runs is
  lost: the thread goes on.
\<close>

theorem run_thread_exact:
  assumes "reg_inv w ts" "tw_heap w t = Some th" "t_lock th = Some free_lock" "t_condInit th = Some c"
    and "is_int (tw_running w)" "is_int (tw_running w + 1)"
  shows "refines (runThread (user_cb rt ex t) f t w) (thread_spec rt ex th f (tw_user w)) (\<lambda>u w'.
    tw_user w' = u \<and> tw_running w' = tw_running w \<and> reg_inv w' (removeAll t ts) \<and>
    tw_heap w' = (tw_heap w)(t \<mapsto> th\<lparr>t_initialized := True, t_running := False, t_state := THREAD_STATE_EXITED\<rparr>))"
    (is "refines _ _ ?R")
proof -
  let ?w1 = "put_thread t (th\<lparr>t_lock := Some taken_lock\<rparr>) w"
  let ?th2 = "\<lambda>b. th\<lparr>t_lock := Some taken_lock, t_initialized := True, t_running := b,
    t_state := (if b then THREAD_STATE_RUNNING else t_state th)\<rparr>"
  let ?w2 = "\<lambda>b u. put_thread t (?th2 b) (w\<lparr>tw_running := tw_running w + 1, tw_user := u\<rparr>)"
  have s: "init_spec rt (th\<lparr>t_lock := Some taken_lock\<rparr>) (tw_user w) = init_spec rt th (tw_user w)"
    by (simp add: init_spec_def cong: option.case_cong)
  have "refines (run_init (user_cb rt ex t) t ?w1) (init_spec rt (th\<lparr>t_lock := Some taken_lock\<rparr>) (tw_user ?w1))
      (\<lambda>(b, u) w'. w' = ?w2 b u)"
    by (rule refines_mono [OF run_init_seq [of ?w1 t "th\<lparr>t_lock := Some taken_lock\<rparr>" c rt ex]])
      (use assms(4,6) in \<open>auto simp: put_thread_def split: if_splits\<close>)
  then have i: "refines (run_init (user_cb rt ex t) t ?w1) (init_spec rt th (tw_user w)) (\<lambda>(b, u) w'. w' = ?w2 b u)"
    by (simp add: s)
  have fin: "refines (ThreadCleanup (user_cb rt ex t) t (put_thread t (?th2 b\<lparr>t_running := False\<rparr>) ((?w2 b u)\<lparr>tw_user := u1\<rparr>)))
      (call_opt ex (t_exit th) (t_arg th) u1) ?R" for b u u1
  proof -
    let ?w3 = "put_thread t (?th2 b\<lparr>t_running := False\<rparr>) ((?w2 b u)\<lparr>tw_user := u1\<rparr>)"
    have "reg_inv ?w3 ts" using assms(1) by (auto simp: reg_inv_def put_thread_def)
    from ThreadCleanup_seq [OF this, of t "?th2 b\<lparr>t_running := False\<rparr>" rt ex] assms(3,5)
    have "refines (ThreadCleanup (user_cb rt ex t) t ?w3) (call_opt ex (t_exit th) (t_arg th) u1) (\<lambda>u w'.
      tw_user w' = u \<and> tw_running w' = tw_running w \<and> reg_inv w' (removeAll t ts) \<and>
      tw_heap w' = (tw_heap ?w3)(t \<mapsto> ?th2 b\<lparr>t_running := False, t_lock := Some free_lock, t_state := THREAD_STATE_EXITED\<rparr>))"
      by simp
    then show ?thesis
      by (rule refines_mono) (use assms(3) in \<open>cases th; simp\<close>)
  qed
  have loop: "refines (run_loop (user_cb rt ex t) f t (?w2 b u)) (loop_spec rt (t_run th) (t_arg th) f b u)
      (\<lambda>u1 w3. w3 = put_thread t (?th2 b\<lparr>t_running := False\<rparr>) ((?w2 b u)\<lparr>tw_user := u1\<rparr>))" for b u
    using run_loop_seq [of "?w2 b u" t "?th2 b" rt ex f] by (cases b) simp_all
  have "refines (bnd (run_init (user_cb rt ex t) t ?w1) (\<lambda>w2. bnd (run_loop (user_cb rt ex t) f t w2) (ThreadCleanup (user_cb rt ex t) t)))
      (thread_spec rt ex th f (tw_user w)) ?R" unfolding thread_spec_def
  proof (rule refines_bnd [OF i], unfold split_paired_all prod.case, elim ssubst)
    fix b u
    show "refines (bnd (run_loop (user_cb rt ex t) f t (?w2 b u)) (ThreadCleanup (user_cb rt ex t) t))
      (bnd (loop_spec rt (t_run th) (t_arg th) f b u) (call_opt ex (t_exit th) (t_arg th))) ?R"
      by (rule refines_bnd [OF loop], elim ssubst, rule fin)
  qed
  then show ?thesis using assms(2,3) by (simp add: runThread_def)
qed

definition slots :: "nat list \<Rightarrow> nat option list" where
  "slots ts = map Some ts @ replicate (AIO4C_MAX_THREADS - length ts) None"

definition sample_thread :: "(nat, unit) thread" where
  "sample_thread = \<lparr>t_name = Some ''worker'', t_id = 7, t_state = THREAD_STATE_NONE, t_running = False, t_lock = Some free_lock,
     t_initialized = False, t_condInit = Some free_cond, t_init = Some 0, t_run = Some 1, t_exit = Some 2, t_arg = None\<rparr>"

definition sample_tworld :: "nat list \<Rightarrow> (nat, unit, nat list) tworld" where
  "sample_tworld ts = \<lparr>tw_heap = (\<lambda>_. Some sample_thread), tw_tick = 9, tw_threads = slots ts, tw_initialized = True,
     tw_num = int (length ts), tw_running = 0, tw_mutex = False, tw_user = []\<rparr>"

text \<open>The callbacks of the examples log their names; the initialisation is interrupted by a stop.\<close>

definition sample_rt :: "nat \<Rightarrow> unit option \<Rightarrow> nat list \<Rightarrow> (bool \<times> bool \<times> nat list) res" where
  "sample_rt g d u = Inr (length u < 3, g = 0, u @ [g])"

definition sample_ex :: "nat \<Rightarrow> unit option \<Rightarrow> nat list \<Rightarrow> nat list res" where
  "sample_ex g d u = Inr (u @ [g])"

lemma listed_slots: "listed (map Some ts) = ts"
  by (induction ts) simp_all

lemma sample_reg_inv: "length ts \<le> AIO4C_MAX_THREADS \<Longrightarrow> reg_inv (sample_tworld ts) ts"
  by (simp add: reg_inv_def sample_tworld_def slots_def listed_slots)

theorem run_thread_exact_witness:
  "\<exists>w'. runThread (user_cb sample_rt sample_ex 1) 5 1 (sample_tworld [0, 1]) = Inr w' \<and> tw_user w' = [0, 1, 1, 1, 2] \<and> reg_inv w' [0]"
proof -
  have r: "reg_inv (sample_tworld [0, 1]) [0, 1]" by (rule sample_reg_inv) (simp add: AIO4C_MAX_THREADS_def)
  have h: "tw_heap (sample_tworld [0, 1]) 1 = Some sample_thread" "t_lock sample_thread = Some free_lock"
    "t_condInit sample_thread = Some free_cond" "is_int (tw_running (sample_tworld [0, 1]))" "is_int (tw_running (sample_tworld [0, 1]) + 1)"
    by (simp_all add: sample_tworld_def sample_thread_def is_int_def INT_MIN_def INT_MAX_def)
  have "thread_spec sample_rt sample_ex sample_thread 5 (tw_user (sample_tworld [0, 1])) = Inr [0, 1, 1, 1, 2]"
    by (simp add: thread_spec_def init_spec_def sample_thread_def sample_tworld_def sample_rt_def sample_ex_def call_opt_def numeral_eq_Suc)
  with run_thread_exact [OF r h, of sample_rt sample_ex 5] show ?thesis by (auto elim!: returnsE)
qed

section \<open>Programs on the registry\<close>

datatype rop = RStart nat nat | REnd nat

fun rop_ref :: "rop \<Rightarrow> nat" where
  "rop_ref (RStart t new) = t"
| "rop_ref (REnd t) = t"

fun treg_step :: "('f \<Rightarrow> 'd option \<Rightarrow> 'u \<Rightarrow> 'u res) \<Rightarrow> rop \<Rightarrow> ('f, 'd, 'u) tworld \<Rightarrow> ('f, 'd, 'u) tworld res" where
  "treg_step ex (RStart t new) w = bnd (with_thread t (\<lambda>th. th\<lparr>t_id := new\<rparr>) w) (addThread t)"
| "treg_step ex (REnd t) w = cleanup_rest (user_cb (\<lambda>_ _ u. Inr (False, False, u)) ex t) t w"

fun treg_run :: "('f \<Rightarrow> 'd option \<Rightarrow> 'u \<Rightarrow> 'u res) \<Rightarrow> rop list \<Rightarrow> ('f, 'd, 'u) tworld \<Rightarrow> ('f, 'd, 'u) tworld res" where
  "treg_run ex [] w = Inr w"
| "treg_run ex (op # ops) w = bnd (treg_step ex op w) (treg_run ex ops)"

text \<open>The live threads, the identifiers and the number of starts of a program.\<close>

fun live_step :: "rop \<Rightarrow> nat list \<Rightarrow> nat list" where
  "live_step (RStart t new) ts = ts @ [t]"
| "live_step (REnd t) ts = removeAll t ts"

fun id_step :: "rop \<Rightarrow> (nat \<Rightarrow> nat) \<Rightarrow> nat \<Rightarrow> nat" where
  "id_step (RStart t new) ids = ids(t := new)"
| "id_step (REnd t) ids = ids"

fun starts :: "rop list \<Rightarrow> nat" where
  "starts [] = 0"
| "starts (RStart t new # ops) = Suc (starts ops)"
| "starts (REnd t # ops) = starts ops"

definition thread_ids :: "('f, 'd, 'u) tworld \<Rightarrow> nat \<Rightarrow> nat" where
  "thread_ids w t = t_id (the (tw_heap w t))"

lemma treg_step_seq:
  assumes "reg_inv w ts" "tw_heap w (rop_ref op) \<noteq> None" "tw_num w + int (starts [op]) \<le> int AIO4C_MAX_THREADS"
    and "is_int (tw_running w - 1)" "\<forall>g d u. \<exists>u'. ex g d u = Inr u'"
  shows "returns (treg_step ex op w) (\<lambda>w'. reg_inv w' (live_step op ts) \<and> thread_ids w' = id_step op (thread_ids w) \<and>
    tw_num w' = tw_num w + int (starts [op]) \<and> tw_running w - 1 \<le> tw_running w' \<and> tw_running w' \<le> tw_running w \<and>
    (\<forall>t. t \<noteq> rop_ref op \<longrightarrow> tw_heap w' t = tw_heap w t) \<and> dom (tw_heap w') = dom (tw_heap w))"
proof (cases op)
  case (RStart t new)
  then obtain th where th: "tw_heap w t = Some th" using assms(2) by auto
  let ?w = "put_thread t (th\<lparr>t_id := new\<rparr>) w"
  have "reg_inv ?w ts" using assms(1) by (auto simp: reg_inv_def)
  from addThread_seq [OF this, of t] obtain ss where
    "addThread t ?w = Inr (?w\<lparr>tw_threads := ss, tw_num := tw_num w + 1\<rparr>)" "reg_inv (?w\<lparr>tw_threads := ss, tw_num := tw_num w + 1\<rparr>) (ts @ [t])"
    using assms(3) RStart by auto
  then show ?thesis using RStart th by (auto simp: thread_ids_def fun_eq_iff put_thread_def)
next
  case (REnd t)
  then obtain th where th: "tw_heap w t = Some th" using assms(2) by auto
  obtain u where "call_opt ex (t_exit th) (t_arg th) (tw_user w) = Inr u"
    using assms(5) by (cases "t_exit th") (simp_all add: call_opt_def, metis)
  with cleanup_rest_seq [OF assms(1) th assms(4), of "\<lambda>_ _ u. Inr (False, False, u)" ex]
  show ?thesis using REnd th by (auto simp: exited_def thread_ids_def fun_eq_iff elim!: returns_mono split: if_splits)
qed

lemma treg_run_seq:
  assumes ex: "\<forall>g d u. \<exists>u'. ex g d u = Inr u'"
  shows "reg_inv (w :: ('f, 'd, 'u) tworld) ts \<Longrightarrow> \<forall>op \<in> set ops. tw_heap w (rop_ref op) \<noteq> None \<Longrightarrow> tw_num w + int (starts ops) \<le> int AIO4C_MAX_THREADS \<Longrightarrow>
    is_int (tw_running w) \<Longrightarrow> is_int (tw_running w - int (length ops)) \<Longrightarrow>
    returns (treg_run ex ops w) (\<lambda>w'. reg_inv w' (fold live_step ops ts) \<and> thread_ids w' = fold id_step ops (thread_ids w) \<and>
      tw_num w' = tw_num w + int (starts ops) \<and> (\<forall>t. t \<notin> rop_ref ` set ops \<longrightarrow> tw_heap w' t = tw_heap w t))"
proof (induction ops arbitrary: w ts)
  case (Cons op ops)
  have n: "starts (op # ops) = starts [op] + starts ops" by (cases op) simp_all
  have i: "is_int (tw_running w - 1)" using Cons.prems(4,5) by (simp add: is_int_def)
  have "returns (treg_step ex op w) (\<lambda>w'. reg_inv w' (live_step op ts) \<and> thread_ids w' = id_step op (thread_ids w) \<and>
    tw_num w' = tw_num w + int (starts [op]) \<and> tw_running w - 1 \<le> tw_running w' \<and> tw_running w' \<le> tw_running w \<and>
    (\<forall>t. t \<noteq> rop_ref op \<longrightarrow> tw_heap w' t = tw_heap w t) \<and> dom (tw_heap w') = dom (tw_heap w))"
    using Cons.prems n by (intro treg_step_seq [OF _ _ _ i ex]) auto
  then show ?case unfolding treg_run.simps
  proof (rule returns_bndI, elim conjE)
    fix w' :: "('f, 'd, 'u) tworld"
    assume w': "reg_inv w' (live_step op ts)" "thread_ids w' = id_step op (thread_ids w)" "tw_num w' = tw_num w + int (starts [op])"
      "tw_running w - 1 \<le> tw_running w'" "tw_running w' \<le> tw_running w" "\<forall>t. t \<noteq> rop_ref op \<longrightarrow> tw_heap w' t = tw_heap w t"
      "dom (tw_heap w') = dom (tw_heap w)"
    have "\<forall>op \<in> set ops. tw_heap w' (rop_ref op) \<noteq> None" using Cons.prems(2) w'(7) by (auto simp: dom_def set_eq_iff)
    moreover have "is_int (tw_running w')" "is_int (tw_running w' - int (length ops))"
      using Cons.prems(4,5) w'(4,5) by (auto simp: is_int_def)
    ultimately have "returns (treg_run ex ops w') (\<lambda>w''. reg_inv w'' (fold live_step ops (live_step op ts)) \<and>
      thread_ids w'' = fold id_step ops (thread_ids w') \<and> tw_num w'' = tw_num w' + int (starts ops) \<and>
      (\<forall>t. t \<notin> rop_ref ` set ops \<longrightarrow> tw_heap w'' t = tw_heap w' t))"
      using Cons.IH [OF w'(1)] Cons.prems(3) w'(3) n by simp
    then show "returns (treg_run ex ops w') (\<lambda>w''. reg_inv w'' (fold live_step (op # ops) ts) \<and>
      thread_ids w'' = fold id_step (op # ops) (thread_ids w) \<and> tw_num w'' = tw_num w + int (starts (op # ops)) \<and>
      (\<forall>t. t \<notin> rop_ref ` set (op # ops) \<longrightarrow> tw_heap w'' t = tw_heap w t))"
      by (rule returns_mono) (use w' n in auto)
  qed
qed simp

text \<open>
  C28. The registry: after any program of starts and ends of threads that stays within its capacity,
  it holds exactly the threads that were started and have not ended, in the order of their starts,
  and \<open>ThreadSelf\<close>, called with the identifier of its caller, finds the first of them that has it:
  with different identifiers, the caller itself, and NULL for a thread that is not registered.
\<close>

theorem registry_exact:
  assumes "reg_inv w ts" "\<forall>op \<in> set ops. tw_heap w (rop_ref op) \<noteq> None" "tw_num w + int (starts ops) \<le> int AIO4C_MAX_THREADS"
    and "is_int (tw_running w)" "is_int (tw_running w - int (length ops))" "\<forall>g d u. \<exists>u'. ex g d u = Inr u'"
  shows "returns (treg_run ex ops w) (\<lambda>w'.
    (\<forall>self. ThreadSelf self w' = Inr (find (\<lambda>t. fold id_step ops (thread_ids w) t = self) (fold live_step ops ts), w')) \<and>
    listed (take (nat (tw_num w')) (tw_threads w')) = fold live_step ops ts)"
  using treg_run_seq [OF assms(6,1-5)]
proof (rule returns_mono, elim conjE)
  fix w' assume w': "reg_inv w' (fold live_step ops ts)" "thread_ids w' = fold id_step ops (thread_ids w)"
  show "(\<forall>self. ThreadSelf self w' = Inr (find (\<lambda>t. fold id_step ops (thread_ids w) t = self) (fold live_step ops ts), w')) \<and>
    listed (take (nat (tw_num w')) (tw_threads w')) = fold live_step ops ts"
    using ThreadSelf_seq [OF w'(1)] w' by (simp add: reg_inv_def thread_ids_def flip: w'(2))
qed

lemma sample_ex_returns: "\<forall>g d u. \<exists>u'. sample_ex g d u = Inr u'"
  by (simp add: sample_ex_def)

theorem registry_exact_witness:
  "\<exists>w' w''. treg_run sample_ex [RStart 1 11, RStart 2 12, REnd 1, RStart 3 11] (sample_tworld [0]) = Inr w' \<and>
     ThreadSelf 11 w' = Inr (Some 3, w') \<and> ThreadSelf 12 w' = Inr (Some 2, w') \<and> ThreadSelf 13 w' = Inr (None, w')"
proof -
  let ?ops = "[RStart 1 11, RStart 2 12, REnd 1, RStart 3 11]"
  have r: "reg_inv (sample_tworld [0]) [0]" by (rule sample_reg_inv) (simp add: AIO4C_MAX_THREADS_def)
  have h: "\<forall>op \<in> set ?ops. tw_heap (sample_tworld [0]) (rop_ref op) \<noteq> None"
    "tw_num (sample_tworld [0]) + int (starts ?ops) \<le> int AIO4C_MAX_THREADS"
    "is_int (tw_running (sample_tworld [0]))" "is_int (tw_running (sample_tworld [0]) - int (length ?ops))"
    "thread_ids (sample_tworld [0]) 0 = 7"
    by (simp_all add: sample_tworld_def AIO4C_MAX_THREADS_def is_int_def INT_MIN_def INT_MAX_def thread_ids_def sample_thread_def)
  show ?thesis
    using registry_exact [OF r h(1-4) sample_ex_returns] h(5) by (auto elim!: returnsE)
qed

text \<open>
  No slot of the registry is ever used again. Once as many threads have been started as it has
  slots, \<open>NewThread\<close> refuses for ever, even when all of them have ended; and since it is \<open>NewThread\<close>
  that checks the number and \<open>ThreadStart\<close> that takes the slot, starting a thread that was created
  before writes behind the end of the array.
\<close>

theorem slots_run_out:
  fixes w :: "('f, 'd, 'u) tworld"
  assumes "reg_inv w ts" "\<forall>op \<in> set ops. tw_heap w (rop_ref op) \<noteq> None" "tw_num w + int (starts ops) = int AIO4C_MAX_THREADS"
    and "is_int (tw_running w)" "is_int (tw_running w - int (length ops))" "\<forall>g d u. \<exists>u'. ex g d u = Inr u'"
    and "tw_heap w t = Some th" "t_lock th = Some free_lock" "\<forall>op \<in> set ops. rop_ref op \<noteq> t"
  shows "returns (treg_run ex ops w) (\<lambda>w'. NewThread mem lk cd name init routine final arg w' = (None, w') \<and>
    listed (take (nat (tw_num w')) (tw_threads w')) = fold live_step ops ts \<and> ThreadStart 0 new os t w' = Inl Undefined)"
proof -
  have n: "tw_num w + int (starts ops) \<le> int AIO4C_MAX_THREADS" using assms(3) by simp
  show ?thesis
  proof (rule returns_mono [OF treg_run_seq [OF assms(6,1,2) n assms(4,5)]], elim conjE)
    fix w' :: "('f, 'd, 'u) tworld"
    assume w': "reg_inv w' (fold live_step ops ts)" "tw_num w' = tw_num w + int (starts ops)"
      "\<forall>t. t \<notin> rop_ref ` set ops \<longrightarrow> tw_heap w' t = tw_heap w t"
    have "t \<notin> rop_ref ` set ops" using assms(9) by auto
    then have h: "tw_heap w' t = Some th" using w'(3) assms(7) by simp
    let ?w = "put_thread t (th\<lparr>t_lock := Some taken_lock, t_id := new\<rparr>) w'"
    have "reg_inv ?w (fold live_step ops ts)" using w'(1) by (auto simp: reg_inv_def)
    from addThread_full [OF this] have "addThread t ?w = Inl Undefined" using w'(2) assms(3) by simp
    then have "NewThread mem lk cd name init routine final arg w' = (None, w')" "ThreadStart 0 new os t w' = Inl Undefined"
      using w'(2) assms(3,8) h by (simp_all add: NewThread_def ThreadStart_def)
    then show "NewThread mem lk cd name init routine final arg w' = (None, w') \<and>
      listed (take (nat (tw_num w')) (tw_threads w')) = fold live_step ops ts \<and> ThreadStart 0 new os t w' = Inl Undefined"
      using w'(1) by (simp only: reg_inv_def simp_thms)
  qed
qed

text \<open>4095 threads, one after the other.\<close>

definition one_by_one :: "nat \<Rightarrow> rop list" where
  "one_by_one k = concat (replicate k [RStart 1 11, REnd 1])"

lemma one_by_one:
  "starts (one_by_one k) = k" "length (one_by_one k) = 2 * k" "\<forall>op \<in> set (one_by_one k). rop_ref op = 1"
  "fold live_step (one_by_one k) [0] = [0]"
  by (induction k) (simp_all add: one_by_one_def)

theorem slots_run_out_witness:
  "\<exists>w'. treg_run sample_ex (one_by_one 4095) (sample_tworld [0]) = Inr w' \<and> NewThread True True True None None None None None w' = (None, w')
     \<and> listed (take (nat (tw_num w')) (tw_threads w')) = [0] \<and> ThreadStart 0 11 [] 2 w' = Inl Undefined"
proof -
  have r: "reg_inv (sample_tworld [0]) [0]" by (rule sample_reg_inv) (simp add: AIO4C_MAX_THREADS_def)
  have h: "\<forall>op \<in> set (one_by_one 4095). tw_heap (sample_tworld [0]) (rop_ref op) \<noteq> None"
    "tw_num (sample_tworld [0]) + int (starts (one_by_one 4095)) = int AIO4C_MAX_THREADS"
    "is_int (tw_running (sample_tworld [0]))" "is_int (tw_running (sample_tworld [0]) - int (length (one_by_one 4095)))"
    and t: "tw_heap (sample_tworld [0]) 2 = Some sample_thread" "t_lock sample_thread = Some free_lock"
    "\<forall>op \<in> set (one_by_one 4095). rop_ref op \<noteq> 2"
    using one_by_one(3) [of 4095]
    by (simp_all add: sample_tworld_def AIO4C_MAX_THREADS_def one_by_one(1,2) is_int_def INT_MIN_def INT_MAX_def sample_thread_def)
  show ?thesis
    using slots_run_out [OF r h sample_ex_returns t, of True True True "None" None None None None 11 "[]"] one_by_one(4) [of 4095]
    by (auto elim!: returnsE)
qed

text \<open>What a wait on the thread's condition does to the lock and the condition.\<close>

definition waited :: "condition \<Rightarrow> condition" where
  "waited c = c\<lparr>cd_owner := None, cd_state := COND_STATE_WAITED\<rparr>"

definition unwaited :: "condition \<Rightarrow> condition" where
  "unwaited c = c\<lparr>cd_owner := None, cd_state := COND_STATE_FREE\<rparr>"

lemma wait_enter_seq [simp]:
  assumes "tw_heap w t = Some th" "t_lock th = Some taken_lock" "t_condInit th = Some c"
  shows "wait_enter t w = Inr (put_thread t (th\<lparr>t_condInit := Some (waited c), t_lock := Some free_lock\<rparr>) w)"
  using assms by (simp add: wait_enter_def wait_begin_def waited_def mutex_drop_def taken_lock_def free_lock_def
    LockSetState_def LockSetOwner_def)

lemma wait_leave_seq [simp]:
  assumes "tw_heap w t = Some th" "t_lock th = Some free_lock" "t_condInit th = Some c"
  shows "wait_leave t w = Inr (put_thread t (th\<lparr>t_condInit := Some (unwaited c), t_lock := Some taken_lock\<rparr>) w)"
  using assms by (simp add: wait_leave_def wait_end_def unwaited_def mutex_regain_def taken_lock_def free_lock_def
    LockSetState_def LockSetOwner_def)

text \<open>
  C29. A thread whose initialisation fails: \<open>ThreadStart\<close> reports success as soon as the thread has let
  go of its lock. Until its finalisation is over the thread is neither running nor EXITED, so
  \<open>ThreadJoin\<close> does not wait for it but frees it, and the thread goes on with freed memory.
\<close>

theorem failed_init_join_races:
  assumes "reg_inv w ts" "tw_num w < int AIO4C_MAX_THREADS" "is_int (tw_running w + 1)" "tw_heap w t = Some th"
    and "t_lock th = Some free_lock" "t_condInit th = Some c" "\<not> t_initialized th" "t_state th = THREAD_STATE_NONE"
    and "t_init th = Some i" "rt i (t_arg th) (tw_user w) = Inr (False, False, u)"
  shows "\<exists>w1 w2. ThreadStart 0 new [\<lambda>w. bnd (take_thread_lock t w) (\<lambda>w1. bnd (run_init (user_cb rt ex t) t w1) (\<lambda>w2.
        bnd (run_loop (user_cb rt ex t) 1 t w2) (release_thread_lock t)))] t w = Inr (True, w1) \<and>
    (\<forall>others. ThreadJoin others (Some t) w1 = Inr w2) \<and> cleanup_rest (user_cb rt ex t) t w2 = Inl Undefined"
proof -
  let ?cb = "user_cb rt ex t" and ?th1 = "th\<lparr>t_lock := Some taken_lock, t_id := new\<rparr>"
  let ?others = "\<lambda>w. bnd (take_thread_lock t w) (\<lambda>w1. bnd (run_init ?cb t w1) (\<lambda>w2. bnd (run_loop ?cb 1 t w2) (release_thread_lock t)))"
  let ?w1 = "put_thread t ?th1 w"
  have "reg_inv ?w1 ts" using assms(1) by (auto simp: reg_inv_def)
  from addThread_seq [OF this, of t] assms(2) obtain ss where
    add: "addThread t ?w1 = Inr (?w1\<lparr>tw_threads := ss, tw_num := tw_num w + 1\<rparr>)" by auto
  let ?w2 = "?w1\<lparr>tw_threads := ss, tw_num := tw_num w + 1\<rparr>"
  let ?th2 = "?th1\<lparr>t_condInit := Some (waited c), t_lock := Some free_lock\<rparr>"
  let ?th3 = "?th2\<lparr>t_initialized := True, t_running := False\<rparr>"
  obtain w3 where others: "?others (put_thread t ?th2 ?w2) = Inr w3" "tw_heap w3 t = Some ?th3"
    using assms(3,8-10) by (simp add: run_init_def user_cb_def put_thread_def)
  have wait: "thread_wait ?others t ?w2 = Inr (put_thread t (?th3\<lparr>t_condInit := Some (unwaited (waited c)), t_lock := Some taken_lock\<rparr>) w3)"
  proof -
    have "wait_enter t ?w2 = Inr (put_thread t ?th2 ?w2)" by (rule wait_enter_seq) (simp_all add: assms(6))
    moreover have "wait_leave t w3 = Inr (put_thread t (?th3\<lparr>t_condInit := Some (unwaited (waited c)), t_lock := Some taken_lock\<rparr>) w3)"
      by (rule wait_leave_seq [OF others(2)]) simp_all
    ultimately show ?thesis unfolding thread_wait_def using others(1) by simp
  qed
  let ?th5 = "?th3\<lparr>t_condInit := Some (unwaited (waited c)), t_lock := Some free_lock\<rparr>"
  let ?w5 = "put_thread t ?th5 w3"
  have "ThreadStart 0 new [?others] t w = Inr (True, ?w5)"
    using assms(4,5,7) add wait by (simp add: ThreadStart_def)
  moreover have "ThreadJoin others (Some t) ?w5 = Inr (?w5\<lparr>tw_heap := (tw_heap ?w5)(t := None)\<rparr>)" for others
    using assms(8) by (simp add: ThreadJoin_def ThreadRunning_def FreeThread_def)
  moreover have "cleanup_rest ?cb t (?w5\<lparr>tw_heap := (tw_heap ?w5)(t := None)\<rparr>) = Inl Undefined"
    by (simp add: cleanup_rest_def get_thread_def)
  ultimately show ?thesis by blast
qed

theorem failed_init_join_races_witness:
  "\<exists>others w1 w2. ThreadStart 0 11 [others] 1 (sample_tworld [0]) = Inr (True, w1) \<and>
     ThreadJoin (\<lambda>w. Inl Blocked) (Some 1) w1 = Inr w2 \<and>
     cleanup_rest (user_cb (\<lambda>g d u. Inr (False, False, u)) sample_ex 1) 1 w2 = Inl Undefined"
proof -
  have r: "reg_inv (sample_tworld [0]) [0]" by (rule sample_reg_inv) (simp add: AIO4C_MAX_THREADS_def)
  have h: "tw_num (sample_tworld [0]) < int AIO4C_MAX_THREADS" "is_int (tw_running (sample_tworld [0]) + 1)"
    "tw_heap (sample_tworld [0]) 1 = Some sample_thread" "t_lock sample_thread = Some free_lock"
    "t_condInit sample_thread = Some free_cond" "\<not> t_initialized sample_thread" "t_state sample_thread = THREAD_STATE_NONE"
    "t_init sample_thread = Some 0"
    by (simp_all add: sample_tworld_def sample_thread_def AIO4C_MAX_THREADS_def is_int_def INT_MIN_def INT_MAX_def)
  show ?thesis
    using failed_init_join_races [OF r h, of "\<lambda>g d u. Inr (False, False, u)" _ 11 sample_ex] by blast
qed

end
