(* ===== verification/Handshake.thy ===== *)
theory Handshake
  imports Threads
begin

text \<open>
  The thread that starts another one and the thread it starts (\<open>ThreadStart\<close> and \<open>_runThread\<close> of
  \<open>src/thread.c\<close>), interleaved in any order: mutual exclusion, no lost wake-up, no deadlock.
\<close>

section \<open>The interleavings\<close>

text \<open>
  Where the two threads are: the starter before \<open>ThreadStart\<close>, in its loop with the lock taken,
  inside \<open>pthread_cond_wait\<close>, after its return; the new thread not yet created, created, in its loop
  with the lock taken, in the routine, done with the routine, in the cleanup, ended.
\<close>

datatype spc = SStart | SCreated | SWaiting | SReturned

datatype rpc = RNone | RReady | RLoop | RBody | RAfter bool | RFinal | RDone

record ('f, 'd, 'u) hsys =
  hs_w :: "('f, 'd, 'u) tworld"
  hs_s :: spc
  hs_r :: rpc
  hs_woken :: bool

text \<open>
  A step runs the code from one lock operation to the next. A waiter whose condition has been
  notified since it went to wait can go on when the lock is free. The steps of the starter, in
  \<open>ThreadStart\<close>:
\<close>

inductive start_move ::
  "nat \<Rightarrow> nat \<Rightarrow> ('f, 'd, 'u) hsys \<Rightarrow> ('f, 'd, 'u) hsys \<Rightarrow> bool" for t new where
  s_create:
    "hs_s s = SStart \<Longrightarrow> take_thread_lock t (hs_w s) = Inr w1 \<Longrightarrow> with_thread t (\<lambda>th. th\<lparr>t_id := new\<rparr>) w1 = Inr w2 \<Longrightarrow>
     addThread t w2 = Inr w3 \<Longrightarrow> start_move t new s (s\<lparr>hs_w := w3, hs_s := SCreated, hs_r := RReady\<rparr>)"
| s_wait:
    "hs_s s = SCreated \<Longrightarrow> get_thread (hs_w s) t = Inr th \<Longrightarrow> \<not> t_initialized th \<Longrightarrow> wait_enter t (hs_w s) = Inr w1 \<Longrightarrow>
     start_move t new s (s\<lparr>hs_w := w1, hs_s := SWaiting, hs_woken := False\<rparr>)"
| s_wake:
    "hs_s s = SWaiting \<Longrightarrow> hs_woken s \<Longrightarrow> wait_leave t (hs_w s) = Inr w1 \<Longrightarrow>
     start_move t new s (s\<lparr>hs_w := w1, hs_s := SCreated\<rparr>)"
| s_return:
    "hs_s s = SCreated \<Longrightarrow> get_thread (hs_w s) t = Inr th \<Longrightarrow> t_initialized th \<Longrightarrow> release_thread_lock t (hs_w s) = Inr w1 \<Longrightarrow>
     start_move t new s (s\<lparr>hs_w := w1, hs_s := SReturned\<rparr>)"

text \<open>And those of the new thread, in \<open>_runThread\<close>.\<close>

inductive run_move ::
  "('f, 'd, 'u) tcallbacks \<Rightarrow> nat \<Rightarrow> ('f, 'd, 'u) hsys \<Rightarrow> ('f, 'd, 'u) hsys \<Rightarrow> bool" for cb t where
  r_init:
    "hs_r s = RReady \<Longrightarrow> take_thread_lock t (hs_w s) = Inr w1 \<Longrightarrow> run_init cb t w1 = Inr w2 \<Longrightarrow>
     run_move cb t s (s\<lparr>hs_w := w2, hs_r := RLoop, hs_woken := True\<rparr>)"
| r_unlock:
    "hs_r s = RLoop \<Longrightarrow> get_thread (hs_w s) t = Inr th \<Longrightarrow> t_running th \<Longrightarrow> release_thread_lock t (hs_w s) = Inr w1 \<Longrightarrow>
     run_move cb t s (s\<lparr>hs_w := w1, hs_r := RBody\<rparr>)"
| r_call:
    "hs_r s = RBody \<Longrightarrow> get_thread (hs_w s) t = Inr th \<Longrightarrow> t_run th = Some g \<Longrightarrow> tc_call cb g (t_arg th) (hs_w s) = Inr (b, w1) \<Longrightarrow>
     run_move cb t s (s\<lparr>hs_w := w1, hs_r := RAfter b\<rparr>)"
| r_relock:
    "hs_r s = RAfter b \<Longrightarrow> take_thread_lock t (hs_w s) = Inr w1 \<Longrightarrow>
     with_thread t (\<lambda>th. if t_running th then th\<lparr>t_running := b\<rparr> else th) w1 = Inr w2 \<Longrightarrow>
     run_move cb t s (s\<lparr>hs_w := w2, hs_r := RLoop\<rparr>)"
| r_leave:
    "hs_r s = RLoop \<Longrightarrow> get_thread (hs_w s) t = Inr th \<Longrightarrow> \<not> t_running th \<Longrightarrow> release_thread_lock t (hs_w s) = Inr w1 \<Longrightarrow>
     run_move cb t s (s\<lparr>hs_w := w1, hs_r := RFinal\<rparr>)"
| r_cleanup:
    "hs_r s = RFinal \<Longrightarrow> cleanup_rest cb t (hs_w s) = Inr w1 \<Longrightarrow>
     run_move cb t s (s\<lparr>hs_w := w1, hs_r := RDone\<rparr>)"

inductive hs_move ::
  "('f, 'd, 'u) tcallbacks \<Rightarrow> nat \<Rightarrow> nat \<Rightarrow> ('f, 'd, 'u) hsys \<Rightarrow> ('f, 'd, 'u) hsys \<Rightarrow> bool" for cb t new where
  starter: "start_move t new s s' \<Longrightarrow> hs_move cb t new s s'"
| runner: "run_move cb t s s' \<Longrightarrow> hs_move cb t new s s'"

lemmas starter_intros = start_move.intros [THEN hs_move.starter]

lemmas runner_intros = run_move.intros [THEN hs_move.runner]

text \<open>What can happen besides: anybody stops the thread, and waits end without a reason.\<close>

inductive hs_env :: "nat \<Rightarrow> ('f, 'd, 'u) hsys \<Rightarrow> ('f, 'd, 'u) hsys \<Rightarrow> bool" for t where
  e_stop: "with_thread t ThreadStop (hs_w s) = Inr w1 \<Longrightarrow> hs_env t s (s\<lparr>hs_w := w1\<rparr>)"
| e_spurious: "hs_s s = SWaiting \<Longrightarrow> hs_env t s (s\<lparr>hs_woken := True\<rparr>)"

inductive hs_reach ::
  "('f, 'd, 'u) tcallbacks \<Rightarrow> nat \<Rightarrow> nat \<Rightarrow> ('f, 'd, 'u) tworld \<Rightarrow> ('f, 'd, 'u) hsys \<Rightarrow> bool" for cb t new w where
  hs_init: "hs_reach cb t new w \<lparr>hs_w = w, hs_s = SStart, hs_r = RNone, hs_woken = False\<rparr>"
| hs_next: "hs_reach cb t new w s \<Longrightarrow> hs_move cb t new s s' \<or> hs_env t s s' \<Longrightarrow> hs_reach cb t new w s'"

section \<open>The invariant\<close>

definition before_init :: "rpc \<Rightarrow> bool" where
  "before_init r \<longleftrightarrow> r = RNone \<or> r = RReady"

definition running_now :: "rpc \<Rightarrow> int" where
  "running_now r = (if r = RNone \<or> r = RReady \<or> r = RDone then 0 else 1)"

definition registered_now :: "nat \<Rightarrow> rpc \<Rightarrow> nat list \<Rightarrow> nat list" where
  "registered_now t r ts = (if r = RNone then ts else if r = RDone then removeAll t ts else ts @ [t])"

definition hs_thread :: "nat \<Rightarrow> ('f, 'd, 'u) hsys \<Rightarrow> ('f, 'd) thread \<Rightarrow> bool" where
  "hs_thread t s th \<longleftrightarrow> tw_heap (hs_w s) t = Some th \<and>
     t_lock th = Some (if hs_s s = SCreated \<or> hs_r s = RLoop then taken_lock else free_lock) \<and>
     t_condInit th \<noteq> None \<and> t_run th \<noteq> None \<and> t_initialized th = (\<not> before_init (hs_r s)) \<and>
     (hs_s s = SWaiting \<and> \<not> hs_woken s \<longrightarrow> \<not> t_initialized th) \<and> (hs_s s = SReturned \<longrightarrow> t_initialized th) \<and>
     (hs_r s = RDone \<longrightarrow> t_state th = THREAD_STATE_EXITED)"

definition hs_inv :: "nat \<Rightarrow> nat list \<Rightarrow> int \<Rightarrow> ('f, 'd, 'u) hsys \<Rightarrow> bool" where
  "hs_inv t ts n s \<longleftrightarrow> (\<exists>th. hs_thread t s th) \<and> \<not> (hs_s s = SCreated \<and> hs_r s = RLoop) \<and> (hs_s s = SStart \<longleftrightarrow> hs_r s = RNone) \<and>
     tw_running (hs_w s) = n + running_now (hs_r s) \<and> reg_inv (hs_w s) (registered_now t (hs_r s) ts) \<and>
     (hs_s s = SStart \<longrightarrow> tw_num (hs_w s) < int AIO4C_MAX_THREADS)"

text \<open>What the operations leave when they return.\<close>

lemma run_init_Inr:
  assumes "run_init (user_cb rt ex t) t w = Inr w'" "tw_heap w t = Some th" "t_condInit th = Some c"
  shows "\<exists>b u. w' = put_thread t (th\<lparr>t_initialized := True, t_running := b,
    t_state := (if b then THREAD_STATE_RUNNING else t_state th)\<rparr>) (w\<lparr>tw_running := tw_running w + 1, tw_user := u\<rparr>)"
proof -
  obtain m where "c_int (tw_running w + 1) = Inr m"
    using assms(1) unfolding run_init_def bnd_eq_Inr [of "c_int (tw_running w + 1)"] by (elim exE conjE)
  then have "is_int (tw_running w + 1)" unfolding c_int_eq_Inr by (rule conjunct1)
  note r = run_init_seq [OF assms(2,3) this, of rt ex]
  show ?thesis
  proof (cases "init_spec rt th (tw_user w)")
    case (Inl e)
    then show ?thesis using r assms(1) by simp
  next
    case (Inr p)
    obtain b u where "p = (b, u)" by (cases p)
    then have "w' = put_thread t (th\<lparr>t_initialized := True, t_running := b,
      t_state := (if b then THREAD_STATE_RUNNING else t_state th)\<rparr>) (w\<lparr>tw_running := tw_running w + 1, tw_user := u\<rparr>)"
      using r assms(1) Inr by simp
    then show ?thesis by blast
  qed
qed

lemma cleanup_rest_Inr:
  assumes "cleanup_rest (user_cb rt ex t) t w = Inr w'" "tw_heap w t = Some th" "reg_inv w ts"
  shows "\<exists>u. w' = exited t w u \<and> reg_inv w' (removeAll t ts)"
proof -
  have "is_int (tw_running w - 1)"
    using assms(1,2) by (cases "t_exit th") (auto simp: cleanup_rest_def user_cb_def bnd_eq_Inr c_int_eq_Inr)
  from cleanup_rest_seq [OF assms(3,2) this, of rt ex] assms(1) show ?thesis
    by (cases "call_opt ex (t_exit th) (t_arg th) (tw_user w)") auto
qed

lemma reg_inv_thread: "reg_inv w ts \<Longrightarrow> reg_inv (put_thread t th w) ts" "reg_inv (w\<lparr>tw_user := u\<rparr>) ts = reg_inv w ts"
  "reg_inv (w\<lparr>tw_running := n\<rparr>) ts = reg_inv w ts"
  by (auto simp: reg_inv_def)

lemma hs_invE:
  assumes "hs_inv t ts n s"
  obtains th where "hs_thread t s th" "\<not> (hs_s s = SCreated \<and> hs_r s = RLoop)" "hs_s s = SStart \<longleftrightarrow> hs_r s = RNone"
    "tw_running (hs_w s) = n + running_now (hs_r s)" "reg_inv (hs_w s) (registered_now t (hs_r s) ts)"
    "hs_s s = SStart \<longrightarrow> tw_num (hs_w s) < int AIO4C_MAX_THREADS"
  using assms by (auto simp: hs_inv_def)

lemma hs_env_inv: "hs_env t s s' \<Longrightarrow> hs_inv t ts n s \<Longrightarrow> hs_inv t ts n s'"
proof (induction rule: hs_env.induct)
  case (e_stop s w1)
  then obtain th where th: "hs_thread t s th" by (auto elim!: hs_invE)
  then have w1: "w1 = put_thread t (ThreadStop th) (hs_w s)" using e_stop(1) by (simp add: hs_thread_def)
  have "hs_thread t (s\<lparr>hs_w := w1\<rparr>) (ThreadStop th)"
    using th by (auto simp: hs_thread_def ThreadStop_def w1)
  moreover have "reg_inv w1 xs = reg_inv (hs_w s) xs" if "reg_inv (hs_w s) xs" for xs
    using that by (simp add: w1 reg_inv_thread)
  ultimately show ?case using e_stop(2) by (auto simp: hs_inv_def w1)
next
  case (e_spurious s)
  then obtain th where "hs_thread t s th" by (auto elim!: hs_invE)
  then have "hs_thread t (s\<lparr>hs_woken := True\<rparr>) th" by (auto simp: hs_thread_def)
  then show ?case using e_spurious(2) unfolding hs_inv_def by auto
qed

lemma take_thread_lock_taken [simp]:
  "tw_heap w t = Some th \<Longrightarrow> t_lock th = Some taken_lock \<Longrightarrow> take_thread_lock t w = Inl Blocked"
  by (simp add: take_thread_lock_def)

lemma wait_leave_taken [simp]:
  "tw_heap w t = Some th \<Longrightarrow> t_lock th = Some taken_lock \<Longrightarrow> t_condInit th = Some c \<Longrightarrow> wait_leave t w = Inl Blocked"
  by (simp add: wait_leave_def mutex_regain_def taken_lock_def)

lemma hs_threadD:
  assumes "hs_thread t s th"
  shows "tw_heap (hs_w s) t = Some th" "hs_s s = SCreated \<or> hs_r s = RLoop \<Longrightarrow> t_lock th = Some taken_lock"
    "hs_s s \<noteq> SCreated \<Longrightarrow> hs_r s \<noteq> RLoop \<Longrightarrow> t_lock th = Some free_lock" "\<exists>c. t_condInit th = Some c"
    "t_initialized th = (\<not> before_init (hs_r s))"
  using assms by (auto simp: hs_thread_def)

lemma hs_invI:
  "hs_thread t s th \<Longrightarrow> \<not> (hs_s s = SCreated \<and> hs_r s = RLoop) \<Longrightarrow> hs_s s \<noteq> SStart \<Longrightarrow> hs_r s \<noteq> RNone \<Longrightarrow>
   tw_running (hs_w s) = n + running_now (hs_r s) \<Longrightarrow> reg_inv (hs_w s) (registered_now t (hs_r s) ts) \<Longrightarrow> hs_inv t ts n s"
  by (auto simp: hs_inv_def)

text \<open>Steps that only change the thread.\<close>

lemma hs_inv_put:
  assumes "hs_inv t ts n s" "hs_w s' = put_thread t th' (hs_w s)" "hs_thread t s' th'"
    and "hs_s s \<noteq> SStart" "hs_s s' \<noteq> SStart" "running_now (hs_r s') = running_now (hs_r s)"
    and "hs_r s' \<noteq> RNone" "hs_r s' = RDone \<longleftrightarrow> hs_r s = RDone" "\<not> (hs_s s' = SCreated \<and> hs_r s' = RLoop)"
  shows "hs_inv t ts n s'"
proof -
  from assms(1) have i: "hs_s s = SStart \<longleftrightarrow> hs_r s = RNone"
    "tw_running (hs_w s) = n + running_now (hs_r s)" "reg_inv (hs_w s) (registered_now t (hs_r s) ts)"
    by (auto elim!: hs_invE)
  have "registered_now t (hs_r s') ts = registered_now t (hs_r s) ts"
    using assms(4,7,8) i(1) by (auto simp: registered_now_def)
  then have "reg_inv (hs_w s') (registered_now t (hs_r s') ts)" "tw_running (hs_w s') = n + running_now (hs_r s')"
    using i(2,3) assms(6) by (simp_all add: assms(2) reg_inv_thread)
  then show ?thesis using assms(3,5,7,9) unfolding hs_inv_def by blast
qed

lemma start_move_inv: "start_move t new s s' \<Longrightarrow> hs_inv t ts n s \<Longrightarrow> hs_inv t ts n s'"
proof (induction rule: start_move.induct)
  case (s_create s w1 w2 w3)
  from s_create(5) obtain th where th: "hs_thread t s th" and r: "hs_r s = RNone" "tw_running (hs_w s) = n"
    "reg_inv (hs_w s) ts" "tw_num (hs_w s) < int AIO4C_MAX_THREADS"
    by (rule hs_invE) (use s_create(1) in \<open>auto simp: running_now_def registered_now_def\<close>)
  let ?th = "th\<lparr>t_lock := Some taken_lock, t_id := new\<rparr>"
  have w2: "w2 = put_thread t ?th (hs_w s)" using s_create(1-3) th r(1) by (auto simp: hs_thread_def)
  have i: "reg_inv w2 ts" "tw_num w2 < int AIO4C_MAX_THREADS" "tw_heap w2 t \<noteq> None"
    using r(3,4) by (simp_all add: w2 reg_inv_thread)
  obtain ss where w3: "w3 = w2\<lparr>tw_threads := ss, tw_num := tw_num w2 + 1\<rparr>" "reg_inv w3 (ts @ [t])"
    using addThread_seq [OF i] s_create(4) by auto
  then have "tw_heap w3 t = Some ?th" "tw_running w3 = n" using r(2) by (simp_all add: w2)
  then show ?case
    by (intro hs_invI [where th = ?th])
      (use th w3(2) r(1) s_create(1) in \<open>simp_all add: hs_thread_def before_init_def running_now_def registered_now_def\<close>)
next
  case (s_wait s th' w1)
  then obtain th where t: "hs_thread t s th" "hs_r s \<noteq> RLoop" "hs_r s \<noteq> RNone" by (auto elim!: hs_invE)
  from hs_threadD(4) [OF t(1)] obtain c where "t_condInit th = Some c" by blast
  note th = t this
  have "w1 = put_thread t (th\<lparr>t_condInit := Some (waited c), t_lock := Some free_lock\<rparr>) (hs_w s)"
    using s_wait(4) hs_threadD(1,2) [OF th(1)] th(4) s_wait(1) by simp
  moreover have "th' = th" using s_wait(2) hs_threadD(1) [OF th(1)] by simp
  ultimately show ?case
    by (intro hs_inv_put [where th' = "th\<lparr>t_condInit := Some (waited c), t_lock := Some free_lock\<rparr>", OF s_wait(5)]) (use s_wait(1,3) th in \<open>simp_all add: hs_thread_def\<close>)
next
  case (s_wake s w1)
  then obtain th where t: "hs_thread t s th" "hs_r s \<noteq> RNone" by (auto elim!: hs_invE)
  from hs_threadD(4) [OF t(1)] obtain c where "t_condInit th = Some c" by blast
  note th = t this
  have r: "hs_r s \<noteq> RLoop" using s_wake(3) hs_threadD(1,2) [OF th(1)] th(3) by auto
  then have "w1 = put_thread t (th\<lparr>t_condInit := Some (unwaited c), t_lock := Some taken_lock\<rparr>) (hs_w s)"
    using s_wake(3) hs_threadD(1,3) [OF th(1)] th(3) s_wake(1) by simp
  then show ?case
    by (intro hs_inv_put [where th' = "th\<lparr>t_condInit := Some (unwaited c), t_lock := Some taken_lock\<rparr>", OF s_wake(4)]) (use s_wake(1) th r in \<open>simp_all add: hs_thread_def\<close>)
next
  case (s_return s th' w1)
  then obtain th where th: "hs_thread t s th" "hs_r s \<noteq> RLoop" "hs_r s \<noteq> RNone" by (auto elim!: hs_invE)
  have "w1 = put_thread t (th\<lparr>t_lock := Some free_lock\<rparr>) (hs_w s)" "th' = th"
    using s_return(1,2,4) hs_threadD(1,2) [OF th(1)] by simp_all
  then show ?case
    by (intro hs_inv_put [where th' = "th\<lparr>t_lock := Some free_lock\<rparr>", OF s_return(5)]) (use s_return(1,3) th in \<open>simp_all add: hs_thread_def\<close>)
qed

lemma run_move_inv: "run_move (user_cb rt ex t) t s s' \<Longrightarrow> hs_inv t ts n s \<Longrightarrow> hs_inv t ts n s'"
proof (induction rule: run_move.induct)
  case (r_init s w1 w2)
  from r_init(4) obtain th where th: "hs_thread t s th" and r: "hs_s s \<noteq> SStart" "tw_running (hs_w s) = n"
    "reg_inv (hs_w s) (ts @ [t])"
    by (rule hs_invE) (use r_init(1) in \<open>auto simp: running_now_def registered_now_def\<close>)
  show ?case
  proof (cases "hs_s s = SCreated")
    case True
    then show ?thesis using r_init(2) th by (simp add: take_thread_lock_def hs_thread_def)
  next
    case False
    have w1: "w1 = put_thread t (th\<lparr>t_lock := Some taken_lock\<rparr>) (hs_w s)"
      using r_init(1,2) th False by (simp add: hs_thread_def)
    obtain c where "t_condInit th = Some c" using th by (auto simp: hs_thread_def)
    then obtain b u where w2: "w2 = put_thread t (th\<lparr>t_lock := Some taken_lock, t_initialized := True, t_running := b,
        t_state := (if b then THREAD_STATE_RUNNING else t_state (th\<lparr>t_lock := Some taken_lock\<rparr>))\<rparr>) (w1\<lparr>tw_running := tw_running w1 + 1, tw_user := u\<rparr>)"
      using run_init_Inr [OF r_init(3), of "th\<lparr>t_lock := Some taken_lock\<rparr>" c] w1 by auto
    let ?th = "th\<lparr>t_lock := Some taken_lock, t_initialized := True, t_running := b,
        t_state := (if b then THREAD_STATE_RUNNING else t_state (th\<lparr>t_lock := Some taken_lock\<rparr>))\<rparr>"
    have "tw_heap w2 t = Some ?th" "tw_running w2 = n + 1" "reg_inv w2 (ts @ [t])"
      using r(2,3) by (simp_all add: w1 w2 reg_inv_thread)
    then show ?thesis
      by (intro hs_invI [where th = ?th])
        (use th r False r_init(1) in \<open>simp_all add: hs_thread_def before_init_def running_now_def registered_now_def\<close>)
  qed
next
  case (r_cleanup s w1)
  from r_cleanup(3) obtain th where th: "hs_thread t s th" and r: "hs_s s \<noteq> SStart" "tw_running (hs_w s) = n + 1"
    "reg_inv (hs_w s) (ts @ [t])"
    by (rule hs_invE) (use r_cleanup(1) in \<open>auto simp: running_now_def registered_now_def\<close>)
  have h: "tw_heap (hs_w s) t = Some th" using th by (simp add: hs_thread_def)
  from cleanup_rest_Inr [OF r_cleanup(2) h r(3)]
  obtain u where "w1 = exited t (hs_w s) u" "reg_inv w1 (removeAll t (ts @ [t]))" by blast
  then show ?case
    by (intro hs_invI [where th = "th\<lparr>t_state := THREAD_STATE_EXITED\<rparr>"])
      (use th r r_cleanup(1) in \<open>auto simp: hs_thread_def exited_def before_init_def running_now_def registered_now_def\<close>)
next
  case (r_call s th g b w1)
  from r_call(5) obtain th' where th: "hs_thread t s th'" and r: "hs_s s \<noteq> SStart" "tw_running (hs_w s) = n + 1"
    "reg_inv (hs_w s) (ts @ [t])"
    by (rule hs_invE) (use r_call(1) in \<open>auto simp: running_now_def registered_now_def\<close>)
  obtain stop u where "w1 = put_thread t (if stop then ThreadStop th' else th') ((hs_w s)\<lparr>tw_user := u\<rparr>)"
  proof (cases "rt g (t_arg th) (tw_user (hs_w s))")
    case (Inl e)
    then show thesis using r_call(4) by (simp add: user_cb_def)
  next
    case (Inr p)
    obtain b' stop u where p: "p = (b', stop, u)" by (cases p)
    have h: "tw_heap (hs_w s) t = Some th'" using th by (simp add: hs_thread_def)
    have "put_thread t th' ((hs_w s)\<lparr>tw_user := u\<rparr>) = (hs_w s)\<lparr>tw_user := u\<rparr>" by (rule put_thread_id) (simp add: h)
    then have "w1 = put_thread t (if stop then ThreadStop th' else th') ((hs_w s)\<lparr>tw_user := u\<rparr>)"
      using r_call(4) Inr h by (cases stop) (simp_all add: p user_cb_def put_thread_user)
    then show thesis by (rule that)
  qed
  then have "tw_heap w1 t = Some (if stop then ThreadStop th' else th')" "tw_running w1 = n + 1" "reg_inv w1 (ts @ [t])"
    using r(2,3) by (simp_all add: reg_inv_thread)
  then show ?case
    by (intro hs_invI [where th = "if stop then ThreadStop th' else th'"])
      (use th r r_call(1) in \<open>auto simp: hs_thread_def before_init_def running_now_def registered_now_def ThreadStop_def\<close>)
next
  case (r_unlock s th' w1)
  then obtain th where th: "hs_thread t s th" "hs_s s \<noteq> SCreated" "hs_s s \<noteq> SStart" by (auto elim!: hs_invE)
  have "w1 = put_thread t (th\<lparr>t_lock := Some free_lock\<rparr>) (hs_w s)"
    using r_unlock(1,4) hs_threadD(1,2) [OF th(1)] by simp
  then show ?case
    by (intro hs_inv_put [where th' = "th\<lparr>t_lock := Some free_lock\<rparr>", OF r_unlock(5)]) (use r_unlock(1) th in \<open>auto simp: hs_thread_def running_now_def before_init_def\<close>)
next
  case (r_relock s b w1 w2)
  then obtain th where th: "hs_thread t s th" "hs_s s \<noteq> SStart" by (auto elim!: hs_invE)
  have r: "hs_s s \<noteq> SCreated" using r_relock(2) hs_threadD(1,2) [OF th(1)] by auto
  then have w1: "w1 = put_thread t (th\<lparr>t_lock := Some taken_lock\<rparr>) (hs_w s)"
    using r_relock(1,2) hs_threadD(1,3) [OF th(1)] by simp
  obtain x where "w2 = put_thread t (th\<lparr>t_lock := Some taken_lock, t_running := x\<rparr>) (hs_w s)"
  proof (cases "t_running th")
    case True
    then have "w2 = put_thread t (th\<lparr>t_lock := Some taken_lock, t_running := b\<rparr>) (hs_w s)" using r_relock(3) w1 by simp
    then show thesis by (rule that)
  next
    case False
    then have "th\<lparr>t_lock := Some taken_lock, t_running := False\<rparr> = th\<lparr>t_lock := Some taken_lock\<rparr>" by (cases th) simp
    moreover have "w2 = put_thread t (th\<lparr>t_lock := Some taken_lock\<rparr>) (hs_w s)" using r_relock(3) w1 False by simp
    ultimately have "w2 = put_thread t (th\<lparr>t_lock := Some taken_lock, t_running := False\<rparr>) (hs_w s)" by simp
    then show thesis by (rule that)
  qed
  then show ?case
    by (intro hs_inv_put [where th' = "th\<lparr>t_lock := Some taken_lock, t_running := x\<rparr>", OF r_relock(4)]) (use r_relock(1) th r in \<open>auto simp: hs_thread_def running_now_def before_init_def\<close>)
next
  case (r_leave s th' w1)
  then obtain th where th: "hs_thread t s th" "hs_s s \<noteq> SCreated" "hs_s s \<noteq> SStart" by (auto elim!: hs_invE)
  have "w1 = put_thread t (th\<lparr>t_lock := Some free_lock\<rparr>) (hs_w s)"
    using r_leave(1,4) hs_threadD(1,2) [OF th(1)] by simp
  then show ?case
    by (intro hs_inv_put [where th' = "th\<lparr>t_lock := Some free_lock\<rparr>", OF r_leave(5)]) (use r_leave(1) th in \<open>auto simp: hs_thread_def running_now_def before_init_def\<close>)
qed

lemma hs_move_inv: "hs_move (user_cb rt ex t) t new s s' \<Longrightarrow> hs_inv t ts n s \<Longrightarrow> hs_inv t ts n s'"
  by (auto elim!: hs_move.cases intro: start_move_inv run_move_inv)

section \<open>Progress\<close>

text \<open>The callbacks return and the number of running threads fits.\<close>

definition calm_run ::
  "('f \<Rightarrow> 'd option \<Rightarrow> 'u \<Rightarrow> (bool \<times> bool \<times> 'u) res) \<Rightarrow> ('f \<Rightarrow> 'd option \<Rightarrow> 'u \<Rightarrow> 'u res) \<Rightarrow> int \<Rightarrow> bool" where
  "calm_run rt ex n \<longleftrightarrow> (\<forall>g d u. \<exists>r. rt g d u = Inr r) \<and> (\<forall>g d u. \<exists>u'. ex g d u = Inr u') \<and> is_int n \<and> is_int (n + 1)"

lemma init_spec_returns: "\<forall>g d u. \<exists>r. rt g d u = Inr r \<Longrightarrow> \<exists>b u'. init_spec rt th u = Inr (b, u')"
proof -
  assume rt: "\<forall>g d u. \<exists>r. rt g d u = Inr r"
  show ?thesis
  proof (cases "t_init th")
    case (Some i)
    obtain r where "rt i (t_arg th) u = Inr r" using rt by blast
    then show ?thesis using Some by (cases r) (simp add: init_spec_def)
  qed (auto simp: init_spec_def)
qed

lemma starter_moves:
  assumes "hs_inv t ts n s" "hs_s s = SStart \<or> hs_s s = SCreated"
  shows "\<exists>s'. hs_move cb t new s s'"
  using assms(1)
proof (rule hs_invE)
  fix th
  assume th: "hs_thread t s th" and x: "\<not> (hs_s s = SCreated \<and> hs_r s = RLoop)" and i: "hs_s s = SStart \<longleftrightarrow> hs_r s = RNone"
    and r: "reg_inv (hs_w s) (registered_now t (hs_r s) ts)" and m: "hs_s s = SStart \<longrightarrow> tw_num (hs_w s) < int AIO4C_MAX_THREADS"
  note h = hs_threadD [OF th]
  show ?thesis
  proof (cases "hs_s s = SStart")
    case True
    let ?w2 = "put_thread t (th\<lparr>t_lock := Some taken_lock, t_id := new\<rparr>) (hs_w s)"
    have "reg_inv ?w2 (registered_now t (hs_r s) ts)" by (rule reg_inv_thread(1) [OF r])
    from addThread_seq [OF this, of t] True m obtain w3 where "addThread t ?w2 = Inr w3" by auto
    moreover have "take_thread_lock t (hs_w s) = Inr (put_thread t (th\<lparr>t_lock := Some taken_lock\<rparr>) (hs_w s))"
      using True i h(1,3) by simp
    moreover have "with_thread t (\<lambda>th. th\<lparr>t_id := new\<rparr>) (put_thread t (th\<lparr>t_lock := Some taken_lock\<rparr>) (hs_w s)) = Inr ?w2" by simp
    ultimately show ?thesis using start_move.s_create [OF True, of t _ new ?w2 w3] hs_move.starter by blast
  next
    case False
    then have c: "hs_s s = SCreated" using assms(2) by simp
    obtain cd where cd: "t_condInit th = Some cd" using h(4) by blast
    have l: "t_lock th = Some taken_lock" using c h(2) by simp
    show ?thesis
    proof (cases "t_initialized th")
      case True
      show ?thesis
        by (rule exI, rule starter_intros(4) [OF c get_thread_Some [OF h(1)] True release_thread_lock_taken [OF h(1) l]])
    next
      case False
      show ?thesis by (rule exI, rule starter_intros(2) [OF c get_thread_Some [OF h(1)] False wait_enter_seq [OF h(1) l cd]])
    qed
  qed
qed

lemma runner_moves:
  assumes "hs_inv t ts n s" "calm_run rt ex n" "hs_s s = SWaiting \<or> hs_s s = SReturned" "hs_r s \<noteq> RDone"
  shows "\<exists>s'. hs_move (user_cb rt ex t) t new s s'"
  using assms(1)
proof (rule hs_invE)
  fix th
  assume th: "hs_thread t s th" and i: "hs_s s = SStart \<longleftrightarrow> hs_r s = RNone" and n: "tw_running (hs_w s) = n + running_now (hs_r s)"
    and r: "reg_inv (hs_w s) (registered_now t (hs_r s) ts)"
  note h = hs_threadD [OF th]
  have nc: "hs_s s \<noteq> SCreated" using assms(3) by auto
  let ?w1 = "put_thread t (th\<lparr>t_lock := Some taken_lock\<rparr>) (hs_w s)"
  have take: "take_thread_lock t (hs_w s) = Inr ?w1" if "hs_r s \<noteq> RLoop" using h(1,3) nc that by simp
  show ?thesis
  proof (cases "hs_r s")
    case RNone
    then show ?thesis using i assms(3) by auto
  next
    case RReady
    obtain cd where cd: "t_condInit th = Some cd" using h(4) by blast
    have "is_int (tw_running ?w1 + 1)" using n RReady assms(2) by (simp add: running_now_def calm_run_def)
    from run_init_seq [of ?w1 t "th\<lparr>t_lock := Some taken_lock\<rparr>" cd rt ex, OF _ _ this] cd
    have ref: "refines (run_init (user_cb rt ex t) t ?w1) (init_spec rt (th\<lparr>t_lock := Some taken_lock\<rparr>) (tw_user (hs_w s))) (\<lambda>_ _. True)"
      by (auto elim: refines_mono)
    obtain w2 where "run_init (user_cb rt ex t) t ?w1 = Inr w2"
      using ref init_spec_returns [of rt "th\<lparr>t_lock := Some taken_lock\<rparr>" "tw_user (hs_w s)"] assms(2)
      by (auto simp: calm_run_def elim!: returnsE)
    moreover have "take_thread_lock t (hs_w s) = Inr ?w1" using take RReady by simp
    ultimately show ?thesis using runner_intros(1) [OF RReady] by blast
  next
    case RLoop
    have l: "t_lock th = Some taken_lock" using RLoop h(2) by simp
    show ?thesis
      using runner_intros(2) [OF RLoop get_thread_Some [OF h(1)] _ release_thread_lock_taken [OF h(1) l]]
        runner_intros(5) [OF RLoop get_thread_Some [OF h(1)] _ release_thread_lock_taken [OF h(1) l]] by blast
  next
    case RBody
    obtain g where g: "t_run th = Some g" using th by (auto simp: hs_thread_def)
    obtain b stop u where "rt g (t_arg th) (tw_user (hs_w s)) = Inr (b, stop, u)"
      using assms(2) unfolding calm_run_def by (metis prod_cases3)
    then obtain w1 where "tc_call (user_cb rt ex t) g (t_arg th) (hs_w s) = Inr (b, w1)"
      using h(1) by (cases stop) (simp_all add: user_cb_def)
    then show ?thesis using runner_intros(3) [OF RBody get_thread_Some [OF h(1)] g] by blast
  next
    case (RAfter b)
    have "take_thread_lock t (hs_w s) = Inr ?w1" using take RAfter by simp
    moreover have "with_thread t (\<lambda>th. if t_running th then th\<lparr>t_running := b\<rparr> else th) ?w1 = Inr (put_thread t
      ((\<lambda>th. if t_running th then th\<lparr>t_running := b\<rparr> else th) (th\<lparr>t_lock := Some taken_lock\<rparr>)) ?w1)"
      by (rule with_thread_Some) simp
    ultimately show ?thesis using runner_intros(4) [OF RAfter] by blast
  next
    case RFinal
    have "is_int (tw_running (hs_w s) - 1)" using n RFinal assms(2) by (simp add: running_now_def calm_run_def)
    note c = cleanup_rest_seq [OF r h(1) this, of rt ex]
    have "\<exists>u. call_opt ex (t_exit th) (t_arg th) (tw_user (hs_w s)) = Inr u"
      using assms(2) by (cases "t_exit th") (simp_all add: call_opt_def calm_run_def)
    then obtain u where "call_opt ex (t_exit th) (t_arg th) (tw_user (hs_w s)) = Inr u" by blast
    then obtain w1 where "cleanup_rest (user_cb rt ex t) t (hs_w s) = Inr w1" using c by (auto elim!: returnsE)
    then show ?thesis using runner_intros(6) [OF RFinal] by blast
  next
    case RDone
    then show ?thesis using assms(4) by simp
  qed
qed

lemma woken_moves:
  assumes "hs_inv t ts n s" "hs_s s = SWaiting" "hs_r s = RDone"
  shows "\<exists>s'. hs_move cb t new s s'"
  using assms(1)
proof (rule hs_invE)
  fix th assume th: "hs_thread t s th"
  note h = hs_threadD [OF th]
  obtain cd where cd: "t_condInit th = Some cd" using h(4) by blast
  have l: "t_lock th = Some free_lock" using h(3) assms(2,3) by simp
  have "t_initialized th" using h(5) assms(3) by (simp add: before_init_def)
  then have "hs_woken s" using th assms(2) by (auto simp: hs_thread_def)
  then show ?thesis using starter_intros(3) [OF assms(2) _ wait_leave_seq [OF h(1) l cd]] by blast
qed

text \<open>
  C16. However a thread, the one that starts it and the stops by others interleave: the two never hold
  the thread's lock together; \<open>ThreadStart\<close> returns only when the initialisation is over; and until it
  has returned and the thread has ended one of the two can always go on without a spurious wake-up,
  so no notification is lost and nobody waits for ever. An ended thread is EXITED, no longer
  registered and no longer counted.
\<close>

theorem start_handshake:
  assumes "hs_reach (user_cb rt ex t) t new w s" "reg_inv w ts" "tw_num w < int AIO4C_MAX_THREADS" "tw_heap w t = Some th"
    and "t_lock th = Some free_lock" "t_condInit th \<noteq> None" "t_run th \<noteq> None" "\<not> t_initialized th" "calm_run rt ex (tw_running w)"
  shows "\<not> (hs_s s = SCreated \<and> hs_r s = RLoop) \<and>
    (hs_s s = SReturned \<longrightarrow> (\<exists>th'. tw_heap (hs_w s) t = Some th' \<and> t_initialized th')) \<and>
    (hs_r s = RDone \<longrightarrow> (\<exists>th'. tw_heap (hs_w s) t = Some th' \<and> t_state th' = THREAD_STATE_EXITED) \<and>
       tw_running (hs_w s) = tw_running w \<and> reg_inv (hs_w s) (removeAll t ts)) \<and>
    (hs_s s = SReturned \<and> hs_r s = RDone \<or> (\<exists>s'. hs_move (user_cb rt ex t) t new s s'))"
proof -
  have inv: "hs_inv t ts (tw_running w) s" using assms(1)
  proof induction
    case hs_init
    then show ?case using assms(2-8) by (simp add: hs_inv_def hs_thread_def before_init_def running_now_def registered_now_def)
  next
    case (hs_next s s')
    then show ?case by (blast intro: hs_move_inv hs_env_inv)
  qed
  then obtain th' where th': "hs_thread t s th'" and i: "\<not> (hs_s s = SCreated \<and> hs_r s = RLoop)"
    "tw_running (hs_w s) = tw_running w + running_now (hs_r s)" "reg_inv (hs_w s) (registered_now t (hs_r s) ts)"
    by (rule hs_invE)
  have "hs_s s = SReturned \<and> hs_r s = RDone \<or> (\<exists>s'. hs_move (user_cb rt ex t) t new s s')"
    using starter_moves [OF inv] runner_moves [OF inv assms(9)] woken_moves [OF inv] by (cases "hs_s s") blast+
  then show ?thesis using th' i by (auto simp: hs_thread_def running_now_def registered_now_def)
qed

theorem start_handshake_witness:
  "\<exists>s'. hs_move (user_cb sample_rt sample_ex 1) 1 11
     \<lparr>hs_w = sample_tworld [0], hs_s = SStart, hs_r = RNone, hs_woken = False\<rparr> s'"
proof -
  have r: "reg_inv (sample_tworld [0]) [0]" by (rule sample_reg_inv) (simp add: AIO4C_MAX_THREADS_def)
  have h: "tw_num (sample_tworld [0]) < int AIO4C_MAX_THREADS" "tw_heap (sample_tworld [0]) 1 = Some sample_thread"
    "t_lock sample_thread = Some free_lock" "t_condInit sample_thread \<noteq> None" "t_run sample_thread \<noteq> None"
    "\<not> t_initialized sample_thread" "calm_run sample_rt sample_ex (tw_running (sample_tworld [0]))"
    by (simp_all add: sample_tworld_def sample_thread_def AIO4C_MAX_THREADS_def is_int_def INT_MIN_def INT_MAX_def calm_run_def
        sample_rt_def sample_ex_def)
  from start_handshake [OF hs_reach.hs_init r h] show ?thesis by simp
qed

end
