(* ===== verification/Pipes.thy ===== *)
theory Pipes
  imports ConnectionLife Selectors
begin

text \<open>
  A pipe: the reader of \<open>src/reader.c\<close>, its worker of \<open>src/worker.c\<close> and the writer of
  \<open>src/writer.c\<close>, three threads that hand connections and data to each other through queues. The
  model holds one pipe and the connections it manages; an operation on a connection is the one of
  the theory Connections with the rest of the system as the callbacks' own state. The bodies of the
  threads are given round by round (one round per dequeued item) and as the whole loops.
\<close>

section \<open>State\<close>

text \<open>
  The structures. The chain \<open>reader->worker->writer\<close> is flattened into the pipe below, where \<open>None\<close> is
  a NULL pointer; threads are those of the theory Threads.
\<close>

record writer =
  wr_name :: "string option"
  wr_thread :: "nat option"
  wr_bufferSize :: int
  wr_queue :: "nat queue option"

record worker =
  wk_name :: "string option"
  wk_pipe :: "string option"
  wk_thread :: "nat option"
  wk_bufferSize :: int
  wk_queue :: "nat queue option"
  wk_pool :: "nat option"

record reader =
  rd_name :: "string option"
  rd_pipe :: "string option"
  rd_thread :: "nat option"
  rd_queue :: "nat queue option"
  rd_selector :: "selector option"
  rd_load :: int
  rd_bufferSize :: int

text \<open>\<open>pp_self\<close> is the connection that is being worked on; \<open>pp_ext\<close> belongs to the user.\<close>

record 'x pipe =
  pp_self :: nat
  pp_reader :: reader
  pp_worker :: "worker option"
  pp_writer :: "writer option"
  pp_ext :: 'x

text \<open>The handlers that a pipe registers, and those of the user.\<close>

datatype 'f phandler =
    WorkerReadHandler | WorkerCloseHandler | WriterEventHandler | ReaderEventHandler | UserHandler 'f

text \<open>A connection in memory with its two handler queues, what it did to its socket, and its key.\<close>

record ('f, 'd) cobj =
  co_sys :: "('f phandler, 'd) equeue option"
  co_usr :: "('f phandler, 'd) equeue option"
  co_conn :: conn
  co_net :: "net_act list"
  co_readKey :: "nref option"

record ('f, 'd, 'x) psys =
  ps_conns :: "nat \<rightharpoonup> ('f, 'd) cobj"
  ps_mem :: bmem
  ps_addrs :: "nat \<rightharpoonup> string"
  ps_raised :: "conn_error list"
  ps_pipe :: "'x pipe"

text \<open>
  What the system answers: allocations of queue items, buffers, selection keys and handlers, the
  wake-up pipe, the names of connections; and the bound on the handlers of an event.
\<close>

record penv =
  pe_okq :: "nat \<Rightarrow> bool"
  pe_okb :: "nat \<Rightarrow> bool \<times> bool"
  pe_item :: bool
  pe_okk :: "nat \<Rightarrow> bool"
  pe_realloc :: bool
  pe_wake :: "op option \<times> bool"
  pe_name :: name_env
  pe_handler :: bool
  pe_okh :: "nat \<Rightarrow> bool"
  pe_fuel :: nat

type_synonym ('f, 'd, 'x) pworld = "('f phandler, 'd, 'x pipe) world"

type_synonym ('f, 'd, 'x) ucallbacks = "'f \<Rightarrow> event \<Rightarrow> 'd option \<Rightarrow> 'x pipe core \<Rightarrow> 'x pipe core res"

definition upd_pipe :: "('x pipe \<Rightarrow> 'x pipe) \<Rightarrow> 'x pipe core \<Rightarrow> 'x pipe core" where
  "upd_pipe g k = k\<lparr>k_user := g (k_user k)\<rparr>"

section \<open>Handlers\<close>

text \<open>
  \<open>if (ConnectionNoMoreUsed(source, owner)) { FreeConnection(&source); }\<close> in a handler of the
  connection itself. When it does free the connection its caller, which is walking the connection's
  handlers, goes on with freed memory.
\<close>

definition report_in_handler :: "owner \<Rightarrow> 'u core \<Rightarrow> 'u core res" where
  "report_in_handler own k =
     bnd (ConnectionNoMoreUsed own \<lparr>w_sys = None :: (unit, unit) equeue option, w_usr = None, w_core = k\<rparr>) (\<lambda>(last, w).
     when_ok (\<not> last) Undefined (w_core w))"

definition WorkerReadHandler_run :: "penv \<Rightarrow> event \<Rightarrow> 'x pipe core \<Rightarrow> 'x pipe core res" where
  "WorkerReadHandler_run env ev k =
     (if ev \<noteq> INBOUND_DATA_EVENT \<or> cn_state (k_conn k) = STATE_CLOSED then Inr k
      else
        let source = cn_readBuffer (k_conn k) in
        bnd (deref (pp_worker (k_user k))) (\<lambda>wk.
        bnd (deref (wk_pool wk)) (\<lambda>pool.
        bnd (AllocateBuffer (pe_okb env) (pe_okq env) (pe_item env) pool (k_mem k)) (\<lambda>(bufferCopy, m1).
        let k1 = k\<lparr>k_mem := m1\<rparr> in
        bnd (get_buf k1 source) (\<lambda>(r, b1).
        let k2 = put_buf r (BufferFlip b1) k1 in
        bnd (get_buf k2 bufferCopy) (\<lambda>(c, d2).
        bnd (get_buf k2 source) (\<lambda>(_, b2).
        bnd (BufferCopy d2 b2) (\<lambda>d3.
        let k3 = put_buf c d3 k2 in
        bnd (get_buf k3 source) (\<lambda>(_, b3).
        bnd (BufferReset b3) (\<lambda>b4.
        let k4 = put_buf r b4 k3 in
        bnd (Enqueue_ptr (pe_okq env) (wk_queue wk) (ITEM_TASK READ_EVENT (pp_self (k_user k)) c)) (\<lambda>(enqueued, q').
        let k5 = upd_pipe (\<lambda>p. p\<lparr>pp_worker := Some (wk\<lparr>wk_queue := q'\<rparr>)\<rparr>) k4 in
        if \<not> enqueued then bnd (ReleaseBuffer (pe_okq env) (Some c) (k_mem k5)) (\<lambda>(_, m6). Inr (k5\<lparr>k_mem := m6\<rparr>))
        else Inr k5)))))))))))"

definition WorkerCloseHandler_run :: "penv \<Rightarrow> event \<Rightarrow> 'x pipe core \<Rightarrow> 'x pipe core res" where
  "WorkerCloseHandler_run env ev k =
     bnd (deref (pp_worker (k_user k))) (\<lambda>wk.
     bnd (Enqueue_ptr (pe_okq env) (wk_queue wk) (ITEM_EVENT ev (pp_self (k_user k)))) (\<lambda>(enqueued, q').
     let k1 = upd_pipe (\<lambda>p. p\<lparr>pp_worker := Some (wk\<lparr>wk_queue := q'\<rparr>)\<rparr>) k in
     if \<not> enqueued then report_in_handler OWNER_WORKER k1 else Inr k1))"

definition WriterEventHandler_run :: "penv \<Rightarrow> event \<Rightarrow> 'x pipe core \<Rightarrow> 'x pipe core res" where
  "WriterEventHandler_run env ev k =
     bnd (deref (pp_writer (k_user k))) (\<lambda>wr.
     bnd (Enqueue_ptr (pe_okq env) (wr_queue wr) (ITEM_EVENT ev (pp_self (k_user k)))) (\<lambda>(_, q').
     Inr (upd_pipe (\<lambda>p. p\<lparr>pp_writer := Some (wr\<lparr>wr_queue := q'\<rparr>)\<rparr>) k)))"

text \<open>\<open>SelectorWakeUp(reader->selector)\<close>.\<close>

definition wake_reader :: "penv \<Rightarrow> 'x pipe \<Rightarrow> 'x pipe res" where
  "wake_reader env p =
     bnd (deref (rd_selector (pp_reader p))) (\<lambda>sel.
     Inr (p\<lparr>pp_reader := (pp_reader p)\<lparr>rd_selector := Some (SelectorWakeUp (fst (pe_wake env)) (snd (pe_wake env)) sel)\<rparr>\<rparr>))"

definition ReaderEventHandler_run :: "penv \<Rightarrow> event \<Rightarrow> 'x pipe core \<Rightarrow> 'x pipe core res" where
  "ReaderEventHandler_run env ev k =
     (let rd = pp_reader (k_user k) in
      bnd (Enqueue_ptr (pe_okq env) (rd_queue rd) (ITEM_EVENT ev (pp_self (k_user k)))) (\<lambda>(enqueued, q').
      let k1 = upd_pipe (\<lambda>p. p\<lparr>pp_reader := rd\<lparr>rd_queue := q'\<rparr>\<rparr>) k in
      if \<not> enqueued then report_in_handler OWNER_READER k1
      else bnd (wake_reader env (k_user k1)) (\<lambda>p. Inr (upd_pipe (\<lambda>_. p) k1))))"

fun pipe_cb :: "penv \<Rightarrow> ('f, 'd, 'x) ucallbacks \<Rightarrow> 'f phandler \<Rightarrow> event \<Rightarrow> 'd option \<Rightarrow> 'x pipe core \<Rightarrow> 'x pipe core res" where
  "pipe_cb env ucb WorkerReadHandler ev d k = WorkerReadHandler_run env ev k"
| "pipe_cb env ucb WorkerCloseHandler ev d k = WorkerCloseHandler_run env ev k"
| "pipe_cb env ucb WriterEventHandler ev d k = WriterEventHandler_run env ev k"
| "pipe_cb env ucb ReaderEventHandler ev d k = ReaderEventHandler_run env ev k"
| "pipe_cb env ucb (UserHandler g) ev d k = ucb g ev d k"

section \<open>Operations on one connection of the system\<close>

definition focus :: "nat \<Rightarrow> ('f, 'd) cobj \<Rightarrow> ('f, 'd, 'x) psys \<Rightarrow> ('f, 'd, 'x) pworld" where
  "focus c co s =
     \<lparr>w_sys = co_sys co, w_usr = co_usr co, w_core =
        \<lparr>k_conn = co_conn co, k_mem = ps_mem s, k_addrs = ps_addrs s, k_raised = ps_raised s, k_net = co_net co,
         k_user = (ps_pipe s)\<lparr>pp_self := c\<rparr>\<rparr>\<rparr>"

definition unfocus :: "nat \<Rightarrow> nref option \<Rightarrow> ('f, 'd, 'x) pworld \<Rightarrow> ('f, 'd, 'x) psys \<Rightarrow> ('f, 'd, 'x) psys" where
  "unfocus c key w s =
     (let k = w_core w in
      \<lparr>ps_conns = (ps_conns s)(c \<mapsto> \<lparr>co_sys = w_sys w, co_usr = w_usr w, co_conn = k_conn k, co_net = k_net k, co_readKey = key\<rparr>),
       ps_mem = k_mem k, ps_addrs = k_addrs k, ps_raised = k_raised k, ps_pipe = k_user k\<rparr>)"

definition with_conn ::
  "nat \<Rightarrow> (('f, 'd, 'x) pworld \<Rightarrow> ('a \<times> ('f, 'd, 'x) pworld) res) \<Rightarrow> ('f, 'd, 'x) psys \<Rightarrow> ('a \<times> ('f, 'd, 'x) psys) res" where
  "with_conn c g s =
     bnd (deref (ps_conns s c)) (\<lambda>co.
     bnd (g (focus c co s)) (\<lambda>(x, w). Inr (x, unfocus c (co_readKey co) w s)))"

definition do_conn ::
  "nat \<Rightarrow> (('f, 'd, 'x) pworld \<Rightarrow> ('f, 'd, 'x) pworld res) \<Rightarrow> ('f, 'd, 'x) psys \<Rightarrow> ('f, 'd, 'x) psys res" where
  "do_conn c g s = bnd (with_conn c (\<lambda>w. bnd (g w) (\<lambda>w'. Inr ((), w'))) s) (\<lambda>(_, s'). Inr s')"

definition free_conn :: "penv \<Rightarrow> ('f, 'd, 'x) ucallbacks \<Rightarrow> nat \<Rightarrow> ('f, 'd, 'x) psys \<Rightarrow> ('f, 'd, 'x) psys res" where
  "free_conn env ucb c s =
     bnd (deref (ps_conns s c)) (\<lambda>co.
     bnd (FreeConnection (core_cb (pipe_cb env ucb)) (pe_fuel env) (pe_okq env) (focus c co s)) (\<lambda>(k, _, _).
     Inr \<lparr>ps_conns = (ps_conns s)(c := None), ps_mem = k_mem k, ps_addrs = k_addrs k, ps_raised = k_raised k,
          ps_pipe = k_user k\<rparr>))"

text \<open>\<open>if (ConnectionNoMoreUsed(connection, owner)) { FreeConnection(&connection); }\<close> in a thread.\<close>

definition report_and_free ::
  "penv \<Rightarrow> ('f, 'd, 'x) ucallbacks \<Rightarrow> owner \<Rightarrow> nat \<Rightarrow> ('f, 'd, 'x) psys \<Rightarrow> ('f, 'd, 'x) psys res" where
  "report_and_free env ucb own c s =
     bnd (with_conn c (ConnectionNoMoreUsed own) s) (\<lambda>(last, s1).
     if last then free_conn env ucb c s1 else Inr s1)"

abbreviation on_pipe :: "('x pipe \<Rightarrow> 'x pipe) \<Rightarrow> ('f, 'd, 'x) psys \<Rightarrow> ('f, 'd, 'x) psys" where
  "on_pipe g s \<equiv> s\<lparr>ps_pipe := g (ps_pipe s)\<rparr>"

section \<open>Rounds of a thread\<close>

text \<open>After a round the run function of a thread goes on with the next one or returns.\<close>

datatype round_end = Again | Return bool

section \<open>The writer\<close>

definition WriterInit :: "nat queue option \<Rightarrow> writer \<Rightarrow> bool \<times> writer" where
  "WriterInit q wr = (q \<noteq> None, wr\<lparr>wr_queue := q\<rparr>)"

definition WriterRemove :: "nat \<Rightarrow> nat qitem \<Rightarrow> bool res" where
  "WriterRemove discriminant item =
     (case QueueItemGetType item of
        QUEUE_ITEM_EVENT \<Rightarrow> bnd (QueueEventItemGetSource item) (\<lambda>source. Inr (source = discriminant))
      | _ \<Rightarrow> Inr False)"

definition put_writer_queue :: "nat queue \<Rightarrow> ('f, 'd, 'x) psys \<Rightarrow> ('f, 'd, 'x) psys res" where
  "put_writer_queue q s =
     bnd (deref (pp_writer (ps_pipe s))) (\<lambda>wr. Inr (on_pipe (\<lambda>p. p\<lparr>pp_writer := Some (wr\<lparr>wr_queue := Some q\<rparr>)\<rparr>) s))"

definition get_writer_queue :: "('f, 'd, 'x) psys \<Rightarrow> nat queue res" where
  "get_writer_queue s = bnd (deref (pp_writer (ps_pipe s))) (\<lambda>wr. deref (wr_queue wr))"

definition writer_close ::
  "penv \<Rightarrow> ('f, 'd, 'x) ucallbacks \<Rightarrow> nat \<Rightarrow> ('f, 'd, 'x) psys \<Rightarrow> ('f, 'd, 'x) psys res" where
  "writer_close env ucb c s =
     bnd (get_writer_queue s) (\<lambda>q.
     bnd (RemoveAll q (\<lambda>it u. bnd (WriterRemove c it) (\<lambda>b. Inr (b, u))) ()) (\<lambda>(_, q', _).
     bnd (put_writer_queue q' s) (\<lambda>s1. report_and_free env ucb OWNER_WRITER c s1)))"

text \<open>One dequeued item; \<open>sn\<close> is the answer of \<open>send\<close>.\<close>

definition WriterItem ::
  "penv \<Rightarrow> ('f, 'd, 'x) ucallbacks \<Rightarrow> (nat \<Rightarrow> nat option) \<Rightarrow> nat qitem \<Rightarrow> ('f, 'd, 'x) psys \<Rightarrow> (round_end \<times> ('f, 'd, 'x) psys) res" where
  "WriterItem env ucb sn item s =
     (case QueueItemGetType item of
        QUEUE_ITEM_EXIT \<Rightarrow> Inr (Return False, s)
      | QUEUE_ITEM_EVENT \<Rightarrow>
          bnd (QueueEventItemGetEvent item) (\<lambda>ev.
          bnd (QueueEventItemGetSource item) (\<lambda>c.
          if ev = OUTBOUND_DATA_EVENT then
            bnd (with_conn c (ConnectionWrite (core_cb (pipe_cb env ucb)) (pe_fuel env) (pe_name env) sn) s) (\<lambda>(more, s1).
            if more then
              bnd (get_writer_queue s1) (\<lambda>q.
              bnd (EnqueueEventItem (pe_okq env) q ev c) (\<lambda>(_, q').
              bnd (put_writer_queue q' s1) (\<lambda>s2. Inr (Again, s2))))
            else Inr (Again, s1))
          else if ev = CLOSE_EVENT then
            bnd (writer_close env ucb c s) (\<lambda>s1. Inr (Again, s1))
          else Inr (Again, s)))
      | _ \<Rightarrow> Inr (Again, s))"

text \<open>One round of the loop; \<open>ws\<close> are the waits of its \<open>Dequeue\<close>.\<close>

definition WriterRound ::
  "penv \<Rightarrow> ('f, 'd, 'x) ucallbacks \<Rightarrow> nat wake list \<Rightarrow> (nat \<Rightarrow> nat option) \<Rightarrow> nat qitem \<Rightarrow> ('f, 'd, 'x) psys \<Rightarrow>
   (round_end \<times> nat qitem \<times> ('f, 'd, 'x) psys) res" where
  "WriterRound env ucb ws sn item s =
     bnd (get_writer_queue s) (\<lambda>q.
     bnd (Dequeue (pe_okq env) ws q item True) (\<lambda>(dequeued, it, q').
     bnd (put_writer_queue q' s) (\<lambda>s1.
     if dequeued then bnd (WriterItem env ucb sn it s1) (\<lambda>(nx, s2). Inr (nx, it, s2))
     else Inr (Return True, it, s1))))"

fun WriterLoop ::
  "penv \<Rightarrow> ('f, 'd, 'x) ucallbacks \<Rightarrow> (nat wake list \<times> (nat \<Rightarrow> nat option)) list \<Rightarrow> nat qitem \<Rightarrow> ('f, 'd, 'x) psys \<Rightarrow>
   (bool \<times> ('f, 'd, 'x) psys) res" where
  "WriterLoop env ucb [] item s = Inl OutOfFuel"
| "WriterLoop env ucb ((ws, sn) # rounds) item s =
     bnd (WriterRound env ucb ws sn item s) (\<lambda>(nx, it, s1).
     case nx of Again \<Rightarrow> WriterLoop env ucb rounds it s1 | Return b \<Rightarrow> Inr (b, s1))"

text \<open>\<open>_WriterRun\<close>: the item's storage is freed on both ways out.\<close>

definition WriterRun ::
  "penv \<Rightarrow> ('f, 'd, 'x) ucallbacks \<Rightarrow> (nat wake list \<times> (nat \<Rightarrow> nat option)) list \<Rightarrow> ('f, 'd, 'x) psys \<Rightarrow>
   (bool \<times> ('f, 'd, 'x) psys) res" where
  "WriterRun env ucb rounds s =
     bnd (deref (NewQueueItem (pe_item env))) (\<lambda>item. WriterLoop env ucb rounds item s)"

definition WriterExit :: "writer \<Rightarrow> writer res" where
  "WriterExit wr = bnd (FreeQueue (wr_queue wr)) (\<lambda>(q, _). Inr (wr\<lparr>wr_queue := q\<rparr>))"

section \<open>The worker\<close>

definition put_worker :: "(worker \<Rightarrow> worker) \<Rightarrow> ('f, 'd, 'x) psys \<Rightarrow> ('f, 'd, 'x) psys res" where
  "put_worker g s =
     bnd (deref (pp_worker (ps_pipe s))) (\<lambda>wk. Inr (on_pipe (\<lambda>p. p\<lparr>pp_worker := Some (g wk)\<rparr>) s))"

definition get_worker_queue :: "('f, 'd, 'x) psys \<Rightarrow> nat queue res" where
  "get_worker_queue s = bnd (deref (pp_worker (ps_pipe s))) (\<lambda>wk. deref (wk_queue wk))"

text \<open>
  \<open>_removeCallback\<close>: the tasks of a connection give their buffers back. It works on the memory of the
  buffers.
\<close>

definition removeCallback :: "penv \<Rightarrow> nat \<Rightarrow> nat qitem \<Rightarrow> bmem \<Rightarrow> (bool \<times> bmem) res" where
  "removeCallback env discriminant item m =
     (if QueueItemGetType item = QUEUE_ITEM_TASK then
        bnd (QueueTaskItemGetConnection item) (\<lambda>c.
        if c = discriminant then
          bnd (QueueTaskItemGetBuffer item) (\<lambda>b.
          bnd (ReleaseBuffer (pe_okq env) (Some b) m) (\<lambda>(_, m1). Inr (True, m1)))
        else Inr (False, m))
      else Inr (False, m))"

text \<open>A task: the connection's handlers read the task's buffer, which is then released.\<close>

definition worker_task ::
  "penv \<Rightarrow> ('f, 'd, 'x) ucallbacks \<Rightarrow> nat \<Rightarrow> nat \<Rightarrow> ('f, 'd, 'x) psys \<Rightarrow> ('f, 'd, 'x) psys res" where
  "worker_task env ucb c buffer s =
     bnd (do_conn c (\<lambda>w.
       bnd (ConnectionProcessData (core_cb (pipe_cb env ucb)) (pe_fuel env)
              (upd_core (upd_conn (\<lambda>cn. cn\<lparr>cn_dataBuffer := Some buffer\<rparr>)) w)) (\<lambda>w1.
       Inr (upd_core (upd_conn (\<lambda>cn. cn\<lparr>cn_dataBuffer := None\<rparr>)) w1))) s) (\<lambda>s1.
     bnd (ReleaseBuffer (pe_okq env) (Some buffer) (ps_mem s1)) (\<lambda>(_, m). Inr (s1\<lparr>ps_mem := m\<rparr>)))"

definition worker_close ::
  "penv \<Rightarrow> ('f, 'd, 'x) ucallbacks \<Rightarrow> nat \<Rightarrow> ('f, 'd, 'x) psys \<Rightarrow> ('f, 'd, 'x) psys res" where
  "worker_close env ucb c s =
     bnd (get_worker_queue s) (\<lambda>q.
     bnd (RemoveAll q (removeCallback env c) (ps_mem s)) (\<lambda>(_, q', m).
     bnd (put_worker (\<lambda>wk. wk\<lparr>wk_queue := Some q'\<rparr>) (s\<lparr>ps_mem := m\<rparr>)) (\<lambda>s1.
     report_and_free env ucb OWNER_WORKER c s1)))"

definition WorkerItem ::
  "penv \<Rightarrow> ('f, 'd, 'x) ucallbacks \<Rightarrow> nat qitem \<Rightarrow> ('f, 'd, 'x) psys \<Rightarrow> (round_end \<times> ('f, 'd, 'x) psys) res" where
  "WorkerItem env ucb item s =
     (case QueueItemGetType item of
        QUEUE_ITEM_EXIT \<Rightarrow> Inr (Return False, s)
      | QUEUE_ITEM_TASK \<Rightarrow>
          bnd (QueueTaskItemGetConnection item) (\<lambda>c.
          bnd (QueueTaskItemGetBuffer item) (\<lambda>buffer.
          bnd (worker_task env ucb c buffer s) (\<lambda>s1. Inr (Again, s1))))
      | QUEUE_ITEM_EVENT \<Rightarrow>
          bnd (QueueEventItemGetSource item) (\<lambda>c.
          bnd (worker_close env ucb c s) (\<lambda>s1. Inr (Again, s1)))
      | _ \<Rightarrow> Inr (Again, s))"

definition WorkerRound ::
  "penv \<Rightarrow> ('f, 'd, 'x) ucallbacks \<Rightarrow> nat wake list \<Rightarrow> nat qitem \<Rightarrow> ('f, 'd, 'x) psys \<Rightarrow>
   (round_end \<times> nat qitem \<times> ('f, 'd, 'x) psys) res" where
  "WorkerRound env ucb ws item s =
     bnd (get_worker_queue s) (\<lambda>q.
     bnd (Dequeue (pe_okq env) ws q item True) (\<lambda>(dequeued, it, q').
     bnd (put_worker (\<lambda>wk. wk\<lparr>wk_queue := Some q'\<rparr>) s) (\<lambda>s1.
     if dequeued then bnd (WorkerItem env ucb it s1) (\<lambda>(nx, s2). Inr (nx, it, s2))
     else Inr (Return True, it, s1))))"

fun WorkerLoop ::
  "penv \<Rightarrow> ('f, 'd, 'x) ucallbacks \<Rightarrow> nat wake list list \<Rightarrow> nat qitem \<Rightarrow> ('f, 'd, 'x) psys \<Rightarrow> (bool \<times> ('f, 'd, 'x) psys) res" where
  "WorkerLoop env ucb [] item s = Inl OutOfFuel"
| "WorkerLoop env ucb (ws # rounds) item s =
     bnd (WorkerRound env ucb ws item s) (\<lambda>(nx, it, s1).
     case nx of Again \<Rightarrow> WorkerLoop env ucb rounds it s1 | Return b \<Rightarrow> Inr (b, s1))"

definition WorkerRun ::
  "penv \<Rightarrow> ('f, 'd, 'x) ucallbacks \<Rightarrow> nat wake list list \<Rightarrow> ('f, 'd, 'x) psys \<Rightarrow> (bool \<times> ('f, 'd, 'x) psys) res" where
  "WorkerRun env ucb rounds s =
     bnd (deref (NewQueueItem (pe_item env))) (\<lambda>item. WorkerLoop env ucb rounds item s)"

section \<open>The reader\<close>

abbreviation the_reader :: "('f, 'd, 'x) psys \<Rightarrow> reader" where
  "the_reader s \<equiv> pp_reader (ps_pipe s)"

definition upd_reader :: "(reader \<Rightarrow> reader) \<Rightarrow> ('f, 'd, 'x) psys \<Rightarrow> ('f, 'd, 'x) psys" where
  "upd_reader g s = on_pipe (\<lambda>p. p\<lparr>pp_reader := g (pp_reader p)\<rparr>) s"

definition set_readKey :: "nat \<Rightarrow> nref option \<Rightarrow> ('f, 'd, 'x) psys \<Rightarrow> ('f, 'd, 'x) psys res" where
  "set_readKey c key s =
     bnd (deref (ps_conns s c)) (\<lambda>co. Inr (s\<lparr>ps_conns := (ps_conns s)(c \<mapsto> co\<lparr>co_readKey := key\<rparr>)\<rparr>))"

definition reader_manage ::
  "penv \<Rightarrow> ('f, 'd, 'x) ucallbacks \<Rightarrow> nat \<Rightarrow> ('f, 'd, 'x) psys \<Rightarrow> ('f, 'd, 'x) psys res" where
  "reader_manage env ucb c s =
     bnd (deref (ps_conns s c)) (\<lambda>co.
     bnd (deref (rd_selector (the_reader s))) (\<lambda>sel.
     bnd (Register (pe_okk env) (pe_realloc env) sel OP_READ (cn_socket (co_conn co)) c) (\<lambda>(key, sel').
     bnd (set_readKey c key (upd_reader (\<lambda>r. r\<lparr>rd_selector := Some sel'\<rparr>) s)) (\<lambda>s1.
     bnd (do_conn c (ConnectionManagedBy (core_cb (pipe_cb env ucb)) (pe_fuel env) (pe_name env) OWNER_READER) s1) (\<lambda>s2.
     bnd (c_int (rd_load (the_reader s2) + 1)) (\<lambda>n.
     Inr (upd_reader (\<lambda>r. r\<lparr>rd_load := n\<rparr>) s2)))))))"

definition reader_close ::
  "penv \<Rightarrow> ('f, 'd, 'x) ucallbacks \<Rightarrow> nat \<Rightarrow> ('f, 'd, 'x) psys \<Rightarrow> ('f, 'd, 'x) psys res" where
  "reader_close env ucb c s =
     bnd (deref (ps_conns s c)) (\<lambda>co.
     bnd (case co_readKey co of
            None \<Rightarrow> Inr s
          | Some key \<Rightarrow>
              bnd (deref (rd_selector (the_reader s))) (\<lambda>sel.
              bnd (Unregister sel key True) (\<lambda>(_, sel').
              set_readKey c None (upd_reader (\<lambda>r. r\<lparr>rd_selector := Some sel'\<rparr>) s)))) (\<lambda>s1.
     bnd (c_int (rd_load (the_reader s1) - 1)) (\<lambda>n.
     report_and_free env ucb OWNER_READER c (upd_reader (\<lambda>r. r\<lparr>rd_load := n\<rparr>) s1))))"

definition ReaderItem ::
  "penv \<Rightarrow> ('f, 'd, 'x) ucallbacks \<Rightarrow> nat qitem \<Rightarrow> ('f, 'd, 'x) psys \<Rightarrow> (round_end \<times> ('f, 'd, 'x) psys) res" where
  "ReaderItem env ucb item s =
     (case QueueItemGetType item of
        QUEUE_ITEM_EXIT \<Rightarrow> Inr (Return False, s)
      | QUEUE_ITEM_DATA \<Rightarrow>
          bnd (QueueDataItemGet item) (\<lambda>c. bnd (reader_manage env ucb c s) (\<lambda>s1. Inr (Again, s1)))
      | QUEUE_ITEM_EVENT \<Rightarrow>
          bnd (QueueEventItemGetSource item) (\<lambda>c.
          bnd (QueueEventItemGetEvent item) (\<lambda>ev.
          if ev = CLOSE_EVENT then bnd (reader_close env ucb c s) (\<lambda>s1. Inr (Again, s1))
          else if ev = PENDING_CLOSE_EVENT then bnd (deref (ps_conns s c)) (\<lambda>_. Inr (Again, s))
          else Inr (Again, s)))
      | _ \<Rightarrow> Inr (Again, s))"

text \<open>\<open>Return True\<close>: the queue is empty, the thread goes on to select.\<close>

definition ReaderRound ::
  "penv \<Rightarrow> ('f, 'd, 'x) ucallbacks \<Rightarrow> nat qitem \<Rightarrow> ('f, 'd, 'x) psys \<Rightarrow>
   (round_end \<times> nat qitem \<times> ('f, 'd, 'x) psys) res" where
  "ReaderRound env ucb item s =
     bnd (deref (rd_queue (the_reader s))) (\<lambda>q.
     bnd (Dequeue (pe_okq env) [] q item False) (\<lambda>(dequeued, it, q').
     let s1 = upd_reader (\<lambda>r. r\<lparr>rd_queue := Some q'\<rparr>) s in
     if dequeued then bnd (ReaderItem env ucb it s1) (\<lambda>(nx, s2). Inr (nx, it, s2))
     else Inr (Return True, it, s1)))"

fun ReaderDrain ::
  "nat \<Rightarrow> penv \<Rightarrow> ('f, 'd, 'x) ucallbacks \<Rightarrow> nat qitem \<Rightarrow> ('f, 'd, 'x) psys \<Rightarrow> (bool \<times> ('f, 'd, 'x) psys) res" where
  "ReaderDrain 0 env ucb item s = Inl OutOfFuel"
| "ReaderDrain (Suc f) env ucb item s =
     bnd (ReaderRound env ucb item s) (\<lambda>(nx, it, s1).
     case nx of Again \<Rightarrow> ReaderDrain f env ucb it s1 | Return b \<Rightarrow> Inr (b, s1))"

text \<open>
  The loop over the ready keys. Each round has the answer to a repeated poll of the key and the one
  of \<open>recv\<close>. The attachment of a key is its connection.
\<close>

fun read_ready ::
  "penv \<Rightarrow> ('f, 'd, 'x) ucallbacks \<Rightarrow> (op option \<times> (int \<Rightarrow> byte list option)) list \<Rightarrow> ('f, 'd, 'x) psys \<Rightarrow>
   ('f, 'd, 'x) psys res" where
  "read_ready env ucb [] s = Inl OutOfFuel"
| "read_ready env ucb ((repoll, rv) # rounds) s =
     bnd (deref (rd_selector (the_reader s))) (\<lambda>sel.
     bnd (SelectionKeyReady repoll sel) (\<lambda>(ready, key, sel').
     let s1 = upd_reader (\<lambda>r. r\<lparr>rd_selector := Some sel'\<rparr>) s in
     if \<not> ready then Inr s1
     else
       bnd (deref key) (\<lambda>n.
       bnd (get_key (s_heap sel') n) (\<lambda>k.
       bnd (if SelectionKeyIsOperationSuccessful k then
              do_conn (SelectionKeyGetAttachment k)
                (ConnectionRead (core_cb (pipe_cb env ucb)) (pe_fuel env) (pe_name env) rv) s1
            else bnd (deref (ps_conns s1 (SelectionKeyGetAttachment k))) (\<lambda>_. Inr s1)) (\<lambda>s2.
       read_ready env ucb rounds s2)))))"

definition ReaderRun ::
  "nat \<Rightarrow> penv \<Rightarrow> ('f, 'd, 'x) ucallbacks \<Rightarrow> poll_result list \<Rightarrow> (op option \<times> (int \<Rightarrow> byte list option)) list \<Rightarrow>
   ('f, 'd, 'x) psys \<Rightarrow> (bool \<times> ('f, 'd, 'x) psys) res" where
  "ReaderRun f env ucb outs rounds s =
     bnd (deref (NewQueueItem (pe_item env))) (\<lambda>item.
     bnd (ReaderDrain f env ucb item s) (\<lambda>(b, s1).
     if \<not> b then Inr (False, s1)
     else
       bnd (deref (rd_selector (the_reader s1))) (\<lambda>sel.
       bnd (Select outs sel) (\<lambda>(n, sel').
       let s2 = upd_reader (\<lambda>r. r\<lparr>rd_selector := Some sel'\<rparr>) s1 in
       if n > 0 then bnd (read_ready env ucb rounds s2) (\<lambda>s3. Inr (True, s3)) else Inr (True, s2)))))"

section \<open>Handing a connection to a pipe\<close>

abbreviation add_system_handler ::
  "penv \<Rightarrow> ('f, 'd, 'x) ucallbacks \<Rightarrow> event \<Rightarrow> 'f phandler \<Rightarrow> bool \<Rightarrow> ('f, 'd, 'x) pworld \<Rightarrow> ('f, 'd, 'x) pworld res" where
  "add_system_handler env ucb ev h once \<equiv>
     ConnectionAddSystemHandler (core_cb (pipe_cb env ucb)) (pe_fuel env) (pe_name env) (pe_handler env) (pe_okh env) ev h None once"

abbreviation managed_by ::
  "penv \<Rightarrow> ('f, 'd, 'x) ucallbacks \<Rightarrow> owner \<Rightarrow> ('f, 'd, 'x) pworld \<Rightarrow> ('f, 'd, 'x) pworld res" where
  "managed_by env ucb own \<equiv> ConnectionManagedBy (core_cb (pipe_cb env ucb)) (pe_fuel env) (pe_name env) own"

definition WriterManageConnection ::
  "penv \<Rightarrow> ('f, 'd, 'x) ucallbacks \<Rightarrow> ('f, 'd, 'x) pworld \<Rightarrow> ('f, 'd, 'x) pworld res" where
  "WriterManageConnection env ucb w =
     bnd (add_system_handler env ucb OUTBOUND_DATA_EVENT WriterEventHandler False w) (\<lambda>w1.
     bnd (add_system_handler env ucb CLOSE_EVENT WriterEventHandler True w1) (\<lambda>w2.
     managed_by env ucb OWNER_WRITER w2))"

definition WorkerManageConnection ::
  "penv \<Rightarrow> ('f, 'd, 'x) ucallbacks \<Rightarrow> ('f, 'd, 'x) pworld \<Rightarrow> ('f, 'd, 'x) pworld res" where
  "WorkerManageConnection env ucb w =
     bnd (add_system_handler env ucb INBOUND_DATA_EVENT WorkerReadHandler False w) (\<lambda>w1.
     bnd (add_system_handler env ucb CLOSE_EVENT WorkerCloseHandler True w1) (\<lambda>w2.
     bnd (managed_by env ucb OWNER_WORKER w2) (\<lambda>w3.
     bnd (deref (pp_worker (k_user (w_core w3)))) (\<lambda>_. WriterManageConnection env ucb w3))))"

definition ReaderManageConnection ::
  "penv \<Rightarrow> ('f, 'd, 'x) ucallbacks \<Rightarrow> nat \<Rightarrow> ('f, 'd, 'x) psys \<Rightarrow> ('f, 'd, 'x) psys res" where
  "ReaderManageConnection env ucb c s =
     bnd (Enqueue_ptr (pe_okq env) (rd_queue (the_reader s)) (ITEM_DATA c)) (\<lambda>(enqueued, q').
     let s1 = upd_reader (\<lambda>r. r\<lparr>rd_queue := q'\<rparr>) s in
     if \<not> enqueued then Inr s1
     else
       bnd (do_conn c (\<lambda>w.
         bnd (add_system_handler env ucb PENDING_CLOSE_EVENT ReaderEventHandler True w) (\<lambda>w1.
         bnd (add_system_handler env ucb CLOSE_EVENT ReaderEventHandler True w1) (\<lambda>w2.
         WorkerManageConnection env ucb w2))) s1) (\<lambda>s2.
       bnd (wake_reader env (ps_pipe s2)) (\<lambda>p. Inr (s2\<lparr>ps_pipe := p\<rparr>))))"

end
