(* ===== verification/PipeRead.thy ===== *)
theory PipeRead
  imports Pipes
begin

text \<open>
  The first half of the way of the data through a pipe (\<open>src/reader.c\<close>, \<open>src/worker.c\<close>): what a
  connection receives is copied into a buffer of the worker's pool and queued as a task.
\<close>

section \<open>What the pool operations leave alone\<close>

definition frame :: "nat \<Rightarrow> nat set \<Rightarrow> bmem \<Rightarrow> bmem \<Rightarrow> bool" where
  "frame pr rs m m' \<longleftrightarrow> (\<forall>r. r \<notin> rs \<longrightarrow> r < bm_tick m \<longrightarrow> bm_bufs m' r = bm_bufs m r) \<and>
     (\<forall>p. p \<noteq> pr \<longrightarrow> bm_pools m' p = bm_pools m p) \<and> bm_tick m \<le> bm_tick m'"

lemma frame_refl [simp]: "frame pr rs m m"
  by (simp add: frame_def)

lemma frame_trans: "frame pr rs m m' \<Longrightarrow> frame pr rs m' m'' \<Longrightarrow> frame pr rs m m''"
  by (fastforce simp: frame_def)

lemma frameD:
  assumes "frame pr rs m m'"
  shows "r \<notin> rs \<Longrightarrow> r < bm_tick m \<Longrightarrow> bm_bufs m' r = bm_bufs m r" "p \<noteq> pr \<Longrightarrow> bm_pools m' p = bm_pools m p"
    "bm_tick m \<le> bm_tick m'"
  using assms by (simp_all add: frame_def)

lemma set_pool_queue_frame: "set_pool_queue pr q m = Inr m' \<Longrightarrow> frame pr rs m m' \<and> bm_tick m' = bm_tick m"
  by (auto simp: set_pool_queue_def bnd_eq_Inr frame_def)

lemma fill_pool_frame: "fill_pool okb okq k pr n m = Inr m' \<Longrightarrow> frame pr {} m m'"
proof (induction k arbitrary: m)
  case 0
  then show ?case by simp
next
  case (Suc k)
  obtain r m1 where 1: "mem_NewBuffer okb n m = Inr (r, m1)"
    using Suc.prems by (auto simp: bnd_eq_Inr)
  have f1: "frame pr {} m m1" "bm_tick m1 = Suc (bm_tick m)" "r = None \<or> r = Some (bm_tick m)"
    using 1 by (auto simp: mem_NewBuffer_def Let_def bnd_eq_Inr frame_def split: option.splits)
  show ?case
  proof (cases r)
    case None
    then show ?thesis using Suc.prems 1 f1(1) by simp
  next
    case (Some b)
    from Suc.prems Some 1 obtain bf q' m2 where 2: "set_pool_queue pr q' (m1\<lparr>bm_bufs := (bm_bufs m1)(b \<mapsto> bf)\<rparr>) = Inr m2"
      "fill_pool okb okq k pr n m2 = Inr m'" by (auto simp: bnd_eq_Inr)
    have b: "b = bm_tick m" using f1(3) Some by simp
    have "frame pr {} m (m1\<lparr>bm_bufs := (bm_bufs m1)(b \<mapsto> bf)\<rparr>)" using f1 b by (auto simp: frame_def)
    with set_pool_queue_frame [OF 2(1)] have "frame pr {} m m2" by (blast intro: frame_trans)
    with Suc.IH [OF 2(2)] show ?thesis by (blast intro: frame_trans)
  qed
qed

lemma pool_Dequeue_frame: "pool_Dequeue okq pr it m = Inr (d, it', m') \<Longrightarrow> frame pr {} m m'"
  by (auto simp: pool_Dequeue_def bnd_eq_Inr dest: set_pool_queue_frame)

lemma frame_items [simp]: "frame pr rs (m\<lparr>bm_items := i\<rparr>) m' = frame pr rs m m'" "frame pr rs m (m'\<lparr>bm_items := i\<rparr>) = frame pr rs m m'"
  by (simp_all add: frame_def)

lemma AllocateBuffer_frame: "AllocateBuffer okb okq item_ok pr m = Inr (p, m') \<Longrightarrow> frame pr {} m m'"
  by (auto simp: AllocateBuffer_def bnd_eq_Inr split: if_splits
      dest!: pool_Dequeue_frame fill_pool_frame) (blast intro: frame_trans)+

lemma ReleaseBuffer_frame:
  assumes "ReleaseBuffer okq (Some r) m = Inr (p, m')" "bm_bufs m r = Some b" "b_pool b = Some pr"
  shows "frame pr {r} m m'" "bm_tick m' = bm_tick m"
proof -
  from assms obtain q b' where "set_pool_queue pr q (m\<lparr>bm_bufs := (bm_bufs m)(r \<mapsto> b')\<rparr>) = Inr m'"
    by (auto simp: ReleaseBuffer_def bnd_eq_Inr)
  from set_pool_queue_frame [OF this, of "{r}"] show "frame pr {r} m m'" "bm_tick m' = bm_tick m"
    by (auto simp: frame_def)
qed

text \<open>The buffers that do not belong to the pool \<open>pr\<close>, but for \<open>rs\<close>, and the other pools.\<close>

definition foreign :: "nat \<Rightarrow> nat set \<Rightarrow> bmem \<Rightarrow> bmem \<Rightarrow> bool" where
  "foreign pr rs m m' \<longleftrightarrow>
     (\<forall>r b. bm_bufs m r = Some b \<longrightarrow> b_pool b \<noteq> Some pr \<longrightarrow> r \<notin> rs \<longrightarrow> r < bm_tick m \<longrightarrow> bm_bufs m' r = Some b) \<and>
     (\<forall>p. p \<noteq> pr \<longrightarrow> bm_pools m' p = bm_pools m p) \<and> bm_tick m \<le> bm_tick m'"

lemma frame_foreign: "frame pr rs m m' \<Longrightarrow> foreign pr rs m m'"
  by (simp add: frame_def foreign_def)

lemma foreign_trans: "foreign pr rs m m' \<Longrightarrow> foreign pr rs m' m'' \<Longrightarrow> foreign pr rs m m''"
  by (fastforce simp: foreign_def)

lemma foreignI:
  assumes "bm_bufs m b = Some bf" "b_pool bf = Some pr" "\<And>p. p \<noteq> pr \<Longrightarrow> bm_pools m' p = bm_pools m p" "bm_tick m \<le> bm_tick m'"
    and "\<And>r. r \<noteq> b \<Longrightarrow> r \<notin> rs \<Longrightarrow> r < bm_tick m \<Longrightarrow> bm_bufs m' r = bm_bufs m r"
  shows "foreign pr rs m m'"
proof -
  have "r \<noteq> b" if "bm_bufs m r = Some bb" "b_pool bb \<noteq> Some pr" for r bb using assms(1,2) that by auto
  then show ?thesis using assms(3-5) unfolding foreign_def by metis
qed

lemma foreign_put:
  "(\<And>b. bm_bufs m r = Some b \<Longrightarrow> b_pool b \<noteq> Some pr \<Longrightarrow> r \<in> rs) \<Longrightarrow>
   foreign pr rs m (m\<lparr>bm_bufs := (bm_bufs m)(r \<mapsto> x)\<rparr>)"
  by (auto simp: foreign_def)

section \<open>Buffers that a pool has lost\<close>

text \<open>
  The buffers a pool has allocated so far that are neither in its queue nor among \<open>os\<close>, those in
  use: nobody will release them any more.
\<close>

definition pool_free :: "nat \<Rightarrow> bmem \<Rightarrow> nat set" where
  "pool_free pr m = {r. \<exists>p q. bm_pools m pr = Some p \<and> p_buffers p = Some q \<and> ITEM_DATA r \<in> set (q_items q)}"

definition stray :: "nat \<Rightarrow> nat set \<Rightarrow> bmem \<Rightarrow> nat set" where
  "stray pr os m = {r. r < bm_tick m \<and> map_option b_pool (bm_bufs m r) = Some (Some pr)} - pool_free pr m - os"

lemma pool_inv_owner:
  "pool_inv c n pr m fs os e \<Longrightarrow> r \<in> set fs \<union> set os \<Longrightarrow> \<exists>b. bm_bufs m r = Some b \<and> b_pool b = Some pr"
  by (auto simp: pool_inv_def clean_def owned_def)

lemma pool_free_eq: "pool_inv c n pr m fs os e \<Longrightarrow> pool_free pr m = set fs"
  by (auto simp: pool_inv_def pool_queue_def pool_free_def abs_queue_def)

lemma insert_hd_tl: "xs \<noteq> [] \<Longrightarrow> insert (hd xs) (set (tl xs)) = set xs"
  by (cases xs) simp_all

lemma stray_cong:
  assumes "bm_tick m' = bm_tick m" "bm_pools m' = bm_pools m"
    "\<And>r. map_option b_pool (bm_bufs m' r) = map_option b_pool (bm_bufs m r)"
  shows "stray pr os m' = stray pr os m"
  using assms by (simp add: stray_def pool_free_def)

lemma stray_put [simp]:
  assumes "bm_bufs m r = Some b" "b_pool b' = b_pool b"
  shows "stray pr os (m\<lparr>bm_bufs := (bm_bufs m)(r \<mapsto> b')\<rparr>) = stray pr os m"
  by (rule stray_cong) (use assms in auto)

lemma AllocateBuffer_stray:
  assumes inv: "pool_inv (16, n) n pr m fs os e" and n: "0 \<le> n" "n \<le> INT_MAX - 2"
    and a: "AllocateBuffer both_ok all_ok True pr m = Inr (Some c, m')"
  shows "stray pr (insert c os') m' = stray pr os' m"
proof -
  note fr = frameD(1) [OF AllocateBuffer_frame [OF a]]
  show ?thesis
  proof (cases "e \<or> fs = []")
    case True
    let ?nf = "fs @ [bm_tick m..<bm_tick m + 16]"
    have b: "c = hd ?nf" "bm_tick m' = bm_tick m + 16" "pool_inv (16, n) n pr m' (tl ?nf) (hd ?nf # os) (tl ?nf = [])"
      using AllocateBuffer_batch [OF inv True n] a by (auto elim!: returnsE)
    have "insert c (pool_free pr m') = set ?nf" using pool_free_eq [OF b(3)] b(1) insert_hd_tl [of ?nf] by simp
    then have "insert c (pool_free pr m') = set fs \<union> {bm_tick m..<bm_tick m + 16}" by simp
    then show ?thesis using fr pool_free_eq [OF inv] b(2) by (auto simp: stray_def)
  next
    case False
    then have inv': "pool_inv (16, n) n pr m fs os False" "fs \<noteq> []" using inv by auto
    have b: "c = hd fs" "bm_tick m' = bm_tick m" "pool_inv (16, n) n pr m' (tl fs) (hd fs # os) (tl fs = [])"
      using AllocateBuffer_free [OF inv', of both_ok all_ok] a by (auto elim!: returnsE)
    have "insert c (pool_free pr m') = set fs" using pool_free_eq [OF b(3)] b(1) insert_hd_tl [OF inv'(2)] by simp
    then show ?thesis using fr pool_free_eq [OF inv] b(2) by (auto simp: stray_def)
  qed
qed

lemma ReleaseBuffer_stray:
  assumes inv: "pool_inv c n pr m fs os e" and r: "r \<in> set os" and inv': "pool_inv c n pr m' (fs @ [r]) os' e'"
    and a: "ReleaseBuffer okq (Some r) m = Inr (p, m')"
  shows "stray pr os'' m' = stray pr (insert r os'') m"
proof -
  obtain b where b: "bm_bufs m r = Some b" "b_pool b = Some pr" using pool_inv_owner [OF inv, of r] r by auto
  note fr = ReleaseBuffer_frame [OF a b]
  show ?thesis
    using frameD(1) [OF fr(1)] fr(2) pool_free_eq [OF inv] pool_free_eq [OF inv'] by (auto simp: stray_def)
qed

section \<open>The handler of incoming data\<close>

text \<open>With memory available.\<close>

definition calm_env :: "penv \<Rightarrow> bool" where
  "calm_env env \<longleftrightarrow> pe_okq env = all_ok \<and> pe_okb env = both_ok \<and> pe_item env \<and> ne_addr (pe_name env)"

lemma calm_envD [simp]: "calm_env env \<Longrightarrow> pe_okq env = all_ok" "calm_env env \<Longrightarrow> pe_okb env = both_ok"
  "calm_env env \<Longrightarrow> pe_item env" "calm_env env \<Longrightarrow> ne_addr (pe_name env)"
  by (simp_all add: calm_env_def)

text \<open>A buffer that holds nothing and has room for \<open>n\<close> bytes.\<close>

definition fresh_buf :: "int \<Rightarrow> buffer \<Rightarrow> bool" where
  "fresh_buf n b \<longleftrightarrow> buf_inv b \<and> b_size b = n \<and> b_position b = 0 \<and> b_limit b = n"

lemma pool_inv_other:
  assumes "pool_inv c n pr m fs os e" "\<And>b. bm_bufs m r = Some b \<Longrightarrow> b_pool b \<noteq> Some pr"
  shows "pool_inv c n pr (m\<lparr>bm_bufs := (bm_bufs m)(r \<mapsto> x)\<rparr>) fs os e"
proof -
  have "r \<notin> set fs \<union> set os" using assms by (auto simp: pool_inv_def clean_def owned_def)
  then have "\<forall>y \<in> set fs \<union> set os. ((bm_bufs m)(r \<mapsto> x)) y = bm_bufs m y" by auto
  with assms(1) show ?thesis by (simp add: pool_inv_def pool_queue_def)
qed

lemma pool_inv_perm:
  "pool_inv c n pr m fs os e \<Longrightarrow> distinct os' \<Longrightarrow> set os' = set os \<Longrightarrow> pool_inv c n pr m fs os' e"
  by (simp add: pool_inv_def)

text \<open>The copy of a full buffer: what a handler of the copy can read is what had been received.\<close>

lemma flip_copy:
  assumes b: "buf_inv b" and d: "clean n pr d" and n: "b_size b = n"
  shows "returns (BufferCopy d (BufferFlip b)) (\<lambda>d'. owned n pr d' \<and> unread d' = take (nat (b_position b)) (b_data b))"
proof -
  note bi = buf_invD [OF b]
  have di: "buf_inv d" "b_size d = n" "b_pool d = Some pr" using d by (simp_all add: clean_def)
  have fit: "b_limit (BufferFlip b) - b_position (BufferFlip b) \<le> b_size d"
    using bi di n by (simp add: BufferFlip_def)
  have p: "BufferCopy d (BufferFlip b) = Inr d' \<Longrightarrow> b_pool d' = Some pr" for d'
    using di(3) by (auto simp: BufferCopy_def BufferReset_def BufferLimit_def bnd_eq_Inr)
  from BufferCopy_seq [OF di(1) BufferFlip_inv [OF b] fit] show ?thesis
    using p di(2) by (auto simp: owned_def unread_def BufferFlip_def elim!: returnsE)
qed

lemma reset_fresh:
  assumes "buf_inv b" "b_size b = n"
  shows "returns (BufferReset b) (\<lambda>b'. fresh_buf n b' \<and> b_pool b' = b_pool b)"
  by (rule returns_mono [OF BufferReset_seq [OF assms(1)]]) (use assms(2) in \<open>simp add: fresh_buf_def\<close>)

text \<open>
  \<open>handed k k' wk q bs pr n os\<close>: the bytes \<open>bs\<close> of the connection in focus have been queued for the
  worker, in a buffer of its pool; the connection's read buffer is empty again.
\<close>

definition handed_over :: "nat \<Rightarrow> int \<Rightarrow> nat \<Rightarrow> byte list \<Rightarrow> nat list \<Rightarrow> nat queue \<Rightarrow> 'x pipe core \<Rightarrow> 'x pipe core \<Rightarrow> bool" where
  "handed_over pr n r bs os q k k' \<longleftrightarrow>
     (\<exists>c cb q' fs e b'. k_conn k' = k_conn k \<and> k_addrs k' = k_addrs k \<and> k_raised k' = k_raised k \<and> k_net k' = k_net k \<and>
        k_user k' = (k_user k)\<lparr>pp_worker := map_option (\<lambda>wk. wk\<lparr>wk_queue := Some q'\<rparr>) (pp_worker (k_user k))\<rparr> \<and>
        q_inv q' \<and> \<not> q_exit q' \<and> q_emptied q' = q_emptied q \<and>
        q_items q' = q_items q @ [ITEM_TASK READ_EVENT (pp_self (k_user k)) c] \<and>
        pool_inv (16, n) n pr (k_mem k') fs (os @ [c]) e \<and> bm_bufs (k_mem k') c = Some cb \<and> unread cb = bs \<and>
        bm_bufs (k_mem k') r = Some b' \<and> fresh_buf n b' \<and>
        (\<exists>b. bm_bufs (k_mem k) r = Some b \<and> b_pool b' = b_pool b) \<and> foreign pr {r} (k_mem k) (k_mem k') \<and>
        (\<forall>x \<in> set os. bm_bufs (k_mem k') x = bm_bufs (k_mem k) x) \<and>
        stray pr (insert c (set os)) (k_mem k') = stray pr (set os) (k_mem k))"

lemma handed_overE:
  assumes "handed_over pr n r bs os q k k'"
  obtains c cb q' fs e b' b where "k_conn k' = k_conn k" "k_addrs k' = k_addrs k"
    "k_user k' = (k_user k)\<lparr>pp_worker := map_option (\<lambda>wk. wk\<lparr>wk_queue := Some q'\<rparr>) (pp_worker (k_user k))\<rparr>"
    "q_inv q'" "\<not> q_exit q'" "q_emptied q' = q_emptied q"
    "q_items q' = q_items q @ [ITEM_TASK READ_EVENT (pp_self (k_user k)) c]"
    "pool_inv (16, n) n pr (k_mem k') fs (os @ [c]) e" "bm_bufs (k_mem k') c = Some cb" "unread cb = bs"
    "bm_bufs (k_mem k') r = Some b'" "fresh_buf n b'" "bm_bufs (k_mem k) r = Some b" "b_pool b' = b_pool b"
    "foreign pr {r} (k_mem k) (k_mem k')" "\<forall>x \<in> set os. bm_bufs (k_mem k') x = bm_bufs (k_mem k) x"
    "stray pr (insert c (set os)) (k_mem k') = stray pr (set os) (k_mem k)"
  using assms unfolding handed_over_def by (elim exE conjE) (rule that)

lemma read_handler_hands_over:
  assumes env: "calm_env env" and n: "0 \<le> n" "n \<le> INT_MAX - 2"
    and st: "cn_state (k_conn k) \<noteq> STATE_CLOSED" and r: "cn_readBuffer (k_conn k) = Some r" "r < bm_tick (k_mem k)"
    and b: "bm_bufs (k_mem k) r = Some b" "buf_inv b" "b_size b = n" "b_pool b \<noteq> Some pr"
    and wk: "pp_worker (k_user k) = Some wk" "wk_pool wk = Some pr" "wk_queue wk = Some q"
    and q: "q_inv q" "\<not> q_exit q" and pool: "pool_inv (16, n) n pr (k_mem k) fs os e"
  shows "returns (WorkerReadHandler_run env INBOUND_DATA_EVENT k)
    (handed_over pr n r (take (nat (b_position b)) (b_data b)) os q k)"
proof -
  obtain c m1 fs1 e1 d where a: "AllocateBuffer both_ok all_ok True pr (k_mem k) = Inr (Some c, m1)"
    "pool_inv (16, n) n pr m1 fs1 (c # os) e1" "bm_bufs m1 c = Some d" "clean n pr d" "c \<notin> set os"
    using AllocateBuffer_seq [OF pool n] by (auto simp: handed_out_def elim!: returnsE)
  note fr = AllocateBuffer_frame [OF a(1)]
  have b1: "bm_bufs m1 r = Some b" using frameD(1) [OF fr, of r] r(2) b(1) by simp
  have cr: "c \<noteq> r" using a(3,4) b1 b(4) by (auto simp: clean_def)
  obtain d3 where d3: "BufferCopy d (BufferFlip b) = Inr d3" "owned n pr d3" "unread d3 = take (nat (b_position b)) (b_data b)"
    using flip_copy [OF b(2) a(4) b(3)] by (auto elim!: returnsE)
  have "buf_inv (BufferFlip b)" "b_size (BufferFlip b) = n" "b_pool (BufferFlip b) = b_pool b"
    using BufferFlip_inv [OF b(2)] b(3) by (simp_all add: BufferFlip_def)
  then obtain b4 where b4: "BufferReset (BufferFlip b) = Inr b4" "fresh_buf n b4" "b_pool b4 = b_pool b"
    using reset_fresh [of "BufferFlip b" n] by (auto elim!: returnsE)
  obtain q' where q': "Enqueue all_ok q (ITEM_TASK READ_EVENT (pp_self (k_user k)) c) = Inr (True, q')" "q_inv q'"
    "q_items q' = q_items q @ [ITEM_TASK READ_EVENT (pp_self (k_user k)) c]" "\<not> q_exit q'" "q_emptied q' = q_emptied q"
    using lq.enq_open [OF q, of "ITEM_TASK READ_EVENT (pp_self (k_user k)) c"] by (auto simp: q_enq_def is_exit_def elim!: returnsE)
  let ?m2 = "m1\<lparr>bm_bufs := (bm_bufs m1)(r \<mapsto> BufferFlip b)\<rparr>"
  let ?m3 = "?m2\<lparr>bm_bufs := (bm_bufs ?m2)(c \<mapsto> d3)\<rparr>"
  let ?m4 = "?m3\<lparr>bm_bufs := (bm_bufs ?m3)(r \<mapsto> b4)\<rparr>"
  let ?k = "k\<lparr>k_mem := ?m4, k_user := (k_user k)\<lparr>pp_worker := Some (wk\<lparr>wk_queue := Some q'\<rparr>)\<rparr>\<rparr>"
  have run: "WorkerReadHandler_run env INBOUND_DATA_EVENT k = Inr ?k"
    using env st r(1) wk a(1,3) b1 cr d3(1) b4(1) q'(1)
    by (simp add: WorkerReadHandler_run_def Let_def get_buf_def put_buf_def Enqueue_ptr_def upd_pipe_def)
  have "pool_inv (16, n) n pr ?m2 fs1 (c # os) e1" by (rule pool_inv_other [OF a(2)]) (use b1 b(4) in simp)
  then have "pool_inv (16, n) n pr ?m3 fs1 (c # os) e1" by (rule pool_inv_use) (use d3(2) in simp_all)
  then have "pool_inv (16, n) n pr ?m4 fs1 (c # os) e1"
    by (rule pool_inv_other) (use b(4) cr in \<open>auto simp: BufferFlip_def\<close>)
  then have p: "pool_inv (16, n) n pr ?m4 fs1 (os @ [c]) e1"
    by (rule pool_inv_perm) (use a(2) in \<open>auto simp: pool_inv_def\<close>)
  have "foreign pr {r} (k_mem k) m1" using AllocateBuffer_frame [OF a(1)] by (auto simp: frame_def foreign_def)
  moreover have "foreign pr {r} m1 ?m2" by (rule foreign_put) simp
  moreover have "foreign pr {r} ?m2 ?m3" by (rule foreign_put) (use a(3,4) cr in \<open>simp add: clean_def\<close>)
  moreover have "foreign pr {r} ?m3 ?m4" by (rule foreign_put) simp
  ultimately have f: "foreign pr {r} (k_mem k) ?m4" by (blast intro: foreign_trans)
  have "x \<noteq> r \<and> x \<noteq> c \<and> bm_bufs m1 x = bm_bufs (k_mem k) x" if "x \<in> set os" for x
    using pool_inv_owner [OF pool, of x] that b(1,4) a(5) pool frameD(1) [OF fr, of x] by (auto simp: pool_inv_def)
  then have o: "\<forall>x \<in> set os. bm_bufs ?m4 x = bm_bufs (k_mem k) x" by simp
  have "stray pr (insert c (set os)) ?m4 = stray pr (set os) (k_mem k)"
  proof -
    have "map_option b_pool (bm_bufs ?m4 x) = map_option b_pool (bm_bufs m1 x)" for x
      using b1 a(3,4) d3(2) b4(3) cr by (simp add: clean_def owned_def)
    then have "stray pr (insert c (set os)) ?m4 = stray pr (insert c (set os)) m1" by (intro stray_cong) simp_all
    with AllocateBuffer_stray [OF pool n a(1), of "set os"] show ?thesis by simp
  qed
  note st4 = this
  have "handed_over pr n r (take (nat (b_position b)) (b_data b)) os q k ?k"
    unfolding handed_over_def
    by (rule exI [of _ c], rule exI [of _ d3], rule exI [of _ q'], rule exI [of _ fs1], rule exI [of _ e1], rule exI [of _ b4])
      (use q'(2-5) p f o st4 d3(3) b4(2,3) b(1) cr wk(1) in simp)
  then show ?thesis by (simp add: run)
qed

section \<open>The state of the flow\<close>

definition co_handlers :: "('f, 'd) cobj \<Rightarrow> event \<Rightarrow> ('f phandler, 'd) handler list" where
  "co_handlers co ev = handlers (the (co_sys co)) ev @ handlers (the (co_usr co)) ev"

definition co_queues :: "nat \<Rightarrow> ('f, 'd) cobj \<Rightarrow> bool" where
  "co_queues f co \<longleftrightarrow> (\<exists>qs qu. co_sys co = Some qs \<and> eq_inv qs \<and> co_usr co = Some qu \<and> eq_inv qu) \<and>
     (\<forall>ev. length (co_handlers co ev) < f)"

lemma focus_simps [simp]:
  "w_core (focus c co s) = \<lparr>k_conn = co_conn co, k_mem = ps_mem s, k_addrs = ps_addrs s, k_raised = ps_raised s,
     k_net = co_net co, k_user = (ps_pipe s)\<lparr>pp_self := c\<rparr>\<rparr>"
  "conn_handlers (focus c co s) = co_handlers co"
  "w_sys (focus c co s) = co_sys co" "w_usr (focus c co s) = co_usr co"
  by (simp_all add: focus_def conn_handlers_def co_handlers_def fun_eq_iff)

lemma focus_queues: "co_queues f co \<Longrightarrow> queues_ok (focus c co s)"
  by (auto simp: co_queues_def queues_ok_def)

text \<open>A buffer that is not one of the pool \<open>pr\<close>.\<close>

definition outside :: "nat \<Rightarrow> bmem \<Rightarrow> nat \<Rightarrow> buffer \<Rightarrow> bool" where
  "outside pr m r b \<longleftrightarrow> bm_bufs m r = Some b \<and> buf_inv b \<and> b_pool b \<noteq> Some pr \<and> r < bm_tick m"

definition calls :: "('f phandler, 'd) handler list \<Rightarrow> 'f phandler \<Rightarrow> bool" where
  "calls hs g \<longleftrightarrow> (\<exists>h. hs = [h] \<and> h_callback h = g \<and> \<not> h_once h)"

text \<open>
  A connection that the pipe manages and that may be read: its read buffer is empty, incoming data
  goes to the worker, read data to one handler of the user.
\<close>

definition flowing :: "penv \<Rightarrow> int \<Rightarrow> nat \<Rightarrow> bmem \<Rightarrow> ('f, 'd) cobj \<Rightarrow> bool" where
  "flowing env n pr m co \<longleftrightarrow> co_queues (pe_fuel env) co \<and>
     calls (co_handlers co INBOUND_DATA_EVENT) WorkerReadHandler \<and> (\<exists>g. calls (co_handlers co READ_EVENT) (UserHandler g)) \<and>
     cn_state (co_conn co) \<noteq> STATE_CLOSED \<and> cn_canRead (co_conn co) \<and>
     (\<exists>r b w bw. cn_readBuffer (co_conn co) = Some r \<and> outside pr m r b \<and> fresh_buf n b \<and>
        cn_writeBuffer (co_conn co) = Some w \<and> outside pr m w bw \<and> w \<noteq> r)"

definition own_bufs :: "('f, 'd) cobj \<Rightarrow> nat set" where
  "own_bufs co = set_option (cn_readBuffer (co_conn co)) \<union> set_option (cn_writeBuffer (co_conn co))"

fun task_view :: "bmem \<Rightarrow> nat qitem \<Rightarrow> nat \<times> byte list" where
  "task_view m (ITEM_TASK ev c b) = (c, unread (the (bm_bufs m b)))"
| "task_view m _ = (0, [])"

fun task_buf :: "nat qitem \<Rightarrow> nat" where
  "task_buf (ITEM_TASK ev c b) = b"
| "task_buf _ = 0"

definition is_task :: "nat set \<Rightarrow> nat qitem \<Rightarrow> bool" where
  "is_task cs it \<longleftrightarrow> (\<exists>c b. it = ITEM_TASK READ_EVENT c b \<and> c \<in> cs)"

text \<open>The worker's queue: tasks, each with a buffer of its pool that nobody else has.\<close>

definition flow_queue :: "int \<Rightarrow> nat \<Rightarrow> nat queue \<Rightarrow> ('f, 'd, 'x) psys \<Rightarrow> bool" where
  "flow_queue n pr q s \<longleftrightarrow> (\<exists>wk fs e. pp_worker (ps_pipe s) = Some wk \<and> wk_pool wk = Some pr \<and> wk_queue wk = Some q \<and>
     q_inv q \<and> \<not> q_exit q \<and> (\<forall>it \<in> set (q_items q). is_task (dom (ps_conns s)) it) \<and>
     pool_inv (16, n) n pr (ps_mem s) fs (map task_buf (q_items q)) e)"

definition flow_conns :: "penv \<Rightarrow> int \<Rightarrow> nat \<Rightarrow> ('f, 'd, 'x) psys \<Rightarrow> bool" where
  "flow_conns env n pr s \<longleftrightarrow> (\<forall>c co. ps_conns s c = Some co \<longrightarrow> flowing env n pr (ps_mem s) co) \<and>
     (\<forall>c c' co co'. ps_conns s c = Some co \<longrightarrow> ps_conns s c' = Some co' \<longrightarrow> c \<noteq> c' \<longrightarrow> own_bufs co \<inter> own_bufs co' = {})"

definition flow_inv :: "penv \<Rightarrow> int \<Rightarrow> nat \<Rightarrow> ('f, 'd, 'x) psys \<Rightarrow> bool" where
  "flow_inv env n pr s \<longleftrightarrow> (\<exists>q. flow_queue n pr q s) \<and> flow_conns env n pr s"

text \<open>The data on its way: for each task its connection and the bytes its handlers will read.\<close>

definition worker_queue :: "('f, 'd, 'x) psys \<Rightarrow> nat queue" where
  "worker_queue s = the (wk_queue (the (pp_worker (ps_pipe s))))"

text \<open>The buffers of the pool that are neither free nor with a task of the worker.\<close>

definition lost_buffers :: "nat \<Rightarrow> ('f, 'd, 'x) psys \<Rightarrow> nat set" where
  "lost_buffers pr s = stray pr (set (map task_buf (q_items (worker_queue s)))) (ps_mem s)"

definition in_transit :: "('f, 'd, 'x) psys \<Rightarrow> (nat \<times> byte list) list" where
  "in_transit s = map (task_view (ps_mem s)) (q_items (worker_queue s))"

lemma flow_queueD: "flow_queue n pr q s \<Longrightarrow> worker_queue s = q"
  by (auto simp: flow_queue_def worker_queue_def)

lemma outside_foreign:
  "outside pr m r b \<Longrightarrow> foreign pr rs m m' \<Longrightarrow> r \<notin> rs \<Longrightarrow> outside pr m' r b"
  by (auto simp: outside_def foreign_def)

lemma flowing_foreign:
  "flowing env n pr m co \<Longrightarrow> foreign pr rs m m' \<Longrightarrow> own_bufs co \<inter> rs = {} \<Longrightarrow> flowing env n pr m' co"
proof -
  assume f: "flowing env n pr m co" "foreign pr rs m m'" "own_bufs co \<inter> rs = {}"
  then obtain r b w bw where o: "cn_readBuffer (co_conn co) = Some r" "outside pr m r b" "fresh_buf n b"
    "cn_writeBuffer (co_conn co) = Some w" "outside pr m w bw" "w \<noteq> r" by (auto simp: flowing_def)
  moreover have "r \<notin> rs" "w \<notin> rs" using f(3) o(1,4) by (auto simp: own_bufs_def)
  ultimately have "outside pr m' r b" "outside pr m' w bw" using outside_foreign f(2) by blast+
  with f(1) o show ?thesis unfolding flowing_def by blast
qed

lemma call_single: "calls hs g \<Longrightarrow> \<exists>d. call_all cb ev hs k = cb g ev d k"
proof -
  have "bnd m (call_all cb ev []) = m" for m by (cases m) simp_all
  then show "calls hs g \<Longrightarrow> \<exists>d. call_all cb ev hs k = cb g ev d k" by (auto simp: calls_def)
qed

lemma fired_calls: "calls (H ev) g \<Longrightarrow> fired ev H = H"
  by (auto simp: calls_def fired_def fun_eq_iff)

section \<open>Reading\<close>

lemma put_buf_mem [simp]: "k_mem (put_buf r b k) = (k_mem k)\<lparr>bm_bufs := (bm_bufs (k_mem k))(r \<mapsto> b)\<rparr>"
  by (simp add: put_buf_def)

lemma ConnectionRead_hands_over:
  assumes env: "calm_env env" and n: "0 < n" "n \<le> INT_MAX - 2" and q: "flow_queue n pr q s"
    and co: "flowing env n pr (ps_mem s) co" and bs: "bs \<noteq> []"
    and r: "cn_readBuffer (co_conn co) = Some r" "bm_bufs (ps_mem s) r = Some b"
  shows "returns (ConnectionRead (core_cb (pipe_cb env ucb)) (pe_fuel env) (pe_name env) (\<lambda>m. Some (take (nat m) bs)) (focus c co s))
    (\<lambda>w. handed_over pr n r (take (nat n) bs) (map task_buf (q_items q)) q
           (put_buf r (received (take (nat n) bs) b) (w_core (focus c co s))) (w_core w) \<and>
         queues_ok w \<and> conn_handlers w = co_handlers co)"
proof -
  let ?bs = "take (nat n) bs" and ?w = "focus c co s"
  let ?k = "put_buf r (received ?bs b) (w_core ?w)"
  from co r have o: "outside pr (ps_mem s) r b" "fresh_buf n b" by (auto simp: flowing_def outside_def)
  then have b: "buf_inv b" "b_size b = n" "b_position b = 0" "b_limit b = n" "b_pool b \<noteq> Some pr" "r < bm_tick (ps_mem s)"
    by (simp_all add: fresh_buf_def outside_def)
  have len: "int (length ?bs) \<le> b_limit b - b_position b" and ne: "?bs \<noteq> []" using b n bs by auto
  note rc = received_inv [OF b(1) len]
  obtain wk fs e where wk: "pp_worker (ps_pipe s) = Some wk" "wk_pool wk = Some pr" "wk_queue wk = Some q" "q_inv q" "\<not> q_exit q"
    "pool_inv (16, n) n pr (ps_mem s) fs (map task_buf (q_items q)) e" using q by (auto simp: flow_queue_def)
  have eq: "ConnectionRead (core_cb (pipe_cb env ucb)) (pe_fuel env) (pe_name env) (\<lambda>m. Some (take (nat m) bs)) ?w =
      ConnectionEventHandle (core_cb (pipe_cb env ucb)) (pe_fuel env) INBOUND_DATA_EVENT (upd_core (put_buf r (received ?bs b)) ?w)"
    using ConnectionRead_eq [where rv = "\<lambda>m. Some (take (nat m) bs)" and bs = ?bs and w = ?w and r = r and b = b
        and cb = "core_cb (pipe_cb env ucb)" and f = "pe_fuel env" and env = "pe_name env"] r b n len ne co
    by (simp add: Let_def flowing_def)
  have cq: "co_queues (pe_fuel env) co" and h: "calls (co_handlers co INBOUND_DATA_EVENT) WorkerReadHandler"
    using co by (auto simp: flowing_def)
  obtain d where d: "call_all (pipe_cb env ucb) INBOUND_DATA_EVENT (co_handlers co INBOUND_DATA_EVENT) ?k =
      WorkerReadHandler_run env INBOUND_DATA_EVENT ?k" using call_single [OF h, of "pipe_cb env ucb"] by auto
  have p: "pool_inv (16, n) n pr (k_mem ?k) fs (map task_buf (q_items q)) e"
    using pool_inv_other [OF wk(6), of r "received ?bs b"] r(2) b(5) by simp
  have rb: "b_size (received ?bs b) = n" "b_pool (received ?bs b) = b_pool b" "b_position (received ?bs b) = int (length ?bs)"
    "take (length ?bs) (b_data (received ?bs b)) = ?bs"
    using b by (simp_all add: received_def min_def)
  have "returns (WorkerReadHandler_run env INBOUND_DATA_EVENT ?k)
      (handed_over pr n r (take (nat (b_position (received ?bs b))) (b_data (received ?bs b))) (map task_buf (q_items q)) q ?k)"
    by (rule read_handler_hands_over [OF env _ n(2), where wk = wk and e = e and fs = fs])
      (use n co r b rc(1) rb wk p in \<open>auto simp: flowing_def\<close>)
  then have run: "returns (WorkerReadHandler_run env INBOUND_DATA_EVENT ?k)
      (handed_over pr n r ?bs (map task_buf (q_items q)) q ?k)" using rb by simp
  have ev: "refines (ConnectionEventHandle (core_cb (pipe_cb env ucb)) (pe_fuel env) INBOUND_DATA_EVENT (upd_core (put_buf r (received ?bs b)) ?w))
      (WorkerReadHandler_run env INBOUND_DATA_EVENT ?k)
      (\<lambda>k w'. w_core w' = k \<and> queues_ok w' \<and> conn_handlers w' = fired INBOUND_DATA_EVENT (co_handlers co))"
    using ConnectionEventHandle_all [of "upd_core (put_buf r (received ?bs b)) ?w" INBOUND_DATA_EVENT "pe_fuel env" "pipe_cb env ucb"]
      focus_queues [OF cq, of c s] cq d by (simp add: co_queues_def)
  show ?thesis unfolding eq
    using ev run fired_calls [where H = "co_handlers co", OF h] by (auto elim!: returnsE)
qed

lemma own_bufsD: "ps_conns s c = Some co \<Longrightarrow> flow_conns env n pr s \<Longrightarrow> cn_readBuffer (co_conn co) = Some r \<Longrightarrow>
   ps_conns s c' = Some co' \<Longrightarrow> c' \<noteq> c \<Longrightarrow> own_bufs co' \<inter> {r} = {}"
  by (fastforce simp: flow_conns_def own_bufs_def)

lemma flow_read_step:
  assumes env: "calm_env env" and n: "0 < n" "n \<le> INT_MAX - 2" and inv: "flow_inv env n pr s"
    and c: "ps_conns s c = Some co" and bs: "bs \<noteq> []"
  shows "returns (do_conn c (ConnectionRead (core_cb (pipe_cb env ucb)) (pe_fuel env) (pe_name env) (\<lambda>m. Some (take (nat m) bs))) s)
    (\<lambda>s'. flow_inv env n pr s' \<and> in_transit s' = in_transit s @ [(c, take (nat n) bs)] \<and>
       pp_ext (ps_pipe s') = pp_ext (ps_pipe s) \<and> dom (ps_conns s') = dom (ps_conns s) \<and>
       q_emptied (worker_queue s') = q_emptied (worker_queue s) \<and> lost_buffers pr s' = lost_buffers pr s)"
proof -
  from inv obtain q where q: "flow_queue n pr q s" and fc: "flow_conns env n pr s" by (auto simp: flow_inv_def)
  have fl: "flowing env n pr (ps_mem s) co" using fc c by (simp add: flow_conns_def)
  then obtain r b wr bw where r: "cn_readBuffer (co_conn co) = Some r" "outside pr (ps_mem s) r b" "fresh_buf n b"
    "cn_writeBuffer (co_conn co) = Some wr" "outside pr (ps_mem s) wr bw" "wr \<noteq> r" by (auto simp: flowing_def)
  have rb: "bm_bufs (ps_mem s) r = Some b" "r < bm_tick (ps_mem s)" using r(2) by (simp_all add: outside_def)
  let ?bs = "take (nat n) bs" and ?w = "focus c co s"
  let ?k = "put_buf r (received ?bs b) (w_core ?w)" and ?os = "map task_buf (q_items q)"
  note rd = ConnectionRead_hands_over [OF env n q fl bs r(1) rb(1), of ucb c]
  have step: "flow_inv env n pr (unfocus c (co_readKey co) w s) \<and>
      in_transit (unfocus c (co_readKey co) w s) = in_transit s @ [(c, ?bs)] \<and>
      pp_ext (ps_pipe (unfocus c (co_readKey co) w s)) = pp_ext (ps_pipe s) \<and>
      dom (ps_conns (unfocus c (co_readKey co) w s)) = dom (ps_conns s) \<and>
      q_emptied (worker_queue (unfocus c (co_readKey co) w s)) = q_emptied (worker_queue s) \<and>
      lost_buffers pr (unfocus c (co_readKey co) w s) = lost_buffers pr s"
    if w: "handed_over pr n r ?bs ?os q ?k (w_core w)" "queues_ok w" "conn_handlers w = co_handlers co" for w
  proof -
    let ?s = "unfocus c (co_readKey co) w s" and ?m = "k_mem (w_core w)"
    obtain x cb q' fs e b' b1 where h: "k_conn (w_core w) = k_conn ?k" "k_addrs (w_core w) = k_addrs ?k"
      "k_user (w_core w) = (k_user ?k)\<lparr>pp_worker := map_option (\<lambda>wk. wk\<lparr>wk_queue := Some q'\<rparr>) (pp_worker (k_user ?k))\<rparr>"
      "q_inv q'" "\<not> q_exit q'" "q_emptied q' = q_emptied q"
      "q_items q' = q_items q @ [ITEM_TASK READ_EVENT (pp_self (k_user ?k)) x]"
      "pool_inv (16, n) n pr ?m fs (?os @ [x]) e" "bm_bufs ?m x = Some cb" "unread cb = ?bs"
      "bm_bufs ?m r = Some b'" "fresh_buf n b'" "bm_bufs (k_mem ?k) r = Some b1" "b_pool b' = b_pool b1"
      "foreign pr {r} (k_mem ?k) ?m" "\<forall>y \<in> set ?os. bm_bufs ?m y = bm_bufs (k_mem ?k) y"
      "stray pr (insert x (set ?os)) ?m = stray pr (set ?os) (k_mem ?k)"
      by (rule handed_overE [OF w(1)])
    have bp: "b_pool b' = b_pool b" using h(13,14) by (auto simp: received_def)
    have "foreign pr {r} (ps_mem s) (k_mem ?k)" by simp (rule foreign_put, simp)
    then have f: "foreign pr {r} (ps_mem s) ?m" using h(15) by (rule foreign_trans)
    obtain wk fs0 e0 where wk: "pp_worker (ps_pipe s) = Some wk" "wk_pool wk = Some pr" "wk_queue wk = Some q"
      "\<forall>it \<in> set (q_items q). is_task (dom (ps_conns s)) it" "pool_inv (16, n) n pr (ps_mem s) fs0 ?os e0"
      using q unfolding flow_queue_def by blast
    let ?co = "\<lparr>co_sys = w_sys w, co_usr = w_usr w, co_conn = co_conn co, co_net = k_net (w_core w), co_readKey = co_readKey co\<rparr>"
    have s': "ps_conns ?s = (ps_conns s)(c \<mapsto> ?co)" "ps_mem ?s = ?m"
      "ps_pipe ?s = (ps_pipe s)\<lparr>pp_self := c, pp_worker := Some (wk\<lparr>wk_queue := Some q'\<rparr>)\<rparr>"
      using h(1,3) wk(1) by (simp_all add: unfocus_def Let_def)
    have d: "dom (ps_conns ?s) = dom (ps_conns s)" using c by (auto simp: s'(1))
    have it: "q_items q' = q_items q @ [ITEM_TASK READ_EVENT c x]" using h(7) by simp
    have "is_task (dom (ps_conns ?s)) (ITEM_TASK READ_EVENT c x)" using c by (auto simp: is_task_def d)
    then have fq: "flow_queue n pr q' ?s"
      using wk(2,4) h(4,5,8) unfolding flow_queue_def d s'(2,3) it by auto
    have "co_queues (pe_fuel env) ?co" "co_handlers ?co = co_handlers co"
      using w(2,3) fl by (auto simp: co_queues_def queues_ok_def co_handlers_def conn_handlers_def flowing_def fun_eq_iff)
    moreover have "outside pr ?m r b'" using h(11,12) bp r(2) rb(2) f by (simp add: outside_def fresh_buf_def foreign_def)
    moreover have "outside pr ?m wr bw" by (rule outside_foreign [OF r(5) f]) (use r(6) in simp)
    ultimately have nc: "flowing env n pr ?m ?co"
      using fl r h(12) unfolding flowing_def by auto
    have oc: "own_bufs ?co = own_bufs co" by (simp add: own_bufs_def)
    have "flowing env n pr ?m co'" if "ps_conns s c' = Some co'" "c' \<noteq> c" for c' co'
      using flowing_foreign [OF _ f own_bufsD [OF c fc r(1) that]] fc that(1) by (simp add: flow_conns_def)
    then have "flow_conns env n pr ?s"
      using fc nc oc c unfolding flow_conns_def s' by auto
    moreover have "in_transit ?s = in_transit s @ [(c, ?bs)]"
    proof -
      have "task_view ?m it = task_view (ps_mem s) it" if i: "it \<in> set (q_items q)" for it
      proof -
        obtain c' y where it: "it = ITEM_TASK READ_EVENT c' y" using wk(4) i by (auto simp: is_task_def)
        have y: "y \<in> set ?os" using i it by force
        then have "y \<noteq> r" using pool_inv_owner [OF wk(5), of y] r(2) by (auto simp: outside_def)
        with h(16) [THEN bspec, OF y] it show ?thesis by simp
      qed
      then show ?thesis using flow_queueD [OF fq] flow_queueD [OF q] it h(9,10) by (simp add: in_transit_def s'(2))
    qed
    moreover have "lost_buffers pr ?s = lost_buffers pr s"
    proof -
      have "stray pr (set ?os) (k_mem ?k) = stray pr (set ?os) (ps_mem s)"
        using rb(1) by simp (rule stray_put, simp_all add: received_def)
      then show ?thesis using h(17) s'(2) it flow_queueD [OF fq] flow_queueD [OF q] by (simp add: lost_buffers_def)
    qed
    ultimately show ?thesis
      using fq d s'(3) h(6) flow_queueD [OF fq] flow_queueD [OF q] unfolding flow_inv_def by auto
  qed
  obtain w where w: "ConnectionRead (core_cb (pipe_cb env ucb)) (pe_fuel env) (pe_name env) (\<lambda>m. Some (take (nat m) bs)) ?w = Inr w"
    "handed_over pr n r ?bs ?os q ?k (w_core w)" "queues_ok w" "conn_handlers w = co_handlers co"
    using rd by (elim returnsE conjE)
  from step [OF w(2-4)] w(1) show ?thesis by (simp add: do_conn_def with_conn_def c)
qed

end
