(* ===== verification/PipeFlow.thy ===== *)
theory PipeFlow
  imports PipeRead
begin

text \<open>
  The second half of the way of the data through a pipe (\<open>src/worker.c\<close>): the worker hands the tasks
  to the handlers of their connections; and the whole way.
\<close>

section \<open>A task of the worker\<close>

text \<open>The buffer keeps its pool and its size; a user has written to it or read from it.\<close>

definition reshaped :: "nat option \<Rightarrow> bmem \<Rightarrow> bmem \<Rightarrow> bool" where
  "reshaped p m m' \<longleftrightarrow> (\<forall>r b. p = Some r \<longrightarrow> bm_bufs m r = Some b \<longrightarrow>
     (\<exists>b'. bm_bufs m' r = Some b' \<and> buf_inv b' \<and> b_size b' = b_size b \<and> b_pool b' = b_pool b))"

text \<open>
  What a handler of \<open>READ_EVENT\<close> may do: read the data buffer and move in it, fill the write buffer,
  work on its own state and call for the writer. \<open>fst (pp_ext _)\<close> is a log of what could be read.
\<close>

definition read_by :: "buffer \<Rightarrow> ((nat \<times> byte list) list \<times> 'x) pipe core \<Rightarrow> ((nat \<times> byte list) list \<times> 'x) pipe core \<Rightarrow> bool" where
  "read_by bf k k' \<longleftrightarrow> k_conn k' = k_conn k \<and>
     fst (pp_ext (k_user k')) = fst (pp_ext (k_user k)) @ [(pp_self (k_user k), unread bf)] \<and>
     pp_reader (k_user k') = pp_reader (k_user k) \<and> pp_worker (k_user k') = pp_worker (k_user k) \<and>
     bm_pools (k_mem k') = bm_pools (k_mem k) \<and> bm_tick (k_mem k') = bm_tick (k_mem k) \<and>
     (\<forall>r. Some r \<noteq> cn_dataBuffer (k_conn k) \<longrightarrow> Some r \<noteq> cn_writeBuffer (k_conn k) \<longrightarrow>
        bm_bufs (k_mem k') r = bm_bufs (k_mem k) r) \<and>
     reshaped (cn_dataBuffer (k_conn k)) (k_mem k) (k_mem k') \<and> reshaped (cn_writeBuffer (k_conn k)) (k_mem k) (k_mem k')"

definition observer :: "('f, 'd, (nat \<times> byte list) list \<times> 'x) ucallbacks \<Rightarrow> bool" where
  "observer ucb \<longleftrightarrow> (\<forall>g d k b bf w bw. cn_dataBuffer (k_conn k) = Some b \<longrightarrow> bm_bufs (k_mem k) b = Some bf \<longrightarrow> buf_inv bf \<longrightarrow>
     cn_writeBuffer (k_conn k) = Some w \<longrightarrow> bm_bufs (k_mem k) w = Some bw \<longrightarrow> buf_inv bw \<longrightarrow> w \<noteq> b \<longrightarrow>
     returns (ucb g READ_EVENT d k) (read_by bf k))"

abbreviation delivered :: "('f, 'd, (nat \<times> byte list) list \<times> 'x) psys \<Rightarrow> (nat \<times> byte list) list" where
  "delivered s \<equiv> fst (pp_ext (ps_pipe s))"

lemma pool_inv_reshape:
  assumes inv: "pool_inv c n pr m fs (b # os) e" and m': "bm_pools m' = bm_pools m" "bm_tick m' = bm_tick m"
    and same: "\<forall>r \<in> set fs \<union> set os. bm_bufs m' r = bm_bufs m r" and b: "reshaped (Some b) m m'"
  shows "pool_inv c n pr m' fs (b # os) e"
proof -
  obtain bf where bf: "bm_bufs m b = Some bf" "owned n pr bf" using inv by (auto simp: pool_inv_def)
  then obtain bf' where "bm_bufs m' b = Some bf'" "owned n pr bf'" using b by (auto simp: reshaped_def owned_def)
  with inv m' same show ?thesis by (simp add: pool_inv_def pool_queue_def)
qed

lemma foreign_reshaped:
  assumes inv: "pool_inv c n pr m fs (b # os) e" and m': "bm_pools m' = bm_pools m" "bm_tick m' = bm_tick m"
    and same: "\<forall>r. r \<noteq> b \<longrightarrow> r \<noteq> w \<longrightarrow> bm_bufs m' r = bm_bufs m r"
  shows "foreign pr {w} m m'"
proof -
  obtain bf where "bm_bufs m b = Some bf" "b_pool bf = Some pr" using pool_inv_owner [OF inv, of b] by auto
  then show ?thesis by (rule foreignI) (use m' same in simp_all)
qed

lemma release_foreign:
  assumes "ReleaseBuffer okq (Some b) m = Inr (p, m')" "bm_bufs m b = Some bf" "b_pool bf = Some pr"
  shows "foreign pr rs m m'" "\<And>x. x \<noteq> b \<Longrightarrow> x < bm_tick m \<Longrightarrow> bm_bufs m' x = bm_bufs m x"
proof -
  note f = ReleaseBuffer_frame [OF assms]
  then show "bm_bufs m' x = bm_bufs m x" if "x \<noteq> b" "x < bm_tick m" for x using that by (simp add: frame_def)
  then show "foreign pr rs m m'" using f by (intro foreignI [OF assms(2,3)]) (simp_all add: frame_def)
qed

text \<open>A connection with the same queues whose write buffer alone has changed.\<close>

lemma flowing_written:
  assumes fl: "flowing env n pr m co" and w: "cn_writeBuffer (co_conn co) = Some w" "foreign pr {w} m m'" "reshaped (Some w) m m'"
    and co': "co_queues (pe_fuel env) co'" "co_handlers co' = co_handlers co" "co_conn co' = (co_conn co)\<lparr>cn_dataBuffer := None\<rparr>"
  shows "flowing env n pr m' co'"
proof -
  obtain r b bw where o: "cn_readBuffer (co_conn co) = Some r" "outside pr m r b" "fresh_buf n b"
    "outside pr m w bw" "w \<noteq> r" using fl w(1) by (auto simp: flowing_def)
  have "outside pr m' r b" by (rule outside_foreign [OF o(2) w(2)]) (use o(5) in simp)
  moreover obtain bw' where "bm_bufs m' w = Some bw'" "buf_inv bw'" "b_pool bw' = b_pool bw"
    using w(3) o(4) by (auto simp: reshaped_def outside_def)
  then have "outside pr m' w bw'" using o(4) w(2) by (simp add: outside_def foreign_def)
  ultimately show ?thesis using fl o w(1) co' unfolding flowing_def by auto
qed

text \<open>The handlers of a task, called on the connection with its data buffer.\<close>

lemma ProcessData_observed:
  assumes ucb: "observer ucb" and fl: "flowing env n pr (ps_mem s) co"
    and b: "bm_bufs (ps_mem s) b = Some bf" "owned n pr bf"
  shows "returns (ConnectionProcessData (core_cb (pipe_cb env ucb)) (pe_fuel env)
      (upd_core (upd_conn (\<lambda>cn. cn\<lparr>cn_dataBuffer := Some b\<rparr>)) (focus c co s)))
    (\<lambda>w. read_by bf (upd_conn (\<lambda>cn. cn\<lparr>cn_dataBuffer := Some b\<rparr>) (w_core (focus c co s))) (w_core w) \<and>
       queues_ok w \<and> conn_handlers w = co_handlers co)"
proof -
  let ?w = "upd_core (upd_conn (\<lambda>cn. cn\<lparr>cn_dataBuffer := Some b\<rparr>)) (focus c co s)"
  obtain g r rb w bw where g: "calls (co_handlers co READ_EVENT) (UserHandler g)" "co_queues (pe_fuel env) co"
    "cn_writeBuffer (co_conn co) = Some w" "outside pr (ps_mem s) w bw"
    using fl by (auto simp: flowing_def)
  obtain d where d: "call_all (pipe_cb env ucb) READ_EVENT (co_handlers co READ_EVENT) (w_core ?w) = ucb g READ_EVENT d (w_core ?w)"
    using call_single [OF g(1), of "pipe_cb env ucb"] by auto
  have "w \<noteq> b" using g(4) b by (auto simp: outside_def owned_def)
  then have run: "returns (ucb g READ_EVENT d (w_core ?w)) (read_by bf (w_core ?w))"
    using ucb [unfolded observer_def, rule_format, of "w_core ?w" b bf w bw] g(3,4) b
    by (simp add: outside_def owned_def)
  have ev: "refines (ConnectionEventHandle (core_cb (pipe_cb env ucb)) (pe_fuel env) READ_EVENT ?w) (ucb g READ_EVENT d (w_core ?w))
      (\<lambda>k w'. w_core w' = k \<and> queues_ok w' \<and> conn_handlers w' = fired READ_EVENT (co_handlers co))"
    using ConnectionEventHandle_all [of ?w READ_EVENT "pe_fuel env" "pipe_cb env ucb"]
      focus_queues [OF g(2), of c s] g(2) d by (simp add: co_queues_def)
  show ?thesis unfolding ConnectionProcessData_def
    using ev run fired_calls [where H = "co_handlers co", OF g(1)] by (auto elim!: returnsE)
qed

definition task_done :: "penv \<Rightarrow> int \<Rightarrow> nat \<Rightarrow> nat \<Rightarrow> nat list \<Rightarrow> nat \<times> byte list \<Rightarrow> ('f, 'd, (nat \<times> byte list) list \<times> 'x) psys \<Rightarrow>
    ('f, 'd, (nat \<times> byte list) list \<times> 'x) psys \<Rightarrow> bool" where
  "task_done env n pr b os msg s s' \<longleftrightarrow> flow_conns env n pr s' \<and> dom (ps_conns s') = dom (ps_conns s) \<and>
     delivered s' = delivered s @ [msg] \<and> pp_worker (ps_pipe s') = pp_worker (ps_pipe s) \<and>
     (\<exists>fs e. pool_inv (16, n) n pr (ps_mem s') fs os e) \<and> (\<forall>x \<in> set os. bm_bufs (ps_mem s') x = bm_bufs (ps_mem s) x) \<and>
     stray pr (set os) (ps_mem s') = stray pr (insert b (set os)) (ps_mem s)"

lemma worker_task_done:
  assumes env: "calm_env env" and ucb: "observer ucb" and fc: "flow_conns env n pr s" and c: "ps_conns s c = Some co"
    and pool: "pool_inv (16, n) n pr (ps_mem s) fs (b # os) e" and b: "bm_bufs (ps_mem s) b = Some bf"
  shows "returns (worker_task env ucb c b s) (task_done env n pr b os (c, unread bf) s)"
proof -
  have fl: "flowing env n pr (ps_mem s) co" using fc c by (simp add: flow_conns_def)
  have ob: "owned n pr bf" using pool_inv_out [OF pool, of b] b by auto
  obtain w bw where w: "cn_writeBuffer (co_conn co) = Some w" "outside pr (ps_mem s) w bw" using fl by (auto simp: flowing_def)
  let ?f = "focus c co s"
  let ?w = "upd_core (upd_conn (\<lambda>cn. cn\<lparr>cn_dataBuffer := Some b\<rparr>)) ?f"
  obtain w1 where w1: "ConnectionProcessData (core_cb (pipe_cb env ucb)) (pe_fuel env) ?w = Inr w1"
    "read_by bf (w_core ?w) (w_core w1)" "queues_ok w1" "conn_handlers w1 = co_handlers co"
    using ProcessData_observed [OF ucb fl b ob, of c] by (auto elim!: returnsE)
  let ?m1 = "k_mem (w_core w1)"
  have k1: "k_conn (w_core w1) = (co_conn co)\<lparr>cn_dataBuffer := Some b\<rparr>"
    "fst (pp_ext (k_user (w_core w1))) = delivered s @ [(c, unread bf)]" "pp_worker (k_user (w_core w1)) = pp_worker (ps_pipe s)"
    "bm_pools ?m1 = bm_pools (ps_mem s)" "bm_tick ?m1 = bm_tick (ps_mem s)"
    "\<forall>r. r \<noteq> b \<longrightarrow> r \<noteq> w \<longrightarrow> bm_bufs ?m1 r = bm_bufs (ps_mem s) r" "reshaped (Some b) (ps_mem s) ?m1" "reshaped (Some w) (ps_mem s) ?m1"
    using w1(2) w(1) unfolding read_by_def by simp_all
  have "w \<notin> set fs \<union> set (b # os)" using pool_inv_owner [OF pool, of w] w(2) by (auto simp: outside_def)
  moreover have bo: "b \<notin> set fs \<union> set os" "distinct os" "set os \<subseteq> {..<bm_tick (ps_mem s)}" using pool by (auto simp: pool_inv_def)
  ultimately have same: "\<forall>r \<in> set fs \<union> set os. bm_bufs ?m1 r = bm_bufs (ps_mem s) r" using k1(6) by auto
  have p1: "pool_inv (16, n) n pr ?m1 fs (b # os) e" by (rule pool_inv_reshape [OF pool k1(4,5) same k1(7)])
  obtain bf1 where bf1: "bm_bufs ?m1 b = Some bf1" "b_pool bf1 = Some pr" using pool_inv_owner [OF p1, of b] by auto
  have "set os \<subseteq> set (b # os) - {b}" using bo by auto
  then obtain m2 where m2: "ReleaseBuffer all_ok (Some b) ?m1 = Inr (None, m2)" "pool_inv (16, n) n pr m2 (fs @ [b]) os e"
    using ReleaseBuffer_seq [OF p1, of b os] bo(2) by (auto elim!: returnsE)
  have f: "foreign pr {w} (ps_mem s) m2"
    by (rule foreign_trans [OF foreign_reshaped [OF pool k1(4,5,6)] release_foreign(1) [OF m2(1) bf1]])
  have rs: "reshaped (Some w) (ps_mem s) m2"
  proof -
    have "w \<noteq> b" "w < bm_tick ?m1" using w(2) b ob k1(5) by (auto simp: outside_def owned_def)
    then show ?thesis using k1(8) release_foreign(2) [OF m2(1) bf1] by (simp add: reshaped_def)
  qed
  let ?w2 = "upd_core (upd_conn (\<lambda>cn. cn\<lparr>cn_dataBuffer := None\<rparr>)) w1"
  let ?co = "\<lparr>co_sys = w_sys w1, co_usr = w_usr w1, co_conn = (co_conn co)\<lparr>cn_dataBuffer := None\<rparr>, co_net = k_net (w_core w1),
      co_readKey = co_readKey co\<rparr>"
  let ?s1 = "unfocus c (co_readKey co) ?w2 s" and ?s2 = "(unfocus c (co_readKey co) ?w2 s)\<lparr>ps_mem := m2\<rparr>"
  have run: "worker_task env ucb c b s = Inr ?s2"
    using w1(1) m2(1) env by (simp add: worker_task_def do_conn_def with_conn_def c unfocus_def Let_def)
  have s2: "ps_conns ?s2 = (ps_conns s)(c \<mapsto> ?co)" "ps_mem ?s2 = m2" "ps_pipe ?s2 = k_user (w_core w1)"
    using k1(1) by (simp_all add: unfocus_def Let_def)
  have "co_queues (pe_fuel env) ?co" "co_handlers ?co = co_handlers co"
    using w1(3,4) fl by (auto simp: co_queues_def queues_ok_def co_handlers_def conn_handlers_def flowing_def fun_eq_iff)
  then have nc: "flowing env n pr m2 ?co"
    by (intro flowing_written [OF fl w(1) f rs]) simp_all
  have oc: "own_bufs ?co = own_bufs co" by (simp add: own_bufs_def)
  have "flowing env n pr m2 co'" if "ps_conns s c' = Some co'" "c' \<noteq> c" for c' co'
  proof (rule flowing_foreign [OF _ f])
    show "flowing env n pr (ps_mem s) co'" using fc that(1) by (simp add: flow_conns_def)
    have "own_bufs co' \<inter> own_bufs co = {}" using fc that c unfolding flow_conns_def by blast
    then show "own_bufs co' \<inter> {w} = {}" using w(1) by (auto simp: own_bufs_def)
  qed
  then have "flow_conns env n pr ?s2" using fc nc oc c unfolding flow_conns_def s2 by auto
  moreover have "bm_bufs m2 x = bm_bufs (ps_mem s) x" if "x \<in> set os" for x
  proof -
    have "x \<noteq> b" "x < bm_tick ?m1" using that bo k1(5) by auto
    then show ?thesis using release_foreign(2) [OF m2(1) bf1] same that by simp
  qed
  moreover have "stray pr (set os) m2 = stray pr (insert b (set os)) (ps_mem s)"
  proof -
    have "map_option b_pool (bm_bufs ?m1 x) = map_option b_pool (bm_bufs (ps_mem s) x)" for x
      using k1(6-8) b w(2) by (cases "x = b \<or> x = w") (auto simp: reshaped_def outside_def)
    then have "stray pr (insert b (set os)) ?m1 = stray pr (insert b (set os)) (ps_mem s)"
      by (intro stray_cong) (simp_all add: k1(4,5))
    with ReleaseBuffer_stray [OF p1 _ m2(2,1), of "set os"] show ?thesis by simp
  qed
  ultimately have "task_done env n pr b os (c, unread bf) s ?s2"
    unfolding task_done_def using s2 k1(2,3) m2(2) c by auto
  then show ?thesis by (simp add: run)
qed

section \<open>Rounds of the worker\<close>

lemma Dequeue_waiting:
  assumes "q_inv q" "q_emptied q \<or> q_items q \<noteq> []"
  shows "\<exists>q'. Dequeue all_ok ws q item True = Inr (fst (a_dequeue item (abs_queue q)), fst (snd (a_dequeue item (abs_queue q))), q')
    \<and> q_inv q' \<and> abs_queue q' = snd (snd (a_dequeue item (abs_queue q)))"
proof -
  have "a_dequeue_wait True ws item (abs_queue q) = Inr (a_dequeue item (abs_queue q))"
    using assms(2) by (cases ws) (auto simp: a_dequeue_wait_def)
  then show ?thesis
    using Dequeue_seq [OF assms(1), of ws item True] by (auto simp: q_res_rel_def split_def elim!: returnsE)
qed

lemma Dequeue_idle: "q_inv q \<Longrightarrow> \<not> q_emptied q \<Longrightarrow> q_items q = [] \<Longrightarrow> \<not> q_exit q \<Longrightarrow> Dequeue all_ok [] q item True = Inl Blocked"
  using Dequeue_seq [of q "[]" item True] by (auto simp: a_dequeue_wait_def)

lemma flow_invE:
  assumes "flow_inv env n pr s"
  obtains q wk fs e where "worker_queue s = q" "pp_worker (ps_pipe s) = Some wk" "wk_pool wk = Some pr" "wk_queue wk = Some q"
    "q_inv q" "\<not> q_exit q" "\<forall>it \<in> set (q_items q). is_task (dom (ps_conns s)) it"
    "pool_inv (16, n) n pr (ps_mem s) fs (map task_buf (q_items q)) e" "flow_conns env n pr s"
  using assms unfolding flow_inv_def flow_queue_def by (elim exE conjE) (rule that, simp_all add: worker_queue_def)

definition with_queue :: "worker \<Rightarrow> nat queue \<Rightarrow> ('f, 'd, 'x) psys \<Rightarrow> ('f, 'd, 'x) psys" where
  "with_queue wk q s = on_pipe (\<lambda>p. p\<lparr>pp_worker := Some (wk\<lparr>wk_queue := Some q\<rparr>)\<rparr>) s"

lemma with_queue_simps [simp]:
  "ps_conns (with_queue wk q s) = ps_conns s" "ps_mem (with_queue wk q s) = ps_mem s"
  "pp_worker (ps_pipe (with_queue wk q s)) = Some (wk\<lparr>wk_queue := Some q\<rparr>)" "pp_ext (ps_pipe (with_queue wk q s)) = pp_ext (ps_pipe s)"
  "worker_queue (with_queue wk q s) = q" "flow_conns env n pr (with_queue wk q s) = flow_conns env n pr s"
  by (simp_all add: with_queue_def worker_queue_def flow_conns_def)

lemma WorkerRound_eq:
  assumes "pp_worker (ps_pipe s) = Some wk" "wk_queue wk = Some q" "calm_env env"
  shows "WorkerRound env ucb ws item s = bnd (Dequeue all_ok ws q item True) (\<lambda>(dequeued, it, q').
    if dequeued then bnd (WorkerItem env ucb it (with_queue wk q' s)) (\<lambda>(nx, s2). Inr (nx, it, s2))
    else Inr (Return True, it, with_queue wk q' s))"
  unfolding with_queue_def using assms by (simp add: WorkerRound_def get_worker_queue_def put_worker_def split_def)

lemma WorkerRound_task:
  assumes env: "calm_env env" and ucb: "observer ucb" and inv: "flow_inv env n pr s"
    and e: "\<not> q_emptied (worker_queue s)" and t: "in_transit s = msg # msgs"
  shows "returns (WorkerRound env ucb [] item s) (\<lambda>(nx, it, s'). nx = Again \<and> flow_inv env n pr s' \<and> in_transit s' = msgs \<and>
    delivered s' = delivered s @ [msg] \<and> dom (ps_conns s') = dom (ps_conns s) \<and> q_emptied (worker_queue s') = (msgs = []) \<and>
    lost_buffers pr s' = lost_buffers pr s)"
proof -
  obtain q wk fs f where q: "worker_queue s = q" "pp_worker (ps_pipe s) = Some wk" "wk_pool wk = Some pr" "wk_queue wk = Some q"
    "q_inv q" "\<not> q_exit q" "\<forall>it \<in> set (q_items q). is_task (dom (ps_conns s)) it"
    "pool_inv (16, n) n pr (ps_mem s) fs (map task_buf (q_items q)) f" "flow_conns env n pr s"
    by (rule flow_invE [OF inv])
  obtain i "is" where it: "q_items q = i # is" "task_view (ps_mem s) i = msg" "map (task_view (ps_mem s)) is = msgs"
    using t q(1) by (auto simp: in_transit_def)
  then obtain c b co where i: "i = ITEM_TASK READ_EVENT c b" "ps_conns s c = Some co" using q(7) by (auto simp: is_task_def)
  obtain q' where q': "Dequeue all_ok [] q item True = Inr (True, i, q')" "q_inv q'" "q_items q' = is" "\<not> q_exit q'"
    "q_emptied q' = (is = [])"
    using Dequeue_waiting [OF q(5), of "[]" item] e q(1,6) it(1) by (auto simp: a_dequeue_def abs_queue_def)
  let ?s = "with_queue wk q' s"
  have pool: "pool_inv (16, n) n pr (ps_mem ?s) fs (b # map task_buf is) f" using q(8) it(1) i(1) by simp
  obtain bf where bf: "bm_bufs (ps_mem ?s) b = Some bf" using pool_inv_out [OF pool, of b] by auto
  have msg: "msg = (c, unread bf)" using it(2) i(1) bf by simp
  have "returns (worker_task env ucb c b ?s) (task_done env n pr b (map task_buf is) msg ?s)"
    unfolding msg by (rule worker_task_done [OF env ucb _ _ pool bf]) (use q(9) i(2) in simp_all)
  then obtain s' where s': "worker_task env ucb c b ?s = Inr s'" "task_done env n pr b (map task_buf is) msg ?s s'"
    by (elim returnsE)
  have wk': "pp_worker (ps_pipe s') = Some (wk\<lparr>wk_queue := Some q'\<rparr>)" "worker_queue s' = q'"
    using s'(2) by (simp_all add: task_done_def worker_queue_def)
  have "flow_queue n pr q' s'"
    using s'(2) wk'(1) q(3,7) q'(2-4) it(1) unfolding flow_queue_def task_done_def by auto
  then have "flow_inv env n pr s'" using s'(2) by (auto simp: flow_inv_def task_done_def)
  moreover have "task_view (ps_mem s') x = task_view (ps_mem s) x" if x: "x \<in> set is" for x
  proof -
    obtain c' b' where y: "x = ITEM_TASK READ_EVENT c' b'" using q(7) it(1) x by (auto simp: is_task_def)
    have "bm_bufs (ps_mem s') (task_buf x) = bm_bufs (ps_mem s) (task_buf x)" using s'(2) x by (simp add: task_done_def)
    then show ?thesis using y by simp
  qed
  then have "in_transit s' = msgs" using it(3) q'(3) wk'(2) by (auto simp: in_transit_def)
  moreover have "lost_buffers pr s' = lost_buffers pr s"
    using s'(2) q(1) q'(3) it(1) i(1) wk'(2) by (simp add: lost_buffers_def task_done_def)
  ultimately show ?thesis
    using s' q' i(1) it(3) wk'(2) WorkerRound_eq [OF q(2,4) env, of ucb "[]" item]
    by (auto simp: WorkerItem_def task_done_def)
qed

lemma WorkerRound_emptied:
  assumes env: "calm_env env" and inv: "flow_inv env n pr s" and e: "q_emptied (worker_queue s)"
  shows "returns (WorkerRound env ucb [] item s) (\<lambda>(nx, it, s'). nx = Return True \<and> flow_inv env n pr s' \<and> in_transit s' = in_transit s \<and>
    delivered s' = delivered s \<and> dom (ps_conns s') = dom (ps_conns s) \<and> \<not> q_emptied (worker_queue s') \<and>
    lost_buffers pr s' = lost_buffers pr s)"
proof -
  obtain q wk fs f where q: "worker_queue s = q" "pp_worker (ps_pipe s) = Some wk" "wk_pool wk = Some pr" "wk_queue wk = Some q"
    "q_inv q" "\<not> q_exit q" "\<forall>it \<in> set (q_items q). is_task (dom (ps_conns s)) it"
    "pool_inv (16, n) n pr (ps_mem s) fs (map task_buf (q_items q)) f" "flow_conns env n pr s"
    by (rule flow_invE [OF inv])
  obtain q' where q': "Dequeue all_ok [] q item True = Inr (False, item, q')" "q_inv q'" "q_items q' = q_items q" "\<not> q_exit q'"
    "\<not> q_emptied q'"
    using Dequeue_waiting [OF q(5), of "[]" item] e q(1,6) by (auto simp: a_dequeue_def abs_queue_def)
  have "flow_queue n pr q' (with_queue wk q' s)" using q(3,7,8) q'(2-4) unfolding flow_queue_def by auto
  then have "flow_inv env n pr (with_queue wk q' s)" using q(9) by (auto simp: flow_inv_def)
  then show ?thesis
    using q' q(1) WorkerRound_eq [OF q(2,4) env, of ucb "[]" item] by (simp add: in_transit_def lost_buffers_def)
qed

lemma WorkerRound_idle:
  assumes "calm_env env" "flow_inv env n pr s" "\<not> q_emptied (worker_queue s)" "in_transit s = []"
  shows "WorkerRound env ucb [] item s = Inl Blocked"
proof -
  obtain q wk where q: "worker_queue s = q" "pp_worker (ps_pipe s) = Some wk" "wk_queue wk = Some q" "q_inv q" "\<not> q_exit q"
    by (rule flow_invE [OF assms(2)])
  then show ?thesis
    using Dequeue_idle [OF q(4) _ _ q(5), of item] assms(3,4) WorkerRound_eq [OF q(2,3) assms(1), of ucb "[]" item]
    by (simp add: in_transit_def)
qed

section \<open>The whole way\<close>

text \<open>
  The reader receives for one connection or another, the worker does a round, in any order. A worker
  that has to wait lets the others go on.
\<close>

datatype flow_op = FRead nat "byte list" | FWork

fun flow_step ::
  "penv \<Rightarrow> ('f, 'd, 'x) ucallbacks \<Rightarrow> flow_op \<Rightarrow> ('f, 'd, 'x) psys \<Rightarrow> ('f, 'd, 'x) psys res" where
  "flow_step env ucb (FRead c bs) s =
     do_conn c (ConnectionRead (core_cb (pipe_cb env ucb)) (pe_fuel env) (pe_name env) (\<lambda>m. Some (take (nat m) bs))) s"
| "flow_step env ucb FWork s =
     (case WorkerRound env ucb [] ITEM_UNDEFINED s of
        Inr (_, _, s') \<Rightarrow> Inr s'
      | Inl e \<Rightarrow> if e = Blocked then Inr s else Inl e)"

fun flow_run ::
  "penv \<Rightarrow> ('f, 'd, 'x) ucallbacks \<Rightarrow> flow_op list \<Rightarrow> ('f, 'd, 'x) psys \<Rightarrow> ('f, 'd, 'x) psys res" where
  "flow_run env ucb [] s = Inr s"
| "flow_run env ucb (op # ops) s = bnd (flow_step env ucb op s) (flow_run env ucb ops)"

fun op_ok :: "nat set \<Rightarrow> flow_op \<Rightarrow> bool" where
  "op_ok cs (FRead c bs) = (c \<in> cs \<and> bs \<noteq> [])"
| "op_ok cs FWork = True"

fun op_data :: "int \<Rightarrow> flow_op \<Rightarrow> (nat \<times> byte list) list" where
  "op_data n (FRead c bs) = [(c, take (nat n) bs)]"
| "op_data n FWork = []"

lemma flow_step_ok:
  assumes env: "calm_env env" and ucb: "observer ucb" and n: "0 < n" "n \<le> INT_MAX - 2" and inv: "flow_inv env n pr s"
    and op: "op_ok (dom (ps_conns s)) op"
  shows "returns (flow_step env ucb op s) (\<lambda>s'. flow_inv env n pr s' \<and> dom (ps_conns s') = dom (ps_conns s) \<and>
    delivered s' @ in_transit s' = delivered s @ in_transit s @ op_data n op \<and> lost_buffers pr s' = lost_buffers pr s)"
proof (cases op)
  case (FRead c bs)
  then obtain co where "ps_conns s c = Some co" "bs \<noteq> []" using op by auto
  from flow_read_step [OF env n inv this, of ucb] show ?thesis unfolding FRead flow_step.simps
    by (rule returns_mono) simp
next
  case FWork
  consider (idle) "\<not> q_emptied (worker_queue s)" "in_transit s = []" | (emptied) "q_emptied (worker_queue s)"
    | (task) msg msgs where "\<not> q_emptied (worker_queue s)" "in_transit s = msg # msgs"
    by (cases "in_transit s") auto
  then show ?thesis
  proof cases
    case idle
    then show ?thesis using WorkerRound_idle [OF env inv idle, of ucb ITEM_UNDEFINED] inv by (simp add: FWork)
  next
    case emptied
    from WorkerRound_emptied [OF env inv this, of ucb ITEM_UNDEFINED] show ?thesis by (auto simp: FWork elim!: returnsE)
  next
    case task
    from WorkerRound_task [OF env ucb inv this, of ITEM_UNDEFINED] task(2) show ?thesis by (auto simp: FWork elim!: returnsE)
  qed
qed

lemma flow_run_ok:
  assumes env: "calm_env env" and ucb: "observer ucb" and n: "0 < n" "n \<le> INT_MAX - 2"
  shows "flow_inv env n pr s \<Longrightarrow> \<forall>op \<in> set ops. op_ok (dom (ps_conns s)) op \<Longrightarrow>
    returns (flow_run env ucb ops s) (\<lambda>s'. flow_inv env n pr s' \<and>
      delivered s' @ in_transit s' = delivered s @ in_transit s @ concat (map (op_data n) ops) \<and>
      lost_buffers pr s' = lost_buffers pr s)"
proof (induction ops arbitrary: s)
  case Nil
  then show ?case by simp
next
  case (Cons op ops)
  have "op_ok (dom (ps_conns s)) op" using Cons.prems(2) by simp
  then obtain s1 where s1: "flow_step env ucb op s = Inr s1" "flow_inv env n pr s1" "dom (ps_conns s1) = dom (ps_conns s)"
    "delivered s1 @ in_transit s1 = delivered s @ in_transit s @ op_data n op" "lost_buffers pr s1 = lost_buffers pr s"
    using flow_step_ok [OF env ucb n Cons.prems(1), of op] by (auto elim!: returnsE)
  have "returns (flow_run env ucb ops s1) (\<lambda>s'. flow_inv env n pr s' \<and>
      delivered s' @ in_transit s' = delivered s1 @ in_transit s1 @ concat (map (op_data n) ops) \<and>
      lost_buffers pr s' = lost_buffers pr s1)"
    by (rule Cons.IH [OF s1(2)]) (use Cons.prems(2) s1(3) in simp)
  then show ?case using s1(1,4,5) by (auto elim!: returnsE)
qed

text \<open>The loop of the worker, alone, until it returns.\<close>

lemma WorkerLoop_drains:
  assumes env: "calm_env env" and ucb: "observer ucb"
  shows "in_transit s = msgs \<Longrightarrow> flow_inv env n pr s \<Longrightarrow> q_emptied (worker_queue s) = (msgs = []) \<Longrightarrow> length msgs < k \<Longrightarrow>
    returns (WorkerLoop env ucb (replicate k []) item s) (\<lambda>(b, s'). b \<and> flow_inv env n pr s' \<and> in_transit s' = [] \<and>
      delivered s' = delivered s @ msgs \<and> \<not> q_emptied (worker_queue s') \<and> lost_buffers pr s' = lost_buffers pr s)"
proof (induction msgs arbitrary: s k item)
  case Nil
  then obtain k' where k: "k = Suc k'" by (cases k) auto
  have e: "q_emptied (worker_queue s)" using Nil by simp
  from WorkerRound_emptied [OF env Nil(2) e, of ucb item] show ?case using Nil(1)
    by (auto simp: k elim!: returnsE)
next
  case (Cons msg msgs)
  then obtain k' where k: "k = Suc k'" "length msgs < k'" by (cases k) auto
  have e: "\<not> q_emptied (worker_queue s)" using Cons.prems(3) by simp
  obtain it s1 where s1: "WorkerRound env ucb [] item s = Inr (Again, it, s1)" "flow_inv env n pr s1" "in_transit s1 = msgs"
    "delivered s1 = delivered s @ [msg]" "q_emptied (worker_queue s1) = (msgs = [])" "lost_buffers pr s1 = lost_buffers pr s"
    using WorkerRound_task [OF env ucb Cons.prems(2) e Cons.prems(1), of item] by (auto elim!: returnsE)
  from Cons.IH [OF s1(3,2,5) k(2), of it] show ?case using s1(1,4,6) by (simp add: k(1))
qed

section \<open>A sample pipe\<close>

definition log_read :: "unit \<Rightarrow> event \<Rightarrow> unit option \<Rightarrow> ((nat \<times> byte list) list \<times> unit) pipe core \<Rightarrow>
    ((nat \<times> byte list) list \<times> unit) pipe core res" where
  "log_read g ev d k =
     (case cn_dataBuffer (k_conn k) of
        None \<Rightarrow> Inr k
      | Some b \<Rightarrow>
          bnd (deref (bm_bufs (k_mem k) b)) (\<lambda>bf.
          Inr (upd_pipe (\<lambda>p. p\<lparr>pp_ext := (fst (pp_ext p) @ [(pp_self p, unread bf)], ())\<rparr>) k)))"

lemma log_read_observer: "observer log_read"
  by (auto simp: observer_def log_read_def read_by_def reshaped_def upd_pipe_def)

definition sample_penv :: penv where
  "sample_penv = \<lparr>pe_okq = all_ok, pe_okb = both_ok, pe_item = True, pe_okk = all_ok, pe_realloc = True, pe_wake = (None, False),
     pe_name = sample_env, pe_handler = True, pe_okh = all_ok, pe_fuel = 3\<rparr>"

lemma sample_penv_calm: "calm_env sample_penv"
  by (simp add: calm_env_def sample_penv_def)

definition sample_cobj :: "(unit phandler, unit) equeue \<Rightarrow> (unit phandler, unit) equeue \<Rightarrow> (unit, unit) cobj" where
  "sample_cobj qs qu = \<lparr>co_sys = Some qs, co_usr = Some qu,
     co_conn = (w_conn (sample_world STATE_CONNECTED small_buffer small_buffer new_equeue))\<lparr>cn_readBuffer := Some 1, cn_writeBuffer := Some 2\<rparr>,
     co_net = [], co_readKey = None\<rparr>"

definition sample_psys :: "(unit phandler, unit) equeue \<Rightarrow> (unit phandler, unit) equeue \<Rightarrow>
    (unit, unit, (nat \<times> byte list) list \<times> unit) psys" where
  "sample_psys qs qu = \<lparr>ps_conns = [7 \<mapsto> sample_cobj qs qu],
     ps_mem = \<lparr>bm_bufs = [1 \<mapsto> small_buffer, 2 \<mapsto> small_buffer],
       bm_pools = [0 \<mapsto> \<lparr>p_buffers = Some new_queue, p_batch = 16, p_bufferSize = 8\<rparr>], bm_tick = 3, bm_items = 0\<rparr>,
     ps_addrs = [0 \<mapsto> ''[::1]:80''], ps_raised = [],
     ps_pipe = \<lparr>pp_self = 7, pp_reader = \<lparr>rd_name = None, rd_pipe = None, rd_thread = None, rd_queue = None, rd_selector = None, rd_load = 1,
         rd_bufferSize = 8\<rparr>,
       pp_worker = Some \<lparr>wk_name = None, wk_pipe = None, wk_thread = None, wk_bufferSize = 8, wk_queue = Some new_queue, wk_pool = Some 0\<rparr>,
       pp_writer = None, pp_ext = ([], ())\<rparr>\<rparr>"

lemma sample_flow:
  "\<exists>qs qu. flow_inv sample_penv 8 0 (sample_psys qs qu) \<and> in_transit (sample_psys qs qu) = [] \<and> \<not> q_emptied (worker_queue (sample_psys qs qu))"
proof -
  let ?h = "\<lambda>ev c. \<lparr>h_event = ev, h_once = False, h_callback = c, h_data = None\<rparr> :: (unit phandler, unit) handler"
  obtain qs where qs: "eq_inv qs" "handlers qs = (\<lambda>_. [])(INBOUND_DATA_EVENT := [?h INBOUND_DATA_EVENT WorkerReadHandler])"
    using eq_run_seq [OF new_equeue_inv(1), of "[EAdd (?h INBOUND_DATA_EVENT WorkerReadHandler)]"]
    by (auto simp: new_equeue_inv(2) elim!: returnsE)
  obtain qu where qu: "eq_inv qu" "handlers qu = (\<lambda>_. [])(READ_EVENT := [?h READ_EVENT (UserHandler ())])"
    using eq_run_seq [OF new_equeue_inv(1), of "[EAdd (?h READ_EVENT (UserHandler ()))]"]
    by (auto simp: new_equeue_inv(2) elim!: returnsE)
  let ?s = "sample_psys qs qu" and ?co = "sample_cobj qs qu"
  have co: "co_handlers ?co = (\<lambda>_. [])(INBOUND_DATA_EVENT := [?h INBOUND_DATA_EVENT WorkerReadHandler],
      READ_EVENT := [?h READ_EVENT (UserHandler ())])"
    using qs(2) qu(2) by (simp add: co_handlers_def sample_cobj_def fun_eq_iff)
  have "co_queues (pe_fuel sample_penv) ?co"
    using qs(1) qu(1) by (auto simp: co_queues_def co sample_penv_def) (simp_all add: sample_cobj_def)
  moreover have "outside 0 (ps_mem ?s) 1 small_buffer" "outside 0 (ps_mem ?s) 2 small_buffer" "fresh_buf 8 small_buffer"
    using small_buffer_inv by (simp_all add: outside_def sample_psys_def fresh_buf_def small_buffer_def)
  ultimately have "flowing sample_penv 8 0 (ps_mem ?s) ?co"
    unfolding flowing_def by (simp add: co calls_def) (auto simp: sample_cobj_def sample_world_def permissions_def)
  then have fc: "flow_conns sample_penv 8 0 ?s" by (simp add: flow_conns_def sample_psys_def)
  have q0: "q_items new_queue = []" "\<not> q_exit new_queue" "\<not> q_emptied new_queue"
    using new_queue_inv(2) by (simp_all add: abs_queue_def a_empty_def)
  have "pool_inv (16, 8) 8 0 (ps_mem ?s) [] [] False"
    by (simp add: pool_inv_def pool_queue_def sample_psys_def a_empty_def)
  then have "flow_queue 8 0 new_queue ?s" using q0 unfolding flow_queue_def
    by (intro exI [of _ "the (pp_worker (ps_pipe ?s))"] exI [of _ "[]"] exI [of _ False]) (simp add: sample_psys_def)
  with fc q0 have "flow_inv sample_penv 8 0 ?s" "in_transit ?s = []" "\<not> q_emptied (worker_queue ?s)"
    by (auto simp: flow_inv_def in_transit_def flow_queueD)
  then show ?thesis by blast
qed



text \<open>
  C30. \<open>_WorkerRun\<close> returns: with work to do and nobody interfering its loop ends after one round for
  each task and one more, with true, having handed out every task in order and released its buffer;
  the round that ends it clears the queue's flag, so that the next call waits for new work.
\<close>

theorem worker_run_drains:
  assumes "calm_env env" "observer ucb" "flow_inv env n pr s" "\<not> q_emptied (worker_queue s)" "in_transit s \<noteq> []"
    and "length (in_transit s) < k"
  shows "returns (WorkerRun env ucb (replicate k []) s) (\<lambda>(b, s'). b \<and> flow_inv env n pr s' \<and> in_transit s' = [] \<and>
    delivered s' = delivered s @ in_transit s \<and> \<not> q_emptied (worker_queue s') \<and> lost_buffers pr s' = lost_buffers pr s)"
proof -
  have "q_emptied (worker_queue s) = (in_transit s = [])" using assms(4,5) by simp
  from WorkerLoop_drains [OF assms(1,2) refl assms(3) this assms(6)] assms(1) show ?thesis
    by (simp add: WorkerRun_def NewQueueItem_def)
qed

lemma sample_flow_fed:
  "\<exists>s :: (unit, unit, (nat \<times> byte list) list \<times> unit) psys. flow_inv sample_penv 8 0 s \<and> \<not> q_emptied (worker_queue s) \<and> in_transit s = [(7, [1, 2]), (7, [3])] \<and> delivered s = []"
proof -
  obtain qs qu where s: "flow_inv sample_penv 8 0 (sample_psys qs qu)" "in_transit (sample_psys qs qu) = []"
    "\<not> q_emptied (worker_queue (sample_psys qs qu))" using sample_flow by blast
  let ?s = "sample_psys qs qu"
  have c: "ps_conns ?s 7 = Some (sample_cobj qs qu)" "delivered ?s = []" "7 \<in> dom (ps_conns ?s)"
    by (simp_all add: sample_psys_def)
  have n: "0 < (8::int)" "8 \<le> INT_MAX - 2" by (simp_all add: INT_MAX_def)
  obtain s1 :: "(unit, unit, (nat \<times> byte list) list \<times> unit) psys" where s1: "flow_inv sample_penv 8 0 s1" "in_transit s1 = [(7, [1, 2])]" "delivered s1 = []" "dom (ps_conns s1) = dom (ps_conns ?s)"
    "\<not> q_emptied (worker_queue s1)"
    using flow_read_step [OF sample_penv_calm n s(1) c(1), of "[1, 2]" log_read] s(2,3) c(2)
    by (auto elim!: returnsE)
  then obtain co where "ps_conns s1 7 = Some co" using c(3) by blast
  from flow_read_step [OF sample_penv_calm n s1(1) this, of "[3]" log_read] s1 show ?thesis
    by (auto elim!: returnsE)
qed

theorem worker_run_drains_witness:
  "\<exists>s s'. flow_inv sample_penv 8 0 s \<and> WorkerRun sample_penv log_read [[], [], []] s = Inr (True, s') \<and>
     delivered s' = [(7, [1, 2]), (7, [3])] \<and> in_transit s' = []"
proof -
  obtain s :: "(unit, unit, (nat \<times> byte list) list \<times> unit) psys" where s: "flow_inv sample_penv 8 0 s"
    "\<not> q_emptied (worker_queue s)" "in_transit s = [(7, [1, 2]), (7, [3])]" "delivered s = []"
    using sample_flow_fed by blast
  have "returns (WorkerRun sample_penv log_read (replicate 3 []) s) (\<lambda>(b, s'). b \<and> flow_inv sample_penv 8 0 s' \<and>
      in_transit s' = [] \<and> delivered s' = delivered s @ in_transit s \<and> \<not> q_emptied (worker_queue s') \<and>
      lost_buffers 0 s' = lost_buffers 0 s)"
    by (rule worker_run_drains [OF sample_penv_calm log_read_observer s(1,2)]) (simp_all add: s(3))
  with s show ?thesis by (auto simp: numeral_eq_Suc elim!: returnsE)
qed

end
