(* ===== verification/ThreadLife.thy ===== *)
theory ThreadLife
  imports Threads
begin

text \<open>
  Starting and ending a thread from another one: what \<open>NewThread\<close>, \<open>ThreadStart\<close> and \<open>ThreadJoin\<close> do
  when the thread that waits gives way to the other, for callbacks that may start and end threads
  themselves. The theory Handshake shows that \<open>ThreadStart\<close> cannot return in any other order.
\<close>

section \<open>The other side of a wait\<close>

text \<open>Until its first release of the lock a thread runs its initialisation.\<close>

definition serve :: "('f, 'd, 'u) tcallbacks \<Rightarrow> nat \<Rightarrow> ('f, 'd, 'u) tworld \<Rightarrow> ('f, 'd, 'u) tworld res" where
  "serve cb t w = bnd (take_thread_lock t w) (\<lambda>w1. bnd (run_init cb t w1) (\<lambda>w2. release_thread_lock t w2))"

text \<open>The rest of a thread's life, \<open>f\<close> bounds the calls of its routine.\<close>

definition finish :: "('f, 'd, 'u) tcallbacks \<Rightarrow> nat \<Rightarrow> nat \<Rightarrow> ('f, 'd, 'u) tworld \<Rightarrow> ('f, 'd, 'u) tworld res" where
  "finish cb f t w = bnd (take_thread_lock t w) (\<lambda>w1. bnd (run_loop cb f t w1) (\<lambda>w2. ThreadCleanup cb t w2))"

section \<open>Starting\<close>

definition fresh_thread :: "string option \<Rightarrow> 'f option \<Rightarrow> 'f option \<Rightarrow> 'f option \<Rightarrow> 'd option \<Rightarrow> ('f, 'd) thread" where
  "fresh_thread name i r e arg = \<lparr>t_name = name, t_id = 0, t_state = THREAD_STATE_NONE, t_running = False,
     t_lock = Some free_lock, t_initialized = False, t_condInit = Some free_cond, t_init = i, t_run = r, t_exit = e, t_arg = arg\<rparr>"

text \<open>The thread once its initialisation has returned \<open>b\<close>.\<close>

definition live_thread :: "nat \<Rightarrow> bool \<Rightarrow> ('f, 'd) thread \<Rightarrow> ('f, 'd) thread" where
  "live_thread new b th = th\<lparr>t_id := new, t_initialized := True, t_running := b,
     t_state := (if b then THREAD_STATE_RUNNING else t_state th)\<rparr>"

lemma live_thread_simps [simp]:
  "t_lock (live_thread new b th) = t_lock th" "t_running (live_thread new b th) = b" "t_run (live_thread new b th) = t_run th"
  "t_exit (live_thread new b th) = t_exit th" "t_arg (live_thread new b th) = t_arg th" "t_init (live_thread new b th) = t_init th"
  "t_condInit (live_thread new b th) = t_condInit th"
  by (simp_all add: live_thread_def)

lemma fresh_thread_simps [simp]:
  "t_lock (fresh_thread name i r e arg) = Some free_lock" "t_condInit (fresh_thread name i r e arg) = Some free_cond"
  "t_init (fresh_thread name i r e arg) = i" "t_run (fresh_thread name i r e arg) = r" "t_exit (fresh_thread name i r e arg) = e"
  "t_arg (fresh_thread name i r e arg) = arg" "\<not> t_initialized (fresh_thread name i r e arg)"
  by (simp_all add: fresh_thread_def)

lemma NewThread_seq:
  "tw_num w < int AIO4C_MAX_THREADS \<Longrightarrow>
   NewThread True True True name i r e arg w = (Some (tw_tick w),
     w\<lparr>tw_tick := Suc (tw_tick w), tw_heap := (tw_heap w)(tw_tick w \<mapsto> fresh_thread name i r e arg)\<rparr>)"
  by (simp add: NewThread_def fresh_thread_def Let_def)

text \<open>The world in which a new thread runs its initialisation.\<close>

definition starting ::
  "nat list \<Rightarrow> nat \<Rightarrow> nat \<Rightarrow> ('f, 'd) thread \<Rightarrow> ('f, 'd, 'u) tworld \<Rightarrow> ('f, 'd, 'u) tworld \<Rightarrow> bool" where
  "starting ts t new th w W \<longleftrightarrow> reg_inv W (ts @ [t]) \<and> tw_num W = tw_num w + 1 \<and> tw_running W = tw_running w + 1 \<and>
     tw_tick W = tw_tick w \<and> tw_user W = tw_user w \<and>
     tw_heap W = (tw_heap w)(t \<mapsto> th\<lparr>t_id := new, t_running := True, t_lock := Some taken_lock, t_condInit := Some (waited free_cond)\<rparr>)"

lemma reg_inv_upd:
  "reg_inv w ts \<Longrightarrow> tw_threads w' = tw_threads w \<Longrightarrow> tw_initialized w' = tw_initialized w \<Longrightarrow> tw_mutex w' = tw_mutex w \<Longrightarrow>
   tw_num w' = tw_num w \<Longrightarrow> (\<And>x. tw_heap w x \<noteq> None \<Longrightarrow> tw_heap w' x \<noteq> None) \<Longrightarrow> reg_inv w' ts"
  by (auto simp: reg_inv_def)

lemma start_seq:
  assumes r: "reg_inv w ts" "tw_num w < int AIO4C_MAX_THREADS" "is_int (tw_running w + 1)"
    and t: "tw_heap w t = Some (fresh_thread name (Some i) g e arg)"
    and call: "\<And>W. starting ts t new (fresh_thread name (Some i) g e arg) w W \<Longrightarrow>
      returns (tc_call cb i arg W) (\<lambda>(b, w2). tw_heap w2 t = tw_heap W t \<and> Q W b w2)"
  shows "returns (ThreadStart 0 new [serve cb t] t w) (\<lambda>(r, w'). r \<and>
    (\<exists>W b w2. starting ts t new (fresh_thread name (Some i) g e arg) w W \<and> Q W b w2 \<and>
       w' = put_thread t (live_thread new b (fresh_thread name (Some i) g e arg)) w2))"
proof -
  let ?th = "fresh_thread name (Some i) g e arg"
  let ?th1 = "?th\<lparr>t_lock := Some taken_lock, t_id := new\<rparr>"
  let ?w1 = "put_thread t ?th1 w"
  have "reg_inv ?w1 ts" by (rule reg_inv_upd [OF r(1)]) simp_all
  from addThread_seq [OF this, of t] r(2) obtain ss where
    add: "addThread t ?w1 = Inr (?w1\<lparr>tw_threads := ss, tw_num := tw_num w + 1\<rparr>)"
      "reg_inv (?w1\<lparr>tw_threads := ss, tw_num := tw_num w + 1\<rparr>) (ts @ [t])" by auto
  let ?w2 = "?w1\<lparr>tw_threads := ss, tw_num := tw_num w + 1\<rparr>"
  let ?th2 = "?th1\<lparr>t_condInit := Some (waited free_cond), t_lock := Some free_lock\<rparr>"
  let ?th3 = "?th2\<lparr>t_lock := Some taken_lock, t_running := True\<rparr>"
  let ?W = "put_thread t ?th3 (?w2\<lparr>tw_running := tw_running w + 1\<rparr>)"
  have W: "starting ts t new ?th w ?W" unfolding starting_def
    by (intro conjI reg_inv_upd [OF add(2)]) (simp_all add: fresh_thread_def split: if_splits)
  from call [OF W] obtain b w2 where w2: "tc_call cb i arg ?W = Inr (b, w2)" "tw_heap w2 t = Some ?th3" "Q ?W b w2"
    by (auto elim!: returnsE)
  let ?th4 = "?th3\<lparr>t_initialized := True, t_running := b, t_state := (if b then THREAD_STATE_RUNNING else t_state ?th3), t_lock := Some free_lock\<rparr>"
  have init: "run_init cb t (put_thread t (?th2\<lparr>t_lock := Some taken_lock\<rparr>) ?w2) = Inr (put_thread t (?th4\<lparr>t_lock := Some taken_lock\<rparr>) w2)"
    using w2(1,2) r(3) by (simp add: run_init_def put_thread_def fresh_thread_def NotifyCondition_def)
  have serve: "serve cb t (put_thread t ?th2 ?w2) = Inr (put_thread t ?th4 w2)"
    using init by (simp add: serve_def)
  have "wait_enter t ?w2 = Inr (put_thread t ?th2 ?w2)" by (rule wait_enter_seq) simp_all
  moreover have "wait_leave t (put_thread t ?th4 w2) = Inr (put_thread t (?th4\<lparr>t_condInit := Some (unwaited (waited free_cond)), t_lock := Some taken_lock\<rparr>) w2)"
    by (subst wait_leave_seq [where th = ?th4 and c = "waited free_cond"]) simp_all
  ultimately have wait: "thread_wait (serve cb t) t ?w2 = Inr (put_thread t (?th4\<lparr>t_condInit := Some (unwaited (waited free_cond)), t_lock := Some taken_lock\<rparr>) w2)"
    unfolding thread_wait_def using serve by simp
  have "ThreadStart 0 new [serve cb t] t w = Inr (True, put_thread t (?th4\<lparr>t_condInit := Some (unwaited (waited free_cond))\<rparr>) w2)"
    using t add(1) wait by (simp add: ThreadStart_def put_thread_def) (simp add: fresh_thread_def)
  moreover have "?th4\<lparr>t_condInit := Some (unwaited (waited free_cond))\<rparr> = live_thread new b ?th"
    by (simp add: live_thread_def fresh_thread_def waited_def unwaited_def free_cond_def)
  ultimately show ?thesis using W w2(3) by auto
qed

section \<open>Ending\<close>

text \<open>The world in which a thread that is waited for runs its finalisation.\<close>

definition ending :: "nat list \<Rightarrow> nat \<Rightarrow> ('f, 'd) thread \<Rightarrow> ('f, 'd, 'u) tworld \<Rightarrow> 'u \<Rightarrow> ('f, 'd, 'u) tworld \<Rightarrow> bool" where
  "ending ts t th w u W \<longleftrightarrow> reg_inv W ts \<and> tw_num W = tw_num w \<and> tw_running W = tw_running w - 1 \<and> tw_tick W = tw_tick w \<and>
     tw_user W = u \<and> tw_heap W = (tw_heap w)(t \<mapsto> th\<lparr>t_running := False\<rparr>)"

text \<open>The world after a thread has ended and was freed.\<close>

definition ended :: "nat list \<Rightarrow> nat \<Rightarrow> ('f, 'd, 'u) tworld \<Rightarrow> ('f, 'd, 'u) tworld \<Rightarrow> bool" where
  "ended ts t w w' \<longleftrightarrow> reg_inv w' (removeAll t ts) \<and> tw_num w' = tw_num w \<and> tw_running w' = tw_running w \<and>
     tw_tick w' = tw_tick w \<and> tw_user w' = tw_user w \<and> tw_heap w' = (tw_heap w)(t := None)"

lemma exit_seq:
  assumes "reg_inv w ts" "tw_heap w t = Some th" "t_lock th = Some taken_lock" "t_exit th = Some e"
    and "returns (tc_exit cb e (t_arg th) (put_thread t (th\<lparr>t_lock := Some free_lock\<rparr>) w)) Q"
    and "\<And>w4. Q w4 \<Longrightarrow> reg_inv w4 ts4 \<and> tw_heap w4 t = Some th4 \<and> is_int (tw_running w4 - 1)"
  shows "returns (ThreadCleanup cb t w) (\<lambda>w'. \<exists>w4. Q w4 \<and> tw_running w' = tw_running w4 - 1 \<and> tw_num w' = tw_num w4 \<and>
    tw_tick w' = tw_tick w4 \<and> tw_user w' = tw_user w4 \<and> tw_heap w' = (tw_heap w4)(t \<mapsto> th4\<lparr>t_state := THREAD_STATE_EXITED\<rparr>) \<and>
    reg_inv w' (removeAll t ts4))"
proof -
  from assms(5) obtain w4 where w4: "tc_exit cb e (t_arg th) (put_thread t (th\<lparr>t_lock := Some free_lock\<rparr>) w) = Inr w4" "Q w4"
    by (auto elim!: returnsE)
  let ?n = "nat (tw_num w4)"
  have q: "reg_inv w4 ts4" "tw_heap w4 t = Some th4" "is_int (tw_running w4 - 1)" using assms(6) [OF w4(2)] by auto
  have r: "tw_initialized w4" "\<not> tw_mutex w4" "length (tw_threads w4) = AIO4C_MAX_THREADS" "0 \<le> tw_num w4" "?n \<le> AIO4C_MAX_THREADS"
    "listed (take ?n (tw_threads w4)) = ts4" "\<forall>t \<in> set ts4. tw_heap w4 t \<noteq> None"
    using q(1) by (auto simp: reg_inv_def)
  let ?ss = "cleared t (take ?n (tw_threads w4)) @ drop ?n (tw_threads w4)"
  have c: "clear_slots ?n 0 t (tw_threads w4) = Inr ?ss"
    using clear_slots_seq [of 0 ?n "tw_threads w4" t] r by simp
  let ?w' = "w4\<lparr>tw_heap := (tw_heap w4)(t \<mapsto> th4\<lparr>t_state := THREAD_STATE_EXITED\<rparr>), tw_running := tw_running w4 - 1,
    tw_threads := ?ss, tw_mutex := False\<rparr>"
  have l: "length (cleared t xs) = length xs" for xs by (simp add: cleared_def)
  have "reg_inv ?w' (removeAll t ts4)" using r l by (auto simp: reg_inv_def min_def)
  moreover have "ThreadCleanup cb t w = Inr ?w'"
    using assms(2-4) w4(1) q c r by (simp add: ThreadCleanup_def cleanup_rest_def threads_lock_def threads_unlock_def put_thread_def)
  ultimately show ?thesis using w4(2) by (auto intro!: exI [of _ w4])
qed

text \<open>The thread's loop, from its lock being free to the round that ends it.\<close>

definition looped :: "('f, 'd, 'u) tcallbacks \<Rightarrow> nat \<Rightarrow> nat \<Rightarrow> ('f, 'd) thread \<Rightarrow> 'u \<Rightarrow> ('f, 'd, 'u) tworld \<Rightarrow> bool" where
  "looped cb k t th u w \<longleftrightarrow> run_loop cb k t (put_thread t (th\<lparr>t_lock := Some taken_lock\<rparr>) w) =
     Inr (put_thread t (th\<lparr>t_lock := Some taken_lock, t_running := False\<rparr>) (w\<lparr>tw_user := u\<rparr>))"

lemma looped_last:
  assumes "t_lock th = Some free_lock" "t_running th" "t_run th = Some g"
    and "\<And>W. tw_user W = tw_user w \<Longrightarrow> tc_call cb g (t_arg th) W = Inr (False, W\<lparr>tw_user := u\<rparr>)"
  shows "looped cb (Suc (Suc f)) t th u w"
proof -
  have th: "th\<lparr>t_lock := Some free_lock\<rparr> = th" using assms(1) by (cases th) simp
  show ?thesis using assms(1-3) assms(4) [of "put_thread t th w"] by (simp add: looped_def put_thread_def th)
qed

lemma looped_again:
  assumes "t_lock th = Some free_lock" "t_running th" "t_run th = Some g"
    and "\<And>W. tw_user W = tw_user w \<Longrightarrow> tc_call cb g (t_arg th) W = Inr (True, W\<lparr>tw_user := u1\<rparr>)"
    and "looped cb k t th u (w\<lparr>tw_user := u1\<rparr>)"
  shows "looped cb (Suc k) t th u w"
proof -
  have th: "th\<lparr>t_lock := Some free_lock\<rparr> = th" "th\<lparr>t_lock := Some taken_lock, t_running := True\<rparr> = th\<lparr>t_lock := Some taken_lock\<rparr>"
    using assms(1,2) by (cases th; simp)+
  show ?thesis using assms(1-3,5) assms(4) [of "put_thread t th w"] by (simp add: looped_def put_thread_def th)
qed

lemma join_loop_seq:
  assumes r: "reg_inv w ts" "is_int (tw_running w - 1)" and t: "tw_heap w t = Some th"
    and th: "t_lock th = Some free_lock" "t_condInit th = Some c" "t_running th" "t_exit th = Some e"
    and loop: "looped cb k t th u (w\<lparr>tw_running := tw_running w - 1\<rparr>)"
    and exit: "\<And>W. ending ts t th w u W \<Longrightarrow> returns (tc_exit cb e (t_arg th) W) Q"
    and Q: "\<And>w4. Q w4 \<Longrightarrow> reg_inv w4 ts4 \<and> tw_heap w4 t = Some (th\<lparr>t_running := False\<rparr>) \<and> is_int (tw_running w4 - 1) \<and> is_int (tw_running w4)"
  shows "returns (ThreadJoin (finish cb k t) (Some t) w) (\<lambda>w'. \<exists>w4. Q w4 \<and> ended ts4 t w4 w')"
proof -
  let ?w = "w\<lparr>tw_running := tw_running w - 1\<rparr>"
  let ?th2 = "th\<lparr>t_lock := Some taken_lock, t_running := False\<rparr>"
  let ?w2 = "put_thread t ?th2 (?w\<lparr>tw_user := u\<rparr>)"
  have th_lock: "th\<lparr>t_running := False, t_lock := Some free_lock\<rparr> = th\<lparr>t_running := False\<rparr>"
    using th(1) by (cases th) simp
  have reg2: "reg_inv ?w2 ts" by (rule reg_inv_upd [OF r(1)]) simp_all
  have W: "ending ts t th w u (put_thread t (?th2\<lparr>t_lock := Some free_lock\<rparr>) ?w2)" unfolding ending_def
    using th_lock by (auto intro!: reg_inv_upd [OF r(1)])
  have "returns (ThreadCleanup cb t ?w2) (\<lambda>w'. \<exists>w4. Q w4 \<and> tw_running w' = tw_running w4 - 1 \<and> tw_num w' = tw_num w4 \<and>
    tw_tick w' = tw_tick w4 \<and> tw_user w' = tw_user w4 \<and> tw_heap w' = (tw_heap w4)(t \<mapsto> th\<lparr>t_running := False, t_state := THREAD_STATE_EXITED\<rparr>) \<and>
    reg_inv w' (removeAll t ts4))"
    by (rule exit_seq [OF reg2, where th = ?th2 and e = e]) (use th exit [OF W] Q in auto)
  then obtain w3 w4 where w3: "ThreadCleanup cb t ?w2 = Inr w3" "Q w4" "tw_running w3 = tw_running w4 - 1" "tw_num w3 = tw_num w4"
    "tw_tick w3 = tw_tick w4" "tw_user w3 = tw_user w4" "tw_heap w3 = (tw_heap w4)(t \<mapsto> th\<lparr>t_running := False, t_state := THREAD_STATE_EXITED\<rparr>)"
    "reg_inv w3 (removeAll t ts4)" by (auto elim!: returnsE)
  have others: "finish cb k t ?w = Inr w3"
    using t th(1) loop w3(1) by (simp add: finish_def looped_def del: run_loop.simps)
  let ?w5 = "w3\<lparr>tw_running := tw_running w4, tw_heap := (tw_heap w4)(t := None)\<rparr>"
  have "ThreadJoin (finish cb k t) (Some t) w = Inr ?w5"
    using t th r(2) others w3 Q [OF w3(2)]
    by (simp add: ThreadJoin_def ThreadRunning_def FreeThread_def put_thread_def del: run_loop.simps)
  moreover have "ended ts4 t w4 ?w5" unfolding ended_def
    using w3 by (auto simp: reg_inv_def)
  ultimately show ?thesis using w3(2) by auto
qed

lemma join_seq:
  assumes r: "reg_inv w ts" "is_int (tw_running w - 1)" and t: "tw_heap w t = Some th"
    and th: "t_lock th = Some free_lock" "t_condInit th = Some c" "t_running th" "t_run th = Some g" "t_exit th = Some e"
    and run: "\<And>W. tw_user W = tw_user w \<Longrightarrow> tc_call cb g (t_arg th) W = Inr (False, W\<lparr>tw_user := u\<rparr>)"
    and exit: "\<And>W. ending ts t th w u W \<Longrightarrow> returns (tc_exit cb e (t_arg th) W) Q"
    and Q: "\<And>w4. Q w4 \<Longrightarrow> reg_inv w4 ts4 \<and> tw_heap w4 t = Some (th\<lparr>t_running := False\<rparr>) \<and> is_int (tw_running w4 - 1) \<and> is_int (tw_running w4)"
  shows "returns (ThreadJoin (finish cb (Suc (Suc f)) t) (Some t) w) (\<lambda>w'. \<exists>w4. Q w4 \<and> ended ts4 t w4 w')"
  by (rule join_loop_seq [OF r t th(1-3,5) looped_last [OF th(1,3,4)] exit Q]) (use run in simp_all)

end
