(* ===== verification/PipeLife.thy ===== *)
theory PipeLife
  imports PipeFlow ThreadLife
begin

text \<open>
  The life of a pipe: the functions of \<open>src/reader.c\<close>, \<open>src/worker.c\<close> and \<open>src/writer.c\<close> that create and
  end its three threads, on the threads of the theory Threads. A thread that starts or joins another
  gives way to it.
\<close>

section \<open>Functions of the threads\<close>

text \<open>The functions that the program hands to \<open>NewThread\<close>, here those of the pipes and of what is built on them.\<close>

datatype thread_fun =
    T_WriterInit | T_WriterRun | T_WriterExit | T_WorkerInit | T_WorkerRun | T_WorkerExit
  | T_ReaderInit | T_ReaderRun | T_ReaderExit | T_ClientInit | T_ClientRun | T_ClientExit
  | T_AcceptorInit | T_AcceptorRun | T_AcceptorExit | T_ServerInit | T_ServerRun | T_ServerExit

type_synonym ('f, 'd, 'x) pthreads = "(thread_fun, unit, ('f, 'd, 'x) psys) tworld"

text \<open>
  What the system answers when a thread is created: the allocations of its structure, its name and
  of what \<open>NewThread\<close> makes, and \<open>pthread_create\<close>.
\<close>

record start_env =
  se_mem :: bool
  se_name :: bool
  se_thread :: "bool \<times> bool \<times> bool"
  se_create :: int
  se_id :: nat

type_synonym queue_env = "bool \<times> (bool \<times> int) \<times> (bool \<times> int)"

definition make_queue :: "queue_env \<Rightarrow> nat queue option" where
  "make_queue e = NewQueue (fst e) (fst (snd e)) (snd (snd e))"

text \<open>
  The answers for a pipe; the waits and system calls of the rounds of its threads; \<open>le_fuel\<close> bounds
  the loops that have no other bound.
\<close>

record life_env =
  le_penv :: penv
  le_writer :: start_env
  le_worker :: start_env
  le_reader :: start_env
  le_writer_queue :: queue_env
  le_worker_queue :: queue_env
  le_reader_queue :: queue_env
  le_pool :: bool
  le_pool_queue :: queue_env
  le_selector :: new_selector_env
  le_selector_lock :: "lock option"
  le_writer_rounds :: "(nat wake list \<times> (nat \<Rightarrow> nat option)) list"
  le_worker_rounds :: "nat wake list list"
  le_polls :: "poll_result list"
  le_reader_rounds :: "(op option \<times> (int \<Rightarrow> byte list option)) list"
  le_fuel :: nat

text \<open>\<open>snprintf(name, strlen(pipeName) + 1 + 7, "%s-...", pipeName)\<close>: the suffixes have seven characters.\<close>

definition thread_name :: "bool \<Rightarrow> string option \<Rightarrow> string \<Rightarrow> string option" where
  "thread_name ok pipeName suffix = (if ok then map_option (\<lambda>p. p @ suffix) pipeName else None)"

definition make_thread ::
  "start_env \<Rightarrow> string option \<Rightarrow> thread_fun \<Rightarrow> thread_fun \<Rightarrow> thread_fun \<Rightarrow> ('f, 'd, 'x) pthreads \<Rightarrow> nat option \<times> ('f, 'd, 'x) pthreads" where
  "make_thread e name i r x w =
     (case se_thread e of (mem, lk, cd) \<Rightarrow>
        NewThread mem lk cd name (Some i) (Some r) (Some x) (Some ()) w)"

abbreviation on_psys :: "(('f, 'd, 'x) psys \<Rightarrow> ('f, 'd, 'x) psys) \<Rightarrow> ('f, 'd, 'x) pthreads \<Rightarrow> ('f, 'd, 'x) pthreads" where
  "on_psys g w \<equiv> w\<lparr>tw_user := g (tw_user w)\<rparr>"

definition psys_call ::
  "(('f, 'd, 'x) psys \<Rightarrow> ('a \<times> ('f, 'd, 'x) psys) res) \<Rightarrow> ('f, 'd, 'x) pthreads \<Rightarrow> ('a \<times> ('f, 'd, 'x) pthreads) res" where
  "psys_call g w = bnd (g (tw_user w)) (\<lambda>(b, s). Inr (b, w\<lparr>tw_user := s\<rparr>))"

abbreviation set_writer :: "writer option \<Rightarrow> ('f, 'd, 'x) psys \<Rightarrow> ('f, 'd, 'x) psys" where
  "set_writer wr \<equiv> on_pipe (\<lambda>p. p\<lparr>pp_writer := wr\<rparr>)"

abbreviation set_worker :: "worker option \<Rightarrow> ('f, 'd, 'x) psys \<Rightarrow> ('f, 'd, 'x) psys" where
  "set_worker wk \<equiv> on_pipe (\<lambda>p. p\<lparr>pp_worker := wk\<rparr>)"

abbreviation set_reader :: "reader \<Rightarrow> ('f, 'd, 'x) psys \<Rightarrow> ('f, 'd, 'x) psys" where
  "set_reader rd \<equiv> on_pipe (\<lambda>p. p\<lparr>pp_reader := rd\<rparr>)"

section \<open>The writer\<close>

definition writer_threads :: "life_env \<Rightarrow> ('f, 'd, 'x) ucallbacks \<Rightarrow> (thread_fun, unit, ('f, 'd, 'x) psys) tcallbacks" where
  "writer_threads L ucb =
     \<lparr>tc_call = (\<lambda>g _. psys_call (if g = T_WriterInit then
          (\<lambda>s. bnd (deref (pp_writer (ps_pipe s))) (\<lambda>wr.
             case WriterInit (make_queue (le_writer_queue L)) wr of (b, wr') \<Rightarrow> Inr (b, set_writer (Some wr') s)))
        else WriterRun (le_penv L) ucb (le_writer_rounds L))),
      tc_exit = (\<lambda>_ _ w. bnd (deref (pp_writer (ps_pipe (tw_user w)))) (\<lambda>wr.
        bnd (WriterExit wr) (\<lambda>wr'. Inr (on_psys (set_writer (Some wr')) w))))\<rparr>"

text \<open>
  \<open>worker->writer = NewWriter(worker->pipe, worker->bufferSize)\<close>; the result says whether that is not
  NULL.
\<close>

definition NewWriter ::
  "life_env \<Rightarrow> ('f, 'd, 'x) ucallbacks \<Rightarrow> string option \<Rightarrow> int \<Rightarrow> ('f, 'd, 'x) pthreads \<Rightarrow> (bool \<times> ('f, 'd, 'x) pthreads) res" where
  "NewWriter L ucb pipeName bufferSize w =
     (if \<not> se_mem (le_writer L) then Inr (False, on_psys (set_writer None) w)
      else
        let name = thread_name (se_name (le_writer L)) pipeName ''-writer'';
            wr = \<lparr>wr_name = name, wr_thread = None, wr_bufferSize = bufferSize, wr_queue = None\<rparr> in
        case make_thread (le_writer L) name T_WriterInit T_WriterRun T_WriterExit w of
          (None, w1) \<Rightarrow> Inr (False, on_psys (set_writer None) w1)
        | (Some t, w1) \<Rightarrow>
            bnd (ThreadStart (se_create (le_writer L)) (se_id (le_writer L)) [serve (writer_threads L ucb) t] t
                   (on_psys (set_writer (Some (wr\<lparr>wr_thread := Some t\<rparr>))) w1)) (\<lambda>(started, w2).
            if \<not> started then Inr (False, on_psys (set_writer None) w2) else Inr (True, w2)))"

definition WriterEnd :: "life_env \<Rightarrow> ('f, 'd, 'x) ucallbacks \<Rightarrow> ('f, 'd, 'x) pthreads \<Rightarrow> ('f, 'd, 'x) pthreads res" where
  "WriterEnd L ucb w =
     bnd (deref (pp_writer (ps_pipe (tw_user w)))) (\<lambda>wr.
     bnd (case wr_thread wr of
            None \<Rightarrow> Inr w
          | Some t \<Rightarrow>
              bnd (Enqueue_ptr (pe_okq (le_penv L)) (wr_queue wr) ITEM_EXIT) (\<lambda>(_, q').
              ThreadJoin (finish (writer_threads L ucb) (le_fuel L) t) (Some t)
                (on_psys (set_writer (Some (wr\<lparr>wr_queue := q'\<rparr>))) w))) (\<lambda>w1.
     Inr (on_psys (set_writer None) w1)))"

section \<open>The worker\<close>

definition WorkerInit :: "life_env \<Rightarrow> ('f, 'd, 'x) ucallbacks \<Rightarrow> ('f, 'd, 'x) pthreads \<Rightarrow> (bool \<times> ('f, 'd, 'x) pthreads) res" where
  "WorkerInit L ucb w =
     bnd (deref (pp_worker (ps_pipe (tw_user w)))) (\<lambda>wk.
     let q = make_queue (le_worker_queue L); wk1 = wk\<lparr>wk_queue := q\<rparr>; w1 = on_psys (set_worker (Some wk1)) w in
     if q = None then Inr (False, w1)
     else
       bnd (NewBufferPool (pe_okb (le_penv L)) (pe_okq (le_penv L)) (le_pool L) (make_queue (le_pool_queue L))
              (wk_bufferSize wk1) (ps_mem (tw_user w1))) (\<lambda>(pool, m).
       let wk2 = wk1\<lparr>wk_pool := pool\<rparr>; w2 = on_psys (\<lambda>s. set_worker (Some wk2) (s\<lparr>ps_mem := m\<rparr>)) w1 in
       if pool = None then Inr (False, w2)
       else NewWriter L ucb (wk_pipe wk2) (wk_bufferSize wk2) w2))"

definition WorkerExit :: "life_env \<Rightarrow> ('f, 'd, 'x) ucallbacks \<Rightarrow> ('f, 'd, 'x) pthreads \<Rightarrow> ('f, 'd, 'x) pthreads res" where
  "WorkerExit L ucb w =
     bnd (if pp_writer (ps_pipe (tw_user w)) \<noteq> None then WriterEnd L ucb w else Inr w) (\<lambda>w1.
     bnd (deref (pp_worker (ps_pipe (tw_user w1)))) (\<lambda>wk.
     bnd (FreeQueue (wk_queue wk)) (\<lambda>(q, _).
     bnd (FreeBufferPool (le_fuel L) (pe_okq (le_penv L)) (pe_item (le_penv L)) (wk_pool wk) (ps_mem (tw_user w1))) (\<lambda>(pool, m).
     Inr (on_psys (\<lambda>s. set_worker (Some (wk\<lparr>wk_queue := q, wk_pool := pool\<rparr>)) (s\<lparr>ps_mem := m\<rparr>)) w1)))))"

definition worker_threads :: "life_env \<Rightarrow> ('f, 'd, 'x) ucallbacks \<Rightarrow> (thread_fun, unit, ('f, 'd, 'x) psys) tcallbacks" where
  "worker_threads L ucb =
     \<lparr>tc_call = (\<lambda>g _. if g = T_WorkerInit then WorkerInit L ucb else psys_call (WorkerRun (le_penv L) ucb (le_worker_rounds L))),
      tc_exit = (\<lambda>_ _. WorkerExit L ucb)\<rparr>"

definition NewWorker ::
  "life_env \<Rightarrow> ('f, 'd, 'x) ucallbacks \<Rightarrow> string option \<Rightarrow> int \<Rightarrow> ('f, 'd, 'x) pthreads \<Rightarrow> (bool \<times> ('f, 'd, 'x) pthreads) res" where
  "NewWorker L ucb pipeName bufferSize w =
     (if \<not> se_mem (le_worker L) then Inr (False, on_psys (set_worker None) w)
      else
        let name = thread_name (se_name (le_worker L)) pipeName ''-worker'';
            wk = \<lparr>wk_name = name, wk_pipe = pipeName, wk_thread = None, wk_bufferSize = bufferSize, wk_queue = None, wk_pool = None\<rparr> in
        case make_thread (le_worker L) name T_WorkerInit T_WorkerRun T_WorkerExit w of
          (None, w1) \<Rightarrow> Inr (False, on_psys (set_worker None) w1)
        | (Some t, w1) \<Rightarrow>
            bnd (ThreadStart (se_create (le_worker L)) (se_id (le_worker L)) [serve (worker_threads L ucb) t] t
                   (on_psys (\<lambda>s. set_writer None (set_worker (Some (wk\<lparr>wk_thread := Some t\<rparr>)) s)) w1)) (\<lambda>(started, w2).
            if \<not> started then Inr (False, on_psys (set_worker None) w2) else Inr (True, w2)))"

definition WorkerEnd :: "life_env \<Rightarrow> ('f, 'd, 'x) ucallbacks \<Rightarrow> ('f, 'd, 'x) pthreads \<Rightarrow> ('f, 'd, 'x) pthreads res" where
  "WorkerEnd L ucb w =
     bnd (deref (pp_worker (ps_pipe (tw_user w)))) (\<lambda>wk.
     bnd (case wk_thread wk of
            None \<Rightarrow> Inr w
          | Some t \<Rightarrow>
              bnd (Enqueue_ptr (pe_okq (le_penv L)) (wk_queue wk) ITEM_EXIT) (\<lambda>(_, q').
              ThreadJoin (finish (worker_threads L ucb) (le_fuel L) t) (Some t)
                (on_psys (set_worker (Some (wk\<lparr>wk_queue := q'\<rparr>))) w))) (\<lambda>w1.
     Inr (on_psys (set_worker None) w1)))"

section \<open>The reader\<close>

definition ReaderInit :: "life_env \<Rightarrow> ('f, 'd, 'x) ucallbacks \<Rightarrow> ('f, 'd, 'x) pthreads \<Rightarrow> (bool \<times> ('f, 'd, 'x) pthreads) res" where
  "ReaderInit L ucb w =
     (let rd = the_reader (tw_user w); sel = fst (NewSelector (le_selector L) (le_selector_lock L));
          rd1 = rd\<lparr>rd_selector := sel\<rparr> in
      if sel = None then Inr (False, on_psys (set_reader rd1) w)
      else
        let q = make_queue (le_reader_queue L); w1 = on_psys (set_reader (rd1\<lparr>rd_queue := q\<rparr>)) w in
        if q = None then Inr (False, w1)
        else NewWorker L ucb (rd_pipe rd1) (rd_bufferSize rd1) w1)"

definition ReaderExit :: "life_env \<Rightarrow> ('f, 'd, 'x) ucallbacks \<Rightarrow> ('f, 'd, 'x) pthreads \<Rightarrow> ('f, 'd, 'x) pthreads res" where
  "ReaderExit L ucb w =
     bnd (if pp_worker (ps_pipe (tw_user w)) \<noteq> None then WorkerEnd L ucb w else Inr w) (\<lambda>w1.
     bnd (FreeQueue (rd_queue (the_reader (tw_user w1)))) (\<lambda>(q, _).
     Inr (on_psys (upd_reader (\<lambda>r. r\<lparr>rd_queue := q\<rparr>)) w1)))"

definition reader_threads :: "life_env \<Rightarrow> ('f, 'd, 'x) ucallbacks \<Rightarrow> (thread_fun, unit, ('f, 'd, 'x) psys) tcallbacks" where
  "reader_threads L ucb =
     \<lparr>tc_call = (\<lambda>g _. if g = T_ReaderInit then ReaderInit L ucb
        else psys_call (ReaderRun (le_fuel L) (le_penv L) ucb (le_polls L) (le_reader_rounds L))),
      tc_exit = (\<lambda>_ _. ReaderExit L ucb)\<rparr>"

text \<open>The result says whether \<open>NewReader\<close> returns a reader. \<open>FreeSelector\<close> only runs when it does not.\<close>

definition drop_selector :: "('f, 'd, 'x) pthreads \<Rightarrow> ('f, 'd, 'x) pthreads res" where
  "drop_selector w =
     bnd (FreeSelector (rd_selector (the_reader (tw_user w)))) (\<lambda>(sel, _, _).
     Inr (on_psys (upd_reader (\<lambda>r. r\<lparr>rd_selector := sel\<rparr>)) w))"

definition NewReader ::
  "life_env \<Rightarrow> ('f, 'd, 'x) ucallbacks \<Rightarrow> string option \<Rightarrow> int \<Rightarrow> ('f, 'd, 'x) pthreads \<Rightarrow> (bool \<times> ('f, 'd, 'x) pthreads) res" where
  "NewReader L ucb pipeName bufferSize w =
     (if \<not> se_mem (le_reader L) then Inr (False, w)
      else
        let name = thread_name (se_name (le_reader L)) pipeName ''-reader'';
            rd = \<lparr>rd_name = name, rd_pipe = pipeName, rd_thread = None, rd_queue = None, rd_selector = None, rd_load = 0,
                  rd_bufferSize = bufferSize\<rparr> in
        case make_thread (le_reader L) name T_ReaderInit T_ReaderRun T_ReaderExit w of
          (None, w1) \<Rightarrow> bnd (drop_selector (on_psys (set_reader rd) w1)) (\<lambda>w2. Inr (False, w2))
        | (Some t, w1) \<Rightarrow>
            bnd (ThreadStart (se_create (le_reader L)) (se_id (le_reader L)) [serve (reader_threads L ucb) t] t
                   (on_psys (\<lambda>s. set_worker None (set_reader (rd\<lparr>rd_thread := Some t\<rparr>) s)) w1)) (\<lambda>(started, w2).
            if \<not> started then bnd (drop_selector w2) (\<lambda>w3. Inr (False, w3)) else Inr (True, w2)))"

definition ReaderEnd :: "life_env \<Rightarrow> ('f, 'd, 'x) ucallbacks \<Rightarrow> ('f, 'd, 'x) pthreads \<Rightarrow> ('f, 'd, 'x) pthreads res" where
  "ReaderEnd L ucb w =
     bnd (let rd = the_reader (tw_user w) in
          case rd_thread rd of
            None \<Rightarrow> Inr w
          | Some t \<Rightarrow>
              bnd (Enqueue_ptr (pe_okq (le_penv L)) (rd_queue rd) ITEM_EXIT) (\<lambda>(_, q').
              let rd1 = rd\<lparr>rd_queue := q'\<rparr>;
                  rd2 = (case rd_selector rd1 of None \<Rightarrow> rd1
                         | Some sel \<Rightarrow> rd1\<lparr>rd_selector := Some (SelectorWakeUp (fst (pe_wake (le_penv L))) (snd (pe_wake (le_penv L))) sel)\<rparr>) in
              ThreadJoin (finish (reader_threads L ucb) (le_fuel L) t) (Some t) (on_psys (set_reader rd2) w))) (\<lambda>w1.
     bnd (drop_selector w1) (\<lambda>w2.
     Inr (on_psys (upd_reader (\<lambda>r. r\<lparr>rd_name := None, rd_pipe := None\<rparr>)) w2)))"

section \<open>Starting a pipe\<close>

text \<open>Every call of the system succeeds, and the loops have fuel for sixteen buffers.\<close>

definition good_start :: "start_env \<Rightarrow> bool" where
  "good_start e \<longleftrightarrow> se_mem e \<and> se_thread e = (True, True, True) \<and> se_create e = 0"

definition good_queue :: "queue_env \<Rightarrow> bool" where
  "good_queue e \<longleftrightarrow> e = (True, (True, 0), (True, 0))"

definition calm_life :: "life_env \<Rightarrow> bool" where
  "calm_life L \<longleftrightarrow> calm_env (le_penv L) \<and> good_start (le_writer L) \<and> good_start (le_worker L) \<and> good_start (le_reader L) \<and>
     good_queue (le_writer_queue L) \<and> good_queue (le_worker_queue L) \<and> good_queue (le_reader_queue L) \<and> good_queue (le_pool_queue L) \<and>
     le_pool L \<and> ns_mem (le_selector L) \<and> ns_polls_mem (le_selector L) \<and> ns_pipe (le_selector L) \<noteq> None \<and>
     ns_fcntl_read (le_selector L) \<and> ns_fcntl_write (le_selector L) \<and> le_selector_lock L = Some free_lock \<and>
     (\<exists>sn rs. le_writer_rounds L = ([], sn) # rs) \<and> (\<exists>rs. le_worker_rounds L = [] # rs) \<and> 18 \<le> le_fuel L"

lemma calm_life_queues:
  assumes "calm_life L"
  shows "make_queue (le_writer_queue L) = Some new_queue" "make_queue (le_worker_queue L) = Some new_queue"
    "make_queue (le_reader_queue L) = Some new_queue" "make_queue (le_pool_queue L) = NewQueue True (True, 0) (True, 0)"
  using assms by (simp_all add: calm_life_def good_queue_def make_queue_def NewQueue_ok)

lemma calm_life_selector:
  assumes "calm_life L"
  obtains r x where "ns_pipe (le_selector L) = Some (r, x)" "fst (NewSelector (le_selector L) (le_selector_lock L)) = Some (new_selector r x)"
  using assms by (auto simp: calm_life_def NewSelector_def new_selector_def)

lemma make_thread_seq:
  "good_start e \<Longrightarrow> tw_num w < int AIO4C_MAX_THREADS \<Longrightarrow>
   make_thread e name i r x w = (Some (tw_tick w), w\<lparr>tw_tick := Suc (tw_tick w),
     tw_heap := (tw_heap w)(tw_tick w \<mapsto> fresh_thread name (Some i) (Some r) (Some x) (Some ()))\<rparr>)"
  by (simp add: make_thread_def good_start_def NewThread_seq)

text \<open>What the start of some threads does to the registry.\<close>

definition threads_added ::
  "(nat \<times> ('f, 'd) thread) list \<Rightarrow> nat list \<Rightarrow> ('f, 'd, 'u) tworld \<Rightarrow> ('f, 'd, 'u) tworld \<Rightarrow> bool" where
  "threads_added new ts w w' \<longleftrightarrow> reg_inv w' (ts @ map fst new) \<and> tw_num w' = tw_num w + int (length new) \<and>
     tw_running w' = tw_running w + int (length new) \<and> tw_tick w' = tw_tick w + length new \<and>
     map fst new = [tw_tick w..<tw_tick w + length new] \<and> tw_heap w' = tw_heap w ++ map_of new"

lemma threads_added_new: "threads_added new ts w w' \<Longrightarrow> t < tw_tick w \<Longrightarrow> map_of new t = None"
proof -
  assume a: "threads_added new ts w w'" "t < tw_tick w"
  have "fst ` set new = set [tw_tick w..<tw_tick w + length new]" using a(1) by (simp add: threads_added_def flip: set_map)
  with a(2) show ?thesis by (simp add: map_of_eq_None_iff)
qed

definition pipe_thread :: "thread_fun \<Rightarrow> thread_fun \<Rightarrow> (thread_fun, unit) thread \<Rightarrow> bool" where
  "pipe_thread r x th \<longleftrightarrow> t_lock th = Some free_lock \<and> t_condInit th = Some free_cond \<and> t_running th \<and> t_run th = Some r \<and>
     t_exit th = Some x \<and> t_arg th = Some ()"

lemma pipe_thread_live: "pipe_thread r x (live_thread new True (fresh_thread name i (Some r) (Some x) (Some ())))"
  by (simp add: pipe_thread_def live_thread_def)

text \<open>
  Creating and starting one thread. Its initialisation sees the world with the thread registered and
  may start the threads \<open>new'\<close>.
\<close>

lemma spawn_seq:
  assumes e: "good_start e" and r: "reg_inv w ts" "tw_num w < int AIO4C_MAX_THREADS" "is_int (tw_running w + 1)"
    and w1: "make_thread e name i g x w = (Some t, w1)"
    and init: "\<And>W. reg_inv W (ts @ [t]) \<Longrightarrow> tw_num W = tw_num w + 1 \<Longrightarrow> tw_running W = tw_running w + 1 \<Longrightarrow> tw_tick W = Suc t \<Longrightarrow>
      tw_user W = h (tw_user w) \<Longrightarrow>
      returns (tc_call cb i (Some ()) W) (\<lambda>(b, w2). b \<and> (\<exists>new'. threads_added new' (ts @ [t]) W w2 \<and> P new' (tw_user w2)))"
  shows "returns (ThreadStart (se_create e) (se_id e) [serve cb t] t (on_psys h w1)) (\<lambda>(b, w'). b \<and> (\<exists>th new'. pipe_thread g x th \<and>
    threads_added ((t, th) # new') ts w w' \<and> P new' (tw_user w')))"
proof -
  let ?th = "fresh_thread name (Some i) (Some g) (Some x) (Some ())"
  have t: "t = tw_tick w" and w1: "w1 = w\<lparr>tw_tick := Suc t, tw_heap := (tw_heap w)(t \<mapsto> ?th)\<rparr>"
    using w1 by (auto simp: make_thread_seq [OF e r(2)])
  let ?w = "on_psys h w1" and ?Q = "\<lambda>W b w2. b \<and> (\<exists>new'. threads_added new' (ts @ [t]) W w2 \<and> P new' (tw_user w2))"
  have c0: "se_create e = 0" using e by (simp add: good_start_def)
  have reg: "reg_inv ?w ts" by (rule reg_inv_upd [OF r(1)]) (simp_all add: w1)
  have call: "returns (tc_call cb i (Some ()) W) (\<lambda>(b, w2). tw_heap w2 t = tw_heap W t \<and> ?Q W b w2)"
    if W: "starting ts t (se_id e) ?th ?w W" for W
  proof -
    have "reg_inv W (ts @ [t])" "tw_num W = tw_num w + 1" "tw_running W = tw_running w + 1" "tw_tick W = Suc t" "tw_user W = h (tw_user w)"
      using W by (simp_all add: starting_def w1)
    from init [OF this] obtain w2 new' where n: "threads_added new' (ts @ [t]) W w2" "P new' (tw_user w2)"
      and c: "tc_call cb i (Some ()) W = Inr (True, w2)" by (auto elim!: returnsE)
    have "map_of new' t = None" by (rule threads_added_new [OF n(1)]) (simp add: \<open>tw_tick W = Suc t\<close>)
    then have "tw_heap w2 t = tw_heap W t" using n(1) by (simp add: threads_added_def map_add_def)
    with n c show ?thesis by auto
  qed
  let ?l = "live_thread (se_id e) True ?th"
  have "returns (ThreadStart 0 (se_id e) [serve cb t] t ?w) (\<lambda>(b, w'). b \<and>
    (\<exists>W b w2. starting ts t (se_id e) ?th ?w W \<and> ?Q W b w2 \<and> w' = put_thread t (live_thread (se_id e) b ?th) w2))"
    by (rule start_seq [OF reg, where Q = ?Q]) (use r call in \<open>simp_all add: w1\<close>)
  then obtain W w2 new' where s: "ThreadStart 0 (se_id e) [serve cb t] t ?w = Inr (True, put_thread t ?l w2)"
    and W: "starting ts t (se_id e) ?th ?w W" and n: "threads_added new' (ts @ [t]) W w2" "P new' (tw_user w2)"
    by (auto elim!: returnsE)
  have tick: "tw_tick W = Suc t" using W by (simp add: starting_def w1)
  have nt: "map_of new' t = None" by (rule threads_added_new [OF n(1)]) (simp add: tick)
  have "reg_inv w2 ((ts @ [t]) @ map fst new')" using n(1) unfolding threads_added_def by blast
  then have "reg_inv (put_thread t ?l w2) ((ts @ [t]) @ map fst new')" by (rule reg_inv_upd) simp_all
  moreover have "tw_heap (put_thread t ?l w2) = tw_heap w ++ map_of ((t, ?l) # new')"
    using n(1) W nt by (auto simp: threads_added_def starting_def w1 fun_eq_iff map_add_def split: option.splits)
  moreover have "[t..<t + length ((t, ?l) # new')] = t # [Suc t..<Suc t + length new']" by (simp add: upt_rec)
  ultimately have "threads_added ((t, ?l) # new') ts w (put_thread t ?l w2)"
    using n(1) W tick by (simp add: threads_added_def starting_def w1 t del: upt_Suc)
  then show ?thesis using s n(2) unfolding c0 by (auto intro!: exI [of _ ?l] pipe_thread_live)
qed

text \<open>The structures of a started pipe.\<close>

definition up_writer :: "life_env \<Rightarrow> string option \<Rightarrow> int \<Rightarrow> nat \<Rightarrow> writer" where
  "up_writer L nm n t = \<lparr>wr_name = thread_name (se_name (le_writer L)) nm ''-writer'', wr_thread = Some t, wr_bufferSize = n,
     wr_queue = Some new_queue\<rparr>"

definition up_worker :: "life_env \<Rightarrow> string option \<Rightarrow> int \<Rightarrow> nat \<Rightarrow> nat \<Rightarrow> worker" where
  "up_worker L nm n t pr = \<lparr>wk_name = thread_name (se_name (le_worker L)) nm ''-worker'', wk_pipe = nm, wk_thread = Some t,
     wk_bufferSize = n, wk_queue = Some new_queue, wk_pool = Some pr\<rparr>"

definition up_reader :: "life_env \<Rightarrow> string option \<Rightarrow> int \<Rightarrow> nat \<Rightarrow> int \<times> int \<Rightarrow> reader" where
  "up_reader L nm n t fds = \<lparr>rd_name = thread_name (se_name (le_reader L)) nm ''-reader'', rd_pipe = nm, rd_thread = Some t,
     rd_queue = Some new_queue, rd_selector = Some (new_selector (fst fds) (snd fds)), rd_load = 0, rd_bufferSize = n\<rparr>"

definition room :: "nat \<Rightarrow> ('f, 'd, 'u) tworld \<Rightarrow> bool" where
  "room k w \<longleftrightarrow> tw_num w + int k \<le> int AIO4C_MAX_THREADS \<and> 0 \<le> tw_running w \<and> tw_running w + int k \<le> INT_MAX"

lemma roomD: "room (Suc k) w \<Longrightarrow> tw_num w < int AIO4C_MAX_THREADS" "room (Suc k) w \<Longrightarrow> is_int (tw_running w + 1)"
  "room (Suc k) w \<Longrightarrow> tw_num W = tw_num w + 1 \<Longrightarrow> tw_running W = tw_running w + 1 \<Longrightarrow> room k W"
  by (auto simp: room_def is_int_def INT_MIN_def)

lemma threads_added_none: "reg_inv w ts \<Longrightarrow> threads_added [] ts w w"
  by (simp add: threads_added_def)

lemma threads_added_user [simp]: "threads_added new ts w (w'\<lparr>tw_user := u\<rparr>) = threads_added new ts w w'"
  "threads_added new ts (w\<lparr>tw_user := u\<rparr>) w' = threads_added new ts w w'"
  by (simp_all add: threads_added_def reg_inv_def)

lemma NewWriter_seq:
  assumes L: "calm_life L" and r: "reg_inv w ts" "room 1 w"
  shows "returns (NewWriter L ucb nm n w) (\<lambda>(b, w'). b \<and> (\<exists>th. pipe_thread T_WriterRun T_WriterExit th \<and>
    threads_added [(tw_tick w, th)] ts w w' \<and> tw_user w' = set_writer (Some (up_writer L nm n (tw_tick w))) (tw_user w)))"
proof -
  let ?t = "tw_tick w" and ?e = "le_writer L"
  let ?name = "thread_name (se_name ?e) nm ''-writer''"
  have e: "good_start ?e" using L by (simp add: calm_life_def)
  note rm = roomD [of 0 w, simplified, OF r(2) [simplified]]
  obtain w1 where w1: "make_thread ?e ?name T_WriterInit T_WriterRun T_WriterExit w = (Some ?t, w1)"
    by (simp add: make_thread_seq [OF e rm(1)])
  let ?wr = "\<lparr>wr_name = ?name, wr_thread = Some ?t, wr_bufferSize = n, wr_queue = None\<rparr>"
  have "returns (ThreadStart (se_create ?e) (se_id ?e) [serve (writer_threads L ucb) ?t] ?t (on_psys (set_writer (Some ?wr)) w1)) (\<lambda>(b, w'). b \<and>
    (\<exists>th new'. pipe_thread T_WriterRun T_WriterExit th \<and> threads_added ((?t, th) # new') ts w w' \<and>
       (new' = [] \<and> tw_user w' = set_writer (Some (up_writer L nm n ?t)) (tw_user w))))"
    by (rule spawn_seq [OF e r(1) rm(1,2) w1])
      (auto simp: writer_threads_def psys_call_def WriterInit_def calm_life_queues [OF L] up_writer_def threads_added_none intro!: exI [of _ "[]"])
  then show ?thesis using e w1 by (auto simp: NewWriter_def good_start_def Let_def elim!: returnsE)
qed

text \<open>A new pool of the worker, beside whatever the memory holds.\<close>

definition pool_added :: "int \<Rightarrow> bmem \<Rightarrow> bmem \<Rightarrow> bool" where
  "pool_added n m m' \<longleftrightarrow> pool_inv (16, n) n (bm_tick m) m' [Suc (bm_tick m)..<Suc (bm_tick m) + 16] [] False \<and>
     frame (bm_tick m) {} m m' \<and> bm_tick m < bm_tick m' \<and>
     (\<forall>r. r \<notin> set [Suc (bm_tick m)..<Suc (bm_tick m) + 16] \<longrightarrow> bm_bufs m' r = bm_bufs m r)"

lemma fill_pool_new:
  "fill_pool okb okq k pr n m = Inr m' \<Longrightarrow> r \<notin> {bm_tick m..<bm_tick m + k} \<Longrightarrow> bm_bufs m' r = bm_bufs m r"
proof (induction k arbitrary: m)
  case (Suc k)
  obtain x m1 where 1: "mem_NewBuffer okb n m = Inr (x, m1)" using Suc.prems by (auto simp: bnd_eq_Inr)
  have m1: "bm_tick m1 = Suc (bm_tick m)" "bm_bufs m1 r = bm_bufs m r" "x = None \<or> x = Some (bm_tick m)"
    using 1 Suc.prems(2) by (auto simp: mem_NewBuffer_def Let_def bnd_eq_Inr split: option.splits)
  show ?case
  proof (cases x)
    case None
    then show ?thesis using Suc.prems(1) 1 m1 by simp
  next
    case (Some b)
    then obtain bf q' m2 where 2: "set_pool_queue pr q' (m1\<lparr>bm_bufs := (bm_bufs m1)(b \<mapsto> bf)\<rparr>) = Inr m2"
      "fill_pool okb okq k pr n m2 = Inr m'" using Suc.prems(1) 1 by (auto simp: bnd_eq_Inr)
    then have "bm_tick m2 = Suc (bm_tick m)" "bm_bufs m2 r = bm_bufs m r"
      using m1 Some Suc.prems(2) by (auto simp: set_pool_queue_def bnd_eq_Inr)
    with Suc.IH [OF 2(2)] Suc.prems(2) show ?thesis by auto
  qed
qed simp

lemma NewBufferPool_added:
  assumes n: "0 \<le> n" "n \<le> INT_MAX - 2"
  shows "returns (NewBufferPool both_ok all_ok True (NewQueue True (True, 0) (True, 0)) n m)
    (\<lambda>(p, m'). p = Some (bm_tick m) \<and> pool_added n m m')"
proof -
  obtain m2 m3 where f: "fill_pool both_ok all_ok 16 (bm_tick m) n (pool_made m) = Inr m2"
    "NewBufferPool both_ok all_ok True (NewQueue True (True, 0) (True, 0)) n m = Inr (Some (bm_tick m), m3)"
    "\<exists>p. m3 = m2\<lparr>bm_pools := (bm_pools m2)(bm_tick m \<mapsto> p)\<rparr>"
    "pool_inv (16, n) n (bm_tick m) m3 [Suc (bm_tick m)..<Suc (bm_tick m) + 16] [] False"
    by (rule NewBufferPool_filled [OF n, of m])
  have "frame (bm_tick m) {} (pool_made m) m2" by (rule fill_pool_frame [OF f(1)])
  then have "frame (bm_tick m) {} m m3" "bm_tick m < bm_tick m3" using f(3) by (auto simp: frame_def)
  moreover have "bm_bufs m3 r = bm_bufs m r" if "r \<notin> set [Suc (bm_tick m)..<Suc (bm_tick m) + 16]" for r
  proof -
    have "r \<notin> {bm_tick (pool_made m)..<bm_tick (pool_made m) + 16}" using that by (simp del: upt_Suc)
    from fill_pool_new [OF f(1) this] f(3) show ?thesis by auto
  qed
  ultimately show ?thesis using f(2,4) by (simp add: pool_added_def del: upt_Suc set_upt)
qed

text \<open>A worker and its writer, added to the world \<open>w\<close>.\<close>

definition with_worker :: "life_env \<Rightarrow> string option \<Rightarrow> int \<Rightarrow> nat \<Rightarrow> bmem \<Rightarrow> ('f, 'd, 'x) psys \<Rightarrow> ('f, 'd, 'x) psys" where
  "with_worker L nm n t m s = set_writer (Some (up_writer L nm n (Suc t)))
     (set_worker (Some (up_worker L nm n t (bm_tick (ps_mem s)))) (s\<lparr>ps_mem := m\<rparr>))"

definition worker_up ::
  "life_env \<Rightarrow> string option \<Rightarrow> int \<Rightarrow> nat list \<Rightarrow> ('f, 'd, 'x) pthreads \<Rightarrow> ('f, 'd, 'x) pthreads \<Rightarrow> bool" where
  "worker_up L nm n ts w w' \<longleftrightarrow> (\<exists>th th' m. pipe_thread T_WorkerRun T_WorkerExit th \<and> pipe_thread T_WriterRun T_WriterExit th' \<and>
     threads_added [(tw_tick w, th), (Suc (tw_tick w), th')] ts w w' \<and> pool_added n (ps_mem (tw_user w)) m \<and>
     tw_user w' = with_worker L nm n (tw_tick w) m (tw_user w))"

lemma NewWorker_seq:
  assumes L: "calm_life L" and n: "0 \<le> n" "n \<le> INT_MAX - 2" and r: "reg_inv w ts" "room 2 w"
  shows "returns (NewWorker L ucb nm n w) (\<lambda>(b, w'). b \<and> worker_up L nm n ts w w')"
proof -
  let ?t = "tw_tick w" and ?e = "le_worker L" and ?m0 = "ps_mem (tw_user w)"
  let ?name = "thread_name (se_name ?e) nm ''-worker''"
  have e: "good_start ?e" "le_pool L" "calm_env (le_penv L)" using L by (simp_all add: calm_life_def)
  have r2: "room (Suc (Suc 0)) w" using r(2) by (simp add: numeral_2_eq_2)
  note rm = roomD [OF r2]
  obtain w1 where w1: "make_thread ?e ?name T_WorkerInit T_WorkerRun T_WorkerExit w = (Some ?t, w1)"
    by (simp add: make_thread_seq [OF e(1) rm(1)])
  let ?wk = "\<lparr>wk_name = ?name, wk_pipe = nm, wk_thread = Some ?t, wk_bufferSize = n, wk_queue = None, wk_pool = None\<rparr>"
  let ?h = "\<lambda>s. set_writer None (set_worker (Some ?wk) s)"
  let ?P = "\<lambda>new' s. \<exists>th' m. pipe_thread T_WriterRun T_WriterExit th' \<and> new' = [(Suc ?t, th')] \<and> pool_added n ?m0 m \<and>
    s = with_worker L nm n ?t m (tw_user w)"
  have init: "returns (tc_call (worker_threads L ucb) T_WorkerInit (Some ()) W)
      (\<lambda>(b, w2). b \<and> (\<exists>new'. threads_added new' (ts @ [?t]) W w2 \<and> ?P new' (tw_user w2)))"
    if W: "reg_inv W (ts @ [?t])" "tw_num W = tw_num w + 1" "tw_running W = tw_running w + 1" "tw_tick W = Suc ?t"
      "tw_user W = ?h (tw_user w)" for W
  proof -
    obtain m where m: "NewBufferPool both_ok all_ok True (NewQueue True (True, 0) (True, 0)) n ?m0 = Inr (Some (bm_tick ?m0), m)"
      "pool_added n ?m0 m" using NewBufferPool_added [OF n, of ?m0] by (auto elim!: returnsE)
    let ?wk2 = "?wk\<lparr>wk_queue := Some new_queue, wk_pool := Some (bm_tick ?m0)\<rparr>"
    let ?W = "W\<lparr>tw_user := set_worker (Some ?wk2) (tw_user W\<lparr>ps_mem := m\<rparr>)\<rparr>"
    have "tc_call (worker_threads L ucb) T_WorkerInit (Some ()) W = NewWriter L ucb nm n ?W"
      using W(5) m(1) e by (simp add: worker_threads_def WorkerInit_def calm_life_queues [OF L] Let_def)
    moreover have "reg_inv ?W (ts @ [?t])" by (rule reg_inv_upd [OF W(1)]) simp_all
    moreover have "room 1 ?W" using roomD(3) [OF r2, of ?W] W(2,3) by simp
    ultimately obtain th w2 where c: "tc_call (worker_threads L ucb) T_WorkerInit (Some ()) W = Inr (True, w2)"
      and w2: "pipe_thread T_WriterRun T_WriterExit th" "threads_added [(Suc ?t, th)] (ts @ [?t]) W w2"
      "tw_user w2 = set_writer (Some (up_writer L nm n (Suc ?t))) (tw_user ?W)"
      using NewWriter_seq [OF L, of ?W "ts @ [?t]" ucb nm n] W(4) by (auto elim!: returnsE)
    have "?P [(Suc ?t, th)] (tw_user w2)" using w2(1,3) W(5) m(2)
      by (intro exI [of _ th] exI [of _ m]) (simp add: up_worker_def with_worker_def)
    with w2(2) show ?thesis unfolding c returns_Inr prod.case by blast
  qed
  have "returns (ThreadStart (se_create ?e) (se_id ?e) [serve (worker_threads L ucb) ?t] ?t (on_psys ?h w1)) (\<lambda>(b, w'). b \<and>
    (\<exists>th new'. pipe_thread T_WorkerRun T_WorkerExit th \<and> threads_added ((?t, th) # new') ts w w' \<and> ?P new' (tw_user w')))"
    by (rule spawn_seq [OF e(1) r(1) rm(1,2) w1]) (rule init)
  then have "returns (ThreadStart (se_create ?e) (se_id ?e) [serve (worker_threads L ucb) ?t] ?t (on_psys ?h w1)) (\<lambda>(b, w'). b \<and> worker_up L nm n ts w w')"
    by (rule returns_mono) (auto simp: worker_up_def)
  then show ?thesis using e w1 by (auto simp: NewWorker_def good_start_def Let_def elim!: returnsE)
qed

definition with_pipe :: "life_env \<Rightarrow> string option \<Rightarrow> int \<Rightarrow> nat \<Rightarrow> int \<times> int \<Rightarrow> bmem \<Rightarrow> ('f, 'd, 'x) psys \<Rightarrow> ('f, 'd, 'x) psys" where
  "with_pipe L nm n t fds m s = with_worker L nm n (Suc t) m (set_reader (up_reader L nm n t fds) s)"

definition pipe_up ::
  "life_env \<Rightarrow> string option \<Rightarrow> int \<Rightarrow> nat list \<Rightarrow> ('f, 'd, 'x) pthreads \<Rightarrow> ('f, 'd, 'x) pthreads \<Rightarrow> bool" where
  "pipe_up L nm n ts w w' \<longleftrightarrow> (\<exists>th1 th2 th3 fds m. pipe_thread T_ReaderRun T_ReaderExit th1 \<and> pipe_thread T_WorkerRun T_WorkerExit th2 \<and>
     pipe_thread T_WriterRun T_WriterExit th3 \<and>
     threads_added [(tw_tick w, th1), (Suc (tw_tick w), th2), (Suc (Suc (tw_tick w)), th3)] ts w w' \<and>
     ns_pipe (le_selector L) = Some fds \<and> pool_added n (ps_mem (tw_user w)) m \<and>
     tw_user w' = with_pipe L nm n (tw_tick w) fds m (tw_user w))"

lemma NewReader_seq:
  assumes L: "calm_life L" and n: "0 \<le> n" "n \<le> INT_MAX - 2" and r: "reg_inv w ts" "room 3 w"
  shows "returns (NewReader L ucb nm n w) (\<lambda>(b, w'). b \<and> pipe_up L nm n ts w w')"
proof -
  let ?t = "tw_tick w" and ?e = "le_reader L" and ?m0 = "ps_mem (tw_user w)"
  let ?name = "thread_name (se_name ?e) nm ''-reader''"
  have e: "good_start ?e" "calm_env (le_penv L)" using L by (simp_all add: calm_life_def)
  have r2: "room (Suc (Suc (Suc 0))) w" using r(2) by (simp add: numeral_3_eq_3)
  note rm = roomD [OF r2]
  obtain rx wx where sel: "ns_pipe (le_selector L) = Some (rx, wx)"
    "fst (NewSelector (le_selector L) (le_selector_lock L)) = Some (new_selector rx wx)"
    using L by (rule calm_life_selector)
  obtain w1 where w1: "make_thread ?e ?name T_ReaderInit T_ReaderRun T_ReaderExit w = (Some ?t, w1)"
    by (simp add: make_thread_seq [OF e(1) rm(1)])
  let ?rd = "\<lparr>rd_name = ?name, rd_pipe = nm, rd_thread = Some ?t, rd_queue = None, rd_selector = None, rd_load = 0, rd_bufferSize = n\<rparr>"
  let ?h = "\<lambda>s. set_worker None (set_reader ?rd s)"
  let ?P = "\<lambda>new' s. \<exists>th2 th3 m. pipe_thread T_WorkerRun T_WorkerExit th2 \<and> pipe_thread T_WriterRun T_WriterExit th3 \<and>
    new' = [(Suc ?t, th2), (Suc (Suc ?t), th3)] \<and> pool_added n ?m0 m \<and> s = with_pipe L nm n ?t (rx, wx) m (tw_user w)"
  have init: "returns (tc_call (reader_threads L ucb) T_ReaderInit (Some ()) W)
      (\<lambda>(b, w2). b \<and> (\<exists>new'. threads_added new' (ts @ [?t]) W w2 \<and> ?P new' (tw_user w2)))"
    if W: "reg_inv W (ts @ [?t])" "tw_num W = tw_num w + 1" "tw_running W = tw_running w + 1" "tw_tick W = Suc ?t"
      "tw_user W = ?h (tw_user w)" for W
  proof -
    let ?rd2 = "?rd\<lparr>rd_selector := Some (new_selector rx wx), rd_queue := Some new_queue\<rparr>"
    let ?W = "W\<lparr>tw_user := set_reader ?rd2 (tw_user W)\<rparr>"
    have "tc_call (reader_threads L ucb) T_ReaderInit (Some ()) W = NewWorker L ucb nm n ?W"
      using W(5) sel(2) by (simp add: reader_threads_def ReaderInit_def calm_life_queues [OF L] Let_def)
    moreover have "reg_inv ?W (ts @ [?t])" by (rule reg_inv_upd [OF W(1)]) simp_all
    moreover have "room 2 ?W" using roomD(3) [OF r2, of ?W] W(2,3) by (simp add: numeral_2_eq_2)
    ultimately obtain w2 where c: "tc_call (reader_threads L ucb) T_ReaderInit (Some ()) W = Inr (True, w2)"
      and w2: "worker_up L nm n (ts @ [?t]) ?W w2"
      using NewWorker_seq [OF L n, of ?W "ts @ [?t]" ucb nm] by (auto elim!: returnsE)
    from w2 obtain th2 th3 m where w2: "pipe_thread T_WorkerRun T_WorkerExit th2" "pipe_thread T_WriterRun T_WriterExit th3"
      "threads_added [(Suc ?t, th2), (Suc (Suc ?t), th3)] (ts @ [?t]) W w2" "pool_added n ?m0 m"
      "tw_user w2 = with_worker L nm n (Suc ?t) m (tw_user ?W)"
      using W(4,5) by (auto simp: worker_up_def)
    have "?P [(Suc ?t, th2), (Suc (Suc ?t), th3)] (tw_user w2)" using w2(1,2,4,5) W(5)
      by (intro exI [of _ th2] exI [of _ th3] exI [of _ m]) (simp add: with_worker_def with_pipe_def up_reader_def)
    with w2(3) show ?thesis unfolding c returns_Inr prod.case by blast
  qed
  have "returns (ThreadStart (se_create ?e) (se_id ?e) [serve (reader_threads L ucb) ?t] ?t (on_psys ?h w1)) (\<lambda>(b, w'). b \<and>
    (\<exists>th new'. pipe_thread T_ReaderRun T_ReaderExit th \<and> threads_added ((?t, th) # new') ts w w' \<and> ?P new' (tw_user w')))"
    by (rule spawn_seq [OF e(1) r(1) rm(1,2) w1]) (rule init)
  then have "returns (ThreadStart (se_create ?e) (se_id ?e) [serve (reader_threads L ucb) ?t] ?t (on_psys ?h w1)) (\<lambda>(b, w'). b \<and> pipe_up L nm n ts w w')"
    by (rule returns_mono) (use sel(1) in \<open>auto simp: pipe_up_def\<close>)
  then show ?thesis using e w1 by (auto simp: NewReader_def good_start_def Let_def elim!: returnsE)
qed

section \<open>Ending a pipe\<close>

text \<open>What the end of some threads does to the registry.\<close>

definition threads_gone :: "nat list \<Rightarrow> nat list \<Rightarrow> ('f, 'd, 'u) tworld \<Rightarrow> ('f, 'd, 'u) tworld \<Rightarrow> bool" where
  "threads_gone old ts w w' \<longleftrightarrow> reg_inv w' (filter (\<lambda>t. t \<notin> set old) ts) \<and> tw_num w' = tw_num w \<and>
     tw_running w' = tw_running w - int (length old) \<and> tw_tick w' = tw_tick w \<and> tw_heap w' = tw_heap w |` (- set old)"

text \<open>The exit item is the next item of a quiet queue.\<close>

definition quiet_queue :: "nat queue \<Rightarrow> bool" where
  "quiet_queue q \<longleftrightarrow> q_inv q \<and> abs_queue q = a_empty"

lemma quiet_new_queue [simp]: "quiet_queue new_queue"
  by (simp add: quiet_queue_def)

lemma exit_then_leave:
  assumes "quiet_queue q"
  obtains q1 where "Enqueue_ptr all_ok (Some q) ITEM_EXIT = Inr (True, Some q1)"
    "\<forall>item wait. \<exists>q2. Dequeue all_ok [] q1 item wait = Inr (True, ITEM_EXIT, q2) \<and> FreeQueue (Some q2) = Inr (None, Map.empty)"
proof -
  have q: "q_inv q" "abs_queue q = a_empty" "\<not> q_exit q" using assms by (auto simp: quiet_queue_def a_empty_def abs_queue_def)
  obtain q1 where q1: "Enqueue all_ok q ITEM_EXIT = Inr (True, q1)" "abs_queue q1 = \<lparr>a_items = [ITEM_EXIT], a_exit = True, a_emptied = False\<rparr>"
    "q_inv q1"
    using Enqueue_seq [of free_cond q all_ok ITEM_EXIT] q
    by (auto simp: q_inv_def q_mem_def a_enqueue_def a_empty_def elim!: returnsE)
  have "\<exists>q2. Dequeue all_ok [] q1 item wait = Inr (True, ITEM_EXIT, q2) \<and> FreeQueue (Some q2) = Inr (None, Map.empty)" for item wait
    using Dequeue_seq [OF q1(3), of "[]" item wait] q1(2)
    by (auto simp: a_dequeue_wait_def a_dequeue_def q_res_rel_def FreeQueue_seq elim!: returnsE)
  with that q1(1) show ?thesis by (simp add: Enqueue_ptr_def)
qed

text \<open>A thread that dequeues an exit item returns from its routine with false.\<close>

lemma exit_runs:
  assumes L: "calm_life L" and q: "\<forall>item wait. \<exists>q2. Dequeue all_ok [] q1 item wait = Inr (True, ITEM_EXIT, q2) \<and> FreeQueue (Some q2) = Inr (None, Map.empty)"
  shows "pp_writer (ps_pipe s) = Some wr \<Longrightarrow> wr_queue wr = Some q1 \<Longrightarrow>
      \<exists>q2. WriterRun (le_penv L) ucb (le_writer_rounds L) s = Inr (False, set_writer (Some (wr\<lparr>wr_queue := Some q2\<rparr>)) s) \<and> FreeQueue (Some q2) = Inr (None, Map.empty)"
    and "pp_worker (ps_pipe s) = Some wk \<Longrightarrow> wk_queue wk = Some q1 \<Longrightarrow>
      \<exists>q2. WorkerRun (le_penv L) ucb (le_worker_rounds L) s = Inr (False, set_worker (Some (wk\<lparr>wk_queue := Some q2\<rparr>)) s) \<and> FreeQueue (Some q2) = Inr (None, Map.empty)"
    and "rd_queue (the_reader s) = Some q1 \<Longrightarrow>
      \<exists>q2. ReaderRun (le_fuel L) (le_penv L) ucb (le_polls L) (le_reader_rounds L) s = Inr (False, upd_reader (\<lambda>r. r\<lparr>rd_queue := Some q2\<rparr>) s) \<and> FreeQueue (Some q2) = Inr (None, Map.empty)"
proof -
  have env: "calm_env (le_penv L)" "18 \<le> le_fuel L" using L by (simp_all add: calm_life_def)
  then obtain k where k: "le_fuel L = Suc k" by (cases "le_fuel L") auto
  obtain q2 where q2: "Dequeue all_ok [] q1 ITEM_UNDEFINED True = Inr (True, ITEM_EXIT, q2)" "FreeQueue (Some q2) = Inr (None, Map.empty)" using q by blast
  obtain q3 where q3: "Dequeue all_ok [] q1 ITEM_UNDEFINED False = Inr (True, ITEM_EXIT, q3)" "FreeQueue (Some q3) = Inr (None, Map.empty)" using q by blast
  obtain sn rs where wr: "le_writer_rounds L = ([], sn) # rs" using L by (auto simp: calm_life_def)
  obtain rs' where wk: "le_worker_rounds L = [] # rs'" using L by (auto simp: calm_life_def)
  show "\<exists>q2. WriterRun (le_penv L) ucb (le_writer_rounds L) s = Inr (False, set_writer (Some (wr\<lparr>wr_queue := Some q2\<rparr>)) s) \<and> FreeQueue (Some q2) = Inr (None, Map.empty)"
    if "pp_writer (ps_pipe s) = Some wr" "wr_queue wr = Some q1"
    using that env q2 wr
    by (intro exI [of _ q2]) (simp add: WriterRun_def NewQueueItem_def WriterRound_def get_writer_queue_def put_writer_queue_def WriterItem_def)
  show "\<exists>q2. WorkerRun (le_penv L) ucb (le_worker_rounds L) s = Inr (False, set_worker (Some (wk\<lparr>wk_queue := Some q2\<rparr>)) s) \<and> FreeQueue (Some q2) = Inr (None, Map.empty)"
    if "pp_worker (ps_pipe s) = Some wk" "wk_queue wk = Some q1"
    using that env q2 wk
    by (intro exI [of _ q2]) (simp add: WorkerRun_def NewQueueItem_def WorkerRound_def get_worker_queue_def put_worker_def WorkerItem_def)
  show "\<exists>q2. ReaderRun (le_fuel L) (le_penv L) ucb (le_polls L) (le_reader_rounds L) s = Inr (False, upd_reader (\<lambda>r. r\<lparr>rd_queue := Some q2\<rparr>) s) \<and> FreeQueue (Some q2) = Inr (None, Map.empty)"
    if "rd_queue (the_reader s) = Some q1"
    using that env q3 k
    by (intro exI [of _ q3]) (simp add: ReaderRun_def NewQueueItem_def ReaderRound_def ReaderItem_def)
qed

text \<open>Waiting for a thread whose routine is about to end.\<close>

lemma reap_seq:
  assumes r: "reg_inv w ts" "1 \<le> tw_running w" "tw_running w \<le> INT_MAX" and t: "tw_heap w t = Some th" and th: "pipe_thread g x th"
    and f: "18 \<le> f"
    and run: "\<And>W. tw_user W = tw_user w \<Longrightarrow> tc_call cb g (Some ()) W = Inr (False, W\<lparr>tw_user := u\<rparr>)"
    and exit: "\<And>W. reg_inv W ts \<Longrightarrow> tw_running W = tw_running w - 1 \<Longrightarrow> tw_user W = u \<Longrightarrow>
      (\<forall>t'. t' \<noteq> t \<longrightarrow> tw_heap W t' = tw_heap w t') \<Longrightarrow> tw_heap W t \<noteq> None \<Longrightarrow>
      returns (tc_exit cb x (Some ()) W) (\<lambda>w4. threads_gone old ts W w4 \<and> P (tw_user w4))"
    and old: "t \<notin> set old" "int (length old) < tw_running w"
  shows "returns (ThreadJoin (finish cb f t) (Some t) w) (\<lambda>w'. threads_gone (t # old) ts w w' \<and> P (tw_user w'))"
proof -
  obtain k where k: "f = Suc (Suc k)" using f by (cases f; cases "f - 1") auto
  note h = th [unfolded pipe_thread_def]
  let ?th = "th\<lparr>t_running := False\<rparr>" and ?ts = "filter (\<lambda>x. x \<notin> set old) ts"
  let ?Q = "\<lambda>w4. reg_inv w4 ?ts \<and> tw_num w4 = tw_num w \<and> tw_running w4 = tw_running w - 1 - int (length old) \<and> tw_tick w4 = tw_tick w \<and>
    tw_heap w4 = ((tw_heap w)(t \<mapsto> ?th)) |` (- set old) \<and> P (tw_user w4)"
  have i: "is_int (tw_running w - 1)" using r by (simp add: is_int_def INT_MIN_def)
  have "returns (ThreadJoin (finish cb (Suc (Suc k)) t) (Some t) w) (\<lambda>w'. \<exists>w4. ?Q w4 \<and> ended ?ts t w4 w')"
  proof (rule join_seq [OF r(1) i t, where c = free_cond and g = g and e = x and u = u])
    show "returns (tc_exit cb x (t_arg th) W) ?Q" if W: "ending ts t th w u W" for W
    proof -
      have "returns (tc_exit cb x (Some ()) W) (\<lambda>w4. threads_gone old ts W w4 \<and> P (tw_user w4))"
        by (rule exit) (use W in \<open>simp_all add: ending_def\<close>)
      then show ?thesis using W h by (auto simp: ending_def threads_gone_def elim!: returns_mono)
    qed
    show "reg_inv w4 ?ts \<and> tw_heap w4 t = Some ?th \<and> is_int (tw_running w4 - 1) \<and> is_int (tw_running w4)" if "?Q w4" for w4
      using that old r by (simp add: is_int_def INT_MIN_def)
  qed (use h run in simp_all)
  then show ?thesis unfolding k
  proof (rule returns_mono, elim exE conjE)
    fix w' w4 assume e: "ended ?ts t w4 w'" and w4: "reg_inv w4 ?ts" "tw_num w4 = tw_num w" "tw_running w4 = tw_running w - 1 - int (length old)"
      "tw_tick w4 = tw_tick w" "tw_heap w4 = ((tw_heap w)(t \<mapsto> ?th)) |` (- set old)" "P (tw_user w4)"
    have "removeAll t ?ts = filter (\<lambda>x. x \<notin> set (t # old)) ts" by (auto simp: removeAll_filter_not_eq filter_filter intro: filter_cong)
    moreover have "(((tw_heap w)(t \<mapsto> ?th)) |` (- set old))(t := None) = tw_heap w |` (- set (t # old))"
      by (auto simp: fun_eq_iff restrict_map_def)
    ultimately show "threads_gone (t # old) ts w w' \<and> P (tw_user w')" using e w4 by (simp add: ended_def threads_gone_def)
  qed
qed

text \<open>A pipe with nothing to do, as it is after its start.\<close>

lemma WriterEnd_seq:
  assumes L: "calm_life L" and r: "reg_inv w ts" "1 \<le> tw_running w" "tw_running w \<le> INT_MAX"
    and wr: "pp_writer (ps_pipe (tw_user w)) = Some wr" "wr_thread wr = Some t" "wr_queue wr = Some q" "quiet_queue q"
    and t: "tw_heap w t = Some th" "pipe_thread T_WriterRun T_WriterExit th"
  shows "returns (WriterEnd L ucb w) (\<lambda>w'. threads_gone [t] ts w w' \<and> tw_user w' = set_writer None (tw_user w))"
proof -
  have env: "calm_env (le_penv L)" "18 \<le> le_fuel L" using L by (simp_all add: calm_life_def)
  obtain q1 where q1: "Enqueue_ptr all_ok (Some q) ITEM_EXIT = Inr (True, Some q1)"
    "\<forall>item wait. \<exists>q2. Dequeue all_ok [] q1 item wait = Inr (True, ITEM_EXIT, q2) \<and> FreeQueue (Some q2) = Inr (None, Map.empty)"
    using wr(4) by (rule exit_then_leave)
  let ?wr = "wr\<lparr>wr_queue := Some q1\<rparr>" and ?cb = "writer_threads L ucb"
  let ?w = "on_psys (set_writer (Some ?wr)) w"
  obtain q2 where q2: "WriterRun (le_penv L) ucb (le_writer_rounds L) (tw_user ?w) = Inr (False, set_writer (Some (?wr\<lparr>wr_queue := Some q2\<rparr>)) (tw_user ?w))"
    "FreeQueue (Some q2) = Inr (None, Map.empty)" using exit_runs(1) [OF L q1(2), of "tw_user ?w" ?wr ucb] by auto
  let ?u' = "set_writer (Some (?wr\<lparr>wr_queue := None\<rparr>)) (tw_user w)"
  have "returns (ThreadJoin (finish ?cb (le_fuel L) t) (Some t) ?w) (\<lambda>w'. threads_gone [t] ts ?w w' \<and> tw_user w' = ?u')"
  proof (rule reap_seq [where P = "\<lambda>u. u = ?u'" and th = th and g = T_WriterRun and x = T_WriterExit and u = "set_writer (Some (?wr\<lparr>wr_queue := Some q2\<rparr>)) (tw_user ?w)"])
    show "reg_inv ?w ts" by (rule reg_inv_upd [OF r(1)]) simp_all
    show "tc_call ?cb T_WriterRun (Some ()) W = Inr (False, W\<lparr>tw_user := set_writer (Some (?wr\<lparr>wr_queue := Some q2\<rparr>)) (tw_user ?w)\<rparr>)"
      if "tw_user W = tw_user ?w" for W :: "('a, 'b, 'c) pthreads"
      unfolding writer_threads_def psys_call_def using q2(1) that by simp
  qed (use r t env q2(2) in \<open>auto simp: writer_threads_def WriterExit_def threads_gone_def reg_inv_def\<close>)
  then show ?thesis using wr q1(1) env by (auto simp: WriterEnd_def threads_gone_def reg_inv_def elim!: returns_mono)
qed

abbreviation unpooled :: "nat \<Rightarrow> nat list \<Rightarrow> bmem \<Rightarrow> bmem \<Rightarrow> bool" where
  "unpooled pr fs m m' \<equiv> bm_pools m' = (bm_pools m)(pr := None) \<and> bm_bufs m' = bm_bufs m |` (- set fs)"

lemma threads_gone_heap: "threads_gone old ts w w' \<Longrightarrow> t \<notin> set old \<Longrightarrow> tw_heap w' t = tw_heap w t"
  by (simp add: threads_gone_def)

lemma threads_gone_user [simp]: "threads_gone old ts w (w'\<lparr>tw_user := u\<rparr>) = threads_gone old ts w w'"
  "threads_gone old ts (w\<lparr>tw_user := u\<rparr>) w' = threads_gone old ts w w'"
  by (simp_all add: threads_gone_def reg_inv_def)

lemma reg_inv_user [simp]: "reg_inv (w\<lparr>tw_user := u\<rparr>) ts = reg_inv w ts"
  by (simp add: reg_inv_def)

text \<open>The writer of a quiet pipe in the world \<open>w\<close>, run by the thread \<open>t\<close>; and its worker.\<close>

definition quiet_writer :: "writer \<Rightarrow> nat \<Rightarrow> ('f, 'd, 'x) pthreads \<Rightarrow> bool" where
  "quiet_writer wr t w \<longleftrightarrow> wr_thread wr = Some t \<and> (\<exists>q. wr_queue wr = Some q \<and> quiet_queue q) \<and>
     (\<exists>th. tw_heap w t = Some th \<and> pipe_thread T_WriterRun T_WriterExit th)"

definition quiet_worker :: "int \<Rightarrow> nat \<Rightarrow> nat list \<Rightarrow> bmem \<Rightarrow> worker \<Rightarrow> nat \<Rightarrow> ('f, 'd, 'x) pthreads \<Rightarrow> bool" where
  "quiet_worker n pr fs m wk t w \<longleftrightarrow> wk_thread wk = Some t \<and> (\<exists>q. wk_queue wk = Some q \<and> quiet_queue q) \<and>
     wk_pool wk = Some pr \<and> pool_inv (16, n) n pr m fs [] False \<and> length fs \<le> 16 \<and>
     (\<exists>th. tw_heap w t = Some th \<and> pipe_thread T_WorkerRun T_WorkerExit th)"

lemma WorkerEnd_seq:
  assumes L: "calm_life L" and r: "reg_inv w ts" "2 \<le> tw_running w" "tw_running w \<le> INT_MAX" and tt: "t \<noteq> t'"
    and wk: "pp_worker (ps_pipe (tw_user w)) = Some wk" "quiet_worker n pr fs (ps_mem (tw_user w)) wk t w"
    and wr: "pp_writer (ps_pipe (tw_user w)) = Some wr" "quiet_writer wr t' w"
  shows "returns (WorkerEnd L ucb w) (\<lambda>w'. threads_gone [t, t'] ts w w' \<and>
    (\<exists>m. unpooled pr fs (ps_mem (tw_user w)) m \<and> tw_user w' = set_worker None (set_writer None (tw_user w\<lparr>ps_mem := m\<rparr>))))"
proof -
  have env: "calm_env (le_penv L)" "18 \<le> le_fuel L" using L by (simp_all add: calm_life_def)
  from wk(2) obtain q th where k: "wk_thread wk = Some t" "wk_queue wk = Some q" "quiet_queue q" "wk_pool wk = Some pr"
    "pool_inv (16, n) n pr (ps_mem (tw_user w)) fs [] False" "length fs \<le> 16" "tw_heap w t = Some th" "pipe_thread T_WorkerRun T_WorkerExit th"
    by (auto simp: quiet_worker_def)
  from wr(2) obtain qw th' where k': "wr_thread wr = Some t'" "wr_queue wr = Some qw" "quiet_queue qw" "tw_heap w t' = Some th'"
    "pipe_thread T_WriterRun T_WriterExit th'" by (auto simp: quiet_writer_def)
  obtain q1 where q1: "Enqueue_ptr all_ok (Some q) ITEM_EXIT = Inr (True, Some q1)"
    "\<forall>item wait. \<exists>q2. Dequeue all_ok [] q1 item wait = Inr (True, ITEM_EXIT, q2) \<and> FreeQueue (Some q2) = Inr (None, Map.empty)"
    using k(3) by (rule exit_then_leave)
  obtain m where m: "FreeBufferPool (le_fuel L) all_ok True (Some pr) (ps_mem (tw_user w)) = Inr (None, m)" "unpooled pr fs (ps_mem (tw_user w)) m"
    using FreeBufferPool_seq [OF k(5), of "le_fuel L"] k(6) env(2) by (auto elim!: returnsE)
  let ?wk = "wk\<lparr>wk_queue := Some q1\<rparr>" and ?cb = "worker_threads L ucb"
  let ?w = "on_psys (set_worker (Some ?wk)) w"
  obtain q2 where q2: "WorkerRun (le_penv L) ucb (le_worker_rounds L) (tw_user ?w) = Inr (False, set_worker (Some (?wk\<lparr>wk_queue := Some q2\<rparr>)) (tw_user ?w))"
    "FreeQueue (Some q2) = Inr (None, Map.empty)" using exit_runs(2) [OF L q1(2), of "tw_user ?w" ?wk ucb] by auto
  let ?u = "set_worker (Some (?wk\<lparr>wk_queue := Some q2\<rparr>)) (tw_user ?w)"
  let ?u' = "set_worker (Some (?wk\<lparr>wk_queue := None, wk_pool := None\<rparr>)) (set_writer None (tw_user w\<lparr>ps_mem := m\<rparr>))"
  have "returns (ThreadJoin (finish ?cb (le_fuel L) t) (Some t) ?w) (\<lambda>w'. threads_gone (t # [t']) ts ?w w' \<and> tw_user w' = ?u')"
  proof (rule reap_seq [where P = "\<lambda>u. u = ?u'" and th = th and g = T_WorkerRun and x = T_WorkerExit and u = ?u])
    show "tc_call ?cb T_WorkerRun (Some ()) W = Inr (False, W\<lparr>tw_user := ?u\<rparr>)"
      if "tw_user W = tw_user ?w" for W :: "('a, 'b, 'c) pthreads"
      unfolding worker_threads_def psys_call_def using q2(1) that by simp
    show "returns (tc_exit ?cb T_WorkerExit (Some ()) W) (\<lambda>w4. threads_gone [t'] ts W w4 \<and> tw_user w4 = ?u')"
      if W: "reg_inv W ts" "tw_running W = tw_running ?w - 1" "tw_user W = ?u" "\<forall>x. x \<noteq> t \<longrightarrow> tw_heap W x = tw_heap ?w x"
      for W :: "('a, 'b, 'c) pthreads"
    proof -
      have "returns (WriterEnd L ucb W) (\<lambda>w'. threads_gone [t'] ts W w' \<and> tw_user w' = set_writer None (tw_user W))"
        by (rule WriterEnd_seq [OF L W(1), where wr = wr and q = qw and th = th']) (use W r k' wr(1) tt in auto)
      then show ?thesis using W(3) env q2(2) wr(1) k(4) m(1)
        by (auto simp: worker_threads_def WorkerExit_def elim!: returnsE)
    qed
  qed (use r k env tt in auto)
  then show ?thesis using wk(1) k(1,2) q1(1) env m(2) by (auto simp: WorkerEnd_def elim!: returns_mono)
qed

text \<open>The reader of a quiet pipe.\<close>

definition quiet_reader :: "reader \<Rightarrow> nat \<Rightarrow> ('f, 'd, 'x) pthreads \<Rightarrow> bool" where
  "quiet_reader rd t w \<longleftrightarrow> rd_thread rd = Some t \<and> (\<exists>q. rd_queue rd = Some q \<and> quiet_queue q) \<and>
     (\<exists>sel. rd_selector rd = Some sel \<and> sel_inv sel) \<and> (\<exists>th. tw_heap w t = Some th \<and> pipe_thread T_ReaderRun T_ReaderExit th)"

lemma FreeSelector_woken: "sel_inv sel \<Longrightarrow> \<exists>closed. FreeSelector (Some (SelectorWakeUp a b sel)) = Inr (None, Map.empty, closed)"
proof -
  assume "sel_inv sel"
  have "FreeSelector (Some (SelectorWakeUp a b sel)) = FreeSelector (Some sel)"
    by (simp add: SelectorWakeUp_def FreeSelector_def split: option.split)
  then show ?thesis using FreeSelector_frees [OF \<open>sel_inv sel\<close>] by (auto elim!: returnsE)
qed

lemma ReaderEnd_seq:
  assumes L: "calm_life L" and r: "reg_inv w ts" "3 \<le> tw_running w" "tw_running w \<le> INT_MAX" and d: "distinct [t, t', t'']"
    and rd: "quiet_reader (the_reader (tw_user w)) t w"
    and wk: "pp_worker (ps_pipe (tw_user w)) = Some wk" "quiet_worker n pr fs (ps_mem (tw_user w)) wk t' w"
    and wr: "pp_writer (ps_pipe (tw_user w)) = Some wr" "quiet_writer wr t'' w"
  shows "returns (ReaderEnd L ucb w) (\<lambda>w'. threads_gone [t, t', t''] ts w w' \<and>
    (\<exists>m rd'. unpooled pr fs (ps_mem (tw_user w)) m \<and> rd_selector rd' = None \<and> rd_queue rd' = None \<and>
       tw_user w' = set_reader rd' (set_worker None (set_writer None (tw_user w\<lparr>ps_mem := m\<rparr>)))))"
proof -
  have env: "calm_env (le_penv L)" "18 \<le> le_fuel L" using L by (simp_all add: calm_life_def)
  let ?rd = "the_reader (tw_user w)" and ?cb = "reader_threads L ucb"
  from rd obtain q th sel where k: "rd_thread ?rd = Some t" "rd_queue ?rd = Some q" "quiet_queue q" "rd_selector ?rd = Some sel" "sel_inv sel"
    "tw_heap w t = Some th" "pipe_thread T_ReaderRun T_ReaderExit th" by (auto simp: quiet_reader_def)
  obtain q1 where q1: "Enqueue_ptr all_ok (Some q) ITEM_EXIT = Inr (True, Some q1)"
    "\<forall>item wait. \<exists>q2. Dequeue all_ok [] q1 item wait = Inr (True, ITEM_EXIT, q2) \<and> FreeQueue (Some q2) = Inr (None, Map.empty)"
    using k(3) by (rule exit_then_leave)
  let ?sel = "SelectorWakeUp (fst (pe_wake (le_penv L))) (snd (pe_wake (le_penv L))) sel"
  let ?rd1 = "?rd\<lparr>rd_queue := Some q1, rd_selector := Some ?sel\<rparr>"
  obtain closed where sel: "FreeSelector (Some ?sel) = Inr (None, Map.empty, closed)" using FreeSelector_woken [OF k(5)] by blast
  let ?w = "on_psys (set_reader ?rd1) w"
  obtain q2 where q2: "ReaderRun (le_fuel L) (le_penv L) ucb (le_polls L) (le_reader_rounds L) (tw_user ?w) = Inr (False, upd_reader (\<lambda>r. r\<lparr>rd_queue := Some q2\<rparr>) (tw_user ?w))"
    "FreeQueue (Some q2) = Inr (None, Map.empty)" using exit_runs(3) [OF L q1(2), of "tw_user ?w" ucb] by auto
  let ?u = "upd_reader (\<lambda>r. r\<lparr>rd_queue := Some q2\<rparr>) (tw_user ?w)"
  let ?P = "\<lambda>u. \<exists>m. unpooled pr fs (ps_mem (tw_user w)) m \<and>
    u = set_reader (?rd1\<lparr>rd_queue := None\<rparr>) (set_worker None (set_writer None (tw_user w\<lparr>ps_mem := m\<rparr>)))"
  have "returns (ThreadJoin (finish ?cb (le_fuel L) t) (Some t) ?w) (\<lambda>w'. threads_gone (t # [t', t'']) ts ?w w' \<and> ?P (tw_user w'))"
  proof (rule reap_seq [where P = ?P and th = th and g = T_ReaderRun and x = T_ReaderExit and u = ?u])
    show "tc_call ?cb T_ReaderRun (Some ()) W = Inr (False, W\<lparr>tw_user := ?u\<rparr>)"
      if "tw_user W = tw_user ?w" for W :: "('a, 'b, 'c) pthreads"
      unfolding reader_threads_def psys_call_def using q2(1) that by simp
    show "returns (tc_exit ?cb T_ReaderExit (Some ()) W) (\<lambda>w4. threads_gone [t', t''] ts W w4 \<and> ?P (tw_user w4))"
      if W: "reg_inv W ts" "tw_running W = tw_running ?w - 1" "tw_user W = ?u" "\<forall>x. x \<noteq> t \<longrightarrow> tw_heap W x = tw_heap ?w x"
      for W :: "('a, 'b, 'c) pthreads"
    proof -
      have h: "tw_heap W t' = tw_heap w t'" "tw_heap W t'' = tw_heap w t''" using W(4) d by auto
      have "returns (WorkerEnd L ucb W) (\<lambda>w'. threads_gone [t', t''] ts W w' \<and>
          (\<exists>m. unpooled pr fs (ps_mem (tw_user W)) m \<and> tw_user w' = set_worker None (set_writer None (tw_user W\<lparr>ps_mem := m\<rparr>))))"
        by (rule WorkerEnd_seq [OF L W(1), where wk = wk and wr = wr and n = n])
          (use W(2,3) r d wk wr h in \<open>auto simp: upd_reader_def quiet_worker_def quiet_writer_def\<close>)
      then obtain w4 m where w4: "WorkerEnd L ucb W = Inr w4" "threads_gone [t', t''] ts W w4" "unpooled pr fs (ps_mem (tw_user w)) m"
        "tw_user w4 = set_worker None (set_writer None (?u\<lparr>ps_mem := m\<rparr>))"
        using W(3) by (auto simp: upd_reader_def elim!: returnsE)
      have "tc_exit ?cb T_ReaderExit (Some ()) W = Inr (on_psys (upd_reader (\<lambda>r. r\<lparr>rd_queue := None\<rparr>)) w4)"
        using W(3) wk(1) w4(1,4) q2(2) by (simp add: reader_threads_def ReaderExit_def upd_reader_def)
      moreover have "?P (upd_reader (\<lambda>r. r\<lparr>rd_queue := None\<rparr>) (tw_user w4))"
        using w4(3,4) by (intro exI [of _ m]) (simp add: upd_reader_def)
      ultimately show ?thesis using w4(2) by simp
    qed
  qed (use r k env d in auto)
  then obtain w' m where w': "ThreadJoin (finish ?cb (le_fuel L) t) (Some t) ?w = Inr w'" "threads_gone [t, t', t''] ts w w'"
    "unpooled pr fs (ps_mem (tw_user w)) m"
    "tw_user w' = set_reader (?rd1\<lparr>rd_queue := None\<rparr>) (set_worker None (set_writer None (tw_user w\<lparr>ps_mem := m\<rparr>)))"
    by (auto elim!: returnsE)
  let ?rd' = "?rd1\<lparr>rd_queue := None, rd_selector := None, rd_name := None, rd_pipe := None\<rparr>"
  have "ReaderEnd L ucb w = Inr (on_psys (\<lambda>_. set_reader ?rd' (set_worker None (set_writer None (tw_user w\<lparr>ps_mem := m\<rparr>)))) w')"
    using k(1,2,4) q1(1) env w'(1,4) sel by (simp add: ReaderEnd_def drop_selector_def upd_reader_def Let_def)
  then show ?thesis using w'(2,3) by (auto intro!: exI [of _ m] exI [of _ ?rd'])
qed

section \<open>The whole life\<close>

text \<open>Memory in which nothing lies behind the next reference, and threads likewise.\<close>

definition tidy :: "bmem \<Rightarrow> bool" where
  "tidy m \<longleftrightarrow> (\<forall>r. bm_tick m \<le> r \<longrightarrow> bm_bufs m r = None \<and> bm_pools m r = None)"

definition tidy_threads :: "('f, 'd, 'u) tworld \<Rightarrow> bool" where
  "tidy_threads w \<longleftrightarrow> (\<forall>t. tw_tick w \<le> t \<longrightarrow> tw_heap w t = None)"

lemma pool_added_removed:
  assumes a: "pool_added n m m1" and t: "tidy m" and u: "unpooled (bm_tick m) [Suc (bm_tick m)..<Suc (bm_tick m) + 16] m1 m2"
  shows "bm_pools m2 = bm_pools m" "bm_bufs m2 = bm_bufs m"
proof -
  have f: "frame (bm_tick m) {} m m1" using a by (simp add: pool_added_def)
  show "bm_pools m2 = bm_pools m" using u t frameD(2) [OF f] by (auto simp: tidy_def fun_eq_iff)
  show "bm_bufs m2 = bm_bufs m"
  proof
    fix r
    show "bm_bufs m2 r = bm_bufs m r"
    proof (cases "r \<in> set [Suc (bm_tick m)..<Suc (bm_tick m) + 16]")
      case True
      then have "bm_bufs m r = None" using t by (simp add: tidy_def)
      then show ?thesis using u True by (simp add: restrict_map_def del: upt_Suc set_upt)
    next
      case False
      then show ?thesis using u a by (simp add: pool_added_def restrict_map_def del: upt_Suc set_upt)
    qed
  qed
qed

lemma threads_added_gone:
  assumes "threads_added new ts w w1" "threads_gone (map fst new) (ts @ map fst new) w1 w2" "tidy_threads w" "\<forall>t \<in> set ts. tw_heap w t \<noteq> None"
  shows "tw_heap w2 = tw_heap w" "tw_running w2 = tw_running w" "reg_inv w2 ts"
proof -
  have new: "fst ` set new = {tw_tick w..<tw_tick w + length new}" using assms(1) by (simp add: threads_added_def flip: set_map)
  have h: "tw_heap w1 = tw_heap w ++ map_of new" using assms(1) unfolding threads_added_def by blast
  have h': "tw_heap w2 = tw_heap w1 |` (- fst ` set new)" using assms(2) by (simp add: threads_gone_def)
  show "tw_heap w2 = tw_heap w"
  proof
    fix t
    show "tw_heap w2 t = tw_heap w t"
    proof (cases "t \<in> fst ` set new")
      case True
      then have "tw_heap w t = None" using new assms(3) by (auto simp: tidy_threads_def)
      then show ?thesis using True h' by (simp add: restrict_map_def)
    next
      case False
      then have "map_of new t = None" by (simp add: map_of_eq_None_iff)
      then show ?thesis using False h h' by (simp add: restrict_map_def map_add_def)
    qed
  qed
  show "tw_running w2 = tw_running w" using assms(1,2) by (simp add: threads_gone_def threads_added_def)
  have "t \<notin> fst ` set new" if "t \<in> set ts" for t
    using that assms(3,4) new by (auto simp: tidy_threads_def)
  then have "filter (\<lambda>t. t \<notin> set (map fst new)) (ts @ map fst new) = ts" by (auto simp: filter_id_conv filter_empty_conv)
  then show "reg_inv w2 ts" using assms(2) unfolding threads_gone_def by metis
qed

lemma pipe_up_quiet:
  assumes "pipe_up L nm n ts w w1"
  obtains th1 th2 th3 where "threads_added [(tw_tick w, th1), (Suc (tw_tick w), th2), (Suc (Suc (tw_tick w)), th3)] ts w w1"
    "quiet_reader (the_reader (tw_user w1)) (tw_tick w) w1"
    "\<exists>wk. pp_worker (ps_pipe (tw_user w1)) = Some wk \<and> quiet_worker n (bm_tick (ps_mem (tw_user w)))
       [Suc (bm_tick (ps_mem (tw_user w)))..<Suc (bm_tick (ps_mem (tw_user w))) + 16] (ps_mem (tw_user w1)) wk (Suc (tw_tick w)) w1"
    "\<exists>wr. pp_writer (ps_pipe (tw_user w1)) = Some wr \<and> quiet_writer wr (Suc (Suc (tw_tick w))) w1"
    "pool_added n (ps_mem (tw_user w)) (ps_mem (tw_user w1))" "ps_conns (tw_user w1) = ps_conns (tw_user w)"
proof -
  from assms obtain th1 th2 th3 fds m where u: "pipe_thread T_ReaderRun T_ReaderExit th1" "pipe_thread T_WorkerRun T_WorkerExit th2"
    "pipe_thread T_WriterRun T_WriterExit th3"
    "threads_added [(tw_tick w, th1), (Suc (tw_tick w), th2), (Suc (Suc (tw_tick w)), th3)] ts w w1"
    "pool_added n (ps_mem (tw_user w)) m" "tw_user w1 = with_pipe L nm n (tw_tick w) fds m (tw_user w)"
    by (auto simp: pipe_up_def)
  have h: "tw_heap w1 (tw_tick w) = Some th1" "tw_heap w1 (Suc (tw_tick w)) = Some th2" "tw_heap w1 (Suc (Suc (tw_tick w))) = Some th3"
    using u(4) by (simp_all add: threads_added_def)
  show ?thesis
    by (rule that [OF u(4)]) (use u(1-3,5,6) h new_selector_inv(1) in
      \<open>simp_all add: quiet_reader_def quiet_worker_def quiet_writer_def with_pipe_def with_worker_def up_reader_def up_worker_def
         up_writer_def pool_added_def del: upt_Suc\<close>)
qed

text \<open>
  C6. A pipe that is started and ended again: \<open>NewReader\<close> starts the reader, its worker and its
  writer, in this order; after it the pipe is ready for connections, with its queues empty, nothing
  registered with its selector and sixteen buffers in the worker's pool. \<open>ReaderEnd\<close> ends all three
  threads whatever they wait for, and leaves the registry of threads, the memory of the threads and
  the buffers and pools as they were before, and no queue and no selector.
\<close>

theorem pipe_life:
  assumes L: "calm_life L" and n: "0 \<le> n" "n \<le> INT_MAX - 2" and r: "reg_inv w ts" "room 3 w" "tidy_threads w"
    and m: "tidy (ps_mem (tw_user w))" and c: "ps_conns (tw_user w) = Map.empty"
  shows "returns (bnd (NewReader L ucb nm n w) (\<lambda>(b, w1). bnd (ReaderEnd L ucb w1) (\<lambda>w2. Inr (b, w1, w2)))) (\<lambda>(b, w1, w2). b \<and>
    listed (take (nat (tw_num w1)) (tw_threads w1)) = ts @ [tw_tick w, Suc (tw_tick w), Suc (Suc (tw_tick w))] \<and>
    flow_inv (le_penv L) n (bm_tick (ps_mem (tw_user w))) (tw_user w1) \<and> in_transit (tw_user w1) = [] \<and>
    tw_heap w2 = tw_heap w \<and> tw_running w2 = tw_running w \<and> reg_inv w2 ts \<and>
    bm_bufs (ps_mem (tw_user w2)) = bm_bufs (ps_mem (tw_user w)) \<and> bm_pools (ps_mem (tw_user w2)) = bm_pools (ps_mem (tw_user w)) \<and>
    pp_worker (ps_pipe (tw_user w2)) = None \<and> pp_writer (ps_pipe (tw_user w2)) = None \<and>
    rd_queue (the_reader (tw_user w2)) = None \<and> rd_selector (the_reader (tw_user w2)) = None)"
proof -
  let ?t = "tw_tick w" and ?m = "ps_mem (tw_user w)"
  let ?fs = "[Suc (bm_tick ?m)..<Suc (bm_tick ?m) + 16]"
  obtain w1 where w1: "NewReader L ucb nm n w = Inr (True, w1)" "pipe_up L nm n ts w w1"
    using NewReader_seq [OF L n r(1,2), of ucb nm] by (auto elim!: returnsE)
  from w1(2) obtain th1 th2 th3 wk wr where up: "threads_added [(?t, th1), (Suc ?t, th2), (Suc (Suc ?t), th3)] ts w w1"
    "quiet_reader (the_reader (tw_user w1)) ?t w1" "pp_worker (ps_pipe (tw_user w1)) = Some wk"
    "quiet_worker n (bm_tick ?m) ?fs (ps_mem (tw_user w1)) wk (Suc ?t) w1" "pp_writer (ps_pipe (tw_user w1)) = Some wr"
    "quiet_writer wr (Suc (Suc ?t)) w1" "pool_added n ?m (ps_mem (tw_user w1))" "ps_conns (tw_user w1) = Map.empty"
    using c by (elim pipe_up_quiet) auto
  have reg: "reg_inv w1 (ts @ [?t, Suc ?t, Suc (Suc ?t)])" "tw_running w1 = tw_running w + 3"
    using up(1) by (simp_all add: threads_added_def)
  have "3 \<le> tw_running w1" "tw_running w1 \<le> INT_MAX" using reg(2) r(2) by (simp_all add: room_def)
  from ReaderEnd_seq [OF L reg(1) this _ up(2-6), of ucb] obtain w2 m rd' where w2: "ReaderEnd L ucb w1 = Inr w2"
    "threads_gone [?t, Suc ?t, Suc (Suc ?t)] (ts @ [?t, Suc ?t, Suc (Suc ?t)]) w1 w2" "unpooled (bm_tick ?m) ?fs (ps_mem (tw_user w1)) m"
    "rd_selector rd' = None" "rd_queue rd' = None"
    "tw_user w2 = set_reader rd' (set_worker None (set_writer None (tw_user w1\<lparr>ps_mem := m\<rparr>)))"
    by (auto simp del: upt_Suc elim!: returnsE)
  have old: "\<forall>t \<in> set ts. tw_heap w t \<noteq> None" using r(1) by (simp add: reg_inv_def)
  have gone: "tw_heap w2 = tw_heap w" "tw_running w2 = tw_running w" "reg_inv w2 ts"
    using threads_added_gone [OF up(1) _ r(3) old] w2(2) by simp_all
  have listed: "listed (take (nat (tw_num w1)) (tw_threads w1)) = ts @ [?t, Suc ?t, Suc (Suc ?t)]" using reg(1) by (simp add: reg_inv_def)
  have mem: "bm_pools m = bm_pools ?m" "bm_bufs m = bm_bufs ?m" using pool_added_removed [OF up(7) assms(7) w2(3)] by simp_all
  obtain q where q: "wk_queue wk = Some q" "wk_pool wk = Some (bm_tick ?m)" "q_inv q" "q_items q = []" "\<not> q_exit q"
    "pool_inv (16, n) n (bm_tick ?m) (ps_mem (tw_user w1)) ?fs [] False"
    using up(4) by (auto simp: quiet_worker_def quiet_queue_def abs_queue_def a_empty_def)
  have "flow_queue n (bm_tick ?m) q (tw_user w1)" unfolding flow_queue_def
    using q up(3) by (intro exI [of _ wk] exI [of _ ?fs] exI [of _ False]) simp
  moreover from this have "in_transit (tw_user w1) = []" using q(4) by (simp add: in_transit_def flow_queueD)
  ultimately have flow: "flow_inv (le_penv L) n (bm_tick ?m) (tw_user w1)" "in_transit (tw_user w1) = []"
    using up(8) by (auto simp: flow_inv_def flow_conns_def)
  show ?thesis using w1(1) w2(1,4-6) listed flow gone mem by simp
qed

text \<open>An example: the main thread starts a pipe in an empty system.\<close>

definition sample_start :: start_env where
  "sample_start = \<lparr>se_mem = True, se_name = True, se_thread = (True, True, True), se_create = 0, se_id = 7\<rparr>"

definition sample_life :: life_env where
  "sample_life = \<lparr>le_penv = sample_penv, le_writer = sample_start, le_worker = sample_start, le_reader = sample_start,
     le_writer_queue = (True, (True, 0), (True, 0)), le_worker_queue = (True, (True, 0), (True, 0)),
     le_reader_queue = (True, (True, 0), (True, 0)), le_pool = True, le_pool_queue = (True, (True, 0), (True, 0)),
     le_selector = \<lparr>ns_mem = True, ns_polls_mem = True, ns_pipe = Some (3, 4), ns_fcntl_read = True, ns_fcntl_write = True\<rparr>,
     le_selector_lock = Some free_lock, le_writer_rounds = [([], \<lambda>_. None)], le_worker_rounds = [[]], le_polls = [], le_reader_rounds = [],
     le_fuel = 18\<rparr>"

lemma sample_life_calm: "calm_life sample_life"
  using sample_penv_calm by (simp add: calm_life_def sample_life_def good_start_def good_queue_def sample_start_def)

definition empty_psys :: "(unit, unit, unit) psys" where
  "empty_psys = \<lparr>ps_conns = Map.empty, ps_mem = \<lparr>bm_bufs = Map.empty, bm_pools = Map.empty, bm_tick = 0, bm_items = 0\<rparr>,
     ps_addrs = Map.empty, ps_raised = [], ps_pipe = \<lparr>pp_self = 0, pp_reader = \<lparr>rd_name = None, rd_pipe = None, rd_thread = None,
       rd_queue = None, rd_selector = None, rd_load = 0, rd_bufferSize = 0\<rparr>, pp_worker = None, pp_writer = None, pp_ext = ()\<rparr>\<rparr>"

definition main_only :: "(unit, unit, unit) pthreads" where
  "main_only = \<lparr>tw_heap = [0 \<mapsto> live_thread 1 True (fresh_thread (Some ''aio4c'') None None None None)], tw_tick = 1, tw_threads = slots [0],
     tw_initialized = True, tw_num = 1, tw_running = 1, tw_mutex = False, tw_user = empty_psys\<rparr>"

lemma main_only_ok: "reg_inv main_only [0]" "room 3 main_only" "tidy_threads main_only" "tidy (ps_mem (tw_user main_only))"
  "ps_conns (tw_user main_only) = Map.empty"
  by (simp_all add: main_only_def reg_inv_def room_def tidy_threads_def tidy_def empty_psys_def slots_def AIO4C_MAX_THREADS_def
      INT_MAX_def listed_def)

theorem pipe_life_witness:
  "\<exists>w1 w2. NewReader sample_life (\<lambda>_ _ _ k. Inr k) (Some ''pipe000'') 8 main_only = Inr (True, w1) \<and>
     ReaderEnd sample_life (\<lambda>_ _ _ k. Inr k) w1 = Inr w2 \<and> flow_inv sample_penv 8 0 (tw_user w1) \<and>
     tw_heap w2 = tw_heap main_only \<and> reg_inv w2 [0] \<and> bm_bufs (ps_mem (tw_user w2)) = Map.empty"
proof -
  have "0 \<le> (8::int)" "8 \<le> INT_MAX - 2" by (simp_all add: INT_MAX_def)
  from pipe_life [OF sample_life_calm this main_only_ok, of "\<lambda>_ _ _ k. Inr k" "Some ''pipe000''"] show ?thesis
    by (auto simp: main_only_def empty_psys_def sample_life_def elim!: returnsE)
qed

section \<open>A worker that could not be initialised\<close>

text \<open>
  C31. \<open>NewWorker\<close> hands out a worker whose initialisation failed, because \<open>ThreadStart\<close> only reports
  that the thread was created: without memory for the pool the worker is there without a pool, and
  the first data of a connection that is handed to it makes \<open>_WorkerReadHandler\<close> dereference NULL.
\<close>

theorem half_started_worker:
  assumes L: "calm_life (L\<lparr>le_pool := True\<rparr>)" "\<not> le_pool L" and r: "reg_inv w ts" "room 1 w"
  shows "returns (NewWorker L ucb nm n w) (\<lambda>(b, w'). b \<and> (\<forall>env k. k_user k = ps_pipe (tw_user w') \<longrightarrow>
    cn_state (k_conn k) \<noteq> STATE_CLOSED \<longrightarrow> WorkerReadHandler_run env INBOUND_DATA_EVENT k = Inl Undefined))"
proof -
  let ?e = "le_worker L" and ?t = "tw_tick w"
  let ?name = "thread_name (se_name ?e) nm ''-worker''"
  have e: "good_start ?e" using L(1) by (simp add: calm_life_def)
  have rm: "tw_num w < int AIO4C_MAX_THREADS" "is_int (tw_running w + 1)" using roomD [of 0 w] r(2) by simp_all
  have q: "make_queue (le_worker_queue L) = Some new_queue" using calm_life_queues(2) [OF L(1)] by simp
  let ?th = "fresh_thread ?name (Some T_WorkerInit) (Some T_WorkerRun) (Some T_WorkerExit) (Some ())"
  let ?w1 = "w\<lparr>tw_tick := Suc ?t, tw_heap := (tw_heap w)(?t \<mapsto> ?th)\<rparr>"
  let ?wk = "\<lparr>wk_name = ?name, wk_pipe = nm, wk_thread = Some ?t, wk_bufferSize = n, wk_queue = None, wk_pool = None\<rparr>"
  let ?w = "on_psys (\<lambda>s. set_writer None (set_worker (Some ?wk) s)) ?w1"
  let ?Q = "\<lambda>W b w2. \<exists>wk. pp_worker (ps_pipe (tw_user w2)) = Some wk \<and> wk_pool wk = None"
  have "returns (ThreadStart 0 (se_id ?e) [serve (worker_threads L ucb) ?t] ?t ?w) (\<lambda>(r, w'). r \<and>
    (\<exists>W b w2. starting ts ?t (se_id ?e) ?th ?w W \<and> ?Q W b w2 \<and> w' = put_thread ?t (live_thread (se_id ?e) b ?th) w2))"
  proof (rule start_seq [where Q = ?Q])
    show "reg_inv ?w ts" by (rule reg_inv_upd [OF r(1)]) simp_all
    show "returns (tc_call (worker_threads L ucb) T_WorkerInit (Some ()) W) (\<lambda>(b, w2). tw_heap w2 ?t = tw_heap W ?t \<and> ?Q W b w2)"
      if "starting ts ?t (se_id ?e) ?th ?w W" for W
      using that L(2) q by (simp add: starting_def worker_threads_def WorkerInit_def NewBufferPool_def Let_def)
  qed (use rm in simp_all)
  moreover have "NewWorker L ucb nm n w = ThreadStart 0 (se_id ?e) [serve (worker_threads L ucb) ?t] ?t ?w"
    if "returns (ThreadStart 0 (se_id ?e) [serve (worker_threads L ucb) ?t] ?t ?w) fst"
    using that e make_thread_seq [OF e rm(1), of ?name T_WorkerInit T_WorkerRun T_WorkerExit]
    by (auto simp: NewWorker_def good_start_def Let_def elim!: returnsE)
  ultimately show ?thesis
    by (auto simp: WorkerReadHandler_run_def Let_def elim!: returnsE)
qed

theorem half_started_worker_witness:
  "\<exists>w1. NewWorker (sample_life\<lparr>le_pool := False\<rparr>) (\<lambda>_ _ _ k. Inr k) None 8 main_only = Inr (True, w1) \<and>
     (\<forall>k. k_user k = ps_pipe (tw_user w1) \<longrightarrow> cn_state (k_conn k) \<noteq> STATE_CLOSED \<longrightarrow>
        WorkerReadHandler_run sample_penv INBOUND_DATA_EVENT k = Inl Undefined)"
proof -
  have L: "calm_life (sample_life\<lparr>le_pool := False, le_pool := True\<rparr>)" using sample_life_calm by (simp add: sample_life_def)
  have r: "room 1 main_only" using main_only_ok(2) by (simp add: room_def)
  show ?thesis
    using half_started_worker [OF L _ main_only_ok(1) r, of "\<lambda>_ _ _ k. Inr k" None 8]
    by (auto elim!: returnsE)
qed

end
