(* ===== verification/Addresses.thy ===== *)
theory Addresses
  imports Prelude
begin

text \<open>
  The addresses of \<open>src/address.c\<close> (the POSIX branch). Name resolution and the numeric form of a
  socket address are the system's: \<open>getaddrinfo\<close> and \<open>getnameinfo\<close> are parameters.
\<close>

section \<open>State\<close>

datatype address_type = ADDRESS_IPV4 | ADDRESS_IPV6 | ADDRESS_UNIX

text \<open>The three kinds of \<open>struct sockaddr\<close>: IP in network order and port, or path.\<close>

datatype sockaddr =
    Sockaddr_in (sin_addr: "byte list") (sin_port: "16 word")
  | Sockaddr_in6 (sin6_addr: "byte list") (sin6_port: "16 word")
  | Sockaddr_un (sun_path: "char list")

record address =
  ad_string :: "string option"
  ad_type :: address_type
  ad_address :: "sockaddr option"
  ad_size :: nat

type_synonym resolver = "address_type \<Rightarrow> string \<Rightarrow> byte list option"

type_synonym nameinfo = "sockaddr \<Rightarrow> (string \<times> string) option"

definition UNIX_PATH_MAX :: nat where
  "UNIX_PATH_MAX = 108"

fun sockaddr_size :: "address_type \<Rightarrow> nat" where
  "sockaddr_size ADDRESS_IPV4 = 16"
| "sockaddr_size ADDRESS_IPV6 = 28"
| "sockaddr_size ADDRESS_UNIX = 110"

section \<open>Operations\<close>

text \<open>A name that cannot be resolved leaves the address as it is.\<close>

fun ResolveIP :: "resolver \<Rightarrow> string \<Rightarrow> sockaddr \<Rightarrow> sockaddr" where
  "ResolveIP res name (Sockaddr_in ip port) =
     Sockaddr_in (case res ADDRESS_IPV4 name of Some r \<Rightarrow> r | None \<Rightarrow> ip) port"
| "ResolveIP res name (Sockaddr_in6 ip port) =
     Sockaddr_in6 (case res ADDRESS_IPV6 name of Some r \<Rightarrow> r | None \<Rightarrow> ip) port"
| "ResolveIP res name (Sockaddr_un path) = Sockaddr_un path"

text \<open>\<open>strncpy\<close>: at most \<open>n\<close> characters, padded with zeros, without a zero when the string fills it.\<close>

definition strncpy :: "nat \<Rightarrow> string \<Rightarrow> char list" where
  "strncpy n s = take n (s @ replicate n (CHR 0x00))"

text \<open>\<open>snprintf(string, strlen(hbuf) + strlen(sbuf) + 4, "[%s]:%s", hbuf, sbuf)\<close>.\<close>

definition address_string :: "string \<Rightarrow> string \<Rightarrow> string" where
  "address_string hbuf sbuf = take (length hbuf + length sbuf + 3) (''['' @ hbuf @ '']:'' @ sbuf)"

text \<open>\<open>mem\<close>: whether the structure, the socket address and the string can be allocated.\<close>

definition NewAddress ::
  "bool \<times> bool \<times> bool \<Rightarrow> resolver \<Rightarrow> nameinfo \<Rightarrow> address_type \<Rightarrow> string \<Rightarrow> int \<Rightarrow> address option" where
  "NewAddress mem res ni type name port =
     (case mem of (mem_struct, mem_addr, mem_string) \<Rightarrow>
      if \<not> mem_struct \<or> \<not> mem_addr then None
      else
        let sa = (case type of
              ADDRESS_IPV4 \<Rightarrow> ResolveIP res name (Sockaddr_in (replicate 4 0) (word_of_int port))
            | ADDRESS_IPV6 \<Rightarrow> ResolveIP res name (Sockaddr_in6 (replicate 16 0) (word_of_int port))
            | ADDRESS_UNIX \<Rightarrow> Sockaddr_un (strncpy UNIX_PATH_MAX name));
            string = (if type = ADDRESS_UNIX then None
              else case ni sa of
                None \<Rightarrow> None
              | Some (hbuf, sbuf) \<Rightarrow> if mem_string then Some (address_string hbuf sbuf) else None) in
        Some \<lparr>ad_string = string, ad_type = type, ad_address = Some sa, ad_size = sockaddr_size type\<rparr>)"

definition AddressGetAddr :: "address \<Rightarrow> sockaddr option" where
  "AddressGetAddr a = ad_address a"

definition AddressGetAddrSize :: "address \<Rightarrow> nat" where
  "AddressGetAddrSize a = ad_size a"

definition AddressGetString :: "address \<Rightarrow> string" where
  "AddressGetString a = (case ad_string a of None \<Rightarrow> ''<unknown address>'' | Some s \<Rightarrow> s)"

definition AddressGetType :: "address \<Rightarrow> address_type" where
  "AddressGetType a = ad_type a"

text \<open>\<open>FreeAddress\<close> sets the caller's pointer to NULL; the second component is what it freed.\<close>

definition FreeAddress :: "address option \<Rightarrow> address option \<times> nat" where
  "FreeAddress pa =
     (case pa of
        None \<Rightarrow> (None, 0)
      | Some a \<Rightarrow> (None, (if ad_address a \<noteq> None then 1 else 0) + (if ad_string a \<noteq> None then 1 else 0) + 1))"

section \<open>What an address is\<close>

text \<open>The kind of the socket address is that of the address.\<close>

fun family :: "sockaddr \<Rightarrow> address_type" where
  "family (Sockaddr_in ip port) = ADDRESS_IPV4"
| "family (Sockaddr_in6 ip port) = ADDRESS_IPV6"
| "family (Sockaddr_un path) = ADDRESS_UNIX"

definition address_inv :: "address \<Rightarrow> bool" where
  "address_inv a \<longleftrightarrow> (\<exists>sa. ad_address a = Some sa \<and> family sa = ad_type a \<and> ad_size a = sockaddr_size (family sa) \<and>
     (case sa of
        Sockaddr_in ip port \<Rightarrow> length ip = 4
      | Sockaddr_in6 ip port \<Rightarrow> length ip = 16
      | Sockaddr_un path \<Rightarrow> length path = UNIX_PATH_MAX))"

text \<open>What \<open>getaddrinfo\<close> promises: an address of the family that was asked for.\<close>

definition good_resolver :: "resolver \<Rightarrow> bool" where
  "good_resolver res \<longleftrightarrow> (\<forall>name ip. (res ADDRESS_IPV4 name = Some ip \<longrightarrow> length ip = 4) \<and>
     (res ADDRESS_IPV6 name = Some ip \<longrightarrow> length ip = 16))"

lemma address_string_fits: "address_string h s = ''['' @ h @ '']:'' @ s"
  by (simp add: address_string_def)

text \<open>
  C33. The socket address that \<open>AddressGetAddr\<close> hands to \<open>connect\<close> and \<open>bind\<close> is of the family of the
  address's type, has the size that \<open>AddressGetAddrSize\<close> gives, and carries the port; the string is
  the numeric form of exactly this socket address, and the buffer made for it is long enough.
\<close>

theorem new_address_typed:
  assumes "good_resolver res"
  shows "case NewAddress mem res ni type name port of
      None \<Rightarrow> \<not> (fst mem \<and> fst (snd mem))
    | Some a \<Rightarrow> address_inv a \<and> AddressGetType a = type \<and> AddressGetAddrSize a = sockaddr_size type \<and>
        (\<forall>ip p. AddressGetAddr a = Some (Sockaddr_in ip p) \<or> AddressGetAddr a = Some (Sockaddr_in6 ip p) \<longrightarrow> p = word_of_int port) \<and>
        (\<forall>sa h s. type \<noteq> ADDRESS_UNIX \<longrightarrow> snd (snd mem) \<longrightarrow> AddressGetAddr a = Some sa \<longrightarrow> ni sa = Some (h, s) \<longrightarrow>
           AddressGetString a = ''['' @ h @ '']:'' @ s)"
proof (cases "fst mem \<and> fst (snd mem)")
  case True
  then obtain ms where m: "mem = (True, True, ms)" by (cases mem) auto
  show ?thesis
  proof (cases type)
    case ADDRESS_IPV4
    then show ?thesis using assms m
      by (auto simp: NewAddress_def Let_def address_inv_def AddressGetType_def AddressGetAddrSize_def AddressGetAddr_def AddressGetString_def
          good_resolver_def address_string_fits split: option.split)
  next
    case ADDRESS_IPV6
    then show ?thesis using assms m
      by (auto simp: NewAddress_def Let_def address_inv_def AddressGetType_def AddressGetAddrSize_def AddressGetAddr_def AddressGetString_def
          good_resolver_def address_string_fits split: option.split)
  next
    case ADDRESS_UNIX
    then show ?thesis using m
      by (simp add: NewAddress_def Let_def address_inv_def AddressGetType_def AddressGetAddrSize_def AddressGetAddr_def strncpy_def)
  qed
qed (auto simp: NewAddress_def split: prod.split)

theorem new_address_typed_witness:
  "\<exists>a. NewAddress (True, True, True) (\<lambda>t n. if t = ADDRESS_IPV4 then Some [127, 0, 0, 1] else None)
       (\<lambda>sa. Some (''127.0.0.1'', ''80'')) ADDRESS_IPV4 ''localhost'' 80 = Some a \<and>
     address_inv a \<and> AddressGetString a = ''[127.0.0.1]:80''"
proof -
  let ?res = "\<lambda>t (n :: string). if t = ADDRESS_IPV4 then Some [127, 0, 0, 1 :: byte] else None"
  have r: "good_resolver ?res" by (simp add: good_resolver_def)
  show ?thesis
    using new_address_typed [OF r, where mem = "(True, True, True)" and ni = "\<lambda>sa. Some (''127.0.0.1'', ''80'')" and type = ADDRESS_IPV4
        and name = "''localhost''" and port = 80]
    by (simp add: NewAddress_def Let_def AddressGetAddr_def)
qed

text \<open>
  A name that cannot be resolved is not an error: the address is the wildcard one, 0.0.0.0 or ::. And
  the path of a Unix address that is too long is cut and not terminated.
\<close>

theorem unresolved_is_wildcard:
  assumes "res ADDRESS_IPV4 name = None"
  shows "NewAddress (True, True, ms) res ni ADDRESS_IPV4 name port = NewAddress (True, True, ms) (\<lambda>_ _. Some [0, 0, 0, 0]) ni ADDRESS_IPV4 name port"
  using assms by (simp add: NewAddress_def numeral_eq_Suc)

theorem unix_path_not_terminated:
  assumes "UNIX_PATH_MAX \<le> length name" "CHR 0x00 \<notin> set name"
  shows "\<exists>a path. NewAddress (True, True, ms) res ni ADDRESS_UNIX name port = Some a \<and> AddressGetAddr a = Some (Sockaddr_un path) \<and>
    CHR 0x00 \<notin> set path \<and> AddressGetString a = ''<unknown address>''"
  using assms by (auto simp: NewAddress_def AddressGetAddr_def AddressGetString_def strncpy_def dest: in_set_takeD)

end
