(* ===== verification/Clients.thy ===== *)
theory Clients
  imports PipeLife Addresses
begin

text \<open>
  The client of \<open>src/client.c\<close>: a thread that opens a connection, hands it to its pipe once it is
  established, and opens another one when it is lost. The client is what the handlers of the pipe's
  connections work on beside the pipe itself.
\<close>

section \<open>State\<close>

text \<open>
  The structure \<open>s_Client\<close>. Its reader is the pipe's; \<open>cl_reader\<close> says whether there is one. \<open>cl_user\<close>
  belongs to the user's handler.
\<close>

record ('g, 'd, 'x) client =
  cl_name :: "string option"
  cl_address :: "nat option"
  cl_connection :: "nat option"
  cl_thread :: "nat option"
  cl_reader :: bool
  cl_queue :: "nat queue option"
  cl_pool :: "nat option"
  cl_handler :: 'g
  cl_handlerData :: "'d option"
  cl_retries :: int
  cl_interval :: int
  cl_retryCount :: int
  cl_bufferSize :: int
  cl_connected :: bool
  cl_exiting :: bool
  cl_user :: 'x

text \<open>The handlers that a client registers beside those of its pipe.\<close>

datatype 'g client_handler = ClientEventHandler | ClientHandler 'g

type_synonym ('g, 'd, 'x) cpsys = "('g client_handler, 'd, ('g, 'd, 'x) client) psys"

type_synonym ('g, 'd, 'x) ccore = "('g, 'd, 'x) client pipe core"

type_synonym ('g, 'd, 'x) chandler = "'g \<Rightarrow> event \<Rightarrow> 'd option \<Rightarrow> ('g, 'd, 'x) ccore \<Rightarrow> ('g, 'd, 'x) ccore res"

abbreviation the_client :: "('g, 'd, 'x) cpsys \<Rightarrow> ('g, 'd, 'x) client" where
  "the_client s \<equiv> pp_ext (ps_pipe s)"

definition upd_client ::
  "(('g, 'd, 'x) client \<Rightarrow> ('g, 'd, 'x) client) \<Rightarrow> ('g, 'd, 'x) cpsys \<Rightarrow> ('g, 'd, 'x) cpsys" where
  "upd_client g s = on_pipe (\<lambda>p. p\<lparr>pp_ext := g (pp_ext p)\<rparr>) s"

definition clientEventHandler :: "penv \<Rightarrow> event \<Rightarrow> ('g, 'd, 'x) ccore \<Rightarrow> ('g, 'd, 'x) ccore res" where
  "clientEventHandler env ev k =
     (let cl = pp_ext (k_user k) in
      bnd (Enqueue_ptr (pe_okq env) (cl_queue cl) (ITEM_EVENT ev (pp_self (k_user k)))) (\<lambda>(_, q').
      Inr (upd_pipe (\<lambda>p. p\<lparr>pp_ext := cl\<lparr>cl_queue := q'\<rparr>\<rparr>) k)))"

fun client_cb ::
  "penv \<Rightarrow> ('g, 'd, 'x) chandler \<Rightarrow> ('g client_handler, 'd, ('g, 'd, 'x) client) ucallbacks" where
  "client_cb env uh ClientEventHandler ev d k = clientEventHandler env ev k"
| "client_cb env uh (ClientHandler g) ev d k = uh g ev d k"

section \<open>Opening a connection\<close>

text \<open>
  What the system answers in one round of the client's loop: the waits of its \<open>Dequeue\<close>; the result
  of \<open>connect\<close>, and of \<open>poll\<close> and \<open>getsockopt\<close> when it is finished; and for a new connection its
  allocations, its reference, its socket and \<open>fcntl\<close>.
\<close>

record client_sys =
  cy_waits :: "nat wake list"
  cy_connect :: connect_result
  cy_poll :: "int option"
  cy_so :: "int option"
  cy_conn :: conn_env
  cy_ref :: nat
  cy_sock :: int
  cy_fcntl :: bool

abbreviation client_system_handler ::
  "penv \<Rightarrow> ('g, 'd, 'x) chandler \<Rightarrow> event \<Rightarrow>
   ('g client_handler, 'd, ('g, 'd, 'x) client) pworld \<Rightarrow> ('g client_handler, 'd, ('g, 'd, 'x) client) pworld res" where
  "client_system_handler env uh ev \<equiv> add_system_handler env (client_cb env uh) ev (UserHandler ClientEventHandler) True"

definition client_user_handler ::
  "penv \<Rightarrow> ('g, 'd, 'x) chandler \<Rightarrow> event \<Rightarrow> bool \<Rightarrow>
   ('g client_handler, 'd, ('g, 'd, 'x) client) pworld \<Rightarrow> ('g client_handler, 'd, ('g, 'd, 'x) client) pworld res" where
  "client_user_handler env uh ev once w =
     (let cl = pp_ext (k_user (w_core w)) in
      ConnectionAddHandler (core_cb (pipe_cb env (client_cb env uh))) (pe_fuel env) (pe_name env) (pe_handler env) (pe_okh env)
        ev (UserHandler (ClientHandler (cl_handler cl))) (cl_handlerData cl) once w)"

definition open_connection ::
  "penv \<Rightarrow> ('g, 'd, 'x) chandler \<Rightarrow> client_sys \<Rightarrow> ('g, 'd, 'x) cpsys \<Rightarrow> ('g, 'd, 'x) cpsys res" where
  "open_connection env uh cy s =
     (let s1 = upd_client (\<lambda>cl. cl\<lparr>cl_connected := False\<rparr>) s; cl = the_client s1 in
      bnd (deref (cl_pool cl)) (\<lambda>pool.
      bnd (NewConnection (cy_conn cy) pool (cl_address cl) False (ps_addrs s1) () (ps_mem s1)) (\<lambda>(p, m).
      let s2 = upd_client (\<lambda>cl. cl\<lparr>cl_connection := map_option (\<lambda>_. cy_ref cy) p\<rparr>) (s1\<lparr>ps_mem := m\<rparr>) in
      bnd (deref p) (\<lambda>w.
      let co = \<lparr>co_sys = w_sys w, co_usr = w_usr w, co_conn = w_conn w, co_net = k_net (w_core w), co_readKey = None\<rparr> in
      do_conn (cy_ref cy) (in_turn [
          client_system_handler env uh INIT_EVENT,
          client_system_handler env uh CONNECTING_EVENT,
          client_system_handler env uh CONNECTED_EVENT,
          client_system_handler env uh CLOSE_EVENT,
          client_system_handler env uh FREE_EVENT,
          client_user_handler env uh INIT_EVENT True,
          client_user_handler env uh CONNECTED_EVENT True,
          client_user_handler env uh READ_EVENT False,
          client_user_handler env uh WRITE_EVENT False,
          client_user_handler env uh CLOSE_EVENT True,
          client_user_handler env uh FREE_EVENT True,
          ConnectionInit (core_cb (pipe_cb env (client_cb env uh))) (pe_fuel env) (pe_name env) (cy_sock cy) (cy_fcntl cy)])
        (s2\<lparr>ps_conns := (ps_conns s2)(cy_ref cy \<mapsto> co)\<rparr>)))))"

section \<open>The loop\<close>

text \<open>The end of a connection; \<open>||\<close> does not ask \<open>ConnectionNoMoreUsed\<close> before the client is connected.\<close>

definition client_close ::
  "penv \<Rightarrow> ('g, 'd, 'x) chandler \<Rightarrow> client_sys \<Rightarrow> nat \<Rightarrow> ('g, 'd, 'x) cpsys \<Rightarrow> ('g, 'd, 'x) cpsys res" where
  "client_close env uh cy c s =
     bnd (deref (ps_conns s c)) (\<lambda>co.
     let closedForError = cn_closedForError (co_conn co) in
     bnd (if \<not> cl_connected (the_client s) then free_conn env (client_cb env uh) c s
          else report_and_free env (client_cb env uh) OWNER_CLIENT c s) (\<lambda>s1.
     if closedForError then
       (if cl_retryCount (the_client s1) < cl_retries (the_client s1) then
          bnd (c_int (cl_retryCount (the_client s1) + 1)) (\<lambda>n.
          open_connection env uh cy (upd_client (\<lambda>cl. cl\<lparr>cl_retryCount := n\<rparr>) s1))
        else Inr (upd_client (\<lambda>cl. cl\<lparr>cl_exiting := True\<rparr>) s1))
     else Inr (upd_client (\<lambda>cl. cl\<lparr>cl_exiting := True\<rparr>) s1)))"

definition client_connecting ::
  "penv \<Rightarrow> ('g, 'd, 'x) chandler \<Rightarrow> client_sys \<Rightarrow> nat \<Rightarrow> ('g, 'd, 'x) cpsys \<Rightarrow> ('g, 'd, 'x) cpsys res" where
  "client_connecting env uh cy c s =
     bnd (do_conn c (ConnectionFinishConnect (core_cb (pipe_cb env (client_cb env uh))) (pe_fuel env) (pe_name env) (cy_poll cy) (cy_so cy)) s) (\<lambda>s1.
     bnd (deref (ps_conns s1 c)) (\<lambda>co.
     if cn_state (co_conn co) \<noteq> STATE_CLOSED then
       bnd (deref (if cl_reader (the_client s1) then Some () else None)) (\<lambda>_. ReaderManageConnection env (client_cb env uh) c s1)
     else Inr s1))"

definition ClientItem ::
  "penv \<Rightarrow> ('g, 'd, 'x) chandler \<Rightarrow> client_sys \<Rightarrow> nat qitem \<Rightarrow> ('g, 'd, 'x) cpsys \<Rightarrow> (round_end \<times> ('g, 'd, 'x) cpsys) res" where
  "ClientItem env uh cy item s =
     (case QueueItemGetType item of
        QUEUE_ITEM_EXIT \<Rightarrow> Inr (Return False, s)
      | QUEUE_ITEM_EVENT \<Rightarrow>
          bnd (QueueEventItemGetSource item) (\<lambda>c.
          bnd (QueueEventItemGetEvent item) (\<lambda>ev.
          case ev of
            INIT_EVENT \<Rightarrow>
              bnd (do_conn c (ConnectionConnect (core_cb (pipe_cb env (client_cb env uh))) (pe_fuel env) (pe_name env) (cy_connect cy)) s)
                (\<lambda>s1. Inr (Again, s1))
          | CONNECTING_EVENT \<Rightarrow> bnd (client_connecting env uh cy c s) (\<lambda>s1. Inr (Again, s1))
          | CONNECTED_EVENT \<Rightarrow> Inr (Again, upd_client (\<lambda>cl. cl\<lparr>cl_connected := True, cl_retryCount := 0\<rparr>) s)
          | CLOSE_EVENT \<Rightarrow> bnd (client_close env uh cy c s) (\<lambda>s1. Inr (Again, s1))
          | FREE_EVENT \<Rightarrow> Inr (if cl_exiting (the_client s) then Return False else Again, s)
          | _ \<Rightarrow> Inr (Again, s)))
      | _ \<Rightarrow> Inr (Again, s))"

definition ClientRound ::
  "penv \<Rightarrow> ('g, 'd, 'x) chandler \<Rightarrow> client_sys \<Rightarrow> nat qitem \<Rightarrow> ('g, 'd, 'x) cpsys \<Rightarrow>
   (round_end \<times> nat qitem \<times> ('g, 'd, 'x) cpsys) res" where
  "ClientRound env uh cy item s =
     bnd (deref (cl_queue (the_client s))) (\<lambda>q.
     bnd (Dequeue (pe_okq env) (cy_waits cy) q item True) (\<lambda>(dequeued, it, q').
     let s1 = upd_client (\<lambda>cl. cl\<lparr>cl_queue := Some q'\<rparr>) s in
     if dequeued then bnd (ClientItem env uh cy it s1) (\<lambda>(nx, s2). Inr (nx, it, s2))
     else Inr (Return True, it, s1)))"

text \<open>The loop ends with the answers that are left.\<close>

fun ClientLoop ::
  "penv \<Rightarrow> ('g, 'd, 'x) chandler \<Rightarrow> client_sys list \<Rightarrow> nat qitem \<Rightarrow> ('g, 'd, 'x) cpsys \<Rightarrow>
   (bool \<times> client_sys list \<times> ('g, 'd, 'x) cpsys) res" where
  "ClientLoop env uh [] item s = Inl OutOfFuel"
| "ClientLoop env uh (cy # rounds) item s =
     bnd (ClientRound env uh cy item s) (\<lambda>(nx, it, s1).
     case nx of Again \<Rightarrow> ClientLoop env uh rounds it s1 | Return b \<Rightarrow> Inr (b, rounds, s1))"

definition clientRun ::
  "penv \<Rightarrow> ('g, 'd, 'x) chandler \<Rightarrow> client_sys list \<Rightarrow> ('g, 'd, 'x) cpsys \<Rightarrow> (bool \<times> client_sys list \<times> ('g, 'd, 'x) cpsys) res" where
  "clientRun env uh rounds s = bnd (deref (NewQueueItem (pe_item env))) (\<lambda>item. ClientLoop env uh rounds item s)"

section \<open>The client's thread\<close>

type_synonym ('g, 'd, 'x) cthreads = "(thread_fun, unit, ('g, 'd, 'x) cpsys) tworld"

text \<open>
  The answers for a whole client: the allocations of the structure, of its name and of the name of
  its pipe, the address that \<open>NewAddress\<close> makes, at a reference of its own, the queue, the pool and the
  thread, the pipe, the first connection, and the rounds of a call of the routine.
\<close>

record ('g, 'd, 'x) client_life =
  ci_mem :: bool
  ci_name :: bool
  ci_pipeName :: bool
  ci_address :: "address option"
  ci_ref :: nat
  ci_queue :: queue_env
  ci_pool :: bool
  ci_pool_queue :: queue_env
  ci_start :: start_env
  ci_pipe :: life_env
  ci_first :: client_sys
  ci_rounds :: "('g, 'd, 'x) cpsys \<Rightarrow> client_sys list"

definition clientInit ::
  "('g, 'd, 'x) client_life \<Rightarrow> ('g, 'd, 'x) chandler \<Rightarrow> ('g, 'd, 'x) cthreads \<Rightarrow> (bool \<times> ('g, 'd, 'x) cthreads) res" where
  "clientInit I uh w =
     (let env = le_penv (ci_pipe I); cl = the_client (tw_user w) in
      bnd (deref (cl_name cl)) (\<lambda>name.
      let pipeName = (if ci_pipeName I then Some name else None) in
      bnd (NewBufferPool (pe_okb env) (pe_okq env) (ci_pool I) (make_queue (ci_pool_queue I)) (cl_bufferSize cl) (ps_mem (tw_user w)))
        (\<lambda>(pool, m).
      let w1 = on_psys (\<lambda>s. upd_client (\<lambda>cl. cl\<lparr>cl_pool := pool\<rparr>) (s\<lparr>ps_mem := m\<rparr>)) w in
      bnd (NewReader (ci_pipe I) (client_cb env uh) pipeName (cl_bufferSize cl) w1) (\<lambda>(made, w2).
      let w3 = on_psys (upd_client (\<lambda>cl. cl\<lparr>cl_reader := made\<rparr>)) w2 in
      if \<not> made then Inr (False, w3)
      else bnd (open_connection env uh (ci_first I) (tw_user w3)) (\<lambda>s. Inr (True, w3\<lparr>tw_user := s\<rparr>))))))"

definition clientExit ::
  "('g, 'd, 'x) client_life \<Rightarrow> ('g, 'd, 'x) chandler \<Rightarrow> ('g, 'd, 'x) cthreads \<Rightarrow> ('g, 'd, 'x) cthreads res" where
  "clientExit I uh w =
     (let env = le_penv (ci_pipe I) in
      bnd (if cl_reader (the_client (tw_user w)) then ReaderEnd (ci_pipe I) (client_cb env uh) w else Inr w) (\<lambda>w1.
      let cl = the_client (tw_user w1) in
      bnd (FreeQueue (cl_queue cl)) (\<lambda>(q, _).
      bnd (FreeBufferPool (le_fuel (ci_pipe I)) (pe_okq env) (pe_item env) (cl_pool cl) (ps_mem (tw_user w1))) (\<lambda>(pool, m).
      Inr (on_psys (\<lambda>s. upd_client (\<lambda>_. cl\<lparr>cl_queue := q, cl_pool := pool, cl_address := None\<rparr>)
             (s\<lparr>ps_mem := m, ps_addrs := (case cl_address cl of None \<Rightarrow> ps_addrs s | Some a \<Rightarrow> (ps_addrs s)(a := None))\<rparr>)) w1)))))"

definition client_threads ::
  "('g, 'd, 'x) client_life \<Rightarrow> ('g, 'd, 'x) chandler \<Rightarrow> (thread_fun, unit, ('g, 'd, 'x) cpsys) tcallbacks" where
  "client_threads I uh =
     \<lparr>tc_call = (\<lambda>g _. if g = T_ClientInit then clientInit I uh
        else psys_call (\<lambda>s. bnd (clientRun (le_penv (ci_pipe I)) uh (ci_rounds I s) s) (\<lambda>(b, _, s'). Inr (b, s')))),
      tc_exit = (\<lambda>_ _. clientExit I uh)\<rparr>"

text \<open>\<open>snprintf(client->name, 10, "client%03d", clientIndex)\<close>.\<close>

definition client_name :: "int \<Rightarrow> string" where
  "client_name i = c_snprintf 10 (''client'' @ format_03d i)"

text \<open>The result says whether a client is returned; if not, what had been made has been freed again.\<close>

definition NewClient ::
  "('g, 'd, 'x) client_life \<Rightarrow> int \<Rightarrow> int \<Rightarrow> int \<Rightarrow> int \<Rightarrow> 'g \<Rightarrow> 'd option \<Rightarrow> 'x \<Rightarrow> ('g, 'd, 'x) cthreads \<Rightarrow>
   (bool \<times> ('g, 'd, 'x) cthreads) res" where
  "NewClient I clientIndex retries retryInterval bufferSize handler handlerData u w =
     (if \<not> ci_mem I then Inr (False, w)
      else
        let name = (if ci_name I then Some (client_name clientIndex) else None);
            address = map_option (\<lambda>_. ci_ref I) (ci_address I);
            cl = \<lparr>cl_name = name, cl_address = address, cl_connection = None, cl_thread = None, cl_reader = False,
                  cl_queue = make_queue (ci_queue I), cl_pool = None, cl_handler = handler, cl_handlerData = handlerData,
                  cl_retries = retries, cl_interval = retryInterval, cl_retryCount = 0, cl_bufferSize = bufferSize,
                  cl_connected = False, cl_exiting = False, cl_user = u\<rparr>;
            w1 = on_psys (\<lambda>s. upd_client (\<lambda>_. cl) (s\<lparr>ps_addrs := (case ci_address I of None \<Rightarrow> ps_addrs s
                    | Some a \<Rightarrow> (ps_addrs s)(ci_ref I \<mapsto> AddressGetString a))\<rparr>)) w in
        case make_thread (ci_start I) name T_ClientInit T_ClientRun T_ClientExit w1 of
          (None, w2) \<Rightarrow>
            bnd (FreeQueue (cl_queue cl)) (\<lambda>(q, _).
            Inr (False, on_psys (\<lambda>s. upd_client (\<lambda>cl. cl\<lparr>cl_queue := q, cl_address := None, cl_name := None\<rparr>)
                   (s\<lparr>ps_addrs := ps_addrs (tw_user w)\<rparr>)) w2))
        | (Some t, w2) \<Rightarrow> Inr (True, on_psys (upd_client (\<lambda>cl. cl\<lparr>cl_thread := Some t\<rparr>)) w2))"

definition ClientStart ::
  "('g, 'd, 'x) client_life \<Rightarrow> ('g, 'd, 'x) chandler \<Rightarrow> ('g, 'd, 'x) cthreads \<Rightarrow> (bool \<times> ('g, 'd, 'x) cthreads) res" where
  "ClientStart I uh w =
     bnd (deref (cl_thread (the_client (tw_user w)))) (\<lambda>t.
     ThreadStart (se_create (ci_start I)) (se_id (ci_start I)) [serve (client_threads I uh) t] t w)"

definition ClientGetConnection :: "('g, 'd, 'x) client \<Rightarrow> nat option" where
  "ClientGetConnection cl = cl_connection cl"

definition ClientEnd ::
  "('g, 'd, 'x) client_life \<Rightarrow> ('g, 'd, 'x) chandler \<Rightarrow> nat \<Rightarrow> ('g, 'd, 'x) cthreads \<Rightarrow> ('g, 'd, 'x) cthreads res" where
  "ClientEnd I uh f w =
     bnd (case cl_thread (the_client (tw_user w)) of
            None \<Rightarrow> Inr w
          | Some t \<Rightarrow> ThreadJoin (finish (client_threads I uh) f t) (Some t) w) (\<lambda>w1.
     Inr (on_psys (upd_client (\<lambda>cl. cl\<lparr>cl_name := None, cl_thread := None\<rparr>)) w1))"

end
