(* ===== verification/PipeConns.thy ===== *)
theory PipeConns
  imports PipeLife
begin

text \<open>
  Handing a connection to a pipe: the registrations of \<open>ReaderManageConnection\<close>,
  \<open>WorkerManageConnection\<close> and \<open>WriterManageConnection\<close>, for whoever hands over a connection.
\<close>

section \<open>One connection of the system\<close>

lemma do_conn_eq: "ps_conns s c = Some co \<Longrightarrow> do_conn c g s = bnd (g (focus c co s)) (\<lambda>w. Inr (unfocus c (co_readKey co) w s))"
  by (simp add: do_conn_def with_conn_def bnd_assoc)

lemma focus_unfocus:
  assumes "pp_self (k_user (w_core w)) = c"
  shows "\<exists>co. ps_conns (unfocus c key w s) = (ps_conns s)(c \<mapsto> co) \<and> focus c co (unfocus c key w s) = w \<and> co_conn co = w_conn w"
proof -
  let ?co = "\<lparr>co_sys = w_sys w, co_usr = w_usr w, co_conn = w_conn w, co_net = k_net (w_core w), co_readKey = key\<rparr>"
  have u: "(k_user (w_core w))\<lparr>pp_self := c\<rparr> = k_user (w_core w)" using assms by simp
  have "focus c ?co (unfocus c key w s) = w" using u by (simp add: focus_def unfocus_def Let_def)
  then show ?thesis by (intro exI [of _ ?co]) (simp add: unfocus_def Let_def)
qed

section \<open>Registering handlers\<close>

definition handler_env :: "penv \<Rightarrow> bool" where
  "handler_env env \<longleftrightarrow> calm_env env \<and> pe_handler env \<and> pe_okh env = all_ok \<and> 2 < pe_fuel env"

lemma handler_env_calm: "handler_env env \<Longrightarrow> calm_env env"
  by (simp add: handler_env_def)

lemma sample_handler_env: "handler_env sample_penv"
  using sample_penv_calm by (simp add: handler_env_def) (simp add: sample_penv_def)

definition pipe_h :: "event \<Rightarrow> 'f phandler \<Rightarrow> bool \<Rightarrow> ('f phandler, 'd) handler" where
  "pipe_h ev h once = \<lparr>h_event = ev, h_once = once, h_callback = h, h_data = None\<rparr>"

lemma add_system_seq:
  assumes "held k S U w" "handler_env env"
  shows "returns (add_system_handler env ucb ev h once w)
    (held k (S(ev := S ev @ [pipe_h ev h once])) U)"
proof -
  obtain qs qu where q: "w_sys w = Some qs" "eq_inv qs" "w_usr w = Some qu" "eq_inv qu"
    using assms(1) by (auto simp: held_def queues_ok_def)
  let ?h = "pipe_h ev h once"
  show ?thesis
    using EventHandlerAdd_seq [OF q(2), of all_ok ?h] assms q
    by (auto simp: ConnectionAddSystemHandler_def NewEventHandler_def handler_env_def held_def put_sys_def queues_ok_def pipe_h_def elim!: returnsE)
qed

lemma add_handler_seq:
  assumes "held k S U w" "handler_env env"
  shows "returns (ConnectionAddHandler cb f ne (pe_handler env) (pe_okh env) ev h d once w)
    (held k S (U(ev := U ev @ [\<lparr>h_event = ev, h_once = once, h_callback = h, h_data = d\<rparr>])))"
proof -
  obtain qs qu where q: "w_sys w = Some qs" "eq_inv qs" "w_usr w = Some qu" "eq_inv qu"
    using assms(1) by (auto simp: held_def queues_ok_def)
  let ?h = "\<lparr>h_event = ev, h_once = once, h_callback = h, h_data = d\<rparr>"
  show ?thesis
    using EventHandlerAdd_seq [OF q(4), of all_ok ?h] assms q
    by (auto simp: ConnectionAddHandler_def NewEventHandler_def handler_env_def held_def put_usr_def queues_ok_def elim!: returnsE)
qed

text \<open>An owner takes charge of a connection while others do not yet.\<close>

lemma managed_by_seq:
  assumes "held k S U w" "cn_managedByLock (k_conn k) = Some free_lock" "\<not> cn_managedBy (k_conn k) other" "other \<noteq> own"
  shows "returns (managed_by env ucb own w) (held (upd_conn (\<lambda>c. c\<lparr>cn_managedBy := (cn_managedBy c)(own := True)\<rparr>) k) S U)"
proof -
  let ?by = "(cn_managedBy (k_conn k))(own := True)"
  have n: "All ?by = False" using assms(3,4) by (metis fun_upd_apply)
  have l: "(k_conn k)\<lparr>cn_managedBy := ?by, cn_managedByLock := Some free_lock\<rparr> = (k_conn k)\<lparr>cn_managedBy := ?by\<rparr>"
    using assms(2) by (cases "k_conn k") simp
  have "held (upd_conn (\<lambda>c. c\<lparr>cn_managedBy := (cn_managedBy c)(own := True)\<rparr>) k) S U
    (upd_core (upd_conn (\<lambda>c. c\<lparr>cn_managedBy := ?by, cn_managedByLock := Some free_lock\<rparr>)) w)"
    using assms(1) l by (simp add: held_def upd_conn_def)
  then show ?thesis using assms(1,2) by (simp add: ConnectionManagedBy_def Let_def held_def n del: fun_upd_apply)
qed

section \<open>Handing over a connection\<close>

text \<open>The system handlers of a connection that has been handed to a pipe.\<close>

definition pipe_handlers :: "(event \<Rightarrow> ('f phandler, 'd) handler list) \<Rightarrow> event \<Rightarrow> ('f phandler, 'd) handler list" where
  "pipe_handlers S = S(
     PENDING_CLOSE_EVENT := S PENDING_CLOSE_EVENT @ [pipe_h PENDING_CLOSE_EVENT ReaderEventHandler True],
     CLOSE_EVENT := S CLOSE_EVENT @ [pipe_h CLOSE_EVENT ReaderEventHandler True, pipe_h CLOSE_EVENT WorkerCloseHandler True,
       pipe_h CLOSE_EVENT WriterEventHandler True],
     INBOUND_DATA_EVENT := S INBOUND_DATA_EVENT @ [pipe_h INBOUND_DATA_EVENT WorkerReadHandler False],
     OUTBOUND_DATA_EVENT := S OUTBOUND_DATA_EVENT @ [pipe_h OUTBOUND_DATA_EVENT WriterEventHandler False])"

definition pipe_open :: "'x pipe \<Rightarrow> bool" where
  "pipe_open p \<longleftrightarrow> (\<exists>q. rd_queue (pp_reader p) = Some q \<and> q_inv q \<and> \<not> q_exit q) \<and> rd_selector (pp_reader p) \<noteq> None \<and> pp_worker p \<noteq> None"

definition managed :: "'u core \<Rightarrow> 'u core" where
  "managed k = upd_conn (\<lambda>c. c\<lparr>cn_managedBy := (cn_managedBy c)(OWNER_WORKER := True, OWNER_WRITER := True)\<rparr>) k"

lemma WorkerManage_seq:
  assumes "held k S U w" "handler_env env" "cn_managedByLock (k_conn k) = Some free_lock" "\<not> cn_managedBy (k_conn k) OWNER_READER"
    and "pp_worker (k_user k) = Some wk"
  shows "returns (bnd (add_system_handler env ucb PENDING_CLOSE_EVENT ReaderEventHandler True w) (\<lambda>w1.
      bnd (add_system_handler env ucb CLOSE_EVENT ReaderEventHandler True w1) (WorkerManageConnection env ucb)))
    (held (managed k) (pipe_handlers S) U)"
proof -
  note a = add_system_seq [OF _ assms(2)]
  obtain w1 where w1: "add_system_handler env ucb PENDING_CLOSE_EVENT ReaderEventHandler True w = Inr w1"
    "held k (S(PENDING_CLOSE_EVENT := S PENDING_CLOSE_EVENT @ [pipe_h PENDING_CLOSE_EVENT ReaderEventHandler True])) U w1" (is "held k ?S1 U w1")
    by (rule returnsE [OF a [OF assms(1)]]) (rule that)
  obtain w2 where w2: "add_system_handler env ucb CLOSE_EVENT ReaderEventHandler True w1 = Inr w2"
    "held k (?S1(CLOSE_EVENT := ?S1 CLOSE_EVENT @ [pipe_h CLOSE_EVENT ReaderEventHandler True])) U w2" (is "held k ?S2 U w2")
    by (rule returnsE [OF a [OF w1(2)]]) (rule that)
  obtain w3 where w3: "add_system_handler env ucb INBOUND_DATA_EVENT WorkerReadHandler False w2 = Inr w3"
    "held k (?S2(INBOUND_DATA_EVENT := ?S2 INBOUND_DATA_EVENT @ [pipe_h INBOUND_DATA_EVENT WorkerReadHandler False])) U w3" (is "held k ?S3 U w3")
    by (rule returnsE [OF a [OF w2(2)]]) (rule that)
  obtain w4 where w4: "add_system_handler env ucb CLOSE_EVENT WorkerCloseHandler True w3 = Inr w4"
    "held k (?S3(CLOSE_EVENT := ?S3 CLOSE_EVENT @ [pipe_h CLOSE_EVENT WorkerCloseHandler True])) U w4" (is "held k ?S4 U w4")
    by (rule returnsE [OF a [OF w3(2)]]) (rule that)
  let ?k5 = "upd_conn (\<lambda>c. c\<lparr>cn_managedBy := (cn_managedBy c)(OWNER_WORKER := True)\<rparr>) k"
  obtain w5 where w5: "managed_by env ucb OWNER_WORKER w4 = Inr w5" "held ?k5 ?S4 U w5"
    by (rule returnsE [OF managed_by_seq [OF w4(2) assms(3,4), of OWNER_WORKER env ucb]]) (simp, rule that)
  obtain w6 where w6: "add_system_handler env ucb OUTBOUND_DATA_EVENT WriterEventHandler False w5 = Inr w6"
    "held ?k5 (?S4(OUTBOUND_DATA_EVENT := ?S4 OUTBOUND_DATA_EVENT @ [pipe_h OUTBOUND_DATA_EVENT WriterEventHandler False])) U w6" (is "held _ ?S6 U w6")
    by (rule returnsE [OF a [OF w5(2)]]) (rule that)
  obtain w7 where w7: "add_system_handler env ucb CLOSE_EVENT WriterEventHandler True w6 = Inr w7"
    "held ?k5 (?S6(CLOSE_EVENT := ?S6 CLOSE_EVENT @ [pipe_h CLOSE_EVENT WriterEventHandler True])) U w7" (is "held _ ?S7 U w7")
    by (rule returnsE [OF a [OF w6(2)]]) (rule that)
  have S: "?S7 = pipe_handlers S" by (auto simp: pipe_handlers_def fun_eq_iff)
  have k: "upd_conn (\<lambda>c. c\<lparr>cn_managedBy := (cn_managedBy c)(OWNER_WRITER := True)\<rparr>) ?k5 = managed k"
    by (simp add: managed_def upd_conn_def)
  have "returns (managed_by env ucb OWNER_WRITER w7) (held (managed k) (pipe_handlers S) U)"
    using managed_by_seq [OF w7(2), of OWNER_READER OWNER_WRITER env ucb] assms(3,4) unfolding S k by simp
  moreover have "pp_worker (k_user (w_core w5)) = Some wk" using w5(2) assms(5) by (simp add: held_def)
  ultimately show ?thesis using w1(1) w2(1) w3(1) w4(1) w5(1) w6(1) w7(1)
    by (simp add: WorkerManageConnection_def WriterManageConnection_def)
qed

text \<open>What the hand-over leaves: the connection in the reader's queue, with the pipe's handlers.\<close>

definition handed_to :: "penv \<Rightarrow> nat \<Rightarrow> 'x pipe \<Rightarrow> 'x pipe \<Rightarrow> bool" where
  "handed_to env c p p' \<longleftrightarrow> (\<exists>q q' sel. rd_queue (pp_reader p) = Some q \<and> rd_selector (pp_reader p) = Some sel \<and> q_inv q' \<and>
     abs_queue q' = (abs_queue q)\<lparr>a_items := q_items q @ [ITEM_DATA c]\<rparr> \<and>
     p' = p\<lparr>pp_self := c, pp_reader := (pp_reader p)\<lparr>rd_queue := Some q',
            rd_selector := Some (SelectorWakeUp (fst (pe_wake env)) (snd (pe_wake env)) sel)\<rparr>\<rparr>)"

lemma ReaderManage_seq:
  assumes co: "ps_conns s c = Some co" and env: "handler_env env" and p: "pipe_open (ps_pipe s)"
    and h: "held (w_core (focus c co s)) S U (focus c co s)"
    and m: "cn_managedByLock (co_conn co) = Some free_lock" "\<not> cn_managedBy (co_conn co) OWNER_READER"
  shows "returns (ReaderManageConnection env ucb c s) (\<lambda>s'. \<exists>co'. handed_to env c (ps_pipe s) (ps_pipe s') \<and>
    s' = s\<lparr>ps_conns := (ps_conns s)(c \<mapsto> co'), ps_pipe := ps_pipe s'\<rparr> \<and>
    co_conn co' = (co_conn co)\<lparr>cn_managedBy := (cn_managedBy (co_conn co))(OWNER_WORKER := True, OWNER_WRITER := True)\<rparr> \<and>
    co_readKey co' = co_readKey co \<and> co_net co' = co_net co \<and>
    held (w_core (focus c co' s')) (pipe_handlers S) U (focus c co' s'))"
proof -
  obtain q where q: "rd_queue (the_reader s) = Some q" "q_inv q" "\<not> q_exit q" using p by (auto simp: pipe_open_def)
  obtain sel wk where sw: "rd_selector (the_reader s) = Some sel" "pp_worker (ps_pipe s) = Some wk" using p by (auto simp: pipe_open_def)
  have "abs_queue q = \<lparr>a_items = q_items q, a_exit = False, a_emptied = q_emptied q\<rparr>" using q(3) by (simp add: abs_queue_def)
  from Enqueue_open [OF q(2) this, of "ITEM_DATA c"] obtain q' where
    e: "Enqueue all_ok q (ITEM_DATA c) = Inr (True, q')" "q_inv q'" "abs_queue q' = (abs_queue q)\<lparr>a_items := q_items q @ [ITEM_DATA c]\<rparr>"
    using q(3) by (auto simp: is_exit_def abs_queue_def elim!: returnsE)
  let ?s1 = "upd_reader (\<lambda>r. r\<lparr>rd_queue := Some q'\<rparr>) s"
  let ?k = "w_core (focus c co ?s1)"
  have "held ?k S U (focus c co ?s1)" using h by (simp add: held_def focus_def queues_ok_def)
  moreover have "pp_worker (k_user ?k) = Some wk" "k_conn ?k = co_conn co" using sw by (simp_all add: focus_def upd_reader_def)
  ultimately obtain w where w: "bnd (add_system_handler env ucb PENDING_CLOSE_EVENT ReaderEventHandler True (focus c co ?s1)) (\<lambda>w1.
      bnd (add_system_handler env ucb CLOSE_EVENT ReaderEventHandler True w1) (WorkerManageConnection env ucb)) = Inr w"
    "held (managed ?k) (pipe_handlers S) U w"
    using WorkerManage_seq [of ?k S U "focus c co ?s1" env wk ucb] env m by (auto elim!: returnsE)
  have wc: "w_core w = managed ?k" using w(2) by (simp add: held_def)
  let ?s2 = "unfocus c (co_readKey co) w ?s1"
  have "pp_self (k_user (w_core w)) = c" by (simp add: wc managed_def focus_def)
  from focus_unfocus [OF this, of "co_readKey co" ?s1] obtain co' where
    co': "ps_conns ?s2 = (ps_conns s)(c \<mapsto> co')" "focus c co' ?s2 = w" "co_conn co' = w_conn w" by (auto simp: upd_reader_def)
  have cc: "ps_conns ?s2 c = Some co'" using co'(1) by simp
  then have "co_readKey co' = co_readKey co" "co_net co' = co_net co" by (auto simp: unfocus_def Let_def wc managed_def focus_def)
  moreover have p2: "ps_pipe ?s2 = (ps_pipe s)\<lparr>pp_self := c, pp_reader := (the_reader s)\<lparr>rd_queue := Some q'\<rparr>\<rparr>"
    by (simp add: unfocus_def Let_def wc managed_def focus_def upd_reader_def)
  let ?p = "(ps_pipe s)\<lparr>pp_self := c, pp_reader := (the_reader s)\<lparr>rd_queue := Some q',
     rd_selector := Some (SelectorWakeUp (fst (pe_wake env)) (snd (pe_wake env)) sel)\<rparr>\<rparr>"
  let ?s3 = "?s2\<lparr>ps_pipe := ?p\<rparr>"
  have wk: "wake_reader env (ps_pipe ?s2) = Inr ?p" unfolding wake_reader_def p2 using sw by simp
  have r: "ReaderManageConnection env ucb c s = Inr ?s3"
  proof -
    have "do_conn c (\<lambda>w. bnd (add_system_handler env ucb PENDING_CLOSE_EVENT ReaderEventHandler True w) (\<lambda>w1.
         bnd (add_system_handler env ucb CLOSE_EVENT ReaderEventHandler True w1) (\<lambda>w2. WorkerManageConnection env ucb w2))) ?s1 = Inr ?s2"
      using do_conn_eq [of ?s1 c co] co w(1) by (simp add: upd_reader_def)
    then show ?thesis using q(1) e(1) env wk
      by (simp add: ReaderManageConnection_def Enqueue_ptr_def Let_def handler_env_def)
  qed
  have "handed_to env c (ps_pipe s) ?p" using q(1) sw(1) e(2,3) unfolding handed_to_def by blast
  then have "handed_to env c (ps_pipe s) (ps_pipe ?s3)" by simp
  moreover have "?s3 = s\<lparr>ps_conns := (ps_conns s)(c \<mapsto> co'), ps_pipe := ps_pipe ?s3\<rparr>"
    using co'(1) by (simp add: unfocus_def Let_def wc managed_def focus_def upd_reader_def)
  moreover have "co_conn co' = (co_conn co)\<lparr>cn_managedBy := (cn_managedBy (co_conn co))(OWNER_WORKER := True, OWNER_WRITER := True)\<rparr>"
    by (simp add: co'(3) wc managed_def focus_def)
  moreover have "held (w_core (focus c co' ?s3)) (pipe_handlers S) U (focus c co' ?s3)"
  proof -
    have "\<exists>k. focus c co' ?s3 = (focus c co' ?s2)\<lparr>w_core := k\<rparr>"
      by (intro exI [of _ "w_core (focus c co' ?s3)"]) (simp add: focus_def)
    then obtain k where "focus c co' ?s3 = w\<lparr>w_core := k\<rparr>" unfolding co'(2) by blast
    then show ?thesis using w(2) by (simp add: held_def)
  qed
  ultimately show ?thesis unfolding r returns_Inr by (intro exI [of _ co'] conjI)
qed

end
