(* ===== verification/ClientFlow.thy ===== *)
theory ClientFlow
  imports Clients PipeConns
begin

text \<open>
  What the client of \<open>src/client.c\<close> does with its connections: opening one, each of the three answers
  of \<open>connect\<close>, and how it gives up when no attempt succeeds.
\<close>

section \<open>The handlers of a client's connection\<close>

text \<open>The user's handler works on its own data, and only on that, when it is told of these events.\<close>

definition life_events :: "event set" where
  "life_events = {INIT_EVENT, CONNECTED_EVENT, CLOSE_EVENT, FREE_EVENT}"

definition friendly :: "('g, 'd, 'x) chandler \<Rightarrow> bool" where
  "friendly uh \<longleftrightarrow> (\<forall>g ev d k. ev \<in> life_events \<longrightarrow>
     (\<exists>x. uh g ev d k = Inr (upd_pipe (\<lambda>p. p\<lparr>pp_ext := (pp_ext p)\<lparr>cl_user := x\<rparr>\<rparr>) k)))"

definition sys_h :: "event \<Rightarrow> ('g client_handler phandler, 'd) handler" where
  "sys_h ev = \<lparr>h_event = ev, h_once = True, h_callback = UserHandler ClientEventHandler, h_data = None\<rparr>"

definition usr_h :: "('g, 'd, 'x) client \<Rightarrow> event \<Rightarrow> bool \<Rightarrow> ('g client_handler phandler, 'd) handler" where
  "usr_h cl ev once = \<lparr>h_event = ev, h_once = once, h_callback = UserHandler (ClientHandler (cl_handler cl)), h_data = cl_handlerData cl\<rparr>"

definition client_handlers :: "('g, 'd, 'x) client \<Rightarrow> event \<Rightarrow> ('g client_handler phandler, 'd) handler list" where
  "client_handlers cl ev =
     (if ev \<in> life_events then [sys_h ev, usr_h cl ev True]
      else if ev = CONNECTING_EVENT then [sys_h ev]
      else if ev \<in> {READ_EVENT, WRITE_EVENT} then [usr_h cl ev False]
      else [])"

text \<open>The event has been put into the client's queue; nothing else is different but the user's data.\<close>

definition noted :: "event \<Rightarrow> ('g, 'd, 'x) client pipe \<Rightarrow> ('g, 'd, 'x) client pipe \<Rightarrow> bool" where
  "noted ev p p' \<longleftrightarrow> (\<exists>q q' x. cl_queue (pp_ext p) = Some q \<and> q_inv q' \<and>
     abs_queue q' = (abs_queue q)\<lparr>a_items := q_items q @ [ITEM_EVENT ev (pp_self p)]\<rparr> \<and>
     p' = p\<lparr>pp_ext := (pp_ext p)\<lparr>cl_queue := Some q', cl_user := x\<rparr>\<rparr>)"

definition open_queue :: "('g, 'd, 'x) client \<Rightarrow> bool" where
  "open_queue cl \<longleftrightarrow> (\<exists>q. cl_queue cl = Some q \<and> q_inv q \<and> \<not> q_exit q)"

abbreviation client_calls ::
  "penv \<Rightarrow> ('g, 'd, 'x) chandler \<Rightarrow> 'g client_handler phandler \<Rightarrow> event \<Rightarrow> 'd option \<Rightarrow> ('g, 'd, 'x) ccore \<Rightarrow> ('g, 'd, 'x) ccore res" where
  "client_calls env uh \<equiv> pipe_cb env (client_cb env uh)"

lemma client_queue:
  assumes "calm_env env" "open_queue (pp_ext (k_user k))"
  shows "\<exists>q q'. cl_queue (pp_ext (k_user k)) = Some q \<and> Enqueue all_ok q (ITEM_EVENT ev (pp_self (k_user k))) = Inr (True, q') \<and>
    q_inv q' \<and> abs_queue q' = (abs_queue q)\<lparr>a_items := q_items q @ [ITEM_EVENT ev (pp_self (k_user k))]\<rparr>"
proof -
  obtain q where q: "cl_queue (pp_ext (k_user k)) = Some q" "q_inv q" "\<not> q_exit q" using assms(2) by (auto simp: open_queue_def)
  have "abs_queue q = \<lparr>a_items = q_items q, a_exit = False, a_emptied = q_emptied q\<rparr>" using q(3) by (simp add: abs_queue_def)
  from Enqueue_open [OF q(2) this, of "ITEM_EVENT ev (pp_self (k_user k))"] show ?thesis
    using q(1,3) by (auto simp: is_exit_def abs_queue_def)
qed

lemma client_told:
  assumes "friendly uh" "ev \<in> life_events" "calm_env env" "open_queue (pp_ext (k_user k))"
  shows "\<exists>p. call_all (client_calls env uh) ev (client_handlers cl ev) k = Inr (k\<lparr>k_user := p\<rparr>) \<and> noted ev (k_user k) p"
proof -
  from client_queue [OF assms(3,4), of ev] obtain q q' where
    q: "cl_queue (pp_ext (k_user k)) = Some q" "Enqueue all_ok q (ITEM_EVENT ev (pp_self (k_user k))) = Inr (True, q')" "q_inv q'"
      "abs_queue q' = (abs_queue q)\<lparr>a_items := q_items q @ [ITEM_EVENT ev (pp_self (k_user k))]\<rparr>" by blast
  let ?k = "upd_pipe (\<lambda>p. p\<lparr>pp_ext := (pp_ext (k_user k))\<lparr>cl_queue := Some q'\<rparr>\<rparr>) k"
  obtain x where x: "uh (cl_handler cl) ev (cl_handlerData cl) ?k = Inr (upd_pipe (\<lambda>p. p\<lparr>pp_ext := (pp_ext p)\<lparr>cl_user := x\<rparr>\<rparr>) ?k)"
    using assms(1,2) unfolding friendly_def by blast
  have "call_all (client_calls env uh) ev (client_handlers cl ev) k = Inr (upd_pipe (\<lambda>p. p\<lparr>pp_ext := (pp_ext p)\<lparr>cl_user := x\<rparr>\<rparr>) ?k)"
    using assms(2,3) q(1,2) x
    by (simp add: client_handlers_def sys_h_def usr_h_def clientEventHandler_def Enqueue_ptr_def Let_def)
  then show ?thesis using q
    by (intro exI [of _ "(k_user k)\<lparr>pp_ext := (pp_ext (k_user k))\<lparr>cl_queue := Some q', cl_user := x\<rparr>\<rparr>"])
      (auto simp: noted_def upd_pipe_def)
qed

lemma noted_fields:
  assumes "noted ev p p'"
  shows "pp_self p' = pp_self p" "pp_reader p' = pp_reader p" "pp_worker p' = pp_worker p" "pp_writer p' = pp_writer p"
  using assms by (auto simp: noted_def)

lemma noted_queued:
  assumes "cl_queue (pp_ext p) = Some q" "q_inv q'" "abs_queue q' = (abs_queue q)\<lparr>a_items := q_items q @ [ITEM_EVENT ev (pp_self p)]\<rparr>"
  shows "noted ev p (p\<lparr>pp_ext := (pp_ext p)\<lparr>cl_queue := Some q'\<rparr>\<rparr>)"
proof -
  have "p\<lparr>pp_ext := (pp_ext p)\<lparr>cl_queue := Some q'\<rparr>\<rparr> = p\<lparr>pp_ext := (pp_ext p)\<lparr>cl_queue := Some q', cl_user := cl_user (pp_ext p)\<rparr>\<rparr>"
    by (cases "pp_ext p") simp
  then show ?thesis using assms unfolding noted_def by blast
qed

definition client_events :: "event set" where
  "client_events = insert CONNECTING_EVENT life_events"

lemma client_hears:
  assumes "friendly uh" "ev \<in> client_events" "calm_env env" "open_queue (pp_ext (k_user k))"
  shows "\<exists>p. call_all (client_calls env uh) ev (client_handlers cl ev) k = Inr (k\<lparr>k_user := p\<rparr>) \<and> noted ev (k_user k) p"
proof (cases "ev \<in> life_events")
  case True
  then show ?thesis using client_told [OF assms(1) _ assms(3,4)] by blast
next
  case False
  then have ev: "ev = CONNECTING_EVENT" using assms(2) by (simp add: client_events_def)
  from client_queue [OF assms(3,4), of ev] obtain q q' where
    q: "cl_queue (pp_ext (k_user k)) = Some q" "Enqueue all_ok q (ITEM_EVENT ev (pp_self (k_user k))) = Inr (True, q')" "q_inv q'"
      "abs_queue q' = (abs_queue q)\<lparr>a_items := q_items q @ [ITEM_EVENT ev (pp_self (k_user k))]\<rparr>" by blast
  have "call_all (client_calls env uh) ev (client_handlers cl ev) k = Inr (upd_pipe (\<lambda>p. p\<lparr>pp_ext := (pp_ext p)\<lparr>cl_queue := Some q'\<rparr>\<rparr>) k)"
    using assms(3) q(1,2) False ev
    by (simp add: client_handlers_def sys_h_def clientEventHandler_def Enqueue_ptr_def Let_def upd_pipe_def)
  moreover have "upd_pipe (\<lambda>p. p\<lparr>pp_ext := (pp_ext p)\<lparr>cl_queue := Some q'\<rparr>\<rparr>) k = k\<lparr>k_user := (k_user k)\<lparr>pp_ext := (pp_ext (k_user k))\<lparr>cl_queue := Some q'\<rparr>\<rparr>\<rparr>"
    by (simp add: upd_pipe_def)
  ultimately show ?thesis using noted_queued [OF q(1,3,4)] by auto
qed

section \<open>A client's connection\<close>

text \<open>
  \<open>attempt env n pr os cl st evs w\<close>: the connection in focus is in state \<open>st\<close>, the handlers of \<open>evs\<close> have been
  called, and it holds two buffers of the pool \<open>pr\<close> while others hold \<open>os\<close>.
\<close>

definition attempt ::
  "penv \<Rightarrow> int \<Rightarrow> nat \<Rightarrow> nat list \<Rightarrow> ('g, 'd, 'x) client \<Rightarrow> conn_state \<Rightarrow> event set \<Rightarrow>
   ('g client_handler, 'd, ('g, 'd, 'x) client) pworld \<Rightarrow> bool" where
  "attempt env n pr os cl st evs w \<longleftrightarrow> conn_inv (pe_fuel env) w \<and> cn_state (w_conn w) = st \<and> \<not> cn_isFactory (w_conn w) \<and>
     \<not> cn_freeAddress (w_conn w) \<and> conn_handlers w = (\<lambda>ev. if ev \<in> evs then [] else client_handlers cl ev) \<and>
     (\<exists>rb wb fs e. cn_readBuffer (w_conn w) = Some rb \<and> cn_writeBuffer (w_conn w) = Some wb \<and>
        pool_inv (16, n) n pr (k_mem (w_core w)) fs (wb # rb # os) e)"

text \<open>What a change of state leaves as it is.\<close>

definition unchanged :: "('g, 'd, 'x) ccore \<Rightarrow> ('g, 'd, 'x) ccore \<Rightarrow> bool" where
  "unchanged k k' \<longleftrightarrow> k_mem k' = k_mem k \<and> k_addrs k' = k_addrs k \<and> k_raised k' = k_raised k \<and> k_net k' = k_net k \<and>
     cn_socket (k_conn k') = cn_socket (k_conn k) \<and> cn_address (k_conn k') = cn_address (k_conn k) \<and>
     cn_closedBy (k_conn k') = cn_closedBy (k_conn k) \<and> cn_managedBy (k_conn k') = cn_managedBy (k_conn k) \<and>
     cn_closedForError (k_conn k') = cn_closedForError (k_conn k)"

lemma fired_handlers:
  "ev \<in> client_events \<Longrightarrow> fired ev (\<lambda>e. if e \<in> evs then [] else client_handlers cl e) =
   (\<lambda>e. if e \<in> insert ev evs then [] else client_handlers cl e)"
  by (auto simp: fired_def fun_eq_iff client_handlers_def sys_h_def usr_h_def client_events_def)

lemma anon_rest:
  assumes "anon c = anon c'"
  shows "cn_socket c = cn_socket c'" "cn_isFactory c = cn_isFactory c'" "cn_freeAddress c = cn_freeAddress c'"
  using assms by (cases c; cases c'; simp add: anon_def)+

lemma entering_rest [simp]:
  "cn_socket (k_conn (entering env st k)) = cn_socket (k_conn k)"
  "cn_isFactory (k_conn (entering env st k)) = cn_isFactory (k_conn k)"
  "cn_freeAddress (k_conn (entering env st k)) = cn_freeAddress (k_conn k)"
proof -
  have "anon (k_conn (entering env st k)) = anon (allow st ((k_conn k)\<lparr>cn_stateLock := Some taken_lock, cn_state := st\<rparr>))"
    by (simp add: entering_fields(6))
  from anon_rest [OF this] show
    "cn_socket (k_conn (entering env st k)) = cn_socket (k_conn k)"
    "cn_isFactory (k_conn (entering env st k)) = cn_isFactory (k_conn k)"
    "cn_freeAddress (k_conn (entering env st k)) = cn_freeAddress (k_conn k)"
    by (simp_all add: allow_def split: option.splits)
qed

lemma entering_unchanged: "unchanged k (unlocked ((entering env st k)\<lparr>k_user := p\<rparr>))"
  by (simp add: unchanged_def unlocked_def entering_fields)

lemma attempt_change:
  assumes "friendly uh" "calm_env env" "attempt env n pr os cl st0 evs w" "open_queue (pp_ext (k_user (w_core w)))"
    and "st \<noteq> st0" "event_of st = Some ev" "ev \<in> client_events" "ev \<notin> evs"
  shows "returns (ConnectionState (core_cb (client_calls env uh)) (pe_fuel env) (pe_name env) st w) (\<lambda>w'.
    attempt env n pr os cl st (insert ev evs) w' \<and> unchanged (w_core w) (w_core w') \<and> noted ev (k_user (w_core w)) (k_user (w_core w')))"
proof -
  have at: "conn_inv (pe_fuel env) w" "cn_state (w_conn w) = st0" "\<not> cn_isFactory (w_conn w)" "\<not> cn_freeAddress (w_conn w)"
    "conn_handlers w = (\<lambda>ev. if ev \<in> evs then [] else client_handlers cl ev)"
    using assms(3) by (simp_all add: attempt_def)
  note i = conn_invD [OF at(1)]
  let ?k = "\<lambda>env'. entering env' st (w_core w)"
  let ?e = "pe_name env"
  obtain a str where ad: "cn_address (w_conn w) = Some a" "k_addrs (w_core w) a = Some str" using i(1) by (rule world_okE)
  have "open_queue (pp_ext (k_user (?k ?e)))" using assms(4) by (simp add: entering_fields)
  from client_hears [OF assms(1,7,2) this, of cl] obtain p where
    p: "call_all (client_calls env uh) ev (client_handlers cl ev) (?k ?e) = Inr ((?k ?e)\<lparr>k_user := p\<rparr>)" "noted ev (k_user (w_core w)) p"
    by (auto simp: entering_fields)
  have c: "call_all (client_calls env uh) ev (conn_handlers w ev) (?k ?e) = Inr ((?k ?e)\<lparr>k_user := p\<rparr>)"
    using p(1) at(5) assms(8) by simp
  have "returns (ConnectionState (core_cb (client_calls env uh)) (pe_fuel env) ?e st w)
    (\<lambda>w'. w_core w' = unlocked ((?k ?e)\<lparr>k_user := p\<rparr>) \<and> queues_ok w' \<and> conn_handlers w' = fired ev (conn_handlers w))"
    by (rule ConnectionState_calls [OF assms(6) _ i(3) _ ad i(6,7) c]) (use assms(2,5) at(2) in simp_all)
  then show ?thesis
  proof (rule returns_mono, elim conjE)
    fix w' assume w': "w_core w' = unlocked ((?k ?e)\<lparr>k_user := p\<rparr>)" "queues_ok w'" "conn_handlers w' = fired ev (conn_handlers w)"
    have h: "conn_handlers w' = (\<lambda>e. if e \<in> insert ev evs then [] else client_handlers cl e)"
      using w'(3) fired_handlers [OF assms(7)] at(5) by simp
    have l: "\<forall>e. length (conn_handlers w' e) < pe_fuel env"
      using h i(7) at(5) by (metis insertCI list.size(3) less_nat_zero_code neq0_conv)
    have "world_ok (pe_fuel env) w'"
      by (rule world_okI [of _ _ a str]) (use w' l ad i(8) in \<open>simp_all add: entering_fields bufs_ok_def buf_ok_def\<close>)
    moreover have "permitted (w_conn w')" using permitted_entering [OF refl i(2), of ?e st] w'(1) by simp
    ultimately have "conn_inv (pe_fuel env) w'" using w'(1) i(4,5) by (simp add: conn_inv_def)
    then show "attempt env n pr os cl st (insert ev evs) w' \<and> unchanged (w_core w) (w_core w') \<and> noted ev (k_user (w_core w)) (k_user (w_core w'))"
      using w' h p(2) at assms(3) entering_unchanged [of "w_core w" p ?e st]
      by (auto simp: attempt_def unlocked_def entering_fields)
  qed
qed

section \<open>Opening a connection\<close>

lemma add_user_seq:
  assumes "held k S U w" "handler_env env"
  shows "returns (client_user_handler env uh ev once w) (held k S (U(ev := U ev @ [usr_h (pp_ext (k_user k)) ev once])))"
proof -
  have "w_core w = k" using assms(1) by (simp add: held_def)
  with add_handler_seq [OF assms] show ?thesis by (simp add: client_user_handler_def usr_h_def Let_def)
qed

text \<open>The calls with which \<open>_connection\<close> registers: system handlers, and user handlers called once or always.\<close>

fun reg_call ::
  "penv \<Rightarrow> ('g, 'd, 'x) chandler \<Rightarrow> bool option \<times> event \<Rightarrow>
   ('g client_handler, 'd, ('g, 'd, 'x) client) pworld \<Rightarrow> ('g client_handler, 'd, ('g, 'd, 'x) client) pworld res" where
  "reg_call env uh (None, ev) = client_system_handler env uh ev"
| "reg_call env uh (Some once, ev) = client_user_handler env uh ev once"

fun reg_queues ::
  "('g, 'd, 'x) client \<Rightarrow> bool option \<times> event \<Rightarrow>
   (event \<Rightarrow> ('g client_handler phandler, 'd) handler list) \<times> (event \<Rightarrow> ('g client_handler phandler, 'd) handler list) \<Rightarrow>
   (event \<Rightarrow> ('g client_handler phandler, 'd) handler list) \<times> (event \<Rightarrow> ('g client_handler phandler, 'd) handler list)" where
  "reg_queues cl (None, ev) (S, U) = (S(ev := S ev @ [sys_h ev]), U)"
| "reg_queues cl (Some once, ev) (S, U) = (S, U(ev := U ev @ [usr_h cl ev once]))"

lemma reg_calls_seq:
  assumes "handler_env env"
  shows "held k S U w \<Longrightarrow> returns (in_turn (map (reg_call env uh) rs) w) (\<lambda>w'.
    case fold (reg_queues (pp_ext (k_user k))) rs (S, U) of (S', U') \<Rightarrow> held k S' U' w')"
proof (induction rs arbitrary: S U w)
  case (Cons r rs)
  obtain S1 U1 where su: "reg_queues (pp_ext (k_user k)) r (S, U) = (S1, U1)" by fastforce
  have "returns (reg_call env uh r w) (held k S1 U1)"
  proof (cases r)
    case (Pair a ev)
    then show ?thesis
      using su add_system_seq [OF Cons.prems assms, where h = "UserHandler ClientEventHandler" and once = True and ev = ev]
        add_user_seq [OF Cons.prems assms, where ev = ev and uh = uh]
      by (cases a) (auto simp: sys_h_def pipe_h_def)
  qed
  then show ?case unfolding list.map in_turn.simps
    by (rule returns_bndI) (use Cons.IH su in simp)
qed simp

text \<open>The registrations of \<open>_connection\<close>, in order.\<close>

definition registrations :: "(bool option \<times> event) list" where
  "registrations =
     [(None, INIT_EVENT), (None, CONNECTING_EVENT), (None, CONNECTED_EVENT), (None, CLOSE_EVENT), (None, FREE_EVENT),
      (Some True, INIT_EVENT), (Some True, CONNECTED_EVENT), (Some False, READ_EVENT), (Some False, WRITE_EVENT),
      (Some True, CLOSE_EVENT), (Some True, FREE_EVENT)]"

lemma registered_handlers:
  assumes "fold (reg_queues cl) registrations (\<lambda>_. [], \<lambda>_. []) = (S, U)"
  shows "(\<lambda>ev. S ev @ U ev) = client_handlers cl"
proof
  fix ev show "S ev @ U ev = client_handlers cl ev"
    using assms by (auto simp: registrations_def client_handlers_def life_events_def)
qed

lemma created_attempt:
  assumes "handler_env env" "created (pe_fuel env) pr n os w" "cn_isFactory (w_conn w) = False" "cn_freeAddress (w_conn w) = False"
  shows "returns (in_turn (map (reg_call env uh) registrations) w) (\<lambda>w'. w_core w' = w_core w \<and>
    attempt env n pr os (pp_ext (k_user (w_core w))) STATE_NONE {} w')"
proof -
  have c: "conn_inv (pe_fuel env) w" "cn_state (w_conn w) = STATE_NONE" "w_sys w = Some new_equeue" "w_usr w = Some new_equeue"
    "\<exists>rb wb fs e. cn_readBuffer (w_conn w) = Some rb \<and> cn_writeBuffer (w_conn w) = Some wb \<and>
        pool_inv (16, n) n pr (k_mem (w_core w)) fs (wb # rb # os) e"
    using assms(2) by (simp_all add: created_def)
  obtain S U where su: "fold (reg_queues (pp_ext (k_user (w_core w)))) registrations (\<lambda>_. [], \<lambda>_. []) = (S, U)" by fastforce
  have "held (w_core w) (\<lambda>_. []) (\<lambda>_. []) w" using c(3,4) by (simp add: held_def queues_ok_def new_equeue_inv)
  from reg_calls_seq [OF assms(1) this, of uh registrations]
  show ?thesis unfolding su prod.case
  proof (rule returns_mono)
    fix w' assume w': "held (w_core w) S U w'"
    have h: "conn_handlers w' = client_handlers (pp_ext (k_user (w_core w)))"
      using held_handlers [OF w'] registered_handlers [OF su] by simp
    have "\<forall>e. length (conn_handlers w' e) < pe_fuel env" unfolding h using assms(1)
      by (auto simp: client_handlers_def handler_env_def)
    then have "conn_inv (pe_fuel env) w'" using c(1) w' by (auto simp: conn_inv_def world_ok_def held_def)
    then show "w_core w' = w_core w \<and> attempt env n pr os (pp_ext (k_user (w_core w))) STATE_NONE {} w'"
      using w' h c(2,5) assms(3,4) by (simp add: attempt_def held_def)
  qed
qed

section \<open>The client between two rounds\<close>

text \<open>What a round does not touch: the pipe, the addresses and what the client was created with.\<close>

definition same_client :: "('g, 'd, 'x) client \<Rightarrow> ('g, 'd, 'x) client \<Rightarrow> bool" where
  "same_client cl cl' \<longleftrightarrow> cl' = cl\<lparr>cl_connection := cl_connection cl', cl_queue := cl_queue cl', cl_retryCount := cl_retryCount cl',
     cl_connected := cl_connected cl', cl_exiting := cl_exiting cl', cl_user := cl_user cl'\<rparr>"

definition round_frame :: "('g, 'd, 'x) cpsys \<Rightarrow> ('g, 'd, 'x) cpsys \<Rightarrow> bool" where
  "round_frame s s' \<longleftrightarrow> ps_addrs s' = ps_addrs s \<and> pp_reader (ps_pipe s') = pp_reader (ps_pipe s) \<and>
     pp_worker (ps_pipe s') = pp_worker (ps_pipe s) \<and> pp_writer (ps_pipe s') = pp_writer (ps_pipe s) \<and>
     same_client (the_client s) (the_client s')"

lemma same_client_fields:
  assumes "same_client cl cl'"
  shows "cl_handler cl' = cl_handler cl" "cl_handlerData cl' = cl_handlerData cl" "cl_pool cl' = cl_pool cl"
    "cl_address cl' = cl_address cl" "cl_retries cl' = cl_retries cl" "client_handlers cl' = client_handlers cl" "cl_reader cl' = cl_reader cl"
proof -
  from assms obtain a b c d e x where "cl' = cl\<lparr>cl_connection := a, cl_queue := b, cl_retryCount := c,
     cl_connected := d, cl_exiting := e, cl_user := x\<rparr>" unfolding same_client_def by blast
  then show "cl_handler cl' = cl_handler cl" "cl_handlerData cl' = cl_handlerData cl" "cl_pool cl' = cl_pool cl"
    "cl_address cl' = cl_address cl" "cl_retries cl' = cl_retries cl" "client_handlers cl' = client_handlers cl" "cl_reader cl' = cl_reader cl"
    by (simp_all add: client_handlers_def usr_h_def fun_eq_iff)
qed

lemma same_client_refl [simp]: "same_client cl cl"
  by (simp add: same_client_def)

lemma same_client_trans: "same_client cl cl' \<Longrightarrow> same_client cl' cl'' \<Longrightarrow> same_client cl cl''"
  by (cases cl; cases cl'; cases cl''; simp add: same_client_def)

lemma same_client_upds [simp]:
  "same_client cl (cl'\<lparr>cl_queue := a\<rparr>) = same_client cl cl'" "same_client cl (cl'\<lparr>cl_connected := b\<rparr>) = same_client cl cl'"
  "same_client cl (cl'\<lparr>cl_retryCount := i\<rparr>) = same_client cl cl'" "same_client cl (cl'\<lparr>cl_exiting := b\<rparr>) = same_client cl cl'"
  "same_client cl (cl'\<lparr>cl_connection := r\<rparr>) = same_client cl cl'" "same_client cl (cl'\<lparr>cl_user := x\<rparr>) = same_client cl cl'"
  by (cases cl; cases cl'; simp add: same_client_def)+

lemma round_frame_refl [simp]: "round_frame s s"
  by (simp add: round_frame_def)

lemma round_frame_trans: "round_frame s s' \<Longrightarrow> round_frame s' s'' \<Longrightarrow> round_frame s s''"
  by (auto simp: round_frame_def intro: same_client_trans)

text \<open>The queue of the client, and the three fields that steer its loop.\<close>

definition cview :: "('g, 'd, 'x) cpsys \<Rightarrow> nat qitem list \<times> bool \<times> bool \<times> int \<times> bool" where
  "cview s = (let cl = the_client s in
     (q_items (the (cl_queue cl)), q_emptied (the (cl_queue cl)), cl_connected cl, cl_retryCount cl, cl_exiting cl))"

text \<open>The client has its address, its pool of buffers of \<open>n\<close> bytes and its queue.\<close>

definition ready :: "nat \<Rightarrow> ('g, 'd, 'x) cpsys \<Rightarrow> bool" where
  "ready pr s \<longleftrightarrow> open_queue (the_client s) \<and> cl_pool (the_client s) = Some pr \<and>
     (\<exists>a str. cl_address (the_client s) = Some a \<and> ps_addrs s a = Some str)"

lemma ready_frame: "ready pr s \<Longrightarrow> round_frame s s' \<Longrightarrow> open_queue (the_client s') \<Longrightarrow> ready pr s'"
  using same_client_fields [of "the_client s" "the_client s'"] by (auto simp: ready_def round_frame_def)

definition idle_client ::
  "penv \<Rightarrow> int \<Rightarrow> nat \<Rightarrow> nat list \<Rightarrow> (nat \<rightharpoonup> ('g client_handler, 'd) cobj) \<Rightarrow> ('g, 'd, 'x) cpsys \<Rightarrow> bool" where
  "idle_client env n pr os B s \<longleftrightarrow> ready pr s \<and> ps_conns s = B \<and> (\<exists>fs e. pool_inv (16, n) n pr (ps_mem s) fs os e)"

definition busy_client ::
  "penv \<Rightarrow> int \<Rightarrow> nat \<Rightarrow> nat list \<Rightarrow> (nat \<rightharpoonup> ('g client_handler, 'd) cobj) \<Rightarrow> nat \<Rightarrow> conn_state \<Rightarrow> event set \<Rightarrow> bool \<Rightarrow>
   ('g, 'd, 'x) cpsys \<Rightarrow> bool" where
  "busy_client env n pr os B c st evs failed s \<longleftrightarrow> ready pr s \<and>
     (\<exists>co. ps_conns s = B(c \<mapsto> co) \<and> attempt env n pr os (the_client s) st evs (focus c co s) \<and>
        cn_closedForError (co_conn co) = failed \<and> cn_closedBy (co_conn co) = (\<lambda>_. False)(OWNER_ACCEPTOR := True) \<and>
        cn_managedBy (co_conn co) = (\<lambda>_. False)(OWNER_ACCEPTOR := True, OWNER_CLIENT := True))"

lemma noted_view:
  assumes "noted ev p p'" "ps_pipe s = p" "ps_pipe s' = p'" "open_queue (pp_ext p)" "cview s = (is, e, cn, rc, ex)"
  shows "cview s' = (is @ [ITEM_EVENT ev (pp_self p)], e, cn, rc, ex)" "open_queue (pp_ext p')" "same_client (pp_ext p) (pp_ext p')"
proof -
  obtain q q' x where q: "cl_queue (pp_ext p) = Some q" "q_inv q'"
    "abs_queue q' = (abs_queue q)\<lparr>a_items := q_items q @ [ITEM_EVENT ev (pp_self p)]\<rparr>"
    "p' = p\<lparr>pp_ext := (pp_ext p)\<lparr>cl_queue := Some q', cl_user := x\<rparr>\<rparr>" using assms(1) by (auto simp: noted_def)
  have v: "q_items q' = q_items q @ [ITEM_EVENT ev (pp_self p)]" "q_exit q' = q_exit q" "q_emptied q' = q_emptied q"
    using q(3) by (simp_all add: abs_queue_def)
  show "cview s' = (is @ [ITEM_EVENT ev (pp_self p)], e, cn, rc, ex)" using assms(2,3,5) q v by (simp add: cview_def Let_def)
  show "open_queue (pp_ext p')" using assms(4) q v by (auto simp: open_queue_def)
  show "same_client (pp_ext p) (pp_ext p')" using q(4) by simp
qed

text \<open>An operation on the connection that ends with a change of its state.\<close>

lemma busy_step:
  assumes s: "ps_conns s = B(c \<mapsto> co)" "ready pr s" "cview s = (is, e, cn, rc, ex)"
    and w: "attempt env n pr os (the_client s) st evs w" "noted ev ((ps_pipe s)\<lparr>pp_self := c\<rparr>) (k_user (w_core w))" "k_addrs (w_core w) = ps_addrs s"
    and cb: "cn_closedBy (w_conn w) = (\<lambda>_. False)(OWNER_ACCEPTOR := True)"
      "cn_managedBy (w_conn w) = (\<lambda>_. False)(OWNER_ACCEPTOR := True, OWNER_CLIENT := True)"
  shows "busy_client env n pr os B c st evs (cn_closedForError (w_conn w)) (unfocus c key w s) \<and> round_frame s (unfocus c key w s) \<and>
    cview (unfocus c key w s) = (is @ [ITEM_EVENT ev c], e, cn, rc, ex) \<and> ps_raised (unfocus c key w s) = k_raised (w_core w)"
proof -
  let ?s = "unfocus c key w s" and ?p = "(ps_pipe s)\<lparr>pp_self := c\<rparr>"
  have p: "ps_pipe ?s = k_user (w_core w)" "ps_addrs ?s = ps_addrs s" using w(3) by (simp_all add: unfocus_def Let_def)
  have "open_queue (pp_ext ?p)" "cview (s\<lparr>ps_pipe := ?p\<rparr>) = (is, e, cn, rc, ex)"
    using s(2,3) by (simp_all add: ready_def cview_def)
  note v = noted_view [OF w(2) _ p(1) this(1) this(2)]
  have f: "round_frame s ?s" using p v(3) noted_fields [OF w(2)] by (simp add: round_frame_def)
  have r: "ready pr ?s" using ready_frame [OF s(2) f] v(2) p(1) by simp
  have h: "client_handlers (the_client ?s) = client_handlers (the_client s)"
    using f by (simp add: round_frame_def same_client_fields)
  obtain co' where co': "ps_conns ?s = (ps_conns s)(c \<mapsto> co')" "focus c co' ?s = w" "co_conn co' = w_conn w"
    using focus_unfocus [of w c key s] noted_fields(1) [OF w(2)] by auto
  have "attempt env n pr os (the_client ?s) st evs w" using w(1) unfolding attempt_def h .
  then have "busy_client env n pr os B c st evs (cn_closedForError (w_conn w)) ?s"
    unfolding busy_client_def using r co' s(1) cb by (intro conjI exI [of _ co']) simp_all
  then show ?thesis using f v(1) by (simp add: unfocus_def Let_def)
qed

lemma busyE:
  assumes "busy_client env n pr os B c st evs failed s"
  obtains co where "ps_conns s = B(c \<mapsto> co)" "attempt env n pr os (the_client s) st evs (focus c co s)" "cn_closedForError (co_conn co) = failed"
    "cn_closedBy (co_conn co) = (\<lambda>_. False)(OWNER_ACCEPTOR := True)"
    "cn_managedBy (co_conn co) = (\<lambda>_. False)(OWNER_ACCEPTOR := True, OWNER_CLIENT := True)" "ready pr s"
  using assms unfolding busy_client_def by blast

lemma attempt_upd:
  assumes "attempt env n pr os cl st evs w" "k_mem (g (w_core w)) = k_mem (w_core w)" "k_addrs (g (w_core w)) = k_addrs (w_core w)"
    and "k_conn (g (w_core w)) = (w_conn w)\<lparr>cn_socket := i, cn_closedForError := b\<rparr>"
  shows "attempt env n pr os cl st evs (upd_core g w)"
proof -
  have i: "conn_inv (pe_fuel env) w" using assms(1) by (simp add: attempt_def)
  have "conn_inv (pe_fuel env) (upd_core g w)"
    by (rule conn_inv_upd [OF i]) (use assms(2-4) conn_invD(4-6) [OF i] in simp_all)
  then show ?thesis using assms by (simp add: attempt_def)
qed

definition good_answers :: "client_sys \<Rightarrow> bool" where
  "good_answers cy \<longleftrightarrow> env_ok (cy_conn cy) \<and> cy_sock cy \<noteq> - 1 \<and> cy_fcntl cy"

lemma upd_client_simps [simp]:
  "the_client (upd_client g s) = g (the_client s)" "ps_conns (upd_client g s) = ps_conns s" "ps_mem (upd_client g s) = ps_mem s"
  "ps_addrs (upd_client g s) = ps_addrs s" "ps_raised (upd_client g s) = ps_raised s"
  "pp_reader (ps_pipe (upd_client g s)) = pp_reader (ps_pipe s)" "pp_worker (ps_pipe (upd_client g s)) = pp_worker (ps_pipe s)"
  "pp_writer (ps_pipe (upd_client g s)) = pp_writer (ps_pipe s)" "pp_self (ps_pipe (upd_client g s)) = pp_self (ps_pipe s)"
  by (simp_all add: upd_client_def)

lemma init_attempt:
  assumes "friendly uh" "handler_env env" "attempt env n pr os cl STATE_NONE {} w" "open_queue (pp_ext (k_user (w_core w)))" "sock \<noteq> - 1"
  shows "returns (ConnectionInit (core_cb (client_calls env uh)) (pe_fuel env) (pe_name env) sock True w) (\<lambda>w'.
    attempt env n pr os cl STATE_INITIALIZED {INIT_EVENT} w' \<and> unchanged ((w_core w)\<lparr>k_conn := (w_conn w)\<lparr>cn_socket := sock\<rparr>\<rparr>) (w_core w') \<and>
    noted INIT_EVENT (k_user (w_core w)) (k_user (w_core w')))"
proof -
  let ?w = "upd_core (upd_conn (\<lambda>c. c\<lparr>cn_socket := sock\<rparr>)) w"
  have a: "attempt env n pr os cl STATE_NONE {} ?w"
    by (rule attempt_upd [OF assms(3), where i = sock and b = "cn_closedForError (w_conn w)"]) simp_all
  have "open_queue (pp_ext (k_user (w_core ?w)))" using assms(4) by simp
  from attempt_change [OF assms(1) handler_env_calm [OF assms(2)] a this, of STATE_INITIALIZED INIT_EVENT]
  have "returns (ConnectionState (core_cb (client_calls env uh)) (pe_fuel env) (pe_name env) STATE_INITIALIZED ?w) (\<lambda>w'.
    attempt env n pr os cl STATE_INITIALIZED {INIT_EVENT} w' \<and> unchanged (w_core ?w) (w_core w') \<and> noted INIT_EVENT (k_user (w_core ?w)) (k_user (w_core w')))"
    by (simp add: event_of_def client_events_def life_events_def)
  then show ?thesis using assms(5) by (simp add: ConnectionInit_def Let_def upd_conn_def)
qed

lemma created_transfer:
  assumes "created f pr n os w" "w_sys w' = w_sys w" "w_usr w' = w_usr w" "w_conn w' = w_conn w"
    "k_mem (w_core w') = k_mem (w_core w)" "k_addrs (w_core w') = k_addrs (w_core w)"
  shows "created f pr n os w'"
proof -
  have eqs: "queues_ok w' = queues_ok w" "conn_handlers w' = conn_handlers w" "bufs_ok (w_core w') = bufs_ok (w_core w)"
    using assms(2-5) by (simp_all add: queues_ok_def conn_handlers_def bufs_ok_def buf_ok_def fun_eq_iff)
  have p: "pending (w_core w') = pending (w_core w)" unfolding pending_def assms(4,5) ..
  show ?thesis using assms(1) unfolding created_def conn_inv_def world_ok_def eqs p assms(2-6) .
qed

lemma open_connection_seq:
  fixes s :: "('g, 'd, 'x) cpsys"
  assumes uh: "friendly uh" and env: "handler_env env" and n: "0 \<le> n" "n \<le> INT_MAX - 2"
    and s: "idle_client env n pr os B s" and cy: "good_answers cy" and v: "cview s = (is, e, cn, rc, ex)"
  shows "returns (open_connection env uh cy s) (\<lambda>s'. (\<exists>failed. busy_client env n pr os B (cy_ref cy) STATE_INITIALIZED {INIT_EVENT} failed s') \<and>
    round_frame s s' \<and> cview s' = (is @ [ITEM_EVENT INIT_EVENT (cy_ref cy)], e, False, rc, ex) \<and> ps_raised s' = ps_raised s)"
proof -
  let ?c = "cy_ref cy"
  obtain a str fs f where id: "ready pr s" "ps_conns s = B" "cl_address (the_client s) = Some a" "ps_addrs s a = Some str"
    "cl_pool (the_client s) = Some pr" "open_queue (the_client s)" "pool_inv (16, n) n pr (ps_mem s) fs os f"
    using s unfolding idle_client_def ready_def by blast
  have e: "env_ok (cy_conn cy)" "0 < pe_fuel env" using cy env by (simp_all add: good_answers_def handler_env_def)
  obtain w :: "('g client_handler phandler, 'd, unit) world" where
    w: "NewConnection (cy_conn cy) pr (Some a) False (ps_addrs s) () (ps_mem s) = Inr (Some w, k_mem (w_core w))"
      "created (pe_fuel env) pr n os w" "cn_freeAddress (w_conn w) = False" "cn_isFactory (w_conn w) = False" "k_addrs (w_core w) = ps_addrs s"
    using NewConnection_seq [where fa = False and u = "()" and addrs = "ps_addrs s", OF id(7) n e(1) id(4) e(2)]
    by (auto elim!: returnsE)
  let ?co = "\<lparr>co_sys = w_sys w, co_usr = w_usr w, co_conn = w_conn w, co_net = k_net (w_core w), co_readKey = None\<rparr>"
  let ?s = "(upd_client (\<lambda>cl. cl\<lparr>cl_connection := Some ?c\<rparr>) ((upd_client (\<lambda>cl. cl\<lparr>cl_connected := False\<rparr>) s)\<lparr>ps_mem := k_mem (w_core w)\<rparr>))
    \<lparr>ps_conns := B(?c \<mapsto> ?co)\<rparr>"
  let ?init = "ConnectionInit (core_cb (client_calls env uh)) (pe_fuel env) (pe_name env) (cy_sock cy) (cy_fcntl cy)"
  have o: "open_connection env uh cy s = do_conn ?c (in_turn (map (reg_call env uh) registrations @ [?init])) ?s"
    using id(2,3,5) w(1) by (simp add: open_connection_def Let_def registrations_def del: in_turn.simps)
  have fc: "the_client ?s = (the_client s)\<lparr>cl_connected := False, cl_connection := Some ?c\<rparr>" "ps_conns ?s ?c = Some ?co" by simp_all
  have cr: "created (pe_fuel env) pr n os (focus ?c ?co ?s)"
    by (rule created_transfer [OF w(2)]) (use w(5) in \<open>simp_all add: focus_def\<close>)
  from created_attempt [OF env cr, of uh] obtain w1 where
    w1: "in_turn (map (reg_call env uh) registrations) (focus ?c ?co ?s) = Inr w1" "w_core w1 = w_core (focus ?c ?co ?s)"
      "attempt env n pr os (the_client ?s) STATE_NONE {} w1"
    using w(3,4) by (auto elim!: returnsE)
  have q: "open_queue (pp_ext (k_user (w_core w1)))" using id(6) w1(2) by (simp add: open_queue_def)
  obtain w2 where w2: "?init w1 = Inr w2" "attempt env n pr os (the_client ?s) STATE_INITIALIZED {INIT_EVENT} w2"
      "unchanged ((w_core w1)\<lparr>k_conn := (w_conn w1)\<lparr>cn_socket := cy_sock cy\<rparr>\<rparr>) (w_core w2)"
      "noted INIT_EVENT (k_user (w_core w1)) (k_user (w_core w2))"
    using init_attempt [OF uh env w1(3) q, of "cy_sock cy"] cy by (auto simp: good_answers_def elim!: returnsE)
  have r: "open_connection env uh cy s = Inr (unfocus ?c None w2 ?s)"
    unfolding o do_conn_eq [OF fc(2)] using w1(1) w2(1) by (simp add: in_turn_append)
  have f: "round_frame s ?s" by (simp add: round_frame_def)
  have rd: "ready pr ?s" by (rule ready_frame [OF id(1) f]) (use id(6) in \<open>simp add: open_queue_def\<close>)
  have vs: "cview ?s = (is, e, False, rc, ex)" using v by (simp add: cview_def Let_def)
  have u: "cn_closedBy (w_conn w2) = (\<lambda>_. False)(OWNER_ACCEPTOR := True)" "k_addrs (w_core w2) = ps_addrs ?s" "k_raised (w_core w2) = ps_raised s"
    "cn_managedBy (w_conn w2) = (\<lambda>_. False)(OWNER_ACCEPTOR := True, OWNER_CLIENT := True)"
    using w2(3) w1(2) w(2) by (simp_all add: unchanged_def created_def)
  have "noted INIT_EVENT ((ps_pipe ?s)\<lparr>pp_self := ?c\<rparr>) (k_user (w_core w2))" using w2(4) w1(2) by simp
  from busy_step [OF _ rd vs w2(2) this u(2,1,4), of B ?co None] have
    "busy_client env n pr os B ?c STATE_INITIALIZED {INIT_EVENT} (cn_closedForError (w_conn w2)) (unfocus ?c None w2 ?s) \<and>
     round_frame ?s (unfocus ?c None w2 ?s) \<and> cview (unfocus ?c None w2 ?s) = (is @ [ITEM_EVENT INIT_EVENT ?c], e, False, rc, ex) \<and>
     ps_raised (unfocus ?c None w2 ?s) = k_raised (w_core w2)" by simp
  then show ?thesis using r u(3) round_frame_trans [OF f] by auto
qed

section \<open>Connecting\<close>

text \<open>The state that the answer of \<open>connect\<close> leads to, and its event.\<close>

fun connect_state :: "connect_result \<Rightarrow> conn_state" where
  "connect_state ConnectDone = STATE_CONNECTED"
| "connect_state ConnectInProgress = STATE_CONNECTING"
| "connect_state ConnectFailed = STATE_CLOSED"

fun connect_event :: "connect_result \<Rightarrow> event" where
  "connect_event ConnectDone = CONNECTED_EVENT"
| "connect_event ConnectInProgress = CONNECTING_EVENT"
| "connect_event ConnectFailed = CLOSE_EVENT"

lemma connect_event_of: "event_of (connect_state r) = Some (connect_event r)" "connect_event r \<in> client_events" "connect_event r \<noteq> INIT_EVENT"
  "connect_state r \<noteq> STATE_INITIALIZED"
  by (cases r; simp add: event_of_def client_events_def life_events_def)+

definition connect_errors :: "connect_result \<Rightarrow> conn_error list" where
  "connect_errors r = (if r = ConnectFailed then [CONNECT_ERROR] else [])"

lemma core_comm: "(k\<lparr>k_raised := a, k_conn := b\<rparr>) = k\<lparr>k_conn := b, k_raised := a\<rparr>"
  by simp

lemma connect_attempt:
  assumes "friendly uh" "handler_env env" "attempt env n pr os cl STATE_INITIALIZED {INIT_EVENT} w" "open_queue (pp_ext (k_user (w_core w)))"
  shows "returns (ConnectionConnect (core_cb (client_calls env uh)) (pe_fuel env) (pe_name env) r w) (\<lambda>w'.
    attempt env n pr os cl (connect_state r) {connect_event r, INIT_EVENT} w' \<and>
    unchanged ((w_core w)\<lparr>k_conn := (w_conn w)\<lparr>cn_closedForError := (r = ConnectFailed \<or> cn_closedForError (w_conn w))\<rparr>,
      k_raised := k_raised (w_core w) @ connect_errors r\<rparr>) (w_core w') \<and>
    noted (connect_event r) (k_user (w_core w)) (k_user (w_core w')))"
proof -
  have i: "conn_inv (pe_fuel env) w" "cn_state (w_conn w) = STATE_INITIALIZED" using assms(3) by (simp_all add: attempt_def)
  obtain a str where ad: "cn_address (w_conn w) = Some a" "k_addrs (w_core w) a = Some str" using conn_invD(1) [OF i(1)] by (rule world_okE)
  let ?g = "\<lambda>k. k\<lparr>k_conn := (k_conn k)\<lparr>cn_closedForError := (r = ConnectFailed \<or> cn_closedForError (k_conn k))\<rparr>,
      k_raised := k_raised k @ connect_errors r\<rparr>"
  let ?w = "upd_core ?g w"
  have a: "attempt env n pr os cl STATE_INITIALIZED {INIT_EVENT} ?w"
    by (rule attempt_upd [OF assms(3), where i = "cn_socket (w_conn w)" and b = "r = ConnectFailed \<or> cn_closedForError (w_conn w)"]) simp_all
  have "open_queue (pp_ext (k_user (w_core ?w)))" using assms(4) by simp
  from attempt_change [OF assms(1) handler_env_calm [OF assms(2)] a this connect_event_of(4,1,2), of r] connect_event_of(3) [of r]
  have st: "returns (ConnectionState (core_cb (client_calls env uh)) (pe_fuel env) (pe_name env) (connect_state r) ?w) (\<lambda>w'.
    attempt env n pr os cl (connect_state r) {connect_event r, INIT_EVENT} w' \<and> unchanged (?g (w_core w)) (w_core w') \<and>
    noted (connect_event r) (k_user (w_core w)) (k_user (w_core w')))"
    by simp
  have "ConnectionConnect (core_cb (client_calls env uh)) (pe_fuel env) (pe_name env) r w =
    ConnectionState (core_cb (client_calls env uh)) (pe_fuel env) (pe_name env) (connect_state r) ?w"
  proof (cases "r = ConnectFailed")
    case True
    then show ?thesis using ad i(2)
      by (simp add: ConnectionConnect_def ConnectionHandleError_def ConnectionClose_def upd_core_def upd_conn_def connect_errors_def core_comm)
  next
    case False
    have "?w = w" using False by (simp add: upd_core_def connect_errors_def)
    then show ?thesis using False ad i(2) by (cases r) (simp_all add: ConnectionConnect_def)
  qed
  then show ?thesis using st by simp
qed

lemma connect_seq:
  assumes uh: "friendly uh" and env: "handler_env env"
    and s: "busy_client env n pr os B c STATE_INITIALIZED {INIT_EVENT} failed s" and v: "cview s = (is, e, cn, rc, ex)"
  shows "returns (do_conn c (ConnectionConnect (core_cb (client_calls env uh)) (pe_fuel env) (pe_name env) r) s) (\<lambda>s'.
    busy_client env n pr os B c (connect_state r) {connect_event r, INIT_EVENT} (r = ConnectFailed \<or> failed) s' \<and>
    round_frame s s' \<and> cview s' = (is @ [ITEM_EVENT (connect_event r) c], e, cn, rc, ex) \<and> ps_raised s' = ps_raised s @ connect_errors r)"
proof -
  obtain co where co: "ps_conns s = B(c \<mapsto> co)" "attempt env n pr os (the_client s) STATE_INITIALIZED {INIT_EVENT} (focus c co s)"
    "cn_closedForError (co_conn co) = failed" "cn_closedBy (co_conn co) = (\<lambda>_. False)(OWNER_ACCEPTOR := True)"
    "cn_managedBy (co_conn co) = (\<lambda>_. False)(OWNER_ACCEPTOR := True, OWNER_CLIENT := True)" "ready pr s"
    using s by (rule busyE)
  have c: "ps_conns s c = Some co" using co(1) by simp
  have q: "open_queue (pp_ext (k_user (w_core (focus c co s))))" using co(6) by (simp add: ready_def)
  show ?thesis unfolding do_conn_eq [OF c]
  proof (rule returns_bndI [OF connect_attempt [OF uh env co(2) q]], elim conjE, unfold returns_Inr)
    fix w' assume w': "attempt env n pr os (the_client s) (connect_state r) {connect_event r, INIT_EVENT} w'"
      "unchanged ((w_core (focus c co s))\<lparr>k_conn := (w_conn (focus c co s))\<lparr>cn_closedForError := (r = ConnectFailed \<or> cn_closedForError (w_conn (focus c co s)))\<rparr>,
        k_raised := k_raised (w_core (focus c co s)) @ connect_errors r\<rparr>) (w_core w')"
      "noted (connect_event r) (k_user (w_core (focus c co s))) (k_user (w_core w'))"
    have u: "k_addrs (w_core w') = ps_addrs s" "cn_closedBy (w_conn w') = (\<lambda>_. False)(OWNER_ACCEPTOR := True)"
      "cn_managedBy (w_conn w') = (\<lambda>_. False)(OWNER_ACCEPTOR := True, OWNER_CLIENT := True)"
      "k_raised (w_core w') = ps_raised s @ connect_errors r" "cn_closedForError (w_conn w') = (r = ConnectFailed \<or> failed)"
      using w'(2) co(3-5) by (simp_all add: unchanged_def)
    have n': "noted (connect_event r) ((ps_pipe s)\<lparr>pp_self := c\<rparr>) (k_user (w_core w'))" using w'(3) by simp
    show "busy_client env n pr os B c (connect_state r) {connect_event r, INIT_EVENT} (r = ConnectFailed \<or> failed) (unfocus c (co_readKey co) w' s) \<and>
      round_frame s (unfocus c (co_readKey co) w' s) \<and>
      cview (unfocus c (co_readKey co) w' s) = (is @ [ITEM_EVENT (connect_event r) c], e, cn, rc, ex) \<and>
      ps_raised (unfocus c (co_readKey co) w' s) = ps_raised s @ connect_errors r"
      using busy_step [OF co(1,6) v w'(1) n' u(1-3), of "co_readKey co"] u(4,5) by simp
  qed
qed

text \<open>An error on a connection that is not closed yet: it is closed, for an error.\<close>

abbreviation (input) in_error :: "conn_error \<Rightarrow> ('g, 'd, 'x) ccore \<Rightarrow> ('g, 'd, 'x) ccore" where
  "in_error er k \<equiv> k\<lparr>k_conn := (k_conn k)\<lparr>cn_closedForError := True\<rparr>, k_raised := k_raised k @ [er]\<rparr>"

lemma error_attempt:
  assumes "friendly uh" "handler_env env" "attempt env n pr os cl st evs w" "open_queue (pp_ext (k_user (w_core w)))"
    and "st \<noteq> STATE_CLOSED" "CLOSE_EVENT \<notin> evs" "er \<noteq> CONNECTION_DISCONNECTED"
  shows "returns (ConnectionHandleError (core_cb (client_calls env uh)) (pe_fuel env) (pe_name env) er w) (\<lambda>w'.
    attempt env n pr os cl STATE_CLOSED (insert CLOSE_EVENT evs) w' \<and> unchanged (in_error er (w_core w)) (w_core w') \<and>
    noted CLOSE_EVENT (k_user (w_core w)) (k_user (w_core w')))"
proof -
  let ?w = "upd_core (in_error er) w"
  have a: "attempt env n pr os cl st evs ?w"
    by (rule attempt_upd [OF assms(3), where i = "cn_socket (w_conn w)" and b = True]) simp_all
  have "open_queue (pp_ext (k_user (w_core ?w)))" using assms(4) by simp
  from attempt_change [OF assms(1) handler_env_calm [OF assms(2)] a this _ _ _ assms(6), of STATE_CLOSED] assms(5)
  have "returns (ConnectionState (core_cb (client_calls env uh)) (pe_fuel env) (pe_name env) STATE_CLOSED ?w) (\<lambda>w'.
    attempt env n pr os cl STATE_CLOSED (insert CLOSE_EVENT evs) w' \<and> unchanged (in_error er (w_core w)) (w_core w') \<and>
    noted CLOSE_EVENT (k_user (w_core w)) (k_user (w_core w')))"
    by (simp add: event_of_def client_events_def life_events_def)
  moreover have "ConnectionHandleError (core_cb (client_calls env uh)) (pe_fuel env) (pe_name env) er w =
    ConnectionState (core_cb (client_calls env uh)) (pe_fuel env) (pe_name env) STATE_CLOSED ?w"
    using assms(7) by (simp add: ConnectionHandleError_def ConnectionClose_def upd_core_def upd_conn_def core_comm)
  ultimately show ?thesis by simp
qed

lemma error_seq:
  assumes uh: "friendly uh" and env: "handler_env env"
    and s: "busy_client env n pr os B c st evs failed s" and v: "cview s = (is, e, cn, rc, ex)"
    and st: "st \<noteq> STATE_CLOSED" "CLOSE_EVENT \<notin> evs" "er \<noteq> CONNECTION_DISCONNECTED"
  shows "returns (do_conn c (ConnectionHandleError (core_cb (client_calls env uh)) (pe_fuel env) (pe_name env) er) s) (\<lambda>s'.
    busy_client env n pr os B c STATE_CLOSED (insert CLOSE_EVENT evs) True s' \<and>
    round_frame s s' \<and> cview s' = (is @ [ITEM_EVENT CLOSE_EVENT c], e, cn, rc, ex) \<and> ps_raised s' = ps_raised s @ [er])"
proof -
  obtain co where co: "ps_conns s = B(c \<mapsto> co)" "attempt env n pr os (the_client s) st evs (focus c co s)"
    "cn_closedForError (co_conn co) = failed" "cn_closedBy (co_conn co) = (\<lambda>_. False)(OWNER_ACCEPTOR := True)"
    "cn_managedBy (co_conn co) = (\<lambda>_. False)(OWNER_ACCEPTOR := True, OWNER_CLIENT := True)" "ready pr s"
    using s by (rule busyE)
  have c: "ps_conns s c = Some co" using co(1) by simp
  have q: "open_queue (pp_ext (k_user (w_core (focus c co s))))" using co(6) by (simp add: ready_def)
  show ?thesis unfolding do_conn_eq [OF c]
  proof (rule returns_bndI [OF error_attempt [OF uh env co(2) q st]], elim conjE, unfold returns_Inr)
    fix w' assume w': "attempt env n pr os (the_client s) STATE_CLOSED (insert CLOSE_EVENT evs) w'"
      "unchanged (in_error er (w_core (focus c co s))) (w_core w')"
      "noted CLOSE_EVENT (k_user (w_core (focus c co s))) (k_user (w_core w'))"
    have u: "k_addrs (w_core w') = ps_addrs s" "cn_closedBy (w_conn w') = (\<lambda>_. False)(OWNER_ACCEPTOR := True)"
      "cn_managedBy (w_conn w') = (\<lambda>_. False)(OWNER_ACCEPTOR := True, OWNER_CLIENT := True)"
      "k_raised (w_core w') = ps_raised s @ [er]" "cn_closedForError (w_conn w')"
      using w'(2) co(4,5) by (simp_all add: unchanged_def)
    have n': "noted CLOSE_EVENT ((ps_pipe s)\<lparr>pp_self := c\<rparr>) (k_user (w_core w'))" using w'(3) by simp
    show "busy_client env n pr os B c STATE_CLOSED (insert CLOSE_EVENT evs) True (unfocus c (co_readKey co) w' s) \<and>
      round_frame s (unfocus c (co_readKey co) w' s) \<and>
      cview (unfocus c (co_readKey co) w' s) = (is @ [ITEM_EVENT CLOSE_EVENT c], e, cn, rc, ex) \<and>
      ps_raised (unfocus c (co_readKey co) w' s) = ps_raised s @ [er]"
      using busy_step [OF co(1,6) v w'(1) n' u(1-3), of "co_readKey co"] u(4,5) by simp
  qed
qed

text \<open>
  How the attempt fails that \<open>connect\<close> has left in progress: \<open>poll\<close> fails, or \<open>getsockopt\<close> does, or it
  reports the error of the socket.
\<close>

definition finish_fails :: "client_sys \<Rightarrow> bool" where
  "finish_fails cy \<longleftrightarrow> (case cy_poll cy of None \<Rightarrow> True | Some re \<Rightarrow> 0 < re \<and> cy_so cy \<noteq> Some 0)"

definition finish_error :: "client_sys \<Rightarrow> conn_error" where
  "finish_error cy = (if cy_poll cy = None then POLL_ERROR else if cy_so cy = None then GETSOCKOPT_ERROR else FINISH_CONNECT_ERROR)"

lemma finish_error_eq:
  "finish_fails cy \<Longrightarrow> ConnectionFinishConnect cb f env (cy_poll cy) (cy_so cy) = ConnectionHandleError cb f env (finish_error cy)"
  by (auto simp: ConnectionFinishConnect_def finish_fails_def finish_error_def fun_eq_iff split: option.splits)

lemma finish_error_kind: "finish_error cy \<noteq> CONNECTION_DISCONNECTED"
  by (simp add: finish_error_def)

section \<open>Rounds\<close>

lemma attempt_transfer:
  assumes "attempt env n pr os cl st evs w" "w_sys w' = w_sys w" "w_usr w' = w_usr w" "w_conn w' = w_conn w"
    "k_mem (w_core w') = k_mem (w_core w)" "k_addrs (w_core w') = k_addrs (w_core w)"
  shows "attempt env n pr os cl st evs w'"
proof -
  have eqs: "queues_ok w' = queues_ok w" "conn_handlers w' = conn_handlers w" "bufs_ok (w_core w') = bufs_ok (w_core w)"
    using assms(2-5) by (simp_all add: queues_ok_def conn_handlers_def bufs_ok_def buf_ok_def fun_eq_iff)
  show ?thesis using assms(1) unfolding attempt_def conn_inv_def world_ok_def eqs assms(2-6) .
qed

text \<open>What changes only the client's own fields.\<close>

lemma upd_client_kept:
  assumes "\<And>cl. same_client cl (g cl)" "open_queue (g (the_client s))"
  shows "round_frame s (upd_client g s)" "ready pr s \<Longrightarrow> ready pr (upd_client g s)"
    "idle_client env n pr os B s \<Longrightarrow> idle_client env n pr os B (upd_client g s)"
    "busy_client env n pr os B c st evs failed s \<Longrightarrow> busy_client env n pr os B c st evs failed (upd_client g s)"
proof -
  show f: "round_frame s (upd_client g s)" using assms(1) by (simp add: round_frame_def)
  show r: "ready pr (upd_client g s)" if "ready pr s" using ready_frame [OF that f] assms(2) by simp
  show "idle_client env n pr os B (upd_client g s)" if "idle_client env n pr os B s"
    using that r by (auto simp: idle_client_def)
  show "busy_client env n pr os B c st evs failed (upd_client g s)" if b: "busy_client env n pr os B c st evs failed s"
  proof -
    obtain co where co: "ps_conns s = B(c \<mapsto> co)" "attempt env n pr os (the_client s) st evs (focus c co s)"
      "cn_closedForError (co_conn co) = failed" "cn_closedBy (co_conn co) = (\<lambda>_. False)(OWNER_ACCEPTOR := True)"
      "cn_managedBy (co_conn co) = (\<lambda>_. False)(OWNER_ACCEPTOR := True, OWNER_CLIENT := True)" "ready pr s"
      using b by (rule busyE)
    have h: "client_handlers (the_client (upd_client g s)) = client_handlers (the_client s)"
      using same_client_fields(6) [OF assms(1)] by simp
    have "attempt env n pr os (the_client s) st evs (focus c co (upd_client g s))"
      by (rule attempt_transfer [OF co(2)]) simp_all
    then have "attempt env n pr os (the_client (upd_client g s)) st evs (focus c co (upd_client g s))"
      unfolding attempt_def h .
    then show ?thesis unfolding busy_client_def using r co by (intro conjI exI [of _ co]) simp_all
  qed
qed

text \<open>A round that takes an item, and one after the queue has been emptied.\<close>

lemma ClientRound_take:
  assumes "calm_env env" "open_queue (the_client s)" "cview s = (i # is, False, cn, rc, ex)"
  shows "\<exists>q'. ClientRound env uh cy item s =
      bnd (ClientItem env uh cy i (upd_client (\<lambda>cl. cl\<lparr>cl_queue := Some q'\<rparr>) s)) (\<lambda>(nx, s2). Inr (nx, i, s2)) \<and>
    q_inv q' \<and> \<not> q_exit q' \<and> cview (upd_client (\<lambda>cl. cl\<lparr>cl_queue := Some q'\<rparr>) s) = (is, is = [], cn, rc, ex)"
proof -
  obtain q where q: "cl_queue (the_client s) = Some q" "q_inv q" "\<not> q_exit q" using assms(2) by (auto simp: open_queue_def)
  have v: "q_items q = i # is" "\<not> q_emptied q" using assms(3) q(1) by (simp_all add: cview_def Let_def)
  obtain q' where q': "Dequeue all_ok (cy_waits cy) q item True = Inr (True, i, q')" "q_inv q'" "q_items q' = is" "\<not> q_exit q'"
    "q_emptied q' = (is = [])"
    using Dequeue_waiting [OF q(2), of "cy_waits cy" item] v q(3) by (auto simp: a_dequeue_def abs_queue_def)
  then show ?thesis using assms q(1)
    by (intro exI [of _ q']) (simp add: ClientRound_def cview_def Let_def)
qed

lemma ClientRound_emptied:
  assumes "calm_env env" "open_queue (the_client s)" "cview s = (is, True, cn, rc, ex)"
  shows "\<exists>q'. ClientRound env uh cy item s = Inr (Return True, item, upd_client (\<lambda>cl. cl\<lparr>cl_queue := Some q'\<rparr>) s) \<and>
    q_inv q' \<and> \<not> q_exit q' \<and> cview (upd_client (\<lambda>cl. cl\<lparr>cl_queue := Some q'\<rparr>) s) = (is, False, cn, rc, ex)"
proof -
  obtain q where q: "cl_queue (the_client s) = Some q" "q_inv q" "\<not> q_exit q" using assms(2) by (auto simp: open_queue_def)
  have v: "q_items q = is" "q_emptied q" using assms(3) q(1) by (simp_all add: cview_def Let_def)
  obtain q' where q': "Dequeue all_ok (cy_waits cy) q item True = Inr (False, item, q')" "q_inv q'" "q_items q' = is" "\<not> q_exit q'"
    "\<not> q_emptied q'"
    using Dequeue_waiting [OF q(2), of "cy_waits cy" item] v q(3) by (auto simp: a_dequeue_def abs_queue_def)
  then show ?thesis using assms q(1)
    by (intro exI [of _ q']) (simp add: ClientRound_def cview_def Let_def)
qed

lemma free_conn_seq:
  assumes uh: "friendly uh" and env: "handler_env env" and B: "B c = None"
    and s: "busy_client env n pr os B c st evs failed s" "FREE_EVENT \<notin> evs" and v: "cview s = (is, e, cn, rc, ex)"
  shows "returns (free_conn env (client_cb env uh) c s) (\<lambda>s'. idle_client env n pr os B s' \<and> round_frame s s' \<and>
    cview s' = (is @ [ITEM_EVENT FREE_EVENT c], e, cn, rc, ex) \<and> ps_raised s' = ps_raised s)"
proof -
  obtain co where co: "ps_conns s = B(c \<mapsto> co)" "attempt env n pr os (the_client s) st evs (focus c co s)" "ready pr s"
    using s(1) by (rule busyE)
  let ?w = "focus c co s"
  obtain rb wb fs f where at: "conn_inv (pe_fuel env) ?w" "\<not> cn_isFactory (w_conn ?w)" "cn_readBuffer (w_conn ?w) = Some rb"
    "cn_writeBuffer (w_conn ?w) = Some wb" "pool_inv (16, n) n pr (k_mem (w_core ?w)) fs (wb # rb # os) f"
    "\<not> cn_freeAddress (w_conn ?w)" "conn_handlers ?w FREE_EVENT = client_handlers (the_client s) FREE_EVENT"
    using co(2) s(2) unfolding attempt_def by auto
  let ?k = "if cn_socket (w_conn ?w) \<noteq> - 1 then (w_core ?w)\<lparr>k_net := k_net (w_core ?w) @ [NetClose]\<rparr> else w_core ?w"
  have k: "k_user ?k = (ps_pipe s)\<lparr>pp_self := c\<rparr>" "k_mem ?k = ps_mem s" "k_conn ?k = co_conn co" "k_addrs ?k = ps_addrs s" "k_raised ?k = ps_raised s"
    by simp_all
  have q: "open_queue (pp_ext (k_user ?k))" using co(3) unfolding k(1) by (simp add: ready_def)
  obtain p where p: "call_all (client_calls env uh) FREE_EVENT (conn_handlers ?w FREE_EVENT) ?k = Inr (?k\<lparr>k_user := p\<rparr>)"
    "noted FREE_EVENT ((ps_pipe s)\<lparr>pp_self := c\<rparr>) p"
    using client_told [OF uh _ handler_env_calm [OF env] q, of FREE_EVENT "the_client s"] unfolding at(7) k(1)
    by (auto simp: life_events_def)
  have cm: "calm (w_core ?w) (?k\<lparr>k_user := p\<rparr>)" by (rule calm_same) simp_all
  have mm: "k_mem (?k\<lparr>k_user := p\<rparr>) = k_mem (w_core ?w)" by simp
  from FreeConnection_calls [OF at(1-5) p(1) cm mm] obtain k' hu hs where
    r: "FreeConnection (core_cb (client_calls env uh)) (pe_fuel env) all_ok ?w = Inr (k', hu, hs)"
      "pool_inv (16, n) n pr (k_mem k') (fs @ [rb, wb]) os f" "k_user k' = p" "k_raised k' = ps_raised s" "k_addrs k' = ps_addrs s"
    using at(6) k by (auto elim!: returnsE)
  let ?s = "\<lparr>ps_conns = B, ps_mem = k_mem k', ps_addrs = ps_addrs s, ps_raised = ps_raised s, ps_pipe = p\<rparr>"
  have b: "(ps_conns s)(c := None) = B" using co(1) B by auto
  have fr: "free_conn env (client_cb env uh) c s = Inr ?s"
    using co(1) r b handler_env_calm [OF env] by (simp add: free_conn_def)
  have "open_queue (pp_ext ((ps_pipe s)\<lparr>pp_self := c\<rparr>))" "cview (s\<lparr>ps_pipe := (ps_pipe s)\<lparr>pp_self := c\<rparr>\<rparr>) = (is, e, cn, rc, ex)"
    using co(3) v by (simp_all add: ready_def cview_def)
  note nv = noted_view [OF p(2) _ _ this(1) this(2), of ?s]
  have f: "round_frame s ?s" using nv(3) noted_fields [OF p(2)] by (simp add: round_frame_def)
  have "ready pr ?s" by (rule ready_frame [OF co(3) f]) (use nv(2) in simp)
  then show ?thesis unfolding fr using r(2) f nv(1) by (auto simp: idle_client_def)
qed

text \<open>\<open>CLOSE_EVENT\<close> of a connection that was never established, and failed.\<close>

lemma client_close_seq:
  assumes uh: "friendly uh" and env: "handler_env env" and n: "0 \<le> n" "n \<le> INT_MAX - 2" and B: "B c = None" and cy: "good_answers cy"
    and s: "busy_client env n pr os B c st evs True s" "FREE_EVENT \<notin> evs" and v: "cview s = (is, e, False, rc, ex)"
    and rc: "cl_retries (the_client s) \<le> INT_MAX" "0 \<le> rc"
  shows "returns (client_close env uh cy c s) (\<lambda>s'. round_frame s s' \<and> ps_raised s' = ps_raised s \<and>
    (if rc < cl_retries (the_client s) then
       (\<exists>failed. busy_client env n pr os B (cy_ref cy) STATE_INITIALIZED {INIT_EVENT} failed s') \<and>
       cview s' = (is @ [ITEM_EVENT FREE_EVENT c, ITEM_EVENT INIT_EVENT (cy_ref cy)], e, False, rc + 1, ex)
     else idle_client env n pr os B s' \<and> cview s' = (is @ [ITEM_EVENT FREE_EVENT c], e, False, rc, True)))"
proof -
  obtain co where co: "ps_conns s = B(c \<mapsto> co)" "cn_closedForError (co_conn co) = True" using s(1) by (auto elim!: busyE)
  have cn: "\<not> cl_connected (the_client s)" using v by (simp add: cview_def Let_def)
  obtain s1 where s1: "free_conn env (client_cb env uh) c s = Inr s1" "idle_client env n pr os B s1" "round_frame s s1"
    "cview s1 = (is @ [ITEM_EVENT FREE_EVENT c], e, False, rc, ex)" "ps_raised s1 = ps_raised s"
    using free_conn_seq [where os = os and st = st, OF uh env B s v] by (auto elim!: returnsE)
  have r: "cl_retryCount (the_client s1) = rc" "cl_retries (the_client s1) = cl_retries (the_client s)"
    using s1(3,4) same_client_fields(5) by (auto simp: cview_def Let_def round_frame_def)
  have q1: "open_queue (the_client s1)" using s1(2) by (simp add: idle_client_def ready_def)
  show ?thesis
  proof (cases "rc < cl_retries (the_client s)")
    case True
    let ?s = "upd_client (\<lambda>cl. cl\<lparr>cl_retryCount := rc + 1\<rparr>) s1"
    have k: "idle_client env n pr os B ?s" "round_frame s1 ?s"
      using upd_client_kept [of "\<lambda>cl. cl\<lparr>cl_retryCount := rc + 1\<rparr>" s1] s1(2) q1 by (simp_all add: open_queue_def)
    have "cview ?s = (is @ [ITEM_EVENT FREE_EVENT c], e, False, rc + 1, ex)" using s1(4) by (simp add: cview_def Let_def)
    from open_connection_seq [OF uh env n k(1) cy this]
    obtain s2 where s2: "open_connection env uh cy ?s = Inr s2"
      "\<exists>failed. busy_client env n pr os B (cy_ref cy) STATE_INITIALIZED {INIT_EVENT} failed s2" "round_frame ?s s2"
      "cview s2 = (is @ [ITEM_EVENT FREE_EVENT c, ITEM_EVENT INIT_EVENT (cy_ref cy)], e, False, rc + 1, ex)" "ps_raised s2 = ps_raised s1"
      by (auto elim!: returnsE)
    have i: "is_int (rc + 1)" using rc True by (intro is_int_bounds) simp_all
    have "client_close env uh cy c s = Inr s2"
      using co cn s1(1) s2(1) True r i by (simp add: client_close_def)
    then show ?thesis
      using s1(3,5) s2 k(2) True by (auto intro: round_frame_trans)
  next
    case False
    let ?s = "upd_client (\<lambda>cl. cl\<lparr>cl_exiting := True\<rparr>) s1"
    have k: "idle_client env n pr os B ?s" "round_frame s1 ?s"
      using upd_client_kept [of "\<lambda>cl. cl\<lparr>cl_exiting := True\<rparr>" s1] s1(2) q1 by (simp_all add: open_queue_def)
    have "cview ?s = (is @ [ITEM_EVENT FREE_EVENT c], e, False, rc, True)" using s1(4) by (simp add: cview_def Let_def)
    moreover have "client_close env uh cy c s = Inr ?s"
      using co cn s1(1) False r by (simp add: client_close_def)
    ultimately show ?thesis using s1(3,5) k False by (auto intro: round_frame_trans)
  qed
qed

text \<open>Calling the run function of the client's thread until it returns false, at most \<open>n\<close> times.\<close>

fun client_runs ::
  "nat \<Rightarrow> penv \<Rightarrow> ('g, 'd, 'x) chandler \<Rightarrow> client_sys list \<Rightarrow> ('g, 'd, 'x) cpsys \<Rightarrow> (client_sys list \<times> ('g, 'd, 'x) cpsys) res" where
  "client_runs 0 env uh rounds s = Inl OutOfFuel"
| "client_runs (Suc n) env uh rounds s =
     bnd (clientRun env uh rounds s) (\<lambda>(again, rest, s'). if again then client_runs n env uh rest s' else Inr (rest, s'))"

definition client_from ::
  "nat \<Rightarrow> penv \<Rightarrow> ('g, 'd, 'x) chandler \<Rightarrow> client_sys list \<Rightarrow> nat qitem \<Rightarrow> ('g, 'd, 'x) cpsys \<Rightarrow> (client_sys list \<times> ('g, 'd, 'x) cpsys) res" where
  "client_from n env uh rounds item s =
     bnd (ClientLoop env uh rounds item s) (\<lambda>(again, rest, s'). if again then client_runs n env uh rest s' else Inr (rest, s'))"

lemma client_runs_from: "calm_env env \<Longrightarrow> client_runs (Suc n) env uh rounds s = client_from n env uh rounds ITEM_UNDEFINED s"
  by (simp add: client_from_def clientRun_def NewQueueItem_def)

lemma from_again: "ClientRound env uh cy item s = Inr (Again, it, s1) \<Longrightarrow> client_from m env uh (cy # rs) item s = client_from m env uh rs it s1"
  by (simp add: client_from_def)

lemma from_return:
  "calm_env env \<Longrightarrow> ClientRound env uh cy item s = Inr (Return True, it, s1) \<Longrightarrow>
   client_from (Suc m) env uh (cy # rs) item s = client_from m env uh rs ITEM_UNDEFINED s1"
  using client_runs_from [of env m uh rs s1] by (simp add: client_from_def)

lemma from_end: "ClientRound env uh cy item s = Inr (Return False, it, s1) \<Longrightarrow> client_from m env uh (cy # rs) item s = Inr (rs, s1)"
  by (simp add: client_from_def)

text \<open>The rounds of an attempt that fails.\<close>

lemma round_init:
  assumes uh: "friendly uh" and env: "handler_env env"
    and s: "busy_client env n pr os B c STATE_INITIALIZED {INIT_EVENT} failed s"
    and v: "cview s = (ITEM_EVENT INIT_EVENT c # is, False, cn, rc, ex)"
  shows "\<exists>it s'. ClientRound env uh cy item s = Inr (Again, it, s') \<and>
    busy_client env n pr os B c (connect_state (cy_connect cy)) {connect_event (cy_connect cy), INIT_EVENT} (cy_connect cy = ConnectFailed \<or> failed) s' \<and>
    round_frame s s' \<and> cview s' = (is @ [ITEM_EVENT (connect_event (cy_connect cy)) c], is = [], cn, rc, ex) \<and>
    ps_raised s' = ps_raised s @ connect_errors (cy_connect cy)"
proof -
  have q: "open_queue (the_client s)" using s by (auto simp: ready_def elim!: busyE)
  obtain q' where q': "ClientRound env uh cy item s =
      bnd (ClientItem env uh cy (ITEM_EVENT INIT_EVENT c) (upd_client (\<lambda>cl. cl\<lparr>cl_queue := Some q'\<rparr>) s)) (\<lambda>(nx, s2). Inr (nx, ITEM_EVENT INIT_EVENT c, s2))"
    "q_inv q'" "\<not> q_exit q'" "cview (upd_client (\<lambda>cl. cl\<lparr>cl_queue := Some q'\<rparr>) s) = (is, is = [], cn, rc, ex)"
    using ClientRound_take [OF handler_env_calm [OF env] q v] by blast
  have oq: "open_queue ((the_client s)\<lparr>cl_queue := Some q'\<rparr>)" using q'(2,3) by (simp add: open_queue_def)
  note k = upd_client_kept [of "\<lambda>cl. cl\<lparr>cl_queue := Some q'\<rparr>", OF _ oq]
  from connect_seq [OF uh env k(4) [OF _ s] q'(4), of "cy_connect cy"] show ?thesis
    using q'(1) k(1) by (auto simp: ClientItem_def intro: round_frame_trans elim!: returnsE)
qed

lemma round_emptied:
  assumes env: "handler_env env" and q: "open_queue (the_client s)" and v: "cview s = (is, True, cn, rc, ex)"
  shows "\<exists>g. ClientRound env uh cy item s = Inr (Return True, item, upd_client g s) \<and> cview (upd_client g s) = (is, False, cn, rc, ex) \<and>
    (\<forall>cl. same_client cl (g cl)) \<and> open_queue (g (the_client s))"
proof -
  obtain q' where "ClientRound env uh cy item s = Inr (Return True, item, upd_client (\<lambda>cl. cl\<lparr>cl_queue := Some q'\<rparr>) s)"
    "q_inv q'" "\<not> q_exit q'" "cview (upd_client (\<lambda>cl. cl\<lparr>cl_queue := Some q'\<rparr>) s) = (is, False, cn, rc, ex)"
    using ClientRound_emptied [OF handler_env_calm [OF env] q v] by blast
  then show ?thesis by (intro exI [of _ "\<lambda>cl. cl\<lparr>cl_queue := Some q'\<rparr>"]) (simp add: open_queue_def)
qed

lemma round_close:
  assumes uh: "friendly uh" and env: "handler_env env" and n: "0 \<le> n" "n \<le> INT_MAX - 2" and B: "B c = None" and cy: "good_answers cy"
    and s: "busy_client env n pr os B c st evs True s" "FREE_EVENT \<notin> evs" and v: "cview s = ([ITEM_EVENT CLOSE_EVENT c], False, False, rc, ex)"
    and rc: "cl_retries (the_client s) \<le> INT_MAX" "0 \<le> rc"
  shows "\<exists>it s'. ClientRound env uh cy item s = Inr (Again, it, s') \<and> round_frame s s' \<and> ps_raised s' = ps_raised s \<and>
    (if rc < cl_retries (the_client s) then
       (\<exists>failed. busy_client env n pr os B (cy_ref cy) STATE_INITIALIZED {INIT_EVENT} failed s') \<and>
       cview s' = ([ITEM_EVENT FREE_EVENT c, ITEM_EVENT INIT_EVENT (cy_ref cy)], True, False, rc + 1, ex)
     else idle_client env n pr os B s' \<and> cview s' = ([ITEM_EVENT FREE_EVENT c], True, False, rc, True))"
proof -
  have q: "open_queue (the_client s)" using s by (auto simp: ready_def elim!: busyE)
  obtain q' where q': "ClientRound env uh cy item s =
      bnd (ClientItem env uh cy (ITEM_EVENT CLOSE_EVENT c) (upd_client (\<lambda>cl. cl\<lparr>cl_queue := Some q'\<rparr>) s)) (\<lambda>(nx, s2). Inr (nx, ITEM_EVENT CLOSE_EVENT c, s2))"
    "q_inv q'" "\<not> q_exit q'" "cview (upd_client (\<lambda>cl. cl\<lparr>cl_queue := Some q'\<rparr>) s) = ([], True, False, rc, ex)"
    using ClientRound_take [OF handler_env_calm [OF env] q v, of uh cy item] by (elim exE conjE) (rule that, simp_all)
  let ?s = "upd_client (\<lambda>cl. cl\<lparr>cl_queue := Some q'\<rparr>) s"
  have oq: "open_queue ((the_client s)\<lparr>cl_queue := Some q'\<rparr>)" using q'(2,3) by (simp add: open_queue_def)
  note k = upd_client_kept [of "\<lambda>cl. cl\<lparr>cl_queue := Some q'\<rparr>", OF _ oq]
  have rc': "cl_retries (the_client ?s) \<le> INT_MAX" "cl_retries (the_client ?s) = cl_retries (the_client s)" using rc(1) by simp_all
  from client_close_seq [OF uh env n B cy k(4) [OF _ s(1)] s(2) q'(4) rc'(1) rc(2)] obtain s' where
    s': "client_close env uh cy c ?s = Inr s'" "round_frame ?s s'" "ps_raised s' = ps_raised s"
    "if rc < cl_retries (the_client s) then
       (\<exists>failed. busy_client env n pr os B (cy_ref cy) STATE_INITIALIZED {INIT_EVENT} failed s') \<and>
       cview s' = ([ITEM_EVENT FREE_EVENT c, ITEM_EVENT INIT_EVENT (cy_ref cy)], True, False, rc + 1, ex)
     else idle_client env n pr os B s' \<and> cview s' = ([ITEM_EVENT FREE_EVENT c], True, False, rc, True)"
    by (auto elim!: returnsE)
  have "ClientRound env uh cy item s = Inr (Again, ITEM_EVENT CLOSE_EVENT c, s')" using q'(1) s'(1) by (simp add: ClientItem_def)
  moreover have "round_frame s s'" using k(1) s'(2) by (auto intro: round_frame_trans)
  ultimately show ?thesis using s'(3,4) by blast
qed

lemma round_free:
  assumes env: "handler_env env" and q: "open_queue (the_client s)" and v: "cview s = (ITEM_EVENT FREE_EVENT c # is, False, cn, rc, ex)"
  shows "\<exists>g it. ClientRound env uh cy item s = Inr (if ex then Return False else Again, it, upd_client g s) \<and>
    cview (upd_client g s) = (is, is = [], cn, rc, ex) \<and> (\<forall>cl. same_client cl (g cl)) \<and> open_queue (g (the_client s))"
proof -
  obtain q' where q': "ClientRound env uh cy item s =
      bnd (ClientItem env uh cy (ITEM_EVENT FREE_EVENT c) (upd_client (\<lambda>cl. cl\<lparr>cl_queue := Some q'\<rparr>) s)) (\<lambda>(nx, s2). Inr (nx, ITEM_EVENT FREE_EVENT c, s2))"
    "q_inv q'" "\<not> q_exit q'" "cview (upd_client (\<lambda>cl. cl\<lparr>cl_queue := Some q'\<rparr>) s) = (is, is = [], cn, rc, ex)"
    using ClientRound_take [OF handler_env_calm [OF env] q v] by blast
  have ex: "cl_exiting (the_client s) = ex" using v by (simp add: cview_def Let_def)
  show ?thesis using q' ex
    by (intro exI [of _ "\<lambda>cl. cl\<lparr>cl_queue := Some q'\<rparr>"] exI [of _ "ITEM_EVENT FREE_EVENT c"]) (simp add: ClientItem_def open_queue_def)
qed

text \<open>The round that finds out that the connection could not be established.\<close>

lemma round_connecting:
  assumes uh: "friendly uh" and env: "handler_env env"
    and s: "busy_client env n pr os B c STATE_CONNECTING evs failed s" "CLOSE_EVENT \<notin> evs" and cy: "finish_fails cy"
    and v: "cview s = (ITEM_EVENT CONNECTING_EVENT c # is, False, cn, rc, ex)"
  shows "\<exists>it s'. ClientRound env uh cy item s = Inr (Again, it, s') \<and>
    busy_client env n pr os B c STATE_CLOSED (insert CLOSE_EVENT evs) True s' \<and>
    round_frame s s' \<and> cview s' = (is @ [ITEM_EVENT CLOSE_EVENT c], is = [], cn, rc, ex) \<and>
    ps_raised s' = ps_raised s @ [finish_error cy]"
proof -
  have q: "open_queue (the_client s)" using s(1) by (auto simp: ready_def elim!: busyE)
  obtain q' where q': "ClientRound env uh cy item s =
      bnd (ClientItem env uh cy (ITEM_EVENT CONNECTING_EVENT c) (upd_client (\<lambda>cl. cl\<lparr>cl_queue := Some q'\<rparr>) s)) (\<lambda>(nx, s2). Inr (nx, ITEM_EVENT CONNECTING_EVENT c, s2))"
    "q_inv q'" "\<not> q_exit q'" "cview (upd_client (\<lambda>cl. cl\<lparr>cl_queue := Some q'\<rparr>) s) = (is, is = [], cn, rc, ex)"
    using ClientRound_take [OF handler_env_calm [OF env] q v] by blast
  let ?s = "upd_client (\<lambda>cl. cl\<lparr>cl_queue := Some q'\<rparr>) s"
  have oq: "open_queue ((the_client s)\<lparr>cl_queue := Some q'\<rparr>)" using q'(2,3) by (simp add: open_queue_def)
  note k = upd_client_kept [of "\<lambda>cl. cl\<lparr>cl_queue := Some q'\<rparr>", OF _ oq]
  have st: "STATE_CONNECTING \<noteq> STATE_CLOSED" by simp
  obtain s' where s': "do_conn c (ConnectionHandleError (core_cb (client_calls env uh)) (pe_fuel env) (pe_name env) (finish_error cy)) ?s = Inr s'"
    "busy_client env n pr os B c STATE_CLOSED (insert CLOSE_EVENT evs) True s'" "round_frame ?s s'"
    "cview s' = (is @ [ITEM_EVENT CLOSE_EVENT c], is = [], cn, rc, ex)" "ps_raised s' = ps_raised s @ [finish_error cy]"
    using error_seq [OF uh env k(4) [OF _ s(1)] q'(4) st s(2) finish_error_kind, of cy] by (auto elim!: returnsE)
  obtain co where co: "ps_conns s' c = Some co" "cn_state (co_conn co) = STATE_CLOSED"
    using s'(2) by (auto simp: attempt_def elim!: busyE)
  have "client_connecting env uh cy c ?s = Inr s'"
    using s'(1) co by (simp add: client_connecting_def finish_error_eq [OF cy])
  then show ?thesis using q'(1) s'(2-5) k(1) by (auto simp: ClientItem_def intro: round_frame_trans)
qed

text \<open>
  The answers of a system that refuses every connection: \<open>connect\<close> fails, or it leaves the connection in
  progress and the attempt fails when it is finished.
\<close>

definition refusing :: "(nat \<rightharpoonup> ('g client_handler, 'd) cobj) \<Rightarrow> client_sys \<Rightarrow> bool" where
  "refusing B cy \<longleftrightarrow> good_answers cy \<and> cy_connect cy \<noteq> ConnectDone \<and> finish_fails cy \<and> B (cy_ref cy) = None"

text \<open>
  The rounds that an attempt takes before it has failed: the one of \<open>INIT_EVENT\<close>, the one of
  \<open>CONNECTING_EVENT\<close> if there is one, each followed by one that finds the queue emptied. Three more
  take the client to the next attempt. The errors of \<open>k\<close> attempts, and the answers left behind them.
\<close>

definition steps :: "client_sys list \<Rightarrow> nat" where
  "steps rs = (if cy_connect (hd rs) = ConnectFailed then 1 else 2)"

definition failure :: "client_sys list \<Rightarrow> conn_error" where
  "failure rs = (if cy_connect (hd rs) = ConnectFailed then CONNECT_ERROR else finish_error (rs ! 2))"

fun failures :: "nat \<Rightarrow> client_sys list \<Rightarrow> conn_error list" where
  "failures 0 rs = []"
| "failures (Suc k) rs = failure rs # failures k (drop (2 * steps rs + 3) rs)"

fun after :: "nat \<Rightarrow> client_sys list \<Rightarrow> client_sys list" where
  "after 0 rs = rs"
| "after (Suc k) rs = after k (drop (2 * steps rs + 3) rs)"

lemma length_failures [simp]: "length (failures k rs) = k"
  by (induction k rs rule: failures.induct) simp_all

lemma refused_rounds:
  assumes "\<forall>cy \<in> set rs. refusing B cy" "4 \<le> length rs"
  obtains (failed) a b r where "rs = a # b # r" "cy_connect a = ConnectFailed" "steps rs = 1" "failure rs = CONNECT_ERROR"
  | (progress) a b c d r where "rs = a # b # c # d # r" "cy_connect a = ConnectInProgress" "finish_fails c" "steps rs = 2"
    "failure rs = finish_error c"
proof -
  from assms(2) obtain a b c d r where rs: "rs = a # b # c # d # r"
    by (auto simp: numeral_eq_Suc Suc_le_length_iff)
  then have "refusing B a" "refusing B c" using assms(1) by simp_all
  then show thesis
    using that rs by (cases "cy_connect a") (auto simp: refusing_def steps_def failure_def)
qed

text \<open>From \<open>INIT_EVENT\<close> to \<open>CLOSE_EVENT\<close>: the run function returns once or twice.\<close>

lemma attempt_fails:
  assumes uh: "friendly uh" and env: "handler_env env"
    and s: "busy_client env n pr os B c STATE_INITIALIZED {INIT_EVENT} failed s"
    and v: "cview s = ([ITEM_EVENT INIT_EVENT c], False, False, rc, False)"
    and rs: "\<forall>cy \<in> set rs. refusing B cy" "4 \<le> length rs"
  shows "\<exists>s' evs. client_from (steps rs + m) env uh (rs @ rest) item s = client_from m env uh (drop (2 * steps rs) rs @ rest) ITEM_UNDEFINED s' \<and>
    busy_client env n pr os B c STATE_CLOSED evs True s' \<and> FREE_EVENT \<notin> evs \<and> round_frame s s' \<and>
    cview s' = ([ITEM_EVENT CLOSE_EVENT c], False, False, rc, False) \<and> ps_raised s' = ps_raised s @ [failure rs]"
  using rs
proof (cases rule: refused_rounds)
  case (failed a b r)
  obtain i1 s1 where s1: "ClientRound env uh a item s = Inr (Again, i1, s1)"
    "busy_client env n pr os B c STATE_CLOSED {CLOSE_EVENT, INIT_EVENT} True s1" "round_frame s s1"
    "cview s1 = ([ITEM_EVENT CLOSE_EVENT c], True, False, rc, False)" "ps_raised s1 = ps_raised s @ [CONNECT_ERROR]"
    using round_init [OF uh env s v, of a item] failed(2) by (auto simp: connect_errors_def)
  have q1: "open_queue (the_client s1)" using s1(2) by (auto simp: ready_def elim!: busyE)
  obtain g where g: "ClientRound env uh b i1 s1 = Inr (Return True, i1, upd_client g s1)"
    "cview (upd_client g s1) = ([ITEM_EVENT CLOSE_EVENT c], False, False, rc, False)" "\<And>cl. same_client cl (g cl)" "open_queue (g (the_client s1))"
    using round_emptied [OF env q1 s1(4), of uh b i1] by blast
  note k = upd_client_kept [of g, OF g(3,4)]
  show ?thesis
    using failed from_again [OF s1(1)] from_return [OF handler_env_calm [OF env] g(1)] k(4) [OF s1(2)] g(2) s1(5) round_frame_trans [OF s1(3) k(1)]
    by (intro exI [of _ "upd_client g s1"] exI [of _ "{CLOSE_EVENT, INIT_EVENT}"]) simp
next
  case (progress a b d e r)
  obtain i1 s1 where s1: "ClientRound env uh a item s = Inr (Again, i1, s1)"
    "busy_client env n pr os B c STATE_CONNECTING {CONNECTING_EVENT, INIT_EVENT} failed s1" "round_frame s s1"
    "cview s1 = ([ITEM_EVENT CONNECTING_EVENT c], True, False, rc, False)" "ps_raised s1 = ps_raised s"
    using round_init [OF uh env s v, of a item] progress(2) by (auto simp: connect_errors_def)
  have q1: "open_queue (the_client s1)" using s1(2) by (auto simp: ready_def elim!: busyE)
  obtain g where g: "ClientRound env uh b i1 s1 = Inr (Return True, i1, upd_client g s1)"
    "cview (upd_client g s1) = ([ITEM_EVENT CONNECTING_EVENT c], False, False, rc, False)" "\<And>cl. same_client cl (g cl)" "open_queue (g (the_client s1))"
    using round_emptied [OF env q1 s1(4), of uh b i1] by blast
  note k = upd_client_kept [of g, OF g(3,4)]
  have ne: "CLOSE_EVENT \<notin> {CONNECTING_EVENT, INIT_EVENT}" by simp
  obtain i3 s3 where s3: "ClientRound env uh d ITEM_UNDEFINED (upd_client g s1) = Inr (Again, i3, s3)"
    "busy_client env n pr os B c STATE_CLOSED {CLOSE_EVENT, CONNECTING_EVENT, INIT_EVENT} True s3" "round_frame (upd_client g s1) s3"
    "cview s3 = ([ITEM_EVENT CLOSE_EVENT c], True, False, rc, False)" "ps_raised s3 = ps_raised s @ [finish_error d]"
    using round_connecting [OF uh env k(4) [OF s1(2)] ne progress(3) g(2), of ITEM_UNDEFINED] s1(5) by auto
  have q3: "open_queue (the_client s3)" using s3(2) by (auto simp: ready_def elim!: busyE)
  obtain h where h: "ClientRound env uh e i3 s3 = Inr (Return True, i3, upd_client h s3)"
    "cview (upd_client h s3) = ([ITEM_EVENT CLOSE_EVENT c], False, False, rc, False)" "\<And>cl. same_client cl (h cl)" "open_queue (h (the_client s3))"
    using round_emptied [OF env q3 s3(4), of uh e i3] by blast
  note k3 = upd_client_kept [of h, OF h(3,4)]
  have f: "round_frame s (upd_client h s3)" using s1(3) k(1) s3(3) k3(1) by (blast intro: round_frame_trans)
  show ?thesis
    using progress from_again [OF s1(1)] from_return [OF handler_env_calm [OF env] g(1)] from_again [OF s3(1)]
      from_return [OF handler_env_calm [OF env] h(1)] k3(4) [OF s3(2)] h(2) s3(5) f
    by (intro exI [of _ "upd_client h s3"] exI [of _ "{CLOSE_EVENT, CONNECTING_EVENT, INIT_EVENT}"]) simp
qed

text \<open>From \<open>CLOSE_EVENT\<close> to \<open>FREE_EVENT\<close>: two rounds, then the run function returns.\<close>

lemma attempt_closes:
  assumes uh: "friendly uh" and env: "handler_env env" and n: "0 \<le> n" "n \<le> INT_MAX - 2" and B: "B c = None" and cy: "good_answers cy"
    and s: "busy_client env n pr os B c st evs True s" "FREE_EVENT \<notin> evs"
    and v: "cview s = ([ITEM_EVENT CLOSE_EVENT c], False, False, rc, False)"
    and rc: "cl_retries (the_client s) \<le> INT_MAX" "0 \<le> rc"
  shows "\<exists>s'. client_from (Suc m) env uh (cy # cy' # rest) item s = client_from m env uh rest ITEM_UNDEFINED s' \<and>
    round_frame s s' \<and> ps_raised s' = ps_raised s \<and>
    (if rc < cl_retries (the_client s) then
       (\<exists>failed. busy_client env n pr os B (cy_ref cy) STATE_INITIALIZED {INIT_EVENT} failed s') \<and>
       cview s' = ([ITEM_EVENT FREE_EVENT c, ITEM_EVENT INIT_EVENT (cy_ref cy)], False, False, rc + 1, False)
     else idle_client env n pr os B s' \<and> cview s' = ([ITEM_EVENT FREE_EVENT c], False, False, rc, True))"
proof -
  obtain i3 s3 where s3: "ClientRound env uh cy item s = Inr (Again, i3, s3)" "round_frame s s3" "ps_raised s3 = ps_raised s"
    "if rc < cl_retries (the_client s) then
       (\<exists>failed. busy_client env n pr os B (cy_ref cy) STATE_INITIALIZED {INIT_EVENT} failed s3) \<and>
       cview s3 = ([ITEM_EVENT FREE_EVENT c, ITEM_EVENT INIT_EVENT (cy_ref cy)], True, False, rc + 1, False)
     else idle_client env n pr os B s3 \<and> cview s3 = ([ITEM_EVENT FREE_EVENT c], True, False, rc, True)"
    using round_close [OF uh env n B cy s v rc, of item] by blast
  obtain "is" rc' ex where v3: "cview s3 = (is, True, False, rc', ex)" using s3(4) by (auto split: if_splits)
  have q3: "open_queue (the_client s3)" using s3(4) by (auto simp: ready_def idle_client_def elim!: busyE split: if_splits)
  obtain h where h: "ClientRound env uh cy' i3 s3 = Inr (Return True, i3, upd_client h s3)"
    "cview (upd_client h s3) = (is, False, False, rc', ex)" "\<And>cl. same_client cl (h cl)" "open_queue (h (the_client s3))"
    using round_emptied [OF env q3 v3, of uh cy' i3] by blast
  note k4 = upd_client_kept [of h, OF h(3,4)]
  have "client_from (Suc m) env uh (cy # cy' # rest) item s = client_from m env uh rest ITEM_UNDEFINED (upd_client h s3)"
    using from_again [OF s3(1)] from_return [OF handler_env_calm [OF env] h(1)] by simp
  moreover have "round_frame s (upd_client h s3)" using s3(2) k4(1) by (rule round_frame_trans)
  ultimately show ?thesis using s3(3,4) v3 h(2)
    by (intro exI [of _ "upd_client h s3"]) (auto split: if_splits intro: k4(3,4))
qed

text \<open>A whole attempt: the run function returns at most three times.\<close>

lemma failed_attempt:
  assumes uh: "friendly uh" and env: "handler_env env" and n: "0 \<le> n" "n \<le> INT_MAX - 2" and B: "B c = None"
    and s: "busy_client env n pr os B c STATE_INITIALIZED {INIT_EVENT} failed s"
    and v: "cview s = ([ITEM_EVENT INIT_EVENT c], False, False, rc, False)"
    and rc: "cl_retries (the_client s) \<le> INT_MAX" "0 \<le> rc"
    and rs: "\<forall>cy \<in> set rs. refusing B cy" "7 \<le> length rs"
  shows "\<exists>s' x c' m'. m \<le> m' \<and>
    client_from (3 + m) env uh (rs @ rest) item s = client_from m' env uh (x # drop (2 * steps rs + 3) rs @ rest) ITEM_UNDEFINED s' \<and>
    round_frame s s' \<and> ps_raised s' = ps_raised s @ [failure rs] \<and> B c' = None \<and>
    (if rc < cl_retries (the_client s) then
       (\<exists>failed. busy_client env n pr os B c' STATE_INITIALIZED {INIT_EVENT} failed s') \<and>
       cview s' = ([ITEM_EVENT FREE_EVENT c, ITEM_EVENT INIT_EVENT c'], False, False, rc + 1, False)
     else idle_client env n pr os B s' \<and> cview s' = ([ITEM_EVENT FREE_EVENT c], False, False, rc, True))"
proof -
  let ?d = "steps rs"
  have d: "?d = 1 \<or> ?d = 2" by (simp add: steps_def)
  have three: "\<exists>x1 x2 x3 r. ys = x1 # x2 # x3 # r" if "3 \<le> length ys" for ys :: "client_sys list"
    using that by (auto simp: numeral_eq_Suc Suc_le_length_iff)
  have "3 \<le> length (drop (2 * ?d) rs)" using d rs(2) by auto
  then obtain x1 x2 x3 r where xs: "drop (2 * ?d) rs = x1 # x2 # x3 # r" using three by blast
  have "drop (2 * ?d + 3) rs = drop 3 (drop (2 * ?d) rs)" by (simp add: add.commute)
  then have r: "drop (2 * ?d + 3) rs = r" using xs by simp
  have "x1 \<in> set (drop (2 * ?d) rs)" using xs by simp
  then have x1: "refusing B x1" using rs(1) set_drop_subset [of "2 * ?d" rs] by blast
  define k where "k = 2 - ?d + m"
  have k: "3 + m = ?d + Suc k" "m \<le> k" using d by (auto simp: k_def)
  have l: "4 \<le> length rs" using rs(2) by simp
  obtain s2 evs where s2: "client_from (3 + m) env uh (rs @ rest) item s = client_from (Suc k) env uh (x1 # x2 # x3 # r @ rest) ITEM_UNDEFINED s2"
    "busy_client env n pr os B c STATE_CLOSED evs True s2" "FREE_EVENT \<notin> evs" "round_frame s s2"
    "cview s2 = ([ITEM_EVENT CLOSE_EVENT c], False, False, rc, False)" "ps_raised s2 = ps_raised s @ [failure rs]"
    using attempt_fails [OF uh env s v rs(1) l, of "Suc k" rest item] xs by (auto simp: k(1))
  have e: "cl_retries (the_client s2) = cl_retries (the_client s)" using s2(4) by (simp add: round_frame_def same_client_fields)
  have x: "good_answers x1" "B (cy_ref x1) = None" using x1 by (simp_all add: refusing_def)
  from attempt_closes [OF uh env n B x(1) s2(2,3,5), of k x2 "x3 # r @ rest" ITEM_UNDEFINED] rc e
  obtain s' where "client_from (Suc k) env uh (x1 # x2 # x3 # r @ rest) ITEM_UNDEFINED s2 = client_from k env uh (x3 # r @ rest) ITEM_UNDEFINED s'"
    "round_frame s2 s'" "ps_raised s' = ps_raised s2"
    "if rc < cl_retries (the_client s) then
       (\<exists>failed. busy_client env n pr os B (cy_ref x1) STATE_INITIALIZED {INIT_EVENT} failed s') \<and>
       cview s' = ([ITEM_EVENT FREE_EVENT c, ITEM_EVENT INIT_EVENT (cy_ref x1)], False, False, rc + 1, False)
     else idle_client env n pr os B s' \<and> cview s' = ([ITEM_EVENT FREE_EVENT c], False, False, rc, True)" by auto
  with s2 r k(2) x(2) show ?thesis
    by (intro exI [of _ s'] exI [of _ x3] exI [of _ "cy_ref x1"] exI [of _ k]) (simp add: round_frame_trans [OF s2(4)])
qed

lemma retries_end:
  assumes uh: "friendly uh" and env: "handler_env env" and n: "0 \<le> n" "n \<le> INT_MAX - 2"
  shows "B c = None \<Longrightarrow> busy_client env n pr os B c STATE_INITIALIZED {INIT_EVENT} failed s \<Longrightarrow>
    cview s = ([ITEM_EVENT INIT_EVENT c], False, False, rc, False) \<Longrightarrow> cl_retries (the_client s) = rc + int k \<Longrightarrow> rc + int k \<le> INT_MAX \<Longrightarrow> 0 \<le> rc \<Longrightarrow>
    \<forall>cy \<in> set rounds. refusing B cy \<Longrightarrow> 7 * Suc k \<le> length rounds \<Longrightarrow> 3 * Suc k \<le> m \<Longrightarrow>
    \<exists>s'. client_from m env uh (rounds @ rest) item s = Inr (after (Suc k) rounds @ rest, s') \<and> idle_client env n pr os B s' \<and> round_frame s s' \<and>
      cview s' = ([], True, False, rc + int k, True) \<and> ps_raised s' = ps_raised s @ failures (Suc k) rounds"
proof (induction k arbitrary: c failed s rc rounds item m)
  case 0
  have rc: "cl_retries (the_client s) \<le> INT_MAX" using 0 by simp
  obtain m0 where m: "m = 3 + m0" using 0(9) by (metis le_Suc_ex mult_1_right One_nat_def)
  have l: "7 \<le> length rounds" using 0(8) by simp
  obtain s' x m' where s': "client_from m env uh (rounds @ rest) item s = client_from m' env uh (x # after (Suc 0) rounds @ rest) ITEM_UNDEFINED s'"
    "round_frame s s'" "ps_raised s' = ps_raised s @ [failure rounds]" "idle_client env n pr os B s'"
    "cview s' = ([ITEM_EVENT FREE_EVENT c], False, False, rc, True)"
    using failed_attempt [OF uh env n 0(1-3) rc 0(6,7) l, of m0 rest item] 0(4) unfolding m by auto
  have q: "open_queue (the_client s')" using s'(4) by (simp add: idle_client_def ready_def)
  obtain g it where g: "ClientRound env uh x ITEM_UNDEFINED s' = Inr (Return False, it, upd_client g s')"
    "cview (upd_client g s') = ([], True, False, rc, True)" "\<And>cl. same_client cl (g cl)" "open_queue (g (the_client s'))"
    using round_free [OF env q s'(5), of uh x ITEM_UNDEFINED] by auto
  note k = upd_client_kept [of g, OF g(3,4)]
  show ?case using s'(1,3) from_end [OF g(1)] g(2) k(3) [OF s'(4)] round_frame_trans [OF s'(2) k(1)]
    by (intro exI [of _ "upd_client g s'"]) simp
next
  case (Suc k)
  have rc: "cl_retries (the_client s) \<le> INT_MAX" using Suc.prems by simp
  obtain m0 where m: "m = 3 + m0" "3 * Suc k \<le> m0" using Suc.prems(9) by (intro that [of "m - 3"]) simp_all
  have l: "7 \<le> length rounds" using Suc.prems(8) by simp
  let ?rs = "drop (2 * steps rounds + 3) rounds"
  obtain s' f' x c' m' where s': "client_from m env uh (rounds @ rest) item s = client_from m' env uh (x # ?rs @ rest) ITEM_UNDEFINED s'"
    "round_frame s s'" "ps_raised s' = ps_raised s @ [failure rounds]" "m0 \<le> m'" "B c' = None"
    "busy_client env n pr os B c' STATE_INITIALIZED {INIT_EVENT} f' s'"
    "cview s' = ([ITEM_EVENT FREE_EVENT c, ITEM_EVENT INIT_EVENT c'], False, False, rc + 1, False)"
    using failed_attempt [OF uh env n Suc.prems(1-3) rc Suc.prems(6,7) l, of m0 rest item] Suc.prems(4) unfolding m(1) by auto
  have q: "open_queue (the_client s')" using s'(6) by (auto simp: ready_def elim!: busyE)
  obtain g it where g: "ClientRound env uh x ITEM_UNDEFINED s' = Inr (Again, it, upd_client g s')"
    "cview (upd_client g s') = ([ITEM_EVENT INIT_EVENT c'], False, False, rc + 1, False)" "\<And>cl. same_client cl (g cl)"
    "open_queue (g (the_client s'))"
    using round_free [OF env q s'(7), of uh x ITEM_UNDEFINED] by auto
  note k = upd_client_kept [of g, OF g(3,4)]
  have f: "round_frame s (upd_client g s')" using s'(2) k(1) by (rule round_frame_trans)
  have "cl_retries (the_client (upd_client g s')) = cl_retries (the_client s)" using f by (simp add: round_frame_def same_client_fields)
  then have ih: "cl_retries (the_client (upd_client g s')) = (rc + 1) + int k" "(rc + 1) + int k \<le> INT_MAX" "0 \<le> rc + 1" using Suc.prems by simp_all
  have r: "\<forall>cy \<in> set ?rs. refusing B cy" using Suc.prems(7) set_drop_subset [of "2 * steps rounds + 3" rounds] by blast
  have "steps rounds \<le> 2" by (simp add: steps_def)
  then have lr: "7 * Suc k \<le> length ?rs" using Suc.prems(8) unfolding length_drop by arith
  have lm: "3 * Suc k \<le> m'" using m(2) s'(4) by simp
  from Suc.IH [OF s'(5) k(4) [OF s'(6)] g(2) ih r lr lm, of it]
  show ?case using s'(1,3) from_again [OF g(1)] f by (auto intro: round_frame_trans)
qed

section \<open>A sample client\<close>

text \<open>Used in the examples: a client whose handler logs the events, with a pool and an address.\<close>

definition log_event :: "(unit, unit, event list) chandler" where
  "log_event g ev d k = Inr (upd_pipe (\<lambda>p. p\<lparr>pp_ext := (pp_ext p)\<lparr>cl_user := cl_user (pp_ext p) @ [ev]\<rparr>\<rparr>) k)"

definition sample_client :: "int \<Rightarrow> (unit, unit, event list) cpsys" where
  "sample_client r = \<lparr>ps_conns = Map.empty, ps_mem = tight_pool, ps_addrs = [0 \<mapsto> ''[::1]:80''], ps_raised = [],
     ps_pipe = \<lparr>pp_self = 0, pp_reader = \<lparr>rd_name = None, rd_pipe = None, rd_thread = None, rd_queue = Some new_queue, rd_selector = None,
       rd_load = 0, rd_bufferSize = 8\<rparr>, pp_worker = None, pp_writer = None,
       pp_ext = \<lparr>cl_name = Some ''client000'', cl_address = Some 0, cl_connection = None, cl_thread = None, cl_reader = True,
         cl_queue = Some new_queue, cl_pool = Some 0, cl_handler = (), cl_handlerData = None, cl_retries = r, cl_interval = 1,
         cl_retryCount = 0, cl_bufferSize = 8, cl_connected = False, cl_exiting = False, cl_user = []\<rparr>\<rparr>\<rparr>"

definition sample_answers :: "connect_result \<Rightarrow> nat \<Rightarrow> client_sys" where
  "sample_answers r ref = \<lparr>cy_waits = [], cy_connect = r, cy_poll = None, cy_so = None, cy_conn = good_env, cy_ref = ref, cy_sock = 5, cy_fcntl = True\<rparr>"

lemma log_event_friendly: "friendly log_event"
  unfolding friendly_def log_event_def by (intro allI impI exI [of _ "cl_user _ @ [_]"]) (simp add: upd_pipe_def)

lemma sample_client_idle:
  "idle_client sample_penv 8 0 [0] Map.empty (sample_client r)" "cview (sample_client r) = ([], False, False, 0, False)"
  "cl_retries (the_client (sample_client r)) = r"
  using tight_pool_inv
  by (auto simp: idle_client_def ready_def open_queue_def sample_client_def cview_def a_empty_def abs_queue_def)

lemma sample_answers_good: "good_answers (sample_answers r ref)" "r \<noteq> ConnectDone \<Longrightarrow> refusing Map.empty (sample_answers r ref)"
  using good_env_ok by (simp_all add: good_answers_def refusing_def sample_answers_def finish_fails_def)

section \<open>Giving up\<close>

text \<open>
  C5. A client that cannot connect gives up. When the system refuses every attempt, be it that
  \<open>connect\<close> fails at once, be it that it leaves the connection in progress and \<open>poll\<close>, \<open>getsockopt\<close> or the
  socket's error ends the attempt later, the client makes one attempt and then exactly \<open>retries\<close> more,
  each reported by the one error of that failure (\<open>failures\<close>), after at most three returns of its run
  function and at most seven rounds of its loop for each attempt. Then the run function returns
  false, which ends the thread; every connection has been freed and its buffers are back in the pool,
  while the pipe has not been touched: no failed connection was handed to its reader.
\<close>

theorem client_gives_up:
  fixes s :: "('g, 'd, 'x) cpsys"
  assumes "friendly uh" "handler_env env" "0 \<le> n" "n \<le> INT_MAX - 2" "idle_client env n pr os B s" "cview s = ([], False, cn, 0, False)"
    and "cl_retries (the_client s) = int r" "int r \<le> INT_MAX" "good_answers first" "B (cy_ref first) = None"
    and "\<forall>cy \<in> set rounds. refusing B cy" "7 * Suc r \<le> length rounds"
  shows "\<exists>s1 s'. open_connection env uh first s = Inr s1 \<and>
    client_runs (3 * r + 4) env uh (rounds @ rest) s1 = Inr (after (Suc r) rounds @ rest, s') \<and>
    ps_raised s' = ps_raised s @ failures (Suc r) rounds \<and> length (failures (Suc r) rounds) = Suc r \<and> ps_conns s' = B \<and>
    (\<exists>fs e. pool_inv (16, n) n pr (ps_mem s') fs os e) \<and> round_frame s s' \<and>
    cl_exiting (the_client s') \<and> cl_retryCount (the_client s') = int r"
proof -
  obtain s1 failed where s1: "open_connection env uh first s = Inr s1" "round_frame s s1" "ps_raised s1 = ps_raised s"
    "busy_client env n pr os B (cy_ref first) STATE_INITIALIZED {INIT_EVENT} failed s1"
    "cview s1 = ([ITEM_EVENT INIT_EVENT (cy_ref first)], False, False, 0, False)"
    using open_connection_seq [OF assms(1-5,9,6)] by (auto elim!: returnsE)
  have "cl_retries (the_client s1) = 0 + int r"
    using s1(2) assms(7) same_client_fields(5) [of "the_client s" "the_client s1"] by (simp add: round_frame_def)
  from retries_end [OF assms(1-4,10) s1(4,5) this _ order_refl assms(11,12) order_refl, of rest ITEM_UNDEFINED] assms(8)
  obtain s' where s': "client_from (3 * Suc r) env uh (rounds @ rest) ITEM_UNDEFINED s1 = Inr (after (Suc r) rounds @ rest, s')"
    "idle_client env n pr os B s'" "round_frame s1 s'" "cview s' = ([], True, False, int r, True)"
    "ps_raised s' = ps_raised s1 @ failures (Suc r) rounds" by (auto simp del: failures.simps after.simps)
  have "client_runs (3 * r + 4) env uh (rounds @ rest) s1 = Inr (after (Suc r) rounds @ rest, s')"
    using client_runs_from [OF handler_env_calm [OF assms(2)], of "3 * Suc r" uh "rounds @ rest" s1] s'(1) by (simp add: numeral_eq_Suc)
  then show ?thesis
    using s1 s' round_frame_trans [OF s1(2) s'(3)]
    by (intro exI [of _ s1] exI [of _ s']) (simp add: idle_client_def cview_def Let_def del: failures.simps after.simps)
qed

text \<open>A first attempt that is refused later, and a second one that is refused at once.\<close>

definition sample_refusals :: "client_sys list" where
  "sample_refusals = replicate 7 ((sample_answers ConnectInProgress 2)\<lparr>cy_poll := Some 4, cy_so := Some 111\<rparr>) @
     replicate 7 (sample_answers ConnectFailed 2)"

theorem client_gives_up_witness:
  "\<exists>s1 s' rest. open_connection sample_penv log_event (sample_answers ConnectFailed 1) (sample_client 1) = Inr s1 \<and>
     client_runs 7 sample_penv log_event sample_refusals s1 = Inr (rest, s') \<and> length rest = 2 \<and>
     ps_raised s' = [FINISH_CONNECT_ERROR, CONNECT_ERROR] \<and> ps_conns s' = Map.empty"
proof -
  have n: "(8 :: int) \<le> INT_MAX - 2" "int 1 \<le> INT_MAX" by (simp_all add: INT_MAX_def)
  have "refusing Map.empty ((sample_answers ConnectInProgress 2)\<lparr>cy_poll := Some 4, cy_so := Some 111\<rparr>)"
    using sample_answers_good(2) [of ConnectInProgress 2] by (simp add: refusing_def good_answers_def finish_fails_def sample_answers_def)
  then have r: "\<forall>cy \<in> set sample_refusals. refusing Map.empty cy" "7 * Suc 1 \<le> length sample_refusals"
    using sample_answers_good(2) [of ConnectFailed 2] by (auto simp: sample_refusals_def)
  have c: "cl_retries (the_client (sample_client 1)) = int 1" "ps_raised (sample_client 1) = []" by (simp_all add: sample_client_def)
  have f: "failures (Suc 1) sample_refusals = [FINISH_CONNECT_ERROR, CONNECT_ERROR]" "length (after (Suc 1) sample_refusals) = 2"
    by (simp_all add: sample_refusals_def numeral_eq_Suc failure_def steps_def sample_answers_def finish_error_def)
  from client_gives_up [OF log_event_friendly sample_handler_env _ n(1) sample_client_idle(1,2) c(1) n(2) sample_answers_good(1) _ r, of ConnectFailed 1 "[]"] c(2) f
  show ?thesis by (auto simp del: failures.simps after.simps)
qed

section \<open>Connected at once\<close>

lemma round_connected:
  assumes env: "handler_env env" and q: "open_queue (the_client s)" and v: "cview s = (ITEM_EVENT CONNECTED_EVENT c # is, False, cn, rc, ex)"
  shows "\<exists>g it. ClientRound env uh cy item s = Inr (Again, it, upd_client g s) \<and>
    cview (upd_client g s) = (is, is = [], True, 0, ex) \<and> (\<forall>cl. same_client cl (g cl)) \<and> open_queue (g (the_client s))"
proof -
  obtain q' where q': "ClientRound env uh cy item s =
      bnd (ClientItem env uh cy (ITEM_EVENT CONNECTED_EVENT c) (upd_client (\<lambda>cl. cl\<lparr>cl_queue := Some q'\<rparr>) s)) (\<lambda>(nx, s2). Inr (nx, ITEM_EVENT CONNECTED_EVENT c, s2))"
    "q_inv q'" "\<not> q_exit q'" "cview (upd_client (\<lambda>cl. cl\<lparr>cl_queue := Some q'\<rparr>) s) = (is, is = [], cn, rc, ex)"
    using ClientRound_take [OF handler_env_calm [OF env] q v] by blast
  show ?thesis using q'
    by (intro exI [of _ "\<lambda>cl. cl\<lparr>cl_queue := Some q', cl_connected := True, cl_retryCount := 0\<rparr>"] exI [of _ "ITEM_EVENT CONNECTED_EVENT c"])
      (simp add: ClientItem_def open_queue_def upd_client_def cview_def Let_def)
qed

text \<open>
  C32. A connection that \<open>connect\<close> establishes at once is never handed to the client's reader, for only
  the round of \<open>CONNECTING_EVENT\<close> does that. The client takes itself for connected, but no handler of the
  connection is called for data in either direction, the reader, the worker and the writer are as
  they were, and of the five owners whose reports \<open>CLOSE_EVENT\<close> will wait for three do not know the
  connection.
\<close>

theorem connected_at_once_is_unread:
  fixes s :: "('g, 'd, 'x) cpsys"
  assumes "friendly uh" "handler_env env" "0 \<le> n" "n \<le> INT_MAX - 2" "idle_client env n pr os B s" "cview s = ([], False, cn, rc, ex)"
    and "good_answers first" "cy_connect cya = ConnectDone"
  shows "\<exists>s0 i1 s1 i2 s2 i3 s3. open_connection env uh first s = Inr s0 \<and>
    ClientRound env uh cya item s0 = Inr (Again, i1, s1) \<and> ClientRound env uh cyb i1 s1 = Inr (Return True, i2, s2) \<and>
    ClientRound env uh cyc ITEM_UNDEFINED s2 = Inr (Again, i3, s3) \<and> cl_connected (the_client s3) \<and> round_frame s s3 \<and>
    (\<exists>co. ps_conns s3 (cy_ref first) = Some co \<and> cn_state (co_conn co) = STATE_CONNECTED \<and>
       co_handlers co INBOUND_DATA_EVENT = [] \<and> co_handlers co OUTBOUND_DATA_EVENT = [] \<and>
       (\<forall>own. cn_managedBy (co_conn co) own \<longleftrightarrow> own \<in> {OWNER_ACCEPTOR, OWNER_CLIENT}) \<and>
       (\<forall>own. cn_closedBy (co_conn co) own \<longleftrightarrow> own = OWNER_ACCEPTOR))"
proof -
  let ?c = "cy_ref first"
  obtain s0 failed where s0: "open_connection env uh first s = Inr s0" "round_frame s s0"
    "busy_client env n pr os B ?c STATE_INITIALIZED {INIT_EVENT} failed s0" "cview s0 = ([ITEM_EVENT INIT_EVENT ?c], False, False, rc, ex)"
    using open_connection_seq [OF assms(1-5,7,6)] by (auto elim!: returnsE)
  obtain i1 s1 where s1: "ClientRound env uh cya item s0 = Inr (Again, i1, s1)"
    "busy_client env n pr os B ?c STATE_CONNECTED {CONNECTED_EVENT, INIT_EVENT} failed s1" "round_frame s0 s1"
    "cview s1 = ([ITEM_EVENT CONNECTED_EVENT ?c], True, False, rc, ex)"
    using round_init [OF assms(1,2) s0(3,4), of cya item] assms(8) by auto
  have q1: "open_queue (the_client s1)" using s1(2) by (auto simp: ready_def elim!: busyE)
  obtain g where g: "ClientRound env uh cyb i1 s1 = Inr (Return True, i1, upd_client g s1)"
    "cview (upd_client g s1) = ([ITEM_EVENT CONNECTED_EVENT ?c], False, False, rc, ex)" "\<And>cl. same_client cl (g cl)" "open_queue (g (the_client s1))"
    using round_emptied [OF assms(2) q1 s1(4), of uh cyb i1] by blast
  note k2 = upd_client_kept [of g, OF g(3,4)]
  have q2: "open_queue (the_client (upd_client g s1))" using g(4) by simp
  obtain h i3 where h: "ClientRound env uh cyc ITEM_UNDEFINED (upd_client g s1) = Inr (Again, i3, upd_client h (upd_client g s1))"
    "cview (upd_client h (upd_client g s1)) = ([], True, True, 0, ex)" "\<And>cl. same_client cl (h cl)" "open_queue (h (the_client (upd_client g s1)))"
    using round_connected [OF assms(2) q2 g(2), of uh cyc ITEM_UNDEFINED] by auto
  note k3 = upd_client_kept [of h, OF h(3,4)]
  let ?s3 = "upd_client h (upd_client g s1)"
  have f: "round_frame s ?s3" using s0(2) s1(3) k2(1) k3(1) by (blast intro: round_frame_trans)
  obtain co where co: "ps_conns ?s3 = B(?c \<mapsto> co)" "attempt env n pr os (the_client ?s3) STATE_CONNECTED {CONNECTED_EVENT, INIT_EVENT} (focus ?c co ?s3)"
    "cn_closedBy (co_conn co) = (\<lambda>_. False)(OWNER_ACCEPTOR := True)"
    "cn_managedBy (co_conn co) = (\<lambda>_. False)(OWNER_ACCEPTOR := True, OWNER_CLIENT := True)"
    using k3(4) [OF k2(4) [OF s1(2)]] by (rule busyE)
  have "cn_state (co_conn co) = STATE_CONNECTED" "co_handlers co INBOUND_DATA_EVENT = []" "co_handlers co OUTBOUND_DATA_EVENT = []"
    using co(2) by (simp_all add: attempt_def client_handlers_def life_events_def)
  moreover have "ps_conns ?s3 ?c = Some co" using co(1) by simp
  moreover have "cl_connected (the_client ?s3)" using h(2) by (simp add: cview_def Let_def)
  ultimately show ?thesis using s0(1) s1(1) g(1) h(1) f co(3,4)
    by (intro exI [of _ s0] exI [of _ i1] exI [of _ s1] exI [of _ i1] exI [of _ "upd_client g s1"] exI [of _ i3] exI [of _ ?s3] conjI exI [of _ co])
      simp_all
qed

theorem connected_at_once_is_unread_witness:
  "\<exists>s0 i1 s1 i2 s2 i3 s3. open_connection sample_penv log_event (sample_answers ConnectFailed 1) (sample_client 1) = Inr s0 \<and>
     ClientRound sample_penv log_event (sample_answers ConnectDone 1) ITEM_UNDEFINED s0 = Inr (Again, i1, s1) \<and>
     ClientRound sample_penv log_event (sample_answers ConnectDone 1) i1 s1 = Inr (Return True, i2, s2) \<and>
     ClientRound sample_penv log_event (sample_answers ConnectDone 1) ITEM_UNDEFINED s2 = Inr (Again, i3, s3) \<and>
     cl_connected (the_client s3) \<and> round_frame (sample_client 1) s3"
proof -
  have n: "0 \<le> (8 :: int)" "(8 :: int) \<le> INT_MAX - 2" by (simp_all add: INT_MAX_def)
  have d: "cy_connect (sample_answers ConnectDone 1) = ConnectDone" by (simp add: sample_answers_def)
  note w = connected_at_once_is_unread [OF log_event_friendly sample_handler_env n sample_client_idle(1) [of 1] sample_client_idle(2) [of 1]
    sample_answers_good(1) [of ConnectFailed 1] d]
  show ?thesis using w [where item = ITEM_UNDEFINED and cyb = "sample_answers ConnectDone 1" and cyc = "sample_answers ConnectDone 1"]
    by (elim exE conjE) (intro exI conjI, assumption+)
qed

end
