(* ===== verification/PipeClose.thy ===== *)
theory PipeClose
  imports PipeFlow
begin

text \<open>
  The end of a connection in a pipe (\<open>src/reader.c\<close>, \<open>src/worker.c\<close>, \<open>src/writer.c\<close>): each of the
  three threads drops what it holds for the connection and reports; the last one frees it. The
  threads handle the event in any order, for each has a queue of its own.
\<close>

section \<open>Sweeping the queues\<close>

lemma pool_inv_foreign:
  assumes "pool_inv c n p m fs os e" "foreign pr {} m m'" "p \<noteq> pr"
  shows "pool_inv c n p m' fs os e"
proof -
  have "bm_bufs m' r = Some b" if "bm_bufs m r = Some b" "b_pool b = Some p" "r \<in> set (fs @ os)" for r b
    using assms that by (auto simp: foreign_def pool_inv_def)
  then show ?thesis using assms unfolding pool_inv_def pool_queue_def clean_def owned_def foreign_def
    by (auto 0 4 simp: subset_iff)
qed

text \<open>The buffers of the tasks in a queue, and the tasks and events of one connection.\<close>

definition task_bufs :: "nat qitem list \<Rightarrow> nat list" where
  "task_bufs is = concat (map (\<lambda>it. case it of ITEM_TASK ev c b \<Rightarrow> [b] | _ \<Rightarrow> []) is)"

fun task_of :: "nat \<Rightarrow> nat qitem \<Rightarrow> bool" where
  "task_of c (ITEM_TASK ev c' b) = (c' = c)"
| "task_of c _ = False"

fun event_for :: "nat \<Rightarrow> nat qitem \<Rightarrow> bool" where
  "event_for c (ITEM_EVENT ev c') = (c' = c)"
| "event_for c _ = False"

lemma task_bufs_simps [simp]:
  "task_bufs [] = []" "task_bufs (ITEM_TASK ev c b # is) = b # task_bufs is" "task_bufs (ITEM_EVENT ev c # is) = task_bufs is"
  "task_bufs (ITEM_DATA c # is) = task_bufs is" "task_bufs (ITEM_EXIT # is) = task_bufs is" "task_bufs (ITEM_UNDEFINED # is) = task_bufs is"
  "task_bufs (is @ js) = task_bufs is @ task_bufs js"
  by (simp_all add: task_bufs_def)

lemma task_bufs_filter: "set (task_bufs (filter P is)) \<subseteq> set (task_bufs is)" "distinct (task_bufs is) \<Longrightarrow> distinct (task_bufs (filter P is))"
proof -
  show s: "set (task_bufs (filter P is)) \<subseteq> set (task_bufs is)" for "is"
    by (induction "is") (auto simp: task_bufs_def)
  show "distinct (task_bufs is) \<Longrightarrow> distinct (task_bufs (filter P is))"
  proof (induction "is")
    case (Cons i "is")
    then show ?case using s [of "is"] by (cases i) auto
  qed simp
qed

lemma sweep_tasks:
  assumes env: "calm_env env"
  shows "pool_inv (16, n) n pr m fs (task_bufs is @ os) e \<Longrightarrow>
    returns (a_sweep (removeCallback env c) is m) (\<lambda>(ks, m'). ks = filter (\<lambda>it. \<not> task_of c it) is \<and>
      pool_inv (16, n) n pr m' (fs @ task_bufs (filter (task_of c) is)) (task_bufs ks @ os) e \<and> foreign pr {} m m')"
proof (induction "is" arbitrary: m fs os)
  case Nil
  then show ?case by (simp add: foreign_def)
next
  case (Cons i "is")
  show ?case
  proof (cases i)
    case (ITEM_TASK ev c' b)
    show ?thesis
    proof (cases "c' = c")
      case True
      have inv: "pool_inv (16, n) n pr m fs (b # task_bufs is @ os) e" using Cons.prems ITEM_TASK by simp
      then have d: "distinct (task_bufs is @ os)" "set (task_bufs is @ os) \<subseteq> set (b # task_bufs is @ os) - {b}"
        by (auto simp: pool_inv_def)
      obtain m1 where m1: "ReleaseBuffer all_ok (Some b) m = Inr (None, m1)" "pool_inv (16, n) n pr m1 (fs @ [b]) (task_bufs is @ os) e"
        using ReleaseBuffer_seq [OF inv _ d] by (auto elim!: returnsE)
      obtain bf where bf: "bm_bufs m b = Some bf" "b_pool bf = Some pr" using pool_inv_owner [OF inv, of b] by auto
      have f: "foreign pr {} m m1" by (rule release_foreign(1) [OF m1(1) bf])
      show ?thesis using Cons.IH [OF m1(2)] m1(1) env ITEM_TASK True
        by (auto simp: removeCallback_def elim!: returnsE intro: foreign_trans [OF f])
    next
      case False
      have "pool_inv (16, n) n pr m fs (task_bufs is @ b # os) e"
        by (rule pool_inv_perm [OF Cons.prems]) (use Cons.prems ITEM_TASK in \<open>auto simp: pool_inv_def\<close>)
      from Cons.IH [OF this] obtain m' where m': "a_sweep (removeCallback env c) is m = Inr (filter (\<lambda>it. \<not> task_of c it) is, m')"
        "pool_inv (16, n) n pr m' (fs @ task_bufs (filter (task_of c) is)) (task_bufs (filter (\<lambda>it. \<not> task_of c it) is) @ b # os) e"
        "foreign pr {} m m'" by (auto elim!: returnsE)
      have "pool_inv (16, n) n pr m' (fs @ task_bufs (filter (task_of c) is)) (b # task_bufs (filter (\<lambda>it. \<not> task_of c it) is) @ os) e"
        by (rule pool_inv_perm [OF m'(2)]) (use m'(2) in \<open>auto simp: pool_inv_def\<close>)
      moreover have "removeCallback env c i m = Inr (False, m)" using ITEM_TASK False by (simp add: removeCallback_def)
      ultimately show ?thesis using m' ITEM_TASK False by simp
    qed
  next
    case (ITEM_EVENT ev c')
    then have "removeCallback env c i m = Inr (False, m)" by (simp add: removeCallback_def)
    then show ?thesis using Cons ITEM_EVENT by (auto elim!: returnsE)
  next
    case (ITEM_DATA d)
    then have "removeCallback env c i m = Inr (False, m)" by (simp add: removeCallback_def)
    then show ?thesis using Cons ITEM_DATA by (auto elim!: returnsE)
  next
    case ITEM_EXIT
    then have "removeCallback env c i m = Inr (False, m)" by (simp add: removeCallback_def)
    then show ?thesis using Cons ITEM_EXIT by (auto elim!: returnsE)
  next
    case ITEM_UNDEFINED
    then have "removeCallback env c i m = Inr (False, m)" by (simp add: removeCallback_def)
    then show ?thesis using Cons ITEM_UNDEFINED by (auto elim!: returnsE)
  qed
qed

lemma sweep_events: "a_sweep (\<lambda>it u. bnd (WriterRemove c it) (\<lambda>b. Inr (b, u))) is () = Inr (filter (\<lambda>it. \<not> event_for c it) is, ())"
proof -
  have w: "WriterRemove c it = Inr (event_for c it)" for it by (cases it) (simp_all add: WriterRemove_def)
  show ?thesis by (induction "is") (simp_all add: w)
qed

section \<open>Reports\<close>

text \<open>The handlers of \<open>FREE_EVENT\<close> work on the user's data only.\<close>

definition frees_quietly :: "penv \<Rightarrow> ('f, 'd, 'x) ucallbacks \<Rightarrow> ('f, 'd) cobj \<Rightarrow> bool" where
  "frees_quietly env ucb co \<longleftrightarrow> (\<forall>k. \<exists>x. call_all (pipe_cb env ucb) FREE_EVENT (co_handlers co FREE_EVENT) k = Inr (upd_pipe (\<lambda>p. p\<lparr>pp_ext := x\<rparr>) k))"

text \<open>
  \<open>leaving env ucb cfg pc m co\<close>: a connection of the pool \<open>pc\<close>, whose two buffers it holds, between two
  operations.
\<close>

definition leaving ::
  "penv \<Rightarrow> ('f, 'd, 'x) ucallbacks \<Rightarrow> int \<times> int \<Rightarrow> int \<Rightarrow> nat \<Rightarrow> nat list \<Rightarrow> nat list \<Rightarrow> bool \<Rightarrow> nat \<Rightarrow> ('f, 'd) cobj \<Rightarrow>
   ('f, 'd, 'x) psys \<Rightarrow> bool" where
  "leaving env ucb cfg n pc fs os e c co s \<longleftrightarrow> conn_inv (pe_fuel env) (focus c co s) \<and> \<not> cn_isFactory (co_conn co) \<and> frees_quietly env ucb co \<and>
     (\<exists>rb wb. cn_readBuffer (co_conn co) = Some rb \<and> cn_writeBuffer (co_conn co) = Some wb \<and> pool_inv cfg n pc (ps_mem s) fs (wb # rb # os) e)"

definition two_bufs :: "('f, 'd) cobj \<Rightarrow> nat list" where
  "two_bufs co = [the (cn_readBuffer (co_conn co)), the (cn_writeBuffer (co_conn co))]"

abbreviation closed_set :: "('f, 'd) cobj \<Rightarrow> owner set \<Rightarrow> ('f, 'd) cobj" where
  "closed_set co A \<equiv> co\<lparr>co_conn := (co_conn co)\<lparr>cn_closedBy := (\<lambda>i. i \<in> A)\<rparr>\<rparr>"

lemma free_conn_leaving:
  assumes env: "calm_env env" and c: "ps_conns s = B(c \<mapsto> co)" "B c = None" and l: "leaving env ucb cfg n pc fs os e c co s"
  shows "returns (free_conn env ucb c s) (\<lambda>s'. ps_conns s' = B \<and> pool_inv cfg n pc (ps_mem s') (fs @ two_bufs co) os e \<and>
    foreign pc {} (ps_mem s) (ps_mem s') \<and> ps_raised s' = ps_raised s \<and> (\<exists>x. ps_pipe s' = (ps_pipe s)\<lparr>pp_self := c, pp_ext := x\<rparr>))"
proof -
  let ?w = "focus c co s"
  obtain rb wb where i: "conn_inv (pe_fuel env) ?w" "\<not> cn_isFactory (w_conn ?w)" "cn_readBuffer (w_conn ?w) = Some rb"
    "cn_writeBuffer (w_conn ?w) = Some wb" "pool_inv cfg n pc (k_mem (w_core ?w)) fs (wb # rb # os) e" "frees_quietly env ucb co"
    using l by (auto simp: leaving_def)
  let ?k = "if cn_socket (w_conn ?w) \<noteq> - 1 then (w_core ?w)\<lparr>k_net := k_net (w_core ?w) @ [NetClose]\<rparr> else w_core ?w"
  have k: "k_user ?k = (ps_pipe s)\<lparr>pp_self := c\<rparr>" "k_mem ?k = ps_mem s" "k_conn ?k = co_conn co" "k_addrs ?k = ps_addrs s" "k_raised ?k = ps_raised s"
    by simp_all
  obtain x where x: "call_all (pipe_cb env ucb) FREE_EVENT (conn_handlers ?w FREE_EVENT) ?k = Inr (upd_pipe (\<lambda>p. p\<lparr>pp_ext := x\<rparr>) ?k)"
    using i(6) unfolding frees_quietly_def focus_simps by blast
  have cm: "calm (w_core ?w) (upd_pipe (\<lambda>p. p\<lparr>pp_ext := x\<rparr>) ?k)" "k_mem (upd_pipe (\<lambda>p. p\<lparr>pp_ext := x\<rparr>) ?k) = k_mem (w_core ?w)"
    by (auto simp: upd_pipe_def intro!: calm_same)
  from FreeConnection_calls [OF i(1-5) x cm] obtain k' hu hs p p' m where
    r: "FreeConnection (core_cb (pipe_cb env ucb)) (pe_fuel env) all_ok ?w = Inr (k', hu, hs)"
      "pool_inv cfg n pc (k_mem k') (fs @ [rb, wb]) os e" "k_user k' = (ps_pipe s)\<lparr>pp_self := c, pp_ext := x\<rparr>" "k_raised k' = ps_raised s"
      "ReleaseBuffer all_ok (Some rb) (ps_mem s) = Inr (p, m)" "ReleaseBuffer all_ok (Some wb) m = Inr (p', k_mem k')"
    by (auto simp: upd_pipe_def elim!: returnsE)
  obtain b b' where b: "bm_bufs (ps_mem s) rb = Some b" "b_pool b = Some pc" "bm_bufs (ps_mem s) wb = Some b'" "b_pool b' = Some pc" "wb \<noteq> rb"
    "wb < bm_tick (ps_mem s)"
    using i(5) by (auto simp: pool_inv_def owned_def)
  note f = release_foreign [OF r(5) b(1,2)]
  have "bm_bufs m wb = Some b'" using f(2) b(3,5,6) by simp
  then have "foreign pc {} (ps_mem s) (k_mem k')" using f(1) release_foreign(1) [OF r(6) _ b(4)] by (blast intro: foreign_trans)
  then show ?thesis
    using c r i(3,4) env by (auto simp: free_conn_def two_bufs_def)
qed

lemma foreign_refl [simp]: "foreign pr rs m m"
  by (simp add: foreign_def)

text \<open>What a connection about to be freed does not depend on.\<close>

lemma leaving_transfer:
  assumes l: "leaving env ucb cfg n pc fs os e c co s" and co: "co_sys co' = co_sys co" "co_usr co' = co_usr co" "co_conn co' = (co_conn co)\<lparr>cn_closedBy := A\<rparr>"
    and s: "ps_addrs s' = ps_addrs s" "foreign pr {} (ps_mem s) (ps_mem s')" "pc \<noteq> pr"
  shows "leaving env ucb cfg n pc fs os e c co' s'"
proof -
  let ?w = "focus c co s" and ?w' = "focus c co' s'"
  obtain rb wb where i: "conn_inv (pe_fuel env) ?w" "\<not> cn_isFactory (co_conn co)" "cn_readBuffer (co_conn co) = Some rb"
    "cn_writeBuffer (co_conn co) = Some wb" "pool_inv cfg n pc (ps_mem s) fs (wb # rb # os) e" "frees_quietly env ucb co"
    using l by (auto simp: leaving_def)
  have p: "pool_inv cfg n pc (ps_mem s') fs (wb # rb # os) e" by (rule pool_inv_foreign [OF i(5) s(2,3)])
  have h: "co_handlers co' = co_handlers co" using co(1,2) by (simp add: co_handlers_def fun_eq_iff)
  have b: "bufs_ok (w_core ?w')" using p i(3,4) co(3) by (auto simp: bufs_ok_def buf_ok_def pool_inv_def owned_def)
  note ci = conn_invD [OF i(1)]
  obtain a str where "cn_address (w_conn ?w) = Some a" "k_addrs (w_core ?w) a = Some str" using ci(1) by (rule world_okE)
  moreover have "queues_ok ?w'" using ci(6) co(1,2) by (simp add: queues_ok_def)
  moreover have "\<forall>ev. length (conn_handlers ?w' ev) < pe_fuel env" using ci(7) h by simp
  ultimately have "world_ok (pe_fuel env) ?w'" using b s(1) co(3) by (intro world_okI [of _ _ a str]) simp_all
  moreover have "permitted (w_conn ?w')" using ci(2) co(3) by (simp add: permitted_def)
  ultimately have "conn_inv (pe_fuel env) ?w'" using ci(3-5) co(3) by (simp add: conn_inv_def)
  then show ?thesis using i(2-4,6) p co(3) h by (simp add: leaving_def frees_quietly_def)
qed

section \<open>The threads of a pipe and a connection on its way out\<close>

text \<open>What the three threads hold for their connections, and who has reported.\<close>

record aclose =
  ac_registry :: "(nref \<times> int \<times> op \<times> nat \<times> int) list"
  ac_load :: int
  ac_key :: "nref option"
  ac_tasks :: "nat qitem list"
  ac_free :: "nat list"
  ac_items :: "nat qitem list"
  ac_closed :: "owner set"

fun a_drop :: "nat \<Rightarrow> owner \<Rightarrow> aclose \<Rightarrow> aclose" where
  "a_drop c OWNER_READER a = a\<lparr>ac_registry := (case ac_key a of None \<Rightarrow> ac_registry a | Some k \<Rightarrow> drop_entry True k (ac_registry a)),
     ac_load := ac_load a - 1, ac_key := None\<rparr>"
| "a_drop c OWNER_WORKER a = a\<lparr>ac_tasks := filter (\<lambda>it. \<not> task_of c it) (ac_tasks a),
     ac_free := ac_free a @ task_bufs (filter (task_of c) (ac_tasks a))\<rparr>"
| "a_drop c OWNER_WRITER a = a\<lparr>ac_items := filter (\<lambda>it. \<not> event_for c it) (ac_items a)\<rparr>"
| "a_drop c own a = a"

text \<open>The parts of the pipe; \<open>ow\<close> are the worker's buffers that others hold.\<close>

definition pipe_holds :: "int \<Rightarrow> nat \<Rightarrow> nat list \<Rightarrow> bool \<Rightarrow> aclose \<Rightarrow> ('f, 'd, 'x) psys \<Rightarrow> bool" where
  "pipe_holds n pr ow ew a s \<longleftrightarrow> (\<exists>sel wk wq wr rq.
     rd_selector (the_reader s) = Some sel \<and> sel_inv sel \<and> registry sel = ac_registry a \<and>
     (\<forall>k. ac_key a = Some k \<longrightarrow> k \<in> dom (s_heap sel)) \<and> rd_load (the_reader s) = ac_load a \<and>
     pp_worker (ps_pipe s) = Some wk \<and> wk_queue wk = Some wq \<and> q_inv wq \<and> q_items wq = ac_tasks a \<and>
     pool_inv (16, n) n pr (ps_mem s) (ac_free a) (task_bufs (ac_tasks a) @ ow) ew \<and>
     pp_writer (ps_pipe s) = Some wr \<and> wr_queue wr = Some rq \<and> q_inv rq \<and> q_items rq = ac_items a)"

lemma pipe_holdsE:
  assumes "pipe_holds n pr ow ew a s"
  obtains sel wk wq wr rq where "rd_selector (the_reader s) = Some sel" "sel_inv sel" "registry sel = ac_registry a"
    "\<forall>k. ac_key a = Some k \<longrightarrow> k \<in> dom (s_heap sel)" "rd_load (the_reader s) = ac_load a"
    "pp_worker (ps_pipe s) = Some wk" "wk_queue wk = Some wq" "q_inv wq" "q_items wq = ac_tasks a"
    "pool_inv (16, n) n pr (ps_mem s) (ac_free a) (task_bufs (ac_tasks a) @ ow) ew"
    "pp_writer (ps_pipe s) = Some wr" "wr_queue wr = Some rq" "q_inv rq" "q_items rq = ac_items a"
  using assms unfolding pipe_holds_def by (elim exE conjE) (rule that)

text \<open>Between two reports: the connection \<open>c\<close>, of the pool \<open>pc\<close>, beside the others \<open>B\<close>.\<close>

definition closing ::
  "penv \<Rightarrow> ('f, 'd, 'x) ucallbacks \<Rightarrow> int \<Rightarrow> nat \<Rightarrow> nat list \<Rightarrow> bool \<Rightarrow> int \<times> int \<Rightarrow> int \<Rightarrow> nat \<Rightarrow> nat list \<Rightarrow> nat list \<Rightarrow> bool \<Rightarrow>
   (nat \<rightharpoonup> ('f, 'd) cobj) \<Rightarrow> nat \<Rightarrow> nat list \<Rightarrow> aclose \<Rightarrow> ('f, 'd, 'x) psys \<Rightarrow> bool" where
  "closing env ucb n pr ow ew cfg nc pc fs os e B c bs a s \<longleftrightarrow> pipe_holds n pr ow ew a s \<and>
     (\<exists>co. ps_conns s = B(c \<mapsto> co) \<and> leaving env ucb cfg nc pc fs os e c co s \<and> two_bufs co = bs \<and>
        cn_closedBy (co_conn co) = (\<lambda>i. i \<in> ac_closed a) \<and> co_readKey co = ac_key a)"

lemma closingE:
  assumes "closing env ucb n pr ow ew cfg nc pc fs os e B c bs a s"
  obtains co where "pipe_holds n pr ow ew a s" "ps_conns s = B(c \<mapsto> co)" "leaving env ucb cfg nc pc fs os e c co s" "two_bufs co = bs"
    "cn_closedBy (co_conn co) = (\<lambda>i. i \<in> ac_closed a)" "co_readKey co = ac_key a"
  using assms unfolding closing_def by blast

lemma closingI:
  assumes "pipe_holds n pr ow ew a s" "ps_conns s = B(c \<mapsto> co)" "leaving env ucb cfg nc pc fs os e c co s" "two_bufs co = bs"
    "cn_closedBy (co_conn co) = (\<lambda>i. i \<in> ac_closed a)" "co_readKey co = ac_key a"
  shows "closing env ucb n pr ow ew cfg nc pc fs os e B c bs a s"
  using assms unfolding closing_def by blast

lemma upd_reader_simps [simp]:
  "the_reader (upd_reader g s) = g (the_reader s)" "ps_conns (upd_reader g s) = ps_conns s" "ps_mem (upd_reader g s) = ps_mem s"
  "ps_addrs (upd_reader g s) = ps_addrs s" "ps_raised (upd_reader g s) = ps_raised s"
  "pp_worker (ps_pipe (upd_reader g s)) = pp_worker (ps_pipe s)" "pp_writer (ps_pipe (upd_reader g s)) = pp_writer (ps_pipe s)"
  "pp_ext (ps_pipe (upd_reader g s)) = pp_ext (ps_pipe s)"
  by (simp_all add: upd_reader_def)

lemma same_conn: "cn_closedBy (co_conn co) = A \<Longrightarrow> co_conn co = (co_conn co)\<lparr>cn_closedBy := A\<rparr>"
  by (cases "co_conn co") simp

lemma reader_drops:
  assumes cl: "closing env ucb n pr ow ew cfg nc pc fs os e B c bs a s" and ld: "is_int (ac_load a - 1)" and pp: "pc \<noteq> pr"
  shows "\<exists>s1. reader_close env ucb c s = report_and_free env ucb OWNER_READER c s1 \<and>
    closing env ucb n pr ow ew cfg nc pc fs os e B c bs (a_drop c OWNER_READER a) s1 \<and> ps_raised s1 = ps_raised s"
proof -
  obtain co where co: "pipe_holds n pr ow ew a s" "ps_conns s = B(c \<mapsto> co)" "leaving env ucb cfg nc pc fs os e c co s" "two_bufs co = bs"
    "cn_closedBy (co_conn co) = (\<lambda>i. i \<in> ac_closed a)" "co_readKey co = ac_key a" using cl by (rule closingE)
  obtain sel wk wq wr rq where p: "rd_selector (the_reader s) = Some sel" "sel_inv sel" "registry sel = ac_registry a"
    "\<forall>k. ac_key a = Some k \<longrightarrow> k \<in> dom (s_heap sel)" "rd_load (the_reader s) = ac_load a"
    "pp_worker (ps_pipe s) = Some wk" "wk_queue wk = Some wq" "q_inv wq" "q_items wq = ac_tasks a"
    "pool_inv (16, n) n pr (ps_mem s) (ac_free a) (task_bufs (ac_tasks a) @ ow) ew"
    "pp_writer (ps_pipe s) = Some wr" "wr_queue wr = Some rq" "q_inv rq" "q_items rq = ac_items a" using co(1) by (rule pipe_holdsE)
  have leave: "leaving env ucb cfg nc pc fs os e c co' s'" if "co_sys co' = co_sys co" "co_usr co' = co_usr co" "co_conn co' = co_conn co"
    "ps_addrs s' = ps_addrs s" "ps_mem s' = ps_mem s" for co' s'
    by (rule leaving_transfer [OF co(3), where A = "\<lambda>i. i \<in> ac_closed a"]) (use that pp same_conn [OF co(5)] in simp_all)
  show ?thesis
  proof (cases "ac_key a")
    case None
    let ?s = "upd_reader (\<lambda>r. r\<lparr>rd_load := ac_load a - 1\<rparr>) s"
    have "leaving env ucb cfg nc pc fs os e c co ?s" by (rule leave) simp_all
    moreover have ph: "pipe_holds n pr ow ew (a_drop c OWNER_READER a) ?s" using p None by (simp add: pipe_holds_def)
    ultimately have cl': "closing env ucb n pr ow ew cfg nc pc fs os e B c bs (a_drop c OWNER_READER a) ?s"
      by (intro closingI [where co = co]) (use co None in simp_all)
    moreover have "reader_close env ucb c s = report_and_free env ucb OWNER_READER c ?s"
      using co(2,6) None p(5) ld by (simp add: reader_close_def)
    ultimately show ?thesis by (intro exI [of _ ?s]) simp
  next
    case (Some k)
    obtain l sel' where u: "Unregister sel k True = Inr (l, sel')" "sel_inv sel'" "registry sel' = drop_entry True k (ac_registry a)"
      using Unregister_correct [OF p(2), of k True] p(3,4) Some by (auto elim!: returnsE)
    let ?co = "co\<lparr>co_readKey := None\<rparr>"
    let ?s = "upd_reader (\<lambda>r. r\<lparr>rd_load := ac_load a - 1\<rparr>) ((upd_reader (\<lambda>r. r\<lparr>rd_selector := Some sel'\<rparr>) s)\<lparr>ps_conns := B(c \<mapsto> ?co)\<rparr>)"
    have "leaving env ucb cfg nc pc fs os e c ?co ?s" by (rule leave) simp_all
    moreover have ph: "pipe_holds n pr ow ew (a_drop c OWNER_READER a) ?s" using p Some u by (simp add: pipe_holds_def)
    ultimately have cl': "closing env ucb n pr ow ew cfg nc pc fs os e B c bs (a_drop c OWNER_READER a) ?s"
      by (intro closingI [where co = ?co]) (use co Some in \<open>simp_all add: two_bufs_def\<close>)
    moreover have "reader_close env ucb c s = report_and_free env ucb OWNER_READER c ?s"
      using co(2,6) Some p(1,5) u(1) ld by (simp add: reader_close_def set_readKey_def)
    ultimately show ?thesis by (intro exI [of _ ?s]) simp
  qed
qed

lemma worker_drops:
  assumes env: "calm_env env" and cl: "closing env ucb n pr ow ew cfg nc pc fs os e B c bs a s" and pp: "pc \<noteq> pr"
  shows "\<exists>s1. worker_close env ucb c s = report_and_free env ucb OWNER_WORKER c s1 \<and>
    closing env ucb n pr ow ew cfg nc pc fs os e B c bs (a_drop c OWNER_WORKER a) s1 \<and> ps_raised s1 = ps_raised s"
proof -
  obtain co where co: "pipe_holds n pr ow ew a s" "ps_conns s = B(c \<mapsto> co)" "leaving env ucb cfg nc pc fs os e c co s" "two_bufs co = bs"
    "cn_closedBy (co_conn co) = (\<lambda>i. i \<in> ac_closed a)" "co_readKey co = ac_key a" using cl by (rule closingE)
  obtain sel wk wq wr rq where p: "rd_selector (the_reader s) = Some sel" "sel_inv sel" "registry sel = ac_registry a"
    "\<forall>k. ac_key a = Some k \<longrightarrow> k \<in> dom (s_heap sel)" "rd_load (the_reader s) = ac_load a"
    "pp_worker (ps_pipe s) = Some wk" "wk_queue wk = Some wq" "q_inv wq" "q_items wq = ac_tasks a"
    "pool_inv (16, n) n pr (ps_mem s) (ac_free a) (task_bufs (ac_tasks a) @ ow) ew"
    "pp_writer (ps_pipe s) = Some wr" "wr_queue wr = Some rq" "q_inv rq" "q_items rq = ac_items a" using co(1) by (rule pipe_holdsE)
  obtain m where m: "a_sweep (removeCallback env c) (q_items wq) (ps_mem s) = Inr (filter (\<lambda>it. \<not> task_of c it) (q_items wq), m)"
    "pool_inv (16, n) n pr m (ac_free a @ task_bufs (filter (task_of c) (q_items wq))) (task_bufs (filter (\<lambda>it. \<not> task_of c it) (q_items wq)) @ ow) ew"
    "foreign pr {} (ps_mem s) m"
    using sweep_tasks [OF env p(10), of c] p(9) by (auto elim!: returnsE)
  obtain b wq' where wq': "RemoveAll wq (removeCallback env c) (ps_mem s) = Inr (b, wq', m)" "q_inv wq'"
    "q_items wq' = filter (\<lambda>it. \<not> task_of c it) (q_items wq)"
    using RemoveAll_seq [OF p(8), of "removeCallback env c" "ps_mem s"] m(1) by (auto simp: abs_queue_def elim!: returnsE)
  let ?s = "on_pipe (\<lambda>p. p\<lparr>pp_worker := Some (wk\<lparr>wk_queue := Some wq'\<rparr>)\<rparr>) (s\<lparr>ps_mem := m\<rparr>)"
  have "leaving env ucb cfg nc pc fs os e c co ?s"
    by (rule leaving_transfer [OF co(3), where A = "\<lambda>i. i \<in> ac_closed a"]) (use m(3) pp same_conn [OF co(5)] in simp_all)
  moreover have ph: "pipe_holds n pr ow ew (a_drop c OWNER_WORKER a) ?s" using p m(2) wq' by (simp add: pipe_holds_def)
  ultimately have cl': "closing env ucb n pr ow ew cfg nc pc fs os e B c bs (a_drop c OWNER_WORKER a) ?s"
    by (intro closingI [where co = co]) (use co in simp_all)
  moreover have "worker_close env ucb c s = report_and_free env ucb OWNER_WORKER c ?s"
    using p(6,7) wq'(1) by (simp add: worker_close_def get_worker_queue_def put_worker_def)
  ultimately show ?thesis by (intro exI [of _ ?s]) simp
qed

lemma writer_drops:
  assumes cl: "closing env ucb n pr ow ew cfg nc pc fs os e B c bs a s" and pp: "pc \<noteq> pr"
  shows "\<exists>s1. writer_close env ucb c s = report_and_free env ucb OWNER_WRITER c s1 \<and>
    closing env ucb n pr ow ew cfg nc pc fs os e B c bs (a_drop c OWNER_WRITER a) s1 \<and> ps_raised s1 = ps_raised s"
proof -
  obtain co where co: "pipe_holds n pr ow ew a s" "ps_conns s = B(c \<mapsto> co)" "leaving env ucb cfg nc pc fs os e c co s" "two_bufs co = bs"
    "cn_closedBy (co_conn co) = (\<lambda>i. i \<in> ac_closed a)" "co_readKey co = ac_key a" using cl by (rule closingE)
  obtain sel wk wq wr rq where p: "rd_selector (the_reader s) = Some sel" "sel_inv sel" "registry sel = ac_registry a"
    "\<forall>k. ac_key a = Some k \<longrightarrow> k \<in> dom (s_heap sel)" "rd_load (the_reader s) = ac_load a"
    "pp_worker (ps_pipe s) = Some wk" "wk_queue wk = Some wq" "q_inv wq" "q_items wq = ac_tasks a"
    "pool_inv (16, n) n pr (ps_mem s) (ac_free a) (task_bufs (ac_tasks a) @ ow) ew"
    "pp_writer (ps_pipe s) = Some wr" "wr_queue wr = Some rq" "q_inv rq" "q_items rq = ac_items a" using co(1) by (rule pipe_holdsE)
  obtain b rq' where rq': "RemoveAll rq (\<lambda>it u. bnd (WriterRemove c it) (\<lambda>b. Inr (b, u))) () = Inr (b, rq', ())" "q_inv rq'"
    "q_items rq' = filter (\<lambda>it. \<not> event_for c it) (q_items rq)"
    using RemoveAll_seq [OF p(13), of "\<lambda>it u. bnd (WriterRemove c it) (\<lambda>b. Inr (b, u))" "()"] sweep_events [of c "q_items rq"]
    by (auto simp: abs_queue_def elim!: returnsE)
  let ?s = "on_pipe (\<lambda>p. p\<lparr>pp_writer := Some (wr\<lparr>wr_queue := Some rq'\<rparr>)\<rparr>) s"
  have "leaving env ucb cfg nc pc fs os e c co ?s"
    by (rule leaving_transfer [OF co(3), where A = "\<lambda>i. i \<in> ac_closed a"]) (use pp same_conn [OF co(5)] in simp_all)
  moreover have ph: "pipe_holds n pr ow ew (a_drop c OWNER_WRITER a) ?s" using p rq' by (simp add: pipe_holds_def)
  ultimately have cl': "closing env ucb n pr ow ew cfg nc pc fs os e B c bs (a_drop c OWNER_WRITER a) ?s"
    by (intro closingI [where co = co]) (use co in simp_all)
  moreover have "writer_close env ucb c s = report_and_free env ucb OWNER_WRITER c ?s"
    using p(11,12) rq'(1) by (simp add: writer_close_def get_writer_queue_def put_writer_queue_def)
  ultimately show ?thesis by (intro exI [of _ ?s]) simp
qed

section \<open>The protocol\<close>

fun pipe_close :: "penv \<Rightarrow> ('f, 'd, 'x) ucallbacks \<Rightarrow> nat \<Rightarrow> owner \<Rightarrow> ('f, 'd, 'x) psys \<Rightarrow> ('f, 'd, 'x) psys res" where
  "pipe_close env ucb c OWNER_READER s = reader_close env ucb c s"
| "pipe_close env ucb c OWNER_WORKER s = worker_close env ucb c s"
| "pipe_close env ucb c OWNER_WRITER s = writer_close env ucb c s"
| "pipe_close env ucb c own s = report_and_free env ucb own c s"

fun close_in_turn :: "penv \<Rightarrow> ('f, 'd, 'x) ucallbacks \<Rightarrow> nat \<Rightarrow> owner list \<Rightarrow> ('f, 'd, 'x) psys \<Rightarrow> ('f, 'd, 'x) psys res" where
  "close_in_turn env ucb c [] s = Inr s"
| "close_in_turn env ucb c (own # owns) s = bnd (pipe_close env ucb c own s) (close_in_turn env ucb c owns)"

lemma pipe_close_drops:
  assumes env: "calm_env env" and cl: "closing env ucb n pr ow ew cfg nc pc fs os e B c bs a s" and pp: "pc \<noteq> pr"
    and ld: "own = OWNER_READER \<Longrightarrow> is_int (ac_load a - 1)"
  shows "\<exists>s1. pipe_close env ucb c own s = report_and_free env ucb own c s1 \<and>
    closing env ucb n pr ow ew cfg nc pc fs os e B c bs (a_drop c own a) s1 \<and> ps_raised s1 = ps_raised s"
proof (cases own)
  case OWNER_READER
  then show ?thesis using reader_drops [OF cl ld pp] by simp
next
  case OWNER_WORKER
  then show ?thesis using worker_drops [OF env cl pp] by simp
next
  case OWNER_WRITER
  then show ?thesis using writer_drops [OF cl pp] by simp
qed (use cl in auto)

lemma pipe_holds_transfer:
  assumes "pipe_holds n pr ow ew a s" "the_reader s' = the_reader s" "pp_worker (ps_pipe s') = pp_worker (ps_pipe s)"
    "pp_writer (ps_pipe s') = pp_writer (ps_pipe s)" "foreign pc {} (ps_mem s) (ps_mem s')" "pc \<noteq> pr"
    and a: "ac_registry a' = ac_registry a" "ac_load a' = ac_load a" "ac_key a' = ac_key a" "ac_tasks a' = ac_tasks a"
      "ac_free a' = ac_free a" "ac_items a' = ac_items a"
  shows "pipe_holds n pr ow ew a' s'"
proof -
  have "pool_inv (16, n) n pr (ps_mem s') (ac_free a) (task_bufs (ac_tasks a) @ ow) ew"
    by (rule pipe_holdsE [OF assms(1)]) (use pool_inv_foreign assms(5,6) in metis)
  then show ?thesis using assms(1) unfolding pipe_holds_def assms(2-4) a by blast
qed

lemma unfocus_closed_by:
  assumes "cn_closedByLock (co_conn co) = Some free_lock" "ps_conns s = B(c \<mapsto> co)"
  shows "unfocus c (co_readKey co) (closed_by A (focus c co s)) s =
    s\<lparr>ps_conns := B(c \<mapsto> closed_set co A), ps_pipe := (ps_pipe s)\<lparr>pp_self := c\<rparr>\<rparr>"
proof -
  have "(co_conn co)\<lparr>cn_closedBy := (\<lambda>i. i \<in> A), cn_closedByLock := Some free_lock\<rparr> = (co_conn co)\<lparr>cn_closedBy := (\<lambda>i. i \<in> A)\<rparr>"
    using assms(1) by (cases "co_conn co") simp
  then have "\<lparr>co_sys = co_sys co, co_usr = co_usr co,
      co_conn = (co_conn co)\<lparr>cn_closedBy := (\<lambda>i. i \<in> A), cn_closedByLock := Some free_lock\<rparr>, co_net = co_net co, co_readKey = co_readKey co\<rparr> = closed_set co A"
    by (cases co) simp
  then show ?thesis using assms(2) by (cases s) (simp add: unfocus_def closed_by_def upd_core_def upd_conn_def focus_def)
qed

text \<open>The report after the drop: another owner is still to come, or the connection is freed.\<close>

lemma report_waits:
  assumes cl: "closing env ucb n pr ow ew cfg nc pc fs os e B c bs a s" and pp: "pc \<noteq> pr" and A: "insert own (ac_closed a) \<noteq> UNIV"
  shows "\<exists>s1. report_and_free env ucb own c s = Inr s1 \<and>
    closing env ucb n pr ow ew cfg nc pc fs os e B c bs (a\<lparr>ac_closed := insert own (ac_closed a)\<rparr>) s1 \<and> ps_raised s1 = ps_raised s"
proof -
  obtain co where co: "pipe_holds n pr ow ew a s" "ps_conns s = B(c \<mapsto> co)" "leaving env ucb cfg nc pc fs os e c co s" "two_bufs co = bs"
    "cn_closedBy (co_conn co) = (\<lambda>i. i \<in> ac_closed a)" "co_readKey co = ac_key a" using cl by (rule closingE)
  have l: "cn_closedByLock (co_conn co) = Some free_lock" using co(3) conn_invD(4) [of "pe_fuel env" "focus c co s"] by (simp add: leaving_def)
  let ?co = "closed_set co (insert own (ac_closed a))"
  let ?s = "s\<lparr>ps_conns := B(c \<mapsto> ?co), ps_pipe := (ps_pipe s)\<lparr>pp_self := c\<rparr>\<rparr>"
  have "closed_by (ac_closed a) (focus c co s) = focus c co s"
    using l same_conn [OF co(5)] by (simp add: closed_by_def upd_core_def upd_conn_def focus_def)
  with ConnectionNoMoreUsed_closed_by [of own "ac_closed a" "focus c co s"]
  have r: "ConnectionNoMoreUsed own (focus c co s) = Inr (False, closed_by (insert own (ac_closed a)) (focus c co s))"
    using A by simp
  have "unfocus c (co_readKey co) (closed_by (insert own (ac_closed a)) (focus c co s)) s = ?s"
    by (rule unfocus_closed_by [OF l co(2)])
  then have 1: "report_and_free env ucb own c s = Inr ?s"
    using co(2) r by (simp add: report_and_free_def with_conn_def)
  have 2: "leaving env ucb cfg nc pc fs os e c ?co ?s"
    by (rule leaving_transfer [OF co(3), where A = "\<lambda>i. i \<in> insert own (ac_closed a)"]) (use pp in simp_all)
  have 3: "pipe_holds n pr ow ew (a\<lparr>ac_closed := insert own (ac_closed a)\<rparr>) ?s"
    by (rule pipe_holds_transfer [OF co(1), where pc = pc]) (use pp in simp_all)
  have "closing env ucb n pr ow ew cfg nc pc fs os e B c bs (a\<lparr>ac_closed := insert own (ac_closed a)\<rparr>) ?s"
    by (rule closingI [OF 3 _ 2]) (use co(4,6) in \<open>simp_all add: two_bufs_def\<close>)
  with 1 show ?thesis by (intro exI [of _ ?s]) simp
qed

lemma report_frees:
  assumes env: "calm_env env" and cl: "closing env ucb n pr ow ew cfg nc pc fs os e B c bs a s" and pp: "pc \<noteq> pr" and A: "insert own (ac_closed a) = UNIV"
    and B: "B c = None"
  shows "\<exists>s1. report_and_free env ucb own c s = Inr s1 \<and> pipe_holds n pr ow ew a s1 \<and> ps_conns s1 = B \<and>
    pool_inv cfg nc pc (ps_mem s1) (fs @ bs) os e \<and> ps_raised s1 = ps_raised s"
proof -
  obtain co where co: "pipe_holds n pr ow ew a s" "ps_conns s = B(c \<mapsto> co)" "leaving env ucb cfg nc pc fs os e c co s" "two_bufs co = bs"
    "cn_closedBy (co_conn co) = (\<lambda>i. i \<in> ac_closed a)" "co_readKey co = ac_key a" using cl by (rule closingE)
  have l: "cn_closedByLock (co_conn co) = Some free_lock" using co(3) conn_invD(4) [of "pe_fuel env" "focus c co s"] by (simp add: leaving_def)
  let ?co = "closed_set co {}"
  let ?s = "s\<lparr>ps_conns := B(c \<mapsto> ?co), ps_pipe := (ps_pipe s)\<lparr>pp_self := c\<rparr>\<rparr>"
  have "closed_by (ac_closed a) (focus c co s) = focus c co s"
    using l same_conn [OF co(5)] by (simp add: closed_by_def upd_core_def upd_conn_def focus_def)
  with ConnectionNoMoreUsed_closed_by [of own "ac_closed a" "focus c co s"]
  have r: "ConnectionNoMoreUsed own (focus c co s) = Inr (True, closed_by {} (focus c co s))"
    using A by simp
  have "unfocus c (co_readKey co) (closed_by {} (focus c co s)) s = ?s"
    by (rule unfocus_closed_by [OF l co(2)])
  then have 1: "report_and_free env ucb own c s = free_conn env ucb c ?s"
    using co(2) r by (simp add: report_and_free_def with_conn_def)
  have 2: "leaving env ucb cfg nc pc fs os e c ?co ?s"
    by (rule leaving_transfer [OF co(3), where A = "\<lambda>i. i \<in> {}"]) (use pp in simp_all)
  have bs: "two_bufs ?co = bs" using co(4) by (simp add: two_bufs_def)
  obtain s1 x where s1: "free_conn env ucb c ?s = Inr s1" "ps_conns s1 = B" "pool_inv cfg nc pc (ps_mem s1) (fs @ bs) os e"
    "foreign pc {} (ps_mem s) (ps_mem s1)" "ps_raised s1 = ps_raised s" "ps_pipe s1 = (ps_pipe s)\<lparr>pp_self := c, pp_ext := x\<rparr>"
    using free_conn_leaving [where B = B and c = c, OF env _ B 2] bs by (auto elim!: returnsE)
  have "pipe_holds n pr ow ew a s1"
    by (rule pipe_holds_transfer [OF co(1) _ _ _ s1(4) pp]) (simp_all add: s1(6))
  then show ?thesis using 1 s1 by (intro exI [of _ s1]) simp
qed

lemma pipe_holds_closed [simp]: "pipe_holds n pr ow ew (a\<lparr>ac_closed := A\<rparr>) s = pipe_holds n pr ow ew a s"
  by (simp add: pipe_holds_def)

lemma a_drop_closed [simp]: "ac_closed (a_drop c own a) = ac_closed a"
  by (cases own) simp_all

lemma a_drop_load: "own \<noteq> OWNER_READER \<Longrightarrow> ac_load (a_drop c own a) = ac_load a"
  by (cases own) simp_all

lemma a_drop_report: "a_drop c own (a\<lparr>ac_closed := A\<rparr>) = (a_drop c own a)\<lparr>ac_closed := A\<rparr>"
  by (cases own) (simp_all split: option.splits)

lemma close_in_turn_seq:
  assumes env: "calm_env env" and pp: "pc \<noteq> pr" and B: "B c = None"
  shows "closing env ucb n pr ow ew cfg nc pc fs os e B c bs a s \<Longrightarrow> distinct (owns @ [own]) \<Longrightarrow>
    (\<forall>i. i \<in> ac_closed a \<longleftrightarrow> i \<notin> set (owns @ [own])) \<Longrightarrow> (OWNER_READER \<in> set (owns @ [own]) \<longrightarrow> is_int (ac_load a - 1)) \<Longrightarrow>
    \<exists>s1. close_in_turn env ucb c (owns @ [own]) s = Inr s1 \<and> pipe_holds n pr ow ew (fold (a_drop c) (owns @ [own]) a) s1 \<and>
      ps_conns s1 = B \<and> pool_inv cfg nc pc (ps_mem s1) (fs @ bs) os e \<and> ps_raised s1 = ps_raised s"
proof (induction owns arbitrary: a s)
  case Nil
  obtain s1 where s1: "pipe_close env ucb c own s = report_and_free env ucb own c s1"
    "closing env ucb n pr ow ew cfg nc pc fs os e B c bs (a_drop c own a) s1" "ps_raised s1 = ps_raised s"
    using pipe_close_drops [OF env Nil(1) pp, of own] Nil(4) by auto
  have "insert own (ac_closed (a_drop c own a)) = UNIV" using Nil(3) by auto
  from report_frees [OF env s1(2) pp this B] obtain s2 where s2: "report_and_free env ucb own c s1 = Inr s2"
    "pipe_holds n pr ow ew (a_drop c own a) s2" "ps_conns s2 = B" "pool_inv cfg nc pc (ps_mem s2) (fs @ bs) os e" "ps_raised s2 = ps_raised s1"
    by blast
  then show ?case using s1 by (intro exI [of _ s2]) simp
next
  case (Cons o1 owns)
  obtain s1 where s1: "pipe_close env ucb c o1 s = report_and_free env ucb o1 c s1"
    "closing env ucb n pr ow ew cfg nc pc fs os e B c bs (a_drop c o1 a) s1" "ps_raised s1 = ps_raised s"
    using pipe_close_drops [OF env Cons.prems(1) pp, of o1] Cons.prems(4) by auto
  have "own \<notin> insert o1 (ac_closed (a_drop c o1 a))" using Cons.prems(2,3) by auto
  then have "insert o1 (ac_closed (a_drop c o1 a)) \<noteq> UNIV" by blast
  from report_waits [OF s1(2) pp this] obtain s2 where s2: "report_and_free env ucb o1 c s1 = Inr s2"
    "closing env ucb n pr ow ew cfg nc pc fs os e B c bs ((a_drop c o1 a)\<lparr>ac_closed := insert o1 (ac_closed a)\<rparr>) s2" "ps_raised s2 = ps_raised s1"
    by auto
  let ?a = "(a_drop c o1 a)\<lparr>ac_closed := insert o1 (ac_closed a)\<rparr>"
  have "\<forall>i. i \<in> ac_closed ?a \<longleftrightarrow> i \<notin> set (owns @ [own])" using Cons.prems(2,3) by auto
  moreover have "OWNER_READER \<in> set (owns @ [own]) \<longrightarrow> is_int (ac_load ?a - 1)"
  proof
    assume r: "OWNER_READER \<in> set (owns @ [own])"
    then have "o1 \<noteq> OWNER_READER" using Cons.prems(2) by auto
    then show "is_int (ac_load ?a - 1)" using r Cons.prems(4) by (simp add: a_drop_load)
  qed
  moreover have "fold (a_drop c) os' (a'\<lparr>ac_closed := A\<rparr>) = (fold (a_drop c) os' a')\<lparr>ac_closed := A\<rparr>" for os' a' A
    by (induction os' arbitrary: a') (simp_all add: a_drop_report)
  ultimately show ?case using Cons.IH [OF s2(2)] Cons.prems(2) s1(1,3) s2(1,3) by (auto simp: a_drop_report)
qed

text \<open>
  C2. The end of a connection in a pipe. In whatever order the reader, the worker and the writer
  handle \<open>CLOSE_EVENT\<close> (the acceptor and the client having reported), none of them touches a freed
  connection, the last one frees it, and the result is the same: the connection is gone and nothing else
  is, its descriptor is no longer registered, the reader's load is one less, the queues of the worker and of
  the writer hold what they held but for what concerned this connection, in the same order, the buffers of
  the tasks that were dropped are back in the worker's pool and the two buffers of the connection in its own.
\<close>

theorem connection_closes_once:
  fixes s :: "('f, 'd, 'x) psys"
  assumes "calm_env env" "pc \<noteq> pr" "B c = None" "closing env ucb n pr ow ew cfg nc pc fs os e B c bs a s"
    and "ac_closed a = {OWNER_ACCEPTOR, OWNER_CLIENT}" "is_int (ac_load a - 1)"
    and "distinct owns" "set owns = {OWNER_READER, OWNER_WORKER, OWNER_WRITER}"
  shows "\<exists>s' sel wk wq wr rq. close_in_turn env ucb c owns s = Inr s' \<and> ps_conns s' = B \<and> ps_raised s' = ps_raised s \<and>
    rd_selector (the_reader s') = Some sel \<and> sel_inv sel \<and>
    registry sel = (case ac_key a of None \<Rightarrow> ac_registry a | Some k \<Rightarrow> drop_entry True k (ac_registry a)) \<and>
    rd_load (the_reader s') = ac_load a - 1 \<and>
    pp_worker (ps_pipe s') = Some wk \<and> wk_queue wk = Some wq \<and> q_inv wq \<and> q_items wq = [it \<leftarrow> ac_tasks a. \<not> task_of c it] \<and>
    pp_writer (ps_pipe s') = Some wr \<and> wr_queue wr = Some rq \<and> q_inv rq \<and> q_items rq = [it \<leftarrow> ac_items a. \<not> event_for c it] \<and>
    pool_inv (16, n) n pr (ps_mem s') (ac_free a @ task_bufs [it \<leftarrow> ac_tasks a. task_of c it]) (task_bufs (q_items wq) @ ow) ew \<and>
    pool_inv cfg nc pc (ps_mem s') (fs @ bs) os e"
proof -
  have "length owns = 3" using distinct_card [OF assms(7)] assms(8) by simp
  then obtain x y z where xyz: "owns = [x, y, z]" by (auto simp: length_Suc_conv numeral_eq_Suc)
  then have o: "owns = [x, y] @ [z]" by simp
  have i: "\<forall>i. i \<in> ac_closed a \<longleftrightarrow> i \<notin> set ([x, y] @ [z])"
  proof
    fix i show "i \<in> ac_closed a \<longleftrightarrow> i \<notin> set ([x, y] @ [z])" using assms(5,8) o by (cases i) auto
  qed
  obtain s1 where s1: "close_in_turn env ucb c owns s = Inr s1" "pipe_holds n pr ow ew (fold (a_drop c) owns a) s1"
    "ps_conns s1 = B" "pool_inv cfg nc pc (ps_mem s1) (fs @ bs) os e" "ps_raised s1 = ps_raised s"
    using close_in_turn_seq [OF assms(1-4), of "[x, y]" z] assms(6,7) i o by auto
  let ?a = "a_drop c OWNER_WRITER (a_drop c OWNER_WORKER (a_drop c OWNER_READER a))"
  have "x \<in> {OWNER_READER, OWNER_WORKER, OWNER_WRITER}" "y \<in> {OWNER_READER, OWNER_WORKER, OWNER_WRITER}"
    "z \<in> {OWNER_READER, OWNER_WORKER, OWNER_WRITER}" "x \<noteq> y" "x \<noteq> z" "y \<noteq> z"
    using assms(7,8) xyz by auto
  then have "[x, y, z] \<in> {[OWNER_READER, OWNER_WORKER, OWNER_WRITER], [OWNER_READER, OWNER_WRITER, OWNER_WORKER],
      [OWNER_WORKER, OWNER_READER, OWNER_WRITER], [OWNER_WORKER, OWNER_WRITER, OWNER_READER],
      [OWNER_WRITER, OWNER_READER, OWNER_WORKER], [OWNER_WRITER, OWNER_WORKER, OWNER_READER]}"
    by (elim insertE emptyE) simp_all
  then have "fold (a_drop c) owns a = ?a" unfolding xyz by (elim insertE emptyE) (simp_all split: option.split)
  then have "pipe_holds n pr ow ew ?a s1" using s1(2) by simp
  then show ?thesis
    by (rule pipe_holdsE) (use s1(1,3-5) in \<open>auto split: option.splits\<close>)
qed

text \<open>A pipe with a task of the connection 7 and one of another connection in its worker's queue.\<close>

definition closing_conn :: "(unit, unit) cobj" where
  "closing_conn = \<lparr>co_sys = Some new_equeue, co_usr = Some new_equeue,
     co_conn = (w_conn (sample_world STATE_CLOSED small_buffer small_buffer new_equeue))\<lparr>cn_readBuffer := Some 1, cn_writeBuffer := Some 2,
       cn_closedBy := (\<lambda>i. i \<in> {OWNER_ACCEPTOR, OWNER_CLIENT})\<rparr>, co_net = [], co_readKey = None\<rparr>"

definition closing_psys :: "nat queue \<Rightarrow> (unit, unit, unit) psys" where
  "closing_psys q = \<lparr>ps_conns = [7 \<mapsto> closing_conn],
     ps_mem = \<lparr>bm_bufs = [1 \<mapsto> small_buffer\<lparr>b_pool := Some 1\<rparr>, 2 \<mapsto> small_buffer\<lparr>b_pool := Some 1\<rparr>,
         3 \<mapsto> small_buffer\<lparr>b_pool := Some 0\<rparr>, 4 \<mapsto> small_buffer\<lparr>b_pool := Some 0\<rparr>],
       bm_pools = [0 \<mapsto> \<lparr>p_buffers = Some new_queue, p_batch = 16, p_bufferSize = 8\<rparr>, 1 \<mapsto> \<lparr>p_buffers = Some new_queue, p_batch = 16, p_bufferSize = 8\<rparr>],
       bm_tick = 5, bm_items = 0\<rparr>,
     ps_addrs = [0 \<mapsto> ''[::1]:80''], ps_raised = [],
     ps_pipe = \<lparr>pp_self = 0, pp_reader = \<lparr>rd_name = None, rd_pipe = None, rd_thread = None, rd_queue = None,
         rd_selector = Some (new_selector 3 4), rd_load = 1, rd_bufferSize = 8\<rparr>,
       pp_worker = Some \<lparr>wk_name = None, wk_pipe = None, wk_thread = None, wk_bufferSize = 8, wk_queue = Some q, wk_pool = Some 0\<rparr>,
       pp_writer = Some \<lparr>wr_name = None, wr_thread = None, wr_bufferSize = 8, wr_queue = Some new_queue\<rparr>, pp_ext = ()\<rparr>\<rparr>"

definition closing_view :: aclose where
  "closing_view = \<lparr>ac_registry = [], ac_load = 1, ac_key = None, ac_tasks = [ITEM_TASK READ_EVENT 7 3, ITEM_TASK READ_EVENT 9 4], ac_free = [],
     ac_items = [], ac_closed = {OWNER_ACCEPTOR, OWNER_CLIENT}\<rparr>"

lemma sample_closing:
  assumes q: "q_inv q" "q_items q = [ITEM_TASK READ_EVENT 7 3, ITEM_TASK READ_EVENT 9 4]"
  shows "closing sample_penv (\<lambda>_ _ _ k. Inr k) 8 0 [] False (16, 8) 8 1 [] [] False Map.empty 7 [1, 2] closing_view (closing_psys q)"
proof -
  let ?s = "closing_psys q" and ?b = "\<lambda>p. small_buffer\<lparr>b_pool := Some p\<rparr>"
  have b: "owned 8 p (?b p)" for p using small_buffer_inv by (simp add: owned_def buf_inv_def small_buffer_def)
  have pools: "pool_inv (16, 8) 8 1 (ps_mem ?s) [] [2, 1] False" "pool_inv (16, 8) 8 0 (ps_mem ?s) [] [3, 4] False"
    using b by (auto simp: pool_inv_def pool_queue_def closing_psys_def a_empty_def)
  have h: "co_handlers closing_conn = (\<lambda>_. [])" by (simp add: co_handlers_def closing_conn_def new_equeue_inv fun_eq_iff)
  have "conn_inv 3 (focus 7 closing_conn ?s)"
    using b [of 1] h unfolding conn_inv_def world_ok_def focus_simps
    by (simp add: queues_ok_def bufs_ok_def buf_ok_def permitted_def focus_def closing_conn_def closing_psys_def sample_world_def
        new_equeue_inv permissions_def owned_def)
  then have l: "leaving sample_penv (\<lambda>_ _ _ k. Inr k) (16, 8) 8 1 [] [] False 7 closing_conn ?s"
    using pools(1) h by (simp add: leaving_def sample_penv_def frees_quietly_def closing_conn_def sample_world_def upd_pipe_def)
  have q0: "q_items (new_queue :: nat queue) = []" using new_queue_inv(2) by (metis a_empty_def abs_queue_simps(1) aqueue.select_convs(1))
  have ph: "pipe_holds 8 0 [] False closing_view ?s"
    using q pools(2) q0 new_selector_inv unfolding pipe_holds_def
    by (intro exI [of _ "new_selector 3 4"] exI [of _ "the (pp_worker (ps_pipe ?s))"] exI [of _ q] exI [of _ "the (pp_writer (ps_pipe ?s))"]
        exI [of _ new_queue] conjI) (simp_all add: closing_psys_def closing_view_def)
  show ?thesis
    by (rule closingI [OF ph _ l]) (simp_all add: closing_psys_def closing_conn_def closing_view_def two_bufs_def sample_world_def)
qed

theorem connection_closes_once_witness:
  "\<exists>q s' wk wq. close_in_turn sample_penv (\<lambda>_ _ _ k. Inr k) 7 [OWNER_WRITER, OWNER_READER, OWNER_WORKER] (closing_psys q) = Inr s' \<and>
     ps_conns s' = Map.empty \<and> rd_load (the_reader s') = 0 \<and> pp_worker (ps_pipe s') = Some wk \<and> wk_queue wk = Some wq \<and>
     q_items wq = [ITEM_TASK READ_EVENT 9 4] \<and> pool_inv (16, 8) 8 1 (ps_mem s') [1, 2] [] False"
proof -
  have "abs_queue (new_queue :: nat queue) = \<lparr>a_items = [], a_exit = False, a_emptied = False\<rparr>"
    by (simp add: a_empty_def)
  from Enqueue_open [OF new_queue_inv(1) this, of "ITEM_TASK READ_EVENT 7 3"] obtain q1 :: "nat queue" where
    q1: "q_inv q1" "abs_queue q1 = \<lparr>a_items = [ITEM_TASK READ_EVENT 7 3], a_exit = False, a_emptied = False\<rparr>" by (auto simp: is_exit_def)
  from Enqueue_open [OF q1, of "ITEM_TASK READ_EVENT 9 4"] obtain q :: "nat queue" where
    q: "q_inv q" "q_items q = [ITEM_TASK READ_EVENT 7 3, ITEM_TASK READ_EVENT 9 4]" by (auto simp: is_exit_def abs_queue_def)
  have i: "is_int (ac_load closing_view - 1)" by (simp add: closing_view_def is_int_def INT_MIN_def INT_MAX_def)
  have o: "distinct [OWNER_WRITER, OWNER_READER, OWNER_WORKER]"
    "set [OWNER_WRITER, OWNER_READER, OWNER_WORKER] = {OWNER_READER, OWNER_WORKER, OWNER_WRITER}" by auto
  have a: "ac_closed closing_view = {OWNER_ACCEPTOR, OWNER_CLIENT}" by (simp add: closing_view_def)
  show ?thesis
    using connection_closes_once [OF sample_penv_calm _ _ sample_closing [OF q] a i o] by (auto simp: closing_view_def)
qed

end
