(* ===== verification/Acceptors.thy ===== *)
theory Acceptors
  imports PipeLife Addresses
begin

text \<open>
  The acceptor of \<open>src/acceptor.c\<close>: a thread that listens on an address, accepts connections and
  spreads them over several pipes. The acceptor is what the handlers of its connections work on
  beside the pipe a connection was handed to.
\<close>

section \<open>State\<close>

text \<open>The handlers of an accepted connection beside those of its pipe: the acceptor's own, and the server's.\<close>

datatype 'g acceptor_handler = AcceptorCloseHandler | ServerHandler 'g

text \<open>The calls with an effect on a socket: those of \<open>fcntl\<close>, \<open>setsockopt\<close>, \<open>bind\<close> and \<open>listen\<close> that succeed, and \<open>close\<close>.\<close>

datatype sock_call = SockNonblock int | SockReuse int | SockBind int address | SockListen int | SockClose int

text \<open>
  The structure \<open>s_Acceptor\<close>. \<open>ac_address\<close> is a reference to the address with its contents;
  \<open>ac_readers\<close> holds the pipes, each behind its reader; the factory stands for the pointer to it.
  \<open>ac_nameOwned\<close> says whether the name was allocated by the program, \<open>ac_calls\<close> lists what
  has been done to its sockets, oldest first. \<open>ac_handed\<close> is the pipe whose structures the handlers of a
  connection have as their argument; \<open>ac_user\<close> belongs to the user's handler.
\<close>

record ('g, 'd, 'x) acceptor =
  ac_name :: "string option"
  ac_nameOwned :: bool
  ac_thread :: "nat option"
  ac_address :: "(nat \<times> address) option"
  ac_socket :: int
  ac_calls :: "sock_call list"
  ac_readers :: "unit pipe option list"
  ac_nbReaders :: int
  ac_selector :: "selector option"
  ac_key :: "nref option"
  ac_factory :: "('g acceptor_handler, 'd) cobj"
  ac_queue :: "nat queue option"
  ac_handed :: "nat \<rightharpoonup> nat"
  ac_user :: 'x

type_synonym ('g, 'd, 'x) apsys = "('g acceptor_handler, 'd, ('g, 'd, 'x) acceptor) psys"

type_synonym ('g, 'd, 'x) acore = "('g, 'd, 'x) acceptor pipe core"

type_synonym ('g, 'd, 'x) ahandler = "'g \<Rightarrow> event \<Rightarrow> 'd option \<Rightarrow> ('g, 'd, 'x) acore \<Rightarrow> ('g, 'd, 'x) acore res"

type_synonym ('g, 'd, 'x) aworld = "('g acceptor_handler, 'd, ('g, 'd, 'x) acceptor) pworld"

abbreviation the_acceptor :: "('g, 'd, 'x) apsys \<Rightarrow> ('g, 'd, 'x) acceptor" where
  "the_acceptor s \<equiv> pp_ext (ps_pipe s)"

definition upd_acceptor ::
  "(('g, 'd, 'x) acceptor \<Rightarrow> ('g, 'd, 'x) acceptor) \<Rightarrow> ('g, 'd, 'x) apsys \<Rightarrow> ('g, 'd, 'x) apsys" where
  "upd_acceptor g s = on_pipe (\<lambda>p. p\<lparr>pp_ext := g (pp_ext p)\<rparr>) s"

section \<open>Working on one of the pipes\<close>

text \<open>
  While something works on a pipe, that pipe stands in the system's place for it; then it goes back
  to its place among the acceptor's.
\<close>

definition with_ext :: "'x \<Rightarrow> 'y pipe \<Rightarrow> 'x pipe" where
  "with_ext x p = \<lparr>pp_self = pp_self p, pp_reader = pp_reader p, pp_worker = pp_worker p, pp_writer = pp_writer p, pp_ext = x\<rparr>"

definition put_pipe :: "unit pipe \<Rightarrow> ('g, 'd, 'x) apsys \<Rightarrow> ('g, 'd, 'x) apsys" where
  "put_pipe p s = on_pipe (\<lambda>old. with_ext (pp_ext old) p) s"

definition get_pipe :: "nat \<Rightarrow> ('g, 'd, 'x) apsys \<Rightarrow> unit pipe res" where
  "get_pipe i s =
     (if i < length (ac_readers (the_acceptor s)) then deref (ac_readers (the_acceptor s) ! i) else Inl Undefined)"

definition store_pipe :: "nat \<Rightarrow> ('g, 'd, 'x) apsys \<Rightarrow> ('g, 'd, 'x) apsys \<Rightarrow> ('g, 'd, 'x) apsys" where
  "store_pipe i s0 s =
     upd_acceptor (\<lambda>ac. ac\<lparr>ac_readers := (ac_readers ac)[i := Some (with_ext () (ps_pipe s))]\<rparr>)
       (put_pipe (with_ext () (ps_pipe s0)) s)"

definition at_pipe ::
  "nat \<Rightarrow> (('g, 'd, 'x) apsys \<Rightarrow> ('g, 'd, 'x) apsys res) \<Rightarrow> ('g, 'd, 'x) apsys \<Rightarrow> ('g, 'd, 'x) apsys res" where
  "at_pipe i g s = bnd (get_pipe i s) (\<lambda>p. bnd (g (put_pipe p s)) (\<lambda>s1. Inr (store_pipe i s s1)))"

text \<open>An operation on a connection, whose handlers work on the pipe that it was handed to.\<close>

definition at_conn ::
  "nat \<Rightarrow> (('g, 'd, 'x) apsys \<Rightarrow> ('g, 'd, 'x) apsys res) \<Rightarrow> ('g, 'd, 'x) apsys \<Rightarrow> ('g, 'd, 'x) apsys res" where
  "at_conn c g s = (case ac_handed (the_acceptor s) c of None \<Rightarrow> g s | Some i \<Rightarrow> at_pipe i g s)"

section \<open>The end of a connection\<close>

definition AcceptorRemoveCallback :: "nat \<Rightarrow> nat qitem \<Rightarrow> bool res" where
  "AcceptorRemoveCallback discriminant item =
     (case QueueItemGetType item of
        QUEUE_ITEM_DATA \<Rightarrow> bnd (QueueDataItemGet item) (\<lambda>c1. Inr (c1 = discriminant))
      | _ \<Rightarrow> Inr False)"

definition AcceptorCloseHandler_run :: "event \<Rightarrow> ('g, 'd, 'x) acore \<Rightarrow> ('g, 'd, 'x) acore res" where
  "AcceptorCloseHandler_run ev k =
     (if ev \<noteq> CLOSE_EVENT then Inr k
      else
        let ac = pp_ext (k_user k); source = pp_self (k_user k) in
        bnd (deref (ac_queue ac)) (\<lambda>q.
        bnd (RemoveAll q (\<lambda>it u. bnd (AcceptorRemoveCallback source it) (\<lambda>b. Inr (b, u))) ()) (\<lambda>(_, q', _).
        report_in_handler OWNER_ACCEPTOR (upd_pipe (\<lambda>p. p\<lparr>pp_ext := ac\<lparr>ac_queue := Some q'\<rparr>\<rparr>) k))))"

fun acceptor_cb ::
  "('g, 'd, 'x) ahandler \<Rightarrow> ('g acceptor_handler, 'd, ('g, 'd, 'x) acceptor) ucallbacks" where
  "acceptor_cb uh AcceptorCloseHandler ev d k = AcceptorCloseHandler_run ev k"
| "acceptor_cb uh (ServerHandler g) ev d k = uh g ev d k"

section \<open>Choosing a pipe\<close>

text \<open>The pipe with the smallest load, the first one of several; the index stays -1 when there is none.\<close>

fun choose_loop :: "int \<Rightarrow> int \<Rightarrow> int \<Rightarrow> unit pipe option list \<Rightarrow> int res" where
  "choose_loop i minLoad choosen [] = Inr choosen"
| "choose_loop i minLoad choosen (r # rs) =
     bnd (deref r) (\<lambda>p.
     let load = rd_load (pp_reader p) in
     if load < minLoad then choose_loop (i + 1) load i rs else choose_loop (i + 1) minLoad choosen rs)"

definition ChooseReader :: "('g, 'd, 'x) acceptor \<Rightarrow> nat res" where
  "ChooseReader ac =
     bnd (choose_loop 0 INT_MAX (- 1) (take (nat (ac_nbReaders ac)) (ac_readers ac))) (\<lambda>choosen.
     if 0 \<le> choosen \<and> choosen < int (length (ac_readers ac)) then Inr (nat choosen) else Inl Undefined)"

section \<open>Accepting connections\<close>

text \<open>
  What the system answers for one ready key of the selector: the repeated poll, \<open>accept\<close> with the
  peer's port, \<open>getnameinfo\<close>, and for a new connection the allocations of its address at a
  reference of its own, of the connection and of the copies of its handlers, \<open>fcntl\<close>, what the data
  factory returns, and its reference.
\<close>

record 'd accept_env =
  aa_repoll :: "op option"
  aa_sock :: int
  aa_port :: "16 word"
  aa_host :: "string option"
  aa_mem :: "bool \<times> bool \<times> bool"
  aa_resolver :: resolver
  aa_info :: nameinfo
  aa_addr :: nat
  aa_conn :: conn_env
  aa_copy :: "nat \<Rightarrow> bool"
  aa_fcntl :: bool
  aa_data :: "'d option"
  aa_ref :: nat

text \<open>
  The address of the peer. When \<open>getnameinfo\<close> fails the variable \<open>address\<close> keeps its value. The peer
  was stored in a \<open>struct sockaddr\<close> of 16 bytes; for the two other families the code reads 28 and 110
  bytes of it.
\<close>

definition peer_address ::
  "'d accept_env \<Rightarrow> address_type \<Rightarrow> nat option \<Rightarrow> ('g, 'd, 'x) apsys \<Rightarrow> (nat option \<times> ('g, 'd, 'x) apsys) res" where
  "peer_address e type address s =
     (case type of
        ADDRESS_IPV4 \<Rightarrow>
          Inr (case aa_host e of
                 None \<Rightarrow> (address, s)
               | Some hbuf \<Rightarrow>
                   (case NewAddress (aa_mem e) (aa_resolver e) (aa_info e) ADDRESS_IPV4 hbuf (uint (aa_port e)) of
                      None \<Rightarrow> (None, s)
                    | Some a \<Rightarrow> (Some (aa_addr e), s\<lparr>ps_addrs := (ps_addrs s)(aa_addr e \<mapsto> AddressGetString a)\<rparr>)))
      | ADDRESS_IPV6 \<Rightarrow> Inl Undefined
      | ADDRESS_UNIX \<Rightarrow> Inl Undefined)"

definition factory_world :: "('g, 'd, 'x) apsys \<Rightarrow> ('g acceptor_handler phandler, 'd, unit) world" where
  "factory_world s =
     (let f = ac_factory (the_acceptor s) in
      \<lparr>w_sys = co_sys f, w_usr = co_usr f, w_core =
         \<lparr>k_conn = co_conn f, k_mem = ps_mem s, k_addrs = ps_addrs s, k_raised = [], k_net = co_net f, k_user = ()\<rparr>\<rparr>)"

definition create_connection ::
  "'d accept_env \<Rightarrow> nat option \<Rightarrow> ('g, 'd, 'x) apsys \<Rightarrow> ('g, 'd, 'x) apsys res" where
  "create_connection e address s =
     bnd (ConnectionFactoryCreate (aa_conn e) (aa_copy e) (aa_fcntl e) (factory_world s) address (aa_sock e) (aa_data e) () (ps_mem s))
       (\<lambda>(p, m, _).
     bnd (deref p) (\<lambda>w.
     Inr (s\<lparr>ps_mem := m, ps_conns := (ps_conns s)(aa_ref e \<mapsto> \<lparr>co_sys = w_sys w, co_usr = w_usr w, co_conn = w_conn w,
              co_net = k_net (w_core w), co_readKey = None\<rparr>)\<rparr>)))"

definition accept_one ::
  "penv \<Rightarrow> ('g, 'd, 'x) ahandler \<Rightarrow> 'd accept_env \<Rightarrow> nat option \<Rightarrow> ('g, 'd, 'x) apsys \<Rightarrow> (nat option \<times> ('g, 'd, 'x) apsys) res" where
  "accept_one env uh e address s =
     (if aa_sock e < 0 then Inr (address, s)
      else
        bnd (deref (ac_address (the_acceptor s))) (\<lambda>(_, own).
        bnd (peer_address e (AddressGetType own) address s) (\<lambda>(address1, s1).
        bnd (deref address1) (\<lambda>a.
        bnd (deref (ps_addrs s1 a)) (\<lambda>_.
        bnd (create_connection e address1 s1) (\<lambda>s2.
        let c = aa_ref e in
        bnd (do_conn c (ConnectionState (core_cb (pipe_cb env (acceptor_cb uh))) (pe_fuel env) (pe_name env) STATE_INITIALIZED) s2) (\<lambda>s3.
        bnd (Enqueue_ptr (pe_okq env) (ac_queue (the_acceptor s3)) (ITEM_DATA c)) (\<lambda>(_, q').
        let s4 = upd_acceptor (\<lambda>ac. ac\<lparr>ac_queue := q'\<rparr>) s3 in
        bnd (ChooseReader (the_acceptor s4)) (\<lambda>i.
        bnd (at_pipe i (ReaderManageConnection env (acceptor_cb uh) c) (upd_acceptor (\<lambda>ac. ac\<lparr>ac_handed := (ac_handed ac)(c \<mapsto> i)\<rparr>) s4))
          (\<lambda>s5. Inr (address1, s5)))))))))))"

text \<open>The loop over the ready keys; the list has the answers for each call of \<open>SelectionKeyReady\<close>.\<close>

fun accept_loop ::
  "penv \<Rightarrow> ('g, 'd, 'x) ahandler \<Rightarrow> 'd accept_env list \<Rightarrow> nat option \<Rightarrow> ('g, 'd, 'x) apsys \<Rightarrow> ('g, 'd, 'x) apsys res" where
  "accept_loop env uh [] address s = Inl OutOfFuel"
| "accept_loop env uh (e # es) address s =
     bnd (deref (ac_selector (the_acceptor s))) (\<lambda>sel.
     bnd (SelectionKeyReady (aa_repoll e) sel) (\<lambda>(ready, _, sel').
     let s1 = upd_acceptor (\<lambda>ac. ac\<lparr>ac_selector := Some sel'\<rparr>) s in
     if \<not> ready then Inr s1
     else bnd (accept_one env uh e address s1) (\<lambda>(address1, s2). accept_loop env uh es address1 s2)))"

definition AcceptorRun ::
  "penv \<Rightarrow> ('g, 'd, 'x) ahandler \<Rightarrow> poll_result list \<Rightarrow> 'd accept_env list \<Rightarrow> ('g, 'd, 'x) apsys \<Rightarrow> (bool \<times> ('g, 'd, 'x) apsys) res" where
  "AcceptorRun env uh outs es s =
     bnd (deref (ac_selector (the_acceptor s))) (\<lambda>sel.
     bnd (Select outs sel) (\<lambda>(n, sel').
     let s1 = upd_acceptor (\<lambda>ac. ac\<lparr>ac_selector := Some sel'\<rparr>) s in
     if n > 0 then bnd (accept_loop env uh es None s1) (\<lambda>s2. Inr (True, s2)) else Inr (True, s1)))"

section \<open>The acceptor's thread\<close>

type_synonym ('g, 'd, 'x) athreads = "(thread_fun, unit, ('g, 'd, 'x) apsys) tworld"

text \<open>
  The answers for a whole acceptor: its allocations, queue, selector and thread; per pipe the name
  and the answers for its life; the calls that open the socket; for each call of the routine the
  results of \<open>poll\<close> and the answers for the ready keys.
\<close>

record ('g, 'd, 'x) acceptor_life =
  al_penv :: penv
  al_mem :: bool
  al_readers_mem :: bool
  al_queue :: queue_env
  al_selector :: new_selector_env
  al_selector_lock :: "lock option"
  al_start :: start_env
  al_pipe :: "nat \<Rightarrow> life_env"
  al_name :: "nat \<Rightarrow> bool"
  al_socket :: int
  al_fcntl :: bool
  al_sockopt :: bool
  al_bind :: bool
  al_listen :: bool
  al_rounds :: "('g, 'd, 'x) apsys \<Rightarrow> poll_result list \<times> 'd accept_env list"
  al_fuel :: nat

definition no_pipe :: "unit pipe" where
  "no_pipe = \<lparr>pp_self = 0, pp_reader = \<lparr>rd_name = None, rd_pipe = None, rd_thread = None, rd_queue = None, rd_selector = None,
     rd_load = 0, rd_bufferSize = 0\<rparr>, pp_worker = None, pp_writer = None, pp_ext = ()\<rparr>"

text \<open>\<open>snprintf(pipeName, 8, "pipe%03d", i)\<close>.\<close>

definition pipe_name :: "nat \<Rightarrow> string" where
  "pipe_name i = c_snprintf 8 (''pipe'' @ format_03d (int i))"

text \<open>\<open>acceptor->readers[i] = NewReader(...)\<close>; the result says whether that is not NULL.\<close>

definition open_reader ::
  "('g, 'd, 'x) acceptor_life \<Rightarrow> ('g, 'd, 'x) ahandler \<Rightarrow> nat \<Rightarrow> ('g, 'd, 'x) athreads \<Rightarrow> (bool \<times> ('g, 'd, 'x) athreads) res" where
  "open_reader A uh i w =
     (let s = tw_user w; pipeName = (if al_name A i then Some (pipe_name i) else None) in
      bnd (deref (cn_pool (co_conn (ac_factory (the_acceptor s))))) (\<lambda>pool.
      bnd (GetBufferPoolBufferSize pool (ps_mem s)) (\<lambda>n.
      bnd (NewReader (al_pipe A i) (acceptor_cb uh) pipeName n (on_psys (put_pipe no_pipe) w)) (\<lambda>(made, w1).
      Inr (made, if made then on_psys (store_pipe i s) w1
           else on_psys (put_pipe (with_ext () (ps_pipe s))) w1)))))"

fun start_pipes ::
  "('g, 'd, 'x) acceptor_life \<Rightarrow> ('g, 'd, 'x) ahandler \<Rightarrow> nat \<Rightarrow> nat \<Rightarrow> ('g, 'd, 'x) athreads \<Rightarrow> (nat \<times> ('g, 'd, 'x) athreads) res" where
  "start_pipes A uh 0 i w = Inr (i, w)"
| "start_pipes A uh (Suc k) i w =
     bnd (open_reader A uh i w) (\<lambda>(made, w1). if made then start_pipes A uh k (Suc i) w1 else Inr (i, w1))"

abbreviation on_acceptor ::
  "(('g, 'd, 'x) acceptor \<Rightarrow> ('g, 'd, 'x) acceptor) \<Rightarrow> ('g, 'd, 'x) athreads \<Rightarrow> ('g, 'd, 'x) athreads" where
  "on_acceptor g \<equiv> on_psys (upd_acceptor g)"

definition socket_call :: "sock_call \<Rightarrow> ('g, 'd, 'x) acceptor \<Rightarrow> ('g, 'd, 'x) acceptor" where
  "socket_call c ac = ac\<lparr>ac_calls := ac_calls ac @ [c]\<rparr>"

definition AcceptorInit ::
  "('g, 'd, 'x) acceptor_life \<Rightarrow> ('g, 'd, 'x) ahandler \<Rightarrow> ('g, 'd, 'x) athreads \<Rightarrow> (bool \<times> ('g, 'd, 'x) athreads) res" where
  "AcceptorInit A uh w =
     bnd (start_pipes A uh (nat (ac_nbReaders (the_acceptor (tw_user w)))) 0 w) (\<lambda>(i, w1).
     let fd = al_socket A;
         w2 = on_acceptor (\<lambda>ac. ac\<lparr>ac_nbReaders := (if int i < ac_nbReaders ac then int i else ac_nbReaders ac), ac_socket := fd\<rparr>) w1;
         failed = on_acceptor (\<lambda>ac. (socket_call (SockClose fd) ac)\<lparr>ac_socket := - 1\<rparr>) in
     if fd = - 1 then Inr (False, w2)
     else if \<not> al_fcntl A then Inr (False, failed w2)
     else
       let w3 = on_acceptor (socket_call (SockNonblock fd)) w2 in
       if \<not> al_sockopt A then Inr (False, failed w3)
       else
         let w4 = on_acceptor (socket_call (SockReuse fd)) w3 in
         bnd (deref (ac_address (the_acceptor (tw_user w4)))) (\<lambda>(_, addr).
         if \<not> al_bind A then Inr (False, failed w4)
         else
           let w5 = on_acceptor (socket_call (SockBind fd addr)) w4 in
           if \<not> al_listen A then Inr (False, on_acceptor (socket_call (SockClose fd)) w5)
           else
             let w6 = on_acceptor (socket_call (SockListen fd)) w5 in
             bnd (deref (ac_selector (the_acceptor (tw_user w6)))) (\<lambda>sel.
             bnd (Register (pe_okk (al_penv A)) (pe_realloc (al_penv A)) sel OP_READ fd 0) (\<lambda>(key, sel').
             Inr (True, on_acceptor (\<lambda>ac. ac\<lparr>ac_key := key, ac_selector := Some sel'\<rparr>) w6)))))"

text \<open>One connection of the acceptor's queue at its end.\<close>

definition drop_connection ::
  "penv \<Rightarrow> ('g, 'd, 'x) ahandler \<Rightarrow> nat \<Rightarrow> ('g, 'd, 'x) apsys \<Rightarrow> ('g, 'd, 'x) apsys res" where
  "drop_connection env uh c s =
     at_conn c (\<lambda>s1.
       bnd (do_conn c (\<lambda>w.
         bnd (deref (w_sys w)) (\<lambda>q.
         bnd (EventHandlerRemove q CLOSE_EVENT (UserHandler AcceptorCloseHandler)) (\<lambda>q'.
         ConnectionClose (core_cb (pipe_cb env (acceptor_cb uh))) (pe_fuel env) (pe_name env) True (put_sys q' w)))) s1) (\<lambda>s2.
       report_and_free env (acceptor_cb uh) OWNER_ACCEPTOR c s2)) s"

fun drop_connections ::
  "nat \<Rightarrow> penv \<Rightarrow> ('g, 'd, 'x) ahandler \<Rightarrow> nat qitem \<Rightarrow> ('g, 'd, 'x) apsys \<Rightarrow> ('g, 'd, 'x) apsys res" where
  "drop_connections 0 env uh item s = Inl OutOfFuel"
| "drop_connections (Suc f) env uh item s =
     (case ac_queue (the_acceptor s) of
        None \<Rightarrow> Inr s
      | Some q \<Rightarrow>
          bnd (Dequeue (pe_okq env) [] q item False) (\<lambda>(dequeued, it, q').
          let s1 = upd_acceptor (\<lambda>ac. ac\<lparr>ac_queue := Some q'\<rparr>) s in
          if dequeued then
            bnd (QueueDataItemGet it) (\<lambda>c.
            bnd (drop_connection env uh c s1) (\<lambda>s2. drop_connections f env uh it s2))
          else Inr s1))"

text \<open>The pipes are ended one after the other.\<close>

fun end_pipes ::
  "('g, 'd, 'x) acceptor_life \<Rightarrow> ('g, 'd, 'x) ahandler \<Rightarrow> nat list \<Rightarrow> ('g, 'd, 'x) athreads \<Rightarrow> ('g, 'd, 'x) athreads res" where
  "end_pipes A uh [] w = Inr w"
| "end_pipes A uh (i # is) w =
     (let s = tw_user w in
      bnd (if i < length (ac_readers (the_acceptor s)) then Inr (ac_readers (the_acceptor s) ! i) else Inl Undefined) (\<lambda>r.
      case r of
        None \<Rightarrow> end_pipes A uh is w
      | Some p \<Rightarrow>
          bnd (ReaderEnd (al_pipe A i) (acceptor_cb uh) (on_psys (put_pipe p) w)) (\<lambda>w1.
          end_pipes A uh is (on_psys (store_pipe i s) w1))))"

definition AcceptorExit ::
  "('g, 'd, 'x) acceptor_life \<Rightarrow> ('g, 'd, 'x) ahandler \<Rightarrow> ('g, 'd, 'x) athreads \<Rightarrow> ('g, 'd, 'x) athreads res" where
  "AcceptorExit A uh w =
     (let env = al_penv A in
      bnd (deref (NewQueueItem (pe_item env))) (\<lambda>item.
      bnd (let ac = the_acceptor (tw_user w) in
           case ac_key ac of
             None \<Rightarrow> Inr w
           | Some key \<Rightarrow>
               bnd (deref (ac_selector ac)) (\<lambda>sel.
               bnd (Unregister sel key True) (\<lambda>(_, sel').
               Inr (on_acceptor (\<lambda>ac. ac\<lparr>ac_selector := Some sel'\<rparr>) w)))) (\<lambda>w1.
      let w2 = on_acceptor (\<lambda>ac. if ac_socket ac \<noteq> - 1 then socket_call (SockClose (ac_socket ac)) ac else ac) w1 in
      bnd (drop_connections (al_fuel A) env uh item (tw_user w2)) (\<lambda>s3.
      bnd (FreeQueue (ac_queue (the_acceptor s3))) (\<lambda>(q, _).
      let w4 = w2\<lparr>tw_user := upd_acceptor (\<lambda>ac. ac\<lparr>ac_queue := q\<rparr>) s3\<rparr> in
      bnd (end_pipes A uh [0..<nat (ac_nbReaders (the_acceptor (tw_user w4)))] w4) (\<lambda>w5.
      Inr (on_acceptor (\<lambda>ac. ac\<lparr>ac_readers := []\<rparr>) w5)))))))"

definition acceptor_threads ::
  "('g, 'd, 'x) acceptor_life \<Rightarrow> ('g, 'd, 'x) ahandler \<Rightarrow> (thread_fun, unit, ('g, 'd, 'x) apsys) tcallbacks" where
  "acceptor_threads A uh =
     \<lparr>tc_call = (\<lambda>g _. if g = T_AcceptorInit then AcceptorInit A uh
        else psys_call (\<lambda>s. AcceptorRun (al_penv A) uh (fst (al_rounds A s)) (snd (al_rounds A s)) s)),
      tc_exit = (\<lambda>_ _. AcceptorExit A uh)\<rparr>"

section \<open>Creating and ending an acceptor\<close>

definition on_factory ::
  "(('g, 'd, 'x) aworld \<Rightarrow> ('g, 'd, 'x) aworld res) \<Rightarrow> ('g, 'd, 'x) apsys \<Rightarrow> ('g, 'd, 'x) apsys res" where
  "on_factory g s =
     (let f = ac_factory (the_acceptor s) in
      bnd (g (focus 0 f s)) (\<lambda>w.
      let k = w_core w in
      Inr (upd_acceptor (\<lambda>ac. ac\<lparr>ac_factory := \<lparr>co_sys = w_sys w, co_usr = w_usr w, co_conn = k_conn k, co_net = k_net k,
             co_readKey = co_readKey f\<rparr>\<rparr>)
           (s\<lparr>ps_mem := k_mem k, ps_addrs := k_addrs k, ps_raised := k_raised k, ps_pipe := k_user k\<rparr>))))"

text \<open>\<open>FreeAddress(&acceptor->address)\<close>; an address that was freed already is freed again.\<close>

definition free_address :: "('g, 'd, 'x) apsys \<Rightarrow> ('g, 'd, 'x) apsys res" where
  "free_address s =
     (case ac_address (the_acceptor s) of
        None \<Rightarrow> Inr s
      | Some (r, _) \<Rightarrow>
          if ps_addrs s r = None then Inl Undefined
          else Inr (upd_acceptor (\<lambda>ac. ac\<lparr>ac_address := None\<rparr>) (s\<lparr>ps_addrs := (ps_addrs s)(r := None)\<rparr>)))"

text \<open>The way out of \<open>NewAcceptor\<close> without a thread; the name is freed whoever allocated it.\<close>

definition give_up :: "('g, 'd, 'x) apsys \<Rightarrow> ('g, 'd, 'x) apsys res" where
  "give_up s =
     bnd (free_address s) (\<lambda>s1.
     bnd (FreeSelector (ac_selector (the_acceptor s1))) (\<lambda>(sel, _, _).
     bnd (when_ok (ac_name (the_acceptor s1) = None \<or> ac_nameOwned (the_acceptor s1)) Undefined ()) (\<lambda>_.
     Inr (upd_acceptor (\<lambda>ac. ac\<lparr>ac_selector := sel, ac_name := None\<rparr>) s1))))"

text \<open>
  The caller's address and factory are in the acceptor that the system holds already. The result says
  whether an acceptor is returned.
\<close>

definition NewAcceptor ::
  "('g, 'd, 'x) acceptor_life \<Rightarrow> ('g, 'd, 'x) ahandler \<Rightarrow> string option \<Rightarrow> bool \<Rightarrow> int \<Rightarrow> ('g, 'd, 'x) athreads \<Rightarrow>
   (bool \<times> ('g, 'd, 'x) athreads) res" where
  "NewAcceptor A uh name nameOwned nbPipes w =
     (if \<not> al_mem A then Inr (False, w)
      else
        let env = al_penv A;
            s1 = upd_acceptor (\<lambda>ac. ac\<lparr>ac_name := name, ac_nameOwned := nameOwned, ac_queue := make_queue (al_queue A), ac_key := None,
                   ac_handed := Map.empty\<rparr>) (tw_user w) in
        bnd (on_factory (add_system_handler env (acceptor_cb uh) CLOSE_EVENT (UserHandler AcceptorCloseHandler) True) s1) (\<lambda>s2.
        let s3 = upd_acceptor (\<lambda>ac. ac\<lparr>ac_socket := - 1, ac_nbReaders := nbPipes\<rparr>) s2 in
        if \<not> al_readers_mem A then bnd (free_address s3) (\<lambda>s4. Inr (False, w\<lparr>tw_user := s4\<rparr>))
        else
          let s4 = upd_acceptor (\<lambda>ac. ac\<lparr>ac_readers := replicate (nat nbPipes) None, ac_thread := None,
                     ac_selector := fst (NewSelector (al_selector A) (al_selector_lock A))\<rparr>) s3 in
          case make_thread (al_start A) name T_AcceptorInit T_AcceptorRun T_AcceptorExit (w\<lparr>tw_user := s4\<rparr>) of
            (None, w5) \<Rightarrow> bnd (give_up (tw_user w5)) (\<lambda>s6. Inr (False, w5\<lparr>tw_user := s6\<rparr>))
          | (Some t, w5) \<Rightarrow>
              bnd (ThreadStart (se_create (al_start A)) (se_id (al_start A)) [serve (acceptor_threads A uh) t] t
                     (on_acceptor (\<lambda>ac. ac\<lparr>ac_thread := Some t\<rparr>) w5)) (\<lambda>(started, w6).
              if \<not> started then bnd (give_up (tw_user w6)) (\<lambda>s7. Inr (False, w6\<lparr>tw_user := s7\<rparr>))
              else Inr (True, w6))))"

definition AcceptorEnd ::
  "('g, 'd, 'x) acceptor_life \<Rightarrow> ('g, 'd, 'x) ahandler \<Rightarrow> ('g, 'd, 'x) athreads \<Rightarrow> ('g, 'd, 'x) athreads res" where
  "AcceptorEnd A uh w =
     bnd (case ac_thread (the_acceptor (tw_user w)) of
            None \<Rightarrow> Inr w
          | Some t \<Rightarrow>
              bnd (with_thread t ThreadStop w) (\<lambda>w1.
              ThreadJoin (finish (acceptor_threads A uh) (al_fuel A) t) (Some t)
                (on_acceptor (\<lambda>ac. ac\<lparr>ac_selector := map_option
                   (SelectorWakeUp (fst (pe_wake (al_penv A))) (snd (pe_wake (al_penv A)))) (ac_selector ac)\<rparr>) w1))) (\<lambda>w2.
     bnd (FreeSelector (ac_selector (the_acceptor (tw_user w2)))) (\<lambda>(sel, _, _).
     Inr (on_acceptor (\<lambda>ac. ac\<lparr>ac_selector := sel, ac_thread := None\<rparr>) w2)))"

end
