(* ===== verification/Servers.thy ===== *)
theory Servers
  imports Acceptors
begin

text \<open>
  The server of \<open>src/server.c\<close>: a thread that owns an acceptor, the factory of its connections and the
  pool of their buffers, and waits to be stopped. The server is what the acceptor keeps for the user's
  handler.
\<close>

section \<open>State\<close>

text \<open>
  The structure \<open>s_Server\<close>. Its acceptor is the system's, and its factory that of the acceptor, which
  is given it; \<open>sv_acceptor\<close> and \<open>sv_factory\<close> say whether the pointers are not NULL. \<open>sv_user\<close> belongs to
  the user's handler.
\<close>

record ('g, 'x) server =
  sv_address :: "nat option"
  sv_acceptor :: bool
  sv_pool :: "nat option"
  sv_factory :: bool
  sv_thread :: "nat option"
  sv_nbPipes :: int
  sv_handler :: 'g
  sv_queue :: "nat queue option"
  sv_user :: 'x

type_synonym ('g, 'd, 'x) spsys = "('g, 'd, ('g, 'x) server) apsys"

type_synonym ('g, 'd, 'x) sthreads = "('g, 'd, ('g, 'x) server) athreads"

type_synonym ('g, 'd, 'x) shandler = "('g, 'd, ('g, 'x) server) ahandler"

abbreviation the_server :: "('g, 'd, 'x) spsys \<Rightarrow> ('g, 'x) server" where
  "the_server s \<equiv> ac_user (the_acceptor s)"

definition upd_server :: "(('g, 'x) server \<Rightarrow> ('g, 'x) server) \<Rightarrow> ('g, 'd, 'x) spsys \<Rightarrow> ('g, 'd, 'x) spsys" where
  "upd_server g s = upd_acceptor (\<lambda>ac. ac\<lparr>ac_user := g (ac_user ac)\<rparr>) s"

abbreviation on_server ::
  "(('g, 'x) server \<Rightarrow> ('g, 'x) server) \<Rightarrow> ('g, 'd, 'x) sthreads \<Rightarrow> ('g, 'd, 'x) sthreads" where
  "on_server g \<equiv> on_psys (upd_server g)"

text \<open>
  The answers for a whole server: its allocations, the reference and the parts of its address, the pool,
  the factory and the queue, its thread, the acceptor, and the waits of the calls of \<open>Dequeue\<close> in one
  call of the routine.
\<close>

record ('g, 'd, 'x) server_life =
  sl_mem :: bool
  sl_ref :: nat
  sl_address_mem :: "bool \<times> bool \<times> bool"
  sl_resolver :: resolver
  sl_info :: nameinfo
  sl_pool :: bool
  sl_pool_queue :: queue_env
  sl_factory :: "bool \<times> bool \<times> bool"
  sl_queue :: queue_env
  sl_start :: start_env
  sl_acceptor :: "('g, 'd, ('g, 'x) server) acceptor_life"
  sl_waits :: "('g, 'd, 'x) spsys \<Rightarrow> nat wake list list"
  sl_fuel :: nat

section \<open>The server's thread\<close>

text \<open>\<open>ConnectionAddHandler\<close> on the factory, with the server's handler.\<close>

definition server_handle ::
  "penv \<Rightarrow> ('g, 'd, 'x) shandler \<Rightarrow> 'g \<Rightarrow> event \<Rightarrow> bool \<Rightarrow> ('g, 'd, ('g, 'x) server) aworld \<Rightarrow> ('g, 'd, ('g, 'x) server) aworld res" where
  "server_handle env uh handler ev once =
     ConnectionAddHandler (core_cb (pipe_cb env (acceptor_cb uh))) (pe_fuel env) (pe_name env) (pe_handler env) (pe_okh env)
       ev (UserHandler (ServerHandler handler)) None once"

definition serverInit ::
  "('g, 'd, 'x) server_life \<Rightarrow> ('g, 'd, 'x) shandler \<Rightarrow> ('g, 'd, 'x) sthreads \<Rightarrow> (bool \<times> ('g, 'd, 'x) sthreads) res" where
  "serverInit S uh w =
     (let env = al_penv (sl_acceptor S); sv = the_server (tw_user w); add = server_handle env uh (sv_handler sv) in
      bnd (deref (if sv_factory sv then Some () else None)) (\<lambda>_.
      bnd (on_factory (in_turn [
          add INIT_EVENT True,
          add CONNECTED_EVENT True,
          add READ_EVENT False,
          add WRITE_EVENT False,
          add CLOSE_EVENT True,
          add FREE_EVENT True]) (tw_user w)) (\<lambda>s1.
      bnd (deref (sv_thread sv)) (\<lambda>t.
      bnd (deref (tw_heap w t)) (\<lambda>th.
      bnd (NewAcceptor (sl_acceptor S) uh (ThreadGetName th) False (sv_nbPipes sv) (w\<lparr>tw_user := s1\<rparr>)) (\<lambda>(made, w2).
      Inr (made, on_server (\<lambda>sv. sv\<lparr>sv_acceptor := made\<rparr>) w2)))))))"

text \<open>The loop ends with the waits that are left.\<close>

fun serverLoop ::
  "penv \<Rightarrow> nat wake list list \<Rightarrow> nat qitem \<Rightarrow> ('g, 'd, 'x) spsys \<Rightarrow> (bool \<times> ('g, 'd, 'x) spsys) res" where
  "serverLoop env [] item s = Inl OutOfFuel"
| "serverLoop env (ws # waits) item s =
     bnd (deref (sv_queue (the_server s))) (\<lambda>q.
     bnd (Dequeue (pe_okq env) ws q item True) (\<lambda>(dequeued, it, q').
     let s1 = upd_server (\<lambda>sv. sv\<lparr>sv_queue := Some q'\<rparr>) s in
     if \<not> dequeued then Inr (True, s1)
     else if QueueItemGetType it = QUEUE_ITEM_EXIT then Inr (False, s1)
     else serverLoop env waits it s1))"

definition serverRun ::
  "penv \<Rightarrow> nat wake list list \<Rightarrow> ('g, 'd, 'x) spsys \<Rightarrow> (bool \<times> ('g, 'd, 'x) spsys) res" where
  "serverRun env waits s = bnd (deref (NewQueueItem (pe_item env))) (\<lambda>item. serverLoop env waits item s)"

text \<open>
  What the server owns, freed: the address (which may have been freed already), the pool, the factory
  and the queue.
\<close>

definition free_server ::
  "('g, 'd, 'x) server_life \<Rightarrow> ('g, 'd, 'x) shandler \<Rightarrow> ('g, 'd, 'x) spsys \<Rightarrow> ('g, 'd, 'x) spsys res" where
  "free_server S uh s =
     (let env = al_penv (sl_acceptor S); sv = the_server s in
      bnd (case sv_address sv of
             None \<Rightarrow> Inr s
           | Some r \<Rightarrow>
               if ps_addrs s r = None then Inl Undefined
               else Inr (upd_server (\<lambda>sv. sv\<lparr>sv_address := None\<rparr>) (s\<lparr>ps_addrs := (ps_addrs s)(r := None)\<rparr>))) (\<lambda>s1.
      bnd (FreeBufferPool (sl_fuel S) (pe_okq env) (pe_item env) (sv_pool sv) (ps_mem s1)) (\<lambda>(pool, m).
      let s2 = upd_server (\<lambda>sv. sv\<lparr>sv_pool := pool\<rparr>) (s1\<lparr>ps_mem := m\<rparr>) in
      bnd (if sv_factory sv then
             bnd (FreeConnection (core_cb (pipe_cb env (acceptor_cb uh))) (pe_fuel env) (pe_okq env)
                    (focus 0 (ac_factory (the_acceptor s2)) s2)) (\<lambda>(k, _, _).
             Inr (upd_server (\<lambda>sv. sv\<lparr>sv_factory := False\<rparr>) (s2\<lparr>ps_mem := k_mem k, ps_addrs := k_addrs k\<rparr>)))
           else Inr s2) (\<lambda>s3.
      bnd (FreeQueue (sv_queue sv)) (\<lambda>(q, _).
      Inr (upd_server (\<lambda>sv. sv\<lparr>sv_queue := q\<rparr>) s3))))))"

definition serverExit ::
  "('g, 'd, 'x) server_life \<Rightarrow> ('g, 'd, 'x) shandler \<Rightarrow> ('g, 'd, 'x) sthreads \<Rightarrow> ('g, 'd, 'x) sthreads res" where
  "serverExit S uh w =
     bnd (if sv_acceptor (the_server (tw_user w)) then AcceptorEnd (sl_acceptor S) uh w else Inr w) (\<lambda>w1.
     bnd (free_server S uh (tw_user w1)) (\<lambda>s2. Inr (w1\<lparr>tw_user := s2\<rparr>)))"

definition server_threads ::
  "('g, 'd, 'x) server_life \<Rightarrow> ('g, 'd, 'x) shandler \<Rightarrow> (thread_fun, unit, ('g, 'd, 'x) spsys) tcallbacks" where
  "server_threads S uh =
     \<lparr>tc_call = (\<lambda>g _. if g = T_ServerInit then serverInit S uh
        else psys_call (\<lambda>s. serverRun (al_penv (sl_acceptor S)) (sl_waits S s) s)),
      tc_exit = (\<lambda>_ _. serverExit S uh)\<rparr>"

section \<open>Creating, starting and stopping a server\<close>

text \<open>The result says whether a server is returned; if not, what had been made has been freed again.\<close>

definition NewServer ::
  "('g, 'd, 'x) server_life \<Rightarrow> ('g, 'd, 'x) shandler \<Rightarrow> address_type \<Rightarrow> string \<Rightarrow> 16 word \<Rightarrow> int \<Rightarrow> int \<Rightarrow> 'g \<Rightarrow> 'x \<Rightarrow>
   ('g, 'd, 'x) sthreads \<Rightarrow> (bool \<times> ('g, 'd, 'x) sthreads) res" where
  "NewServer S uh type host port bufferSize nbPipes handler u w =
     (if \<not> sl_mem S then Inr (False, w)
      else
        let env = al_penv (sl_acceptor S);
            address = NewAddress (sl_address_mem S) (sl_resolver S) (sl_info S) type host (uint port);
            s1 = (case address of None \<Rightarrow> tw_user w
                  | Some a \<Rightarrow> (tw_user w)\<lparr>ps_addrs := (ps_addrs (tw_user w))(sl_ref S \<mapsto> AddressGetString a)\<rparr>) in
        bnd (NewBufferPool (pe_okb env) (pe_okq env) (sl_pool S) (make_queue (sl_pool_queue S)) bufferSize (ps_mem s1)) (\<lambda>(pool, m).
        let factory = NewConnectionFactory (fst (sl_factory S)) (fst (snd (sl_factory S))) (snd (snd (sl_factory S))) pool (ps_addrs s1) () m;
            sv = \<lparr>sv_address = map_option (\<lambda>_. sl_ref S) address, sv_acceptor = False, sv_pool = pool, sv_factory = (factory \<noteq> None),
                  sv_thread = None, sv_nbPipes = nbPipes, sv_handler = handler, sv_queue = make_queue (sl_queue S), sv_user = u\<rparr>;
            s2 = upd_acceptor (\<lambda>ac. ac\<lparr>ac_address := map_option (\<lambda>a. (sl_ref S, a)) address,
                   ac_factory := (case factory of None \<Rightarrow> ac_factory ac
                     | Some f \<Rightarrow> \<lparr>co_sys = w_sys f, co_usr = w_usr f, co_conn = w_conn f, co_net = k_net (w_core f), co_readKey = None\<rparr>),
                   ac_user := sv\<rparr>) (s1\<lparr>ps_mem := m\<rparr>) in
        case make_thread (sl_start S) (Some ''server'') T_ServerInit T_ServerRun T_ServerExit (w\<lparr>tw_user := s2\<rparr>) of
          (None, w3) \<Rightarrow> bnd (free_server S uh (tw_user w3)) (\<lambda>s4. Inr (False, w3\<lparr>tw_user := s4\<rparr>))
        | (Some t, w3) \<Rightarrow> Inr (True, on_server (\<lambda>sv. sv\<lparr>sv_thread := Some t\<rparr>) w3)))"

definition ServerStart ::
  "('g, 'd, 'x) server_life \<Rightarrow> ('g, 'd, 'x) shandler \<Rightarrow> ('g, 'd, 'x) sthreads \<Rightarrow> (bool \<times> ('g, 'd, 'x) sthreads) res" where
  "ServerStart S uh w =
     bnd (deref (sv_thread (the_server (tw_user w)))) (\<lambda>t.
     ThreadStart (se_create (sl_start S)) (se_id (sl_start S)) [serve (server_threads S uh) t] t w)"

definition ServerJoin ::
  "('g, 'd, 'x) server_life \<Rightarrow> ('g, 'd, 'x) shandler \<Rightarrow> ('g, 'd, 'x) sthreads \<Rightarrow> ('g, 'd, 'x) sthreads res" where
  "ServerJoin S uh w =
     (case sv_thread (the_server (tw_user w)) of
        None \<Rightarrow> Inr w
      | Some t \<Rightarrow> ThreadJoin (finish (server_threads S uh) (sl_fuel S) t) (Some t) w)"

definition ServerStop :: "penv \<Rightarrow> ('g, 'd, 'x) spsys \<Rightarrow> ('g, 'd, 'x) spsys res" where
  "ServerStop env s =
     (if sv_thread (the_server s) \<noteq> None then
        bnd (deref (sv_queue (the_server s))) (\<lambda>q.
        bnd (EnqueueExitItem (pe_okq env) q) (\<lambda>(_, q').
        Inr (upd_server (\<lambda>sv. sv\<lparr>sv_queue := Some q'\<rparr>) s)))
      else Inr s)"

end
