(* ===== verification/AcceptFlow.thy ===== *)
theory AcceptFlow
  imports Acceptors PipeConns
begin

text \<open>
  How the acceptor of \<open>src/acceptor.c\<close> spreads connections over its pipes: the choice of a pipe, what one
  accepted connection leaves behind, and what a burst of them does.
\<close>

section \<open>The choice of a pipe\<close>

text \<open>The reference: the first position at which a list has its smallest element.\<close>

definition least_loaded :: "int list \<Rightarrow> nat" where
  "least_loaded ls = hd [i \<leftarrow> [0..<length ls]. \<forall>l \<in> set ls. ls ! i \<le> l]"

definition loads :: "('g, 'd, 'x) acceptor \<Rightarrow> int list" where
  "loads ac = map (\<lambda>p. rd_load (pp_reader (the p))) (ac_readers ac)"

lemma hd_filter_upt:
  assumes "k < n" "P k" "\<And>j. j < k \<Longrightarrow> \<not> P j"
  shows "hd [i \<leftarrow> [0..<n]. P i] = k"
proof -
  have "[0..<n] = [0..<k] @ k # [Suc k..<n]" using assms(1) by (metis le_add1 le_add_same_cancel1 less_imp_le_nat upt_add_eq_append upt_conv_Cons le_add_diff_inverse)
  moreover have "[i \<leftarrow> [0..<k]. P i] = []" using assms(3) by simp
  ultimately show ?thesis using assms(2) by simp
qed

lemma least_loaded_eq:
  assumes "k < length ls" "\<forall>l \<in> set ls. ls ! k \<le> l" "\<forall>j < k. ls ! k < ls ! j"
  shows "least_loaded ls = k"
  unfolding least_loaded_def by (rule hd_filter_upt) (use assms in \<open>auto simp: not_le intro: nth_mem\<close>)

text \<open>The loop on the loads alone, and where it stops.\<close>

fun scan :: "int \<Rightarrow> int \<Rightarrow> int \<Rightarrow> int list \<Rightarrow> int" where
  "scan i m ch [] = ch"
| "scan i m ch (l # ls) = (if l < m then scan (i + 1) l i ls else scan (i + 1) m ch ls)"

lemma choose_loop_scan:
  "\<forall>r \<in> set rs. r \<noteq> None \<Longrightarrow> choose_loop i m ch rs = Inr (scan i m ch (map (\<lambda>p. rd_load (pp_reader (the p))) rs))"
  by (induction rs arbitrary: i m ch) auto

definition first_least :: "int list \<Rightarrow> nat \<Rightarrow> bool" where
  "first_least ls k \<longleftrightarrow> k < length ls \<and> (\<forall>l \<in> set ls. ls ! k \<le> l) \<and> (\<forall>j < k. ls ! k < ls ! j)"

lemma first_least_later: "first_least ls k \<Longrightarrow> ls ! k < l \<Longrightarrow> first_least (l # ls) (Suc k)"
  by (auto simp: first_least_def less_Suc_eq_0_disj)

lemma first_least_here: "\<forall>l' \<in> set ls. l \<le> l' \<Longrightarrow> first_least (l # ls) 0"
  by (simp add: first_least_def)

lemma scan_least:
  "if \<exists>l \<in> set ls. l < m then \<exists>k. scan i m ch ls = i + int k \<and> first_least ls k \<and> ls ! k < m else scan i m ch ls = ch"
proof (induction ls arbitrary: i m ch)
  case (Cons l ls)
  show ?case
  proof (cases "l < m")
    case True
    show ?thesis
    proof (cases "\<exists>l' \<in> set ls. l' < l")
      case less: True
      with Cons.IH [of l "i + 1" i] obtain k where k: "scan (i + 1) l i ls = i + 1 + int k" "first_least ls k" "ls ! k < l" by auto
      then show ?thesis using True first_least_later [OF k(2,3)] by (auto intro!: exI [of _ "Suc k"])
    next
      case False
      then have "scan (i + 1) l i ls = i" "first_least (l # ls) 0"
        using Cons.IH [of l "i + 1" i] by (auto simp: not_less intro: first_least_here)
      then show ?thesis using True by (auto intro!: exI [of _ 0])
    qed
  next
    case False
    show ?thesis
    proof (cases "\<exists>l' \<in> set ls. l' < m")
      case less: True
      with Cons.IH [of m "i + 1" ch] obtain k where k: "scan (i + 1) m ch ls = i + 1 + int k" "first_least ls k" "ls ! k < m" by auto
      then show ?thesis using False less first_least_later [OF k(2), of l] by (auto intro!: exI [of _ "Suc k"])
    next
      case none: False
      then show ?thesis using False Cons.IH [of m "i + 1" ch] by auto
    qed
  qed
qed simp

lemma ChooseReader_least:
  assumes "\<forall>r \<in> set (ac_readers ac). r \<noteq> None" "ac_nbReaders ac = int (length (ac_readers ac))"
  shows "ChooseReader ac = (if \<exists>l \<in> set (loads ac). l < INT_MAX then Inr (least_loaded (loads ac)) else Inl Undefined)"
proof -
  have c: "choose_loop 0 INT_MAX (- 1) (ac_readers ac) = Inr (scan 0 INT_MAX (- 1) (loads ac))"
    using choose_loop_scan [OF assms(1)] by (simp add: loads_def)
  have n: "length (loads ac) = length (ac_readers ac)" by (simp add: loads_def)
  show ?thesis
  proof (cases "\<exists>l \<in> set (loads ac). l < INT_MAX")
    case True
    with scan_least [of "loads ac" INT_MAX 0 "- 1"] obtain k where k: "scan 0 INT_MAX (- 1) (loads ac) = int k" "first_least (loads ac) k" by auto
    then have "least_loaded (loads ac) = k" "k < length (ac_readers ac)"
      using least_loaded_eq [of k "loads ac"] n by (auto simp: first_least_def)
    then show ?thesis using c k(1) assms(2) True by (simp add: ChooseReader_def)
  next
    case False
    then have "scan 0 INT_MAX (- 1) (loads ac) = - 1" using scan_least [of "loads ac" INT_MAX 0 "- 1"] by simp
    then show ?thesis using c assms(2) False by (simp add: ChooseReader_def)
  qed
qed

lemma least_loaded_min:
  assumes "ls \<noteq> []"
  shows "least_loaded ls < length ls \<and> (\<forall>l \<in> set ls. ls ! least_loaded ls \<le> l)"
proof -
  have "Min (set ls) \<in> set ls" using assms by simp
  then obtain i where "i < length ls" "ls ! i = Min (set ls)" by (auto simp: in_set_conv_nth)
  then have "i \<in> set [i \<leftarrow> [0..<length ls]. \<forall>l \<in> set ls. ls ! i \<le> l]" by simp
  then have "[i \<leftarrow> [0..<length ls]. \<forall>l \<in> set ls. ls ! i \<le> l] \<noteq> []" by (metis empty_iff empty_set)
  from hd_in_set [OF this] show ?thesis unfolding least_loaded_def by simp
qed

text \<open>
  C34. \<open>_ChooseReader\<close> is equivalent to its reference: with all pipes there it returns the first pipe of
  smallest load. Without any pipe, or when every pipe has a load of \<open>INT_MAX\<close>, the index stays -1 and
  the code reads \<open>readers[-1]\<close>.
\<close>

theorem choose_reader_least:
  assumes "\<forall>r \<in> set (ac_readers ac). r \<noteq> None" "ac_nbReaders ac = int (length (ac_readers ac))"
  shows "ChooseReader ac = (if \<exists>l \<in> set (loads ac). l < INT_MAX then Inr (least_loaded (loads ac)) else Inl Undefined) \<and>
    (ac_readers ac \<noteq> [] \<longrightarrow> least_loaded (loads ac) < length (ac_readers ac) \<and>
       (\<forall>l \<in> set (loads ac). loads ac ! least_loaded (loads ac) \<le> l))"
proof -
  have "length (loads ac) = length (ac_readers ac)" by (simp add: loads_def)
  then show ?thesis using ChooseReader_least [OF assms] least_loaded_min [of "loads ac"] by fastforce
qed

definition some_acceptor :: "int list \<Rightarrow> (unit, unit, unit) acceptor" where
  "some_acceptor ls = \<lparr>ac_name = None, ac_nameOwned = False, ac_thread = None, ac_address = None, ac_socket = - 1, ac_calls = [],
     ac_readers = map (\<lambda>l. Some (no_pipe\<lparr>pp_reader := (pp_reader no_pipe)\<lparr>rd_load := l\<rparr>\<rparr>)) ls, ac_nbReaders = int (length ls),
     ac_selector = None, ac_key = None,
     ac_factory = \<lparr>co_sys = None, co_usr = None, co_conn = undefined, co_net = [], co_readKey = None\<rparr>,
     ac_queue = None, ac_handed = Map.empty, ac_user = ()\<rparr>"

theorem choose_reader_least_witness:
  "ChooseReader (some_acceptor [3, 1, 4, 1, 5]) = Inr 1 \<and> ChooseReader (some_acceptor []) = Inl Undefined"
proof -
  have l: "loads (some_acceptor ls) = ls" "\<forall>r \<in> set (ac_readers (some_acceptor ls)). r \<noteq> None"
    "ac_nbReaders (some_acceptor ls) = int (length (ac_readers (some_acceptor ls)))" for ls
    by (auto simp: loads_def some_acceptor_def comp_def)
  have "least_loaded [3, 1, 4, 1, 5] = 1" by (simp add: least_loaded_def upt_rec)
  then show ?thesis
    using choose_reader_least [OF l(2,3), of "[3, 1, 4, 1, 5]"] choose_reader_least [OF l(2,3), of "[]"] l(1)
    by (simp add: INT_MAX_def)
qed

section \<open>Working on one pipe\<close>

lemma with_ext_simps [simp]:
  "pp_self (with_ext x p) = pp_self p" "pp_reader (with_ext x p) = pp_reader p" "pp_worker (with_ext x p) = pp_worker p"
  "pp_writer (with_ext x p) = pp_writer p" "pp_ext (with_ext x p) = x"
  by (simp_all add: with_ext_def)

lemma with_ext_twice [simp]: "with_ext x (with_ext y p) = with_ext x p"
  by (simp add: with_ext_def)

lemma with_ext_upd [simp]: "with_ext x p\<lparr>pp_ext := y\<rparr> = with_ext y p" "with_ext y (q\<lparr>pp_ext := x\<rparr>) = with_ext y q"
  by (simp_all add: with_ext_def)

lemma put_pipe_simps [simp]:
  "ps_pipe (put_pipe p s) = with_ext (the_acceptor s) p" "ps_conns (put_pipe p s) = ps_conns s" "ps_mem (put_pipe p s) = ps_mem s"
  "ps_addrs (put_pipe p s) = ps_addrs s" "ps_raised (put_pipe p s) = ps_raised s"
  by (simp_all add: put_pipe_def)

lemma upd_acceptor_simps [simp]:
  "ps_conns (upd_acceptor g s) = ps_conns s" "ps_mem (upd_acceptor g s) = ps_mem s" "ps_addrs (upd_acceptor g s) = ps_addrs s"
  "ps_raised (upd_acceptor g s) = ps_raised s" "the_acceptor (upd_acceptor g s) = g (the_acceptor s)"
  "pp_self (ps_pipe (upd_acceptor g s)) = pp_self (ps_pipe s)"
  by (simp_all add: upd_acceptor_def)

lemma store_pipe_simps [simp]:
  "ps_conns (store_pipe i z s) = ps_conns s" "ps_mem (store_pipe i z s) = ps_mem s" "ps_addrs (store_pipe i z s) = ps_addrs s"
  "ps_raised (store_pipe i z s) = ps_raised s"
  "the_acceptor (store_pipe i z s) = (the_acceptor s)\<lparr>ac_readers := (ac_readers (the_acceptor s))[i := Some (with_ext () (ps_pipe s))]\<rparr>"
  by (simp_all add: store_pipe_def)

lemma handed_to_ext:
  "handed_to env c (with_ext x p) p' \<Longrightarrow> pp_ext p' = x \<and> handed_to env c p (with_ext () p')"
  unfolding handed_to_def by (cases p) (auto simp: with_ext_def)

section \<open>The handlers of an accepted connection\<close>

text \<open>What a server registers with the factory: the acceptor's handler, and the server's own.\<close>

definition close_handlers :: "event \<Rightarrow> ('g acceptor_handler phandler, 'd) handler list" where
  "close_handlers = (\<lambda>_. [])(CLOSE_EVENT := [pipe_h CLOSE_EVENT (UserHandler AcceptorCloseHandler) True])"

definition server_handler :: "'g \<Rightarrow> event \<Rightarrow> bool \<Rightarrow> ('g acceptor_handler phandler, 'd) handler" where
  "server_handler g ev once = pipe_h ev (UserHandler (ServerHandler g)) once"

definition server_handlers :: "'g \<Rightarrow> event \<Rightarrow> ('g acceptor_handler phandler, 'd) handler list" where
  "server_handlers g ev =
     (if ev \<in> {INIT_EVENT, CONNECTED_EVENT, CLOSE_EVENT, FREE_EVENT} then [server_handler g ev True]
      else if ev \<in> {READ_EVENT, WRITE_EVENT} then [server_handler g ev False] else [])"

text \<open>The contents of the handler queues of a connection in memory.\<close>

definition co_held ::
  "(event \<Rightarrow> ('f phandler, 'd) handler list) \<Rightarrow> (event \<Rightarrow> ('f phandler, 'd) handler list) \<Rightarrow> ('f, 'd) cobj \<Rightarrow> bool" where
  "co_held S U co \<longleftrightarrow> (\<exists>qs qu. co_sys co = Some qs \<and> eq_inv qs \<and> handlers qs = S \<and> co_usr co = Some qu \<and> eq_inv qu \<and> handlers qu = U)"

lemma held_focus: "held (w_core (focus c co s)) S U (focus c co s) = co_held S U co"
  by (auto simp: held_def focus_def queues_ok_def co_held_def)

definition factory_ok :: "nat \<Rightarrow> 'g \<Rightarrow> ('g acceptor_handler, 'd) cobj \<Rightarrow> bool" where
  "factory_ok pr g f \<longleftrightarrow> co_held close_handlers (server_handlers g) f \<and> cn_pool (co_conn f) = Some pr"

text \<open>The user's handler works on its own data when it is told of a new connection.\<close>

definition welcoming :: "('g, 'd, 'x) ahandler \<Rightarrow> bool" where
  "welcoming uh \<longleftrightarrow> (\<forall>g d k. \<exists>x. uh g INIT_EVENT d k = Inr (upd_pipe (\<lambda>p. p\<lparr>pp_ext := (pp_ext p)\<lparr>ac_user := x\<rparr>\<rparr>) k))"

section \<open>One accepted connection\<close>

text \<open>The system's answers for an IPv4 peer when all goes well.\<close>

definition accept_ok :: "'d accept_env \<Rightarrow> bool" where
  "accept_ok e \<longleftrightarrow> 0 \<le> aa_sock e \<and> aa_host e \<noteq> None \<and> aa_mem e = (True, True, True) \<and> env_ok (aa_conn e) \<and> aa_copy e = all_ok \<and> aa_fcntl e"

definition bound_to :: "'d option \<Rightarrow> (event \<Rightarrow> ('c, 'd) handler list) \<Rightarrow> event \<Rightarrow> ('c, 'd) handler list" where
  "bound_to data U = (\<lambda>ev. map (rebind data) (U ev))"

lemma close_handlers_bound: "bound_to None close_handlers = close_handlers"
  by (auto simp: bound_to_def close_handlers_def rebind_def pipe_h_def fun_eq_iff)

text \<open>A connection that the factory has made.\<close>

definition made :: "'d accept_env \<Rightarrow> 'g \<Rightarrow> ('g acceptor_handler, 'd) cobj \<Rightarrow> bool" where
  "made e g co \<longleftrightarrow> cn_state (co_conn co) = STATE_NONE \<and> cn_socket (co_conn co) = aa_sock e \<and>
     cn_address (co_conn co) = Some (aa_addr e) \<and> cn_stateLock (co_conn co) = Some free_lock \<and>
     cn_managedByLock (co_conn co) = Some free_lock \<and> cn_closedByLock (co_conn co) = Some free_lock \<and>
     cn_closedBy (co_conn co) = (\<lambda>_. False)(OWNER_CLIENT := True) \<and>
     cn_managedBy (co_conn co) = (\<lambda>_. False)(OWNER_ACCEPTOR := True, OWNER_CLIENT := True) \<and>
     co_readKey co = None \<and> co_held close_handlers (bound_to (aa_data e) (server_handlers g)) co"

lemma create_seq:
  assumes m: "pool_inv (16, n) n pr (ps_mem s) fs os emp" "0 \<le> n" "n \<le> INT_MAX - 2"
    and e: "accept_ok e" and f: "factory_ok pr g (ac_factory (the_acceptor s))" and a: "ps_addrs s (aa_addr e) = Some str"
  shows "returns (create_connection e (Some (aa_addr e)) s) (\<lambda>s'. \<exists>co rb wb fs' emp'.
    s' = s\<lparr>ps_mem := ps_mem s', ps_conns := (ps_conns s)(aa_ref e \<mapsto> co)\<rparr> \<and> made e g co \<and>
    cn_readBuffer (co_conn co) = Some rb \<and> cn_writeBuffer (co_conn co) = Some wb \<and>
    pool_inv (16, n) n pr (ps_mem s') fs' (wb # rb # os) emp')"
proof -
  let ?f = "factory_world s"
  obtain qs qu where q: "w_sys ?f = Some qs" "eq_inv qs" "handlers qs = close_handlers" "w_usr ?f = Some qu" "eq_inv qu"
    "handlers qu = server_handlers g" and p: "cn_pool (w_conn ?f) = Some pr" and ad: "k_addrs (w_core ?f) (aa_addr e) = Some str"
    using f a by (auto simp: factory_ok_def co_held_def factory_world_def Let_def)
  have ok: "env_ok (aa_conn e)" "aa_copy e = all_ok" "aa_fcntl e" using e by (simp_all add: accept_ok_def)
  obtain w :: "('a acceptor_handler phandler, 'b, unit) world" where
    w: "NewConnection (aa_conn e) pr (Some (aa_addr e)) True (k_addrs (w_core ?f)) () (ps_mem s) = Inr (Some w, k_mem (w_core w))"
      "created 1 pr n os w" "cn_address (w_conn w) = Some (aa_addr e)" "k_net (w_core w) = []"
    using NewConnection_seq [where f = 1 and fa = True and u = "()" and addrs = "k_addrs (w_core ?f)", OF m ok(1) ad]
    by (auto elim!: returnsE)
  have c: "conn_inv 1 w" "w_sys w = Some new_equeue" "w_usr w = Some new_equeue" "cn_state (w_conn w) = STATE_NONE"
    "cn_closedBy (w_conn w) = (\<lambda>_. False)(OWNER_ACCEPTOR := True)"
    "cn_managedBy (w_conn w) = (\<lambda>_. False)(OWNER_ACCEPTOR := True, OWNER_CLIENT := True)"
    using w(2) by (simp_all add: created_def)
  obtain rb wb fs' emp' where b: "cn_readBuffer (w_conn w) = Some rb" "cn_writeBuffer (w_conn w) = Some wb"
    "pool_inv (16, n) n pr (k_mem (w_core w)) fs' (wb # rb # os) emp'" using w(2) unfolding created_def by blast
  obtain du where du: "CopyEventQueue all_ok new_equeue qu (aa_data e) = Inr du" "eq_inv du"
    "handlers du = bound_to (aa_data e) (server_handlers g)"
    using CopyEventQueue_seq [OF q(5) new_equeue_inv(1), of "aa_data e"] by (auto simp: new_equeue_inv(2) q(6) bound_to_def elim!: returnsE)
  obtain ds where ds: "CopyEventQueue all_ok new_equeue qs None = Inr ds" "eq_inv ds" "handlers ds = close_handlers"
    using CopyEventQueue_seq [OF q(2) new_equeue_inv(1), of None] close_handlers_bound
    by (auto simp: new_equeue_inv(2) q(3) bound_to_def elim!: returnsE)
  let ?cn = "(w_conn w)\<lparr>cn_socket := aa_sock e, cn_closedBy := (cn_closedBy (w_conn w))(OWNER_ACCEPTOR := False, OWNER_CLIENT := True)\<rparr>"
  let ?co = "\<lparr>co_sys = Some ds, co_usr = Some du, co_conn = ?cn, co_net = [], co_readKey = None\<rparr>"
  have r: "create_connection e (Some (aa_addr e)) s = Inr (s\<lparr>ps_mem := k_mem (w_core w), ps_conns := (ps_conns s)(aa_ref e \<mapsto> ?co)\<rparr>)"
    using p q(1,4) w(1,4) c(2,3) du(1) ds(1) ok by (simp add: create_connection_def ConnectionFactoryCreate_def)
  have "made e g ?co" using c w(3) du(2,3) ds(2,3) conn_invD(3-5) [OF c(1)] by (auto simp: made_def co_held_def fun_eq_iff)
  then show ?thesis unfolding r returns_Inr using b by (intro exI [of _ ?co] exI [of _ rb] exI [of _ wb] exI [of _ fs'] exI [of _ emp']) simp
qed

text \<open>Becoming initialised tells the user's handler.\<close>

lemma initialised_seq:
  assumes env: "handler_env env" "welcoming uh" and co: "ps_conns s c = Some co" "made e g co" and a: "ps_addrs s (aa_addr e) = Some str"
  shows "returns (do_conn c (ConnectionState (core_cb (pipe_cb env (acceptor_cb uh))) (pe_fuel env) (pe_name env) STATE_INITIALIZED) s)
    (\<lambda>s'. \<exists>co' x. s' = s\<lparr>ps_conns := (ps_conns s)(c \<mapsto> co'),
        ps_pipe := (ps_pipe s)\<lparr>pp_self := c, pp_ext := (the_acceptor s)\<lparr>ac_user := x\<rparr>\<rparr>\<rparr> \<and>
      co_conn co' = (co_conn co)\<lparr>cn_state := STATE_INITIALIZED\<rparr> \<and> co_readKey co' = None \<and>
      co_held close_handlers (fired INIT_EVENT (bound_to (aa_data e) (server_handlers g))) co')"
proof -
  let ?U = "bound_to (aa_data e) (server_handlers g)" and ?w = "focus c co s"
  have m: "cn_state (co_conn co) = STATE_NONE" "cn_address (co_conn co) = Some (aa_addr e)" "cn_stateLock (co_conn co) = Some free_lock"
    "co_readKey co = None" "co_held close_handlers ?U co" using co(2) by (simp_all add: made_def)
  have h: "held (w_core ?w) close_handlers ?U ?w" using m(5) unfolding held_focus .
  have l: "length (close_handlers INIT_EVENT) < pe_fuel env" "length (?U INIT_EVENT) < pe_fuel env"
    using env(1) by (auto simp: close_handlers_def bound_to_def server_handlers_def handler_env_def)
  let ?k = "entering (pe_name env) STATE_INITIALIZED (w_core ?w)"
  have k: "k_user ?k = (ps_pipe s)\<lparr>pp_self := c\<rparr>" "k_conn ?k = (co_conn co)\<lparr>cn_stateLock := Some taken_lock, cn_state := STATE_INITIALIZED\<rparr>"
    by (simp_all add: entering_def Let_def focus_def allow_def permissions_def)
  obtain x where x: "uh g INIT_EVENT (aa_data e) ?k = Inr (upd_pipe (\<lambda>p. p\<lparr>pp_ext := (pp_ext p)\<lparr>ac_user := x\<rparr>\<rparr>) ?k)"
    using env(2) unfolding welcoming_def by blast
  let ?k' = "?k\<lparr>k_user := (ps_pipe s)\<lparr>pp_self := c, pp_ext := (the_acceptor s)\<lparr>ac_user := x\<rparr>\<rparr>\<rparr>"
  have "call_all (pipe_cb env (acceptor_cb uh)) INIT_EVENT (close_handlers INIT_EVENT @ ?U INIT_EVENT) ?k = Inr ?k'"
    using x k(1) by (cases "aa_data e")
      (simp_all add: close_handlers_def bound_to_def server_handlers_def server_handler_def pipe_h_def rebind_def upd_pipe_def)
  from ConnectionState_held [OF _ _ _ _ _ _ h l this] obtain w where
    w: "ConnectionState (core_cb (pipe_cb env (acceptor_cb uh))) (pe_fuel env) (pe_name env) STATE_INITIALIZED ?w = Inr w"
      "held (unlocked ?k') (fired INIT_EVENT close_handlers) (fired INIT_EVENT ?U) w"
    using env(1) m a k(2) by (auto simp: event_of_def focus_def handler_env_def elim!: returnsE)
  have wc: "w_core w = unlocked ?k'" using w(2) by (simp add: held_def)
  have cl: "(co_conn co)\<lparr>cn_state := STATE_INITIALIZED, cn_stateLock := Some free_lock\<rparr> = (co_conn co)\<lparr>cn_state := STATE_INITIALIZED\<rparr>"
    using m(3) by (cases "co_conn co") simp
  have cn: "w_conn w = (co_conn co)\<lparr>cn_state := STATE_INITIALIZED\<rparr>" unfolding wc using k(2) cl by (simp add: unlocked_def)
  have f: "fired INIT_EVENT close_handlers = close_handlers" by (auto simp: fired_def close_handlers_def fun_eq_iff)
  let ?co = "\<lparr>co_sys = w_sys w, co_usr = w_usr w, co_conn = w_conn w, co_net = k_net (w_core w), co_readKey = None\<rparr>"
  have u: "unfocus c (co_readKey co) w s = s\<lparr>ps_conns := (ps_conns s)(c \<mapsto> ?co),
      ps_pipe := (ps_pipe s)\<lparr>pp_self := c, pp_ext := (the_acceptor s)\<lparr>ac_user := x\<rparr>\<rparr>\<rparr>"
    by (simp add: unfocus_def Let_def wc m(4) unlocked_def entering_fields focus_def)
  have "co_held close_handlers (fired INIT_EVENT ?U) ?co" using w(2) unfolding f by (auto simp: held_def queues_ok_def co_held_def)
  then show ?thesis using w(1) u cn unfolding do_conn_eq [OF co(1)]
    by (auto intro!: exI [of _ ?co] exI [of _ x])
qed

text \<open>The acceptor has its queue, an IPv4 address, its factory and all its pipes; the buffers \<open>os\<close> are in use.\<close>

definition serving :: "int \<Rightarrow> nat \<Rightarrow> nat list \<Rightarrow> 'g \<Rightarrow> ('g, 'd, 'x) apsys \<Rightarrow> bool" where
  "serving n pr os g s \<longleftrightarrow>
     (let ac = the_acceptor s in
      (\<exists>q. ac_queue ac = Some q \<and> q_inv q \<and> \<not> q_exit q) \<and>
      (\<exists>r a. ac_address ac = Some (r, a) \<and> AddressGetType a = ADDRESS_IPV4) \<and> factory_ok pr g (ac_factory ac) \<and>
      ac_nbReaders ac = int (length (ac_readers ac)) \<and> (\<forall>r \<in> set (ac_readers ac). \<exists>p. r = Some p \<and> pipe_open p) \<and>
      (\<exists>l \<in> set (loads ac). l < INT_MAX)) \<and>
     (\<exists>fs emp. pool_inv (16, n) n pr (ps_mem s) fs os emp)"

text \<open>Between two rounds it listens with one descriptor.\<close>

definition listening :: "int \<Rightarrow> nat \<Rightarrow> nat list \<Rightarrow> 'g \<Rightarrow> ('g, 'd, 'x) apsys \<Rightarrow> bool" where
  "listening n pr os g s \<longleftrightarrow> serving n pr os g s \<and>
     (\<exists>sel. ac_selector (the_acceptor s) = Some sel \<and> sel_inv sel \<and> idle sel \<and> length (registry sel) = 1)"

lemma serving_selector [simp]: "serving n pr os g (upd_acceptor (\<lambda>ac. ac\<lparr>ac_selector := y\<rparr>) s) = serving n pr os g s"
  unfolding serving_def loads_def Let_def by simp

text \<open>
  A connection that was accepted: it is initialised, reader, worker and writer will hear of it, the
  server's handler for new connections was called, and all but the reader are in charge of it.
\<close>

definition accepted :: "'d accept_env \<Rightarrow> 'g \<Rightarrow> ('g acceptor_handler, 'd) cobj \<Rightarrow> bool" where
  "accepted e g co \<longleftrightarrow> cn_state (co_conn co) = STATE_INITIALIZED \<and> cn_socket (co_conn co) = aa_sock e \<and>
     cn_address (co_conn co) = Some (aa_addr e) \<and> (\<forall>i. cn_closedBy (co_conn co) i \<longleftrightarrow> i = OWNER_CLIENT) \<and>
     (\<forall>i. cn_managedBy (co_conn co) i \<longleftrightarrow> i \<noteq> OWNER_READER) \<and>
     co_held (pipe_handlers close_handlers) (fired INIT_EVENT (bound_to (aa_data e) (server_handlers g))) co"

text \<open>The connection is in the acceptor's queue and in that of the reader of pipe \<open>i\<close>.\<close>

definition enlisted :: "penv \<Rightarrow> nat \<Rightarrow> nat \<Rightarrow> ('g, 'd, 'x) acceptor \<Rightarrow> ('g, 'd, 'x) acceptor \<Rightarrow> bool" where
  "enlisted env c i ac ac' \<longleftrightarrow> (\<exists>q q' p p' x sel. ac_queue ac = Some q \<and> q_inv q' \<and>
     abs_queue q' = (abs_queue q)\<lparr>a_items := q_items q @ [ITEM_DATA c]\<rparr> \<and>
     i < length (ac_readers ac) \<and> ac_readers ac ! i = Some p \<and> handed_to env c p p' \<and>
     ac' = ac\<lparr>ac_queue := Some q', ac_user := x, ac_handed := (ac_handed ac)(c \<mapsto> i), ac_readers := (ac_readers ac)[i := Some p'],
       ac_selector := sel\<rparr>)"

definition joined :: "penv \<Rightarrow> 'g \<Rightarrow> 'd accept_env \<Rightarrow> nat \<Rightarrow> ('g, 'd, 'x) apsys \<Rightarrow> ('g, 'd, 'x) apsys \<Rightarrow> bool" where
  "joined env g e i s s' \<longleftrightarrow> (\<exists>co. ps_conns s' = (ps_conns s)(aa_ref e \<mapsto> co) \<and> accepted e g co) \<and>
     enlisted env (aa_ref e) i (the_acceptor s) (the_acceptor s')"

lemma pipe_open_ext [simp]: "pipe_open (with_ext x p) = pipe_open p"
  by (simp add: pipe_open_def)

lemma servingD:
  assumes "serving n pr os g s"
  shows "\<exists>q. ac_queue (the_acceptor s) = Some q \<and> q_inv q \<and> \<not> q_exit q"
    "\<exists>r a. ac_address (the_acceptor s) = Some (r, a) \<and> AddressGetType a = ADDRESS_IPV4" "factory_ok pr g (ac_factory (the_acceptor s))"
    "\<exists>fs emp. pool_inv (16, n) n pr (ps_mem s) fs os emp"
  using assms by (simp_all add: serving_def Let_def)

lemma serving_choice:
  assumes "serving n pr os g s" and ac: "ac_readers ac = ac_readers (the_acceptor s)" "ac_nbReaders ac = ac_nbReaders (the_acceptor s)"
  defines "i \<equiv> least_loaded (loads (the_acceptor s))"
  shows "ChooseReader ac = Inr i \<and> i < length (ac_readers (the_acceptor s)) \<and> (\<exists>p. ac_readers (the_acceptor s) ! i = Some p \<and> pipe_open p)"
proof -
  let ?rs = "ac_readers (the_acceptor s)"
  have l: "ac_nbReaders ac = int (length ?rs)" "\<forall>r \<in> set ?rs. \<exists>p. r = Some p \<and> pipe_open p" "\<exists>l \<in> set (loads (the_acceptor s)). l < INT_MAX"
    using assms(1) ac by (simp_all add: serving_def Let_def)
  have ls: "loads ac = loads (the_acceptor s)" by (simp add: loads_def ac(1))
  have "ChooseReader ac = Inr i" unfolding i_def using ChooseReader_least [of ac] l ac(1) by (auto simp: ls)
  moreover have "loads (the_acceptor s) \<noteq> []" using l(3) by auto
  from least_loaded_min [OF this] have "i < length ?rs" by (simp add: i_def loads_def)
  moreover from this have "?rs ! i \<in> set ?rs" by simp
  ultimately show ?thesis using l(2) by blast
qed

lemma accept_one_seq:
  assumes env: "handler_env env" "welcoming uh" and l: "serving n pr os g s" and e: "accept_ok e" and n: "0 \<le> n" "n \<le> INT_MAX - 2"
  shows "returns (accept_one env uh e adr s) (\<lambda>(a, s'). joined env g e (least_loaded (loads (the_acceptor s))) s s' \<and>
    ac_selector (the_acceptor s') = ac_selector (the_acceptor s) \<and> (\<exists>rb wb fs emp. pool_inv (16, n) n pr (ps_mem s') fs (wb # rb # os) emp))"
proof -
  let ?i = "least_loaded (loads (the_acceptor s))" and ?c = "aa_ref e"
  obtain q where q: "ac_queue (the_acceptor s) = Some q" "q_inv q" "\<not> q_exit q" using servingD(1) [OF l] by blast
  obtain r own where own: "ac_address (the_acceptor s) = Some (r, own)" "AddressGetType own = ADDRESS_IPV4" using servingD(2) [OF l] by blast
  obtain fs emp where m: "pool_inv (16, n) n pr (ps_mem s) fs os emp" using servingD(4) [OF l] by blast
  obtain str where adr: "peer_address e ADDRESS_IPV4 adr s = Inr (Some (aa_addr e), s\<lparr>ps_addrs := (ps_addrs s)(aa_addr e \<mapsto> str)\<rparr>)"
    using e by (auto simp: accept_ok_def peer_address_def NewAddress_def Let_def)
  let ?s1 = "s\<lparr>ps_addrs := (ps_addrs s)(aa_addr e \<mapsto> str)\<rparr>"
  have m1: "pool_inv (16, n) n pr (ps_mem ?s1) fs os emp" and a1: "ps_addrs ?s1 (aa_addr e) = Some str"
    and f1: "factory_ok pr g (ac_factory (the_acceptor ?s1))" using m servingD(3) [OF l] by simp_all
  from create_seq [OF m1 n e f1 a1] obtain s2 co rb wb fs' emp' where
    s2: "create_connection e (Some (aa_addr e)) ?s1 = Inr s2" "s2 = ?s1\<lparr>ps_mem := ps_mem s2, ps_conns := (ps_conns ?s1)(?c \<mapsto> co)\<rparr>" "made e g co"
      "pool_inv (16, n) n pr (ps_mem s2) fs' (wb # rb # os) emp'" by (auto elim!: returnsE)
  have c2: "ps_conns s2 ?c = Some co" and a2: "ps_addrs s2 (aa_addr e) = Some str" and p2: "ps_pipe s2 = ps_pipe s"
    by (subst s2(2), simp)+
  from initialised_seq [OF env c2 s2(3) a2] obtain s3 co3 x where
    s3: "do_conn ?c (ConnectionState (core_cb (pipe_cb env (acceptor_cb uh))) (pe_fuel env) (pe_name env) STATE_INITIALIZED) s2 = Inr s3"
      "s3 = s2\<lparr>ps_conns := (ps_conns s2)(?c \<mapsto> co3), ps_pipe := (ps_pipe s2)\<lparr>pp_self := ?c, pp_ext := (the_acceptor s2)\<lparr>ac_user := x\<rparr>\<rparr>\<rparr>"
      "co_conn co3 = (co_conn co)\<lparr>cn_state := STATE_INITIALIZED\<rparr>"
      "co_held close_handlers (fired INIT_EVENT (bound_to (aa_data e) (server_handlers g))) co3" by (auto elim!: returnsE)
  have ac3: "the_acceptor s3 = (the_acceptor s)\<lparr>ac_user := x\<rparr>" by (simp add: s3(2) p2)
  have "abs_queue q = \<lparr>a_items = q_items q, a_exit = False, a_emptied = q_emptied q\<rparr>" using q(3) by (simp add: abs_queue_def)
  from Enqueue_open [OF q(2) this, of "ITEM_DATA ?c"] obtain q' where
    q': "Enqueue all_ok q (ITEM_DATA ?c) = Inr (True, q')" "q_inv q'" "abs_queue q' = (abs_queue q)\<lparr>a_items := q_items q @ [ITEM_DATA ?c]\<rparr>"
    using q(3) by (auto simp: is_exit_def abs_queue_def elim!: returnsE)
  let ?s4 = "upd_acceptor (\<lambda>ac. ac\<lparr>ac_queue := Some q'\<rparr>) s3"
  let ?s5 = "upd_acceptor (\<lambda>ac. ac\<lparr>ac_handed := (ac_handed ac)(?c \<mapsto> ?i)\<rparr>) ?s4"
  have ac5: "the_acceptor ?s5 = (the_acceptor s)\<lparr>ac_user := x, ac_queue := Some q', ac_handed := (ac_handed (the_acceptor s))(?c \<mapsto> ?i)\<rparr>"
    by (simp add: ac3)
  have ch: "ChooseReader (the_acceptor ?s4) = Inr ?i" and i: "?i < length (ac_readers (the_acceptor s))"
    and "\<exists>p. ac_readers (the_acceptor s) ! ?i = Some p \<and> pipe_open p"
    using serving_choice [OF l, of "the_acceptor ?s4"] by (simp_all add: ac3)
  then obtain p where p: "ac_readers (the_acceptor s) ! ?i = Some p" "pipe_open p" by blast
  let ?s6 = "put_pipe p ?s5"
  have c6: "ps_conns ?s6 ?c = Some co3" by (simp add: s3(2))
  have o6: "pipe_open (ps_pipe ?s6)" using p(2) by simp
  have mb: "cn_managedByLock (co_conn co3) = Some free_lock" "\<not> cn_managedBy (co_conn co3) OWNER_READER"
    using s2(3) by (simp_all add: s3(3) made_def)
  from ReaderManage_seq [OF c6 env(1) o6 _ mb, unfolded held_focus, OF s3(4), of "acceptor_cb uh"] obtain s7 co7 where
    s7: "ReaderManageConnection env (acceptor_cb uh) ?c ?s6 = Inr s7" "handed_to env ?c (ps_pipe ?s6) (ps_pipe s7)"
      "s7 = ?s6\<lparr>ps_conns := (ps_conns ?s6)(?c \<mapsto> co7), ps_pipe := ps_pipe s7\<rparr>"
      "co_conn co7 = (co_conn co3)\<lparr>cn_managedBy := (cn_managedBy (co_conn co3))(OWNER_WORKER := True, OWNER_WRITER := True)\<rparr>"
      "co_held (pipe_handlers close_handlers) (fired INIT_EVENT (bound_to (aa_data e) (server_handlers g))) co7"
    by (auto elim!: returnsE)
  let ?s8 = "store_pipe ?i ?s5 s7"
  have h: "pp_ext (ps_pipe s7) = the_acceptor ?s5" "handed_to env ?c p (with_ext () (ps_pipe s7))"
    using handed_to_ext [of env ?c "the_acceptor ?s5" p "ps_pipe s7"] s7(2) by simp_all
  have r: "accept_one env uh e adr s = Inr (Some (aa_addr e), ?s8)"
    using e own adr s2(1) s3(1) a1 q(1) q'(1) ch p(1) i s7(1) env(1)
    by (simp add: accept_one_def accept_ok_def ac3 Enqueue_ptr_def Let_def at_pipe_def get_pipe_def handler_env_def)
  have acc: "accepted e g co7" using s2(3) s7(5) by (auto simp: accepted_def made_def s7(4) s3(3)) (metis owner.exhaust)
  have c8: "ps_conns ?s8 = (ps_conns s)(?c \<mapsto> co7)"
  proof -
    have "ps_conns s7 = (ps_conns ?s6)(?c \<mapsto> co7)" by (subst s7(3)) simp
    moreover have "ps_conns s2 = (ps_conns s)(?c \<mapsto> co)" by (subst s2(2)) simp
    ultimately show ?thesis by (simp add: s3(2))
  qed
  have m8: "ps_mem ?s8 = ps_mem s2"
  proof -
    have "ps_mem s7 = ps_mem ?s6" by (subst s7(3)) simp
    then show ?thesis by (simp add: s3(2))
  qed
  have "the_acceptor ?s8 = (the_acceptor s)\<lparr>ac_queue := Some q', ac_user := x, ac_handed := (ac_handed (the_acceptor s))(?c \<mapsto> ?i),
       ac_readers := (ac_readers (the_acceptor s))[?i := Some (with_ext () (ps_pipe s7))]\<rparr>"
    unfolding store_pipe_simps h(1) ac5 by simp
  then have sel: "ac_selector (the_acceptor ?s8) = ac_selector (the_acceptor s)"
    and "the_acceptor ?s8 = (the_acceptor s)\<lparr>ac_queue := Some q', ac_user := x, ac_handed := (ac_handed (the_acceptor s))(?c \<mapsto> ?i),
       ac_readers := (ac_readers (the_acceptor s))[?i := Some (with_ext () (ps_pipe s7))], ac_selector := ac_selector (the_acceptor s)\<rparr>" by simp_all
  then have "enlisted env ?c ?i (the_acceptor s) (the_acceptor ?s8)" unfolding enlisted_def using q(1) q'(2,3) i p(1) h(2) by blast
  then have "joined env g e ?i s ?s8" unfolding joined_def using c8 acc by blast
  then show ?thesis unfolding r using s2(4) m8 sel by auto
qed

section \<open>Rounds of the acceptor's thread\<close>

lemma enlisted_selector:
  assumes "enlisted env c i (ac\<lparr>ac_selector := y\<rparr>) ac'"
  shows "enlisted env c i ac (ac'\<lparr>ac_selector := z\<rparr>)"
proof -
  from assms obtain q q' p p' x sel where e: "ac_queue ac = Some q" "q_inv q'" "abs_queue q' = (abs_queue q)\<lparr>a_items := q_items q @ [ITEM_DATA c]\<rparr>"
    "i < length (ac_readers ac)" "ac_readers ac ! i = Some p" "handed_to env c p p'"
    "ac' = ac\<lparr>ac_queue := Some q', ac_user := x, ac_handed := (ac_handed ac)(c \<mapsto> i), ac_readers := (ac_readers ac)[i := Some p'],
       ac_selector := sel\<rparr>" unfolding enlisted_def by auto
  have "ac'\<lparr>ac_selector := z\<rparr> = ac\<lparr>ac_queue := Some q', ac_user := x, ac_handed := (ac_handed ac)(c \<mapsto> i),
       ac_readers := (ac_readers ac)[i := Some p'], ac_selector := z\<rparr>" by (simp add: e(7))
  with e(1-6) show ?thesis unfolding enlisted_def by blast
qed

lemma joined_selector:
  "joined env g e i (upd_acceptor (\<lambda>ac. ac\<lparr>ac_selector := y\<rparr>) s) s' \<Longrightarrow> joined env g e i s (upd_acceptor (\<lambda>ac. ac\<lparr>ac_selector := z\<rparr>) s')"
  by (auto simp: joined_def intro: enlisted_selector)

lemma handed_to_load: "handed_to env c p p' \<Longrightarrow> pipe_open p \<Longrightarrow> rd_load (pp_reader p') = rd_load (pp_reader p) \<and> pipe_open p'"
  by (auto simp: handed_to_def pipe_open_def abs_queue_def)

text \<open>After the connection has joined, the acceptor serves as before.\<close>

lemma enlisted_loads:
  assumes "enlisted env c i ac ac'" "\<forall>r \<in> set (ac_readers ac). \<exists>p. r = Some p \<and> pipe_open p"
  shows "loads ac' = loads ac" "\<forall>r \<in> set (ac_readers ac'). \<exists>p. r = Some p \<and> pipe_open p" "length (ac_readers ac') = length (ac_readers ac)"
proof -
  from assms(1) obtain p p' where p: "i < length (ac_readers ac)" "ac_readers ac ! i = Some p" "handed_to env c p p'"
    "ac_readers ac' = (ac_readers ac)[i := Some p']" unfolding enlisted_def by auto
  have "Some p \<in> set (ac_readers ac)" using p(1,2) nth_mem by metis
  then have "pipe_open p" using assms(2) by blast
  note p' = handed_to_load [OF p(3) this]
  show "loads ac' = loads ac" using p(1,2) p' by (simp add: loads_def p(4) map_update list_update_same_conv)
  show "\<forall>r \<in> set (ac_readers ac'). \<exists>p. r = Some p \<and> pipe_open p"
    using assms(2) p' set_update_subset_insert [of "ac_readers ac" i "Some p'"] unfolding p(4) by blast
  show "length (ac_readers ac') = length (ac_readers ac)" by (simp add: p(4))
qed

lemma enlisted_fields:
  assumes "enlisted env c i ac ac'"
  shows "ac_address ac' = ac_address ac" "ac_factory ac' = ac_factory ac" "ac_nbReaders ac' = ac_nbReaders ac"
    "ac_handed ac' = (ac_handed ac)(c \<mapsto> i)" "j \<noteq> i \<Longrightarrow> ac_readers ac' ! j = ac_readers ac ! j"
  using assms unfolding enlisted_def by auto

lemma enlisted_queue:
  assumes "enlisted env c i ac ac'" "\<exists>q. ac_queue ac = Some q \<and> q_inv q \<and> \<not> q_exit q"
  shows "\<exists>q. ac_queue ac' = Some q \<and> q_inv q \<and> \<not> q_exit q" "q_items (the (ac_queue ac')) = q_items (the (ac_queue ac)) @ [ITEM_DATA c]"
  using assms unfolding enlisted_def by (auto simp: abs_queue_def)

lemma joined_serving:
  assumes j: "joined env g e i s s'" and l: "serving n pr os g s" and m: "pool_inv (16, n) n pr (ps_mem s') fs os' emp"
  shows "serving n pr os' g s' \<and> loads (the_acceptor s') = loads (the_acceptor s)"
proof -
  have e: "enlisted env (aa_ref e) i (the_acceptor s) (the_acceptor s')" using j by (simp add: joined_def)
  note f = enlisted_fields [OF e]
  have a: "\<exists>q. ac_queue (the_acceptor s) = Some q \<and> q_inv q \<and> \<not> q_exit q" "\<forall>r \<in> set (ac_readers (the_acceptor s)). \<exists>p. r = Some p \<and> pipe_open p"
    using l unfolding serving_def Let_def by blast+
  show ?thesis using l m enlisted_queue(1) [OF e a(1)] enlisted_loads [OF e a(2)] unfolding serving_def Let_def f by metis
qed

lemma one_key_round:
  assumes i: "sel_inv sel" "idle sel" "length (registry sel) = 1"
    and o: "find (\<lambda>x. x \<noteq> PollInterrupted) outs = Some (PollReady [ra, rb])" "is_ready rb"
  shows "\<exists>nb z y x k r. Select outs sel = Inr (nb, z) \<and> 0 < nb \<and> SelectionKeyReady rpa z = Inr (True, k, y) \<and>
    SelectionKeyReady rpb y = Inr (False, r, x) \<and> sel_inv x \<and> idle x \<and> registry x = registry sel"
proof -
  from i(1) obtain bs fs where s: "s_lock sel = Some free_lock" "sel_nodes sel bs fs" "sel_keys sel bs fs" by (rule sel_invE)
  have reg: "registry sel = map (entry (s_heap sel)) bs" by (rule sel_nodes_registry [OF s(2)])
  then obtain n where bs: "bs = [n]" using i(3) by (auto simp: length_Suc_conv)
  have at: "at_pos sel bs fs [] bs" using idle_pos [OF s(2,3)] i(2) bs by simp
  have rs: "length [ra, rb] = Suc (length bs)" by (simp add: bs)
  obtain nb z where z: "Select outs sel = Inr (nb, z)" "at_pos z bs fs [] bs" "s_lock z = Some free_lock" "registry z = registry sel"
    "ready z n" and nb: "nb = int (length (filter (\<lambda>r. r \<noteq> 0) [ra, rb])) - (if and ra OP_READ \<noteq> 0 then 1 else 0)"
    using Select_pos [OF at s(1) o(1) rs] o(2) by (auto simp: bs elim!: returnsE)
  have "rb \<noteq> 0" using o(2) by (auto simp: is_ready_def)
  then have "0 < nb" unfolding nb by auto
  let ?rp = "\<lambda>j. if j = 1 then rpa else rpb"
  obtain x where c: "collect 2 ?rp z = Inr ([n], x)" "round_done z bs fs x"
    using collect_pos [OF z(2,3), of 2 ?rp] z(5) by (auto simp: bs elim!: returnsE)
  have zn: "sel_nodes z bs fs" "sel_keys z bs fs" using z(2) unfolding at_pos_def by blast+
  have "sel_inv z" by (rule sel_invI [OF zn(2,1) z(3)])
  moreover have "registry z \<noteq> []" using z(4) i(3) by auto
  ultimately have x: "sel_inv x" "registry x = registry sel" using collect_keeps [OF _ _ c(1)] z(4) by simp_all
  have "idle x" using c(2) idle_pos [of x bs fs] bs unfolding round_done_def at_pos_def [of x] by blast
  moreover have "\<exists>y k r. SelectionKeyReady rpa z = Inr (True, k, y) \<and> SelectionKeyReady rpb y = Inr (False, r, x)"
    using c(1) by (auto simp: numeral_2_eq_2 bnd_eq_Inr split: if_splits)
  ultimately show ?thesis using z(1) \<open>0 < nb\<close> x by blast
qed

text \<open>The descriptor is ready: one connection is accepted, however many wait.\<close>

definition round_ok :: "poll_result list \<times> 'd accept_env \<times> 'd accept_env \<Rightarrow> bool" where
  "round_ok r \<longleftrightarrow> accept_ok (fst (snd r)) \<and>
     (\<exists>ra rb. find (\<lambda>x. x \<noteq> PollInterrupted) (fst r) = Some (PollReady [ra, rb]) \<and> is_ready rb)"

lemma AcceptorRun_seq:
  assumes env: "handler_env env" "welcoming uh" and l: "listening n pr os g s" and r: "round_ok (outs, e, e')" and n: "0 \<le> n" "n \<le> INT_MAX - 2"
  shows "returns (AcceptorRun env uh outs [e, e'] s) (\<lambda>(b, s'). b \<and> joined env g e (least_loaded (loads (the_acceptor s))) s s' \<and>
    (\<exists>rb wb. listening n pr (wb # rb # os) g s') \<and> loads (the_acceptor s') = loads (the_acceptor s))"
proof -
  obtain sel where sel: "ac_selector (the_acceptor s) = Some sel" "sel_inv sel" "idle sel" "length (registry sel) = 1"
    using l unfolding listening_def Let_def by blast
  from r obtain ra rb where o: "accept_ok e" "find (\<lambda>x. x \<noteq> PollInterrupted) outs = Some (PollReady [ra, rb])" "is_ready rb"
    by (auto simp: round_ok_def)
  from one_key_round [OF sel(2-4) o(2,3), of "aa_repoll e" "aa_repoll e'"] obtain nb z y x k r where
    k: "Select outs sel = Inr (nb, z)" "0 < nb" "SelectionKeyReady (aa_repoll e) z = Inr (True, k, y)"
      "SelectionKeyReady (aa_repoll e') y = Inr (False, r, x)" "sel_inv x" "idle x" "registry x = registry sel" by blast
  let ?sel = "\<lambda>y. upd_acceptor (\<lambda>ac. ac\<lparr>ac_selector := Some y\<rparr>)"
  have twice: "?sel y (?sel z t) = ?sel y t" for y z and t :: "('a, 'b, 'c) apsys" by (simp add: upd_acceptor_def)
  have ls: "loads (the_acceptor (?sel y s)) = loads (the_acceptor s)" by (simp add: loads_def)
  have "serving n pr os g (?sel y s)" using l by (simp add: listening_def)
  from accept_one_seq [OF env this o(1) n, of None] obtain a t rb wb fs emp where
    t: "accept_one env uh e None (?sel y s) = Inr (a, t)" "joined env g e (least_loaded (loads (the_acceptor s))) (?sel y s) t"
      "pool_inv (16, n) n pr (ps_mem t) fs (wb # rb # os) emp" "ac_selector (the_acceptor t) = Some y"
    unfolding ls by (auto elim!: returnsE)
  let ?t = "?sel x t"
  have j: "joined env g e (least_loaded (loads (the_acceptor s))) s ?t" using joined_selector [OF t(2)] .
  have sv: "serving n pr os g s" using l by (simp add: listening_def)
  have "serving n pr (wb # rb # os) g ?t \<and> loads (the_acceptor ?t) = loads (the_acceptor s)"
    by (rule joined_serving [OF j sv]) (use t(3) in simp)
  moreover have "ac_selector (the_acceptor ?t) = Some x" by simp
  moreover have "AcceptorRun env uh outs [e, e'] s = Inr (True, ?t)"
    using sel(1) k(1-4) t(1,4) by (simp add: AcceptorRun_def Let_def twice)
  ultimately show ?thesis using j k(5-7) sel(4) by (auto simp: listening_def)
qed

text \<open>
  The routine of the acceptor's thread is called again and again; nothing else runs in between. Each
  call has the results of \<open>poll\<close> and the answers for the ready key and for the end of the iteration.
\<close>

fun accept_rounds ::
  "penv \<Rightarrow> ('g, 'd, 'x) ahandler \<Rightarrow> (poll_result list \<times> 'd accept_env \<times> 'd accept_env) list \<Rightarrow> ('g, 'd, 'x) apsys \<Rightarrow>
   ('g, 'd, 'x) apsys res" where
  "accept_rounds env uh [] s = Inr s"
| "accept_rounds env uh ((outs, e, e') # rs) s = bnd (AcceptorRun env uh outs [e, e'] s) (\<lambda>(_, s1). accept_rounds env uh rs s1)"

definition new_ref :: "poll_result list \<times> 'd accept_env \<times> 'd accept_env \<Rightarrow> nat" where
  "new_ref r = aa_ref (fst (snd r))"

definition reader_items :: "nat \<Rightarrow> ('g, 'd, 'x) apsys \<Rightarrow> nat qitem list" where
  "reader_items i s = q_items (the (rd_queue (pp_reader (the (ac_readers (the_acceptor s) ! i)))))"

definition acceptor_items :: "('g, 'd, 'x) apsys \<Rightarrow> nat qitem list" where
  "acceptor_items s = q_items (the (ac_queue (the_acceptor s)))"

text \<open>What a burst of connections leaves when all of them have been handed to pipe \<open>i\<close>.\<close>

definition burst ::
  "'g \<Rightarrow> nat \<Rightarrow> (poll_result list \<times> 'd accept_env \<times> 'd accept_env) list \<Rightarrow> ('g, 'd, 'x) apsys \<Rightarrow> ('g, 'd, 'x) apsys \<Rightarrow> bool" where
  "burst g i rs s s' \<longleftrightarrow> loads (the_acceptor s') = loads (the_acceptor s) \<and>
     (\<forall>r \<in> set rs. ac_handed (the_acceptor s') (new_ref r) = Some i \<and>
        (\<exists>co. ps_conns s' (new_ref r) = Some co \<and> accepted (fst (snd r)) g co)) \<and>
     (\<forall>c. c \<notin> new_ref ` set rs \<longrightarrow> ps_conns s' c = ps_conns s c \<and> ac_handed (the_acceptor s') c = ac_handed (the_acceptor s) c) \<and>
     acceptor_items s' = acceptor_items s @ map (\<lambda>r. ITEM_DATA (new_ref r)) rs \<and>
     reader_items i s' = reader_items i s @ map (\<lambda>r. ITEM_DATA (new_ref r)) rs \<and>
     (\<forall>j. j \<noteq> i \<longrightarrow> ac_readers (the_acceptor s') ! j = ac_readers (the_acceptor s) ! j)"

lemma joined_burst:
  assumes j: "joined env g e i s s'" and sv: "serving n pr os g s" and ls: "loads (the_acceptor s') = loads (the_acceptor s)"
  shows "burst g i [(outs, e, e')] s s'"
proof -
  have en: "enlisted env (aa_ref e) i (the_acceptor s) (the_acceptor s')"
    and co: "\<exists>co. ps_conns s' = (ps_conns s)(aa_ref e \<mapsto> co) \<and> accepted e g co" using j by (simp_all add: joined_def)
  have "reader_items i s' = reader_items i s @ [ITEM_DATA (aa_ref e)]"
    using en unfolding enlisted_def reader_items_def by (auto simp: handed_to_def abs_queue_def)
  then show ?thesis
    using enlisted_fields [OF en] enlisted_queue(2) [OF en] servingD(1) [OF sv] co ls
    by (auto simp: burst_def new_ref_def acceptor_items_def)
qed

lemma burst_trans:
  assumes "burst g i [r] s t" "burst g i rs t u" "new_ref r \<notin> new_ref ` set rs"
  shows "burst g i (r # rs) s u"
  using assms unfolding burst_def by auto

lemma accept_rounds_burst:
  assumes env: "handler_env env" "welcoming uh" and n: "0 \<le> n" "n \<le> INT_MAX - 2"
  shows "listening n pr os g s \<Longrightarrow> \<forall>r \<in> set rs. round_ok r \<Longrightarrow> distinct (map new_ref rs) \<Longrightarrow>
    returns (accept_rounds env uh rs s) (\<lambda>s'. burst g (least_loaded (loads (the_acceptor s))) rs s s' \<and>
      (\<exists>os'. length os' = 2 * length rs \<and> listening n pr (os' @ os) g s'))"
proof (induction rs arbitrary: s os)
  case Nil
  then show ?case by (auto simp: burst_def intro!: exI [of _ "[]"])
next
  case (Cons r rs)
  obtain outs e e' where r: "r = (outs, e, e')" by (cases r) auto
  let ?i = "least_loaded (loads (the_acceptor s))"
  obtain t wb rb where t: "AcceptorRun env uh outs [e, e'] s = Inr (True, t)" "joined env g e ?i s t" "listening n pr (wb # rb # os) g t"
    "loads (the_acceptor t) = loads (the_acceptor s)"
    using AcceptorRun_seq [OF env Cons.prems(1) _ n, of outs e e'] Cons.prems(2) r by (auto elim!: returnsE)
  have sv: "serving n pr os g s" using Cons.prems(1) by (simp add: listening_def)
  have b: "burst g ?i [r] s t" unfolding r by (rule joined_burst [OF t(2) sv t(4)])
  have "returns (accept_rounds env uh rs t) (\<lambda>s'. burst g ?i rs t s' \<and> (\<exists>os'. length os' = 2 * length rs \<and> listening n pr (os' @ wb # rb # os) g s'))"
    using Cons.IH [OF t(3)] Cons.prems(2,3) t(4) by simp
  then show ?case unfolding r accept_rounds.simps t(1) bnd_Inr prod.case
  proof (rule returns_mono, elim conjE exE)
    fix s' os' assume a: "burst g ?i rs t s'" "length os' = 2 * length rs" "listening n pr (os' @ wb # rb # os) g s'"
    have "burst g ?i (r # rs) s s'" by (rule burst_trans [OF b a(1)]) (use Cons.prems(3) in auto)
    then show "burst g ?i ((outs, e, e') # rs) s s' \<and> (\<exists>os'. length os' = 2 * length ((outs, e, e') # rs) \<and> listening n pr (os' @ os) g s')"
      using a(2,3) unfolding r by (auto intro!: exI [of _ "os' @ [wb, rb]"])
  qed
qed

text \<open>
  C7. A burst of connections. However many connections the acceptor accepts before a reader has run, all
  of them go to the one pipe that had the smallest load when the burst began, for the load of a pipe
  only grows once its reader takes a connection over. Each call of the acceptor's routine accepts
  one connection. None is lost or doubled: each is initialised, known to the acceptor, queued once
  and in order for the acceptor and for the reader of that pipe, and has the handlers of the factory
  and of the pipe; the other pipes and connections are as before, each new connection holds two
  buffers of the factory's pool, and the acceptor listens for the next.
\<close>

theorem burst_joins_one_pipe:
  assumes "handler_env env" "welcoming uh" "0 \<le> n" "n \<le> INT_MAX - 2"
    and "listening n pr os g s" "\<forall>r \<in> set rs. round_ok r" "distinct (map new_ref rs)"
  shows "returns (accept_rounds env uh rs s) (\<lambda>s'. burst g (least_loaded (loads (the_acceptor s))) rs s s' \<and>
    (\<exists>os'. length os' = 2 * length rs \<and> listening n pr (os' @ os) g s'))"
  by (rule accept_rounds_burst [OF assms])

text \<open>An acceptor with three pipes of loads 2, 1 and 1.\<close>

definition open_pipe :: "int \<Rightarrow> unit pipe" where
  "open_pipe l = no_pipe\<lparr>pp_reader := (pp_reader no_pipe)\<lparr>rd_queue := Some new_queue, rd_selector := Some (new_selector 3 4), rd_load := l\<rparr>,
     pp_worker := Some \<lparr>wk_name = None, wk_pipe = None, wk_thread = None, wk_bufferSize = 8, wk_queue = Some new_queue, wk_pool = None\<rparr>\<rparr>"

lemma open_pipe_open: "pipe_open (open_pipe l)" "rd_load (pp_reader (open_pipe l)) = l"
  using new_queue_inv by (simp_all add: pipe_open_def open_pipe_def new_queue_fields)

lemma server_handlers_made: "\<exists>q. eq_inv q \<and> handlers q = server_handlers g"
proof -
  let ?ops = "map (\<lambda>(ev, once). EAdd (server_handler g ev once)) [(INIT_EVENT, True), (CONNECTED_EVENT, True), (READ_EVENT, False),
    (WRITE_EVENT, False), (CLOSE_EVENT, True), (FREE_EVENT, True)]"
  have "fold reg_step ?ops (\<lambda>_. []) = server_handlers g"
    by (auto simp: server_handlers_def server_handler_def pipe_h_def fun_eq_iff)
  then show ?thesis using eq_run_seq [OF new_equeue_inv(1), of ?ops] by (auto simp: new_equeue_inv(2) elim!: returnsE)
qed

lemma close_handlers_made: "\<exists>q. eq_inv q \<and> handlers q = close_handlers"
  using eq_run_seq [OF new_equeue_inv(1), of "[EAdd (pipe_h CLOSE_EVENT (UserHandler AcceptorCloseHandler) True)]"]
  by (auto simp: new_equeue_inv(2) close_handlers_def pipe_h_def elim!: returnsE)

definition sample_asys :: "selector \<Rightarrow> (unit acceptor_handler phandler, unit) equeue \<Rightarrow> (unit acceptor_handler phandler, unit) equeue \<Rightarrow>
  (unit, unit, unit) apsys" where
  "sample_asys sel qs qu = \<lparr>ps_conns = Map.empty, ps_mem = tight_pool, ps_addrs = [0 \<mapsto> ''[0.0.0.0]:80''], ps_raised = [],
     ps_pipe = with_ext ((some_acceptor [])\<lparr>
       ac_address := Some (0, \<lparr>ad_string = None, ad_type = ADDRESS_IPV4, ad_address = None, ad_size = 16\<rparr>),
       ac_readers := map (Some \<circ> open_pipe) [2, 1, 1], ac_nbReaders := 3, ac_selector := Some sel, ac_queue := Some new_queue,
       ac_factory := \<lparr>co_sys = Some qs, co_usr = Some qu,
         co_conn = (w_conn (sample_world STATE_NONE small_buffer small_buffer new_equeue))\<lparr>cn_pool := Some 0\<rparr>, co_net = [],
         co_readKey = None\<rparr>\<rparr>) no_pipe\<rparr>"

lemma sample_listening:
  assumes "sel_inv sel" "idle sel" "length (registry sel) = 1" "eq_inv qs" "handlers qs = close_handlers" "eq_inv qu" "handlers qu = server_handlers ()"
  shows "listening 8 0 [0] () (sample_asys sel qs qu)" "loads (the_acceptor (sample_asys sel qs qu)) = [2, 1, 1]"
  using assms new_queue_inv tight_pool_inv
  by (auto simp: listening_def serving_def Let_def sample_asys_def factory_ok_def co_held_def loads_def open_pipe_open AddressGetType_def
      new_queue_fields INT_MAX_def)

definition sample_accept :: "nat \<Rightarrow> unit accept_env" where
  "sample_accept r = \<lparr>aa_repoll = None, aa_sock = 9, aa_port = 5000, aa_host = Some ''127.0.0.1'', aa_mem = (True, True, True),
     aa_resolver = (\<lambda>_ _. None), aa_info = (\<lambda>_. None), aa_addr = r, aa_conn = good_env, aa_copy = all_ok, aa_fcntl = True,
     aa_data = None, aa_ref = r\<rparr>"

definition sample_round :: "nat \<Rightarrow> poll_result list \<times> unit accept_env \<times> unit accept_env" where
  "sample_round r = ([PollInterrupted, PollReady [0, 1]], sample_accept r, sample_accept 0)"

theorem burst_joins_one_pipe_witness:
  "\<exists>s s' :: (unit, unit, unit) apsys. loads (the_acceptor s) = [2, 1, 1] \<and> accept_rounds sample_penv (\<lambda>_ _ _. Inr) (map sample_round [1, 2]) s = Inr s' \<and>
     reader_items 1 s' = [ITEM_DATA 1, ITEM_DATA 2] \<and> ac_handed (the_acceptor s') 2 = Some 1"
proof (rule one_key)
  fix sel assume sel: "sel_inv sel" "registry sel = [(1, 7, OP_READ, 1, 1)]" "idle sel"
  obtain qs qu :: "(unit acceptor_handler phandler, unit) equeue" where q: "eq_inv qs" "handlers qs = close_handlers" "eq_inv qu" "handlers qu = server_handlers ()"
    using close_handlers_made server_handlers_made by metis
  let ?s = "sample_asys sel qs qu"
  have l: "listening 8 0 [0] () ?s" "loads (the_acceptor ?s) = [2, 1, 1]"
    using sample_listening [OF sel(1,3) _ q] sel(2) by simp_all
  have w: "welcoming (\<lambda>_ _ _. Inr :: (unit, unit, unit) acore \<Rightarrow> _)"
    unfolding welcoming_def upd_pipe_def by (intro allI exI [of _ "()"]) simp
  have n: "0 \<le> (8 :: int)" "(8 :: int) \<le> INT_MAX - 2" by (simp_all add: INT_MAX_def)
  have r: "\<forall>r \<in> set (map sample_round [1, 2]). round_ok r" "distinct (map new_ref (map sample_round [1, 2]))"
    using good_env_ok by (auto simp: sample_round_def round_ok_def accept_ok_def sample_accept_def is_ready_def new_ref_def)
  have "least_loaded [2, 1, 1] = 1" by (simp add: least_loaded_def upt_rec)
  moreover have e: "reader_items 1 ?s = []" by (simp add: reader_items_def sample_asys_def open_pipe_def new_queue_fields)
  ultimately have "returns (accept_rounds sample_penv (\<lambda>_ _ _. Inr) (map sample_round [1, 2]) ?s) (burst () 1 (map sample_round [1, 2]) ?s)"
    by (intro returns_mono [OF burst_joins_one_pipe [OF sample_handler_env w n l(1) r]]) (simp only: l(2))
  then obtain s' where s: "accept_rounds sample_penv (\<lambda>_ _ _. Inr) (map sample_round [1, 2]) ?s = Inr s'"
    and b: "burst () 1 (map sample_round [1, 2]) ?s s'" by (rule returnsE)
  have ref: "new_ref (sample_round k) = k" for k by (simp add: new_ref_def sample_round_def sample_accept_def)
  from b have "reader_items 1 s' = [ITEM_DATA 1, ITEM_DATA 2]" "ac_handed (the_acceptor s') 2 = Some 1"
    by (simp_all add: burst_def e ref del: One_nat_def)
  with l(2) s show ?thesis by blast
qed

end
