(* ===== verification/ServerFlow.thy ===== *)
theory ServerFlow
  imports Servers AcceptFlow
begin

text \<open>
  The start of a server of \<open>src/server.c\<close>: from \<open>NewServer\<close> and \<open>ServerStart\<close> to an acceptor that listens
  with all its pipes, and what becomes of a server whose acceptor cannot be created.
\<close>

section \<open>One pipe of an acceptor\<close>

text \<open>A pool beside which another one is created stays as it is.\<close>

lemma pool_beside:
  assumes "pool_inv c n pr m fs os e" "pool_added n' m m'" "pr < bm_tick m"
  shows "pool_inv c n pr m' fs os e" "pr < bm_tick m'"
proof -
  have f: "frame (bm_tick m) {} m m'" and t: "bm_tick m < bm_tick m'" using assms(2) by (simp_all add: pool_added_def)
  have "bm_pools m' pr = bm_pools m pr" using frameD(2) [OF f, of pr] assms(3) by simp
  moreover have "bm_bufs m' r = bm_bufs m r" if "r \<in> set fs \<union> set os" for r
    using frameD(1) [OF f, of r] assms(1) that by (auto simp: pool_inv_def)
  ultimately show "pool_inv c n pr m' fs os e" using assms(1) t unfolding pool_inv_def pool_queue_def by force
  show "pr < bm_tick m'" using assms(3) t by simp
qed

lemma GetBufferPoolBufferSize_inv: "pool_inv (b, n) k pr m fs os e \<Longrightarrow> GetBufferPoolBufferSize pr m = Inr n"
  by (auto simp: GetBufferPoolBufferSize_def pool_inv_def pool_queue_def)

definition with_reader :: "nat \<Rightarrow> unit pipe \<Rightarrow> bmem \<Rightarrow> ('g, 'd, 'x) apsys \<Rightarrow> ('g, 'd, 'x) apsys" where
  "with_reader i p m s = upd_acceptor (\<lambda>ac. ac\<lparr>ac_readers := (ac_readers ac)[i := Some p]\<rparr>) (s\<lparr>ps_mem := m\<rparr>)"

text \<open>A pipe that has just been opened.\<close>

definition pipe_ready :: "unit pipe \<Rightarrow> bool" where
  "pipe_ready p \<longleftrightarrow> pipe_open p \<and> rd_load (pp_reader p) = 0"

lemma store_pipe_as_with_reader:
  assumes "s' = s\<lparr>ps_mem := m, ps_pipe := P\<rparr>" "the_acceptor s' = the_acceptor s"
  shows "store_pipe i s s' = with_reader i (with_ext () (ps_pipe s')) m s"
  using assms by (cases s, cases "ps_pipe s") (simp add: store_pipe_def with_reader_def upd_acceptor_def put_pipe_def with_ext_def)

lemma open_reader_seq:
  fixes w :: "('g, 'd, 'x) athreads"
  assumes L: "calm_life (al_pipe A i)" and n: "0 \<le> n" "n \<le> INT_MAX - 2" and r: "reg_inv w ts" "room 3 w"
    and m: "cn_pool (co_conn (ac_factory (the_acceptor (tw_user w)))) = Some pr" "pool_inv (16, n) n pr (ps_mem (tw_user w)) fs os e"
  shows "returns (open_reader A uh i w) (\<lambda>(b, w'). b \<and> (\<exists>new p m. length new = 3 \<and> threads_added new ts w w' \<and> pipe_ready p \<and>
    pool_added n (ps_mem (tw_user w)) m \<and> tw_user w' = with_reader i p m (tw_user w)))"
proof -
  let ?s = "tw_user w" and ?nm = "if al_name A i then Some (pipe_name i) else None"
  let ?w = "on_psys (put_pipe no_pipe) w"
  have r': "reg_inv ?w ts" "room 3 ?w" using r by (simp_all add: room_def)
  from NewReader_seq [OF L n r', of "acceptor_cb uh" ?nm] obtain w1 where
    w1: "NewReader (al_pipe A i) (acceptor_cb uh) ?nm n ?w = Inr (True, w1)" "pipe_up (al_pipe A i) ?nm n ts ?w w1"
    by (auto elim!: returnsE)
  then obtain th1 th2 th3 fds m where up:
    "threads_added [(tw_tick w, th1), (Suc (tw_tick w), th2), (Suc (Suc (tw_tick w)), th3)] ts w w1"
    "pool_added n (ps_mem ?s) m" "tw_user w1 = with_pipe (al_pipe A i) ?nm n (tw_tick w) fds m (put_pipe no_pipe ?s)"
    by (auto simp: pipe_up_def threads_added_def)
  have w: "tw_user w1 = ?s\<lparr>ps_mem := m, ps_pipe := ps_pipe (tw_user w1)\<rparr>" "the_acceptor (tw_user w1) = the_acceptor ?s"
    unfolding up(3) by (simp_all add: with_pipe_def with_worker_def put_pipe_def)
  have "pipe_ready (with_ext () (ps_pipe (tw_user w1)))" unfolding up(3)
    by (simp add: with_pipe_def with_worker_def pipe_ready_def pipe_open_def up_reader_def new_queue_fields new_queue_inv)
  moreover have "tw_user (on_psys (store_pipe i ?s) w1) = with_reader i (with_ext () (ps_pipe (tw_user w1))) m ?s"
    using store_pipe_as_with_reader [OF w] by simp
  moreover have "open_reader A uh i w = Inr (True, on_psys (store_pipe i ?s) w1)"
    using w1(1) m(1) GetBufferPoolBufferSize_inv [OF m(2)] by (simp add: open_reader_def Let_def)
  ultimately show ?thesis using up(1,2)
    by (auto intro!: exI [of _ "[(tw_tick w, th1), (Suc (tw_tick w), th2), (Suc (Suc (tw_tick w)), th3)]"])
qed

section \<open>All the pipes\<close>

lemma threads_added_append:
  assumes a: "threads_added new ts w w1" and b: "threads_added new' (ts @ map fst new) w1 w2"
  shows "threads_added (new @ new') ts w w2"
proof -
  have k: "map fst new = [tw_tick w..<tw_tick w1]" "map fst new' = [tw_tick w1..<tw_tick w1 + length new']" "tw_tick w1 = tw_tick w + length new"
    using a b by (simp_all add: threads_added_def)
  have "set (map fst new) = {tw_tick w..<tw_tick w1}" "set (map fst new') = {tw_tick w1..<tw_tick w1 + length new'}" unfolding k(1,2) by simp_all
  then have "dom (map_of new) \<inter> dom (map_of new') = {}" unfolding dom_map_of_conv_image_fst by auto
  then have "map_of new ++ map_of new' = map_of new' ++ map_of new" by (rule map_add_comm)
  then have "tw_heap w2 = tw_heap w ++ map_of (new @ new')"
    using a b by (simp add: threads_added_def map_add_assoc [symmetric] del: map_add_assoc)
  moreover have "map fst (new @ new') = [tw_tick w..<tw_tick w + length (new @ new')]"
    using k upt_add_eq_append [of "tw_tick w" "tw_tick w + length new" "length new'"] by (simp add: add.assoc)
  moreover have "reg_inv w2 (ts @ map fst (new @ new'))" using b unfolding threads_added_def map_append append_assoc by blast
  ultimately show ?thesis using a b unfolding threads_added_def by simp
qed

lemma threads_added_user_before [simp]: "threads_added new ts (w\<lparr>tw_user := u\<rparr>) w' = threads_added new ts w w'"
  unfolding threads_added_def by simp

lemma threads_added_listed:
  "threads_added new ts w w' \<Longrightarrow>
   listed (take (nat (tw_num w')) (tw_threads w')) = ts @ [tw_tick w..<tw_tick w + length new]"
  unfolding threads_added_def reg_inv_def by metis

lemma threads_added_room: "threads_added new ts w w' \<Longrightarrow> room (length new + k) w \<Longrightarrow> room k w'"
  by (simp add: threads_added_def room_def)

fun put_from :: "nat \<Rightarrow> 'a list \<Rightarrow> 'a list \<Rightarrow> 'a list" where
  "put_from i [] xs = xs"
| "put_from i (p # ps) xs = put_from (Suc i) ps (xs[i := p])"

lemma put_from_end: "put_from (length xs) ps (xs @ replicate (length ps) x) = xs @ ps"
proof (induction ps arbitrary: xs)
  case (Cons p ps)
  then show ?case using Cons.IH [of "xs @ [p]"] by (simp add: list_update_append)
qed simp

definition with_readers :: "nat \<Rightarrow> unit pipe list \<Rightarrow> bmem \<Rightarrow> ('g, 'd, 'x) apsys \<Rightarrow> ('g, 'd, 'x) apsys" where
  "with_readers i ps m s = upd_acceptor (\<lambda>ac. ac\<lparr>ac_readers := put_from i (map Some ps) (ac_readers ac)\<rparr>) (s\<lparr>ps_mem := m\<rparr>)"

lemma with_readers_Cons: "with_readers (Suc i) ps m' (with_reader i p m s) = with_readers i (p # ps) m' s"
  by (simp add: with_readers_def with_reader_def upd_acceptor_def)

lemma with_reader_simps [simp]: "ps_mem (with_reader i p m s) = m"
  "ac_factory (the_acceptor (with_reader i p m s)) = ac_factory (the_acceptor s)"
  by (simp_all add: with_reader_def)

lemma start_pipes_seq:
  fixes w :: "('g, 'd, 'x) athreads"
  assumes L: "\<And>j. calm_life (al_pipe A j)" and n: "0 \<le> n" "n \<le> INT_MAX - 2"
  shows "reg_inv w ts \<Longrightarrow> room (3 * k) w \<Longrightarrow> cn_pool (co_conn (ac_factory (the_acceptor (tw_user w)))) = Some pr \<Longrightarrow>
    pool_inv (16, n) n pr (ps_mem (tw_user w)) fs os e \<Longrightarrow> pr < bm_tick (ps_mem (tw_user w)) \<Longrightarrow>
    returns (start_pipes A uh k i w) (\<lambda>(j, w'). j = i + k \<and> (\<exists>new ps m. length new = 3 * k \<and> threads_added new ts w w' \<and>
      length ps = k \<and> (\<forall>p \<in> set ps. pipe_ready p) \<and> pool_inv (16, n) n pr m fs os e \<and> tw_user w' = with_readers i ps m (tw_user w)))"
proof (induction k arbitrary: i w ts)
  case 0
  have "tw_user w = with_readers i [] (ps_mem (tw_user w)) (tw_user w)" by (simp add: with_readers_def upd_acceptor_def)
  then show ?case using 0 threads_added_none by (fastforce intro!: exI [of _ "[]"])
next
  case (Suc k)
  have "room 3 w" using Suc.prems(2) by (simp add: room_def)
  from open_reader_seq [where A = A, OF L n Suc.prems(1) this Suc.prems(3,4), where i = i and uh = uh] obtain w1 new p m where
    o: "open_reader A uh i w = Inr (True, w1)" "length new = 3" "threads_added new ts w w1" "pipe_ready p"
      "pool_added n (ps_mem (tw_user w)) m" "tw_user w1 = with_reader i p m (tw_user w)" by (auto elim!: returnsE)
  have "reg_inv w1 (ts @ map fst new)" using o(3) unfolding threads_added_def by blast
  moreover have "room (3 * k) w1" using threads_added_room [OF o(3), of "3 * k"] Suc.prems(2) o(2) by simp
  moreover note pool_beside [OF Suc.prems(4) o(5) Suc.prems(5)]
  ultimately have "returns (start_pipes A uh k (Suc i) w1) (\<lambda>(j, w'). j = Suc i + k \<and> (\<exists>new' ps m'. length new' = 3 * k \<and>
      threads_added new' (ts @ map fst new) w1 w' \<and> length ps = k \<and> (\<forall>p \<in> set ps. pipe_ready p) \<and> pool_inv (16, n) n pr m' fs os e \<and>
      tw_user w' = with_readers (Suc i) ps m' (tw_user w1)))"
    by (intro Suc.IH) (simp_all add: o(6) Suc.prems(3))
  then obtain w2 new' ps m' where r: "start_pipes A uh k (Suc i) w1 = Inr (Suc i + k, w2)" "length new' = 3 * k"
      "threads_added new' (ts @ map fst new) w1 w2" "length ps = k" "\<forall>p \<in> set ps. pipe_ready p" "pool_inv (16, n) n pr m' fs os e"
      "tw_user w2 = with_readers (Suc i) ps m' (tw_user w1)"
    by (auto elim!: returnsE)
  have "threads_added (new @ new') ts w w2" by (rule threads_added_append [OF o(3) r(3)])
  moreover have "tw_user w2 = with_readers i (p # ps) m' (tw_user w)" unfolding r(7) o(6) by (rule with_readers_Cons)
  moreover have "start_pipes A uh (Suc k) i w = Inr (i + Suc k, w2)" using o(1) r(1) by simp
  moreover have "\<forall>q \<in> set (p # ps). pipe_ready q" using o(4) r(5) by simp
  ultimately show ?case using o(2) r(2,4,6)
    by (auto intro!: exI [of _ "new @ new'"] exI [of _ "p # ps"] exI [of _ m'])
qed

section \<open>The acceptor's thread\<close>

text \<open>All of the acceptor's answers are good ones; \<open>fd\<close> is its socket.\<close>

definition calm_acceptor :: "int \<Rightarrow> ('g, 'd, 'x) acceptor_life \<Rightarrow> bool" where
  "calm_acceptor fd A \<longleftrightarrow> handler_env (al_penv A) \<and> (\<forall>t. pe_okk (al_penv A) t) \<and> pe_realloc (al_penv A) \<and> (\<forall>i. calm_life (al_pipe A i)) \<and>
     al_mem A \<and> al_readers_mem A \<and> good_queue (al_queue A) \<and> good_start (al_start A) \<and>
     ns_mem (al_selector A) \<and> ns_polls_mem (al_selector A) \<and> ns_pipe (al_selector A) \<noteq> None \<and>
     ns_fcntl_read (al_selector A) \<and> ns_fcntl_write (al_selector A) \<and> al_selector_lock A = Some free_lock \<and>
     al_socket A = fd \<and> 0 \<le> fd \<and> al_fcntl A \<and> al_sockopt A \<and> al_bind A \<and> al_listen A"

text \<open>What \<open>_AcceptorInit\<close> leaves: open pipes, a socket that listens on the address and a selector with it.\<close>

definition listen_calls :: "int \<Rightarrow> address \<Rightarrow> sock_call list" where
  "listen_calls fd a = [SockNonblock fd, SockReuse fd, SockBind fd a, SockListen fd]"

definition acceptor_up :: "int \<Rightarrow> nat \<Rightarrow> int \<Rightarrow> nat \<Rightarrow> nat list \<Rightarrow> nat list \<Rightarrow> bool \<Rightarrow> ('g, 'd, 'x) apsys \<Rightarrow> ('g, 'd, 'x) apsys \<Rightarrow> bool" where
  "acceptor_up fd k n pr fs os e s s' \<longleftrightarrow> (\<exists>ps m key sel. length ps = k \<and> (\<forall>p \<in> set ps. pipe_ready p) \<and> pool_inv (16, n) n pr m fs os e \<and>
     sel_inv sel \<and> idle sel \<and> registry sel = [(key, fd, OP_READ, 0, 1)] \<and>
     s' = upd_acceptor (\<lambda>ac. ac\<lparr>ac_readers := map Some ps, ac_nbReaders := int k, ac_socket := fd, ac_key := Some key,
       ac_selector := Some sel, ac_calls := ac_calls ac @ listen_calls fd (snd (the (ac_address ac)))\<rparr>) (s\<lparr>ps_mem := m\<rparr>))"

lemma Register_first:
  assumes "\<forall>t. ok t"
  shows "returns (Register ok True (new_selector r w) operation fd att) (\<lambda>(p, s). \<exists>n. p = Some n \<and> n = 1 \<and> sel_inv s \<and> n \<in> dom (s_heap s) \<and>
    registry s = [(n, fd, operation, att, 1)] \<and> idle s)"
proof -
  obtain n s where r: "Register ok True (new_selector r w) operation fd att = Inr (Some n, s)" "sel_inv s" "n \<in> dom (s_heap s)"
    "registers operation fd att n (registry (new_selector r w)) (registry s)"
    using Register_correct [OF new_selector_inv(1) assms, of r w operation fd att] by (auto elim!: returnsE)
  note defs = new_selector_def new_key_node_def NewSelectionKey_def NewNode_def alloc_def Register_def
      LIST_INITIALIZER_def ListEmpty_def ListAddLast_def ListAddFirst_def ListAddAfter_def check_node_def
      get_data_def get_next_def get_prev_def set_next_def set_prev_def get_key_def set_key_def set_data_def set_poll_def
  have reg: "registry s = [(n, fd, operation, att, 1)]" using r(4) by (simp add: registers_def new_selector_inv)
  have "n = 1" "s_cur s = None" "k_count (key_at (s_heap s) 1) = 1" "k_curCount (key_at (s_heap s) 1) = 0"
    using r(1) assms by (auto simp: defs zero_key_def key_at_def data_at_def)
  then have "idle s" using reg by (simp add: idle_def)
  with r reg \<open>n = 1\<close> show ?thesis by simp
qed

lemma AcceptorInit_seq:
  fixes w :: "('g, 'd, 'x) athreads"
  assumes A: "calm_acceptor fd A" and n: "0 \<le> n" "n \<le> INT_MAX - 2" and r: "reg_inv w ts" "room (3 * k) w"
    and m: "pool_inv (16, n) n pr (ps_mem (tw_user w)) fs os e" "pr < bm_tick (ps_mem (tw_user w))"
    and ac: "cn_pool (co_conn (ac_factory (the_acceptor (tw_user w)))) = Some pr" "ac_nbReaders (the_acceptor (tw_user w)) = int k"
      "ac_readers (the_acceptor (tw_user w)) = replicate k None" "ac_address (the_acceptor (tw_user w)) \<noteq> None"
      "ac_selector (the_acceptor (tw_user w)) = Some (new_selector rx wx)"
  shows "returns (AcceptorInit A uh w) (\<lambda>(b, w'). b \<and> (\<exists>new. length new = 3 * k \<and> threads_added new ts w w' \<and>
    acceptor_up fd k n pr fs os e (tw_user w) (tw_user w')))"
proof -
  have L: "calm_life (al_pipe A j)" for j using A by (simp add: calm_acceptor_def)
  from start_pipes_seq [where A = A and i = 0 and uh = uh, OF L n r ac(1) m] obtain w1 new ps m' where
    1: "start_pipes A uh k 0 w = Inr (k, w1)" "length new = 3 * k" "threads_added new ts w w1" "length ps = k" "\<forall>p \<in> set ps. pipe_ready p"
      "pool_inv (16, n) n pr m' fs os e" "tw_user w1 = with_readers 0 ps m' (tw_user w)" by (auto elim!: returnsE)
  have rd: "put_from 0 (map Some ps) (replicate k None) = map Some ps" using put_from_end [of "[]" "map Some ps" None] 1(4) by simp
  have ac1: "the_acceptor (tw_user w1) = (the_acceptor (tw_user w))\<lparr>ac_readers := map Some ps\<rparr>" unfolding 1(7) with_readers_def by (simp add: ac(3) rd)
  have ok: "\<forall>t. pe_okk (al_penv A) t" "pe_realloc (al_penv A)" using A by (simp_all add: calm_acceptor_def)
  from Register_first [OF ok(1), of rx wx OP_READ fd 0] obtain key sel where
    reg: "Register (pe_okk (al_penv A)) True (new_selector rx wx) OP_READ fd 0 = Inr (Some key, sel)" "sel_inv sel" "idle sel"
      "registry sel = [(key, fd, OP_READ, 0, 1)]" by (auto elim!: returnsE)
  let ?w = "on_acceptor (\<lambda>ac. ac\<lparr>ac_nbReaders := int k, ac_socket := fd, ac_key := Some key, ac_selector := Some sel,
    ac_calls := ac_calls ac @ listen_calls fd (snd (the (ac_address ac)))\<rparr>) w1"
  obtain ad where ad: "ac_address (the_acceptor (tw_user w)) = Some ad" using ac(4) by blast
  have "AcceptorInit A uh w = Inr (True, ?w)" using 1(1) ac(1-3,5) ad reg(1) ok(2) A
    by (simp add: AcceptorInit_def Let_def ac1 calm_acceptor_def upd_acceptor_def socket_call_def listen_calls_def split_def)
  moreover have "acceptor_up fd k n pr fs os e (tw_user w) (tw_user ?w)" unfolding acceptor_up_def
    using 1(4-7) reg(2-4) ac(3) rd by (intro exI [of _ ps] exI [of _ m'] exI [of _ key] exI [of _ sel]) (simp add: with_readers_def upd_acceptor_def)
  ultimately show ?thesis using 1(2,3) by (auto intro!: exI [of _ new])
qed

section \<open>Creating an acceptor\<close>

lemma make_thread_user:
  assumes "good_start e" "tw_num w < int AIO4C_MAX_THREADS" "make_thread e nm i g x w = (Some t, w1)"
  shows "make_thread e nm i g x (w\<lparr>tw_user := u\<rparr>) = (Some t, w1\<lparr>tw_user := u\<rparr>)"
  using assms by (cases w) (auto simp: make_thread_seq)

lemma on_factory_seq:
  assumes "co_held S U (ac_factory (the_acceptor s))"
    and "\<And>w. held (w_core w) S U w \<Longrightarrow> returns (h w) (held (w_core w) S' U')"
  shows "returns (on_factory h s) (\<lambda>s'. \<exists>f. co_held S' U' f \<and> co_conn f = co_conn (ac_factory (the_acceptor s)) \<and>
    s' = upd_acceptor (\<lambda>ac. ac\<lparr>ac_factory := f\<rparr>) (on_pipe (\<lambda>p. p\<lparr>pp_self := 0\<rparr>) s))"
proof -
  let ?f = "ac_factory (the_acceptor s)" and ?w = "focus 0 (ac_factory (the_acceptor s)) s"
  have "held (w_core ?w) S U ?w" unfolding held_focus by (rule assms(1))
  from assms(2) [OF this] obtain w where w: "h ?w = Inr w" "held (w_core ?w) S' U' w" by (auto elim!: returnsE)
  let ?f' = "\<lparr>co_sys = w_sys w, co_usr = w_usr w, co_conn = co_conn ?f, co_net = co_net ?f, co_readKey = co_readKey ?f\<rparr>"
  have "co_held S' U' ?f'" using w(2) by (auto simp: held_def co_held_def queues_ok_def)
  moreover have "on_factory h s = Inr (upd_acceptor (\<lambda>ac. ac\<lparr>ac_factory := ?f'\<rparr>) (on_pipe (\<lambda>p. p\<lparr>pp_self := 0\<rparr>) s))"
    using w by (simp add: on_factory_def Let_def held_def focus_def upd_acceptor_def)
  ultimately show ?thesis by (auto intro!: exI [of _ ?f'])
qed

definition acceptor_started ::
  "int \<Rightarrow> nat \<Rightarrow> int \<Rightarrow> nat \<Rightarrow> nat list \<Rightarrow> nat list \<Rightarrow> bool \<Rightarrow> (event \<Rightarrow> ('g acceptor_handler phandler, 'd) handler list) \<Rightarrow>
   ('g, 'd, 'x) apsys \<Rightarrow> ('g, 'd, 'x) apsys \<Rightarrow> bool" where
  "acceptor_started fd k n pr fs os e U s s' \<longleftrightarrow> (\<exists>ps key sel. length ps = k \<and> (\<forall>p \<in> set ps. pipe_ready p) \<and>
     pool_inv (16, n) n pr (ps_mem s') fs os e \<and> sel_inv sel \<and> idle sel \<and> registry sel = [(key, fd, OP_READ, 0, 1)] \<and>
     (let ac = the_acceptor s'; ac0 = the_acceptor s in
      ac_readers ac = map Some ps \<and> ac_nbReaders ac = int k \<and> ac_selector ac = Some sel \<and> ac_queue ac = Some new_queue \<and>
      ac_address ac = ac_address ac0 \<and> co_held close_handlers U (ac_factory ac) \<and> co_conn (ac_factory ac) = co_conn (ac_factory ac0) \<and>
      ac_user ac = ac_user ac0 \<and> ac_handed ac = Map.empty \<and>
      ac_calls ac = ac_calls ac0 @ listen_calls fd (snd (the (ac_address ac0)))) \<and>
     ps_conns s' = ps_conns s \<and> ps_addrs s' = ps_addrs s)"

lemma acceptor_registers:
  fixes s :: "('g, 'd, 'x) apsys"
  assumes "handler_env env" "co_held (\<lambda>_. []) U (ac_factory (the_acceptor s))"
  shows "\<exists>f. on_factory (add_system_handler env (acceptor_cb uh) CLOSE_EVENT (UserHandler AcceptorCloseHandler) True) s =
      Inr (upd_acceptor (\<lambda>ac. ac\<lparr>ac_factory := f\<rparr>) (on_pipe (\<lambda>p. p\<lparr>pp_self := 0\<rparr>) s)) \<and>
    co_held close_handlers U f \<and> co_conn f = co_conn (ac_factory (the_acceptor s))"
proof -
  have "returns (on_factory (add_system_handler env (acceptor_cb uh) CLOSE_EVENT (UserHandler AcceptorCloseHandler) True) s)
    (\<lambda>s'. \<exists>f. co_held close_handlers U f \<and> co_conn f = co_conn (ac_factory (the_acceptor s)) \<and>
      s' = upd_acceptor (\<lambda>ac. ac\<lparr>ac_factory := f\<rparr>) (on_pipe (\<lambda>p. p\<lparr>pp_self := 0\<rparr>) s))"
  proof (rule on_factory_seq [OF assms(2)])
    fix v :: "('g, 'd, 'x) aworld" assume "held (w_core v) (\<lambda>_. []) U v"
    from add_system_seq [OF this assms(1), of "acceptor_cb uh" CLOSE_EVENT "UserHandler AcceptorCloseHandler" True]
    show "returns (add_system_handler env (acceptor_cb uh) CLOSE_EVENT (UserHandler AcceptorCloseHandler) True v)
      (held (w_core v) close_handlers U)" by (simp add: close_handlers_def)
  qed
  then show ?thesis by (auto elim!: returnsE)
qed

lemma NewAcceptor_seq:
  fixes w :: "('g, 'd, 'x) athreads"
  assumes A: "calm_acceptor fd A" and n: "0 \<le> n" "n \<le> INT_MAX - 2" and r: "reg_inv w ts" "room (Suc (3 * k)) w"
    and m: "pool_inv (16, n) n pr (ps_mem (tw_user w)) fs os e" "pr < bm_tick (ps_mem (tw_user w))"
    and f: "co_held (\<lambda>_. []) U (ac_factory (the_acceptor (tw_user w)))" "cn_pool (co_conn (ac_factory (the_acceptor (tw_user w)))) = Some pr"
    and ad: "ac_address (the_acceptor (tw_user w)) \<noteq> None"
  shows "returns (NewAcceptor A uh nm own (int k) w) (\<lambda>(b, w'). b \<and> (\<exists>new. length new = Suc (3 * k) \<and> threads_added new ts w w' \<and>
    acceptor_started fd k n pr fs os e U (tw_user w) (tw_user w')))"
proof -
  let ?e = "al_start A" and ?t = "tw_tick w"
  have A': "handler_env (al_penv A)" "al_mem A" "al_readers_mem A" "good_queue (al_queue A)" "good_start ?e" using A by (simp_all add: calm_acceptor_def)
  have q: "make_queue (al_queue A) = Some new_queue" using A'(4) by (simp add: good_queue_def make_queue_def NewQueue_ok)
  obtain rx wx where sel: "fst (NewSelector (al_selector A) (al_selector_lock A)) = Some (new_selector rx wx)"
    using A by (auto simp: calm_acceptor_def NewSelector_def new_selector_def Let_def)
  let ?s1 = "upd_acceptor (\<lambda>ac. ac\<lparr>ac_name := nm, ac_nameOwned := own, ac_queue := Some new_queue, ac_key := None, ac_handed := Map.empty\<rparr>) (tw_user w)"
  have "co_held (\<lambda>_. []) U (ac_factory (the_acceptor ?s1))" using f(1) by simp
  from acceptor_registers [OF A'(1) this, of uh] obtain f' where
    fac: "on_factory (add_system_handler (al_penv A) (acceptor_cb uh) CLOSE_EVENT (UserHandler AcceptorCloseHandler) True) ?s1 =
      Inr (upd_acceptor (\<lambda>ac. ac\<lparr>ac_factory := f'\<rparr>) (on_pipe (\<lambda>p. p\<lparr>pp_self := 0\<rparr>) ?s1))"
    "co_held close_handlers U f'" "co_conn f' = co_conn (ac_factory (the_acceptor (tw_user w)))" by auto
  let ?h = "\<lambda>s. upd_acceptor (\<lambda>ac. ac\<lparr>ac_name := nm, ac_nameOwned := own, ac_queue := Some new_queue, ac_key := None, ac_handed := Map.empty,
    ac_factory := f', ac_socket := - 1, ac_nbReaders := int k, ac_readers := replicate k None,
    ac_selector := Some (new_selector rx wx), ac_thread := Some ?t\<rparr>) (on_pipe (\<lambda>p. p\<lparr>pp_self := 0\<rparr>) s)"
  have rm: "tw_num w < int AIO4C_MAX_THREADS" "is_int (tw_running w + 1)" using roomD [OF r(2)] by simp_all
  obtain w1 where w1: "make_thread ?e nm T_AcceptorInit T_AcceptorRun T_AcceptorExit w = (Some ?t, w1)" "tw_user w1 = tw_user w"
    by (simp add: make_thread_seq [OF A'(5) rm(1)])
  have mk: "make_thread ?e nm T_AcceptorInit T_AcceptorRun T_AcceptorExit (w\<lparr>tw_user := u\<rparr>) = (Some ?t, w1\<lparr>tw_user := u\<rparr>)" for u
    by (rule make_thread_user [OF A'(5) rm(1) w1(1)])
  have init: "returns (tc_call (acceptor_threads A uh) T_AcceptorInit (Some ()) W) (\<lambda>(b, w2). b \<and>
      (\<exists>new'. threads_added new' (ts @ [?t]) W w2 \<and> (length new' = 3 * k \<and> acceptor_up fd k n pr fs os e (?h (tw_user w)) (tw_user w2))))"
    if W: "reg_inv W (ts @ [?t])" "tw_num W = tw_num w + 1" "tw_running W = tw_running w + 1" "tw_tick W = Suc ?t"
      "tw_user W = ?h (tw_user w)" for W
  proof -
    have "room (3 * k) W" by (rule roomD(3) [OF r(2) W(2,3)])
    from AcceptorInit_seq [OF A n W(1) this, of pr fs os e rx wx uh] show ?thesis
      using m f(2) fac(3) ad unfolding W(5) by (auto simp: acceptor_threads_def elim!: returns_mono)
  qed
  let ?start = "ThreadStart (se_create ?e) (se_id ?e) [serve (acceptor_threads A uh) ?t] ?t (on_psys ?h w1)"
  have "returns ?start (\<lambda>(b, w'). b \<and> (\<exists>th new'. pipe_thread T_AcceptorRun T_AcceptorExit th \<and> threads_added ((?t, th) # new') ts w w' \<and>
      (length new' = 3 * k \<and> acceptor_up fd k n pr fs os e (?h (tw_user w)) (tw_user w'))))"
    by (rule spawn_seq [OF A'(5) r(1) rm w1(1)]) (rule init)
  then obtain w2 th new' where s: "?start = Inr (True, w2)" "threads_added ((?t, th) # new') ts w w2" "length new' = 3 * k"
    "acceptor_up fd k n pr fs os e (?h (tw_user w)) (tw_user w2)" by (auto elim!: returnsE)
  have "NewAcceptor A uh nm own (int k) w = Inr (True, w2)"
    using A'(2,3) q sel fac(1) w1(2) s(1) by (simp add: NewAcceptor_def Let_def mk upd_acceptor_def)
  moreover have "acceptor_started fd k n pr fs os e U (tw_user w) (tw_user w2)"
    using s(4) fac(2,3) unfolding acceptor_up_def acceptor_started_def Let_def by auto
  ultimately show ?thesis using s(2,3) by (auto intro!: exI [of _ "(?t, th) # new'"])
qed

section \<open>The server\<close>

text \<open>The calls with which \<open>_serverInit\<close> registers the server's handler.\<close>

lemma server_handles_seq:
  assumes "handler_env env"
  shows "held k S U w \<Longrightarrow> returns (in_turn (map (\<lambda>(ev, once). server_handle env uh g ev once) rs) w)
    (held k S (fold (\<lambda>(ev, once) U. U(ev := U ev @ [server_handler g ev once])) rs U))"
proof (induction rs arbitrary: U w)
  case (Cons r rs)
  obtain ev once where r: "r = (ev, once)" by (cases r)
  have "returns (server_handle env uh g ev once w) (held k S (U(ev := U ev @ [server_handler g ev once])))"
    using add_handler_seq [OF Cons.prems assms] by (simp add: server_handle_def server_handler_def pipe_h_def)
  then show ?case unfolding list.map in_turn.simps r prod.case
    by (rule returns_bndI) (use Cons.IH in \<open>simp del: fun_upd_apply\<close>)
qed simp

text \<open>The server's own answers, and those of its acceptor, are good ones.\<close>

definition calm_parts :: "('g, 'd, 'x) server_life \<Rightarrow> bool" where
  "calm_parts S \<longleftrightarrow> handler_env (al_penv (sl_acceptor S)) \<and> sl_mem S \<and> fst (sl_address_mem S) \<and> fst (snd (sl_address_mem S)) \<and>
     sl_pool S \<and> good_queue (sl_pool_queue S) \<and> sl_factory S = (True, True, True) \<and> good_queue (sl_queue S) \<and> good_start (sl_start S)"

definition calm_server :: "int \<Rightarrow> ('g, 'd, 'x) server_life \<Rightarrow> bool" where
  "calm_server fd S \<longleftrightarrow> calm_parts S \<and> calm_acceptor fd (sl_acceptor S)"

text \<open>The system with a new server that has no thread yet.\<close>

definition server_sys ::
  "int \<Rightarrow> 'g \<Rightarrow> 'x \<Rightarrow> address \<Rightarrow> nat \<Rightarrow> bmem \<Rightarrow> nat \<Rightarrow> ('g, 'd, 'x) spsys \<Rightarrow> ('g, 'd, 'x) spsys" where
  "server_sys k g u a r m pr s = upd_acceptor (\<lambda>ac. ac\<lparr>ac_address := Some (r, a),
     ac_factory := \<lparr>co_sys = Some new_equeue, co_usr = Some new_equeue, co_conn = \<lparr>cn_readBuffer = None, cn_writeBuffer = None,
       cn_dataBuffer = None, cn_socket = - 1, cn_address = None, cn_state = STATE_NONE, cn_stateLock = None, cn_closedForError = False,
       cn_string = Some ''factory'', cn_stringAllocated = False, cn_closedBy = (\<lambda>_. False), cn_closedByLock = None,
       cn_managedBy = (\<lambda>_. False), cn_managedByLock = None, cn_pool = Some pr, cn_freeAddress = False, cn_canRead = False,
       cn_canWrite = False, cn_isFactory = True\<rparr>, co_net = [], co_readKey = None\<rparr>,
     ac_user := \<lparr>sv_address = Some r, sv_acceptor = False, sv_pool = Some pr, sv_factory = True, sv_thread = None, sv_nbPipes = k,
       sv_handler = g, sv_queue = Some new_queue, sv_user = u\<rparr>\<rparr>)
     (s\<lparr>ps_addrs := (ps_addrs s)(r \<mapsto> AddressGetString a), ps_mem := m\<rparr>)"

lemma NewServer_seq:
  assumes S: "calm_parts S" and n: "0 \<le> n" "n \<le> INT_MAX - 2" and rm: "tw_num w < int AIO4C_MAX_THREADS"
  obtains a m w1 where "AddressGetType a = ADDRESS_IPV4" "pool_added n (ps_mem (tw_user w)) m"
    "make_thread (sl_start S) (Some ''server'') T_ServerInit T_ServerRun T_ServerExit
       (w\<lparr>tw_user := server_sys k g u a (sl_ref S) m (bm_tick (ps_mem (tw_user w))) (tw_user w)\<rparr>) = (Some (tw_tick w), w1)"
    "NewServer S uh ADDRESS_IPV4 host port n k g u w = Inr (True, on_server (\<lambda>sv. sv\<lparr>sv_thread := Some (tw_tick w)\<rparr>) w1)"
proof -
  let ?m = "ps_mem (tw_user w)"
  have ok: "sl_mem S" "sl_pool S" "sl_factory S = (True, True, True)" "good_start (sl_start S)" "calm_env (al_penv (sl_acceptor S))"
    using S by (simp_all add: calm_parts_def handler_env_calm)
  have q: "make_queue (sl_queue S) = Some new_queue" "make_queue (sl_pool_queue S) = NewQueue True (True, 0) (True, 0)"
    using S by (simp_all add: calm_parts_def good_queue_def make_queue_def NewQueue_ok)
  obtain a where a: "NewAddress (sl_address_mem S) (sl_resolver S) (sl_info S) ADDRESS_IPV4 host (uint port) = Some a" "AddressGetType a = ADDRESS_IPV4"
    using S by (cases "sl_address_mem S") (auto simp: calm_parts_def NewAddress_def AddressGetType_def Let_def)
  obtain m where m: "NewBufferPool both_ok all_ok True (NewQueue True (True, 0) (True, 0)) n ?m = Inr (Some (bm_tick ?m), m)"
    "pool_added n ?m m" using NewBufferPool_added [OF n, of ?m] by (auto elim!: returnsE)
  let ?s = "server_sys k g u a (sl_ref S) m (bm_tick ?m) (tw_user w)"
  have t: "\<exists>w1. make_thread (sl_start S) (Some ''server'') T_ServerInit T_ServerRun T_ServerExit (w\<lparr>tw_user := ?s\<rparr>) = (Some (tw_tick w), w1)"
    using rm by (simp add: make_thread_seq [OF ok(4)])
  then obtain w1 where w1: "make_thread (sl_start S) (Some ''server'') T_ServerInit T_ServerRun T_ServerExit (w\<lparr>tw_user := ?s\<rparr>) = (Some (tw_tick w), w1)" ..
  have "NewServer S uh ADDRESS_IPV4 host port n k g u w = Inr (True, on_server (\<lambda>sv. sv\<lparr>sv_thread := Some (tw_tick w)\<rparr>) w1)"
    using w1 ok q a m by (simp add: NewServer_def Let_def NewConnectionFactory_def NewEventQueue_ok server_sys_def)
  with a(2) m(2) w1 show thesis by (rule that)
qed

text \<open>\<open>_serverInit\<close> registers the server's handler with the factory, then creates the acceptor.\<close>

lemma serverInit_registers:
  fixes w :: "('g, 'd, 'x) sthreads"
  assumes "handler_env (al_penv (sl_acceptor S))" "co_held (\<lambda>_. []) (\<lambda>_. []) (ac_factory (the_acceptor (tw_user w)))"
    and "sv_factory (the_server (tw_user w))" "sv_thread (the_server (tw_user w)) = Some t" "tw_heap w t = Some th"
  defines "g \<equiv> sv_handler (the_server (tw_user w))"
  shows "\<exists>f. co_held (\<lambda>_. []) (server_handlers g) f \<and> co_conn f = co_conn (ac_factory (the_acceptor (tw_user w))) \<and>
    serverInit S uh w = bnd (NewAcceptor (sl_acceptor S) uh (ThreadGetName th) False (sv_nbPipes (the_server (tw_user w)))
        (w\<lparr>tw_user := upd_acceptor (\<lambda>ac. ac\<lparr>ac_factory := f\<rparr>) (on_pipe (\<lambda>p. p\<lparr>pp_self := 0\<rparr>) (tw_user w))\<rparr>))
      (\<lambda>(made, w2). Inr (made, on_server (\<lambda>sv. sv\<lparr>sv_acceptor := made\<rparr>) w2))"
proof -
  let ?env = "al_penv (sl_acceptor S)" and ?s = "tw_user w"
  let ?rs = "[(INIT_EVENT, True), (CONNECTED_EVENT, True), (READ_EVENT, False), (WRITE_EVENT, False), (CLOSE_EVENT, True), (FREE_EVENT, True)]"
  let ?hs = "in_turn (map (\<lambda>(ev, once). server_handle ?env uh g ev once) ?rs)"
  have U: "fold (\<lambda>(ev, once) U. U(ev := U ev @ [server_handler g ev once])) ?rs (\<lambda>_. []) = server_handlers g"
  proof
    fix ev show "fold (\<lambda>(ev, once) U. U(ev := U ev @ [server_handler g ev once])) ?rs (\<lambda>_. []) ev = server_handlers g ev"
      by (cases ev) (simp_all add: server_handlers_def)
  qed
  have "returns (on_factory ?hs ?s) (\<lambda>s'. \<exists>f. co_held (\<lambda>_. []) (server_handlers g) f \<and> co_conn f = co_conn (ac_factory (the_acceptor ?s)) \<and>
      s' = upd_acceptor (\<lambda>ac. ac\<lparr>ac_factory := f\<rparr>) (on_pipe (\<lambda>p. p\<lparr>pp_self := 0\<rparr>) ?s))"
  proof (rule on_factory_seq [OF assms(2)])
    fix v :: "('g, 'd, ('g, 'x) server) aworld" assume "held (w_core v) (\<lambda>_. []) (\<lambda>_. []) v"
    from server_handles_seq [OF assms(1) this, of uh g ?rs]
    show "returns (?hs v) (held (w_core v) (\<lambda>_. []) (server_handlers g))" unfolding U .
  qed
  then show ?thesis using assms(3-5) by (auto simp: serverInit_def Let_def g_def elim!: returnsE)
qed

text \<open>What \<open>_serverInit\<close> makes of it.\<close>

lemma serverInit_seq:
  fixes w :: "('g, 'd, 'x) sthreads"
  assumes S: "calm_server fd S" and n: "0 \<le> n" "n \<le> INT_MAX - 2" and r: "reg_inv w ts" "room (Suc (3 * k)) w"
    and m: "pool_inv (16, n) n pr (ps_mem (tw_user w)) fs os e" "pr < bm_tick (ps_mem (tw_user w))"
    and f: "co_held (\<lambda>_. []) (\<lambda>_. []) (ac_factory (the_acceptor (tw_user w)))"
      "cn_pool (co_conn (ac_factory (the_acceptor (tw_user w)))) = Some pr"
    and ad: "ac_address (the_acceptor (tw_user w)) \<noteq> None"
    and sv: "sv_factory (the_server (tw_user w))" "sv_thread (the_server (tw_user w)) = Some t" "t \<in> set ts"
      "sv_nbPipes (the_server (tw_user w)) = int k" "sv_handler (the_server (tw_user w)) = g"
  shows "returns (serverInit S uh w) (\<lambda>(b, w'). b \<and> (\<exists>new s s'. length new = Suc (3 * k) \<and> threads_added new ts w w' \<and>
    acceptor_started fd k n pr fs os e (server_handlers g) s s' \<and> co_conn (ac_factory (the_acceptor s)) = co_conn (ac_factory (the_acceptor (tw_user w))) \<and>
    ac_address (the_acceptor s) = ac_address (the_acceptor (tw_user w)) \<and> ac_user (the_acceptor s) = the_server (tw_user w) \<and>
    ac_calls (the_acceptor s) = ac_calls (the_acceptor (tw_user w)) \<and> ps_addrs s = ps_addrs (tw_user w) \<and> ps_conns s = ps_conns (tw_user w) \<and> tw_user w' = upd_server (\<lambda>sv. sv\<lparr>sv_acceptor := True\<rparr>) s'))"
proof -
  let ?s = "tw_user w"
  have A: "calm_acceptor fd (sl_acceptor S)" "handler_env (al_penv (sl_acceptor S))" using S by (simp_all add: calm_server_def calm_acceptor_def)
  obtain th where th: "tw_heap w t = Some th" using r(1) sv(3) by (auto simp: reg_inv_def)
  from serverInit_registers [OF A(2) f(1) sv(1,2) th, of uh] obtain f' where
    fac: "co_held (\<lambda>_. []) (server_handlers g) f'" "co_conn f' = co_conn (ac_factory (the_acceptor ?s))"
    and i: "serverInit S uh w = bnd (NewAcceptor (sl_acceptor S) uh (ThreadGetName th) False (int k)
        (w\<lparr>tw_user := upd_acceptor (\<lambda>ac. ac\<lparr>ac_factory := f'\<rparr>) (on_pipe (\<lambda>p. p\<lparr>pp_self := 0\<rparr>) ?s)\<rparr>))
      (\<lambda>(made, w2). Inr (made, on_server (\<lambda>sv. sv\<lparr>sv_acceptor := made\<rparr>) w2))"
    unfolding sv(4,5) by blast
  let ?s1 = "upd_acceptor (\<lambda>ac. ac\<lparr>ac_factory := f'\<rparr>) (on_pipe (\<lambda>p. p\<lparr>pp_self := 0\<rparr>) ?s)"
  let ?w1 = "w\<lparr>tw_user := ?s1\<rparr>"
  have r1: "reg_inv ?w1 ts" "room (Suc (3 * k)) ?w1" using r by (simp_all add: room_def)
  have m1: "pool_inv (16, n) n pr (ps_mem (tw_user ?w1)) fs os e" "pr < bm_tick (ps_mem (tw_user ?w1))" using m by simp_all
  have f1: "co_held (\<lambda>_. []) (server_handlers g) (ac_factory (the_acceptor (tw_user ?w1)))"
    "cn_pool (co_conn (ac_factory (the_acceptor (tw_user ?w1)))) = Some pr" "ac_address (the_acceptor (tw_user ?w1)) \<noteq> None"
    using fac f(2) ad by simp_all
  from NewAcceptor_seq [OF A(1) n r1 m1 f1, of uh "ThreadGetName th" False] obtain w2 new where
    2: "NewAcceptor (sl_acceptor S) uh (ThreadGetName th) False (int k) ?w1 = Inr (True, w2)" "length new = Suc (3 * k)"
      "threads_added new ts ?w1 w2" "acceptor_started fd k n pr fs os e (server_handlers g) ?s1 (tw_user w2)" by (auto elim!: returnsE)
  have i: "serverInit S uh w = Inr (True, on_server (\<lambda>sv. sv\<lparr>sv_acceptor := True\<rparr>) w2)" using 2(1) unfolding i by simp
  have "threads_added new ts w w2" using 2(3) by simp
  then show ?thesis unfolding i returns_Inr prod.case using 2(2,4) fac(2)
    by (intro conjI exI [of _ new] exI [of _ ?s1] exI [of _ "tw_user w2"]) simp_all
qed

lemma server_sys_simps [simp]:
  "ps_mem (server_sys k g u a r m pr s) = m" "ps_conns (server_sys k g u a r m pr s) = ps_conns s"
  "ps_addrs (server_sys k g u a r m pr s) = (ps_addrs s)(r \<mapsto> AddressGetString a)"
  "the_server (server_sys k g u a r m pr s) = \<lparr>sv_address = Some r, sv_acceptor = False, sv_pool = Some pr, sv_factory = True,
     sv_thread = None, sv_nbPipes = k, sv_handler = g, sv_queue = Some new_queue, sv_user = u\<rparr>"
  "ac_address (the_acceptor (server_sys k g u a r m pr s)) = Some (r, a)"
  "ac_calls (the_acceptor (server_sys k g u a r m pr s)) = ac_calls (the_acceptor s)"
  "cn_pool (co_conn (ac_factory (the_acceptor (server_sys k g u a r m pr s)))) = Some pr"
  "co_held (\<lambda>_. []) (\<lambda>_. []) (ac_factory (the_acceptor (server_sys k g u a r m pr s)))"
  by (simp_all add: server_sys_def co_held_def new_equeue_inv)

lemma upd_server_simps [simp]:
  "ps_mem (upd_server h s) = ps_mem s" "ps_conns (upd_server h s) = ps_conns s" "ps_addrs (upd_server h s) = ps_addrs s"
  "the_acceptor (upd_server h s) = (the_acceptor s)\<lparr>ac_user := h (the_server s)\<rparr>"
  by (simp_all add: upd_server_def)

text \<open>A server that has started: its acceptor listens on \<open>fd\<close> with \<open>k\<close> pipes without load.\<close>

definition server_up :: "int \<Rightarrow> sock_call list \<Rightarrow> nat \<Rightarrow> int \<Rightarrow> nat \<Rightarrow> 'g \<Rightarrow> ('g, 'd, 'x) spsys \<Rightarrow> bool" where
  "server_up fd cs k n pr g s \<longleftrightarrow> (0 < k \<longrightarrow> listening n pr [] g s) \<and> loads (the_acceptor s) = replicate k 0 \<and>
     (\<exists>sel key. ac_selector (the_acceptor s) = Some sel \<and> registry sel = [(key, fd, OP_READ, 0, 1)]) \<and>
     (\<exists>r a. ac_address (the_acceptor s) = Some (r, a) \<and> AddressGetType a = ADDRESS_IPV4 \<and> ac_calls (the_acceptor s) = cs @ listen_calls fd a) \<and>
     sv_acceptor (the_server s) \<and> sv_queue (the_server s) = Some new_queue"

lemma acceptor_started_up:
  assumes "acceptor_started fd k n pr fs [] e (server_handlers g) s s'" "cn_pool (co_conn (ac_factory (the_acceptor s))) = Some pr"
    and "ac_address (the_acceptor s) = Some (r, a)" "AddressGetType a = ADDRESS_IPV4" "sv_queue (the_server s) = Some new_queue"
  shows "server_up fd (ac_calls (the_acceptor s)) k n pr g (upd_server (\<lambda>sv. sv\<lparr>sv_acceptor := True\<rparr>) s')"
proof -
  obtain ps key sel where ps: "length ps = k" "\<forall>p \<in> set ps. pipe_ready p" "pool_inv (16, n) n pr (ps_mem s') fs [] e"
    and sel: "sel_inv sel" "idle sel" "registry sel = [(key, fd, OP_READ, 0, 1)]" "ac_selector (the_acceptor s') = Some sel"
    and ac: "ac_readers (the_acceptor s') = map Some ps" "ac_nbReaders (the_acceptor s') = int k" "ac_queue (the_acceptor s') = Some new_queue"
      "ac_address (the_acceptor s') = Some (r, a)" "co_held close_handlers (server_handlers g) (ac_factory (the_acceptor s'))"
      "cn_pool (co_conn (ac_factory (the_acceptor s'))) = Some pr" "the_server s' = the_server s"
      "ac_calls (the_acceptor s') = ac_calls (the_acceptor s) @ listen_calls fd a"
    using assms(1) unfolding acceptor_started_def Let_def by (elim exE conjE) (rule that, use assms(2,3) in simp_all)
  have ld: "loads (the_acceptor s') = replicate k 0"
    using ps(1,2) by (auto simp: loads_def ac(1) pipe_ready_def intro!: replicate_eqI)
  have ld': "loads ((the_acceptor s')\<lparr>ac_user := x\<rparr>) = replicate k 0" for x using ld by (simp add: loads_def)
  have "listening n pr [] g (upd_server (\<lambda>sv. sv\<lparr>sv_acceptor := True\<rparr>) s')" if "0 < k"
    using that ps(1,2,3) sel ac assms(4) unfolding listening_def serving_def Let_def upd_server_simps ld' factory_ok_def
    by (auto simp: new_queue_inv new_queue_fields pipe_ready_def INT_MAX_def)
  then show ?thesis unfolding server_up_def upd_server_simps ld' using sel ac(4,7,8) assms(4,5) by auto
qed

lemma server_start_seq:
  fixes w :: "('g, 'd, 'x) sthreads"
  assumes S: "calm_server fd S" and n: "0 \<le> n" "n \<le> INT_MAX - 2" and r: "reg_inv w ts" "room (3 * k + 2) w"
  shows "returns (bnd (NewServer S uh ADDRESS_IPV4 host port n (int k) g u w) (\<lambda>(made, w1).
      bnd (ServerStart S uh w1) (\<lambda>(started, w2). Inr (made, started, w2)))) (\<lambda>(made, started, w2). made \<and> started \<and>
    (\<exists>new. length new = 3 * k + 2 \<and> threads_added new ts w w2) \<and> server_up fd (ac_calls (the_acceptor (tw_user w))) k n (bm_tick (ps_mem (tw_user w))) g (tw_user w2))"
proof -
  let ?t = "tw_tick w" and ?pr = "bm_tick (ps_mem (tw_user w))" and ?e = "sl_start S" and ?cs = "ac_calls (the_acceptor (tw_user w))"
  have e: "good_start ?e" and P: "calm_parts S" using S by (simp_all add: calm_server_def calm_parts_def)
  have r2: "room (Suc (Suc (3 * k))) w" using r(2) by simp
  have rm: "tw_num w < int AIO4C_MAX_THREADS" "is_int (tw_running w + 1)" using roomD [OF r2] by simp_all
  obtain a m w1 where a: "AddressGetType a = ADDRESS_IPV4" and m: "pool_added n (ps_mem (tw_user w)) m"
    and mk: "make_thread ?e (Some ''server'') T_ServerInit T_ServerRun T_ServerExit
       (w\<lparr>tw_user := server_sys (int k) g u a (sl_ref S) m ?pr (tw_user w)\<rparr>) = (Some ?t, w1)"
    and new: "NewServer S uh ADDRESS_IPV4 host port n (int k) g u w = Inr (True, on_server (\<lambda>sv. sv\<lparr>sv_thread := Some ?t\<rparr>) w1)"
    by (rule NewServer_seq [OF P n rm(1)])
  let ?s = "server_sys (int k) g u a (sl_ref S) m ?pr (tw_user w)"
  let ?w = "w\<lparr>tw_user := ?s\<rparr>" and ?h = "upd_server (\<lambda>sv. sv\<lparr>sv_thread := Some ?t\<rparr>)"
  have pool: "pool_inv (16, n) n ?pr m [Suc ?pr..<Suc ?pr + 16] [] False" "?pr < bm_tick m" using m by (simp_all add: pool_added_def)
  have init: "returns (tc_call (server_threads S uh) T_ServerInit (Some ()) W) (\<lambda>(b, w2). b \<and>
      (\<exists>new'. threads_added new' (ts @ [?t]) W w2 \<and> (length new' = Suc (3 * k) \<and> server_up fd ?cs k n ?pr g (tw_user w2))))"
    if W: "reg_inv W (ts @ [?t])" "tw_num W = tw_num ?w + 1" "tw_running W = tw_running ?w + 1" "tw_tick W = Suc ?t"
      "tw_user W = ?h (tw_user ?w)" for W
  proof -
    have "room (Suc (3 * k)) W" by (rule roomD(3) [OF r2]) (use W(2,3) in simp_all)
    from serverInit_seq [OF S n W(1) this, of ?pr "[Suc ?pr..<Suc ?pr + 16]" "[]" False ?t g uh] pool
    have "returns (serverInit S uh W) (\<lambda>(b, w'). b \<and> (\<exists>new s s'. length new = Suc (3 * k) \<and> threads_added new (ts @ [?t]) W w' \<and>
      acceptor_started fd k n ?pr [Suc ?pr..<Suc ?pr + 16] [] False (server_handlers g) s s' \<and>
      co_conn (ac_factory (the_acceptor s)) = co_conn (ac_factory (the_acceptor (tw_user W))) \<and>
      ac_address (the_acceptor s) = ac_address (the_acceptor (tw_user W)) \<and> ac_user (the_acceptor s) = the_server (tw_user W) \<and>
      ac_calls (the_acceptor s) = ac_calls (the_acceptor (tw_user W)) \<and> ps_addrs s = ps_addrs (tw_user W) \<and> ps_conns s = ps_conns (tw_user W) \<and> tw_user w' = upd_server (\<lambda>sv. sv\<lparr>sv_acceptor := True\<rparr>) s'))"
      unfolding W(5) by (simp del: upt_Suc)
    then obtain w2 new' s s' where i: "serverInit S uh W = Inr (True, w2)" "length new' = Suc (3 * k)" "threads_added new' (ts @ [?t]) W w2"
      and st: "acceptor_started fd k n ?pr [Suc ?pr..<Suc ?pr + 16] [] False (server_handlers g) s s'"
        "co_conn (ac_factory (the_acceptor s)) = co_conn (ac_factory (the_acceptor (tw_user W)))"
        "ac_address (the_acceptor s) = ac_address (the_acceptor (tw_user W))" "ac_user (the_acceptor s) = the_server (tw_user W)"
        "tw_user w2 = upd_server (\<lambda>sv. sv\<lparr>sv_acceptor := True\<rparr>) s'"
        "ac_calls (the_acceptor s) = ac_calls (the_acceptor (tw_user W))"
      by (auto elim!: returnsE)
    have cs: "ac_calls (the_acceptor s) = ?cs" using st(6) by (simp add: W(5))
    have "server_up fd ?cs k n ?pr g (tw_user w2)" unfolding st(5)
      unfolding cs [symmetric] by (rule acceptor_started_up [OF st(1)]) (use st(2-4) a in \<open>simp_all add: W(5)\<close>)
    then show ?thesis using i by (auto simp: server_threads_def intro!: exI [of _ new'])
  qed
  have "returns (ThreadStart (se_create ?e) (se_id ?e) [serve (server_threads S uh) ?t] ?t (on_psys ?h w1)) (\<lambda>(b, w'). b \<and>
    (\<exists>th new'. pipe_thread T_ServerRun T_ServerExit th \<and> threads_added ((?t, th) # new') ts ?w w' \<and>
      (length new' = Suc (3 * k) \<and> server_up fd ?cs k n ?pr g (tw_user w'))))"
  proof (rule spawn_seq [OF e _ _ _ mk])
    show "reg_inv ?w ts" using r(1) by simp
  qed (use rm init in simp_all)
  then obtain w2 th new' where s: "ThreadStart (se_create ?e) (se_id ?e) [serve (server_threads S uh) ?t] ?t (on_psys ?h w1) = Inr (True, w2)"
    "threads_added ((?t, th) # new') ts w w2" "length new' = Suc (3 * k)" "server_up fd ?cs k n ?pr g (tw_user w2)" by (auto elim!: returnsE)
  have "ServerStart S uh (on_psys ?h w1) = Inr (True, w2)" using s(1) by (simp add: ServerStart_def)
  with s(2-4) show ?thesis unfolding new by (auto intro!: exI [of _ "(?t, th) # new'"])
qed

text \<open>
  C3. A server starts. With \<open>k\<close> pipes \<open>NewServer\<close> and \<open>ServerStart\<close> start 3 k + 2 threads, registered after
  those that were there, and leave an acceptor that listens: its socket has been made non-blocking,
  bound to the acceptor's address and put to listening, in that order; one key for it is in the selector,
  \<open>k\<close> open pipes without load, the server's six handlers and the acceptor's own in the factory, and a
  full pool of buffers for the connections. From there bursts of connections are accepted.
\<close>

theorem server_listens:
  assumes "calm_server fd S" "0 \<le> n" "n \<le> INT_MAX - 2" "reg_inv w ts" "room (3 * k + 2) w" "0 < k"
  shows "returns (bnd (NewServer S uh ADDRESS_IPV4 host port n (int k) g u w) (\<lambda>(made, w1).
      bnd (ServerStart S uh w1) (\<lambda>(started, w2). Inr (made, started, w2)))) (\<lambda>(made, started, w2). made \<and> started \<and>
    listening n (bm_tick (ps_mem (tw_user w))) [] g (tw_user w2) \<and> loads (the_acceptor (tw_user w2)) = replicate k 0 \<and>
    (\<exists>sel key. ac_selector (the_acceptor (tw_user w2)) = Some sel \<and> registry sel = [(key, fd, OP_READ, 0, 1)]) \<and>
    (\<exists>r a. ac_address (the_acceptor (tw_user w2)) = Some (r, a) \<and> AddressGetType a = ADDRESS_IPV4 \<and>
       ac_calls (the_acceptor (tw_user w2)) = ac_calls (the_acceptor (tw_user w)) @ [SockNonblock fd, SockReuse fd, SockBind fd a, SockListen fd]) \<and>
    listed (take (nat (tw_num w2)) (tw_threads w2)) = ts @ [tw_tick w..<tw_tick w + (3 * k + 2)])"
  by (rule returns_mono [OF server_start_seq [OF assms(1-5)]]) (use assms(6) in \<open>auto simp: server_up_def listen_calls_def dest: threads_added_listed\<close>)

section \<open>A server without an acceptor\<close>

text \<open>The rest of the life of a thread whose initialisation has failed is its finalisation.\<close>

lemma finish_failed:
  assumes "tw_heap w t = Some (live_thread new False (fresh_thread nm i r (Some x) (Some a)))"
    and "tc_exit cb x (Some a) (put_thread t (live_thread new False (fresh_thread nm i r (Some x) (Some a))) w) = Inl e"
  shows "finish cb (Suc f) t w = Inl e"
  using assms by (simp add: finish_def take_thread_lock_def release_thread_lock_def with_thread_def ThreadCleanup_def cleanup_rest_def
      get_thread_def put_thread_def live_thread_def fresh_thread_def)

lemma NewAcceptor_no_memory: "\<not> al_mem A \<Longrightarrow> NewAcceptor A uh nm own k w = Inr (False, w)"
  by (simp add: NewAcceptor_def)

lemma NewAcceptor_no_readers:
  fixes w :: "('g, 'd, 'x) athreads"
  assumes "handler_env (al_penv A)" "al_mem A" "\<not> al_readers_mem A" "co_held (\<lambda>_. []) U (ac_factory (the_acceptor (tw_user w)))"
    and "ac_address (the_acceptor (tw_user w)) = Some (r, a)" "ps_addrs (tw_user w) r \<noteq> None"
  shows "\<exists>s'. NewAcceptor A uh nm own k w = Inr (False, w\<lparr>tw_user := s'\<rparr>) \<and> ps_addrs s' = (ps_addrs (tw_user w))(r := None) \<and>
    ac_user (the_acceptor s') = ac_user (the_acceptor (tw_user w))"
proof -
  let ?s1 = "upd_acceptor (\<lambda>ac. ac\<lparr>ac_name := nm, ac_nameOwned := own, ac_queue := make_queue (al_queue A), ac_key := None,
    ac_handed := Map.empty\<rparr>) (tw_user w)"
  have "co_held (\<lambda>_. []) U (ac_factory (the_acceptor ?s1))" using assms(4) by simp
  from acceptor_registers [OF assms(1) this, of uh] assms(2,3,5,6) show ?thesis
    by (auto simp: NewAcceptor_def Let_def free_address_def)
qed

text \<open>
  C35. When the array of its readers cannot be allocated, \<open>NewAcceptor\<close> frees the address that it was
  given, which is the server's. \<open>ServerStart\<close> returns true all the same; the server still points to the
  address, which is gone, and its thread ends by freeing it again. When already the acceptor itself
  cannot be allocated \<open>ServerStart\<close> returns true as well, but the address is kept.
\<close>

theorem failed_acceptor_frees_address_twice:
  assumes "calm_parts S" "\<not> (al_mem (sl_acceptor S) \<and> al_readers_mem (sl_acceptor S))"
    and "0 \<le> n" "n \<le> INT_MAX - 2" "reg_inv w ts" "room 1 w"
  shows "returns (bnd (NewServer S uh ADDRESS_IPV4 host port n k g u w) (\<lambda>(made, w1).
      bnd (ServerStart S uh w1) (\<lambda>(started, w2). Inr (made, started, w2)))) (\<lambda>(made, started, w2). made \<and> started \<and>
    \<not> sv_acceptor (the_server (tw_user w2)) \<and> sv_address (the_server (tw_user w2)) = Some (sl_ref S) \<and>
    (if al_mem (sl_acceptor S)
     then ps_addrs (tw_user w2) (sl_ref S) = None \<and> finish (server_threads S uh) (Suc f) (tw_tick w) w2 = Inl Undefined
     else ps_addrs (tw_user w2) (sl_ref S) \<noteq> None))"
proof -
  let ?t = "tw_tick w" and ?pr = "bm_tick (ps_mem (tw_user w))" and ?e = "sl_start S"
  have e: "good_start ?e" using assms(1) by (simp add: calm_parts_def)
  have rm: "tw_num w < int AIO4C_MAX_THREADS" "is_int (tw_running w + 1)" using roomD [of 0 w] assms(6) by simp_all
  obtain a m w1 where a: "AddressGetType a = ADDRESS_IPV4" "pool_added n (ps_mem (tw_user w)) m"
    and mk: "make_thread ?e (Some ''server'') T_ServerInit T_ServerRun T_ServerExit
       (w\<lparr>tw_user := server_sys k g u a (sl_ref S) m ?pr (tw_user w)\<rparr>) = (Some ?t, w1)"
    and new: "NewServer S uh ADDRESS_IPV4 host port n k g u w = Inr (True, on_server (\<lambda>sv. sv\<lparr>sv_thread := Some ?t\<rparr>) w1)"
    by (rule NewServer_seq [OF assms(1,3,4) rm(1)])
  let ?s = "upd_server (\<lambda>sv. sv\<lparr>sv_thread := Some ?t\<rparr>) (server_sys k g u a (sl_ref S) m ?pr (tw_user w))"
  let ?th = "fresh_thread (Some ''server'') (Some T_ServerInit) (Some T_ServerRun) (Some T_ServerExit) (Some ())"
  let ?w = "w\<lparr>tw_tick := Suc ?t, tw_heap := (tw_heap w)(?t \<mapsto> ?th), tw_user := ?s\<rparr>"
  let ?Q = "\<lambda>W b w2. \<not> b \<and> \<not> sv_acceptor (the_server (tw_user w2)) \<and> sv_address (the_server (tw_user w2)) = Some (sl_ref S) \<and>
    (ps_addrs (tw_user w2) (sl_ref S) = None) = al_mem (sl_acceptor S)"
  have w1: "on_server (\<lambda>sv. sv\<lparr>sv_thread := Some ?t\<rparr>) w1 = ?w" using mk rm(1) by (auto simp: make_thread_seq [OF e])
  have init: "returns (tc_call (server_threads S uh) T_ServerInit (Some ()) W) (\<lambda>(b, w2). tw_heap w2 ?t = tw_heap W ?t \<and> ?Q W b w2)"
    if W: "starting ts ?t (se_id ?e) ?th ?w W" for W
  proof -
    have u: "tw_user W = ?s" and "tw_heap W ?t \<noteq> None" using W by (simp_all add: starting_def)
    then obtain th where th: "tw_heap W ?t = Some th" by blast
    have "handler_env (al_penv (sl_acceptor S))" using assms(1) by (simp add: calm_parts_def)
    from serverInit_registers [OF this _ _ _ th, of uh] obtain f' where
      f: "co_held (\<lambda>_. []) (server_handlers g) f'"
      and i: "serverInit S uh W = bnd (NewAcceptor (sl_acceptor S) uh (ThreadGetName th) False k
          (W\<lparr>tw_user := upd_acceptor (\<lambda>ac. ac\<lparr>ac_factory := f'\<rparr>) (on_pipe (\<lambda>p. p\<lparr>pp_self := 0\<rparr>) ?s)\<rparr>))
        (\<lambda>(made, w2). Inr (made, on_server (\<lambda>sv. sv\<lparr>sv_acceptor := made\<rparr>) w2))"
      unfolding u by auto
    let ?W = "W\<lparr>tw_user := upd_acceptor (\<lambda>ac. ac\<lparr>ac_factory := f'\<rparr>) (on_pipe (\<lambda>p. p\<lparr>pp_self := 0\<rparr>) ?s)\<rparr>"
    have "handler_env (al_penv (sl_acceptor S))" using assms(1) by (simp add: calm_parts_def)
    note env = this
    show ?thesis
    proof (cases "al_mem (sl_acceptor S)")
      case True
      then have "\<not> al_readers_mem (sl_acceptor S)" using assms(2) by simp
      from NewAcceptor_no_readers [OF env True this, where w = ?W and U = "server_handlers g" and r = "sl_ref S" and a = a and uh = uh
          and nm = "ThreadGetName th" and own = False and k = k] f True
      show ?thesis by (auto simp: i server_threads_def)
    next
      case False
      then show ?thesis by (simp add: i server_threads_def NewAcceptor_no_memory)
    qed
  qed
  have "returns (ThreadStart 0 (se_id ?e) [serve (server_threads S uh) ?t] ?t ?w) (\<lambda>(r, w'). r \<and>
    (\<exists>W b w2. starting ts ?t (se_id ?e) ?th ?w W \<and> ?Q W b w2 \<and> w' = put_thread ?t (live_thread (se_id ?e) b ?th) w2))"
  proof (rule start_seq [where Q = ?Q])
    show "reg_inv ?w ts" by (rule reg_inv_upd [OF assms(5)]) simp_all
  qed (use rm init in simp_all)
  then obtain w2 where s: "ThreadStart 0 (se_id ?e) [serve (server_threads S uh) ?t] ?t ?w = Inr (True, put_thread ?t (live_thread (se_id ?e) False ?th) w2)"
    and w2: "\<not> sv_acceptor (the_server (tw_user w2))" "sv_address (the_server (tw_user w2)) = Some (sl_ref S)"
      "(ps_addrs (tw_user w2) (sl_ref S) = None) = al_mem (sl_acceptor S)"
    by (auto elim!: returnsE)
  have "finish (server_threads S uh) (Suc f) ?t (put_thread ?t (live_thread (se_id ?e) False ?th) w2) = Inl Undefined" if "al_mem (sl_acceptor S)"
    by (rule finish_failed) (use that in \<open>simp_all add: server_threads_def serverExit_def free_server_def w2 Let_def\<close>)
  moreover have "ServerStart S uh ?w = Inr (True, put_thread ?t (live_thread (se_id ?e) False ?th) w2)"
    using s e by (simp add: ServerStart_def good_start_def)
  ultimately show ?thesis unfolding new using w2 by (simp add: w1 del: upd_server_simps)
qed

section \<open>An example\<close>

text \<open>The main thread creates a server with two pipes in an empty system.\<close>

definition sample_acceptor_life :: "(unit, unit, (unit, unit) server) acceptor_life" where
  "sample_acceptor_life = \<lparr>al_penv = sample_penv, al_mem = True, al_readers_mem = True, al_queue = (True, (True, 0), (True, 0)),
     al_selector = \<lparr>ns_mem = True, ns_polls_mem = True, ns_pipe = Some (5, 6), ns_fcntl_read = True, ns_fcntl_write = True\<rparr>,
     al_selector_lock = Some free_lock, al_start = sample_start, al_pipe = (\<lambda>_. sample_life), al_name = (\<lambda>_. True), al_socket = 8,
     al_fcntl = True, al_sockopt = True, al_bind = True, al_listen = True, al_rounds = (\<lambda>_. ([], [])), al_fuel = 4\<rparr>"

definition sample_server_life :: "(unit, unit, unit) server_life" where
  "sample_server_life = \<lparr>sl_mem = True, sl_ref = 0, sl_address_mem = (True, True, True), sl_resolver = (\<lambda>_ _. None), sl_info = (\<lambda>_. None),
     sl_pool = True, sl_pool_queue = (True, (True, 0), (True, 0)), sl_factory = (True, True, True), sl_queue = (True, (True, 0), (True, 0)),
     sl_start = sample_start, sl_acceptor = sample_acceptor_life, sl_waits = (\<lambda>_. []), sl_fuel = 18\<rparr>"

definition no_server :: "(unit, unit, unit) spsys" where
  "no_server = \<lparr>ps_conns = Map.empty, ps_mem = \<lparr>bm_bufs = Map.empty, bm_pools = Map.empty, bm_tick = 0, bm_items = 0\<rparr>,
     ps_addrs = Map.empty, ps_raised = [], ps_pipe = with_ext \<lparr>ac_name = None, ac_nameOwned = False, ac_thread = None, ac_address = None,
       ac_socket = - 1, ac_calls = [], ac_readers = [], ac_nbReaders = 0, ac_selector = None, ac_key = None,
       ac_factory = \<lparr>co_sys = None, co_usr = None, co_conn = undefined, co_net = [], co_readKey = None\<rparr>, ac_queue = None,
       ac_handed = Map.empty, ac_user = \<lparr>sv_address = None, sv_acceptor = False, sv_pool = None, sv_factory = False, sv_thread = None,
         sv_nbPipes = 0, sv_handler = (), sv_queue = None, sv_user = ()\<rparr>\<rparr> no_pipe\<rparr>"

definition server_main :: "(unit, unit, unit) sthreads" where
  "server_main = \<lparr>tw_heap = [0 \<mapsto> live_thread 1 True (fresh_thread (Some ''aio4c'') None None None None)], tw_tick = 1, tw_threads = slots [0],
     tw_initialized = True, tw_num = 1, tw_running = 1, tw_mutex = False, tw_user = no_server\<rparr>"

lemma server_main_ok: "reg_inv server_main [0]" "room (3 * 2 + 2) server_main" "room 1 server_main"
  by (simp_all add: server_main_def reg_inv_def room_def slots_def AIO4C_MAX_THREADS_def INT_MAX_def listed_def)

lemma sample_server_calm: "calm_server 8 sample_server_life" "calm_parts sample_server_life"
  using sample_handler_env sample_life_calm
  by (simp_all add: calm_server_def calm_parts_def calm_acceptor_def sample_server_life_def sample_acceptor_life_def good_queue_def
      good_start_def sample_start_def) (simp_all add: sample_penv_def)

theorem server_listens_witness:
  "\<exists>w1 w2. NewServer sample_server_life (\<lambda>_ _ _. Inr) ADDRESS_IPV4 ''localhost'' 80 8 2 () () server_main = Inr (True, w1) \<and>
     ServerStart sample_server_life (\<lambda>_ _ _. Inr) w1 = Inr (True, w2) \<and>
     listening 8 0 [] () (tw_user w2) \<and> listed (take (nat (tw_num w2)) (tw_threads w2)) = [0..<9]"
proof -
  have "0 \<le> (8::int)" "(8::int) \<le> INT_MAX - 2" by (simp_all add: INT_MAX_def)
  from server_listens [OF sample_server_calm(1) this server_main_ok(1,2), where uh = "\<lambda>_ _ _. Inr" and host = "''localhost''"
      and port = 80 and g = "()" and u = "()"]
  show ?thesis by (auto simp: server_main_def no_server_def upt_rec elim!: returnsE)
qed

theorem failed_acceptor_frees_address_twice_witness:
  "\<exists>w1 w2. NewServer (sample_server_life\<lparr>sl_acceptor := sample_acceptor_life\<lparr>al_readers_mem := False\<rparr>\<rparr>) (\<lambda>_ _ _. Inr) ADDRESS_IPV4
       ''localhost'' 80 8 2 () () server_main = Inr (True, w1) \<and>
     ServerStart (sample_server_life\<lparr>sl_acceptor := sample_acceptor_life\<lparr>al_readers_mem := False\<rparr>\<rparr>) (\<lambda>_ _ _. Inr) w1 = Inr (True, w2) \<and>
     finish (server_threads (sample_server_life\<lparr>sl_acceptor := sample_acceptor_life\<lparr>al_readers_mem := False\<rparr>\<rparr>) (\<lambda>_ _ _. Inr)) 1 1 w2 = Inl Undefined \<and>
     ps_addrs (tw_user w2) 0 = None \<and> sv_address (the_server (tw_user w2)) = Some 0"
proof -
  let ?S = "sample_server_life\<lparr>sl_acceptor := sample_acceptor_life\<lparr>al_readers_mem := False\<rparr>\<rparr>"
  have n: "0 \<le> (8::int)" "(8::int) \<le> INT_MAX - 2" by (simp_all add: INT_MAX_def)
  have S: "calm_parts ?S" "\<not> (al_mem (sl_acceptor ?S) \<and> al_readers_mem (sl_acceptor ?S))"
    using sample_server_calm(2) by (simp_all add: calm_parts_def sample_server_life_def sample_acceptor_life_def)
  from failed_acceptor_frees_address_twice [OF S n server_main_ok(1,3), where uh = "\<lambda>_ _ _. Inr" and host = "''localhost''"
      and port = 80 and g = "()" and u = "()" and k = 2 and f = 0]
  show ?thesis by (auto simp: server_main_def sample_server_life_def sample_acceptor_life_def elim!: returnsE)
qed

end
