(* ===== verification/Loggers.thy ===== *)
theory Loggers
  imports ThreadLife Buffers PipeLife
begin

text \<open>
  The logger of \<open>src/log.c\<close>: messages are formatted into a buffer of fixed size with the name of the
  calling thread before them and, unless the user has given a handler of his own, queued for a thread
  that prints them. \<open>LogInit_run\<close>, \<open>LogRun\<close> and \<open>LogExit\<close> are the functions of that thread.
\<close>

section \<open>State\<close>

datatype log_level = LOG_LEVEL_FATAL | LOG_LEVEL_ERROR | LOG_LEVEL_WARN | LOG_LEVEL_INFO | LOG_LEVEL_DEBUG

fun level_num :: "log_level \<Rightarrow> nat" where
  "level_num LOG_LEVEL_FATAL = 0"
| "level_num LOG_LEVEL_ERROR = 1"
| "level_num LOG_LEVEL_WARN = 2"
| "level_num LOG_LEVEL_INFO = 3"
| "level_num LOG_LEVEL_DEBUG = 4"

text \<open>The levels are compared as the numbers they are in C.\<close>

instantiation log_level :: linorder
begin

definition less_eq_log_level :: "log_level \<Rightarrow> log_level \<Rightarrow> bool" where
  "less_eq_log_level a b \<longleftrightarrow> level_num a \<le> level_num b"

definition less_log_level :: "log_level \<Rightarrow> log_level \<Rightarrow> bool" where
  "less_log_level a b \<longleftrightarrow> level_num a < level_num b"

instance
proof
  show "a \<le> b \<Longrightarrow> b \<le> a \<Longrightarrow> a = b" for a b :: log_level
    by (cases a; cases b) (simp_all add: less_eq_log_level_def)
qed (auto simp: less_eq_log_level_def less_log_level_def)

end

text \<open>The table \<open>_levelStr\<close>.\<close>

fun levelStr :: "log_level \<Rightarrow> string" where
  "levelStr LOG_LEVEL_FATAL = ''fatal''"
| "levelStr LOG_LEVEL_ERROR = ''error''"
| "levelStr LOG_LEVEL_WARN = ''warn''"
| "levelStr LOG_LEVEL_INFO = ''info''"
| "levelStr LOG_LEVEL_DEBUG = ''debug''"

datatype log_stream = Stderr | LogFile string

datatype log_handler = LogDefaultHandler | LogUserHandler

text \<open>
  The static structure \<open>_logger\<close>. \<open>lg_messages\<close> are the messages in memory, \<open>lg_tick\<close> the next fresh
  reference; \<open>lg_out\<close> is what has been printed and where, \<open>lg_closed\<close> the streams that have been closed,
  \<open>lg_initialized\<close> the static variable of \<open>LogInit\<close>, and \<open>lg_user\<close> what the user's handler works on.
\<close>

record 'x logger =
  lg_level :: log_level
  lg_file :: "log_stream option"
  lg_queue :: "nat queue option"
  lg_thread :: "nat option"
  lg_exiting :: bool
  lg_custom :: bool
  lg_handler :: "log_handler option"
  lg_messages :: "nat \<rightharpoonup> log_level \<times> string"
  lg_tick :: nat
  lg_out :: "(log_stream \<times> string) list"
  lg_closed :: "log_stream list"
  lg_initialized :: bool
  lg_user :: 'x

datatype log_fun = F_LogInit | F_LogRun | F_LogExit

type_synonym 'x lworld = "(log_fun, unit, 'x logger) tworld"

type_synonym 'x luser = "log_level \<Rightarrow> string \<Rightarrow> 'x \<Rightarrow> 'x res"

definition on_logger :: "('x logger \<Rightarrow> 'x logger) \<Rightarrow> 'x lworld \<Rightarrow> 'x lworld" where
  "on_logger g w = w\<lparr>tw_user := g (tw_user w)\<rparr>"

text \<open>The allocations of a message's text and of its structure, and those of the queue.\<close>

record log_env =
  lo_text :: bool
  lo_message :: bool
  lo_okq :: "nat \<Rightarrow> bool"
  lo_item :: bool

section \<open>Formatting\<close>

definition AIO4C_LOG_MESSAGE_SIZE :: int where
  "AIO4C_LOG_MESSAGE_SIZE = 32 + 256"

definition AIO4C_LOG_BUFFER_SIZE :: int where
  "AIO4C_LOG_BUFFER_SIZE = 77"

text \<open>
  \<open>vsnprintf(&buffer[pos], size, ...)\<close> with the formatted text: it stores at most \<open>size - 1\<close> characters
  and a zero, nothing when the size is 0. The pointer itself must not lie beyond the end.
\<close>

definition c_vsnprintf :: "string \<Rightarrow> int \<Rightarrow> nat \<Rightarrow> string \<Rightarrow> string res" where
  "c_vsnprintf buf pos n text =
     (if pos < 0 \<or> int (length buf) < pos then Inl Undefined
      else if n = 0 then Inr buf
      else
        let s = take (n - 1) text @ [CHR 0x00]; i = nat pos in
        if i + length s \<le> length buf then Inr (take i buf @ s @ drop (i + length s) buf) else Inl Undefined)"

text \<open>An \<open>int\<close> as a \<open>size_t\<close> of 64 bits, and such a number stored in an \<open>int\<close>.\<close>

definition to_size :: "int \<Rightarrow> nat" where
  "to_size z = nat (z mod 2 ^ 64)"

definition size_to_int :: "nat \<Rightarrow> int" where
  "size_to_int n = sint (of_nat n :: 32 word)"

text \<open>The text is None when \<open>vsnprintf\<close> fails. The position advances by the whole length of the text.\<close>

definition logsnprintf :: "int \<Rightarrow> string option \<Rightarrow> string \<times> int \<Rightarrow> (string \<times> int) res" where
  "logsnprintf len text b =
     (case b of (buf, pos) \<Rightarrow>
      case text of
        None \<Rightarrow> Inr (buf, pos)
      | Some t \<Rightarrow>
          bnd (c_int (len - pos)) (\<lambda>room.
          bnd (c_vsnprintf buf pos (to_size room) t) (\<lambda>buf'.
          bnd (c_int (pos + int (length t))) (\<lambda>pos'. Inr (buf', pos')))))"

definition logprefix ::
  "log_env \<Rightarrow> nat \<Rightarrow> string option \<Rightarrow> int \<Rightarrow> bool \<Rightarrow> 'x lworld \<Rightarrow> (string option \<times> int \<times> 'x lworld) res" where
  "logprefix env self pMessage pos allocate w =
     (if allocate \<and> \<not> lo_text env then Inr (pMessage, - 1, w)
      else
        bnd (if allocate then Inr (replicate (nat AIO4C_LOG_MESSAGE_SIZE) (CHR 0x00), 0)
             else bnd (deref pMessage) (\<lambda>m. Inr (m, pos))) (\<lambda>(message, pos1).
        bnd (ThreadSelf self w) (\<lambda>(from, w1).
        bnd (case from of
               None \<Rightarrow> Inr (message, pos1)
             | Some t \<Rightarrow>
                 bnd (get_thread w1 t) (\<lambda>th.
                 case ThreadGetName th of
                   None \<Rightarrow> Inr (message, pos1)
                 | Some name \<Rightarrow> logsnprintf AIO4C_LOG_MESSAGE_SIZE (Some (name @ '': '')) (message, pos1))) (\<lambda>(message1, pos2).
        Inr (Some message1, pos2, w1)))))"

text \<open>The string that a buffer holds.\<close>

definition log_string :: "string \<Rightarrow> string" where
  "log_string buf = takeWhile (\<lambda>c. c \<noteq> CHR 0x00) buf"

section \<open>Printing and queueing\<close>

text \<open>\<open>_LogPrintMessage\<close> for a message in memory; printing to a stream that has been closed is undefined.\<close>

definition LogPrintMessage :: "nat option \<Rightarrow> 'x logger \<Rightarrow> 'x logger res" where
  "LogPrintMessage message lg =
     (case message of
        None \<Rightarrow> Inr lg
      | Some r \<Rightarrow>
          bnd (deref (lg_messages lg r)) (\<lambda>(level, content).
          let log = (case lg_file lg of Some f \<Rightarrow> if lg_exiting lg then Stderr else f | None \<Rightarrow> Stderr) in
          if log \<in> set (lg_closed lg) then Inl Undefined
          else Inr (lg\<lparr>lg_out := lg_out lg @ [(log, ''['' @ levelStr level @ ''] '' @ content)],
                      lg_messages := (lg_messages lg)(r := None)\<rparr>)))"

definition LogDefaultHandler_run :: "log_env \<Rightarrow> log_level \<Rightarrow> string \<Rightarrow> 'x logger \<Rightarrow> 'x logger res" where
  "LogDefaultHandler_run env level message lg =
     (if \<not> lo_message env then Inr lg
      else
        let r = lg_tick lg;
            lg1 = lg\<lparr>lg_tick := Suc r, lg_messages := (lg_messages lg)(r \<mapsto> (level, message))\<rparr> in
        case lg_queue lg1 of
          None \<Rightarrow> LogPrintMessage (Some r) lg1
        | Some q \<Rightarrow>
            bnd (EnqueueDataItem (lo_okq env) q r) (\<lambda>(enqueued, q').
            let lg2 = lg1\<lparr>lg_queue := Some q'\<rparr> in
            if \<not> enqueued then LogPrintMessage (Some r) lg2 else Inr lg2))"

definition log_handle :: "log_env \<Rightarrow> 'x luser \<Rightarrow> log_handler \<Rightarrow> log_level \<Rightarrow> string \<Rightarrow> 'x logger \<Rightarrow> 'x logger res" where
  "log_handle env lh h level message lg =
     (case h of
        LogDefaultHandler \<Rightarrow> LogDefaultHandler_run env level message lg
      | LogUserHandler \<Rightarrow> bnd (lh level message (lg_user lg)) (\<lambda>x. Inr (lg\<lparr>lg_user := x\<rparr>)))"

definition log_filtered :: "log_level \<Rightarrow> 'x logger \<Rightarrow> bool" where
  "log_filtered level lg \<longleftrightarrow> (\<not> lg_custom lg \<and> lg_level lg < level) \<or> lg_handler lg = None"

text \<open>\<open>self\<close> is the calling thread's identifier, \<open>text\<close> what \<open>vsnprintf\<close> makes of the format and its arguments.\<close>

definition Log ::
  "log_env \<Rightarrow> 'x luser \<Rightarrow> nat \<Rightarrow> log_level \<Rightarrow> string option \<Rightarrow> 'x lworld \<Rightarrow> 'x lworld res" where
  "Log env lh self level text w =
     (if log_filtered level (tw_user w) then Inr w
      else
        bnd (logprefix env self None 0 True w) (\<lambda>(message, pos, w1).
        bnd (deref message) (\<lambda>buf.
        bnd (logsnprintf AIO4C_LOG_MESSAGE_SIZE text (buf, pos)) (\<lambda>b1.
        bnd (logsnprintf AIO4C_LOG_MESSAGE_SIZE (Some [CHR 0x0A]) b1) (\<lambda>(buf2, _).
        bnd (case lg_handler (tw_user w1) of
               None \<Rightarrow> Inr (tw_user w1)
             | Some h \<Rightarrow> log_handle env lh h level (log_string buf2) (tw_user w1)) (\<lambda>lg.
        Inr (w1\<lparr>tw_user := lg\<rparr>)))))))"

section \<open>Dumping a buffer\<close>

text \<open>The conversions \<open>%02x\<close> and \<open>0x%08x\<close>, and the characters that \<open>isprint\<close> accepts in the C locale.\<close>

definition hex_digit :: "nat \<Rightarrow> char" where
  "hex_digit d = (if d < 10 then char_of (48 + d) else char_of (87 + d))"

fun hex_digits :: "nat \<Rightarrow> string" where
  "hex_digits n = (if n < 16 then [hex_digit n] else hex_digits (n div 16) @ [hex_digit (n mod 16)])"

declare hex_digits.simps [simp del]

definition format_02x :: "byte \<Rightarrow> string" where
  "format_02x b = zero_padded 2 (hex_digits (unat b))"

definition format_08x :: "int \<Rightarrow> string" where
  "format_08x i = zero_padded 8 (hex_digits (nat (i mod 2 ^ 32)))"

text \<open>
  The code hands \<open>isprint\<close> a character, which is negative from 0x80 on where \<open>char\<close> is signed: ISO C
  leaves that undefined, the C libraries this code is built with answer 0, and so does the model.
\<close>

definition printable :: "byte \<Rightarrow> char" where
  "printable b = (if 32 \<le> unat b \<and> unat b < 127 then char_of (unat b) else CHR ''.'')"

definition hex_cell :: "buffer \<Rightarrow> int \<Rightarrow> int \<Rightarrow> int \<Rightarrow> string \<times> int \<Rightarrow> (string \<times> int) res" where
  "hex_cell b len i j st =
     bnd (c_int (i + j)) (\<lambda>k.
     if k < BufferGetLimit b then
       bnd (mread (BufferGetBytes b) k 1) (\<lambda>x. logsnprintf len (Some (format_02x (hd x) @ '' '')) st)
     else logsnprintf len (Some ''   '') st)"

text \<open>The loop over the characters of a line, from column \<open>j\<close> with \<open>k\<close> columns left.\<close>

fun text_cells :: "nat \<Rightarrow> buffer \<Rightarrow> int \<Rightarrow> int \<Rightarrow> int \<Rightarrow> string \<times> int \<Rightarrow> (string \<times> int) res" where
  "text_cells 0 b len i j st = Inr st"
| "text_cells (Suc k) b len i j st =
     bnd (c_int (i + j)) (\<lambda>p.
     if p < BufferGetLimit b then
       bnd (mread (BufferGetBytes b) p 1) (\<lambda>x.
       bnd (logsnprintf len (Some [printable (hd x)]) st) (\<lambda>st1. text_cells k b len i (j + 1) st1))
     else Inr st)"

definition dump_line :: "buffer \<Rightarrow> int \<Rightarrow> int \<Rightarrow> string \<times> int \<Rightarrow> (string \<times> int) res" where
  "dump_line b len i st =
     bnd (logsnprintf len (Some (''0x'' @ format_08x i @ '': '')) st) (\<lambda>st1.
     bnd (in_turn (map (\<lambda>j. hex_cell b len i (int j)) [0..<16]) st1) (\<lambda>st2.
     bnd (text_cells 16 b len i 0 st2) (\<lambda>st3.
     logsnprintf len (Some [CHR 0x0A]) st3)))"

fun dump_lines :: "nat \<Rightarrow> buffer \<Rightarrow> int \<Rightarrow> int \<Rightarrow> string \<times> int \<Rightarrow> (string \<times> int) res" where
  "dump_lines 0 b len i st = Inl OutOfFuel"
| "dump_lines (Suc f) b len i st =
     (if i < BufferGetLimit b then
        bnd (dump_line b len i st) (\<lambda>st1. bnd (c_int (i + 16)) (\<lambda>i'. dump_lines f b len i' st1))
      else Inr st)"

text \<open>\<open>ptr\<close> is the text of the buffer's address. The first product is one of \<open>size_t\<close>.\<close>

definition dump_size :: "int \<Rightarrow> int res" where
  "dump_size n =
     (let len = size_to_int (to_size (AIO4C_LOG_BUFFER_SIZE * int (to_size n)) div 16);
          len1 = (if n mod 16 \<noteq> 0 then size_to_int (to_size (int (to_size len) + AIO4C_LOG_BUFFER_SIZE)) else len) in
      c_int (len1 + AIO4C_LOG_MESSAGE_SIZE))"

definition dump_header :: "string \<Rightarrow> buffer \<Rightarrow> string" where
  "dump_header ptr b =
     ''dumping buffer '' @ ptr @ '' [pos: '' @ digits (nat (BufferGetPosition b mod 2 ^ 32)) @ '', lim: '' @
     digits (nat (BufferGetLimit b mod 2 ^ 32)) @ '', cap: '' @ digits (nat (BufferGetCapacity b mod 2 ^ 32)) @ '']'' @ [CHR 0x0A]"

definition LogBuffer ::
  "log_env \<Rightarrow> 'x luser \<Rightarrow> nat \<Rightarrow> nat \<Rightarrow> string \<Rightarrow> log_level \<Rightarrow> buffer \<Rightarrow> 'x lworld \<Rightarrow> 'x lworld res" where
  "LogBuffer env lh f self ptr level b w =
     (if log_filtered level (tw_user w) then Inr w
      else
        bnd (c_int (BufferGetLimit b - BufferGetPosition b)) (\<lambda>n.
        bnd (dump_size n) (\<lambda>len.
        if \<not> lo_text env \<or> len < 0 then Inr w
        else
          bnd (logprefix env self (Some (replicate (nat len) (CHR 0x00))) 0 False w) (\<lambda>(text, pos, w1).
          bnd (deref text) (\<lambda>buf.
          bnd (logsnprintf len (Some (dump_header ptr b)) (buf, pos)) (\<lambda>st.
          bnd (dump_lines f b len (BufferGetPosition b) st) (\<lambda>(buf1, _).
          bnd (deref (lg_handler (tw_user w1))) (\<lambda>h.
          bnd (log_handle env lh h level (log_string buf1) (tw_user w1)) (\<lambda>lg.
          Inr (w1\<lparr>tw_user := lg\<rparr>))))))))))"

section \<open>The logger's thread\<close>

text \<open>
  The answers for a logger: for its messages, whether the file can be opened, its queue and its thread,
  and the waits of the calls of \<open>Dequeue\<close> in its routine and in its finalisation.
\<close>

record log_life =
  ll_env :: log_env
  ll_open :: bool
  ll_strerror :: string
  ll_queue :: queue_env
  ll_start :: start_env
  ll_waits :: "nat wake list list"
  ll_exit_waits :: "nat wake list list"
  ll_fuel :: nat

text \<open>\<open>tid\<close> is the text of the thread's identifier.\<close>

definition LogInit_run :: "log_life \<Rightarrow> 'x luser \<Rightarrow> (nat \<Rightarrow> string) \<Rightarrow> 'x lworld \<Rightarrow> (bool \<times> 'x lworld) res" where
  "LogInit_run L lh tid w =
     bnd (deref (lg_thread (tw_user w))) (\<lambda>t.
     bnd (get_thread w t) (\<lambda>th.
     bnd (Log (ll_env L) lh (ThreadGetId th) LOG_LEVEL_INFO
            (Some (''logging is initialized, logger tid is '' @ tid (ThreadGetId th))) w) (\<lambda>w1.
     Inr (True, w1))))"

definition LogRound :: "log_env \<Rightarrow> nat wake list \<Rightarrow> nat qitem \<Rightarrow> 'x logger \<Rightarrow> (round_end \<times> nat qitem \<times> 'x logger) res" where
  "LogRound env ws item lg =
     bnd (deref (lg_queue lg)) (\<lambda>q.
     bnd (Dequeue (lo_okq env) ws q item True) (\<lambda>(dequeued, it, q').
     let lg1 = lg\<lparr>lg_queue := Some q'\<rparr> in
     if \<not> dequeued then Inr (Return True, it, lg1)
     else
       case QueueItemGetType it of
         QUEUE_ITEM_EXIT \<Rightarrow> Inr (Return False, it, lg1)
       | QUEUE_ITEM_DATA \<Rightarrow>
           bnd (QueueDataItemGet it) (\<lambda>r. bnd (LogPrintMessage (Some r) lg1) (\<lambda>lg2. Inr (Again, it, lg2)))
       | _ \<Rightarrow> Inr (Again, it, lg1)))"

fun LogLoop :: "log_env \<Rightarrow> nat wake list list \<Rightarrow> nat qitem \<Rightarrow> 'x logger \<Rightarrow> (bool \<times> 'x logger) res" where
  "LogLoop env [] item lg = Inl OutOfFuel"
| "LogLoop env (ws # waits) item lg =
     bnd (LogRound env ws item lg) (\<lambda>(nx, it, lg1).
     case nx of Again \<Rightarrow> LogLoop env waits it lg1 | Return b \<Rightarrow> Inr (b, lg1))"

definition LogRun :: "log_env \<Rightarrow> nat wake list list \<Rightarrow> 'x logger \<Rightarrow> (bool \<times> 'x logger) res" where
  "LogRun env waits lg = bnd (deref (NewQueueItem (lo_item env))) (\<lambda>item. LogLoop env waits item lg)"

text \<open>The finalisation runs on the logger's thread \<open>self\<close>.\<close>

definition LogExit :: "log_life \<Rightarrow> 'x luser \<Rightarrow> 'x lworld \<Rightarrow> 'x lworld res" where
  "LogExit L lh w =
     bnd (deref (lg_thread (tw_user w))) (\<lambda>t.
     bnd (get_thread w t) (\<lambda>th.
     bnd (Log (ll_env L) lh (ThreadGetId th) LOG_LEVEL_INFO (Some ''logging finished'') w) (\<lambda>w1.
     bnd (LogRun (ll_env L) (ll_exit_waits L) (tw_user w1)) (\<lambda>(_, lg).
     bnd (deref (lg_file lg)) (\<lambda>file.
     bnd (when_ok (file \<notin> set (lg_closed lg)) Undefined ()) (\<lambda>_.
     bnd (FreeQueue (lg_queue lg)) (\<lambda>(q, _).
     Inr (w1\<lparr>tw_user := lg\<lparr>lg_closed := lg_closed lg @ [file], lg_file := None, lg_queue := q\<rparr>\<rparr>))))))))"

definition logger_threads :: "log_life \<Rightarrow> 'x luser \<Rightarrow> (nat \<Rightarrow> string) \<Rightarrow> (log_fun, unit, 'x logger) tcallbacks" where
  "logger_threads L lh tid =
     \<lparr>tc_call = (\<lambda>g _ w. if g = F_LogInit then LogInit_run L lh tid w
        else bnd (LogRun (ll_env L) (ll_waits L) (tw_user w)) (\<lambda>(b, lg). Inr (b, w\<lparr>tw_user := lg\<rparr>))),
      tc_exit = (\<lambda>_ _. LogExit L lh)\<rparr>"

section \<open>Starting and ending the logger\<close>

text \<open>The global variables \<open>AIO4C_LOG_LEVEL\<close> and \<open>AIO4C_LOG_FILE\<close> that the options set.\<close>

record log_options =
  opt_log_level :: log_level
  opt_log_file :: "string option"

text \<open>The part of \<open>LogInit\<close> after the file: the queue and the thread. \<open>self\<close> is the calling thread.\<close>

definition start_logger :: "log_life \<Rightarrow> 'x luser \<Rightarrow> (nat \<Rightarrow> string) \<Rightarrow> nat \<Rightarrow> 'x lworld \<Rightarrow> 'x lworld res" where
  "start_logger L lh tid self w =
     (let q = NewQueue (fst (ll_queue L)) (fst (snd (ll_queue L))) (snd (snd (ll_queue L)));
          warn = (\<lambda>text. Log (ll_env L) lh self LOG_LEVEL_WARN (Some text));
          w1 = on_logger (\<lambda>lg. lg\<lparr>lg_queue := q\<rparr>) w in
      if q = None then warn (''cannot create log messages queue: '' @ ll_strerror L @ '', therefore no thread will be used'') w1
      else
        case se_thread (ll_start L) of (mem, lk, cd) \<Rightarrow>
        case NewThread mem lk cd (Some ''logger'') (Some F_LogInit) (Some F_LogRun) (Some F_LogExit) (Some ()) w1 of
          (None, w2) \<Rightarrow>
            warn ''cannot create logging thread, logging may slow down performances'' (on_logger (\<lambda>lg. lg\<lparr>lg_thread := None\<rparr>) w2)
        | (Some t, w2) \<Rightarrow>
            bnd (ThreadStart (se_create (ll_start L)) (se_id (ll_start L)) [serve (logger_threads L lh tid) t] t
                   (on_logger (\<lambda>lg. lg\<lparr>lg_thread := Some t\<rparr>) w2)) (\<lambda>(started, w3).
            if started then Inr w3
            else
              bnd (warn ''cannot start logging thread, logging may slow down performances'' w3) (\<lambda>w4.
              bnd (FreeThread (lg_thread (tw_user w4)) w4) (\<lambda>(p, w5).
              Inr (on_logger (\<lambda>lg. lg\<lparr>lg_thread := p\<rparr>) w5)))))"

text \<open>\<open>handler\<close> says whether the user gives a handler, and \<open>x\<close> its argument.\<close>

definition LogInit ::
  "log_life \<Rightarrow> 'x luser \<Rightarrow> (nat \<Rightarrow> string) \<Rightarrow> nat \<Rightarrow> log_options \<Rightarrow> bool \<Rightarrow> 'x \<Rightarrow> 'x lworld \<Rightarrow> 'x lworld res" where
  "LogInit L lh tid self opts handler x w =
     (if lg_initialized (tw_user w) then Inr w
      else
        let w1 = on_logger (\<lambda>lg. lg\<lparr>lg_initialized := True\<rparr>) w in
        if handler then
          Inr (on_logger (\<lambda>lg. lg\<lparr>lg_custom := True, lg_handler := Some LogUserHandler, lg_user := x\<rparr>) w1)
        else
          let w2 = on_logger (\<lambda>lg. lg\<lparr>lg_handler := Some LogDefaultHandler, lg_level := opt_log_level opts\<rparr>) w1 in
          bnd (case opt_log_file opts of
                 None \<Rightarrow> Inr (on_logger (\<lambda>lg. lg\<lparr>lg_file := Some Stderr\<rparr>) w2)
               | Some name \<Rightarrow>
                   if ll_open L then Inr (on_logger (\<lambda>lg. lg\<lparr>lg_file := Some (LogFile name)\<rparr>) w2)
                   else Log (ll_env L) lh self LOG_LEVEL_WARN
                          (Some (''open '' @ name @ '': '' @ ll_strerror L @ '', therefore logging will be performed on console instead''))
                          (on_logger (\<lambda>lg. lg\<lparr>lg_file := Some Stderr\<rparr>) w2)) (\<lambda>w3.
          start_logger L lh tid self w3))"

definition LogEnd :: "log_life \<Rightarrow> 'x luser \<Rightarrow> (nat \<Rightarrow> string) \<Rightarrow> 'x lworld \<Rightarrow> 'x lworld res" where
  "LogEnd L lh tid w =
     (case lg_queue (tw_user w) of
        None \<Rightarrow> Inr w
      | Some q \<Rightarrow>
          bnd (EnqueueExitItem (lo_okq (ll_env L)) q) (\<lambda>(enqueued, q').
          let w1 = on_logger (\<lambda>lg. lg\<lparr>lg_exiting := True, lg_queue := Some q'\<rparr>) w; t = lg_thread (tw_user w1) in
          if enqueued then ThreadJoin (case t of None \<Rightarrow> Inr | Some t \<Rightarrow> finish (logger_threads L lh tid) (ll_fuel L) t) t w1
          else Inr w1))"

end
