(* ===== verification/LoggerFlow.thy ===== *)
theory LoggerFlow
  imports Loggers
begin

text \<open>
  What becomes of a message of \<open>src/log.c\<close>: how its text is cut or overflows its buffer, the order in
  which messages are printed, and the dump of a buffer.
\<close>

declare less_eq_log_level_def [simp] less_log_level_def [simp]

section \<open>One line\<close>

text \<open>After writing the text \<open>s\<close> piece by piece the buffer of 288 bytes holds its first 287 characters.\<close>

definition filled :: "string \<Rightarrow> string \<times> int \<Rightarrow> bool" where
  "filled s st \<longleftrightarrow> (case st of (buf, pos) \<Rightarrow> length buf = 288 \<and> pos = int (length s) \<and>
     take (Suc (min 287 (length s))) buf = take 287 s @ [CHR 0x00])"

abbreviation "blank_message \<equiv> replicate (nat AIO4C_LOG_MESSAGE_SIZE) (CHR 0x00)"

lemma filled_nil: "filled [] (blank_message, 0)"
  by (simp add: filled_def AIO4C_LOG_MESSAGE_SIZE_def)

lemma to_size_nonneg: "0 \<le> z \<Longrightarrow> z \<le> INT_MAX \<Longrightarrow> to_size z = nat z"
  by (simp add: to_size_def INT_MAX_def)

lemma take_Suc_snoc: "take (Suc (length xs)) (xs @ x # ys) = xs @ [x]"
  by simp

lemma vsnprintf_fill:
  assumes "length buf = Suc n" "take (length s) buf = s" "length s \<le> n"
  shows "\<exists>buf'. c_vsnprintf buf (int (length s)) (Suc n - length s) t = Inr buf' \<and> length buf' = Suc n \<and>
    take (Suc (min n (length (s @ t)))) buf' = take n (s @ t) @ [CHR 0x00]"
proof -
  let ?u = "take (n - length s) t"
  let ?buf = "s @ (?u @ [CHR 0x00]) @ drop (length s + length (?u @ [CHR 0x00])) buf"
  have "c_vsnprintf buf (int (length s)) (Suc n - length s) t = Inr ?buf"
    using assms by (simp add: c_vsnprintf_def Let_def Suc_diff_le)
  moreover have "length ?buf = Suc n" using assms(1,3) by simp
  moreover have "take (Suc (min n (length (s @ t)))) ?buf = take n (s @ t) @ [CHR 0x00]"
  proof (cases "length (s @ t) \<le> n")
    case True
    then have "min n (length (s @ t)) = length s + length t" "?u = t" "take n (s @ t) = s @ t" by simp_all
    then show ?thesis by simp
  next
    case False
    then have "min n (length (s @ t)) = length (s @ ?u)" "take n (s @ t) = s @ ?u" using assms(3) by simp_all
    then show ?thesis using take_Suc_snoc [of "s @ ?u"] by (simp only: append_assoc append_Cons append_Nil)
  qed
  ultimately show ?thesis by blast
qed

lemma filled_step:
  assumes "filled s st" "length s \<le> 288" "int (length (s @ t)) \<le> INT_MAX"
  shows "returns (logsnprintf AIO4C_LOG_MESSAGE_SIZE (Some t) st) (filled (s @ t))"
proof -
  obtain buf pos where st: "st = (buf, pos)" by (cases st)
  have b: "length buf = 288" "pos = int (length s)" "take (Suc (min 287 (length s))) buf = take 287 s @ [CHR 0x00]"
    using assms(1) by (simp_all add: filled_def st)
  have r: "is_int (288 - int (length s))" "to_size (288 - int (length s)) = 288 - length s" "is_int (int (length s) + int (length t))"
    using assms(2,3) to_size_nonneg [of "288 - int (length s)"] by (simp_all add: is_int_def INT_MIN_def INT_MAX_def nat_diff_distrib')
  show ?thesis
  proof (cases "length s = 288")
    case True
    then show ?thesis using b r by (simp add: st logsnprintf_def AIO4C_LOG_MESSAGE_SIZE_def c_vsnprintf_def filled_def)
  next
    case False
    then have l: "length s \<le> 287" using assms(2) by simp
    have "take (length s) buf = s" using arg_cong [OF b(3), of "take (length s)"] l by simp
    from vsnprintf_fill [OF _ this l, of t] b(1) obtain buf' where
      "c_vsnprintf buf (int (length s)) (288 - length s) t = Inr buf'" "length buf' = 288"
      "take (Suc (min 287 (length (s @ t)))) buf' = take 287 (s @ t) @ [CHR 0x00]" by auto
    with b(2) r show ?thesis by (simp add: st logsnprintf_def AIO4C_LOG_MESSAGE_SIZE_def) (simp add: filled_def)
  qed
qed

lemma filled_over:
  assumes "filled s st" "288 < length s" "is_int (int (length s))"
  shows "logsnprintf AIO4C_LOG_MESSAGE_SIZE (Some t) st = Inl Undefined"
proof -
  have "is_int (288 - int (length s))" using assms(2,3) by (auto simp: is_int_def INT_MIN_def INT_MAX_def)
  then show ?thesis using assms(1,2) by (cases st) (simp add: filled_def logsnprintf_def AIO4C_LOG_MESSAGE_SIZE_def c_vsnprintf_def)
qed

lemma filled_string:
  assumes "filled s (buf, pos)" "CHR 0x00 \<notin> set s"
  shows "log_string buf = take 287 s"
proof -
  let ?k = "Suc (min 287 (length s))"
  have b: "buf = take 287 s @ [CHR 0x00] @ drop ?k buf" using assms(1) append_take_drop_id [of ?k buf] by (simp add: filled_def)
  have "\<forall>c \<in> set (take 287 s). c \<noteq> CHR 0x00" using assms(2) by (auto dest: in_set_takeD)
  then show ?thesis unfolding log_string_def by (subst b) (simp add: takeWhile_append2)
qed

text \<open>The name of the calling thread, before its messages.\<close>

definition caller_prefix :: "nat \<Rightarrow> nat list \<Rightarrow> 'x lworld \<Rightarrow> string" where
  "caller_prefix self ts w = (case find (\<lambda>t. t_id (the (tw_heap w t)) = self) ts of
     None \<Rightarrow> []
   | Some t \<Rightarrow> (case t_name (the (tw_heap w t)) of None \<Rightarrow> [] | Some name \<Rightarrow> name @ '': ''))"

lemma logprefix_seq:
  assumes r: "reg_inv w ts"
  shows "logprefix env self pMessage pos allocate w =
    (if allocate \<and> \<not> lo_text env then Inr (pMessage, - 1, w)
     else bnd (if allocate then Inr (blank_message, 0) else bnd (deref pMessage) (\<lambda>m. Inr (m, pos))) (\<lambda>st.
       bnd (if caller_prefix self ts w = [] then Inr st else logsnprintf AIO4C_LOG_MESSAGE_SIZE (Some (caller_prefix self ts w)) st)
         (\<lambda>(m, p). Inr (Some m, p, w))))"
proof (cases "find (\<lambda>t. t_id (the (tw_heap w t)) = self) ts")
  case None
  then show ?thesis
    by (simp add: logprefix_def ThreadSelf_seq [OF r] caller_prefix_def split_def cong: bnd_cong)
next
  case (Some t)
  then have "t \<in> set ts" by (metis find_Some_iff nth_mem)
  then obtain th where "tw_heap w t = Some th" using r by (auto simp: reg_inv_def)
  with Some show ?thesis
    by (simp add: logprefix_def ThreadSelf_seq [OF r] caller_prefix_def ThreadGetName_def get_thread_def
        split_def cong: bnd_cong split: option.split)
qed

text \<open>The three writes of \<open>Log\<close>.\<close>

definition write_line :: "string \<Rightarrow> string \<Rightarrow> string res" where
  "write_line p msg =
     bnd (if p = [] then Inr (blank_message, 0)
          else logsnprintf AIO4C_LOG_MESSAGE_SIZE (Some p) (blank_message, 0)) (\<lambda>st.
     bnd (logsnprintf AIO4C_LOG_MESSAGE_SIZE (Some msg) st) (\<lambda>st1.
     bnd (logsnprintf AIO4C_LOG_MESSAGE_SIZE (Some [CHR 0x0A]) st1) (\<lambda>(buf, _). Inr (log_string buf))))"

lemma write_line_exact:
  assumes n: "int (length (p @ msg)) < INT_MAX" and z: "CHR 0x00 \<notin> set (p @ msg)"
  shows "write_line p msg = (if length (p @ msg) \<le> 288 then Inr (take 287 (p @ msg @ [CHR 0x0A])) else Inl Undefined)"
proof -
  have i: "int (length p) \<le> INT_MAX" "is_int (int (length p))" "is_int (int (length (p @ msg)))"
    using n by (auto simp: is_int_def INT_MIN_def)
  obtain st where st: "(if p = [] then Inr (blank_message, 0)
      else logsnprintf AIO4C_LOG_MESSAGE_SIZE (Some p) (blank_message, 0)) = Inr st" "filled p st"
    using filled_step [OF filled_nil, of p] filled_nil i(1) by (cases "p = []") (auto elim!: returnsE)
  show ?thesis
  proof (cases "length p \<le> 288")
    case False
    then show ?thesis using st filled_over [OF st(2) _ i(2)] by (simp add: write_line_def)
  next
    case p: True
    obtain st1 where st1: "logsnprintf AIO4C_LOG_MESSAGE_SIZE (Some msg) st = Inr st1" "filled (p @ msg) st1"
      using filled_step [OF st(2) p, of msg] n by (auto elim!: returnsE)
    show ?thesis
    proof (cases "length (p @ msg) \<le> 288")
      case False
      then show ?thesis using st st1 filled_over [OF st1(2) _ i(3)] by (simp add: write_line_def)
    next
      case True
      obtain buf pos where st2: "logsnprintf AIO4C_LOG_MESSAGE_SIZE (Some [CHR 0x0A]) st1 = Inr (buf, pos)" "filled ((p @ msg) @ [CHR 0x0A]) (buf, pos)"
        using filled_step [OF st1(2) True, of "[CHR 0x0A]"] n by (auto elim!: returnsE)
      have "log_string buf = take 287 ((p @ msg) @ [CHR 0x0A])" by (rule filled_string [OF st2(2)]) (use z in auto)
      then show ?thesis using st st1 st2(1) True by (simp add: write_line_def)
    qed
  qed
qed

lemma Log_seq:
  assumes r: "reg_inv w ts" and l: "\<not> log_filtered level (tw_user w)"
  shows "Log env lh self level (Some msg) w =
    (if lo_text env then
       bnd (write_line (caller_prefix self ts w) msg) (\<lambda>line.
       bnd (log_handle env lh (the (lg_handler (tw_user w))) level line (tw_user w)) (\<lambda>lg. Inr (w\<lparr>tw_user := lg\<rparr>)))
     else Inl Undefined)"
proof -
  obtain h where h: "lg_handler (tw_user w) = Some h" using l by (auto simp: log_filtered_def)
  show ?thesis using l
    by (simp add: Log_def logprefix_seq [OF r] write_line_def h bnd_assoc split_def cong: bnd_cong)
qed

text \<open>
  C36. One message. With the calling thread's name before it and the newline behind, a message of at
  most 288 characters is handed to the handler cut to 287 characters; a longer one makes \<open>Log\<close> write the
  newline behind the end of its buffer, and without memory for the buffer it writes before its start.
\<close>

theorem log_message_exact:
  assumes "reg_inv w ts" "\<not> log_filtered level (tw_user w)" "int (length (caller_prefix self ts w @ msg)) < INT_MAX"
    and "CHR 0x00 \<notin> set (caller_prefix self ts w @ msg)"
  shows "Log env lh self level (Some msg) w =
    (if lo_text env \<and> length (caller_prefix self ts w @ msg) \<le> 288 then
       bnd (log_handle env lh (the (lg_handler (tw_user w))) level (take 287 (caller_prefix self ts w @ msg @ [CHR 0x0A])) (tw_user w))
         (\<lambda>lg. Inr (w\<lparr>tw_user := lg\<rparr>))
     else Inl Undefined)"
  using Log_seq [OF assms(1,2), of env lh self msg] write_line_exact [OF assms(3,4)] by simp

section \<open>The queue of messages\<close>

text \<open>The messages \<open>ms\<close> wait in the queue, which has the flags \<open>x\<close> (an exit item is behind them) and \<open>e\<close> (emptied).\<close>

definition log_queue :: "(log_level \<times> string) list \<Rightarrow> bool \<Rightarrow> bool \<Rightarrow> 'x logger \<Rightarrow> bool" where
  "log_queue ms x e lg \<longleftrightarrow> (\<exists>q rs. lg_queue lg = Some q \<and> q_inv q \<and>
     abs_queue q = \<lparr>a_items = map ITEM_DATA rs @ (if x then [ITEM_EXIT] else []), a_exit = x, a_emptied = e\<rparr> \<and>
     distinct rs \<and> set rs \<subseteq> {..<lg_tick lg} \<and> map (lg_messages lg) rs = map Some ms)"

definition good_log :: "log_env \<Rightarrow> bool" where
  "good_log env \<longleftrightarrow> lo_text env \<and> lo_message env \<and> lo_okq env = all_ok \<and> lo_item env"

definition printed :: "log_stream \<Rightarrow> log_level \<times> string \<Rightarrow> log_stream \<times> string" where
  "printed f m = (f, ''['' @ levelStr (fst m) @ ''] '' @ snd m)"

text \<open>The stream that messages go to now.\<close>

definition log_target :: "'x logger \<Rightarrow> log_stream" where
  "log_target lg = (case lg_file lg of Some f \<Rightarrow> if lg_exiting lg then Stderr else f | None \<Rightarrow> Stderr)"

text \<open>What a message does not change.\<close>

definition same_logger :: "'x logger \<Rightarrow> 'x logger \<Rightarrow> bool" where
  "same_logger lg lg' \<longleftrightarrow> (\<exists>q ms n os. lg' = lg\<lparr>lg_queue := q, lg_messages := ms, lg_tick := n, lg_out := os\<rparr>)"

lemma same_loggerD:
  assumes "same_logger lg lg'"
  shows "lg_level lg' = lg_level lg" "lg_file lg' = lg_file lg" "lg_thread lg' = lg_thread lg" "lg_exiting lg' = lg_exiting lg"
    "lg_custom lg' = lg_custom lg" "lg_handler lg' = lg_handler lg" "lg_closed lg' = lg_closed lg" "log_target lg' = log_target lg"
    "log_filtered level lg' = log_filtered level lg"
  using assms by (auto simp: same_logger_def log_target_def log_filtered_def split: option.split)

lemma same_logger_trans: "same_logger a b \<Longrightarrow> same_logger b c \<Longrightarrow> same_logger a c"
  unfolding same_logger_def by fastforce

lemma same_logger_upd: "same_logger lg (lg\<lparr>lg_queue := q, lg_messages := ms, lg_tick := n, lg_out := os\<rparr>)"
  unfolding same_logger_def by blast

lemma same_logger_queue: "same_logger lg (lg\<lparr>lg_queue := q\<rparr>)"
  using same_logger_upd [where lg = lg and q = q and ms = "lg_messages lg" and n = "lg_tick lg" and os = "lg_out lg"] by simp

lemma same_logger_refl: "same_logger lg lg"
  using same_logger_queue [of lg "lg_queue lg"] by simp

lemma LogPrintMessage_seq:
  assumes "lg_messages lg r = Some m" "log_target lg \<notin> set (lg_closed lg)"
  shows "LogPrintMessage (Some r) lg = Inr (lg\<lparr>lg_out := lg_out lg @ [printed (log_target lg) m], lg_messages := (lg_messages lg)(r := None)\<rparr>)"
  using assms by (cases m) (simp add: LogPrintMessage_def log_target_def printed_def Let_def)

lemma log_handler_seq:
  assumes q: "log_queue ms False e lg" and env: "good_log env"
  shows "returns (LogDefaultHandler_run env level line lg) (\<lambda>lg'. same_logger lg lg' \<and> log_queue (ms @ [(level, line)]) False e lg' \<and>
    lg_out lg' = lg_out lg)"
proof -
  obtain q rs where 1: "lg_queue lg = Some q" "q_inv q" "abs_queue q = \<lparr>a_items = map ITEM_DATA rs, a_exit = False, a_emptied = e\<rparr>"
    "distinct rs" "set rs \<subseteq> {..<lg_tick lg}" "map (lg_messages lg) rs = map Some ms" using q by (auto simp: log_queue_def)
  let ?r = "lg_tick lg"
  obtain q' where q': "Enqueue all_ok q (ITEM_DATA ?r) = Inr (True, q')" "q_inv q'"
    "abs_queue q' = \<lparr>a_items = map ITEM_DATA rs @ [ITEM_DATA ?r], a_exit = False, a_emptied = e\<rparr>"
    using Enqueue_open [OF 1(2,3), of "ITEM_DATA ?r"] by (auto simp: is_exit_def)
  let ?lg = "lg\<lparr>lg_tick := Suc ?r, lg_messages := (lg_messages lg)(?r \<mapsto> (level, line)), lg_queue := Some q'\<rparr>"
  have r: "?r \<notin> set rs" using 1(5) by auto
  then have m: "map (lg_messages ?lg) (rs @ [?r]) = map Some (ms @ [(level, line)])" using 1(6) by (auto simp: map_eq_conv)
  have "log_queue (ms @ [(level, line)]) False e ?lg" unfolding log_queue_def
    using q'(2,3) 1(4,5) r m by (intro exI [of _ q'] exI [of _ "rs @ [?r]"]) (auto simp: subset_iff less_Suc_eq)
  moreover have "LogDefaultHandler_run env level line lg = Inr ?lg"
    using env 1(1) q'(1) by (simp add: LogDefaultHandler_run_def good_log_def EnqueueDataItem_def Let_def)
  moreover have "same_logger lg ?lg" unfolding same_logger_def
    by (intro exI [of _ "Some q'"] exI [of _ "lg_messages ?lg"] exI [of _ "Suc ?r"] exI [of _ "lg_out lg"]) (cases lg, simp)
  ultimately show ?thesis by simp
qed

text \<open>One round of the logger's thread: the oldest message is printed, or it is told that the queue was emptied.\<close>

lemma log_round_seq:
  assumes q: "log_queue (m # ms) x False lg" and env: "good_log env" and f: "log_target lg \<notin> set (lg_closed lg)"
  shows "returns (LogRound env [] item lg) (\<lambda>(nx, it, lg'). nx = Again \<and> same_logger lg lg' \<and> log_queue ms x (ms = [] \<and> \<not> x) lg' \<and>
    lg_out lg' = lg_out lg @ [printed (log_target lg) m])"
proof -
  obtain q rs0 where 1: "lg_queue lg = Some q" "q_inv q"
    "abs_queue q = \<lparr>a_items = map ITEM_DATA rs0 @ (if x then [ITEM_EXIT] else []), a_exit = x, a_emptied = False\<rparr>"
    "distinct rs0" "set rs0 \<subseteq> {..<lg_tick lg}" "map (lg_messages lg) rs0 = map Some (m # ms)" using q unfolding log_queue_def by blast
  then obtain r rs where rs: "rs0 = r # rs" by (cases rs0) auto
  have r: "lg_messages lg r = Some m" "map (lg_messages lg) rs = map Some ms" "r \<notin> set rs" "distinct rs" "set rs \<subseteq> {..<lg_tick lg}"
    using 1(4-6) by (simp_all add: rs)
  let ?e = "rs = [] \<and> \<not> x"
  obtain q' where q': "Dequeue all_ok [] q item True = Inr (True, ITEM_DATA r, q')" "q_inv q'"
    "abs_queue q' = \<lparr>a_items = map ITEM_DATA rs @ (if x then [ITEM_EXIT] else []), a_exit = x, a_emptied = ?e\<rparr>"
    using Dequeue_seq [OF 1(2), of "[]" item True]
    by (auto simp: 1(3) rs a_dequeue_wait_def a_dequeue_def q_res_rel_def elim!: returnsE)
  let ?lg = "lg\<lparr>lg_queue := Some q', lg_out := lg_out lg @ [printed (log_target lg) m], lg_messages := (lg_messages lg)(r := None)\<rparr>"
  have t: "log_target (lg\<lparr>lg_queue := Some q'\<rparr>) = log_target lg" by (simp add: log_target_def split: option.split)
  have "LogRound env [] item lg = Inr (Again, ITEM_DATA r, ?lg)"
    using env 1(1) q'(1) r(1) f t LogPrintMessage_seq [of "lg\<lparr>lg_queue := Some q'\<rparr>" r m]
    by (simp add: LogRound_def good_log_def Let_def)
  moreover have "same_logger lg ?lg" unfolding same_logger_def
    by (intro exI [of _ "Some q'"] exI [of _ "lg_messages ?lg"] exI [of _ "lg_tick lg"] exI [of _ "lg_out ?lg"]) (cases lg, simp)
  moreover have "(rs = []) = (ms = [])" using r(2) by (cases rs; cases ms) simp_all
  moreover have "map (lg_messages ?lg) rs = map Some ms" using r(2,3) by (auto simp: map_eq_conv)
  then have "log_queue ms x ?e ?lg" unfolding log_queue_def using q'(2,3) r(4,5) by (intro exI [of _ q'] exI [of _ rs]) simp
  ultimately show ?thesis by auto
qed

lemma log_round_emptied:
  assumes q: "log_queue ms x True lg" and env: "good_log env"
  shows "returns (LogRound env [] item lg) (\<lambda>(nx, it, lg'). nx = Return True \<and> same_logger lg lg' \<and> log_queue ms x False lg' \<and>
    lg_out lg' = lg_out lg)"
proof -
  obtain q rs where 1: "lg_queue lg = Some q" "q_inv q"
    "abs_queue q = \<lparr>a_items = map ITEM_DATA rs @ (if x then [ITEM_EXIT] else []), a_exit = x, a_emptied = True\<rparr>"
    "distinct rs" "set rs \<subseteq> {..<lg_tick lg}" "map (lg_messages lg) rs = map Some ms" using q unfolding log_queue_def by blast
  obtain q' where q': "Dequeue all_ok [] q item True = Inr (False, item, q')" "q_inv q'"
    "abs_queue q' = \<lparr>a_items = map ITEM_DATA rs @ (if x then [ITEM_EXIT] else []), a_exit = x, a_emptied = False\<rparr>"
    using Dequeue_seq [OF 1(2), of "[]" item True]
    by (auto simp: 1(3) a_dequeue_wait_def a_dequeue_def q_res_rel_def elim!: returnsE)
  let ?lg = "lg\<lparr>lg_queue := Some q'\<rparr>"
  have "LogRound env [] item lg = Inr (Return True, item, ?lg)" using env 1(1) q'(1) by (simp add: LogRound_def good_log_def Let_def)
  moreover have "same_logger lg ?lg" unfolding same_logger_def
    by (intro exI [of _ "Some q'"] exI [of _ "lg_messages ?lg"] exI [of _ "lg_tick lg"] exI [of _ "lg_out ?lg"]) (cases lg, simp)
  moreover have "log_queue ms x False ?lg" unfolding log_queue_def using q'(2,3) 1(4-6) by (intro exI [of _ q'] exI [of _ rs]) simp
  ultimately show ?thesis by auto
qed

lemma log_round_empty:
  assumes q: "log_queue [] False False lg" and env: "good_log env"
  shows "LogRound env [] item lg = Inl Blocked"
proof -
  obtain q where 1: "lg_queue lg = Some q" "q_inv q" "abs_queue q = \<lparr>a_items = [], a_exit = False, a_emptied = False\<rparr>"
    using q by (auto simp: log_queue_def)
  have "Dequeue all_ok [] q item True = Inl Blocked"
    using Dequeue_seq [OF 1(2), of "[]" item True] by (simp add: 1(3) a_dequeue_wait_def)
  then show ?thesis using env 1(1) by (simp add: LogRound_def good_log_def)
qed

section \<open>The order of messages\<close>

text \<open>Any thread logs, and the logger's thread goes one round when it has something to do.\<close>

datatype log_op = LogCall nat log_level string | LogWork

fun log_do :: "log_env \<Rightarrow> 'x luser \<Rightarrow> log_op \<Rightarrow> 'x lworld \<Rightarrow> 'x lworld res" where
  "log_do env lh (LogCall self level msg) w = Log env lh self level (Some msg) w"
| "log_do env lh LogWork w =
     (case LogRound env [] ITEM_UNDEFINED (tw_user w) of
        Inl e \<Rightarrow> if e = Blocked then Inr w else Inl e
      | Inr (_, _, lg) \<Rightarrow> Inr (w\<lparr>tw_user := lg\<rparr>))"

definition log_line :: "nat list \<Rightarrow> 'x lworld \<Rightarrow> nat \<Rightarrow> string \<Rightarrow> string" where
  "log_line ts w self msg = take 287 (caller_prefix self ts w @ msg @ [CHR 0x0A])"

definition log_fits :: "nat list \<Rightarrow> 'x lworld \<Rightarrow> nat \<Rightarrow> string \<Rightarrow> bool" where
  "log_fits ts w self msg \<longleftrightarrow> length (caller_prefix self ts w @ msg) \<le> 288 \<and> CHR 0x00 \<notin> set (caller_prefix self ts w @ msg)"

text \<open>The lines that a program of calls asks for.\<close>

fun log_asked :: "nat list \<Rightarrow> 'x lworld \<Rightarrow> log_op \<Rightarrow> (log_level \<times> string) list" where
  "log_asked ts w (LogCall self level msg) =
     (if level \<le> lg_level (tw_user w) then [(level, log_line ts w self msg)] else [])"
| "log_asked ts w LogWork = []"

fun log_safe :: "nat list \<Rightarrow> 'x lworld \<Rightarrow> log_op \<Rightarrow> bool" where
  "log_safe ts w (LogCall self level msg) = log_fits ts w self msg"
| "log_safe ts w LogWork = True"

text \<open>A logger of the default kind, whose stream is open.\<close>

definition default_logger :: "'x logger \<Rightarrow> bool" where
  "default_logger lg \<longleftrightarrow> lg_handler lg = Some LogDefaultHandler \<and> \<not> lg_custom lg \<and> log_target lg \<notin> set (lg_closed lg)"

lemma write_line_fits: "log_fits ts w self msg \<Longrightarrow> write_line (caller_prefix self ts w) msg = Inr (log_line ts w self msg)"
  using write_line_exact [of "caller_prefix self ts w" msg] by (auto simp: log_fits_def log_line_def INT_MAX_def)

lemma log_default:
  assumes r: "reg_inv w ts" and d: "default_logger (tw_user w)" and env: "good_log env" and s: "log_fits ts w self msg"
  shows "Log env lh self level (Some msg) w =
    (if level \<le> lg_level (tw_user w) then
       bnd (LogDefaultHandler_run env level (log_line ts w self msg) (tw_user w)) (\<lambda>lg. Inr (w\<lparr>tw_user := lg\<rparr>))
     else Inr w)"
proof (cases "log_filtered level (tw_user w)")
  case True
  then have "\<not> level \<le> lg_level (tw_user w)" using d by (auto simp: log_filtered_def default_logger_def)
  with True show ?thesis by (simp add: Log_def)
next
  case False
  then have "level \<le> lg_level (tw_user w)" using d by (auto simp: log_filtered_def default_logger_def)
  then show ?thesis using Log_seq [OF r False, of env lh self msg] write_line_fits [OF s] d env
    by (simp add: default_logger_def good_log_def log_handle_def)
qed

lemma log_call_seq:
  assumes r: "reg_inv w ts" and d: "default_logger (tw_user w)" and q: "log_queue ms False e (tw_user w)" and env: "good_log env"
    and s: "log_fits ts w self msg"
  shows "returns (Log env lh self level (Some msg) w) (\<lambda>w'. \<exists>lg. w' = w\<lparr>tw_user := lg\<rparr> \<and> same_logger (tw_user w) lg \<and>
    lg_out lg = lg_out (tw_user w) \<and> log_queue (ms @ log_asked ts w (LogCall self level msg)) False e lg)"
proof (cases "level \<le> lg_level (tw_user w)")
  case True
  then show ?thesis using log_handler_seq [OF q env, of level "log_line ts w self msg"]
    by (auto simp: log_default [OF r d env s] elim!: returnsE)
next
  case False
  then show ?thesis using q by (auto simp: log_default [OF r d env s] same_logger_refl intro!: exI [of _ "tw_user w"])
qed

lemma log_do_seq:
  assumes r: "reg_inv w ts" and d: "default_logger (tw_user w)" and q: "log_queue ms False e (tw_user w)" and env: "good_log env"
    and s: "log_safe ts w op"
  shows "returns (log_do env lh op w) (\<lambda>w'. \<exists>lg ms' e'. w' = w\<lparr>tw_user := lg\<rparr> \<and> same_logger (tw_user w) lg \<and> log_queue ms' False e' lg \<and>
    lg_out lg @ map (printed (log_target lg)) ms' =
    lg_out (tw_user w) @ map (printed (log_target lg)) ms @ map (printed (log_target lg)) (log_asked ts w op))"
proof -
  let ?lg = "tw_user w"
  have refl: "same_logger ?lg ?lg" by (rule same_logger_refl)
  have c: "log_target ?lg \<notin> set (lg_closed ?lg)" using d by (simp add: default_logger_def)
  show ?thesis
  proof (cases op)
    case (LogCall self level msg)
    with s have "log_fits ts w self msg" by simp
    from log_call_seq [OF r d q env this, of lh level] obtain lg where "Log env lh self level (Some msg) w = Inr (w\<lparr>tw_user := lg\<rparr>)"
      "same_logger ?lg lg" "lg_out lg = lg_out ?lg" "log_queue (ms @ log_asked ts w op) False e lg" unfolding LogCall by (auto elim!: returnsE)
    then show ?thesis unfolding LogCall log_do.simps
      by (intro returnsI exI [of _ lg] exI [of _ "ms @ log_asked ts w op"] exI [of _ e] conjI) (simp_all add: LogCall del: log_asked.simps)
  next
    case LogWork
    show ?thesis
    proof (cases e)
      case True
      with log_round_emptied [of ms False ?lg env ITEM_UNDEFINED] q env show ?thesis using LogWork by (fastforce elim!: returnsE)
    next
      case e: False
      show ?thesis
      proof (cases ms)
        case Nil
        then have "LogRound env [] ITEM_UNDEFINED ?lg = Inl Blocked" using log_round_empty [OF _ env, of ?lg] q e by simp
        then show ?thesis using LogWork q refl Nil by (auto intro!: exI [of _ ?lg])
      next
        case (Cons m ms')
        obtain it lg where l: "LogRound env [] ITEM_UNDEFINED ?lg = Inr (Again, it, lg)" "same_logger ?lg lg" "log_queue ms' False (ms' = []) lg"
          "lg_out lg = lg_out ?lg @ [printed (log_target ?lg) m]"
          using log_round_seq [of m ms' False ?lg env ITEM_UNDEFINED] q env c e Cons by (auto elim!: returnsE)
        then show ?thesis using LogWork Cons same_loggerD(8) [OF l(2)] by (auto intro!: exI [of _ lg] exI [of _ ms'] exI [of _ "ms' = []"])
      qed
    qed
  qed
qed

fun log_run :: "log_env \<Rightarrow> 'x luser \<Rightarrow> log_op list \<Rightarrow> 'x lworld \<Rightarrow> 'x lworld res" where
  "log_run env lh [] w = Inr w"
| "log_run env lh (op # ops) w = bnd (log_do env lh op w) (log_run env lh ops)"

lemma log_view:
  assumes "w' = w\<lparr>tw_user := lg\<rparr>" "same_logger (tw_user w) lg"
  shows "reg_inv w' ts = reg_inv w ts" "log_asked ts w' = log_asked ts w" "log_safe ts w' = log_safe ts w"
    "default_logger (tw_user w') = default_logger (tw_user w)"
proof -
  note s = same_loggerD [OF assms(2)]
  have u: "tw_user w' = lg" by (simp add: assms(1))
  have "tw_heap w' = tw_heap w" by (simp add: assms(1))
  then have c: "caller_prefix self ts w' = caller_prefix self ts w" for self by (simp only: caller_prefix_def)
  show "reg_inv w' ts = reg_inv w ts" by (simp add: reg_inv_def assms(1))
  show "log_asked ts w' = log_asked ts w"
  proof
    show "log_asked ts w' op = log_asked ts w op" for op by (cases op) (simp_all add: c log_line_def u s)
  qed
  show "log_safe ts w' = log_safe ts w"
  proof
    show "log_safe ts w' op = log_safe ts w op" for op by (cases op) (simp_all add: c log_fits_def)
  qed
  show "default_logger (tw_user w') = default_logger (tw_user w)" by (simp add: default_logger_def s assms(1))
qed

lemma log_run_seq:
  assumes "reg_inv w ts" "default_logger (tw_user w)" "log_queue ms False e (tw_user w)" "good_log env" "list_all (log_safe ts w) ops"
  shows "returns (log_run env lh ops w) (\<lambda>w'. \<exists>lg ms' e'. w' = w\<lparr>tw_user := lg\<rparr> \<and> same_logger (tw_user w) lg \<and> log_queue ms' False e' lg \<and>
    lg_out lg @ map (printed (log_target lg)) ms' =
    lg_out (tw_user w) @ map (printed (log_target lg)) (ms @ concat (map (log_asked ts w) ops)))"
  using assms
proof (induction ops arbitrary: w ms e)
  case Nil
  show ?case unfolding log_run.simps returns_Inr
    by (intro exI [of _ "tw_user w"] exI [of _ ms] exI [of _ e]) (simp add: Nil.prems(3) same_logger_refl)
next
  case (Cons op ops)
  obtain lg ms1 e1 where 1: "log_do env lh op w = Inr (w\<lparr>tw_user := lg\<rparr>)" "same_logger (tw_user w) lg" "log_queue ms1 False e1 lg"
    "lg_out lg @ map (printed (log_target lg)) ms1 =
     lg_out (tw_user w) @ map (printed (log_target lg)) ms @ map (printed (log_target lg)) (log_asked ts w op)"
    using log_do_seq [OF Cons.prems(1-4), of op lh] Cons.prems(5) by (auto elim!: returnsE)
  let ?w = "w\<lparr>tw_user := lg\<rparr>"
  note v = log_view [OF refl 1(2)]
  have "returns (log_run env lh ops ?w) (\<lambda>w'. \<exists>lg' ms' e'. w' = ?w\<lparr>tw_user := lg'\<rparr> \<and> same_logger (tw_user ?w) lg' \<and> log_queue ms' False e' lg' \<and>
    lg_out lg' @ map (printed (log_target lg')) ms' =
    lg_out (tw_user ?w) @ map (printed (log_target lg')) (ms1 @ concat (map (log_asked ts ?w) ops)))"
    by (rule Cons.IH) (use Cons.prems v 1(3) in simp_all)
  then obtain lg' ms' e' where 2: "log_run env lh ops ?w = Inr (w\<lparr>tw_user := lg'\<rparr>)" "same_logger lg lg'" "log_queue ms' False e' lg'"
    "lg_out lg' @ map (printed (log_target lg')) ms' =
     lg_out lg @ map (printed (log_target lg')) (ms1 @ concat (map (log_asked ts w) ops))"
    using v(2) by (auto elim!: returnsE)
  show ?case using 1(1) 2(1,3,4) 1(4) same_logger_trans [OF 1(2) 2(2)] same_loggerD(8) [OF 2(2)]
    by (auto intro!: exI [of _ lg'] exI [of _ ms'] exI [of _ e'])
qed

text \<open>
  C37. Whatever threads log and however their calls interleave with the rounds of the logger's thread,
  what has been printed together with what still waits is exactly the lines that were asked for, filtered
  by level, in the order of the calls, all on the logger's own stream: no line is lost, doubled or
  overtaken.
\<close>

theorem log_order:
  assumes "reg_inv w ts" "default_logger (tw_user w)" "log_queue [] False e (tw_user w)" "good_log env" "list_all (log_safe ts w) ops"
  shows "\<exists>w' ms e'. log_run env lh ops w = Inr w' \<and> log_queue ms False e' (tw_user w') \<and>
    lg_out (tw_user w') @ map (printed (log_target (tw_user w))) ms =
    lg_out (tw_user w) @ map (printed (log_target (tw_user w))) (concat (map (log_asked ts w) ops))"
proof -
  obtain lg ms e' where 1: "log_run env lh ops w = Inr (w\<lparr>tw_user := lg\<rparr>)" "same_logger (tw_user w) lg" "log_queue ms False e' lg"
    "lg_out lg @ map (printed (log_target lg)) ms =
     lg_out (tw_user w) @ map (printed (log_target lg)) ([] @ concat (map (log_asked ts w) ops))"
    using log_run_seq [OF assms, of lh] by (auto elim!: returnsE)
  then show ?thesis using same_loggerD(8) [OF 1(2)] by (intro exI [of _ "w\<lparr>tw_user := lg\<rparr>"] exI [of _ ms] exI [of _ e']) simp
qed

section \<open>The end of the logger\<close>

text \<open>The queue once its exit item has been taken out: empty and closed.\<close>

definition shut_queue :: "bool \<Rightarrow> 'x logger \<Rightarrow> bool" where
  "shut_queue e lg \<longleftrightarrow> (\<exists>q. lg_queue lg = Some q \<and> q_inv q \<and> abs_queue q = \<lparr>a_items = [], a_exit = True, a_emptied = e\<rparr>)"

lemma shut_queueE:
  assumes "shut_queue e lg"
  obtains q where "lg_queue lg = Some q" "q_inv q" "abs_queue q = \<lparr>a_items = [], a_exit = True, a_emptied = e\<rparr>"
  using assms unfolding shut_queue_def by blast

lemma log_round_exit:
  assumes q: "log_queue [] True False lg" and env: "good_log env"
  shows "returns (LogRound env [] item lg) (\<lambda>(nx, it, lg'). nx = Return False \<and> same_logger lg lg' \<and> shut_queue True lg' \<and> lg_out lg' = lg_out lg)"
proof -
  obtain q where 1: "lg_queue lg = Some q" "q_inv q" "abs_queue q = \<lparr>a_items = [ITEM_EXIT], a_exit = True, a_emptied = False\<rparr>"
    using q by (auto simp: log_queue_def)
  obtain q' where q': "Dequeue all_ok [] q item True = Inr (True, ITEM_EXIT, q')" "q_inv q'"
    "abs_queue q' = \<lparr>a_items = [], a_exit = True, a_emptied = True\<rparr>"
    using Dequeue_seq [OF 1(2), of "[]" item True]
    by (auto simp: 1(3) a_dequeue_wait_def a_dequeue_def q_res_rel_def elim!: returnsE)
  have "LogRound env [] item lg = Inr (Return False, ITEM_EXIT, lg\<lparr>lg_queue := Some q'\<rparr>)"
    using env 1(1) q'(1) by (simp add: LogRound_def good_log_def Let_def)
  then show ?thesis using q'(2,3) same_logger_queue [of lg "Some q'"] by (auto simp: shut_queue_def)
qed

lemma log_round_shut:
  assumes q: "shut_queue True lg" and env: "good_log env"
  shows "returns (LogRound env [] item lg) (\<lambda>(nx, it, lg'). nx = Return True \<and> same_logger lg lg' \<and> shut_queue False lg' \<and> lg_out lg' = lg_out lg)"
proof -
  from q obtain q where 1: "lg_queue lg = Some q" "q_inv q" "abs_queue q = \<lparr>a_items = [], a_exit = True, a_emptied = True\<rparr>" by (rule shut_queueE)
  obtain q' where q': "Dequeue all_ok [] q item True = Inr (False, item, q')" "q_inv q'"
    "abs_queue q' = \<lparr>a_items = [], a_exit = True, a_emptied = False\<rparr>"
    using Dequeue_seq [OF 1(2), of "[]" item True]
    by (auto simp: 1(3) a_dequeue_wait_def a_dequeue_def q_res_rel_def elim!: returnsE)
  have "LogRound env [] item lg = Inr (Return True, item, lg\<lparr>lg_queue := Some q'\<rparr>)"
    using env 1(1) q'(1) by (simp add: LogRound_def good_log_def Let_def)
  then show ?thesis using q'(2,3) same_logger_queue [of lg "Some q'"] by (auto simp: shut_queue_def)
qed

lemma log_drain:
  assumes "log_queue ms True False lg" "good_log env" "log_target lg \<notin> set (lg_closed lg)"
  shows "returns (LogLoop env (replicate (Suc (length ms)) [] @ rest) item lg) (\<lambda>(b, lg'). \<not> b \<and> same_logger lg lg' \<and>
    shut_queue True lg' \<and> lg_out lg' = lg_out lg @ map (printed (log_target lg)) ms)"
  using assms
proof (induction ms arbitrary: lg item)
  case Nil
  from log_round_exit [OF Nil.prems(1,2), of item] show ?case by (auto elim!: returnsE)
next
  case (Cons m ms)
  obtain it lg1 where 1: "LogRound env [] item lg = Inr (Again, it, lg1)" "same_logger lg lg1" "log_queue ms True False lg1"
    "lg_out lg1 = lg_out lg @ [printed (log_target lg) m]"
    using log_round_seq [OF Cons.prems, of item] by (auto elim!: returnsE)
  note s = same_loggerD [OF 1(2)]
  have "returns (LogLoop env (replicate (Suc (length ms)) [] @ rest) it lg1) (\<lambda>(b, lg'). \<not> b \<and> same_logger lg1 lg' \<and>
    shut_queue True lg' \<and> lg_out lg' = lg_out lg1 @ map (printed (log_target lg1)) ms)"
    by (rule Cons.IH) (use 1(3) Cons.prems(2,3) s in simp_all)
  then show ?case using 1 s same_logger_trans [OF 1(2)] by (auto elim!: returnsE)
qed

lemma log_handler_shut:
  assumes q: "shut_queue e lg" and env: "good_log env" and f: "log_target lg \<notin> set (lg_closed lg)"
  shows "returns (LogDefaultHandler_run env level line lg) (\<lambda>lg'. same_logger lg lg' \<and> shut_queue e lg' \<and>
    lg_out lg' = lg_out lg @ [printed (log_target lg) (level, line)])"
proof -
  from q obtain q where 1: "lg_queue lg = Some q" "q_inv q" "abs_queue q = \<lparr>a_items = [], a_exit = True, a_emptied = e\<rparr>" by (rule shut_queueE)
  let ?r = "lg_tick lg"
  obtain q' where q': "Enqueue all_ok q (ITEM_DATA ?r) = Inr (False, q')" "q_inv q'" "abs_queue q' = abs_queue q"
    using Enqueue_seq [of free_cond q all_ok "ITEM_DATA ?r"] 1(2,3) by (auto simp: q_inv_def q_mem_def a_enqueue_def elim!: returnsE)
  let ?lg = "lg\<lparr>lg_tick := Suc ?r, lg_messages := (lg_messages lg)(?r \<mapsto> (level, line)), lg_queue := Some q'\<rparr>"
  have t: "log_target ?lg = log_target lg" by (simp add: log_target_def split: option.split)
  have "LogDefaultHandler_run env level line lg =
    Inr (lg\<lparr>lg_queue := Some q', lg_messages := (lg_messages lg)(?r := None), lg_tick := Suc ?r,
      lg_out := lg_out lg @ [printed (log_target lg) (level, line)]\<rparr>)"
    using env 1(1) q'(1) f t LogPrintMessage_seq [of ?lg ?r "(level, line)"]
    by (simp add: LogDefaultHandler_run_def good_log_def EnqueueDataItem_def Let_def)
  then show ?thesis using same_logger_upd q'(2,3) 1(3) by (auto simp: shut_queue_def)
qed

lemma log_shut:
  assumes r: "reg_inv w ts" and d: "default_logger (tw_user w)" and q: "shut_queue e (tw_user w)" and env: "good_log env"
    and s: "log_fits ts w self msg"
  shows "returns (Log env lh self level (Some msg) w) (\<lambda>w'. \<exists>lg. w' = w\<lparr>tw_user := lg\<rparr> \<and> same_logger (tw_user w) lg \<and> shut_queue e lg \<and>
    lg_out lg = lg_out (tw_user w) @ map (printed (log_target (tw_user w))) (log_asked ts w (LogCall self level msg)))"
proof (cases "level \<le> lg_level (tw_user w)")
  case True
  then show ?thesis using log_handler_shut [OF q env, of level "log_line ts w self msg"] d
    by (auto simp: log_default [OF r d env s] default_logger_def elim!: returnsE)
next
  case False
  then show ?thesis using q by (auto simp: log_default [OF r d env s] same_logger_refl intro!: exI [of _ "tw_user w"])
qed

text \<open>The logger \<open>lg'\<close> is \<open>lg\<close> ended: its stream \<open>f\<close> is closed, its queue freed, and \<open>ls\<close> was printed to the standard error.\<close>

definition log_ended :: "log_stream \<Rightarrow> (log_level \<times> string) list \<Rightarrow> 'x logger \<Rightarrow> 'x logger \<Rightarrow> bool" where
  "log_ended f ls lg lg' \<longleftrightarrow> lg_queue lg' = None \<and> lg_file lg' = None \<and> lg_closed lg' = lg_closed lg @ [f] \<and>
     lg_out lg' = lg_out lg @ map (printed Stderr) ls \<and>
     lg_level lg' = lg_level lg \<and> lg_handler lg' = lg_handler lg \<and> lg_custom lg' = lg_custom lg"

abbreviation "goodbye \<equiv> ''logging finished''"

lemma LogExit_seq:
  assumes r: "reg_inv W ts" and d: "default_logger (tw_user W)" and q: "shut_queue True (tw_user W)" and env: "good_log (ll_env L)"
    and t: "lg_thread (tw_user W) = Some t" "tw_heap W t = Some th" and s: "log_fits ts W (t_id th) goodbye"
    and f: "lg_file (tw_user W) = Some f" "f \<notin> set (lg_closed (tw_user W))" and x: "lg_exiting (tw_user W)"
    and L: "ll_exit_waits L = [] # rest"
  shows "returns (LogExit L lh W) (\<lambda>w'. \<exists>lg. w' = W\<lparr>tw_user := lg\<rparr> \<and>
    log_ended f (log_asked ts W (LogCall (t_id th) LOG_LEVEL_INFO goodbye)) (tw_user W) lg)"
proof -
  have tgt: "log_target (tw_user W) = Stderr" using x by (simp add: log_target_def split: option.split)
  obtain lg where 1: "Log (ll_env L) lh (t_id th) LOG_LEVEL_INFO (Some goodbye) W = Inr (W\<lparr>tw_user := lg\<rparr>)" "same_logger (tw_user W) lg" "shut_queue True lg"
    "lg_out lg = lg_out (tw_user W) @ map (printed Stderr) (log_asked ts W (LogCall (t_id th) LOG_LEVEL_INFO goodbye))"
    using log_shut [OF r d q env s, of lh LOG_LEVEL_INFO] unfolding tgt by (auto elim!: returnsE)
  obtain it lg2 where 2: "LogRound (ll_env L) [] ITEM_UNDEFINED lg = Inr (Return True, it, lg2)" "same_logger lg lg2" "shut_queue False lg2" "lg_out lg2 = lg_out lg"
    using log_round_shut [OF 1(3) env, of ITEM_UNDEFINED] by (auto elim!: returnsE)
  have run: "LogRun (ll_env L) (ll_exit_waits L) lg = Inr (True, lg2)"
    using 2(1) env L by (simp add: LogRun_def NewQueueItem_def good_log_def)
  from 2(3) obtain q2 where q2: "lg_queue lg2 = Some q2" "q_inv q2" by (rule shut_queueE)
  note sm = same_loggerD [OF same_logger_trans [OF 1(2) 2(2)]]
  have "LogExit L lh W = Inr (W\<lparr>tw_user := lg2\<lparr>lg_closed := lg_closed lg2 @ [f], lg_file := None, lg_queue := None\<rparr>\<rparr>)"
    using t 1(1) run q2 sm f by (simp add: LogExit_def get_thread_def ThreadGetId_def FreeQueue_seq)
  then show ?thesis using sm 1(4) 2(4) by (auto simp: log_ended_def)
qed

text \<open>The thread of a logger that is running.\<close>

definition logger_thread :: "(log_fun, unit) thread \<Rightarrow> bool" where
  "logger_thread th \<longleftrightarrow> t_lock th = Some free_lock \<and> t_condInit th \<noteq> None \<and> t_running th \<and> t_run th = Some F_LogRun \<and> t_exit th = Some F_LogExit"

definition logger_up :: "log_life \<Rightarrow> nat list \<Rightarrow> nat \<Rightarrow> (log_fun, unit) thread \<Rightarrow> log_stream \<Rightarrow> (log_level \<times> string) list \<Rightarrow> 'x lworld \<Rightarrow> bool" where
  "logger_up L ts t th f ms w \<longleftrightarrow> reg_inv w ts \<and> 0 \<le> tw_running w \<and> tw_running w \<le> INT_MAX \<and> tw_heap w t = Some th \<and> logger_thread th \<and>
     default_logger (tw_user w) \<and> lg_thread (tw_user w) = Some t \<and> lg_file (tw_user w) = Some f \<and> f \<notin> set (lg_closed (tw_user w)) \<and>
     Stderr \<notin> set (lg_closed (tw_user w)) \<and> (\<exists>e. log_queue ms False e (tw_user w)) \<and> good_log (ll_env L) \<and>
     log_fits ts w (t_id th) goodbye"

lemma caller_prefix_stop:
  assumes "tw_heap w' = (tw_heap w)(t \<mapsto> th\<lparr>t_running := b\<rparr>)" "tw_heap w t = Some th"
  shows "caller_prefix self ts w' = caller_prefix self ts w"
proof -
  have "t_id (the (tw_heap w' x)) = t_id (the (tw_heap w x))" "t_name (the (tw_heap w' x)) = t_name (the (tw_heap w x))" for x
    using assms by simp_all
  then show ?thesis by (simp only: caller_prefix_def)
qed

lemma LogRun_call:
  "good_log (ll_env L) \<Longrightarrow> tc_call (logger_threads L lh tid) F_LogRun arg W =
     bnd (LogLoop (ll_env L) (ll_waits L) ITEM_UNDEFINED (tw_user W)) (\<lambda>(b, lg). Inr (b, W\<lparr>tw_user := lg\<rparr>))"
  by (simp add: logger_threads_def LogRun_def NewQueueItem_def good_log_def)

text \<open>The loop of the logger's thread once the exit item is queued: it prints what waits and ends.\<close>

lemma log_thread_loop:
  assumes q: "log_queue ms True e (tw_user w)" and env: "good_log (ll_env L)" and f: "log_target (tw_user w) \<notin> set (lg_closed (tw_user w))"
    and L: "ll_waits L = replicate (Suc (length ms)) [] @ rest"
    and th: "t_lock th = Some free_lock" "t_running th" "t_run th = Some F_LogRun"
  shows "\<exists>lg. looped (logger_threads L lh tid) (Suc (Suc (Suc n))) t th lg w \<and> same_logger (tw_user w) lg \<and> shut_queue True lg \<and>
    lg_out lg = lg_out (tw_user w) @ map (printed (log_target (tw_user w))) ms"
proof -
  have last: "\<exists>lg. looped (logger_threads L lh tid) (Suc (Suc k)) t th lg W \<and> same_logger (tw_user W) lg \<and> shut_queue True lg \<and>
      lg_out lg = lg_out (tw_user W) @ map (printed (log_target (tw_user W))) ms"
    if qW: "log_queue ms True False (tw_user W)" and fW: "log_target (tw_user W) \<notin> set (lg_closed (tw_user W))" for k W
  proof -
    obtain lg where "LogLoop (ll_env L) (ll_waits L) ITEM_UNDEFINED (tw_user W) = Inr (False, lg)" "same_logger (tw_user W) lg" "shut_queue True lg"
      "lg_out lg = lg_out (tw_user W) @ map (printed (log_target (tw_user W))) ms"
      using log_drain [OF qW env fW, of rest ITEM_UNDEFINED] unfolding L by (auto elim!: returnsE)
    moreover from this(1) have "looped (logger_threads L lh tid) (Suc (Suc k)) t th lg W"
      by (intro looped_last [OF th]) (simp add: LogRun_call [OF env])
    ultimately show ?thesis by blast
  qed
  show ?thesis
  proof (cases e)
    case False
    then show ?thesis using last [of w "Suc n"] q f by simp
  next
    case True
    obtain it lg where 1: "LogRound (ll_env L) [] ITEM_UNDEFINED (tw_user w) = Inr (Return True, it, lg)" "same_logger (tw_user w) lg"
      "log_queue ms True False lg" "lg_out lg = lg_out (tw_user w)"
      using log_round_emptied [of ms True "tw_user w" "ll_env L" ITEM_UNDEFINED] q env True by (auto elim!: returnsE)
    note s = same_loggerD [OF 1(2)]
    obtain lg2 where 2: "looped (logger_threads L lh tid) (Suc (Suc n)) t th lg2 (w\<lparr>tw_user := lg\<rparr>)" "same_logger lg lg2" "shut_queue True lg2"
      "lg_out lg2 = lg_out (tw_user w) @ map (printed (log_target (tw_user w))) ms"
      using last [of "w\<lparr>tw_user := lg\<rparr>" n] 1(3,4) f s by auto
    have "looped (logger_threads L lh tid) (Suc (Suc (Suc n))) t th lg2 w"
      by (rule looped_again [OF th _ 2(1)]) (simp add: LogRun_call [OF env] L 1(1))
    then show ?thesis using 2 same_logger_trans [OF 1(2)] by blast
  qed
qed

lemma LogEnd_seq:
  assumes up: "logger_up L ts t th f ms w"
    and L: "ll_waits L = replicate (Suc (length ms)) [] @ rest" "ll_exit_waits L = [] # rest'" "ll_fuel L = Suc (Suc (Suc n))"
  shows "returns (LogEnd L lh tid w) (\<lambda>w'. reg_inv w' (removeAll t ts) \<and> tw_heap w' = (tw_heap w)(t := None) \<and>
    log_ended f (ms @ log_asked ts w (LogCall (t_id th) LOG_LEVEL_INFO goodbye)) (tw_user w) (tw_user w'))"
proof -
  let ?lg = "tw_user w" and ?bye = "log_asked ts w (LogCall (t_id th) LOG_LEVEL_INFO goodbye)"
  have u: "reg_inv w ts" "0 \<le> tw_running w" "tw_running w \<le> INT_MAX" "tw_heap w t = Some th" "logger_thread th" "default_logger ?lg"
    "lg_thread ?lg = Some t" "lg_file ?lg = Some f" "f \<notin> set (lg_closed ?lg)" "Stderr \<notin> set (lg_closed ?lg)" "\<exists>e. log_queue ms False e ?lg"
    "good_log (ll_env L)" "log_fits ts w (t_id th) goodbye" using up by (simp_all add: logger_up_def)
  obtain e where "log_queue ms False e ?lg" using u(11) by blast
  then obtain q rs where q: "lg_queue ?lg = Some q" "q_inv q" "abs_queue q = \<lparr>a_items = map ITEM_DATA rs, a_exit = False, a_emptied = e\<rparr>"
    "distinct rs" "set rs \<subseteq> {..<lg_tick ?lg}" "map (lg_messages ?lg) rs = map Some ms" by (auto simp: log_queue_def)
  obtain q1 where q1: "Enqueue all_ok q ITEM_EXIT = Inr (True, q1)" "q_inv q1"
    "abs_queue q1 = \<lparr>a_items = map ITEM_DATA rs @ [ITEM_EXIT], a_exit = True, a_emptied = e\<rparr>"
    using Enqueue_seq [of free_cond q all_ok ITEM_EXIT] q(2,3) by (auto simp: q_inv_def q_mem_def a_enqueue_def elim!: returnsE)
  let ?lg1 = "?lg\<lparr>lg_exiting := True, lg_queue := Some q1\<rparr>"
  let ?w1 = "w\<lparr>tw_user := ?lg1\<rparr>"
  have tgt: "log_target ?lg1 = Stderr" using u(8) by (simp add: log_target_def)
  obtain c where th: "t_lock th = Some free_lock" "t_condInit th = Some c" "t_running th" "t_run th = Some F_LogRun" "t_exit th = Some F_LogExit"
    using u(5) by (auto simp: logger_thread_def)
  have "log_queue ms True e ?lg1" unfolding log_queue_def using q1(2,3) q(4-6) by (intro exI [of _ q1] exI [of _ rs]) simp
  then have "\<exists>lg. looped (logger_threads L lh tid) (Suc (Suc (Suc n))) t th lg (?w1\<lparr>tw_running := tw_running w - 1\<rparr>) \<and>
      same_logger (tw_user (?w1\<lparr>tw_running := tw_running w - 1\<rparr>)) lg \<and> shut_queue True lg \<and>
      lg_out lg = lg_out (tw_user (?w1\<lparr>tw_running := tw_running w - 1\<rparr>)) @
        map (printed (log_target (tw_user (?w1\<lparr>tw_running := tw_running w - 1\<rparr>)))) ms"
    using u(10,12) tgt by (intro log_thread_loop [OF _ _ _ L(1) th(1,3,4)]) simp_all
  then obtain lg2 where 2: "looped (logger_threads L lh tid) (Suc (Suc (Suc n))) t th lg2 (?w1\<lparr>tw_running := tw_running w - 1\<rparr>)"
    "same_logger ?lg1 lg2" "shut_queue True lg2" "lg_out lg2 = lg_out ?lg @ map (printed Stderr) ms" using tgt by auto
  note sm = same_loggerD [OF 2(2), simplified]
  have d2: "default_logger lg2" using u(6,10) sm tgt by (simp add: default_logger_def)
  let ?Q = "\<lambda>w4. \<exists>W lg. ending ts t th ?w1 lg2 W \<and> w4 = W\<lparr>tw_user := lg\<rparr> \<and> log_ended f ?bye lg2 lg"
  have "returns (ThreadJoin (finish (logger_threads L lh tid) (Suc (Suc (Suc n))) t) (Some t) ?w1) (\<lambda>w'. \<exists>w4. ?Q w4 \<and> ended ts t w4 w')"
  proof (rule join_loop_seq [where ts = ts and u = lg2 and th = th, OF _ _ _ th(1-3,5)])
    show "reg_inv ?w1 ts" by (rule reg_inv_upd [OF u(1)]) simp_all
    show "is_int (tw_running ?w1 - 1)" using u(2,3) by (simp add: is_int_def INT_MIN_def)
    show "tw_heap ?w1 t = Some th" using u(4) by simp
    show "looped (logger_threads L lh tid) (Suc (Suc (Suc n))) t th lg2 (?w1\<lparr>tw_running := tw_running ?w1 - 1\<rparr>)" using 2(1) by simp
    show "returns (tc_exit (logger_threads L lh tid) F_LogExit (t_arg th) W) ?Q" if W: "ending ts t th ?w1 lg2 W" for W
    proof -
      have e: "reg_inv W ts" "tw_user W = lg2" "tw_heap W t = Some (th\<lparr>t_running := False\<rparr>)" "tw_heap W = (tw_heap w)(t \<mapsto> th\<lparr>t_running := False\<rparr>)"
        using W by (simp_all add: ending_def)
      have cp: "caller_prefix self ts W = caller_prefix self ts w" for self by (rule caller_prefix_stop [OF e(4) u(4)])
      have bye: "log_asked ts W (LogCall (t_id th) LOG_LEVEL_INFO goodbye) = ?bye" using e(2) sm(1) by (simp add: log_line_def cp)
      have "returns (LogExit L lh W) (\<lambda>w'. \<exists>lg. w' = W\<lparr>tw_user := lg\<rparr> \<and> log_ended f ?bye (tw_user W) lg)"
        using LogExit_seq [OF e(1) _ _ u(12) _ e(3), of f rest' lh, unfolded e(2)] d2 2(3) sm u(7,8,9,13) L(2) bye
        by (simp add: log_fits_def cp e(2))
      then obtain lg where "LogExit L lh W = Inr (W\<lparr>tw_user := lg\<rparr>)" "log_ended f ?bye lg2 lg" by (auto simp: e(2) elim!: returnsE)
      with W show ?thesis by (auto simp: logger_threads_def simp del: log_asked.simps intro!: exI [of _ W] exI [of _ lg])
    qed
    show "reg_inv w4 ts \<and> tw_heap w4 t = Some (th\<lparr>t_running := False\<rparr>) \<and> is_int (tw_running w4 - 1) \<and> is_int (tw_running w4)" if "?Q w4" for w4
      using that u(2,3) by (auto simp: ending_def is_int_def INT_MIN_def intro: reg_inv_upd)
  qed
  moreover have "LogEnd L lh tid w = ThreadJoin (finish (logger_threads L lh tid) (Suc (Suc (Suc n))) t) (Some t) ?w1"
    using q(1) q1(1) u(7,12) L(3) by (simp add: LogEnd_def EnqueueExitItem_def good_log_def on_logger_def)
  ultimately show ?thesis
    using sm(1,5-7) 2(4) by (auto simp: ended_def ending_def log_ended_def elim!: returns_mono)
qed

lemma caller_prefix_gone:
  assumes "tw_heap w' = (tw_heap w)(t := None)"
  shows "caller_prefix self (removeAll t ts) w' = caller_prefix self (removeAll t ts) w"
proof -
  have h: "tw_heap w' x = tw_heap w x" if "x \<in> set (removeAll t ts)" for x using that assms by auto
  have f: "find (\<lambda>x. t_id (the (tw_heap w' x)) = self) (removeAll t ts) = find (\<lambda>x. t_id (the (tw_heap w x)) = self) (removeAll t ts)"
    by (rule find_cong) (simp_all add: h)
  show ?thesis
  proof (cases "find (\<lambda>x. t_id (the (tw_heap w x)) = self) (removeAll t ts)")
    case (Some x)
    then have "x \<in> set (removeAll t ts)" by (metis find_Some_iff nth_mem)
    then show ?thesis using Some f h by (simp add: caller_prefix_def)
  qed (simp add: caller_prefix_def f)
qed

text \<open>
  C38. \<open>LogEnd\<close> returns, after the logger's thread has printed every message that still waited, in order, and
  the last one, \<open>logging finished\<close>. All of them go to the standard error and not to the log file, because
  \<open>LogEnd\<close> sets the flag \<open>exiting\<close> first. The logger's stream is closed, its queue and its thread are freed.
\<close>

theorem log_end_drains:
  assumes "logger_up L ts t th f ms w" "ll_waits L = replicate (Suc (length ms)) [] @ rest" "ll_exit_waits L = [] # rest'"
    and "ll_fuel L = Suc (Suc (Suc n))"
  shows "\<exists>w'. LogEnd L lh tid w = Inr w' \<and> tw_heap w' = (tw_heap w)(t := None) \<and> reg_inv w' (removeAll t ts) \<and>
    lg_out (tw_user w') = lg_out (tw_user w) @ map (printed Stderr)
      (ms @ log_asked ts w (LogCall (t_id th) LOG_LEVEL_INFO ''logging finished'')) \<and>
    lg_closed (tw_user w') = lg_closed (tw_user w) @ [f] \<and> lg_queue (tw_user w') = None"
  using LogEnd_seq [OF assms, of lh tid] unfolding log_ended_def by (auto simp del: log_asked.simps elim!: returnsE)

text \<open>
  A logger without a file prints to the standard error, which \<open>_LogExit\<close> closes with the others: the
  first message that is logged after \<open>LogEnd\<close> is printed to a stream that has been closed.
\<close>

theorem log_after_end:
  assumes "logger_up L ts t th Stderr ms w" "ll_waits L = replicate (Suc (length ms)) [] @ rest" "ll_exit_waits L = [] # rest'"
    and "ll_fuel L = Suc (Suc (Suc n))" "level \<le> lg_level (tw_user w)"
    and "log_fits (removeAll t ts) w self msg"
  shows "bnd (LogEnd L lh tid w) (Log (ll_env L) lh self level (Some msg)) = Inl Undefined"
proof -
  obtain w' where w': "LogEnd L lh tid w = Inr w'" "reg_inv w' (removeAll t ts)" "tw_heap w' = (tw_heap w)(t := None)"
    "log_ended Stderr (ms @ log_asked ts w (LogCall (t_id th) LOG_LEVEL_INFO goodbye)) (tw_user w) (tw_user w')"
    using LogEnd_seq [OF assms(1-4), of lh tid] by (auto simp del: log_asked.simps elim!: returnsE)
  have u: "default_logger (tw_user w)" "good_log (ll_env L)" using assms(1) by (simp_all add: logger_up_def)
  note e = w'(4)[unfolded log_ended_def]
  have "\<not> log_filtered level (tw_user w')" using assms(5) e u(1) by (auto simp: log_filtered_def default_logger_def)
  moreover have "log_fits (removeAll t ts) w' self msg" 
    using assms(6) caller_prefix_gone [OF w'(3)] by (simp add: log_fits_def)
  ultimately show ?thesis
    using Log_seq [OF w'(2), of level "ll_env L" lh self msg] write_line_fits [of "removeAll t ts" w' self msg] u e w'(1)
    by (simp add: log_handle_def default_logger_def good_log_def LogDefaultHandler_run_def LogPrintMessage_def Let_def)
qed

section \<open>An example\<close>

text \<open>The main thread and the logger's, with an empty queue.\<close>

definition sample_log_env :: log_env where
  "sample_log_env = \<lparr>lo_text = True, lo_message = True, lo_okq = all_ok, lo_item = True\<rparr>"

definition sample_logger :: "log_stream \<Rightarrow> unit logger" where
  "sample_logger f = \<lparr>lg_level = LOG_LEVEL_INFO, lg_file = Some f, lg_queue = Some new_queue, lg_thread = Some 1, lg_exiting = False,
     lg_custom = False, lg_handler = Some LogDefaultHandler, lg_messages = Map.empty, lg_tick = 0, lg_out = [], lg_closed = [],
     lg_initialized = True, lg_user = ()\<rparr>"

definition logger_main :: "unit logger \<Rightarrow> unit lworld" where
  "logger_main lg = \<lparr>tw_heap = [0 \<mapsto> live_thread 1 True (fresh_thread (Some ''aio4c'') None None None None),
       1 \<mapsto> live_thread 7 True (fresh_thread (Some ''logger'') (Some F_LogInit) (Some F_LogRun) (Some F_LogExit) (Some ()))],
     tw_tick = 2, tw_threads = slots [0, 1], tw_initialized = True, tw_num = 2, tw_running = 2, tw_mutex = False, tw_user = lg\<rparr>"

lemma sample_log_ok:
  "good_log sample_log_env" "reg_inv (logger_main lg) [0, 1]" "default_logger (sample_logger f)"
  "log_queue [] False False (sample_logger f)" "log_target (sample_logger f) = f"
proof -
  show "log_queue [] False False (sample_logger f)" unfolding log_queue_def
    by (intro exI [of _ new_queue] exI [of _ "[]"]) (simp add: sample_logger_def a_empty_def)
qed (simp_all add: good_log_def sample_log_env_def reg_inv_def logger_main_def slots_def AIO4C_MAX_THREADS_def listed_def
    default_logger_def sample_logger_def log_target_def)

lemma logger_main_prefix:
  "caller_prefix (Suc 0) [0, Suc 0] (logger_main lg) = ''aio4c: ''" "caller_prefix 7 [0, Suc 0] (logger_main lg) = ''logger: ''"
  "caller_prefix (Suc 0) [0] (logger_main lg) = ''aio4c: ''"
  by (simp_all add: caller_prefix_def logger_main_def live_thread_def fresh_thread_def)

text \<open>A user's handler that ignores its messages (it is never called here).\<close>

definition no_user :: "unit luser" where
  "no_user level msg x = Inr x"

theorem log_message_exact_witness:
  "Log sample_log_env no_user (Suc 0) LOG_LEVEL_WARN (Some ''hello'') (logger_main (sample_logger Stderr)) =
    bnd (LogDefaultHandler_run sample_log_env LOG_LEVEL_WARN (''aio4c: hello'' @ [CHR 0x0A]) (sample_logger Stderr))
      (\<lambda>lg. Inr (logger_main lg))"
proof -
  let ?lg = "sample_logger Stderr"
  have u: "tw_user (logger_main ?lg) = ?lg" "\<And>lg'. logger_main ?lg\<lparr>tw_user := lg'\<rparr> = logger_main lg'" by (simp_all add: logger_main_def)
  have "\<not> log_filtered LOG_LEVEL_WARN ?lg" "lg_handler ?lg = Some LogDefaultHandler" by (simp_all add: sample_logger_def log_filtered_def)
  with log_message_exact [OF sample_log_ok(2), of LOG_LEVEL_WARN ?lg "Suc 0" "''hello''" sample_log_env no_user] sample_log_ok(1)
  show ?thesis by (simp add: logger_main_prefix u INT_MAX_def log_handle_def good_log_def)
qed

theorem log_order_witness:
  "\<exists>w' ms. log_run sample_log_env no_user [LogCall (Suc 0) LOG_LEVEL_WARN ''a'', LogCall 7 LOG_LEVEL_INFO ''b'', LogWork, LogCall (Suc 0) LOG_LEVEL_DEBUG ''c'']
     (logger_main (sample_logger Stderr)) = Inr w' \<and>
     lg_out (tw_user w') @ map (printed Stderr) ms =
       [(Stderr, ''[warn] aio4c: a'' @ [CHR 0x0A]), (Stderr, ''[info] logger: b'' @ [CHR 0x0A])]"
proof -
  let ?ops = "[LogCall (Suc 0) LOG_LEVEL_WARN ''a'', LogCall 7 LOG_LEVEL_INFO ''b'', LogWork, LogCall (Suc 0) LOG_LEVEL_DEBUG ''c'']"
  let ?w = "logger_main (sample_logger Stderr)"
  have u: "tw_user ?w = sample_logger Stderr" by (simp add: logger_main_def)
  have s: "list_all (log_safe [0, 1] ?w) ?ops" by (simp add: log_fits_def logger_main_prefix)
  have a: "concat (map (log_asked [0, 1] ?w) ?ops) = [(LOG_LEVEL_WARN, ''aio4c: a'' @ [CHR 0x0A]), (LOG_LEVEL_INFO, ''logger: b'' @ [CHR 0x0A])]"
    by (simp add: log_line_def logger_main_prefix u) (simp add: sample_logger_def)
  have out: "lg_out (sample_logger Stderr) = []" by (simp add: sample_logger_def)
  from log_order [OF sample_log_ok(2) _ _ sample_log_ok(1) s, of False no_user, unfolded u] sample_log_ok(3-5) [of Stderr]
  obtain w' ms where "log_run sample_log_env no_user ?ops ?w = Inr w'"
    "lg_out (tw_user w') @ map (printed Stderr) ms =
       map (printed Stderr) [(LOG_LEVEL_WARN, ''aio4c: a'' @ [CHR 0x0A]), (LOG_LEVEL_INFO, ''logger: b'' @ [CHR 0x0A])]"
    unfolding a out by (auto simp del: log_run.simps)
  then show ?thesis by (intro exI [of _ w'] exI [of _ ms]) (simp add: printed_def)
qed

text \<open>The answers for a logger that ends with one message in its queue.\<close>

definition sample_log_life :: log_life where
  "sample_log_life = \<lparr>ll_env = sample_log_env, ll_open = True, ll_strerror = [], ll_queue = (True, (True, 0), (True, 0)),
     ll_start = \<lparr>se_mem = True, se_name = True, se_thread = (True, True, True), se_create = 0, se_id = 7\<rparr>,
     ll_waits = [[], []], ll_exit_waits = [[]], ll_fuel = 3\<rparr>"

lemma late_message:
  obtains lg where "logger_up sample_log_life [0, Suc 0] (Suc 0) (the (tw_heap (logger_main lg) (Suc 0))) f [(LOG_LEVEL_WARN, ''late'')] (logger_main lg)"
    "same_logger (sample_logger f) lg" "lg_out lg = []"
proof -
  obtain lg where lg: "same_logger (sample_logger f) lg" "log_queue ([] @ [(LOG_LEVEL_WARN, ''late'')]) False False lg" "lg_out lg = lg_out (sample_logger f)"
    using log_handler_seq [OF sample_log_ok(4,1), of LOG_LEVEL_WARN "''late''" f] by (auto elim!: returnsE)
  note s = same_loggerD [OF lg(1)]
  have queued: "\<exists>e. log_queue [(LOG_LEVEL_WARN, ''late'')] False e lg" using lg(2) by auto
  have d: "default_logger lg" using sample_log_ok(3) [of f] s by (simp add: default_logger_def)
  have "logger_up sample_log_life [0, Suc 0] (Suc 0) (the (tw_heap (logger_main lg) (Suc 0))) f [(LOG_LEVEL_WARN, ''late'')] (logger_main lg)"
    using sample_log_ok(1) sample_log_ok(2) [of lg] queued s d
    by (simp add: logger_up_def log_fits_def) (simp add: logger_main_def sample_log_life_def logger_thread_def sample_logger_def INT_MAX_def
        live_thread_def fresh_thread_def caller_prefix_def)
  with lg(1,3) that show ?thesis by (simp add: sample_logger_def)
qed

theorem log_end_drains_witness:
  "\<exists>lg w'. log_target lg = LogFile ''log'' \<and> LogEnd sample_log_life no_user digits (logger_main lg) = Inr w' \<and>
     lg_out (tw_user w') = [(Stderr, ''[warn] late''), (Stderr, ''[info] logger: logging finished'' @ [CHR 0x0A])]"
proof (rule late_message [of "LogFile ''log''"])
  fix lg :: "unit logger"
  let ?w = "logger_main lg"
  assume up: "logger_up sample_log_life [0, Suc 0] (Suc 0) (the (tw_heap ?w (Suc 0))) (LogFile ''log'') [(LOG_LEVEL_WARN, ''late'')] ?w"
    and s: "same_logger (sample_logger (LogFile ''log'')) lg" and out: "lg_out lg = []"
  have L: "ll_waits sample_log_life = replicate (Suc (length [(LOG_LEVEL_WARN, ''late'')])) [] @ []" "ll_exit_waits sample_log_life = [] # []"
    "ll_fuel sample_log_life = Suc (Suc (Suc 0))" by (simp_all add: sample_log_life_def)
  have id: "t_id (the (tw_heap ?w (Suc 0))) = 7" "tw_user ?w = lg" by (simp_all add: logger_main_def live_thread_def)
  have asked: "log_asked [0, Suc 0] ?w (LogCall 7 LOG_LEVEL_INFO goodbye) = [(LOG_LEVEL_INFO, ''logger: logging finished'' @ [CHR 0x0A])]"
    using same_loggerD(1) [OF s] by (simp add: log_line_def logger_main_prefix id sample_logger_def)
  obtain w' where "LogEnd sample_log_life no_user digits ?w = Inr w'"
    "lg_out (tw_user w') = map (printed Stderr) [(LOG_LEVEL_WARN, ''late''), (LOG_LEVEL_INFO, ''logger: logging finished'' @ [CHR 0x0A])]"
    using log_end_drains [OF up L, of no_user digits, unfolded id asked out] by auto
  moreover have "log_target lg = LogFile ''log''" using same_loggerD(8) [OF s] sample_log_ok(5) by simp
  ultimately show ?thesis by (intro exI [of _ lg] exI [of _ w']) (simp add: printed_def)
qed

theorem log_after_end_witness:
  "\<exists>lg. log_target lg = Stderr \<and>
     bnd (LogEnd sample_log_life no_user digits (logger_main lg)) (Log sample_log_env no_user (Suc 0) LOG_LEVEL_WARN (Some ''bye'')) = Inl Undefined"
proof (rule late_message [of Stderr])
  fix lg :: "unit logger"
  let ?w = "logger_main lg"
  assume up: "logger_up sample_log_life [0, Suc 0] (Suc 0) (the (tw_heap ?w (Suc 0))) Stderr [(LOG_LEVEL_WARN, ''late'')] ?w"
    and s: "same_logger (sample_logger Stderr) lg"
  have L: "ll_waits sample_log_life = replicate (Suc (length [(LOG_LEVEL_WARN, ''late'')])) [] @ []" "ll_exit_waits sample_log_life = [] # []"
    "ll_fuel sample_log_life = Suc (Suc (Suc 0))" "ll_env sample_log_life = sample_log_env" by (simp_all add: sample_log_life_def)
  have m: "LOG_LEVEL_WARN \<le> lg_level (tw_user ?w)"
    using same_loggerD(1) [OF s] by (simp add: logger_main_def sample_logger_def)
  have f: "log_fits (removeAll (Suc 0) [0, Suc 0]) ?w (Suc 0) ''bye''" by (simp add: log_fits_def logger_main_prefix)
  have "log_target lg = Stderr" using same_loggerD(8) [OF s] sample_log_ok(5) by simp
  with log_after_end [OF up L(1-3) m f, of no_user digits] show ?thesis unfolding L(4) by blast
qed

end
