(* ===== verification/LogDump.thy ===== *)
theory LogDump
  imports LoggerFlow
begin

text \<open>
  \<open>LogBuffer\<close> of \<open>src/log.c\<close>: the size it computes for its text holds every line of the dump, so that
  nothing is cut.
\<close>

section \<open>Text that fits\<close>

text \<open>The text \<open>s\<close> and its zero are in a buffer of \<open>n\<close> bytes.\<close>

definition written :: "nat \<Rightarrow> string \<Rightarrow> string \<times> int \<Rightarrow> bool" where
  "written n s st \<longleftrightarrow> (case st of (buf, pos) \<Rightarrow> length buf = n \<and> pos = int (length s) \<and> length s < n \<and>
     take (Suc (length s)) buf = s @ [CHR 0x00])"

lemma written_step:
  assumes "written n s st" "len \<le> int n" "int (length (s @ t)) < len" "int n \<le> INT_MAX"
  shows "returns (logsnprintf len (Some t) st) (written n (s @ t))"
proof -
  obtain buf pos where st: "st = (buf, pos)" by (cases st)
  have b: "length buf = n" "pos = int (length s)" "length s < n" "take (Suc (length s)) buf = s @ [CHR 0x00]"
    using assms(1) by (simp_all add: written_def st)
  have s: "take (length s) buf = s" using arg_cong [OF b(4), of "take (length s)"] by simp
  have r: "is_int (len - int (length s))" "is_int (int (length s) + int (length t))"
    "to_size (len - int (length s)) = nat (len - int (length s))"
    using assms(2-4) to_size_nonneg [of "len - int (length s)"] by (auto simp: is_int_def INT_MIN_def)
  have t: "take (nat (len - int (length s)) - 1) t = t" using assms(3) by simp
  have "c_vsnprintf buf pos (nat (len - int (length s))) t =
    Inr (s @ (t @ [CHR 0x00]) @ drop (length s + length (t @ [CHR 0x00])) buf)"
    using assms(2,3) b s t by (auto simp: c_vsnprintf_def Let_def)
  with r b(1-3) s assms(2,3) show ?thesis by (simp add: st logsnprintf_def) (simp add: written_def)
qed

lemma written_string:
  assumes "written n s (buf, pos)" "CHR 0x00 \<notin> set s"
  shows "log_string buf = s"
proof -
  have b: "buf = s @ [CHR 0x00] @ drop (Suc (length s)) buf" using assms(1) append_take_drop_id [of "Suc (length s)" buf] by (simp add: written_def)
  have "\<forall>c \<in> set s. c \<noteq> CHR 0x00" using assms(2) by auto
  then show ?thesis unfolding log_string_def by (subst b) (simp add: takeWhile_append2)
qed

section \<open>The lines of a dump\<close>

lemma hex_length: "n < 16 ^ Suc k \<Longrightarrow> length (hex_digits n) \<le> Suc k"
proof (induction k arbitrary: n)
  case 0
  then show ?case by (simp add: hex_digits.simps [of n])
next
  case (Suc k)
  then have "n div 16 < 16 ^ Suc k" by (simp add: div_less_iff_less_mult mult.commute)
  from Suc.IH [OF this] show ?case by (simp add: hex_digits.simps [of n])
qed

lemma format_length: "length (format_02x x) = 2" "length (format_08x i) = 8"
proof -
  have "unat x < 16 ^ Suc 1" using unsigned_less [of x, where ?'a = nat] by simp
  from hex_length [OF this] show "length (format_02x x) = 2" by (simp add: format_02x_def zero_padded_def)
  have "nat (i mod 2 ^ 32) < 16 ^ Suc 7" by (simp add: nat_less_iff)
  from hex_length [OF this] show "length (format_08x i) = 8" by (simp add: format_08x_def zero_padded_def)
qed

definition dump_cell :: "buffer \<Rightarrow> nat \<Rightarrow> string" where
  "dump_cell b p = (if p < nat (b_limit b) then format_02x (b_data b ! p) @ '' '' else ''   '')"

text \<open>The line of the bytes from position \<open>i\<close>, and the lines from there on.\<close>

definition dump_row :: "buffer \<Rightarrow> nat \<Rightarrow> string" where
  "dump_row b i = ''0x'' @ format_08x (int i) @ '': '' @ concat (map (\<lambda>j. dump_cell b (i + j)) [0..<16]) @
     map (\<lambda>p. printable (b_data b ! p)) [i..<min (i + 16) (nat (b_limit b))] @ [CHR 0x0A]"

function dump_rows :: "buffer \<Rightarrow> nat \<Rightarrow> string" where
  "dump_rows b i = (if i < nat (b_limit b) then dump_row b i @ dump_rows b (i + 16) else [])"
  by auto
termination by (relation "measure (\<lambda>(b, i). nat (b_limit b) - i)") auto

declare dump_rows.simps [simp del]

lemma mread_byte:
  assumes "buf_inv b" "p < nat (b_limit b)"
  shows "mread (b_data b) (int p) 1 = Inr [b_data b ! p]"
proof -
  note d = buf_invD [OF assms(1)]
  have p: "p < length (b_data b)" using d assms(2) by linarith
  then have "take 1 (drop p (b_data b)) = [b_data b ! p]" by (simp add: take_Suc_conv_app_nth [of 0] hd_drop_conv_nth)
  then show ?thesis using p by (simp add: mread_def when_ok_def)
qed

lemma cell_length: "length (dump_cell b p) = 3"
  by (simp add: dump_cell_def format_length)

lemma cells_length: "length (concat (map (\<lambda>j. dump_cell b (i + j)) js)) = 3 * length js"
  by (induction js) (simp_all add: cell_length)

lemma row_length: "length (dump_row b i) \<le> 77"
proof -
  have "length [i..<min (i + 16) (nat (b_limit b))] \<le> 16" by simp
  then show ?thesis by (simp add: dump_row_def format_length cells_length)
qed

text \<open>A buffer that can be dumped into a text of \<open>n\<close> bytes of which \<open>len\<close> are used.\<close>

definition dump_room :: "buffer \<Rightarrow> int \<Rightarrow> nat \<Rightarrow> bool" where
  "dump_room b len n \<longleftrightarrow> buf_inv b \<and> b_limit b \<le> INT_MAX - 16 \<and> len \<le> int n \<and> int n \<le> INT_MAX"

lemma dump_step:
  "dump_room b len n \<Longrightarrow> written n s st \<Longrightarrow> int (length (s @ t)) < len \<Longrightarrow> returns (logsnprintf len (Some t) st) (written n (s @ t))"
  using written_step [of n s st len t] by (simp add: dump_room_def)

lemma hex_cell_seq:
  assumes d: "dump_room b len n" and "written n s st" "i < nat (b_limit b)" "j < 16" "int (length s) + 3 < len"
  shows "returns (hex_cell b len (int i) (int j) st) (written n (s @ dump_cell b (i + j)))"
proof -
  have b: "buf_inv b" "b_limit b \<le> INT_MAX - 16" using d by (simp_all add: dump_room_def)
  have "is_int (int i + int j)" using assms(3,4) b by (simp add: is_int_def INT_MIN_def)
  moreover have "(int i + int j < b_limit b) = (i + j < nat (b_limit b))" by linarith
  moreover have "returns (logsnprintf len (Some (dump_cell b (i + j))) st) (written n (s @ dump_cell b (i + j)))"
    by (rule dump_step [OF d assms(2)]) (use assms(5) in \<open>simp add: cell_length\<close>)
  ultimately show ?thesis using mread_byte [OF b(1), of "i + j"]
    by (auto simp: hex_cell_def BufferGetLimit_def BufferGetBytes_def dump_cell_def)
qed

lemma hex_cells_seq:
  assumes d: "dump_room b len n" and i: "i < nat (b_limit b)"
    and "written n s st" "\<forall>j \<in> set js. j < 16" "int (length s) + 3 * int (length js) < len"
  shows "returns (in_turn (map (\<lambda>j. hex_cell b len (int i) (int j)) js) st) (written n (s @ concat (map (\<lambda>j. dump_cell b (i + j)) js)))"
  using assms(3-)
proof (induction js arbitrary: s st)
  case (Cons j js)
  have 1: "returns (hex_cell b len (int i) (int j) st) (written n (s @ dump_cell b (i + j)))"
    by (rule hex_cell_seq [OF d Cons.prems(1) i]) (use Cons.prems in auto)
  have "returns (in_turn (map (\<lambda>j. hex_cell b len (int i) (int j)) js) st')
      (written n (s @ concat (map (\<lambda>j. dump_cell b (i + j)) (j # js))))" if "written n (s @ dump_cell b (i + j)) st'" for st'
    using Cons.IH [OF that] Cons.prems(2,3) by (simp add: cell_length)
  with 1 show ?case by (auto elim!: returns_mono)
qed simp

lemma text_cells_seq:
  assumes d: "dump_room b len n" and i: "i < nat (b_limit b)" and "written n s st" "j + k = 16" "int (length s) + int k < len"
  shows "returns (text_cells k b len (int i) (int j) st)
    (written n (s @ map (\<lambda>p. printable (b_data b ! p)) [i + j..<min (i + 16) (nat (b_limit b))]))"
  using assms(3-)
proof (induction k arbitrary: s st j)
  case (Suc k)
  have b: "buf_inv b" "b_limit b \<le> INT_MAX - 16" using d by (simp_all add: dump_room_def)
  have ij: "is_int (int i + int j)" using Suc.prems(2) i b by (simp add: is_int_def INT_MIN_def)
  have l: "(int i + int j < b_limit b) = (i + j < nat (b_limit b))" by linarith
  show ?case
  proof (cases "i + j < nat (b_limit b)")
    case False
    then have "[i + j..<min (i + 16) (nat (b_limit b))] = []" by simp
    then show ?thesis using ij l False Suc.prems(1) by (simp add: BufferGetLimit_def del: upt_eq_Nil_conv)
  next
    case True
    let ?c = "printable (b_data b ! (i + j))"
    have u: "[i + j..<min (i + 16) (nat (b_limit b))] = (i + j) # [i + Suc j..<min (i + 16) (nat (b_limit b))]"
      using True Suc.prems(2) by (simp add: upt_conv_Cons)
    have 1: "returns (logsnprintf len (Some [?c]) st) (written n (s @ [?c]))"
      by (rule dump_step [OF d Suc.prems(1)]) (use Suc.prems(3) in simp)
    have 2: "returns (text_cells k b len (int i) (int (Suc j)) st')
        (written n ((s @ [?c]) @ map (\<lambda>p. printable (b_data b ! p)) [i + Suc j..<min (i + 16) (nat (b_limit b))]))"
      if "written n (s @ [?c]) st'" for st'
      by (rule Suc.IH [OF that]) (use Suc.prems(2,3) in simp_all)
    have "returns (bnd (logsnprintf len (Some [?c]) st) (text_cells k b len (int i) (int (Suc j))))
        (written n ((s @ [?c]) @ map (\<lambda>p. printable (b_data b ! p)) [i + Suc j..<min (i + 16) (nat (b_limit b))]))"
      by (rule returns_bndI [OF 1], rule 2)
    then show ?thesis unfolding u using ij l True mread_byte [OF b(1) True]
      by (simp add: BufferGetLimit_def BufferGetBytes_def add.commute)
  qed
qed simp

lemma dump_line_seq:
  assumes d: "dump_room b len n" and i: "i < nat (b_limit b)" and "written n s st" "int (length s) + 77 < len"
  shows "returns (dump_line b len (int i) st) (written n (s @ dump_row b i))"
proof -
  let ?a = "''0x'' @ format_08x (int i) @ '': ''" and ?h = "concat (map (\<lambda>j. dump_cell b (i + j)) [0..<16])"
  let ?t = "map (\<lambda>p. printable (b_data b ! p)) [i..<min (i + 16) (nat (b_limit b))]"
  have h: "length ?h = 48" "length ?t \<le> 16" using cells_length [of b i "[0..<16]"] by simp_all
  have a: "length ?a = 12" by (simp add: format_length)
  have 1: "returns (logsnprintf len (Some ?a) st) (written n (s @ ?a))" by (rule dump_step [OF d assms(3)]) (use assms(4) a in simp)
  have 2: "returns (in_turn (map (\<lambda>j. hex_cell b len (int i) (int j)) [0..<16]) st') (written n ((s @ ?a) @ ?h))" if "written n (s @ ?a) st'" for st'
    by (rule hex_cells_seq [OF d i that]) (use assms(4) a in simp_all)
  have 3: "returns (text_cells 16 b len (int i) 0 st') (written n (((s @ ?a) @ ?h) @ ?t))" if "written n ((s @ ?a) @ ?h) st'" for st'
    using text_cells_seq [OF d i that, of 0 16] assms(4) a h by simp
  have 4: "returns (logsnprintf len (Some [CHR 0x0A]) st') (written n ((((s @ ?a) @ ?h) @ ?t) @ [CHR 0x0A]))" if "written n (((s @ ?a) @ ?h) @ ?t) st'" for st'
    by (rule dump_step [OF d that]) (use assms(4) a h in simp)
  have "s @ dump_row b i = (((s @ ?a) @ ?h) @ ?t) @ [CHR 0x0A]" by (simp add: dump_row_def)
  then show ?thesis unfolding dump_line_def
    by (simp only:) (rule returns_bndI [OF 1], rule returns_bndI [OF 2], assumption, rule returns_bndI [OF 3], assumption, rule 4, assumption)
qed

text \<open>The number of bytes that the lines from position \<open>i\<close> on can take.\<close>

definition rows_space :: "buffer \<Rightarrow> nat \<Rightarrow> nat" where
  "rows_space b i = 77 * ((nat (b_limit b) - i + 15) div 16)"

lemma rows_space_step:
  assumes "i < nat (b_limit b)"
  shows "rows_space b i = 77 + rows_space b (i + 16)"
proof -
  have "(m + 15) div 16 = Suc ((m - 16 + 15) div 16)" if "0 < m" for m :: nat
  proof (cases "16 \<le> m")
    case True
    then obtain k where "m = k + 16" using le_Suc_ex [of 16 m] by (metis add.commute)
    moreover have "(k + 15 + 16) div 16 = Suc ((k + 15) div 16)" using div_add_self2 [of 16 "k + 15"] by simp
    ultimately show ?thesis by (simp add: add.commute add.left_commute)
  next
    case False
    with that have "(m + 15) div 16 = 1" by (intro div_nat_eqI) simp_all
    with False show ?thesis by simp
  qed
  from this [of "nat (b_limit b) - i"] assms show ?thesis by (simp add: rows_space_def)
qed

lemma div16_up: "(m + 15) div 16 = m div 16 + (if m mod 16 \<noteq> 0 then 1 else (0::nat))"
proof -
  let ?r = "m mod 16 + 15"
  have 1: "16 * (m div 16) + ?r = m + 15" using mult_div_mod_eq [of 16 m] by linarith
  have 2: "(16 * (m div 16) + ?r) div 16 = 16 * (m div 16) div 16 + ?r div 16" by (rule div_plus_div_distrib_dvd_left) simp
  have 3: "16 * (m div 16) div 16 = m div 16" by (rule nonzero_mult_div_cancel_left) simp
  have 4: "?r div 16 = (if m mod 16 \<noteq> 0 then 1 else 0)"
    using mod_less_divisor [of 16 m] by (auto intro!: div_nat_eqI)
  show ?thesis using 2 unfolding 1 3 4 .
qed

lemma div16_77: "77 * m div 16 \<le> 5 * (m :: nat)" "77 * (m div 16) \<le> 77 * m div 16"
proof -
  have "77 * m div 16 \<le> 80 * m div 16" by (intro div_le_mono) simp
  moreover have "80 * m div 16 = 5 * m" using nonzero_mult_div_cancel_left [of 16 "5 * m"] by simp
  ultimately show "77 * m div 16 \<le> 5 * m" by simp
  have "77 * (m div 16) = (77 * (m div 16) * 16) div 16" by simp
  also have "\<dots> \<le> 77 * m div 16" by (intro div_le_mono) (simp add: mult.assoc)
  finally show "77 * (m div 16) \<le> 77 * m div 16" .
qed

lemma dump_lines_seq:
  assumes d: "dump_room b len n" and "written n s st" "int (length s + rows_space b i) < len" "nat (b_limit b) - i < f"
  shows "returns (dump_lines f b len (int i) st) (written n (s @ dump_rows b i))"
  using assms(2-)
proof (induction f arbitrary: s st i)
  case (Suc f)
  have l: "(int i < b_limit b) = (i < nat (b_limit b))" by linarith
  show ?case
  proof (cases "i < nat (b_limit b)")
    case False
    then show ?thesis using Suc.prems(1) l by (simp add: BufferGetLimit_def dump_rows.simps [of b i])
  next
    case True
    note sp = rows_space_step [OF True]
    have 1: "returns (dump_line b len (int i) st) (written n (s @ dump_row b i))"
      by (rule dump_line_seq [OF d True Suc.prems(1)]) (use Suc.prems(2) sp in simp)
    have 2: "returns (dump_lines f b len (int (i + 16)) st') (written n ((s @ dump_row b i) @ dump_rows b (i + 16)))"
      if "written n (s @ dump_row b i) st'" for st'
      by (rule Suc.IH [OF that]) (use Suc.prems(2,3) True sp row_length [of b i] in simp_all)
    have "is_int (int i + 16)" using True d l by (simp add: dump_room_def is_int_def INT_MIN_def)
    then have "returns (bnd (dump_line b len (int i) st) (\<lambda>st1. bnd (c_int (int i + 16)) (\<lambda>i'. dump_lines f b len i' st1)))
        (written n ((s @ dump_row b i) @ dump_rows b (i + 16)))"
      by (intro returns_bndI [OF 1]) (use 2 in \<open>simp add: add.commute\<close>)
    then show ?thesis using True l by (simp add: BufferGetLimit_def dump_rows.simps [of b i])
  qed
qed simp

section \<open>The whole dump\<close>

lemma size_to_int_small: "int k \<le> INT_MAX \<Longrightarrow> size_to_int k = int k"
  by (simp add: size_to_int_def INT_MAX_def signed_of_nat signed_take_bit_int_eq_self)

lemma to_size_small: "0 \<le> z \<Longrightarrow> z < 2 ^ 64 \<Longrightarrow> to_size z = nat z"
  by (simp add: to_size_def)

lemma dump_size_seq:
  assumes b: "buf_inv b" and n: "5 * (b_limit b - b_position b) \<le> INT_MAX - 400"
  shows "returns (dump_size (b_limit b - b_position b)) (\<lambda>len. int (rows_space b (nat (b_position b))) + 288 \<le> len \<and> len \<le> INT_MAX)"
proof -
  note d = buf_invD [OF b]
  obtain m where m: "b_limit b - b_position b = int m" using d by (metis nonneg_int_cases diff_ge_0_iff_ge)
  have m5: "5 * int m \<le> INT_MAX - 400" using n m by simp
  have rs: "rows_space b (nat (b_position b)) = 77 * ((m + 15) div 16)"
    using m d by (simp add: rows_space_def nat_diff_distrib' [symmetric])
  have k: "to_size (77 * int m) = 77 * m" "to_size (int m) = m" using m5 by (simp_all add: to_size_small INT_MAX_def nat_mult_distrib)
  note q = div16_77(1) [of m]
  then have s: "size_to_int (77 * m div 16) = int (77 * m div 16)" using m5 by (intro size_to_int_small) linarith
  have s2: "to_size (int (77 * m div 16)) = 77 * m div 16" using q m5 by (subst to_size_small) (simp_all add: INT_MAX_def)
  have s3: "to_size (int (77 * m div 16) + 77) = 77 * m div 16 + 77" using q m5 by (subst to_size_small) (simp_all add: INT_MAX_def nat_add_distrib)
  have s4: "size_to_int (77 * m div 16 + 77) = int (77 * m div 16) + 77"
    using q m5 by (subst size_to_int_small) simp_all
  have z: "(int m mod 16 \<noteq> 0) = (m mod 16 \<noteq> 0)" by presburger
  have i: "is_int (int (77 * m div 16) + 77 + 288)" "is_int (int (77 * m div 16) + 288)" using q m5 by (simp_all add: is_int_def INT_MIN_def)
  have "dump_size (int m) = Inr (int (77 * m div 16) + (if m mod 16 \<noteq> 0 then 77 else 0) + 288)"
    using i by (simp add: dump_size_def AIO4C_LOG_BUFFER_SIZE_def AIO4C_LOG_MESSAGE_SIZE_def k s s2 s3 s4 Let_def z
      del: of_nat_mult of_nat_div)
  moreover have "int (77 * ((m + 15) div 16)) \<le> int (77 * m div 16) + (if m mod 16 \<noteq> 0 then 77 else 0)"
  proof -
    have "77 * ((m + 15) div 16) \<le> 77 * m div 16 + (if m mod 16 \<noteq> 0 then 77 else 0)"
      using div16_77(2) [of m] by (simp add: div16_up)
    then have "int (77 * ((m + 15) div 16)) \<le> int (77 * m div 16 + (if m mod 16 \<noteq> 0 then 77 else 0))" by (simp only: of_nat_le_iff)
    then show ?thesis by (simp split: if_splits)
  qed
  ultimately show ?thesis using q m5 unfolding m rs by (auto simp del: of_nat_mult)
qed

lemma digits_length: "n < 10 ^ Suc k \<Longrightarrow> length (digits n) \<le> Suc k"
proof (induction k arbitrary: n)
  case 0
  then show ?case by (simp add: digits.simps [of n])
next
  case (Suc k)
  then have "n div 10 < 10 ^ Suc k" by (simp add: div_less_iff_less_mult mult.commute)
  from Suc.IH [OF this] show ?case by (simp add: digits.simps [of n])
qed

lemma char_nonzero: "0 < n \<Longrightarrow> n < 256 \<Longrightarrow> char_of (n :: nat) \<noteq> CHR 0x00"
proof
  assume n: "0 < n" "n < 256" and "char_of n = CHR 0x00"
  then have "of_char (char_of n) = (0 :: nat)" by simp
  with n show False by simp
qed

lemma digits_nonzero: "CHR 0x00 \<notin> set (digits n)"
proof (induction n rule: digits.induct)
  case (1 n)
  have "char_of (48 + n mod 10) \<noteq> CHR 0x00" by (rule char_nonzero) simp_all
  moreover have "n < 10 \<Longrightarrow> char_of (48 + n) \<noteq> CHR 0x00" by (rule char_nonzero) simp_all
  ultimately show ?case using 1 by (auto simp: digits.simps [of n])
qed

lemma hex_nonzero: "CHR 0x00 \<notin> set (hex_digits n)"
proof (induction n rule: hex_digits.induct)
  case (1 n)
  have d: "d < 16 \<Longrightarrow> hex_digit d \<noteq> CHR 0x00" for d unfolding hex_digit_def using char_nonzero [of "48 + d"] char_nonzero [of "87 + d"] by simp
  show ?case using 1 d [of n] d [of "n mod 16"] by (auto simp: hex_digits.simps [of n])
qed

lemma printable_nonzero: "printable x \<noteq> CHR 0x00"
  unfolding printable_def using char_nonzero [of "unat x"] by simp

lemma padded_nonzero: "CHR 0x00 \<notin> set s \<Longrightarrow> CHR 0x00 \<notin> set (zero_padded k s)"
  by (auto simp: zero_padded_def)

lemma row_nonzero: "CHR 0x00 \<notin> set (dump_row b i)"
proof -
  have "CHR 0x00 \<notin> set (dump_cell b p)" for p by (simp add: dump_cell_def format_02x_def padded_nonzero hex_nonzero)
  moreover have "CHR 0x00 \<notin> (\<lambda>p. printable (b_data b ! p)) ` A" for A using printable_nonzero by (metis imageE)
  ultimately show ?thesis by (simp add: dump_row_def format_08x_def padded_nonzero hex_nonzero)
qed

lemma rows_nonzero: "CHR 0x00 \<notin> set (dump_rows b i)"
proof (induction b i rule: dump_rows.induct)
  case (1 b i)
  then show ?case using row_nonzero [of b i] by (simp add: dump_rows.simps [of b i])
qed

lemma header_ok: "length (dump_header ptr b) \<le> length ptr + 68" "CHR 0x00 \<notin> set ptr \<Longrightarrow> CHR 0x00 \<notin> set (dump_header ptr b)"
proof -
  have "length (digits (nat (z mod 2 ^ 32))) \<le> Suc 9" for z :: int by (rule digits_length) (simp add: nat_less_iff)
  from this [of "BufferGetPosition b"] this [of "BufferGetLimit b"] this [of "BufferGetCapacity b"]
  show "length (dump_header ptr b) \<le> length ptr + 68" by (simp add: dump_header_def)
  show "CHR 0x00 \<notin> set ptr \<Longrightarrow> CHR 0x00 \<notin> set (dump_header ptr b)" using digits_nonzero by (simp add: dump_header_def)
qed

text \<open>
  C39. \<open>LogBuffer\<close> reserves 77 bytes for every 16 bytes it dumps, and that is enough: as long as the name
  of the thread and the address are short, the text handed to the handler is the header and one complete
  line for every 16 bytes, none of them cut, for every buffer up to a fifth of the range of \<open>int\<close>.
\<close>

theorem log_buffer_complete:
  assumes r: "reg_inv w ts" "\<not> log_filtered level (tw_user w)" "lo_text env"
    and b: "buf_inv b" "b_limit b \<le> INT_MAX - 16" "5 * (b_limit b - b_position b) \<le> INT_MAX - 400" "b_limit b - b_position b < int f"
    and p: "length (caller_prefix self ts w) + length ptr \<le> 219" "CHR 0x00 \<notin> set (caller_prefix self ts w @ ptr)"
  shows "LogBuffer env lh f self ptr level b w =
    bnd (log_handle env lh (the (lg_handler (tw_user w))) level
           (caller_prefix self ts w @ dump_header ptr b @ dump_rows b (nat (b_position b))) (tw_user w))
      (\<lambda>lg. Inr (w\<lparr>tw_user := lg\<rparr>))"
proof -
  note d = buf_invD [OF b(1)]
  let ?c = "caller_prefix self ts w" and ?h = "dump_header ptr b" and ?i = "nat (b_position b)"
  obtain len where len: "dump_size (b_limit b - b_position b) = Inr len" "int (rows_space b ?i) + 288 \<le> len" "len \<le> INT_MAX"
    using dump_size_seq [OF b(1,3)] by (rule returnsE) blast
  let ?n = "nat len"
  have room: "dump_room b len ?n" "dump_room b AIO4C_LOG_MESSAGE_SIZE ?n" using b(1,2) len by (simp_all add: dump_room_def AIO4C_LOG_MESSAGE_SIZE_def)
  have lh: "length ?c + length ?h \<le> 287" using header_ok(1) [of ptr b] p(1) by simp
  have w0: "written ?n [] (replicate ?n (CHR 0x00), 0)" using len(2) by (simp add: written_def)
  obtain st where st: "(if ?c = [] then Inr (replicate ?n (CHR 0x00), 0)
      else logsnprintf AIO4C_LOG_MESSAGE_SIZE (Some ?c) (replicate ?n (CHR 0x00), 0)) = Inr st" "written ?n ?c st"
    using dump_step [OF room(2) w0, of ?c] w0 lh by (cases "?c = []") (auto simp: AIO4C_LOG_MESSAGE_SIZE_def elim!: returnsE)
  obtain st1 where st1: "logsnprintf len (Some ?h) st = Inr st1" "written ?n (?c @ ?h) st1"
    using dump_step [OF room(1) st(2), of ?h] lh len(2) by (auto elim!: returnsE)
  have "returns (dump_lines f b len (int ?i) st1) (written ?n ((?c @ ?h) @ dump_rows b ?i))"
    by (rule dump_lines_seq [OF room(1) st1(2)]) (use lh len(2) b(4) d in simp_all)
  then obtain buf pos where st2: "dump_lines f b len (b_position b) st1 = Inr (buf, pos)" "written ?n ((?c @ ?h) @ dump_rows b ?i) (buf, pos)"
    using d by (auto elim!: returnsE)
  have "log_string buf = ?c @ ?h @ dump_rows b ?i"
    using written_string [OF st2(2)] rows_nonzero header_ok(2) p(2) by simp
  moreover have "is_int (b_limit b - b_position b)" using d by (simp add: is_int_def INT_MIN_def)
  moreover obtain h where "lg_handler (tw_user w) = Some h" using r(2) by (auto simp: log_filtered_def)
  ultimately show ?thesis using r(2,3) len(1,2) st(1) st1(1) st2(1)
    by (simp add: LogBuffer_def logprefix_seq [OF r(1)] BufferGetLimit_def BufferGetPosition_def bnd_assoc split_def cong: bnd_cong)
qed

theorem log_buffer_complete_witness:
  "LogBuffer sample_log_env no_user 9 (Suc 0) ''0x1000'' LOG_LEVEL_INFO small_buffer (logger_main (sample_logger Stderr)) =
    bnd (LogDefaultHandler_run sample_log_env LOG_LEVEL_INFO
           (''aio4c: '' @ dump_header ''0x1000'' small_buffer @ dump_rows small_buffer 0) (sample_logger Stderr))
      (\<lambda>lg. Inr (logger_main lg))"
proof -
  let ?lg = "sample_logger Stderr"
  have u: "tw_user (logger_main ?lg) = ?lg" "\<And>lg'. logger_main ?lg\<lparr>tw_user := lg'\<rparr> = logger_main lg'" by (simp_all add: logger_main_def)
  have l: "\<not> log_filtered LOG_LEVEL_INFO ?lg" "lg_handler ?lg = Some LogDefaultHandler" by (simp_all add: sample_logger_def log_filtered_def)
  have b: "b_limit small_buffer = 8" "b_position small_buffer = 0" by (simp_all add: small_buffer_def)
  show ?thesis
    using log_buffer_complete [OF sample_log_ok(2), of LOG_LEVEL_INFO ?lg sample_log_env small_buffer 9 "Suc 0" "''0x1000''" no_user]
      small_buffer_inv sample_log_ok(1) l by (simp add: b u logger_main_prefix INT_MAX_def log_handle_def good_log_def)
qed

end
