(* ===== verification/Options.thy ===== *)
theory Options
  imports Loggers
begin

text \<open>
  The command line of \<open>src/aio4c.c\<close>, without the options for statistics, and the two functions that
  start and end the library, in the POSIX branch.
\<close>

section \<open>The C library\<close>

text \<open>\<open>strcasecmp(a, b) == 0\<close> in the C locale.\<close>

definition c_tolower :: "char \<Rightarrow> char" where
  "c_tolower c = (let n = of_char c :: nat in if 65 \<le> n \<and> n \<le> 90 then char_of (n + 32) else c)"

definition same_word :: "string \<Rightarrow> string \<Rightarrow> bool" where
  "same_word a b \<longleftrightarrow> map c_tolower a = map c_tolower b"

definition is_digit :: "char \<Rightarrow> bool" where
  "is_digit c \<longleftrightarrow> 48 \<le> (of_char c :: nat) \<and> (of_char c :: nat) \<le> 57"

definition is_blank :: "char \<Rightarrow> bool" where
  "is_blank c \<longleftrightarrow> of_char c = (32 :: nat) \<or> 9 \<le> (of_char c :: nat) \<and> (of_char c :: nat) \<le> 13"

fun digits_value :: "int \<Rightarrow> string \<Rightarrow> int" where
  "digits_value n [] = n"
| "digits_value n (c # cs) = digits_value (10 * n + int (of_char c) - 48) cs"

definition LONG_MAX :: int where
  "LONG_MAX = 2 ^ 63 - 1"

text \<open>
  \<open>strtol(s, &endptr, 10)\<close>: blanks, a sign, then digits as far as they go; 0 without any digit, and the
  nearest \<open>long\<close> for numbers out of range.
\<close>

definition strtol10 :: "string \<Rightarrow> int" where
  "strtol10 s =
     (let t = dropWhile is_blank s;
          neg = (t \<noteq> [] \<and> hd t = CHR ''-'');
          u = (if t \<noteq> [] \<and> (hd t = CHR ''-'' \<or> hd t = CHR ''+'') then tl t else t);
          v = digits_value 0 (takeWhile is_digit u) in
      if neg then max (- v) (- LONG_MAX - 1) else min v LONG_MAX)"

section \<open>The options\<close>

text \<open>The character \<open>s[k]\<close>; a string ends with a zero.\<close>

definition char_at :: "string \<Rightarrow> nat \<Rightarrow> char" where
  "char_at s k = (s @ [CHR 0x00]) ! k"

fun num_level :: "nat \<Rightarrow> log_level" where
  "num_level 0 = LOG_LEVEL_FATAL"
| "num_level (Suc 0) = LOG_LEVEL_ERROR"
| "num_level (Suc (Suc 0)) = LOG_LEVEL_WARN"
| "num_level (Suc (Suc (Suc 0))) = LOG_LEVEL_INFO"
| "num_level _ = LOG_LEVEL_DEBUG"

definition AIO4C_LOG_LEVEL_MAX :: int where
  "AIO4C_LOG_LEVEL_MAX = 5"

text \<open>The argument of \<open>-Ll\<close>: the new level.\<close>

definition set_level :: "string \<Rightarrow> log_options \<Rightarrow> log_options" where
  "set_level s opts =
     (if same_word ''fatal'' s then opts\<lparr>opt_log_level := LOG_LEVEL_FATAL\<rparr>
      else if same_word ''error'' s then opts\<lparr>opt_log_level := LOG_LEVEL_ERROR\<rparr>
      else if same_word ''warn'' s then opts\<lparr>opt_log_level := LOG_LEVEL_WARN\<rparr>
      else if same_word ''info'' s then opts\<lparr>opt_log_level := LOG_LEVEL_INFO\<rparr>
      else if same_word ''debug'' s then opts\<lparr>opt_log_level := LOG_LEVEL_DEBUG\<rparr>
      else
        let v = strtol10 s in
        if v < AIO4C_LOG_LEVEL_MAX \<and> 0 \<le> v then opts\<lparr>opt_log_level := num_level (nat v)\<rparr> else opts)"

datatype arg_kind = ArgFile | ArgLevel | ArgHelp | ArgOther

text \<open>The nested \<open>switch\<close> over the first three characters of an argument.\<close>

definition arg_kind_of :: "string \<Rightarrow> arg_kind" where
  "arg_kind_of a =
     (if char_at a 0 \<noteq> CHR ''-'' then ArgOther
      else if char_at a 1 = CHR ''L'' then
        (if char_at a 2 = CHR ''o'' then ArgFile else if char_at a 2 = CHR ''l'' then ArgLevel else ArgOther)
      else if char_at a 1 = CHR ''A'' then (if char_at a 2 = CHR ''h'' then ArgHelp else ArgOther)
      else ArgOther)"

text \<open>
  The arguments behind the program's name. The first component is false when the help option ends the
  process.
\<close>

fun ParseArguments :: "string list \<Rightarrow> log_options \<Rightarrow> bool \<times> log_options" where
  "ParseArguments [] opts = (True, opts)"
| "ParseArguments (a # args) opts =
     (case arg_kind_of a of
        ArgFile \<Rightarrow>
          (case args of [] \<Rightarrow> (True, opts) | v # rest \<Rightarrow> ParseArguments rest (opts\<lparr>opt_log_file := Some v\<rparr>))
      | ArgLevel \<Rightarrow>
          (case args of [] \<Rightarrow> (True, opts) | v # rest \<Rightarrow> ParseArguments rest (set_level v opts))
      | ArgHelp \<Rightarrow> (False, opts)
      | ArgOther \<Rightarrow> ParseArguments args opts)"

section \<open>Start and end of the library\<close>

text \<open>The global variables as they are initialised.\<close>

definition default_options :: log_options where
  "default_options = \<lparr>opt_log_level = LOG_LEVEL_FATAL, opt_log_file = None\<rparr>"

definition Aio4cEnd :: "log_life \<Rightarrow> 'x luser \<Rightarrow> (nat \<Rightarrow> string) \<Rightarrow> 'x lworld \<Rightarrow> 'x lworld res" where
  "Aio4cEnd L lh tid w = LogEnd L lh tid w"

text \<open>\<open>self\<close> is the calling thread; the result is false when the process has exited.\<close>

definition Aio4cInit ::
  "log_life \<Rightarrow> 'x luser \<Rightarrow> (nat \<Rightarrow> string) \<Rightarrow> nat \<Rightarrow> string list \<Rightarrow> bool \<Rightarrow> 'x \<Rightarrow> 'x lworld \<Rightarrow> (bool \<times> 'x lworld) res" where
  "Aio4cInit L lh tid self args handler x w =
     (case ParseArguments args default_options of (go, opts) \<Rightarrow>
      if \<not> go then bnd (Aio4cEnd L lh tid w) (\<lambda>w1. Inr (False, w1))
      else
        bnd (ThreadMain self w) (\<lambda>w1.
        bnd (LogInit L lh tid self opts handler x w1) (\<lambda>w2. Inr (True, w2))))"

section \<open>The order of options\<close>

text \<open>What one option asks for, and one of the ways to write it.\<close>

datatype setting = SetLevel log_level bool | SetFile string | Unknown string

fun written_as :: "setting \<Rightarrow> string list" where
  "written_as (SetLevel l number) = [''-Ll'', if number then digits (level_num l) else levelStr l]"
| "written_as (SetFile name) = [''-Lo'', name]"
| "written_as (Unknown s) = [s]"

fun setting_ok :: "setting \<Rightarrow> bool" where
  "setting_ok (Unknown s) \<longleftrightarrow> arg_kind_of s = ArgOther"
| "setting_ok _ \<longleftrightarrow> True"

fun asked_for :: "setting \<Rightarrow> log_options \<Rightarrow> log_options" where
  "asked_for (SetLevel l _) opts = opts\<lparr>opt_log_level := l\<rparr>"
| "asked_for (SetFile name) opts = opts\<lparr>opt_log_file := Some name\<rparr>"
| "asked_for (Unknown _) opts = opts"

lemma level_digits: "digits 0 = ''0''" "digits 1 = ''1''" "digits 2 = ''2''" "digits 3 = ''3''" "digits 4 = ''4''"
  by code_simp+

lemma level_values: "strtol10 ''0'' = 0" "strtol10 ''1'' = 1" "strtol10 ''2'' = 2" "strtol10 ''3'' = 3" "strtol10 ''4'' = 4"
  by code_simp+

lemma not_words:
  "\<not> same_word w ''0''" "\<not> same_word w ''1''" "\<not> same_word w ''2''" "\<not> same_word w ''3''" "\<not> same_word w ''4''"
  if "w \<in> {''fatal'', ''error'', ''warn'', ''info'', ''debug''}"
  using that by (auto simp: same_word_def)

lemma level_words: "same_word (levelStr a) (levelStr b) \<longleftrightarrow> a = b"
  by (cases a; cases b) (simp_all, code_simp+)

lemma level_numbers:
  "strtol10 (digits (level_num l)) = int (level_num l)" "num_level (level_num l) = l" "level_num l < 5"
  "w \<in> {''fatal'', ''error'', ''warn'', ''info'', ''debug''} \<Longrightarrow> \<not> same_word w (digits (level_num l))"
proof -
  show "strtol10 (digits (level_num l)) = int (level_num l)" by (cases l) (simp_all add: level_digits [simplified] level_values)
  show "num_level (level_num l) = l" by (cases l) (simp_all add: numeral_eq_Suc)
  show "level_num l < 5" by (cases l) simp_all
  show "w \<in> {''fatal'', ''error'', ''warn'', ''info'', ''debug''} \<Longrightarrow> \<not> same_word w (digits (level_num l))"
    using not_words [of w] by (cases l) (simp_all add: level_digits [simplified])
qed

lemma set_level_written: "set_level (if number then digits (level_num l) else levelStr l) opts = opts\<lparr>opt_log_level := l\<rparr>"
proof (cases number)
  case True
  then show ?thesis using level_numbers(3) [of l]
    by (simp add: set_level_def level_numbers AIO4C_LOG_LEVEL_MAX_def Let_def)
next
  case False
  have w: "same_word ''fatal'' (levelStr l) = (l = LOG_LEVEL_FATAL)" "same_word ''error'' (levelStr l) = (l = LOG_LEVEL_ERROR)"
    "same_word ''warn'' (levelStr l) = (l = LOG_LEVEL_WARN)" "same_word ''info'' (levelStr l) = (l = LOG_LEVEL_INFO)"
    "same_word ''debug'' (levelStr l) = (l = LOG_LEVEL_DEBUG)"
    using level_words [of LOG_LEVEL_FATAL l] level_words [of LOG_LEVEL_ERROR l] level_words [of LOG_LEVEL_WARN l]
      level_words [of LOG_LEVEL_INFO l] level_words [of LOG_LEVEL_DEBUG l] by auto
  have "set_level (levelStr l) opts = opts\<lparr>opt_log_level := l\<rparr>"
    unfolding set_level_def w by (cases l) (simp_all only: if_True if_False log_level.distinct simp_thms)
  then show ?thesis using False by simp
qed

lemma kinds: "arg_kind_of ''-Ll'' = ArgLevel" "arg_kind_of ''-Lo'' = ArgFile" "arg_kind_of (''-Ah'' @ s) = ArgHelp"
  by (simp_all add: arg_kind_of_def char_at_def)

text \<open>
  C40. Options written on the command line are read back in order, whatever unknown arguments stand between
  them: a level by name or by number and a file name each replace the earlier one.
\<close>

theorem options_read_back:
  assumes "\<forall>s \<in> set ss. setting_ok s"
  shows "ParseArguments (concat (map written_as ss)) opts = (True, fold asked_for ss opts)"
  using assms
proof (induction ss arbitrary: opts)
  case (Cons s ss)
  then show ?case by (cases s) (simp_all add: kinds set_level_written del: digits.simps)
qed simp

theorem options_read_back_witness:
  "ParseArguments [''-Ll'', ''warn'', ''-v'', ''-Lo'', ''out.log'', ''-Ll'', ''4''] default_options =
     (True, \<lparr>opt_log_level = LOG_LEVEL_DEBUG, opt_log_file = Some ''out.log''\<rparr>)"
proof -
  let ?ss = "[SetLevel LOG_LEVEL_WARN False, Unknown ''-v'', SetFile ''out.log'', SetLevel LOG_LEVEL_DEBUG True]"
  have ok: "\<forall>s \<in> set ?ss. setting_ok s" by (simp add: arg_kind_of_def char_at_def)
  show ?thesis using options_read_back [OF ok, of default_options] by (simp add: level_digits default_options_def)
qed

text \<open>
  A level that is neither a name nor a number is read as the number 0: a mistyped level turns every message
  off but the fatal ones.
\<close>

lemma mistyped_level: "set_level ''inf0'' opts = opts\<lparr>opt_log_level := LOG_LEVEL_FATAL\<rparr>"
proof -
  have "strtol10 ''inf0'' = 0" by code_simp
  moreover have "\<not> same_word ''fatal'' ''inf0''" "\<not> same_word ''error'' ''inf0''" "\<not> same_word ''warn'' ''inf0''"
    "\<not> same_word ''info'' ''inf0''" "\<not> same_word ''debug'' ''inf0''" by code_simp+
  ultimately show ?thesis by (simp add: set_level_def AIO4C_LOG_LEVEL_MAX_def Let_def)
qed

end
