(* ===== verification/Sessions.thy ===== *)
theory Sessions
  imports Options LoggerFlow
begin

text \<open>
  The life of a process that uses the library: \<open>Aio4cInit\<close> of \<open>src/aio4c.c\<close> registers the main thread and
  starts the logger of \<open>src/log.c\<close>, threads log, and \<open>Aio4cEnd\<close> ends the logger.
\<close>

section \<open>Starting the logger\<close>

definition target_of :: "log_options \<Rightarrow> log_stream" where
  "target_of opts = (case opt_log_file opts of None \<Rightarrow> Stderr | Some name \<Rightarrow> LogFile name)"

text \<open>The variable \<open>_logger\<close> before \<open>LogInit\<close>, and the logger that waits for its messages \<open>ms\<close>.\<close>

definition static_logger :: "'x \<Rightarrow> 'x logger" where
  "static_logger x = \<lparr>lg_level = LOG_LEVEL_FATAL, lg_file = None, lg_queue = None, lg_thread = None, lg_exiting = False, lg_custom = False,
     lg_handler = None, lg_messages = Map.empty, lg_tick = 0, lg_out = [], lg_closed = [], lg_initialized = False, lg_user = x\<rparr>"

definition started_logger :: "log_options \<Rightarrow> nat \<Rightarrow> 'x \<Rightarrow> 'x logger" where
  "started_logger opts t x = (static_logger x)\<lparr>lg_initialized := True, lg_handler := Some LogDefaultHandler, lg_level := opt_log_level opts,
     lg_file := Some (target_of opts), lg_queue := Some new_queue, lg_thread := Some t\<rparr>"

lemma started_logger_ok:
  "default_logger (started_logger opts t x)" "log_queue [] False False (started_logger opts t x)"
  "log_target (started_logger opts t x) = target_of opts"
proof -
  show "log_queue [] False False (started_logger opts t x)" unfolding log_queue_def
    by (intro exI [of _ new_queue] exI [of _ "[]"]) (simp add: started_logger_def a_empty_def)
qed (simp_all add: default_logger_def started_logger_def static_logger_def log_target_def)

definition good_log_life :: "log_life \<Rightarrow> bool" where
  "good_log_life L \<longleftrightarrow> good_log (ll_env L) \<and> ll_open L \<and> good_queue (ll_queue L) \<and> good_start (ll_start L)"

abbreviation "hello tid new \<equiv> ''logging is initialized, logger tid is '' @ tid new"

definition logger_new_thread :: "(log_fun, unit) thread" where
  "logger_new_thread = fresh_thread (Some ''logger'') (Some F_LogInit) (Some F_LogRun) (Some F_LogExit) (Some ())"

text \<open>The world in which the logger's thread is started.\<close>

definition before_start :: "log_options \<Rightarrow> 'x \<Rightarrow> 'x lworld \<Rightarrow> 'x lworld" where
  "before_start opts x w = w\<lparr>tw_tick := Suc (tw_tick w), tw_heap := (tw_heap w)(tw_tick w \<mapsto> logger_new_thread),
     tw_user := started_logger opts (tw_tick w) x\<rparr>"

lemma LogInit_unfold:
  assumes "good_log_life L" "tw_user w = static_logger x" "tw_num w < int AIO4C_MAX_THREADS"
  shows "LogInit L lh tid self opts False y w =
    bnd (ThreadStart 0 (se_id (ll_start L)) [serve (logger_threads L lh tid) (tw_tick w)] (tw_tick w) (before_start opts x w)) (\<lambda>(started, w1).
      if started then Inr w1
      else
        bnd (Log (ll_env L) lh self LOG_LEVEL_WARN (Some ''cannot start logging thread, logging may slow down performances'') w1) (\<lambda>w4.
        bnd (FreeThread (lg_thread (tw_user w4)) w4) (\<lambda>(p, w5). Inr (on_logger (\<lambda>lg. lg\<lparr>lg_thread := p\<rparr>) w5))))"
proof -
  have q: "NewQueue (fst (ll_queue L)) (fst (snd (ll_queue L))) (snd (snd (ll_queue L))) = Some new_queue"
    using assms(1) NewQueue_ok by (simp add: good_log_life_def good_queue_def)
  have e: "se_thread (ll_start L) = (True, True, True)" "se_create (ll_start L) = 0" using assms(1) by (simp_all add: good_log_life_def good_start_def)
  have o: "ll_open L" using assms(1) by (simp add: good_log_life_def)
  show ?thesis
    using assms(2,3) by (cases "opt_log_file opts")
      (simp_all add: LogInit_def start_logger_def q e o on_logger_def NewThread_seq before_start_def started_logger_def static_logger_def
        target_of_def logger_new_thread_def Let_def)
qed

lemma find_snoc: "find P xs = None \<Longrightarrow> P y \<Longrightarrow> find P (xs @ [y]) = Some y"
  by (induction xs) (auto split: if_splits)

lemma LogInit_seq:
  assumes L: "good_log_life L" and r: "reg_inv w ts" "tw_num w < int AIO4C_MAX_THREADS" "is_int (tw_running w + 1)"
    and u: "tw_user w = static_logger x" and new: "new = se_id (ll_start L)" "find (\<lambda>t. t_id (the (tw_heap w t)) = new) ts = None"
    and t: "tw_tick w \<notin> set ts" and h: "length (''logger: '' @ hello tid new) \<le> 288" "CHR 0x00 \<notin> set (tid new)"
  shows "\<exists>w'. LogInit L lh tid self opts False y w = Inr w' \<and> reg_inv w' (ts @ [tw_tick w]) \<and> tw_running w' = tw_running w + 1 \<and>
    tw_heap w' = (tw_heap w)(tw_tick w \<mapsto> live_thread new True logger_new_thread) \<and>
    same_logger (started_logger opts (tw_tick w) x) (tw_user w') \<and> lg_out (tw_user w') = [] \<and>
    log_queue (if LOG_LEVEL_INFO \<le> opt_log_level opts then [(LOG_LEVEL_INFO, take 287 (''logger: '' @ hello tid new @ [CHR 0x0A]))] else [])
      False False (tw_user w')"
proof -
  let ?t = "tw_tick w" and ?lg = "started_logger opts (tw_tick w) x" and ?b = "before_start opts x w" and ?e = "ll_start L"
  let ?line = "if LOG_LEVEL_INFO \<le> opt_log_level opts then [(LOG_LEVEL_INFO, take 287 (''logger: '' @ hello tid new @ [CHR 0x0A]))] else []"
  let ?Q = "\<lambda>W b w2. b \<and> (\<exists>lg. w2 = W\<lparr>tw_user := lg\<rparr> \<and> same_logger ?lg lg \<and> lg_out lg = [] \<and> log_queue ?line False False lg)"
  have env: "good_log (ll_env L)" using L by (simp add: good_log_life_def)
  have init: "returns (tc_call (logger_threads L lh tid) F_LogInit (Some ()) W) (\<lambda>(b, w2). tw_heap w2 ?t = tw_heap W ?t \<and> ?Q W b w2)"
    if W: "starting ts ?t new logger_new_thread ?b W" for W
  proof -
    have W1: "tw_user W = ?lg" "reg_inv W (ts @ [?t])" using W by (simp_all add: starting_def before_start_def)
    have ht: "tw_heap W ?t = Some (logger_new_thread\<lparr>t_id := new, t_running := True, t_lock := Some taken_lock, t_condInit := Some (waited free_cond)\<rparr>)"
      and ho: "\<And>x. x \<noteq> ?t \<Longrightarrow> tw_heap W x = tw_heap w x" using W by (simp_all add: starting_def before_start_def)
    have hs: "tw_heap W x = tw_heap w x" if "x \<in> set ts" for x using t that by (intro ho) auto
    have "find (\<lambda>t. t_id (the (tw_heap W t)) = new) ts = find (\<lambda>t. t_id (the (tw_heap w t)) = new) ts"
      by (intro find_cong) (simp_all add: hs)
    then have "find (\<lambda>t. t_id (the (tw_heap W t)) = new) (ts @ [?t]) = Some ?t" using new(2) ht by (simp add: find_snoc)
    then have p: "caller_prefix new (ts @ [?t]) W = ''logger: ''" by (simp add: caller_prefix_def ht logger_new_thread_def fresh_thread_def)
    have s: "log_fits (ts @ [?t]) W new (hello tid new)" using h by (simp add: log_fits_def p)
    have dq: "default_logger (tw_user W)" "log_queue [] False False (tw_user W)" by (simp_all only: W1(1) started_logger_ok)
    have a: "log_asked (ts @ [?t]) W (LogCall new LOG_LEVEL_INFO (hello tid new)) = ?line"
      by (simp add: W1(1) log_line_def p) (simp add: started_logger_def)
    have "returns (Log (ll_env L) lh new LOG_LEVEL_INFO (Some (hello tid new)) W) (\<lambda>w2. \<exists>lg. w2 = W\<lparr>tw_user := lg\<rparr> \<and> same_logger ?lg lg \<and>
        lg_out lg = lg_out ?lg \<and> log_queue ([] @ ?line) False False lg)"
      using log_call_seq [OF W1(2) dq env s, of lh LOG_LEVEL_INFO] unfolding W1(1) a .
    moreover have "LogInit_run L lh tid W = bnd (Log (ll_env L) lh new LOG_LEVEL_INFO (Some (hello tid new)) W) (\<lambda>w2. Inr (True, w2))"
      using ht by (simp add: LogInit_run_def W1(1) get_thread_def ThreadGetId_def) (simp add: started_logger_def get_thread_def ThreadGetId_def)
    moreover have "lg_out ?lg = []" by (simp add: started_logger_def static_logger_def)
    ultimately show ?thesis by (auto simp: logger_threads_def elim!: returns_mono)
  qed
  have "returns (ThreadStart 0 new [serve (logger_threads L lh tid) ?t] ?t ?b) (\<lambda>(r, w'). r \<and>
    (\<exists>W b w2. starting ts ?t new logger_new_thread ?b W \<and> ?Q W b w2 \<and> w' = put_thread ?t (live_thread new b logger_new_thread) w2))"
    unfolding logger_new_thread_def
  proof (rule start_seq [where Q = ?Q])
    show "reg_inv ?b ts" by (rule reg_inv_upd [OF r(1)]) (simp_all add: before_start_def)
    show "tw_num ?b < int AIO4C_MAX_THREADS" "is_int (tw_running ?b + 1)" using r by (simp_all add: before_start_def)
    show "tw_heap ?b ?t = Some (fresh_thread (Some ''logger'') (Some F_LogInit) (Some F_LogRun) (Some F_LogExit) (Some ()))"
      by (simp add: before_start_def logger_new_thread_def)
  qed (rule init [unfolded logger_new_thread_def])
  then obtain W lg where s: "ThreadStart 0 new [serve (logger_threads L lh tid) ?t] ?t ?b = Inr (True, put_thread ?t (live_thread new True logger_new_thread) (W\<lparr>tw_user := lg\<rparr>))"
    "starting ts ?t new logger_new_thread ?b W" "same_logger ?lg lg" "lg_out lg = []" "log_queue ?line False False lg"
    by (auto elim!: returnsE)
  let ?w' = "put_thread ?t (live_thread new True logger_new_thread) (W\<lparr>tw_user := lg\<rparr>)"
  have "LogInit L lh tid self opts False y w = Inr ?w'"
    using s(1) new(1) by (simp add: LogInit_unfold [OF L u r(2)])
  moreover have "reg_inv W (ts @ [?t])" using s(2) by (simp add: starting_def)
  then have "reg_inv ?w' (ts @ [?t])" by (rule reg_inv_upd) simp_all
  ultimately show ?thesis using s(2-5)
    by (intro exI [of _ ?w']) (simp add: starting_def before_start_def put_thread_def)
qed

section \<open>From start to end\<close>

text \<open>A process before it calls the library.\<close>

definition process_start :: "'x \<Rightarrow> 'x lworld" where
  "process_start x = \<lparr>tw_heap = Map.empty, tw_tick = 1, tw_threads = replicate AIO4C_MAX_THREADS None, tw_initialized = False,
     tw_num = 0, tw_running = 0, tw_mutex = False, tw_user = static_logger x\<rparr>"

lemma ThreadMain_seq:
  "\<exists>th w. ThreadMain self (process_start x) = Inr w \<and> reg_inv w [0] \<and> tw_num w = 1 \<and> tw_running w = 0 \<and> tw_tick w = 1 \<and>
     tw_user w = static_logger x \<and> tw_heap w = [0 \<mapsto> th] \<and> t_id th = self \<and> t_name th = Some ''aio4c''"
  by (auto simp: ThreadMain_def process_start_def reg_inv_def AIO4C_MAX_THREADS_def is_int_def INT_MIN_def INT_MAX_def listed_def Let_def
      upd_conv_take_nth_drop)

text \<open>The names that the main thread \<open>main\<close> and the logger's \<open>new\<close> put before their messages; other threads are not registered.\<close>

definition who :: "nat \<Rightarrow> nat \<Rightarrow> nat \<Rightarrow> string" where
  "who main new self = (if self = main then ''aio4c: '' else if self = new then ''logger: '' else [])"

fun session_line :: "nat \<Rightarrow> nat \<Rightarrow> log_level \<Rightarrow> log_op \<Rightarrow> (log_level \<times> string) list" where
  "session_line main new limit (LogCall self level msg) =
     (if level \<le> limit then [(level, take 287 (who main new self @ msg @ [CHR 0x0A]))] else [])"
| "session_line main new limit LogWork = []"

fun session_fits :: "nat \<Rightarrow> nat \<Rightarrow> log_op \<Rightarrow> bool" where
  "session_fits main new (LogCall self level msg) \<longleftrightarrow> length (who main new self @ msg) \<le> 288 \<and> CHR 0x00 \<notin> set msg"
| "session_fits main new LogWork \<longleftrightarrow> True"

lemma who_nonzero: "CHR 0x00 \<notin> set (who main new self)"
  by (simp add: who_def)

lemma two_threads:
  assumes "tw_heap w = [0 \<mapsto> th, 1 \<mapsto> live_thread new True logger_new_thread]" "t_id th = main" "t_name th = Some ''aio4c''"
  shows "caller_prefix self [0, 1] w = who main new self"
  using assms by (simp add: caller_prefix_def who_def live_thread_def logger_new_thread_def fresh_thread_def)

lemma session_view:
  assumes "\<And>self. caller_prefix self ts w = who main new self" "lg_level (tw_user w) = limit"
  shows "log_asked ts w op = session_line main new limit op" "session_fits main new op \<Longrightarrow> log_safe ts w op"
  using who_nonzero by (cases op; simp add: assms log_line_def log_fits_def)+

lemma session_length: "length (session_line main new limit op) \<le> 1"
  by (cases op) simp_all

definition session_lines :: "log_life \<Rightarrow> (nat \<Rightarrow> string) \<Rightarrow> nat \<Rightarrow> log_level \<Rightarrow> log_op list \<Rightarrow> (log_level \<times> string) list" where
  "session_lines L tid main limit ops =
     (let new = se_id (ll_start L) in
      concat (map (session_line main new limit)
        (LogCall new LOG_LEVEL_INFO (hello tid new) # ops @ [LogCall new LOG_LEVEL_INFO goodbye])))"

text \<open>A logger that can be started, and that is given enough rounds for \<open>k\<close> messages.\<close>

definition session_life :: "log_life \<Rightarrow> (nat \<Rightarrow> string) \<Rightarrow> nat \<Rightarrow> bool" where
  "session_life L tid k \<longleftrightarrow> good_log_life L \<and> (\<exists>m. k + 2 \<le> m \<and> ll_waits L = replicate m []) \<and> (\<exists>rest. ll_exit_waits L = [] # rest) \<and>
     (\<exists>n. ll_fuel L = Suc (Suc (Suc n))) \<and>
     length (''logger: '' @ hello tid (se_id (ll_start L))) \<le> 288 \<and> CHR 0x00 \<notin> set (tid (se_id (ll_start L)))"

lemma session_end:
  assumes up: "logger_up L ts t th f ms w" and L: "session_life L tid k" and ms: "length ms \<le> Suc k"
    and v: "log_asked ts w (LogCall (t_id th) LOG_LEVEL_INFO goodbye) = bye"
  shows "\<exists>w'. Aio4cEnd L lh tid w = Inr w' \<and> reg_inv w' (removeAll t ts) \<and> tw_heap w' = (tw_heap w)(t := None) \<and>
    lg_out (tw_user w') = lg_out (tw_user w) @ map (printed Stderr) (ms @ bye)"
proof -
  obtain m n rest where m: "k + 2 \<le> m" "ll_waits L = replicate m []" "ll_exit_waits L = [] # rest" "ll_fuel L = Suc (Suc (Suc n))"
    using L by (auto simp: session_life_def)
  obtain j where "m = Suc (length ms) + j" using m(1) ms le_Suc_ex [of "Suc (length ms)" m] by auto
  then have "ll_waits L = replicate (Suc (length ms)) [] @ replicate j []" using m(2) by (simp add: replicate_add [symmetric] del: replicate_Suc)
  from LogEnd_seq [OF up this m(3,4), of lh tid] show ?thesis unfolding v Aio4cEnd_def
    by (auto simp: log_ended_def elim!: returnsE)
qed

lemma session_length_all: "length (concat (map (session_line main new limit) ops)) \<le> length ops"
proof (induction ops)
  case (Cons op ops)
  then show ?case using session_length [of main new limit op] by simp
qed simp

text \<open>What was printed to one stream and what still waits, when that goes to the other.\<close>

lemma printed_split:
  assumes "out @ map (printed f) ms = map (printed f) ls"
  shows "out @ map (printed g) (ms @ ls') = map (printed f) (take (length out) (ls @ ls')) @ map (printed g) (drop (length out) (ls @ ls'))"
proof -
  have l: "length out \<le> length ls" using arg_cong [OF assms, of length] by simp
  have o: "out = map (printed f) (take (length out) ls)" using arg_cong [OF assms, of "take (length out)"] by (simp add: take_map)
  have g: "map (printed g) xs = map (\<lambda>p. (g, snd p)) (map (printed f) xs)" for xs by (simp add: printed_def)
  have "map (printed f) ms = map (printed f) (drop (length out) ls)" using arg_cong [OF assms, of "drop (length out)"] by (simp add: drop_map)
  then have "map (printed g) ms = map (printed g) (drop (length out) ls)" by (simp only: g)
  then show ?thesis using l o by simp
qed

text \<open>
  C4. From \<open>Aio4cInit\<close> to \<open>Aio4cEnd\<close>: the logger's thread starts, and whatever threads log and however that
  thread runs in between, in the end it is gone and everything was printed once, in order and filtered by
  level: its greeting, the lines of all threads with the caller's name, and its last line. The first of
  these went to the log file, if the options name one, and those still pending at the end to the
  standard error.
\<close>

theorem session_prints_everything:
  assumes L: "session_life L tid (length ops)" and self: "main \<noteq> se_id (ll_start L)"
    and args: "ParseArguments args default_options = (True, opts)"
    and ops: "list_all (session_fits main (se_id (ll_start L))) ops"
  shows "\<exists>w1 w2 w3 j. Aio4cInit L lh tid main args False y (process_start x) = Inr (True, w1) \<and> log_run (ll_env L) lh ops w1 = Inr w2 \<and>
    Aio4cEnd L lh tid w2 = Inr w3 \<and> listed (take (nat (tw_num w3)) (tw_threads w3)) = [0] \<and>
    lg_out (tw_user w3) = map (printed (target_of opts)) (take j (session_lines L tid main (opt_log_level opts) ops)) @
      map (printed Stderr) (drop j (session_lines L tid main (opt_log_level opts) ops))"
proof -
  let ?new = "se_id (ll_start L)" and ?limit = "opt_log_level opts" and ?f = "target_of opts"
  let ?line = "session_line main ?new ?limit"
  obtain th w0 where w0: "ThreadMain main (process_start x) = Inr w0" "reg_inv w0 [0]" "tw_num w0 = 1" "tw_running w0 = 0" "tw_tick w0 = 1"
    "tw_user w0 = static_logger x" "tw_heap w0 = [0 \<mapsto> th]" "t_id th = main" "t_name th = Some ''aio4c''" using ThreadMain_seq [of main x] by (elim exE conjE) (rule that)
  have n0: "tw_num w0 < int AIO4C_MAX_THREADS" "is_int (tw_running w0 + 1)"
    using w0(3,4) by (simp_all add: AIO4C_MAX_THREADS_def is_int_def INT_MIN_def INT_MAX_def)
  have h: "good_log_life L" "length (''logger: '' @ hello tid ?new) \<le> 288" "CHR 0x00 \<notin> set (tid ?new)" using L by (simp_all add: session_life_def)
  have nf: "find (\<lambda>t. t_id (the (tw_heap w0 t)) = ?new) [0] = None" using w0(7,8) self by simp
  have tk: "tw_tick w0 \<notin> set [0]" using w0(5) by simp
  have first: "(if LOG_LEVEL_INFO \<le> ?limit then [(LOG_LEVEL_INFO, take 287 (''logger: '' @ hello tid ?new @ [CHR 0x0A]))] else []) =
      ?line (LogCall ?new LOG_LEVEL_INFO (hello tid ?new))" using self by (simp add: who_def)
  from LogInit_seq [where new = ?new and tid = tid, OF h(1) w0(2) n0 w0(6) refl nf tk h(2,3), of lh main opts y, unfolded first w0(4,5,7)]
  obtain w1 where w1: "LogInit L lh tid main opts False y w0 = Inr w1" "reg_inv w1 ([0] @ [1])" "tw_running w1 = 0 + 1"
    "tw_heap w1 = [0 \<mapsto> th, 1 \<mapsto> live_thread ?new True logger_new_thread]" "same_logger (started_logger opts 1 x) (tw_user w1)"
    "lg_out (tw_user w1) = []" "log_queue (?line (LogCall ?new LOG_LEVEL_INFO (hello tid ?new))) False False (tw_user w1)"
    by (elim exE conjE) (rule that)
  have r1: "reg_inv w1 [0, 1]" "tw_running w1 = 1" using w1(2,3) by simp_all
  note s1 = same_loggerD [OF w1(5)]
  have d: "default_logger (tw_user w1)" "log_target (tw_user w1) = ?f" using started_logger_ok [of opts 1 x] s1 by (simp_all add: default_logger_def)
  have lim: "lg_level (tw_user w1) = ?limit" using s1(1) by (simp add: started_logger_def)
  have v: "log_asked [0, 1] w1 op = ?line op" "session_fits main ?new op \<Longrightarrow> log_safe [0, 1] w1 op" for op
    using session_view [OF two_threads [OF w1(4) w0(8,9)] lim] by simp_all
  have env: "good_log (ll_env L)" using h(1) by (simp add: good_log_life_def)
  have safe: "list_all (log_safe [0, 1] w1) ops" using ops v(2) by (auto simp: list_all_iff)
  have asked: "log_asked [0, 1] w1 = ?line" using v(1) by (rule ext)
  from log_run_seq [OF r1(1) d(1) w1(7) env safe, of lh, unfolded asked w1(6)]
  obtain lg ms e where 2: "log_run (ll_env L) lh ops w1 = Inr (w1\<lparr>tw_user := lg\<rparr>)" "same_logger (tw_user w1) lg" "log_queue ms False e lg"
    "lg_out lg @ map (printed (log_target lg)) ms =
     map (printed (log_target lg)) (?line (LogCall ?new LOG_LEVEL_INFO (hello tid ?new)) @ concat (map ?line ops))"
    by (auto elim!: returnsE)
  let ?w2 = "w1\<lparr>tw_user := lg\<rparr>" and ?all = "?line (LogCall ?new LOG_LEVEL_INFO (hello tid ?new)) @ concat (map ?line ops)"
  note s2 = same_loggerD [OF 2(2)]
  note view = log_view [OF refl 2(2)]
  have "log_safe [0, 1] w1 (LogCall ?new LOG_LEVEL_INFO goodbye)" by (rule v(2)) (use self in \<open>simp add: who_def\<close>)
  then have "log_safe [0, 1] ?w2 (LogCall ?new LOG_LEVEL_INFO goodbye)" by (simp only: view(3))
  then have fits: "log_fits [0, 1] ?w2 ?new goodbye" by simp
  have up: "logger_up L [0, 1] 1 (live_thread ?new True logger_new_thread) ?f ms ?w2" unfolding logger_up_def
  proof (intro conjI)
    show "reg_inv ?w2 [0, 1]" using r1(1) view(1) by blast
    show "logger_thread (live_thread ?new True logger_new_thread)" by (simp add: logger_thread_def logger_new_thread_def)
    show "default_logger (tw_user ?w2)" using d(1) view(4) by simp
    show "\<exists>e. log_queue ms False e (tw_user ?w2)" using 2(3) by auto
    show "log_fits [0, 1] ?w2 (t_id (live_thread ?new True logger_new_thread)) goodbye" using fits by (simp add: live_thread_def)
  qed (use r1(2) w1(4) s1 s2 env in \<open>simp_all add: started_logger_def static_logger_def INT_MAX_def\<close>)
  have ms: "length ms \<le> Suc (length ops)"
    using arg_cong [OF 2(4), of length] session_length [of main ?new ?limit "LogCall ?new LOG_LEVEL_INFO (hello tid ?new)"]
      session_length_all [of main ?new ?limit ops] by (simp del: session_line.simps)
  have bye: "log_asked [0, 1] ?w2 (LogCall (t_id (live_thread ?new True logger_new_thread)) LOG_LEVEL_INFO goodbye) =
    ?line (LogCall ?new LOG_LEVEL_INFO goodbye)"
    using v(1) view(2) [of "[0, 1]"] by (simp add: live_thread_def del: log_asked.simps session_line.simps)
  obtain w3 where w3: "Aio4cEnd L lh tid ?w2 = Inr w3" "reg_inv w3 (removeAll 1 [0, 1])"
    "lg_out (tw_user w3) = lg_out lg @ map (printed Stderr) (ms @ ?line (LogCall ?new LOG_LEVEL_INFO goodbye))"
    using session_end [OF up L ms bye, of lh] by auto
  have lines: "session_lines L tid main ?limit ops = ?all @ ?line (LogCall ?new LOG_LEVEL_INFO goodbye)"
    by (simp add: session_lines_def Let_def del: session_line.simps)
  have "lg_out lg @ map (printed ?f) ms = map (printed ?f) ?all" using 2(4) s2(8) d(2) by (simp del: session_line.simps)
  note split = printed_split [OF this, of Stderr "?line (LogCall ?new LOG_LEVEL_INFO goodbye)"]
  have init: "Aio4cInit L lh tid main args False y (process_start x) = Inr (True, w1)" using w0(1) w1(1) by (simp add: Aio4cInit_def args)
  show ?thesis unfolding lines
    by (intro exI [of _ w1] exI [of _ ?w2] exI [of _ w3] exI [of _ "length (lg_out lg)"] conjI init 2(1) w3(1))
      (use w3(2,3) split in \<open>simp_all add: reg_inv_def del: session_line.simps\<close>)
qed

text \<open>A process that is run with \<open>-Ll info\<close>: its main thread logs twice.\<close>

theorem session_prints_everything_witness:
  "\<exists>w1 w2 w3. Aio4cInit (sample_log_life\<lparr>ll_waits := replicate 5 []\<rparr>) no_user (\<lambda>_. ''0x7'') 1 [''-Ll'', ''info''] False () (process_start ()) = Inr (True, w1) \<and>
     log_run sample_log_env no_user [LogCall 1 LOG_LEVEL_WARN ''one'', LogWork, LogCall 1 LOG_LEVEL_DEBUG ''two''] w1 = Inr w2 \<and>
     Aio4cEnd (sample_log_life\<lparr>ll_waits := replicate 5 []\<rparr>) no_user (\<lambda>_. ''0x7'') w2 = Inr w3 \<and>
     lg_out (tw_user w3) = [(Stderr, ''[info] logger: logging is initialized, logger tid is 0x7'' @ [CHR 0x0A]),
       (Stderr, ''[warn] aio4c: one'' @ [CHR 0x0A]), (Stderr, ''[info] logger: logging finished'' @ [CHR 0x0A])]"
proof -
  let ?L = "sample_log_life\<lparr>ll_waits := replicate 5 []\<rparr>" and ?tid = "\<lambda>_ :: nat. ''0x7''"
  let ?ops = "[LogCall 1 LOG_LEVEL_WARN ''one'', LogWork, LogCall 1 LOG_LEVEL_DEBUG ''two'']"
  have L: "session_life ?L ?tid (length ?ops)" unfolding session_life_def
    by (intro conjI exI [of _ "5 :: nat"] exI [of _ "[]"] exI [of _ "0 :: nat"])
      (simp_all add: sample_log_life_def good_log_life_def sample_log_ok(1) good_queue_def good_start_def)
  have id: "se_id (ll_start ?L) = 7" "ll_env ?L = sample_log_env" "se_id (ll_start sample_log_life) = 7" by (simp_all add: sample_log_life_def)
  have args: "ParseArguments [''-Ll'', ''info''] default_options = (True, default_options\<lparr>opt_log_level := LOG_LEVEL_INFO\<rparr>)"
    using set_level_written [of False LOG_LEVEL_INFO default_options] by (simp add: kinds)
  have ops: "list_all (session_fits 1 (se_id (ll_start ?L))) ?ops" by (simp add: id who_def)
  have ne: "1 \<noteq> se_id (ll_start ?L)" by (simp add: sample_log_life_def)
  have lines: "session_lines ?L ?tid 1 LOG_LEVEL_INFO ?ops = [(LOG_LEVEL_INFO, ''logger: logging is initialized, logger tid is 0x7'' @ [CHR 0x0A]),
      (LOG_LEVEL_WARN, ''aio4c: one'' @ [CHR 0x0A]), (LOG_LEVEL_INFO, ''logger: logging finished'' @ [CHR 0x0A])]"
    using ne by (simp add: session_lines_def id(3) who_def Let_def)
  have tgt: "target_of (default_options\<lparr>opt_log_level := LOG_LEVEL_INFO\<rparr>) = Stderr" by (simp add: target_of_def default_options_def)
  from session_prints_everything [OF L ne args ops, of no_user "()" "()", unfolded tgt]
  obtain w1 w2 w3 j where "Aio4cInit ?L no_user ?tid 1 [''-Ll'', ''info''] False () (process_start ()) = Inr (True, w1)"
    "log_run (ll_env ?L) no_user ?ops w1 = Inr w2" "Aio4cEnd ?L no_user ?tid w2 = Inr w3"
    "lg_out (tw_user w3) = map (printed Stderr) (take j (session_lines ?L ?tid 1 LOG_LEVEL_INFO ?ops)) @
      map (printed Stderr) (drop j (session_lines ?L ?tid 1 LOG_LEVEL_INFO ?ops))" by auto
  moreover from this(4) have "lg_out (tw_user w3) = map (printed Stderr) (session_lines ?L ?tid 1 LOG_LEVEL_INFO ?ops)"
    by (metis append_take_drop_id map_append)
  ultimately show ?thesis unfolding lines id(2) by (intro exI [of _ w1] exI [of _ w2] exI [of _ w3]) (simp add: printed_def del: log_run.simps)
qed

end
