(* ===== verification/Spec2Isabelle.thy ===== *)
theory Spec2Isabelle
  imports Selectors HandlerCalls Handshake ClientFlow PipeClose ServerFlow LogDump Sessions
begin

text \<open>
  Aio4c: verification library.

  Aio4c is an event driven network library in C. A \<^emph>\<open>connection\<close> is a state machine that calls the
  handlers registered for its events; a \<^emph>\<open>pipe\<close> is three threads that serve many connections: the
  \<^emph>\<open>reader\<close> polls the sockets, reads, and hands copies of the data to the \<^emph>\<open>worker\<close>, which calls the
  connections' own handlers, and the \<^emph>\<open>writer\<close> lets connections write. A \<^emph>\<open>client\<close> is a thread with one
  pipe and one connection; a \<^emph>\<open>server\<close> is a thread that owns an \<^emph>\<open>acceptor\<close>, a thread that listens,
  accepts connections and gives each to the pipe of least load. All of them talk through blocking
  \<^emph>\<open>queues\<close>, and the \<^emph>\<open>logger\<close> is one more thread behind such a queue.

  \<^bold>\<open>How the code is modelled.\<close> A call of a C function is a value of the type \<open>res\<close> (Prelude): \<open>Inr\<close> the
  value it returns, or \<open>Inl\<close> a \<open>fault\<close>: \<open>Undefined\<close> (behaviour that C leaves undefined: a stale or
  null pointer, an access outside an object, an overflow of \<open>int\<close>), \<open>Aborted\<close> (\<open>abort()\<close>, a failed
  assertion), \<open>Blocked\<close> (the call waits for ever) and \<open>OutOfFuel\<close>. \<open>bnd\<close> sequences calls, and
  \<open>returns m P\<close> says that the call \<open>m\<close> returns normally with a value that satisfies \<open>P\<close>; so a theorem that
  a function returns excludes all four faults. An \<open>int\<close> is an integer whose arithmetic passes
  \<open>c_int\<close>, a byte is an \<open>8 word\<close>, structures are records with the fields of the source, pointers
  are references into an explicit heap (nodes of lists, buffers, pools, threads, addresses), a
  possibly null pointer is an \<open>option\<close>. What the operating system or the caller answers (memory, the
  results of \<open>poll\<close>, \<open>connect\<close>, \<open>send\<close>, \<open>recv\<close>, \<open>getaddrinfo\<close>, the functions registered as
  handlers) is an argument of the definitions. Concurrency is modelled as explicit steps: a step
  relation for locks (\<open>lock_step\<close>) and for the handshake of two threads (\<open>hs_move\<close>), arbitrary lists of
  operations for queues, pipes and the logger; where a thread waits for another, that one runs.

  \<^bold>\<open>The theories\<close>, each with the file under \<open>src/src\<close> that it models:

  \<^item> Prelude: outcomes, the judgement \<open>returns\<close> and its collection of rules, partial refinement
    (\<open>refines\<close>), byte arrays, decimal digits, lists of operations run \<open>in_turn\<close>.
  \<^item> Lists (\<open>list.c\<close>): nodes with \<open>prev\<close>, \<open>next\<close> and the asserts of the code on a heap; every program of list
    operations refines the same program on a sequence.
  \<^item> Locks (\<open>lock.c\<close>, \<open>condition.c\<close>): mutual exclusion and the recorded state and owner, by rule induction
    over the step relation.
  \<^item> Alloc (\<open>alloc.c\<close>): hidden headers, the counters and the detection of double frees.
  \<^item> Queues (\<open>queue.c\<close>): the pointer queue refines an abstract FIFO with its flags \<open>exit\<close> and \<open>emptied\<close>. The
    locale \<open>fifo\<close> states the contract of a queue and proves what clients need; it is interpreted on the
    code's \<open>q_enq\<close> and \<open>q_deq\<close> (\<open>lq\<close>).
  \<^item> Buffers and Pools (\<open>buffer.c\<close>): byte buffers with two bytes of reserve, and pools that hand each buffer
    out once.
  \<^item> Events (\<open>event.c\<close>): one list of handlers per event. The locale \<open>quiet_world\<close> describes a state
    that contains an event queue and callbacks that leave it alone; it is interpreted on a queue by
    itself (\<open>pw\<close>) and on both queues of a connection (\<open>sysq\<close>, \<open>usrq\<close>).
  \<^item> Selectors (\<open>selector.c\<close>): the array given to \<open>poll\<close>, the keys and their nodes, registration, selection
    and the loop over the ready keys.
  \<^item> Connections, ConnectionLife (\<open>connection.c\<close>): the state machine, reading, writing, closing, the owners
    that must all let go; then what these operations guarantee.
  \<^item> HandlerCalls: handlers that call back into their connection, as those of the programs under
    \<open>src/test\<close> do, are programs (\<open>action\<close>) whose calls call the handlers again (\<open>handler_cb\<close>); the locale
    \<open>busy_world\<close>, interpreted on both queues of a connection (\<open>bsys\<close>, \<open>busr\<close>), is the loop over an event's
    handlers while these handle other events of the same queue.
  \<^item> Threads, ThreadLife, Handshake (\<open>thread.c\<close>): the registry, the life of a thread, starting and joining
    it, and every interleaving of \<open>ThreadStart\<close> (\<open>start_move\<close>) with the new thread (\<open>run_move\<close>).
  \<^item> Pipes (\<open>reader.c\<close>, \<open>worker.c\<close>, \<open>writer.c\<close>) holds the definitions; PipeRead and PipeFlow show that data
    reaches the handlers in order and no buffer is lost (\<open>lost_buffers\<close>), PipeConns and PipeClose follow a connection from its
    registration to the last of the three reports of its end, PipeLife starts and ends the threads.
  \<^item> Addresses (\<open>address.c\<close>), Clients and ClientFlow (\<open>client.c\<close>), Acceptors and AcceptFlow
    (\<open>acceptor.c\<close>), Servers and ServerFlow (\<open>server.c\<close>). A client's attempts fail at once or after
    EINPROGRESS (\<open>refusing\<close>); what an acceptor does to its listening socket is recorded (\<open>sock_call\<close>).
  \<^item> Loggers, LoggerFlow, LogDump (\<open>log.c\<close>): formatting into buffers of fixed size, the queue of messages
    and the thread that prints them, the dump of a buffer.
  \<^item> Options (\<open>aio4c.c\<close>): the command line, the start and the end of the library; Sessions follows a process
    from its start to its end.

  A definition has the name of the C function without its leading underscore; a suffix \<open>_run\<close> marks the
  body of a callback whose name is a constructor. Loop bodies and pieces of long functions that are used twice
  are definitions of their own.

  \<^bold>\<open>What is shown.\<close> Refinement of abstract data types (lists, queues, event queues, the registry of
  threads, the order of data in a pipe and of log lines); invariants under arbitrary programs of
  operations (buffers, allocator, selector, connection, locks); exact functional behaviour with every error branch
  (selection, state changes, reading and writing, the choice of a pipe); ownership (buffers
  of pools, the connection that is freed exactly once, pipes that leave no thread or buffer behind);
  progress (the handshake of threads, a client that gives up, a worker and a logger that drain their queues,
  a server that ends up listening); and faults that the code really has, as theorems that the
  call is \<open>Undefined\<close>, \<open>Blocked\<close> or \<open>Aborted\<close>. Each theorem with hypotheses is followed by one that
  applies it to a concrete state.

  \<^bold>\<open>Bounds and fuel.\<close> Recursion over heap lists takes one step per node, and the code's own counters
  (\<open>q_tick\<close> and the like, never smaller than the number of nodes) bound it. Loops of threads take one
  element of a list of answers (wake-ups of \<open>Dequeue\<close>, results of \<open>poll\<close>) per round; theorems say how
  many suffice, for instance one per waiting item and one for the exit item. \<open>dump_lines\<close> needs one
  unit per line of 16 bytes, \<open>handler_cb\<close> three levels of handlers within handlers, \<open>run_loop\<close> one per call of a thread's routine and one to see that it stops.

  \<^bold>\<open>Not modelled.\<close> The Win32 branches and those without \<open>poll\<close> or \<open>pipe\<close>; the statistics probes
  (\<open>stats.c\<close>, off unless configured, wall-clock times in floating point); the messages that other components
  send to the logger and the error texts of \<open>error.c\<close> (a call of \<open>Raise\<close> formats a text and passes it
  to \<open>Log\<close>; the component goes on the same way whatever becomes of it); the options for statistics; the
  JNI bindings. Handlers that register or remove handlers of the event being handled, and those of a
  change of state that change it again, are outside the theorems that say that calls return; the
  faults they cause are theorems of Events and ConnectionLife. Data races on unprotected fields are not modelled, except where
  a theorem shows an interleaving that frees memory still in use.
\<close>

end
